(* ===== verification/Prelude.thy ===== *)
theory Prelude
  imports Main "HOL-Library.Word" "HOL-Library.Sublist" "HOL-Library.Char_ord"
    "HOL-Library.List_Lexorder"
begin

text \<open>
  Shared vocabulary of the development: Go's byte strings as lists of characters, the parts of
  the Go packages strings, bytes, encoding/hex and sort that the program uses, base-256
  numerals (the bridge between 32-byte digests and 256-bit words), and the generic list and
  finite-map lemmas the components share.
\<close>

section \<open>Lemma collections\<close>

named_theorems go_str "rewrite rules for the string functions"
named_theorems db_simps "one-step behaviour of the store operations"
named_theorems merkle_simps "one-step behaviour of the Merkle computations"

section \<open>Results: Go's (value, error) pairs\<close>

text \<open>A fallible Go function returns \<open>Inl\<close> of its error or \<open>Inr\<close> of its value.\<close>

definition bind_res :: "'e + 'a \<Rightarrow> ('a \<Rightarrow> 'e + 'b) \<Rightarrow> 'e + 'b" where
  "bind_res r f = (case r of Inl e \<Rightarrow> Inl e | Inr x \<Rightarrow> f x)"

definition map_err :: "('e \<Rightarrow> 'f) \<Rightarrow> 'e + 'a \<Rightarrow> 'f + 'a" where
  "map_err g r = (case r of Inl e \<Rightarrow> Inl (g e) | Inr x \<Rightarrow> Inr x)"

lemma bind_res_simps [simp]:
  "bind_res (Inl e) f = Inl e"
  "bind_res (Inr x) f = f x"
  by (simp_all add: bind_res_def)

lemma map_err_simps [simp]:
  "map_err g (Inl e) = Inl (g e)"
  "map_err g (Inr x) = Inr x"
  by (simp_all add: map_err_def)

lemma bind_res_eq_Inr:
  "bind_res r f = Inr y \<longleftrightarrow> (\<exists>x. r = Inr x \<and> f x = Inr y)"
  by (cases r) auto

lemma map_err_eq_Inr [simp]: "map_err g r = Inr x \<longleftrightarrow> r = Inr x"
  by (cases r) auto

section \<open>Go maps\<close>

text \<open>
  A Go map is an association list with distinct keys whose order is the order one \<open>range\<close>
  loop happens to visit. Theorems quantify over the list, hence over every visiting order.
\<close>

type_synonym ('k, 'v) gomap = "('k \<times> 'v) list"

abbreviation gokeys :: "('k, 'v) gomap \<Rightarrow> 'k list" where
  "gokeys m \<equiv> map fst m"

abbreviation gomap_ok :: "('k, 'v) gomap \<Rightarrow> bool" where
  "gomap_ok m \<equiv> distinct (map fst m)"

text \<open>Assignment \<open>m[k] = v\<close>: in place when the key is present, a new entry otherwise.\<close>

fun gomap_set :: "'k \<Rightarrow> 'v \<Rightarrow> ('k, 'v) gomap \<Rightarrow> ('k, 'v) gomap" where
  "gomap_set k v [] = [(k, v)]"
| "gomap_set k v (p # ps) = (if fst p = k then (k, v) # ps else p # gomap_set k v ps)"

definition gomap_del :: "'k \<Rightarrow> ('k, 'v) gomap \<Rightarrow> ('k, 'v) gomap" where
  "gomap_del k m = filter (\<lambda>p. fst p \<noteq> k) m"

lemma map_of_gomap_set [simp]: "map_of (gomap_set k v m) = (map_of m)(k \<mapsto> v)"
  by (induction m) (auto simp: fun_eq_iff)

lemma keys_gomap_set: "fst ` set (gomap_set k v m) = insert k (fst ` set m)"
  by (induction m) auto

lemma gomap_ok_set [simp]: "gomap_ok m \<Longrightarrow> gomap_ok (gomap_set k v m)"
proof (induction m)
  case (Cons p m)
  then show ?case using keys_gomap_set [of k v m] by auto
qed simp

lemma map_of_gomap_del [simp]: "map_of (gomap_del k m) = (map_of m)(k := None)"
  by (induction m) (auto simp: gomap_del_def fun_eq_iff)

lemma gomap_ok_del [simp]: "gomap_ok m \<Longrightarrow> gomap_ok (gomap_del k m)"
  by (auto simp: gomap_del_def distinct_map inj_on_def)

lemma length_gomap_set:
  "length (gomap_set k v m) = (if k \<in> fst ` set m then length m else Suc (length m))"
  by (induction m) auto

section \<open>Package strings\<close>

text \<open>A Go string is its bytes; a \<open>char\<close> is one byte.\<close>

type_synonym bytes = string

definition strings_HasPrefix :: "string \<Rightarrow> string \<Rightarrow> bool" where
  "strings_HasPrefix s p = prefix p s"

definition strings_HasSuffix :: "string \<Rightarrow> string \<Rightarrow> bool" where
  "strings_HasSuffix s p = (length p \<le> length s \<and> drop (length s - length p) s = p)"

text \<open>\<open>strings.Index\<close> and \<open>strings.LastIndex\<close>; Go's \<open>-1\<close> is \<open>None\<close>.\<close>

fun strings_Index :: "string \<Rightarrow> string \<Rightarrow> nat option" where
  "strings_Index [] p = (if p = [] then Some 0 else None)"
| "strings_Index (c # cs) p =
     (if prefix p (c # cs) then Some 0 else map_option Suc (strings_Index cs p))"

fun strings_LastIndex :: "string \<Rightarrow> string \<Rightarrow> nat option" where
  "strings_LastIndex [] p = (if p = [] then Some 0 else None)"
| "strings_LastIndex (c # cs) p =
     (case strings_LastIndex cs p of
        Some i \<Rightarrow> Some (Suc i)
      | None \<Rightarrow> if prefix p (c # cs) then Some 0 else None)"

definition strings_Contains :: "string \<Rightarrow> string \<Rightarrow> bool" where
  "strings_Contains s p = (strings_Index s p \<noteq> None)"

text \<open>\<open>strings.Split\<close> on a one-byte separator.\<close>

fun split_on :: "char \<Rightarrow> string \<Rightarrow> string list" where
  "split_on sep [] = [[]]"
| "split_on sep (c # cs) =
     (if c = sep then [] # split_on sep cs
      else (case split_on sep cs of [] \<Rightarrow> [[c]] | w # ws \<Rightarrow> (c # w) # ws))"

text \<open>\<open>strings.ToLower\<close> on the ASCII letters (other bytes are kept).\<close>

definition char_lower :: "char \<Rightarrow> char" where
  "char_lower c = (let n = (of_char c :: nat) in if 65 \<le> n \<and> n \<le> 90 then char_of (n + 32) else c)"

definition strings_ToLower :: "string \<Rightarrow> string" where
  "strings_ToLower s = map char_lower s"

text \<open>Slicing \<open>s[i:j]\<close>, and trimming (of spaces, or of the characters of a set).\<close>

definition slice :: "string \<Rightarrow> nat \<Rightarrow> nat \<Rightarrow> string" where
  "slice s i j = take (j - i) (drop i s)"

definition is_space :: "char \<Rightarrow> bool" where
  "is_space c \<longleftrightarrow> c \<in> {CHR 0x09, CHR 0x0A, CHR 0x0B, CHR 0x0C, CHR 0x0D, CHR '' ''}"

definition strings_TrimSpace :: "string \<Rightarrow> string" where
  "strings_TrimSpace s = rev (dropWhile is_space (rev (dropWhile is_space s)))"

definition strings_TrimLeft :: "string \<Rightarrow> char set \<Rightarrow> string" where
  "strings_TrimLeft s cutset = dropWhile (\<lambda>c. c \<in> cutset) s"

definition strings_TrimRight :: "string \<Rightarrow> char set \<Rightarrow> string" where
  "strings_TrimRight s cutset = rev (dropWhile (\<lambda>c. c \<in> cutset) (rev s))"

definition strings_Trim :: "string \<Rightarrow> char set \<Rightarrow> string" where
  "strings_Trim s cutset = strings_TrimRight (strings_TrimLeft s cutset) cutset"

lemma split_on_nonempty [simp]: "split_on sep s \<noteq> []"
  by (induction s) (auto split: list.splits)

lemma strings_Index_None_iff:
  "strings_Index s [c] = None \<longleftrightarrow> c \<notin> set s"
  by (induction s) auto

lemma strings_LastIndex_None_iff:
  "strings_LastIndex s [c] = None \<longleftrightarrow> c \<notin> set s"
  by (induction s) (auto split: option.splits if_splits)

lemma strings_LastIndex_append_not_in [go_str]:
  "c \<notin> set t \<Longrightarrow> strings_LastIndex (s @ c # t) [c] = Some (length s)"
proof (induction s)
  case Nil
  then have "strings_LastIndex t [c] = None" by (simp add: strings_LastIndex_None_iff)
  then show ?case by simp
next
  case (Cons a s)
  then show ?case by simp
qed

lemma strings_Index_append_not_in [go_str]:
  "c \<notin> set s \<Longrightarrow> strings_Index (s @ c # t) [c] = Some (length s)"
  by (induction s) auto

lemma strings_LastIndex_Some:
  "strings_LastIndex s p = Some i \<Longrightarrow> i \<le> length s \<and> prefix p (drop i s)"
  by (induction s arbitrary: i) (auto split: option.splits if_splits)

lemma strings_Index_Some:
  "strings_Index s p = Some i \<Longrightarrow> i \<le> length s \<and> prefix p (drop i s)"
  by (induction s arbitrary: i) (auto split: if_splits)

lemma strings_Index_le:
  "prefix p (drop j s) \<Longrightarrow> j \<le> length s \<Longrightarrow> \<exists>i \<le> j. strings_Index s p = Some i"
proof (induction s arbitrary: j)
  case (Cons c s)
  show ?case
  proof (cases "prefix p (c # s)")
    case False
    with Cons.prems obtain k where k: "j = Suc k" by (cases j) auto
    with Cons obtain i where "i \<le> k" "strings_Index s p = Some i" by auto
    with False k show ?thesis by auto
  qed simp
qed auto

lemma strings_LastIndex_max:
  "strings_LastIndex s p = Some i \<Longrightarrow> i < j \<Longrightarrow> j \<le> length s \<Longrightarrow> \<not> prefix p (drop j s)"
proof (induction s arbitrary: i j)
  case (Cons c s)
  show ?case
  proof (cases "strings_LastIndex s p")
    case None
    have "\<not> prefix p (drop k s)" if "k \<le> length s" for k
      using None that
    proof (induction s arbitrary: k)
      case Nil
      then show ?case by (auto split: if_splits)
    next
      case (Cons d s)
      then show ?case by (cases k) (auto split: option.splits if_splits)
    qed
    with Cons.prems show ?thesis by (cases j) auto
  next
    case (Some k)
    with Cons show ?thesis by (cases j) auto
  qed
qed (auto split: if_splits)

section \<open>Base 256\<close>

primrec be_digits :: "nat \<Rightarrow> nat \<Rightarrow> nat list" where
  "be_digits 0 n = []"
| "be_digits (Suc k) n = be_digits k (n div 256) @ [n mod 256]"

definition from_be :: "nat list \<Rightarrow> nat" where
  "from_be ds = foldl (\<lambda>a d. a * 256 + d) 0 ds"

lemma length_be_digits [simp]: "length (be_digits k n) = k"
  by (induction k arbitrary: n) auto

lemma be_digits_less: "d \<in> set (be_digits k n) \<Longrightarrow> d < 256"
  by (induction k arbitrary: n) auto

lemma from_be_Nil [simp]: "from_be [] = 0"
  by (simp add: from_be_def)

lemma from_be_snoc [simp]: "from_be (ds @ [d]) = from_be ds * 256 + d"
  by (simp add: from_be_def)

lemma from_be_Cons: "from_be (d # ds) = d * 256 ^ length ds + from_be ds"
proof (induction ds rule: rev_induct)
  case Nil
  show ?case by (simp add: from_be_def)
next
  case (snoc x xs)
  have "from_be (d # xs @ [x]) = from_be (d # xs) * 256 + x"
    using from_be_snoc [of "d # xs" x] by simp
  also have "\<dots> = d * 256 ^ length (xs @ [x]) + from_be (xs @ [x])"
    by (simp add: snoc.IH algebra_simps)
  finally show ?case by simp
qed

lemma from_be_digits [simp]: "from_be (be_digits k n) = n mod 256 ^ k"
proof (induction k arbitrary: n)
  case (Suc k)
  have "from_be (be_digits (Suc k) n) = (n div 256 mod 256 ^ k) * 256 + n mod 256"
    by (simp add: Suc.IH)
  also have "\<dots> = n mod (256 * 256 ^ k)"
    by (simp add: mod_mult2_eq)
  finally show ?case by simp
qed simp

lemma from_be_less: "\<forall>d\<in>set ds. d < 256 \<Longrightarrow> from_be ds < 256 ^ length ds"
proof (induction ds rule: rev_induct)
  case (snoc x xs)
  then have "from_be xs < 256 ^ length xs" and "x < 256" by auto
  then have "from_be xs * 256 + x < (from_be xs + 1) * 256" by simp
  also have "\<dots> \<le> 256 ^ length xs * 256"
    using \<open>from_be xs < 256 ^ length xs\<close> by (intro mult_right_mono) auto
  finally show ?case by simp
qed simp

lemma be_digits_from_be:
  "\<forall>d\<in>set ds. d < 256 \<Longrightarrow> be_digits (length ds) (from_be ds) = ds"
  by (induction ds rule: rev_induct) auto

lemma from_be_lex:
  assumes "\<forall>d\<in>set ds. d < 256" "\<forall>e\<in>set es. e < 256" "length ds = length es"
  shows "from_be (d # ds) < from_be (e # es) \<longleftrightarrow> d < e \<or> d = e \<and> from_be ds < from_be es"
proof -
  let ?m = "256 ^ length es"
  have less: "from_be ds < ?m" "from_be es < ?m"
    using assms from_be_less by metis+
  have eq: "from_be (d # ds) = d * ?m + from_be ds" "from_be (e # es) = e * ?m + from_be es"
    using assms(3) by (simp_all add: from_be_Cons)
  have step: "a * ?m + x < b * ?m + y" if "a < b" "x < ?m" for a b x y :: nat
  proof -
    have "a * ?m + x < (a + 1) * ?m" using that(2) by simp
    also have "\<dots> \<le> b * ?m" using that(1) by (intro mult_right_mono) auto
    finally show ?thesis by simp
  qed
  show ?thesis
    using step [of d e "from_be ds" "from_be es"] step [of e d "from_be es" "from_be ds"] less
    unfolding eq by (cases d e rule: linorder_cases) auto
qed

section \<open>Package bytes\<close>

text \<open>\<open>bytes.Compare\<close>: lexicographic, \<open>-1\<close>, \<open>0\<close> or \<open>1\<close>.\<close>

fun bytes_Compare :: "bytes \<Rightarrow> bytes \<Rightarrow> int" where
  "bytes_Compare [] [] = 0"
| "bytes_Compare [] (b # bs) = -1"
| "bytes_Compare (a # as) [] = 1"
| "bytes_Compare (a # as) (b # bs) =
     (if (of_char a :: nat) < of_char b then -1
      else if (of_char b :: nat) < of_char a then 1 else bytes_Compare as bs)"

abbreviation byte_vals :: "bytes \<Rightarrow> nat list" where
  "byte_vals bs \<equiv> map of_char bs"

lemma bytes_Compare_from_be:
  "length as = length bs \<Longrightarrow>
     (bytes_Compare as bs < 0 \<longleftrightarrow> from_be (byte_vals as) < from_be (byte_vals bs))"
proof (induction as bs rule: list_induct2)
  case (Cons a as b bs)
  have "a = b \<longleftrightarrow> (of_char a :: nat) = of_char b" by simp
  with Cons show ?case by (auto simp: from_be_lex simp del: of_char_eq_iff)
qed simp

section \<open>Package encoding/hex\<close>

datatype hex_error = InvalidByteError char | ErrLength

definition hex_char :: "nat \<Rightarrow> char" where
  "hex_char n = (if n < 10 then char_of (48 + n) else char_of (87 + n))"

definition from_hex_char :: "char \<Rightarrow> nat option" where
  "from_hex_char c =
     (let n = (of_char c :: nat) in
      if 48 \<le> n \<and> n \<le> 57 then Some (n - 48)
      else if 97 \<le> n \<and> n \<le> 102 then Some (n - 87)
      else if 65 \<le> n \<and> n \<le> 70 then Some (n - 55)
      else None)"

fun hex_EncodeToString :: "bytes \<Rightarrow> string" where
  "hex_EncodeToString [] = []"
| "hex_EncodeToString (c # cs) =
     hex_char (of_char c div 16) # hex_char (of_char c mod 16) # hex_EncodeToString cs"

fun hex_DecodeString :: "string \<Rightarrow> hex_error + bytes" where
  "hex_DecodeString [] = Inr []"
| "hex_DecodeString [c] =
     (case from_hex_char c of None \<Rightarrow> Inl (InvalidByteError c) | Some _ \<Rightarrow> Inl ErrLength)"
| "hex_DecodeString (p # q # r) =
     (case from_hex_char p of
        None \<Rightarrow> Inl (InvalidByteError p)
      | Some a \<Rightarrow>
        (case from_hex_char q of
           None \<Rightarrow> Inl (InvalidByteError q)
         | Some b \<Rightarrow> bind_res (hex_DecodeString r) (\<lambda>bs. Inr (char_of (a * 16 + b) # bs))))"

lemma from_hex_char_hex_char [simp]: "n < 16 \<Longrightarrow> from_hex_char (hex_char n) = Some n"
  by (auto simp: from_hex_char_def hex_char_def Let_def)

lemma from_hex_char_less: "from_hex_char c = Some n \<Longrightarrow> n < 16"
  by (auto simp: from_hex_char_def Let_def split: if_splits)

lemma length_hex_Encode [simp]: "length (hex_EncodeToString bs) = 2 * length bs"
  by (induction bs) auto

lemma hex_Decode_Encode [simp]: "hex_DecodeString (hex_EncodeToString bs) = Inr bs"
proof (induction bs)
  case (Cons c cs)
  have "(of_char c :: nat) div 16 < 16"
    using nat_of_char_less_256 [of c] by (simp add: less_mult_imp_div_less)
  moreover have "(of_char c :: nat) div 16 * 16 + of_char c mod 16 = of_char c"
    by (rule div_mult_mod_eq)
  ultimately show ?case using Cons by simp
qed simp

lemma hex_Encode_inj: "hex_EncodeToString as = hex_EncodeToString bs \<Longrightarrow> as = bs"
  by (metis hex_Decode_Encode sum.inject(2))

lemma length_hex_Decode: "hex_DecodeString s = Inr bs \<Longrightarrow> length s = 2 * length bs"
  by (induction s arbitrary: bs rule: hex_DecodeString.induct)
    (auto split: option.splits simp: bind_res_eq_Inr)

lemma hex_char_not_NUL: "n < 16 \<Longrightarrow> hex_char n \<noteq> CHR 0x00"
  using from_hex_char_hex_char [of n] by (auto simp: from_hex_char_def simp del: from_hex_char_hex_char)

lemma hex_Encode_no_NUL: "CHR 0x00 \<notin> set (hex_EncodeToString bs)"
proof (induction bs)
  case (Cons c cs)
  have "(of_char c :: nat) div 16 < 16" "(of_char c :: nat) mod 16 < 16"
    using nat_of_char_less_256 [of c] by (simp_all add: less_mult_imp_div_less)
  then have "hex_char (of_char c div 16) \<noteq> CHR 0x00" "hex_char (of_char c mod 16) \<noteq> CHR 0x00"
    by (simp_all add: hex_char_not_NUL)
  with Cons show ?case by (metis hex_EncodeToString.simps(2) set_ConsD)
qed simp

section \<open>Package sort\<close>

text \<open>\<open>sort.Strings\<close>: the order of Go strings is the bytewise lexicographic one.\<close>

definition sort_Strings :: "string list \<Rightarrow> string list" where
  "sort_Strings xs = sort xs"

lemma sort_Strings_simps [simp]:
  "sorted (sort_Strings xs)"
  "set (sort_Strings xs) = set xs"
  "length (sort_Strings xs) = length xs"
  "distinct (sort_Strings xs) = distinct xs"
  by (simp_all add: sort_Strings_def)

text \<open>
  \<open>sort.Search n f\<close> of the Go library: binary search for the least index below \<open>n\<close> at which
  \<open>f\<close> holds, \<open>n\<close> when there is none. The loop keeps \<open>f (i - 1) = false\<close> and \<open>f j = true\<close>.
\<close>

function search_loop :: "(nat \<Rightarrow> bool) \<Rightarrow> nat \<Rightarrow> nat \<Rightarrow> nat" where
  "search_loop f i j =
     (if i < j then
        (let h = (i + j) div 2 in
         if \<not> f h then search_loop f (Suc h) j else search_loop f i h)
      else i)"
  by pat_completeness auto
termination
  by (relation "measure (\<lambda>(f, i, j). j - i)") auto

declare search_loop.simps [simp del]

definition sort_Search :: "nat \<Rightarrow> (nat \<Rightarrow> bool) \<Rightarrow> nat" where
  "sort_Search n f = search_loop f 0 n"

lemma search_loop_spec:
  assumes mono: "\<And>k l. k \<le> l \<Longrightarrow> l < n \<Longrightarrow> f k \<Longrightarrow> f l"
  shows "i \<le> j \<Longrightarrow> j \<le> n \<Longrightarrow> \<forall>k < i. \<not> f k \<Longrightarrow> \<forall>k. j \<le> k \<longrightarrow> k < n \<longrightarrow> f k \<Longrightarrow>
    search_loop f i j \<le> n \<and> (\<forall>k < search_loop f i j. \<not> f k) \<and>
    (\<forall>k. search_loop f i j \<le> k \<longrightarrow> k < n \<longrightarrow> f k)"
  using mono
proof (induction f i j rule: search_loop.induct)
  case (1 f i j)
  let ?h = "(i + j) div 2"
  show ?case
  proof (cases "i < j")
    case False
    then have "search_loop f i j = i" by (simp add: search_loop.simps [of f i j])
    with False "1.prems" show ?thesis by auto
  next
    case ij: True
    then have h: "i \<le> ?h" "?h < j" by auto
    show ?thesis
    proof (cases "f ?h")
      case False
      have "\<forall>k < Suc ?h. \<not> f k"
        using False "1.prems"(2,5) h by (meson less_Suc_eq_le order_less_le_trans)
      with "1.IH"(1) [OF ij refl] False "1.prems" h show ?thesis
        by (simp add: search_loop.simps [of f i j] Let_def)
    next
      case True
      have "\<forall>k. ?h \<le> k \<longrightarrow> k < n \<longrightarrow> f k"
        using True "1.prems"(5) by blast
      with "1.IH"(2) [OF ij refl] True "1.prems" h ij show ?thesis
        by (simp add: search_loop.simps [of f i j] Let_def)
    qed
  qed
qed

lemma sort_Search_spec:
  assumes "\<And>k l. k \<le> l \<Longrightarrow> l < n \<Longrightarrow> f k \<Longrightarrow> f l"
  shows "sort_Search n f \<le> n"
    and "k < sort_Search n f \<Longrightarrow> \<not> f k"
    and "sort_Search n f \<le> k \<Longrightarrow> k < n \<Longrightarrow> f k"
  using search_loop_spec [where f = f and n = n and i = 0 and j = n] assms
  by (auto simp: sort_Search_def)

end
