(* ===== verification/GraphTypes.thy ===== *)
theory GraphTypes
  imports Prelude Complex_Main
begin

text \<open>
  The domain model of internal/types: content hashes and their textual forms, the entities
  of the graph (node, edge, file, repository, snapshot, edge event, note), the four
  domain-separated hash computations of types.go and the checks of verify.go.

  SHA-256 (crypto/sha256) is the parameter \<open>H\<close> of every definition that hashes, a function from
  byte strings to digests; nothing here depends on which function it is, and what a theorem
  needs of it (no collision among named inputs) is a hypothesis.
\<close>

section \<open>Hash\<close>

text \<open>
  \<open>[32]byte\<close> as a 256-bit word, most significant byte first, so that \<open>bytes.Compare\<close> on two
  hashes is the order of the words (lemma \<open>bytes_Compare_hash\<close>).
\<close>

type_synonym hash = "256 word"

type_synonym sha = "bytes \<Rightarrow> hash"

definition EmptyHash :: hash where
  "EmptyHash = 0"

definition hash_bytes :: "hash \<Rightarrow> bytes" where
  "hash_bytes h = map char_of (be_digits 32 (unat h))"

definition copy_hash :: "bytes \<Rightarrow> hash" where
  "copy_hash bs = word_of_nat (from_be (byte_vals bs))"

definition NewHash :: "sha \<Rightarrow> bytes \<Rightarrow> hash" where
  "NewHash H data = H data"

definition Hash_String :: "hash \<Rightarrow> string" where
  "Hash_String h = hex_EncodeToString (hash_bytes h)"

datatype hash_error = InvalidHashHex hex_error | HashLength nat | ExpectedQuotedString

definition ParseHash :: "string \<Rightarrow> hash_error + hash" where
  "ParseHash s =
     (case hex_DecodeString s of
        Inl e \<Rightarrow> Inl (InvalidHashHex e)
      | Inr b \<Rightarrow> if length b \<noteq> 32 then Inl (HashLength (length b)) else Inr (copy_hash b))"

definition IsZero :: "hash \<Rightarrow> bool" where
  "IsZero h = (h = EmptyHash)"

definition MarshalJSON :: "hash \<Rightarrow> bytes" where
  "MarshalJSON h = [CHR 0x22] @ hex_EncodeToString (hash_bytes h) @ [CHR 0x22]"

definition UnmarshalJSON :: "bytes \<Rightarrow> hash_error + hash" where
  "UnmarshalJSON data =
     (if length data < 2 \<or> data ! 0 \<noteq> CHR 0x22 \<or> data ! (length data - 1) \<noteq> CHR 0x22
      then Inl ExpectedQuotedString
      else (case hex_DecodeString (take (length data - 2) (drop 1 data)) of
              Inl e \<Rightarrow> Inl (InvalidHashHex e)
            | Inr b \<Rightarrow> if length b \<noteq> 32 then Inl (HashLength (length b)) else Inr (copy_hash b)))"

lemma length_hash_bytes [simp]: "length (hash_bytes h) = 32"
  by (simp add: hash_bytes_def)

lemma byte_vals_hash_bytes: "byte_vals (hash_bytes h) = be_digits 32 (unat h)"
proof -
  have "map (\<lambda>d. of_char (char_of d :: char)) (be_digits 32 (unat h)) = be_digits 32 (unat h)"
    by (rule map_idI) (auto dest: be_digits_less)
  then show ?thesis by (simp add: hash_bytes_def comp_def)
qed

lemma unat_hash_less: "unat (h :: hash) < 256 ^ 32"
  using unsigned_less [of h, where ?'a = nat] by simp

lemma from_be_hash_bytes: "from_be (byte_vals (hash_bytes h)) = unat h"
  using unat_hash_less [of h] by (simp add: byte_vals_hash_bytes)

lemma copy_hash_bytes [simp]: "copy_hash (hash_bytes h) = h"
  by (simp add: copy_hash_def from_be_hash_bytes)

lemma hash_bytes_inj: "hash_bytes a = hash_bytes b \<longleftrightarrow> a = b"
  by (metis copy_hash_bytes)

lemma hash_bytes_copy [simp]:
  assumes "length bs = 32"
  shows "hash_bytes (copy_hash bs) = bs"
proof -
  have small: "\<forall>d\<in>set (byte_vals bs). d < 256" by simp
  have "from_be (byte_vals bs) < 256 ^ 32"
    using from_be_less [OF small] assms by simp
  then have "unat (copy_hash bs) = from_be (byte_vals bs)"
    by (simp add: copy_hash_def unat_of_nat)
  then have "hash_bytes (copy_hash bs) = map char_of (be_digits (length (byte_vals bs)) (from_be (byte_vals bs)))"
    using assms by (simp add: hash_bytes_def)
  also have "\<dots> = bs"
    by (simp only: be_digits_from_be [OF small]) simp
  finally show ?thesis .
qed

lemma bytes_Compare_hash: "bytes_Compare (hash_bytes a) (hash_bytes b) < 0 \<longleftrightarrow> a < b"
  by (simp add: bytes_Compare_from_be from_be_hash_bytes word_less_nat_alt)

lemma length_Hash_String [simp]: "length (Hash_String h) = 64"
  by (simp add: Hash_String_def)

lemma Hash_String_inj [simp]: "Hash_String a = Hash_String b \<longleftrightarrow> a = b"
  by (auto simp: Hash_String_def hash_bytes_inj dest: hex_Encode_inj)

lemma ParseHash_String [simp]: "ParseHash (Hash_String h) = Inr h"
  by (simp add: ParseHash_def Hash_String_def)

section \<open>Entities\<close>

text \<open>
  \<open>float64\<close> values are the rationals they denote (no NaN or infinity occurs in the fields
  below). \<open>int\<close> and \<open>int64\<close> fields are integers: they are only stored and compared here.
\<close>

type_synonym float64 = rat

record node =
  NodeHash :: hash
  Node_FileHash :: hash
  QualifiedName :: string
  Kind :: string
  Line :: int
  Signature :: string
  Doc :: string
  LastAuthor :: string
  LastCommitAt :: int
  CoveragePct :: float64

record edge =
  EdgeHash :: hash
  SourceHash :: hash
  TargetHash :: hash
  EdgeType :: string
  Confidence :: float64
  Provenance :: string
  CallSiteLine :: int
  CallSiteCol :: int
  CallSiteFile :: string
  ObservationCount :: int
  LastObserved :: int

record source_file =
  FileHash :: hash
  File_RepoHash :: hash
  Path :: string
  ContentHash :: hash

record repo =
  RepoHash :: hash
  RepoURL :: string
  LastCommit :: string
  LastIndexed :: int

record snapshot =
  SnapshotHash :: hash
  ParentHash :: hash
  Snap_RepoHash :: hash
  CommitHash :: string
  Timestamp :: int
  NodeCount :: int
  EdgeCount :: int
  Generation :: int

record edge_event =
  EventID :: int
  Ev_EdgeHash :: hash
  EventType :: string
  Ev_SnapshotHash :: hash
  SourceCommit :: string
  IndexerVer :: string
  Ev_Timestamp :: int
  Ev_SourceHash :: hash
  Ev_TargetHash :: hash
  Ev_EdgeType :: string
  Ev_Confidence :: float64
  Ev_Provenance :: string

record graph_note =
  ObjectHash :: hash
  Note_Key :: string
  Note_Value :: string
  UpdatedAt :: int

definition KindMethod :: string where "KindMethod = ''method''"

section \<open>Hash computations\<close>

abbreviation NUL :: char where "NUL \<equiv> CHR 0x00"

definition node_preimage :: "string \<Rightarrow> string \<Rightarrow> string \<Rightarrow> string \<Rightarrow> bytes" where
  "node_preimage repoURL packagePath symbolName symbolKind =
     ''node'' @ [NUL] @ repoURL @ [NUL] @ packagePath @ [NUL] @ symbolName @ [NUL] @ symbolKind"

definition ComputeNodeHash :: "sha \<Rightarrow> string \<Rightarrow> string \<Rightarrow> hash \<Rightarrow> string \<Rightarrow> string \<Rightarrow> hash" where
  "ComputeNodeHash H repoURL packagePath contentHash symbolName symbolKind =
     NewHash H (node_preimage repoURL packagePath symbolName symbolKind)"

definition edge_preimage :: "hash \<Rightarrow> hash \<Rightarrow> string \<Rightarrow> string \<Rightarrow> bytes" where
  "edge_preimage sourceHash targetHash edgeType provenanceJSON =
     ''edge'' @ [NUL] @ Hash_String sourceHash @ [NUL] @ Hash_String targetHash @ [NUL] @
     edgeType @ [NUL] @ provenanceJSON"

definition ComputeEdgeHash :: "sha \<Rightarrow> hash \<Rightarrow> hash \<Rightarrow> string \<Rightarrow> string \<Rightarrow> hash" where
  "ComputeEdgeHash H sourceHash targetHash edgeType provenanceJSON =
     NewHash H (edge_preimage sourceHash targetHash edgeType provenanceJSON)"

definition snapshot_preimage :: "hash \<Rightarrow> bytes" where
  "snapshot_preimage merkleRoot = ''snapshot'' @ [NUL] @ hash_bytes merkleRoot"

definition ComputeSnapshotHash :: "sha \<Rightarrow> hash \<Rightarrow> hash" where
  "ComputeSnapshotHash H merkleRoot = NewHash H (snapshot_preimage merkleRoot)"

definition merkle_preimage :: "hash \<Rightarrow> hash \<Rightarrow> bytes" where
  "merkle_preimage left right = ''merkle'' @ [NUL] @ hash_bytes left @ hash_bytes right"

definition ComputeMerkleNodeHash :: "sha \<Rightarrow> hash \<Rightarrow> hash \<Rightarrow> hash" where
  "ComputeMerkleNodeHash H left right = NewHash H (merkle_preimage left right)"

text \<open>A field that holds no NUL ends at the first one: the separators are unambiguous.\<close>

lemma append_NUL_inj:
  "NUL \<notin> set a \<Longrightarrow> NUL \<notin> set b \<Longrightarrow> a @ NUL # s = b @ NUL # t \<longleftrightarrow> a = b \<and> s = t"
proof (induction a arbitrary: b)
  case Nil
  then show ?case by (cases b) auto
next
  case (Cons c a)
  then show ?case by (cases b) auto
qed

lemma node_preimage_inj:
  assumes "\<And>f. f \<in> {r, p, n, r', p', n'} \<Longrightarrow> NUL \<notin> set f"
  shows "node_preimage r p n k = node_preimage r' p' n' k' \<longleftrightarrow> r = r' \<and> p = p' \<and> n = n' \<and> k = k'"
  using assms by (simp add: node_preimage_def append_NUL_inj)

lemma Hash_String_no_NUL [simp]: "NUL \<notin> set (Hash_String h)"
  by (simp add: Hash_String_def hex_Encode_no_NUL)

lemma edge_preimage_inj:
  assumes "NUL \<notin> set t" "NUL \<notin> set t'"
  shows "edge_preimage a b t p = edge_preimage a' b' t' p' \<longleftrightarrow> a = a' \<and> b = b' \<and> t = t' \<and> p = p'"
  using assms by (simp add: edge_preimage_def append_NUL_inj)

lemma snapshot_preimage_inj [simp]: "snapshot_preimage a = snapshot_preimage b \<longleftrightarrow> a = b"
  by (simp add: snapshot_preimage_def hash_bytes_inj)

lemma merkle_preimage_inj [simp]:
  "merkle_preimage a b = merkle_preimage a' b' \<longleftrightarrow> a = a' \<and> b = b'"
  by (simp add: merkle_preimage_def hash_bytes_inj append_eq_append_conv)

lemma preimage_domains_distinct:
  "node_preimage r p n k \<noteq> edge_preimage a b t v"
  "node_preimage r p n k \<noteq> snapshot_preimage m"
  "node_preimage r p n k \<noteq> merkle_preimage x y"
  "edge_preimage a b t v \<noteq> snapshot_preimage m"
  "edge_preimage a b t v \<noteq> merkle_preimage x y"
  "snapshot_preimage m \<noteq> merkle_preimage x y"
  by (simp_all add: node_preimage_def edge_preimage_def snapshot_preimage_def merkle_preimage_def)

section \<open>Verification of stored hashes\<close>

definition extractSymbolName :: "string \<Rightarrow> string" where
  "extractSymbolName qualifiedName =
     (case strings_Index qualifiedName ''://'' of
        None \<Rightarrow>
          (case strings_LastIndex qualifiedName ''.'' of
             Some i \<Rightarrow> drop (i + 1) qualifiedName
           | None \<Rightarrow> qualifiedName)
      | Some schemeSep \<Rightarrow>
          (let afterScheme = drop (schemeSep + 3) qualifiedName in
           case strings_LastIndex afterScheme ''.'' of
             Some i \<Rightarrow> drop (i + 1) afterScheme
           | None \<Rightarrow> afterScheme))"

datatype verify_hash_error = NodeHashMismatch hash hash | EdgeHashMismatch hash hash

definition VerifyNodeHash :: "sha \<Rightarrow> node \<Rightarrow> string \<Rightarrow> string \<Rightarrow> verify_hash_error option" where
  "VerifyNodeHash H n repoURL packagePath =
     (let symbolName = extractSymbolName (QualifiedName n);
          computed = ComputeNodeHash H repoURL packagePath EmptyHash symbolName (Kind n)
      in if NodeHash n \<noteq> computed then Some (NodeHashMismatch (NodeHash n) computed) else None)"

definition VerifyEdgeHash :: "sha \<Rightarrow> edge \<Rightarrow> verify_hash_error option" where
  "VerifyEdgeHash H e =
     (let computed = ComputeEdgeHash H (SourceHash e) (TargetHash e) (EdgeType e) (Provenance e)
      in if EdgeHash e \<noteq> computed then Some (EdgeHashMismatch (EdgeHash e) computed) else None)"

lemma extractSymbolName_qualified:
  assumes "CHR ''.'' \<notin> set symb"
  shows "extractSymbolName (repo @ ''://'' @ pkg @ ''.'' @ symb) = symb"
proof -
  let ?s = "repo @ ''://'' @ pkg @ ''.'' @ symb"
  have "prefix ''://'' (drop (length repo) ?s)" by simp
  then obtain i where i: "strings_Index ?s ''://'' = Some i" "i \<le> length repo"
    using strings_Index_le [of "''://''" "length repo" ?s] by auto
  let ?k = "length repo + 3 - (i + 3)"
  have "drop (i + 3) ?s = drop (i + 3) ((repo @ ''://'') @ pkg @ ''.'' @ symb)" by simp
  also have "\<dots> = (drop (i + 3) (repo @ ''://'') @ pkg) @ CHR ''.'' # symb"
    using i(2) by (simp del: append_assoc add: drop_append)
  finally have rest: "drop (i + 3) ?s = (drop (i + 3) (repo @ ''://'') @ pkg) @ CHR ''.'' # symb" .
  have "strings_LastIndex (drop (i + 3) ?s) ''.'' = Some (length (drop (i + 3) (repo @ ''://'') @ pkg))"
    unfolding rest using assms by (rule strings_LastIndex_append_not_in)
  then show ?thesis
    unfolding extractSymbolName_def i(1) option.case Let_def rest by simp
qed

section \<open>Properties\<close>

text \<open>
  Textual forms of a hash: \<open>ParseHash\<close> recovers a hash from \<open>String\<close>, and
  \<open>UnmarshalJSON\<close> from \<open>MarshalJSON\<close>.
\<close>

lemma hash_text_roundtrip:
  "ParseHash (Hash_String h) = Inr h \<and> UnmarshalJSON (MarshalJSON h) = Inr h"
  by (simp add: UnmarshalJSON_def MarshalJSON_def nth_append)

text \<open>
  Identity of nodes: two nodes with NUL-free fields have the same hash only if repository,
  package, symbol and kind agree, unless the two preimages collide; the content hash argument
  never matters.
\<close>

lemma ComputeNodeHash_identity:
  assumes "\<forall>f\<in>{r, p, n, r', p', n'}. NUL \<notin> set f"
    "H (node_preimage r p n k) = H (node_preimage r' p' n' k') \<longrightarrow>
       node_preimage r p n k = node_preimage r' p' n' k'"
  shows "ComputeNodeHash H r p c n k = ComputeNodeHash H r' p' c' n' k' \<longleftrightarrow>
           r = r' \<and> p = p' \<and> n = n' \<and> k = k'"
  using assms node_preimage_inj [of r p n r' p' n' k k']
  by (auto simp: ComputeNodeHash_def NewHash_def)

lemma ComputeNodeHash_identity_witness:
  "ComputeNodeHash (\<lambda>bs. of_nat (length bs)) ''repo'' ''a'' 1 ''F'' ''func''
     \<noteq> ComputeNodeHash (\<lambda>bs. of_nat (length bs)) ''repo'' ''ab'' 1 ''F'' ''func''"
  using ComputeNodeHash_identity [of "''repo''" "''a''" "''F''" "''repo''" "''ab''" "''F''"
      "\<lambda>bs. of_nat (length bs)" "''func''" "''func''" 1 1]
  by (simp add: node_preimage_def)

text \<open>
  Domain separation: hashes computed for different kinds of object (node, edge, snapshot,
  interior Merkle node) agree only if the hash function collides on their distinct preimages.
\<close>

lemma hash_domains_separate:
  assumes "\<forall>x y. x \<in> D \<longrightarrow> y \<in> D \<longrightarrow> H x = H y \<longrightarrow> x = y"
    "{node_preimage r p n k, edge_preimage a b t v, snapshot_preimage m, merkle_preimage x y} \<subseteq> D"
  shows "distinct [ComputeNodeHash H r p c n k, ComputeEdgeHash H a b t v, ComputeSnapshotHash H m,
           ComputeMerkleNodeHash H x y]"
proof -
  have ne: "H u \<noteq> H w" if "u \<in> D" "w \<in> D" "u \<noteq> w" for u w
    using assms(1) that by blast
  have "node_preimage r p n k \<in> D" "edge_preimage a b t v \<in> D" "snapshot_preimage m \<in> D"
    "merkle_preimage x y \<in> D" using assms(2) by simp_all
  then show ?thesis
    by (simp add: ne preimage_domains_distinct ComputeNodeHash_def ComputeEdgeHash_def
        ComputeSnapshotHash_def ComputeMerkleNodeHash_def NewHash_def)
qed

lemma hash_domains_separate_witness:
  "distinct [ComputeNodeHash (\<lambda>bs. of_nat (length bs)) [] [] 0 [] [], ComputeEdgeHash (\<lambda>bs. of_nat (length bs)) 1 2 [] [],
     ComputeSnapshotHash (\<lambda>bs. of_nat (length bs)) 3, ComputeMerkleNodeHash (\<lambda>bs. of_nat (length bs)) 4 5]"
  by (rule hash_domains_separate [of "{node_preimage [] [] [] [], edge_preimage 1 2 [] [],
        snapshot_preimage 3, merkle_preimage 4 5}"])
    (auto simp: node_preimage_def edge_preimage_def snapshot_preimage_def merkle_preimage_def)

text \<open>
  Stored edges are tamper-evident: when an edge passes \<open>VerifyEdgeHash\<close>, the check fails for
  any edge that keeps its hash but differs in source, target, type or provenance, unless the two
  preimages collide.
\<close>

lemma VerifyEdgeHash_detects:
  assumes "VerifyEdgeHash H e = None" "EdgeHash e' = EdgeHash e"
    "NUL \<notin> set (EdgeType e)" "NUL \<notin> set (EdgeType e')"
    "(SourceHash e', TargetHash e', EdgeType e', Provenance e') \<noteq> (SourceHash e, TargetHash e, EdgeType e, Provenance e)"
    "H (edge_preimage (SourceHash e) (TargetHash e) (EdgeType e) (Provenance e))
       = H (edge_preimage (SourceHash e') (TargetHash e') (EdgeType e') (Provenance e')) \<longrightarrow>
     edge_preimage (SourceHash e) (TargetHash e) (EdgeType e) (Provenance e)
       = edge_preimage (SourceHash e') (TargetHash e') (EdgeType e') (Provenance e')"
  shows "\<exists>computed. VerifyEdgeHash H e' = Some (EdgeHashMismatch (EdgeHash e') computed)"
proof -
  have "EdgeHash e = H (edge_preimage (SourceHash e) (TargetHash e) (EdgeType e) (Provenance e))"
    using assms(1) by (simp add: VerifyEdgeHash_def ComputeEdgeHash_def NewHash_def Let_def split: if_splits)
  moreover have "edge_preimage (SourceHash e) (TargetHash e) (EdgeType e) (Provenance e)
       \<noteq> edge_preimage (SourceHash e') (TargetHash e') (EdgeType e') (Provenance e')"
    using assms(3-5) by (simp add: edge_preimage_inj) metis
  ultimately show ?thesis
    using assms(2,6) by (auto simp: VerifyEdgeHash_def ComputeEdgeHash_def NewHash_def Let_def)
qed

definition sample_edge :: edge where
  "sample_edge = \<lparr>EdgeHash = 140, SourceHash = 1, TargetHash = 2, EdgeType = ''calls'', Confidence = 1,
     Provenance = [], CallSiteLine = 0, CallSiteCol = 0, CallSiteFile = [], ObservationCount = 0, LastObserved = 0\<rparr>"

lemma VerifyEdgeHash_detects_witness:
  "\<exists>computed. VerifyEdgeHash (\<lambda>bs. of_nat (length bs)) (sample_edge\<lparr>EdgeType := ''imports''\<rparr>)
     = Some (EdgeHashMismatch 140 computed)"
  using VerifyEdgeHash_detects [of "\<lambda>bs. of_nat (length bs)" sample_edge "sample_edge\<lparr>EdgeType := ''imports''\<rparr>"]
  by (simp add: sample_edge_def VerifyEdgeHash_def ComputeEdgeHash_def NewHash_def edge_preimage_def)

text \<open>
  A node stored under the hash \<open>ComputeNodeHash\<close> gives for its repository, package, symbol and
  kind passes \<open>VerifyNodeHash\<close> when its qualified name is \<open>repo://package.symbol\<close> with a symbol that
  has no dot, and is reported when its symbol contains one (a method \<open>Type.Method\<close>) unless the
  two preimages collide.
\<close>

lemma VerifyNodeHash_qualified:
  assumes "QualifiedName n = repo @ ''://'' @ pkg @ ''.'' @ symb"
    "NodeHash n = ComputeNodeHash H repo pkg c symb (Kind n)"
    "symb = typ @ ''.'' @ meth \<longrightarrow> CHR ''.'' \<notin> set meth \<longrightarrow>
       H (node_preimage repo pkg symb (Kind n)) \<noteq> H (node_preimage repo pkg meth (Kind n))"
  shows "(CHR ''.'' \<notin> set symb \<longrightarrow> VerifyNodeHash H n repo pkg = None) \<and>
         (symb = typ @ ''.'' @ meth \<longrightarrow> CHR ''.'' \<notin> set meth \<longrightarrow> VerifyNodeHash H n repo pkg \<noteq> None)"
proof (intro conjI impI)
  assume "CHR ''.'' \<notin> set symb"
  from extractSymbolName_qualified [OF this, of repo pkg] assms(1,2)
  show "VerifyNodeHash H n repo pkg = None"
    by (simp add: VerifyNodeHash_def Let_def ComputeNodeHash_def)
next
  assume m: "symb = typ @ ''.'' @ meth" "CHR ''.'' \<notin> set meth"
  have "extractSymbolName (QualifiedName n) = meth"
    using extractSymbolName_qualified [OF m(2), of repo "pkg @ ''.'' @ typ"] assms(1) m(1) by simp
  with assms(2,3) m show "VerifyNodeHash H n repo pkg \<noteq> None"
    by (simp add: VerifyNodeHash_def Let_def ComputeNodeHash_def NewHash_def)
qed

definition sample_node :: node where
  "sample_node = \<lparr>NodeHash = 16, Node_FileHash = 0, QualifiedName = ''r://p.T.M'', Kind = ''method'', Line = 1,
     Signature = [], Doc = [], LastAuthor = [], LastCommitAt = 0, CoveragePct = 0\<rparr>"

lemma VerifyNodeHash_qualified_witness:
  "VerifyNodeHash (\<lambda>bs. of_nat (length bs)) (sample_node\<lparr>NodeHash := 19\<rparr>) ''r'' ''p'' \<noteq> None"
  using VerifyNodeHash_qualified [of "sample_node\<lparr>NodeHash := 19\<rparr>" "''r''" "''p''" "''T.M''"
      "\<lambda>bs. of_nat (length bs)" 0 "''T''" "''M''"]
  by (simp add: sample_node_def ComputeNodeHash_def NewHash_def node_preimage_def)

end
