(* ===== verification/MerkleTree.thy ===== *)
theory MerkleTree
  imports GraphTypes "HOL-Library.Multiset"
begin

text \<open>
  internal/snapshot/merkle.go and the construction half of hierarchical.go: the flat tree, the
  set difference of two trees, and the three-level tree (edges of one type in one package,
  edge types of a package, packages of the repository).

  The tree construction itself is delegated by the program to the module merkle-strata, which
  is not part of the repository: \<open>strata.Build\<close> and \<open>strata.BuildMultiLevel\<close> are parameters.
  What the program relies on is the predicate \<open>strata_spec\<close>, the levels that the comments of
  hierarchical.go and proof.go describe.
\<close>

section \<open>Hashes in order\<close>

definition combineHashes :: "sha \<Rightarrow> hash \<Rightarrow> hash \<Rightarrow> hash" where
  "combineHashes H left right = ComputeMerkleNodeHash H left right"

definition SortHashes :: "hash list \<Rightarrow> hash list" where
  "SortHashes hashes = sort hashes"

lemma SortHashes_sorted [simp]: "sorted (SortHashes hs)"
  by (simp add: SortHashes_def)

lemma set_SortHashes [simp]: "set (SortHashes hs) = set hs"
  by (simp add: SortHashes_def)

lemma mset_SortHashes [simp]: "mset (SortHashes hs) = mset hs"
  by (simp add: SortHashes_def)

lemma length_SortHashes [simp]: "length (SortHashes hs) = length hs"
  by (simp add: SortHashes_def)

lemma SortHashes_eq_Nil [simp]: "SortHashes hs = [] \<longleftrightarrow> hs = []"
  by (metis length_SortHashes length_0_conv)

lemma SortHashes_cong: "mset xs = mset ys \<Longrightarrow> SortHashes xs = SortHashes ys"
  unfolding SortHashes_def by (rule properties_for_sort) simp_all

section \<open>The flat tree\<close>

definition strataPrefix :: bytes where
  "strataPrefix = ''merkle'' @ [NUL]"

record MerkleTree =
  MT_Root :: hash
  Leaves :: "hash list"

text \<open>\<open>strata.Build\<close>: the prefix and the leaf groups give the root.\<close>

type_synonym strata_build = "bytes \<Rightarrow> (string, hash list) gomap \<Rightarrow> hash"

definition BuildMerkleTree :: "strata_build \<Rightarrow> hash list \<Rightarrow> MerkleTree" where
  "BuildMerkleTree Build hashes =
     (if length hashes = 0 then \<lparr>MT_Root = EmptyHash, Leaves = []\<rparr>
      else (let sorted = SortHashes hashes in
            \<lparr>MT_Root = Build strataPrefix [(''_'', sorted)], Leaves = sorted\<rparr>))"

definition DiffMerkle :: "MerkleTree \<Rightarrow> MerkleTree \<Rightarrow> hash list \<times> hash list" where
  "DiffMerkle oldTree newTree =
     (let oldSet = set (Leaves oldTree); newSet = set (Leaves newTree)
      in (filter (\<lambda>h. h \<notin> oldSet) (Leaves newTree), filter (\<lambda>h. h \<notin> newSet) (Leaves oldTree)))"

section \<open>The reference computation\<close>

text \<open>
  One level of a binary tree over a list of hashes: neighbours are combined, an odd last hash
  with itself. The root is what is left when one hash is.
\<close>

fun next_level :: "sha \<Rightarrow> hash list \<Rightarrow> hash list" where
  "next_level H [] = []"
| "next_level H [a] = [combineHashes H a a]"
| "next_level H (a # b # xs) = combineHashes H a b # next_level H xs"

lemma length_next_level [simp]: "length (next_level H xs) = (length xs + 1) div 2"
  by (induction H xs rule: next_level.induct) auto

function levels_root :: "sha \<Rightarrow> hash list \<Rightarrow> hash" where
  "levels_root H level =
     (if 1 < length level then levels_root H (next_level H level)
      else (case level of [] \<Rightarrow> EmptyHash | a # _ \<Rightarrow> a))"
  by pat_completeness auto
termination
  by (relation "measure (\<lambda>(H, level). length level)") auto

declare levels_root.simps [simp del]

lemma levels_root_simps [merkle_simps]:
  "levels_root H [] = EmptyHash"
  "levels_root H [a] = a"
  "levels_root H (a # b # xs) = levels_root H (next_level H (a # b # xs))"
  by (simp_all add: levels_root.simps [of H "[]"] levels_root.simps [of H "[a]"]
      levels_root.simps [of H "a # b # xs"])

text \<open>The top level pairs a lone hash with itself, so that it differs from the level below.\<close>

definition tree_root :: "sha \<Rightarrow> hash list \<Rightarrow> hash" where
  "tree_root H xs = (if length xs = 1 then combineHashes H (hd xs) (hd xs) else levels_root H xs)"

section \<open>The multi-level tree\<close>

record strata_input =
  Leaf :: hash
  Group :: string
  Subgroup :: string

record multi_level =
  ML_Root :: hash
  GroupRoots :: "(string, hash) gomap"
  SubgroupRoots :: "(string, hash) gomap"
  ML_SubgraphRoot :: "string list \<Rightarrow> hash"

type_synonym strata_multi = "bytes \<Rightarrow> strata_input list \<Rightarrow> multi_level"

record EdgeInput =
  EI_EdgeHash :: hash
  PackagePath :: string
  EI_EdgeType :: string

record HierarchicalTree =
  Root :: hash
  PackageRoots :: "(string, hash) gomap"
  EdgeTypeRoots :: "(string, hash) gomap"
  PackageEdgeCounts :: "(string, nat) gomap"
  TotalEdges :: nat
  HT_ml :: "multi_level option"

definition edge_group :: "EdgeInput \<Rightarrow> string" where
  "edge_group e = (if PackagePath e = '''' then ''_root'' else PackagePath e)"

definition to_strata :: "EdgeInput \<Rightarrow> strata_input" where
  "to_strata e = \<lparr>Leaf = EI_EdgeHash e, Group = edge_group e, Subgroup = EI_EdgeType e\<rparr>"

definition count_group :: "EdgeInput \<Rightarrow> (string, nat) gomap \<Rightarrow> (string, nat) gomap" where
  "count_group e m =
     gomap_set (edge_group e) (case map_of m (edge_group e) of None \<Rightarrow> 1 | Some n \<Rightarrow> n + 1) m"

definition BuildHierarchicalTree :: "strata_multi \<Rightarrow> EdgeInput list \<Rightarrow> HierarchicalTree" where
  "BuildHierarchicalTree BuildMultiLevel edges =
     (if length edges = 0 then
        \<lparr>Root = EmptyHash, PackageRoots = [], EdgeTypeRoots = [], PackageEdgeCounts = [],
         TotalEdges = 0, HT_ml = None\<rparr>
      else
        (let m = BuildMultiLevel strataPrefix (map to_strata edges) in
         \<lparr>Root = ML_Root m, PackageRoots = GroupRoots m, EdgeTypeRoots = SubgroupRoots m,
          PackageEdgeCounts = fold count_group edges [], TotalEdges = length edges,
          HT_ml = Some m\<rparr>))"

definition SubgraphRoot :: "strata_build \<Rightarrow> HierarchicalTree \<Rightarrow> string list \<Rightarrow> hash" where
  "SubgraphRoot Build ht packages =
     (case HT_ml ht of
        Some m \<Rightarrow> ML_SubgraphRoot m packages
      | None \<Rightarrow>
        (if length packages = 0 then EmptyHash
         else
           (let roots = List.map_filter (map_of (PackageRoots ht)) (sort_Strings packages) in
            if length roots = 0 then EmptyHash else MT_Root (BuildMerkleTree Build roots))))"

definition EdgeTypeRoot :: "strata_build \<Rightarrow> HierarchicalTree \<Rightarrow> string \<Rightarrow> hash" where
  "EdgeTypeRoot Build ht edgeType =
     (let roots = map snd (filter (\<lambda>(key, root). strings_HasSuffix key ('':'' @ edgeType)) (EdgeTypeRoots ht))
      in if length roots = 0 then EmptyHash else MT_Root (BuildMerkleTree Build roots))"

text \<open>\<open>ContextPackRoot\<close> also sorts its argument slice in place: the pair is (root, slice).\<close>

definition ContextPackRoot :: "sha \<Rightarrow> string \<Rightarrow> hash \<Rightarrow> hash list \<Rightarrow> hash \<times> hash list" where
  "ContextPackRoot H taskNormalized snapshotRoot selectedNodes =
     (let sorted = SortHashes selectedNodes in
      (H (taskNormalized @ hash_bytes snapshotRoot @ concat (map hash_bytes sorted)), sorted))"

section \<open>What the program relies on of merkle-strata\<close>

definition subgroup_key :: "strata_input \<Rightarrow> string" where
  "subgroup_key i = Group i @ '':'' @ Subgroup i"

definition key_group :: "string \<Rightarrow> string" where
  "key_group k = (case strings_LastIndex k '':'' of Some i \<Rightarrow> take i k | None \<Rightarrow> k)"

definition group_subroots :: "multi_level \<Rightarrow> string \<Rightarrow> hash list" where
  "group_subroots m g = map snd (filter (\<lambda>p. key_group (fst p) = g) (SubgroupRoots m))"

definition multi_level_ok :: "sha \<Rightarrow> strata_input list \<Rightarrow> multi_level \<Rightarrow> bool" where
  "multi_level_ok H inputs m \<longleftrightarrow>
     gomap_ok (GroupRoots m) \<and> gomap_ok (SubgroupRoots m) \<and>
     fst ` set (GroupRoots m) = Group ` set inputs \<and>
     fst ` set (SubgroupRoots m) = subgroup_key ` set inputs \<and>
     (\<forall>i\<in>set inputs. map_of (SubgroupRoots m) (subgroup_key i) =
        Some (levels_root H (SortHashes (map Leaf (filter (\<lambda>j. subgroup_key j = subgroup_key i) inputs))))) \<and>
     (\<forall>g\<in>Group ` set inputs. map_of (GroupRoots m) g =
        Some (levels_root H (SortHashes (group_subroots m g)))) \<and>
     ML_Root m = tree_root H (SortHashes (map snd (GroupRoots m)))"

definition strata_spec :: "sha \<Rightarrow> strata_multi \<Rightarrow> bool" where
  "strata_spec H BuildMultiLevel \<longleftrightarrow>
     (\<forall>inputs. inputs \<noteq> [] \<longrightarrow> (\<forall>i\<in>set inputs. CHR '':'' \<notin> set (Subgroup i)) \<longrightarrow>
        multi_level_ok H inputs (BuildMultiLevel strataPrefix inputs))"

text \<open>An instance of the specification, so that its hypotheses can be met on concrete inputs.\<close>

definition reference_multi :: "sha \<Rightarrow> strata_multi" where
  "reference_multi H pfx inputs =
     (let keys = remdups (map subgroup_key inputs);
          subs = map (\<lambda>k. (k, levels_root H (SortHashes (map Leaf (filter (\<lambda>j. subgroup_key j = k) inputs))))) keys;
          groups = map (\<lambda>g. (g, levels_root H (SortHashes (map snd (filter (\<lambda>p. key_group (fst p) = g) subs)))))
                     (remdups (map Group inputs))
      in \<lparr>ML_Root = tree_root H (SortHashes (map snd groups)), GroupRoots = groups,
          SubgroupRoots = subs, ML_SubgraphRoot = (\<lambda>_. EmptyHash)\<rparr>)"

lemma map_of_map_key: "map_of (map (\<lambda>k. (k, f k)) ks) k = (if k \<in> set ks then Some (f k) else None)"
  by (induction ks) auto

lemma reference_multi_spec: "strata_spec H (reference_multi H)"
  unfolding strata_spec_def
proof (intro allI impI)
  fix inputs :: "strata_input list"
  show "multi_level_ok H inputs (reference_multi H strataPrefix inputs)"
    unfolding multi_level_ok_def group_subroots_def
    by (auto simp: reference_multi_def Let_def map_of_map_key comp_def image_image)
qed

section \<open>Lemmas\<close>

lemma key_group_subgroup_key [simp]:
  "CHR '':'' \<notin> set (Subgroup i) \<Longrightarrow> key_group (subgroup_key i) = Group i"
  by (simp add: key_group_def subgroup_key_def strings_LastIndex_append_not_in)

lemma last_colon_inj:
  assumes "CHR '':'' \<notin> set s" "CHR '':'' \<notin> set s'" "g @ '':'' @ s = g' @ '':'' @ s'"
  shows "g = g' \<and> s = s'"
proof -
  have "Some (length g) = Some (length g')"
    using assms strings_LastIndex_append_not_in [of "CHR '':''" s g]
      strings_LastIndex_append_not_in [of "CHR '':''" s' g'] by simp
  with assms(3) show ?thesis by (simp add: append_eq_append_conv)
qed

lemma DiffMerkle_sets:
  "set (fst (DiffMerkle old new)) = set (Leaves new) - set (Leaves old)"
  "set (snd (DiffMerkle old new)) = set (Leaves old) - set (Leaves new)"
  by (auto simp: DiffMerkle_def Let_def)

lemma BuildMerkleTree_cong: "mset xs = mset ys \<Longrightarrow> BuildMerkleTree B xs = BuildMerkleTree B ys"
  by (metis BuildMerkleTree_def SortHashes_cong size_mset)

lemma set_Leaves_Build [simp]: "set (Leaves (BuildMerkleTree B hs)) = set hs"
  by (simp add: BuildMerkleTree_def Let_def)

end
