(* ===== verification/MerkleProof.thy ===== *)
theory MerkleProof
  imports MerkleTree
begin

text \<open>
  internal/snapshot/proof.go: generation and verification of Merkle proofs that an edge is in a
  three-level tree, and of proofs that it is not. The lemmas give the loop of \<open>binaryProof\<close>
  a closed form, show that the steps it emits recompute the root of the level list, and that
  the value a verified proof starts from is one of the values of the tree.
\<close>

section \<open>Proof steps\<close>

record ProofStep =
  Sibling :: hash
  IsLeft :: bool

record MerkleProof =
  MP_EdgeHash :: hash
  MP_PackagePath :: string
  MP_EdgeType :: string
  EdgeToEdgeTypeRoot :: "ProofStep list"
  MP_EdgeTypeRoot :: hash
  EdgeTypeToPackageRoot :: "ProofStep list"
  MP_PackageRoot :: hash
  PackageToRepoRoot :: "ProofStep list"
  RepoRoot :: hash

datatype path_error = EmptyLeafSet | TargetNotInSingleLeafSet | TargetNotInLeafSet

datatype proof_error =
    NilTree
  | EdgeTypeNotFound string
  | PackageNotFound string
  | EdgeProofError path_error
  | EdgeTypeProofError path_error
  | PackageProofError path_error
  | CannotProveAbsence hash
  | LeftNeighborError proof_error
  | RightNeighborError proof_error

section \<open>binaryProof\<close>

text \<open>
  The body of the inner loop at index \<open>i\<close>: append the parent and, when the target is one of
  the two children, emit its sibling and remember the parent's position.
\<close>

definition pair_visit ::
  "sha \<Rightarrow> int \<Rightarrow> nat \<Rightarrow> hash \<Rightarrow> hash \<Rightarrow> hash list \<times> int \<times> ProofStep list \<Rightarrow> hash list \<times> int \<times> ProofStep list"
where
  "pair_visit H idx i left right acc =
     (case acc of (nextLevel, nextIdx, steps) \<Rightarrow>
        let nextLevel = nextLevel @ [combineHashes H left right] in
        if int i = idx then
          (nextLevel, int (length nextLevel) - 1, steps @ [\<lparr>Sibling = right, IsLeft = False\<rparr>])
        else if int i + 1 = idx then
          (nextLevel, int (length nextLevel) - 1, steps @ [\<lparr>Sibling = left, IsLeft = True\<rparr>])
        else (nextLevel, nextIdx, steps))"

fun pair_pass ::
  "sha \<Rightarrow> int \<Rightarrow> hash list \<Rightarrow> nat \<Rightarrow> hash list \<times> int \<times> ProofStep list \<Rightarrow> hash list \<times> int \<times> ProofStep list"
where
  "pair_pass H idx [] i acc = acc"
| "pair_pass H idx [left] i acc = pair_visit H idx i left left acc"
| "pair_pass H idx (left # right # rest) i acc =
     pair_pass H idx rest (i + 2) (pair_visit H idx i left right acc)"

lemma fst_pair_visit [simp]:
  "fst (pair_visit H idx i l r acc) = fst acc @ [combineHashes H l r]"
  by (simp add: pair_visit_def Let_def split: prod.splits)

lemma fst_pair_pass [simp]: "fst (pair_pass H idx level i acc) = fst acc @ next_level H level"
  by (induction H idx level i acc rule: pair_pass.induct) simp_all

function proof_loop :: "sha \<Rightarrow> hash list \<Rightarrow> int \<Rightarrow> ProofStep list \<Rightarrow> ProofStep list" where
  "proof_loop H level idx steps =
     (if 1 < length level then
        (let acc = pair_pass H idx level 0 ([], -1, steps)
         in proof_loop H (fst acc) (fst (snd acc)) (snd (snd acc)))
      else steps)"
  by pat_completeness auto
termination
  by (relation "measure (\<lambda>(H, level, idx, steps). length level)") auto

declare proof_loop.simps [simp del]

text \<open>The first index that holds the target, \<open>-1\<close> when none does.\<close>

fun find_index :: "hash list \<Rightarrow> hash \<Rightarrow> nat \<Rightarrow> int" where
  "find_index [] target i = -1"
| "find_index (h # hs) target i = (if h = target then int i else find_index hs target (Suc i))"

definition binaryProof :: "sha \<Rightarrow> hash list \<Rightarrow> hash \<Rightarrow> path_error + ProofStep list" where
  "binaryProof H leaves target =
     (if length leaves = 0 then Inl EmptyLeafSet
      else if length leaves = 1 then
        (if leaves ! 0 \<noteq> target then Inl TargetNotInSingleLeafSet else Inr [])
      else
        (let idx = find_index leaves target 0 in
         if idx < 0 then Inl TargetNotInLeafSet else Inr (proof_loop H leaves idx [])))"

definition binaryProofTree :: "sha \<Rightarrow> hash list \<Rightarrow> hash \<Rightarrow> path_error + ProofStep list" where
  "binaryProofTree H leaves target =
     (if length leaves = 0 then Inl EmptyLeafSet
      else if length leaves = 1 then
        (if leaves ! 0 \<noteq> target then Inl TargetNotInSingleLeafSet
         else Inr [\<lparr>Sibling = target, IsLeft = False\<rparr>])
      else binaryProof H leaves target)"

section \<open>GenerateProof and VerifyProof\<close>

definition lastColonIndex :: "string \<Rightarrow> nat" where
  "lastColonIndex s = (case strings_LastIndex s '':'' of Some i \<Rightarrow> i | None \<Rightarrow> length s)"

definition leaf_hashes :: "EdgeInput list \<Rightarrow> string \<Rightarrow> string \<Rightarrow> hash list" where
  "leaf_hashes edges packagePath edgeType =
     map EI_EdgeHash (filter (\<lambda>e. PackagePath e = packagePath \<and> EI_EdgeType e = edgeType) edges)"

definition GenerateProof ::
  "sha \<Rightarrow> HierarchicalTree option \<Rightarrow> hash \<Rightarrow> string \<Rightarrow> string \<Rightarrow> EdgeInput list \<Rightarrow> proof_error + MerkleProof"
where
  "GenerateProof H t edgeHash packagePath edgeType edges =
     (case t of
        None \<Rightarrow> Inl NilTree
      | Some tree \<Rightarrow>
        let key = packagePath @ '':'' @ edgeType in
        (case map_of (EdgeTypeRoots tree) key of
           None \<Rightarrow> Inl (EdgeTypeNotFound key)
         | Some etRoot \<Rightarrow>
           (case map_of (PackageRoots tree) packagePath of
              None \<Rightarrow> Inl (PackageNotFound packagePath)
            | Some pkgRoot \<Rightarrow>
              let edgeHashes = SortHashes (leaf_hashes edges packagePath edgeType);
                  etRoots = SortHashes (map snd (filter (\<lambda>(k, root). take (lastColonIndex k) k = packagePath)
                              (EdgeTypeRoots tree)));
                  pkgRoots = SortHashes (map snd (PackageRoots tree))
              in bind_res (map_err EdgeProofError (binaryProof H edgeHashes edgeHash)) (\<lambda>edgeProof.
                 bind_res (map_err EdgeTypeProofError (binaryProof H etRoots etRoot)) (\<lambda>etProof.
                 bind_res (map_err PackageProofError (binaryProofTree H pkgRoots pkgRoot)) (\<lambda>pkgProof.
                 Inr \<lparr>MP_EdgeHash = edgeHash, MP_PackagePath = packagePath, MP_EdgeType = edgeType,
                      EdgeToEdgeTypeRoot = edgeProof, MP_EdgeTypeRoot = etRoot,
                      EdgeTypeToPackageRoot = etProof, MP_PackageRoot = pkgRoot,
                      PackageToRepoRoot = pkgProof, RepoRoot = Root tree\<rparr>))))))"

definition apply_step :: "sha \<Rightarrow> ProofStep \<Rightarrow> hash \<Rightarrow> hash" where
  "apply_step H step computed =
     (if IsLeft step then combineHashes H (Sibling step) computed
      else combineHashes H computed (Sibling step))"

definition recompute :: "sha \<Rightarrow> ProofStep list \<Rightarrow> hash \<Rightarrow> hash" where
  "recompute H steps computed = fold (apply_step H) steps computed"

definition VerifyProof :: "sha \<Rightarrow> MerkleProof \<Rightarrow> bool" where
  "VerifyProof H p =
     (if recompute H (EdgeToEdgeTypeRoot p) (MP_EdgeHash p) \<noteq> MP_EdgeTypeRoot p then False
      else if recompute H (EdgeTypeToPackageRoot p) (MP_EdgeTypeRoot p) \<noteq> MP_PackageRoot p then False
      else recompute H (PackageToRepoRoot p) (MP_PackageRoot p) = RepoRoot p)"

section \<open>Proofs of absence\<close>

record AbsenceProof =
  MissingHash :: hash
  LeftNeighbor :: "hash option"
  RightNeighbor :: "hash option"
  LeftProof :: "MerkleProof option"
  RightProof :: "MerkleProof option"
  AP_RepoRoot :: hash

definition GenerateAbsenceProof ::
  "sha \<Rightarrow> HierarchicalTree option \<Rightarrow> hash \<Rightarrow> string \<Rightarrow> string \<Rightarrow> EdgeInput list \<Rightarrow> proof_error + AbsenceProof"
where
  "GenerateAbsenceProof H t edgeHash packagePath edgeType edges =
     (case t of
        None \<Rightarrow> Inl NilTree
      | Some tree \<Rightarrow>
        let key = packagePath @ '':'' @ edgeType;
            start = \<lparr>MissingHash = edgeHash, LeftNeighbor = None, RightNeighbor = None,
                     LeftProof = None, RightProof = None, AP_RepoRoot = Root tree\<rparr>
        in
        (case map_of (EdgeTypeRoots tree) key of
           None \<Rightarrow> Inr start
         | Some _ \<Rightarrow>
           let leaves = SortHashes (leaf_hashes edges packagePath edgeType) in
           if edgeHash \<in> set leaves then Inl (CannotProveAbsence edgeHash)
           else
             (let insertIdx = sort_Search (length leaves)
                    (\<lambda>i. bytes_Compare (hash_bytes (leaves ! i)) (hash_bytes edgeHash) \<ge> 0) in
              bind_res
                (if insertIdx > 0 then
                   (let left = leaves ! (insertIdx - 1) in
                    bind_res (map_err LeftNeighborError
                        (GenerateProof H (Some tree) left packagePath edgeType edges))
                      (\<lambda>lp. Inr (start\<lparr>LeftNeighbor := Some left, LeftProof := Some lp\<rparr>)))
                 else Inr start)
                (\<lambda>prf.
                   if insertIdx < length leaves then
                     (let right = leaves ! insertIdx in
                      bind_res (map_err RightNeighborError
                          (GenerateProof H (Some tree) right packagePath edgeType edges))
                        (\<lambda>rp. Inr (prf\<lparr>RightNeighbor := Some right, RightProof := Some rp\<rparr>)))
                   else Inr prf))))"

definition VerifyAbsenceProof :: "sha \<Rightarrow> AbsenceProof option \<Rightarrow> bool" where
  "VerifyAbsenceProof H ap =
     (case ap of
        None \<Rightarrow> False
      | Some p \<Rightarrow>
        (case LeftProof p of
           None \<Rightarrow> True
         | Some lp \<Rightarrow>
           VerifyProof H lp \<and> RepoRoot lp = AP_RepoRoot p \<and>
           (case LeftNeighbor p of
              None \<Rightarrow> False
            | Some l \<Rightarrow> \<not> bytes_Compare (hash_bytes l) (hash_bytes (MissingHash p)) \<ge> 0)) \<and>
        (case RightProof p of
           None \<Rightarrow> True
         | Some rp \<Rightarrow>
           VerifyProof H rp \<and> RepoRoot rp = AP_RepoRoot p \<and>
           (case RightNeighbor p of
              None \<Rightarrow> False
            | Some r \<Rightarrow> \<not> bytes_Compare (hash_bytes r) (hash_bytes (MissingHash p)) \<le> 0)))"

section \<open>The loop of binaryProof in closed form\<close>

definition level_sibling :: "hash list \<Rightarrow> nat \<Rightarrow> ProofStep" where
  "level_sibling level k =
     (if even k then
        \<lparr>Sibling = (if k + 1 < length level then level ! (k + 1) else level ! k), IsLeft = False\<rparr>
      else \<lparr>Sibling = level ! (k - 1), IsLeft = True\<rparr>)"

lemma level_sibling_drop2:
  "level_sibling (a # b # xs) (Suc (Suc k)) = (if k < length xs then level_sibling xs k else level_sibling (a # b # xs) (Suc (Suc k)))"
  by (auto simp: level_sibling_def nth_Cons split: nat.splits)

lemma next_level_nth:
  "k < length level \<Longrightarrow> next_level H level ! (k div 2) = apply_step H (level_sibling level k) (level ! k)"
proof (induction H level arbitrary: k rule: next_level.induct)
  case (2 H a)
  then show ?case by (simp add: level_sibling_def apply_step_def)
next
  case (3 H a b xs)
  show ?case
  proof (cases "k < 2")
    case True
    then have "k = 0 \<or> k = 1" by auto
    then show ?thesis by (auto simp: level_sibling_def apply_step_def)
  next
    case False
    then obtain j where k: "k = Suc (Suc j)" by (metis add_2_eq_Suc le_add_diff_inverse not_less)
    then show ?thesis using 3 by (simp add: level_sibling_drop2)
  qed
qed simp

lemma pair_pass_after:
  "idx < int i \<Longrightarrow> pair_pass H idx level i (nl, ni, st) = (nl @ next_level H level, ni, st)"
  by (induction H level arbitrary: i nl rule: next_level.induct)
    (simp_all add: pair_visit_def Let_def)

lemma pair_pass_hit:
  "k < length level \<Longrightarrow>
     pair_pass H (int (i + k)) level i (nl, ni, st) =
       (nl @ next_level H level, int (length nl + k div 2), st @ [level_sibling level k])"
proof (induction H level arbitrary: i k nl rule: next_level.induct)
  case (2 H a)
  then show ?case by (simp add: pair_visit_def Let_def level_sibling_def)
next
  case (3 H a b xs)
  consider "k = 0" | "k = 1" | j where "k = Suc (Suc j)"
    by (metis One_nat_def not0_implies_Suc)
  then show ?case
  proof cases
    case 1
    then show ?thesis by (simp add: pair_visit_def Let_def pair_pass_after level_sibling_def)
  next
    case 2
    then show ?thesis by (simp add: pair_visit_def Let_def pair_pass_after level_sibling_def)
  next
    case (3 j)
    have eq: "i + k = (i + 2) + j" using 3 by simp
    have visit: "pair_visit H (int ((i + 2) + j)) i a b (nl, ni, st) = (nl @ [combineHashes H a b], ni, st)"
      by (simp add: pair_visit_def Let_def)
    have j: "j < length xs" using 3 "3.prems" by simp
    have sib: "level_sibling (a # b # xs) k = level_sibling xs j"
      using j 3 by (simp add: level_sibling_drop2)
    have "pair_pass H (int (i + k)) (a # b # xs) i (nl, ni, st) =
        pair_pass H (int ((i + 2) + j)) xs (i + 2) (nl @ [combineHashes H a b], ni, st)"
      unfolding eq pair_pass.simps visit ..
    also have "\<dots> = ((nl @ [combineHashes H a b]) @ next_level H xs,
        int (length (nl @ [combineHashes H a b]) + j div 2), st @ [level_sibling xs j])"
      by (rule "3.IH" [OF j])
    finally show ?thesis using 3 sib by simp
  qed
qed simp

lemma proof_loop_correct:
  "k < length level \<Longrightarrow>
     \<exists>st. proof_loop H level (int k) steps = steps @ st \<and> recompute H st (level ! k) = levels_root H level"
proof (induction H level arbitrary: k steps rule: levels_root.induct)
  case (1 H level)
  show ?case
  proof (cases "1 < length level")
    case False
    then have one: "length level = 1" and k: "k = 0" using "1.prems" by auto
    from one obtain a where "level = [a]" by (auto simp: length_Suc_conv)
    with k show ?thesis
      by (auto simp: proof_loop.simps [of H "[a]"] recompute_def levels_root_simps)
  next
    case True
    have half: "k div 2 < length (next_level H level)" using "1.prems" by simp
    from "1.IH" [OF True half, of "steps @ [level_sibling level k]"] obtain st where
      st: "proof_loop H (next_level H level) (int (k div 2)) (steps @ [level_sibling level k])
             = (steps @ [level_sibling level k]) @ st"
          "recompute H st (next_level H level ! (k div 2)) = levels_root H (next_level H level)"
      by blast
    have "proof_loop H level (int k) steps = steps @ level_sibling level k # st"
      using True pair_pass_hit [OF "1.prems", of H 0 "[]" "-1" steps] st(1)
      by (simp add: proof_loop.simps [of H level] Let_def)
    moreover have "recompute H (level_sibling level k # st) (level ! k) = levels_root H level"
      using st(2) True next_level_nth [OF "1.prems", of H]
      by (simp add: recompute_def levels_root.simps [of H level])
    ultimately show ?thesis by blast
  qed
qed

lemma find_index_in:
  "target \<in> set hs \<Longrightarrow> \<exists>k < length hs. find_index hs target i = int (i + k) \<and> hs ! k = target"
proof (induction hs arbitrary: i)
  case (Cons h hs)
  show ?case
  proof (cases "h = target")
    case False
    with Cons obtain k where "k < length hs" "find_index hs target (Suc i) = int (Suc i + k)" "hs ! k = target"
      by (metis set_ConsD)
    with False show ?thesis by (intro exI [of _ "Suc k"]) simp
  qed auto
qed simp

lemma find_index_notin: "target \<notin> set hs \<Longrightarrow> find_index hs target i = -1"
  by (induction hs arbitrary: i) auto

lemma binaryProof_complete:
  assumes "target \<in> set leaves"
  shows "\<exists>st. binaryProof H leaves target = Inr st \<and> recompute H st target = levels_root H leaves"
proof (cases "length leaves = 1")
  case True
  then obtain a where "leaves = [a]" by (auto simp: length_Suc_conv)
  with assms show ?thesis
    by (simp add: binaryProof_def recompute_def levels_root_simps)
next
  case False
  from find_index_in [OF assms, of 0] obtain k where
    k: "k < length leaves" "find_index leaves target 0 = int k" "leaves ! k = target" by auto
  from proof_loop_correct [OF k(1), of H "[]"] k False assms show ?thesis
    by (auto simp: binaryProof_def)
qed

lemma binaryProof_error:
  "target \<notin> set leaves \<Longrightarrow> \<exists>e. binaryProof H leaves target = Inl e"
  by (auto simp: binaryProof_def Let_def find_index_notin length_Suc_conv)

lemma binaryProofTree_complete:
  assumes "target \<in> set leaves"
  shows "\<exists>st. binaryProofTree H leaves target = Inr st \<and> recompute H st target = tree_root H leaves"
proof (cases "length leaves = 1")
  case True
  then obtain a where "leaves = [a]" by (auto simp: length_Suc_conv)
  with assms show ?thesis
    by (simp add: binaryProofTree_def recompute_def apply_step_def tree_root_def)
next
  case False
  with binaryProof_complete [OF assms, of H] assms show ?thesis
    by (auto simp: binaryProofTree_def tree_root_def)
qed


section \<open>Completeness\<close>

lemma lastColonIndex_take: "take (lastColonIndex k) k = key_group k"
  by (auto simp: lastColonIndex_def key_group_def split: option.splits)

definition provable_group :: "EdgeInput list \<Rightarrow> string \<Rightarrow> bool" where
  "provable_group edges packagePath \<longleftrightarrow>
     packagePath \<noteq> '''' \<and> (packagePath = ''_root'' \<longrightarrow> (\<forall>e\<in>set edges. PackagePath e \<noteq> ''''))"

definition colon_free :: "EdgeInput list \<Rightarrow> bool" where
  "colon_free edges \<longleftrightarrow> (\<forall>e\<in>set edges. CHR '':'' \<notin> set (EI_EdgeType e))"

lemma edge_group_eq:
  "provable_group edges pkg \<Longrightarrow> e \<in> set edges \<Longrightarrow> edge_group e = pkg \<longleftrightarrow> PackagePath e = pkg"
  by (auto simp: provable_group_def edge_group_def)

lemma filter_subgroup:
  assumes "provable_group edges pkg" "colon_free edges" "CHR '':'' \<notin> set et"
  shows "map Leaf (filter (\<lambda>j. subgroup_key j = pkg @ '':'' @ et) (map to_strata edges))
    = leaf_hashes edges pkg et"
proof -
  have key: "subgroup_key (to_strata j) = pkg @ '':'' @ et \<longleftrightarrow> PackagePath j = pkg \<and> EI_EdgeType j = et"
    if "j \<in> set edges" for j
  proof -
    have "CHR '':'' \<notin> set (EI_EdgeType j)" using assms(2) that by (simp add: colon_free_def)
    then have "subgroup_key (to_strata j) = pkg @ '':'' @ et \<longleftrightarrow> edge_group j = pkg \<and> EI_EdgeType j = et"
      using last_colon_inj [of "EI_EdgeType j" et "edge_group j" pkg] assms(3)
      by (auto simp: subgroup_key_def to_strata_def)
    with edge_group_eq [OF assms(1) that] show ?thesis by simp
  qed
  have "filter (\<lambda>j. subgroup_key j = pkg @ '':'' @ et) (map to_strata edges)
      = map to_strata (filter (\<lambda>j. PackagePath j = pkg \<and> EI_EdgeType j = et) edges)"
    using key by (simp add: filter_map comp_def cong: filter_cong)
  then show ?thesis by (simp add: leaf_hashes_def to_strata_def)
qed

lemma Build_fields:
  assumes "strata_spec H BML" "edges \<noteq> []" "colon_free edges"
  obtains m where "multi_level_ok H (map to_strata edges) m"
    "Root (BuildHierarchicalTree BML edges) = ML_Root m"
    "PackageRoots (BuildHierarchicalTree BML edges) = GroupRoots m"
    "EdgeTypeRoots (BuildHierarchicalTree BML edges) = SubgroupRoots m"
proof
  let ?m = "BML strataPrefix (map to_strata edges)"
  show "multi_level_ok H (map to_strata edges) ?m"
    using assms unfolding strata_spec_def colon_free_def by (simp add: to_strata_def)
qed (use assms(2) in \<open>simp_all add: BuildHierarchicalTree_def Let_def\<close>)

lemma leaf_hashes_in:
  "e \<in> set edges \<Longrightarrow> EI_EdgeHash e \<in> set (leaf_hashes edges (PackagePath e) (EI_EdgeType e))"
  by (auto simp: leaf_hashes_def)

lemma GenerateProof_ok:
  assumes "strata_spec H BML" "colon_free edges" "provable_group edges pkg"
    "CHR '':'' \<notin> set et" "h \<in> set (leaf_hashes edges pkg et)"
  shows "\<exists>p. GenerateProof H (Some (BuildHierarchicalTree BML edges)) h pkg et edges = Inr p \<and>
    VerifyProof H p \<and> RepoRoot p = Root (BuildHierarchicalTree BML edges) \<and> MP_EdgeHash p = h"
proof -
  from assms(5) obtain e where e: "e \<in> set edges" "PackagePath e = pkg" "EI_EdgeType e = et"
    by (auto simp: leaf_hashes_def)
  then have "edges \<noteq> []" by auto
  with Build_fields [OF assms(1) _ assms(2)] obtain m where
    ok: "multi_level_ok H (map to_strata edges) m" and
    fields: "Root (BuildHierarchicalTree BML edges) = ML_Root m"
    "PackageRoots (BuildHierarchicalTree BML edges) = GroupRoots m"
    "EdgeTypeRoots (BuildHierarchicalTree BML edges) = SubgroupRoots m" by metis
  let ?key = "pkg @ '':'' @ et"
  let ?leaves = "SortHashes (leaf_hashes edges pkg et)"
  have group: "edge_group e = pkg" using edge_group_eq [OF assms(3) e(1)] e(2) by simp
  have inp: "to_strata e \<in> set (map to_strata edges)" using e(1) by simp
  have key: "subgroup_key (to_strata e) = ?key" "Group (to_strata e) = pkg"
    using group e(3) by (simp_all add: subgroup_key_def to_strata_def)
  have et: "map_of (SubgroupRoots m) ?key = Some (levels_root H ?leaves)"
    using ok inp key(1) filter_subgroup [OF assms(3,2,4)] unfolding multi_level_ok_def by metis
  have pk: "map_of (GroupRoots m) pkg = Some (levels_root H (SortHashes (group_subroots m pkg)))"
    using ok inp key(2) unfolding multi_level_ok_def by (metis imageI)
  have root: "ML_Root m = tree_root H (SortHashes (map snd (GroupRoots m)))"
    using ok by (simp add: multi_level_ok_def)
  have "key_group ?key = pkg"
    using assms(4) by (simp add: key_group_def strings_LastIndex_append_not_in)
  then have in1: "levels_root H ?leaves \<in> set (SortHashes (group_subroots m pkg))"
    using map_of_SomeD [OF et] by (force simp: group_subroots_def)
  have in2: "levels_root H (SortHashes (group_subroots m pkg)) \<in> set (SortHashes (map snd (GroupRoots m)))"
    using map_of_SomeD [OF pk] by force
  have subs: "map snd (filter (\<lambda>(k, root). take (lastColonIndex k) k = pkg) (SubgroupRoots m)) = group_subroots m pkg"
    by (simp add: lastColonIndex_take group_subroots_def case_prod_unfold)
  from binaryProof_complete [of h ?leaves H] assms(5) obtain s1 where
    s1: "binaryProof H ?leaves h = Inr s1" "recompute H s1 h = levels_root H ?leaves" by auto
  from binaryProof_complete [OF in1, of H] obtain s2 where
    s2: "binaryProof H (SortHashes (group_subroots m pkg)) (levels_root H ?leaves) = Inr s2"
      "recompute H s2 (levels_root H ?leaves) = levels_root H (SortHashes (group_subroots m pkg))" by auto
  from binaryProofTree_complete [OF in2, of H] obtain s3 where
    s3: "binaryProofTree H (SortHashes (map snd (GroupRoots m)))
           (levels_root H (SortHashes (group_subroots m pkg))) = Inr s3"
      "recompute H s3 (levels_root H (SortHashes (group_subroots m pkg))) = ML_Root m"
    using root by auto
  show ?thesis
    using et pk subs s1 s2 s3 by (simp add: GenerateProof_def Let_def fields VerifyProof_def)
qed

section \<open>Soundness\<close>

text \<open>
  The pairs the construction of a tree combines, level by level, and the pairs a verifier
  combines. Soundness asks that no pair of the proof collides with a different pair of the
  tree, and nothing else of the hash function.
\<close>

fun pass_pairs :: "hash list \<Rightarrow> (hash \<times> hash) list" where
  "pass_pairs [] = []"
| "pass_pairs [a] = [(a, a)]"
| "pass_pairs (a # b # xs) = (a, b) # pass_pairs xs"

function level_pairs :: "sha \<Rightarrow> hash list \<Rightarrow> (hash \<times> hash) list" where
  "level_pairs H level =
     (if 1 < length level then pass_pairs level @ level_pairs H (next_level H level) else [])"
  by pat_completeness auto
termination
  by (relation "measure (\<lambda>(H, level). length level)") auto

declare level_pairs.simps [simp del]

lemma level_pairs_one: "level_pairs H [a] = []"
  by (simp add: level_pairs.simps [of H "[a]"])

definition combine_pair :: "sha \<Rightarrow> hash \<times> hash \<Rightarrow> hash" where
  "combine_pair H ab = combineHashes H (fst ab) (snd ab)"

fun step_pairs :: "sha \<Rightarrow> ProofStep list \<Rightarrow> hash \<Rightarrow> (hash \<times> hash) list" where
  "step_pairs H [] x = []"
| "step_pairs H (s # ss) x =
     (if IsLeft s then (Sibling s, x) else (x, Sibling s)) # step_pairs H ss (apply_step H s x)"

lemma next_level_pairs: "next_level H level = map (combine_pair H) (pass_pairs level)"
  by (induction level rule: pass_pairs.induct) (auto simp: combine_pair_def)

lemma pass_pairs_in: "(a, b) \<in> set (pass_pairs level) \<Longrightarrow> a \<in> set level \<and> b \<in> set level"
  by (induction level rule: pass_pairs.induct) auto

lemma level_pairs_closed:
  "(a, b) \<in> set (level_pairs H level) \<Longrightarrow>
     {a, b} \<subseteq> set level \<union> combine_pair H ` set (level_pairs H level)"
proof (induction H level rule: level_pairs.induct)
  case (1 H level)
  show ?case
  proof (cases "1 < length level")
    case True
    have unf: "level_pairs H level = pass_pairs level @ level_pairs H (next_level H level)"
      using True by (simp add: level_pairs.simps [of H level])
    show ?thesis
    proof (cases "(a, b) \<in> set (pass_pairs level)")
      case False
      then have "(a, b) \<in> set (level_pairs H (next_level H level))" using "1.prems" unf by simp
      from "1.IH" [OF True this]
      have "{a, b} \<subseteq> set (next_level H level) \<union> combine_pair H ` set (level_pairs H (next_level H level))" .
      then show ?thesis by (auto simp: unf next_level_pairs [of H level])
    qed (use pass_pairs_in in auto)
  qed (use "1.prems" in \<open>simp add: level_pairs.simps [of H level]\<close>)
qed

lemma levels_root_in:
  "level \<noteq> [] \<Longrightarrow> levels_root H level \<in> set level \<union> combine_pair H ` set (level_pairs H level)"
proof (induction H level rule: levels_root.induct)
  case (1 H level)
  show ?case
  proof (cases "1 < length level")
    case True
    then have "next_level H level \<noteq> []" by (auto simp flip: length_0_conv)
    from "1.IH" [OF True this] True show ?thesis
      by (auto simp: levels_root.simps [of H level] level_pairs.simps [of H level] next_level_pairs [of H level])
  next
    case False
    with "1.prems" show ?thesis by (cases level) (auto simp: levels_root_simps)
  qed
qed

definition no_collision :: "sha \<Rightarrow> (hash \<times> hash) set \<Rightarrow> hash set \<Rightarrow> (hash \<times> hash) set \<Rightarrow> bool" where
  "no_collision H P L Q \<longleftrightarrow>
     (\<forall>q \<in> Q. combine_pair H q \<notin> L \<and> (\<forall>r \<in> P. combine_pair H q = combine_pair H r \<longrightarrow> q = r))"

lemma no_collision_insert:
  "no_collision H P L (insert q Q) \<longleftrightarrow> combine_pair H q \<notin> L \<and>
     (\<forall>r \<in> P. combine_pair H q = combine_pair H r \<longrightarrow> q = r) \<and> no_collision H P L Q"
  by (auto simp: no_collision_def)

lemma step_pairs_back:
  assumes closed: "\<And>q. q \<in> P \<Longrightarrow> fst q \<in> V \<and> snd q \<in> V"
    and V: "V \<subseteq> L \<union> combine_pair H ` P"
  shows "no_collision H P L (set (step_pairs H ss x)) \<Longrightarrow> recompute H ss x \<in> V \<Longrightarrow> x \<in> V"
proof (induction ss arbitrary: x)
  case Nil
  then show ?case by (simp add: recompute_def)
next
  case (Cons s ss)
  define y where "y = apply_step H s x"
  define q where "q = (if IsLeft s then (Sibling s, x) else (x, Sibling s))"
  have "set (step_pairs H (s # ss) x) = insert q (set (step_pairs H ss y))"
    by (simp add: q_def y_def)
  then have nc: "combine_pair H q \<notin> L" "\<forall>r \<in> P. combine_pair H q = combine_pair H r \<longrightarrow> q = r"
    "no_collision H P L (set (step_pairs H ss y))"
    using Cons.prems(1) no_collision_insert by simp_all
  have "recompute H ss y \<in> V"
    using Cons.prems(2) by (simp add: recompute_def y_def)
  with Cons.IH nc(3) have "y \<in> V" .
  have "y = combine_pair H q"
    by (simp add: apply_step_def combine_pair_def q_def y_def)
  with \<open>y \<in> V\<close> V have "combine_pair H q \<in> L \<union> combine_pair H ` P" by (simp add: subset_iff)
  with nc(1) obtain r where r: "r \<in> P" "combine_pair H q = combine_pair H r" by (simp add: image_iff) blast
  with nc(2) have "q = r" by blast
  with r(1) closed have "fst q \<in> V \<and> snd q \<in> V" by simp
  then show ?case by (simp add: q_def split: if_splits)
qed

lemma recompute_append: "recompute H (s @ t) x = recompute H t (recompute H s x)"
  by (simp add: recompute_def)

lemma step_pairs_append: "step_pairs H (s @ t) x = step_pairs H s x @ step_pairs H t (recompute H s x)"
  by (induction s arbitrary: x) (auto simp: recompute_def)

definition proof_steps :: "MerkleProof \<Rightarrow> ProofStep list" where
  "proof_steps p = EdgeToEdgeTypeRoot p @ EdgeTypeToPackageRoot p @ PackageToRepoRoot p"

lemma VerifyProof_recompute: "VerifyProof H p \<Longrightarrow> recompute H (proof_steps p) (MP_EdgeHash p) = RepoRoot p"
  by (simp add: VerifyProof_def proof_steps_def recompute_append split: if_splits)

definition top_pairs :: "sha \<Rightarrow> hash list \<Rightarrow> (hash \<times> hash) list" where
  "top_pairs H xs = (if length xs = 1 then [(hd xs, hd xs)] else level_pairs H xs)"

text \<open>All pairs combined in the three levels of a tree over \<open>edges\<close>.\<close>

definition tree_pairs :: "sha \<Rightarrow> HierarchicalTree \<Rightarrow> EdgeInput list \<Rightarrow> (hash \<times> hash) list" where
  "tree_pairs H tree edges =
     top_pairs H (SortHashes (map snd (PackageRoots tree))) @
     concat (map (\<lambda>g. level_pairs H (SortHashes (map snd
         (filter (\<lambda>p. key_group (fst p) = g) (EdgeTypeRoots tree))))) (map edge_group edges)) @
     concat (map (\<lambda>e. level_pairs H (SortHashes (map EI_EdgeHash
         (filter (\<lambda>j. subgroup_key (to_strata j) = subgroup_key (to_strata e)) edges)))) edges)"

lemma top_pairs_in:
  "xs \<noteq> [] \<Longrightarrow> tree_root H xs \<in> set xs \<union> combine_pair H ` set (top_pairs H xs)"
  using levels_root_in [of xs H] by (auto simp: tree_root_def top_pairs_def combine_pair_def)

lemma top_pairs_closed:
  "(a, b) \<in> set (top_pairs H xs) \<Longrightarrow> {a, b} \<subseteq> set xs \<union> combine_pair H ` set (top_pairs H xs)"
  using level_pairs_closed [of a b H xs]
  by (auto simp: top_pairs_def length_Suc_conv split: if_splits)

definition tree_values :: "sha \<Rightarrow> HierarchicalTree \<Rightarrow> EdgeInput list \<Rightarrow> hash set" where
  "tree_values H tree edges = EI_EdgeHash ` set edges \<union> combine_pair H ` set (tree_pairs H tree edges)"

lemma filter_subgroup_leaves:
  "map Leaf (filter (\<lambda>j. subgroup_key j = k) (map to_strata edges)) =
     map EI_EdgeHash (filter (\<lambda>j. subgroup_key (to_strata j) = k) edges)"
  by (simp add: filter_map comp_def to_strata_def)

lemma subgroup_root_value:
  assumes ok: "multi_level_ok H (map to_strata edges) m"
    and tree: "EdgeTypeRoots tree = SubgroupRoots m"
    and kr: "(k, r) \<in> set (SubgroupRoots m)"
  shows "r \<in> tree_values H tree edges"
proof -
  have "k \<in> fst ` set (SubgroupRoots m)" using kr by force
  then obtain e where e: "e \<in> set edges" "k = subgroup_key (to_strata e)"
    using ok by (auto simp: multi_level_ok_def)
  let ?hs = "SortHashes (map EI_EdgeHash (filter (\<lambda>j. subgroup_key (to_strata j) = k) edges))"
  have "map_of (SubgroupRoots m) k = Some r"
    using ok kr by (simp add: multi_level_ok_def)
  moreover have "map_of (SubgroupRoots m) k = Some (levels_root H ?hs)"
    using ok e filter_subgroup_leaves [of k edges] by (simp add: multi_level_ok_def)
  ultimately have r: "r = levels_root H ?hs" by simp
  have "?hs \<noteq> []" using e by (auto simp: filter_empty_conv)
  from levels_root_in [OF this, of H]
  have "r \<in> set ?hs \<union> combine_pair H ` set (level_pairs H ?hs)" using r by simp
  moreover have "set ?hs \<subseteq> EI_EdgeHash ` set edges" by auto
  moreover have "set (level_pairs H ?hs) \<subseteq> set (tree_pairs H tree edges)"
    using e by (auto simp: tree_pairs_def)
  ultimately show ?thesis unfolding tree_values_def by blast
qed

lemma group_root_value:
  assumes ok: "multi_level_ok H (map to_strata edges) m"
    and tree: "EdgeTypeRoots tree = SubgroupRoots m"
    and cf: "colon_free edges"
    and gr: "(g, r) \<in> set (GroupRoots m)"
  shows "r \<in> tree_values H tree edges"
proof -
  have "g \<in> fst ` set (GroupRoots m)" using gr by force
  then obtain e where e: "e \<in> set edges" "g = edge_group e"
    using ok by (auto simp: multi_level_ok_def to_strata_def)
  let ?hs = "SortHashes (group_subroots m g)"
  have "map_of (GroupRoots m) g = Some r"
    using ok gr by (simp add: multi_level_ok_def)
  moreover have "map_of (GroupRoots m) g = Some (levels_root H ?hs)"
    using ok e by (simp add: multi_level_ok_def to_strata_def)
  ultimately have r: "r = levels_root H ?hs" by simp
  have "subgroup_key (to_strata e) \<in> fst ` set (SubgroupRoots m)"
    using ok e(1) by (auto simp: multi_level_ok_def)
  moreover have "key_group (subgroup_key (to_strata e)) = g"
    using cf e by (simp add: colon_free_def to_strata_def)
  ultimately have "?hs \<noteq> []" by (force simp: group_subroots_def filter_empty_conv)
  from levels_root_in [OF this, of H]
  have "r \<in> set ?hs \<union> combine_pair H ` set (level_pairs H ?hs)" using r by simp
  moreover have "set ?hs \<subseteq> tree_values H tree edges"
    using subgroup_root_value [OF ok tree] by (auto simp: group_subroots_def)
  moreover have "set (level_pairs H ?hs) \<subseteq> set (tree_pairs H tree edges)"
    using e tree by (auto simp: tree_pairs_def group_subroots_def)
  ultimately show ?thesis unfolding tree_values_def by blast
qed

lemma tree_values_closed:
  assumes ok: "multi_level_ok H (map to_strata edges) m"
    and tree: "EdgeTypeRoots tree = SubgroupRoots m" "PackageRoots tree = GroupRoots m"
    and cf: "colon_free edges"
    and q: "(a, b) \<in> set (tree_pairs H tree edges)"
  shows "{a, b} \<subseteq> tree_values H tree edges"
proof -
  let ?V = "tree_values H tree edges" and ?P = "set (tree_pairs H tree edges)"
  have step: "{a, b} \<subseteq> ?V"
    if "{a, b} \<subseteq> set hs \<union> combine_pair H ` Q" "set hs \<subseteq> ?V" "Q \<subseteq> ?P" for hs Q
    using that unfolding tree_values_def by blast
  from q consider
      (top) "(a, b) \<in> set (top_pairs H (SortHashes (map snd (GroupRoots m))))"
    | (group) e where "e \<in> set edges" "(a, b) \<in> set (level_pairs H (SortHashes (group_subroots m (edge_group e))))"
    | (leaf) e where "e \<in> set edges" "(a, b) \<in> set (level_pairs H (SortHashes (map EI_EdgeHash
         (filter (\<lambda>j. subgroup_key (to_strata j) = subgroup_key (to_strata e)) edges))))"
    using tree by (auto simp: tree_pairs_def group_subroots_def)
  then show ?thesis
  proof cases
    case top
    show ?thesis
    proof (rule step [OF top_pairs_closed [OF top]])
      show "set (SortHashes (map snd (GroupRoots m))) \<subseteq> ?V"
        using group_root_value [OF ok tree(1) cf] by auto
    qed (use tree in \<open>auto simp: tree_pairs_def\<close>)
  next
    case group
    show ?thesis
    proof (rule step [OF level_pairs_closed [OF group(2)]])
      show "set (SortHashes (group_subroots m (edge_group e))) \<subseteq> ?V"
        using subgroup_root_value [OF ok tree(1)] by (auto simp: group_subroots_def)
    qed (use group tree in \<open>auto simp: tree_pairs_def group_subroots_def\<close>)
  next
    case leaf
    show ?thesis
      by (rule step [OF level_pairs_closed [OF leaf(2)]])
        (use leaf in \<open>auto simp: tree_pairs_def tree_values_def\<close>)
  qed
qed

lemma tree_root_value:
  assumes ok: "multi_level_ok H (map to_strata edges) m"
    and tree: "EdgeTypeRoots tree = SubgroupRoots m" "PackageRoots tree = GroupRoots m"
    and cf: "colon_free edges" and ne: "edges \<noteq> []"
  shows "ML_Root m \<in> tree_values H tree edges"
proof -
  let ?hs = "SortHashes (map snd (GroupRoots m))"
  have "GroupRoots m \<noteq> []" using ok ne by (auto simp: multi_level_ok_def)
  then have "?hs \<noteq> []" by simp
  from top_pairs_in [OF this, of H]
  have "ML_Root m \<in> set ?hs \<union> combine_pair H ` set (top_pairs H ?hs)"
    using ok by (simp add: multi_level_ok_def)
  moreover have "set ?hs \<subseteq> tree_values H tree edges"
    using group_root_value [OF ok tree(1) cf] by auto
  moreover have "set (top_pairs H ?hs) \<subseteq> set (tree_pairs H tree edges)"
    using tree by (auto simp: tree_pairs_def)
  ultimately show ?thesis unfolding tree_values_def by blast
qed

section \<open>Length of a path\<close>

lemma proof_loop_length:
  "1 < length level \<Longrightarrow> k < length level \<Longrightarrow>
     \<exists>st. proof_loop H level (int k) steps = steps @ st \<and> 2 ^ length st \<le> 2 * (length level - 1)"
proof (induction H level arbitrary: k steps rule: levels_root.induct)
  case (1 H level)
  let ?next = "next_level H level" and ?s = "level_sibling level k"
  have unf: "proof_loop H level (int k) steps = proof_loop H ?next (int (k div 2)) (steps @ [?s])"
    using "1.prems"(1) pair_pass_hit [OF "1.prems"(2), of H 0 "[]" "-1" steps]
    by (simp add: proof_loop.simps [of H level] Let_def)
  show ?case
  proof (cases "1 < length ?next")
    case False
    then have "proof_loop H ?next (int (k div 2)) (steps @ [?s]) = steps @ [?s]"
      by (simp add: proof_loop.simps [of H ?next])
    with "1.prems" show ?thesis by (intro exI [of _ "[?s]"]) (simp add: unf)
  next
    case True
    have "k div 2 < length ?next" using "1.prems" by simp
    from "1.IH" [OF "1.prems"(1) True this, of "steps @ [?s]"] obtain st where
      st: "proof_loop H ?next (int (k div 2)) (steps @ [?s]) = (steps @ [?s]) @ st"
          "2 ^ length st \<le> 2 * (length ?next - 1)" by auto
    have "2 ^ length (?s # st) \<le> 2 * (length level - 1)"
      using st(2) "1.prems"(1) by simp
    with st(1) show ?thesis by (intro exI [of _ "?s # st"]) (simp add: unf)
  qed
qed

lemma binaryProof_length:
  assumes "binaryProof H leaves target = Inr st"
  shows "2 ^ length st < 2 * length leaves"
proof (cases "length leaves = 1")
  case True
  with assms show ?thesis by (simp add: binaryProof_def split: if_splits)
next
  case False
  have "target \<in> set leaves" using assms binaryProof_error [of target leaves H] by fastforce
  from find_index_in [OF this, of 0] obtain k where
    k: "k < length leaves" "find_index leaves target 0 = int k" by auto
  with False have "1 < length leaves" by simp
  from proof_loop_length [OF this k(1), of H "[]"] obtain st' where
    "proof_loop H leaves (int k) [] = st'" "2 ^ length st' \<le> 2 * (length leaves - 1)" by auto
  with assms k False \<open>1 < length leaves\<close> show ?thesis
    by (auto simp: binaryProof_def Let_def split: if_splits)
qed

section \<open>Properties of inclusion proofs\<close>

definition proof_edge :: "hash \<Rightarrow> string \<Rightarrow> string \<Rightarrow> EdgeInput" where
  "proof_edge h pkg et = \<lparr>EI_EdgeHash = h, PackagePath = pkg, EI_EdgeType = et\<rparr>"

lemma proof_edge_sel [simp]:
  "EI_EdgeHash (proof_edge h pkg et) = h" "PackagePath (proof_edge h pkg et) = pkg"
  "EI_EdgeType (proof_edge h pkg et) = et"
  by (simp_all add: proof_edge_def)

definition sample_edges :: "EdgeInput list" where
  "sample_edges = [proof_edge 5 ''pkg'' ''calls'', proof_edge 9 ''pkg'' ''imports'', proof_edge 6 ''pkg'' ''calls'']"

lemma sample_edges_ok:
  "colon_free sample_edges" "provable_group sample_edges ''pkg''"
  "EI_EdgeHash (proof_edge 5 ''pkg'' ''calls'') \<in> set (leaf_hashes sample_edges ''pkg'' ''calls'')"
  by (simp_all add: sample_edges_def proof_edge_def colon_free_def provable_group_def leaf_hashes_def)

text \<open>
  C1. Completeness of inclusion proofs: for every edge of a non-empty package, whatever the hash
  function, \<open>GenerateProof\<close> on the tree built from the edges succeeds, and its proof starts at
  the edge's hash, ends at the root of the tree and passes \<open>VerifyProof\<close>.
\<close>

theorem GenerateProof_complete:
  assumes "strata_spec H BML" "colon_free edges" "e \<in> set edges"
    "provable_group edges (PackagePath e)"
  shows "\<exists>p. GenerateProof H (Some (BuildHierarchicalTree BML edges)) (EI_EdgeHash e)
                (PackagePath e) (EI_EdgeType e) edges = Inr p \<and>
           VerifyProof H p \<and> MP_EdgeHash p = EI_EdgeHash e \<and>
           RepoRoot p = Root (BuildHierarchicalTree BML edges)"
proof -
  have "CHR '':'' \<notin> set (EI_EdgeType e)" using assms(2,3) by (simp add: colon_free_def)
  from GenerateProof_ok [OF assms(1,2,4) this leaf_hashes_in [OF assms(3)]] show ?thesis by blast
qed

theorem GenerateProof_complete_witness:
  "\<exists>p. GenerateProof (\<lambda>_. 7) (Some (BuildHierarchicalTree (reference_multi (\<lambda>_. 7)) sample_edges)) 6
         ''pkg'' ''calls'' sample_edges = Inr p \<and> VerifyProof (\<lambda>_. 7) p \<and> MP_EdgeHash p = 6 \<and>
       RepoRoot p = Root (BuildHierarchicalTree (reference_multi (\<lambda>_. 7)) sample_edges)"
  using GenerateProof_complete [OF reference_multi_spec sample_edges_ok(1), of "proof_edge 6 ''pkg'' ''calls''"]
    sample_edges_ok(2)
  by (simp add: proof_edge_def sample_edges_def)

text \<open>
  C2. Soundness of inclusion proofs: a proof that verifies against the root of a tree starts at a
  value of that tree, a hash of one of its edges or an interior value, unless a pair hashed by
  the verifier collides with another pair of the tree or hashes to an edge's hash.
\<close>

theorem VerifyProof_sound:
  assumes "strata_spec H BML" "colon_free edges" "edges \<noteq> []"
    "VerifyProof H p" "RepoRoot p = Root (BuildHierarchicalTree BML edges)"
    "no_collision H (set (tree_pairs H (BuildHierarchicalTree BML edges) edges))
       (EI_EdgeHash ` set edges) (set (step_pairs H (proof_steps p) (MP_EdgeHash p)))"
  shows "MP_EdgeHash p \<in> tree_values H (BuildHierarchicalTree BML edges) edges"
proof -
  let ?t = "BuildHierarchicalTree BML edges"
  from Build_fields [OF assms(1,3,2)] obtain m where
    ok: "multi_level_ok H (map to_strata edges) m" and
    fields: "Root ?t = ML_Root m" "PackageRoots ?t = GroupRoots m" "EdgeTypeRoots ?t = SubgroupRoots m" .
  show ?thesis
  proof (rule step_pairs_back [OF _ _ assms(6)])
    show "fst q \<in> tree_values H ?t edges \<and> snd q \<in> tree_values H ?t edges"
      if "q \<in> set (tree_pairs H ?t edges)" for q
      using tree_values_closed [OF ok fields(3,2) assms(2), of "fst q" "snd q"] that by simp
    show "tree_values H ?t edges \<subseteq> EI_EdgeHash ` set edges \<union> combine_pair H ` set (tree_pairs H ?t edges)"
      by (simp add: tree_values_def)
    show "recompute H (proof_steps p) (MP_EdgeHash p) \<in> tree_values H ?t edges"
      using tree_root_value [OF ok fields(3,2) assms(2,3)] VerifyProof_recompute [OF assms(4)]
      by (simp add: assms(5) fields(1))
  qed
qed

definition lone_proof :: MerkleProof where
  "lone_proof = \<lparr>MP_EdgeHash = 5, MP_PackagePath = ''pkg'', MP_EdgeType = ''calls'', EdgeToEdgeTypeRoot = [],
     MP_EdgeTypeRoot = 5, EdgeTypeToPackageRoot = [], MP_PackageRoot = 5,
     PackageToRepoRoot = [\<lparr>Sibling = 5, IsLeft = False\<rparr>], RepoRoot = 7\<rparr>"

lemma combine_const [simp]: "combineHashes (\<lambda>_. c) a b = c"
  by (simp add: combineHashes_def ComputeMerkleNodeHash_def NewHash_def)

lemma lone_tree:
  "BuildHierarchicalTree (reference_multi (\<lambda>_. 7)) [proof_edge 5 ''pkg'' ''calls''] =
     \<lparr>Root = 7, PackageRoots = [(''pkg'', 5)], EdgeTypeRoots = [(''pkg:calls'', 5)],
      PackageEdgeCounts = [(''pkg'', 1)], TotalEdges = 1,
      HT_ml = Some (reference_multi (\<lambda>_. 7) strataPrefix [to_strata (proof_edge 5 ''pkg'' ''calls'')])\<rparr>"
  by (simp add: BuildHierarchicalTree_def reference_multi_def Let_def to_strata_def proof_edge_def
      subgroup_key_def key_group_def edge_group_def SortHashes_def levels_root_simps tree_root_def count_group_def)

theorem VerifyProof_sound_witness:
  "MP_EdgeHash lone_proof \<in> tree_values (\<lambda>_. 7)
     (BuildHierarchicalTree (reference_multi (\<lambda>_. 7)) [proof_edge 5 ''pkg'' ''calls'']) [proof_edge 5 ''pkg'' ''calls'']"
proof (rule VerifyProof_sound [OF reference_multi_spec])
  show "VerifyProof (\<lambda>_. 7) lone_proof"
    by (simp add: VerifyProof_def lone_proof_def recompute_def apply_step_def)
  show "RepoRoot lone_proof = Root (BuildHierarchicalTree (reference_multi (\<lambda>_. 7)) [proof_edge 5 ''pkg'' ''calls''])"
    by (simp add: lone_tree lone_proof_def)
  show "no_collision (\<lambda>_. 7)
     (set (tree_pairs (\<lambda>_. 7) (BuildHierarchicalTree (reference_multi (\<lambda>_. 7)) [proof_edge 5 ''pkg'' ''calls''])
         [proof_edge 5 ''pkg'' ''calls'']))
     (EI_EdgeHash ` set [proof_edge 5 ''pkg'' ''calls''])
     (set (step_pairs (\<lambda>_. 7) (proof_steps lone_proof) (MP_EdgeHash lone_proof)))"
    by (simp add: lone_tree no_collision_def tree_pairs_def top_pairs_def SortHashes_def level_pairs_one
        proof_steps_def lone_proof_def combine_pair_def key_group_def edge_group_def
        apply_step_def split: option.splits)
qed (simp_all add: colon_free_def)

lemma GenerateProof_edge_missing:
  assumes "h \<notin> set (leaf_hashes edges pkg et)"
  shows "\<exists>err. GenerateProof H t h pkg et edges = Inl err"
proof -
  obtain e where "binaryProof H (SortHashes (leaf_hashes edges pkg et)) h = Inl e"
    using binaryProof_error [of h "SortHashes (leaf_hashes edges pkg et)" H] assms by auto
  then show ?thesis by (auto simp: GenerateProof_def Let_def split: option.splits)
qed

text \<open>
  Edges of the root package have no inclusion proof: their tree group is \<open>_root\<close> while
  \<open>GenerateProof\<close> compares the empty package path, so it fails for every package path and edge
  type when the hash occurs only in edges with an empty path.
\<close>

lemma GenerateProof_root_package:
  assumes "strata_spec H BML" "colon_free edges" "e \<in> set edges"
    "\<forall>e'\<in>set edges. EI_EdgeHash e' = EI_EdgeHash e \<longrightarrow> PackagePath e' = ''''"
  shows "\<exists>err. GenerateProof H (Some (BuildHierarchicalTree BML edges)) (EI_EdgeHash e) pkg et edges = Inl err"
proof (cases "pkg = ''''")
  case False
  with assms(4) have "EI_EdgeHash e \<notin> set (leaf_hashes edges pkg et)"
    by (auto simp: leaf_hashes_def)
  then show ?thesis by (rule GenerateProof_edge_missing)
next
  case True
  have "edges \<noteq> []" using assms(3) by auto
  from Build_fields [OF assms(1) this assms(2)] obtain m where
    ok: "multi_level_ok H (map to_strata edges) m" and
    fields: "PackageRoots (BuildHierarchicalTree BML edges) = GroupRoots m" .
  have "'''' \<notin> fst ` set (GroupRoots m)"
    using ok by (auto simp: multi_level_ok_def to_strata_def edge_group_def split: if_splits)
  then have "map_of (GroupRoots m) '''' = None" by (simp add: map_of_eq_None_iff)
  with True fields show ?thesis by (auto simp: GenerateProof_def Let_def split: option.splits)
qed

lemma GenerateProof_root_package_witness:
  "\<exists>err. GenerateProof (\<lambda>_. 7) (Some (BuildHierarchicalTree (reference_multi (\<lambda>_. 7)) [proof_edge 5 '''' ''calls'']))
           5 ''_root'' ''calls'' [proof_edge 5 '''' ''calls''] = Inl err"
  using GenerateProof_root_package [OF reference_multi_spec, of "[proof_edge 5 '''' ''calls'']" "proof_edge 5 '''' ''calls''"]
  by (simp add: colon_free_def)

text \<open>
  What a verified proof does not bind: the package path and the edge type it names can be
  replaced without affecting \<open>VerifyProof\<close>, and the root of any tree passes as an edge of it.
\<close>

lemma VerifyProof_labels_unbound:
  "VerifyProof H (p\<lparr>MP_PackagePath := pkg, MP_EdgeType := et\<rparr>) = VerifyProof H p \<and>
   VerifyProof H \<lparr>MP_EdgeHash = r, MP_PackagePath = pkg, MP_EdgeType = et, EdgeToEdgeTypeRoot = [],
     MP_EdgeTypeRoot = r, EdgeTypeToPackageRoot = [], MP_PackageRoot = r, PackageToRepoRoot = [], RepoRoot = r\<rparr>"
  by (simp add: VerifyProof_def recompute_def)

lemma GenerateProof_levels:
  assumes "GenerateProof H (Some tree) h pkg et edges = Inr p"
  shows "binaryProof H (SortHashes (leaf_hashes edges pkg et)) h = Inr (EdgeToEdgeTypeRoot p)"
    and "\<exists>r. binaryProof H (SortHashes (map snd (filter (\<lambda>q. key_group (fst q) = pkg) (EdgeTypeRoots tree)))) r
           = Inr (EdgeTypeToPackageRoot p)"
    and "\<exists>r. binaryProofTree H (SortHashes (map snd (PackageRoots tree))) r = Inr (PackageToRepoRoot p)"
  using assms
  by (auto simp: GenerateProof_def Let_def bind_res_eq_Inr lastColonIndex_take case_prod_unfold split: option.splits)

lemma binaryProofTree_length:
  assumes "binaryProofTree H leaves target = Inr st"
  shows "2 ^ length st \<le> 2 * length leaves"
  using assms binaryProof_length [of H leaves target st]
  by (auto simp: binaryProofTree_def length_Suc_conv split: if_splits)

text \<open>
  Proof size: each of the three paths of a generated proof is logarithmic in the number of
  leaves of its level.
\<close>

lemma GenerateProof_size:
  assumes "GenerateProof H (Some tree) h pkg et edges = Inr p"
  shows "2 ^ length (EdgeToEdgeTypeRoot p) < 2 * length (leaf_hashes edges pkg et) \<and>
         2 ^ length (EdgeTypeToPackageRoot p) < 2 * length (EdgeTypeRoots tree) \<and>
         2 ^ length (PackageToRepoRoot p) \<le> 2 * length (PackageRoots tree)"
proof -
  obtain r where "binaryProof H (SortHashes (map snd (filter (\<lambda>q. key_group (fst q) = pkg) (EdgeTypeRoots tree)))) r
      = Inr (EdgeTypeToPackageRoot p)"
    using GenerateProof_levels(2) [OF assms] by blast
  from binaryProof_length [OF this]
  have "2 ^ length (EdgeTypeToPackageRoot p) < 2 * length (filter (\<lambda>q. key_group (fst q) = pkg) (EdgeTypeRoots tree))"
    by simp
  also have "\<dots> \<le> 2 * length (EdgeTypeRoots tree)" by simp
  finally show ?thesis
    using binaryProof_length [OF GenerateProof_levels(1) [OF assms]] GenerateProof_levels(3) [OF assms]
      binaryProofTree_length by fastforce
qed

lemma GenerateProof_size_witness:
  "\<exists>p. GenerateProof (\<lambda>_. 7) (Some (BuildHierarchicalTree (reference_multi (\<lambda>_. 7)) sample_edges)) 6
         ''pkg'' ''calls'' sample_edges = Inr p \<and>
       2 ^ length (EdgeToEdgeTypeRoot p) < 2 * length (leaf_hashes sample_edges ''pkg'' ''calls'')"
proof -
  from GenerateProof_ok [OF reference_multi_spec sample_edges_ok(1,2), of "''calls''" 6 "\<lambda>_. 7"] obtain p where
    p: "GenerateProof (\<lambda>_. 7) (Some (BuildHierarchicalTree (reference_multi (\<lambda>_. 7)) sample_edges)) 6
         ''pkg'' ''calls'' sample_edges = Inr p"
    by (auto simp: leaf_hashes_def sample_edges_def)
  from GenerateProof_size [OF p] p show ?thesis by blast
qed

section \<open>Properties of absence proofs\<close>

lemma bytes_Compare_flip: "bytes_Compare bs as = - bytes_Compare as bs"
  by (induction as bs rule: bytes_Compare.induct) auto

lemma bytes_Compare_hash_le:
  "\<not> bytes_Compare (hash_bytes r) (hash_bytes m) \<le> 0 \<longleftrightarrow> m < r"
  using bytes_Compare_hash [of m r] bytes_Compare_flip [of "hash_bytes r" "hash_bytes m"] by auto

lemma bytes_Compare_hash_ge:
  "bytes_Compare (hash_bytes l) (hash_bytes m) \<ge> 0 \<longleftrightarrow> m \<le> l"
  using bytes_Compare_hash [of l m] by (simp add: not_less [symmetric])

lemma insert_index:
  fixes h :: hash
  assumes "sorted leaves"
  defines "i \<equiv> sort_Search (length leaves)
    (\<lambda>i. bytes_Compare (hash_bytes (leaves ! i)) (hash_bytes h) \<ge> 0)"
  shows "i \<le> length leaves" "k < i \<Longrightarrow> leaves ! k < h"
    "i \<le> k \<Longrightarrow> k < length leaves \<Longrightarrow> h \<le> leaves ! k"
proof -
  have mono: "k \<le> l \<Longrightarrow> l < length leaves \<Longrightarrow> bytes_Compare (hash_bytes (leaves ! k)) (hash_bytes h) \<ge> 0 \<Longrightarrow>
      bytes_Compare (hash_bytes (leaves ! l)) (hash_bytes h) \<ge> 0" for k l
    using sorted_nth_mono [OF assms(1), of k l] by (simp add: bytes_Compare_hash_ge)
  note spec = sort_Search_spec [where n = "length leaves" and
      f = "\<lambda>i. bytes_Compare (hash_bytes (leaves ! i)) (hash_bytes h) \<ge> 0", OF mono, folded i_def]
  show "i \<le> length leaves" by (rule spec(1))
  show "k < i \<Longrightarrow> leaves ! k < h" using spec(2) [where k = k] by (simp add: bytes_Compare_hash_ge not_le)
  show "i \<le> k \<Longrightarrow> k < length leaves \<Longrightarrow> h \<le> leaves ! k"
    using spec(3) [where k = k] by (simp add: bytes_Compare_hash_ge)
qed

definition absence_bracket :: "hash list \<Rightarrow> AbsenceProof \<Rightarrow> bool" where
  "absence_bracket leaves p \<longleftrightarrow>
     (case LeftNeighbor p of
        None \<Rightarrow> \<forall>x\<in>set leaves. MissingHash p < x
      | Some l \<Rightarrow> l \<in> set leaves \<and> l < MissingHash p \<and> (\<forall>x\<in>set leaves. x \<le> l \<or> MissingHash p < x)) \<and>
     (case RightNeighbor p of
        None \<Rightarrow> \<forall>x\<in>set leaves. x < MissingHash p
      | Some r \<Rightarrow> r \<in> set leaves \<and> MissingHash p < r \<and> (\<forall>x\<in>set leaves. r \<le> x \<or> x < MissingHash p))"

lemma nth_below: "x \<in> set xs \<Longrightarrow> (\<And>k. k < length xs \<Longrightarrow> P (xs ! k)) \<Longrightarrow> P x"
  by (auto simp: in_set_conv_nth)

lemma insert_index_bracket:
  fixes h :: hash
  assumes "sorted leaves" "h \<notin> set leaves"
  defines "i \<equiv> sort_Search (length leaves)
    (\<lambda>i. bytes_Compare (hash_bytes (leaves ! i)) (hash_bytes h) \<ge> 0)"
  shows "0 < i \<Longrightarrow> leaves ! (i - 1) \<in> set leaves \<and> leaves ! (i - 1) < h \<and>
           (\<forall>x\<in>set leaves. x \<le> leaves ! (i - 1) \<or> h < x)"
    and "i = 0 \<Longrightarrow> \<forall>x\<in>set leaves. h < x"
    and "i < length leaves \<Longrightarrow> leaves ! i \<in> set leaves \<and> h < leaves ! i \<and>
           (\<forall>x\<in>set leaves. leaves ! i \<le> x \<or> x < h)"
    and "\<not> i < length leaves \<Longrightarrow> \<forall>x\<in>set leaves. x < h"
proof -
  note ix = insert_index [OF assms(1), where h = h, folded i_def]
  have above: "h < leaves ! k" if "i \<le> k" "k < length leaves" for k
    using ix(3) [OF that] assms(2) nth_mem [OF that(2)] by (metis order_le_imp_less_or_eq)
  show "0 < i \<Longrightarrow> leaves ! (i - 1) \<in> set leaves \<and> leaves ! (i - 1) < h \<and>
           (\<forall>x\<in>set leaves. x \<le> leaves ! (i - 1) \<or> h < x)"
  proof (intro conjI ballI)
    assume i: "0 < i"
    then have "i - 1 < length leaves" using ix(1) by simp
    then show "leaves ! (i - 1) \<in> set leaves" by simp
    show "leaves ! (i - 1) < h" using ix(2) i by simp
    show "x \<le> leaves ! (i - 1) \<or> h < x" if "x \<in> set leaves" for x
    proof (rule nth_below [OF that])
      fix k assume k: "k < length leaves"
      show "leaves ! k \<le> leaves ! (i - 1) \<or> h < leaves ! k"
      proof (cases "k < i")
        case True
        then have "leaves ! k \<le> leaves ! (i - 1)"
          using sorted_nth_mono [OF assms(1), of k "i - 1"] \<open>i - 1 < length leaves\<close> by simp
        then show ?thesis ..
      qed (use above k in simp)
    qed
  qed
  show "i = 0 \<Longrightarrow> \<forall>x\<in>set leaves. h < x"
    using above by (auto simp: in_set_conv_nth)
  show "i < length leaves \<Longrightarrow> leaves ! i \<in> set leaves \<and> h < leaves ! i \<and>
           (\<forall>x\<in>set leaves. leaves ! i \<le> x \<or> x < h)"
  proof (intro conjI ballI)
    assume i: "i < length leaves"
    then show "leaves ! i \<in> set leaves" by simp
    show "h < leaves ! i" using above i by simp
    show "leaves ! i \<le> x \<or> x < h" if "x \<in> set leaves" for x
    proof (rule nth_below [OF that])
      fix k assume k: "k < length leaves"
      show "leaves ! i \<le> leaves ! k \<or> leaves ! k < h"
        using sorted_nth_mono [OF assms(1), of i k] ix(2) [of k] k by (cases "k < i") auto
    qed
  qed
  show "\<not> i < length leaves \<Longrightarrow> \<forall>x\<in>set leaves. x < h"
    using ix(2) by (auto simp: in_set_conv_nth)
qed

lemma VerifyAbsence_neighbours:
  "VerifyAbsenceProof H (Some \<lparr>MissingHash = h, LeftNeighbor = l, RightNeighbor = r,
       LeftProof = lp, RightProof = rp, AP_RepoRoot = rt\<rparr>) \<longleftrightarrow>
     (\<forall>p. lp = Some p \<longrightarrow> VerifyProof H p \<and> RepoRoot p = rt \<and> (\<exists>x. l = Some x \<and> x < h)) \<and>
     (\<forall>p. rp = Some p \<longrightarrow> VerifyProof H p \<and> RepoRoot p = rt \<and> (\<exists>x. r = Some x \<and> h < x))"
  by (auto simp: VerifyAbsenceProof_def bytes_Compare_hash_ge bytes_Compare_hash_le split: option.splits)

lemma GenerateProof_names:
  "GenerateProof H t h pkg et edges = Inr p \<Longrightarrow> MP_EdgeHash p = h \<and> MP_PackagePath p = pkg \<and> MP_EdgeType p = et"
  by (auto simp: GenerateProof_def Let_def bind_res_def map_err_def split: option.splits sum.splits)

text \<open>A side of an absence proof: no neighbour and no proof, or a neighbour with a proof of its inclusion.\<close>

definition side_proved :: "sha \<Rightarrow> hash \<Rightarrow> string \<Rightarrow> string \<Rightarrow> hash option \<Rightarrow> MerkleProof option \<Rightarrow> bool" where
  "side_proved H rt pkg et neighbour prf \<longleftrightarrow>
     (case neighbour of
        None \<Rightarrow> prf = None
      | Some x \<Rightarrow> \<exists>p. prf = Some p \<and> VerifyProof H p \<and> MP_EdgeHash p = x \<and> MP_PackagePath p = pkg \<and>
                     MP_EdgeType p = et \<and> RepoRoot p = rt)"

text \<open>
  C3. Completeness of absence proofs: for a hash that is not among the leaves of its package and
  edge type, \<open>GenerateAbsenceProof\<close> succeeds, its neighbours bracket the hash with no leaf in
  between, each neighbour comes with an inclusion proof of exactly that leaf, in that package and
  edge type, which verifies against the root of the tree (a side without a leaf has no proof), and
  the whole passes \<open>VerifyAbsenceProof\<close>; for a hash among the leaves it reports the error.
\<close>

theorem GenerateAbsenceProof_correct:
  assumes "strata_spec H BML" "colon_free edges" "provable_group edges pkg"
    "CHR '':'' \<notin> set et" "map_of (EdgeTypeRoots (BuildHierarchicalTree BML edges)) (pkg @ '':'' @ et) \<noteq> None"
  shows "if h \<in> set (leaf_hashes edges pkg et)
         then GenerateAbsenceProof H (Some (BuildHierarchicalTree BML edges)) h pkg et edges = Inl (CannotProveAbsence h)
         else (\<exists>p. GenerateAbsenceProof H (Some (BuildHierarchicalTree BML edges)) h pkg et edges = Inr p \<and>
                VerifyAbsenceProof H (Some p) \<and> MissingHash p = h \<and>
                AP_RepoRoot p = Root (BuildHierarchicalTree BML edges) \<and>
                absence_bracket (leaf_hashes edges pkg et) p \<and>
                side_proved H (AP_RepoRoot p) pkg et (LeftNeighbor p) (LeftProof p) \<and>
                side_proved H (AP_RepoRoot p) pkg et (RightNeighbor p) (RightProof p))"
proof (cases "h \<in> set (leaf_hashes edges pkg et)")
  case True
  with assms(5) show ?thesis by (auto simp: GenerateAbsenceProof_def Let_def)
next
  case False
  let ?t = "BuildHierarchicalTree BML edges" and ?ls = "SortHashes (leaf_hashes edges pkg et)"
  define i where "i = sort_Search (length ?ls) (\<lambda>i. bytes_Compare (hash_bytes (?ls ! i)) (hash_bytes h) \<ge> 0)"
  have "h \<notin> set ?ls" using False by simp
  note br = insert_index_bracket [OF SortHashes_sorted this, folded i_def]
  have gen: "\<exists>p. GenerateProof H (Some ?t) x pkg et edges = Inr p \<and> VerifyProof H p \<and> RepoRoot p = Root ?t \<and>
      side_proved H (Root ?t) pkg et (Some x) (Some p)"
    if "x \<in> set ?ls" for x
  proof -
    from GenerateProof_ok [OF assms(1-4), of x] that obtain p where
      "GenerateProof H (Some ?t) x pkg et edges = Inr p" "VerifyProof H p" "RepoRoot p = Root ?t" by auto
    with GenerateProof_names [OF this(1)] show ?thesis by (auto simp: side_proved_def)
  qed
  define mk where "mk l r lp rp = \<lparr>MissingHash = h, LeftNeighbor = l, RightNeighbor = r, LeftProof = lp,
     RightProof = rp, AP_RepoRoot = Root ?t\<rparr>" for l r lp rp
  obtain l lp where left: "(if i > 0 then bind_res (map_err LeftNeighborError (GenerateProof H (Some ?t) (?ls ! (i - 1)) pkg et edges))
        (\<lambda>lp. Inr (mk (Some (?ls ! (i - 1))) None (Some lp) None)) else Inr (mk None None None None))
      = Inr (mk l None lp None)" and
    l: "\<forall>p. lp = Some p \<longrightarrow> VerifyProof H p \<and> RepoRoot p = Root ?t \<and> (\<exists>x. l = Some x \<and> x < h)"
      "case l of None \<Rightarrow> \<forall>x\<in>set ?ls. h < x | Some l \<Rightarrow> l \<in> set ?ls \<and> l < h \<and> (\<forall>x\<in>set ?ls. x \<le> l \<or> h < x)"
      "side_proved H (Root ?t) pkg et l lp"
  proof (cases "0 < i")
    case True
    with br(1) gen [of "?ls ! (i - 1)"] obtain p where
      "GenerateProof H (Some ?t) (?ls ! (i - 1)) pkg et edges = Inr p" "VerifyProof H p" "RepoRoot p = Root ?t"
      "side_proved H (Root ?t) pkg et (Some (?ls ! (i - 1))) (Some p)" by blast
    with True br(1) that [of "Some (?ls ! (i - 1))" "Some p"] show ?thesis by simp
  qed (use br(2) that [of None None] in \<open>simp add: side_proved_def\<close>)
  obtain r rp where right: "(if i < length ?ls then bind_res (map_err RightNeighborError (GenerateProof H (Some ?t) (?ls ! i) pkg et edges))
        (\<lambda>rp. Inr (mk l (Some (?ls ! i)) lp (Some rp))) else Inr (mk l None lp None))
      = Inr (mk l r lp rp)" and
    r: "\<forall>p. rp = Some p \<longrightarrow> VerifyProof H p \<and> RepoRoot p = Root ?t \<and> (\<exists>x. r = Some x \<and> h < x)"
      "case r of None \<Rightarrow> \<forall>x\<in>set ?ls. x < h | Some r \<Rightarrow> r \<in> set ?ls \<and> h < r \<and> (\<forall>x\<in>set ?ls. r \<le> x \<or> x < h)"
      "side_proved H (Root ?t) pkg et r rp"
  proof (cases "i < length ?ls")
    case True
    with br(3) gen [of "?ls ! i"] obtain p where
      "GenerateProof H (Some ?t) (?ls ! i) pkg et edges = Inr p" "VerifyProof H p" "RepoRoot p = Root ?t"
      "side_proved H (Root ?t) pkg et (Some (?ls ! i)) (Some p)" by blast
    with True br(3) that [of "Some (?ls ! i)" "Some p"] show ?thesis by simp
  next
    case False
    with br(4) that [of None None] show ?thesis by (simp add: side_proved_def)
  qed
  have "GenerateAbsenceProof H (Some ?t) h pkg et edges = Inr (mk l r lp rp)"
    using assms(5) False left right unfolding GenerateAbsenceProof_def mk_def
    by (auto simp: Let_def i_def split: if_splits)
  moreover have "VerifyAbsenceProof H (Some (mk l r lp rp))"
    unfolding mk_def VerifyAbsence_neighbours using l(1) r(1) by blast
  moreover have "absence_bracket (leaf_hashes edges pkg et) (mk l r lp rp)"
    using l(2) r(2) by (cases l; cases r; simp add: absence_bracket_def mk_def)
  ultimately show ?thesis using False l(3) r(3) by (auto simp: mk_def)
qed

lemma sample_keys:
  "map_of (EdgeTypeRoots (BuildHierarchicalTree (reference_multi H) sample_edges)) (''pkg'' @ '':'' @ ''calls'') \<noteq> None"
  by (simp add: BuildHierarchicalTree_def reference_multi_def Let_def sample_edges_def to_strata_def
      subgroup_key_def edge_group_def)

theorem GenerateAbsenceProof_correct_witness:
  "\<exists>p lp. GenerateAbsenceProof (\<lambda>_. 7) (Some (BuildHierarchicalTree (reference_multi (\<lambda>_. 7)) sample_edges)) 8
         ''pkg'' ''calls'' sample_edges = Inr p \<and> VerifyAbsenceProof (\<lambda>_. 7) (Some p) \<and>
       LeftNeighbor p = Some 6 \<and> LeftProof p = Some lp \<and> VerifyProof (\<lambda>_. 7) lp \<and> MP_EdgeHash lp = 6 \<and>
       RightNeighbor p = None \<and> RightProof p = None"
proof -
  have leaves: "leaf_hashes sample_edges ''pkg'' ''calls'' = [5, 6]" by (simp add: leaf_hashes_def sample_edges_def)
  from GenerateAbsenceProof_correct [OF reference_multi_spec sample_edges_ok(1,2) _ sample_keys, where h = 8 and H = "\<lambda>_. 7"]
  obtain p where p: "GenerateAbsenceProof (\<lambda>_. 7) (Some (BuildHierarchicalTree (reference_multi (\<lambda>_. 7)) sample_edges)) 8
         ''pkg'' ''calls'' sample_edges = Inr p" "VerifyAbsenceProof (\<lambda>_. 7) (Some p)" "MissingHash p = 8"
    and b: "absence_bracket [5, 6] p"
    and sides: "side_proved (\<lambda>_. 7) (AP_RepoRoot p) ''pkg'' ''calls'' (LeftNeighbor p) (LeftProof p)"
      "side_proved (\<lambda>_. 7) (AP_RepoRoot p) ''pkg'' ''calls'' (RightNeighbor p) (RightProof p)"
    by (auto simp: leaves)
  have "LeftNeighbor p = Some 6" "RightNeighbor p = None"
    using b p(3) by (auto simp: absence_bracket_def split: option.splits)
  with p sides show ?thesis by (auto simp: side_proved_def)
qed

text \<open>
  C4. Absence proofs are not sound: for every edge that has an inclusion proof there is an
  absence proof of the same hash against the same root that \<open>VerifyAbsenceProof\<close> accepts too.
\<close>

theorem VerifyAbsenceProof_accepts_present_edge:
  assumes "strata_spec H BML" "colon_free edges" "e \<in> set edges"
    "provable_group edges (PackagePath e)"
  shows "\<exists>p ap. VerifyProof H p \<and> MP_EdgeHash p = EI_EdgeHash e \<and> MissingHash ap = EI_EdgeHash e \<and>
           RepoRoot p = Root (BuildHierarchicalTree BML edges) \<and>
           AP_RepoRoot ap = Root (BuildHierarchicalTree BML edges) \<and> VerifyAbsenceProof H (Some ap)"
proof -
  have "CHR '':'' \<notin> set (EI_EdgeType e)" using assms(2,3) by (simp add: colon_free_def)
  from GenerateProof_ok [OF assms(1,2,4) this leaf_hashes_in [OF assms(3)]] obtain p where
    p: "VerifyProof H p" "RepoRoot p = Root (BuildHierarchicalTree BML edges)" "MP_EdgeHash p = EI_EdgeHash e"
    by blast
  let ?ap = "\<lparr>MissingHash = EI_EdgeHash e, LeftNeighbor = None, RightNeighbor = None, LeftProof = None,
    RightProof = None, AP_RepoRoot = Root (BuildHierarchicalTree BML edges)\<rparr>"
  have "VerifyAbsenceProof H (Some ?ap)" by (simp add: VerifyAbsenceProof_def)
  with p show ?thesis by (intro exI [of _ p] exI [of _ ?ap]) simp
qed

theorem VerifyAbsenceProof_accepts_present_edge_witness:
  "\<exists>p ap. VerifyProof (\<lambda>_. 7) p \<and> MP_EdgeHash p = 5 \<and> MissingHash ap = 5 \<and>
     RepoRoot p = AP_RepoRoot ap \<and> VerifyAbsenceProof (\<lambda>_. 7) (Some ap)"
proof -
  have "proof_edge 5 ''pkg'' ''calls'' \<in> set sample_edges" by (simp add: sample_edges_def)
  from VerifyAbsenceProof_accepts_present_edge [OF reference_multi_spec sample_edges_ok(1) this, of "\<lambda>_. 7"]
    sample_edges_ok(2)
  show ?thesis by simp metis
qed

end
