(* ===== verification/SqlTable.thy ===== *)
theory SqlTable
  imports GraphTypes
begin

text \<open>
  What internal/store uses of SQL and of the driver: tables as lists of rows in insertion order,
  INSERT OR REPLACE, selection by primary key, DELETE and UPDATE with a condition, the LIKE
  operator, and error values. The locale \<open>keyed_table\<close> is the contract of a table with a primary
  key; the theory of the store interprets it for each of its tables.
\<close>

section \<open>Errors\<close>

text \<open>
  A Go error: a failure of the database driver, a message of the program (\<open>fmt.Errorf\<close> without
  \<open>%w\<close>), or one of them wrapped with the prefix of a \<open>fmt.Errorf\<close> that has \<open>%w\<close>.
\<close>

datatype go_error = DriverError | Errorf string | Wrap string go_error

section \<open>LIKE\<close>

text \<open>
  SQLite's LIKE: a percent sign matches any string, an underscore one UTF-8 character, and
  letters match without regard to ASCII case.
\<close>

definition is_continuation :: "char \<Rightarrow> bool" where
  "is_continuation c = (let n = (of_char c :: nat) in 128 \<le> n \<and> n < 192)"

definition skip_utf8 :: "char \<Rightarrow> string \<Rightarrow> string" where
  "skip_utf8 c cs = (if (of_char c :: nat) \<ge> 192 then dropWhile is_continuation cs else cs)"

lemma length_skip_utf8: "length (skip_utf8 c cs) \<le> length cs"
  by (simp add: skip_utf8_def length_dropWhile_le)

function sql_like :: "string \<Rightarrow> string \<Rightarrow> bool" where
  "sql_like [] s = (s = [])"
| "sql_like (p # ps) s =
     (if p = CHR ''%'' then sql_like ps s \<or> (case s of [] \<Rightarrow> False | c # cs \<Rightarrow> sql_like (p # ps) cs)
      else (case s of
              [] \<Rightarrow> False
            | c # cs \<Rightarrow>
                if p = CHR ''_'' then sql_like ps (skip_utf8 c cs)
                else char_lower p = char_lower c \<and> sql_like ps cs))"
  by pat_completeness auto
termination
  by (relation "measure (\<lambda>(p, s). length p + length s)")
    (auto simp: less_Suc_eq_le length_skip_utf8 le_SucI)

declare sql_like.simps [simp del]

lemma sql_like_any: "sql_like ''%'' s"
  by (induction s) (simp_all add: sql_like.simps)

definition wildcard_free :: "string \<Rightarrow> bool" where
  "wildcard_free p \<longleftrightarrow> CHR ''%'' \<notin> set p \<and> CHR ''_'' \<notin> set p"

lemma sql_like_prefix:
  "wildcard_free p \<Longrightarrow>
     sql_like (p @ ''%'') s \<longleftrightarrow> length p \<le> length s \<and> map char_lower (take (length p) s) = map char_lower p"
proof (induction p arbitrary: s)
  case Nil
  then show ?case by (simp add: sql_like_any)
next
  case (Cons a p)
  then have "a \<noteq> CHR ''%''" "a \<noteq> CHR ''_''" "wildcard_free p" by (auto simp: wildcard_free_def)
  with Cons.IH show ?case
    by (cases s) (auto simp: sql_like.simps(2) [of a])
qed

section \<open>Tables\<close>

definition upsert :: "('r \<Rightarrow> 'k) \<Rightarrow> 'r \<Rightarrow> 'r list \<Rightarrow> 'r list" where
  "upsert key r t = filter (\<lambda>x. key x \<noteq> key r) t @ [r]"

definition find_row :: "('r \<Rightarrow> 'k) \<Rightarrow> 'k \<Rightarrow> 'r list \<Rightarrow> 'r option" where
  "find_row key k t = List.find (\<lambda>x. key x = k) t"

definition delete_where :: "('r \<Rightarrow> bool) \<Rightarrow> 'r list \<Rightarrow> 'r list" where
  "delete_where P t = filter (\<lambda>x. \<not> P x) t"

definition delete_key :: "('r \<Rightarrow> 'k) \<Rightarrow> 'k \<Rightarrow> 'r list \<Rightarrow> 'r list" where
  "delete_key key k t = delete_where (\<lambda>x. key x = k) t"

definition update_where :: "('r \<Rightarrow> bool) \<Rightarrow> ('r \<Rightarrow> 'r) \<Rightarrow> 'r list \<Rightarrow> 'r list" where
  "update_where P f t = map (\<lambda>x. if P x then f x else x) t"

definition primary_key :: "('r \<Rightarrow> 'k) \<Rightarrow> 'r list \<Rightarrow> bool" where
  "primary_key key t \<longleftrightarrow> distinct (map key t)"

lemma find_row_Nil [simp]: "find_row key k [] = None"
  by (simp add: find_row_def)

lemma find_row_append:
  "find_row key k (t @ u) = (case find_row key k t of Some r \<Rightarrow> Some r | None \<Rightarrow> find_row key k u)"
  by (induction t) (auto simp: find_row_def)

lemma find_row_filter_other:
  "(\<And>x. key x = k \<Longrightarrow> P x) \<Longrightarrow> find_row key k (filter P t) = find_row key k t"
  by (induction t) (auto simp: find_row_def)

lemma find_row_SomeD: "find_row key k t = Some r \<Longrightarrow> r \<in> set t \<and> key r = k"
  by (auto simp: find_row_def find_Some_iff)

lemma find_row_None_iff: "find_row key k t = None \<longleftrightarrow> k \<notin> key ` set t"
  by (auto simp: find_row_def find_None_iff)

lemma find_row_in:
  "primary_key key t \<Longrightarrow> find_row key k t = Some r \<longleftrightarrow> r \<in> set t \<and> key r = k"
proof (induction t)
  case (Cons x t)
  then show ?case by (auto simp: find_row_def primary_key_def)
qed simp

lemma find_row_upsert: "find_row key k (upsert key r t) = (if k = key r then Some r else find_row key k t)"
proof (cases "k = key r")
  case True
  have "find_row key k (filter (\<lambda>x. key x \<noteq> key r) t) = None"
    using True by (auto simp: find_row_None_iff)
  moreover have "find_row key k [r] = Some r" using True by (simp add: find_row_def)
  ultimately show ?thesis using True by (simp add: upsert_def find_row_append)
next
  case False
  moreover have "find_row key k [r] = None" using False by (simp add: find_row_def)
  ultimately show ?thesis
    by (simp add: upsert_def find_row_append find_row_filter_other split: option.splits)
qed

lemma find_row_delete_key: "find_row key k (delete_key key j t) = (if k = j then None else find_row key k t)"
proof (cases "k = j")
  case True
  then show ?thesis by (auto simp: delete_key_def delete_where_def find_row_None_iff)
next
  case False
  then show ?thesis by (simp add: delete_key_def delete_where_def find_row_filter_other)
qed

lemma primary_key_Nil [simp]: "primary_key key []"
  by (simp add: primary_key_def)

lemma primary_key_upsert [simp]: "primary_key key t \<Longrightarrow> primary_key key (upsert key r t)"
  by (auto simp: primary_key_def upsert_def distinct_map_filter)

lemma primary_key_delete [simp]: "primary_key key t \<Longrightarrow> primary_key key (delete_where P t)"
  by (simp add: primary_key_def delete_where_def distinct_map_filter)

lemma primary_key_delete_key [simp]: "primary_key key t \<Longrightarrow> primary_key key (delete_key key k t)"
  by (simp add: delete_key_def)

lemma primary_key_update [simp]:
  "(\<And>x. key (f x) = key x) \<Longrightarrow> primary_key key t \<Longrightarrow> primary_key key (update_where P f t)"
  by (simp add: primary_key_def update_where_def comp_def if_distrib cong: if_cong)

lemma primary_key_filter [simp]: "primary_key key t \<Longrightarrow> primary_key key (filter P t)"
  by (simp add: primary_key_def distinct_map_filter)

lemma set_upsert: "set (upsert key r t) = insert r {x \<in> set t. key x \<noteq> key r}"
  by (auto simp: upsert_def)

section \<open>The contract of a keyed table\<close>

locale keyed_table =
  fixes key :: "'r \<Rightarrow> 'k"
    and put :: "'r \<Rightarrow> 'r list \<Rightarrow> 'r list"
    and get :: "'k \<Rightarrow> 'r list \<Rightarrow> 'r option"
    and remove :: "'k \<Rightarrow> 'r list \<Rightarrow> 'r list"
    and valid :: "'r list \<Rightarrow> bool"
  assumes get_empty: "get k [] = None"
    and get_put: "get k (put r t) = (if k = key r then Some r else get k t)"
    and get_remove: "get k (remove j t) = (if k = j then None else get k t)"
    and valid_empty: "valid []"
    and valid_put: "valid t \<Longrightarrow> valid (put r t)"
    and valid_remove: "valid t \<Longrightarrow> valid (remove k t)"
begin

definition put_all :: "'r list \<Rightarrow> 'r list \<Rightarrow> 'r list" where
  "put_all rs t = fold put rs t"

lemma put_all_append: "put_all (rs @ rs') t = put_all rs' (put_all rs t)"
  by (simp add: put_all_def)

lemma get_put_all:
  "get k (put_all rs t) = (case List.find (\<lambda>r. key r = k) (rev rs) of Some r \<Rightarrow> Some r | None \<Rightarrow> get k t)"
proof (induction rs rule: rev_induct)
  case Nil
  then show ?case by (simp add: put_all_def)
next
  case (snoc r rs)
  then show ?case by (simp add: put_all_append) (simp add: put_all_def get_put)
qed

lemma put_idem: "get k (put r (put r t)) = get k (put r t)"
  by (simp add: get_put)

lemma put_commute: "key r \<noteq> key r' \<Longrightarrow> get k (put r (put r' t)) = get k (put r' (put r t))"
  by (simp add: get_put)

lemma remove_put: "get k (remove (key r) (put r t)) = get k (remove (key r) t)"
  by (simp add: get_put get_remove)

lemma valid_put_all: "valid t \<Longrightarrow> valid (put_all rs t)"
  by (induction rs arbitrary: t) (simp_all add: put_all_def valid_put)

end

lemma keyed_table_rows: "keyed_table key (upsert key) (find_row key) (delete_key key) (primary_key key)"
  by unfold_locales (simp_all add: find_row_upsert find_row_delete_key)

text \<open>The order of decimal digits and the text of a number, for messages and stored counters.\<close>

fun decimal :: "nat \<Rightarrow> string" where
  "decimal n = (if n < 10 then [char_of (48 + n)] else decimal (n div 10) @ [char_of (48 + n mod 10)])"

declare decimal.simps [simp del]

end
