(* ===== verification/FtsText.thy ===== *)
theory FtsText
  imports Prelude
begin

text \<open>
  The text preparation of the full-text index in internal/store/sqlite.go: splitting identifiers
  at camel-case boundaries, the tokens stored for a name, the terminal symbol of a qualified
  name and the concept words of a file path. Strings are bytes; the predicates of the code only
  look at ASCII characters.
\<close>

section \<open>splitCamelCase\<close>

definition is_upper :: "char \<Rightarrow> bool" where
  "is_upper c = (let n = (of_char c :: nat) in 65 \<le> n \<and> n \<le> 90)"

definition is_lower :: "char \<Rightarrow> bool" where
  "is_lower c = (let n = (of_char c :: nat) in 97 \<le> n \<and> n \<le> 122)"

definition camel_boundary :: "string \<Rightarrow> nat \<Rightarrow> bool" where
  "camel_boundary s i \<longleftrightarrow>
     is_upper (s ! i) \<and>
     (is_lower (s ! (i - 1)) \<or>
      is_upper (s ! (i - 1)) \<and> i + 1 < length s \<and> is_lower (s ! (i + 1)))"

text \<open>The loop over \<open>i = 1, 2, \<dots>\<close>: at a boundary the part since \<open>start\<close> is cut off.\<close>

fun camel_loop :: "string \<Rightarrow> nat list \<Rightarrow> nat \<Rightarrow> string list \<Rightarrow> string list" where
  "camel_loop s [] start parts = parts @ [drop start s]"
| "camel_loop s (i # is) start parts =
     (if camel_boundary s i then camel_loop s is i (parts @ [slice s start i])
      else camel_loop s is start parts)"

definition camel_parts :: "string \<Rightarrow> string list" where
  "camel_parts s = camel_loop s [1..<length s] 0 []"

definition splitCamelCase :: "string \<Rightarrow> string list" where
  "splitCamelCase s = (if length s < 2 then [] else filter (\<lambda>p. length p \<ge> 2) (camel_parts s))"

section \<open>splitForFTS\<close>

definition fts_separator :: "char \<Rightarrow> bool" where
  "fts_separator r \<longleftrightarrow> r \<in> set ''/.:(), *''"

text \<open>\<open>strings.FieldsFunc\<close>: the maximal runs of characters that do not satisfy the predicate.\<close>

fun fields_loop :: "(char \<Rightarrow> bool) \<Rightarrow> string \<Rightarrow> string \<Rightarrow> string list" where
  "fields_loop f [] cur = (if cur = [] then [] else [cur])"
| "fields_loop f (c # cs) cur =
     (if f c then (if cur = [] then fields_loop f cs [] else cur # fields_loop f cs [])
      else fields_loop f cs (cur @ [c]))"

definition strings_FieldsFunc :: "string \<Rightarrow> (char \<Rightarrow> bool) \<Rightarrow> string list" where
  "strings_FieldsFunc s f = fields_loop f s []"

fun strings_Join :: "string list \<Rightarrow> string \<Rightarrow> string" where
  "strings_Join [] sep = []"
| "strings_Join [w] sep = w"
| "strings_Join (w # v # ws) sep = w @ sep @ strings_Join (v # ws) sep"

definition segment_tokens :: "string \<Rightarrow> string list" where
  "segment_tokens segment =
     [segment] @
     (let camelParts = splitCamelCase segment in if length camelParts > 1 then camelParts else []) @
     (if strings_Contains segment ''_''
      then filter (\<lambda>p. p \<noteq> '''' \<and> p \<noteq> segment) (split_on (CHR ''_'') segment) else [])"

definition splitForFTS :: "string \<Rightarrow> string" where
  "splitForFTS s =
     (if s = '''' then ''''
      else strings_Join (concat (map segment_tokens
             (filter (\<lambda>segment. segment \<noteq> '''') (strings_FieldsFunc s fts_separator)))) '' '')"

section \<open>Symbol names and concepts\<close>

definition symbol_exts :: "string list" where
  "symbol_exts = [''.go.'', ''.py.'', ''.ts.'', ''.js.'', ''.rs.'', ''.java.'', ''.cs.'', ''.rb.'', ''.sql.'', ''.proto.'']"

fun strip_ext :: "string list \<Rightarrow> string \<Rightarrow> string" where
  "strip_ext [] qn = qn"
| "strip_ext (ext # exts) qn =
     (case strings_Index qn ext of
        Some idx \<Rightarrow> drop (idx + length ext) qn
      | None \<Rightarrow> strip_ext exts qn)"

definition fts_extractSymbolName :: "string \<Rightarrow> string" where
  "fts_extractSymbolName qualifiedName =
     (let qn = (case strings_LastIndex qualifiedName ''://'' of
                  Some idx \<Rightarrow> drop (idx + 3) qualifiedName | None \<Rightarrow> qualifiedName);
          qn = (case strings_LastIndex qn ''/'' of Some i \<Rightarrow> drop (i + 1) qn | None \<Rightarrow> qn)
      in strip_ext symbol_exts qn)"

definition uninformative_dirs :: "string list" where
  "uninformative_dirs = [''src'', ''lib'', ''internal'', ''pkg'', ''.'', '''']"

definition part_concepts :: "string \<Rightarrow> string list" where
  "part_concepts part =
     (if strings_ToLower part \<in> set uninformative_dirs then []
      else
        (let part = (case strings_LastIndex part ''.'' of
                       Some idx \<Rightarrow> if idx > 0 then take idx part else part | None \<Rightarrow> part);
             words = splitCamelCase part
         in if length words = 0 then
              (if strings_Contains part ''_'' then filter (\<lambda>w. length w \<ge> 3) (split_on (CHR ''_'') part)
               else if length part \<ge> 3 then [part] else [])
            else filter (\<lambda>w. length w \<ge> 3) words @ (if length part \<ge> 3 then [part] else [])))"

definition extractConcepts :: "string \<Rightarrow> string" where
  "extractConcepts filePath =
     (if filePath = '''' then ''''
      else strings_Join (concat (map part_concepts
             (split_on (CHR ''/'') (map (\<lambda>c. if c = CHR 92 then CHR ''/'' else c) filePath)))) '' '')"

section \<open>Lemmas\<close>

lemma slice_append:
  assumes "i \<le> j"
  shows "slice s i j @ drop j s = drop i s"
proof -
  have "drop j s = drop (j - i) (drop i s)" using assms by simp
  then show ?thesis by (simp only: slice_def append_take_drop_id)
qed

lemma camel_loop_concat:
  "sorted is \<Longrightarrow> \<forall>i\<in>set is. start \<le> i \<Longrightarrow>
     concat (camel_loop s is start parts) = concat parts @ drop start s"
proof (induction "is" arbitrary: start parts)
  case (Cons i "is")
  have i: "start \<le> i" "sorted is" "\<forall>k\<in>set is. i \<le> k" "\<forall>k\<in>set is. start \<le> k"
    using Cons.prems by auto
  show ?case
  proof (cases "camel_boundary s i")
    case True
    then have "concat (camel_loop s (i # is) start parts) = concat (parts @ [slice s start i]) @ drop i s"
      using Cons.IH [OF i(2,3)] by simp
    then show ?thesis using slice_append [OF i(1)] by simp
  next
    case False
    then show ?thesis using Cons.IH [OF i(2,4)] by simp
  qed
qed simp

lemma camel_loop_length: "length (camel_loop s is start parts) \<le> length parts + length is + 1"
  by (induction s "is" start parts rule: camel_loop.induct) auto

lemma fields_loop_set:
  "list_all (\<lambda>c. \<not> f c) cur \<Longrightarrow> list_all (\<lambda>w. w \<noteq> [] \<and> list_all (\<lambda>c. \<not> f c) w) (fields_loop f s cur)"
  by (induction f s cur rule: fields_loop.induct) simp_all

lemma fields_loop_concat: "concat (fields_loop f s cur) = cur @ filter (\<lambda>c. \<not> f c) s"
  by (induction f s cur rule: fields_loop.induct) auto

section \<open>Properties\<close>

text \<open>
  Splitting loses nothing: the parts at camel-case boundaries concatenate to the identifier,
  so \<open>splitCamelCase\<close> drops exactly its one-character parts; the segments \<open>splitForFTS\<close> works on
  are non-empty, free of separators, and concatenate to the name without its separators.
\<close>

lemma identifier_splitting:
  "concat (camel_parts s) = s \<and>
   set (splitCamelCase s) = (if length s < 2 then {} else {p \<in> set (camel_parts s). length p \<ge> 2}) \<and>
   concat (strings_FieldsFunc s fts_separator) = filter (\<lambda>c. \<not> fts_separator c) s \<and>
   '''' \<notin> set (strings_FieldsFunc s fts_separator)"
proof -
  have "concat (camel_parts s) = s"
    unfolding camel_parts_def by (subst camel_loop_concat) auto
  moreover have "'''' \<notin> set (strings_FieldsFunc s fts_separator)"
    using fields_loop_set [of fts_separator "[]" s] by (auto simp: strings_FieldsFunc_def list_all_iff)
  ultimately show ?thesis by (simp add: splitCamelCase_def strings_FieldsFunc_def fields_loop_concat)
qed

lemma splitCamelCase_examples:
  "splitCamelCase ''TraceIngestor'' = [''Trace'', ''Ingestor'']"
  "splitCamelCase ''HTMLParser'' = [''HTML'', ''Parser'']"
  "splitCamelCase ''SQLiteStore'' = [''SQ'', ''Lite'', ''Store'']"
  by code_simp+

end
