(* ===== verification/GraphStore.thy ===== *)
theory GraphStore
  imports SqlTable FtsText
begin

text \<open>
  internal/store: SQLiteStore of sqlite.go with its point and range queries, upserts, deletes,
  notes and batches, the chunking of batch.go, the sweeps of gc.go and the repository eviction of
  evict.go.

  A store is the database (one list of rows per table of the migrations), the two in-process
  caches with their counters, and a script of faults: every statement sent to the driver consumes
  one entry and fails without effect when it is \<open>True\<close>, so that each error path of the code is
  reachable. Foreign keys are not enforced, as SQLite does by default. \<open>now\<close> is
  \<open>time.Now().Unix()\<close>. Rows of a query without ORDER BY come in insertion order; theorems speak of
  the set of rows wherever the code's result is unordered.
\<close>

section \<open>State\<close>

text \<open>The columns that the entities of the model do not have extend their records.\<close>

record node_row = node +
  N_IndexedAt :: int

record edge_row = edge +
  E_IndexedAt :: int

text \<open>Rows written before migration 013 have NULL in the five data columns of an event.\<close>

record event_row = edge_event +
  HasData :: bool

record feedback_row =
  FB_SymbolHash :: hash
  SessionID :: string
  Useful :: int
  FB_Timestamp :: int
  NeighborhoodRoot :: "hash option"
  KeywordCluster :: "hash option"

record task_memory_row =
  TM_Keywords :: string
  TM_SymbolHash :: hash
  TM_Score :: float64
  TM_Timestamp :: int

record fts_row =
  FTS_NodeHash :: hash
  FTS_SymbolName :: string
  FTS_Concepts :: string
  FTS_QualifiedName :: string
  FTS_Signature :: string
  FTS_FilePath :: string
  FTS_Doc :: string

record embedding_row =
  EMB_NodeHash :: hash
  EMB_Model :: string
  EMB_Vector :: bytes

record route_row =
  ServiceName :: string
  RoutePattern :: string
  MappingType :: string
  RS_NodeHash :: hash
  CreatedAt :: int

record vocab_row =
  VA_Keyword :: string
  VA_SymbolName :: string
  VA_SymbolHash :: hash
  VA_Count :: int
  VA_LastSeen :: int
  VA_SubgraphRoot :: "hash option"

record db =
  T_repos :: "repo list"
  T_files :: "source_file list"
  T_nodes :: "node_row list"
  T_edges :: "edge_row list"
  T_events :: "event_row list"
  T_snapshots :: "snapshot list"
  T_notes :: "graph_note list"
  T_feedback :: "feedback_row list"
  T_task_memory :: "task_memory_row list"
  T_routes :: "route_row list"
  T_vocab :: "vocab_row list"
  T_embeddings :: "embedding_row list"
  T_fts_content :: "fts_row list"
  T_fts_index :: "fts_row list"
  NextEventID :: int

definition empty_db :: db where
  "empty_db = \<lparr>T_repos = [], T_files = [], T_nodes = [], T_edges = [], T_events = [], T_snapshots = [],
     T_notes = [], T_feedback = [], T_task_memory = [], T_routes = [], T_vocab = [], T_embeddings = [],
     T_fts_content = [], T_fts_index = [], NextEventID = 1\<rparr>"

record store =
  DB :: db
  Faults :: "bool list"
  nodeCache :: "hash \<Rightarrow> node option"
  nodeCacheCount :: int
  edgeCache :: "hash \<Rightarrow> edge option"
  edgeCacheCount :: int

definition open_store :: "db \<Rightarrow> bool list \<Rightarrow> store" where
  "open_store d faults = \<lparr>DB = d, Faults = faults, nodeCache = Map.empty, nodeCacheCount = 0,
     edgeCache = Map.empty, edgeCacheCount = 0\<rparr>"

section \<open>Statements\<close>

type_synonym 'a op = "store \<Rightarrow> (go_error + 'a) \<times> store"

definition ret :: "'a \<Rightarrow> 'a op" where
  "ret x s = (Inr x, s)"

definition fail_op :: "go_error \<Rightarrow> 'a op" where
  "fail_op e s = (Inl e, s)"

definition bind_op :: "'a op \<Rightarrow> ('a \<Rightarrow> 'b op) \<Rightarrow> 'b op" where
  "bind_op m f s = (case m s of (Inl e, s') \<Rightarrow> (Inl e, s') | (Inr x, s') \<Rightarrow> f x s')"

definition wrap_op :: "string \<Rightarrow> 'a op \<Rightarrow> 'a op" where
  "wrap_op msg m s = (case m s of (r, s') \<Rightarrow> (map_err (Wrap msg) r, s'))"

text \<open>A call whose error is dropped.\<close>

definition ignore_op :: "'a op \<Rightarrow> unit op" where
  "ignore_op m s = (case m s of (_, s') \<Rightarrow> (Inr (), s'))"

primrec map_op :: "('x \<Rightarrow> 'a op) \<Rightarrow> 'x list \<Rightarrow> 'a list op" where
  "map_op f [] = ret []"
| "map_op f (x # xs) = bind_op (f x) (\<lambda>y. bind_op (map_op f xs) (\<lambda>ys. ret (y # ys)))"

text \<open>One statement: \<open>db.ExecContext\<close> and \<open>db.QueryContext\<close> with the scan of all its rows.\<close>

definition sql :: "(db \<Rightarrow> 'a \<times> db) \<Rightarrow> 'a op" where
  "sql f s =
     (if Faults s \<noteq> [] \<and> hd (Faults s) then (Inl DriverError, s\<lparr>Faults := tl (Faults s)\<rparr>)
      else (let (x, d) = f (DB s) in (Inr x, s\<lparr>DB := d, Faults := tl (Faults s)\<rparr>)))"

definition exec_sql :: "(db \<Rightarrow> db) \<Rightarrow> unit op" where
  "exec_sql f = sql (\<lambda>d. ((), f d))"

definition query_sql :: "(db \<Rightarrow> 'a) \<Rightarrow> 'a op" where
  "query_sql f = sql (\<lambda>d. (f d, d))"

text \<open>
  \<open>BeginTx\<close>, the body, \<open>Commit\<close>; the deferred \<open>Rollback\<close> restores the database when an error leaves
  the function. The first two arguments wrap the errors of BeginTx and Commit.
\<close>

definition transaction :: "(go_error \<Rightarrow> go_error) \<Rightarrow> (go_error \<Rightarrow> go_error) \<Rightarrow> 'a op \<Rightarrow> 'a op" where
  "transaction wbegin wcommit body s =
     (case query_sql (\<lambda>_. ()) s of
        (Inl e, s1) \<Rightarrow> (Inl (wbegin e), s1)
      | (Inr _, s1) \<Rightarrow>
        (case body s1 of
           (Inl e, s2) \<Rightarrow> (Inl e, s2\<lparr>DB := DB s1\<rparr>)
         | (Inr x, s2) \<Rightarrow>
           (case query_sql (\<lambda>_. ()) s2 of
              (Inl e, s3) \<Rightarrow> (Inl (wcommit e), s3\<lparr>DB := DB s1\<rparr>)
            | (Inr _, s3) \<Rightarrow> (Inr x, s3))))"

section \<open>Upserts\<close>

definition upsertFTS :: "hash \<Rightarrow> string \<Rightarrow> string \<Rightarrow> string \<Rightarrow> string \<Rightarrow> unit op" where
  "upsertFTS nodeHash qualifiedName signature filePath doc =
     bind_op (ignore_op (exec_sql (\<lambda>d. d\<lparr>T_fts_content :=
        delete_where (\<lambda>r. FTS_NodeHash r = nodeHash) (T_fts_content d)\<rparr>))) (\<lambda>_.
     ignore_op (exec_sql (\<lambda>d. d\<lparr>T_fts_content := T_fts_content d @
        [\<lparr>FTS_NodeHash = nodeHash, FTS_SymbolName = fts_extractSymbolName qualifiedName,
          FTS_Concepts = extractConcepts filePath, FTS_QualifiedName = qualifiedName,
          FTS_Signature = signature, FTS_FilePath = filePath, FTS_Doc = doc\<rparr>]\<rparr>)))"

definition PutNode :: "int \<Rightarrow> node \<Rightarrow> unit op" where
  "PutNode now n =
     bind_op (exec_sql (\<lambda>d. d\<lparr>T_nodes := upsert NodeHash (node.extend n (node_row.fields now)) (T_nodes d)\<rparr>)) (\<lambda>_.
     upsertFTS (NodeHash n) (QualifiedName n) (Signature n) '''' (Doc n))"

definition UpdateNodeBlame :: "hash \<Rightarrow> string \<Rightarrow> int \<Rightarrow> unit op" where
  "UpdateNodeBlame nodeHash author commitAt =
     exec_sql (\<lambda>d. d\<lparr>T_nodes := update_where (\<lambda>r. NodeHash r = nodeHash)
       (\<lambda>r. r\<lparr>LastAuthor := author, LastCommitAt := commitAt\<rparr>) (T_nodes d)\<rparr>)"

definition UpdateNodeCoverage :: "hash \<Rightarrow> float64 \<Rightarrow> unit op" where
  "UpdateNodeCoverage nodeHash pct =
     exec_sql (\<lambda>d. d\<lparr>T_nodes := update_where (\<lambda>r. NodeHash r = nodeHash)
       (\<lambda>r. r\<lparr>CoveragePct := pct\<rparr>) (T_nodes d)\<rparr>)"

text \<open>The statement does not name the observation columns, which take their default \<open>0\<close>.\<close>

definition insert_edge :: "int \<Rightarrow> edge \<Rightarrow> edge_row" where
  "insert_edge indexed_at e = edge.extend (e\<lparr>ObservationCount := 0, LastObserved := 0\<rparr>) (edge_row.fields indexed_at)"

definition PutEdge :: "int \<Rightarrow> edge \<Rightarrow> unit op" where
  "PutEdge now e = exec_sql (\<lambda>d. d\<lparr>T_edges := upsert EdgeHash (insert_edge now e) (T_edges d)\<rparr>)"

definition PutFile :: "source_file \<Rightarrow> unit op" where
  "PutFile f = exec_sql (\<lambda>d. d\<lparr>T_files := upsert FileHash f (T_files d)\<rparr>)"

definition PutRepo :: "repo \<Rightarrow> unit op" where
  "PutRepo r = exec_sql (\<lambda>d. d\<lparr>T_repos := upsert RepoHash r (T_repos d)\<rparr>)"

definition RecordEdgeEvent :: "edge_event \<Rightarrow> unit op" where
  "RecordEdgeEvent ev =
     exec_sql (\<lambda>d. d\<lparr>T_events := T_events d @ [edge_event.extend (ev\<lparr>EventID := NextEventID d\<rparr>) (event_row.fields True)],
                     NextEventID := NextEventID d + 1\<rparr>)"

section \<open>Batches\<close>

definition MaxChunkSize :: "nat \<Rightarrow> nat" where
  "MaxChunkSize paramsPerItem = 999 div paramsPerItem"

text \<open>
  The loop of \<open>ChunkedExec\<close> over consecutive chunks; \<open>i\<close> is the chunk's number. The code calls it
  with 4, 9 and 10 parameters per item; with none, or more than 999, its loop would not advance
  (here: it stops).
\<close>

function chunk_loop :: "nat \<Rightarrow> ('x list \<Rightarrow> db \<Rightarrow> db) \<Rightarrow> nat \<Rightarrow> 'x list \<Rightarrow> unit op" where
  "chunk_loop chunkSize exec i items =
     (if items = [] \<or> chunkSize = 0 then ret ()
      else bind_op (wrap_op (''batch chunk '' @ decimal i) (exec_sql (exec (take chunkSize items))))
             (\<lambda>_. chunk_loop chunkSize exec (i + 1) (drop chunkSize items)))"
  by pat_completeness auto
termination
  by (relation "measure (\<lambda>(n, f, i, items). length items)") auto

declare chunk_loop.simps [simp del]

definition ChunkedExec :: "'x list \<Rightarrow> nat \<Rightarrow> ('x list \<Rightarrow> db \<Rightarrow> db) \<Rightarrow> unit op" where
  "ChunkedExec items paramsPerItem exec =
     (if length items = 0 then ret () else chunk_loop (MaxChunkSize paramsPerItem) exec 0 items)"

definition insert_nodes :: "node list \<Rightarrow> db \<Rightarrow> db" where
  "insert_nodes ns d = d\<lparr>T_nodes := fold (\<lambda>n. upsert NodeHash (node.extend n (node_row.fields 0))) ns (T_nodes d)\<rparr>"

definition insert_edges :: "edge list \<Rightarrow> db \<Rightarrow> db" where
  "insert_edges es d = d\<lparr>T_edges := fold (\<lambda>e. upsert EdgeHash (insert_edge 0 e)) es (T_edges d)\<rparr>"

definition insert_files :: "source_file list \<Rightarrow> db \<Rightarrow> db" where
  "insert_files fs d = d\<lparr>T_files := fold (upsert FileHash) fs (T_files d)\<rparr>"

definition BatchPutNodes :: "node list \<Rightarrow> unit op" where
  "BatchPutNodes nodes =
     (if length nodes = 0 then ret ()
      else transaction (Wrap ''begin tx'') id
             (wrap_op ''batch insert nodes'' (ChunkedExec nodes 10 insert_nodes)))"

definition BatchPutEdges :: "edge list \<Rightarrow> unit op" where
  "BatchPutEdges edges =
     (if length edges = 0 then ret ()
      else transaction (Wrap ''begin tx'') id
             (wrap_op ''batch insert edges'' (ChunkedExec edges 9 insert_edges)))"

definition BatchPutFiles :: "source_file list \<Rightarrow> unit op" where
  "BatchPutFiles files =
     (if length files = 0 then ret ()
      else transaction (Wrap ''begin tx'') id
             (wrap_op ''batch insert files'' (ChunkedExec files 4 insert_files)))"

section \<open>Snapshots\<close>

definition CreateSnapshot :: "snapshot \<Rightarrow> unit op" where
  "CreateSnapshot snap = exec_sql (\<lambda>d. d\<lparr>T_snapshots := upsert SnapshotHash snap (T_snapshots d)\<rparr>)"

definition DeleteSnapshot :: "hash \<Rightarrow> unit op" where
  "DeleteSnapshot h =
     bind_op (exec_sql (\<lambda>d. d\<lparr>T_events := delete_where (\<lambda>ev. Ev_SnapshotHash ev = h) (T_events d)\<rparr>)) (\<lambda>_.
     exec_sql (\<lambda>d. d\<lparr>T_snapshots := delete_key SnapshotHash h (T_snapshots d)\<rparr>))"

section \<open>Caches and point lookups\<close>

definition nodeCacheMaxEntries :: int where "nodeCacheMaxEntries = 50000"
definition edgeCacheMaxEntries :: int where "edgeCacheMaxEntries = 50000"

definition InvalidateCache :: "store \<Rightarrow> store" where
  "InvalidateCache s = s\<lparr>nodeCache := Map.empty, nodeCacheCount := 0, edgeCache := Map.empty, edgeCacheCount := 0\<rparr>"

definition scanNode :: "node_row \<Rightarrow> node" where
  "scanNode r = node.truncate r"

definition scanEdge :: "edge_row \<Rightarrow> edge" where
  "scanEdge r = (edge.truncate r)\<lparr>ObservationCount := 0, LastObserved := 0\<rparr>"

definition cache_node :: "hash \<Rightarrow> node \<Rightarrow> store \<Rightarrow> store" where
  "cache_node h n s =
     (let s = (if nodeCacheCount s \<ge> nodeCacheMaxEntries then s\<lparr>nodeCache := Map.empty, nodeCacheCount := 0\<rparr> else s)
      in s\<lparr>nodeCache := (nodeCache s)(h \<mapsto> n), nodeCacheCount := nodeCacheCount s + 1\<rparr>)"

definition cache_edge :: "hash \<Rightarrow> edge \<Rightarrow> store \<Rightarrow> store" where
  "cache_edge h e s =
     (let s = (if edgeCacheCount s \<ge> edgeCacheMaxEntries then s\<lparr>edgeCache := Map.empty, edgeCacheCount := 0\<rparr> else s)
      in s\<lparr>edgeCache := (edgeCache s)(h \<mapsto> e), edgeCacheCount := edgeCacheCount s + 1\<rparr>)"

definition GetNode :: "hash \<Rightarrow> node option op" where
  "GetNode h s =
     (case nodeCache s h of
        Some n \<Rightarrow> (Inr (Some n), s)
      | None \<Rightarrow>
        (case query_sql (\<lambda>d. map_option scanNode (find_row NodeHash h (T_nodes d))) s of
           (Inl e, s) \<Rightarrow> (Inl e, s)
         | (Inr None, s) \<Rightarrow> (Inr None, s)
         | (Inr (Some n), s) \<Rightarrow> (Inr (Some n), cache_node h n s)))"

definition GetEdge :: "hash \<Rightarrow> edge option op" where
  "GetEdge h s =
     (case edgeCache s h of
        Some e \<Rightarrow> (Inr (Some e), s)
      | None \<Rightarrow>
        (case query_sql (\<lambda>d. map_option scanEdge (find_row EdgeHash h (T_edges d))) s of
           (Inl e, s) \<Rightarrow> (Inl e, s)
         | (Inr None, s) \<Rightarrow> (Inr None, s)
         | (Inr (Some e), s) \<Rightarrow> (Inr (Some e), cache_edge h e s)))"

definition GetSnapshot :: "hash \<Rightarrow> snapshot option op" where
  "GetSnapshot h = query_sql (\<lambda>d. find_row SnapshotHash h (T_snapshots d))"

definition GetRepo :: "hash \<Rightarrow> repo option op" where
  "GetRepo h = query_sql (\<lambda>d. find_row RepoHash h (T_repos d))"

section \<open>Queries\<close>

definition nodes_where :: "(node_row \<Rightarrow> bool) \<Rightarrow> db \<Rightarrow> node list" where
  "nodes_where P d = map scanNode (filter P (T_nodes d))"

definition edges_where :: "(edge_row \<Rightarrow> bool) \<Rightarrow> db \<Rightarrow> edge list" where
  "edges_where P d = map scanEdge (filter P (T_edges d))"

definition NodesByName :: "string \<Rightarrow> node list op" where
  "NodesByName qualifiedPrefix =
     query_sql (\<lambda>d. sort_key QualifiedName
       (nodes_where (\<lambda>r. sql_like (qualifiedPrefix @ ''%'') (QualifiedName r)) d))"

definition EdgesFrom :: "hash \<Rightarrow> string \<Rightarrow> edge list op" where
  "EdgesFrom sourceHash edgeType =
     query_sql (edges_where (\<lambda>r. SourceHash r = sourceHash \<and> (edgeType \<noteq> '''' \<longrightarrow> EdgeType r = edgeType)))"

definition EdgesTo :: "hash \<Rightarrow> string \<Rightarrow> edge list op" where
  "EdgesTo targetHash edgeType =
     query_sql (edges_where (\<lambda>r. TargetHash r = targetHash \<and> (edgeType \<noteq> '''' \<longrightarrow> EdgeType r = edgeType)))"

definition EdgeCount_query :: "nat op" where
  "EdgeCount_query = query_sql (\<lambda>d. length (T_edges d))"

definition AllEdges :: "edge list op" where
  "AllEdges = query_sql (edges_where (\<lambda>_. True))"

definition StaleEdges :: "hash \<Rightarrow> edge list op" where
  "StaleEdges snap =
     query_sql (\<lambda>d. remdups (edges_where (\<lambda>e.
       \<exists>n\<in>set (T_nodes d). NodeHash n = SourceHash e \<and>
         (\<exists>f\<in>set (T_files d). FileHash f = Node_FileHash n \<and>
           (\<exists>f2\<in>set (T_files d). File_RepoHash f2 = File_RepoHash f \<and> Path f2 = Path f \<and>
              ContentHash f2 \<noteq> ContentHash f))) d))"

text \<open>\<open>ORDER BY timestamp DESC LIMIT 1\<close>: among equal timestamps the first row, by insertion.\<close>

definition latest_of :: "snapshot list \<Rightarrow> snapshot option" where
  "latest_of snaps = (case sort_key (\<lambda>s. - Timestamp s) snaps of [] \<Rightarrow> None | s # _ \<Rightarrow> Some s)"

definition LatestSnapshot :: "hash \<Rightarrow> snapshot option op" where
  "LatestSnapshot repoHash = query_sql (\<lambda>d. latest_of (filter (\<lambda>s. Snap_RepoHash s = repoHash) (T_snapshots d)))"

definition FilesByRepo :: "hash \<Rightarrow> source_file list op" where
  "FilesByRepo repoHash = query_sql (\<lambda>d. sort_key Path (filter (\<lambda>f. File_RepoHash f = repoHash) (T_files d)))"

definition FileByPath :: "hash \<Rightarrow> string \<Rightarrow> source_file option op" where
  "FileByPath repoHash path =
     query_sql (\<lambda>d. List.find (\<lambda>f. File_RepoHash f = repoHash \<and> Path f = path) (T_files d))"

text \<open>An inner join with files on their primary key keeps a node once.\<close>

definition nodes_of_files :: "(source_file \<Rightarrow> bool) \<Rightarrow> db \<Rightarrow> node list" where
  "nodes_of_files P d =
     nodes_where (\<lambda>n. \<exists>f\<in>set (T_files d). FileHash f = Node_FileHash n \<and> P f) d"

definition NodesByFilePath :: "hash \<Rightarrow> string \<Rightarrow> node list op" where
  "NodesByFilePath repoHash path =
     query_sql (nodes_of_files (\<lambda>f. File_RepoHash f = repoHash \<and> Path f = path))"

definition NodesByFileHash :: "hash \<Rightarrow> node list op" where
  "NodesByFileHash fileHash = query_sql (nodes_where (\<lambda>n. Node_FileHash n = fileHash))"

definition StaleNodesByFiles :: "hash \<Rightarrow> string list \<Rightarrow> node list op" where
  "StaleNodesByFiles repoHash paths =
     (if length paths = 0 then ret []
      else query_sql (nodes_of_files (\<lambda>f. File_RepoHash f = repoHash \<and> Path f \<in> set paths)))"

definition DanglingEdges :: "edge list op" where
  "DanglingEdges = query_sql (\<lambda>d. edges_where (\<lambda>e. TargetHash e \<notin> NodeHash ` set (T_nodes d)) d)"

definition AllRepos :: "repo list op" where
  "AllRepos = query_sql (\<lambda>d. sort_key RepoURL (T_repos d))"

definition NodesByQualifiedName :: "string \<Rightarrow> node list op" where
  "NodesByQualifiedName qualifiedName = query_sql (nodes_where (\<lambda>n. QualifiedName n = qualifiedName))"

definition RealNodeCount :: "nat op" where
  "RealNodeCount = query_sql (\<lambda>d. length (filter (\<lambda>n. Node_FileHash n \<in> FileHash ` set (T_files d)) (T_nodes d)))"

section \<open>Deletes\<close>

definition DeleteEdge :: "hash \<Rightarrow> unit op" where
  "DeleteEdge h =
     bind_op (exec_sql (\<lambda>d. d\<lparr>T_edges := delete_key EdgeHash h (T_edges d)\<rparr>)) (\<lambda>_ s.
     (Inr (), s\<lparr>edgeCache := (edgeCache s)(h := None)\<rparr>))"

definition DeleteNodesByFile :: "hash \<Rightarrow> nat op" where
  "DeleteNodesByFile fileHash =
     bind_op (sql (\<lambda>d. (length (filter (\<lambda>n. Node_FileHash n = fileHash) (T_nodes d)),
                       d\<lparr>T_nodes := delete_where (\<lambda>n. Node_FileHash n = fileHash) (T_nodes d)\<rparr>))) (\<lambda>n s.
     (Inr n, if n > 0 then s\<lparr>nodeCache := Map.empty, nodeCacheCount := 0\<rparr> else s))"

definition source_in_file :: "hash \<Rightarrow> db \<Rightarrow> edge_row \<Rightarrow> bool" where
  "source_in_file fileHash d e = (\<exists>n\<in>set (T_nodes d). Node_FileHash n = fileHash \<and> NodeHash n = SourceHash e)"

definition EdgesBySourceFile :: "hash \<Rightarrow> edge list op" where
  "EdgesBySourceFile fileHash = query_sql (\<lambda>d. edges_where (source_in_file fileHash d) d)"

definition DeleteEdgesBySourceFile :: "hash \<Rightarrow> edge list op" where
  "DeleteEdgesBySourceFile fileHash =
     bind_op (query_sql (\<lambda>d. edges_where (source_in_file fileHash d) d)) (\<lambda>edges.
     bind_op (exec_sql (\<lambda>d. d\<lparr>T_edges := delete_where (source_in_file fileHash d) (T_edges d)\<rparr>)) (\<lambda>_ s.
     (Inr edges, s\<lparr>edgeCache := fold (\<lambda>e c. c(EdgeHash e := None)) edges (edgeCache s)\<rparr>)))"

definition TruncateGraph :: "unit op" where
  "TruncateGraph =
     bind_op (wrap_op ''truncate edge_events'' (exec_sql (\<lambda>d. d\<lparr>T_events := []\<rparr>))) (\<lambda>_.
     bind_op (wrap_op ''truncate edges'' (exec_sql (\<lambda>d. d\<lparr>T_edges := []\<rparr>))) (\<lambda>_.
     wrap_op ''truncate nodes'' (exec_sql (\<lambda>d. d\<lparr>T_nodes := []\<rparr>))))"

section \<open>Garbage collection\<close>

text \<open>
  The sweep of gc.go: the keep set goes into a temporary table, one insert per hash (\<open>keep\<close> lists
  the keys of the Go map in range order), and what is not in it is deleted. The statement that
  prepares the insert and those that create and drop the temporary table may fail as well.
\<close>

primrec keep_inserts :: "hash list \<Rightarrow> unit op" where
  "keep_inserts [] = ret ()"
| "keep_inserts (h # hs) = bind_op (wrap_op ''insert keep hash'' (exec_sql id)) (\<lambda>_. keep_inserts hs)"

definition sweep :: "string \<Rightarrow> (db \<Rightarrow> nat \<times> db) \<Rightarrow> hash list \<Rightarrow> nat op" where
  "sweep what del keep =
     transaction (Wrap ''begin transaction'') (Wrap ''commit'')
       (bind_op (wrap_op ''create temp table'' (exec_sql id)) (\<lambda>_.
        bind_op (wrap_op ''prepare insert'' (exec_sql id)) (\<lambda>_.
        bind_op (keep_inserts keep) (\<lambda>_.
        bind_op (wrap_op what (sql del)) (\<lambda>n.
        bind_op (wrap_op ''drop temp table'' (exec_sql id)) (\<lambda>_. ret n))))))"

definition DeleteNodesNotIn :: "hash list \<Rightarrow> nat op" where
  "DeleteNodesNotIn keep =
     sweep ''delete nodes'' (\<lambda>d. (length (filter (\<lambda>r. NodeHash r \<notin> set keep) (T_nodes d)),
       d\<lparr>T_nodes := delete_where (\<lambda>r. NodeHash r \<notin> set keep) (T_nodes d)\<rparr>)) keep"

definition DeleteEdgesNotIn :: "hash list \<Rightarrow> nat op" where
  "DeleteEdgesNotIn keep =
     sweep ''delete edges'' (\<lambda>d. (length (filter (\<lambda>r. EdgeHash r \<notin> set keep) (T_edges d)),
       d\<lparr>T_edges := delete_where (\<lambda>r. EdgeHash r \<notin> set keep) (T_edges d)\<rparr>)) keep"

section \<open>Eviction of a repository\<close>

record DeleteRepoResult =
  DR_Nodes :: nat
  DR_Edges :: nat
  DR_Files :: nat
  DR_Snapshots :: nat
  DR_Feedback :: nat
  DR_Notes :: nat

definition evict_files :: "hash \<Rightarrow> db \<Rightarrow> hash set" where
  "evict_files repoHash d = FileHash ` {f \<in> set (T_files d). File_RepoHash f = repoHash}"

definition evict_nodes :: "hash set \<Rightarrow> db \<Rightarrow> hash set" where
  "evict_nodes fs d = NodeHash ` {n \<in> set (T_nodes d). Node_FileHash n \<in> fs}"

text \<open>A DELETE that reports its affected rows.\<close>

definition counted_delete :: "(db \<Rightarrow> 'r list) \<Rightarrow> ('r list \<Rightarrow> db \<Rightarrow> db) \<Rightarrow> ('r \<Rightarrow> bool) \<Rightarrow> nat op" where
  "counted_delete tab upd P = sql (\<lambda>d. (length (filter P (tab d)), upd (delete_where P (tab d)) d))"

definition event_touches :: "hash set \<Rightarrow> event_row \<Rightarrow> bool" where
  "event_touches ns ev \<longleftrightarrow> HasData ev \<and> (Ev_SourceHash ev \<in> ns \<or> Ev_TargetHash ev \<in> ns)"

definition DeleteRepoData :: "hash \<Rightarrow> DeleteRepoResult op" where
  "DeleteRepoData repoHash =
     bind_op
       (transaction (Wrap ''begin tx'') (Wrap ''commit'')
         (bind_op (wrap_op ''create temp _evict_files'' (exec_sql id)) (\<lambda>_.
          bind_op (wrap_op ''populate _evict_files'' (query_sql (evict_files repoHash))) (\<lambda>fs.
          bind_op (wrap_op ''create temp _evict_nodes'' (exec_sql id)) (\<lambda>_.
          bind_op (wrap_op ''populate _evict_nodes'' (query_sql (evict_nodes fs))) (\<lambda>ns.
          bind_op (wrap_op ''delete edges'' (counted_delete T_edges (\<lambda>t. T_edges_update (\<lambda>_. t))
              (\<lambda>e. SourceHash e \<in> ns \<or> TargetHash e \<in> ns))) (\<lambda>nEdges.
          bind_op (wrap_op ''delete edge_events'' (counted_delete T_events (\<lambda>t. T_events_update (\<lambda>_. t))
              (event_touches ns))) (\<lambda>_.
          bind_op (wrap_op ''delete feedback'' (counted_delete T_feedback (\<lambda>t. T_feedback_update (\<lambda>_. t))
              (\<lambda>r. FB_SymbolHash r \<in> ns))) (\<lambda>nFeedback.
          bind_op (wrap_op ''delete task_memory'' (counted_delete T_task_memory (\<lambda>t. T_task_memory_update (\<lambda>_. t))
              (\<lambda>r. TM_SymbolHash r \<in> ns))) (\<lambda>_.
          bind_op (wrap_op ''delete graph_notes'' (counted_delete T_notes (\<lambda>t. T_notes_update (\<lambda>_. t))
              (\<lambda>r. ObjectHash r \<in> ns))) (\<lambda>nNotes.
          bind_op (wrap_op ''delete nodes'' (counted_delete T_nodes (\<lambda>t. T_nodes_update (\<lambda>_. t))
              (\<lambda>n. Node_FileHash n \<in> fs))) (\<lambda>nNodes.
          bind_op (wrap_op ''delete files'' (counted_delete T_files (\<lambda>t. T_files_update (\<lambda>_. t))
              (\<lambda>f. File_RepoHash f = repoHash))) (\<lambda>nFiles.
          bind_op (wrap_op ''delete snapshots'' (counted_delete T_snapshots (\<lambda>t. T_snapshots_update (\<lambda>_. t))
              (\<lambda>s. Snap_RepoHash s = repoHash))) (\<lambda>nSnapshots.
          bind_op (wrap_op ''drop _evict_nodes'' (exec_sql id)) (\<lambda>_.
          bind_op (wrap_op ''drop _evict_files'' (exec_sql id)) (\<lambda>_.
          ret \<lparr>DR_Nodes = nNodes, DR_Edges = nEdges, DR_Files = nFiles, DR_Snapshots = nSnapshots,
               DR_Feedback = nFeedback, DR_Notes = nNotes\<rparr>))))))))))))))))
       (\<lambda>result s. (Inr result, InvalidateCache s))"

section \<open>Notes\<close>

definition note_key :: "graph_note \<Rightarrow> hash \<times> string" where
  "note_key n = (ObjectHash n, Note_Key n)"

definition PutNote :: "graph_note \<Rightarrow> unit op" where
  "PutNote n = exec_sql (\<lambda>d. d\<lparr>T_notes := upsert note_key n (T_notes d)\<rparr>)"

primrec put_notes :: "graph_note list \<Rightarrow> unit op" where
  "put_notes [] = ret ()"
| "put_notes (n # ns) =
     bind_op (wrap_op (''exec note '' @ Hash_String (ObjectHash n) @ ''/'' @ Note_Key n) (PutNote n)) (\<lambda>_. put_notes ns)"

definition BatchPutNotes :: "graph_note list \<Rightarrow> unit op" where
  "BatchPutNotes notes =
     transaction (Wrap ''begin tx'') id
       (bind_op (wrap_op ''prepare'' (exec_sql id)) (\<lambda>_. put_notes notes))"

definition GetNote :: "hash \<Rightarrow> string \<Rightarrow> graph_note option op" where
  "GetNote objectHash key = query_sql (\<lambda>d. find_row note_key (objectHash, key) (T_notes d))"

definition GetNotes :: "hash \<Rightarrow> graph_note list op" where
  "GetNotes objectHash = query_sql (\<lambda>d. sort_key Note_Key (filter (\<lambda>n. ObjectHash n = objectHash) (T_notes d)))"

definition GetNotesByKey :: "string \<Rightarrow> graph_note list op" where
  "GetNotesByKey key = query_sql (\<lambda>d. sort_key ObjectHash (filter (\<lambda>n. Note_Key n = key) (T_notes d)))"

definition DeleteNote :: "hash \<Rightarrow> string \<Rightarrow> unit op" where
  "DeleteNote objectHash key = exec_sql (\<lambda>d. d\<lparr>T_notes := delete_key note_key (objectHash, key) (T_notes d)\<rparr>)"

definition DeleteNotesByObject :: "hash \<Rightarrow> unit op" where
  "DeleteNotesByObject objectHash =
     exec_sql (\<lambda>d. d\<lparr>T_notes := delete_where (\<lambda>n. ObjectHash n = objectHash) (T_notes d)\<rparr>)"

section \<open>The full-text content table\<close>

text \<open>
  A LEFT JOIN of nodes with files on the file hash: the path of the node's file, empty when
  there is none. The eight goroutines of \<open>RebuildFTS\<close> compute disjoint slices of one array, so
  their order does not matter.
\<close>

definition node_path :: "db \<Rightarrow> node_row \<Rightarrow> string" where
  "node_path d n = (case find_row FileHash (Node_FileHash n) (T_files d) of Some f \<Rightarrow> Path f | None \<Rightarrow> '''')"

definition fts_prepped :: "db \<Rightarrow> node_row \<Rightarrow> fts_row" where
  "fts_prepped d n =
     \<lparr>FTS_NodeHash = NodeHash n, FTS_SymbolName = splitForFTS (fts_extractSymbolName (QualifiedName n)),
      FTS_Concepts = extractConcepts (node_path d n), FTS_QualifiedName = splitForFTS (QualifiedName n),
      FTS_Signature = splitForFTS (Signature n), FTS_FilePath = node_path d n, FTS_Doc = Doc n\<rparr>"

text \<open>Rows to insert, each with the message that wraps its error.\<close>

primrec insert_fts :: "(string \<times> fts_row) list \<Rightarrow> unit op" where
  "insert_fts [] = ret ()"
| "insert_fts (mr # mrs) =
     bind_op (wrap_op (fst mr) (exec_sql (\<lambda>d. d\<lparr>T_fts_content := T_fts_content d @ [snd mr]\<rparr>)))
       (\<lambda>_. insert_fts mrs)"

definition rebuild_index :: "unit op" where
  "rebuild_index = wrap_op ''rebuild fts index'' (exec_sql (\<lambda>d. d\<lparr>T_fts_index := T_fts_content d\<rparr>))"

definition RebuildFTS :: "unit op" where
  "RebuildFTS =
     bind_op (wrap_op ''clear fts content'' (exec_sql (\<lambda>d. d\<lparr>T_fts_content := []\<rparr>))) (\<lambda>_.
     bind_op (wrap_op ''read nodes for fts'' (query_sql (\<lambda>d.
       map (\<lambda>n. (''insert fts content'', fts_prepped d n)) (T_nodes d)))) (\<lambda>prepped.
     bind_op (transaction (Wrap ''begin fts tx'') (Wrap ''commit fts'')
       (bind_op (wrap_op ''prepare fts insert'' (exec_sql id)) (\<lambda>_. insert_fts prepped))) (\<lambda>_.
     rebuild_index)))"

primrec delete_fts :: "string list \<Rightarrow> unit op" where
  "delete_fts [] = ret ()"
| "delete_fts (pkg # pkgs) =
     bind_op (wrap_op (''delete fts for '' @ pkg) (exec_sql (\<lambda>d. d\<lparr>T_fts_content :=
       delete_where (\<lambda>r. sql_like (pkg @ ''%'') (FTS_QualifiedName r)) (T_fts_content d)\<rparr>))) (\<lambda>_. delete_fts pkgs)"

primrec reinsert_fts :: "string list \<Rightarrow> unit op" where
  "reinsert_fts [] = ret ()"
| "reinsert_fts (pkg # pkgs) =
     bind_op (wrap_op (''read nodes for fts ('' @ pkg @ '')'') (query_sql (\<lambda>d.
       map (\<lambda>n. (''insert fts for '' @ QualifiedName n, fts_prepped d n))
         (filter (\<lambda>n. sql_like (pkg @ ''%'') (QualifiedName n)) (T_nodes d))))) (\<lambda>rows.
     bind_op (insert_fts rows) (\<lambda>_. reinsert_fts pkgs))"

definition RebuildFTSForPackages :: "string list \<Rightarrow> unit op" where
  "RebuildFTSForPackages packages =
     (if length packages = 0 then RebuildFTS
      else
        bind_op (transaction (Wrap ''begin fts tx'') (Wrap ''commit fts'')
          (bind_op (wrap_op ''prepare fts delete'' (exec_sql id)) (\<lambda>_.
           bind_op (delete_fts packages) (\<lambda>_.
           bind_op (wrap_op ''prepare fts insert'' (exec_sql id)) (\<lambda>_.
           reinsert_fts packages))))) (\<lambda>_.
        rebuild_index))"

section \<open>Communities and embeddings\<close>

text \<open>\<open>strconv.Atoi\<close>: an optional sign and decimal digits, within the range of \<open>int\<close>.\<close>

definition is_digit :: "char \<Rightarrow> bool" where
  "is_digit c = (let n = (of_char c :: nat) in 48 \<le> n \<and> n \<le> 57)"

definition digits_value :: "string \<Rightarrow> int" where
  "digits_value s = foldl (\<lambda>a c. a * 10 + (int (of_char c) - 48)) 0 s"

definition strconv_Atoi :: "string \<Rightarrow> int option" where
  "strconv_Atoi s =
     (let neg = (s \<noteq> [] \<and> hd s = CHR ''-'');
          ds = (if s \<noteq> [] \<and> (hd s = CHR ''-'' \<or> hd s = CHR ''+'') then tl s else s);
          v = (if neg then - digits_value ds else digits_value ds)
      in if ds = [] \<or> \<not> list_all is_digit ds \<or> v < - (2 ^ 63) \<or> v \<ge> 2 ^ 63 then None else Some v)"

fun community_rows :: "(hash \<times> string) list \<Rightarrow> (hash, int) gomap \<Rightarrow> (hash, int) gomap" where
  "community_rows [] result = result"
| "community_rows ((h, v) # rows) result =
     (case strconv_Atoi v of
        None \<Rightarrow> community_rows rows result
      | Some commID \<Rightarrow> community_rows rows (gomap_set h commID result))"

text \<open>The loop over chunks of 99 hashes; \<open>i\<close> is the chunk's number.\<close>

function communities_loop :: "nat \<Rightarrow> hash list \<Rightarrow> (hash, int) gomap \<Rightarrow> (hash, int) gomap op" where
  "communities_loop i hashes result =
     (if hashes = [] then ret result
      else bind_op (wrap_op (''CommunitiesForNodes chunk '' @ decimal i) (query_sql (\<lambda>d.
               map (\<lambda>n. (ObjectHash n, Note_Value n))
                 (filter (\<lambda>n. Note_Key n = ''community_id'' \<and> ObjectHash n \<in> set (take 99 hashes)) (T_notes d)))))
             (\<lambda>rows. communities_loop (i + 1) (drop 99 hashes) (community_rows rows result)))"
  by pat_completeness auto
termination
  by (relation "measure (\<lambda>(i, hs, r). length hs)") auto

declare communities_loop.simps [simp del]

definition CommunitiesForNodes :: "hash list \<Rightarrow> (hash, int) gomap option op" where
  "CommunitiesForNodes hashes =
     (if length hashes = 0 then ret None
      else bind_op (communities_loop 0 hashes []) (\<lambda>m. ret (Some m)))"

definition embedding_key :: "embedding_row \<Rightarrow> hash \<times> string" where
  "embedding_key r = (EMB_NodeHash r, EMB_Model r)"

text \<open>\<open>vectors[i]\<close> panics when there are fewer vectors than hashes: the outer \<open>None\<close>.\<close>

fun put_embeddings :: "string \<Rightarrow> nat \<Rightarrow> (hash \<times> bytes) list \<Rightarrow> unit op" where
  "put_embeddings model i [] = ret ()"
| "put_embeddings model i ((h, v) # hvs) =
     bind_op (wrap_op (''insert embedding '' @ decimal i) (exec_sql (\<lambda>d. d\<lparr>T_embeddings :=
       upsert embedding_key \<lparr>EMB_NodeHash = h, EMB_Model = model, EMB_Vector = v\<rparr> (T_embeddings d)\<rparr>)))
       (\<lambda>_. put_embeddings model (i + 1) hvs)"

definition BatchPutEmbeddings :: "string \<Rightarrow> hash list \<Rightarrow> bytes list \<Rightarrow> unit op option" where
  "BatchPutEmbeddings model hashes vectors =
     (if length hashes = 0 then Some (ret ())
      else if length vectors < length hashes then None
      else Some (transaction (Wrap ''begin tx'') id
             (bind_op (wrap_op ''prepare'' (exec_sql id)) (\<lambda>_. put_embeddings model 0 (zip hashes vectors)))))"

function embeddings_loop :: "string \<Rightarrow> nat \<Rightarrow> hash list \<Rightarrow> (hash, bytes) gomap \<Rightarrow> (hash, bytes) gomap op" where
  "embeddings_loop model i hashes result =
     (if hashes = [] then ret result
      else bind_op (wrap_op (''GetEmbeddings chunk '' @ decimal i) (query_sql (\<lambda>d.
               filter (\<lambda>r. EMB_Model r = model \<and> EMB_NodeHash r \<in> set (take 99 hashes)) (T_embeddings d))))
             (\<lambda>rows. embeddings_loop model (i + 1) (drop 99 hashes)
                (fold (\<lambda>r. gomap_set (EMB_NodeHash r) (EMB_Vector r)) rows result)))"
  by pat_completeness auto
termination
  by (relation "measure (\<lambda>(m, i, hs, r). length hs)") auto

declare embeddings_loop.simps [simp del]

definition GetEmbeddings :: "string \<Rightarrow> hash list \<Rightarrow> (hash, bytes) gomap option op" where
  "GetEmbeddings model hashes =
     (if length hashes = 0 then ret None
      else bind_op (embeddings_loop model 0 hashes []) (\<lambda>m. ret (Some m)))"

definition GetAllEmbeddings :: "string \<Rightarrow> (hash, bytes) gomap op" where
  "GetAllEmbeddings model =
     bind_op (wrap_op ''GetAllEmbeddings'' (query_sql (\<lambda>d. filter (\<lambda>r. EMB_Model r = model) (T_embeddings d))))
       (\<lambda>rows. ret (fold (\<lambda>r. gomap_set (EMB_NodeHash r) (EMB_Vector r)) rows []))"

end
