(* ===== verification/StoreProps.thy ===== *)
theory StoreProps
  imports GraphStore
begin

text \<open>
  Properties of the store: its tables instantiate the keyed-table contract, primary keys survive
  every operation whatever faults occur, batches and evictions are atomic, and what the caches
  make visible.
\<close>

section \<open>The tables as keyed tables\<close>

interpretation nodes_tab: keyed_table NodeHash "upsert NodeHash" "find_row NodeHash" "delete_key NodeHash" "primary_key NodeHash"
  by (rule keyed_table_rows)

interpretation edges_tab: keyed_table EdgeHash "upsert EdgeHash" "find_row EdgeHash" "delete_key EdgeHash" "primary_key EdgeHash"
  by (rule keyed_table_rows)

interpretation files_tab: keyed_table FileHash "upsert FileHash" "find_row FileHash" "delete_key FileHash" "primary_key FileHash"
  by (rule keyed_table_rows)

interpretation repos_tab: keyed_table RepoHash "upsert RepoHash" "find_row RepoHash" "delete_key RepoHash" "primary_key RepoHash"
  by (rule keyed_table_rows)

interpretation snapshots_tab: keyed_table SnapshotHash "upsert SnapshotHash" "find_row SnapshotHash" "delete_key SnapshotHash" "primary_key SnapshotHash"
  by (rule keyed_table_rows)

interpretation notes_tab: keyed_table note_key "upsert note_key" "find_row note_key" "delete_key note_key" "primary_key note_key"
  by (rule keyed_table_rows)

section \<open>Running operations\<close>

lemma sql_simps [db_simps]:
  "Faults s = [] \<Longrightarrow> sql f s = (let (x, d) = f (DB s) in (Inr x, s\<lparr>DB := d, Faults := []\<rparr>))"
  "Faults s = [] \<Longrightarrow> query_sql g s = (Inr (g (DB s)), s)"
  "Faults s = [] \<Longrightarrow> exec_sql h s = (Inr (), s\<lparr>DB := h (DB s)\<rparr>)"
  by (cases s; simp add: sql_def query_sql_def exec_sql_def Let_def split: prod.splits)+

lemma bind_op_simps [db_simps]:
  "m s = (Inr x, s') \<Longrightarrow> bind_op m f s = f x s'"
  "m s = (Inl e, s') \<Longrightarrow> bind_op m f s = (Inl e, s')"
  by (simp_all add: bind_op_def)

lemma wrap_op_simps [db_simps]:
  "m s = (Inr x, s') \<Longrightarrow> wrap_op msg m s = (Inr x, s')"
  "m s = (Inl e, s') \<Longrightarrow> wrap_op msg m s = (Inl (Wrap msg e), s')"
  by (simp_all add: wrap_op_def)

lemma ignore_op_simps [db_simps]: "m s = (r, s') \<Longrightarrow> ignore_op m s = (Inr (), s')"
  by (simp add: ignore_op_def)

lemma ret_simps [db_simps]: "ret x s = (Inr x, s)"
  by (simp add: ret_def)

text \<open>
  A condition on databases that every statement of an operation preserves holds afterwards,
  whichever statements fail: \<open>preserves P m\<close>.
\<close>

definition preserves :: "(db \<Rightarrow> bool) \<Rightarrow> 'a op \<Rightarrow> bool" where
  "preserves P m \<longleftrightarrow> (\<forall>s. P (DB s) \<longrightarrow> P (DB (snd (m s))))"

named_theorems preserve "operations that preserve a condition"

lemma preserves_ret [preserve]: "preserves P (ret x)"
  by (simp add: preserves_def ret_def)

lemma preserves_fail [preserve]: "preserves P (fail_op e)"
  by (simp add: preserves_def fail_op_def)

lemma preserves_sql: "(\<And>d. P d \<Longrightarrow> P (snd (f d))) \<Longrightarrow> preserves P (sql f)"
  by (simp add: preserves_def sql_def Let_def case_prod_unfold)

lemma preserves_exec: "(\<And>d. P d \<Longrightarrow> P (f d)) \<Longrightarrow> preserves P (exec_sql f)"
  unfolding exec_sql_def by (rule preserves_sql) simp

lemma preserves_query [preserve]: "preserves P (query_sql f)"
  unfolding query_sql_def by (rule preserves_sql) simp

lemma preserves_bind [preserve]:
  "preserves P m \<Longrightarrow> (\<And>x. preserves P (f x)) \<Longrightarrow> preserves P (bind_op m f)"
  by (auto simp: preserves_def bind_op_def split: prod.splits sum.splits)

lemma preserves_wrap [preserve]: "preserves P m \<Longrightarrow> preserves P (wrap_op msg m)"
  by (auto simp: preserves_def wrap_op_def split: prod.splits)

lemma preserves_ignore [preserve]: "preserves P m \<Longrightarrow> preserves P (ignore_op m)"
  by (auto simp: preserves_def ignore_op_def split: prod.splits)

lemma query_DB: "DB (snd (query_sql f s)) = DB s"
  by (simp add: query_sql_def sql_def Let_def)

lemma preserves_transaction [preserve]:
  "preserves P m \<Longrightarrow> preserves P (transaction w1 w2 m)"
  unfolding preserves_def transaction_def
  by (auto split: prod.splits sum.splits) (metis query_DB snd_conv)+

text \<open>A failed transaction leaves the database as it was.\<close>

lemma transaction_atomic:
  "transaction w1 w2 m s = (Inl e, s') \<Longrightarrow> DB s' = DB s"
  using query_DB [of "\<lambda>_. ()" s]
  by (auto simp: transaction_def split: prod.splits sum.splits)

lemma transaction_Inr:
  assumes "transaction w1 w2 m s = (Inr x, s')"
  obtains s1 s2 where "DB s1 = DB s" "m s1 = (Inr x, s2)" "DB s' = DB s2"
    "nodeCache s1 = nodeCache s" "edgeCache s1 = edgeCache s"
proof -
  from assms obtain s1 s2 where
    one: "query_sql (\<lambda>_. ()) s = (Inr (), s1)" and two: "m s1 = (Inr x, s2)"
    and three: "query_sql (\<lambda>_. ()) s2 = (Inr (), s')"
    by (auto simp: transaction_def split: prod.splits sum.splits)
  have "DB s1 = DB s" "nodeCache s1 = nodeCache s" "edgeCache s1 = edgeCache s"
    using one by (auto simp: query_sql_def sql_def Let_def split: if_splits)
  moreover have "DB s' = DB s2" using three query_DB [of "\<lambda>_. ()" s2] by simp
  ultimately show ?thesis using that two by blast
qed

section \<open>Primary keys\<close>

definition db_ok :: "db \<Rightarrow> bool" where
  "db_ok d \<longleftrightarrow> primary_key RepoHash (T_repos d) \<and> primary_key FileHash (T_files d) \<and>
     primary_key NodeHash (T_nodes d) \<and> primary_key EdgeHash (T_edges d) \<and>
     primary_key SnapshotHash (T_snapshots d) \<and> primary_key note_key (T_notes d) \<and>
     primary_key EventID (T_events d) \<and> (\<forall>ev\<in>set (T_events d). EventID ev < NextEventID d) \<and>
     primary_key embedding_key (T_embeddings d)"

lemma db_ok_empty: "db_ok empty_db"
  by (simp add: db_ok_def empty_db_def)

lemma extend_keys [simp]:
  "NodeHash (node.extend n r) = NodeHash n"
  "EdgeHash (insert_edge t e) = EdgeHash e"
  by (simp_all add: node.defs edge.defs insert_edge_def)

lemma primary_key_fold_upsert:
  "primary_key key t \<Longrightarrow> primary_key key (fold (\<lambda>x. upsert key (g x)) xs t)"
  by (induction xs arbitrary: t) simp_all

lemma db_ok_PutNode [preserve]: "preserves db_ok (PutNode now n)"
  unfolding PutNode_def upsertFTS_def
  by (intro preserve preserves_exec) (auto simp: db_ok_def)

lemma db_ok_updates [preserve]:
  "preserves db_ok (UpdateNodeBlame h a t)"
  "preserves db_ok (UpdateNodeCoverage h p)"
  "preserves db_ok (PutEdge now e)"
  "preserves db_ok (PutFile f)"
  "preserves db_ok (PutRepo r)"
  "preserves db_ok (CreateSnapshot snap)"
  "preserves db_ok (PutNote nt)"
  unfolding UpdateNodeBlame_def UpdateNodeCoverage_def PutEdge_def PutFile_def PutRepo_def
    CreateSnapshot_def PutNote_def
  by (rule preserves_exec; simp add: db_ok_def)+

lemma db_ok_RecordEdgeEvent [preserve]: "preserves db_ok (RecordEdgeEvent ev)"
  unfolding RecordEdgeEvent_def
  by (rule preserves_exec) (auto simp: db_ok_def primary_key_def edge_event.defs)

lemma chunk_loop_preserves:
  "(\<And>c d. P d \<Longrightarrow> P (f c d)) \<Longrightarrow> preserves P (chunk_loop n f i items)"
proof (induction n f i items rule: chunk_loop.induct)
  case (1 n f i items)
  then show ?case
    by (subst chunk_loop.simps) (auto intro!: preserve preserves_exec)
qed

lemma db_ok_batches [preserve]:
  "preserves db_ok (BatchPutNodes ns)"
  "preserves db_ok (BatchPutEdges es)"
  "preserves db_ok (BatchPutFiles fs)"
proof -
  have ins: "db_ok d \<Longrightarrow> db_ok (insert_nodes ns d)" "db_ok d \<Longrightarrow> db_ok (insert_edges es d)"
    "db_ok d \<Longrightarrow> db_ok (insert_files fs d)" for ns es fs d
    using primary_key_fold_upsert [where g = "\<lambda>x. x" and key = FileHash and xs = fs and t = "T_files d"]
    by (auto simp: db_ok_def insert_nodes_def insert_edges_def insert_files_def
        intro!: primary_key_fold_upsert [where key = NodeHash and g = "\<lambda>n. node.extend n (node_row.fields 0)", simplified]
          primary_key_fold_upsert [where key = EdgeHash and g = "insert_edge 0", simplified])
  show "preserves db_ok (BatchPutNodes ns)" "preserves db_ok (BatchPutEdges es)" "preserves db_ok (BatchPutFiles fs)"
    unfolding BatchPutNodes_def BatchPutEdges_def BatchPutFiles_def ChunkedExec_def
    by (auto intro!: preserve chunk_loop_preserves ins)
qed

lemma preserves_cache [preserve]:
  "(\<And>s. DB (g s) = DB s) \<Longrightarrow> preserves P (\<lambda>s. (r, g s))"
  by (simp add: preserves_def)

lemma DB_cache [simp]: "DB (cache_node h n s) = DB s" "DB (InvalidateCache s) = DB s"
  by (simp_all add: cache_node_def Let_def InvalidateCache_def)

lemma GetNode_DB [simp]: "DB (snd (GetNode h s)) = DB s"
proof -
  obtain r s1 where q: "query_sql (\<lambda>d. map_option scanNode (find_row NodeHash h (T_nodes d))) s = (r, s1)"
    by force
  then have "DB s1 = DB s" using query_DB by (metis snd_conv)
  with q show ?thesis by (auto simp: GetNode_def split: option.splits sum.splits)
qed

lemma preserves_GetNode [preserve]: "preserves P (GetNode h)"
  by (simp add: preserves_def)

lemma db_ok_deletes [preserve]:
  "preserves db_ok (DeleteSnapshot h)"
  "preserves db_ok (DeleteEdge h)"
  "preserves db_ok (DeleteNodesByFile h)"
  "preserves db_ok (DeleteEdgesBySourceFile h)"
  "preserves db_ok TruncateGraph"
  "preserves db_ok (DeleteNote h k)"
  "preserves db_ok (DeleteNotesByObject h)"
  unfolding DeleteSnapshot_def DeleteEdge_def DeleteNodesByFile_def DeleteEdgesBySourceFile_def
    TruncateGraph_def DeleteNote_def DeleteNotesByObject_def
  by (intro preserve preserves_exec preserves_sql; auto simp: db_ok_def delete_where_def)+

lemma db_ok_keep_inserts [preserve]: "preserves P (keep_inserts keep)"
  by (induction keep) (auto intro!: preserve preserves_exec)

lemma db_ok_sweeps [preserve]:
  "preserves db_ok (DeleteNodesNotIn keep)"
  "preserves db_ok (DeleteEdgesNotIn keep)"
  unfolding DeleteNodesNotIn_def DeleteEdgesNotIn_def sweep_def
  by (intro preserve preserves_exec preserves_sql; auto simp: db_ok_def)+

lemma db_ok_DeleteRepoData [preserve]: "preserves db_ok (DeleteRepoData h)"
  unfolding DeleteRepoData_def counted_delete_def
  by (intro preserve preserves_exec preserves_sql; auto simp: db_ok_def delete_where_def InvalidateCache_def)

lemma db_ok_BatchPutNotes [preserve]: "preserves db_ok (BatchPutNotes ns)"
proof -
  have "preserves db_ok (put_notes ns)"
    by (induction ns) (auto intro!: preserve)
  then show ?thesis
    unfolding BatchPutNotes_def by (intro preserve preserves_exec) auto
qed

lemma db_ok_fts:
  "preserves db_ok (insert_fts rows)" "preserves db_ok (delete_fts pkgs)" "preserves db_ok (reinsert_fts pkgs)"
proof -
  show ins: "preserves db_ok (insert_fts rows)" for rows
    by (induction rows) (auto intro!: preserve preserves_exec simp: db_ok_def)
  show "preserves db_ok (delete_fts pkgs)"
    by (induction pkgs) (auto intro!: preserve preserves_exec simp: db_ok_def)
  show "preserves db_ok (reinsert_fts pkgs)"
    by (induction pkgs) (auto intro!: preserve ins)
qed

lemma db_ok_rebuilds [preserve]:
  "preserves db_ok RebuildFTS"
  "preserves db_ok (RebuildFTSForPackages pkgs)"
proof -
  show full: "preserves db_ok RebuildFTS"
    unfolding RebuildFTS_def rebuild_index_def
    by (intro preserve preserves_exec db_ok_fts; simp add: db_ok_def)
  then show "preserves db_ok (RebuildFTSForPackages pkgs)"
    unfolding RebuildFTSForPackages_def rebuild_index_def
    by (auto intro!: preserve preserves_exec db_ok_fts simp: db_ok_def)
qed

text \<open>
  The states a store goes through: the writes of its interface in any order, each under any
  faults, interleaved with lookups that fill the caches and with cache invalidations.
\<close>

inductive store_step :: "store \<Rightarrow> store \<Rightarrow> bool" where
  put_node: "snd (PutNode now n s) = s' \<Longrightarrow> store_step s s'"
| blame: "snd (UpdateNodeBlame h author t s) = s' \<Longrightarrow> store_step s s'"
| node_coverage: "snd (UpdateNodeCoverage h pct s) = s' \<Longrightarrow> store_step s s'"
| put_edge: "snd (PutEdge now e s) = s' \<Longrightarrow> store_step s s'"
| put_file: "snd (PutFile f s) = s' \<Longrightarrow> store_step s s'"
| put_repo: "snd (PutRepo r s) = s' \<Longrightarrow> store_step s s'"
| record_event: "snd (RecordEdgeEvent ev s) = s' \<Longrightarrow> store_step s s'"
| batch_nodes: "snd (BatchPutNodes ns s) = s' \<Longrightarrow> store_step s s'"
| batch_edges: "snd (BatchPutEdges es s) = s' \<Longrightarrow> store_step s s'"
| batch_files: "snd (BatchPutFiles fs s) = s' \<Longrightarrow> store_step s s'"
| create_snapshot: "snd (CreateSnapshot snap s) = s' \<Longrightarrow> store_step s s'"
| delete_snapshot: "snd (DeleteSnapshot h s) = s' \<Longrightarrow> store_step s s'"
| delete_edge: "snd (DeleteEdge h s) = s' \<Longrightarrow> store_step s s'"
| delete_nodes_by_file: "snd (DeleteNodesByFile h s) = s' \<Longrightarrow> store_step s s'"
| delete_edges_by_source: "snd (DeleteEdgesBySourceFile h s) = s' \<Longrightarrow> store_step s s'"
| truncate: "snd (TruncateGraph s) = s' \<Longrightarrow> store_step s s'"
| sweep_nodes: "snd (DeleteNodesNotIn keep s) = s' \<Longrightarrow> store_step s s'"
| sweep_edges: "snd (DeleteEdgesNotIn keep s) = s' \<Longrightarrow> store_step s s'"
| evict: "snd (DeleteRepoData h s) = s' \<Longrightarrow> store_step s s'"
| put_note: "snd (PutNote nt s) = s' \<Longrightarrow> store_step s s'"
| batch_notes: "snd (BatchPutNotes nts s) = s' \<Longrightarrow> store_step s s'"
| delete_note: "snd (DeleteNote h k s) = s' \<Longrightarrow> store_step s s'"
| delete_notes: "snd (DeleteNotesByObject h s) = s' \<Longrightarrow> store_step s s'"
| rebuild_fts: "snd (RebuildFTS s) = s' \<Longrightarrow> store_step s s'"
| rebuild_fts_packages: "snd (RebuildFTSForPackages pkgs s) = s' \<Longrightarrow> store_step s s'"
| get_node: "snd (GetNode h s) = s' \<Longrightarrow> store_step s s'"
| invalidate: "store_step s (InvalidateCache s)"
| new_faults: "store_step s (s\<lparr>Faults := fs\<rparr>)"

inductive_cases store_stepE: "store_step s s'"

lemma preservesD: "preserves P m \<Longrightarrow> P (DB s) \<Longrightarrow> P (DB (snd (m s)))"
  by (simp add: preserves_def)

lemma store_step_ok: "store_step s s' \<Longrightarrow> db_ok (DB s) \<Longrightarrow> db_ok (DB s')"
  by (induction rule: store_step.induct)
    (auto intro!: preserve intro: preservesD simp: InvalidateCache_def)

text \<open>
  Primary keys, on which the exact descriptions of operations below rest: whatever operations of
  store/sqlite.go run on a fresh store, in whatever order and whichever
  statements fail in the middle of them, no table of \<open>db_ok\<close> ever holds two rows with the
  same key, and event identifiers stay unique.
\<close>

lemma store_reachable_db_ok:
  assumes "store_step\<^sup>*\<^sup>* (open_store empty_db faults) s"
  shows "db_ok (DB s)"
  using assms
proof (induction rule: rtranclp_induct)
  case base
  then show ?case by (simp add: open_store_def db_ok_empty)
qed (rule store_step_ok)

lemma store_reachable_db_ok_witness:
  "db_ok (DB (snd (PutNode 1 sample_node (snd (PutNode 0 sample_node (open_store empty_db [False, True]))))))"
  by (rule store_reachable_db_ok [of "[False, True]"])
    (meson put_node converse_rtranclp_into_rtranclp rtranclp.rtrancl_refl)

section \<open>What an operation does when it succeeds\<close>

text \<open>\<open>acts m g\<close>: whenever \<open>m\<close> returns without error, its result and the database are those of \<open>g\<close>.\<close>

definition acts :: "'a op \<Rightarrow> (db \<Rightarrow> 'a \<times> db) \<Rightarrow> bool" where
  "acts m g \<longleftrightarrow> (\<forall>s x s'. m s = (Inr x, s') \<longrightarrow> g (DB s) = (x, DB s'))"

named_theorems acts_intro "operations as functions of the database"

lemma actsD: "acts m g \<Longrightarrow> m s = (Inr x, s') \<Longrightarrow> g (DB s) = (x, DB s')"
  by (simp add: acts_def)

lemma acts_cong: "acts m g \<Longrightarrow> (\<And>d. g d = g' d) \<Longrightarrow> acts m g'"
  by (simp add: acts_def)

lemma acts_ret [acts_intro]: "acts (ret x) (\<lambda>d. (x, d))"
  by (simp add: acts_def ret_def)

lemma acts_sql [acts_intro]: "acts (sql f) f"
  by (auto simp: acts_def sql_def Let_def split: if_splits prod.splits)

lemma acts_exec [acts_intro]: "acts (exec_sql f) (\<lambda>d. ((), f d))"
  unfolding exec_sql_def by (rule acts_sql)

lemma acts_query [acts_intro]: "acts (query_sql f) (\<lambda>d. (f d, d))"
  unfolding query_sql_def by (rule acts_sql)

lemma acts_bind [acts_intro]:
  "acts m g \<Longrightarrow> (\<And>x. acts (f x) (h x)) \<Longrightarrow> acts (bind_op m f) (\<lambda>d. case g d of (x, d') \<Rightarrow> h x d')"
  by (fastforce simp: acts_def bind_op_def split: prod.splits sum.splits)

lemma acts_wrap [acts_intro]: "acts m g \<Longrightarrow> acts (wrap_op msg m) g"
  by (auto simp: acts_def wrap_op_def split: prod.splits)

lemma acts_cache [acts_intro]: "(\<And>s. DB (k s) = DB s) \<Longrightarrow> acts (\<lambda>s. (Inr x, k s)) (\<lambda>d. (x, d))"
  by (simp add: acts_def)

lemma acts_transaction [acts_intro]:
  assumes "acts m g"
  shows "acts (transaction w1 w2 m) g"
  unfolding acts_def
proof (intro allI impI)
  fix s x s' assume "transaction w1 w2 m s = (Inr x, s')"
  from transaction_Inr [OF this] obtain s1 s2 where
    "DB s1 = DB s" "m s1 = (Inr x, s2)" "DB s' = DB s2" by metis
  with actsD [OF assms, of s1 x s2] show "g (DB s) = (x, DB s')" by simp
qed

lemma acts_keep_inserts [acts_intro]: "acts (keep_inserts keep) (\<lambda>d. ((), d))"
proof (induction keep)
  case (Cons h keep)
  have "acts (keep_inserts (h # keep)) (\<lambda>d. case ((), id d) of (x, d') \<Rightarrow> ((), d'))"
    unfolding keep_inserts.simps by (rule acts_bind [OF acts_wrap [OF acts_exec] Cons.IH])
  then show ?case by simp
next
  case Nil
  show ?case using acts_ret [of "()"] by simp
qed

lemma acts_chunk_loop:
  assumes "\<And>xs ys d. f (xs @ ys) d = f ys (f xs d)" "\<And>d. f [] d = d" "0 < n"
  shows "acts (chunk_loop n f i items) (\<lambda>d. ((), f items d))"
  using assms
proof (induction n f i items rule: chunk_loop.induct)
  case (1 n f i items)
  show ?case
  proof (cases "items = []")
    case True
    then show ?thesis using "1.prems"(2) by (simp add: chunk_loop.simps acts_ret)
  next
    case False
    have "f (drop n items) (f (take n items) d) = f items d" for d
      using "1.prems"(1) [of "take n items" "drop n items" d] by simp
    moreover have "acts (chunk_loop n f (i + 1) (drop n items)) (\<lambda>d. ((), f (drop n items) d))"
      using False "1.prems" by (intro "1.IH") auto
    from acts_bind [OF acts_wrap [OF acts_exec] this]
    have "acts (chunk_loop n f i items) (\<lambda>d. ((), f (drop n items) (f (take n items) d)))"
      using False "1.prems"(3) by (subst chunk_loop.simps) simp
    ultimately show ?thesis by simp
  qed
qed

section \<open>Batches\<close>

lemma find_map: "List.find P (map f xs) = map_option f (List.find (\<lambda>x. P (f x)) xs)"
  by (induction xs) auto

lemma insert_append:
  "insert_nodes (xs @ ys) d = insert_nodes ys (insert_nodes xs d)" "insert_nodes [] d = d"
  "insert_edges (xs' @ ys') d = insert_edges ys' (insert_edges xs' d)" "insert_edges [] d = d"
  "insert_files (xs'' @ ys'') d = insert_files ys'' (insert_files xs'' d)" "insert_files [] d = d"
  by (simp_all add: insert_nodes_def insert_edges_def insert_files_def)

lemma MaxChunkSize_values: "MaxChunkSize 10 = 99" "MaxChunkSize 9 = 111" "MaxChunkSize 4 = 249"
  by (simp_all add: MaxChunkSize_def)

lemma acts_batches:
  "acts (BatchPutNodes ns) (\<lambda>d. ((), insert_nodes ns d))"
  "acts (BatchPutEdges es) (\<lambda>d. ((), insert_edges es d))"
  "acts (BatchPutFiles fs) (\<lambda>d. ((), insert_files fs d))"
  unfolding BatchPutNodes_def BatchPutEdges_def BatchPutFiles_def ChunkedExec_def
  by (auto intro!: acts_transaction acts_wrap acts_chunk_loop insert_append
      intro: acts_cong [OF acts_ret] simp: MaxChunkSize_values insert_append)

lemma batch_failed:
  "BatchPutNodes ns s = (Inl e, s') \<Longrightarrow> DB s' = DB s"
  "BatchPutEdges es s = (Inl e, s') \<Longrightarrow> DB s' = DB s"
  "BatchPutFiles fs s = (Inl e, s') \<Longrightarrow> DB s' = DB s"
  by (auto simp: BatchPutNodes_def BatchPutEdges_def BatchPutFiles_def ret_def
      split: if_splits intro: transaction_atomic)

definition node_row_of :: "node \<Rightarrow> node_row" where
  "node_row_of n = node.extend n (node_row.fields 0)"

lemma insert_nodes_put_all: "T_nodes (insert_nodes ns d) = nodes_tab.put_all (map node_row_of ns) (T_nodes d)"
  by (simp add: insert_nodes_def nodes_tab.put_all_def fold_map comp_def node_row_of_def)

text \<open>
  C8. Batches are atomic and their chunking is invisible: when \<open>BatchPutNodes\<close> reports an error,
  at whatever statement, the database is unchanged; otherwise looking up a hash gives the last
  node of the batch that has it, the earlier row when there is none, and nothing else changes.
\<close>

theorem BatchPutNodes_atomic:
  "case BatchPutNodes ns s of
     (Inl e, s') \<Rightarrow> DB s' = DB s
   | (Inr u, s') \<Rightarrow>
       (\<forall>h. find_row NodeHash h (T_nodes (DB s')) =
          (case List.find (\<lambda>n. NodeHash n = h) (rev ns) of
             Some n \<Rightarrow> Some (node_row_of n) | None \<Rightarrow> find_row NodeHash h (T_nodes (DB s)))) \<and>
       T_edges (DB s') = T_edges (DB s) \<and> T_files (DB s') = T_files (DB s)"
proof -
  have find: "List.find (\<lambda>r. NodeHash r = h) (rev (map node_row_of ns))
      = map_option node_row_of (List.find (\<lambda>n. NodeHash n = h) (rev ns))" for h
    by (simp add: rev_map find_map comp_def node_row_of_def)
  show ?thesis
  proof (cases "BatchPutNodes ns s")
    case (Pair r s')
    show ?thesis
    proof (cases r)
      case (Inl e)
      with Pair batch_failed(1) show ?thesis by auto
    next
      case (Inr u)
      with Pair actsD [OF acts_batches(1)] have "DB s' = insert_nodes ns (DB s)" by fastforce
      moreover have "T_edges (insert_nodes ns d) = T_edges d" "T_files (insert_nodes ns d) = T_files d" for d
        by (simp_all add: insert_nodes_def)
      ultimately show ?thesis
        using Pair Inr
        by (auto simp: insert_nodes_put_all nodes_tab.get_put_all find split: option.splits)
    qed
  qed
qed

section \<open>Caches\<close>

lemma exec_ok: "Faults s = [] \<Longrightarrow> exec_sql f s = (Inr (), s\<lparr>DB := f (DB s)\<rparr>)"
  by (simp add: db_simps)

lemma PutNode_run:
  assumes "Faults s = []"
  shows "\<exists>d. PutNode now n s = (Inr (), s\<lparr>DB := d\<rparr>) \<and>
    T_nodes d = upsert NodeHash (node.extend n (node_row.fields now)) (T_nodes (DB s))"
  using assms
  by (simp add: PutNode_def upsertFTS_def bind_op_def ignore_op_def exec_ok) (intro exI conjI, rule refl, simp)

lemma scanNode_extend [simp]: "scanNode (node.extend n r) = n"
  by (simp add: scanNode_def node.defs)

lemma GetNode_run:
  assumes "Faults s = []"
  shows "fst (GetNode h s) = Inr (case nodeCache s h of Some n \<Rightarrow> Some n
    | None \<Rightarrow> map_option scanNode (find_row NodeHash h (T_nodes (DB s))))"
  using assms by (auto simp: GetNode_def db_simps split: option.splits)

lemma keep_inserts_run: "Faults s = [] \<Longrightarrow> keep_inserts keep s = (Inr (), s)"
  by (induction keep) (simp_all add: ret_def bind_op_def wrap_op_def exec_ok)

lemma DeleteNodesNotIn_run:
  assumes "Faults s = []"
  shows "DeleteNodesNotIn keep s = (Inr (length (filter (\<lambda>r. NodeHash r \<notin> set keep) (T_nodes (DB s)))),
    s\<lparr>DB := (DB s)\<lparr>T_nodes := delete_where (\<lambda>r. NodeHash r \<notin> set keep) (T_nodes (DB s))\<rparr>\<rparr>)"
  using assms
  by (simp add: DeleteNodesNotIn_def sweep_def transaction_def bind_op_def wrap_op_def exec_ok
      keep_inserts_run db_simps ret_def)

text \<open>
  Lookups go through a cache that writes do not invalidate: after \<open>PutNode\<close> and after the sweep
  \<open>DeleteNodesNotIn\<close>, \<open>GetNode\<close> still returns the node cached before, replaced or deleted, and
  sees the table only for hashes that are not cached or after \<open>InvalidateCache\<close>.
\<close>

lemma GetNode_cache_visibility:
  assumes "Faults s = []"
  shows "fst (GetNode (NodeHash n) (snd (PutNode now n s))) =
           Inr (Some (case nodeCache s (NodeHash n) of Some old \<Rightarrow> old | None \<Rightarrow> n)) \<and>
         fst (GetNode (NodeHash n) (InvalidateCache (snd (PutNode now n s)))) = Inr (Some n) \<and>
         (h \<notin> set keep \<longrightarrow>
            fst (GetNode h (snd (DeleteNodesNotIn keep s))) = Inr (nodeCache s h) \<and>
            fst (GetNode h (InvalidateCache (snd (DeleteNodesNotIn keep s)))) = Inr None)"
proof -
  from PutNode_run [OF assms, of now n] obtain d where
    d: "PutNode now n s = (Inr (), s\<lparr>DB := d\<rparr>)"
    "T_nodes d = upsert NodeHash (node.extend n (node_row.fields now)) (T_nodes (DB s))" by blast
  have inv: "InvalidateCache s = s\<lparr>nodeCache := Map.empty, nodeCacheCount := 0, edgeCache := Map.empty, edgeCacheCount := 0\<rparr>" for s
    by (simp add: InvalidateCache_def)
  have "find_row NodeHash h (delete_where (\<lambda>r. NodeHash r \<notin> set keep) (T_nodes (DB s))) = None" if "h \<notin> set keep"
    using that by (auto simp: find_row_None_iff delete_where_def)
  then show ?thesis
    using assms d
    by (auto simp: GetNode_run DeleteNodesNotIn_run inv nodes_tab.get_put split: option.splits)
qed

lemma GetNode_cache_visibility_witness:
  "fst (GetNode 16 (snd (PutNode 0 (sample_node\<lparr>Line := 9\<rparr>)
     (cache_node 16 sample_node (open_store empty_db []))))) = Inr (Some sample_node)"
  using GetNode_cache_visibility [of "cache_node 16 sample_node (open_store empty_db [])" "sample_node\<lparr>Line := 9\<rparr>" 0 0 "[]"]
  by (simp add: cache_node_def open_store_def sample_node_def nodeCacheMaxEntries_def)

section \<open>Eviction\<close>

lemma acts_counted_delete [acts_intro]:
  "acts (counted_delete tab upd P) (\<lambda>d. (length (filter P (tab d)), upd (delete_where P (tab d)) d))"
  unfolding counted_delete_def by (rule acts_sql)

definition evicted :: "hash \<Rightarrow> db \<Rightarrow> DeleteRepoResult \<times> db" where
  "evicted h d =
     (let fs = evict_files h d; ns = evict_nodes fs d in
      (\<lparr>DR_Nodes = length (filter (\<lambda>n. Node_FileHash n \<in> fs) (T_nodes d)),
        DR_Edges = length (filter (\<lambda>e. SourceHash e \<in> ns \<or> TargetHash e \<in> ns) (T_edges d)),
        DR_Files = length (filter (\<lambda>f. File_RepoHash f = h) (T_files d)),
        DR_Snapshots = length (filter (\<lambda>s. Snap_RepoHash s = h) (T_snapshots d)),
        DR_Feedback = length (filter (\<lambda>r. FB_SymbolHash r \<in> ns) (T_feedback d)),
        DR_Notes = length (filter (\<lambda>r. ObjectHash r \<in> ns) (T_notes d))\<rparr>,
       d\<lparr>T_nodes := delete_where (\<lambda>n. Node_FileHash n \<in> fs) (T_nodes d),
         T_edges := delete_where (\<lambda>e. SourceHash e \<in> ns \<or> TargetHash e \<in> ns) (T_edges d),
         T_events := delete_where (event_touches ns) (T_events d),
         T_feedback := delete_where (\<lambda>r. FB_SymbolHash r \<in> ns) (T_feedback d),
         T_task_memory := delete_where (\<lambda>r. TM_SymbolHash r \<in> ns) (T_task_memory d),
         T_notes := delete_where (\<lambda>r. ObjectHash r \<in> ns) (T_notes d),
         T_files := delete_where (\<lambda>f. File_RepoHash f = h) (T_files d),
         T_snapshots := delete_where (\<lambda>s. Snap_RepoHash s = h) (T_snapshots d)\<rparr>))"

lemma acts_DeleteRepoData: "acts (DeleteRepoData h) (evicted h)"
  unfolding DeleteRepoData_def
  by (rule acts_cong,
      (rule acts_bind acts_transaction acts_wrap acts_exec acts_query acts_counted_delete acts_ret acts_cache)+)
    (simp_all add: evicted_def Let_def)

lemma DeleteRepoData_failed: "DeleteRepoData h s = (Inl e, s') \<Longrightarrow> DB s' = DB s"
  by (auto simp: DeleteRepoData_def bind_op_def split: prod.splits sum.splits dest: transaction_atomic)

lemma DeleteRepoData_caches:
  "DeleteRepoData h s = (Inr r, s') \<Longrightarrow> nodeCache s' = Map.empty \<and> edgeCache s' = Map.empty"
  by (auto simp: DeleteRepoData_def bind_op_def InvalidateCache_def split: prod.splits sum.splits)

lemma length_delete: "length (delete_where P t) + length (filter P t) = length t"
  by (induction t) (auto simp: delete_where_def)

text \<open>
  C9. Eviction of a repository is all or nothing: a failing statement leaves the database as it
  was. On success no file or snapshot of the repository, no node of its files and no edge, event,
  feedback, task memory or note about such a node is left, rows about other repositories and the
  repos table are kept, the reported counts are those of the deleted rows, and the caches are empty.
\<close>

theorem DeleteRepoData_correct:
  "case DeleteRepoData h s of
     (Inl e, s') \<Rightarrow> DB s' = DB s
   | (Inr r, s') \<Rightarrow>
       (let d = DB s; d' = DB s'; fs = evict_files h d; ns = evict_nodes fs d in
        set (T_files d') = {f \<in> set (T_files d). File_RepoHash f \<noteq> h} \<and>
        set (T_snapshots d') = {sn \<in> set (T_snapshots d). Snap_RepoHash sn \<noteq> h} \<and>
        set (T_nodes d') = {n \<in> set (T_nodes d). Node_FileHash n \<notin> fs} \<and>
        set (T_edges d') = {e \<in> set (T_edges d). SourceHash e \<notin> ns \<and> TargetHash e \<notin> ns} \<and>
        set (T_events d') = {ev \<in> set (T_events d). \<not> event_touches ns ev} \<and>
        set (T_feedback d') = {x \<in> set (T_feedback d). FB_SymbolHash x \<notin> ns} \<and>
        set (T_task_memory d') = {x \<in> set (T_task_memory d). TM_SymbolHash x \<notin> ns} \<and>
        set (T_notes d') = {x \<in> set (T_notes d). ObjectHash x \<notin> ns} \<and> T_repos d' = T_repos d \<and>
        length (T_nodes d') + DR_Nodes r = length (T_nodes d) \<and>
        length (T_edges d') + DR_Edges r = length (T_edges d) \<and>
        length (T_files d') + DR_Files r = length (T_files d) \<and>
        length (T_snapshots d') + DR_Snapshots r = length (T_snapshots d) \<and>
        nodeCache s' = Map.empty \<and> edgeCache s' = Map.empty)"
proof (cases "DeleteRepoData h s")
  case (Pair r s')
  show ?thesis
  proof (cases r)
    case (Inl e)
    with Pair DeleteRepoData_failed show ?thesis by auto
  next
    case (Inr x)
    with Pair actsD [OF acts_DeleteRepoData] have ev: "evicted h (DB s) = (x, DB s')" by fastforce
    have "nodeCache s' = Map.empty \<and> edgeCache s' = Map.empty"
      using DeleteRepoData_caches Pair Inr by fastforce
    moreover have "x = fst (evicted h (DB s))" "DB s' = snd (evicted h (DB s))" using ev by simp_all
    ultimately show ?thesis
      unfolding Pair Inr
      by (auto simp: Let_def evicted_def length_delete) (auto simp: delete_where_def event_touches_def)
  qed
qed

section \<open>The scoped full-text rebuild\<close>

lemma set_slice: "set (slice s i j) \<subseteq> set s"
  using set_take_subset set_drop_subset unfolding slice_def by (metis subset_trans)

lemma camel_loop_chars:
  "list_all (\<lambda>p. set p \<subseteq> set s) parts \<Longrightarrow> list_all (\<lambda>p. set p \<subseteq> set s) (camel_loop s is start parts)"
proof (induction "is" arbitrary: start parts)
  case Nil
  then show ?case using set_drop_subset [of start s] by simp
next
  case (Cons i "is")
  with set_slice [of s start i] show ?case by simp
qed

lemma splitCamelCase_chars: "p \<in> set (splitCamelCase s) \<Longrightarrow> set p \<subseteq> set s"
  using camel_loop_chars [of s "[]" "[1..<length s]" 0]
  by (simp add: splitCamelCase_def camel_parts_def list_all_iff split: if_splits)

lemma split_on_chars: "p \<in> set (split_on c s) \<Longrightarrow> set p \<subseteq> set s"
proof (induction s arbitrary: p)
  case (Cons a s)
  obtain w ws where eq: "split_on c s = w # ws" by (metis neq_Nil_conv split_on_nonempty)
  have "set w \<subseteq> set s" "\<And>q. q \<in> set ws \<Longrightarrow> set q \<subseteq> set s"
    using Cons.IH unfolding eq by simp_all
  with Cons.prems eq show ?case by (auto split: if_splits)
qed simp

lemma segment_tokens_chars:
  assumes "p \<in> set (segment_tokens seg)"
  shows "set p \<subseteq> set seg"
proof -
  from assms consider "p = seg" | "p \<in> set (splitCamelCase seg)" | "p \<in> set (split_on (CHR ''_'') seg)"
    by (auto simp: segment_tokens_def Let_def split: if_splits)
  then show ?thesis using splitCamelCase_chars split_on_chars by cases simp_all
qed

lemma strings_Join_chars: "set (strings_Join ws sep) \<subseteq> \<Union> (set ` set ws) \<union> set sep"
  by (induction ws sep rule: strings_Join.induct) auto

lemma splitForFTS_chars:
  assumes "c \<in> set (splitForFTS s)"
  shows "c = CHR '' '' \<or> \<not> fts_separator c"
proof -
  let ?segs = "filter (\<lambda>segment. segment \<noteq> '''') (strings_FieldsFunc s fts_separator)"
  have "c \<in> set (strings_Join (concat (map segment_tokens ?segs)) '' '')"
    using assms by (simp add: splitForFTS_def split: if_splits)
  then have "c \<in> \<Union> (set ` set (concat (map segment_tokens ?segs))) \<union> set '' ''"
    using strings_Join_chars by (rule rev_subsetD)
  then consider "c = CHR '' ''"
    | seg w where "seg \<in> set (strings_FieldsFunc s fts_separator)" "w \<in> set (segment_tokens seg)" "c \<in> set w"
    by auto
  then show ?thesis
  proof cases
    case 2
    then have "c \<in> set seg" using segment_tokens_chars by blast
    moreover have "list_all (\<lambda>w. w \<noteq> [] \<and> list_all (\<lambda>c. \<not> fts_separator c) w) (strings_FieldsFunc s fts_separator)"
      unfolding strings_FieldsFunc_def by (rule fields_loop_set) simp
    ultimately show ?thesis using 2(1) by (auto simp: list_all_iff)
  qed simp
qed

lemma char_lower_separator:
  assumes "char_lower y = c" "c \<in> set ''/.:''"
  shows "y = c"
proof (rule ccontr)
  assume "y \<noteq> c"
  with assms(1) have n: "65 \<le> (of_char y :: nat)" "(of_char y :: nat) \<le> 90" "c = char_of ((of_char y :: nat) + 32)"
    by (auto simp: char_lower_def Let_def split: if_splits)
  then have "(of_char c :: nat) = of_char y + 32" by (simp add: of_char_of)
  moreover have "(of_char c :: nat) \<in> {46, 47, 58}" using assms(2) by auto
  ultimately show False using n(1) by simp
qed

lemma scoped_like_never:
  assumes "wildcard_free p" "set p \<inter> set ''/.:'' \<noteq> {}"
  shows "\<not> sql_like (p @ ''%'') (splitForFTS q)"
proof
  assume "sql_like (p @ ''%'') (splitForFTS q)"
  then have eq: "map char_lower (take (length p) (splitForFTS q)) = map char_lower p"
    using sql_like_prefix [OF assms(1)] by blast
  obtain c where c: "c \<in> set p" "c \<in> set ''/.:''" using assms(2) by blast
  then have "char_lower c = c" by (auto simp: char_lower_def)
  with c(1) have "c \<in> set (map char_lower p)" by force
  then obtain y where "y \<in> set (take (length p) (splitForFTS q))" "char_lower y = c"
    unfolding eq [symmetric] by auto
  with char_lower_separator [OF _ c(2)] have "c \<in> set (splitForFTS q)" by (metis in_set_takeD)
  from splitForFTS_chars [OF this] c(2) show False by (auto simp: fts_separator_def)
qed

lemma acts_insert_fts: "acts (insert_fts rows) (\<lambda>d. ((), d\<lparr>T_fts_content := T_fts_content d @ map snd rows\<rparr>))"
proof (induction rows)
  case Nil
  show ?case by (rule acts_cong [OF _ refl]) (simp add: acts_ret)
next
  case (Cons mr rows)
  show ?case
    unfolding insert_fts.simps
    by (rule acts_cong [OF acts_bind [OF acts_wrap [OF acts_exec] Cons.IH]]) simp
qed

definition matching_rows :: "string \<Rightarrow> db \<Rightarrow> fts_row list" where
  "matching_rows pkg d = map (fts_prepped d) (filter (\<lambda>n. sql_like (pkg @ ''%'') (QualifiedName n)) (T_nodes d))"

lemma fts_prepped_content [simp]:
  "fts_prepped (d\<lparr>T_fts_content := c\<rparr>) = fts_prepped d" "T_nodes (d\<lparr>T_fts_content := c\<rparr>) = T_nodes d"
  by (simp_all add: fts_prepped_def node_path_def fun_eq_iff)

lemma acts_scoped_rebuild:
  "acts (RebuildFTSForPackages [pkg]) (\<lambda>d.
     let c = delete_where (\<lambda>r. sql_like (pkg @ ''%'') (FTS_QualifiedName r)) (T_fts_content d) @ matching_rows pkg d
     in ((), d\<lparr>T_fts_content := c, T_fts_index := c\<rparr>))"
  unfolding RebuildFTSForPackages_def delete_fts.simps reinsert_fts.simps rebuild_index_def
  by (simp, rule acts_cong,
      (rule acts_bind acts_transaction acts_wrap acts_exec acts_query acts_insert_fts acts_ret)+)
    (simp add: matching_rows_def Let_def comp_def)

text \<open>
  The scoped full-text rebuild does not replace rows: the content table stores names split
  at separators, so the DELETE for a package whose path contains a slash, a dot or a colon matches
  none of them. After a successful \<open>RebuildFTSForPackages\<close> every old row is still there and the
  matching nodes have one more row each; when no qualified name starts with the given path,
  as with the bare package paths the daemon passes, nothing is refreshed at all.
\<close>

lemma RebuildFTSForPackages_appends:
  assumes "wildcard_free pkg" "set pkg \<inter> set ''/.:'' \<noteq> {}"
    "\<forall>r\<in>set (T_fts_content (DB s)). \<exists>q. FTS_QualifiedName r = splitForFTS q"
    "RebuildFTSForPackages [pkg] s = (Inr (), s')"
  shows "T_fts_content (DB s') = T_fts_content (DB s) @ matching_rows pkg (DB s) \<and>
    T_fts_index (DB s') = T_fts_content (DB s') \<and>
    ((\<forall>n\<in>set (T_nodes (DB s)). \<not> sql_like (pkg @ ''%'') (QualifiedName n)) \<longrightarrow>
       T_fts_content (DB s') = T_fts_content (DB s))"
proof -
  have "delete_where (\<lambda>r. sql_like (pkg @ ''%'') (FTS_QualifiedName r)) (T_fts_content (DB s)) = T_fts_content (DB s)"
    using assms(3) scoped_like_never [OF assms(1,2)] by (auto simp: delete_where_def intro!: filter_True)
  with actsD [OF acts_scoped_rebuild assms(4)]
  have "DB s' = (DB s)\<lparr>T_fts_content := T_fts_content (DB s) @ matching_rows pkg (DB s),
      T_fts_index := T_fts_content (DB s) @ matching_rows pkg (DB s)\<rparr>"
    by (simp add: Let_def)
  then show ?thesis by (auto simp: matching_rows_def)
qed

definition indexed_db :: db where
  "indexed_db = empty_db\<lparr>T_nodes := [node.extend sample_node (node_row.fields 0)],
     T_fts_content := [fts_prepped empty_db (node.extend sample_node (node_row.fields 0))]\<rparr>"

lemma RebuildFTSForPackages_appends_witness:
  "\<exists>s'. RebuildFTSForPackages [''r://p''] (open_store indexed_db []) = (Inr (), s') \<and>
     T_fts_content (DB s') = T_fts_content indexed_db @ matching_rows ''r://p'' indexed_db"
proof -
  have run: "\<exists>s'. RebuildFTSForPackages [''r://p''] (open_store indexed_db []) = (Inr (), s')"
    by (simp add: RebuildFTSForPackages_def transaction_def rebuild_index_def db_simps bind_op_def wrap_op_def
        open_store_def ret_def indexed_db_def node.defs sample_node_def empty_db_def sql_like.simps)
  then obtain s' where s': "RebuildFTSForPackages [''r://p''] (open_store indexed_db []) = (Inr (), s')" ..
  have "\<forall>r\<in>set (T_fts_content (DB (open_store indexed_db []))). \<exists>q. FTS_QualifiedName r = splitForFTS q"
    by (auto simp: open_store_def indexed_db_def fts_prepped_def)
  from RebuildFTSForPackages_appends [OF _ _ this s'] s' show ?thesis
    by (simp add: wildcard_free_def open_store_def)
qed

end
