(* ===== verification/GraphTraversal.thy ===== *)
theory GraphTraversal
  imports StoreProps "HOL-Library.Multiset"
begin

text \<open>
  The graph traversals of internal/store/sqlite.go: the recursive queries for transitive callers
  and callees, the blast radius built on them, and the diff of two snapshots by edge events.
\<close>

section \<open>Recursive queries\<close>

record CallerResult =
  CR_Node :: node
  Depth :: int

record CalleeResult =
  CE_Node :: node
  CE_Depth :: int

text \<open>
  The rows \<open>(node, depth)\<close> of the recursive common table expression, depth by depth: UNION drops a
  row that is already there, so each depth holds a node once. \<open>k\<close> further depths follow \<open>d\<close>.
\<close>

primrec cte_rows :: "(hash \<Rightarrow> hash list) \<Rightarrow> nat \<Rightarrow> int \<Rightarrow> hash list \<Rightarrow> (hash \<times> int) list" where
  "cte_rows step 0 d frontier = map (\<lambda>h. (h, d)) frontier"
| "cte_rows step (Suc k) d frontier =
     map (\<lambda>h. (h, d)) frontier @ cte_rows step k (d + 1) (remdups (concat (map step frontier)))"

definition calls_into :: "db \<Rightarrow> hash \<Rightarrow> hash list" where
  "calls_into d h = map SourceHash (filter (\<lambda>e. TargetHash e = h \<and> EdgeType e = ''calls'') (T_edges d))"

definition calls_from :: "db \<Rightarrow> hash \<Rightarrow> hash list" where
  "calls_from d h = map TargetHash (filter (\<lambda>e. SourceHash e = h \<and> EdgeType e = ''calls'') (T_edges d))"

text \<open>
  The base case has depth 1 whatever \<open>maxDepth\<close> is, and a row of depth \<open>c\<close> is expanded while
  \<open>c < maxDepth\<close>. The join with nodes drops hashes without a node.
\<close>

definition traversal_rows :: "(hash \<Rightarrow> hash list) \<Rightarrow> db \<Rightarrow> hash \<Rightarrow> int \<Rightarrow> (node \<times> int) list" where
  "traversal_rows step d start maxDepth =
     remdups (List.map_filter (\<lambda>(h, dep). map_option (\<lambda>n. (scanNode n, dep)) (find_row NodeHash h (T_nodes d)))
       (cte_rows step (nat (maxDepth - 1)) 1 (remdups (step start))))"

definition order_rows :: "(node \<times> int) list \<Rightarrow> (node \<times> int) list" where
  "order_rows rows = sort_key snd (sort_key (\<lambda>r. QualifiedName (fst r)) rows)"

definition TransitiveCallers :: "hash \<Rightarrow> int \<Rightarrow> hash \<Rightarrow> CallerResult list op" where
  "TransitiveCallers target maxDepth snap =
     query_sql (\<lambda>d. map (\<lambda>(n, dep). \<lparr>CR_Node = n, Depth = dep\<rparr>)
       (order_rows (traversal_rows (calls_into d) d target maxDepth)))"

definition TransitiveCallees :: "hash \<Rightarrow> int \<Rightarrow> hash \<Rightarrow> CalleeResult list op" where
  "TransitiveCallees source maxDepth snap =
     query_sql (\<lambda>d. map (\<lambda>(n, dep). \<lparr>CE_Node = n, CE_Depth = dep\<rparr>)
       (order_rows (traversal_rows (calls_from d) d source maxDepth)))"

section \<open>Blast radius\<close>

record EdgeProvenance =
  EP_Source :: string
  EP_Confidence :: float64
  EP_IndexerVersion :: string
  EP_SourceCommit :: string
  EP_SourceFileHash :: hash
  EP_Timestamp :: int

record CallerWithProvenance =
  Caller :: node
  CWP_Depth :: int
  CWP_Confidence :: float64
  CWP_Provenance :: "EdgeProvenance list"

record BlastRadiusResult =
  Target :: node
  ByRepo :: "(string, CallerWithProvenance list) gomap"
  TotalCount :: nat
  BR_Truncated :: bool

definition repo_of_file :: "hash \<Rightarrow> db \<Rightarrow> string option" where
  "repo_of_file fileHash d =
     (case find_row FileHash fileHash (T_files d) of
        None \<Rightarrow> None
      | Some f \<Rightarrow> map_option RepoURL (find_row RepoHash (File_RepoHash f) (T_repos d)))"

definition add_caller :: "string \<Rightarrow> CallerResult \<Rightarrow> BlastRadiusResult \<Rightarrow> BlastRadiusResult" where
  "add_caller repoURL cr result =
     (let cwp = \<lparr>Caller = CR_Node cr, CWP_Depth = Depth cr, CWP_Confidence = 1, CWP_Provenance = []\<rparr>;
          old = (case map_of (ByRepo result) repoURL of Some cs \<Rightarrow> cs | None \<Rightarrow> [])
      in result\<lparr>ByRepo := gomap_set repoURL (old @ [cwp]) (ByRepo result), TotalCount := TotalCount result + 1\<rparr>)"

fun blast_loop :: "CallerResult list \<Rightarrow> BlastRadiusResult \<Rightarrow> BlastRadiusResult op" where
  "blast_loop [] result s = (Inr result, s)"
| "blast_loop (cr # crs) result s =
     (case query_sql (repo_of_file (Node_FileHash (CR_Node cr))) s of
        (Inr (Some url), s) \<Rightarrow> blast_loop crs (add_caller url cr result) s
      | (_, s) \<Rightarrow> blast_loop crs (add_caller ''unknown'' cr result) s)"

definition BlastRadius :: "hash \<Rightarrow> hash \<Rightarrow> BlastRadiusResult op" where
  "BlastRadius target snap =
     bind_op (GetNode target) (\<lambda>targetNode.
       case targetNode of
         None \<Rightarrow> fail_op (Errorf ''target node not found'')
       | Some n \<Rightarrow>
           bind_op (TransitiveCallers target 5 snap) (\<lambda>callers.
           blast_loop callers \<lparr>Target = n, ByRepo = [], TotalCount = 0, BR_Truncated = False\<rparr>))"

section \<open>Snapshot diff\<close>

record DiffResult =
  OldSnapshot :: hash
  NewSnapshot :: hash
  EdgesAdded :: "edge list"
  EdgesRemoved :: "edge list"
  NodesAdded :: "node list"
  NodesRemoved :: "node list"

definition added_edges :: "hash \<Rightarrow> db \<Rightarrow> edge list" where
  "added_edges newRoot d =
     List.map_filter (\<lambda>ev. map_option scanEdge (find_row EdgeHash (Ev_EdgeHash ev) (T_edges d)))
       (filter (\<lambda>ev. Ev_SnapshotHash ev = newRoot \<and> EventType ev = ''added'') (T_events d))"

text \<open>COALESCE of the event's columns, of the edge's if it still exists, and of the defaults.\<close>

definition removed_edge :: "db \<Rightarrow> event_row \<Rightarrow> edge" where
  "removed_edge d ev =
     (let e = find_row EdgeHash (Ev_EdgeHash ev) (T_edges d);
          col = (\<lambda>own joined dflt. if HasData ev then own else (case e of Some r \<Rightarrow> joined r | None \<Rightarrow> dflt))
      in \<lparr>EdgeHash = Ev_EdgeHash ev,
          SourceHash = (if HasData ev then Ev_SourceHash ev else (case e of Some r \<Rightarrow> SourceHash r | None \<Rightarrow> EmptyHash)),
          TargetHash = (if HasData ev then Ev_TargetHash ev else (case e of Some r \<Rightarrow> TargetHash r | None \<Rightarrow> EmptyHash)),
          EdgeType = col (Ev_EdgeType ev) EdgeType '''',
          Confidence = (if HasData ev then Ev_Confidence ev else (case e of Some r \<Rightarrow> Confidence r | None \<Rightarrow> 1)),
          Provenance = col (Ev_Provenance ev) Provenance ''unknown'',
          CallSiteLine = 0, CallSiteCol = 0, CallSiteFile = '''', ObservationCount = 0, LastObserved = 0\<rparr>)"

definition removed_edges :: "hash \<Rightarrow> db \<Rightarrow> edge list" where
  "removed_edges newRoot d =
     map (removed_edge d) (filter (\<lambda>ev. Ev_SnapshotHash ev = newRoot \<and> EventType ev = ''removed'') (T_events d))"

definition SnapshotDiff :: "hash \<Rightarrow> hash \<Rightarrow> DiffResult op" where
  "SnapshotDiff oldRoot newRoot =
     bind_op (query_sql (added_edges newRoot)) (\<lambda>added.
     bind_op (query_sql (removed_edges newRoot)) (\<lambda>removed.
     ret \<lparr>OldSnapshot = oldRoot, NewSnapshot = newRoot, EdgesAdded = added, EdgesRemoved = removed,
          NodesAdded = [], NodesRemoved = []\<rparr>))"

section \<open>Walks\<close>

primrec hops :: "(hash \<Rightarrow> hash list) \<Rightarrow> nat \<Rightarrow> hash \<Rightarrow> hash \<Rightarrow> bool" where
  "hops step 0 a b = (a = b)"
| "hops step (Suc k) a b = (\<exists>c\<in>set (step a). hops step k c b)"

lemma set_cte_rows:
  "(h, dep) \<in> set (cte_rows step k d F) \<longleftrightarrow> (\<exists>j\<le>k. dep = d + int j \<and> (\<exists>f\<in>set F. hops step j f h))"
proof (induction k arbitrary: d F)
  case 0
  then show ?case by auto
next
  case (Suc k)
  have "(\<exists>j\<le>Suc k. dep = d + int j \<and> (\<exists>f\<in>set F. hops step j f h)) \<longleftrightarrow>
      (dep = d \<and> h \<in> set F) \<or> (\<exists>j\<le>k. dep = d + 1 + int j \<and> (\<exists>f\<in>set F. hops step (Suc j) f h))"
    (is "?l \<longleftrightarrow> ?r")
  proof
    assume ?l
    then obtain j where j: "j \<le> Suc k" "dep = d + int j" "\<exists>f\<in>set F. hops step j f h" by blast
    then show ?r by (cases j) auto
  next
    assume ?r
    then show ?l
    proof
      assume "\<exists>j\<le>k. dep = d + 1 + int j \<and> (\<exists>f\<in>set F. hops step (Suc j) f h)"
      then obtain j where "j \<le> k" "dep = d + 1 + int j" "\<exists>f\<in>set F. hops step (Suc j) f h" by blast
      then show ?l by (intro exI [of _ "Suc j"]) simp
    next
      assume "dep = d \<and> h \<in> set F"
      then show ?l by (intro exI [of _ 0]) simp
    qed
  qed
  then show ?case by (auto simp: Suc.IH)
qed

lemma hops_snoc: "hops step (Suc k) a b \<longleftrightarrow> (\<exists>c. hops step k a c \<and> b \<in> set (step c))"
proof (induction k arbitrary: a)
  case (Suc k)
  have "hops step (Suc (Suc k)) a b \<longleftrightarrow> (\<exists>c\<in>set (step a). hops step (Suc k) c b)" by simp
  also have "\<dots> \<longleftrightarrow> (\<exists>c\<in>set (step a). \<exists>x. hops step k c x \<and> b \<in> set (step x))"
    using Suc.IH by simp
  finally show ?case by auto
qed auto

text \<open>A chain of \<open>k\<close> calls edges from \<open>a\<close> to \<open>b\<close>.\<close>

primrec call_chain :: "db \<Rightarrow> nat \<Rightarrow> hash \<Rightarrow> hash \<Rightarrow> bool" where
  "call_chain d 0 a b = (a = b)"
| "call_chain d (Suc k) a b =
     (\<exists>e\<in>set (T_edges d). EdgeType e = ''calls'' \<and> SourceHash e = a \<and> call_chain d k (TargetHash e) b)"

lemma hops_calls_from: "hops (calls_from d) k a b = call_chain d k a b"
  by (induction k arbitrary: a) (auto simp: calls_from_def)

lemma in_calls_into:
  "a \<in> set (calls_into d c) \<longleftrightarrow> (\<exists>e\<in>set (T_edges d). EdgeType e = ''calls'' \<and> SourceHash e = a \<and> TargetHash e = c)"
  by (auto simp: calls_into_def)

lemma hops_calls_into: "hops (calls_into d) k b a = call_chain d k a b"
proof (induction k arbitrary: a)
  case (Suc k)
  have "hops (calls_into d) (Suc k) b a \<longleftrightarrow> (\<exists>c. hops (calls_into d) k b c \<and> a \<in> set (calls_into d c))"
    by (rule hops_snoc)
  also have "\<dots> \<longleftrightarrow> call_chain d (Suc k) a b" unfolding in_calls_into Suc.IH by auto
  finally show ?case .
qed auto

lemma in_map_filter: "y \<in> set (List.map_filter f xs) \<longleftrightarrow> (\<exists>x\<in>set xs. f x = Some y)"
  by (induction xs) (auto simp: List.map_filter_simps split: option.splits)

lemma set_traversal_rows:
  assumes "primary_key NodeHash (T_nodes d)"
  shows "(n, dep) \<in> set (traversal_rows step d start m) \<longleftrightarrow>
    1 \<le> dep \<and> (dep = 1 \<or> dep \<le> m) \<and> hops step (nat dep) start (NodeHash n) \<and> n \<in> scanNode ` set (T_nodes d)"
proof -
  have "(n, dep) \<in> set (traversal_rows step d start m) \<longleftrightarrow>
      (\<exists>h r. (h, dep) \<in> set (cte_rows step (nat (m - 1)) 1 (remdups (step start))) \<and>
        find_row NodeHash h (T_nodes d) = Some r \<and> n = scanNode r)"
    by (force simp: traversal_rows_def in_map_filter)
  also have "\<dots> \<longleftrightarrow> (\<exists>r\<in>set (T_nodes d). n = scanNode r \<and>
        (NodeHash r, dep) \<in> set (cte_rows step (nat (m - 1)) 1 (remdups (step start))))"
    using find_row_in [OF assms] by auto
  also have "\<dots> \<longleftrightarrow> n \<in> scanNode ` set (T_nodes d) \<and>
        (NodeHash n, dep) \<in> set (cte_rows step (nat (m - 1)) 1 (remdups (step start)))"
    by (auto simp: scanNode_def node.defs)
  also have "(NodeHash n, dep) \<in> set (cte_rows step (nat (m - 1)) 1 (remdups (step start))) \<longleftrightarrow>
      1 \<le> dep \<and> (dep = 1 \<or> dep \<le> m) \<and> hops step (nat dep) start (NodeHash n)" (is "?l \<longleftrightarrow> ?r")
  proof
    assume ?l
    then obtain j where "j \<le> nat (m - 1)" "dep = 1 + int j" "hops step (Suc j) start (NodeHash n)"
      by (auto simp: set_cte_rows)
    then show ?r by (auto simp: nat_add_distrib)
  next
    assume r: ?r
    define j where "j = nat (dep - 1)"
    have "nat dep = Suc j" "dep = 1 + int j" "j \<le> nat (m - 1)" using r by (auto simp: j_def)
    with r show ?l by (auto simp: set_cte_rows intro!: exI [of _ j])
  qed
  finally show ?thesis by blast
qed

lemma set_order_rows [simp]: "set (order_rows rows) = set rows"
  by (simp add: order_rows_def)

lemma distinct_order_rows [simp]: "distinct (order_rows rows) = distinct rows"
  by (simp add: order_rows_def)

lemma distinct_traversal [simp]: "distinct (traversal_rows step d start m)"
  by (simp add: traversal_rows_def)

lemma sorted_order_rows: "sorted (map snd (order_rows rows))"
  by (simp add: order_rows_def)

section \<open>Properties of the traversals\<close>

lemma open_store_sel [simp]:
  "DB (open_store d fs) = d" "Faults (open_store d fs) = fs" "nodeCache (open_store d fs) h = None"
  by (simp_all add: open_store_def)

lemma query_sql_run:
  "query_sql f s = (if Faults s \<noteq> [] \<and> hd (Faults s) then Inl DriverError else Inr (f (DB s)),
     s\<lparr>Faults := tl (Faults s)\<rparr>)"
  by (simp add: query_sql_def sql_def Let_def)

lemma caller_image:
  "\<lparr>CR_Node = n, Depth = k\<rparr> \<in> (\<lambda>(n, dep). \<lparr>CR_Node = n, Depth = dep\<rparr>) ` X \<longleftrightarrow> (n, k) \<in> X"
  by force

lemma callee_image:
  "\<lparr>CE_Node = n, CE_Depth = k\<rparr> \<in> (\<lambda>(n, dep). \<lparr>CE_Node = n, CE_Depth = dep\<rparr>) ` X \<longleftrightarrow> (n, k) \<in> X"
  by force

lemma TransitiveCallers_set:
  assumes "db_ok (DB s)" "TransitiveCallers t m snap s = (Inr rs, s')"
  shows "\<lparr>CR_Node = n, Depth = k\<rparr> \<in> set rs \<longleftrightarrow>
    1 \<le> k \<and> (k = 1 \<or> k \<le> m) \<and> call_chain (DB s) (nat k) (NodeHash n) t \<and> n \<in> scanNode ` set (T_nodes (DB s))"
proof -
  have "rs = map (\<lambda>(n, dep). \<lparr>CR_Node = n, Depth = dep\<rparr>) (order_rows (traversal_rows (calls_into (DB s)) (DB s) t m))"
    using assms(2) by (simp add: TransitiveCallers_def query_sql_run split: if_splits)
  then have "\<lparr>CR_Node = n, Depth = k\<rparr> \<in> set rs \<longleftrightarrow> (n, k) \<in> set (traversal_rows (calls_into (DB s)) (DB s) t m)"
    by (simp add: caller_image)
  also have "\<dots> \<longleftrightarrow> 1 \<le> k \<and> (k = 1 \<or> k \<le> m) \<and> hops (calls_into (DB s)) (nat k) t (NodeHash n) \<and> n \<in> scanNode ` set (T_nodes (DB s))"
    by (rule set_traversal_rows) (use assms(1) in \<open>simp add: db_ok_def\<close>)
  finally show ?thesis by (simp only: hops_calls_into)
qed

lemma TransitiveCallers_order:
  assumes "TransitiveCallers t m snap s = (Inr rs, s')"
  shows "distinct rs" "sorted (map Depth rs)"
proof -
  let ?rows = "order_rows (traversal_rows (calls_into (DB s)) (DB s) t m)"
  have rs: "rs = map (\<lambda>(n, dep). \<lparr>CR_Node = n, Depth = dep\<rparr>) ?rows"
    using assms by (simp add: TransitiveCallers_def query_sql_run split: if_splits)
  have "inj_on (\<lambda>(n, dep). \<lparr>CR_Node = n, Depth = dep\<rparr>) X" for X by (auto simp: inj_on_def)
  then show "distinct rs" unfolding rs by (simp add: distinct_map)
  have "map Depth rs = map snd ?rows" unfolding rs by (simp add: case_prod_unfold)
  then show "sorted (map Depth rs)" by (simp add: sorted_order_rows)
qed

text \<open>
  C6. Transitive callers: on a database whose keys are unique, the result has no duplicate
  rows, is ordered by depth, and holds a node at depth \<open>k\<close> exactly when a chain of \<open>k\<close> calls edges
  leads from it to the target and \<open>k\<close> is within the limit (the direct callers are reported for every
  limit); when a statement fails the error is returned and nothing changes.
\<close>

theorem TransitiveCallers_exact:
  assumes "db_ok (DB s)"
  shows "case TransitiveCallers t m snap s of
      (Inl e, s') \<Rightarrow> e = DriverError \<and> DB s' = DB s
    | (Inr rs, s') \<Rightarrow> DB s' = DB s \<and> distinct rs \<and> sorted (map Depth rs) \<and>
        (\<forall>n k. \<lparr>CR_Node = n, Depth = k\<rparr> \<in> set rs \<longleftrightarrow>
           1 \<le> k \<and> (k = 1 \<or> k \<le> m) \<and> call_chain (DB s) (nat k) (NodeHash n) t \<and>
           n \<in> scanNode ` set (T_nodes (DB s)))"
proof (cases "TransitiveCallers t m snap s")
  case (Pair r s')
  have db: "DB s' = DB s" using Pair by (auto simp: TransitiveCallers_def query_sql_run)
  show ?thesis
  proof (cases r)
    case (Inl e)
    with Pair have "e = DriverError" by (auto simp: TransitiveCallers_def query_sql_run split: if_splits)
    with Pair Inl db show ?thesis by simp
  next
    case (Inr rs)
    with Pair have run: "TransitiveCallers t m snap s = (Inr rs, s')" by simp
    show ?thesis
      unfolding run using db TransitiveCallers_order [OF run] TransitiveCallers_set [OF assms run] by simp
  qed
qed

text \<open>A node \<open>a\<close> that calls itself and \<open>t\<close>, and \<open>t\<close>: hashes 1 and 2.\<close>

definition loop_db :: db where
  "loop_db = empty_db\<lparr>T_nodes := [node.extend (sample_node\<lparr>NodeHash := 1\<rparr>) (node_row.fields 0),
       node.extend (sample_node\<lparr>NodeHash := 2\<rparr>) (node_row.fields 0)],
     T_edges := [insert_edge 0 (sample_edge\<lparr>EdgeHash := 7\<rparr>), insert_edge 0 (sample_edge\<lparr>EdgeHash := 8, TargetHash := 1\<rparr>)]\<rparr>"

lemma loop_db_ok: "db_ok loop_db"
  by (simp add: loop_db_def empty_db_def db_ok_def primary_key_def node.defs edge.defs insert_edge_def sample_edge_def)

theorem TransitiveCallers_exact_witness:
  "\<exists>rs s'. TransitiveCallers 2 1 0 (open_store loop_db []) = (Inr rs, s') \<and> distinct rs \<and>
     \<lparr>CR_Node = sample_node\<lparr>NodeHash := 1\<rparr>, Depth = 1\<rparr> \<in> set rs"
proof -
  have "db_ok (DB (open_store loop_db []))" using loop_db_ok by (simp add: open_store_def)
  note ex = TransitiveCallers_exact [OF this, where t = 2 and m = 1 and snap = 0]
  obtain rs s' where run: "TransitiveCallers 2 1 0 (open_store loop_db []) = (Inr rs, s')"
    by (simp add: TransitiveCallers_def query_sql_run open_store_def)
  have "call_chain loop_db (nat 1) 1 2" "sample_node\<lparr>NodeHash := 1\<rparr> \<in> scanNode ` set (T_nodes loop_db)"
    by (simp_all add: loop_db_def insert_edge_def edge.defs sample_edge_def)
  with ex run show ?thesis by (auto simp: sample_node_def)
qed

text \<open>
  Callees are callers read backwards: within any common limit, one node of the graph is among
  the callers of another at depth \<open>k\<close> exactly when the other is among its callees at depth \<open>k\<close>.
\<close>

lemma TransitiveCallees_dual:
  assumes "db_ok (DB s)" "Faults s = []" "n \<in> scanNode ` set (T_nodes (DB s))" "u \<in> scanNode ` set (T_nodes (DB s))"
  shows "\<exists>callers callees. TransitiveCallers (NodeHash u) m snap s = (Inr callers, s) \<and>
    TransitiveCallees (NodeHash n) m snap s = (Inr callees, s) \<and>
    (\<lparr>CR_Node = n, Depth = k\<rparr> \<in> set callers \<longleftrightarrow> \<lparr>CE_Node = u, CE_Depth = k\<rparr> \<in> set callees)"
proof -
  let ?callers = "map (\<lambda>(n, dep). \<lparr>CR_Node = n, Depth = dep\<rparr>)
      (order_rows (traversal_rows (calls_into (DB s)) (DB s) (NodeHash u) m))"
  let ?callees = "map (\<lambda>(n, dep). \<lparr>CE_Node = n, CE_Depth = dep\<rparr>)
      (order_rows (traversal_rows (calls_from (DB s)) (DB s) (NodeHash n) m))"
  have run: "TransitiveCallers (NodeHash u) m snap s = (Inr ?callers, s)"
    "TransitiveCallees (NodeHash n) m snap s = (Inr ?callees, s)"
    using assms(2) by (simp_all add: TransitiveCallers_def TransitiveCallees_def db_simps)
  have pk: "primary_key NodeHash (T_nodes (DB s))" using assms(1) by (simp add: db_ok_def)
  have "\<lparr>CE_Node = u, CE_Depth = k\<rparr> \<in> set ?callees \<longleftrightarrow> (u, k) \<in> set (traversal_rows (calls_from (DB s)) (DB s) (NodeHash n) m)"
    by (simp add: callee_image)
  also have "\<dots> \<longleftrightarrow> 1 \<le> k \<and> (k = 1 \<or> k \<le> m) \<and> call_chain (DB s) (nat k) (NodeHash n) (NodeHash u)"
    using assms(4) by (simp add: set_traversal_rows [OF pk] hops_calls_from)
  also have "\<dots> \<longleftrightarrow> \<lparr>CR_Node = n, Depth = k\<rparr> \<in> set ?callers"
    using TransitiveCallers_set [OF assms(1) run(1)] assms(3) by simp
  finally show ?thesis using run by blast
qed

lemma TransitiveCallees_dual_witness:
  "\<exists>callers callees. TransitiveCallers 2 3 0 (open_store loop_db []) = (Inr callers, open_store loop_db []) \<and>
    TransitiveCallees 1 3 0 (open_store loop_db []) = (Inr callees, open_store loop_db []) \<and>
    (\<lparr>CR_Node = sample_node\<lparr>NodeHash := 1\<rparr>, Depth = 3\<rparr> \<in> set callers \<longleftrightarrow>
     \<lparr>CE_Node = sample_node\<lparr>NodeHash := 2\<rparr>, CE_Depth = 3\<rparr> \<in> set callees)"
  using TransitiveCallees_dual [of "open_store loop_db []" "sample_node\<lparr>NodeHash := 1\<rparr>" "sample_node\<lparr>NodeHash := 2\<rparr>" 3 0 3]
    loop_db_ok
  by (simp add: open_store_def) (simp add: loop_db_def)

section \<open>Properties of the blast radius\<close>

definition caller_entry :: "CallerResult \<Rightarrow> CallerWithProvenance" where
  "caller_entry cr = \<lparr>Caller = CR_Node cr, CWP_Depth = Depth cr, CWP_Confidence = 1, CWP_Provenance = []\<rparr>"

definition all_entries :: "BlastRadiusResult \<Rightarrow> CallerWithProvenance list" where
  "all_entries r = concat (map snd (ByRepo r))"

lemma gomap_append_entry:
  "mset (concat (map snd (gomap_set k ((case map_of m k of Some cs \<Rightarrow> cs | None \<Rightarrow> []) @ [x]) m))) =
     add_mset x (mset (concat (map snd m)))"
  by (induction m) auto

lemma add_caller_entries:
  "mset (all_entries (add_caller u cr r)) = add_mset (caller_entry cr) (mset (all_entries r))"
  "TotalCount (add_caller u cr r) = TotalCount r + 1"
  "BR_Truncated (add_caller u cr r) = BR_Truncated r"
  "Target (add_caller u cr r) = Target r"
  using gomap_append_entry [of u "ByRepo r"]
  by (simp_all add: add_caller_def Let_def all_entries_def caller_entry_def)

lemma blast_loop_result:
  "\<exists>r' s'. blast_loop crs r s = (Inr r', s') \<and> DB s' = DB s \<and>
     mset (all_entries r') = mset (all_entries r) + mset (map caller_entry crs) \<and>
     TotalCount r' = TotalCount r + length crs \<and> BR_Truncated r' = BR_Truncated r \<and> Target r' = Target r"
proof (induction crs arbitrary: r s)
  case (Cons cr crs)
  obtain q s1 where q: "query_sql (repo_of_file (Node_FileHash (CR_Node cr))) s = (q, s1)" by force
  then have "DB s1 = DB s" using query_DB by (metis snd_conv)
  have "\<exists>url. blast_loop (cr # crs) r s = blast_loop crs (add_caller url cr r) s1"
    using q by (auto split: sum.splits option.splits)
  then obtain url where "blast_loop (cr # crs) r s = blast_loop crs (add_caller url cr r) s1" by blast
  with Cons.IH [of "add_caller url cr r" s1] \<open>DB s1 = DB s\<close> show ?case
    by (auto simp: add_caller_entries)
qed simp

text \<open>
  Blast radius: when the target is in the graph and no statement fails, the entries of all
  repositories together are exactly the callers up to depth 5, one entry per caller and depth, and
  \<open>TotalCount\<close> counts them; every entry has confidence 1 and no provenance, and \<open>Truncated\<close> is never
  set, whatever the confidences and the length of the call chains.
\<close>

lemma BlastRadius_counts:
  assumes "Faults s = []" "nodeCache s t = None" "find_row NodeHash t (T_nodes (DB s)) = Some row"
  shows "\<exists>r callers s'. BlastRadius t snap s = (Inr r, s') \<and> DB s' = DB s \<and> Target r = scanNode row \<and>
    fst (TransitiveCallers t 5 snap s) = Inr callers \<and>
    mset (all_entries r) = mset (map caller_entry callers) \<and>
    TotalCount r = length callers \<and> TotalCount r = sum_list (map (\<lambda>p. length (snd p)) (ByRepo r)) \<and>
    (\<forall>e\<in>set (all_entries r). CWP_Confidence e = 1 \<and> CWP_Provenance e = []) \<and> \<not> BR_Truncated r"
proof -
  let ?s = "cache_node t (scanNode row) s"
  have get: "GetNode t s = (Inr (Some (scanNode row)), ?s)"
    using assms by (simp add: GetNode_def db_simps)
  have f: "Faults ?s = []" "DB ?s = DB s" using assms(1) by (simp_all add: cache_node_def Let_def)
  obtain callers where callers: "TransitiveCallers t 5 snap s = (Inr callers, s)" "TransitiveCallers t 5 snap ?s = (Inr callers, ?s)"
    using assms(1) f by (simp add: TransitiveCallers_def db_simps)
  let ?r0 = "\<lparr>Target = scanNode row, ByRepo = [], TotalCount = 0, BR_Truncated = False\<rparr>"
  from blast_loop_result [of callers ?r0 ?s] obtain r s' where
    r: "blast_loop callers ?r0 ?s = (Inr r, s')" "DB s' = DB ?s"
      "mset (all_entries r) = mset (all_entries ?r0) + mset (map caller_entry callers)"
      "TotalCount r = TotalCount ?r0 + length callers" "BR_Truncated r = BR_Truncated ?r0" "Target r = Target ?r0"
    by blast
  have run: "BlastRadius t snap s = (Inr r, s')"
    using get callers(2) r(1) by (simp add: BlastRadius_def bind_op_def)
  have entries: "mset (all_entries r) = mset (map caller_entry callers)" using r(3) by (simp add: all_entries_def)
  then have "set (all_entries r) = caller_entry ` set callers" by (metis set_map set_mset_mset)
  moreover have "length (all_entries r) = length callers" using entries by (metis length_map size_mset)
  then have "sum_list (map (\<lambda>p. length (snd p)) (ByRepo r)) = length callers"
    by (simp add: all_entries_def length_concat comp_def)
  ultimately show ?thesis
    using run r f callers(1) entries by (auto simp: caller_entry_def)
qed

lemma BlastRadius_counts_witness:
  "\<exists>r s'. BlastRadius 2 0 (open_store loop_db []) = (Inr r, s') \<and> \<not> BR_Truncated r"
proof -
  have "find_row NodeHash 2 (T_nodes (DB (open_store loop_db []))) = Some (node.extend (sample_node\<lparr>NodeHash := 2\<rparr>) (node_row.fields 0))"
    by (simp add: find_row_def open_store_def loop_db_def)
  from BlastRadius_counts [OF _ _ this, of 0] show ?thesis by (simp add: open_store_def) metis
qed

text \<open>
  A recursive caller is counted at every depth: UNION deduplicates rows of node and depth, not
  nodes, so a node that calls the target and itself appears five times in the callers of the
  target and contributes five to \<open>TotalCount\<close>.
\<close>

lemma TransitiveCallers_recursive_caller:
  assumes "db_ok (DB s)" "Faults s = []" "n \<in> scanNode ` set (T_nodes (DB s))"
    "\<exists>e\<in>set (T_edges (DB s)). EdgeType e = ''calls'' \<and> SourceHash e = NodeHash n \<and> TargetHash e = t"
    "\<exists>e\<in>set (T_edges (DB s)). EdgeType e = ''calls'' \<and> SourceHash e = NodeHash n \<and> TargetHash e = NodeHash n"
  shows "\<exists>rs. TransitiveCallers t 5 snap s = (Inr rs, s) \<and>
    (\<forall>k\<in>{1..5}. \<lparr>CR_Node = n, Depth = k\<rparr> \<in> set rs) \<and> length (filter (\<lambda>cr. CR_Node cr = n) rs) \<ge> 5"
proof -
  have chain: "call_chain (DB s) (Suc k) (NodeHash n) t" for k
  proof (induction k)
    case (Suc k)
    then show ?case using assms(5) call_chain.simps(2) [of "DB s" "Suc k" "NodeHash n" t] by metis
  qed (use assms(4) in auto)
  obtain rs where rs: "TransitiveCallers t 5 snap s = (Inr rs, s)"
    using assms(2) by (simp add: TransitiveCallers_def db_simps)
  have mem: "\<lparr>CR_Node = n, Depth = k\<rparr> \<in> set rs" if "k \<in> {1..5}" for k :: int
  proof -
    have "nat k = Suc (nat k - 1)" using that by auto
    then have "call_chain (DB s) (nat k) (NodeHash n) t" using chain by metis
    then show ?thesis using TransitiveCallers_set [OF assms(1) rs] assms(3) that by auto
  qed
  have "(\<lambda>k. \<lparr>CR_Node = n, Depth = k\<rparr>) ` {1..5::int} \<subseteq> set (filter (\<lambda>cr. CR_Node cr = n) rs)"
    using mem by auto
  then have "card ((\<lambda>k. \<lparr>CR_Node = n, Depth = k\<rparr>) ` {1..5::int}) \<le> length (filter (\<lambda>cr. CR_Node cr = n) rs)"
    by (meson card_length card_mono finite_set order_trans)
  moreover have "card ((\<lambda>k. \<lparr>CR_Node = n, Depth = k\<rparr>) ` {1..5::int}) = 5"
    by (subst card_image) (auto simp: inj_on_def)
  ultimately show ?thesis using rs mem by auto
qed

lemma TransitiveCallers_recursive_caller_witness:
  "\<exists>rs. TransitiveCallers 2 5 0 (open_store loop_db []) = (Inr rs, open_store loop_db []) \<and>
     length (filter (\<lambda>cr. CR_Node cr = sample_node\<lparr>NodeHash := 1\<rparr>) rs) \<ge> 5"
proof -
  have "\<exists>rs. TransitiveCallers 2 5 0 (open_store loop_db []) = (Inr rs, open_store loop_db []) \<and>
    (\<forall>k\<in>{1..5}. \<lparr>CR_Node = sample_node\<lparr>NodeHash := 1\<rparr>, Depth = k\<rparr> \<in> set rs) \<and>
    length (filter (\<lambda>cr. CR_Node cr = sample_node\<lparr>NodeHash := 1\<rparr>) rs) \<ge> 5"
    by (rule TransitiveCallers_recursive_caller)
      (use loop_db_ok in \<open>auto simp: open_store_def loop_db_def insert_edge_def edge.defs sample_edge_def\<close>)
  then show ?thesis by blast
qed

section \<open>Properties of the snapshot diff\<close>

lemma SnapshotDiff_run:
  "Faults s = [] \<Longrightarrow> SnapshotDiff old new s = (Inr \<lparr>OldSnapshot = old, NewSnapshot = new,
     EdgesAdded = added_edges new (DB s), EdgesRemoved = removed_edges new (DB s), NodesAdded = [], NodesRemoved = []\<rparr>, s)"
  by (simp add: SnapshotDiff_def bind_op_def db_simps ret_def)

text \<open>
  C7. The diff is the event log of the new snapshot: a removal recorded before its edge is deleted
  is reported with the identity stored in the event, an addition is reported only while its edge
  exists, and the old snapshot is not consulted: any other old root gives the same edges.
\<close>

theorem SnapshotDiff_events:
  assumes "Faults s = []"
  shows "let s2 = snd (DeleteEdge (Ev_EdgeHash ev) (snd (RecordEdgeEvent ev s))) in
    \<exists>d. SnapshotDiff old (Ev_SnapshotHash ev) s2 = (Inr d, s2) \<and>
      (EventType ev = ''removed'' \<longrightarrow> (\<exists>e\<in>set (EdgesRemoved d). EdgeHash e = Ev_EdgeHash ev \<and>
         SourceHash e = Ev_SourceHash ev \<and> TargetHash e = Ev_TargetHash ev \<and> EdgeType e = Ev_EdgeType ev \<and>
         Confidence e = Ev_Confidence ev \<and> Provenance e = Ev_Provenance ev)) \<and>
      (\<forall>e\<in>set (EdgesAdded d). EdgeHash e \<noteq> Ev_EdgeHash ev) \<and>
      SnapshotDiff old' (Ev_SnapshotHash ev) s2 = (Inr (d\<lparr>OldSnapshot := old'\<rparr>), s2)"
proof -
  define s2 where "s2 = snd (DeleteEdge (Ev_EdgeHash ev) (snd (RecordEdgeEvent ev s)))"
  let ?row = "edge_event.extend (ev\<lparr>EventID := NextEventID (DB s)\<rparr>) (event_row.fields True)"
  have s2: "Faults s2 = []" "T_events (DB s2) = T_events (DB s) @ [?row]"
    "T_edges (DB s2) = delete_key EdgeHash (Ev_EdgeHash ev) (T_edges (DB s))"
    using assms by (simp_all add: s2_def DeleteEdge_def RecordEdgeEvent_def bind_op_def db_simps)
  have row: "Ev_SnapshotHash ?row = Ev_SnapshotHash ev" "EventType ?row = EventType ev" "HasData ?row"
    "Ev_EdgeHash ?row = Ev_EdgeHash ev" "Ev_SourceHash ?row = Ev_SourceHash ev" "Ev_TargetHash ?row = Ev_TargetHash ev"
    "Ev_EdgeType ?row = Ev_EdgeType ev" "Ev_Confidence ?row = Ev_Confidence ev" "Ev_Provenance ?row = Ev_Provenance ev"
    by (simp_all add: edge_event.defs event_row.defs)
  have removed: "removed_edge (DB s2) ?row \<in> set (removed_edges (Ev_SnapshotHash ev) (DB s2))"
    if "EventType ev = ''removed''"
    using that row by (simp add: removed_edges_def s2)
  have added: "EdgeHash e \<noteq> Ev_EdgeHash ev" if "e \<in> set (added_edges (Ev_SnapshotHash ev) (DB s2))" for e
  proof -
    from that have "\<exists>(x :: event_row) r. find_row EdgeHash (Ev_EdgeHash x) (T_edges (DB s2)) = Some r \<and> e = scanEdge r"
      by (auto simp: added_edges_def in_map_filter)
    then obtain x :: event_row and r where x: "find_row EdgeHash (Ev_EdgeHash x) (T_edges (DB s2)) = Some r" "e = scanEdge r"
      by blast
    then have "r \<in> set (T_edges (DB s2))" by (auto dest: find_row_SomeD)
    then have "EdgeHash r \<noteq> Ev_EdgeHash ev" by (auto simp: s2 delete_key_def delete_where_def)
    with x(2) show ?thesis by (simp add: scanEdge_def edge.defs)
  qed
  have "EdgeHash (removed_edge (DB s2) ?row) = Ev_EdgeHash ev" "SourceHash (removed_edge (DB s2) ?row) = Ev_SourceHash ev"
    "TargetHash (removed_edge (DB s2) ?row) = Ev_TargetHash ev" "EdgeType (removed_edge (DB s2) ?row) = Ev_EdgeType ev"
    "Confidence (removed_edge (DB s2) ?row) = Ev_Confidence ev" "Provenance (removed_edge (DB s2) ?row) = Ev_Provenance ev"
    using row by (simp_all add: removed_edge_def Let_def)
  with removed added show ?thesis
    unfolding Let_def s2_def [symmetric] by (simp add: SnapshotDiff_run s2(1)) blast
qed

definition sample_event :: edge_event where
  "sample_event = \<lparr>EventID = 0, Ev_EdgeHash = 140, EventType = ''removed'', Ev_SnapshotHash = 77, SourceCommit = [],
     IndexerVer = [], Ev_Timestamp = 0, Ev_SourceHash = 1, Ev_TargetHash = 2, Ev_EdgeType = ''calls'',
     Ev_Confidence = 1, Ev_Provenance = []\<rparr>"

theorem SnapshotDiff_events_witness:
  "\<exists>d. fst (SnapshotDiff 0 77 (snd (DeleteEdge 140 (snd (RecordEdgeEvent sample_event
     (snd (PutEdge 0 sample_edge (open_store empty_db [])))))))) = Inr d \<and> EdgesRemoved d \<noteq> []"
proof -
  have "Faults (snd (PutEdge 0 sample_edge (open_store empty_db []))) = []"
    by (simp add: PutEdge_def db_simps)
  from SnapshotDiff_events [OF this, where ev = sample_event and old = 0 and old' = 0] show ?thesis
    by (auto simp: sample_event_def Let_def)
qed

end
