(* ===== verification/HierarchicalDiff.thy ===== *)
theory HierarchicalDiff
  imports MerkleTree
begin

text \<open>
  The comparison half of internal/snapshot/hierarchical.go and internal/snapshot/classify.go:
  which packages and edge types of two trees differ, under an optional package filter and a cap
  on the number of reported packages, and the severity class of the result.
\<close>

section \<open>Diffs\<close>

record HierarchicalDiff =
  ChangedPackages :: "string list"
  AddedPackages :: "string list"
  RemovedPackages :: "string list"
  ChangedEdgeTypes :: "string list"
  RootChanged :: bool
  Truncated :: bool

record DiffOptions =
  PackageFilter :: "string list"
  MaxChanges :: int

text \<open>The filter set: \<open>None\<close> when there are no options or the filter is empty.\<close>

definition filterSet_of :: "DiffOptions option \<Rightarrow> string set option" where
  "filterSet_of opts =
     (case opts of
        Some ops \<Rightarrow> if length (PackageFilter ops) > 0 then Some (set (PackageFilter ops)) else None
      | None \<Rightarrow> None)"

definition maxChanges_of :: "DiffOptions option \<Rightarrow> int" where
  "maxChanges_of opts = (case opts of Some ops \<Rightarrow> MaxChanges ops | None \<Rightarrow> 0)"

definition filtered_out :: "string set option \<Rightarrow> string \<Rightarrow> bool" where
  "filtered_out filterSet pkg = (case filterSet of Some fs \<Rightarrow> pkg \<notin> fs | None \<Rightarrow> False)"

definition reachedCap :: "int \<Rightarrow> nat \<Rightarrow> bool" where
  "reachedCap maxChanges totalChanges \<longleftrightarrow> maxChanges > 0 \<and> int totalChanges \<ge> maxChanges"

text \<open>
  The two loops over package roots: \<open>continue\<close> skips a filtered package, reaching the cap marks
  the diff and breaks.
\<close>

fun new_packages_loop ::
  "string set option \<Rightarrow> int \<Rightarrow> (string, hash) gomap \<Rightarrow> (string, hash) gomap \<Rightarrow>
     HierarchicalDiff \<times> nat \<Rightarrow> HierarchicalDiff \<times> nat"
where
  "new_packages_loop fs mx old [] st = st"
| "new_packages_loop fs mx old ((pkg, newRoot) # rest) (diff, totalChanges) =
     (if filtered_out fs pkg then new_packages_loop fs mx old rest (diff, totalChanges)
      else if reachedCap mx totalChanges then (diff\<lparr>Truncated := True\<rparr>, totalChanges)
      else (case map_of old pkg of
              None \<Rightarrow> new_packages_loop fs mx old rest
                        (diff\<lparr>AddedPackages := AddedPackages diff @ [pkg]\<rparr>, totalChanges + 1)
            | Some oldRoot \<Rightarrow>
                if oldRoot \<noteq> newRoot then
                  new_packages_loop fs mx old rest
                    (diff\<lparr>ChangedPackages := ChangedPackages diff @ [pkg]\<rparr>, totalChanges + 1)
                else new_packages_loop fs mx old rest (diff, totalChanges)))"

fun old_packages_loop ::
  "string set option \<Rightarrow> int \<Rightarrow> (string, hash) gomap \<Rightarrow> (string, hash) gomap \<Rightarrow>
     HierarchicalDiff \<times> nat \<Rightarrow> HierarchicalDiff \<times> nat"
where
  "old_packages_loop fs mx new [] st = st"
| "old_packages_loop fs mx new ((pkg, oldRoot) # rest) (diff, totalChanges) =
     (if filtered_out fs pkg then old_packages_loop fs mx new rest (diff, totalChanges)
      else if reachedCap mx totalChanges then (diff\<lparr>Truncated := True\<rparr>, totalChanges)
      else (case map_of new pkg of
              None \<Rightarrow> old_packages_loop fs mx new rest
                        (diff\<lparr>RemovedPackages := RemovedPackages diff @ [pkg]\<rparr>, totalChanges + 1)
            | Some _ \<Rightarrow> old_packages_loop fs mx new rest (diff, totalChanges)))"

text \<open>
  The loop over edge-type roots. \<open>key[:strings.LastIndex(key, ":")]\<close> panics on a key without a
  colon (slice bound \<open>-1\<close>), which is \<open>None\<close>.
\<close>

fun edge_types_loop ::
  "string set \<Rightarrow> (string, hash) gomap \<Rightarrow> (string, hash) gomap \<Rightarrow> string list \<Rightarrow> string list option"
where
  "edge_types_loop changed old [] acc = Some acc"
| "edge_types_loop changed old ((key, newRoot) # rest) acc =
     (case strings_LastIndex key '':'' of
        None \<Rightarrow> None
      | Some i \<Rightarrow>
          if take i key \<notin> changed then edge_types_loop changed old rest acc
          else if map_of old key \<noteq> Some newRoot then edge_types_loop changed old rest (acc @ [key])
          else edge_types_loop changed old rest acc)"

definition empty_diff :: "bool \<Rightarrow> HierarchicalDiff" where
  "empty_diff rootChanged =
     \<lparr>ChangedPackages = [], AddedPackages = [], RemovedPackages = [], ChangedEdgeTypes = [],
      RootChanged = rootChanged, Truncated = False\<rparr>"

definition DiffHierarchicalTreesWithOptions ::
  "HierarchicalTree \<Rightarrow> HierarchicalTree \<Rightarrow> DiffOptions option \<Rightarrow> HierarchicalDiff option"
where
  "DiffHierarchicalTreesWithOptions oldTree newTree opts =
     (let diff = empty_diff (Root oldTree \<noteq> Root newTree) in
      if \<not> RootChanged diff then Some diff
      else
        (let fs = filterSet_of opts;
             mx = maxChanges_of opts;
             st = new_packages_loop fs mx (PackageRoots oldTree) (PackageRoots newTree) (diff, 0);
             diff = fst (old_packages_loop fs mx (PackageRoots newTree) (PackageRoots oldTree) st);
             changed = set (ChangedPackages diff) \<union> set (AddedPackages diff)
         in (case edge_types_loop changed (EdgeTypeRoots oldTree) (EdgeTypeRoots newTree) (ChangedEdgeTypes diff) of
               None \<Rightarrow> None
             | Some ets \<Rightarrow>
                 Some (diff\<lparr>ChangedPackages := sort_Strings (ChangedPackages diff),
                            AddedPackages := sort_Strings (AddedPackages diff),
                            RemovedPackages := sort_Strings (RemovedPackages diff),
                            ChangedEdgeTypes := sort_Strings ets\<rparr>))))"

definition DiffHierarchicalTrees :: "HierarchicalTree \<Rightarrow> HierarchicalTree \<Rightarrow> HierarchicalDiff option" where
  "DiffHierarchicalTrees oldTree newTree = DiffHierarchicalTreesWithOptions oldTree newTree None"

section \<open>Classification\<close>

datatype ChangeClass = Behavioral | Structural | RuntimeDrift | MetadataOnly | NoChange

definition behavioralEdgeTypes :: "string list" where
  "behavioralEdgeTypes = [''calls'', ''throws'', ''publishes'', ''subscribes'', ''connects_to'']"

definition structuralEdgeTypes :: "string list" where
  "structuralEdgeTypes = [''imports'', ''implements'', ''extends'', ''overrides'', ''depends_on'', ''decorates'']"

definition runtimeEdgeTypes :: "string list" where
  "runtimeEdgeTypes = [''runtime_calls'', ''runtime_rpc'', ''runtime_produces'', ''runtime_consumes'']"

record ChangeClassification =
  Class :: ChangeClass
  BehavioralCount :: nat
  StructuralCount :: nat
  RuntimeDriftCount :: nat
  MetadataCount :: nat
  CC_ChangedPackages :: "string list"
  CC_ChangedEdgeTypes :: "string list"

definition lastColon :: "string \<Rightarrow> nat option" where
  "lastColon s = strings_LastIndex s '':''"

definition key_edge_type :: "string \<Rightarrow> string" where
  "key_edge_type key = (case lastColon key of Some idx \<Rightarrow> drop (idx + 1) key | None \<Rightarrow> key)"

definition count_key :: "string \<Rightarrow> ChangeClassification \<Rightarrow> ChangeClassification" where
  "count_key key c =
     (let edgeType = key_edge_type key in
      if edgeType \<in> set behavioralEdgeTypes then c\<lparr>BehavioralCount := BehavioralCount c + 1\<rparr>
      else if edgeType \<in> set runtimeEdgeTypes then c\<lparr>RuntimeDriftCount := RuntimeDriftCount c + 1\<rparr>
      else if edgeType \<in> set structuralEdgeTypes then c\<lparr>StructuralCount := StructuralCount c + 1\<rparr>
      else c\<lparr>MetadataCount := MetadataCount c + 1\<rparr>)"

definition severity :: "ChangeClassification \<Rightarrow> ChangeClass" where
  "severity c =
     (if BehavioralCount c > 0 then Behavioral
      else if RuntimeDriftCount c > 0 then RuntimeDrift
      else if StructuralCount c > 0 then Structural
      else if MetadataCount c > 0 then MetadataOnly
      else NoChange)"

definition zero_class :: ChangeClassification where
  "zero_class = \<lparr>Class = NoChange, BehavioralCount = 0, StructuralCount = 0, RuntimeDriftCount = 0,
     MetadataCount = 0, CC_ChangedPackages = [], CC_ChangedEdgeTypes = []\<rparr>"

definition ClassifyChanges :: "HierarchicalDiff option \<Rightarrow> ChangeClassification" where
  "ClassifyChanges d =
     (case d of
        None \<Rightarrow> zero_class
      | Some diff \<Rightarrow>
          if \<not> RootChanged diff then zero_class
          else
            (let c = zero_class\<lparr>CC_ChangedPackages := ChangedPackages diff,
                                CC_ChangedEdgeTypes := ChangedEdgeTypes diff\<rparr>;
                 c = fold count_key (ChangedEdgeTypes diff) c;
                 c = c\<lparr>StructuralCount := StructuralCount c + (length (AddedPackages diff) + length (RemovedPackages diff))\<rparr>
             in c\<lparr>Class := severity c\<rparr>))"

section \<open>The loops in closed form\<close>

definition changed_set :: "string set option \<Rightarrow> (string, hash) gomap \<Rightarrow> (string, hash) gomap \<Rightarrow> string set" where
  "changed_set fs old new = {p. \<not> filtered_out fs p \<and>
     (\<exists>r s. map_of old p = Some r \<and> map_of new p = Some s \<and> r \<noteq> s)}"

definition only_in :: "string set option \<Rightarrow> (string, hash) gomap \<Rightarrow> (string, hash) gomap \<Rightarrow> string set" where
  "only_in fs a b = {p. \<not> filtered_out fs p \<and> map_of a p \<noteq> None \<and> map_of b p = None}"

definition changes :: "HierarchicalDiff \<Rightarrow> nat" where
  "changes d = length (ChangedPackages d) + length (AddedPackages d) + length (RemovedPackages d)"

abbreviation is_changed :: "string set option \<Rightarrow> (string, hash) gomap \<Rightarrow> string \<times> hash \<Rightarrow> bool" where
  "is_changed fs old \<equiv> \<lambda>(p, s). \<not> filtered_out fs p \<and> (\<exists>r. map_of old p = Some r \<and> r \<noteq> s)"

abbreviation is_missing :: "string set option \<Rightarrow> (string, hash) gomap \<Rightarrow> string \<times> hash \<Rightarrow> bool" where
  "is_missing fs other \<equiv> \<lambda>(p, s). \<not> filtered_out fs p \<and> map_of other p = None"

lemma new_loop_no_trunc:
  "new_packages_loop fs mx old new (d, n) = (d', m) \<Longrightarrow> \<not> Truncated d' \<Longrightarrow>
   d' = d\<lparr>ChangedPackages := ChangedPackages d @ map fst (filter (is_changed fs old) new),
          AddedPackages := AddedPackages d @ map fst (filter (is_missing fs old) new)\<rparr>"
proof (induction new arbitrary: d n)
  case (Cons p new)
  obtain pkg r where p: "p = (pkg, r)" by force
  show ?case
    using Cons.prems Cons.IH [of d n] Cons.IH [of "d\<lparr>AddedPackages := AddedPackages d @ [pkg]\<rparr>" "n + 1"]
      Cons.IH [of "d\<lparr>ChangedPackages := ChangedPackages d @ [pkg]\<rparr>" "n + 1"]
    by (auto simp: p split: if_splits option.splits)
qed simp

lemma old_loop_no_trunc:
  "old_packages_loop fs mx new old (d, n) = (d', m) \<Longrightarrow> \<not> Truncated d' \<Longrightarrow>
   d' = d\<lparr>RemovedPackages := RemovedPackages d @ map fst (filter (is_missing fs new) old)\<rparr>"
proof (induction old arbitrary: d n)
  case (Cons p old)
  obtain pkg r where p: "p = (pkg, r)" by force
  show ?case
    using Cons.prems Cons.IH [of d n] Cons.IH [of "d\<lparr>RemovedPackages := RemovedPackages d @ [pkg]\<rparr>" "n + 1"]
    by (auto simp: p split: if_splits option.splits)
qed simp

lemma new_loop_trunc_iff:
  "mx \<le> 0 \<Longrightarrow> Truncated (fst (new_packages_loop fs mx old new st)) = Truncated (fst st)"
  by (induction fs mx old new st rule: new_packages_loop.induct)
    (auto simp: reachedCap_def split: option.splits)

lemma old_loop_trunc_iff:
  "mx \<le> 0 \<Longrightarrow> Truncated (fst (old_packages_loop fs mx new old st)) = Truncated (fst st)"
  by (induction fs mx new old st rule: old_packages_loop.induct)
    (auto simp: reachedCap_def split: option.splits)

lemma new_loop_count:
  "changes d = n \<Longrightarrow> 0 < mx \<Longrightarrow> int n \<le> mx \<Longrightarrow>
     changes (fst (new_packages_loop fs mx old new (d, n))) = snd (new_packages_loop fs mx old new (d, n)) \<and>
     int (snd (new_packages_loop fs mx old new (d, n))) \<le> mx \<and>
     (Truncated (fst (new_packages_loop fs mx old new (d, n))) \<longrightarrow>
        Truncated d \<or> int (snd (new_packages_loop fs mx old new (d, n))) = mx)"
  by (induction fs mx old new "(d, n)" arbitrary: d n rule: new_packages_loop.induct)
    (auto simp: reachedCap_def changes_def split: option.splits)

lemma old_loop_count:
  "changes d = n \<Longrightarrow> 0 < mx \<Longrightarrow> int n \<le> mx \<Longrightarrow>
     changes (fst (old_packages_loop fs mx new old (d, n))) = snd (old_packages_loop fs mx new old (d, n)) \<and>
     int (snd (old_packages_loop fs mx new old (d, n))) \<le> mx \<and>
     (Truncated (fst (old_packages_loop fs mx new old (d, n))) \<longrightarrow>
        Truncated d \<or> int (snd (old_packages_loop fs mx new old (d, n))) = mx)"
  by (induction fs mx new old "(d, n)" arbitrary: d n rule: old_packages_loop.induct)
    (auto simp: reachedCap_def changes_def split: option.splits)

lemma old_loop_total: "n \<le> snd (old_packages_loop fs mx new old (d, n))"
  by (induction fs mx new old "(d, n)" arbitrary: d n rule: old_packages_loop.induct)
    (auto split: option.splits dest: Suc_leD)

lemma new_loop_fields:
  "ChangedEdgeTypes (fst (new_packages_loop fs mx old new st)) = ChangedEdgeTypes (fst st)"
  "RootChanged (fst (new_packages_loop fs mx old new st)) = RootChanged (fst st)"
  by (induction fs mx old new st rule: new_packages_loop.induct) (auto split: option.splits)

lemma old_loop_fields:
  "ChangedEdgeTypes (fst (old_packages_loop fs mx new old st)) = ChangedEdgeTypes (fst st)"
  "RootChanged (fst (old_packages_loop fs mx new old st)) = RootChanged (fst st)"
  "Truncated (fst st) \<Longrightarrow> Truncated (fst (old_packages_loop fs mx new old st))"
  by (induction fs mx new old st rule: old_packages_loop.induct) (auto split: option.splits)

lemma edge_types_loop_closed:
  "\<forall>k\<in>set (map fst new). CHR '':'' \<in> set k \<Longrightarrow>
     edge_types_loop changed old new acc =
       Some (acc @ map fst (filter (\<lambda>(k, r). key_group k \<in> changed \<and> map_of old k \<noteq> Some r) new))"
proof (induction new arbitrary: acc)
  case (Cons p new)
  obtain k r where p: "p = (k, r)" by force
  with Cons.prems obtain i where "strings_LastIndex k '':'' = Some i"
    using strings_LastIndex_None_iff [of k "CHR '':''"] by fastforce
  with Cons p show ?case by (simp add: key_group_def)
qed simp

lemma set_is_changed:
  "gomap_ok new \<Longrightarrow> fst ` set (filter (is_changed fs old) new) = changed_set fs old new"
  by (force simp: changed_set_def)

lemma set_is_missing:
  "gomap_ok new \<Longrightarrow> fst ` set (filter (is_missing fs old) new) = only_in fs new old"
  by (force simp: only_in_def dest: map_of_SomeD)

section \<open>Properties of the diff\<close>

definition diffable :: "HierarchicalTree \<Rightarrow> HierarchicalTree \<Rightarrow> bool" where
  "diffable old new \<longleftrightarrow> gomap_ok (PackageRoots old) \<and> gomap_ok (PackageRoots new) \<and>
     gomap_ok (EdgeTypeRoots old) \<and> gomap_ok (EdgeTypeRoots new) \<and>
     (\<forall>k\<in>set (map fst (EdgeTypeRoots new)). CHR '':'' \<in> set k)"

definition new_edge_types :: "string set \<Rightarrow> HierarchicalTree \<Rightarrow> HierarchicalTree \<Rightarrow> string set" where
  "new_edge_types pkgs old new = {k. key_group k \<in> pkgs \<and>
     (\<exists>r. map_of (EdgeTypeRoots new) k = Some r \<and> map_of (EdgeTypeRoots old) k \<noteq> Some r)}"

definition package_loops :: "HierarchicalTree \<Rightarrow> HierarchicalTree \<Rightarrow> DiffOptions option \<Rightarrow> HierarchicalDiff" where
  "package_loops old new opts =
     fst (old_packages_loop (filterSet_of opts) (maxChanges_of opts) (PackageRoots new) (PackageRoots old)
       (new_packages_loop (filterSet_of opts) (maxChanges_of opts) (PackageRoots old) (PackageRoots new)
          (empty_diff True, 0)))"

lemma package_loops_fields:
  "ChangedEdgeTypes (package_loops old new opts) = []"
  "RootChanged (package_loops old new opts)"
  by (simp_all add: package_loops_def old_loop_fields new_loop_fields empty_diff_def)

lemma package_loops_exact:
  assumes "\<not> Truncated (package_loops old new opts)"
  shows "package_loops old new opts =
    (empty_diff True)\<lparr>
      ChangedPackages := map fst (filter (is_changed (filterSet_of opts) (PackageRoots old)) (PackageRoots new)),
      AddedPackages := map fst (filter (is_missing (filterSet_of opts) (PackageRoots old)) (PackageRoots new)),
      RemovedPackages := map fst (filter (is_missing (filterSet_of opts) (PackageRoots new)) (PackageRoots old))\<rparr>"
proof -
  obtain d1 n1 where one: "new_packages_loop (filterSet_of opts) (maxChanges_of opts) (PackageRoots old)
      (PackageRoots new) (empty_diff True, 0) = (d1, n1)" by force
  obtain d2 n2 where two: "old_packages_loop (filterSet_of opts) (maxChanges_of opts) (PackageRoots new)
      (PackageRoots old) (d1, n1) = (d2, n2)" by force
  have d2: "package_loops old new opts = d2" by (simp add: package_loops_def one two)
  with assms have nt2: "\<not> Truncated d2" by simp
  have nt1: "\<not> Truncated d1"
    using old_loop_fields(3) [of "(d1, n1)"] nt2 two by (metis fst_conv)
  show ?thesis
    unfolding d2 old_loop_no_trunc [OF two nt2] new_loop_no_trunc [OF one nt1] by (simp add: empty_diff_def)
qed

lemma package_loops_uncapped: "maxChanges_of opts \<le> 0 \<Longrightarrow> \<not> Truncated (package_loops old new opts)"
  by (simp add: package_loops_def old_loop_trunc_iff new_loop_trunc_iff empty_diff_def)

lemma package_loops_capped:
  assumes "0 < maxChanges_of opts"
  shows "int (changes (package_loops old new opts)) \<le> maxChanges_of opts"
    and "Truncated (package_loops old new opts) \<Longrightarrow> int (changes (package_loops old new opts)) = maxChanges_of opts"
proof -
  let ?fs = "filterSet_of opts" and ?mx = "maxChanges_of opts"
  obtain d1 n1 where one: "new_packages_loop ?fs ?mx (PackageRoots old) (PackageRoots new) (empty_diff True, 0) = (d1, n1)"
    by force
  obtain d2 n2 where two: "old_packages_loop ?fs ?mx (PackageRoots new) (PackageRoots old) (d1, n1) = (d2, n2)" by force
  have d2: "package_loops old new opts = d2" by (simp add: package_loops_def one two)
  have c1: "changes d1 = n1" "int n1 \<le> ?mx" "Truncated d1 \<longrightarrow> int n1 = ?mx"
    using new_loop_count [of "empty_diff True" 0 ?mx ?fs "PackageRoots old" "PackageRoots new"] assms one
    by (auto simp: changes_def empty_diff_def)
  have c2: "changes d2 = n2" "int n2 \<le> ?mx" "Truncated d2 \<longrightarrow> Truncated d1 \<or> int n2 = ?mx"
    using old_loop_count [OF c1(1) assms c1(2), of ?fs "PackageRoots new" "PackageRoots old"] two by auto
  have "n1 \<le> n2" using old_loop_total [of n1 ?fs ?mx "PackageRoots new" "PackageRoots old" d1] two by simp
  show "int (changes (package_loops old new opts)) \<le> ?mx" using c2 d2 by simp
  show "Truncated (package_loops old new opts) \<Longrightarrow> int (changes (package_loops old new opts)) = ?mx"
    using c1 c2 d2 \<open>n1 \<le> n2\<close> by auto
qed

lemma Diff_unfold:
  assumes "diffable old new" "Root old \<noteq> Root new"
  shows "DiffHierarchicalTreesWithOptions old new opts =
    (let d = package_loops old new opts in
     Some (d\<lparr>ChangedPackages := sort_Strings (ChangedPackages d), AddedPackages := sort_Strings (AddedPackages d),
        RemovedPackages := sort_Strings (RemovedPackages d),
        ChangedEdgeTypes := sort_Strings (map fst (filter (\<lambda>(k, r).
          key_group k \<in> set (ChangedPackages d) \<union> set (AddedPackages d) \<and>
          map_of (EdgeTypeRoots old) k \<noteq> Some r) (EdgeTypeRoots new)))\<rparr>))"
  using assms edge_types_loop_closed [of "EdgeTypeRoots new"] package_loops_fields(1) [of old new opts]
  by (simp add: DiffHierarchicalTreesWithOptions_def diffable_def Let_def package_loops_def empty_diff_def)

definition same_diff_sets :: "DiffOptions option \<Rightarrow> HierarchicalTree \<Rightarrow> HierarchicalTree \<Rightarrow> HierarchicalDiff \<Rightarrow> bool" where
  "same_diff_sets opts old new d \<longleftrightarrow>
     set (ChangedPackages d) = changed_set (filterSet_of opts) (PackageRoots old) (PackageRoots new) \<and>
     set (AddedPackages d) = only_in (filterSet_of opts) (PackageRoots new) (PackageRoots old) \<and>
     set (RemovedPackages d) = only_in (filterSet_of opts) (PackageRoots old) (PackageRoots new) \<and>
     set (ChangedEdgeTypes d) = new_edge_types (set (ChangedPackages d) \<union> set (AddedPackages d)) old new"

definition diff_lists :: "HierarchicalDiff \<Rightarrow> string list list" where
  "diff_lists d = [ChangedPackages d, AddedPackages d, RemovedPackages d, ChangedEdgeTypes d]"

lemma distinct_keys_filter: "gomap_ok m \<Longrightarrow> distinct (map fst (filter P m))"
  by (simp add: distinct_map_filter)

lemma Diff_not_truncated:
  assumes "diffable old new" "Root old \<noteq> Root new" "\<not> Truncated (package_loops old new opts)"
  shows "\<exists>d. DiffHierarchicalTreesWithOptions old new opts = Some d \<and> RootChanged d \<and> \<not> Truncated d \<and>
    same_diff_sets opts old new d \<and> (\<forall>l\<in>set (diff_lists d). sorted l \<and> distinct l)"
proof -
  let ?d = "package_loops old new opts"
  have ok: "gomap_ok (PackageRoots old)" "gomap_ok (PackageRoots new)" "gomap_ok (EdgeTypeRoots new)"
    using assms(1) by (simp_all add: diffable_def)
  note pl = package_loops_exact [OF assms(3)]
  have f: "set (ChangedPackages ?d) = changed_set (filterSet_of opts) (PackageRoots old) (PackageRoots new)"
    "set (AddedPackages ?d) = only_in (filterSet_of opts) (PackageRoots new) (PackageRoots old)"
    "set (RemovedPackages ?d) = only_in (filterSet_of opts) (PackageRoots old) (PackageRoots new)"
    "distinct (ChangedPackages ?d)" "distinct (AddedPackages ?d)" "distinct (RemovedPackages ?d)"
    using set_is_changed [OF ok(2)] set_is_missing ok
    by (simp_all add: pl distinct_keys_filter del: map_of_eq_Some_iff)
  have e: "fst ` set (filter (\<lambda>(k, r). key_group k \<in> P \<and> map_of (EdgeTypeRoots old) k \<noteq> Some r) (EdgeTypeRoots new))
      = new_edge_types P old new" for P
    using ok(3) by (force simp: new_edge_types_def dest: map_of_SomeD)
  let ?ets = "map fst (filter (\<lambda>(k, r). key_group k \<in> set (ChangedPackages ?d) \<union> set (AddedPackages ?d) \<and>
          map_of (EdgeTypeRoots old) k \<noteq> Some r) (EdgeTypeRoots new))"
  have ets: "set ?ets = new_edge_types (set (ChangedPackages ?d) \<union> set (AddedPackages ?d)) old new" "distinct ?ets"
    by (simp only: set_map e) (rule distinct_keys_filter [OF ok(3)])
  show ?thesis
    unfolding Diff_unfold [OF assms(1,2)] Let_def
    using assms(3) package_loops_fields(2) [of old new opts] f ets
    by (simp add: same_diff_sets_def diff_lists_def)
qed

text \<open>
  C5. Exactness of the diff: on trees with different roots and without a cap, the changed, added
  and removed packages and the changed edge types are exactly those that pass the filter and
  whose roots differ, each list sorted and free of duplicates; edge types that only the old tree
  has are not reported.
\<close>

theorem DiffHierarchicalTrees_exact:
  assumes "diffable old new" "Root old \<noteq> Root new" "maxChanges_of opts \<le> 0"
  shows "\<exists>d. DiffHierarchicalTreesWithOptions old new opts = Some d \<and> RootChanged d \<and> \<not> Truncated d \<and>
    same_diff_sets opts old new d \<and> (\<forall>l\<in>set (diff_lists d). sorted l \<and> distinct l)"
  by (rule Diff_not_truncated [OF assms(1,2) package_loops_uncapped [OF assms(3)]])

definition sample_tree :: "hash \<Rightarrow> (string, hash) gomap \<Rightarrow> (string, hash) gomap \<Rightarrow> HierarchicalTree" where
  "sample_tree r pkgs ets = \<lparr>Root = r, PackageRoots = pkgs, EdgeTypeRoots = ets, PackageEdgeCounts = [],
     TotalEdges = 0, HT_ml = None\<rparr>"

definition old_sample :: HierarchicalTree where
  "old_sample = sample_tree 1 [(''a'', 1), (''b'', 2)] [(''a:calls'', 3), (''a:imports'', 4), (''b:calls'', 2)]"

definition new_sample :: HierarchicalTree where
  "new_sample = sample_tree 2 [(''b'', 2), (''a'', 4)] [(''b:calls'', 2), (''a:imports'', 4)]"

lemma samples_diffable: "diffable old_sample new_sample" "Root old_sample \<noteq> Root new_sample"
  by (simp_all add: diffable_def old_sample_def new_sample_def sample_tree_def)

theorem DiffHierarchicalTrees_exact_witness:
  "\<exists>d. DiffHierarchicalTreesWithOptions old_sample new_sample None = Some d \<and> \<not> Truncated d \<and>
       same_diff_sets None old_sample new_sample d"
  using DiffHierarchicalTrees_exact [OF samples_diffable, of None] by (auto simp: maxChanges_of_def)

text \<open>
  The cap: with \<open>MaxChanges\<close> positive the diff reports at most that many packages; when it is
  marked truncated it reports exactly that many, and when it is not it has all the differences.
\<close>

lemma DiffHierarchicalTrees_capped:
  assumes "diffable old new" "Root old \<noteq> Root new" "0 < maxChanges_of opts"
  shows "\<exists>d. DiffHierarchicalTreesWithOptions old new opts = Some d \<and>
    int (changes d) \<le> maxChanges_of opts \<and>
    (if Truncated d then int (changes d) = maxChanges_of opts else same_diff_sets opts old new d)"
proof (cases "Truncated (package_loops old new opts)")
  case True
  with package_loops_capped [OF assms(3), of old new] show ?thesis
    by (simp add: Diff_unfold [OF assms(1,2)] Let_def changes_def)
next
  case False
  from Diff_not_truncated [OF assms(1,2) False] obtain d where
    d: "DiffHierarchicalTreesWithOptions old new opts = Some d" "\<not> Truncated d" "same_diff_sets opts old new d"
    by blast
  then have "changes d = changes (package_loops old new opts)"
    unfolding Diff_unfold [OF assms(1,2)] by (auto simp: Let_def changes_def)
  with d package_loops_capped(1) [OF assms(3), of old new] show ?thesis by auto
qed

definition cap_one :: "DiffOptions option" where
  "cap_one = Some \<lparr>PackageFilter = [], MaxChanges = 1\<rparr>"

lemma DiffHierarchicalTrees_capped_witness:
  "\<exists>d. DiffHierarchicalTreesWithOptions old_sample new_sample cap_one = Some d \<and> int (changes d) \<le> 1"
  using DiffHierarchicalTrees_capped [OF samples_diffable, of cap_one]
  by (auto simp: maxChanges_of_def cap_one_def)

text \<open>
  \<open>Truncated\<close> does not mean that something was cut: a diff with one changed package, capped
  at one, is marked truncated although it equals the diff without a cap.
\<close>

lemma DiffHierarchicalTrees_truncated_without_loss:
  "\<exists>d d'. DiffHierarchicalTreesWithOptions old_sample new_sample cap_one = Some d \<and>
     DiffHierarchicalTrees old_sample new_sample = Some d' \<and>
     Truncated d \<and> \<not> Truncated d' \<and> d\<lparr>Truncated := False\<rparr> = d'"
  by (simp add: DiffHierarchicalTrees_def DiffHierarchicalTreesWithOptions_def old_sample_def new_sample_def
      sample_tree_def cap_one_def Let_def empty_diff_def filterSet_of_def maxChanges_of_def filtered_out_def
      reachedCap_def sort_Strings_def)

text \<open>
  Determinism: without a cap the diff does not depend on the order in which Go ranges over
  the four maps, only on their contents.
\<close>

lemma DiffHierarchicalTrees_range_order:
  assumes "diffable old new" "diffable old' new'" "Root old \<noteq> Root new" "maxChanges_of opts \<le> 0"
    "Root old' = Root old" "Root new' = Root new"
    "map_of (PackageRoots old') = map_of (PackageRoots old)" "map_of (PackageRoots new') = map_of (PackageRoots new)"
    "map_of (EdgeTypeRoots old') = map_of (EdgeTypeRoots old)" "map_of (EdgeTypeRoots new') = map_of (EdgeTypeRoots new)"
  shows "DiffHierarchicalTreesWithOptions old' new' opts = DiffHierarchicalTreesWithOptions old new opts"
proof -
  have "Root old' \<noteq> Root new'" using assms by simp
  from Diff_not_truncated [OF assms(2) this package_loops_uncapped [OF assms(4)]]
  obtain d' where d': "DiffHierarchicalTreesWithOptions old' new' opts = Some d'" "RootChanged d'" "\<not> Truncated d'"
    "same_diff_sets opts old' new' d'" "\<forall>l\<in>set (diff_lists d'). sorted l \<and> distinct l" by blast
  from Diff_not_truncated [OF assms(1,3) package_loops_uncapped [OF assms(4)]]
  obtain d where d: "DiffHierarchicalTreesWithOptions old new opts = Some d" "RootChanged d" "\<not> Truncated d"
    "same_diff_sets opts old new d" "\<forall>l\<in>set (diff_lists d). sorted l \<and> distinct l" by blast
  have "set (ChangedPackages d') = set (ChangedPackages d)" "set (AddedPackages d') = set (AddedPackages d)"
    "set (RemovedPackages d') = set (RemovedPackages d)" "set (ChangedEdgeTypes d') = set (ChangedEdgeTypes d)"
    using d(4) d'(4) assms(7-10)
    by (simp_all add: same_diff_sets_def changed_set_def only_in_def new_edge_types_def)
  moreover have "a = b" if "a \<in> set (diff_lists d')" "b \<in> set (diff_lists d)" "set a = set b" for a b
    using d(5) d'(5) that by (intro sorted_distinct_set_unique) auto
  ultimately have "ChangedPackages d' = ChangedPackages d" "AddedPackages d' = AddedPackages d"
    "RemovedPackages d' = RemovedPackages d" "ChangedEdgeTypes d' = ChangedEdgeTypes d"
    unfolding diff_lists_def by (metis list.set_intros)+
  then have "d' = d" using d(2,3) d'(2,3) by (cases d; cases d') simp
  with d(1) d'(1) show ?thesis by simp
qed

lemma DiffHierarchicalTrees_range_order_witness:
  "DiffHierarchicalTreesWithOptions old_sample
     (sample_tree 2 [(''a'', 4), (''b'', 2)] [(''a:imports'', 4), (''b:calls'', 2)]) None
   = DiffHierarchicalTreesWithOptions old_sample new_sample None"
  by (rule DiffHierarchicalTrees_range_order [OF samples_diffable(1) _ samples_diffable(2)])
    (auto simp: maxChanges_of_def diffable_def old_sample_def new_sample_def sample_tree_def)

section \<open>Properties of the classification\<close>

lemma count_key_total:
  "BehavioralCount (fold count_key ks c) + StructuralCount (fold count_key ks c) +
   RuntimeDriftCount (fold count_key ks c) + MetadataCount (fold count_key ks c) =
   length ks + BehavioralCount c + StructuralCount c + RuntimeDriftCount c + MetadataCount c"
  by (induction ks arbitrary: c) (auto simp: count_key_def Let_def)

text \<open>
  Classification counts everything and reports the highest severity: the four counts add up
  to the reported edge types and the added and removed packages, and the class is the first of
  behavioral, runtime drift, structural and metadata whose count is positive.
\<close>

lemma ClassifyChanges_counts:
  assumes "RootChanged d"
  shows "BehavioralCount (ClassifyChanges (Some d)) + StructuralCount (ClassifyChanges (Some d)) +
      RuntimeDriftCount (ClassifyChanges (Some d)) + MetadataCount (ClassifyChanges (Some d))
      = length (ChangedEdgeTypes d) + length (AddedPackages d) + length (RemovedPackages d) \<and>
    Class (ClassifyChanges (Some d)) = severity (ClassifyChanges (Some d)) \<and>
    (Class (ClassifyChanges (Some d)) = NoChange \<longleftrightarrow>
       ChangedEdgeTypes d = [] \<and> AddedPackages d = [] \<and> RemovedPackages d = [])"
proof -
  let ?c = "fold count_key (ChangedEdgeTypes d) (zero_class\<lparr>CC_ChangedPackages := ChangedPackages d,
      CC_ChangedEdgeTypes := ChangedEdgeTypes d\<rparr>)"
  have sum: "BehavioralCount ?c + StructuralCount ?c + RuntimeDriftCount ?c + MetadataCount ?c = length (ChangedEdgeTypes d)"
    using count_key_total by (simp add: zero_class_def)
  have "ClassifyChanges (Some d) = (let c = ?c\<lparr>StructuralCount := StructuralCount ?c +
      (length (AddedPackages d) + length (RemovedPackages d))\<rparr> in c\<lparr>Class := severity c\<rparr>)"
    using assms by (simp add: ClassifyChanges_def Let_def)
  then show ?thesis using sum by (auto simp: Let_def severity_def)
qed

lemma ClassifyChanges_counts_witness:
  "Class (ClassifyChanges (Some ((empty_diff True)\<lparr>ChangedEdgeTypes := [''a:calls'', ''a:imports'']\<rparr>))) = Behavioral \<and>
   Class (ClassifyChanges (Some ((empty_diff True)\<lparr>ChangedEdgeTypes := [''a:calls'', ''a:imports'']\<rparr>))) =
   severity (ClassifyChanges (Some ((empty_diff True)\<lparr>ChangedEdgeTypes := [''a:calls'', ''a:imports'']\<rparr>)))"
  using ClassifyChanges_counts [of "(empty_diff True)\<lparr>ChangedEdgeTypes := [''a:calls'', ''a:imports'']\<rparr>"]
  by (simp add: empty_diff_def ClassifyChanges_def Let_def zero_class_def count_key_def key_edge_type_def
      lastColon_def severity_def behavioralEdgeTypes_def runtimeEdgeTypes_def structuralEdgeTypes_def)

text \<open>
  Removals inside a package are missed: when the packages of both trees are the same and every
  edge-type root of the new tree was in the old one, the class is \<open>NoChange\<close> whatever edge types,
  calls included, the old tree has besides, although the roots differ.
\<close>

lemma ClassifyChanges_misses_removed_edge_types:
  assumes "diffable old new" "Root old \<noteq> Root new"
    "dom (map_of (PackageRoots old)) = dom (map_of (PackageRoots new))"
    "map_of (EdgeTypeRoots new) \<subseteq>\<^sub>m map_of (EdgeTypeRoots old)"
  shows "\<exists>d. DiffHierarchicalTrees old new = Some d \<and> Class (ClassifyChanges (Some d)) = NoChange"
proof -
  have "\<not> Truncated (package_loops old new None)"
    by (rule package_loops_uncapped) (simp add: maxChanges_of_def)
  from Diff_not_truncated [OF assms(1,2) this] obtain d where
    d: "DiffHierarchicalTrees old new = Some d" "RootChanged d" "same_diff_sets None old new d"
    unfolding DiffHierarchicalTrees_def by blast
  have "map_of (EdgeTypeRoots old) k = Some r" if "map_of (EdgeTypeRoots new) k = Some r" for k r
    using assms(4) that by (metis domI map_le_def)
  then have "set (ChangedEdgeTypes d) = {}"
    using d(3) by (auto simp: same_diff_sets_def new_edge_types_def simp del: map_of_eq_Some_iff)
  moreover have "only_in None (PackageRoots new) (PackageRoots old) = {}"
    "only_in None (PackageRoots old) (PackageRoots new) = {}"
    using assms(3) by (auto simp: only_in_def dom_def)
  then have "set (AddedPackages d) = {}" "set (RemovedPackages d) = {}"
    using d(3) by (simp_all add: same_diff_sets_def filterSet_of_def)
  ultimately have "ChangedEdgeTypes d = []" "AddedPackages d = []" "RemovedPackages d = []" by simp_all
  then have "Class (ClassifyChanges (Some d)) = NoChange"
    using d(2) by (simp add: ClassifyChanges_def zero_class_def severity_def Let_def)
  with d(1) show ?thesis by blast
qed

lemma ClassifyChanges_misses_removed_edge_types_witness:
  "map_of (EdgeTypeRoots old_sample) ''a:calls'' = Some 3 \<and> map_of (EdgeTypeRoots new_sample) ''a:calls'' = None \<and>
   (\<exists>d. DiffHierarchicalTrees old_sample new_sample = Some d \<and> Class (ClassifyChanges (Some d)) = NoChange)"
  using ClassifyChanges_misses_removed_edge_types [OF samples_diffable]
  by (auto simp: old_sample_def new_sample_def sample_tree_def map_le_def)

end
