(* ===== verification/JsonText.thy ===== *)
theory JsonText
  imports SqlTable
begin

text \<open>
  The part of Go's encoding/json that the snapshot manager uses to persist a
  \<open>map[string]string\<close>: \<open>Marshal\<close> writes the keys in sorted order and escapes what is not safe in
  HTML; \<open>Unmarshal\<close> accepts an object whose values are strings or null (any other document is a
  syntax or type error, which the program treats alike).
\<close>

section \<open>UTF-8\<close>

text \<open>The size of the well-formed sequence a byte string starts with, \<open>0\<close> when there is none.\<close>

definition tail_ok :: "nat \<Rightarrow> nat \<Rightarrow> nat \<Rightarrow> nat list \<Rightarrow> bool" where
  "tail_ok k lo hi xs \<longleftrightarrow> k \<le> length xs \<and> lo \<le> hd xs \<and> hd xs < hi \<and>
     list_all (\<lambda>y. 128 \<le> y \<and> y < 192) (take (k - 1) (tl xs))"

fun utf8_size :: "nat list \<Rightarrow> nat" where
  "utf8_size [] = 0"
| "utf8_size (x # xs) =
     (if x < 128 then 1
      else if 194 \<le> x \<and> x < 224 \<and> tail_ok 1 128 192 xs then 2
      else if 224 \<le> x \<and> x < 240 \<and>
        tail_ok 2 (if x = 224 then 160 else 128) (if x = 237 then 160 else 192) xs then 3
      else if 240 \<le> x \<and> x < 245 \<and>
        tail_ok 3 (if x = 240 then 144 else 128) (if x = 244 then 144 else 192) xs then 4
      else 0)"

text \<open>\<open>utf8.AppendRune\<close> for a code point below \<open>0x110000\<close> that is no surrogate.\<close>

definition utf8_encode :: "nat \<Rightarrow> string" where
  "utf8_encode r =
     map char_of
       (if r < 128 then [r]
        else if r < 2048 then [192 + r div 64, 128 + r mod 64]
        else if r < 65536 then [224 + r div 4096, 128 + r div 64 mod 64, 128 + r mod 64]
        else [240 + r div 262144, 128 + r div 4096 mod 64, 128 + r div 64 mod 64, 128 + r mod 64])"

abbreviation rune_error :: nat where "rune_error \<equiv> 65533"

lemma utf8_size_le: "utf8_size xs \<le> length xs"
  by (cases xs) (auto simp: tail_ok_def)

lemma utf8_size_local:
  "utf8_size xs \<noteq> 0 \<Longrightarrow> utf8_size (take (utf8_size xs) xs @ ys) = utf8_size xs"
proof (cases xs)
  case (Cons x zs)
  have "tail_ok (Suc k) lo hi (take (Suc k) zs @ ys) = tail_ok (Suc k) lo hi zs" if le: "Suc k \<le> length zs" for k lo hi
  proof -
    obtain z zs' where "zs = z # zs'" using le by (cases zs) auto
    with le show ?thesis by (simp add: tail_ok_def take_append)
  qed
  note local = this [of 0] this [of 1] this [of 2]
  assume "utf8_size xs \<noteq> 0"
  then consider "x < 128" | "194 \<le> x \<and> x < 224 \<and> tail_ok 1 128 192 zs"
    | "224 \<le> x \<and> x < 240 \<and> tail_ok 2 (if x = 224 then 160 else 128) (if x = 237 then 160 else 192) zs"
    | "240 \<le> x \<and> x < 245 \<and> tail_ok 3 (if x = 240 then 144 else 128) (if x = 244 then 144 else 192) zs"
    unfolding Cons by (auto split: if_splits)
  then show ?thesis
  proof cases
    case 2
    then have "1 \<le> length zs" by (simp add: tail_ok_def)
    with 2 local(1) show ?thesis unfolding Cons by (simp add: numeral_2_eq_2)
  next
    case 3
    then have "2 \<le> length zs" by (simp add: tail_ok_def)
    with 3 local(2) show ?thesis unfolding Cons by (simp add: numeral_2_eq_2 numeral_3_eq_3)
  next
    case 4
    then have "3 \<le> length zs" by (simp add: tail_ok_def)
    with 4 local(3) show ?thesis unfolding Cons by (simp add: numeral_2_eq_2 numeral_3_eq_3 eval_nat_numeral)
  qed (simp add: Cons)
qed simp

lemma utf8_size_ascii [simp]: "x < 128 \<Longrightarrow> utf8_size (x # xs) = 1"
  by simp

declare utf8_size.simps [simp del]

section \<open>Strings\<close>

abbreviation quote_char :: char where "quote_char \<equiv> CHR 0x22"
abbreviation backslash :: char where "backslash \<equiv> CHR 0x5C"

text \<open>U+2028 and U+2029 in UTF-8.\<close>

definition line_sep :: string where "line_sep = map char_of [226::nat, 128, 168]"
definition para_sep :: string where "para_sep = map char_of [226::nat, 128, 169]"

definition escape_u :: "nat \<Rightarrow> string" where
  "escape_u r = [backslash, CHR ''u'', hex_char (r div 4096), hex_char (r div 256 mod 16),
     hex_char (r div 16 mod 16), hex_char (r mod 16)]"

definition escape_ascii :: "char \<Rightarrow> string" where
  "escape_ascii c =
     (let n = (of_char c :: nat) in
      if c = backslash \<or> c = quote_char then [backslash, c]
      else if n = 8 then [backslash, CHR ''b'']
      else if n = 12 then [backslash, CHR ''f'']
      else if n = 10 then [backslash, CHR ''n'']
      else if n = 13 then [backslash, CHR ''r'']
      else if n = 9 then [backslash, CHR ''t'']
      else if n < 32 \<or> c \<in> set ''<>&'' then escape_u n
      else [c])"

function escape :: "string \<Rightarrow> string" where
  "escape [] = []"
| "escape (c # cs) =
     (let k = utf8_size (byte_vals (c # cs)) in
      if (of_char c :: nat) < 128 then escape_ascii c @ escape cs
      else if k = 0 then escape_u rune_error @ escape cs
      else if prefix line_sep (c # cs) then escape_u 8232 @ escape (drop (k - 1) cs)
      else if prefix para_sep (c # cs) then escape_u 8233 @ escape (drop (k - 1) cs)
      else take k (c # cs) @ escape (drop (k - 1) cs))"
  by pat_completeness auto
termination
  by (relation "measure length") auto

declare escape.simps [simp del]

definition json_string :: "string \<Rightarrow> string" where
  "json_string s = [quote_char] @ escape s @ [quote_char]"

text \<open>The four hexadecimal digits of an escape.\<close>

fun getu4 :: "string \<Rightarrow> (nat \<times> string) option" where
  "getu4 (a # b # c # d # r) =
     (case (from_hex_char a, from_hex_char b, from_hex_char c, from_hex_char d) of
        (Some w, Some x, Some y, Some z) \<Rightarrow> Some (w * 4096 + x * 256 + y * 16 + z, r)
      | _ \<Rightarrow> None)"
| "getu4 _ = None"

text \<open>
  What follows \<open>\u\<close>: a code point, a surrogate pair in two escapes, or a lone surrogate, read as
  U+FFFD without looking further.
\<close>

definition unquote_u :: "string \<Rightarrow> (string \<times> string) option" where
  "unquote_u s =
     (case getu4 s of
        None \<Rightarrow> None
      | Some (rr, r) \<Rightarrow>
          if rr < 55296 \<or> 57344 \<le> rr then Some (utf8_encode rr, r)
          else (case r of
                  b # u # r1 \<Rightarrow>
                    (case (if b = backslash \<and> u = CHR ''u'' then getu4 r1 else None) of
                       Some (rr1, r2) \<Rightarrow>
                         if rr < 56320 \<and> 56320 \<le> rr1 \<and> rr1 < 57344
                         then Some (utf8_encode ((rr - 55296) * 1024 + (rr1 - 56320) + 65536), r2)
                         else Some (utf8_encode rune_error, r)
                     | None \<Rightarrow> Some (utf8_encode rune_error, r))
                | _ \<Rightarrow> Some (utf8_encode rune_error, r)))"

definition simple_escape :: "char \<Rightarrow> char option" where
  "simple_escape e = map_of [(quote_char, quote_char), (backslash, backslash), (CHR ''/'', CHR ''/''),
     (CHR ''b'', CHR 0x08), (CHR ''f'', CHR 0x0C), (CHR ''n'', CHR 0x0A), (CHR ''r'', CHR 0x0D),
     (CHR ''t'', CHR 0x09)] e"

definition prepend :: "string \<Rightarrow> (string \<times> string) option \<Rightarrow> (string \<times> string) option" where
  "prepend s = map_option (\<lambda>(v, r). (s @ v, r))"

lemma getu4_shorter: "getu4 s = Some (n, r) \<Longrightarrow> length r < length s"
  by (induction s rule: getu4.induct) (auto split: option.splits)

lemma unquote_u_shorter: "unquote_u s = Some (v, r) \<Longrightarrow> length r < length s"
  unfolding unquote_u_def
  by (auto split: option.splits if_splits list.splits dest!: getu4_shorter)

text \<open>The characters of a string up to its closing quote, and what follows it.\<close>

function unquote :: "string \<Rightarrow> (string \<times> string) option" where
  "unquote [] = None"
| "unquote (c # cs) =
     (let n = (of_char c :: nat); k = utf8_size (byte_vals (c # cs)) in
      if c = quote_char then Some ([], cs)
      else if c = backslash then
        (case cs of
           [] \<Rightarrow> None
         | e # r \<Rightarrow>
           (if e = CHR ''u'' then
              (case unquote_u r of None \<Rightarrow> None | Some (v, r1) \<Rightarrow> prepend v (unquote r1))
            else
              (case simple_escape e of None \<Rightarrow> None | Some x \<Rightarrow> prepend [x] (unquote r))))
      else if n < 32 then None
      else if n < 128 then prepend [c] (unquote cs)
      else if k = 0 then prepend (utf8_encode rune_error) (unquote cs)
      else prepend (take k (c # cs)) (unquote (drop (k - 1) cs)))"
  by pat_completeness auto
termination
  by (relation "measure length") (auto dest: unquote_u_shorter)

declare unquote.simps [simp del]

lemma prepend_Some: "prepend s x = Some (v, r) \<longleftrightarrow> (\<exists>v'. x = Some (v', r) \<and> v = s @ v')"
  by (cases x) (auto simp: prepend_def)

lemma unquote_step:
  assumes "unquote s = Some (v, r)"
  shows "length r < length s \<or> (\<exists>t w. length t < length s \<and> unquote t = Some (w, r))"
proof (cases s)
  case Nil
  with assms show ?thesis by (simp add: unquote.simps)
next
  case (Cons c cs)
  have later: ?thesis if "prepend w (unquote t) = Some (v, r)" "length t \<le> length cs" for w t
    using that Cons by (auto simp: prepend_Some)
  have uni: ?thesis if "unquote_u t = Some (w, t')" "prepend w (unquote t') = Some (v, r)" "length t \<le> length cs" for w t t'
    using later [OF that(2)] unquote_u_shorter [OF that(1)] that(3) by simp
  show ?thesis
    using assms later uni unfolding Cons
    by (subst (asm) unquote.simps(2))
      (auto simp: Let_def split: if_splits list.splits option.splits)
qed

lemma unquote_shorter: "unquote s = Some (v, r) \<Longrightarrow> length r < length s"
proof (induction "length s" arbitrary: s v rule: less_induct)
  case less
  from unquote_step [OF less.prems] less.hyps show ?case by fastforce
qed

section \<open>Reading back what was written\<close>

function valid_utf8 :: "string \<Rightarrow> bool" where
  "valid_utf8 [] = True"
| "valid_utf8 (c # cs) =
     (let k = utf8_size (byte_vals (c # cs)) in k \<noteq> 0 \<and> valid_utf8 (drop (k - 1) cs))"
  by pat_completeness auto
termination
  by (relation "measure length") auto

declare valid_utf8.simps [simp del]

lemma getu4_escape:
  assumes "n < 65536"
  shows "getu4 (hex_char (n div 4096) # hex_char (n div 256 mod 16) # hex_char (n div 16 mod 16) # hex_char (n mod 16) # t)
    = Some (n, t)"
proof -
  have "n div 4096 < 16" using assms by (simp add: less_mult_imp_div_less)
  moreover have "n div 4096 * 4096 + n div 256 mod 16 * 256 + n div 16 mod 16 * 16 + n mod 16 = n"
  proof -
    have "n div 256 div 16 = n div 4096" "n div 16 div 16 = n div 256" by (simp_all add: div_mult2_eq [symmetric])
    moreover obtain a b c p q r where abc: "a = n div 16" "b = n div 256" "c = n div 4096" "p = n mod 16" "q = n div 16 mod 16" "r = n div 256 mod 16"
      by blast
    ultimately have "a * 16 + p = n" "b * 16 + q = a" "c * 16 + r = b"
      using div_mult_mod_eq [of n 16] div_mult_mod_eq [of "n div 16" 16] div_mult_mod_eq [of "n div 256" 16] by simp_all
    moreover have "q = a mod 16" "r = b mod 16" using abc by simp_all
    ultimately show ?thesis unfolding abc(1-4) [symmetric] by simp
  qed
  ultimately show ?thesis by simp
qed

lemma unquote_escape_u:
  assumes "n < 65536" "n < 55296 \<or> 57344 \<le> n"
  shows "unquote (escape_u n @ t) = prepend (utf8_encode n) (unquote t)"
proof -
  have "unquote_u (drop 2 (escape_u n @ t)) = Some (utf8_encode n, t)"
    using assms unfolding unquote_u_def escape_u_def by (simp add: getu4_escape del: getu4.simps)
  then show ?thesis
    by (subst escape_u_def, simp, subst unquote.simps(2)) (simp add: escape_u_def)
qed

lemma unquote_escape_ascii:
  assumes "(of_char c :: nat) < 128"
  shows "unquote (escape_ascii c @ t) = prepend [c] (unquote t)"
proof -
  let ?n = "of_char c :: nat"
  have char: "c = d" if "?n = of_char d" for d using that by simp
  have esc: "unquote (backslash # e # t) = prepend [x] (unquote t)" if "simple_escape e = Some x" "e \<noteq> CHR ''u''" for e x
    using that by (subst unquote.simps(2)) simp
  consider "c = backslash \<or> c = quote_char" | "?n = 8" | "?n = 12" | "?n = 10" | "?n = 13" | "?n = 9"
    | "c \<noteq> backslash" "c \<noteq> quote_char" "?n \<notin> {8, 12, 10, 13, 9}" "?n < 32 \<or> c \<in> set ''<>&''"
    | "c \<noteq> backslash" "c \<noteq> quote_char" "32 \<le> ?n" "c \<notin> set ''<>&''"
    by fastforce
  then show ?thesis
  proof cases
    case 1
    then show ?thesis using esc [of c c] by (auto simp: escape_ascii_def simple_escape_def)
  next
    case 7
    then have "escape_ascii c = escape_u ?n" by (auto simp: escape_ascii_def)
    moreover have "utf8_encode ?n = [c]" using assms by (simp add: utf8_encode_def)
    ultimately show ?thesis using unquote_escape_u [of ?n t] assms by simp
  next
    case 8
    then have "escape_ascii c = [c]" by (auto simp: escape_ascii_def Let_def)
    then show ?thesis using 8 assms by (subst unquote.simps(2) | simp)+
  next
    case 2
    then have "c = CHR 0x08" by (intro char) simp
    then show ?thesis using esc [of "CHR ''b''"] by (simp add: escape_ascii_def simple_escape_def)
  next
    case 3
    then have "c = CHR 0x0C" by (intro char) simp
    then show ?thesis using esc [of "CHR ''f''"] by (simp add: escape_ascii_def simple_escape_def)
  next
    case 4
    then have "c = CHR 0x0A" by (intro char) simp
    then show ?thesis using esc [of "CHR ''n''"] by (simp add: escape_ascii_def simple_escape_def)
  next
    case 5
    then have "c = CHR 0x0D" by (intro char) simp
    then show ?thesis using esc [of "CHR ''r''"] by (simp add: escape_ascii_def simple_escape_def)
  next
    case 6
    then have "c = CHR 0x09" by (intro char) simp
    then show ?thesis using esc [of "CHR ''t''"] by (simp add: escape_ascii_def simple_escape_def)
  qed
qed

lemma unquote_seq:
  assumes "utf8_size (byte_vals (c # cs)) = k" "k \<noteq> 0" "128 \<le> (of_char c :: nat)"
  shows "unquote (take k (c # cs) @ t) = prepend (take k (c # cs)) (unquote t)"
proof -
  obtain j where k: "k = Suc j" using assms(2) by (cases k) auto
  have len: "j \<le> length cs"
    using utf8_size_le [of "byte_vals (c # cs)"] assms(1) k by simp
  have "utf8_size (byte_vals (take k (c # cs) @ t)) = k"
    using utf8_size_local [of "byte_vals (c # cs)" "byte_vals t"] assms(1,2) 
    by (metis map_append take_map)
  then have size: "utf8_size (byte_vals (c # take j cs @ t)) = Suc j" using k by simp
  have "c \<noteq> quote_char" "c \<noteq> backslash" using assms(3) by auto
  then show ?thesis
    unfolding k using assms(3) len size
    by (simp, subst unquote.simps(2)) (simp add: Let_def)
qed

lemma sep_size: "x < 192 \<Longrightarrow> 128 \<le> x \<Longrightarrow> utf8_size (226 # 128 # x # xs) = 3"
  by (simp add: utf8_size.simps tail_ok_def)

lemma unquote_escape:
  "valid_utf8 s \<Longrightarrow> unquote (escape s @ [quote_char] @ t) = Some (s, t)"
proof (induction s rule: escape.induct)
  case 1
  then show ?case by (simp add: escape.simps unquote.simps)
next
  case (2 c cs)
  let ?k = "utf8_size (byte_vals (c # cs))"
  have k: "?k \<noteq> 0" "valid_utf8 (drop (?k - 1) cs)"
    using "2.prems" by (simp_all add: valid_utf8.simps Let_def)
  have split: "take ?k (c # cs) @ drop (?k - 1) cs = c # cs"
    using k(1) by (cases ?k) (simp_all)
  show ?case
  proof (cases "(of_char c :: nat) < 128")
    case True
    then have "?k = 1" by simp
    with True k "2.IH"(1) [OF refl True] show ?thesis
      by (simp add: escape.simps Let_def unquote_escape_ascii prepend_def)
  next
    case False
    have sep: "take ?k (c # cs) = w" if "prefix w (c # cs)" "w \<in> {line_sep, para_sep}" for w
      using that by (auto simp: prefix_def line_sep_def para_sep_def sep_size)
    let ?rest = "unquote (escape (drop (?k - 1) cs) @ [quote_char] @ t)"
    have combine: ?thesis
      if "unquote (escape (c # cs) @ [quote_char] @ t) = prepend w ?rest" "w = take ?k (c # cs)"
        "?rest = Some (drop (?k - 1) cs, t)" for w
      using that(1) unfolding that(3) that(2) prepend_def by (simp only: option.map prod.case split)
    have enc: "utf8_encode 8232 = line_sep" "utf8_encode 8233 = para_sep"
      by (simp_all add: utf8_encode_def line_sep_def para_sep_def)
    consider "prefix line_sep (c # cs)" | "\<not> prefix line_sep (c # cs)" "prefix para_sep (c # cs)"
      | "\<not> prefix line_sep (c # cs)" "\<not> prefix para_sep (c # cs)" by blast
    then show ?thesis
    proof cases
      case 1
      then have "escape (c # cs) = escape_u 8232 @ escape (drop (?k - 1) cs)"
        using k(1) False by (subst escape.simps) (simp add: Let_def)
      then show ?thesis
        using "2.IH"(3) [OF refl False k(1) 1 k(2)] sep [OF 1]
        by (intro combine [of line_sep]) (simp_all add: unquote_escape_u enc)
    next
      case 2
      then have "escape (c # cs) = escape_u 8233 @ escape (drop (?k - 1) cs)"
        using k(1) False by (subst escape.simps) (simp add: Let_def)
      then show ?thesis
        using "2.IH"(4) [OF refl False k(1) 2 k(2)] sep [OF 2(2)]
        by (intro combine [of para_sep]) (simp_all add: unquote_escape_u enc)
    next
      case 3
      then have "escape (c # cs) = take ?k (c # cs) @ escape (drop (?k - 1) cs)"
        using k(1) False by (subst escape.simps) (simp add: Let_def)
      then show ?thesis
        using "2.IH"(5) [OF refl False k(1) 3 k(2)] unquote_seq [of c cs ?k] k(1) False
        by (intro combine [of "take ?k (c # cs)"]) simp_all
    qed
  qed
qed

section \<open>Objects\<close>

definition json_member :: "string \<times> string \<Rightarrow> string" where
  "json_member p = json_string (fst p) @ '':'' @ json_string (snd p)"

fun json_members :: "(string \<times> string) list \<Rightarrow> string" where
  "json_members [] = ''''"
| "json_members [p] = json_member p"
| "json_members (p # ps) = json_member p @ '','' @ json_members ps"

definition json_Marshal :: "(string, string) gomap \<Rightarrow> string" where
  "json_Marshal m = ''{'' @ json_members (sort_key fst m) @ ''}''"

definition is_ws :: "char \<Rightarrow> bool" where
  "is_ws c \<longleftrightarrow> (of_char c :: nat) \<in> {32, 9, 13, 10}"

definition skip_ws :: "string \<Rightarrow> string" where
  "skip_ws s = dropWhile is_ws s"

definition read_string :: "string \<Rightarrow> (string \<times> string) option" where
  "read_string s = (case s of c # cs \<Rightarrow> if c = quote_char then unquote cs else None | [] \<Rightarrow> None)"

text \<open>A null leaves the zero value of the element, the empty string.\<close>

definition read_value :: "string \<Rightarrow> (string \<times> string) option" where
  "read_value s = (if prefix ''null'' s then Some ('''', drop 4 s) else read_string s)"

definition expect :: "char \<Rightarrow> string \<Rightarrow> string option" where
  "expect c s = (case skip_ws s of x # r \<Rightarrow> if x = c then Some r else None | [] \<Rightarrow> None)"

definition read_member :: "string \<Rightarrow> ((string \<times> string) \<times> string) option" where
  "read_member s =
     Option.bind (read_string (skip_ws s)) (\<lambda>(k, r).
     Option.bind (expect (CHR '':'') r) (\<lambda>r1.
     map_option (\<lambda>(v, r2). ((k, v), r2)) (read_value (skip_ws r1))))"

lemma skip_ws_le: "length (skip_ws s) \<le> length s"
  by (simp add: skip_ws_def length_dropWhile_le)

lemma expect_shorter: "expect c s = Some r \<Longrightarrow> length r < length s"
  using skip_ws_le [of s] by (auto simp: expect_def split: list.splits if_splits)

lemma read_string_shorter: "read_string s = Some (v, r) \<Longrightarrow> length r < length s"
  by (auto simp: read_string_def split: list.splits if_splits dest!: unquote_shorter)

lemma read_value_shorter: "read_value s = Some (v, r) \<Longrightarrow> length r < length s"
  by (auto simp: read_value_def prefix_def split: if_splits dest: read_string_shorter)

lemma read_member_shorter: "read_member s = Some (p, r) \<Longrightarrow> length r < length s"
proof -
  assume "read_member s = Some (p, r)"
  then obtain k v r0 r1 where
    "read_string (skip_ws s) = Some (k, r0)" "expect (CHR '':'') r0 = Some r1" "read_value (skip_ws r1) = Some (v, r)"
    by (auto simp: read_member_def bind_eq_Some_conv)
  from read_string_shorter [OF this(1)] expect_shorter [OF this(2)] read_value_shorter [OF this(3)]
    skip_ws_le [of s] skip_ws_le [of r1]
  show ?thesis by simp
qed

function read_members :: "string \<Rightarrow> (string, string) gomap \<Rightarrow> ((string, string) gomap \<times> string) option" where
  "read_members s m =
     (case read_member s of
        None \<Rightarrow> None
      | Some ((k, v), r) \<Rightarrow>
          (case expect (CHR '','') r of
             Some r1 \<Rightarrow> read_members r1 (gomap_set k v m)
           | None \<Rightarrow>
             (case expect (CHR ''}'') r of
                Some r1 \<Rightarrow> Some (gomap_set k v m, r1)
              | None \<Rightarrow> None)))"
  by pat_completeness auto
termination
  by (relation "measure (\<lambda>(s, m). length s)") (auto dest!: read_member_shorter expect_shorter)

declare read_members.simps [simp del]

definition json_Unmarshal :: "string \<Rightarrow> (string, string) gomap option" where
  "json_Unmarshal s =
     (if prefix ''null'' (skip_ws s) \<and> skip_ws (drop 4 (skip_ws s)) = [] then Some []
      else
        Option.bind (expect (CHR ''{'') s) (\<lambda>r.
        Option.bind (case expect (CHR ''}'') r of Some r1 \<Rightarrow> Some ([], r1) | None \<Rightarrow> read_members r []) (\<lambda>(m, r2).
        if skip_ws r2 = [] then Some m else None)))"

section \<open>Round trip\<close>

lemma skip_ws_Cons [simp]: "\<not> is_ws c \<Longrightarrow> skip_ws (c # cs) = c # cs"
  by (simp add: skip_ws_def)

lemma expect_Cons: "\<not> is_ws x \<Longrightarrow> expect c (x # cs) = (if x = c then Some cs else None)"
  by (simp add: expect_def)

lemma not_ws [simp]:
  "\<not> is_ws quote_char" "\<not> is_ws (CHR '':'')" "\<not> is_ws (CHR '','')" "\<not> is_ws (CHR ''{'')" "\<not> is_ws (CHR ''}'')"
  by (simp_all add: is_ws_def)

lemma read_string_json: "valid_utf8 s \<Longrightarrow> read_string (json_string s @ t) = Some (s, t)"
  using unquote_escape [of s t] by (simp add: read_string_def json_string_def)

lemma read_member_json:
  assumes "valid_utf8 (fst p)" "valid_utf8 (snd p)"
  shows "read_member (json_member p @ t) = Some (p, t)"
proof -
  have "json_string s @ u = quote_char # (escape s @ quote_char # u)" for s u by (simp add: json_string_def)
  then have ws: "skip_ws (json_string s @ u) = json_string s @ u" "\<not> prefix ''null'' (json_string s @ u)" for s u by simp_all
  have "read_value (skip_ws (json_string (snd p) @ t)) = Some (snd p, t)"
    using assms(2) by (simp add: ws read_value_def read_string_json)
  then show ?thesis
    using assms(1) by (simp add: read_member_def json_member_def ws read_string_json expect_Cons)
qed

lemma read_members_json:
  "ps \<noteq> [] \<Longrightarrow> \<forall>p\<in>set ps. valid_utf8 (fst p) \<and> valid_utf8 (snd p) \<Longrightarrow>
     read_members (json_members ps @ ''}'' @ t) m = Some (fold (\<lambda>(k, v). gomap_set k v) ps m, t)"
proof (induction ps arbitrary: m rule: json_members.induct)
  case (2 p)
  then show ?case
    by (cases p) (simp add: read_members.simps read_member_json expect_Cons)
next
  case (3 p q ps)
  then have "read_member (json_members (p # q # ps) @ ''}'' @ t) = Some (p, '','' @ json_members (q # ps) @ ''}'' @ t)"
    using read_member_json [of p "'','' @ json_members (q # ps) @ ''}'' @ t"] by simp
  then show ?case
    using 3 by (cases p) (subst read_members.simps, simp add: expect_Cons)
qed simp

lemma json_members_start: "ps \<noteq> [] \<Longrightarrow> \<exists>r. json_members ps = quote_char # r"
  by (cases ps rule: json_members.cases) (auto simp: json_member_def json_string_def)

lemma json_roundtrip:
  assumes "\<forall>p\<in>set m. valid_utf8 (fst p) \<and> valid_utf8 (snd p)"
  shows "json_Unmarshal (json_Marshal m) = Some (fold (\<lambda>(k, v). gomap_set k v) (sort_key fst m) [])"
proof (cases "m = []")
  case True
  have "expect (CHR ''}'') ''}'' = Some []" "expect (CHR ''{'') ''{}'' = Some ''}''" by (simp_all add: expect_Cons)
  with True show ?thesis by (simp add: json_Unmarshal_def json_Marshal_def skip_ws_def is_ws_def)
next
  case False
  let ?ps = "sort_key fst m"
  have "?ps \<noteq> []" using False by (metis length_0_conv length_sort)
  moreover from json_members_start [OF this] obtain r where r: "json_members ?ps @ ''}'' = quote_char # r" by auto
  moreover have "expect (CHR ''}'') (quote_char # r) = None" by (simp add: expect_Cons)
  moreover have "\<forall>p\<in>set ?ps. valid_utf8 (fst p) \<and> valid_utf8 (snd p)" using assms by simp
  ultimately show ?thesis
    using read_members_json [of ?ps "[]" "[]"]
    by (simp add: json_Unmarshal_def json_Marshal_def expect_Cons) (simp add: skip_ws_def)
qed

lemma map_of_fold_set:
  "distinct (map fst ps) \<Longrightarrow> map_of (fold (\<lambda>(k, v). gomap_set k v) ps m) = map_of m ++ map_of ps"
proof (induction ps arbitrary: m)
  case (Cons p ps)
  have "map_of ps (fst p) = None" using Cons.prems by (simp add: map_of_eq_None_iff)
  with Cons show ?case
    by (cases p) (auto simp: map_add_def fun_eq_iff split: option.splits)
qed simp

lemma distinct_fst_sort: "distinct (map fst m) \<Longrightarrow> distinct (map fst (sort_key fst m))"
  by (simp add: distinct_map)

lemma map_of_sort_key:
  assumes "distinct (map fst m)"
  shows "map_of (sort_key fst m) = map_of m"
  using assms distinct_fst_sort [OF assms]
  by (intro ext) (metis map_of_eq_Some_iff not_None_eq set_sort)

end
