(* ===== verification/SnapshotManager.thy ===== *)
theory SnapshotManager
  imports GraphTraversal HierarchicalDiff JsonText
begin

text \<open>
  internal/snapshot: the snapshot manager of manager.go (collecting a repository's edges, taking a
  snapshot, the parent chain and its garbage collection, the persisted package roots), the full
  collection of gc.go and the integrity checks of verify.go, over the store model.

  A manager is its store and the last hierarchical tree. \<open>B\<close> is the tree builder of the external
  module merkle-strata and \<open>H\<close> is SHA-256, as in the other theories. The walk along parent links
  has no bound in the code; it is a \<open>partial_function\<close> whose value is \<open>None\<close> when the loop does
  not end, so every operation that walks the chain returns an option.
\<close>

section \<open>Qualified names\<close>

datatype qname_error = MissingSchemeSeparator string | MissingSymbolSeparator string

definition ExtractPackagePath :: "string \<Rightarrow> qname_error + string" where
  "ExtractPackagePath qualifiedName =
     (case strings_LastIndex qualifiedName ''://'' of
        None \<Rightarrow> Inl (MissingSchemeSeparator qualifiedName)
      | Some sep \<Rightarrow>
          (let rest = drop (sep + 3) qualifiedName;
               lastSlash = (case strings_LastIndex rest ''/'' of Some i \<Rightarrow> i | None \<Rightarrow> 0);
               afterPkg = drop lastSlash rest
           in case strings_Index afterPkg ''.'' of
                None \<Rightarrow> Inl (MissingSymbolSeparator qualifiedName)
              | Some firstDot \<Rightarrow> Inr (take (lastSlash + firstDot) rest)))"

definition PackageRootForSymbol :: "string \<Rightarrow> (string, hash) gomap option \<Rightarrow> hash" where
  "PackageRootForSymbol qn packageRoots =
     (case packageRoots of
        None \<Rightarrow> EmptyHash
      | Some roots \<Rightarrow>
        (case strings_Index qn ''://'' of
           None \<Rightarrow> EmptyHash
         | Some idx \<Rightarrow>
           (let path = drop (idx + 3) qn in
            case strings_LastIndex path ''/'' of
              None \<Rightarrow> EmptyHash
            | Some lastSlash \<Rightarrow>
              (case map_of roots (take lastSlash path) of Some r \<Rightarrow> r | None \<Rightarrow> EmptyHash))))"

section \<open>Collecting the edges of a repository\<close>

definition repo_not_found :: "hash \<Rightarrow> go_error" where
  "repo_not_found repoHash = Errorf (''repo not found: '' @ Hash_String repoHash)"

definition require_repo :: "hash \<Rightarrow> repo op" where
  "require_repo repoHash =
     bind_op (wrap_op ''getting repo'' (GetRepo repoHash)) (\<lambda>r.
       case r of None \<Rightarrow> fail_op (repo_not_found repoHash) | Some repo \<Rightarrow> ret repo)"

definition node_edges :: "node \<Rightarrow> edge list op" where
  "node_edges n = wrap_op (''querying edges from node '' @ Hash_String (NodeHash n)) (EdgesFrom (NodeHash n) '''')"

definition package_entry :: "node \<Rightarrow> (hash, string) gomap \<Rightarrow> (hash, string) gomap" where
  "package_entry n m =
     (case ExtractPackagePath (QualifiedName n) of Inl _ \<Rightarrow> m | Inr pkgPath \<Rightarrow> gomap_set (NodeHash n) pkgPath m)"

text \<open>A missing key of a Go map reads as the zero value, here the empty path.\<close>

definition edge_input :: "(hash, string) gomap \<Rightarrow> edge \<Rightarrow> EdgeInput" where
  "edge_input nodePackage e =
     \<lparr>EI_EdgeHash = EdgeHash e,
      PackagePath = (case map_of nodePackage (SourceHash e) of Some p \<Rightarrow> p | None \<Rightarrow> ''''),
      EI_EdgeType = EdgeType e\<rparr>"

text \<open>The edges of the list that are not in \<open>edgeSeen\<close>, each once, and the extended set.\<close>

fun unseen :: "edge list \<Rightarrow> hash set \<Rightarrow> edge list \<times> hash set" where
  "unseen [] edgeSeen = ([], edgeSeen)"
| "unseen (e # es) edgeSeen =
     (if EdgeHash e \<in> edgeSeen then unseen es edgeSeen
      else (let (rest, seen) = unseen es (insert (EdgeHash e) edgeSeen) in (e # rest, seen)))"

primrec collect_loop :: "node list \<Rightarrow> hash set \<Rightarrow> edge list op" where
  "collect_loop [] edgeSeen = ret []"
| "collect_loop (n # ns) edgeSeen =
     bind_op (node_edges n) (\<lambda>edges.
       let (new, seen) = unseen edges edgeSeen in
       bind_op (collect_loop ns seen) (\<lambda>rest. ret (new @ rest)))"

definition collectRepoEdgesHierarchical :: "hash \<Rightarrow> (EdgeInput list \<times> nat) op" where
  "collectRepoEdgesHierarchical repoHash =
     bind_op (require_repo repoHash) (\<lambda>repo.
     bind_op (wrap_op ''querying nodes by name'' (NodesByName (RepoURL repo))) (\<lambda>nodes.
     bind_op (collect_loop nodes {}) (\<lambda>edges.
     ret (map (edge_input (fold package_entry nodes [])) edges, length nodes))))"

definition CollectEdgeInputs :: "hash \<Rightarrow> (EdgeInput list \<times> nat) op" where
  "CollectEdgeInputs repoHash = collectRepoEdgesHierarchical repoHash"

definition collectRepoEdges :: "hash \<Rightarrow> (hash list \<times> nat \<times> nat) op" where
  "collectRepoEdges repoHash =
     bind_op (require_repo repoHash) (\<lambda>repo.
     bind_op (wrap_op ''querying nodes by name'' (NodesByName (RepoURL repo))) (\<lambda>nodes.
     bind_op (collect_loop nodes {}) (\<lambda>edges.
     ret (map EdgeHash edges, length nodes, length edges))))"

section \<open>Persisted package roots\<close>

definition packageRootsNoteKey :: string where "packageRootsNoteKey = ''package_roots''"

definition packageRootsObjectHash :: "sha \<Rightarrow> hash" where
  "packageRootsObjectHash H = NewHash H ''package_roots_v1''"

definition persistPackageRoots :: "sha \<Rightarrow> HierarchicalTree option \<Rightarrow> unit op" where
  "persistPackageRoots H htree =
     (case htree of
        None \<Rightarrow> ret ()
      | Some t \<Rightarrow>
          if length (PackageRoots t) = 0 then ret ()
          else ignore_op (PutNote
            \<lparr>ObjectHash = packageRootsObjectHash H, Note_Key = packageRootsNoteKey,
             Note_Value = json_Marshal (map (\<lambda>(pkg, root). (pkg, hex_EncodeToString (hash_bytes root))) (PackageRoots t)),
             UpdatedAt = 0\<rparr>))"

definition decode_root :: "string \<times> string \<Rightarrow> (string, hash) gomap \<Rightarrow> (string, hash) gomap" where
  "decode_root p roots =
     (case hex_DecodeString (snd p) of
        Inl _ \<Rightarrow> roots
      | Inr b \<Rightarrow> if length b \<noteq> 32 then roots else gomap_set (fst p) (copy_hash b) roots)"

definition LoadPackageRoots :: "sha \<Rightarrow> store \<Rightarrow> (string, hash) gomap option \<times> store" where
  "LoadPackageRoots H s =
     (case GetNote (packageRootsObjectHash H) packageRootsNoteKey s of
        (Inl _, s1) \<Rightarrow> (None, s1)
      | (Inr None, s1) \<Rightarrow> (None, s1)
      | (Inr (Some n), s1) \<Rightarrow>
          if Note_Value n = '''' then (None, s1)
          else (case json_Unmarshal (Note_Value n) of
                  None \<Rightarrow> (None, s1)
                | Some m \<Rightarrow> (Some (fold decode_root m []), s1)))"

section \<open>Taking a snapshot\<close>

record manager =
  sm_store :: store
  lastHierarchicalTree :: "HierarchicalTree option"

definition NewSnapshotManager :: "store \<Rightarrow> manager" where
  "NewSnapshotManager s = \<lparr>sm_store = s, lastHierarchicalTree = None\<rparr>"

definition chained_snapshot ::
  "sha \<Rightarrow> int \<Rightarrow> hash \<Rightarrow> string \<Rightarrow> HierarchicalTree \<Rightarrow> nat \<Rightarrow> nat \<Rightarrow> snapshot option \<Rightarrow> snapshot" where
  "chained_snapshot H now repoHash commitHash htree edgeCount nodeCount latest =
     \<lparr>SnapshotHash = ComputeSnapshotHash H (Root htree),
      ParentHash = (case latest of Some l \<Rightarrow> SnapshotHash l | None \<Rightarrow> EmptyHash),
      Snap_RepoHash = repoHash, CommitHash = commitHash, Timestamp = now,
      NodeCount = int nodeCount, EdgeCount = int edgeCount,
      Generation = (case latest of Some l \<Rightarrow> Generation l + 1 | None \<Rightarrow> 0)\<rparr>"

definition record_snapshot :: "sha \<Rightarrow> int \<Rightarrow> hash \<Rightarrow> string \<Rightarrow> HierarchicalTree \<Rightarrow> nat \<Rightarrow> nat \<Rightarrow> snapshot op" where
  "record_snapshot H now repoHash commitHash htree edgeCount nodeCount =
     bind_op (wrap_op ''getting latest snapshot'' (LatestSnapshot repoHash)) (\<lambda>latest.
     let snap = chained_snapshot H now repoHash commitHash htree edgeCount nodeCount latest in
     bind_op (wrap_op ''creating snapshot'' (CreateSnapshot snap)) (\<lambda>_.
     bind_op (persistPackageRoots H (Some htree)) (\<lambda>_. ret snap)))"

definition ComputeSnapshotFromEdges ::
  "strata_multi \<Rightarrow> sha \<Rightarrow> int \<Rightarrow> hash \<Rightarrow> string \<Rightarrow> EdgeInput list \<Rightarrow> nat \<Rightarrow> manager \<Rightarrow> (go_error + snapshot) \<times> manager" where
  "ComputeSnapshotFromEdges B H now repoHash commitHash edgeInputs nodeCount sm =
     (let htree = BuildHierarchicalTree B edgeInputs;
          (r, s) = record_snapshot H now repoHash commitHash htree (length edgeInputs) nodeCount (sm_store sm)
      in (r, \<lparr>sm_store = s, lastHierarchicalTree = Some htree\<rparr>))"

definition ComputeSnapshot ::
  "strata_multi \<Rightarrow> sha \<Rightarrow> int \<Rightarrow> hash \<Rightarrow> string \<Rightarrow> manager \<Rightarrow> (go_error + snapshot) \<times> manager" where
  "ComputeSnapshot B H now repoHash commitHash sm =
     (case wrap_op ''collecting edges'' (collectRepoEdgesHierarchical repoHash) (sm_store sm) of
        (Inl e, s) \<Rightarrow> (Inl e, sm\<lparr>sm_store := s\<rparr>)
      | (Inr (edgeInputs, nodeCount), s) \<Rightarrow>
          ComputeSnapshotFromEdges B H now repoHash commitHash edgeInputs nodeCount (sm\<lparr>sm_store := s\<rparr>))"

definition Manager_Diff :: "hash \<Rightarrow> hash \<Rightarrow> DiffResult op" where
  "Manager_Diff oldHash newHash = SnapshotDiff oldHash newHash"

section \<open>The chain\<close>

partial_function (option) walk_from ::
  "snapshot list \<Rightarrow> snapshot \<Rightarrow> store \<Rightarrow> ((go_error + snapshot list) \<times> store) option" where
  "walk_from chain current s =
     (if IsZero (ParentHash current) then Some (Inr (chain @ [current]), s)
      else (case wrap_op (''getting snapshot '' @ Hash_String (ParentHash current)) (GetSnapshot (ParentHash current)) s of
              (Inl e, s1) \<Rightarrow> Some (Inl e, s1)
            | (Inr None, s1) \<Rightarrow> Some (Inr (chain @ [current]), s1)
            | (Inr (Some parent), s1) \<Rightarrow> walk_from (chain @ [current]) parent s1))"

definition walkChain :: "hash \<Rightarrow> store \<Rightarrow> ((go_error + snapshot list) \<times> store) option" where
  "walkChain repoHash s =
     (case LatestSnapshot repoHash s of
        (Inl e, s1) \<Rightarrow> Some (Inl e, s1)
      | (Inr None, s1) \<Rightarrow> Some (Inr [], s1)
      | (Inr (Some latest), s1) \<Rightarrow> walk_from [] latest s1)"

text \<open>The number of removed snapshots is returned with an error as well.\<close>

primrec delete_snapshots :: "snapshot list \<Rightarrow> nat \<Rightarrow> store \<Rightarrow> (nat \<times> go_error option) \<times> store" where
  "delete_snapshots [] removed s = ((removed, None), s)"
| "delete_snapshots (snap # snaps) removed s =
     (case wrap_op (''deleting snapshot '' @ Hash_String (SnapshotHash snap)) (DeleteSnapshot (SnapshotHash snap)) s of
        (Inl e, s1) \<Rightarrow> ((removed, Some e), s1)
      | (Inr _, s1) \<Rightarrow> delete_snapshots snaps (removed + 1) s1)"

definition decimal_int :: "int \<Rightarrow> string" where
  "decimal_int i = (if i < 0 then [CHR ''-''] @ decimal (nat (- i)) else decimal (nat i))"

definition GarbageCollect :: "hash \<Rightarrow> int \<Rightarrow> store \<Rightarrow> ((nat \<times> go_error option) \<times> store) option" where
  "GarbageCollect repoHash keepCount s =
     (if keepCount < 1 then Some ((0, Some (Errorf (''keepCount must be >= 1, got '' @ decimal_int keepCount))), s)
      else
        (case walkChain repoHash s of
           None \<Rightarrow> None
         | Some (Inl e, s1) \<Rightarrow> Some ((0, Some (Wrap ''walking snapshot chain'' e)), s1)
         | Some (Inr chain, s1) \<Rightarrow>
             if int (length chain) \<le> keepCount then Some ((0, None), s1)
             else Some (delete_snapshots (drop (nat keepCount) chain) 0 s1)))"

section \<open>The reachability sweep\<close>

record GCStats =
  SnapshotsRemoved :: nat
  NodesRemovedCount :: nat
  EdgesRemovedCount :: nat

primrec reachable_loop :: "node list \<Rightarrow> hash list \<Rightarrow> hash list \<Rightarrow> (hash list \<times> hash list) op" where
  "reachable_loop [] rn re = ret (rn, re)"
| "reachable_loop (n # ns) rn re =
     bind_op (node_edges n) (\<lambda>edges.
       reachable_loop ns
         (List.union (NodeHash n # concat (map (\<lambda>e. [SourceHash e, TargetHash e]) edges)) rn)
         (List.union (map EdgeHash edges) re))"

text \<open>The sets of nodes and edges the sweep keeps.\<close>

definition reachable_sets :: "hash \<Rightarrow> (hash list \<times> hash list) op" where
  "reachable_sets repoHash =
     bind_op (require_repo repoHash) (\<lambda>repo.
     bind_op (wrap_op ''querying nodes'' (NodesByName (RepoURL repo))) (\<lambda>nodes.
     reachable_loop nodes [] []))"

text \<open>The statistics gathered so far are returned with an error as well; the duration is left out.\<close>

definition GarbageCollectFull :: "hash \<Rightarrow> int \<Rightarrow> store \<Rightarrow> ((GCStats \<times> go_error option) \<times> store) option" where
  "GarbageCollectFull repoHash keepCount s =
     (let stats = \<lparr>SnapshotsRemoved = 0, NodesRemovedCount = 0, EdgesRemovedCount = 0\<rparr> in
      case GarbageCollect repoHash keepCount s of
        None \<Rightarrow> None
      | Some ((removed, Some e), s1) \<Rightarrow> Some ((stats, Some (Wrap ''snapshot GC'' e)), s1)
      | Some ((removed, None), s1) \<Rightarrow>
          (let stats = stats\<lparr>SnapshotsRemoved := removed\<rparr> in
           case reachable_sets repoHash s1 of
             (Inl e, s2) \<Rightarrow> Some ((stats, Some e), s2)
           | (Inr (reachableNodes, reachableEdges), s2) \<Rightarrow>
             (case wrap_op ''deleting unreachable nodes'' (DeleteNodesNotIn reachableNodes) s2 of
                (Inl e, s3) \<Rightarrow> Some ((stats, Some e), s3)
              | (Inr prunedNodes, s3) \<Rightarrow>
                (let stats = stats\<lparr>NodesRemovedCount := prunedNodes\<rparr> in
                 case wrap_op ''deleting unreachable edges'' (DeleteEdgesNotIn reachableEdges) s3 of
                   (Inl e, s4) \<Rightarrow> Some ((stats, Some e), s4)
                 | (Inr prunedEdges, s4) \<Rightarrow> Some ((stats\<lparr>EdgesRemovedCount := prunedEdges\<rparr>, None), s4)))))"

section \<open>Chains of snapshots\<close>

definition parent_of :: "db \<Rightarrow> snapshot \<Rightarrow> snapshot option" where
  "parent_of d x = (if IsZero (ParentHash x) then None else find_row SnapshotHash (ParentHash x) (T_snapshots d))"

inductive chain_from :: "db \<Rightarrow> snapshot \<Rightarrow> snapshot list \<Rightarrow> bool" for d where
  chain_end: "parent_of d x = None \<Longrightarrow> chain_from d x [x]"
| chain_link: "parent_of d x = Some p \<Longrightarrow> chain_from d p ps \<Longrightarrow> chain_from d x (x # ps)"

inductive_cases chain_fromE: "chain_from d x ps"

lemma chain_from_hd: "chain_from d x ps \<Longrightarrow> \<exists>qs. ps = x # qs"
  by (auto elim: chain_fromE)

lemma chain_from_det: "chain_from d x ps \<Longrightarrow> chain_from d x qs \<Longrightarrow> ps = qs"
proof (induction arbitrary: qs rule: chain_from.induct)
  case (chain_end x)
  from chain_end.prems chain_end.hyps show ?case by cases simp_all
next
  case (chain_link x p ps)
  then obtain rs where "qs = x # rs" "chain_from d p rs"
    by (cases rule: chain_fromE [OF chain_link.prems]) simp_all
  with chain_link.IH show ?case by blast
qed

lemma chain_from_parent: "chain_from d x ps \<Longrightarrow> parent_of d x = Some p \<Longrightarrow> \<exists>qs. ps = x # qs \<and> chain_from d p qs"
  by (auto elim: chain_fromE)

lemma GetSnapshot_run:
  "Faults s = [] \<Longrightarrow> wrap_op msg (GetSnapshot h) s = (Inr (find_row SnapshotHash h (T_snapshots (DB s))), s)"
  by (simp add: GetSnapshot_def wrap_op_def sql_simps(2))

lemma walk_from_run:
  assumes "Faults s = []"
  shows "walk_from c x s = (case parent_of (DB s) x of
     None \<Rightarrow> Some (Inr (c @ [x]), s) | Some p \<Rightarrow> walk_from (c @ [x]) p s)"
  by (subst walk_from.simps, subst GetSnapshot_run [OF assms]) (simp add: parent_of_def split: option.split)

lemma walk_from_chain:
  "chain_from (DB s) x ps \<Longrightarrow> Faults s = [] \<Longrightarrow> walk_from c x s = Some (Inr (c @ ps), s)"
proof (induction arbitrary: c rule: chain_from.induct)
  case (chain_end x)
  then show ?case by (subst walk_from_run) simp_all
next
  case (chain_link x p ps)
  then show ?case by (subst walk_from_run) simp_all
qed

lemma walk_from_ends:
  "walk_from c x s = Some r \<Longrightarrow> Faults s = [] \<longrightarrow> (\<exists>ps. chain_from (DB s) x ps)"
proof (erule walk_from.raw_induct [where P = "\<lambda>c x s r. Faults s = [] \<longrightarrow> (\<exists>ps. chain_from (DB s) x ps)", rotated], goal_cases)
  case (1 walk c x s r)
  note rec = 1(1) and step = 1(2)
  show ?case
  proof (intro impI)
    assume ok: "Faults s = []"
    show "\<exists>ps. chain_from (DB s) x ps"
    proof (cases "parent_of (DB s) x")
      case None
      then show ?thesis by (intro exI) (rule chain_end)
    next
      case (Some p)
      then have "\<not> IsZero (ParentHash x)" "find_row SnapshotHash (ParentHash x) (T_snapshots (DB s)) = Some p"
        by (simp_all add: parent_of_def split: if_splits)
      then have "walk (c @ [x]) p s = Some r"
        using step unfolding GetSnapshot_run [OF ok] by simp
      from rec [OF this] ok obtain ps where "chain_from (DB s) p ps" by blast
      with Some show ?thesis by (intro exI) (rule chain_link)
    qed
  qed
qed

lemma walkChain_iff:
  assumes "Faults s = []"
  shows "walkChain r s = Some (Inr ch, s') \<longleftrightarrow> s' = s \<and>
    (case latest_of (filter (\<lambda>x. Snap_RepoHash x = r) (T_snapshots (DB s))) of
       None \<Rightarrow> ch = [] | Some l \<Rightarrow> chain_from (DB s) l ch)"
proof (cases "latest_of (filter (\<lambda>x. Snap_RepoHash x = r) (T_snapshots (DB s)))")
  case None
  then show ?thesis using assms by (auto simp: walkChain_def LatestSnapshot_def db_simps)
next
  case (Some l)
  then have w: "walkChain r s = walk_from [] l s"
    using assms by (simp add: walkChain_def LatestSnapshot_def db_simps)
  show ?thesis
  proof
    assume "walkChain r s = Some (Inr ch, s')"
    with w walk_from_ends assms obtain ps where "chain_from (DB s) l ps" by metis
    with walk_from_chain [OF this assms, of "[]"] \<open>walkChain r s = Some (Inr ch, s')\<close> w Some
    show "s' = s \<and> (case latest_of (filter (\<lambda>x. Snap_RepoHash x = r) (T_snapshots (DB s))) of
       None \<Rightarrow> ch = [] | Some l \<Rightarrow> chain_from (DB s) l ch)" by simp
  next
    assume "s' = s \<and> (case latest_of (filter (\<lambda>x. Snap_RepoHash x = r) (T_snapshots (DB s))) of
       None \<Rightarrow> ch = [] | Some l \<Rightarrow> chain_from (DB s) l ch)"
    with w Some walk_from_chain [OF _ assms, of l ch "[]"] show "walkChain r s = Some (Inr ch, s')" by simp
  qed
qed

lemma walkChain_None:
  assumes "Faults s = []" "latest_of (filter (\<lambda>x. Snap_RepoHash x = r) (T_snapshots (DB s))) = Some l"
    "\<And>ps. \<not> chain_from (DB s) l ps"
  shows "walkChain r s = None"
proof (rule ccontr)
  assume "walkChain r s \<noteq> None"
  then obtain y where "walk_from [] l s = Some y"
    using assms(1,2) by (auto simp: walkChain_def LatestSnapshot_def db_simps)
  with walk_from_ends assms(1,3) show False by blast
qed

lemma chain_rows: "chain_from d x ps \<Longrightarrow> y \<in> set (tl ps) \<Longrightarrow> y \<in> set (T_snapshots d)"
proof (induction rule: chain_from.induct)
  case (chain_link x p ps)
  have "p \<in> set (T_snapshots d)" using chain_link.hyps(1) find_row_SomeD by (fastforce simp: parent_of_def split: if_splits)
  with chain_link show ?case using chain_from_hd [OF chain_link.hyps(2)] by auto
qed simp

text \<open>A suffix of a chain is the chain of its first snapshot, so no hash occurs twice.\<close>

lemma chain_suffix: "chain_from d x ps \<Longrightarrow> y \<in> set ps \<Longrightarrow> \<exists>qs. chain_from d y qs \<and> length qs \<le> length ps"
proof (induction rule: chain_from.induct)
  case (chain_link x p ps)
  show ?case
  proof (cases "y = x")
    case True
    with chain_from.chain_link [OF chain_link.hyps] show ?thesis by blast
  next
    case False
    with chain_link show ?thesis by (auto intro: le_SucI)
  qed
qed (auto intro: chain_end)

lemma parent_of_cong: "ParentHash x = ParentHash y \<Longrightarrow> parent_of d x = parent_of d y"
  by (simp add: parent_of_def)

lemma chain_distinct:
  assumes "primary_key SnapshotHash (T_snapshots d)"
  shows "chain_from d x ps \<Longrightarrow> x \<in> set (T_snapshots d) \<Longrightarrow> distinct (map SnapshotHash ps)"
proof (induction rule: chain_from.induct)
  case (chain_link x p ps)
  have p: "p \<in> set (T_snapshots d)" using chain_link.hyps(1) find_row_SomeD by (fastforce simp: parent_of_def split: if_splits)
  have "SnapshotHash x \<notin> SnapshotHash ` set ps"
  proof
    assume "SnapshotHash x \<in> SnapshotHash ` set ps"
    then obtain y where y: "y \<in> set ps" "SnapshotHash y = SnapshotHash x" by auto
    have "y \<in> set (T_snapshots d)"
      using y(1) p chain_rows [OF chain_link.hyps(2)] chain_from_hd [OF chain_link.hyps(2)] by auto
    with y(2) chain_link.prems assms have "y = x" by (auto simp: primary_key_def distinct_map inj_on_def)
    with chain_suffix [OF chain_link.hyps(2) y(1)] obtain qs where "chain_from d x qs" "length qs \<le> length ps" by blast
    with chain_from_det [OF chain_from.chain_link [OF chain_link.hyps]] show False by fastforce
  qed
  with chain_link.IH p show ?case by simp
qed simp

section \<open>The latest snapshot\<close>

lemma latest_of_Some: "latest_of xs = Some l \<Longrightarrow> l \<in> set xs"
  by (auto simp: latest_of_def split: list.splits) (metis list.set_intros(1) set_sort)

lemma latest_of_newest:
  assumes "x \<in> set xs" "\<forall>y\<in>set xs. y \<noteq> x \<longrightarrow> Timestamp y < Timestamp x"
  shows "latest_of xs = Some x"
proof -
  let ?ys = "sort_key (\<lambda>s. - Timestamp s) xs"
  obtain y ys where ys: "?ys = y # ys" using assms(1) by (metis list.exhaust list.set_cases list.simps(3) set_sort)
  have "sorted (map (\<lambda>s. - Timestamp s) ?ys)" by (rule sorted_sort_key)
  then have "\<forall>z\<in>set xs. Timestamp z \<le> Timestamp y"
    unfolding set_sort [of "\<lambda>s. - Timestamp s" xs, symmetric] ys by auto
  moreover have "y \<in> set xs" using ys by (metis list.set_intros(1) set_sort)
  ultimately have "y = x" using assms by (metis linorder_not_less)
  with ys show ?thesis by (simp add: latest_of_def)
qed

lemma latest_of_filter:
  assumes "latest_of xs = Some l" "P l"
  shows "latest_of (filter P xs) = Some l"
  using assms by (auto simp: latest_of_def filter_sort [symmetric] split: list.splits)

section \<open>Taking a snapshot extends the chain or closes it into a cycle\<close>

abbreviation repo_latest :: "hash \<Rightarrow> db \<Rightarrow> snapshot option" where
  "repo_latest r d \<equiv> latest_of (filter (\<lambda>x. Snap_RepoHash x = r) (T_snapshots d))"

lemma persist_run:
  assumes "Faults s = []"
  shows "\<exists>ns. persistPackageRoots H t s = (Inr (), s\<lparr>DB := (DB s)\<lparr>T_notes := ns\<rparr>\<rparr>)"
proof -
  have "s = s\<lparr>DB := (DB s)\<lparr>T_notes := T_notes (DB s)\<rparr>\<rparr>" by simp
  then have "\<exists>ns. s = s\<lparr>DB := (DB s)\<lparr>T_notes := ns\<rparr>\<rparr>" by blast
  then show ?thesis
    using assms
    by (auto simp: persistPackageRoots_def ret_def ignore_op_def PutNote_def exec_ok split: option.splits)
qed

lemma record_snapshot_run:
  assumes "Faults s = []"
  shows "\<exists>ns. record_snapshot H now r c t ec nc s =
    (let snap = chained_snapshot H now r c t ec nc (repo_latest r (DB s)) in
     (Inr snap, s\<lparr>DB := (DB s)\<lparr>T_snapshots := upsert SnapshotHash snap (T_snapshots (DB s)), T_notes := ns\<rparr>\<rparr>))"
proof -
  let ?snap = "chained_snapshot H now r c t ec nc (repo_latest r (DB s))"
  let ?s1 = "s\<lparr>DB := (DB s)\<lparr>T_snapshots := upsert SnapshotHash ?snap (T_snapshots (DB s))\<rparr>\<rparr>"
  obtain ns where "persistPackageRoots H (Some t) ?s1 = (Inr (), ?s1\<lparr>DB := (DB ?s1)\<lparr>T_notes := ns\<rparr>\<rparr>)"
    using persist_run [of ?s1] assms by auto
  moreover have "wrap_op m (LatestSnapshot r) s = (Inr (repo_latest r (DB s)), s)" for m
    using assms by (simp add: LatestSnapshot_def wrap_op_def sql_simps(2))
  moreover have "wrap_op m (CreateSnapshot ?snap) s = (Inr (), ?s1)" for m
    using assms by (simp add: CreateSnapshot_def wrap_op_def exec_ok)
  ultimately show ?thesis
    by (intro exI [of _ ns]) (simp add: record_snapshot_def bind_op_def Let_def ret_def)
qed

lemma parent_of_upsert:
  assumes "SnapshotHash snap \<noteq> EmptyHash" "T_snapshots d' = upsert SnapshotHash snap (T_snapshots d)"
  shows "parent_of d' x = (if ParentHash x = SnapshotHash snap then Some snap else parent_of d x)"
  using assms by (simp add: parent_of_def IsZero_def find_row_upsert)

lemma chain_from_upsert:
  assumes "SnapshotHash snap \<noteq> EmptyHash" "T_snapshots d' = upsert SnapshotHash snap (T_snapshots d)"
  shows "chain_from d x ps \<Longrightarrow> SnapshotHash snap \<notin> ParentHash ` set ps \<Longrightarrow> chain_from d' x ps"
proof (induction rule: chain_from.induct)
  case (chain_end x)
  then show ?case by (intro chain_from.chain_end) (simp add: parent_of_upsert [OF assms])
next
  case (chain_link x p ps)
  then have "parent_of d' x = Some p" by (auto simp: parent_of_upsert [OF assms])
  with chain_link show ?case by (auto intro: chain_from.chain_link)
qed

lemma chain_back:
  assumes "SnapshotHash snap \<noteq> EmptyHash" "T_snapshots d' = upsert SnapshotHash snap (T_snapshots d)"
  shows "chain_from d x ps \<Longrightarrow> SnapshotHash snap \<in> ParentHash ` set ps \<Longrightarrow> chain_from d' x qs \<Longrightarrow>
    \<exists>rs. chain_from d' snap rs \<and> length rs < length qs"
proof (induction arbitrary: qs rule: chain_from.induct)
  case (chain_end x)
  then have "parent_of d' x = Some snap" by (simp add: parent_of_upsert [OF assms])
  from chain_from_parent [OF chain_end.prems(2) this] show ?case by auto
next
  case (chain_link x p ps)
  show ?case
  proof (cases "ParentHash x = SnapshotHash snap")
    case True
    then have "parent_of d' x = Some snap" by (simp add: parent_of_upsert [OF assms])
    from chain_from_parent [OF chain_link.prems(2) this] show ?thesis by auto
  next
    case False
    then have "parent_of d' x = Some p" using chain_link.hyps(1) by (simp add: parent_of_upsert [OF assms])
    then obtain rs where rs: "qs = x # rs" "chain_from d' p rs"
      using chain_from_parent [OF chain_link.prems(2)] by blast
    with chain_link.IH [OF _ rs(2)] chain_link.prems(1) False show ?thesis by fastforce
  qed
qed

lemma insert_cover: "A \<subseteq> insert a P \<Longrightarrow> a \<in> A \<Longrightarrow> x \<in> A \<union> P \<longleftrightarrow> x = a \<or> x \<in> P"
  by blast

lemma chain_hashes: "chain_from d x ps \<Longrightarrow> SnapshotHash ` set ps \<subseteq> insert (SnapshotHash x) (ParentHash ` set ps)"
proof (induction rule: chain_from.induct)
  case (chain_link x p ps)
  have "ParentHash x = SnapshotHash p"
    using chain_link.hyps(1) find_row_SomeD by (fastforce simp: parent_of_def split: if_splits)
  with chain_link.IH show ?case by auto
qed simp

text \<open>
  C10. Taking a snapshot when the chain of the repository is finite and the clock has advanced:
  the walk then finds the new snapshot followed by the old chain, unless the new hash is one that
  the chain already names. In that case (an unchanged graph, a graph reverted to an earlier state)
  the upsert has replaced the earlier row and the parent links form a cycle, so walking the chain,
  and with it garbage collection and verification of the repository, never returns.
\<close>

theorem ComputeSnapshot_chain:
  assumes "Faults (sm_store sm) = []" "db_ok (DB (sm_store sm))"
    "\<forall>x\<in>set (T_snapshots (DB (sm_store sm))). SnapshotHash x \<noteq> EmptyHash \<and> (Snap_RepoHash x = r \<longrightarrow> Timestamp x < now)"
    "walkChain r (sm_store sm) = Some (Inr chain, s0)"
    "ComputeSnapshotFromEdges B H now r commit edges n sm = (Inr snap, sm')"
    "SnapshotHash snap \<noteq> EmptyHash"
  shows "walkChain r (sm_store sm') =
    (if SnapshotHash snap \<in> SnapshotHash ` set chain \<union> ParentHash ` set chain then None
     else Some (Inr (snap # chain), sm_store sm'))"
proof -
  let ?s = "sm_store sm" and ?s' = "sm_store sm'"
  let ?d = "DB ?s" and ?d' = "DB ?s'"
  let ?h = "SnapshotHash snap"
  obtain ns where
    run: "snap = chained_snapshot H now r commit (BuildHierarchicalTree B edges) (length edges) n (repo_latest r ?d)"
    "?s' = ?s\<lparr>DB := ?d\<lparr>T_snapshots := upsert SnapshotHash snap (T_snapshots ?d), T_notes := ns\<rparr>\<rparr>"
    using record_snapshot_run [OF assms(1), of H now r commit "BuildHierarchicalTree B edges" "length edges" n] assms(5)
    by (auto simp: ComputeSnapshotFromEdges_def Let_def)
  have tab: "T_snapshots ?d' = upsert SnapshotHash snap (T_snapshots ?d)" and ok: "Faults ?s' = []"
    using run(2) assms(1) by simp_all
  have snap: "Snap_RepoHash snap = r" "Timestamp snap = now" using run(1) by (simp_all add: chained_snapshot_def)
  have latest: "repo_latest r ?d' = Some snap"
    using assms(3) snap by (intro latest_of_newest) (auto simp: tab set_upsert)
  have pk: "primary_key SnapshotHash (T_snapshots ?d)" using assms(2) by (simp add: db_ok_def)
  show ?thesis
  proof (cases "repo_latest r ?d")
    case None
    then have "chain = []" using assms(4) walkChain_iff [OF assms(1)] by simp
    moreover have "parent_of ?d' snap = None"
      using None run(1) by (simp add: parent_of_def IsZero_def chained_snapshot_def)
    ultimately show ?thesis using walkChain_iff [OF ok] latest by (auto intro: chain_end)
  next
    case (Some l)
    have l: "l \<in> set (T_snapshots ?d)" using latest_of_Some [OF Some] by simp
    have chain: "chain_from ?d l chain" using assms(4) walkChain_iff [OF assms(1)] Some by simp
    have "ParentHash snap = SnapshotHash l" using run(1) Some by (simp add: chained_snapshot_def)
    moreover have "find_row SnapshotHash (SnapshotHash l) (T_snapshots ?d) = Some l"
      using find_row_in [OF pk] l by blast
    ultimately have par: "parent_of ?d' snap = (if SnapshotHash l = ?h then Some snap else Some l)"
      using assms(3) l by (simp add: parent_of_upsert [OF assms(6) tab]) (simp add: parent_of_def IsZero_def)
    have links: "?h \<in> SnapshotHash ` set chain \<union> ParentHash ` set chain \<longleftrightarrow>
        ?h = SnapshotHash l \<or> ?h \<in> ParentHash ` set chain"
    proof -
      note chain_hashes [OF chain]
      moreover have "SnapshotHash l \<in> SnapshotHash ` set chain" using chain_from_hd [OF chain] by auto
      ultimately show ?thesis by (rule insert_cover)
    qed
    show ?thesis
    proof (cases "?h \<in> SnapshotHash ` set chain \<union> ParentHash ` set chain")
      case True
      have "\<not> chain_from ?d' snap ps" for ps
      proof
        assume ps: "chain_from ?d' snap ps"
        show False
        proof (cases "SnapshotHash l = ?h")
          case True
          with par chain_from_parent [OF ps] obtain qs where "ps = snap # qs" "chain_from ?d' snap qs" by auto
          with chain_from_det [OF ps] show False by fastforce
        next
          case False
          with par chain_from_parent [OF ps] obtain qs where qs: "ps = snap # qs" "chain_from ?d' l qs" by auto
          have "?h \<in> ParentHash ` set chain" using links True False by auto
          from chain_back [OF assms(6) tab chain this qs(2)] obtain rs where
            "chain_from ?d' snap rs" "length rs < length qs" by blast
          with chain_from_det [OF ps] qs(1) show False by fastforce
        qed
      qed
      with walkChain_None [OF ok latest] True show ?thesis by simp
    next
      case False
      then have "chain_from ?d' l chain" using chain by (intro chain_from_upsert [OF assms(6) tab]) auto
      moreover have "parent_of ?d' snap = Some l" using par links False by auto
      ultimately have "chain_from ?d' snap (snap # chain)" by (rule chain_link [rotated])
      with walkChain_iff [OF ok] latest False show ?thesis by auto
    qed
  qed
qed

definition length_sha :: sha where
  "length_sha bs = of_nat (length bs)"

definition first_snapshot :: snapshot where
  "first_snapshot = \<lparr>SnapshotHash = 41, ParentHash = 0, Snap_RepoHash = 1, CommitHash = '''', Timestamp = 0,
     NodeCount = 0, EdgeCount = 0, Generation = 0\<rparr>"

definition snapshot_manager_sample :: manager where
  "snapshot_manager_sample = NewSnapshotManager (open_store (empty_db\<lparr>T_snapshots := [first_snapshot]\<rparr>) [])"

lemma sample_chain:
  "walkChain 1 (sm_store snapshot_manager_sample) = Some (Inr [first_snapshot], sm_store snapshot_manager_sample)"
  by (simp add: walkChain_iff snapshot_manager_sample_def NewSnapshotManager_def latest_of_def empty_db_def
      first_snapshot_def chain_end parent_of_def IsZero_def EmptyHash_def)

theorem ComputeSnapshot_chain_witness:
  "walkChain 1 (sm_store (snd (ComputeSnapshotFromEdges (reference_multi length_sha) length_sha 5 1 '''' [] 0
     snapshot_manager_sample))) = None"
proof -
  let ?c = "ComputeSnapshotFromEdges (reference_multi length_sha) length_sha 5 1 '''' [] 0 snapshot_manager_sample"
  obtain snap sm' where c: "?c = (Inr snap, sm')" "SnapshotHash snap = 41"
    using record_snapshot_run [of "sm_store snapshot_manager_sample" length_sha 5 1 "''''"
        "BuildHierarchicalTree (reference_multi length_sha) []" 0 0]
    by (auto simp: ComputeSnapshotFromEdges_def Let_def snapshot_manager_sample_def NewSnapshotManager_def
        chained_snapshot_def ComputeSnapshotHash_def NewHash_def length_sha_def snapshot_preimage_def)
  then show ?thesis
    using ComputeSnapshot_chain [OF _ _ _ sample_chain c(1)]
    by (simp add: snapshot_manager_sample_def NewSnapshotManager_def db_ok_def empty_db_def first_snapshot_def EmptyHash_def
        primary_key_def)
qed

section \<open>Garbage collection of the chain\<close>

definition drop_snapshots :: "hash set \<Rightarrow> db \<Rightarrow> db" where
  "drop_snapshots dead d = d\<lparr>T_events := delete_where (\<lambda>ev. Ev_SnapshotHash ev \<in> dead) (T_events d),
     T_snapshots := delete_where (\<lambda>x. SnapshotHash x \<in> dead) (T_snapshots d)\<rparr>"

lemma delete_where_twice: "delete_where P (delete_where Q t) = delete_where (\<lambda>x. Q x \<or> P x) t"
  by (simp add: delete_where_def conj_commute)

lemma drop_snapshots_step:
  "drop_snapshots dead (d\<lparr>T_events := delete_where (\<lambda>ev. Ev_SnapshotHash ev = h) (T_events d),
     T_snapshots := delete_key SnapshotHash h (T_snapshots d)\<rparr>) = drop_snapshots (insert h dead) d"
  by (simp add: drop_snapshots_def delete_key_def delete_where_twice)

lemma delete_snapshots_run:
  "Faults s = [] \<Longrightarrow> delete_snapshots xs k s =
     ((k + length xs, None), s\<lparr>DB := drop_snapshots (SnapshotHash ` set xs) (DB s)\<rparr>)"
proof (induction xs arbitrary: k s)
  case Nil
  have "drop_snapshots {} d = d" for d by (cases d) (simp add: drop_snapshots_def delete_where_def)
  then show ?case by simp
next
  case (Cons x xs)
  let ?h = "SnapshotHash x"
  let ?s1 = "s\<lparr>DB := (DB s)\<lparr>T_events := delete_where (\<lambda>ev. Ev_SnapshotHash ev = ?h) (T_events (DB s)),
     T_snapshots := delete_key SnapshotHash ?h (T_snapshots (DB s))\<rparr>\<rparr>"
  have "wrap_op m (DeleteSnapshot ?h) s = (Inr (), ?s1)" for m
    using Cons.prems by (simp add: DeleteSnapshot_def wrap_op_def bind_op_def exec_ok)
  then show ?case using Cons.IH [of ?s1] Cons.prems by (simp add: drop_snapshots_step)
qed

lemma chain_from_drop:
  assumes "T_snapshots d' = delete_where (\<lambda>x. SnapshotHash x \<in> dead) (T_snapshots d)"
  shows "chain_from d x ps \<Longrightarrow> 0 < k \<Longrightarrow> SnapshotHash ` set (drop k ps) \<subseteq> dead \<Longrightarrow>
    SnapshotHash ` set (take k ps) \<inter> dead = {} \<Longrightarrow> chain_from d' x (take k ps)"
proof (induction arbitrary: k rule: chain_from.induct)
  case (chain_end x)
  have "parent_of d' x = None"
    using chain_end.hyps by (auto simp: parent_of_def assms find_row_None_iff delete_where_def split: if_splits)
  with chain_end.prems(1) show ?case by (cases k) (auto intro: chain_from.chain_end)
next
  case (chain_link x p ps)
  obtain j where j: "k = Suc j" using chain_link.prems(1) by (cases k) auto
  have par: "\<not> IsZero (ParentHash x)" "find_row SnapshotHash (ParentHash x) (T_snapshots d) = Some p"
    using chain_link.hyps(1) by (auto simp: parent_of_def split: if_splits)
  note p = find_row_SomeD [OF par(2)]
  obtain qs where ps: "ps = p # qs" using chain_from_hd [OF chain_link.hyps(2)] by blast
  show ?case
  proof (cases j)
    case 0
    then have "SnapshotHash p \<in> dead" using chain_link.prems(2) j ps by auto
    then have "parent_of d' x = None"
      using p by (auto simp: parent_of_def assms find_row_None_iff delete_where_def)
    then show ?thesis unfolding j 0 by (auto intro: chain_from.chain_end)
  next
    case (Suc i)
    then have "SnapshotHash p \<notin> dead" using chain_link.prems(3) j ps by auto
    then have "parent_of d' x = Some p"
      using par p unfolding parent_of_def assms delete_where_def by (subst find_row_filter_other) auto
    moreover have "chain_from d' p (take j ps)"
      using chain_link.prems j Suc by (intro chain_link.IH) auto
    ultimately show ?thesis unfolding j by (auto intro: chain_from.chain_link)
  qed
qed

lemma drop_snapshots_none: "drop_snapshots {} d = d"
  by (cases d) (simp add: drop_snapshots_def delete_where_def)

lemma GarbageCollect_run:
  assumes "Faults s = []" "db_ok (DB s)" "walkChain r s = Some (Inr chain, s)" and keep: "1 \<le> keep"
  defines "s1 \<equiv> s\<lparr>DB := drop_snapshots (SnapshotHash ` set (drop (nat keep) chain)) (DB s)\<rparr>"
  shows "GarbageCollect r keep s = Some ((length chain - nat keep, None), s1)"
    "walkChain r s1 = Some (Inr (take (nat keep) chain), s1)"
proof -
  let ?k = "nat keep"
  let ?dead = "SnapshotHash ` set (drop ?k chain)"
  let ?s' = "s\<lparr>DB := drop_snapshots ?dead (DB s)\<rparr>"
  show "GarbageCollect r keep s = Some ((length chain - ?k, None), s1)"
    using keep assms(1,3) unfolding s1_def by (auto simp: GarbageCollect_def delete_snapshots_run drop_snapshots_none)
  have "walkChain r ?s' = Some (Inr (take ?k chain), ?s')"
  proof (cases "repo_latest r (DB s)")
    case None
    then have "chain = []" using assms(3) walkChain_iff [OF assms(1)] by simp
    with None assms(1) show ?thesis by (simp add: walkChain_iff drop_snapshots_none)
  next
    case (Some l)
    then have chain: "chain_from (DB s) l chain" using assms(3) walkChain_iff [OF assms(1)] by simp
    have l: "l \<in> set (T_snapshots (DB s))" using latest_of_Some [OF Some] by simp
    have "distinct (map SnapshotHash chain)"
      using chain_distinct [OF _ chain l] assms(2) by (simp add: db_ok_def)
    then have "distinct (map SnapshotHash (take ?k chain @ drop ?k chain))" by (simp only: append_take_drop_id)
    then have disj: "SnapshotHash ` set (take ?k chain) \<inter> ?dead = {}" by (simp only: map_append distinct_append set_map)
    obtain qs where "chain = l # qs" using chain_from_hd [OF chain] by blast
    then have "l \<in> set (take ?k chain)" using keep by (cases ?k) auto
    then have "SnapshotHash l \<notin> ?dead" using disj by blast
    from latest_of_filter [where P = "\<lambda>x. SnapshotHash x \<notin> ?dead", OF Some this]
    have "repo_latest r (DB ?s') = Some l"
      by (simp add: drop_snapshots_def delete_where_def conj_commute)
    moreover have "chain_from (DB ?s') l (take ?k chain)"
      using keep disj by (intro chain_from_drop [OF _ chain]) (auto simp: drop_snapshots_def)
    ultimately show ?thesis using assms(1) by (simp add: walkChain_iff)
  qed
  then show "walkChain r s1 = Some (Inr (take ?k chain), s1)" unfolding s1_def .
qed

text \<open>
  C11. Garbage collection keeps the newest snapshots: on a finite chain it reports and removes
  exactly the snapshots after the first \<open>keepCount\<close> of the walk, with their edge events, changes no
  other table, and the chain walked afterwards is that prefix. A \<open>keepCount\<close> below 1 is an error.
\<close>

theorem GarbageCollect_keeps_newest:
  assumes "Faults s = []" "db_ok (DB s)" "walkChain r s = Some (Inr chain, s)"
  shows "(keep < 1 \<longrightarrow> (\<exists>e. GarbageCollect r keep s = Some ((0, Some e), s))) \<and>
    (1 \<le> keep \<longrightarrow>
      (let dead = SnapshotHash ` set (drop (nat keep) chain) in
       \<exists>s'. GarbageCollect r keep s = Some ((length chain - nat keep, None), s') \<and>
         walkChain r s' = Some (Inr (take (nat keep) chain), s') \<and>
         set (T_snapshots (DB s')) = {x \<in> set (T_snapshots (DB s)). SnapshotHash x \<notin> dead} \<and>
         set (T_events (DB s')) = {ev \<in> set (T_events (DB s)). Ev_SnapshotHash ev \<notin> dead} \<and>
         T_nodes (DB s') = T_nodes (DB s) \<and> T_edges (DB s') = T_edges (DB s)))"
  using GarbageCollect_run [OF assms, of keep]
  by (cases "1 \<le> keep") (auto simp: GarbageCollect_def Let_def drop_snapshots_def delete_where_def)

theorem GarbageCollect_keeps_newest_witness:
  "\<exists>s'. GarbageCollect 1 1 (sm_store snapshot_manager_sample) = Some ((0, None), s') \<and>
     walkChain 1 s' = Some (Inr [first_snapshot], s')"
  using GarbageCollect_keeps_newest [OF _ _ sample_chain, of 1]
  by (auto simp: snapshot_manager_sample_def NewSnapshotManager_def db_ok_def empty_db_def primary_key_def)

section \<open>Persisted package roots come back\<close>

lemma valid_utf8_ascii: "\<forall>c\<in>set s. (of_char c :: nat) < 128 \<Longrightarrow> valid_utf8 s"
  by (induction s) (simp_all add: valid_utf8.simps)

lemma hex_char_ascii: "n < 16 \<Longrightarrow> (of_char (hex_char n) :: nat) < 128"
  by (simp add: hex_char_def)

lemma hex_ascii: "c \<in> set (hex_EncodeToString bs) \<Longrightarrow> (of_char c :: nat) < 128"
proof (induction bs)
  case (Cons b bs)
  have "(of_char b :: nat) div 16 < 16" using nat_of_char_less_256 [of b] by (simp add: less_mult_imp_div_less)
  with Cons show ?case by (auto simp: hex_char_ascii)
qed simp

lemma gomap_set_apsnd: "gomap_set k (f v) (map (apsnd f) m) = map (apsnd f) (gomap_set k v m)"
  by (induction m) auto

lemma insort_apsnd: "insort_key fst (apsnd f p) (map (apsnd f) ps) = map (apsnd f) (insort_key fst p ps)"
  by (induction ps) auto

lemma sort_apsnd: "sort_key fst (map (apsnd f) m) = map (apsnd f) (sort_key fst m)"
  by (induction m) (simp_all add: insort_apsnd)

lemma fold_set_apsnd:
  "fold (\<lambda>(k, v). gomap_set k v) (map (apsnd f) ps) (map (apsnd f) m)
     = map (apsnd f) (fold (\<lambda>(k, v). gomap_set k v) ps m)"
  by (induction ps arbitrary: m) (auto simp: gomap_set_apsnd)

abbreviation root_text :: "hash \<Rightarrow> string" where
  "root_text h \<equiv> hex_EncodeToString (hash_bytes h)"

lemma decode_roots:
  "fold decode_root (map (apsnd root_text) ps) m = fold (\<lambda>(k, v). gomap_set k v) ps m"
  by (induction ps arbitrary: m) (auto simp: decode_root_def)

lemma gomap_ok_fold_set: "gomap_ok m \<Longrightarrow> gomap_ok (fold (\<lambda>(k, v). gomap_set k v) ps m)"
  by (induction ps arbitrary: m) auto

lemma unmarshal_roots:
  assumes "\<forall>p\<in>set roots. valid_utf8 (fst p)" "gomap_ok roots"
  shows "\<exists>m. json_Unmarshal (json_Marshal (map (apsnd root_text) roots)) = Some m \<and>
    map_of (fold decode_root m []) = map_of roots"
proof -
  let ?m = "map (apsnd root_text) roots"
  let ?r = "fold (\<lambda>(k, v). gomap_set k v) (sort_key fst roots) []"
  have "\<forall>p\<in>set ?m. valid_utf8 (fst p) \<and> valid_utf8 (snd p)"
    using assms(1) by (auto intro!: valid_utf8_ascii hex_ascii)
  from json_roundtrip [OF this] have
    "json_Unmarshal (json_Marshal ?m) = Some (map (apsnd root_text) ?r)"
    using fold_set_apsnd [of root_text "sort_key fst roots" "[]"] by (simp add: sort_apsnd)
  moreover have "map_of ?r = map_of roots"
    using assms(2) by (simp add: map_of_fold_set distinct_fst_sort map_of_sort_key)
  moreover have "gomap_ok ?r" by (rule gomap_ok_fold_set) simp
  ultimately show ?thesis by (simp add: decode_roots map_of_fold_set)
qed

lemma json_Marshal_nonempty: "json_Marshal m \<noteq> ''''"
  by (simp add: json_Marshal_def)

lemma pair_root_text: "(\<lambda>(pkg, h). (pkg, root_text h)) = apsnd root_text"
  by (auto simp: fun_eq_iff)

lemma persist_note:
  assumes "Faults s = []" "PackageRoots t \<noteq> []"
  shows "persistPackageRoots H (Some t) s = (Inr (), s\<lparr>DB := (DB s)\<lparr>T_notes := upsert note_key
    \<lparr>ObjectHash = packageRootsObjectHash H, Note_Key = packageRootsNoteKey,
     Note_Value = json_Marshal (map (apsnd root_text) (PackageRoots t)), UpdatedAt = 0\<rparr> (T_notes (DB s))\<rparr>\<rparr>)"
  using assms by (simp add: persistPackageRoots_def ignore_op_def PutNote_def exec_ok pair_root_text)

lemma Load_run:
  assumes "Faults s = []"
  shows "LoadPackageRoots H s =
    ((case find_row note_key (packageRootsObjectHash H, packageRootsNoteKey) (T_notes (DB s)) of
        None \<Rightarrow> None
      | Some n \<Rightarrow> if Note_Value n = '''' then None
                  else map_option (\<lambda>m. fold decode_root m []) (json_Unmarshal (Note_Value n))), s)"
  using assms by (simp add: LoadPackageRoots_def GetNote_def sql_simps(2) split: option.split)

text \<open>
  Persisted package roots: after a snapshot of a non-empty tree whose package paths are valid
  UTF-8, \<open>LoadPackageRoots\<close> returns exactly the package roots of that tree, whichever repository
  the snapshot was taken for (one note serves all of them); after a snapshot of an empty tree the
  roots of the previous one are still returned.
\<close>

lemma LoadPackageRoots_roundtrip:
  assumes "Faults (sm_store sm) = []"
    "ComputeSnapshotFromEdges B H now r commit edges n sm = (Inr snap, sm')"
    "lastHierarchicalTree sm' = Some t"
    "\<forall>p\<in>set (PackageRoots t). valid_utf8 (fst p)" "gomap_ok (PackageRoots t)"
  shows "if PackageRoots t = [] then fst (LoadPackageRoots H (sm_store sm')) = fst (LoadPackageRoots H (sm_store sm))
    else \<exists>roots. fst (LoadPackageRoots H (sm_store sm')) = Some roots \<and> map_of roots = map_of (PackageRoots t)"
proof -
  let ?s = "sm_store sm" and ?t = "BuildHierarchicalTree B edges"
  let ?snap = "chained_snapshot H now r commit ?t (length edges) n (repo_latest r (DB ?s))"
  let ?s1 = "?s\<lparr>DB := (DB ?s)\<lparr>T_snapshots := upsert SnapshotHash ?snap (T_snapshots (DB ?s))\<rparr>\<rparr>"
  have "wrap_op m (LatestSnapshot r) ?s = (Inr (repo_latest r (DB ?s)), ?s)" for m
    using assms(1) by (simp add: LatestSnapshot_def wrap_op_def sql_simps(2))
  moreover have "wrap_op m (CreateSnapshot ?snap) ?s = (Inr (), ?s1)" for m
    using assms(1) by (simp add: CreateSnapshot_def wrap_op_def exec_ok)
  moreover have "\<exists>s2. persistPackageRoots H (Some ?t) ?s1 = (Inr (), s2)"
    using persist_run [of ?s1] assms(1) by auto
  ultimately have s': "persistPackageRoots H (Some t) ?s1 = (Inr (), sm_store sm')"
    using assms(2,3) by (auto simp: ComputeSnapshotFromEdges_def record_snapshot_def bind_op_def Let_def ret_def)
  have ok: "Faults ?s1 = []" using assms(1) by simp
  show ?thesis
  proof (cases "PackageRoots t = []")
    case True
    then have "sm_store sm' = ?s1" using s' by (simp add: persistPackageRoots_def ret_def)
    with True ok assms(1) show ?thesis by (simp add: Load_run)
  next
    case False
    obtain m where "json_Unmarshal (json_Marshal (map (apsnd root_text) (PackageRoots t))) = Some m"
      "map_of (fold decode_root m []) = map_of (PackageRoots t)"
      using unmarshal_roots assms(4,5) by blast
    moreover have "note_key \<lparr>ObjectHash = h, Note_Key = k, Note_Value = v, UpdatedAt = 0\<rparr> = (h, k)" for h k v
      by (simp add: note_key_def)
    moreover note sm' = trans [OF persist_note [OF ok False, symmetric] s', THEN arg_cong [of _ _ snd], simplified, symmetric]
    moreover have "Faults (sm_store sm') = []" using sm' assms(1) by simp
    ultimately show ?thesis using False by (simp add: Load_run find_row_upsert json_Marshal_nonempty)
  qed
qed

definition one_edge :: EdgeInput where
  "one_edge = \<lparr>EI_EdgeHash = 7, PackagePath = ''p'', EI_EdgeType = ''calls''\<rparr>"

lemma one_edge_roots:
  "\<exists>h. PackageRoots (BuildHierarchicalTree (reference_multi length_sha) [one_edge]) = [(''p'', h)]"
  by (simp add: BuildHierarchicalTree_def reference_multi_def Let_def one_edge_def to_strata_def edge_group_def)

lemma LoadPackageRoots_roundtrip_witness:
  "\<exists>roots. fst (LoadPackageRoots length_sha (sm_store (snd (ComputeSnapshotFromEdges (reference_multi length_sha)
     length_sha 5 1 '''' [one_edge] 0 snapshot_manager_sample)))) = Some roots \<and> map_of roots ''p'' \<noteq> None"
proof -
  let ?c = "ComputeSnapshotFromEdges (reference_multi length_sha) length_sha 5 1 '''' [one_edge] 0 snapshot_manager_sample"
  let ?t = "BuildHierarchicalTree (reference_multi length_sha) [one_edge]"
  have ok: "Faults (sm_store snapshot_manager_sample) = []"
    by (simp add: snapshot_manager_sample_def NewSnapshotManager_def)
  obtain snap sm' where c: "?c = (Inr snap, sm')" "lastHierarchicalTree sm' = Some ?t"
    using record_snapshot_run [OF ok, of length_sha 5 1 "''''" ?t 1 0]
    by (auto simp: ComputeSnapshotFromEdges_def Let_def)
  obtain h where "PackageRoots ?t = [(''p'', h)]" using one_edge_roots by blast
  with LoadPackageRoots_roundtrip [OF ok c] c(1) show ?thesis by (auto simp: valid_utf8.simps)
qed

section \<open>Package paths of qualified names\<close>

lemma no_scheme: "CHR '':'' \<notin> set t \<Longrightarrow> strings_LastIndex t ''://'' = None"
  by (induction t) auto

lemma last_scheme: "CHR '':'' \<notin> set t \<Longrightarrow> strings_LastIndex (r @ ''://'' @ t) ''://'' = Some (length r)"
proof (induction r)
  case Nil
  then have "strings_LastIndex (CHR ''/'' # CHR ''/'' # t) ''://'' = None" by (intro no_scheme) simp
  then show ?case by simp
qed simp

lemma ExtractPackagePath_qualified:
  assumes "CHR '':'' \<notin> set (d @ base @ symb)" "CHR ''/'' \<notin> set (base @ symb)" "CHR ''.'' \<notin> set base"
  shows "ExtractPackagePath (r @ ''://'' @ d @ ''/'' @ base @ ''.'' @ symb) = Inr (d @ ''/'' @ base)"
    "ExtractPackagePath (r @ ''://'' @ base @ ''.'' @ symb) = Inr base"
    "ExtractPackagePath (r @ ''://'' @ base) = Inl (MissingSymbolSeparator (r @ ''://'' @ base))"
proof -
  have sep: "strings_LastIndex (r @ ''://'' @ t) ''://'' = Some (length r)" "drop (length r + 3) (r @ ''://'' @ t) = t"
    if "CHR '':'' \<notin> set t" for t
    using last_scheme [OF that, of r] by simp_all
  have slash: "strings_LastIndex (d @ CHR ''/'' # base @ CHR ''.'' # symb) ''/'' = Some (length d)"
    using assms(2) by (intro strings_LastIndex_append_not_in) simp
  have noslash: "strings_LastIndex (base @ CHR ''.'' # symb) ''/'' = None" "strings_LastIndex base ''/'' = None"
    using assms(2) by (simp_all add: strings_LastIndex_None_iff)
  have dot: "strings_Index ((CHR ''/'' # base) @ CHR ''.'' # symb) ''.'' = Some (length (CHR ''/'' # base))"
    "strings_Index (base @ CHR ''.'' # symb) ''.'' = Some (length base)"
    using assms(3) by (intro strings_Index_append_not_in; simp)+
  have nodot: "strings_Index base ''.'' = None" using assms(3) by (simp add: strings_Index_None_iff)
  show "ExtractPackagePath (r @ ''://'' @ d @ ''/'' @ base @ ''.'' @ symb) = Inr (d @ ''/'' @ base)"
    using sep [of "d @ ''/'' @ base @ ''.'' @ symb"] assms(1) slash dot(1) by (simp add: ExtractPackagePath_def)
  show "ExtractPackagePath (r @ ''://'' @ base @ ''.'' @ symb) = Inr base"
    using sep [of "base @ ''.'' @ symb"] assms(1) noslash dot(2) by (simp add: ExtractPackagePath_def)
  show "ExtractPackagePath (r @ ''://'' @ base) = Inl (MissingSymbolSeparator (r @ ''://'' @ base))"
    using sep [of base] assms(1) noslash nodot by (simp add: ExtractPackagePath_def)
qed

lemma earlier_scheme:
  assumes "prefix ''://'' (r @ ''://'' @ t)" "r \<noteq> []"
  shows "CHR '':'' \<in> set (drop 3 (r @ ''://''))"
proof (cases r)
  case (Cons a r1)
  then show ?thesis
  proof (cases r1)
    case (Cons b r2)
    then show ?thesis using assms \<open>r = a # r1\<close> by (cases r2) auto
  qed (use assms Cons in auto)
qed (use assms in simp)

text \<open>
  Package paths: from \<open>repo://dir/base.symbol\<close> \<open>ExtractPackagePath\<close> gives \<open>dir/base\<close>, the key
  under which the snapshot stores the package's root; \<open>PackageRootForSymbol\<close> never consults that
  key. With a repository URL without a colon it looks up the parent directory \<open>dir\<close> instead, so the
  root of the symbol's own package is not found.
\<close>

lemma PackageRootForSymbol_misses:
  assumes "CHR '':'' \<notin> set (d @ base @ symb)" "CHR ''/'' \<notin> set (base @ symb)" "CHR ''.'' \<notin> set base"
    "qn = r @ ''://'' @ d @ ''/'' @ base @ ''.'' @ symb"
  shows "ExtractPackagePath qn = Inr (d @ ''/'' @ base) \<and>
    PackageRootForSymbol qn (Some (gomap_set (d @ ''/'' @ base) h roots)) = PackageRootForSymbol qn (Some roots) \<and>
    (CHR '':'' \<notin> set r \<longrightarrow>
       PackageRootForSymbol qn (Some roots) = (case map_of roots d of Some x \<Rightarrow> x | None \<Rightarrow> EmptyHash))"
proof -
  let ?t = "d @ ''/'' @ base @ ''.'' @ symb"
  have "prefix ''://'' (drop (length r) qn)" "length r \<le> length qn" using assms(4) by simp_all
  from strings_Index_le [OF this] obtain i where i: "i \<le> length r" "strings_Index qn ''://'' = Some i" by blast
  define x where "x = drop (i + 3) (r @ ''://'')"
  have path: "drop (i + 3) qn = x @ ?t"
  proof -
    have "drop (i + 3) ((r @ ''://'') @ ?t) = x @ ?t"
      using i(1) unfolding x_def by (subst drop_append) simp
    then show ?thesis using assms(4) by simp
  qed
  have "strings_LastIndex ((x @ d) @ CHR ''/'' # base @ CHR ''.'' # symb) ''/'' = Some (length (x @ d))"
    using assms(2) by (intro strings_LastIndex_append_not_in) simp
  then have last: "strings_LastIndex (drop (i + 3) qn) ''/'' = Some (length (x @ d))" unfolding path by simp
  have key: "take (length (x @ d)) (drop (i + 3) qn) = x @ d" unfolding path by simp
  have lookup: "PackageRootForSymbol qn (Some m) = (case map_of m (x @ d) of Some y \<Rightarrow> y | None \<Rightarrow> EmptyHash)" for m
    by (simp only: PackageRootForSymbol_def option.case i(2) Let_def last key)
  have other: "x @ d \<noteq> d @ ''/'' @ base"
  proof (cases "i = length r")
    case True
    then have "x = []" by (simp add: x_def)
    then show ?thesis by simp
  next
    case False
    have "prefix ''://'' (drop i qn)" using strings_Index_Some [OF i(2)] by blast
    then have "prefix ''://'' (drop i r @ ''://'' @ ?t)" using i(1) assms(4) by simp
    moreover have "drop i r \<noteq> []" using False i(1) by simp
    moreover have "drop 3 (drop i r @ ''://'') = x"
      using i(1) by (simp add: x_def drop_append add.commute)
    ultimately have "CHR '':'' \<in> set x" using earlier_scheme by metis
    moreover have "CHR '':'' \<notin> set (d @ ''/'' @ base)" using assms(1) by simp
    ultimately show ?thesis by (metis Un_iff set_append)
  qed
  have "x = []" if "CHR '':'' \<notin> set r"
  proof -
    have "strings_Index (r @ ''://'' @ ?t) ''://'' = Some (length r)"
      using that by (induction r) auto
    then have "i = length r" using i(2) assms(4) by simp
    then show ?thesis by (simp add: x_def)
  qed
  then show ?thesis
    using ExtractPackagePath_qualified(1) [OF assms(1-3)] other assms(4) unfolding lookup by simp
qed

lemma PackageRootForSymbol_misses_witness:
  "ExtractPackagePath ''r://a/b.F'' = Inr ''a/b'' \<and> PackageRootForSymbol ''r://a/b.F'' (Some [(''a/b'', 7)]) = EmptyHash"
  using PackageRootForSymbol_misses [of "''a''" "''b''" "''F''" "''r://a/b.F''" "''r''" 7 "[]"] by simp

section \<open>What collecting and sweeping see\<close>

definition own_node :: "repo \<Rightarrow> node_row \<Rightarrow> bool" where
  "own_node repo n \<longleftrightarrow> sql_like (RepoURL repo @ ''%'') (QualifiedName n)"

definition own_hashes :: "repo \<Rightarrow> db \<Rightarrow> hash set" where
  "own_hashes repo d = NodeHash ` {n \<in> set (T_nodes d). own_node repo n}"

lemma query_Inr: "query_sql f s = (Inr x, s') \<Longrightarrow> x = f (DB s) \<and> DB s' = DB s"
  by (auto simp: query_sql_run split: if_splits)

lemma wrap_Inr: "wrap_op msg m s = (Inr x, s') \<Longrightarrow> m s = (Inr x, s')"
  by (auto simp: wrap_op_def split: prod.splits)

lemma bind_Inr:
  assumes "bind_op m f s = (Inr y, s')"
  obtains x s1 where "m s = (Inr x, s1)" "f x s1 = (Inr y, s')"
  using assms by (auto simp: bind_op_def split: prod.splits sum.splits)

lemma require_repo_Inr:
  "require_repo h s = (Inr repo, s') \<Longrightarrow> find_row RepoHash h (T_repos (DB s)) = Some repo \<and> DB s' = DB s"
  by (auto simp: require_repo_def GetRepo_def fail_op_def ret_def elim!: bind_Inr
      dest!: wrap_Inr query_Inr split: option.splits)

lemma NodesByName_Inr:
  assumes "wrap_op msg (NodesByName (RepoURL repo)) s = (Inr ns, s')"
  shows "set ns = scanNode ` {n \<in> set (T_nodes (DB s)). own_node repo n} \<and> NodeHash ` set ns = own_hashes repo (DB s) \<and> DB s' = DB s"
proof -
  have "NodeHash (scanNode n) = NodeHash n" for n by (simp add: scanNode_def node.defs)
  then have im: "NodeHash ` scanNode ` X = NodeHash ` X" for X by (simp add: image_image)
  have "set ns = scanNode ` {n \<in> set (T_nodes (DB s)). own_node repo n} \<and> DB s' = DB s"
    using assms by (auto simp: NodesByName_def nodes_where_def own_node_def dest!: wrap_Inr query_Inr)
  then show ?thesis by (simp add: im own_hashes_def)
qed

lemma node_edges_Inr:
  "node_edges n s = (Inr es, s') \<Longrightarrow> es = edges_where (\<lambda>e. SourceHash e = NodeHash n) (DB s) \<and> DB s' = DB s"
  by (auto simp: node_edges_def EdgesFrom_def dest!: wrap_Inr query_Inr)

lemma scanEdge_fields [simp]:
  "EdgeHash (scanEdge e) = EdgeHash e" "SourceHash (scanEdge e) = SourceHash e" "TargetHash (scanEdge e) = TargetHash e"
  "EdgeType (scanEdge e) = EdgeType e" "Provenance (scanEdge e) = Provenance e"
  by (simp_all add: scanEdge_def edge.defs)

lemma reachable_loop_Inr:
  "reachable_loop ns rn re s = (Inr (rn', re'), s') \<Longrightarrow>
     set re' = set re \<union> EdgeHash ` {e \<in> set (T_edges (DB s)). SourceHash e \<in> NodeHash ` set ns} \<and>
     set rn' = set rn \<union> NodeHash ` set ns \<union>
       (\<Union>e \<in> {e \<in> set (T_edges (DB s)). SourceHash e \<in> NodeHash ` set ns}. {SourceHash e, TargetHash e}) \<and>
     DB s' = DB s"
proof (induction ns arbitrary: rn re s)
  case Nil
  then show ?case by (simp add: ret_def)
next
  case (Cons n ns)
  from Cons.prems obtain es s1 where
    es: "node_edges n s = (Inr es, s1)" and
    rest: "reachable_loop ns (List.union (NodeHash n # concat (map (\<lambda>e. [SourceHash e, TargetHash e]) es)) rn)
      (List.union (map EdgeHash es) re) s1 = (Inr (rn', re'), s')"
    by (auto elim!: bind_Inr)
  have set_es: "set es = scanEdge ` {e \<in> set (T_edges (DB s)). SourceHash e = NodeHash n}" and db: "DB s1 = DB s"
    using node_edges_Inr [OF es] by (auto simp: edges_where_def)
  let ?X = "{e \<in> set (T_edges (DB s)). SourceHash e = NodeHash n}"
  let ?Y = "{e \<in> set (T_edges (DB s)). SourceHash e \<in> NodeHash ` set ns}"
  have hashes: "set (map EdgeHash es) = EdgeHash ` ?X" by (simp add: set_es image_image)
  have ends: "set (concat (map (\<lambda>e. [SourceHash e, TargetHash e]) es)) = (\<Union>e\<in>?X. {SourceHash e, TargetHash e})"
    by (auto simp: set_es)
  have split: "{e \<in> set (T_edges (DB s)). SourceHash e \<in> NodeHash ` set (n # ns)} = ?X \<union> ?Y" by auto
  from Cons.IH [OF rest] show ?case
    unfolding split image_Un UN_Un by (simp only: db set_union hashes list.set ends) blast
qed

lemma walk_from_DB: "walk_from c x s = Some (r, s') \<Longrightarrow> DB s' = DB s"
proof -
  assume "walk_from c x s = Some (r, s')"
  then have "case (r, s') of (r, s') \<Rightarrow> DB s' = DB s"
  proof (rule walk_from.raw_induct [where P = "\<lambda>c x s (r, s'). DB s' = DB s", rotated], goal_cases)
    case (1 walk c x s y)
    have q: "DB (snd (wrap_op m (GetSnapshot h) s)) = DB s" for m h
      using query_DB [of "\<lambda>d. find_row SnapshotHash h (T_snapshots d)" s]
      by (cases "query_sql (\<lambda>d. find_row SnapshotHash h (T_snapshots d)) s") (simp add: GetSnapshot_def wrap_op_def)
    obtain g s1 where g: "wrap_op (''getting snapshot '' @ Hash_String (ParentHash x)) (GetSnapshot (ParentHash x)) s = (g, s1)"
      by force
    then have "DB s1 = DB s" using q [of "''getting snapshot '' @ Hash_String (ParentHash x)" "ParentHash x"] by simp
    with 1 g show ?case by (fastforce split: if_splits sum.splits option.splits)
  qed
  then show ?thesis by simp
qed

lemma walkChain_DB: "walkChain r s = Some (res, s') \<Longrightarrow> DB s' = DB s"
  using query_DB [of "\<lambda>d. latest_of (filter (\<lambda>x. Snap_RepoHash x = r) (T_snapshots d))" s]
  by (auto simp: walkChain_def LatestSnapshot_def split: prod.splits sum.splits option.splits dest: walk_from_DB)

definition same_graph :: "db \<Rightarrow> db \<Rightarrow> bool" where
  "same_graph d d' \<longleftrightarrow> T_nodes d' = T_nodes d \<and> T_edges d' = T_edges d \<and> T_repos d' = T_repos d"

lemma DeleteSnapshot_graph: "preserves (same_graph d) (DeleteSnapshot h)"
  unfolding DeleteSnapshot_def by (intro preserve preserves_exec) (simp_all add: same_graph_def)

lemma delete_snapshots_graph:
  "delete_snapshots xs k s = (res, s') \<Longrightarrow> same_graph d (DB s) \<Longrightarrow> same_graph d (DB s')"
proof (induction xs arbitrary: k s)
  case (Cons x xs)
  obtain y s1 where y: "wrap_op (''deleting snapshot '' @ Hash_String (SnapshotHash x)) (DeleteSnapshot (SnapshotHash x)) s = (y, s1)"
    by force
  then have "same_graph d (DB s1)"
    using preservesD [OF preserves_wrap [OF DeleteSnapshot_graph] Cons.prems(2)] by (metis snd_conv)
  with Cons y show ?case by (auto split: sum.splits)
qed simp

lemma GarbageCollect_graph:
  "GarbageCollect r keep s = Some (res, s') \<Longrightarrow> same_graph (DB s) (DB s')"
  by (auto simp: GarbageCollect_def same_graph_def [of d d for d] split: if_splits option.splits sum.splits
      dest!: walkChain_DB delete_snapshots_graph [where d = "DB s"])

lemma acts_sweep: "acts (sweep what del keep) del"
  unfolding sweep_def
  by (rule acts_cong,
      (rule acts_bind acts_transaction acts_wrap acts_exec acts_sql acts_keep_inserts acts_ret)+)
    (simp add: case_prod_unfold)

lemma sweeps_Inr:
  "wrap_op m (DeleteNodesNotIn keep) s = (Inr k, s') \<Longrightarrow>
     DB s' = (DB s)\<lparr>T_nodes := delete_where (\<lambda>n. NodeHash n \<notin> set keep) (T_nodes (DB s))\<rparr>"
  "wrap_op m (DeleteEdgesNotIn keep) s = (Inr k, s') \<Longrightarrow>
     DB s' = (DB s)\<lparr>T_edges := delete_where (\<lambda>e. EdgeHash e \<notin> set keep) (T_edges (DB s))\<rparr>"
  unfolding DeleteNodesNotIn_def DeleteEdgesNotIn_def
  by (drule wrap_Inr, drule actsD [OF acts_sweep], simp)+

lemma GarbageCollectFull_steps:
  assumes "GarbageCollectFull r keep s = Some ((stats, None), s')"
  obtains n s1 rn re s2 pn s3 pe where
    "GarbageCollect r keep s = Some ((n, None), s1)" "reachable_sets r s1 = (Inr (rn, re), s2)"
    "wrap_op ''deleting unreachable nodes'' (DeleteNodesNotIn rn) s2 = (Inr pn, s3)"
    "wrap_op ''deleting unreachable edges'' (DeleteEdgesNotIn re) s3 = (Inr pe, s')"
  using assms
  by (auto simp: GarbageCollectFull_def Let_def split: option.splits prod.splits sum.splits)

text \<open>
  C12. The full collection sweeps the whole database with the roots of one repository: after a
  successful run the only edges left are those whose source is a node with the repository's name
  prefix, and the only nodes left are these and the targets of the edges. Every edge of any other
  repository is gone, while no node of the repository itself is ever collected.
\<close>

theorem GarbageCollectFull_scope:
  assumes "db_ok (DB s)" "GarbageCollectFull r keep s = Some ((stats, None), s')"
  shows "\<exists>repo. find_row RepoHash r (T_repos (DB s)) = Some repo \<and>
    (let own = own_hashes repo (DB s) in
     set (T_edges (DB s')) = {e \<in> set (T_edges (DB s)). SourceHash e \<in> own} \<and>
     set (T_nodes (DB s')) = {n \<in> set (T_nodes (DB s)). NodeHash n \<in> own \<or>
        (\<exists>e\<in>set (T_edges (DB s')). TargetHash e = NodeHash n)})"
proof -
  from GarbageCollectFull_steps [OF assms(2)] obtain n s1 rn re s2 pn s3 pe where
    gc: "GarbageCollect r keep s = Some ((n, None), s1)" and sets: "reachable_sets r s1 = (Inr (rn, re), s2)" and
    nodes: "wrap_op ''deleting unreachable nodes'' (DeleteNodesNotIn rn) s2 = (Inr pn, s3)" and
    edges: "wrap_op ''deleting unreachable edges'' (DeleteEdgesNotIn re) s3 = (Inr pe, s')" .
  have same: "T_nodes (DB s1) = T_nodes (DB s)" "T_edges (DB s1) = T_edges (DB s)" "T_repos (DB s1) = T_repos (DB s)"
    using GarbageCollect_graph [OF gc] by (simp_all add: same_graph_def)
  from sets obtain repo sa ns sb where
    repo: "require_repo r s1 = (Inr repo, sa)" and ns: "wrap_op ''querying nodes'' (NodesByName (RepoURL repo)) sa = (Inr ns, sb)"
    and loop: "reachable_loop ns [] [] sb = (Inr (rn, re), s2)"
    by (auto simp: reachable_sets_def elim!: bind_Inr)
  note repo = require_repo_Inr [OF repo]
  let ?own = "own_hashes repo (DB s)"
  have "own_hashes repo (DB sa) = ?own" using repo same by (simp add: own_hashes_def)
  then have own: "NodeHash ` set ns = ?own" "DB sb = DB s1"
    using NodesByName_Inr [OF ns] repo by metis+
  let ?E = "{e \<in> set (T_edges (DB s)). SourceHash e \<in> ?own}"
  have re: "set re = EdgeHash ` ?E" and rn: "set rn = ?own \<union> (\<Union>e\<in>?E. {SourceHash e, TargetHash e})"
    and db2: "DB s2 = DB s1"
    using reachable_loop_Inr [OF loop] own same by simp_all
  have "inj_on EdgeHash (set (T_edges (DB s)))"
    using assms(1) by (simp add: db_ok_def primary_key_def distinct_map)
  then have mem: "EdgeHash e \<in> set re \<longleftrightarrow> e \<in> ?E" if "e \<in> set (T_edges (DB s))" for e
    using that unfolding re by (auto dest: inj_onD)
  have E: "set (T_edges (DB s')) = ?E"
    using sweeps_Inr(2) [OF edges] sweeps_Inr(1) [OF nodes] db2 same mem by (auto simp: delete_where_def)
  have N: "set (T_nodes (DB s')) = {n \<in> set (T_nodes (DB s)). NodeHash n \<in> set rn}"
    using sweeps_Inr(2) [OF edges] sweeps_Inr(1) [OF nodes] db2 same by (auto simp: delete_where_def)
  have "NodeHash n \<in> set rn \<longleftrightarrow> NodeHash n \<in> ?own \<or> (\<exists>e\<in>?E. TargetHash e = NodeHash n)" for n :: node_row
    unfolding rn by auto
  with repo same E N show ?thesis unfolding Let_def by (intro exI [of _ repo]) simp
qed

definition two_repo_db :: db where
  "two_repo_db = empty_db\<lparr>T_repos := [\<lparr>RepoHash = 1, RepoURL = ''r'', LastCommit = '''', LastIndexed = 0\<rparr>],
     T_nodes := [node.extend sample_node (node_row.fields 0),
                 node.extend (sample_node\<lparr>NodeHash := 17, QualifiedName := ''q://p.F''\<rparr>) (node_row.fields 0)],
     T_edges := [insert_edge 0 (sample_edge\<lparr>SourceHash := 17\<rparr>)]\<rparr>"

lemma two_repo_run: "\<exists>stats s'. GarbageCollectFull 1 1 (open_store two_repo_db []) = Some ((stats, None), s')"
proof -
  let ?s = "open_store two_repo_db []"
  have ok: "Faults ?s = []" by simp
  have w: "walkChain 1 ?s = Some (Inr [], ?s)"
    by (simp add: walkChain_iff two_repo_db_def empty_db_def latest_of_def)
  then have gc: "GarbageCollect 1 1 ?s = Some ((0, None), ?s)" by (simp add: GarbageCollect_def)
  have repo: "require_repo 1 ?s = (Inr \<lparr>RepoHash = 1, RepoURL = ''r'', LastCommit = '''', LastIndexed = 0\<rparr>, ?s)"
    by (simp add: require_repo_def GetRepo_def bind_op_def wrap_op_def sql_simps(2) two_repo_db_def find_row_def ret_def)
  have loop: "\<exists>rn' re'. reachable_loop ns rn re ?s = (Inr (rn', re'), ?s)" for ns rn re
    by (induction ns arbitrary: rn re)
      (simp_all add: ret_def bind_op_def node_edges_def EdgesFrom_def wrap_op_def sql_simps(2))
  have sets: "\<exists>rn re. reachable_sets 1 ?s = (Inr (rn, re), ?s)"
    using loop by (simp add: reachable_sets_def bind_op_def repo NodesByName_def wrap_op_def sql_simps(2))
  have del: "\<exists>k s2. wrap_op m (DeleteNodesNotIn keep) s1 = (Inr k, s2) \<and> Faults s2 = []"
    "\<exists>k s2. wrap_op m (DeleteEdgesNotIn keep) s1 = (Inr k, s2)" if "Faults s1 = []" for m keep s1
    using that
    by (simp_all add: DeleteNodesNotIn_run DeleteEdgesNotIn_def sweep_def transaction_def bind_op_def wrap_op_def
        exec_ok keep_inserts_run sql_simps ret_def)
  obtain rn re where r: "reachable_sets 1 ?s = (Inr (rn, re), ?s)" using sets by blast
  from del(1) [OF ok, of "''deleting unreachable nodes''" rn] obtain k s2 where
    k: "wrap_op ''deleting unreachable nodes'' (DeleteNodesNotIn rn) ?s = (Inr k, s2)" "Faults s2 = []" by blast
  from del(2) [OF k(2), of "''deleting unreachable edges''" re] obtain k' s3 where
    "wrap_op ''deleting unreachable edges'' (DeleteEdgesNotIn re) s2 = (Inr k', s3)" by blast
  with gc r k show ?thesis by (simp add: GarbageCollectFull_def Let_def)
qed

theorem GarbageCollectFull_scope_witness:
  "\<exists>stats s'. GarbageCollectFull 1 1 (open_store two_repo_db []) = Some ((stats, None), s') \<and>
     T_edges two_repo_db \<noteq> [] \<and> T_edges (DB s') = []"
proof -
  from two_repo_run obtain stats s' where s': "GarbageCollectFull 1 1 (open_store two_repo_db []) = Some ((stats, None), s')"
    by blast
  have "db_ok two_repo_db"
    by (simp add: db_ok_def two_repo_db_def empty_db_def primary_key_def sample_node_def node.defs insert_edge_def edge.defs)
  from GarbageCollectFull_scope [OF _ s'] this obtain repo where
    repo: "find_row RepoHash 1 (T_repos two_repo_db) = Some repo" and
    left: "set (T_edges (DB s')) = {e \<in> set (T_edges two_repo_db). SourceHash e \<in> own_hashes repo two_repo_db}"
    unfolding Let_def open_store_sel by blast
  have "RepoURL repo = ''r''" using repo by (auto simp: two_repo_db_def find_row_def)
  then have "17 \<notin> own_hashes repo two_repo_db"
    by (auto simp: two_repo_db_def own_hashes_def own_node_def node.defs sample_node_def sql_like.simps char_lower_def)
  moreover have "\<forall>e\<in>set (T_edges two_repo_db). SourceHash e = 17"
    by (simp add: two_repo_db_def insert_edge_def edge.defs)
  ultimately have "set (T_edges (DB s')) = {}" unfolding left by auto
  with s' show ?thesis by (simp add: two_repo_db_def)
qed

section \<open>Collected edges\<close>

lemma unseen_spec:
  "unseen es seen = (new, seen') \<Longrightarrow>
     seen' = seen \<union> EdgeHash ` set es \<and> set new \<subseteq> set es \<and> distinct (map EdgeHash new) \<and>
     EdgeHash ` set new = EdgeHash ` set es - seen"
proof (induction es arbitrary: seen new seen')
  case (Cons e es)
  show ?case
  proof (cases "EdgeHash e \<in> seen")
    case True
    with Cons show ?thesis by fastforce
  next
    case False
    obtain rest s1 where r: "unseen es (insert (EdgeHash e) seen) = (rest, s1)" by force
    from Cons.prems False r have "new = e # rest" "seen' = s1" by auto
    with Cons.IH [OF r] False show ?thesis by auto
  qed
qed simp

lemma collect_loop_Inr:
  "collect_loop ns seen s = (Inr es, s') \<Longrightarrow>
     DB s' = DB s \<and> distinct (map EdgeHash es) \<and>
     set es \<subseteq> scanEdge ` {e \<in> set (T_edges (DB s)). SourceHash e \<in> NodeHash ` set ns} \<and>
     EdgeHash ` set es = EdgeHash ` {e \<in> set (T_edges (DB s)). SourceHash e \<in> NodeHash ` set ns} - seen"
proof (induction ns arbitrary: seen s es)
  case Nil
  then show ?case by (simp add: ret_def)
next
  case (Cons n ns)
  from Cons.prems obtain edges s1 where edges: "node_edges n s = (Inr edges, s1)" and
    rest0: "(let (new, seen) = unseen edges seen in bind_op (collect_loop ns seen) (\<lambda>rest. ret (new @ rest))) s1 = (Inr es, s')"
    unfolding collect_loop.simps by (rule bind_Inr)
  obtain new seen1 where new: "unseen edges seen = (new, seen1)" by force
  with rest0 obtain rest where rest: "collect_loop ns seen1 s1 = (Inr rest, s')" "es = new @ rest"
    by (auto simp: ret_def elim!: bind_Inr)
  let ?X = "{e \<in> set (T_edges (DB s)). SourceHash e = NodeHash n}"
  let ?Y = "{e \<in> set (T_edges (DB s)). SourceHash e \<in> NodeHash ` set ns}"
  have set_edges: "set edges = scanEdge ` ?X" and db: "DB s1 = DB s"
    using node_edges_Inr [OF edges] by (auto simp: edges_where_def)
  have hashes: "EdgeHash ` set edges = EdgeHash ` ?X" by (simp add: set_edges image_image)
  have split: "{e \<in> set (T_edges (DB s)). SourceHash e \<in> NodeHash ` set (n # ns)} = ?X \<union> ?Y" by auto
  note u = unseen_spec [OF new]
  note ih = Cons.IH [OF rest(1), unfolded db]
  have "EdgeHash ` set new \<inter> EdgeHash ` set rest = {}" using u ih by auto
  moreover have "EdgeHash ` set es = EdgeHash ` (?X \<union> ?Y) - seen"
    using u ih unfolding rest(2) set_append image_Un hashes by auto
  moreover have "set es \<subseteq> scanEdge ` (?X \<union> ?Y)"
    using u ih unfolding rest(2) set_append image_Un set_edges by blast
  ultimately show ?case using u ih unfolding split rest(2) by simp
qed

lemma package_lookup:
  "map_of (fold package_entry ns m) h =
     (case List.find (\<lambda>n. NodeHash n = h \<and> isl (ExtractPackagePath (QualifiedName n)) = False) (rev ns) of
        Some n \<Rightarrow> Some (projr (ExtractPackagePath (QualifiedName n))) | None \<Rightarrow> map_of m h)"
proof (induction ns rule: rev_induct)
  case (snoc n ns)
  then show ?case by (simp add: package_entry_def split: sum.split)
qed simp

text \<open>The package a source node contributes: that of its qualified name, empty when it has none.\<close>

definition source_package :: "db \<Rightarrow> hash \<Rightarrow> string" where
  "source_package d h =
     (case find_row NodeHash h (T_nodes d) of
        None \<Rightarrow> ''''
      | Some n \<Rightarrow> (case ExtractPackagePath (QualifiedName n) of Inl _ \<Rightarrow> '''' | Inr p \<Rightarrow> p))"

lemma package_of_source:
  assumes "primary_key NodeHash (T_nodes d)" "set ns = scanNode ` {n \<in> set (T_nodes d). own_node repo n}" "h \<in> own_hashes repo d"
  shows "(case map_of (fold package_entry ns []) h of Some p \<Rightarrow> p | None \<Rightarrow> '''') = source_package d h"
proof -
  obtain r where r: "r \<in> set (T_nodes d)" "own_node repo r" "NodeHash r = h" using assms(3) by (auto simp: own_hashes_def)
  have fields: "NodeHash (scanNode x) = NodeHash x" "QualifiedName (scanNode x) = QualifiedName x" for x :: node_row
    by (simp_all add: scanNode_def node.defs)
  have uniq: "n = scanNode r" if "n \<in> set ns" "NodeHash n = h" for n
    using that r assms(1,2) fields by (auto simp: primary_key_def distinct_map inj_on_def)
  have row: "find_row NodeHash h (T_nodes d) = Some r" using find_row_in [OF assms(1)] r by blast
  let ?P = "\<lambda>n. NodeHash n = h \<and> isl (ExtractPackagePath (QualifiedName n)) = False"
  show ?thesis
  proof (cases "ExtractPackagePath (QualifiedName r)")
    case (Inl e)
    have "\<not> ?P n" if "n \<in> set ns" for n
      using uniq [OF that] Inl fields(2) [of r] by auto
    then have "List.find ?P (rev ns) = None" by (simp add: find_None_iff)
    with Inl row show ?thesis by (simp add: package_lookup source_package_def)
  next
    case (Inr p)
    have "scanNode r \<in> set (rev ns)" using r assms(2) by auto
    moreover have "?P (scanNode r)" using r(3) Inr fields by simp
    ultimately have "List.find ?P (rev ns) \<noteq> None" by (auto simp: find_None_iff)
    then obtain n where n: "List.find ?P (rev ns) = Some n" by blast
    then have "n \<in> set ns" "NodeHash n = h" by (auto simp: find_Some_iff) (metis nth_mem set_rev length_rev)
    with uniq have "n = scanNode r" by blast
    with n Inr row fields show ?thesis by (simp add: package_lookup source_package_def)
  qed
qed

text \<open>
  The edges a snapshot is computed from: when collecting succeeds, each edge whose source is a
  node with the repository's name prefix is listed exactly once, with its type and the package of
  its source (empty when the name has none), nothing else is listed, the count is the number of
  these nodes, and the database is unchanged.
\<close>

lemma CollectEdgeInputs_exact:
  assumes "db_ok (DB s)" "CollectEdgeInputs r s = (Inr (inputs, cnt), s')"
  shows "\<exists>repo. find_row RepoHash r (T_repos (DB s)) = Some repo \<and> DB s' = DB s \<and>
    distinct (map EI_EdgeHash inputs) \<and>
    set inputs = (\<lambda>e. \<lparr>EI_EdgeHash = EdgeHash e, PackagePath = source_package (DB s) (SourceHash e), EI_EdgeType = EdgeType e\<rparr>)
      ` {e \<in> set (T_edges (DB s)). SourceHash e \<in> own_hashes repo (DB s)} \<and>
    cnt = length (filter (own_node repo) (T_nodes (DB s)))"
proof -
  from assms(2) obtain repo s1 ns s2 es where
    repo: "require_repo r s = (Inr repo, s1)" and
    ns: "wrap_op ''querying nodes by name'' (NodesByName (RepoURL repo)) s1 = (Inr ns, s2)" and
    es: "collect_loop ns {} s2 = (Inr es, s')" and
    inputs: "inputs = map (edge_input (fold package_entry ns [])) es" "cnt = length ns"
    by (auto simp: CollectEdgeInputs_def collectRepoEdgesHierarchical_def ret_def elim!: bind_Inr)
  note repo = require_repo_Inr [OF repo]
  have set_ns: "set ns = scanNode ` {n \<in> set (T_nodes (DB s)). own_node repo n}"
    and own: "NodeHash ` set ns = own_hashes repo (DB s)" and db: "DB s2 = DB s"
    using NodesByName_Inr [OF ns] unfolding repo [THEN conjunct2] by blast+
  have cnt: "length ns = length (filter (own_node repo) (T_nodes (DB s)))"
    using ns repo by (auto simp: NodesByName_def nodes_where_def own_node_def [abs_def] dest!: wrap_Inr query_Inr)
  let ?E = "{e \<in> set (T_edges (DB s)). SourceHash e \<in> own_hashes repo (DB s)}"
  note col = collect_loop_Inr [OF es, unfolded db own]
  have inj: "inj_on EdgeHash (set (T_edges (DB s)))" and pk: "primary_key NodeHash (T_nodes (DB s))"
    using assms(1) by (simp_all add: db_ok_def primary_key_def distinct_map)
  have set_es: "set es = scanEdge ` ?E"
  proof
    show "set es \<subseteq> scanEdge ` ?E" using col by blast
    show "scanEdge ` ?E \<subseteq> set es"
    proof
      fix x assume "x \<in> scanEdge ` ?E"
      then obtain e where e: "e \<in> ?E" "x = scanEdge e" by blast
      then have "EdgeHash e \<in> EdgeHash ` set es" using col by auto
      then obtain y where y: "y \<in> set es" "EdgeHash y = EdgeHash e" by auto
      then obtain e' where e': "e' \<in> ?E" "y = scanEdge e'" using col by blast
      have "EdgeHash e' = EdgeHash e" using y(2) e'(2) by simp
      with inj e(1) e'(1) have "e' = e" by (auto dest: inj_onD)
      with e(2) e'(2) y(1) show "x \<in> set es" by simp
    qed
  qed
  have "edge_input (fold package_entry ns []) (scanEdge e) =
      \<lparr>EI_EdgeHash = EdgeHash e, PackagePath = source_package (DB s) (SourceHash e), EI_EdgeType = EdgeType e\<rparr>"
    if "e \<in> ?E" for e
    using package_of_source [OF pk set_ns, of "SourceHash e"] that by (simp add: edge_input_def)
  then have "set inputs = (\<lambda>e. \<lparr>EI_EdgeHash = EdgeHash e, PackagePath = source_package (DB s) (SourceHash e),
      EI_EdgeType = EdgeType e\<rparr>) ` ?E"
    unfolding inputs(1) set_map set_es image_image by (intro image_cong) simp_all
  moreover have "map EI_EdgeHash inputs = map EdgeHash es" by (simp add: inputs(1) edge_input_def comp_def)
  ultimately show ?thesis using repo col db cnt inputs(2) by (intro exI [of _ repo]) simp
qed

lemma CollectEdgeInputs_exact_witness:
  "\<exists>inputs cnt s'. CollectEdgeInputs 1 (open_store two_repo_db []) = (Inr (inputs, cnt), s') \<and> DB s' = two_repo_db"
proof -
  let ?s = "open_store two_repo_db []"
  have repo: "require_repo 1 ?s = (Inr \<lparr>RepoHash = 1, RepoURL = ''r'', LastCommit = '''', LastIndexed = 0\<rparr>, ?s)"
    by (simp add: require_repo_def GetRepo_def bind_op_def wrap_op_def sql_simps(2) two_repo_db_def find_row_def ret_def)
  have loop: "\<exists>es. collect_loop ns seen ?s = (Inr es, ?s)" for ns seen
  proof (induction ns arbitrary: seen)
    case (Cons n ns)
    obtain new seen1 where new: "unseen (edges_where (\<lambda>e. SourceHash e = NodeHash n) two_repo_db) seen = (new, seen1)"
      by force
    obtain es where "collect_loop ns seen1 ?s = (Inr es, ?s)" using Cons.IH by blast
    with new show ?case
      by (simp add: ret_def bind_op_def node_edges_def EdgesFrom_def wrap_op_def sql_simps(2))
  qed (simp add: ret_def)
  obtain es where "collect_loop (sort_key QualifiedName (nodes_where (\<lambda>r. sql_like ''r%'' (QualifiedName r)) two_repo_db)) {} ?s
      = (Inr es, ?s)" using loop by blast
  then have "\<exists>x. CollectEdgeInputs 1 ?s = (Inr x, ?s)"
    by (simp add: CollectEdgeInputs_def collectRepoEdgesHierarchical_def bind_op_def repo NodesByName_def
        wrap_op_def sql_simps(2) ret_def)
  then obtain inputs cnt where run: "CollectEdgeInputs 1 ?s = (Inr (inputs, cnt), ?s)" by auto
  have "db_ok two_repo_db"
    by (simp add: db_ok_def two_repo_db_def empty_db_def primary_key_def sample_node_def node.defs insert_edge_def edge.defs)
  with CollectEdgeInputs_exact [OF _ run] run show ?thesis by auto
qed

end
