(* ===== verification/SnapshotVerify.thy ===== *)
theory SnapshotVerify
  imports SnapshotManager
begin

text \<open>
  internal/snapshot/verify.go: the integrity checks of a repository's graph. Dangling edges are
  classified with the help of the other databases of the roster; opening one of them is a parameter
  (\<open>NewSQLiteStore\<close> of a path, which may fail), looking a node up in it is the store model's
  \<open>GetNode\<close>.
\<close>

section \<open>Classification\<close>

definition ClassCrossRepo :: string where "ClassCrossRepo = ''cross_repo''"
definition ClassStdlib :: string where "ClassStdlib = ''stdlib''"
definition ClassTrulyDangling :: string where "ClassTrulyDangling = ''truly_dangling''"

record VerifyError =
  Level :: string
  VE_Kind :: string
  VE_Hash :: hash
  Message :: string
  Classification :: string

definition stdlibPackages :: "string list" where
  "stdlibPackages =
    [''archive'', ''bufio'', ''bytes'', ''cmp'', ''compress'', ''container'', ''context'', ''crypto'',
     ''database'', ''debug'', ''embed'', ''encoding'', ''errors'', ''expvar'', ''flag'', ''fmt'',
     ''go'', ''hash'', ''html'', ''image'', ''index'', ''io'', ''iter'', ''log'', ''maps'', ''math'',
     ''mime'', ''net'', ''os'', ''path'', ''plugin'', ''reflect'', ''regexp'', ''runtime'', ''slices'',
     ''sort'', ''strconv'', ''strings'', ''structs'', ''sync'', ''syscall'', ''testing'', ''text'',
     ''time'', ''unicode'', ''unsafe'', ''builtin'']"

definition isStdlibTarget :: "edge \<Rightarrow> bool" where
  "isStdlibTarget e =
     (if EdgeType e = ''throws'' then True
      else if EdgeType e = ''imports'' \<and> CallSiteFile e \<noteq> '''' then
        (let topPkg = (case strings_Index (CallSiteFile e) ''/'' of
                         Some firstSlash \<Rightarrow> if firstSlash > 0 then take firstSlash (CallSiteFile e) else CallSiteFile e
                       | None \<Rightarrow> CallSiteFile e)
         in topPkg \<in> set stdlibPackages)
      else False)"

definition isStdlibPackagePath :: "string \<Rightarrow> bool" where
  "isStdlibPackagePath pkgPath = (if pkgPath = '''' then False else hd (split_on (CHR ''/'') pkgPath) \<in> set stdlibPackages)"

definition levelForClassification :: "string \<Rightarrow> string" where
  "levelForClassification c = (if c = ClassCrossRepo \<or> c = ClassStdlib then ''INFO'' else ''ERROR'')"

section \<open>The roster\<close>

definition newRosterNodeLookup :: "(string \<Rightarrow> store option) \<Rightarrow> string list \<Rightarrow> string \<Rightarrow> store list" where
  "newRosterNodeLookup NewSQLiteStore rosterDBPaths localDBPath =
     List.map_filter NewSQLiteStore (filter (\<lambda>dbPath. dbPath \<noteq> localDBPath) rosterDBPaths)"

text \<open>A lookup stops at the first database that has the node; a failing lookup counts as absent.\<close>

fun existsInRoster :: "hash \<Rightarrow> store list \<Rightarrow> bool \<times> store list" where
  "existsInRoster h [] = (False, [])"
| "existsInRoster h (st # sts) =
     (case GetNode h st of
        (Inr (Some n), st') \<Rightarrow> (True, st' # sts)
      | (_, st') \<Rightarrow> (let (b, sts') = existsInRoster h sts in (b, st' # sts')))"

definition classifyDanglingEdge :: "edge \<Rightarrow> hash \<Rightarrow> store list option \<Rightarrow> string \<times> store list option" where
  "classifyDanglingEdge e targetHash rosterLookup =
     (let (found, rl) = (case rosterLookup of
            None \<Rightarrow> (False, None)
          | Some sts \<Rightarrow> (let (b, sts') = existsInRoster targetHash sts in (b, Some sts')))
      in (if found then ClassCrossRepo else if isStdlibTarget e then ClassStdlib else ClassTrulyDangling, rl))"

section \<open>The checks\<close>

type_synonym findings = "VerifyError list \<times> store list option"

definition dangling :: "edge \<Rightarrow> hash \<Rightarrow> (string \<Rightarrow> string) \<Rightarrow> findings \<Rightarrow> findings" where
  "dangling e h msg acc =
     (let (c, rl) = classifyDanglingEdge e h (snd acc) in
      (fst acc @ [\<lparr>Level = levelForClassification c, VE_Kind = ''dangling_edge'', VE_Hash = EdgeHash e,
                   Message = msg c, Classification = c\<rparr>], rl))"

definition check_end :: "string \<Rightarrow> edge \<Rightarrow> hash \<Rightarrow> (string \<Rightarrow> string) \<Rightarrow> findings \<Rightarrow> findings op" where
  "check_end what e h msg acc =
     bind_op (wrap_op what (GetNode h)) (\<lambda>n.
       case n of None \<Rightarrow> ret (dangling e h msg acc) | Some _ \<Rightarrow> ret acc)"

definition hash_error_text :: "verify_hash_error \<Rightarrow> string" where
  "hash_error_text err =
     (case err of
        NodeHashMismatch stored computed \<Rightarrow>
          ''node hash mismatch: stored='' @ Hash_String stored @ '' computed='' @ Hash_String computed
      | EdgeHashMismatch stored computed \<Rightarrow>
          ''edge hash mismatch: stored='' @ Hash_String stored @ '' computed='' @ Hash_String computed)"

definition hash_finding :: "string \<Rightarrow> hash \<Rightarrow> verify_hash_error option \<Rightarrow> findings \<Rightarrow> findings" where
  "hash_finding level h err acc =
     (case err of
        None \<Rightarrow> acc
      | Some x \<Rightarrow> (fst acc @ [\<lparr>Level = level, VE_Kind = ''hash_mismatch'', VE_Hash = h, Message = hash_error_text x,
                              Classification = ''''\<rparr>], snd acc))"

definition source_message :: "edge \<Rightarrow> string \<Rightarrow> string" where
  "source_message e c =
     ''edge '' @ Hash_String (EdgeHash e) @ '' references non-existent source node '' @ Hash_String (SourceHash e)"

definition target_message :: "edge \<Rightarrow> string \<Rightarrow> string" where
  "target_message e c =
     ''edge '' @ Hash_String (EdgeHash e) @ '' references non-existent target node '' @ Hash_String (TargetHash e) @
     '' ('' @ c @ '')''"

definition check_edge :: "sha \<Rightarrow> edge \<Rightarrow> findings \<Rightarrow> findings op" where
  "check_edge H e acc =
     bind_op (check_end ''getting source node'' e (SourceHash e) (source_message e) acc) (\<lambda>acc.
     bind_op (check_end ''getting target node'' e (TargetHash e) (target_message e) acc) (\<lambda>acc.
     ret (hash_finding ''ERROR'' (EdgeHash e) (VerifyEdgeHash H e) acc)))"

fun check_edges :: "sha \<Rightarrow> edge list \<Rightarrow> hash set \<Rightarrow> findings \<Rightarrow> (hash set \<times> findings) op" where
  "check_edges H [] edgeSeen acc = ret (edgeSeen, acc)"
| "check_edges H (e # es) edgeSeen acc =
     (if EdgeHash e \<in> edgeSeen then check_edges H es edgeSeen acc
      else bind_op (check_edge H e acc) (\<lambda>acc. check_edges H es (insert (EdgeHash e) edgeSeen) acc))"

definition check_node :: "sha \<Rightarrow> string \<Rightarrow> node \<Rightarrow> findings \<Rightarrow> findings" where
  "check_node H repoURL n acc =
     (case ExtractPackagePath (QualifiedName n) of
        Inl _ \<Rightarrow> acc
      | Inr pkgPath \<Rightarrow> hash_finding ''WARN'' (NodeHash n) (VerifyNodeHash H n repoURL pkgPath) acc)"

fun check_nodes :: "sha \<Rightarrow> string \<Rightarrow> node list \<Rightarrow> hash set \<Rightarrow> findings \<Rightarrow> findings op" where
  "check_nodes H repoURL [] edgeSeen acc = ret acc"
| "check_nodes H repoURL (n # ns) edgeSeen acc =
     bind_op (node_edges n) (\<lambda>edges.
     bind_op (check_edges H edges edgeSeen acc) (\<lambda>(seen, acc).
     check_nodes H repoURL ns seen (check_node H repoURL n acc)))"

definition broken_chain :: "snapshot \<Rightarrow> VerifyError" where
  "broken_chain snap =
     \<lparr>Level = ''ERROR'', VE_Kind = ''broken_chain'', VE_Hash = SnapshotHash snap,
      Message = ''snapshot '' @ Hash_String (SnapshotHash snap) @ '' parent '' @ Hash_String (ParentHash snap) @ '' not found'',
      Classification = ''''\<rparr>"

fun check_chain :: "snapshot list \<Rightarrow> VerifyError list \<Rightarrow> VerifyError list op" where
  "check_chain [] errs = ret errs"
| "check_chain (snap # snaps) errs =
     (if IsZero (ParentHash snap) then check_chain snaps errs
      else bind_op (wrap_op ''getting parent snapshot'' (GetSnapshot (ParentHash snap))) (\<lambda>parent.
             check_chain snaps (case parent of None \<Rightarrow> errs @ [broken_chain snap] | Some _ \<Rightarrow> errs)))"

text \<open>The checks of nodes and edges, before the snapshot chain is walked.\<close>

definition verify_graph :: "sha \<Rightarrow> (string \<Rightarrow> store option) \<Rightarrow> hash \<Rightarrow> string list \<Rightarrow> string \<Rightarrow> VerifyError list op" where
  "verify_graph H NewSQLiteStore repoHash rosterDBPaths localDBPath =
     bind_op (require_repo repoHash) (\<lambda>repo.
     bind_op (wrap_op ''querying nodes by name'' (NodesByName (RepoURL repo))) (\<lambda>nodes.
     bind_op (check_nodes H (RepoURL repo) nodes {}
        ([], Some (newRosterNodeLookup NewSQLiteStore rosterDBPaths localDBPath))) (\<lambda>(errs, _). ret errs)))"

definition Verify ::
  "sha \<Rightarrow> (string \<Rightarrow> store option) \<Rightarrow> hash \<Rightarrow> string list \<Rightarrow> string \<Rightarrow> store \<Rightarrow> ((go_error + VerifyError list) \<times> store) option" where
  "Verify H NewSQLiteStore repoHash rosterDBPaths localDBPath s =
     (case verify_graph H NewSQLiteStore repoHash rosterDBPaths localDBPath s of
        (Inl e, s1) \<Rightarrow> Some (Inl e, s1)
      | (Inr errs, s1) \<Rightarrow>
        (case walkChain repoHash s1 of
           None \<Rightarrow> None
         | Some (Inl e, s2) \<Rightarrow> Some (Inl (Wrap ''walking snapshot chain'' e), s2)
         | Some (Inr chain, s2) \<Rightarrow> Some (check_chain chain errs s2)))"

section \<open>Runs without driver failures\<close>

definition healthy :: "store \<Rightarrow> bool" where
  "healthy s \<longleftrightarrow> Faults s = [] \<and> (\<forall>h n. nodeCache s h = Some n \<longrightarrow> h \<in> NodeHash ` set (T_nodes (DB s)))"

text \<open>\<open>m\<close> succeeds from \<open>s\<close>, keeps the database and the store healthy, and its result satisfies \<open>Q\<close>.\<close>

definition runs :: "'a op \<Rightarrow> store \<Rightarrow> ('a \<Rightarrow> bool) \<Rightarrow> bool" where
  "runs m s Q \<longleftrightarrow> (\<exists>x s'. m s = (Inr x, s') \<and> DB s' = DB s \<and> healthy s' \<and> Q x)"

lemma runs_ret: "healthy s \<Longrightarrow> Q x \<Longrightarrow> runs (ret x) s Q"
  by (simp add: runs_def ret_def)

lemma runs_bind:
  assumes "runs m s P" "\<And>x s'. DB s' = DB s \<Longrightarrow> healthy s' \<Longrightarrow> P x \<Longrightarrow> runs (f x) s' Q"
  shows "runs (bind_op m f) s Q"
proof -
  from assms(1) obtain x s1 where x: "m s = (Inr x, s1)" "DB s1 = DB s" "healthy s1" "P x" by (auto simp: runs_def)
  from assms(2) [OF x(2-4)] show ?thesis by (simp add: runs_def bind_op_def x)
qed

lemma runs_wrap: "runs m s Q \<Longrightarrow> runs (wrap_op msg m) s Q"
  by (auto simp: runs_def wrap_op_def)

lemma runs_query: "healthy s \<Longrightarrow> Q (f (DB s)) \<Longrightarrow> runs (query_sql f) s Q"
  by (simp add: runs_def healthy_def sql_simps(2))

lemma runs_weaken: "runs m s P \<Longrightarrow> (\<And>x. P x \<Longrightarrow> Q x) \<Longrightarrow> runs m s Q"
  by (auto simp: runs_def)

lemma runs_GetNode:
  assumes "healthy s"
  shows "runs (GetNode h) s (\<lambda>x. x = None \<longleftrightarrow> h \<notin> NodeHash ` set (T_nodes (DB s)))"
proof (cases "nodeCache s h")
  case (Some n)
  then have "h \<in> NodeHash ` set (T_nodes (DB s))" using assms by (simp add: healthy_def)
  with Some assms show ?thesis by (simp add: runs_def GetNode_def)
next
  case None
  show ?thesis
  proof (cases "find_row NodeHash h (T_nodes (DB s))")
    case None
    then have "h \<notin> NodeHash ` set (T_nodes (DB s))" by (simp add: find_row_None_iff)
    with None \<open>nodeCache s h = None\<close> assms show ?thesis
      by (simp add: runs_def GetNode_def healthy_def sql_simps(2))
  next
    case (Some r)
    then have "h \<in> NodeHash ` set (T_nodes (DB s))" using find_row_SomeD [OF Some] by auto
    moreover from this have "healthy (cache_node h n s)" for n
      using assms by (auto simp: healthy_def cache_node_def Let_def)
    ultimately show ?thesis
      using Some \<open>nodeCache s h = None\<close> assms by (simp add: runs_def GetNode_def sql_simps(2) healthy_def [of s])
  qed
qed

definition edge_sound :: "sha \<Rightarrow> db \<Rightarrow> edge \<Rightarrow> bool" where
  "edge_sound H d e \<longleftrightarrow> SourceHash e \<in> NodeHash ` set (T_nodes d) \<and> TargetHash e \<in> NodeHash ` set (T_nodes d) \<and>
     VerifyEdgeHash H e = None"

definition node_sound :: "sha \<Rightarrow> string \<Rightarrow> node \<Rightarrow> bool" where
  "node_sound H repoURL n \<longleftrightarrow>
     (\<forall>pkg. ExtractPackagePath (QualifiedName n) = Inr pkg \<longrightarrow> VerifyNodeHash H n repoURL pkg = None)"

lemma runs_check_end:
  assumes "healthy s"
  shows "runs (check_end what e h msg acc) s
    (\<lambda>acc'. fst acc' = [] \<longleftrightarrow> fst acc = [] \<and> h \<in> NodeHash ` set (T_nodes (DB s)))"
  unfolding check_end_def
  by (rule runs_bind [OF runs_wrap [OF runs_GetNode [OF assms]]])
    (auto intro!: runs_ret simp: dangling_def case_prod_unfold Let_def split: option.splits)

lemma hash_finding_empty: "fst (hash_finding level h err acc) = [] \<longleftrightarrow> fst acc = [] \<and> err = None"
  by (simp add: hash_finding_def split: option.split)

lemma runs_check_edge:
  assumes "healthy s"
  shows "runs (check_edge H e acc) s (\<lambda>acc'. fst acc' = [] \<longleftrightarrow> fst acc = [] \<and> edge_sound H (DB s) e)"
  unfolding check_edge_def
proof (rule runs_bind [OF runs_check_end [OF assms]])
  fix a1 :: findings and s1
  assume s1: "DB s1 = DB s" "healthy s1" "fst a1 = [] \<longleftrightarrow> fst acc = [] \<and> SourceHash e \<in> NodeHash ` set (T_nodes (DB s))"
  show "runs (bind_op (check_end ''getting target node'' e (TargetHash e) (target_message e) a1)
      (\<lambda>acc. ret (hash_finding ''ERROR'' (EdgeHash e) (VerifyEdgeHash H e) acc))) s1
    (\<lambda>acc'. fst acc' = [] \<longleftrightarrow> fst acc = [] \<and> edge_sound H (DB s) e)"
    by (rule runs_bind [OF runs_check_end [OF s1(2)]])
      (auto intro!: runs_ret simp: hash_finding_empty edge_sound_def s1)
qed

lemma runs_check_edges:
  "healthy s \<Longrightarrow> \<forall>e\<in>set es. edge_sound H (DB s) e \<longleftrightarrow> good (EdgeHash e) \<Longrightarrow>
     runs (check_edges H es seen acc) s (\<lambda>(seen', acc').
       seen' = seen \<union> EdgeHash ` set es \<and>
       (fst acc' = [] \<longleftrightarrow> fst acc = [] \<and> (\<forall>h\<in>EdgeHash ` set es - seen. good h)))"
proof (induction es arbitrary: seen acc s)
  case Nil
  then show ?case by (simp add: runs_ret)
next
  case (Cons e es)
  show ?case
  proof (cases "EdgeHash e \<in> seen")
    case True
    then have "EdgeHash ` set (e # es) - seen = EdgeHash ` set es - seen"
      "seen \<union> EdgeHash ` set (e # es) = seen \<union> EdgeHash ` set es" by auto
    with True Cons show ?thesis by simp
  next
    case False
    have eq: "EdgeHash ` set (e # es) - seen = insert (EdgeHash e) (EdgeHash ` set es - insert (EdgeHash e) seen)"
      "seen \<union> EdgeHash ` set (e # es) = insert (EdgeHash e) seen \<union> EdgeHash ` set es" using False by auto
    have "runs (bind_op (check_edge H e acc) (\<lambda>acc. check_edges H es (insert (EdgeHash e) seen) acc)) s (\<lambda>(seen', acc').
       seen' = insert (EdgeHash e) seen \<union> EdgeHash ` set es \<and> (fst acc' = [] \<longleftrightarrow> fst acc = [] \<and>
         (\<forall>h\<in>insert (EdgeHash e) (EdgeHash ` set es - insert (EdgeHash e) seen). good h)))"
    proof (rule runs_bind [OF runs_check_edge [OF Cons.prems(1)]])
      fix a1 :: findings and s1
      assume s1: "DB s1 = DB s" "healthy s1" "fst a1 = [] \<longleftrightarrow> fst acc = [] \<and> edge_sound H (DB s) e"
      have rest: "\<forall>e\<in>set es. edge_sound H (DB s1) e \<longleftrightarrow> good (EdgeHash e)" using Cons.prems(2) s1(1) by simp
      show "runs (check_edges H es (insert (EdgeHash e) seen) a1) s1 (\<lambda>(seen', acc').
         seen' = insert (EdgeHash e) seen \<union> EdgeHash ` set es \<and> (fst acc' = [] \<longleftrightarrow> fst acc = [] \<and>
           (\<forall>h\<in>insert (EdgeHash e) (EdgeHash ` set es - insert (EdgeHash e) seen). good h)))"
        using s1(3) Cons.prems(2) by (intro runs_weaken [OF Cons.IH [OF s1(2) rest]]) auto
    qed
    with False show ?thesis unfolding eq by simp
  qed
qed

lemma check_node_empty:
  "fst (check_node H url n acc) = [] \<longleftrightarrow> fst acc = [] \<and> node_sound H url n"
  by (auto simp: check_node_def node_sound_def hash_finding_empty split: sum.splits)

lemma runs_node_edges:
  "healthy s \<Longrightarrow> runs (node_edges n) s (\<lambda>es. es = edges_where (\<lambda>e. SourceHash e = NodeHash n) (DB s))"
  unfolding node_edges_def EdgesFrom_def by (rule runs_wrap, rule runs_query) simp_all

lemma runs_check_nodes:
  "healthy s \<Longrightarrow> \<forall>e\<in>set (T_edges (DB s)). edge_sound H (DB s) (scanEdge e) \<longleftrightarrow> good (EdgeHash e) \<Longrightarrow>
     runs (check_nodes H url ns seen acc) s (\<lambda>acc'. fst acc' = [] \<longleftrightarrow> fst acc = [] \<and>
       (\<forall>h\<in>EdgeHash ` {e \<in> set (T_edges (DB s)). SourceHash e \<in> NodeHash ` set ns} - seen. good h) \<and>
       (\<forall>n\<in>set ns. node_sound H url n))"
proof (induction ns arbitrary: seen acc s)
  case Nil
  then show ?case by (simp add: runs_ret)
next
  case (Cons n ns)
  let ?d = "DB s"
  let ?X = "EdgeHash ` {e \<in> set (T_edges ?d). SourceHash e = NodeHash n}"
  let ?Y = "EdgeHash ` {e \<in> set (T_edges ?d). SourceHash e \<in> NodeHash ` set ns}"
  have split: "EdgeHash ` {e \<in> set (T_edges ?d). SourceHash e \<in> NodeHash ` set (n # ns)} - seen
      = (?X - seen) \<union> (?Y - (seen \<union> ?X))" by auto
  show ?case
    unfolding check_nodes.simps split
  proof (rule runs_bind [OF runs_node_edges [OF Cons.prems(1)]])
    fix es s1
    assume s1: "DB s1 = ?d" "healthy s1" "es = edges_where (\<lambda>e. SourceHash e = NodeHash n) ?d"
    have hashes: "EdgeHash ` set es = ?X" by (simp add: s1(3) edges_where_def image_image)
    have good: "\<forall>e\<in>set es. edge_sound H (DB s1) e \<longleftrightarrow> good (EdgeHash e)"
      using Cons.prems(2) by (auto simp: s1 edges_where_def)
    show "runs (bind_op (check_edges H es seen acc) (\<lambda>(seen, acc). check_nodes H url ns seen (check_node H url n acc))) s1
      (\<lambda>acc'. fst acc' = [] \<longleftrightarrow> fst acc = [] \<and> (\<forall>h\<in>(?X - seen) \<union> (?Y - (seen \<union> ?X)). good h) \<and>
        (\<forall>n\<in>set (n # ns). node_sound H url n))"
    proof (rule runs_bind [OF runs_check_edges [OF s1(2) good]], clarify)
      fix s2 :: store and seen' and l :: "VerifyError list" and rl :: "store list option"
      assume s2: "DB s2 = DB s1" "healthy s2" "fst (l, rl) = [] \<longleftrightarrow> fst acc = [] \<and> (\<forall>h\<in>EdgeHash ` set es - seen. good h)"
      have db: "DB s2 = ?d" using s2(1) s1(1) by simp
      have "\<forall>e\<in>set (T_edges (DB s2)). edge_sound H (DB s2) (scanEdge e) \<longleftrightarrow> good (EdgeHash e)"
        using Cons.prems(2) by (simp add: db)
      note ih = Cons.IH [OF s2(2) this, of "seen \<union> EdgeHash ` set es" "check_node H url n (l, rl)"]
      show "runs (check_nodes H url ns (seen \<union> EdgeHash ` set es) (check_node H url n (l, rl))) s2
        (\<lambda>acc'. fst acc' = [] \<longleftrightarrow> fst acc = [] \<and> (\<forall>h\<in>(?X - seen) \<union> (?Y - (seen \<union> ?X)). good h) \<and>
          (\<forall>n\<in>set (n # ns). node_sound H url n))"
        by (rule runs_weaken [OF ih])
          (use s2(3) in \<open>simp only: check_node_empty hashes db ball_Un list.set ball_simps, blast\<close>)
    qed
  qed
qed

lemma check_chain_run:
  assumes "Faults s = []"
  shows "check_chain snaps errs s = (Inr (errs @ map broken_chain
    (filter (\<lambda>x. \<not> IsZero (ParentHash x) \<and> parent_of (DB s) x = None) snaps)), s)"
  by (induction snaps arbitrary: errs)
    (auto simp: ret_def bind_op_def GetSnapshot_run [OF assms] parent_of_def split: option.split)

lemma scanNode_own: "NodeHash ` scanNode ` X = NodeHash ` X"
  by (simp add: image_image scanNode_def node.defs)

lemma verify_graph_runs:
  assumes "healthy s" "db_ok (DB s)" "find_row RepoHash r (T_repos (DB s)) = Some repo"
  shows "runs (verify_graph H op r paths local) s (\<lambda>errs. errs = [] \<longleftrightarrow>
     (\<forall>e\<in>set (T_edges (DB s)). SourceHash e \<in> own_hashes repo (DB s) \<longrightarrow> edge_sound H (DB s) (scanEdge e)) \<and>
     (\<forall>n\<in>set (T_nodes (DB s)). own_node repo n \<longrightarrow> node_sound H (RepoURL repo) (scanNode n)))"
proof -
  let ?d = "DB s"
  have ok: "Faults s = []" using assms(1) by (simp add: healthy_def)
  have repo: "require_repo r s = (Inr repo, s)"
    using assms(3) ok by (simp add: require_repo_def GetRepo_def bind_op_def wrap_op_def sql_simps(2) ret_def)
  let ?ns = "sort_key QualifiedName (nodes_where (\<lambda>n. sql_like (RepoURL repo @ ''%'') (QualifiedName n)) ?d)"
  have ns: "wrap_op m (NodesByName (RepoURL repo)) s = (Inr ?ns, s)" for m
    using ok by (simp add: NodesByName_def wrap_op_def sql_simps(2))
  have set_ns: "set ?ns = scanNode ` {n \<in> set (T_nodes ?d). own_node repo n}"
    by (auto simp: nodes_where_def own_node_def)
  define good where "good h \<longleftrightarrow> (\<exists>e\<in>set (T_edges ?d). EdgeHash e = h \<and> edge_sound H ?d (scanEdge e))" for h
  have "inj_on EdgeHash (set (T_edges ?d))"
    using assms(2) by (simp add: db_ok_def primary_key_def distinct_map)
  then have good: "\<forall>e\<in>set (T_edges ?d). edge_sound H ?d (scanEdge e) \<longleftrightarrow> good (EdgeHash e)"
    unfolding good_def by (metis inj_onD)
  have hashes: "NodeHash ` set ?ns = own_hashes repo ?d" unfolding set_ns scanNode_own own_hashes_def ..
  have "runs (check_nodes H (RepoURL repo) ?ns {} ([], Some (newRosterNodeLookup op paths local))) s (\<lambda>acc'. fst acc' = [] \<longleftrightarrow>
     (\<forall>e\<in>set (T_edges ?d). SourceHash e \<in> own_hashes repo ?d \<longrightarrow> edge_sound H ?d (scanEdge e)) \<and>
     (\<forall>n\<in>set (T_nodes ?d). own_node repo n \<longrightarrow> node_sound H (RepoURL repo) (scanNode n)))"
    by (rule runs_weaken [OF runs_check_nodes [OF assms(1) good]], simp only: hashes)
      (use good in \<open>auto simp: set_ns simp del: set_sort\<close>)
  then show ?thesis
    by (auto simp: runs_def verify_graph_def bind_op_def repo ns ret_def)
qed

section \<open>What a verification reports\<close>

lemma walkChain_same_db:
  assumes "walkChain r s = Some (Inr chain, s)" "Faults s = []" "Faults s' = []" "DB s' = DB s"
  shows "walkChain r s' = Some (Inr chain, s')"
  using assms(1) unfolding walkChain_iff [OF assms(2)] walkChain_iff [OF assms(3)] assms(4) by simp

text \<open>
  C13. Verification is exact about cleanness: on a healthy store whose snapshot chain is finite it
  succeeds without touching the database, and it reports nothing exactly when every edge whose
  source carries the repository's name prefix has both ends and its recomputed hash, every such
  node with a package path has its recomputed hash, and every parent named on the chain exists.
  This holds for every roster: other databases change the classification only.
\<close>

theorem Verify_clean:
  assumes "healthy s" "db_ok (DB s)" "find_row RepoHash r (T_repos (DB s)) = Some repo"
    "walkChain r s = Some (Inr chain, s)"
  shows "\<exists>errs s'. Verify H op r paths local s = Some (Inr errs, s') \<and> DB s' = DB s \<and>
    (errs = [] \<longleftrightarrow>
       (\<forall>e\<in>set (T_edges (DB s)). SourceHash e \<in> own_hashes repo (DB s) \<longrightarrow> edge_sound H (DB s) (scanEdge e)) \<and>
       (\<forall>n\<in>set (T_nodes (DB s)). own_node repo n \<longrightarrow> node_sound H (RepoURL repo) (scanNode n)) \<and>
       (\<forall>x\<in>set chain. IsZero (ParentHash x) \<or> parent_of (DB s) x \<noteq> None))"
proof -
  from verify_graph_runs [OF assms(1-3), unfolded runs_def, of H op paths local] obtain errs s1 where
    run: "verify_graph H op r paths local s = (Inr errs, s1)" "DB s1 = DB s" "healthy s1" and
    errs: "errs = [] \<longleftrightarrow>
       (\<forall>e\<in>set (T_edges (DB s)). SourceHash e \<in> own_hashes repo (DB s) \<longrightarrow> edge_sound H (DB s) (scanEdge e)) \<and>
       (\<forall>n\<in>set (T_nodes (DB s)). own_node repo n \<longrightarrow> node_sound H (RepoURL repo) (scanNode n))"
    by (elim exE conjE) (rule that)
  have ok: "Faults s = []" "Faults s1 = []" using assms(1) run(3) by (simp_all add: healthy_def)
  have "walkChain r s1 = Some (Inr chain, s1)"
    using walkChain_same_db [OF assms(4) ok run(2)] .
  then have verify: "Verify H op r paths local s = Some (Inr (errs @ map broken_chain
      (filter (\<lambda>x. \<not> IsZero (ParentHash x) \<and> parent_of (DB s) x = None) chain)), s1)"
    by (simp add: Verify_def run(1) check_chain_run [OF ok(2)] run(2))
  show ?thesis
    by (intro exI conjI, rule verify, rule run(2))
      (simp only: append_is_Nil_conv map_is_Nil_conv filter_empty_conv errs, simp)
qed

definition clean_db :: db where
  "clean_db = empty_db\<lparr>T_repos := [\<lparr>RepoHash = 1, RepoURL = ''r'', LastCommit = '''', LastIndexed = 0\<rparr>]\<rparr>"

theorem Verify_clean_witness:
  "\<exists>s'. Verify length_sha (\<lambda>_. None) 1 [''other.db''] ''this.db'' (open_store clean_db []) = Some (Inr [], s')"
proof -
  have "walkChain 1 (open_store clean_db []) = Some (Inr [], open_store clean_db [])"
    by (simp add: walkChain_iff clean_db_def empty_db_def latest_of_def)
  from Verify_clean [OF _ _ _ this, of "\<lparr>RepoHash = 1, RepoURL = ''r'', LastCommit = '''', LastIndexed = 0\<rparr>"
      length_sha "\<lambda>_. None" "[''other.db'']" "''this.db''"]
  show ?thesis
    by (auto simp: healthy_def clean_db_def empty_db_def db_ok_def primary_key_def find_row_def)
qed

text \<open>
  C14. Garbage collection and verification disagree: whenever collecting a finite chain removes a
  snapshot, verifying the repository afterwards reports an error, \<open>broken_chain\<close>, for the oldest
  snapshot that was kept.
\<close>

theorem Verify_after_GarbageCollect:
  assumes "healthy s" "db_ok (DB s)" "find_row RepoHash r (T_repos (DB s)) = Some repo"
    "walkChain r s = Some (Inr chain, s)" "1 \<le> keep" "keep < int (length chain)"
  shows "\<exists>removed s1 errs s2. GarbageCollect r keep s = Some ((removed, None), s1) \<and>
    Verify H op r paths local s1 = Some (Inr errs, s2) \<and>
    broken_chain (chain ! (nat keep - 1)) \<in> set errs \<and> Level (broken_chain (chain ! (nat keep - 1))) = ''ERROR''"
proof -
  let ?k = "nat keep" and ?x = "chain ! (nat keep - 1)" and ?y = "chain ! nat keep"
  let ?dead = "SnapshotHash ` set (drop ?k chain)"
  let ?s1 = "s\<lparr>DB := drop_snapshots ?dead (DB s)\<rparr>"
  have ok: "Faults s = []" using assms(1) by (simp add: healthy_def)
  note gc = GarbageCollect_run [OF ok assms(2,4,5)]
  have len: "0 < ?k" "?k < length chain" using assms(5,6) by auto
  obtain l where l: "repo_latest r (DB s) = Some l" "chain_from (DB s) l chain"
    using assms(4) len(2) by (auto simp: walkChain_iff [OF ok] split: option.splits)
  have par: "\<forall>i. Suc i < length ps \<longrightarrow> \<not> IsZero (ParentHash (ps ! i)) \<and> ParentHash (ps ! i) = SnapshotHash (ps ! Suc i)"
    if "chain_from (DB s) z ps" for z ps
    using that
  proof (induction rule: chain_from.induct)
    case (chain_link x p ps)
    have px: "\<not> IsZero (ParentHash x)" "ParentHash x = SnapshotHash p"
      using chain_link.hyps(1) find_row_SomeD by (fastforce simp: parent_of_def split: if_splits)+
    obtain qs where qs: "ps = p # qs" using chain_from_hd [OF chain_link.hyps(2)] by blast
    show ?case
    proof (intro allI impI)
      fix i assume i: "Suc i < length (x # ps)"
      show "\<not> IsZero (ParentHash ((x # ps) ! i)) \<and> ParentHash ((x # ps) ! i) = SnapshotHash ((x # ps) ! Suc i)"
        using px qs chain_link.IH [rule_format, of "i - 1"] i by (cases i) auto
    qed
  qed simp
  have x: "\<not> IsZero (ParentHash ?x)" "ParentHash ?x = SnapshotHash ?y"
    using par [OF l(2), rule_format, of "?k - 1"] len unfolding Suc_diff_1 [OF len(1)] by blast+
  have "?y \<in> set (drop ?k chain)" using len by (auto simp: Cons_nth_drop_Suc [symmetric])
  then have "SnapshotHash ?y \<in> ?dead" by blast
  then have "parent_of (DB ?s1) ?x = None"
    using x by (auto simp: parent_of_def drop_snapshots_def delete_where_def find_row_None_iff)
  moreover have "?x \<in> set (take ?k chain)"
    using len by (metis Suc_diff_1 diff_less in_set_conv_nth length_take less_Suc_eq_le linorder_not_le min.absorb2
        nat_less_le nth_take order.strict_implies_order zero_less_one)
  moreover have "healthy ?s1" "db_ok (DB ?s1)" "find_row RepoHash r (T_repos (DB ?s1)) = Some repo"
    using assms(1-3) by (auto simp: healthy_def drop_snapshots_def db_ok_def delete_where_def [of _ "T_events (DB s)"])
  moreover from verify_graph_runs [OF this] obtain errs s2 where
    run: "verify_graph H op r paths local ?s1 = (Inr errs, s2)" "DB s2 = DB ?s1" "healthy s2"
    unfolding runs_def by blast
  moreover have "walkChain r s2 = Some (Inr (take ?k chain), s2)"
    using walkChain_same_db [OF gc(2)] ok run(2,3) by (simp add: healthy_def)
  ultimately show ?thesis
    using gc(1) x(1) by (auto simp: Verify_def check_chain_run healthy_def broken_chain_def)
qed

definition second_snapshot :: snapshot where
  "second_snapshot = first_snapshot\<lparr>SnapshotHash := 42, ParentHash := 41, Timestamp := 1, Generation := 1\<rparr>"

definition chain_db :: db where
  "chain_db = clean_db\<lparr>T_snapshots := [first_snapshot, second_snapshot]\<rparr>"

theorem Verify_after_GarbageCollect_witness:
  "\<exists>removed s1 errs s2. GarbageCollect 1 1 (open_store chain_db []) = Some ((removed, None), s1) \<and>
    Verify length_sha (\<lambda>_. None) 1 [] '''' s1 = Some (Inr errs, s2) \<and> broken_chain second_snapshot \<in> set errs"
proof -
  have par: "parent_of chain_db first_snapshot = None" "parent_of chain_db second_snapshot = Some first_snapshot"
    by (simp_all add: parent_of_def chain_db_def first_snapshot_def second_snapshot_def IsZero_def EmptyHash_def find_row_def)
  note chain_link [OF par(2) chain_end [OF par(1)]]
  moreover have "repo_latest 1 chain_db = Some second_snapshot"
    by (rule latest_of_newest) (auto simp: chain_db_def first_snapshot_def second_snapshot_def)
  ultimately have walk: "walkChain 1 (open_store chain_db []) = Some (Inr [second_snapshot, first_snapshot], open_store chain_db [])"
    by (simp add: walkChain_iff)
  have ok: "healthy (open_store chain_db [])" "db_ok (DB (open_store chain_db []))"
    "find_row RepoHash 1 (T_repos (DB (open_store chain_db []))) = Some \<lparr>RepoHash = 1, RepoURL = ''r'', LastCommit = '''', LastIndexed = 0\<rparr>"
    by (simp_all add: healthy_def db_ok_def chain_db_def clean_db_def empty_db_def primary_key_def find_row_def
        first_snapshot_def second_snapshot_def)
  from Verify_after_GarbageCollect [OF ok walk, of 1 length_sha "\<lambda>_. None" "[]" "''''"]
  show ?thesis by auto
qed

end
