(* ===== verification/Resolver.thy ===== *)
theory Resolver
  imports StoreProps
begin

text \<open>
  internal/resolver/resolver.go: retargeting dangling edges to nodes of other repositories. The
  resolver is written against a small Store interface; here its operations are parameters of the
  definitions, the locale \<open>edge_store\<close> states what the resolver relies on, and the SQLite model
  interprets it.
\<close>

section \<open>Recovering the hash inputs from a qualified name\<close>

definition extractHashInputs :: "node \<Rightarrow> string \<times> string \<times> string" where
  "extractHashInputs n =
     (case strings_LastIndex (QualifiedName n) ''://'' of
        None \<Rightarrow> ('''', '''', '''')
      | Some sep \<Rightarrow>
          (let repoURL = take sep (QualifiedName n);
               remainder = drop (sep + 3) (QualifiedName n)
           in case strings_LastIndex remainder ''.'' of
                None \<Rightarrow> (repoURL, remainder, '''')
              | Some lastDot \<Rightarrow>
                  (let symbolName = drop (lastDot + 1) remainder;
                       pre = take lastDot remainder
                   in if Kind n = ''method'' then
                        (case strings_LastIndex pre ''.'' of
                           Some secondLastDot \<Rightarrow> (repoURL, take secondLastDot pre, symbolName)
                         | None \<Rightarrow> (repoURL, pre, symbolName))
                      else (repoURL, pre, symbolName))))"

section \<open>The table of wrong hashes\<close>

definition wrong_hashes :: "sha \<Rightarrow> string list \<Rightarrow> node \<Rightarrow> (hash, node) gomap \<Rightarrow> (hash, node) gomap" where
  "wrong_hashes H repoURLs n m =
     (let (nodeRepoURL, pkgPath, symbolName) = extractHashInputs n in
      if nodeRepoURL = '''' \<or> symbolName = '''' then m
      else if ComputeNodeHash H nodeRepoURL pkgPath EmptyHash symbolName (Kind n) \<noteq> NodeHash n then m
      else fold (\<lambda>candidateURL m. if candidateURL = nodeRepoURL then m
                   else gomap_set (ComputeNodeHash H candidateURL pkgPath EmptyHash symbolName (Kind n)) n m)
             repoURLs m)"

definition wrongHashToNode :: "sha \<Rightarrow> node list \<Rightarrow> string list \<Rightarrow> (hash, node) gomap" where
  "wrongHashToNode H allNodes repoURLs = fold (wrong_hashes H repoURLs) allNodes []"

section \<open>Resolving\<close>

record ResolveResult =
  OriginalEdge :: edge
  ResolvedNode :: "node option"
  Action :: string
  Reason :: string

record ResolveStats =
  TotalDangling :: nat
  Retargeted :: nat
  Skipped :: nat
  Errors :: nat

text \<open>\<open>err.Error()\<close>; the driver's own message is not modelled.\<close>

fun error_text :: "go_error \<Rightarrow> string" where
  "error_text DriverError = ''driver error''"
| "error_text (Errorf msg) = msg"
| "error_text (Wrap msg e) = msg @ '': '' @ error_text e"

definition retargeted :: "sha \<Rightarrow> edge \<Rightarrow> node \<Rightarrow> edge" where
  "retargeted H e n =
     \<lparr>EdgeHash = ComputeEdgeHash H (SourceHash e) (NodeHash n) (EdgeType e) (Provenance e),
      SourceHash = SourceHash e, TargetHash = NodeHash n, EdgeType = EdgeType e,
      Confidence = Confidence e, Provenance = Provenance e, CallSiteLine = 0, CallSiteCol = 0,
      CallSiteFile = '''', ObservationCount = 0, LastObserved = 0\<rparr>"

definition skipped :: "edge \<Rightarrow> string \<Rightarrow> ResolveResult" where
  "skipped e reason = \<lparr>OriginalEdge = e, ResolvedNode = None, Action = ''skipped'', Reason = reason\<rparr>"

text \<open>
  One round of the loop over the dangling edges. The Store operations are arguments, on a store
  type \<open>'s\<close>: \<open>del\<close> is DeleteEdge, \<open>put\<close> is PutEdge.
\<close>

definition resolve_edge ::
  "sha \<Rightarrow> (hash \<Rightarrow> 's \<Rightarrow> (go_error + unit) \<times> 's) \<Rightarrow> (edge \<Rightarrow> 's \<Rightarrow> (go_error + unit) \<times> 's) \<Rightarrow>
   (hash, node) gomap \<Rightarrow> edge \<Rightarrow> (ResolveResult list \<times> ResolveStats) \<times> 's \<Rightarrow> (ResolveResult list \<times> ResolveStats) \<times> 's"
where
  "resolve_edge H del put table e acc =
     (case acc of ((results, stats), s) \<Rightarrow>
        (case map_of table (TargetHash e) of
           None \<Rightarrow> ((results @ [skipped e ''no matching node found in any repo''], stats\<lparr>Skipped := Skipped stats + 1\<rparr>), s)
         | Some resolvedNode \<Rightarrow>
             (case del (EdgeHash e) s of
                (Inl err, s1) \<Rightarrow>
                  ((results @ [skipped e (''delete failed: '' @ error_text err)], stats\<lparr>Errors := Errors stats + 1\<rparr>), s1)
              | (Inr _, s1) \<Rightarrow>
                  (case put (retargeted H e resolvedNode) s1 of
                     (Inl err, s2) \<Rightarrow>
                       ((results @ [skipped e (''put failed: '' @ error_text err)], stats\<lparr>Errors := Errors stats + 1\<rparr>), s2)
                   | (Inr _, s2) \<Rightarrow>
                       ((results @ [\<lparr>OriginalEdge = e, ResolvedNode = Some resolvedNode, Action = ''retargeted'',
                                     Reason = ''matched node in repo '' @ QualifiedName resolvedNode\<rparr>],
                         stats\<lparr>Retargeted := Retargeted stats + 1\<rparr>), s2)))))"

definition ResolveWithDetails ::
  "sha \<Rightarrow> ('s \<Rightarrow> (go_error + edge list) \<times> 's) \<Rightarrow> ('s \<Rightarrow> (go_error + repo list) \<times> 's) \<Rightarrow>
   (string \<Rightarrow> 's \<Rightarrow> (go_error + node list) \<times> 's) \<Rightarrow> (hash \<Rightarrow> 's \<Rightarrow> (go_error + unit) \<times> 's) \<Rightarrow>
   (edge \<Rightarrow> 's \<Rightarrow> (go_error + unit) \<times> 's) \<Rightarrow> 's \<Rightarrow> (go_error + ResolveResult list \<times> ResolveStats) \<times> 's"
where
  "ResolveWithDetails H getDangling repos byName del put s =
     (case getDangling s of
        (Inl e, s1) \<Rightarrow> (Inl e, s1)
      | (Inr danglingEdges, s1) \<Rightarrow>
          (let stats = \<lparr>TotalDangling = length danglingEdges, Retargeted = 0, Skipped = 0, Errors = 0\<rparr> in
           if length danglingEdges = 0 then (Inr ([], stats), s1)
           else (case byName '''' s1 of
                   (Inl e, s2) \<Rightarrow> (Inl e, s2)
                 | (Inr allNodes, s2) \<Rightarrow>
                     (case repos s2 of
                        (Inl e, s3) \<Rightarrow> (Inl e, s3)
                      | (Inr rs, s3) \<Rightarrow>
                          (let (r, s4) = fold (resolve_edge H del put (wrongHashToNode H allNodes (map RepoURL rs)))
                                           danglingEdges (([], stats), s3)
                           in (Inr r, s4))))))"

definition Resolve ::
  "sha \<Rightarrow> ('s \<Rightarrow> (go_error + edge list) \<times> 's) \<Rightarrow> ('s \<Rightarrow> (go_error + repo list) \<times> 's) \<Rightarrow>
   (string \<Rightarrow> 's \<Rightarrow> (go_error + node list) \<times> 's) \<Rightarrow> (hash \<Rightarrow> 's \<Rightarrow> (go_error + unit) \<times> 's) \<Rightarrow>
   (edge \<Rightarrow> 's \<Rightarrow> (go_error + unit) \<times> 's) \<Rightarrow> 's \<Rightarrow> (go_error + ResolveStats) \<times> 's"
where
  "Resolve H getDangling repos byName del put s =
     (case ResolveWithDetails H getDangling repos byName del put s of (r, s') \<Rightarrow> (map_sum id snd r, s'))"

section \<open>What the table holds\<close>

text \<open>\<open>n\<close> is a node whose stored hash its name explains, and \<open>h\<close> its hash under the URL of another repository.\<close>

definition wrong_hash_of :: "sha \<Rightarrow> string set \<Rightarrow> node \<Rightarrow> hash \<Rightarrow> bool" where
  "wrong_hash_of H repoURLs n h \<longleftrightarrow>
     (\<exists>url pkg symb cand. extractHashInputs n = (url, pkg, symb) \<and> url \<noteq> '''' \<and> symb \<noteq> '''' \<and>
        ComputeNodeHash H url pkg EmptyHash symb (Kind n) = NodeHash n \<and>
        cand \<in> repoURLs \<and> cand \<noteq> url \<and> h = ComputeNodeHash H cand pkg EmptyHash symb (Kind n))"

lemma fold_candidates:
  "map_of (fold (\<lambda>c m. if c = url then m else gomap_set (f c) n m) cs m) h = Some x \<Longrightarrow>
     map_of m h = Some x \<or> (x = n \<and> (\<exists>c\<in>set cs. c \<noteq> url \<and> h = f c))"
proof (induction cs arbitrary: m)
  case (Cons c cs)
  show ?case
  proof (cases "c = url")
    case True
    with Cons show ?thesis by fastforce
  next
    case False
    from Cons.prems False
    have "map_of (fold (\<lambda>c m. if c = url then m else gomap_set (f c) n m) cs (gomap_set (f c) n m)) h = Some x" by simp
    from Cons.IH [OF this] False show ?thesis by (auto split: if_splits)
  qed
qed simp

lemma wrong_hashes_Some:
  "map_of (wrong_hashes H urls n m) h = Some x \<Longrightarrow> map_of m h = Some x \<or> (x = n \<and> wrong_hash_of H (set urls) n h)"
  by (auto simp: wrong_hashes_def wrong_hash_of_def split: prod.splits if_splits dest!: fold_candidates)

lemma table_Some:
  "map_of (fold (wrong_hashes H urls) ns m) h = Some x \<Longrightarrow>
     map_of m h = Some x \<or> (x \<in> set ns \<and> wrong_hash_of H (set urls) x h)"
proof (induction ns arbitrary: m)
  case (Cons n ns)
  then have "map_of (wrong_hashes H urls n m) h = Some x \<or> (x \<in> set ns \<and> wrong_hash_of H (set urls) x h)" by simp
  then show ?case using wrong_hashes_Some [of H urls n m h x] by auto
qed simp

lemma wrongHashToNode_Some:
  "map_of (wrongHashToNode H ns urls) h = Some n \<Longrightarrow> n \<in> set ns \<and> wrong_hash_of H (set urls) n h"
  using table_Some [of H urls ns "[]"] by (simp add: wrongHashToNode_def)

section \<open>The Store interface\<close>

text \<open>
  What the resolver relies on of its Store: which edges and which node hashes a store holds, and
  what each operation does to them. A failing operation changes nothing.
\<close>

locale edge_store =
  fixes edges :: "'s \<Rightarrow> edge set"
    and nodes :: "'s \<Rightarrow> hash set"
    and urls :: "'s \<Rightarrow> string set"
    and danglingEdges :: "'s \<Rightarrow> (go_error + edge list) \<times> 's"
    and allRepos :: "'s \<Rightarrow> (go_error + repo list) \<times> 's"
    and byName :: "string \<Rightarrow> 's \<Rightarrow> (go_error + node list) \<times> 's"
    and del :: "hash \<Rightarrow> 's \<Rightarrow> (go_error + unit) \<times> 's"
    and put :: "edge \<Rightarrow> 's \<Rightarrow> (go_error + unit) \<times> 's"
  assumes danglingEdges_Inr: "danglingEdges s = (Inr es, s') \<Longrightarrow>
      set es = {e \<in> edges s. TargetHash e \<notin> nodes s} \<and> edges s' = edges s \<and> nodes s' = nodes s \<and> urls s' = urls s"
    and byName_Inr: "byName '''' s = (Inr ns, s') \<Longrightarrow> 
      NodeHash ` set ns = nodes s \<and> edges s' = edges s \<and> nodes s' = nodes s \<and> urls s' = urls s"
    and allRepos_Inr: "allRepos s = (Inr rs, s') \<Longrightarrow> RepoURL ` set rs = urls s \<and> edges s' = edges s \<and> nodes s' = nodes s"
    and del_Inr: "del h s = (Inr u, s') \<Longrightarrow> edges s' = {e \<in> edges s. EdgeHash e \<noteq> h} \<and> nodes s' = nodes s"
    and del_Inl: "del h s = (Inl x, s') \<Longrightarrow> edges s' = edges s \<and> nodes s' = nodes s"
    and put_Inr: "put e s = (Inr u, s') \<Longrightarrow> ObservationCount e = 0 \<Longrightarrow> LastObserved e = 0 \<Longrightarrow>
      edges s' = insert e {x \<in> edges s. EdgeHash x \<noteq> EdgeHash e} \<and> nodes s' = nodes s"
    and put_Inl: "put e s = (Inl x, s') \<Longrightarrow> edges s' = edges s \<and> nodes s' = nodes s"
begin

abbreviation resolve_all :: "sha \<Rightarrow> (hash, node) gomap \<Rightarrow> edge list \<Rightarrow>
    (ResolveResult list \<times> ResolveStats) \<times> 's \<Rightarrow> (ResolveResult list \<times> ResolveStats) \<times> 's" where
  "resolve_all H table \<equiv> fold (resolve_edge H del put table)"

lemma retargeted_unobserved [simp]:
  "ObservationCount (retargeted H e n) = 0" "LastObserved (retargeted H e n) = 0"
  "TargetHash (retargeted H e n) = NodeHash n" "SourceHash (retargeted H e n) = SourceHash e"
  by (simp_all add: retargeted_def)

text \<open>One round: bookkeeping, and the edges afterwards.\<close>

lemma resolve_edge_round:
  assumes "resolve_edge H del put table e ((rs, st), s) = ((rs', st'), s')"
  shows "map OriginalEdge rs' = map OriginalEdge rs @ [e]" "nodes s' = nodes s"
    "Retargeted st' + Skipped st' + Errors st' = Suc (Retargeted st + Skipped st + Errors st)"
    "TotalDangling st' = TotalDangling st" "Errors st \<le> Errors st'"
    "edges s' \<subseteq> edges s \<union> {retargeted H e n | n. map_of table (TargetHash e) = Some n}"
    "Errors st' = Errors st \<Longrightarrow> map_of table (TargetHash e) = Some n \<Longrightarrow>
       edges s' = insert (retargeted H e n) {x \<in> edges s. EdgeHash x \<noteq> EdgeHash e \<and> EdgeHash x \<noteq> EdgeHash (retargeted H e n)}"
    "map_of table (TargetHash e) = None \<Longrightarrow> edges s' = edges s"
    "list_all (\<lambda>r. \<forall>n. ResolvedNode r = Some n \<longrightarrow> map_of table (TargetHash (OriginalEdge r)) = Some n) rs \<Longrightarrow>
       list_all (\<lambda>r. \<forall>n. ResolvedNode r = Some n \<longrightarrow> map_of table (TargetHash (OriginalEdge r)) = Some n) rs'"
proof -
  consider (none) "map_of table (TargetHash e) = None" "rs' = rs @ [skipped e ''no matching node found in any repo'']"
      "st' = st\<lparr>Skipped := Skipped st + 1\<rparr>" "s' = s"
    | (failed) m msg where "map_of table (TargetHash e) = Some m" "rs' = rs @ [skipped e msg]" "st' = st\<lparr>Errors := Errors st + 1\<rparr>"
      "edges s' \<subseteq> edges s" "nodes s' = nodes s"
    | (moved) m s1 msg where "map_of table (TargetHash e) = Some m" "del (EdgeHash e) s = (Inr (), s1)"
      "put (retargeted H e m) s1 = (Inr (), s')" "st' = st\<lparr>Retargeted := Retargeted st + 1\<rparr>"
      "rs' = rs @ [\<lparr>OriginalEdge = e, ResolvedNode = Some m, Action = ''retargeted'', Reason = msg\<rparr>]"
  proof (cases "map_of table (TargetHash e)")
    case None
    with assms none show thesis by (simp add: resolve_edge_def)
  next
    case (Some m)
    obtain r1 s1 where d: "del (EdgeHash e) s = (r1, s1)" by force
    show thesis
    proof (cases r1)
      case (Inl x)
      with assms Some d del_Inl [of "EdgeHash e" s x s1] show thesis
        by (intro failed [of m "''delete failed: '' @ error_text x"]) (auto simp: resolve_edge_def)
    next
      case (Inr u)
      obtain r2 s2 where p: "put (retargeted H e m) s1 = (r2, s2)" by force
      show thesis
      proof (cases r2)
        case (Inl x)
        with assms Some d p \<open>r1 = Inr u\<close> del_Inr [of "EdgeHash e" s u s1] put_Inl [of "retargeted H e m" s1 x s2] show thesis
          by (intro failed [of m "''put failed: '' @ error_text x"]) (auto simp: resolve_edge_def)
      next
        case (Inr v)
        with assms Some d p \<open>r1 = Inr u\<close> show thesis
          by (intro moved [of m s1 "''matched node in repo '' @ QualifiedName m"]) (auto simp: resolve_edge_def)
      qed
    qed
  qed
  note outcome = this
  show "map OriginalEdge rs' = map OriginalEdge rs @ [e]" "nodes s' = nodes s"
    "Retargeted st' + Skipped st' + Errors st' = Suc (Retargeted st + Skipped st + Errors st)"
    "TotalDangling st' = TotalDangling st" "Errors st \<le> Errors st'"
    "edges s' \<subseteq> edges s \<union> {retargeted H e n | n. map_of table (TargetHash e) = Some n}"
    by (cases rule: outcome; auto simp: skipped_def dest!: del_Inr put_Inr)+
  show "edges s' = insert (retargeted H e n) {x \<in> edges s. EdgeHash x \<noteq> EdgeHash e \<and> EdgeHash x \<noteq> EdgeHash (retargeted H e n)}"
    if "Errors st' = Errors st" "map_of table (TargetHash e) = Some n"
    using that by (cases rule: outcome) (auto dest!: del_Inr put_Inr)
  show "edges s' = edges s" if "map_of table (TargetHash e) = None"
    using that by (cases rule: outcome) simp_all
  show "list_all (\<lambda>r. \<forall>n. ResolvedNode r = Some n \<longrightarrow> map_of table (TargetHash (OriginalEdge r)) = Some n) rs'"
    if "list_all (\<lambda>r. \<forall>n. ResolvedNode r = Some n \<longrightarrow> map_of table (TargetHash (OriginalEdge r)) = Some n) rs"
    using that by (cases rule: outcome) (simp_all add: skipped_def)
qed

lemma resolve_all_books:
  "resolve_all H table es ((rs, st), s) = ((rs', st'), s') \<Longrightarrow>
     map OriginalEdge rs' = map OriginalEdge rs @ es \<and> nodes s' = nodes s \<and> TotalDangling st' = TotalDangling st \<and>
     Retargeted st' + Skipped st' + Errors st' = length es + (Retargeted st + Skipped st + Errors st) \<and> Errors st \<le> Errors st' \<and>
     (list_all (\<lambda>r. \<forall>n. ResolvedNode r = Some n \<longrightarrow> map_of table (TargetHash (OriginalEdge r)) = Some n) rs \<longrightarrow>
      list_all (\<lambda>r. \<forall>n. ResolvedNode r = Some n \<longrightarrow> map_of table (TargetHash (OriginalEdge r)) = Some n) rs')"
proof (induction es arbitrary: rs st s)
  case (Cons e es)
  obtain rs1 st1 s1 where one: "resolve_edge H del put table e ((rs, st), s) = ((rs1, st1), s1)" by (metis surj_pair)
  with Cons.prems have "resolve_all H table es ((rs1, st1), s1) = ((rs', st'), s')" by simp
  from Cons.IH [OF this] resolve_edge_round(1-5,9) [OF one] show ?case by simp
qed simp

text \<open>
  Without errors: the edges that remain are old ones that were not matched, or retargeted ones.
\<close>

lemma resolve_all_edges:
  "resolve_all H table es ((rs, st), s) = ((rs', st'), s') \<Longrightarrow> Errors st' = Errors st \<Longrightarrow>
     edges s' \<subseteq> {x \<in> edges s. x \<in> set es \<longrightarrow> map_of table (TargetHash x) = None} \<union>
       {retargeted H e n | e n. e \<in> set es \<and> map_of table (TargetHash e) = Some n}"
proof (induction es arbitrary: rs st s)
  case (Cons e es)
  obtain rs1 st1 s1 where one: "resolve_edge H del put table e ((rs, st), s) = ((rs1, st1), s1)" by (metis surj_pair)
  with Cons.prems have rest: "resolve_all H table es ((rs1, st1), s1) = ((rs', st'), s')" by simp
  have err: "Errors st1 = Errors st" "Errors st' = Errors st1"
    using resolve_edge_round(5) [OF one] resolve_all_books [OF rest] Cons.prems(2) by auto
  let ?new = "\<lambda>es. {retargeted H e n | e n. e \<in> set es \<and> map_of table (TargetHash e) = Some n}"
  have new: "?new es \<subseteq> ?new (e # es)" by auto
  have "edges s1 \<subseteq> {x \<in> edges s. x = e \<longrightarrow> map_of table (TargetHash x) = None} \<union> ?new (e # es)"
  proof (cases "map_of table (TargetHash e)")
    case None
    then show ?thesis using resolve_edge_round(8) [OF one] by auto
  next
    case (Some n)
    then have "retargeted H e n \<in> ?new (e # es)" by auto
    then show ?thesis using resolve_edge_round(7) [OF one err(1) Some] by auto
  qed
  then have "{x \<in> edges s1. x \<in> set es \<longrightarrow> map_of table (TargetHash x) = None}
      \<subseteq> {x \<in> edges s. x \<in> set (e # es) \<longrightarrow> map_of table (TargetHash x) = None} \<union> ?new (e # es)" by auto
  with Cons.IH [OF rest err(2)] new show ?case by blast
qed simp

text \<open>The whole run, from its successful return.\<close>

lemma resolve_run:
  assumes "ResolveWithDetails H danglingEdges allRepos byName del put s = (Inr (results, stats), s')"
  shows "\<exists>es tab. set es = {e \<in> edges s. TargetHash e \<notin> nodes s} \<and> nodes s' = nodes s \<and>
    map OriginalEdge results = es \<and> TotalDangling stats = length es \<and>
    Retargeted stats + Skipped stats + Errors stats = length es \<and>
    (\<forall>h n. map_of tab h = Some n \<longrightarrow> NodeHash n \<in> nodes s \<and> wrong_hash_of H (urls s) n h) \<and>
    list_all (\<lambda>r. \<forall>n. ResolvedNode r = Some n \<longrightarrow> map_of tab (TargetHash (OriginalEdge r)) = Some n) results \<and>
    (Errors stats = 0 \<longrightarrow> edges s' \<subseteq>
       {x \<in> edges s. x \<in> set es \<longrightarrow> map_of tab (TargetHash x) = None} \<union>
       {retargeted H e n | e n. e \<in> set es \<and> map_of tab (TargetHash e) = Some n})"
proof -
  from assms obtain es s1 where es: "danglingEdges s = (Inr es, s1)"
    by (auto simp: ResolveWithDetails_def split: prod.splits sum.splits)
  note d = danglingEdges_Inr [OF es]
  show ?thesis
  proof (cases "es = []")
    case True
    with assms es have "results = []" "stats = \<lparr>TotalDangling = 0, Retargeted = 0, Skipped = 0, Errors = 0\<rparr>" "s' = s1"
      by (auto simp: ResolveWithDetails_def)
    with d True show ?thesis by (intro exI [of _ "[]"]) auto
  next
    case False
    let ?st = "\<lparr>TotalDangling = length es, Retargeted = 0, Skipped = 0, Errors = 0\<rparr>"
    from assms es False obtain ns s2 rs s3 where ns: "byName '''' s1 = (Inr ns, s2)" and rs: "allRepos s2 = (Inr rs, s3)"
      and run: "resolve_all H (wrongHashToNode H ns (map RepoURL rs)) es (([], ?st), s3) = ((results, stats), s')"
      by (auto simp: ResolveWithDetails_def Let_def split: prod.splits sum.splits)
    have same: "edges s3 = edges s" "nodes s3 = nodes s" "NodeHash ` set ns = nodes s"
      using d byName_Inr [OF ns] allRepos_Inr [OF rs] by auto
    note books = resolve_all_books [OF run]
    let ?tab = "wrongHashToNode H ns (map RepoURL rs)"
    have "urls s2 = urls s" using d byName_Inr [OF ns] by simp
    then have "set (map RepoURL rs) = urls s" using allRepos_Inr [OF rs] by simp
    then have "\<forall>h n. map_of ?tab h = Some n \<longrightarrow> NodeHash n \<in> nodes s \<and> wrong_hash_of H (urls s) n h"
      using wrongHashToNode_Some [of H ns "map RepoURL rs"] same(3) by auto
    moreover have "Errors stats = 0 \<Longrightarrow> edges s' \<subseteq>
       {x \<in> edges s. x \<in> set es \<longrightarrow> map_of ?tab (TargetHash x) = None} \<union>
       {retargeted H e n | e n. e \<in> set es \<and> map_of ?tab (TargetHash e) = Some n}"
      using resolve_all_edges [OF run] same by simp
    ultimately show ?thesis
      using books same d by (intro exI [of _ es] exI [of _ ?tab]) auto
  qed
qed

end

section \<open>The SQLite store provides the interface\<close>

lemma scan_insert_edge: "ObservationCount e = 0 \<Longrightarrow> LastObserved e = 0 \<Longrightarrow> scanEdge (insert_edge t e) = e"
  by (simp add: scanEdge_def insert_edge_def edge.defs)

lemma scan_hash [simp]: "EdgeHash (scanEdge e) = EdgeHash e" "TargetHash (scanEdge e) = TargetHash e"
  by (simp_all add: scanEdge_def edge.defs)

definition store_edges :: "store \<Rightarrow> edge set" where
  "store_edges s = scanEdge ` set (T_edges (DB s))"

definition store_nodes :: "store \<Rightarrow> hash set" where
  "store_nodes s = NodeHash ` set (T_nodes (DB s))"

definition store_urls :: "store \<Rightarrow> string set" where
  "store_urls s = RepoURL ` set (T_repos (DB s))"

lemma scan_node [simp]: "NodeHash (scanNode n) = NodeHash n"
  by (simp add: scanNode_def node.defs)

lemma sql_cases:
  obtains "exec_sql f s = (Inl DriverError, s\<lparr>Faults := tl (Faults s)\<rparr>)"
  | "exec_sql f s = (Inr (), s\<lparr>DB := f (DB s), Faults := tl (Faults s)\<rparr>)"
  by (cases "Faults s \<noteq> [] \<and> hd (Faults s)") (simp_all add: exec_sql_def sql_def)

interpretation sqlite: edge_store store_edges store_nodes store_urls DanglingEdges AllRepos NodesByName DeleteEdge "PutEdge now" for now
proof (unfold_locales, goal_cases)
  case (1 s es s')
  then show ?case
    by (auto simp: DanglingEdges_def edges_where_def store_urls_def store_edges_def store_nodes_def query_sql_def sql_def split: if_splits)
next
  case (2 s ns s')
  then show ?case
    by (auto simp: NodesByName_def nodes_where_def image_image store_urls_def store_edges_def store_nodes_def query_sql_def sql_def sql_like_any split: if_splits)
next
  case (3 s rs s')
  then show ?case by (auto simp: AllRepos_def store_urls_def store_edges_def store_nodes_def query_sql_def sql_def split: if_splits)
next
  case (4 h s u s')
  then show ?case
    by (cases rule: sql_cases [of "\<lambda>d. d\<lparr>T_edges := delete_key EdgeHash h (T_edges d)\<rparr>" s])
      (auto simp: DeleteEdge_def bind_op_def store_edges_def store_nodes_def delete_key_def delete_where_def)
next
  case (5 h s x s')
  then show ?case
    by (cases rule: sql_cases [of "\<lambda>d. d\<lparr>T_edges := delete_key EdgeHash h (T_edges d)\<rparr>" s])
      (auto simp: DeleteEdge_def bind_op_def store_edges_def store_nodes_def)
next
  case (6 e s u s')
  then show ?case
    by (cases rule: sql_cases [of "\<lambda>d. d\<lparr>T_edges := upsert EdgeHash (insert_edge now e) (T_edges d)\<rparr>" s])
      (auto simp: PutEdge_def store_edges_def store_nodes_def set_upsert scan_insert_edge)
next
  case (7 e s x s')
  then show ?case
    by (cases rule: sql_cases [of "\<lambda>d. d\<lparr>T_edges := upsert EdgeHash (insert_edge now e) (T_edges d)\<rparr>" s])
      (auto simp: PutEdge_def store_edges_def store_nodes_def)
qed

section \<open>Properties\<close>

text \<open>
  C15. A resolution pass over the SQLite store is sound: it reports each dangling edge once and its
  counters add up; an edge is retargeted only to a node of the store whose own name explains its
  hash and whose hash under another repository's URL is the edge's old target; the nodes are
  unchanged; and after a pass without errors no edge dangles that did not dangle before, while the
  retargeted ones are gone.
\<close>

theorem Resolve_sound:
  assumes "ResolveWithDetails H DanglingEdges AllRepos NodesByName DeleteEdge (PutEdge now) s = (Inr (results, stats), s')"
  shows "set (map OriginalEdge results) = {e \<in> store_edges s. TargetHash e \<notin> store_nodes s} \<and>
    TotalDangling stats = length results \<and> Retargeted stats + Skipped stats + Errors stats = length results \<and>
    store_nodes s' = store_nodes s \<and>
    (\<forall>r\<in>set results. \<forall>n. ResolvedNode r = Some n \<longrightarrow>
       NodeHash n \<in> store_nodes s \<and> wrong_hash_of H (store_urls s) n (TargetHash (OriginalEdge r))) \<and>
    (Errors stats = 0 \<longrightarrow>
       {e \<in> store_edges s'. TargetHash e \<notin> store_nodes s'} \<subseteq>
       {e \<in> store_edges s. TargetHash e \<notin> store_nodes s} - OriginalEdge ` {r \<in> set results. ResolvedNode r \<noteq> None})"
proof -
  from sqlite.resolve_run [OF assms] obtain es tab where
    orig: "set es = {e \<in> store_edges s. TargetHash e \<notin> store_nodes s}" and
    nodes: "store_nodes s' = store_nodes s" and
    books: "map OriginalEdge results = es" "TotalDangling stats = length es" "Retargeted stats + Skipped stats + Errors stats = length es" and
    tab: "\<forall>h n. map_of tab h = Some n \<longrightarrow> NodeHash n \<in> store_nodes s \<and> wrong_hash_of H (store_urls s) n h" and
    res: "list_all (\<lambda>r. \<forall>n. ResolvedNode r = Some n \<longrightarrow> map_of tab (TargetHash (OriginalEdge r)) = Some n) results" and
    edges: "Errors stats = 0 \<longrightarrow> store_edges s' \<subseteq>
       {x \<in> store_edges s. x \<in> set es \<longrightarrow> map_of tab (TargetHash x) = None} \<union>
       {retargeted H e n | e n. e \<in> set es \<and> map_of tab (TargetHash e) = Some n}"
    by (elim exE conjE) (rule that)
  have len: "length es = length results" using books(1) by auto
  have "{e \<in> store_edges s'. TargetHash e \<notin> store_nodes s'} \<subseteq>
       {e \<in> store_edges s. TargetHash e \<notin> store_nodes s} - OriginalEdge ` {r \<in> set results. ResolvedNode r \<noteq> None}"
    if "Errors stats = 0"
  proof
    fix x assume x: "x \<in> {e \<in> store_edges s'. TargetHash e \<notin> store_nodes s'}"
    have "TargetHash (retargeted H e n) \<in> store_nodes s'" if "map_of tab h = Some n" for e h n
      using tab that nodes by (simp add: retargeted_def)
    with x edges that have "x \<in> store_edges s" "x \<in> set es \<longrightarrow> map_of tab (TargetHash x) = None" by auto
    moreover have "TargetHash x \<notin> store_nodes s" using x nodes by simp
    moreover have "x \<notin> OriginalEdge ` {r \<in> set results. ResolvedNode r \<noteq> None}"
    proof
      assume "x \<in> OriginalEdge ` {r \<in> set results. ResolvedNode r \<noteq> None}"
      then obtain r n where r: "r \<in> set results" "ResolvedNode r = Some n" "x = OriginalEdge r" by auto
      then have "map_of tab (TargetHash x) = Some n" using res by (auto simp: list_all_iff)
      moreover have "OriginalEdge r \<in> set es" using r(1) books(1) by auto
      ultimately show False using r(3) \<open>x \<in> set es \<longrightarrow> map_of tab (TargetHash x) = None\<close> by simp
    qed
    ultimately show "x \<in> {e \<in> store_edges s. TargetHash e \<notin> store_nodes s} - OriginalEdge ` {r \<in> set results. ResolvedNode r \<noteq> None}"
      by simp
  qed
  moreover have "\<forall>r\<in>set results. \<forall>n. ResolvedNode r = Some n \<longrightarrow>
       NodeHash n \<in> store_nodes s \<and> wrong_hash_of H (store_urls s) n (TargetHash (OriginalEdge r))"
    using res tab unfolding list_all_iff by blast
  ultimately show ?thesis unfolding books(1) orig using nodes books(2,3) len by simp
qed

definition cross_node :: node where
  "cross_node = sample_node\<lparr>NodeHash := 17, QualifiedName := ''b://p.F'', Kind := ''func''\<rparr>"

definition cross_db :: db where
  "cross_db = empty_db\<lparr>T_repos := [\<lparr>RepoHash = 1, RepoURL = ''aaa'', LastCommit = '''', LastIndexed = 0\<rparr>],
     T_nodes := [node.extend cross_node (node_row.fields 0)],
     T_edges := [insert_edge 0 (sample_edge\<lparr>TargetHash := 19\<rparr>)]\<rparr>"

theorem Resolve_sound_witness:
  "\<exists>results stats s'. ResolveWithDetails (\<lambda>bs. of_nat (length bs)) DanglingEdges AllRepos NodesByName DeleteEdge
     (PutEdge 0) (open_store cross_db []) = (Inr (results, stats), s') \<and>
     TotalDangling stats = length results \<and> sample_edge\<lparr>TargetHash := 19\<rparr> \<in> set (map OriginalEdge results)"
proof -
  let ?s = "open_store cross_db []"
  obtain es ns rs where d: "DanglingEdges ?s = (Inr es, ?s)" "NodesByName '''' ?s = (Inr ns, ?s)" "AllRepos ?s = (Inr rs, ?s)"
    by (simp add: DanglingEdges_def AllRepos_def NodesByName_def sql_simps(2) open_store_def)
  let ?H = "\<lambda>bs. of_nat (length bs) :: hash"
  let ?st = "\<lparr>TotalDangling = length es, Retargeted = 0, Skipped = 0, Errors = 0\<rparr>"
  obtain r' s1 where "fold (resolve_edge ?H DeleteEdge (PutEdge 0) (wrongHashToNode ?H ns (map RepoURL rs))) es (([], ?st), ?s) = (r', s1)"
    by (meson surj_pair)
  then have "\<exists>r s'. ResolveWithDetails ?H DanglingEdges AllRepos NodesByName DeleteEdge (PutEdge 0) ?s = (Inr r, s')"
    by (simp add: ResolveWithDetails_def d Let_def)
  then obtain results stats s' where run: "ResolveWithDetails ?H DanglingEdges AllRepos NodesByName
      DeleteEdge (PutEdge 0) ?s = (Inr (results, stats), s')" by (elim exE, case_tac r) blast
  have "sample_edge\<lparr>TargetHash := 19\<rparr> \<in> {e \<in> store_edges ?s. TargetHash e \<notin> store_nodes ?s}"
    by (simp add: store_edges_def store_nodes_def open_store_def cross_db_def cross_node_def sample_node_def node.defs
        scan_insert_edge sample_edge_def)
  then have "sample_edge\<lparr>TargetHash := 19\<rparr> \<in> set (map OriginalEdge results)"
    unfolding Resolve_sound [OF run, THEN conjunct1] .
  moreover have "TotalDangling stats = length results" using Resolve_sound [OF run] by (elim conjE)
  ultimately show ?thesis using run by (intro exI conjI)
qed

text \<open>
  Retargeting one edge is not atomic and not lossless: when the DELETE succeeds and the INSERT
  fails, the edge is reported as skipped although it is gone; when both succeed, the new edge has
  the old source, type, confidence and provenance but no call site.
\<close>

lemma resolve_edge_not_atomic:
  assumes "map_of tab (TargetHash e) = Some n"
    "resolve_edge H DeleteEdge (PutEdge now) tab e ((results, stats), s) = ((results', stats'), s')"
  shows "(Faults s = [False, True] \<longrightarrow>
      Action (last results') = ''skipped'' \<and> OriginalEdge (last results') = e \<and> Errors stats' = Suc (Errors stats) \<and>
      store_edges s' = {x \<in> store_edges s. EdgeHash x \<noteq> EdgeHash e}) \<and>
    (Faults s = [] \<longrightarrow>
      Action (last results') = ''retargeted'' \<and> retargeted H e n \<in> store_edges s' \<and>
      Provenance (retargeted H e n) = Provenance e \<and> CallSiteFile (retargeted H e n) = '''' \<and> CallSiteLine (retargeted H e n) = 0)"
proof (intro conjI [OF impI impI])
  assume f: "Faults s = [False, True]"
  then have "DeleteEdge (EdgeHash e) s = (Inr (), s\<lparr>DB := (DB s)\<lparr>T_edges := delete_key EdgeHash (EdgeHash e) (T_edges (DB s))\<rparr>,
      Faults := [True], edgeCache := (edgeCache s)(EdgeHash e := None)\<rparr>)"
    by (simp add: DeleteEdge_def bind_op_def exec_sql_def sql_def)
  moreover have "PutEdge now x (s\<lparr>Faults := [True]\<rparr>) = (Inl DriverError, s\<lparr>Faults := []\<rparr>)" for x and s :: store
    by (simp add: PutEdge_def exec_sql_def sql_def)
  ultimately have "results' = results @ [skipped e (''put failed: '' @ error_text DriverError)]"
    "stats' = stats\<lparr>Errors := Errors stats + 1\<rparr>"
    "T_edges (DB s') = delete_key EdgeHash (EdgeHash e) (T_edges (DB s))"
    using assms by (auto simp: resolve_edge_def PutEdge_def exec_sql_def sql_def)
  then show "Action (last results') = ''skipped'' \<and> OriginalEdge (last results') = e \<and> Errors stats' = Suc (Errors stats) \<and>
      store_edges s' = {x \<in> store_edges s. EdgeHash x \<noteq> EdgeHash e}"
    by (auto simp: skipped_def store_edges_def delete_key_def delete_where_def)
next
  assume f: "Faults s = []"
  have "\<exists>s1. DeleteEdge (EdgeHash e) s = (Inr (), s1) \<and> Faults s1 = []"
    using f by (simp add: DeleteEdge_def bind_op_def exec_ok)
  then obtain s1 where s1: "DeleteEdge (EdgeHash e) s = (Inr (), s1)" "Faults s1 = []" by blast
  then obtain s2 where s2: "PutEdge now (retargeted H e n) s1 = (Inr (), s2)" by (simp add: PutEdge_def exec_ok)
  have "ObservationCount (retargeted H e n) = 0" "LastObserved (retargeted H e n) = 0" by (simp_all add: retargeted_def)
  from sqlite.put_Inr [OF s2 this] have "retargeted H e n \<in> store_edges s2" by simp
  moreover have "s' = s2" "Action (last results') = ''retargeted''"
    using assms s1 s2 by (auto simp: resolve_edge_def)
  ultimately show "Action (last results') = ''retargeted'' \<and> retargeted H e n \<in> store_edges s' \<and>
      Provenance (retargeted H e n) = Provenance e \<and> CallSiteFile (retargeted H e n) = '''' \<and> CallSiteLine (retargeted H e n) = 0"
    by (simp add: retargeted_def)
qed

lemma resolve_edge_not_atomic_witness:
  "\<exists>results stats s'. resolve_edge (\<lambda>bs. of_nat (length bs)) DeleteEdge (PutEdge 0) [(19, cross_node)] (sample_edge\<lparr>TargetHash := 19\<rparr>)
       (([], \<lparr>TotalDangling = 1, Retargeted = 0, Skipped = 0, Errors = 0\<rparr>), open_store cross_db [False, True])
       = ((results, stats), s') \<and> store_edges (open_store cross_db [False, True]) \<noteq> {} \<and> store_edges s' = {}"
proof -
  let ?H = "\<lambda>bs. of_nat (length bs) :: hash" and ?e = "sample_edge\<lparr>TargetHash := 19\<rparr>" and ?s = "open_store cross_db [False, True]"
  obtain results stats s' where run: "resolve_edge ?H DeleteEdge (PutEdge 0) [(19, cross_node)] ?e
       (([], \<lparr>TotalDangling = 1, Retargeted = 0, Skipped = 0, Errors = 0\<rparr>), ?s) = ((results, stats), s')"
    by (metis surj_pair)
  have edges: "store_edges ?s = {?e}"
    by (simp add: store_edges_def open_store_def cross_db_def scan_insert_edge sample_edge_def)
  have "map_of [(19, cross_node)] (TargetHash ?e) = Some cross_node" "Faults ?s = [False, True]"
    by (simp_all add: open_store_def)
  with resolve_edge_not_atomic [OF _ run] have "store_edges s' = {x \<in> store_edges ?s. EdgeHash x \<noteq> EdgeHash ?e}" by blast
  then have "store_edges s' = {}" unfolding edges by auto
  with run edges show ?thesis by (intro exI conjI) auto
qed

end
