(* ===== verification/ExternalRepo.thy ===== *)
theory ExternalRepo
  imports FtsText
begin

text \<open>
  internal/resolve/external.go: deciding whether an import path is local, standard library or
  external, driven by a language configuration of function values (a nil function is \<open>None\<close>).
\<close>

record LangConfig =
  StdlibCheck :: "(string \<Rightarrow> bool) option"
  IsRelative :: "(string \<Rightarrow> bool) option"
  IsLocal :: "(string \<Rightarrow> string \<Rightarrow> bool) option"
  ExtractPkgName :: "(string \<Rightarrow> string) option"
  Separator :: string

text \<open>The part of a path before the first separator that is not at its very start.\<close>

definition head_segment :: "string \<Rightarrow> string \<Rightarrow> string" where
  "head_segment sep path =
     (case strings_Index path sep of Some idx \<Rightarrow> if idx > 0 then take idx path else path | None \<Rightarrow> path)"

definition top_level :: "LangConfig \<Rightarrow> string \<Rightarrow> string" where
  "top_level cfg path = (if Separator cfg \<noteq> '''' then head_segment (Separator cfg) path else path)"

definition call1 :: "('a \<Rightarrow> bool) option \<Rightarrow> 'a \<Rightarrow> bool" where
  "call1 f x = (case f of Some g \<Rightarrow> g x | None \<Rightarrow> False)"

definition InferExternalRepoURL :: "string \<Rightarrow> string \<Rightarrow> LangConfig \<Rightarrow> string" where
  "InferExternalRepoURL path localContext cfg =
     (if path = '''' then ''''
      else if call1 (IsRelative cfg) path then ''''
      else if (case IsLocal cfg of Some f \<Rightarrow> f path localContext | None \<Rightarrow> False) then ''''
      else if call1 (StdlibCheck cfg) (top_level cfg path) then ''stdlib''
      else (case ExtractPkgName cfg of
              Some f \<Rightarrow> ''external://'' @ f path
            | None \<Rightarrow> ''external://'' @ top_level cfg path))"

definition PythonStdlibSet :: "string list" where
  "PythonStdlibSet =
    [''os'', ''sys'', ''re'', ''io'', ''json'', ''math'', ''time'', ''datetime'', ''collections'',
     ''itertools'', ''functools'', ''pathlib'', ''typing'', ''abc'', ''ast'', ''asyncio'', ''base64'',
     ''contextlib'', ''copy'', ''csv'', ''dataclasses'', ''enum'', ''errno'', ''glob'', ''hashlib'',
     ''http'', ''importlib'', ''inspect'', ''logging'', ''multiprocessing'', ''operator'', ''pickle'',
     ''platform'', ''pprint'', ''queue'', ''random'', ''shutil'', ''signal'', ''socket'', ''sqlite3'',
     ''string'', ''struct'', ''subprocess'', ''tempfile'', ''textwrap'', ''threading'', ''traceback'',
     ''unittest'', ''urllib'', ''uuid'', ''warnings'', ''weakref'', ''xml'', ''zipfile'', ''argparse'',
     ''configparser'', ''email'', ''html'', ''ssl'', ''secrets'', ''statistics'', ''types'']"

text \<open>\<open>strings.SplitN(path, "/", 3)\<close> joined back from its first two parts.\<close>

definition scoped_name :: "string \<Rightarrow> string" where
  "scoped_name path =
     (case split_on (CHR ''/'') path of
        a # b # _ \<Rightarrow> a @ ''/'' @ b
      | _ \<Rightarrow> path)"

definition TypeScriptConfig :: LangConfig where
  "TypeScriptConfig =
     \<lparr>StdlibCheck = None,
      IsRelative = Some (\<lambda>path. strings_HasPrefix path ''.'' \<or> strings_HasPrefix path ''/''),
      IsLocal = None,
      ExtractPkgName = Some (\<lambda>path. if strings_HasPrefix path ''@'' then scoped_name path else head_segment ''/'' path),
      Separator = ''/''\<rparr>"

definition PythonConfig :: LangConfig where
  "PythonConfig =
     \<lparr>StdlibCheck = Some (\<lambda>topLevel. topLevel \<in> set PythonStdlibSet),
      IsRelative = Some (\<lambda>path. strings_HasPrefix path ''.''),
      IsLocal = None,
      ExtractPkgName = Some (head_segment ''.''),
      Separator = ''.''\<rparr>"

text \<open>\<open>strings.SplitN(path, "::", 2)[0]\<close>: the text before the first separator, wherever it is.\<close>

definition first_crate :: "string \<Rightarrow> string" where
  "first_crate path = (case strings_Index path ''::'' of Some i \<Rightarrow> take i path | None \<Rightarrow> path)"

definition RustConfig :: LangConfig where
  "RustConfig =
     \<lparr>StdlibCheck = Some (\<lambda>topLevel. topLevel \<in> {''std'', ''core'', ''alloc''}),
      IsRelative = Some (\<lambda>path. first_crate path \<in> {''crate'', ''super'', ''self''}),
      IsLocal = None,
      ExtractPkgName = Some (head_segment ''::''),
      Separator = ''::''\<rparr>"

definition first_two :: "string \<Rightarrow> string" where
  "first_two path =
     (case split_on (CHR ''.'') path of
        a # b # _ \<Rightarrow> a @ ''.'' @ b
      | _ \<Rightarrow> path)"

definition java_local :: "string \<Rightarrow> string \<Rightarrow> bool" where
  "java_local path localContext =
     (if localContext = '''' then False
      else (case (split_on (CHR ''.'') path, split_on (CHR ''.'') localContext) of
              (a # b # _, a' # b' # _) \<Rightarrow> a' = a \<and> b' = b
            | _ \<Rightarrow> False))"

definition JavaConfig :: LangConfig where
  "JavaConfig =
     \<lparr>StdlibCheck = Some (\<lambda>topLevel. topLevel = ''java'' \<or> topLevel = ''javax''),
      IsRelative = None, IsLocal = Some java_local, ExtractPkgName = Some first_two, Separator = ''.''\<rparr>"

definition CSharpConfig :: LangConfig where
  "CSharpConfig =
     \<lparr>StdlibCheck = Some (\<lambda>topLevel. topLevel = ''System'' \<or> topLevel = ''Microsoft''),
      IsRelative = None, IsLocal = None, ExtractPkgName = Some first_two, Separator = ''.''\<rparr>"

section \<open>Lemmas\<close>

lemma head_segment_split:
  assumes "c \<notin> set a" "a \<noteq> []"
  shows "head_segment [c] a = a" "head_segment [c] (a @ c # t) = a"
proof -
  have "strings_Index a [c] = None" using assms by (simp add: strings_Index_None_iff)
  then show "head_segment [c] a = a" by (simp add: head_segment_def)
  show "head_segment [c] (a @ c # t) = a"
    using assms strings_Index_append_not_in [of c a t] by (simp add: head_segment_def)
qed

lemma InferExternalRepoURL_cases:
  "InferExternalRepoURL path ctx cfg = '''' \<or> InferExternalRepoURL path ctx cfg = ''stdlib'' \<or>
   strings_HasPrefix (InferExternalRepoURL path ctx cfg) ''external://''"
  by (simp add: InferExternalRepoURL_def strings_HasPrefix_def split: option.splits)

lemma split_on_no_sep: "c \<notin> set a \<Longrightarrow> split_on c a = [a]"
  by (induction a) auto

lemma split_on_cons: "c \<notin> set a \<Longrightarrow> split_on c (a @ c # t) = a # split_on c t"
  by (induction a) auto

lemma first_two_cons:
  "c = CHR ''.'' \<Longrightarrow> c \<notin> set a \<Longrightarrow> c \<notin> set b \<Longrightarrow> first_two (a @ c # b) = a @ ''.'' @ b"
  "c = CHR ''.'' \<Longrightarrow> c \<notin> set a \<Longrightarrow> c \<notin> set b \<Longrightarrow> first_two (a @ c # b @ c # t) = a @ ''.'' @ b"
  by (simp_all add: first_two_def split_on_cons split_on_no_sep)

section \<open>Properties\<close>

text \<open>
  All modules below one Python top-level module are treated alike: \<open>a\<close> and every \<open>a.rest\<close> get
  the same answer, "stdlib" when \<open>a\<close> is in the table and otherwise \<open>external://a\<close>; a path that
  starts with a dot is local. In Java the answer depends on the first two segments only, and a
  path that shares them with the importing file is local before the standard library is tried.
\<close>

lemma InferExternalRepoURL_top_level:
  assumes "CHR ''.'' \<notin> set a" "a \<noteq> []" "CHR ''.'' \<notin> set b"
  shows "InferExternalRepoURL (a @ ''.'' @ t) ctx PythonConfig = InferExternalRepoURL a ctx PythonConfig \<and>
    InferExternalRepoURL a ctx PythonConfig = (if a \<in> set PythonStdlibSet then ''stdlib'' else ''external://'' @ a) \<and>
    InferExternalRepoURL (''.'' @ t) ctx PythonConfig = '''' \<and>
    InferExternalRepoURL (a @ ''.'' @ b @ ''.'' @ t) ctx JavaConfig = InferExternalRepoURL (a @ ''.'' @ b) ctx JavaConfig \<and>
    InferExternalRepoURL (a @ ''.'' @ b @ ''.'' @ t) (a @ ''.'' @ b) JavaConfig = ''''"
proof -
  have pre: "\<not> prefix ''.'' a" "\<not> prefix ''.'' (a @ u)" for u using assms(1,2) by (cases a; auto)+
  note seg = head_segment_split [OF assms(1,2)]
  have "InferExternalRepoURL (a @ ''.'' @ t) ctx PythonConfig = (if a \<in> set PythonStdlibSet then ''stdlib'' else ''external://'' @ a)"
    "InferExternalRepoURL a ctx PythonConfig = (if a \<in> set PythonStdlibSet then ''stdlib'' else ''external://'' @ a)"
    using pre assms(2) seg
    by (simp_all add: InferExternalRepoURL_def PythonConfig_def call1_def top_level_def strings_HasPrefix_def)
  moreover have "InferExternalRepoURL (''.'' @ t) ctx PythonConfig = ''''"
    by (simp add: InferExternalRepoURL_def PythonConfig_def call1_def strings_HasPrefix_def)
  moreover have "java_local (a @ ''.'' @ b @ ''.'' @ t) c = java_local (a @ ''.'' @ b) c" for c
    using assms by (simp add: java_local_def split_on_cons split_on_no_sep)
  moreover have "java_local (a @ ''.'' @ b @ ''.'' @ t) (a @ ''.'' @ b)"
    using assms by (simp add: java_local_def split_on_cons split_on_no_sep)
  ultimately show ?thesis
    using assms seg
    by (simp add: InferExternalRepoURL_def JavaConfig_def call1_def top_level_def first_two_cons)
qed

lemma InferExternalRepoURL_top_level_witness:
  "InferExternalRepoURL ''os.path'' '''' PythonConfig = ''stdlib'' \<and>
   InferExternalRepoURL ''numpy.linalg'' '''' PythonConfig = InferExternalRepoURL ''numpy'' '''' PythonConfig"
  using InferExternalRepoURL_top_level [of "''os''" "''x''" "''path''" "''''"]
    InferExternalRepoURL_top_level [of "''numpy''" "''x''" "''linalg''" "''''"]
  by (simp add: PythonStdlibSet_def)

end
