(* ===== verification/WireBinary.thy ===== *)
theory WireBinary
  imports SqlTable
begin

text \<open>
  The binary transport codec of internal/wire/binary.go (encodeBinary, decodeBinary and their
  helpers), the payload mapping of the JSON codec in json.go and the codec registry of
  registry.go. A reader is a function from the remaining bytes to an error or a value and the
  rest. A Go \<open>int\<close> is a 64-bit word, read signed; a \<open>float64\<close> is its IEEE bit pattern, so that
  NaN and infinities are values too. The limit of an allocation of the run-time system is the
  parameter \<open>fits\<close>.
\<close>

section \<open>Payloads\<close>

type_synonym go_int = "64 word"
type_synonym f64 = "64 word"
type_synonym f32 = "32 word"

record components =
  C_BlastRadius :: f64
  C_Confidence :: f64
  C_Recency :: f64
  C_Distance :: f64

record wire_symbol =
  S_QualifiedName :: string
  S_Kind :: string
  S_Score :: f64
  S_Provenance :: string
  S_Distance :: go_int
  S_Signature :: string
  S_Components :: components

record wire_edge =
  E_Source :: string
  E_Target :: string
  E_EdgeType :: string
  E_Status :: string

record payload =
  P_Tool :: string
  P_TokensUsed :: go_int
  P_TokenBudget :: go_int
  P_PackRoot :: string
  P_Symbols :: "wire_symbol list"
  P_Edges :: "wire_edge list"

section \<open>The identifier tables\<close>

definition kindToID :: "(string \<times> nat) list" where
  "kindToID =
    [(''function'', 1), (''type'', 2), (''method'', 3), (''interface'', 4), (''var'', 5),
     (''const'', 6), (''resource'', 7), (''table'', 8), (''class'', 9), (''selector'', 10),
     (''field'', 11), (''route_handler'', 12), (''external'', 13), (''file'', 14),
     (''package'', 15), (''service'', 16), (''env_var'', 17), (''process'', 18)]"

definition idToKind :: "(nat \<times> string) list" where
  "idToKind =
    [(1, ''function''), (2, ''type''), (3, ''method''), (4, ''interface''), (5, ''var''),
     (6, ''const''), (7, ''resource''), (8, ''table''), (9, ''class''), (10, ''selector''),
     (11, ''field''), (12, ''route_handler''), (13, ''external''), (14, ''file''),
     (15, ''package''), (16, ''service''), (17, ''env_var''), (18, ''process'')]"

definition provToID :: "(string \<times> nat) list" where
  "provToID =
    [(''ast_inferred'', 1), (''ast_resolved'', 2), (''lsp_resolved'', 3), (''otel_trace'', 4),
     (''scip_resolved'', 5), (''runtime_observed'', 6), (''structural'', 7)]"

definition idToProv :: "(nat \<times> string) list" where
  "idToProv =
    [(1, ''ast_inferred''), (2, ''ast_resolved''), (3, ''lsp_resolved''), (4, ''otel_trace''),
     (5, ''scip_resolved''), (6, ''runtime_observed''), (7, ''structural'')]"

definition edgeTypeToID :: "(string \<times> nat) list" where
  "edgeTypeToID =
    [(''calls'', 1), (''imports'', 2), (''implements'', 3), (''references'', 4),
     (''handles_route'', 5), (''depends_on'', 6), (''deploys'', 7), (''exposes'', 8),
     (''configures'', 9), (''extends'', 10), (''overrides'', 11), (''decorates'', 12),
     (''throws'', 13), (''owned_by'', 14), (''authored_by'', 15), (''tests'', 16),
     (''runtime_calls'', 17), (''runtime_rpc'', 18), (''runtime_produces'', 19),
     (''runtime_consumes'', 20), (''contains'', 21), (''member_of'', 22), (''documents'', 23),
     (''consumes_endpoint'', 24), (''implements_rpc'', 25), (''consumes_rpc'', 26),
     (''gated_by_flag'', 27), (''deployed_by'', 28), (''tested_by'', 29), (''publishes'', 30),
     (''subscribes'', 31), (''connects_to'', 32), (''similar_to'', 33), (''co_tested_with'', 34),
     (''type_hint_of'', 35), (''accesses_field'', 36), (''reads_env'', 37),
     (''executes_process'', 38)]"

definition idToEdgeType :: "(nat \<times> string) list" where
  "idToEdgeType =
    [(1, ''calls''), (2, ''imports''), (3, ''implements''), (4, ''references''),
     (5, ''handles_route''), (6, ''depends_on''), (7, ''deploys''), (8, ''exposes''),
     (9, ''configures''), (10, ''extends''), (11, ''overrides''), (12, ''decorates''),
     (13, ''throws''), (14, ''owned_by''), (15, ''authored_by''), (16, ''tests''),
     (17, ''runtime_calls''), (18, ''runtime_rpc''), (19, ''runtime_produces''),
     (20, ''runtime_consumes''), (21, ''contains''), (22, ''member_of''), (23, ''documents''),
     (24, ''consumes_endpoint''), (25, ''implements_rpc''), (26, ''consumes_rpc''),
     (27, ''gated_by_flag''), (28, ''deployed_by''), (29, ''tested_by''), (30, ''publishes''),
     (31, ''subscribes''), (32, ''connects_to''), (33, ''similar_to''), (34, ''co_tested_with''),
     (35, ''type_hint_of''), (36, ''accesses_field''), (37, ''reads_env''),
     (38, ''executes_process'')]"

definition statusToID :: "(string \<times> nat) list" where
  "statusToID = [('''', 0), (''unchanged'', 0), (''added'', 1), (''removed'', 2)]"

definition idToStatus :: "(nat \<times> string) list" where
  "idToStatus = [(0, ''''), (1, ''added''), (2, ''removed'')]"

text \<open>Indexing a Go map gives the zero value of a missing key.\<close>

definition index_id :: "(string \<times> nat) list \<Rightarrow> string \<Rightarrow> nat" where
  "index_id m k = (case map_of m k of Some i \<Rightarrow> i | None \<Rightarrow> 0)"

definition index_name :: "(nat \<times> string) list \<Rightarrow> nat \<Rightarrow> string" where
  "index_name m i = (case map_of m i of Some k \<Rightarrow> k | None \<Rightarrow> '''')"

section \<open>Floating point\<close>

text \<open>
  \<open>float32(x)\<close> and \<open>float64(y)\<close> on bit patterns (IEEE 754, round to nearest, ties to even). The
  payload of a NaN is truncated and its quiet bit set, as the conversion instructions do.
\<close>

definition round_even :: "nat \<Rightarrow> nat \<Rightarrow> nat" where
  "round_even m k =
     (let q = m div 2 ^ k; r = m mod 2 ^ k in
      if 2 ^ k < 2 * r \<or> 2 * r = 2 ^ k \<and> odd q then q + 1 else q)"

definition to_float32 :: "f64 \<Rightarrow> f32" where
  "to_float32 x =
     (let b = unat x; s = b div 2 ^ 63; e = b div 2 ^ 52 mod 2 ^ 11; m = b mod 2 ^ 52;
          mag = (if e = 2047 then
                   (if m = 0 then 255 * 2 ^ 23
                    else 255 * 2 ^ 23 + 2 ^ 22 + m div 2 ^ 29 mod 2 ^ 22)
                 else if e = 0 then 0
                 else if 1150 < e then 255 * 2 ^ 23
                 else if 897 \<le> e then (e - 897) * 2 ^ 23 + round_even (2 ^ 52 + m) 29
                 else round_even (2 ^ 52 + m) (29 + (897 - e)))
      in word_of_nat (s * 2 ^ 31 + mag))"

fun floor_log2 :: "nat \<Rightarrow> nat" where
  "floor_log2 n = (if n < 2 then 0 else Suc (floor_log2 (n div 2)))"

declare floor_log2.simps [simp del]

definition to_float64 :: "f32 \<Rightarrow> f64" where
  "to_float64 y =
     (let b = unat y; s = b div 2 ^ 31; e = b div 2 ^ 23 mod 2 ^ 8; m = b mod 2 ^ 23;
          mag = (if e = 255 then
                   (if m = 0 then 2047 * 2 ^ 52
                    else 2047 * 2 ^ 52 + 2 ^ 51 + m mod 2 ^ 22 * 2 ^ 29)
                 else if e = 0 then
                   (if m = 0 then 0
                    else (let k = floor_log2 m in (k + 874) * 2 ^ 52 + (m - 2 ^ k) * 2 ^ (52 - k)))
                 else (e + 896) * 2 ^ 52 + m * 2 ^ 29)
      in word_of_nat (s * 2 ^ 63 + mag))"

section \<open>Encoding helpers\<close>

text \<open>\<open>binary.PutUvarint\<close>: seven bits a byte, the high bit set on all but the last.\<close>

fun PutUvarint :: "nat \<Rightarrow> bytes" where
  "PutUvarint x = (if x < 128 then [char_of x] else char_of (x mod 128 + 128) # PutUvarint (x div 128))"

declare PutUvarint.simps [simp del]

definition writeVarint :: "go_int \<Rightarrow> bytes" where
  "writeVarint v = PutUvarint (unat v)"

definition writeStr :: "string \<Rightarrow> bytes" where
  "writeStr s = writeVarint (word_of_nat (length s)) @ s"

definition writeFloat32 :: "f32 \<Rightarrow> bytes" where
  "writeFloat32 f = map char_of (rev (be_digits 4 (unat f)))"

section \<open>encodeBinary\<close>

definition binaryMagic :: bytes where
  "binaryMagic = ''GCB1''"

definition binaryVersion :: nat where
  "binaryVersion = 1"

text \<open>The map from qualified names to positions: a later symbol of the same name wins.\<close>

definition symIndex :: "wire_symbol list \<Rightarrow> (string, nat) gomap" where
  "symIndex syms = foldl (\<lambda>m (i, s). gomap_set (S_QualifiedName s) i m) [] (zip [0..<length syms] syms)"

definition encode_symbol :: "wire_symbol \<Rightarrow> bytes" where
  "encode_symbol s =
     writeStr (S_QualifiedName s) @
     [char_of (index_id kindToID (S_Kind s))] @
     writeFloat32 (to_float32 (S_Score s)) @
     [char_of (index_id provToID (S_Provenance s))] @
     [char_of (unat (S_Distance s) mod 256)] @
     writeStr (S_Signature s) @
     writeFloat32 (to_float32 (C_BlastRadius (S_Components s))) @
     writeFloat32 (to_float32 (C_Confidence (S_Components s))) @
     writeFloat32 (to_float32 (C_Recency (S_Components s))) @
     writeFloat32 (to_float32 (C_Distance (S_Components s)))"

definition encode_edge :: "(string, nat) gomap \<Rightarrow> wire_edge \<Rightarrow> bytes" where
  "encode_edge idx e =
     writeVarint (word_of_nat (index_id idx (E_Source e))) @
     writeVarint (word_of_nat (index_id idx (E_Target e))) @
     [char_of (index_id edgeTypeToID (E_EdgeType e))] @
     [char_of (index_id statusToID (E_Status e))]"

definition encodeBinary :: "payload \<Rightarrow> bytes" where
  "encodeBinary p =
     binaryMagic @ [char_of binaryVersion] @
     writeStr (P_Tool p) @ writeVarint (P_TokensUsed p) @ writeVarint (P_TokenBudget p) @
     writeVarint (word_of_nat (length (P_Symbols p))) @
     writeVarint (word_of_nat (length (P_Edges p))) @
     concat (map encode_symbol (P_Symbols p)) @
     concat (map (encode_edge (symIndex (P_Symbols p))) (P_Edges p))"

section \<open>Readers\<close>

datatype io_error = EOF | ErrUnexpectedEOF | VarintOverflow

text \<open>A run-time panic leaves the function without a result or an error value.\<close>

datatype go_panic = MakesliceLenOutOfRange | IndexOutOfRangePanic

datatype wire_error =
    ReadError string io_error
  | InvalidMagic bytes
  | UnsupportedVersion nat
  | SymbolError nat string io_error
  | EdgeError nat string io_error
  | EdgeIndexOutOfRange nat int int int
  | Panic go_panic

text \<open>The element types decodeBinary allocates slices of.\<close>

datatype elem = ByteElem | SymbolElem | EdgeElem

type_synonym fits = "elem \<Rightarrow> nat \<Rightarrow> bool"

text \<open>The reads of \<open>bytes.Reader\<close>, \<open>io.ReadFull\<close> and \<open>binary.ReadUvarint\<close>, with their own errors.\<close>

type_synonym ('e, 'a) reading = "bytes \<Rightarrow> 'e + ('a \<times> bytes)"

type_synonym 'a raw_reader = "(io_error + go_panic, 'a) reading"

type_synonym 'a reader = "(wire_error, 'a) reading"

definition bind_rd :: "('e, 'a) reading \<Rightarrow> ('a \<Rightarrow> ('e, 'b) reading) \<Rightarrow> ('e, 'b) reading" where
  "bind_rd r f bs = (case r bs of Inl e \<Rightarrow> Inl e | Inr (x, cs) \<Rightarrow> f x cs)"

definition ret_rd :: "'a \<Rightarrow> ('e, 'a) reading" where
  "ret_rd x bs = Inr (x, bs)"

fun ReadByte :: "nat raw_reader" where
  "ReadByte [] = Inl (Inl EOF)"
| "ReadByte (c # cs) = Inr (of_char c, cs)"

definition ReadFull :: "nat \<Rightarrow> bytes raw_reader" where
  "ReadFull n bs =
     (if n = 0 then Inr ([], bs)
      else if bs = [] then Inl (Inl EOF)
      else if length bs < n then Inl (Inl ErrUnexpectedEOF)
      else Inr (take n bs, drop n bs))"

text \<open>\<open>binary.ReadUvarint\<close> reads at most ten bytes; the tenth holds one bit.\<close>

fun uvarint_loop :: "nat \<Rightarrow> nat \<Rightarrow> nat raw_reader" where
  "uvarint_loop i x bs =
     (if 10 \<le> i then Inl (Inl VarintOverflow)
      else (case bs of
              [] \<Rightarrow> Inl (Inl (if 0 < i then ErrUnexpectedEOF else EOF))
            | c # cs \<Rightarrow>
                (let b = of_char c :: nat in
                 if b < 128 then
                   (if i = 9 \<and> 1 < b then Inl (Inl VarintOverflow)
                    else Inr (x + b * 2 ^ (7 * i), cs))
                 else uvarint_loop (i + 1) (x + b mod 128 * 2 ^ (7 * i)) cs)))"

declare uvarint_loop.simps [simp del]

definition ReadUvarint :: "nat raw_reader" where
  "ReadUvarint = uvarint_loop 0 0"

definition readVarint :: "go_int raw_reader" where
  "readVarint = bind_rd ReadUvarint (\<lambda>v. ret_rd (word_of_nat v))"

text \<open>
  \<open>make([]T, n)\<close> panics on a negative length and on one the run-time system cannot allocate.
\<close>

definition makeslice_ok :: "fits \<Rightarrow> elem \<Rightarrow> go_int \<Rightarrow> bool" where
  "makeslice_ok fits t n \<longleftrightarrow> 0 \<le> sint n \<and> fits t (unat n)"

definition readStr :: "fits \<Rightarrow> string raw_reader" where
  "readStr fits = bind_rd readVarint (\<lambda>n.
     if n = 0 then ret_rd []
     else if makeslice_ok fits ByteElem n then ReadFull (unat n)
     else (\<lambda>bs. Inl (Inr MakesliceLenOutOfRange)))"

definition readFloat32 :: "f32 raw_reader" where
  "readFloat32 = bind_rd (ReadFull 4) (\<lambda>bs. ret_rd (word_of_nat (from_be (rev (byte_vals bs)))))"

section \<open>decodeBinary\<close>

definition fail_rd :: "wire_error \<Rightarrow> 'a reader" where
  "fail_rd e bs = Inl e"

text \<open>An error of a read is wrapped with the name of what was read; a panic is not caught.\<close>

definition wrap_rd :: "(io_error \<Rightarrow> wire_error) \<Rightarrow> 'a raw_reader \<Rightarrow> 'a reader" where
  "wrap_rd w r bs = (case r bs of Inl (Inl e) \<Rightarrow> Inl (w e) | Inl (Inr p) \<Rightarrow> Inl (Panic p) | Inr y \<Rightarrow> Inr y)"

text \<open>A name that is missing in its table is replaced by \<open>fmt.Sprintf("unknown_%d", id)\<close>.\<close>

definition name_or_unknown :: "(nat \<times> string) list \<Rightarrow> nat \<Rightarrow> string" where
  "name_or_unknown m i =
     (if index_name m i = '''' then ''unknown_'' @ decimal i else index_name m i)"

definition decode_symbol :: "fits \<Rightarrow> nat \<Rightarrow> wire_symbol reader" where
  "decode_symbol fits i =
     bind_rd (wrap_rd (SymbolError i ''qname'') (readStr fits)) (\<lambda>q.
     bind_rd (wrap_rd (SymbolError i ''kind'') ReadByte) (\<lambda>kindID.
     bind_rd (wrap_rd (SymbolError i ''score'') readFloat32) (\<lambda>score.
     bind_rd (wrap_rd (SymbolError i ''provenance'') ReadByte) (\<lambda>provID.
     bind_rd (wrap_rd (SymbolError i ''distance'') ReadByte) (\<lambda>dist.
     bind_rd (wrap_rd (SymbolError i ''signature'') (readStr fits)) (\<lambda>sig.
     bind_rd (wrap_rd (SymbolError i ''blast_radius'') readFloat32) (\<lambda>br.
     bind_rd (wrap_rd (SymbolError i ''confidence'') readFloat32) (\<lambda>conf.
     bind_rd (wrap_rd (SymbolError i ''recency'') readFloat32) (\<lambda>rec'.
     bind_rd (wrap_rd (SymbolError i ''distance_comp'') readFloat32) (\<lambda>distComp.
     ret_rd
       \<lparr>S_QualifiedName = q,
        S_Kind = name_or_unknown idToKind kindID,
        S_Score = to_float64 score,
        S_Provenance = name_or_unknown idToProv provID,
        S_Distance = word_of_nat dist,
        S_Signature = sig,
        S_Components =
          \<lparr>C_BlastRadius = to_float64 br, C_Confidence = to_float64 conf,
           C_Recency = to_float64 rec', C_Distance = to_float64 distComp\<rparr>\<rparr>))))))))))"

text \<open>The index check compares signed integers; a negative index passes it and panics.\<close>

definition decode_edge :: "wire_symbol list \<Rightarrow> go_int \<Rightarrow> nat \<Rightarrow> wire_edge reader" where
  "decode_edge syms numSymbols i =
     bind_rd (wrap_rd (EdgeError i ''source'') readVarint) (\<lambda>srcIdx.
     bind_rd (wrap_rd (EdgeError i ''target'') readVarint) (\<lambda>tgtIdx.
     if sint numSymbols \<le> sint srcIdx \<or> sint numSymbols \<le> sint tgtIdx
     then fail_rd (EdgeIndexOutOfRange i (sint srcIdx) (sint tgtIdx) (sint (numSymbols - 1)))
     else if sint srcIdx < 0 \<or> sint tgtIdx < 0 then fail_rd (Panic IndexOutOfRangePanic)
     else
       bind_rd (wrap_rd (EdgeError i ''type'') ReadByte) (\<lambda>etID.
       bind_rd (wrap_rd (EdgeError i ''status'') ReadByte) (\<lambda>stID.
       ret_rd
         \<lparr>E_Source = S_QualifiedName (syms ! unat srcIdx),
          E_Target = S_QualifiedName (syms ! unat tgtIdx),
          E_EdgeType = name_or_unknown idToEdgeType etID,
          E_Status = index_name idToStatus stID\<rparr>))))"

text \<open>A loop over the elements \<open>i, \<dots>, i + n - 1\<close> of a slice.\<close>

primrec read_each :: "(nat \<Rightarrow> 'a reader) \<Rightarrow> nat \<Rightarrow> nat \<Rightarrow> 'a list reader" where
  "read_each f i 0 = ret_rd []"
| "read_each f i (Suc n) =
     bind_rd (f i) (\<lambda>x. bind_rd (read_each f (Suc i) n) (\<lambda>xs. ret_rd (x # xs)))"

definition make_each :: "fits \<Rightarrow> elem \<Rightarrow> go_int \<Rightarrow> (nat \<Rightarrow> 'a reader) \<Rightarrow> 'a list reader" where
  "make_each fits t n f =
     (if makeslice_ok fits t n then read_each f 0 (unat n)
      else fail_rd (Panic MakesliceLenOutOfRange))"

definition read_payload :: "fits \<Rightarrow> payload reader" where
  "read_payload fits =
     bind_rd (wrap_rd (ReadError ''magic'') (ReadFull 4)) (\<lambda>magic.
     if magic \<noteq> binaryMagic then fail_rd (InvalidMagic magic) else
     bind_rd (wrap_rd (ReadError ''version'') ReadByte) (\<lambda>ver.
     if ver \<noteq> binaryVersion then fail_rd (UnsupportedVersion ver) else
     bind_rd (wrap_rd (ReadError ''tool'') (readStr fits)) (\<lambda>tool.
     bind_rd (wrap_rd (ReadError ''tokens_used'') readVarint) (\<lambda>used.
     bind_rd (wrap_rd (ReadError ''token_budget'') readVarint) (\<lambda>budget.
     bind_rd (wrap_rd (ReadError ''num_symbols'') readVarint) (\<lambda>numSymbols.
     bind_rd (wrap_rd (ReadError ''num_edges'') readVarint) (\<lambda>numEdges.
     bind_rd (make_each fits SymbolElem numSymbols (decode_symbol fits)) (\<lambda>syms.
     bind_rd (make_each fits EdgeElem numEdges (decode_edge syms numSymbols)) (\<lambda>edges.
     ret_rd \<lparr>P_Tool = tool, P_TokensUsed = used, P_TokenBudget = budget, P_PackRoot = '''',
             P_Symbols = syms, P_Edges = edges\<rparr>)))))))))"

definition decodeBinary :: "fits \<Rightarrow> bytes \<Rightarrow> wire_error + payload" where
  "decodeBinary fits input = map_sum id fst (read_payload fits input)"

section \<open>Reading back what was written\<close>

text \<open>The reader takes exactly these bytes, whatever follows, and yields this value.\<close>

definition yields :: "('e, 'a) reading \<Rightarrow> bytes \<Rightarrow> 'a \<Rightarrow> bool" where
  "yields r bs x \<longleftrightarrow> (\<forall>rest. r (bs @ rest) = Inr (x, rest))"

text \<open>A success does not depend on the bytes that were not read.\<close>

definition local_rd :: "('e, 'a) reading \<Rightarrow> bool" where
  "local_rd r \<longleftrightarrow> (\<forall>bs x rest zs. r bs = Inr (x, rest) \<longrightarrow> r (bs @ zs) = Inr (x, rest @ zs))"

named_theorems local_rules "the readers depend only on what they read"

lemma yields_bind:
  "yields r as x \<Longrightarrow> yields (f x) bs y \<Longrightarrow> yields (bind_rd r f) (as @ bs) y"
  by (simp add: yields_def bind_rd_def)

lemma yields_ret: "yields (ret_rd x) [] x"
  by (simp add: yields_def ret_rd_def)

lemma yields_map: "yields r bs x \<Longrightarrow> yields (bind_rd r (\<lambda>x. ret_rd (g x))) bs (g x)"
  by (simp add: yields_def bind_rd_def ret_rd_def)

lemma yields_wrap: "yields r bs x \<Longrightarrow> yields (wrap_rd w r) bs x"
  by (simp add: yields_def wrap_rd_def)

lemma local_bind [local_rules]:
  "local_rd r \<Longrightarrow> (\<And>x. local_rd (f x)) \<Longrightarrow> local_rd (bind_rd r f)"
  unfolding local_rd_def bind_rd_def by (fastforce split: sum.splits prod.splits)

lemma local_ret [local_rules]: "local_rd (ret_rd x)"
  by (simp add: local_rd_def ret_rd_def)

lemma local_fail [local_rules]: "local_rd (fail_rd e)" "local_rd (\<lambda>bs. Inl e')"
  by (simp_all add: local_rd_def fail_rd_def)

lemma local_if [local_rules]: "local_rd r \<Longrightarrow> local_rd r' \<Longrightarrow> local_rd (if b then r else r')"
  by simp

lemma local_wrap [local_rules]: "local_rd r \<Longrightarrow> local_rd (wrap_rd w r)"
  unfolding local_rd_def wrap_rd_def by (fastforce split: sum.splits)

lemma local_ReadByte [local_rules]: "local_rd ReadByte"
  unfolding local_rd_def
proof (intro allI impI)
  fix bs x rest zs
  assume "ReadByte bs = Inr (x, rest)"
  then show "ReadByte (bs @ zs) = Inr (x, rest @ zs)" by (cases bs) auto
qed

lemma local_ReadFull [local_rules]: "local_rd (ReadFull n)"
  by (auto simp: local_rd_def ReadFull_def split: if_splits)

lemma uvarint_loop_local:
  "uvarint_loop i x bs = Inr (v, rest) \<Longrightarrow> uvarint_loop i x (bs @ zs) = Inr (v, rest @ zs)"
proof (induction bs arbitrary: i x)
  case Nil
  then show ?case by (simp add: uvarint_loop.simps [of i x "[]"] split: if_splits)
next
  case (Cons c cs)
  then show ?case
    by (auto simp: uvarint_loop.simps [of i x "c # cs"] uvarint_loop.simps [of i x "c # cs @ zs"]
        Let_def split: if_splits)
qed

lemma local_readers [local_rules]:
  "local_rd ReadUvarint" "local_rd readVarint" "local_rd (readStr fits)" "local_rd readFloat32"
proof -
  show *: "local_rd ReadUvarint"
    using uvarint_loop_local by (auto simp: local_rd_def ReadUvarint_def)
  show **: "local_rd readVarint"
    unfolding readVarint_def by (intro local_rules *)
  show "local_rd (readStr fits)"
    unfolding readStr_def by (intro local_rules **)
  show "local_rd readFloat32"
    unfolding readFloat32_def by (intro local_rules)
qed

lemma local_read_each [local_rules]: "(\<And>i. local_rd (f i)) \<Longrightarrow> local_rd (read_each f i n)"
  by (induction n arbitrary: i) (simp_all add: local_rules)

lemma local_make_each [local_rules]: "(\<And>i. local_rd (f i)) \<Longrightarrow> local_rd (make_each fits t n f)"
  unfolding make_each_def by (intro local_rules)

lemma local_decoders [local_rules]:
  "local_rd (decode_symbol fits i)" "local_rd (decode_edge syms n i)" "local_rd (read_payload fits)"
proof -
  show *: "local_rd (decode_symbol fits i)" for i
    unfolding decode_symbol_def by (intro local_rules)
  show **: "local_rd (decode_edge syms n i)" for syms n i
    unfolding decode_edge_def by (intro local_rules)
  show "local_rd (read_payload fits)"
    unfolding read_payload_def by (intro local_rules * **)
qed

section \<open>Numbers and strings\<close>

lemma yields_uvarint_loop:
  "v < 2 ^ (64 - 7 * i) \<Longrightarrow> i \<le> 9 \<Longrightarrow> yields (uvarint_loop i x) (PutUvarint v) (x + v * 2 ^ (7 * i))"
proof (induction v arbitrary: i x rule: PutUvarint.induct)
  case (1 v)
  show ?case
  proof (cases "v < 128")
    case True
    with 1(2,3) show ?thesis
      by (auto simp: yields_def PutUvarint.simps [of v] uvarint_loop.simps [of i x "char_of v # r" for r]
          Let_def)
  next
    case False
    have i: "i < 9"
    proof (rule ccontr)
      assume "\<not> i < 9"
      with 1(3) have "i = 9" by simp
      with 1(2) False show False by simp
    qed
    have "(2::nat) ^ (64 - 7 * i) = 128 * 2 ^ (64 - 7 * (i + 1))"
    proof -
      have "64 - 7 * i = 7 + (64 - 7 * (i + 1))" using i by simp
      then show ?thesis by (simp only: power_add) simp
    qed
    with 1(2) have "v div 128 < 2 ^ (64 - 7 * (i + 1))"
      by (simp add: less_mult_imp_div_less mult.commute)
    from 1(1) [OF False this, of "x + v mod 128 * 2 ^ (7 * i)"] i
    have IH: "yields (uvarint_loop (i + 1) (x + v mod 128 * 2 ^ (7 * i))) (PutUvarint (v div 128))
        (x + v mod 128 * 2 ^ (7 * i) + v div 128 * 2 ^ (7 * (i + 1)))"
      by simp
    have val: "x + v mod 128 * 2 ^ (7 * i) + v div 128 * 2 ^ (7 * (i + 1)) = x + v * 2 ^ (7 * i)"
    proof -
      have "v * 2 ^ (7 * i) = (v div 128 * 128 + v mod 128) * 2 ^ (7 * i)" by simp
      then show ?thesis by (simp only: power_add distrib_left distrib_right mult.assoc) simp
    qed
    have c: "(of_char (char_of (v mod 128 + 128) :: char) :: nat) = v mod 128 + 128"
      by simp
    show ?thesis
      using IH False i c unfolding val
      by (simp add: yields_def PutUvarint.simps [of v]
          uvarint_loop.simps [of i x "char_of (v mod 128 + 128) # r" for r] Let_def)
  qed
qed

lemma go_int_of_length:
  assumes "n < 2 ^ 63"
  shows "unat (word_of_nat n :: go_int) = n" "sint (word_of_nat n :: go_int) = int n"
proof -
  show "unat (word_of_nat n :: go_int) = n" using assms by (simp add: unat_of_nat)
  have "signed_take_bit 63 (int n) = int n"
    using assms by (intro signed_take_bit_int_eq_self) auto
  then show "sint (word_of_nat n :: go_int) = int n" by (simp add: signed_of_nat)
qed

lemma yields_varint: "yields readVarint (writeVarint v) v"
proof -
  have "unat v < 2 ^ (64 - 7 * 0)" using unsigned_less [of v] by simp
  from yields_uvarint_loop [OF this, of 0]
  have "yields ReadUvarint (PutUvarint (unat v)) (unat v)" by (simp add: ReadUvarint_def)
  from yields_map [OF this, of "word_of_nat :: nat \<Rightarrow> go_int"] show ?thesis
    by (simp add: readVarint_def writeVarint_def)
qed

lemma yields_byte: "n < 256 \<Longrightarrow> yields ReadByte [char_of n] n"
  by (simp add: yields_def)

lemma yields_full: "yields (ReadFull (length bs)) bs bs"
  by (simp add: yields_def ReadFull_def)

lemma yields_str:
  assumes "length s < 2 ^ 63" "fits ByteElem (length s)"
  shows "yields (readStr fits) (writeStr s) s"
proof -
  let ?n = "word_of_nat (length s) :: go_int"
  note n = go_int_of_length [OF assms(1)]
  have ok: "makeslice_ok fits ByteElem ?n"
    using assms n by (simp add: makeslice_ok_def)
  have "?n = 0 \<longleftrightarrow> s = []" using n(1) by (metis length_0_conv unat_eq_zero)
  with ok n yields_full [of s] yields_ret [of "[]"] show ?thesis
    unfolding readStr_def writeStr_def by (intro yields_bind [OF yields_varint]) auto
qed

lemma yields_float: "yields readFloat32 (writeFloat32 f) f"
proof -
  have len: "length (writeFloat32 f) = 4" by (simp add: writeFloat32_def)
  have "map (of_char \<circ> char_of) ds = ds" if "\<forall>d \<in> set ds. d < 256" for ds :: "nat list"
    using that by (induction ds) auto
  then have "byte_vals (map char_of (rev (be_digits 4 (unat f)))) = rev (be_digits 4 (unat f))"
    using be_digits_less by auto
  moreover have "unat f < 256 ^ 4" using unsigned_less [of f, where ?'a = nat] by simp
  ultimately have "from_be (rev (byte_vals (writeFloat32 f))) = unat f"
    by (simp add: writeFloat32_def)
  with yields_map [OF yields_full [of "writeFloat32 f"],
      of "\<lambda>bs. word_of_nat (from_be (rev (byte_vals bs))) :: f32"] len
  show ?thesis by (simp add: readFloat32_def)
qed

lemma yields_each:
  "(\<And>j. j < length xs \<Longrightarrow> yields (f (i + j)) (g (xs ! j)) (h (xs ! j))) \<Longrightarrow>
    yields (read_each f i (length xs)) (concat (map g xs)) (map h xs)"
proof (induction xs arbitrary: i)
  case Nil
  then show ?case by (simp add: yields_ret)
next
  case (Cons x xs)
  have "yields (f i) (g x) (h x)" using Cons.prems [of 0] by simp
  moreover have "yields (read_each f (Suc i) (length xs)) (concat (map g xs)) (map h xs)"
    by (rule Cons.IH) (use Cons.prems [of "Suc _"] in simp)
  from yields_map [OF this, of "(#) (h x)"]
  have "yields (bind_rd (read_each f (Suc i) (length xs)) (\<lambda>ys. ret_rd (h x # ys)))
      (concat (map g xs)) (h x # map h xs)" .
  ultimately show ?case by (simp add: yields_bind)
qed

lemma yields_make_each:
  assumes "length xs < 2 ^ 63" "fits t (length xs)"
    and "\<And>j. j < length xs \<Longrightarrow> yields (f j) (g (xs ! j)) (h (xs ! j))"
  shows "yields (make_each fits t (word_of_nat (length xs)) f) (concat (map g xs)) (map h xs)"
proof -
  let ?n = "word_of_nat (length xs) :: go_int"
  note n = go_int_of_length [OF assms(1)]
  with assms(2) have "makeslice_ok fits t ?n" by (simp add: makeslice_ok_def)
  with yields_each [of xs f 0 g h] assms(3) n show ?thesis by (simp add: make_each_def)
qed

section \<open>Single precision\<close>

lemma word_fields:
  fixes s E M :: nat
  assumes "M < 2 ^ n" "E < 2 ^ k" "s < 2"
  shows "(s * 2 ^ (n + k) + (E * 2 ^ n + M)) div 2 ^ (n + k) = s"
    and "(s * 2 ^ (n + k) + (E * 2 ^ n + M)) div 2 ^ n mod 2 ^ k = E"
    and "(s * 2 ^ (n + k) + (E * 2 ^ n + M)) mod 2 ^ n = M"
    and "s * 2 ^ (n + k) + (E * 2 ^ n + M) < 2 ^ (n + k + 1)"
proof -
  have mag: "E * 2 ^ n + M < 2 ^ (n + k)"
  proof -
    have "E * 2 ^ n + M < (E + 1) * 2 ^ n" using assms(1) by simp
    also have "\<dots> \<le> 2 ^ k * 2 ^ n" using assms(2) by (intro mult_right_mono) auto
    finally show ?thesis by (simp add: power_add mult.commute)
  qed
  then show "(s * 2 ^ (n + k) + (E * 2 ^ n + M)) div 2 ^ (n + k) = s" by simp
  have "s * 2 ^ (n + k) \<le> 1 * 2 ^ (n + k)" using assms(3) by (intro mult_right_mono) auto
  then have "s * 2 ^ (n + k) + (E * 2 ^ n + M) < 1 * 2 ^ (n + k) + 2 ^ (n + k)"
    using mag by (rule add_le_less_mono)
  then show "s * 2 ^ (n + k) + (E * 2 ^ n + M) < 2 ^ (n + k + 1)" by simp
  have eq: "s * 2 ^ (n + k) + (E * 2 ^ n + M) = (s * 2 ^ k + E) * 2 ^ n + M"
    by (simp add: power_add algebra_simps)
  show "(s * 2 ^ (n + k) + (E * 2 ^ n + M)) div 2 ^ n mod 2 ^ k = E"
    unfolding eq using assms by simp
  show "(s * 2 ^ (n + k) + (E * 2 ^ n + M)) mod 2 ^ n = M"
    unfolding eq using assms by simp
qed

lemma floor_log2_bounds: "0 < n \<Longrightarrow> 2 ^ floor_log2 n \<le> n \<and> n < 2 ^ Suc (floor_log2 n)"
proof (induction n rule: floor_log2.induct)
  case (1 n)
  show ?case
  proof (cases "n < 2")
    case True
    with 1(2) show ?thesis by (simp add: floor_log2.simps [of n])
  next
    case False
    with 1 have "2 ^ floor_log2 (n div 2) \<le> n div 2 \<and> n div 2 < 2 ^ Suc (floor_log2 (n div 2))"
      by simp
    with False show ?thesis by (simp add: floor_log2.simps [of n]) linarith
  qed
qed

lemma round_even_exact: "round_even (q * 2 ^ k) k = q"
  by (simp add: round_even_def)

text \<open>A single-precision pattern that is not a signalling NaN survives the way through a float64.\<close>

definition signalling :: "f32 \<Rightarrow> bool" where
  "signalling y \<longleftrightarrow>
     unat y div 2 ^ 23 mod 2 ^ 8 = 255 \<and> 0 < unat y mod 2 ^ 23 \<and> unat y mod 2 ^ 23 < 2 ^ 22"

lemma unat_f64: "n < 2 ^ 64 \<Longrightarrow> unat (word_of_nat n :: f64) = n"
  by (simp add: unat_of_nat)

lemma to_float32_fields:
  assumes "M < 2 ^ 52" "E < 2 ^ 11" "s < 2"
  shows "to_float32 (word_of_nat (s * 2 ^ 63 + (E * 2 ^ 52 + M))) =
    word_of_nat (s * 2 ^ 31 +
      (if E = 2047 then
         (if M = 0 then 255 * 2 ^ 23 else 255 * 2 ^ 23 + 2 ^ 22 + M div 2 ^ 29 mod 2 ^ 22)
       else if E = 0 then 0
       else if 1150 < E then 255 * 2 ^ 23
       else if 897 \<le> E then (E - 897) * 2 ^ 23 + round_even (2 ^ 52 + M) 29
       else round_even (2 ^ 52 + M) (29 + (897 - E))))"
proof -
  let ?b = "s * 2 ^ 63 + (E * 2 ^ 52 + M)"
  have f: "?b div 2 ^ 63 = s" "?b div 2 ^ 52 mod 2 ^ 11 = E" "?b mod 2 ^ 52 = M" "?b < 2 ^ 64"
    using word_fields [of M 52 E 11 s] assms by simp_all
  from f(4) have "unat (word_of_nat ?b :: f64) = ?b" by (rule unat_f64)
  then show ?thesis unfolding to_float32_def Let_def by (simp only: f)
qed

lemma to_float32_64:
  assumes "\<not> signalling y"
  shows "to_float32 (to_float64 y) = y"
proof -
  define b s e m where d: "b = unat y" "s = b div 2 ^ 31" "e = b div 2 ^ 23 mod 2 ^ 8" "m = b mod 2 ^ 23"
  have b: "b < 2 ^ 32" using unsigned_less [of y, where ?'a = nat] by (simp add: d)
  have s: "s < 2" using b by (simp add: d(2) less_mult_imp_div_less)
  have e: "e < 2 ^ 8" and m: "m < 2 ^ 23" by (simp_all add: d(3,4))
  have y: "y = word_of_nat (s * 2 ^ 31 + (e * 2 ^ 23 + m))"
  proof -
    have "b div 2147483648 = b div 8388608 div 256" by (simp flip: div_mult2_eq)
    moreover have "b = b div 8388608 * 8388608 + b mod 8388608" by simp
    moreover have "b div 8388608 = b div 8388608 div 256 * 256 + b div 8388608 mod 256" by simp
    ultimately have "b = b div 2147483648 * 2147483648 +
        (b div 8388608 mod 256 * 8388608 + b mod 8388608)" by linarith
    then have "b = s * 2 ^ 31 + (e * 2 ^ 23 + m)" by (simp add: d(2-4))
    moreover have "y = word_of_nat b" by (simp add: d(1))
    ultimately show ?thesis by simp
  qed
  have out: "to_float64 y = word_of_nat (s * 2 ^ 63 +
      (if e = 255 then
         (if m = 0 then 2047 * 2 ^ 52 else 2047 * 2 ^ 52 + 2 ^ 51 + m mod 2 ^ 22 * 2 ^ 29)
       else if e = 0 then
         (if m = 0 then 0
          else (let k = floor_log2 m in (k + 874) * 2 ^ 52 + (m - 2 ^ k) * 2 ^ (52 - k)))
       else (e + 896) * 2 ^ 52 + m * 2 ^ 29))"
    by (simp add: to_float64_def Let_def d)
  consider (inf) "e = 255" "m = 0" | (nan) "e = 255" "2 ^ 22 \<le> m" | (zero) "e = 0" "m = 0"
    | (sub) "e = 0" "0 < m" | (norm) "0 < e" "e < 255"
    using assms e by (fastforce simp: signalling_def d)
  then show ?thesis
  proof cases
    case inf
    then show ?thesis using to_float32_fields [of 0 2047 s] s out y by simp
  next
    case nan
    let ?M = "2 ^ 51 + m mod 2 ^ 22 * 2 ^ 29 :: nat"
    have r: "m mod 2 ^ 22 = m - 2 ^ 22" using nan m by (simp add: mod_if)
    then have M: "?M < 2 ^ 52" using m by simp
    have "?M div 2 ^ 29 mod 2 ^ 22 = m - 2 ^ 22" using r m by simp
    then show ?thesis
      using to_float32_fields [of ?M 2047 s] M s out y nan by simp
  next
    case zero
    then show ?thesis using to_float32_fields [of 0 0 s] s out y by simp
  next
    case norm
    have "round_even (2 ^ 52 + m * 2 ^ 29) 29 = 2 ^ 23 + m"
      using round_even_exact [of "2 ^ 23 + m" 29] by (simp add: algebra_simps)
    moreover have "(e - Suc 0) * 8388608 + 8388608 = e * 8388608" using norm by (cases e) auto
    ultimately show ?thesis
      using to_float32_fields [of "m * 2 ^ 29" "e + 896" s] m s out y norm by simp
  next
    case sub
    define k where "k = floor_log2 m"
    have k: "2 ^ k \<le> m" "m < 2 ^ Suc k" using floor_log2_bounds [OF sub(2)] by (auto simp: k_def)
    have k23: "k < 23"
    proof (rule ccontr)
      assume "\<not> k < 23"
      then have "(2::nat) ^ 23 \<le> 2 ^ k" by (intro power_increasing) auto
      with k m show False by simp
    qed
    let ?M = "(m - 2 ^ k) * 2 ^ (52 - k)"
    have p: "(2::nat) ^ k * 2 ^ (52 - k) = 2 ^ 52" using k23 by (simp flip: power_add)
    have "?M < 2 ^ k * 2 ^ (52 - k)" using k by simp
    then have M: "?M < 2 ^ 52" using p by simp
    have "2 ^ 52 + ?M = (2 ^ k + (m - 2 ^ k)) * 2 ^ (52 - k)"
      by (simp only: distrib_right p)
    then have "round_even (2 ^ 52 + ?M) (52 - k) = m"
      using k(1) round_even_exact [of m "52 - k"] by simp
    moreover have "29 + (897 - (k + 874)) = 52 - k" using k23 by simp
    ultimately show ?thesis
      using to_float32_fields [of ?M "k + 874" s] M k23 s out y sub
      by (simp add: Let_def k_def [symmetric])
  qed
qed

lemma unat_f32: "n < 2 ^ 32 \<Longrightarrow> unat (word_of_nat n :: f32) = n"
  by (simp add: unat_of_nat)

lemma signalling_fields:
  assumes "s < 2" "mag < 2 ^ 31"
  shows "signalling (word_of_nat (s * 2 ^ 31 + mag)) \<longleftrightarrow>
    mag div 2 ^ 23 = 255 \<and> 0 < mag mod 2 ^ 23 \<and> mag mod 2 ^ 23 < 2 ^ 22"
proof -
  have "mag div 2 ^ 23 < 2 ^ 8" using assms(2) by (simp add: less_mult_imp_div_less)
  then have f: "(s * 2 ^ 31 + mag) div 2 ^ 23 mod 2 ^ 8 = mag div 2 ^ 23"
    "(s * 2 ^ 31 + mag) mod 2 ^ 23 = mag mod 2 ^ 23" "s * 2 ^ 31 + mag < 2 ^ 32"
    using word_fields [of "mag mod 2 ^ 23" 23 "mag div 2 ^ 23" 8 s] assms(1) by simp_all
  have "unat (word_of_nat (s * 2 ^ 31 + mag) :: f32) = s * 2 ^ 31 + mag"
    using f(3) by (rule unat_f32)
  then show ?thesis unfolding signalling_def by (simp only: f)
qed

lemma round_even_le: "round_even n k \<le> n div 2 ^ k + 1"
  by (simp add: round_even_def Let_def)

lemma round_even_52:
  assumes "M < 2 ^ 52" "29 \<le> k"
  shows "round_even (2 ^ 52 + M) k \<le> 2 ^ 24"
proof -
  have "(2::nat) ^ 29 \<le> 2 ^ k" using assms(2) by (rule power_increasing) simp
  then have "(2 ^ 52 + M) div 2 ^ k \<le> (2 ^ 52 + M) div 2 ^ 29" by (intro div_le_mono2) auto
  also have "(2 ^ 52 + M) div 2 ^ 29 < 2 ^ 24" using assms(1) by (simp add: less_mult_imp_div_less)
  finally show ?thesis using round_even_le [of "2 ^ 52 + M" k] by linarith
qed

lemma top_exponent:
  fixes n :: nat
  assumes "n \<le> c * k" "n div k = c"
  shows "n mod k = 0"
proof -
  have "c * k + n mod k = n" using div_mult_mod_eq [of n k] assms(2) by simp
  then show ?thesis using assms(1) by linarith
qed

lemma to_float32_quiet: "\<not> signalling (to_float32 x)"
proof -
  define b s e m where d: "b = unat x" "s = b div 2 ^ 63" "e = b div 2 ^ 52 mod 2 ^ 11" "m = b mod 2 ^ 52"
  define mag where "mag =
    (if e = 2047 then
       (if m = 0 then 255 * 2 ^ 23 else 255 * 2 ^ 23 + 2 ^ 22 + m div 2 ^ 29 mod 2 ^ 22)
     else if e = 0 then 0
     else if 1150 < e then 255 * 2 ^ 23
     else if 897 \<le> e then (e - 897) * 2 ^ 23 + round_even (2 ^ 52 + m) 29
     else round_even (2 ^ 52 + m) (29 + (897 - e)))"
  have x: "to_float32 x = word_of_nat (s * 2 ^ 31 + mag)"
    by (simp add: to_float32_def Let_def d mag_def)
  have s: "s < 2"
    using unsigned_less [of x, where ?'a = nat] by (simp add: d less_mult_imp_div_less)
  have m: "m < 2 ^ 52" by (simp add: d)
  show ?thesis
  proof (cases "e = 2047 \<and> m \<noteq> 0")
    case True
    let ?k = "m div 2 ^ 29 mod 2 ^ 22"
    have k: "?k < 2 ^ 22" by simp
    have mag: "mag = 255 * 2 ^ 23 + (2 ^ 22 + ?k)" using True by (simp add: mag_def)
    have "mag mod 2 ^ 23 = (2 ^ 22 + ?k) mod 2 ^ 23" unfolding mag by (rule mod_mult_self3)
    also have "\<dots> = 2 ^ 22 + ?k" by (rule mod_less) (use k in simp)
    finally have "mag mod 2 ^ 23 = 2 ^ 22 + ?k" .
    moreover have "mag < 2 ^ 31" unfolding mag using k by simp
    ultimately show ?thesis unfolding x using signalling_fields [OF s] by simp
  next
    case False
    have r: "round_even (2 ^ 52 + m) 29 \<le> 2 ^ 24" "round_even (2 ^ 52 + m) (29 + (897 - e)) \<le> 2 ^ 24"
      using m by (simp_all add: round_even_52 del: power_numeral)
    have "mag \<le> 255 * 2 ^ 23"
    proof (cases "897 \<le> e \<and> e \<le> 1150")
      case True
      then have "(e - 897) * 2 ^ 23 \<le> 253 * 2 ^ 23" by (intro mult_right_mono) auto
      with r(1) True show ?thesis by (simp add: mag_def)
    next
      case False
      with r(2) \<open>\<not> (e = 2047 \<and> m \<noteq> 0)\<close> show ?thesis by (auto simp: mag_def)
    qed
    then have "mag < 2 ^ 31" by simp
    note top = top_exponent [OF \<open>mag \<le> 255 * 2 ^ 23\<close>]
    show ?thesis
      unfolding x signalling_fields [OF s \<open>mag < 2 ^ 31\<close>]
      by (rule notI, elim conjE, drule top) linarith
  qed
qed

text \<open>The value a float64 has after transport.\<close>

definition single :: "f64 \<Rightarrow> f64" where
  "single x = to_float64 (to_float32 x)"

lemma single_idem [simp]: "single (single x) = single x"
  by (simp add: single_def to_float32_64 to_float32_quiet)

section \<open>What arrives\<close>

abbreviation registered :: "(string \<times> nat) list \<Rightarrow> string \<Rightarrow> bool" where
  "registered m k \<equiv> k \<in> fst ` set m"

definition received_symbol :: "wire_symbol \<Rightarrow> wire_symbol" where
  "received_symbol s =
     \<lparr>S_QualifiedName = S_QualifiedName s,
      S_Kind = (if registered kindToID (S_Kind s) then S_Kind s else ''unknown_0''),
      S_Score = single (S_Score s),
      S_Provenance = (if registered provToID (S_Provenance s) then S_Provenance s else ''unknown_0''),
      S_Distance = word_of_nat (unat (S_Distance s) mod 256),
      S_Signature = S_Signature s,
      S_Components =
        \<lparr>C_BlastRadius = single (C_BlastRadius (S_Components s)),
         C_Confidence = single (C_Confidence (S_Components s)),
         C_Recency = single (C_Recency (S_Components s)),
         C_Distance = single (C_Distance (S_Components s))\<rparr>\<rparr>"

text \<open>An endpoint that is no symbol of the payload arrives as the first symbol.\<close>

definition received_endpoint :: "wire_symbol list \<Rightarrow> string \<Rightarrow> string" where
  "received_endpoint syms q =
     (if q \<in> set (map S_QualifiedName syms) then q else S_QualifiedName (hd syms))"

definition received_edge :: "wire_symbol list \<Rightarrow> wire_edge \<Rightarrow> wire_edge" where
  "received_edge syms e =
     \<lparr>E_Source = received_endpoint syms (E_Source e),
      E_Target = received_endpoint syms (E_Target e),
      E_EdgeType = (if registered edgeTypeToID (E_EdgeType e) then E_EdgeType e else ''unknown_0''),
      E_Status = (if E_Status e = ''added'' \<or> E_Status e = ''removed'' then E_Status e else '''')\<rparr>"

definition received :: "payload \<Rightarrow> payload" where
  "received p = p\<lparr>P_PackRoot := '''', P_Symbols := map received_symbol (P_Symbols p),
     P_Edges := map (received_edge (P_Symbols p)) (P_Edges p)\<rparr>"

text \<open>
  Payloads that can be sent: Go's lengths are below \<open>2 ^ 63\<close>, the receiver can allocate the parts,
  and there is a symbol for the edges to refer to.
\<close>

definition sendable :: "fits \<Rightarrow> payload \<Rightarrow> bool" where
  "sendable fits p \<longleftrightarrow>
     (\<forall>s \<in> set (P_Tool p # map S_QualifiedName (P_Symbols p) @ map S_Signature (P_Symbols p)).
        length s < 2 ^ 63 \<and> fits ByteElem (length s)) \<and>
     length (P_Symbols p) < 2 ^ 63 \<and> fits SymbolElem (length (P_Symbols p)) \<and>
     length (P_Edges p) < 2 ^ 63 \<and> fits EdgeElem (length (P_Edges p)) \<and>
     (P_Symbols p = [] \<longrightarrow> P_Edges p = [])"

lemma index_id_in: "registered m k \<Longrightarrow> (k, index_id m k) \<in> set m"
  by (cases "map_of m k") (auto simp: index_id_def map_of_eq_None_iff dest: map_of_SomeD)

lemma index_id_not_in: "\<not> registered m k \<Longrightarrow> index_id m k = 0"
  using map_of_eq_None_iff [of m k] by (simp add: index_id_def)

lemma index_id_bounded:
  assumes "\<forall>e \<in> set m. snd e < b" "0 < b"
  shows "index_id m k < b"
  using assms index_id_in [of k m] index_id_not_in [of k m] by (cases "registered m k") fastforce+

lemma name_of_id:
  assumes inv: "\<forall>e \<in> set m. index_name m' (snd e) = fst e \<and> fst e \<noteq> ''''"
    and zero: "index_name m' 0 = ''''"
  shows "name_or_unknown m' (index_id m k) = (if registered m k then k else ''unknown_0'')"
proof (cases "registered m k")
  case True
  with inv index_id_in [of k m] show ?thesis by (auto simp: name_or_unknown_def)
next
  case False
  moreover have "char_of (48 :: nat) = CHR ''0''" by code_simp
  ultimately show ?thesis
    using zero by (simp add: name_or_unknown_def index_id_not_in decimal.simps [of 0])
qed

lemma kind_table:
  "name_or_unknown idToKind (index_id kindToID k) = (if registered kindToID k then k else ''unknown_0'')"
  "index_id kindToID k < 256"
proof -
  show "name_or_unknown idToKind (index_id kindToID k) = (if registered kindToID k then k else ''unknown_0'')"
    by (rule name_of_id) code_simp+
  show "index_id kindToID k < 256"
    by (rule index_id_bounded) code_simp+
qed

lemma prov_table:
  "name_or_unknown idToProv (index_id provToID k) = (if registered provToID k then k else ''unknown_0'')"
  "index_id provToID k < 256"
proof -
  show "name_or_unknown idToProv (index_id provToID k) = (if registered provToID k then k else ''unknown_0'')"
    by (rule name_of_id) code_simp+
  show "index_id provToID k < 256"
    by (rule index_id_bounded) code_simp+
qed

lemma edge_type_table:
  "name_or_unknown idToEdgeType (index_id edgeTypeToID k) =
    (if registered edgeTypeToID k then k else ''unknown_0'')"
  "index_id edgeTypeToID k < 256"
proof -
  show "name_or_unknown idToEdgeType (index_id edgeTypeToID k) =
      (if registered edgeTypeToID k then k else ''unknown_0'')"
    by (rule name_of_id) code_simp+
  show "index_id edgeTypeToID k < 256"
    by (rule index_id_bounded) code_simp+
qed

lemma status_table:
  "index_name idToStatus (index_id statusToID k) = (if k = ''added'' \<or> k = ''removed'' then k else '''')"
  "index_id statusToID k < 256"
  by (auto simp: index_id_def index_name_def statusToID_def idToStatus_def)

lemma symIndex_snoc:
  "symIndex (xs @ [x]) = gomap_set (S_QualifiedName x) (length xs) (symIndex xs)"
  by (simp add: symIndex_def)

lemma keys_symIndex: "fst ` set (symIndex syms) = S_QualifiedName ` set syms"
  by (induction syms rule: rev_induct) (simp add: symIndex_def, simp add: symIndex_snoc keys_gomap_set)

lemma map_of_symIndex:
  "map_of (symIndex syms) q = Some i \<Longrightarrow> i < length syms \<and> S_QualifiedName (syms ! i) = q"
proof (induction syms rule: rev_induct)
  case Nil
  then show ?case by (simp add: symIndex_def)
next
  case (snoc x xs)
  then show ?case by (auto simp: symIndex_snoc nth_append split: if_splits)
qed

lemma endpoint_index:
  assumes "syms \<noteq> []"
  shows "index_id (symIndex syms) q < length syms"
    and "S_QualifiedName (syms ! index_id (symIndex syms) q) = received_endpoint syms q"
proof -
  have "index_id (symIndex syms) q < length syms \<and>
      S_QualifiedName (syms ! index_id (symIndex syms) q) = received_endpoint syms q"
  proof (cases "map_of (symIndex syms) q")
    case None
    then have "q \<notin> S_QualifiedName ` set syms" by (simp add: map_of_eq_None_iff keys_symIndex)
    with None assms show ?thesis
      by (simp add: index_id_def received_endpoint_def hd_conv_nth)
  next
    case (Some i)
    with map_of_symIndex [OF Some] nth_mem [of i syms] show ?thesis
      by (auto simp: index_id_def received_endpoint_def)
  qed
  then show "index_id (symIndex syms) q < length syms"
    "S_QualifiedName (syms ! index_id (symIndex syms) q) = received_endpoint syms q" by auto
qed

section \<open>Round trips\<close>

lemma yields_last: "yields r bs x \<Longrightarrow> yields (f x) [] y \<Longrightarrow> yields (bind_rd r f) bs y"
  using yields_bind [of r bs x f "[]" y] by simp

lemmas yields_rules = yields_wrap yields_byte yields_float yields_str yields_varint

lemma word_of_byte: "of_char (char_of n :: char) = (n :: nat) mod 256"
  by simp

lemma yields_symbol:
  assumes "length (S_QualifiedName s) < 2 ^ 63" "fits ByteElem (length (S_QualifiedName s))"
    and "length (S_Signature s) < 2 ^ 63" "fits ByteElem (length (S_Signature s))"
  shows "yields (decode_symbol fits i) (encode_symbol s) (received_symbol s)"
  unfolding decode_symbol_def encode_symbol_def
  by (rule yields_bind, rule yields_rules, rule yields_rules, rule assms, rule assms,
      rule yields_bind, rule yields_rules, rule yields_rules, rule kind_table,
      rule yields_bind, rule yields_rules, rule yields_rules,
      rule yields_bind, rule yields_rules, rule yields_rules, rule prov_table,
      rule yields_bind, rule yields_rules, rule yields_byte [OF mod_less_divisor], simp,
      rule yields_bind, rule yields_rules, rule yields_rules, rule assms, rule assms,
      rule yields_bind, rule yields_rules, rule yields_rules,
      rule yields_bind, rule yields_rules, rule yields_rules,
      rule yields_bind, rule yields_rules, rule yields_rules,
      rule yields_last, rule yields_rules, rule yields_rules)
    (simp add: yields_def ret_rd_def received_symbol_def kind_table prov_table single_def)

lemma yields_edge:
  assumes "syms \<noteq> []" "length syms < 2 ^ 63"
    and names: "map S_QualifiedName syms' = map S_QualifiedName syms"
  shows "yields (decode_edge syms' (word_of_nat (length syms)) i) (encode_edge (symIndex syms) e)
    (received_edge syms e)"
proof -
  have idx: "\<not> (int (length syms) \<le> int (index_id (symIndex syms) q))"
    "index_id (symIndex syms) q < 2 ^ 63"
    "S_QualifiedName (syms' ! index_id (symIndex syms) q) = received_endpoint syms q" for q
  proof -
    note i = endpoint_index [OF assms(1), of q]
    show "\<not> (int (length syms) \<le> int (index_id (symIndex syms) q))" using i(1) by simp
    show "index_id (symIndex syms) q < 2 ^ 63" using i(1) assms(2) by linarith
    have "length syms' = length syms" using names by (metis length_map)
    with i names show "S_QualifiedName (syms' ! index_id (symIndex syms) q) = received_endpoint syms q"
      by (metis nth_map)
  qed
  note num = go_int_of_length [OF assms(2)] go_int_of_length [OF idx(2)]
  show ?thesis
    unfolding decode_edge_def encode_edge_def
    apply (rule yields_bind, rule yields_rules, rule yields_rules)
    apply (rule yields_bind, rule yields_rules, rule yields_rules)
    apply (simp only: num idx(1) simp_thms if_False of_nat_less_0_iff)
    apply (rule yields_bind, rule yields_rules, rule yields_rules, rule edge_type_table)
    apply (rule yields_last, rule yields_rules, rule yields_rules, rule status_table)
    apply (simp add: yields_def ret_rd_def received_edge_def idx(3) edge_type_table status_table)
    done
qed

lemma received_symbol_name [simp]:
  "S_QualifiedName (received_symbol s) = S_QualifiedName s"
  "S_Signature (received_symbol s) = S_Signature s"
  by (simp_all add: received_symbol_def)

lemma yields_payload:
  assumes "sendable fits p"
  shows "yields (read_payload fits) (encodeBinary p) (received p)"
proof -
  have parts: "length (P_Tool p) < 2 ^ 63" "fits ByteElem (length (P_Tool p))"
    "length (P_Symbols p) < 2 ^ 63" "fits SymbolElem (length (P_Symbols p))"
    "length (P_Edges p) < 2 ^ 63" "fits EdgeElem (length (P_Edges p))"
    "P_Symbols p = [] \<Longrightarrow> P_Edges p = []"
    using assms by (simp_all add: sendable_def)
  have sym: "yields (decode_symbol fits j) (encode_symbol (P_Symbols p ! j)) (received_symbol (P_Symbols p ! j))"
    if "j < length (P_Symbols p)" for j
    by (rule yields_symbol) (use assms nth_mem [OF that] in \<open>auto simp: sendable_def\<close>)
  have edge: "yields (decode_edge (map received_symbol (P_Symbols p)) (word_of_nat (length (P_Symbols p))) j)
      (encode_edge (symIndex (P_Symbols p)) (P_Edges p ! j)) (received_edge (P_Symbols p) (P_Edges p ! j))"
    if "j < length (P_Edges p)" for j
    by (rule yields_edge) (use parts(3,7) that in auto)
  have bytes: "encodeBinary p = binaryMagic @ [char_of binaryVersion] @
     writeStr (P_Tool p) @ writeVarint (P_TokensUsed p) @ writeVarint (P_TokenBudget p) @
     writeVarint (word_of_nat (length (P_Symbols p))) @
     writeVarint (word_of_nat (length (P_Edges p))) @
     concat (map encode_symbol (P_Symbols p)) @
     concat (map (encode_edge (symIndex (P_Symbols p))) (P_Edges p))"
    by (simp only: encodeBinary_def)
  have magic_length: "length binaryMagic = 4" by (simp add: binaryMagic_def)
  have magic: "yields (ReadFull 4) binaryMagic binaryMagic"
    using yields_full [of binaryMagic] magic_length by simp
  show ?thesis
    unfolding read_payload_def bytes
    apply (rule yields_bind, rule yields_rules, rule magic)
    apply (simp only: simp_thms if_False)
    apply (rule yields_bind, rule yields_rules, rule yields_rules, simp add: binaryVersion_def)
    apply (simp only: simp_thms if_False)
    apply (rule yields_bind, rule yields_rules, rule yields_rules, rule parts, rule parts)
    apply (rule yields_bind, rule yields_rules, rule yields_rules)
    apply (rule yields_bind, rule yields_rules, rule yields_rules)
    apply (rule yields_bind, rule yields_rules, rule yields_rules)
    apply (rule yields_bind, rule yields_rules, rule yields_rules)
    apply (rule yields_bind, rule yields_make_each, rule parts, rule parts, erule sym)
    apply (rule yields_last, rule yields_make_each, rule parts, rule parts, erule edge)
    apply (simp add: yields_def ret_rd_def received_def)
    done
qed

lemma decode_received:
  assumes "sendable fits p"
  shows "decodeBinary fits (encodeBinary p @ rest) = Inr (received p)"
  using yields_payload [OF assms] by (simp add: decodeBinary_def yields_def)

lemma received_sendable: "sendable fits p \<Longrightarrow> sendable fits (received p)"
  by (auto simp: sendable_def received_def)

lemma unknown_unregistered:
  "\<not> registered kindToID ''unknown_0''" "\<not> registered provToID ''unknown_0''"
  "\<not> registered edgeTypeToID ''unknown_0''"
  by (simp_all add: kindToID_def provToID_def edgeTypeToID_def)

lemma received_received: "P_Symbols p = [] \<longrightarrow> P_Edges p = [] \<Longrightarrow> received (received p) = received p"
proof -
  assume nonempty: "P_Symbols p = [] \<longrightarrow> P_Edges p = []"
  have sym: "received_symbol (received_symbol s) = received_symbol s" for s
    by (simp add: received_symbol_def unknown_unregistered unat_of_nat)
  have names: "map S_QualifiedName (map received_symbol syms) = map S_QualifiedName syms" for syms
    by simp
  have "received_endpoint (map received_symbol syms) (received_endpoint syms q) = received_endpoint syms q"
    if "syms \<noteq> []" for syms q
    using that unfolding received_endpoint_def names by (auto simp: hd_map)
  then have "received_edge (map received_symbol (P_Symbols p)) (received_edge (P_Symbols p) e) =
      received_edge (P_Symbols p) e" if "e \<in> set (P_Edges p)" for e
    using that nonempty by (cases "P_Symbols p = []") (auto simp: received_edge_def unknown_unregistered)
  then show ?thesis by (simp add: received_def sym)
qed

text \<open>C16. What decodeBinary makes of the output of encodeBinary, whatever bytes follow it: the
  payload with kinds, provenances and edge types outside the tables renamed to unknown_0, scores
  rounded to single precision, distances reduced modulo 256, the status "unchanged" emptied, the
  pack root dropped, and every edge endpoint that is no symbol redirected to the first symbol.
  Sending the result once more changes nothing.\<close>

theorem binary_roundtrip:
  assumes "sendable fits p"
  shows "decodeBinary fits (encodeBinary p @ rest) = Inr (received p) \<and>
    decodeBinary fits (encodeBinary (received p)) = Inr (received p)"
proof -
  have "P_Symbols p = [] \<longrightarrow> P_Edges p = []" using assms by (simp add: sendable_def)
  then show ?thesis
    using decode_received [OF assms] decode_received [OF received_sendable [OF assms], of "[]"]
    by (simp add: received_received)
qed

definition sample_symbol :: "string \<Rightarrow> wire_symbol" where
  "sample_symbol q =
     \<lparr>S_QualifiedName = q, S_Kind = ''trait'', S_Score = 0x3FB999999999999A,
      S_Provenance = ''ast_resolved'', S_Distance = 300, S_Signature = '''',
      S_Components = \<lparr>C_BlastRadius = 0, C_Confidence = 0, C_Recency = 0, C_Distance = 0\<rparr>\<rparr>"

definition sample_payload :: payload where
  "sample_payload =
     \<lparr>P_Tool = ''context'', P_TokensUsed = 120, P_TokenBudget = 4000, P_PackRoot = ''ab'',
      P_Symbols = [sample_symbol ''p.F'', sample_symbol ''p.G''],
      P_Edges =
        [\<lparr>E_Source = ''p.G'', E_Target = ''q.Missing'', E_EdgeType = ''calls'', E_Status = ''unchanged''\<rparr>]\<rparr>"

lemma sample_sendable: "sendable (\<lambda>t n. n < 2 ^ 40) sample_payload"
  by (simp add: sendable_def sample_payload_def sample_symbol_def)

theorem binary_roundtrip_witness:
  "decodeBinary (\<lambda>t n. n < 2 ^ 40) (encodeBinary sample_payload @ ''junk'') = Inr (received sample_payload) \<and>
   P_Edges (received sample_payload) =
     [\<lparr>E_Source = ''p.G'', E_Target = ''p.F'', E_EdgeType = ''calls'', E_Status = ''''\<rparr>]"
proof
  show "decodeBinary (\<lambda>t n. n < 2 ^ 40) (encodeBinary sample_payload @ ''junk'') =
      Inr (received sample_payload)"
    using binary_roundtrip [OF sample_sendable] by blast
  show "P_Edges (received sample_payload) =
     [\<lparr>E_Source = ''p.G'', E_Target = ''p.F'', E_EdgeType = ''calls'', E_Status = ''''\<rparr>]"
    by (simp add: received_def received_edge_def received_endpoint_def sample_payload_def
        sample_symbol_def edgeTypeToID_def)
qed

text \<open>The encoding is prefix free: decodeBinary rejects every proper prefix of an encoded
  payload, so a truncated transmission is always noticed.\<close>

lemma decode_truncated:
  assumes "sendable fits p" "n < length (encodeBinary p)"
  shows "isl (decodeBinary fits (take n (encodeBinary p)))"
proof (cases "read_payload fits (take n (encodeBinary p))")
  case (Inl e)
  then show ?thesis by (simp add: decodeBinary_def)
next
  case (Inr y)
  obtain x rest where y: "y = (x, rest)" by (cases y)
  have "read_payload fits (take n (encodeBinary p) @ drop n (encodeBinary p)) =
      Inr (x, rest @ drop n (encodeBinary p))"
    using local_decoders(3) [of fits] Inr y unfolding local_rd_def by blast
  moreover have "read_payload fits (encodeBinary p @ []) = Inr (received p, [])"
    using yields_payload [OF assms(1)] unfolding yields_def by blast
  ultimately have "drop n (encodeBinary p) = []" by simp
  with assms(2) show ?thesis by simp
qed

lemma decode_truncated_witness:
  "isl (decodeBinary (\<lambda>t n. n < 2 ^ 40) (take 30 (encodeBinary sample_payload)))"
proof (rule decode_truncated [OF sample_sendable])
  have "length (PutUvarint n) \<noteq> 0" for n by (simp add: PutUvarint.simps [of n])
  then have "1 \<le> length (writeVarint v)" for v
    by (simp add: writeVarint_def Suc_le_eq)
  then have "8 + 33 \<le> length (encodeBinary sample_payload)"
    by (simp add: encodeBinary_def sample_payload_def encode_symbol_def binaryMagic_def writeStr_def
        writeFloat32_def)
  then show "30 < length (encodeBinary sample_payload)" by linarith
qed

lemma bind_yields: "yields r as x \<Longrightarrow> bind_rd r f (as @ bs) = f x bs"
  by (simp add: yields_def bind_rd_def)

lemma readStr_negative:
  assumes "sint n < 0"
  shows "readStr fits (writeVarint n @ rest) = Inl (Inr MakesliceLenOutOfRange)"
proof -
  have "n \<noteq> 0" using assms by auto
  with assms show ?thesis
    unfolding readStr_def bind_yields [OF yields_varint] by (simp add: makeslice_ok_def)
qed

lemma decode_edge_negative:
  assumes "sint n < 0" "0 \<le> sint k" "sint m < sint k"
  shows "decode_edge syms k i (writeVarint n @ writeVarint m @ rest) = Inl (Panic IndexOutOfRangePanic)"
  unfolding decode_edge_def bind_yields [OF yields_wrap, OF yields_varint]
  using assms by (simp add: fail_rd_def)

text \<open>Input from the network can crash the decoder instead of yielding an error: a length
  whose 64-bit value is negative as an int makes the allocation of the tool name panic, and a
  negative symbol index passes the range check of an edge and panics on the slice.\<close>

lemma decode_panics:
  assumes "sint n < 0" "sint m < 1"
  shows "decodeBinary fits (binaryMagic @ [char_of binaryVersion] @ writeVarint n @ rest) =
      Inl (Panic MakesliceLenOutOfRange) \<and>
    decode_edge [s] 1 i (writeVarint n @ writeVarint m @ rest) = Inl (Panic IndexOutOfRangePanic)"
proof
  have magic: "yields (ReadFull 4) binaryMagic binaryMagic"
    using yields_full [of binaryMagic] by (simp add: binaryMagic_def eval_nat_numeral)
  have version: "yields ReadByte [char_of binaryVersion] binaryVersion"
    by (rule yields_byte) (simp add: binaryVersion_def)
  have "read_payload fits (binaryMagic @ [char_of binaryVersion] @ writeVarint n @ rest) =
      Inl (Panic MakesliceLenOutOfRange)"
    unfolding read_payload_def bind_yields [OF yields_wrap, OF magic] simp_thms if_False
      bind_yields [OF yields_wrap, OF version]
    by (simp add: bind_rd_def wrap_rd_def readStr_negative assms(1))
  then show "decodeBinary fits (binaryMagic @ [char_of binaryVersion] @ writeVarint n @ rest) =
      Inl (Panic MakesliceLenOutOfRange)"
    by (simp add: decodeBinary_def)
  show "decode_edge [s] 1 i (writeVarint n @ writeVarint m @ rest) = Inl (Panic IndexOutOfRangePanic)"
    by (rule decode_edge_negative) (use assms in auto)
qed

lemma decode_panics_witness:
  "decodeBinary (\<lambda>t n. True) (binaryMagic @ [char_of binaryVersion] @ writeVarint (- 1)) =
    Inl (Panic MakesliceLenOutOfRange)"
  using decode_panics [of "- 1" 0 "\<lambda>t n. True" "[]"] by simp

section \<open>The JSON codec\<close>

text \<open>
  json.go copies a payload field by field to and from a twin structure that carries the JSON
  names; the text of that structure is the business of encoding/json, whose two functions are the
  parameters \<open>MarshalIndent\<close> and \<open>Unmarshal\<close>.
\<close>

record jsonComponents =
  JC_BlastRadius :: f64
  JC_Confidence :: f64
  JC_Recency :: f64
  JC_Distance :: f64

record jsonSymbol =
  JS_QualifiedName :: string
  JS_Kind :: string
  JS_Score :: f64
  JS_Signature :: string
  JS_Provenance :: string
  JS_Distance :: go_int
  JS_Components :: jsonComponents

record jsonEdge =
  JE_Source :: string
  JE_Target :: string
  JE_EdgeType :: string
  JE_Status :: string

record jsonPayload =
  JP_Tool :: string
  JP_TokensUsed :: go_int
  JP_TokenBudget :: go_int
  JP_PackRoot :: string
  JP_Symbols :: "jsonSymbol list"
  JP_Edges :: "jsonEdge list"

definition to_jsonSymbol :: "wire_symbol \<Rightarrow> jsonSymbol" where
  "to_jsonSymbol s =
     \<lparr>JS_QualifiedName = S_QualifiedName s, JS_Kind = S_Kind s, JS_Score = S_Score s,
      JS_Signature = S_Signature s, JS_Provenance = S_Provenance s, JS_Distance = S_Distance s,
      JS_Components =
        \<lparr>JC_BlastRadius = C_BlastRadius (S_Components s), JC_Confidence = C_Confidence (S_Components s),
         JC_Recency = C_Recency (S_Components s), JC_Distance = C_Distance (S_Components s)\<rparr>\<rparr>"

definition from_jsonSymbol :: "jsonSymbol \<Rightarrow> wire_symbol" where
  "from_jsonSymbol s =
     \<lparr>S_QualifiedName = JS_QualifiedName s, S_Kind = JS_Kind s, S_Score = JS_Score s,
      S_Provenance = JS_Provenance s, S_Distance = JS_Distance s, S_Signature = JS_Signature s,
      S_Components =
        \<lparr>C_BlastRadius = JC_BlastRadius (JS_Components s), C_Confidence = JC_Confidence (JS_Components s),
         C_Recency = JC_Recency (JS_Components s), C_Distance = JC_Distance (JS_Components s)\<rparr>\<rparr>"

definition to_jsonEdge :: "wire_edge \<Rightarrow> jsonEdge" where
  "to_jsonEdge e =
     \<lparr>JE_Source = E_Source e, JE_Target = E_Target e, JE_EdgeType = E_EdgeType e, JE_Status = E_Status e\<rparr>"

definition from_jsonEdge :: "jsonEdge \<Rightarrow> wire_edge" where
  "from_jsonEdge e =
     \<lparr>E_Source = JE_Source e, E_Target = JE_Target e, E_EdgeType = JE_EdgeType e, E_Status = JE_Status e\<rparr>"

datatype codec_error = JsonMarshalError string | JsonUnmarshalError string | BinaryError wire_error
  | GcfError string | UnknownCodec string string

definition encodeJSON :: "(jsonPayload \<Rightarrow> string + string) \<Rightarrow> payload \<Rightarrow> codec_error + string" where
  "encodeJSON MarshalIndent p =
     map_err JsonMarshalError (MarshalIndent
       \<lparr>JP_Tool = P_Tool p, JP_TokensUsed = P_TokensUsed p, JP_TokenBudget = P_TokenBudget p,
        JP_PackRoot = P_PackRoot p, JP_Symbols = map to_jsonSymbol (P_Symbols p),
        JP_Edges = map to_jsonEdge (P_Edges p)\<rparr>)"

definition decodeJSON :: "(string \<Rightarrow> string + jsonPayload) \<Rightarrow> string \<Rightarrow> codec_error + payload" where
  "decodeJSON Unmarshal input =
     bind_res (map_err JsonUnmarshalError (Unmarshal input)) (\<lambda>raw. Inr
       \<lparr>P_Tool = JP_Tool raw, P_TokensUsed = JP_TokensUsed raw, P_TokenBudget = JP_TokenBudget raw,
        P_PackRoot = '''', P_Symbols = map from_jsonSymbol (JP_Symbols raw),
        P_Edges = map from_jsonEdge (JP_Edges raw)\<rparr>)"

lemma from_to_json: "from_jsonSymbol (to_jsonSymbol s) = s" "from_jsonEdge (to_jsonEdge e) = e"
  by (simp_all add: from_jsonSymbol_def to_jsonSymbol_def from_jsonEdge_def to_jsonEdge_def)

text \<open>The JSON codec keeps everything but the pack root, which it writes and does not read.\<close>

lemma json_codec_drops_pack_root:
  assumes "encodeJSON MarshalIndent p = Inr text"
    and "\<And>x y. MarshalIndent x = Inr y \<Longrightarrow> Unmarshal y = Inr x"
  shows "decodeJSON Unmarshal text = Inr (p\<lparr>P_PackRoot := ''''\<rparr>)"
  using assms(2) assms(1) [unfolded encodeJSON_def map_err_eq_Inr]
  by (simp add: decodeJSON_def from_to_json comp_def)

section \<open>The codec registry\<close>

record codec =
  Codec_Name :: string
  Codec_Description :: string
  Codec_Encode :: "payload \<Rightarrow> codec_error + string"
  Codec_Decode :: "string \<Rightarrow> codec_error + payload"

type_synonym registry = "(string, codec) gomap"

text \<open>Registering a second codec under a name panics (\<open>None\<close>).\<close>

definition Register :: "codec \<Rightarrow> registry \<Rightarrow> registry option" where
  "Register c codecs =
     (if map_of codecs (Codec_Name c) \<noteq> None then None
      else Some (gomap_set (Codec_Name c) c codecs))"

definition ListNames :: "registry \<Rightarrow> string" where
  "ListNames codecs =
     foldl (\<lambda>result (i, n). (if 0 < i then result @ '', '' else result) @ n) []
       (let names = sort_Strings (gokeys codecs) in zip [0..<length names] names)"

definition Get :: "registry \<Rightarrow> string \<Rightarrow> codec_error + codec" where
  "Get codecs name =
     (case map_of codecs name of
        None \<Rightarrow> Inl (UnknownCodec name (ListNames codecs))
      | Some c \<Rightarrow> Inr c)"

definition List_codecs :: "registry \<Rightarrow> codec list" where
  "List_codecs codecs = sort_key Codec_Name (map snd codecs)"

definition EncodeWith :: "registry \<Rightarrow> string \<Rightarrow> payload \<Rightarrow> codec_error + string" where
  "EncodeWith codecs name p = bind_res (Get codecs name) (\<lambda>c. Codec_Encode c p)"

definition DecodeWith :: "registry \<Rightarrow> string \<Rightarrow> string \<Rightarrow> codec_error + payload" where
  "DecodeWith codecs name input = bind_res (Get codecs name) (\<lambda>c. Codec_Decode c input)"

text \<open>
  The codecs registered at start-up, in the order the package initialises its files. The functions
  of the external module gcf-go and of encoding/json are parameters.
\<close>

definition gcb_codec :: "fits \<Rightarrow> codec" where
  "gcb_codec fits =
     \<lparr>Codec_Name = ''gcb'',
      Codec_Description = ''Graph Compact Binary: compact transport/storage encoding, 74%+ byte savings'',
      Codec_Encode = (\<lambda>p. Inr (encodeBinary p)),
      Codec_Decode = (\<lambda>s. map_err BinaryError (decodeBinary fits s))\<rparr>"

definition gcf_codec :: "(payload \<Rightarrow> string) \<Rightarrow> (string \<Rightarrow> string + payload) \<Rightarrow> codec" where
  "gcf_codec gcf_Encode gcf_Decode =
     \<lparr>Codec_Name = ''gcf'',
      Codec_Description = ''Graph Compact Format: graph-native, 75%+ token savings, text-only'',
      Codec_Encode = (\<lambda>p. Inr (gcf_Encode p)),
      Codec_Decode = (\<lambda>s. map_err GcfError (gcf_Decode s))\<rparr>"

definition json_codec ::
  "(jsonPayload \<Rightarrow> string + string) \<Rightarrow> (string \<Rightarrow> string + jsonPayload) \<Rightarrow> codec" where
  "json_codec MarshalIndent Unmarshal =
     \<lparr>Codec_Name = ''json'',
      Codec_Description = ''Standard JSON: maximum compatibility, verbose'',
      Codec_Encode = encodeJSON MarshalIndent,
      Codec_Decode = decodeJSON Unmarshal\<rparr>"

primrec register_all :: "codec list \<Rightarrow> registry \<Rightarrow> registry option" where
  "register_all [] codecs = Some codecs"
| "register_all (c # cs) codecs = Option.bind (Register c codecs) (register_all cs)"

lemma Register_Some: "Register c m = Some m' \<Longrightarrow> map_of m' = (map_of m)(Codec_Name c \<mapsto> c)"
  by (auto simp: Register_def split: if_splits)

lemma register_all_map_of:
  "register_all cs m = Some m' \<Longrightarrow> c \<in> set cs \<or> map_of m (Codec_Name c) = Some c \<Longrightarrow>
    map_of m' (Codec_Name c) = Some c"
proof (induction cs arbitrary: m)
  case (Cons d cs)
  then obtain m1 where m1: "Register d m = Some m1" "register_all cs m1 = Some m'"
    by (auto simp: bind_eq_Some_conv)
  have "map_of m (Codec_Name d) = None" using m1(1) by (auto simp: Register_def split: if_splits)
  with Cons.prems(2) have "c \<in> set cs \<or> map_of m1 (Codec_Name c) = Some c"
    by (auto simp: Register_Some [OF m1(1)])
  with Cons.IH [OF m1(2)] show ?case by blast
qed simp

lemma registry_roundtrip:
  assumes "register_all [gcb_codec fits, gcf_codec enc dec, json_codec mar unm] [] = Some codecs"
    and "sendable fits p"
  shows "\<exists>text. EncodeWith codecs ''gcb'' p = Inr text \<and> DecodeWith codecs ''gcb'' text = Inr (received p)"
proof -
  have "map_of codecs (Codec_Name (gcb_codec fits)) = Some (gcb_codec fits)"
    using register_all_map_of [OF assms(1)] by simp
  then have "Get codecs ''gcb'' = Inr (gcb_codec fits)" by (simp add: Get_def gcb_codec_def)
  with decode_received [OF assms(2), of "[]"] show ?thesis
    by (simp add: EncodeWith_def DecodeWith_def gcb_codec_def)
qed

end
