(* ===== verification/StoreRuntime.thy ===== *)
theory StoreRuntime
  imports StoreProps
begin

text \<open>
  The rest of internal/store's tables: the runtime observations and route symbols of
  sqlite_runtime.go, the relevance feedback of feedback.go and the learned vocabulary of vocab.go,
  over the database of GraphStore. \<open>now\<close> is the clock in seconds; \<open>math_Sqrt\<close> stands for
  \<open>math.Sqrt\<close> (of which only non-negativity is used) and \<open>env\<close> for the value of the environment
  variable the feedback weighting reads.
\<close>

section \<open>Route symbols\<close>

definition route_key :: "route_row \<Rightarrow> string \<times> string \<times> string" where
  "route_key r = (ServiceName r, RoutePattern r, MappingType r)"

definition PutRouteSymbol :: "int \<Rightarrow> string \<Rightarrow> string \<Rightarrow> hash \<Rightarrow> string \<Rightarrow> unit op" where
  "PutRouteSymbol now serviceName routePattern nodeHash mappingType =
     exec_sql (\<lambda>d. d\<lparr>T_routes := upsert route_key
       \<lparr>ServiceName = serviceName, RoutePattern = routePattern, MappingType = mappingType,
        RS_NodeHash = nodeHash, CreatedAt = now\<rparr> (T_routes d)\<rparr>)"

definition GetRouteSymbol :: "string \<Rightarrow> string \<Rightarrow> string \<Rightarrow> route_row option op" where
  "GetRouteSymbol serviceName routePattern mappingType =
     query_sql (\<lambda>d. find_row route_key (serviceName, routePattern, mappingType) (T_routes d))"

section \<open>Runtime observations\<close>

definition UpdateObservation :: "hash \<Rightarrow> int \<Rightarrow> int \<Rightarrow> float64 \<Rightarrow> unit op" where
  "UpdateObservation edgeHash n lastObserved confidence =
     exec_sql (\<lambda>d. d\<lparr>T_edges := update_where (\<lambda>e. EdgeHash e = edgeHash)
       (\<lambda>e. e\<lparr>ObservationCount := n, LastObserved := lastObserved, Confidence := confidence\<rparr>) (T_edges d)\<rparr>)"

definition scanEdgeRuntime :: "edge_row \<Rightarrow> edge" where
  "scanEdgeRuntime r = edge.truncate r"

definition RuntimeEdgesByProvenance :: "string \<Rightarrow> edge list op" where
  "RuntimeEdgesByProvenance provenancePrefix =
     query_sql (\<lambda>d. map scanEdgeRuntime
       (filter (\<lambda>e. sql_like (provenancePrefix @ ''%'') (Provenance e)) (T_edges d)))"

text \<open>The condition that selects the edges derived from traces; its underscore is a wildcard.\<close>

definition otel_edge :: "edge_row \<Rightarrow> bool" where
  "otel_edge e \<longleftrightarrow> sql_like ''otel_%'' (Provenance e)"

definition decays :: "int \<Rightarrow> float64 \<Rightarrow> edge_row \<Rightarrow> bool" where
  "decays threshold newConfidence e \<longleftrightarrow>
     otel_edge e \<and> LastObserved e < threshold \<and> LastObserved e > 0 \<and> Confidence e > newConfidence"

definition DecayRuntimeConfidence :: "int \<Rightarrow> int \<Rightarrow> float64 \<Rightarrow> nat op" where
  "DecayRuntimeConfidence now staleDays newConfidence =
     (let threshold = now - staleDays * 86400 in
      sql (\<lambda>d. (length (filter (decays threshold newConfidence) (T_edges d)),
        d\<lparr>T_edges := update_where (decays threshold newConfidence)
          (\<lambda>e. e\<lparr>Confidence := newConfidence\<rparr>) (T_edges d)\<rparr>)))"

text \<open>
  With a service name the query joins route_symbols, so an edge comes once per matching route; a
  limit of zero or less is not applied.
\<close>

definition runtime_rows :: "string \<Rightarrow> string \<Rightarrow> db \<Rightarrow> edge_row list" where
  "runtime_rows serviceName routePattern d =
     (if serviceName = '''' then
        filter (\<lambda>e. otel_edge e \<and>
          (routePattern \<noteq> '''' \<longrightarrow>
            (\<exists>rs \<in> set (T_routes d). RS_NodeHash rs = TargetHash e \<and> sql_like routePattern (RoutePattern rs))))
          (T_edges d)
      else
        concat (map (\<lambda>e.
          map (\<lambda>_. e) (filter (\<lambda>rs. RS_NodeHash rs = TargetHash e \<and> otel_edge e \<and> ServiceName rs = serviceName \<and>
            (routePattern \<noteq> '''' \<longrightarrow> sql_like routePattern (RoutePattern rs))) (T_routes d))) (T_edges d)))"

definition RuntimeEdgesByService :: "string \<Rightarrow> string \<Rightarrow> int \<Rightarrow> edge list op" where
  "RuntimeEdgesByService serviceName routePattern limit =
     query_sql (\<lambda>d. map scanEdgeRuntime
       (let rows = runtime_rows serviceName routePattern d in
        if limit > 0 then take (nat limit) rows else rows))"

text \<open>
  The left join keeps a route without trace edges once (with NULL columns) and otherwise pairs it
  with each of them; the grouping by the primary key keeps a route once.
\<close>

definition joined_edges :: "db \<Rightarrow> route_row \<Rightarrow> edge_row list" where
  "joined_edges d rs = filter (\<lambda>e. RS_NodeHash rs = TargetHash e \<and> otel_edge e) (T_edges d)"

definition DeadRoutes :: "int \<Rightarrow> int \<Rightarrow> route_row list op" where
  "DeadRoutes now staleDays =
     (let threshold = now - staleDays * 86400 in
      query_sql (\<lambda>d. filter (\<lambda>rs. joined_edges d rs = [] \<or>
        (\<exists>e \<in> set (joined_edges d rs). LastObserved e < threshold)) (T_routes d)))"

record RuntimeStatsRow =
  TotalEdges :: int
  ActiveEdges :: int
  RS_StaleEdges :: int
  GCEligible :: int
  ByEdgeType :: "(string, int) gomap"

definition stats_row :: "int \<Rightarrow> edge_row \<Rightarrow> RuntimeStatsRow \<Rightarrow> RuntimeStatsRow" where
  "stats_row now e st =
     (let sevenDaysAgo = now - 7 * 86400; thirtyDaysAgo = now - 30 * 86400;
          ninetyDaysAgo = now - 90 * 86400; lastObs = LastObserved e;
          st = st\<lparr>TotalEdges := TotalEdges st + 1,
            ByEdgeType := gomap_set (EdgeType e)
              ((case map_of (ByEdgeType st) (EdgeType e) of None \<Rightarrow> 0 | Some n \<Rightarrow> n) + 1) (ByEdgeType st)\<rparr>;
          st = (if lastObs \<ge> sevenDaysAgo then st\<lparr>ActiveEdges := ActiveEdges st + 1\<rparr> else st);
          st = (if lastObs > 0 \<and> lastObs < thirtyDaysAgo then st\<lparr>RS_StaleEdges := RS_StaleEdges st + 1\<rparr> else st)
      in if lastObs > 0 \<and> lastObs < ninetyDaysAgo then st\<lparr>GCEligible := GCEligible st + 1\<rparr> else st)"

definition RuntimeEdgeStatsAggregate :: "int \<Rightarrow> RuntimeStatsRow op" where
  "RuntimeEdgeStatsAggregate now =
     query_sql (\<lambda>d. fold (stats_row now) (filter otel_edge (T_edges d))
       \<lparr>TotalEdges = 0, ActiveEdges = 0, RS_StaleEdges = 0, GCEligible = 0, ByEdgeType = []\<rparr>)"

section \<open>Feedback\<close>

definition feedbackWeightMode :: "string \<Rightarrow> string" where
  "feedbackWeightMode env = (if env \<noteq> '''' then env else ''none'')"

definition weightedFeedbackScore :: "(float64 \<Rightarrow> float64) \<Rightarrow> string \<Rightarrow> int \<Rightarrow> int \<Rightarrow> float64" where
  "weightedFeedbackScore math_Sqrt env usefulCount n =
     (if n = 0 then 0
      else
        (let raw = of_int usefulCount / of_int n; mode = feedbackWeightMode env;
             confidence = 1 - 1 / (1 + math_Sqrt (of_int n)) in
         if mode = ''none'' then raw
         else if mode = ''linear'' then 1 / 2 + (raw - 1 / 2) * (1 - 1 / (1 + of_int n))
         else if mode = ''asym'' then
           (if raw \<ge> 1 / 2 then raw else 1 / 2 + (raw - 1 / 2) * confidence)
         else 1 / 2 + (raw - 1 / 2) * confidence))"

record FeedbackStats =
  UsefulCount :: int
  NotUsefulCount :: int
  FS_Score :: float64

definition nullable :: "hash \<Rightarrow> hash option" where
  "nullable h = (if h = EmptyHash then None else Some h)"

definition RecordFeedback :: "int \<Rightarrow> hash \<Rightarrow> string \<Rightarrow> bool \<Rightarrow> hash \<Rightarrow> hash \<Rightarrow> unit op" where
  "RecordFeedback now symbolHash sessionID useful neighborhoodRoot cluster =
     bind_op (exec_sql (\<lambda>d. d\<lparr>T_feedback := T_feedback d @
       [\<lparr>FB_SymbolHash = symbolHash, SessionID = sessionID, Useful = (if useful then 1 else 0),
         FB_Timestamp = now, NeighborhoodRoot = nullable neighborhoodRoot,
         KeywordCluster = nullable cluster\<rparr>]\<rparr>)) (\<lambda>_.
     bind_op (ignore_op (exec_sql (\<lambda>d. d\<lparr>T_notes := delete_where (\<lambda>n. Note_Key n = ''context_pack'') (T_notes d)\<rparr>))) (\<lambda>_.
     bind_op (ignore_op (exec_sql (\<lambda>d. d\<lparr>T_notes := delete_where (\<lambda>n. Note_Key n = ''rwr_cache'') (T_notes d)\<rparr>))) (\<lambda>_.
     ret ())))"

text \<open>\<open>SELECT COALESCE(SUM(useful), 0), COUNT( * ) \<dots> WHERE \<dots>\<close>\<close>

definition feedback_sums :: "(feedback_row \<Rightarrow> bool) \<Rightarrow> db \<Rightarrow> int \<times> int" where
  "feedback_sums P d =
     (let rows = filter P (T_feedback d) in (sum_list (map Useful rows), int (length rows)))"

definition QueryFeedback :: "hash \<Rightarrow> FeedbackStats op" where
  "QueryFeedback symbolHash =
     bind_op (query_sql (feedback_sums (\<lambda>f. FB_SymbolHash f = symbolHash))) (\<lambda>(usefulCount, n).
     ret \<lparr>UsefulCount = usefulCount, NotUsefulCount = n - usefulCount,
          FS_Score = (if n > 0 then of_int usefulCount / of_int n else 0)\<rparr>)"

text \<open>
  A comparison with NULL is never true: without a current root only rows without a root count,
  and a cluster filter excludes the rows without a cluster.
\<close>

definition feedback_filter ::
  "(hash, hash) gomap \<Rightarrow> hash list \<Rightarrow> hash \<Rightarrow> feedback_row \<Rightarrow> bool" where
  "feedback_filter neighborhoodRoots cluster h f \<longleftrightarrow>
     FB_SymbolHash f = h \<and>
     (neighborhoodRoots \<noteq> [] \<longrightarrow>
        NeighborhoodRoot f = None \<or>
        (case map_of neighborhoodRoots h of
           None \<Rightarrow> False
         | Some current \<Rightarrow> current \<noteq> EmptyHash \<and> NeighborhoodRoot f = Some current)) \<and>
     (cluster \<noteq> [] \<and> hd cluster \<noteq> EmptyHash \<longrightarrow> KeywordCluster f = Some (hd cluster))"

primrec feedback_loop ::
  "(float64 \<Rightarrow> float64) \<Rightarrow> string \<Rightarrow> (hash, hash) gomap \<Rightarrow> hash list \<Rightarrow> hash list \<Rightarrow>
    (hash, float64) gomap \<Rightarrow> (hash, float64) gomap op" where
  "feedback_loop math_Sqrt env roots cluster [] result = ret result"
| "feedback_loop math_Sqrt env roots cluster (h # hs) result =
     bind_op (query_sql (feedback_sums (feedback_filter roots cluster h))) (\<lambda>(usefulCount, n).
     feedback_loop math_Sqrt env roots cluster hs
       (if n > 0 then gomap_set h (weightedFeedbackScore math_Sqrt env usefulCount n) result else result))"

text \<open>Preparing the statement may fail as well.\<close>

definition FeedbackBoosts ::
  "(float64 \<Rightarrow> float64) \<Rightarrow> string \<Rightarrow> hash list \<Rightarrow> (hash, hash) gomap \<Rightarrow> hash list \<Rightarrow>
    (hash, float64) gomap op" where
  "FeedbackBoosts math_Sqrt env hashes neighborhoodRoots cluster =
     (if length hashes = 0 then ret []
      else bind_op (query_sql (\<lambda>_. ())) (\<lambda>_.
        feedback_loop math_Sqrt env neighborhoodRoots cluster hashes []))"

section \<open>Learned vocabulary\<close>

definition vocab_key :: "vocab_row \<Rightarrow> string \<times> hash" where
  "vocab_key v = (VA_Keyword v, VA_SymbolHash v)"

definition subgraph_arg :: "hash list \<Rightarrow> hash option" where
  "subgraph_arg subgraphRoot = (if subgraphRoot = [] then None else nullable (hd subgraphRoot))"

definition RecordVocabAssociation :: "int \<Rightarrow> string \<Rightarrow> string \<Rightarrow> hash \<Rightarrow> hash list \<Rightarrow> unit op" where
  "RecordVocabAssociation now keyword symbolName symbolHash subgraphRoot =
     (let rootBytes = subgraph_arg subgraphRoot in
      exec_sql (\<lambda>d. d\<lparr>T_vocab :=
        (case find_row vocab_key (keyword, symbolHash) (T_vocab d) of
           None \<Rightarrow> T_vocab d @
             [\<lparr>VA_Keyword = keyword, VA_SymbolName = symbolName, VA_SymbolHash = symbolHash,
               VA_Count = 1, VA_LastSeen = now, VA_SubgraphRoot = rootBytes\<rparr>]
         | Some _ \<Rightarrow> update_where (\<lambda>v. vocab_key v = (keyword, symbolHash))
             (\<lambda>v. v\<lparr>VA_Count := VA_Count v + 1, VA_LastSeen := now,
                    VA_SubgraphRoot := (case rootBytes of None \<Rightarrow> VA_SubgraphRoot v | Some r \<Rightarrow> Some r)\<rparr>)
             (T_vocab d))\<rparr>))"

text \<open>An association is expired when the map has its symbol under another root.\<close>

definition expired :: "(hash, hash) gomap option \<Rightarrow> vocab_row \<Rightarrow> bool" where
  "expired roots v =
     (case (roots, VA_SubgraphRoot v) of
        (Some m, Some r) \<Rightarrow>
          r \<noteq> EmptyHash \<and> (case map_of m (VA_SymbolHash v) of None \<Rightarrow> False | Some c \<Rightarrow> c \<noteq> r)
      | _ \<Rightarrow> False)"

definition LearnedVocabAssociations ::
  "string list \<Rightarrow> int \<Rightarrow> (hash, hash) gomap option \<Rightarrow> vocab_row list op" where
  "LearnedVocabAssociations keywords minCount roots =
     (if length keywords = 0 then ret []
      else query_sql (\<lambda>d. filter (\<lambda>v. \<not> expired roots v)
        (sort_key (\<lambda>v. - VA_Count v)
          (filter (\<lambda>v. VA_Count v \<ge> minCount \<and> VA_Keyword v \<in> set keywords) (T_vocab d)))))"

definition gomap_append :: "'k \<Rightarrow> 'v \<Rightarrow> ('k, 'v list) gomap \<Rightarrow> ('k, 'v list) gomap" where
  "gomap_append k v m = gomap_set k ((case map_of m k of None \<Rightarrow> [] | Some vs \<Rightarrow> vs) @ [v]) m"

definition LearnedVocabDetails ::
  "string list \<Rightarrow> int \<Rightarrow> (hash, hash) gomap option \<Rightarrow> (string, (string \<times> int) list) gomap op" where
  "LearnedVocabDetails keywords minCount roots =
     bind_op (LearnedVocabAssociations keywords minCount roots) (\<lambda>assocs.
     ret (fold (\<lambda>a. gomap_append (VA_Keyword a) (VA_SymbolName a, VA_Count a)) assocs []))"

definition LearnedVocabTargets :: "string list \<Rightarrow> int \<Rightarrow> (string, string list) gomap op" where
  "LearnedVocabTargets keywords minCount =
     bind_op (LearnedVocabAssociations keywords minCount None) (\<lambda>assocs.
     ret (fold (\<lambda>a. gomap_append (VA_Keyword a) (VA_SymbolName a)) assocs []))"

section \<open>Lemmas\<close>

interpretation routes_tab: keyed_table route_key "upsert route_key" "find_row route_key" "delete_key route_key" "primary_key route_key"
  by (rule keyed_table_rows)

lemma db_ok_runtime [preserve]:
  "preserves db_ok (PutRouteSymbol now svc pat h mt)"
  "preserves db_ok (UpdateObservation eh n l c)"
  "preserves db_ok (DecayRuntimeConfidence now days c)"
  "preserves db_ok (RecordFeedback now h sid u r cl)"
  "preserves db_ok (RecordVocabAssociation now kw nm h rs)"
proof -
  show "preserves db_ok (PutRouteSymbol now svc pat h mt)"
    unfolding PutRouteSymbol_def by (rule preserves_exec) (simp add: db_ok_def)
  show "preserves db_ok (UpdateObservation eh n l c)"
    unfolding UpdateObservation_def
    by (rule preserves_exec) (simp add: db_ok_def primary_key_def update_where_def comp_def if_distrib cong: if_cong)
  show "preserves db_ok (DecayRuntimeConfidence now days c)"
    unfolding DecayRuntimeConfidence_def Let_def
    by (rule preserves_sql) (simp add: db_ok_def primary_key_def update_where_def comp_def if_distrib cong: if_cong)
  show "preserves db_ok (RecordFeedback now h sid u r cl)"
    unfolding RecordFeedback_def
    by (intro preserve preserves_exec) (auto simp: db_ok_def primary_key_def delete_where_def distinct_map inj_on_def)
  show "preserves db_ok (RecordVocabAssociation now kw nm h rs)"
    unfolding RecordVocabAssociation_def Let_def by (rule preserves_exec) (simp add: db_ok_def)
qed

lemma sum_useful:
  "\<forall>f \<in> set fs. Useful f = 0 \<or> Useful f = 1 \<Longrightarrow>
    0 \<le> sum_list (map Useful fs) \<and> sum_list (map Useful fs) \<le> int (length fs)"
  by (induction fs) auto

lemma damped:
  fixes raw c :: rat
  assumes "0 \<le> raw" "raw \<le> 1" "0 \<le> c" "c \<le> 1"
  shows "0 \<le> 1 / 2 + (raw - 1 / 2) * c \<and> 1 / 2 + (raw - 1 / 2) * c \<le> 1"
proof -
  have "\<bar>raw - 1 / 2\<bar> \<le> 1 / 2" using assms(1,2) by (intro abs_leI) auto
  then have "\<bar>raw - 1 / 2\<bar> * c \<le> 1 / 2 * 1" using assms(3,4) by (intro mult_mono) auto
  then have "\<bar>(raw - 1 / 2) * c\<bar> \<le> 1 / 2" using assms(3) by (simp add: abs_mult)
  from abs_le_D1 [OF this] abs_le_D2 [OF this] show ?thesis by linarith
qed

lemma weightedFeedbackScore_range:
  assumes "0 \<le> u" "u \<le> n" "\<And>x. 0 \<le> x \<Longrightarrow> 0 \<le> math_Sqrt x"
  shows "0 \<le> weightedFeedbackScore math_Sqrt env u n \<and> weightedFeedbackScore math_Sqrt env u n \<le> 1"
proof (cases "n = 0")
  case False
  let ?raw = "of_int u / of_int n :: rat"
  have n: "0 < n" using assms(1,2) False by linarith
  have raw: "0 \<le> ?raw" "?raw \<le> 1" using assms n by (simp_all add: divide_le_eq_1)
  have c: "0 \<le> 1 - 1 / (1 + x) \<and> 1 - 1 / (1 + x) \<le> 1" if "0 \<le> x" for x :: rat
    using that by (simp add: field_simps)
  have s: "0 \<le> math_Sqrt (of_int n)" using n by (intro assms(3)) simp
  have l: "(0::rat) \<le> of_int n" using n by simp
  show ?thesis
    unfolding weightedFeedbackScore_def Let_def
    using raw damped [OF raw, of "1 - 1 / (1 + math_Sqrt (of_int n))"] c [OF s]
      damped [OF raw, of "1 - 1 / (1 + of_int n)"] c [OF l] False
    by (simp only: if_False simp_thms split: if_split)
qed (simp add: weightedFeedbackScore_def)

text \<open>The score a hash gets: none without matching feedback.\<close>

definition feedback_score ::
  "(float64 \<Rightarrow> float64) \<Rightarrow> string \<Rightarrow> (hash, hash) gomap \<Rightarrow> hash list \<Rightarrow> db \<Rightarrow> hash \<Rightarrow> float64 option" where
  "feedback_score math_Sqrt env roots cluster d h =
     (case feedback_sums (feedback_filter roots cluster h) d of (u, n) \<Rightarrow>
        if n > 0 then Some (weightedFeedbackScore math_Sqrt env u n) else None)"

lemma bind_query_run:
  assumes "bind_op (query_sql q) f s = (Inr x, s')"
  obtains s1 where "DB s1 = DB s" "f (q (DB s)) s1 = (Inr x, s')"
  using assms that [of "s\<lparr>Faults := tl (Faults s)\<rparr>"]
  by (simp add: bind_op_def query_sql_def sql_def split: if_splits)

lemma feedback_loop_acts:
  "feedback_loop math_Sqrt env roots cluster hs result s = (Inr res, s') \<Longrightarrow>
    DB s' = DB s \<and>
    map_of res h = (if h \<in> set hs \<and> feedback_score math_Sqrt env roots cluster (DB s) h \<noteq> None
                    then feedback_score math_Sqrt env roots cluster (DB s) h else map_of result h)"
proof (induction hs arbitrary: result s)
  case Nil
  then show ?case by (simp add: ret_def)
next
  case (Cons k hs)
  let ?q = "feedback_sums (feedback_filter roots cluster k)"
  obtain u n where q: "?q (DB s) = (u, n)" by (cases "?q (DB s)")
  let ?res = "if n > 0 then gomap_set k (weightedFeedbackScore math_Sqrt env u n) result else result"
  from Cons.prems q obtain s1 where s1: "DB s1 = DB s"
    "feedback_loop math_Sqrt env roots cluster hs ?res s1 = (Inr res, s')"
    unfolding feedback_loop.simps by (elim bind_query_run) simp
  from Cons.IH [OF s1(2)] s1(1) q show ?case
    by (auto simp: feedback_score_def)
qed

lemma FeedbackBoosts_map:
  assumes "FeedbackBoosts math_Sqrt env hashes roots cluster s = (Inr res, s')"
  shows "DB s' = DB s"
    and "map_of res h = (if h \<in> set hashes then feedback_score math_Sqrt env roots cluster (DB s) h else None)"
proof -
  have "DB s' = DB s \<and>
    map_of res h = (if h \<in> set hashes then feedback_score math_Sqrt env roots cluster (DB s) h else None)"
  proof (cases hashes)
    case Nil
    with assms show ?thesis by (simp add: FeedbackBoosts_def ret_def)
  next
    case (Cons k hs)
    with assms obtain s1 where "DB s1 = DB s" "feedback_loop math_Sqrt env roots cluster hashes [] s1 = (Inr res, s')"
      unfolding FeedbackBoosts_def by (simp del: feedback_loop.simps) (elim bind_query_run, simp)
    with feedback_loop_acts [OF this(2), of h] show ?thesis by auto
  qed
  then show "DB s' = DB s"
    "map_of res h = (if h \<in> set hashes then feedback_score math_Sqrt env roots cluster (DB s) h else None)"
    by auto
qed

lemma RecordFeedback_rows:
  assumes "RecordFeedback now h sid u r c s = (Inr (), s')"
  shows "T_feedback (DB s') = T_feedback (DB s) @
    [\<lparr>FB_SymbolHash = h, SessionID = sid, Useful = (if u then 1 else 0), FB_Timestamp = now,
      NeighborhoodRoot = nullable r, KeywordCluster = nullable c\<rparr>]"
  using assms
  by (auto simp: RecordFeedback_def bind_op_def ignore_op_def exec_sql_def sql_def ret_def split: if_splits prod.splits)

lemma nonneg_feedback_empty: "feedback_sums P (d\<lparr>T_feedback := []\<rparr>) = (0, 0)"
  by (simp add: feedback_sums_def)

lemma feedback_sums_snoc:
  "feedback_sums P (d\<lparr>T_feedback := fs @ [f]\<rparr>) =
    (if P f then (fst (feedback_sums P (d\<lparr>T_feedback := fs\<rparr>)) + Useful f, snd (feedback_sums P (d\<lparr>T_feedback := fs\<rparr>)) + 1)
     else feedback_sums P (d\<lparr>T_feedback := fs\<rparr>))"
  by (simp add: feedback_sums_def Let_def)

section \<open>Properties\<close>

text \<open>
  C17. FeedbackBoosts gives a score to exactly those of the asked symbols that have a feedback row
  passing the filters and each score lies between 0 and 1 in every weighting mode, with or without
  current roots; without roots and without a cluster these are the symbols with any feedback. When
  roots are given, feedback recorded under another root than the current one of its symbol does not
  change any score: it has expired with the package. (Feedback recorded without a root never
  expires.)
\<close>

theorem FeedbackBoosts_scores:
  assumes run: "FeedbackBoosts math_Sqrt env hashes roots cluster s = (Inr res, s')"
    and binary: "\<forall>f \<in> set (T_feedback (DB s)). Useful f = 0 \<or> Useful f = 1"
    and sqrt: "\<And>x. 0 \<le> x \<Longrightarrow> 0 \<le> math_Sqrt x"
  shows "dom (map_of res) =
      {h \<in> set hashes. filter (feedback_filter roots cluster h) (T_feedback (DB s)) \<noteq> []} \<and>
    ran (map_of res) \<subseteq> {0..1} \<and>
    (roots = [] \<longrightarrow> cluster = [] \<longrightarrow>
      dom (map_of res) = set hashes \<inter> FB_SymbolHash ` set (T_feedback (DB s))) \<and>
    (\<forall>now g sid u r c s1 res1 s1'. roots \<noteq> [] \<longrightarrow> r \<noteq> EmptyHash \<longrightarrow> map_of roots g \<noteq> Some r \<longrightarrow>
      RecordFeedback now g sid u r c s = (Inr (), s1) \<longrightarrow>
      FeedbackBoosts math_Sqrt env hashes roots cluster s1 = (Inr res1, s1') \<longrightarrow> map_of res1 = map_of res)"
proof (intro conjI allI impI)
  note m = FeedbackBoosts_map(2) [OF run]
  have score: "feedback_score math_Sqrt env roots cluster (DB s) h =
      (let fs = filter (feedback_filter roots cluster h) (T_feedback (DB s)) in
       if fs = [] then None
       else Some (weightedFeedbackScore math_Sqrt env (sum_list (map Useful fs)) (int (length fs))))" for h
    by (auto simp: feedback_score_def feedback_sums_def Let_def)
  show dom: "dom (map_of res) = {h \<in> set hashes. filter (feedback_filter roots cluster h) (T_feedback (DB s)) \<noteq> []}"
    by (auto simp: dom_def m score Let_def split: if_splits)
  show "dom (map_of res) = set hashes \<inter> FB_SymbolHash ` set (T_feedback (DB s))" if "roots = []" "cluster = []"
    unfolding dom using that by (auto simp: feedback_filter_def filter_empty_conv)
  show "ran (map_of res) \<subseteq> {0..1}"
  proof
    fix x
    assume "x \<in> ran (map_of res)"
    then obtain h where "map_of res h = Some x" by (auto simp: ran_def)
    then obtain fs where fs: "fs = filter (feedback_filter roots cluster h) (T_feedback (DB s))"
      and x: "x = weightedFeedbackScore math_Sqrt env (sum_list (map Useful fs)) (int (length fs))"
      by (auto simp: m score Let_def split: if_splits)
    have "\<forall>f \<in> set fs. Useful f = 0 \<or> Useful f = 1" using binary fs by auto
    from sum_useful [OF this] weightedFeedbackScore_range [OF _ _ sqrt] show "x \<in> {0..1}"
      unfolding x by auto
  qed
next
  fix now g sid u r c s1 res1 s1'
  assume old: "roots \<noteq> []" "r \<noteq> EmptyHash" "map_of roots g \<noteq> Some r"
    and rec: "RecordFeedback now g sid u r c s = (Inr (), s1)"
    and run1: "FeedbackBoosts math_Sqrt env hashes roots cluster s1 = (Inr res1, s1')"
  note m = FeedbackBoosts_map(2) [OF run]
  let ?row = "\<lparr>FB_SymbolHash = g, SessionID = sid, Useful = (if u then 1 else 0), FB_Timestamp = now,
      NeighborhoodRoot = nullable r, KeywordCluster = nullable c\<rparr>"
  have "\<not> feedback_filter roots cluster h ?row" for h
    using old by (auto simp: feedback_filter_def nullable_def split: option.splits)
  then have "feedback_score math_Sqrt env roots cluster (DB s1) h = feedback_score math_Sqrt env roots cluster (DB s) h" for h
    unfolding feedback_score_def feedback_sums_def RecordFeedback_rows [OF rec] by simp
  with FeedbackBoosts_map(2) [OF run1] m show "map_of res1 = map_of res" by (simp add: fun_eq_iff)
qed

lemma RecordFeedback_runs:
  assumes "Faults t = []"
  shows "RecordFeedback now h sid u r c t = (Inr (), snd (RecordFeedback now h sid u r c t))"
    and "Faults (snd (RecordFeedback now h sid u r c t)) = []"
  using assms by (simp_all add: RecordFeedback_def bind_op_def ignore_op_def exec_sql_def sql_def ret_def)

lemma FeedbackBoosts_runs:
  assumes "Faults t = []"
  shows "\<exists>res. FeedbackBoosts math_Sqrt env hs roots cluster t = (Inr res, t)"
proof -
  have same: "t\<lparr>Faults := []\<rparr> = t" using assms by (cases t) simp
  have "\<exists>res. feedback_loop math_Sqrt env roots cluster hs acc t = (Inr res, t)" for acc
    using assms by (induction hs arbitrary: acc)
      (auto simp: same bind_op_def query_sql_def sql_def ret_def split: prod.split)
  with assms show ?thesis
    by (auto simp: same FeedbackBoosts_def bind_op_def query_sql_def sql_def ret_def simp del: feedback_loop.simps)
qed

theorem FeedbackBoosts_scores_witness:
  "(\<exists>res s' res1 s1'. FeedbackBoosts (\<lambda>x. x) '''' [7] [(7, 5)] []
        (snd (RecordFeedback 100 7 ''s'' True 5 0 (open_store empty_db []))) = (Inr res, s') \<and>
      FeedbackBoosts (\<lambda>x. x) '''' [7] [(7, 5)] []
        (snd (RecordFeedback 200 7 ''t'' False 9 0 (snd (RecordFeedback 100 7 ''s'' True 5 0 (open_store empty_db []))))) =
        (Inr res1, s1') \<and>
      ran (map_of res) \<subseteq> {0..1} \<and> map_of res 7 = Some 1 \<and> map_of res1 = map_of res) \<and>
   (\<exists>res s'. FeedbackBoosts (\<lambda>x. x) '''' [7, 8] [] []
        (snd (RecordFeedback 100 7 ''s'' True 5 0 (open_store empty_db []))) = (Inr res, s') \<and>
      dom (map_of res) = {7} \<and> ran (map_of res) \<subseteq> {0..1})"
proof -
  let ?s = "snd (RecordFeedback 100 7 ''s'' True 5 0 (open_store empty_db []))"
  let ?s1 = "snd (RecordFeedback 200 7 ''t'' False 9 0 ?s)"
  have f0: "Faults (open_store empty_db []) = []" by (simp add: open_store_def)
  have f: "Faults ?s = []" "Faults ?s1 = []" by (rule RecordFeedback_runs(2), rule f0) (rule RecordFeedback_runs(2), rule RecordFeedback_runs(2), rule f0)
  have rows: "T_feedback (DB ?s) = [\<lparr>FB_SymbolHash = 7, SessionID = ''s'', Useful = 1, FB_Timestamp = 100,
      NeighborhoodRoot = Some 5, KeywordCluster = None\<rparr>]"
    using RecordFeedback_rows [OF RecordFeedback_runs(1), OF f0, of 100 7 "''s''" True 5 0]
    by (simp add: open_store_def empty_db_def nullable_def EmptyHash_def)
  obtain res res1 where r: "FeedbackBoosts (\<lambda>x. x) '''' [7] [(7, 5)] [] ?s = (Inr res, ?s)"
    and r1: "FeedbackBoosts (\<lambda>x. x) '''' [7] [(7, 5)] [] ?s1 = (Inr res1, ?s1)"
    using FeedbackBoosts_runs [OF f(1)] FeedbackBoosts_runs [OF f(2)] by metis
  obtain res2 where r2: "FeedbackBoosts (\<lambda>x. x) '''' [7, 8] [] [] ?s = (Inr res2, ?s)" using FeedbackBoosts_runs [OF f(1)] by metis
  have "feedback_score (\<lambda>x. x) '''' [(7, 5)] [] (DB ?s) 7 = Some 1"
    by (simp add: feedback_score_def feedback_sums_def rows feedback_filter_def EmptyHash_def
        weightedFeedbackScore_def feedbackWeightMode_def)
  then have one: "map_of res 7 = Some 1" using FeedbackBoosts_map(2) [OF r, of 7] by simp
  have binary: "\<forall>f\<in>set (T_feedback (DB ?s)). Useful f = 0 \<or> Useful f = 1" by (simp add: rows)
  note all = FeedbackBoosts_scores [OF r binary, THEN conjunct2]
  have "map_of res1 = map_of res"
    by (rule all [THEN conjunct2, THEN conjunct2, rule_format, OF _ _ _ _ RecordFeedback_runs(1) [OF f(1)] r1]) (simp_all add: EmptyHash_def)
  moreover have rng: "ran (map_of res) \<subseteq> {0..1}" by (rule all [THEN conjunct1])
  note all2 = FeedbackBoosts_scores [OF r2 binary, THEN conjunct2]
  have "dom (map_of res2) = set [7, 8] \<inter> FB_SymbolHash ` set (T_feedback (DB ?s))"
    by (rule all2 [THEN conjunct2, THEN conjunct1, rule_format]) simp_all
  then have "dom (map_of res2) = {7}" by (simp only: rows) simp
  moreover have "ran (map_of res2) \<subseteq> {0..1}" by (rule all2 [THEN conjunct1])
  ultimately show ?thesis using r r1 r2 one rng by (intro conjI exI)
qed

text \<open>
  DecayRuntimeConfidence lowers the confidence of exactly the trace-derived edges that were
  observed at all and not since the threshold and whose confidence is higher, changes nothing else
  about any edge, reports their number, and finds nothing to do when it is repeated. An edge in
  the cache keeps its old confidence for GetEdge.
\<close>

lemma DecayRuntimeConfidence_exact:
  assumes "db_ok (DB s)" "DecayRuntimeConfidence now days c s = (Inr n, s')"
  shows "find_row EdgeHash h (T_edges (DB s')) =
      map_option (\<lambda>e. if decays (now - days * 86400) c e then e\<lparr>Confidence := c\<rparr> else e)
        (find_row EdgeHash h (T_edges (DB s))) \<and>
    n = card {k. \<exists>e \<in> set (T_edges (DB s)). EdgeHash e = k \<and> decays (now - days * 86400) c e} \<and>
    fst (DecayRuntimeConfidence now days c s') \<in> {Inr 0, Inl DriverError} \<and>
    (\<forall>e \<in> set_option (edgeCache s k). GetEdge k s' = (Inr (Some e), s'))"
proof (intro conjI)
  let ?P = "decays (now - days * 86400) c"
  have run: "n = length (filter ?P (T_edges (DB s)))"
    "T_edges (DB s') = update_where ?P (\<lambda>e. e\<lparr>Confidence := c\<rparr>) (T_edges (DB s))"
    "edgeCache s' = edgeCache s"
    using assms(2) by (auto simp: DecayRuntimeConfidence_def Let_def sql_def split: if_splits)
  show "find_row EdgeHash h (T_edges (DB s')) = map_option (\<lambda>e. if ?P e then e\<lparr>Confidence := c\<rparr> else e)
      (find_row EdgeHash h (T_edges (DB s)))"
    unfolding run(2) find_row_def update_where_def find_map by (simp add: if_distrib cong: if_cong)
  have "distinct (map EdgeHash (filter ?P (T_edges (DB s))))"
    using assms(1) by (simp add: db_ok_def primary_key_def distinct_map_filter)
  then have "length (filter ?P (T_edges (DB s))) = card (EdgeHash ` set (filter ?P (T_edges (DB s))))"
    by (metis distinct_card length_map set_map)
  also have "EdgeHash ` set (filter ?P (T_edges (DB s))) = {k. \<exists>e \<in> set (T_edges (DB s)). EdgeHash e = k \<and> ?P e}"
    by auto
  finally show "n = card {k. \<exists>e \<in> set (T_edges (DB s)). EdgeHash e = k \<and> ?P e}" using run(1) by simp
  have "filter ?P (T_edges (DB s')) = []"
    unfolding run(2) update_where_def by (auto simp: filter_empty_conv decays_def otel_edge_def)
  then show "fst (DecayRuntimeConfidence now days c s') \<in> {Inr 0, Inl DriverError}"
    by (auto simp: DecayRuntimeConfidence_def Let_def sql_def)
  show "\<forall>e \<in> set_option (edgeCache s k). GetEdge k s' = (Inr (Some e), s')"
    using run(3) by (auto simp: GetEdge_def)
qed

definition traced_edge :: edge_row where
  "traced_edge = insert_edge 0 \<lparr>EdgeHash = 3, SourceHash = 1, TargetHash = 2, EdgeType = ''runtime_calls'',
     Confidence = 9 / 10, Provenance = ''otel_trace'', CallSiteLine = 0, CallSiteCol = 0, CallSiteFile = '''',
     ObservationCount = 0, LastObserved = 0\<rparr>"

lemma DecayRuntimeConfidence_exact_witness:
  "\<exists>s'. DecayRuntimeConfidence 10000000 30 (1 / 2)
      (open_store (empty_db\<lparr>T_edges := [traced_edge\<lparr>LastObserved := 5000\<rparr>]\<rparr>) []) = (Inr 1, s') \<and>
    find_row EdgeHash 3 (T_edges (DB s')) = Some (traced_edge\<lparr>LastObserved := 5000, Confidence := 1 / 2\<rparr>)"
proof -
  let ?e = "traced_edge\<lparr>LastObserved := 5000\<rparr>"
  let ?s = "open_store (empty_db\<lparr>T_edges := [?e]\<rparr>) []"
  have d: "decays (10000000 - 30 * 86400) (1 / 2) ?e"
    by (simp add: decays_def otel_edge_def traced_edge_def insert_edge_def edge.defs edge_row.defs sql_like.simps
        char_lower_def skip_utf8_def)
  then have run: "DecayRuntimeConfidence 10000000 30 (1 / 2) ?s =
      (Inr 1, ?s\<lparr>DB := (DB ?s)\<lparr>T_edges := [?e\<lparr>Confidence := 1 / 2\<rparr>]\<rparr>\<rparr>)"
    by (simp add: DecayRuntimeConfidence_def sql_def open_store_def update_where_def)
  have "db_ok (DB ?s)" by (simp add: open_store_def db_ok_def empty_db_def primary_key_def)
  from DecayRuntimeConfidence_exact [OF this run, of 3 0] d show ?thesis
    unfolding run by (simp add: open_store_def find_row_def traced_edge_def insert_edge_def edge.defs edge_row.defs)
qed

text \<open>
  DeadRoutes speaks of routes with some stale trace edge, not of routes without a recent one: a
  route that one edge has just observed is reported when another edge to it is old.
\<close>

lemma DeadRoutes_reports_live:
  assumes "rs \<in> set (T_routes (DB s))" "e \<in> set (T_edges (DB s))" "e' \<in> set (T_edges (DB s))"
    and "otel_edge e" "otel_edge e'" "TargetHash e = RS_NodeHash rs" "TargetHash e' = RS_NodeHash rs"
    and "LastObserved e = now" "LastObserved e' < now - days * 86400" "Faults s = []"
  shows "\<exists>dead s'. DeadRoutes now days s = (Inr dead, s') \<and> rs \<in> set dead"
proof -
  have "e' \<in> set (joined_edges (DB s) rs)" using assms by (auto simp: joined_edges_def)
  with assms show ?thesis by (auto simp: DeadRoutes_def Let_def query_sql_def sql_def)
qed

end
