(* ===== verification/SubgraphCache.thy ===== *)
theory SubgraphCache
  imports HierarchicalDiff
begin

text \<open>
  The subgraph result cache of internal/cache/subgraph.go and the daemon's use of it after an
  index run. Each method is modelled by its critical sections; \<open>Get\<close> has two, between which other
  goroutines run, so the cache under concurrency is a step relation over the sections. Times are
  in nanoseconds. The entry that \<open>Put\<close> evicts is the first key the range loop visits, an argument
  here.
\<close>

section \<open>The cache\<close>

record cache_entry =
  CE_value :: bytes
  expiresAt :: int

record SubgraphCache =
  entries :: "(hash, cache_entry) gomap"
  SC_maxEntries :: int
  ttl :: int
  hits :: int
  misses :: int
  evictions :: int

record SubgraphCacheOptions =
  MaxEntries :: int
  TTL :: int

record CacheStats =
  CS_Hits :: int
  CS_Misses :: int
  CS_Size :: int
  CS_Evictions :: int
  CS_MaxEntries :: int

definition DefaultMaxEntries :: int where "DefaultMaxEntries = 10000"

definition DefaultTTL :: int where "DefaultTTL = 3600 * 10 ^ 9"

definition NewSubgraphCache :: "SubgraphCacheOptions \<Rightarrow> SubgraphCache" where
  "NewSubgraphCache opts =
     \<lparr>entries = [],
      SC_maxEntries = (if MaxEntries opts \<le> 0 then DefaultMaxEntries else MaxEntries opts),
      ttl = (if TTL opts \<le> 0 then DefaultTTL else TTL opts),
      hits = 0, misses = 0, evictions = 0\<rparr>"

text \<open>The critical sections of \<open>Get\<close>: the lookup, and one of three endings.\<close>

definition get_lookup :: "hash \<Rightarrow> SubgraphCache \<Rightarrow> cache_entry option" where
  "get_lookup key c = map_of (entries c) key"

definition get_miss :: "SubgraphCache \<Rightarrow> SubgraphCache" where
  "get_miss c = c\<lparr>misses := misses c + 1\<rparr>"

definition get_expired :: "hash \<Rightarrow> SubgraphCache \<Rightarrow> SubgraphCache" where
  "get_expired key c = c\<lparr>entries := gomap_del key (entries c), misses := misses c + 1\<rparr>"

definition get_hit :: "SubgraphCache \<Rightarrow> SubgraphCache" where
  "get_hit c = c\<lparr>hits := hits c + 1\<rparr>"

text \<open>\<open>Get\<close> without interference.\<close>

definition Get_alone :: "int \<Rightarrow> hash \<Rightarrow> SubgraphCache \<Rightarrow> bytes option \<times> SubgraphCache" where
  "Get_alone now key c =
     (case get_lookup key c of
        None \<Rightarrow> (None, get_miss c)
      | Some e \<Rightarrow>
          if now > expiresAt e then (None, get_expired key c) else (Some (CE_value e), get_hit c))"

definition Put_section :: "int \<Rightarrow> hash \<Rightarrow> bytes \<Rightarrow> hash \<Rightarrow> SubgraphCache \<Rightarrow> SubgraphCache" where
  "Put_section now key val victim c =
     (let c = (if map_of (entries c) key = None \<and> int (length (entries c)) \<ge> SC_maxEntries c
               then (if entries c = [] then c
                     else c\<lparr>entries := gomap_del victim (entries c), evictions := evictions c + 1\<rparr>)
               else c)
      in c\<lparr>entries := gomap_set key \<lparr>CE_value = val, expiresAt = now + ttl c\<rparr> (entries c)\<rparr>)"

definition Invalidate :: "hash \<Rightarrow> SubgraphCache \<Rightarrow> SubgraphCache" where
  "Invalidate key c = c\<lparr>entries := gomap_del key (entries c)\<rparr>"

definition evict_package :: "HierarchicalTree \<Rightarrow> string \<Rightarrow> SubgraphCache \<Rightarrow> SubgraphCache" where
  "evict_package tree pkg c =
     (case map_of (PackageRoots tree) pkg of
        None \<Rightarrow> c
      | Some r \<Rightarrow> c\<lparr>entries := gomap_del r (entries c)\<rparr>)"

definition InvalidatePackages :: "string list \<Rightarrow> HierarchicalTree option \<Rightarrow> SubgraphCache \<Rightarrow> SubgraphCache" where
  "InvalidatePackages packages tree c =
     (case tree of
        None \<Rightarrow> c
      | Some t \<Rightarrow>
          if length packages = 0 then c
          else fold (evict_package t) packages c)"

definition Clear :: "SubgraphCache \<Rightarrow> SubgraphCache" where
  "Clear c = c\<lparr>entries := []\<rparr>"

definition Stats :: "SubgraphCache \<Rightarrow> CacheStats" where
  "Stats c = \<lparr>CS_Hits = hits c, CS_Misses = misses c, CS_Size = int (length (entries c)),
     CS_Evictions = evictions c, CS_MaxEntries = SC_maxEntries c\<rparr>"

section \<open>Goroutines\<close>

text \<open>
  Where a goroutine is in \<open>Get\<close>: outside, after the lookup, after having found the entry expired,
  or after having found it valid. \<open>Served\<close> counts the finished calls and \<open>Written\<close> collects what was
  ever put, both only for stating properties.
\<close>

datatype pc = Ready | Looked hash "cache_entry option" | Expired hash | Valid hash bytes

record cache_system =
  Cache :: SubgraphCache
  Clock :: int
  Threads :: "nat \<Rightarrow> pc"
  Served :: int
  Written :: "(hash \<times> bytes) set"

definition start_system :: "SubgraphCacheOptions \<Rightarrow> cache_system" where
  "start_system opts = \<lparr>Cache = NewSubgraphCache opts, Clock = 0, Threads = (\<lambda>_. Ready), Served = 0, Written = {}\<rparr>"

definition serve :: "nat \<Rightarrow> SubgraphCache \<Rightarrow> cache_system \<Rightarrow> cache_system" where
  "serve t c s = s\<lparr>Cache := c, Threads := (Threads s)(t := Ready), Served := Served s + 1\<rparr>"

inductive cache_step :: "cache_system \<Rightarrow> cache_system \<Rightarrow> bool" where
  lookup: "Threads s t = Ready \<Longrightarrow>
    cache_step s (s\<lparr>Threads := (Threads s)(t := Looked key (get_lookup key (Cache s)))\<rparr>)"
| miss: "Threads s t = Looked key None \<Longrightarrow> cache_step s (serve t (get_miss (Cache s)) s)"
| check: "Threads s t = Looked key (Some e) \<Longrightarrow>
    cache_step s (s\<lparr>Threads := (Threads s)(t :=
      (if Clock s > expiresAt e then Expired key else Valid key (CE_value e)))\<rparr>)"
| expired: "Threads s t = Expired key \<Longrightarrow> cache_step s (serve t (get_expired key (Cache s)) s)"
| hit: "Threads s t = Valid key v \<Longrightarrow> cache_step s (serve t (get_hit (Cache s)) s)"
| put: "entries (Cache s) = [] \<or> victim \<in> set (gokeys (entries (Cache s))) \<Longrightarrow>
    cache_step s (s\<lparr>Cache := Put_section (Clock s) key v victim (Cache s), Written := insert (key, v) (Written s)\<rparr>)"
| invalidate: "cache_step s (s\<lparr>Cache := Invalidate key (Cache s)\<rparr>)"
| invalidate_packages: "cache_step s (s\<lparr>Cache := InvalidatePackages pkgs tree (Cache s)\<rparr>)"
| clear: "cache_step s (s\<lparr>Cache := Clear (Cache s)\<rparr>)"
| tick: "Clock s \<le> now \<Longrightarrow> cache_step s (s\<lparr>Clock := now\<rparr>)"

inductive cache_reachable :: "SubgraphCacheOptions \<Rightarrow> cache_system \<Rightarrow> bool" for opts where
  start: "cache_reachable opts (start_system opts)"
| move: "cache_reachable opts s \<Longrightarrow> cache_step s s' \<Longrightarrow> cache_reachable opts s'"

section \<open>After an index run\<close>

text \<open>
  What internal/daemon/daemon.go does with the trees before and after a successful index run: the
  packages of the diff, and the cache after their invalidation (\<open>None\<close> when the diff panics).
\<close>

definition diff_packages :: "HierarchicalDiff \<Rightarrow> string list" where
  "diff_packages diff = ChangedPackages diff @ AddedPackages diff @ RemovedPackages diff"

definition refresh_cache ::
  "HierarchicalTree option \<Rightarrow> HierarchicalTree \<Rightarrow> SubgraphCache \<Rightarrow> SubgraphCache option" where
  "refresh_cache prevTree newTree c =
     (case prevTree of
        None \<Rightarrow> Some c
      | Some old \<Rightarrow>
          map_option (\<lambda>diff.
            let changedPkgs = diff_packages diff in
            if length changedPkgs > 0 then InvalidatePackages changedPkgs (Some newTree) c else c)
            (DiffHierarchicalTrees old newTree))"

section \<open>Lemmas\<close>

inductive_cases cache_stepE: "cache_step s s'"

lemma length_gomap_del: "k \<in> set (gokeys m) \<Longrightarrow> length (gomap_del k m) < length m"
  unfolding gomap_del_def by (rule length_filter_less [where x = "(k, snd (the (find (\<lambda>p. fst p = k) m)))"]) (induction m, auto)

lemma length_gomap_del_le: "length (gomap_del k m) \<le> length m"
  by (simp add: gomap_del_def)

lemma set_gomap_del: "set (gomap_del k m) \<subseteq> set m"
  by (auto simp: gomap_del_def)

lemma set_gomap_set: "set (gomap_set k v m) \<subseteq> insert (k, v) (set m)"
  by (induction m) auto

text \<open>The condition on the cache alone, and that every section keeps it.\<close>

definition cache_ok :: "(hash \<times> bytes) set \<Rightarrow> SubgraphCache \<Rightarrow> bool" where
  "cache_ok W c \<longleftrightarrow> gomap_ok (entries c) \<and> int (length (entries c)) \<le> SC_maxEntries c \<and> 0 < SC_maxEntries c \<and>
     0 < ttl c \<and> (\<lambda>(k, e). (k, CE_value e)) ` set (entries c) \<subseteq> W"

lemma cache_ok_delete:
  assumes "cache_ok W c"
  shows "cache_ok W (c\<lparr>entries := gomap_del k (entries c)\<rparr>)"
proof -
  have "int (length (gomap_del k (entries c))) \<le> SC_maxEntries c"
    using assms length_gomap_del_le [of k "entries c"] unfolding cache_ok_def by linarith
  moreover have "(\<lambda>(k, e). (k, CE_value e)) ` set (gomap_del k (entries c)) \<subseteq> W"
    using assms set_gomap_del [of k "entries c"] unfolding cache_ok_def by (meson image_mono subset_trans)
  ultimately show ?thesis using assms by (simp add: cache_ok_def)
qed

lemma cache_ok_counters [simp]:
  "cache_ok W (get_miss c) = cache_ok W c" "cache_ok W (get_hit c) = cache_ok W c"
  "cache_ok W (c\<lparr>evictions := n\<rparr>) = cache_ok W c" "cache_ok W (c\<lparr>misses := n\<rparr>) = cache_ok W c"
  by (simp_all add: cache_ok_def get_miss_def get_hit_def)

lemma cache_ok_sections:
  assumes "cache_ok W c"
  shows "cache_ok W (get_expired k c)" "cache_ok W (Invalidate k c)" "cache_ok W (Clear c)"
    "cache_ok W (InvalidatePackages pkgs tree c)"
proof -
  have "get_expired k c = (c\<lparr>entries := gomap_del k (entries c)\<rparr>)\<lparr>misses := misses c + 1\<rparr>"
    by (simp add: get_expired_def)
  with cache_ok_delete [OF assms, of k] show "cache_ok W (get_expired k c)" by simp
  show "cache_ok W (Invalidate k c)" using cache_ok_delete [OF assms] by (simp add: Invalidate_def)
  show "cache_ok W (Clear c)" using assms by (simp add: Clear_def cache_ok_def)
  show "cache_ok W (InvalidatePackages pkgs tree c)"
  proof (cases tree)
    case (Some t)
    have "cache_ok W (fold (evict_package t) pkgs c)"
      using assms
      by (induction pkgs arbitrary: c) (auto simp: evict_package_def split: option.splits intro: cache_ok_delete)
    with Some assms show ?thesis by (simp add: InvalidatePackages_def)
  qed (simp add: InvalidatePackages_def assms)
qed

lemma cache_ok_set:
  assumes "cache_ok W c" "map_of (entries c) key \<noteq> None \<or> int (length (entries c)) < SC_maxEntries c"
  shows "cache_ok (insert (key, v) W) (c\<lparr>entries := gomap_set key \<lparr>CE_value = v, expiresAt = x\<rparr> (entries c)\<rparr>)"
proof -
  have "int (length (gomap_set key \<lparr>CE_value = v, expiresAt = x\<rparr> (entries c))) \<le> SC_maxEntries c"
    using assms by (auto simp: length_gomap_set cache_ok_def map_of_eq_None_iff)
  moreover have "(\<lambda>(k, e). (k, CE_value e)) ` set (gomap_set key \<lparr>CE_value = v, expiresAt = x\<rparr> (entries c))
      \<subseteq> insert (key, v) W"
    using set_gomap_set [of key "\<lparr>CE_value = v, expiresAt = x\<rparr>" "entries c"] assms(1)
    by (fastforce simp: cache_ok_def)
  ultimately show ?thesis using assms(1) by (simp add: cache_ok_def)
qed

lemma cache_ok_Put:
  assumes "cache_ok W c" "entries c = [] \<or> victim \<in> set (gokeys (entries c))"
  shows "cache_ok (insert (key, v) W) (Put_section now key v victim c)"
proof (cases "map_of (entries c) key = None \<and> int (length (entries c)) \<ge> SC_maxEntries c")
  case False
  then have "map_of (entries c) key \<noteq> None \<or> int (length (entries c)) < SC_maxEntries c" by auto
  from cache_ok_set [OF assms(1) this] show ?thesis by (simp add: Put_section_def if_not_P [OF False])
next
  case True
  let ?c = "c\<lparr>entries := gomap_del victim (entries c), evictions := evictions c + 1\<rparr>"
  have nonempty: "entries c \<noteq> []" using True assms(1) by (auto simp: cache_ok_def)
  have "?c = (c\<lparr>entries := gomap_del victim (entries c)\<rparr>)\<lparr>evictions := evictions c + 1\<rparr>" by simp
  then have ok: "cache_ok W ?c" using cache_ok_delete [OF assms(1), of victim] by simp
  have "int (length (entries ?c)) < SC_maxEntries ?c"
    using length_gomap_del [of victim "entries c"] nonempty assms by (simp add: cache_ok_def)
  from cache_ok_set [OF ok, of key v "now + ttl c"] this nonempty show ?thesis
    by (simp add: Put_section_def if_P [OF True])
qed

text \<open>What a goroutine holds was written.\<close>

fun pc_ok :: "(hash \<times> bytes) set \<Rightarrow> pc \<Rightarrow> bool" where
  "pc_ok W (Looked key (Some e)) \<longleftrightarrow> (key, CE_value e) \<in> W"
| "pc_ok W (Valid key v) \<longleftrightarrow> (key, v) \<in> W"
| "pc_ok W _ \<longleftrightarrow> True"

definition system_ok :: "cache_system \<Rightarrow> bool" where
  "system_ok s \<longleftrightarrow> cache_ok (Written s) (Cache s) \<and> hits (Cache s) + misses (Cache s) = Served s \<and>
     (\<forall>t. pc_ok (Written s) (Threads s t))"

lemma pc_ok_mono: "pc_ok W p \<Longrightarrow> W \<subseteq> W' \<Longrightarrow> pc_ok W' p"
  by (cases "(W, p)" rule: pc_ok.cases) auto

lemma counters [simp]:
  "hits (Put_section now k v w c) = hits c" "misses (Put_section now k v w c) = misses c"
  "hits (Invalidate k c) = hits c" "misses (Invalidate k c) = misses c"
  "hits (Clear c) = hits c" "misses (Clear c) = misses c"
  "hits (InvalidatePackages ps tr c) = hits c" "misses (InvalidatePackages ps tr c) = misses c"
proof -
  have "hits (fold (evict_package u) ps c) = hits c \<and> misses (fold (evict_package u) ps c) = misses c" for u
    by (induction ps arbitrary: c) (auto simp: evict_package_def split: option.splits)
  then show "hits (InvalidatePackages ps tr c) = hits c" "misses (InvalidatePackages ps tr c) = misses c"
    by (simp_all add: InvalidatePackages_def split: option.split)
qed (simp_all add: Put_section_def Invalidate_def Clear_def Let_def)

lemma get_lookup_written:
  "cache_ok W c \<Longrightarrow> pc_ok W (Looked key (get_lookup key c))"
  by (cases "map_of (entries c) key") (fastforce simp: cache_ok_def get_lookup_def dest: map_of_SomeD)+

lemma system_ok_step: "cache_step s s' \<Longrightarrow> system_ok s \<Longrightarrow> system_ok s'"
proof (induction rule: cache_step.induct)
  case (lookup s t key)
  then show ?case using get_lookup_written [of "Written s" "Cache s" key] by (simp add: system_ok_def)
next
  case (check s t key e)
  then have "pc_ok (Written s) (Looked key (Some e))" unfolding system_ok_def by metis
  with check show ?case by (simp add: system_ok_def)
next
  case (expired s t key)
  then show ?case
    using cache_ok_sections(1) [of "Written s" "Cache s" key] by (simp add: system_ok_def serve_def get_expired_def)
next
  case (put s victim key v)
  then show ?case
    using cache_ok_Put [of "Written s" "Cache s" victim key v "Clock s"] pc_ok_mono [OF _ subset_insertI]
    by (simp add: system_ok_def)
qed (simp_all add: system_ok_def serve_def cache_ok_sections, simp_all add: get_miss_def get_hit_def)

lemma reachable_system_ok: "cache_reachable opts s \<Longrightarrow> system_ok s"
proof (induction rule: cache_reachable.induct)
  case start
  show ?case
    by (simp add: system_ok_def start_system_def NewSubgraphCache_def cache_ok_def DefaultMaxEntries_def DefaultTTL_def)
qed (rule system_ok_step)

text \<open>The configuration never changes.\<close>

definition config :: "SubgraphCache \<Rightarrow> int \<times> int" where
  "config c = (SC_maxEntries c, ttl c)"

lemma config_step: "cache_step s s' \<Longrightarrow> config (Cache s') = config (Cache s)"
proof (induction rule: cache_step.induct)
  case (invalidate_packages s pkgs tree)
  have "config (fold (evict_package u) pkgs c) = config c" for u c
    by (induction pkgs arbitrary: c) (auto simp: evict_package_def config_def split: option.splits)
  then show ?case by (simp add: InvalidatePackages_def split: option.split)
qed (simp_all add: config_def serve_def get_miss_def get_expired_def get_hit_def Put_section_def Let_def
    Invalidate_def Clear_def)

lemma config_reachable: "cache_reachable opts s \<Longrightarrow> config (Cache s) = config (NewSubgraphCache opts)"
  by (induction rule: cache_reachable.induct) (simp_all add: start_system_def config_step)

lemma fold_evict_package:
  "entries (fold (evict_package t) pkgs c) =
    filter (\<lambda>(k, e). Some k \<notin> map_of (PackageRoots t) ` set pkgs) (entries c)"
proof (induction pkgs arbitrary: c)
  case (Cons p ps)
  show ?case
  proof (cases "map_of (PackageRoots t) p")
    case None
    with Cons show ?thesis by (simp add: evict_package_def)
  next
    case (Some r)
    with Cons [of "evict_package t p c"] show ?thesis
      by (auto simp: evict_package_def gomap_del_def split_def intro!: filter_cong)
  qed
qed simp

lemma map_of_filter_keys: "map_of (filter (\<lambda>(k, e). P k) m) k = (if P k then map_of m k else None)"
  by (induction m) auto

lemma diff_packages_iff:
  assumes "same_diff_sets None old new d"
  shows "p \<in> set (diff_packages d) \<longleftrightarrow> map_of (PackageRoots new) p \<noteq> map_of (PackageRoots old) p"
proof -
  have "p \<in> set (diff_packages d) \<longleftrightarrow>
      p \<in> changed_set None (PackageRoots old) (PackageRoots new) \<or>
      p \<in> only_in None (PackageRoots new) (PackageRoots old) \<or>
      p \<in> only_in None (PackageRoots old) (PackageRoots new)"
    using assms by (simp add: diff_packages_def same_diff_sets_def filterSet_of_def)
  then show ?thesis
    by (cases "map_of (PackageRoots new) p"; cases "map_of (PackageRoots old) p")
      (auto simp: changed_set_def only_in_def filtered_out_def)
qed

lemma Put_Get_alone:
  "Get_alone later key (Put_section now key v victim c) =
    (if later \<le> now + ttl c
     then (Some v, get_hit (Put_section now key v victim c))
     else (None, get_expired key (Put_section now key v victim c)))"
  by (simp add: Get_alone_def get_lookup_def Put_section_def Let_def)

section \<open>Properties\<close>

text \<open>
  C18. Under every interleaving of the critical sections of any number of goroutines: the cache
  never holds more entries than configured, its keys are distinct, the hit and miss counters add
  up to the number of finished Gets, and a Get that is about to report a hit returns a value that
  was put under its key.
\<close>

theorem cache_invariant:
  assumes "cache_reachable opts s"
  shows "gomap_ok (entries (Cache s)) \<and>
    CS_Size (Stats (Cache s)) \<le> (if MaxEntries opts \<le> 0 then 10000 else MaxEntries opts) \<and>
    CS_Hits (Stats (Cache s)) + CS_Misses (Stats (Cache s)) = Served s \<and>
    (\<forall>t key v. Threads s t = Valid key v \<longrightarrow> (key, v) \<in> Written s)"
proof (intro conjI allI impI)
  have ok: "system_ok s" by (rule reachable_system_ok [OF assms])
  then show "gomap_ok (entries (Cache s))" by (simp add: system_ok_def cache_ok_def)
  have "SC_maxEntries (Cache s) = (if MaxEntries opts \<le> 0 then 10000 else MaxEntries opts)"
    using config_reachable [OF assms] by (simp add: config_def NewSubgraphCache_def DefaultMaxEntries_def)
  with ok show "CS_Size (Stats (Cache s)) \<le> (if MaxEntries opts \<le> 0 then 10000 else MaxEntries opts)"
    by (simp add: system_ok_def cache_ok_def Stats_def)
  show "CS_Hits (Stats (Cache s)) + CS_Misses (Stats (Cache s)) = Served s"
    using ok by (simp add: system_ok_def Stats_def)
  show "(key, v) \<in> Written s" if "Threads s t = Valid key v" for t key v
  proof -
    have "pc_ok (Written s) (Threads s t)" using ok unfolding system_ok_def by blast
    with that show ?thesis by simp
  qed
qed

text \<open>Goroutine 1 finds the entry of key 7 expired; key 7 was put at time 0 with a lifetime of 10.\<close>

definition small_cache :: SubgraphCacheOptions where
  "small_cache = \<lparr>MaxEntries = 2, TTL = 10\<rparr>"

definition race_system :: cache_system where
  "race_system =
     \<lparr>Cache = \<lparr>entries = [(7, \<lparr>CE_value = ''old'', expiresAt = 10\<rparr>)], SC_maxEntries = 2, ttl = 10,
        hits = 0, misses = 0, evictions = 0\<rparr>,
      Clock = 11, Threads = (\<lambda>_. Ready)(1 := Expired 7), Served = 0, Written = {(7, ''old'')}\<rparr>"

lemma race_reachable: "cache_reachable small_cache race_system"
proof -
  let ?s0 = "start_system small_cache"
  let ?s1 = "?s0\<lparr>Cache := Put_section (Clock ?s0) 7 ''old'' 0 (Cache ?s0), Written := insert (7, ''old'') (Written ?s0)\<rparr>"
  let ?s2 = "?s1\<lparr>Threads := (Threads ?s1)(1 := Looked 7 (get_lookup 7 (Cache ?s1)))\<rparr>"
  let ?s3 = "?s2\<lparr>Clock := 11\<rparr>"
  let ?e = "\<lparr>CE_value = ''old'', expiresAt = 10\<rparr>"
  have r1: "cache_reachable small_cache ?s1"
    by (rule move [OF start put]) (simp add: start_system_def NewSubgraphCache_def)
  have r2: "cache_reachable small_cache ?s2"
    by (rule move [OF r1 lookup]) (simp add: start_system_def)
  have r3: "cache_reachable small_cache ?s3"
    by (rule move [OF r2 tick]) (simp add: start_system_def)
  have e: "Threads ?s3 1 = Looked 7 (Some ?e)"
    by (simp add: start_system_def NewSubgraphCache_def small_cache_def get_lookup_def Put_section_def)
  from move [OF r3 check [OF e]] show ?thesis
    by (simp add: race_system_def start_system_def NewSubgraphCache_def small_cache_def Put_section_def fun_upd_def
        cong: if_cong)
qed

theorem cache_invariant_witness:
  "CS_Size (Stats (Cache race_system)) \<le> 2 \<and>
   CS_Hits (Stats (Cache race_system)) + CS_Misses (Stats (Cache race_system)) = 0"
  using cache_invariant [OF race_reachable] by (simp add: small_cache_def race_system_def)

text \<open>
  Get is not atomic, and a fresh entry can be lost: when a goroutine has found an entry expired
  and another one stores a new value under the key before the first takes the write lock, the
  delete of the first removes the new value. Stored a moment ago, with its whole lifetime ahead,
  it is gone without an invalidation or an eviction.
\<close>

lemma fresh_entry_lost:
  assumes "Threads s t = Expired key" "entries (Cache s) = [] \<or> victim \<in> set (gokeys (entries (Cache s)))"
  shows "\<exists>s1 s2. cache_step s s1 \<and> cache_step s1 s2 \<and>
    Get_alone (Clock s1) key (Cache s1) =
      (if 0 \<le> ttl (Cache s) then (Some v, get_hit (Cache s1)) else (None, get_expired key (Cache s1))) \<and>
    fst (Get_alone (Clock s2) key (Cache s2)) = None \<and> Clock s1 = Clock s \<and> Clock s2 = Clock s \<and>
    evictions (Cache s2) = evictions (Cache s1)"
proof -
  let ?s1 = "s\<lparr>Cache := Put_section (Clock s) key v victim (Cache s), Written := insert (key, v) (Written s)\<rparr>"
  let ?s2 = "serve t (get_expired key (Cache ?s1)) ?s1"
  have "cache_step s ?s1" by (rule put [OF assms(2)])
  moreover have "cache_step ?s1 ?s2" by (rule expired) (simp add: assms(1))
  moreover have "Get_alone (Clock ?s1) key (Cache ?s1) =
      (if 0 \<le> ttl (Cache s) then (Some v, get_hit (Cache ?s1)) else (None, get_expired key (Cache ?s1)))"
    by (simp add: Put_Get_alone)
  moreover have "fst (Get_alone (Clock ?s2) key (Cache ?s2)) = None"
    by (simp add: serve_def get_expired_def Get_alone_def get_lookup_def)
  ultimately show ?thesis
    by (intro exI [of _ ?s1] exI [of _ ?s2] conjI) (simp_all add: serve_def get_expired_def)
qed

lemma fresh_entry_lost_witness:
  "cache_reachable small_cache race_system \<and>
   (\<exists>s1 s2. cache_step race_system s1 \<and> cache_step s1 s2 \<and>
      fst (Get_alone 11 7 (Cache s1)) = Some ''new'' \<and> fst (Get_alone 11 7 (Cache s2)) = None)"
proof
  show "cache_reachable small_cache race_system" by (rule race_reachable)
  have "Threads race_system 1 = Expired 7" "7 \<in> set (gokeys (entries (Cache race_system)))"
    by (simp_all add: race_system_def)
  from fresh_entry_lost [OF this(1) disjI2, OF this(2), of "''new''"] obtain s1 s2 where
    st: "cache_step race_system s1" "cache_step s1 s2" and
    g: "Get_alone (Clock s1) 7 (Cache s1) =
      (if 0 \<le> ttl (Cache race_system) then (Some ''new'', get_hit (Cache s1)) else (None, get_expired 7 (Cache s1)))"
      "fst (Get_alone (Clock s2) 7 (Cache s2)) = None"
      "Clock s1 = Clock race_system" "Clock s2 = Clock race_system"
    by blast
  have "Clock race_system = 11" "0 \<le> ttl (Cache race_system)" by (simp_all add: race_system_def)
  then have "fst (Get_alone 11 7 (Cache s1)) = Some ''new''" "fst (Get_alone 11 7 (Cache s2)) = None"
    using g by simp_all
  with st show "\<exists>s1 s2. cache_step race_system s1 \<and> cache_step s1 s2 \<and>
      fst (Get_alone 11 7 (Cache s1)) = Some ''new'' \<and> fst (Get_alone 11 7 (Cache s2)) = None"
    by blast
qed

text \<open>
  The refresh after an index run looks the changed packages up in the new tree: it removes
  exactly the entries stored under the new roots of changed and added packages. What was cached
  for the packages before the change sits under their old roots and stays, whether they changed or
  were removed, unless an old root is again the root of one of them.
\<close>

lemma refresh_cache_keeps_old:
  assumes "diffable old new" "Root old \<noteq> Root new"
  shows "\<exists>c'. refresh_cache (Some old) new c = Some c' \<and>
    map_of (entries c') k =
      (if \<exists>p. map_of (PackageRoots new) p = Some k \<and> map_of (PackageRoots old) p \<noteq> Some k
       then None else map_of (entries c) k)"
proof -
  obtain d where d: "DiffHierarchicalTrees old new = Some d" "same_diff_sets None old new d"
    using Diff_not_truncated [OF assms package_loops_uncapped, of None]
    by (auto simp: DiffHierarchicalTrees_def maxChanges_of_def)
  have set: "Some k \<in> map_of (PackageRoots new) ` set (diff_packages d) \<longleftrightarrow>
      (\<exists>p. map_of (PackageRoots new) p = Some k \<and> map_of (PackageRoots old) p \<noteq> Some k)"
    unfolding image_iff Bex_def diff_packages_iff [OF d(2)] by metis
  have e: "entries (fold (evict_package new) (diff_packages d) c) =
      filter (\<lambda>(k, e). Some k \<notin> map_of (PackageRoots new) ` set (diff_packages d)) (entries c)"
    by (rule fold_evict_package)
  have "refresh_cache (Some old) new c = Some (fold (evict_package new) (diff_packages d) c)"
    by (simp add: refresh_cache_def d(1) InvalidatePackages_def Let_def)
  moreover have "map_of (entries (fold (evict_package new) (diff_packages d) c)) k =
      (if \<exists>p. map_of (PackageRoots new) p = Some k \<and> map_of (PackageRoots old) p \<noteq> Some k
       then None else map_of (entries c) k)"
    unfolding e map_of_filter_keys set by (simp only: if_not_P if_P split: if_split) blast
  ultimately show ?thesis by blast
qed

lemma refresh_cache_keeps_old_witness:
  "\<exists>c'. refresh_cache (Some old_sample) new_sample
      ((NewSubgraphCache small_cache)\<lparr>entries := [(1, \<lparr>CE_value = ''a'', expiresAt = 5\<rparr>)]\<rparr>) = Some c' \<and>
    map_of (entries c') 1 = Some \<lparr>CE_value = ''a'', expiresAt = 5\<rparr>"
proof -
  have "\<not> (\<exists>p. map_of (PackageRoots new_sample) p = Some 1 \<and> map_of (PackageRoots old_sample) p \<noteq> Some 1)"
    by (auto simp: new_sample_def sample_tree_def split: if_splits)
  with refresh_cache_keeps_old [OF samples_diffable,
      of "(NewSubgraphCache small_cache)\<lparr>entries := [(1, \<lparr>CE_value = ''a'', expiresAt = 5\<rparr>)]\<rparr>" 1]
  show ?thesis by simp
qed

end
