(* ===== verification/Community.thy ===== *)
theory Community
  imports GraphTypes
begin

text \<open>
  Community detection of internal/community: the Louvain method of louvain.go and label
  propagation of label_propagation.go, full and incremental, with the renumbering they share and
  the registry of algorithm.go. Weights are exact rationals. The order in which a range loop visits
  the weights of the neighbouring communities is a parameter \<open>range_order\<close>, a permutation of the
  map's entries, and the random order of a propagation round is the parameter \<open>shuffle\<close>.
\<close>

section \<open>Graphs and maps of numbers\<close>

record WeightedEdge =
  WE_Target :: hash
  WE_Weight :: float64

record Graph =
  G_Nodes :: "hash list"
  G_Adj :: "(hash, WeightedEdge list) gomap"
  G_NodeSet :: "hash set"
  G_EdgeCount :: nat

text \<open>Indexing a Go map of numbers gives zero for a missing key; \<open>m[k] += w\<close>.\<close>

definition index0 :: "('k, 'v::zero) gomap \<Rightarrow> 'k \<Rightarrow> 'v" where
  "index0 m k = (case map_of m k of None \<Rightarrow> 0 | Some v \<Rightarrow> v)"

definition gomap_add :: "'k \<Rightarrow> 'v::ab_group_add \<Rightarrow> ('k, 'v) gomap \<Rightarrow> ('k, 'v) gomap" where
  "gomap_add k w m = gomap_set k (index0 m k + w) m"

definition neighbors :: "Graph \<Rightarrow> hash \<Rightarrow> WeightedEdge list" where
  "neighbors g n = (case map_of (G_Adj g) n of None \<Rightarrow> [] | Some es \<Rightarrow> es)"

text \<open>The weight from a node to each community among its neighbours.\<close>

definition neighbor_weights :: "(hash, int) gomap \<Rightarrow> WeightedEdge list \<Rightarrow> (int, float64) gomap" where
  "neighbor_weights comm es = fold (\<lambda>e. gomap_add (index0 comm (WE_Target e)) (WE_Weight e)) es []"

section \<open>Renumbering\<close>

definition renumber_step ::
  "hash \<Rightarrow> (hash, int) gomap \<times> (int, int) gomap \<times> int \<Rightarrow> (hash, int) gomap \<times> (int, int) gomap \<times> int" where
  "renumber_step n = (\<lambda>(comm, remap, nextID).
     let c = index0 comm n;
         (remap, nextID) = (if map_of remap c = None then (gomap_set c nextID remap, nextID + 1) else (remap, nextID))
     in (gomap_set n (index0 remap c) comm, remap, nextID))"

definition renumber :: "hash list \<Rightarrow> (hash, int) gomap \<Rightarrow> (hash, int) gomap" where
  "renumber nodes comm = fst (fold renumber_step nodes (comm, [], 0))"

section \<open>Initial assignments\<close>

definition own_communities :: "hash list \<Rightarrow> (hash, int) gomap" where
  "own_communities nodes = fold (\<lambda>(i, n). gomap_set n (int i)) (zip [0..<length nodes] nodes) []"

definition next_community :: "(hash, int) gomap \<Rightarrow> int" where
  "next_community previous = fold (\<lambda>(_, i) maxID. if i \<ge> maxID then i + 1 else maxID) previous 0"

definition seed_step ::
  "(hash, int) gomap \<Rightarrow> hash \<Rightarrow> (hash, int) gomap \<times> int \<Rightarrow> (hash, int) gomap \<times> int" where
  "seed_step previous n = (\<lambda>(comm, maxID).
     case map_of previous n of
       Some prevID \<Rightarrow> (gomap_set n prevID comm, maxID)
     | None \<Rightarrow> (gomap_set n maxID comm, maxID + 1))"

definition seed_communities :: "hash list \<Rightarrow> (hash, int) gomap \<Rightarrow> (hash, int) gomap" where
  "seed_communities nodes previous = fst (fold (seed_step previous) nodes ([], next_community previous))"

section \<open>Louvain\<close>

record Louvain =
  Resolution :: float64
  MaxPasses :: int

definition total_weight :: "Graph \<Rightarrow> float64" where
  "total_weight g = sum_list (map (\<lambda>(n, es). sum_list (map WE_Weight es)) (G_Adj g))"

definition strengths :: "Graph \<Rightarrow> (hash, float64) gomap" where
  "strengths g = fold (\<lambda>n ki. fold (\<lambda>e. gomap_add n (WE_Weight e)) (neighbors g n) ki) (G_Nodes g) []"

definition community_totals :: "hash list \<Rightarrow> (hash, int) gomap \<Rightarrow> (hash, float64) gomap \<Rightarrow> (int, float64) gomap" where
  "community_totals nodes comm ki = fold (\<lambda>n. gomap_add (index0 comm n) (index0 ki n)) nodes []"

record louvain_state =
  LS_comm :: "(hash, int) gomap"
  LS_sigmaTot :: "(int, float64) gomap"
  LS_improved :: bool

definition louvain_gain ::
  "float64 \<Rightarrow> float64 \<Rightarrow> float64 \<Rightarrow> float64 \<Rightarrow> float64 \<Rightarrow> float64 \<Rightarrow> float64 \<Rightarrow> float64" where
  "louvain_gain resolution m k kiInCurr sigCurr w sigC =
     (let gainAdd = w / m - resolution * (sigC * k) / (2 * m * m);
          gainRemove = kiInCurr / m - resolution * (sigCurr * k) / (2 * m * m)
      in gainAdd - gainRemove)"

definition best_community ::
  "(int \<Rightarrow> float64 \<Rightarrow> float64) \<Rightarrow> int \<Rightarrow> (int \<times> float64) list \<Rightarrow> int" where
  "best_community gain currentComm kiIn =
     fst (fold (\<lambda>(c, w) (bestComm, bestGain).
            if c = currentComm then (bestComm, bestGain)
            else if gain c w > bestGain then (c, gain c w) else (bestComm, bestGain))
          kiIn (currentComm, 0))"

type_synonym range_order = "(int, float64) gomap \<Rightarrow> (int, float64) gomap"

definition louvain_node ::
  "range_order \<Rightarrow> float64 \<Rightarrow> float64 \<Rightarrow> (hash, float64) gomap \<Rightarrow> Graph \<Rightarrow> hash \<Rightarrow> louvain_state \<Rightarrow> louvain_state" where
  "louvain_node range_order resolution m ki g node st =
     (let currentComm = index0 (LS_comm st) node;
          k = index0 ki node;
          kiIn = neighbor_weights (LS_comm st) (neighbors g node);
          sigCurr = index0 (LS_sigmaTot st) currentComm - k;
          kiInCurr = index0 kiIn currentComm;
          bestComm = best_community
            (\<lambda>c w. louvain_gain resolution m k kiInCurr sigCurr w (index0 (LS_sigmaTot st) c))
            currentComm (range_order kiIn)
      in if bestComm \<noteq> currentComm then
           st\<lparr>LS_sigmaTot := gomap_add bestComm k (gomap_add currentComm (- k) (LS_sigmaTot st)),
              LS_comm := gomap_set node bestComm (LS_comm st), LS_improved := True\<rparr>
         else st)"

text \<open>One pass over the nodes; frozen nodes are skipped (in the full detection none is).\<close>

definition louvain_pass ::
  "range_order \<Rightarrow> float64 \<Rightarrow> float64 \<Rightarrow> (hash, float64) gomap \<Rightarrow> Graph \<Rightarrow> (hash \<Rightarrow> bool) \<Rightarrow> louvain_state \<Rightarrow> louvain_state" where
  "louvain_pass range_order resolution m ki g movable st =
     fold (\<lambda>node st. if movable node then louvain_node range_order resolution m ki g node st else st)
       (G_Nodes g) st"

primrec louvain_passes ::
  "range_order \<Rightarrow> float64 \<Rightarrow> float64 \<Rightarrow> (hash, float64) gomap \<Rightarrow> Graph \<Rightarrow> (hash \<Rightarrow> bool) \<Rightarrow> nat \<Rightarrow> louvain_state \<Rightarrow> louvain_state" where
  "louvain_passes ro resolution m ki g movable 0 st = st"
| "louvain_passes ro resolution m ki g movable (Suc n) st =
     (if LS_improved st
      then louvain_passes ro resolution m ki g movable n
             (louvain_pass ro resolution m ki g movable (st\<lparr>LS_improved := False\<rparr>))
      else st)"

definition resolution_of :: "Louvain \<Rightarrow> float64" where
  "resolution_of l = (if Resolution l \<le> 0 then 1 else Resolution l)"

definition passes_of :: "Louvain \<Rightarrow> nat" where
  "passes_of l = (if MaxPasses l \<le> 0 then 20 else nat (MaxPasses l))"

definition louvain_optimise :: "range_order \<Rightarrow> Louvain \<Rightarrow> Graph \<Rightarrow> (hash \<Rightarrow> bool) \<Rightarrow> (hash, int) gomap \<Rightarrow> (hash, int) gomap" where
  "louvain_optimise ro l g movable comm =
     LS_comm (louvain_passes ro (resolution_of l) (total_weight g / 2) (strengths g) g movable (passes_of l)
       \<lparr>LS_comm = comm, LS_sigmaTot = community_totals (G_Nodes g) comm (strengths g), LS_improved = True\<rparr>)"

definition Louvain_Detect :: "range_order \<Rightarrow> Louvain \<Rightarrow> Graph \<Rightarrow> (hash, int) gomap" where
  "Louvain_Detect ro l g =
     (let comm = own_communities (G_Nodes g) in
      if total_weight g = 0 then comm
      else renumber (G_Nodes g) (louvain_optimise ro l g (\<lambda>_. True) comm))"

definition Louvain_DetectIncremental ::
  "range_order \<Rightarrow> Louvain \<Rightarrow> Graph \<Rightarrow> (hash, int) gomap \<Rightarrow> hash set \<Rightarrow> (hash, int) gomap" where
  "Louvain_DetectIncremental ro l g previous changedNodes =
     (if length previous = 0 then Louvain_Detect ro l g
      else
        (let comm = seed_communities (G_Nodes g) previous in
         if total_weight g = 0 then renumber (G_Nodes g) comm
         else renumber (G_Nodes g) (louvain_optimise ro l g (\<lambda>n. n \<in> changedNodes) comm)))"

section \<open>Label propagation\<close>

record LabelPropagation =
  MaxIterations :: int

definition best_label :: "int \<Rightarrow> (int \<times> float64) list \<Rightarrow> int" where
  "best_label current votes =
     fst (fold (\<lambda>(l, w) (bestLabel, bestWeight).
            if w > bestWeight then (l, w) else (bestLabel, bestWeight)) votes (current, 0))"

definition propagate_node ::
  "range_order \<Rightarrow> Graph \<Rightarrow> hash \<Rightarrow> (hash, int) gomap \<times> bool \<Rightarrow> (hash, int) gomap \<times> bool" where
  "propagate_node ro g node = (\<lambda>(label, changed).
     let nbs = neighbors g node in
     if length nbs = 0 then (label, changed)
     else
       (let bestLabel = best_label (index0 label node) (ro (neighbor_weights label nbs)) in
        if bestLabel \<noteq> index0 label node then (gomap_set node bestLabel label, True) else (label, changed)))"

text \<open>The rounds: \<open>shuffle i xs\<close> is the order of round \<open>i\<close>.\<close>

type_synonym shuffle = "nat \<Rightarrow> nat list \<Rightarrow> nat list"

primrec propagate_rounds ::
  "shuffle \<Rightarrow> range_order \<Rightarrow> Graph \<Rightarrow> nat \<Rightarrow> nat \<Rightarrow> nat list \<Rightarrow> (hash, int) gomap \<Rightarrow> (hash, int) gomap" where
  "propagate_rounds shuffle ro g i 0 order label = label"
| "propagate_rounds shuffle ro g i (Suc n) order label =
     (let order = shuffle i order;
          (label, changed) = fold (\<lambda>idx. propagate_node ro g (G_Nodes g ! idx)) order (label, False)
      in if \<not> changed then label else propagate_rounds shuffle ro g (i + 1) n order label)"

definition rounds_of :: "LabelPropagation \<Rightarrow> nat" where
  "rounds_of lp = (if MaxIterations lp \<le> 0 then 50 else nat (MaxIterations lp))"

definition LabelPropagation_Detect :: "shuffle \<Rightarrow> range_order \<Rightarrow> LabelPropagation \<Rightarrow> Graph \<Rightarrow> (hash, int) gomap" where
  "LabelPropagation_Detect shuffle ro lp g =
     renumber (G_Nodes g)
       (propagate_rounds shuffle ro g 0 (rounds_of lp) [0..<length (G_Nodes g)] (own_communities (G_Nodes g)))"

definition LabelPropagation_DetectIncremental ::
  "shuffle \<Rightarrow> range_order \<Rightarrow> LabelPropagation \<Rightarrow> Graph \<Rightarrow> (hash, int) gomap \<Rightarrow> hash set \<Rightarrow> (hash, int) gomap" where
  "LabelPropagation_DetectIncremental shuffle ro lp g previous changedNodes =
     (if length previous = 0 then LabelPropagation_Detect shuffle ro lp g
      else renumber (G_Nodes g)
        (propagate_rounds shuffle ro g 0 (rounds_of lp)
          (filter (\<lambda>i. G_Nodes g ! i \<in> changedNodes) [0..<length (G_Nodes g)])
          (seed_communities (G_Nodes g) previous)))"

section \<open>The registry\<close>

datatype algorithm = LouvainAlg Louvain | LabelPropagationAlg LabelPropagation

definition Registry :: "(string, algorithm) gomap" where
  "Registry =
    [(''louvain'', LouvainAlg \<lparr>Resolution = 1, MaxPasses = 20\<rparr>),
     (''louvain-fine'', LouvainAlg \<lparr>Resolution = 3 / 10, MaxPasses = 20\<rparr>),
     (''label-propagation'', LabelPropagationAlg \<lparr>MaxIterations = 50\<rparr>)]"

definition Default_algorithm :: string where
  "Default_algorithm = ''louvain''"

definition Get_algorithm :: "string \<Rightarrow> algorithm option" where
  "Get_algorithm name = map_of Registry name"

section \<open>Maps of numbers\<close>

lemma index0_set [simp]: "index0 (gomap_set k v m) = (index0 m)(k := v)"
  by (auto simp: index0_def fun_eq_iff)

lemma index0_add [simp]: "index0 (gomap_add k w m) = (index0 m)(k := index0 m k + w)"
  by (simp add: gomap_add_def)

lemma index0_Nil [simp]: "index0 [] k = 0"
  by (simp add: index0_def)

lemma gomap_ok_add [simp]: "gomap_ok m \<Longrightarrow> gomap_ok (gomap_add k w m)"
  by (simp add: gomap_add_def)

lemma index0_in: "gomap_ok m \<Longrightarrow> (k, v) \<in> set m \<Longrightarrow> index0 m k = v"
  by (simp add: index0_def)

lemma fold_gomap_add_ok: "gomap_ok m \<Longrightarrow> gomap_ok (fold (\<lambda>x. gomap_add (f x) (h x)) xs m)"
  by (induction xs arbitrary: m) simp_all

lemma index0_fold_add:
  "index0 (fold (\<lambda>x. gomap_add (f x) (h x)) xs m) k = index0 m k + sum_list (map h (filter (\<lambda>x. f x = k) xs))"
  by (induction xs arbitrary: m) (simp_all add: add.assoc)

lemma neighbor_weights_ok: "gomap_ok (neighbor_weights comm es)"
  unfolding neighbor_weights_def by (rule fold_gomap_add_ok) simp

lemma index0_neighbor_weights:
  "index0 (neighbor_weights comm es) c =
    sum_list (map WE_Weight (filter (\<lambda>e. index0 comm (WE_Target e) = c) es))"
  by (simp add: neighbor_weights_def index0_fold_add)

lemma sum_list_filter_eq:
  fixes h :: "'a \<Rightarrow> 'b::comm_monoid_add"
  shows "distinct xs \<Longrightarrow> sum_list (map h (filter P xs)) = (\<Sum>x \<in> {x \<in> set xs. P x}. h x)"
  by (subst sum_list_distinct_conv_sum_set) (auto simp: distinct_map_filter)

section \<open>Modularity\<close>

text \<open>
  The measure Louvain improves: the weight inside communities against its expectation, scaled by
  the resolution. It is stated on assignments as functions and is not used by the algorithm.
\<close>

definition edge_weight :: "Graph \<Rightarrow> hash \<Rightarrow> hash \<Rightarrow> float64" where
  "edge_weight g i j = sum_list (map WE_Weight (filter (\<lambda>e. WE_Target e = j) (neighbors g i)))"

definition degree :: "Graph \<Rightarrow> hash \<Rightarrow> float64" where
  "degree g i = sum_list (map WE_Weight (neighbors g i))"

definition modularity :: "float64 \<Rightarrow> Graph \<Rightarrow> (hash \<Rightarrow> int) \<Rightarrow> float64" where
  "modularity resolution g c =
     (\<Sum>i \<in> set (G_Nodes g). \<Sum>j \<in> set (G_Nodes g).
        if c i = c j
        then edge_weight g i j / total_weight g -
             resolution * degree g i * degree g j / (total_weight g)\<^sup>2
        else 0)"

text \<open>What the callers build: every edge in both directions, between distinct listed nodes.\<close>

definition graph_ok :: "Graph \<Rightarrow> bool" where
  "graph_ok g \<longleftrightarrow> distinct (G_Nodes g) \<and> gomap_ok (G_Adj g) \<and>
     set (gokeys (G_Adj g)) \<subseteq> set (G_Nodes g) \<and>
     (\<forall>(n, es) \<in> set (G_Adj g). \<forall>e \<in> set es. WE_Target e \<in> set (G_Nodes g) \<and> 0 \<le> WE_Weight e) \<and>
     (\<forall>i \<in> set (G_Nodes g). \<forall>j \<in> set (G_Nodes g). edge_weight g i j = edge_weight g j i)"

lemma neighbors_ok:
  assumes "graph_ok g" "e \<in> set (neighbors g n)"
  shows "WE_Target e \<in> set (G_Nodes g)" "0 \<le> WE_Weight e"
proof -
  from assms(2) have "\<exists>es. map_of (G_Adj g) n = Some es \<and> e \<in> set es"
    by (cases "map_of (G_Adj g) n") (auto simp: neighbors_def)
  then obtain es where "map_of (G_Adj g) n = Some es" "e \<in> set es" by blast
  then have "(n, es) \<in> set (G_Adj g)" "e \<in> set es" by (auto dest: map_of_SomeD)
  with assms(1) show "WE_Target e \<in> set (G_Nodes g)" "0 \<le> WE_Weight e"
    unfolding graph_ok_def by (metis (no_types, lifting) case_prodD)+
qed

lemma index0_strengths:
  assumes "distinct (G_Nodes g)" "n \<in> set (G_Nodes g)"
  shows "index0 (strengths g) n = degree g n"
proof -
  have inner: "index0 (fold (\<lambda>e. gomap_add k (WE_Weight e)) es m) n =
      index0 m n + (if k = n then sum_list (map WE_Weight es) else 0)" for k es and m :: "(hash, float64) gomap"
    using index0_fold_add [of "\<lambda>_. k" WE_Weight es m n] by simp
  have "index0 (fold (\<lambda>n ki. fold (\<lambda>e. gomap_add n (WE_Weight e)) (neighbors g n) ki) ns m) n =
      index0 m n + (if n \<in> set ns then degree g n else 0)" if "distinct ns" for ns m
    using that by (induction ns arbitrary: m) (auto simp: inner degree_def)
  with assms show ?thesis by (simp add: strengths_def)
qed

lemma total_weight_degrees:
  assumes "graph_ok g"
  shows "total_weight g = (\<Sum>i \<in> set (G_Nodes g). degree g i)"
proof -
  have ok: "gomap_ok (G_Adj g)" "set (gokeys (G_Adj g)) \<subseteq> set (G_Nodes g)"
    using assms by (simp_all add: graph_ok_def)
  have "total_weight g = sum_list (map (\<lambda>n. degree g n) (gokeys (G_Adj g)))"
  proof -
    have "sum_list (map WE_Weight es) = degree g n" if "(n, es) \<in> set (G_Adj g)" for n es
      using that ok(1) by (simp add: degree_def neighbors_def)
    then have "map (\<lambda>(n, es). sum_list (map WE_Weight es)) (G_Adj g) = map (\<lambda>p. degree g (fst p)) (G_Adj g)"
      by (intro map_cong) auto
    then show ?thesis by (simp only: total_weight_def map_map comp_def)
  qed
  also have "\<dots> = (\<Sum>i \<in> set (gokeys (G_Adj g)). degree g i)"
    using ok(1) by (rule sum_list_distinct_conv_sum_set)
  also have "\<dots> = (\<Sum>i \<in> set (G_Nodes g). degree g i)"
  proof (rule sum.mono_neutral_left [OF _ ok(2)])
    show "\<forall>i \<in> set (G_Nodes g) - set (gokeys (G_Adj g)). degree g i = 0"
    proof
      fix i
      assume "i \<in> set (G_Nodes g) - set (gokeys (G_Adj g))"
      then have "map_of (G_Adj g) i = None" by (simp add: map_of_eq_None_iff)
      then show "degree g i = 0" by (simp add: degree_def neighbors_def)
    qed
  qed simp
  finally show ?thesis .
qed

lemma weight_to_community:
  assumes "graph_ok g"
  shows "sum_list (map WE_Weight (filter (\<lambda>e. c (WE_Target e) = k) (neighbors g i))) =
    (\<Sum>j \<in> {j \<in> set (G_Nodes g). c j = k}. edge_weight g i j)"
proof -
  have "sum_list (map WE_Weight (filter (\<lambda>e. c (WE_Target e) = k) es)) =
      (\<Sum>j \<in> {j \<in> set (G_Nodes g). c j = k}. sum_list (map WE_Weight (filter (\<lambda>e. WE_Target e = j) es)))"
    if "\<forall>e \<in> set es. WE_Target e \<in> set (G_Nodes g)" for es
    using that
  proof (induction es)
    case (Cons e es)
    let ?J = "{j \<in> set (G_Nodes g). c j = k}"
    let ?r = "\<lambda>j. sum_list (map WE_Weight (filter (\<lambda>e. WE_Target e = j) es))"
    have "(\<Sum>j \<in> ?J. sum_list (map WE_Weight (filter (\<lambda>e. WE_Target e = j) (e # es)))) =
        (\<Sum>j \<in> ?J. (if j = WE_Target e then WE_Weight e else 0) + ?r j)"
      by (rule sum.cong) auto
    also have "\<dots> = (if WE_Target e \<in> ?J then WE_Weight e else 0) + (\<Sum>j \<in> ?J. ?r j)"
      by (simp add: sum.distrib)
    finally show ?case using Cons by simp
  qed simp
  from this [of "neighbors g i"] show ?thesis
    using neighbors_ok(1) [OF assms, of _ i] by (simp add: edge_weight_def)
qed

lemma double_sum_split:
  fixes B :: "hash \<Rightarrow> hash \<Rightarrow> rat"
  assumes "finite N" "i \<in> N" "\<And>x y. x \<in> N \<Longrightarrow> y \<in> N \<Longrightarrow> B x y = B y x"
  shows "(\<Sum>x \<in> N. \<Sum>y \<in> N. if c x = c y then B x y else 0) =
    B i i + 2 * (\<Sum>y \<in> N - {i}. if c y = c i then B i y else 0) +
    (\<Sum>x \<in> N - {i}. \<Sum>y \<in> N - {i}. if c x = c y then B x y else 0)"
proof -
  let ?f = "\<lambda>x y. if c x = c y then B x y else 0"
  have row: "(\<Sum>y \<in> N. ?f x y) = ?f x i + (\<Sum>y \<in> N - {i}. ?f x y)" for x
    by (rule sum.remove [OF assms(1,2)])
  have "(\<Sum>x \<in> N. \<Sum>y \<in> N. ?f x y) = (\<Sum>y \<in> N. ?f i y) + (\<Sum>x \<in> N - {i}. \<Sum>y \<in> N. ?f x y)"
    by (rule sum.remove [OF assms(1,2)])
  also have "\<dots> = ?f i i + (\<Sum>y \<in> N - {i}. ?f i y) +
      ((\<Sum>x \<in> N - {i}. ?f x i) + (\<Sum>x \<in> N - {i}. \<Sum>y \<in> N - {i}. ?f x y))"
    by (simp only: row sum.distrib)
  also have "(\<Sum>x \<in> N - {i}. ?f x i) = (\<Sum>y \<in> N - {i}. if c y = c i then B i y else 0)"
    using assms(2,3) by (intro sum.cong) auto
  also have "(\<Sum>y \<in> N - {i}. ?f i y) = (\<Sum>y \<in> N - {i}. if c y = c i then B i y else 0)"
    by (intro sum.cong) auto
  finally show ?thesis by simp
qed

text \<open>Moving node \<open>i\<close> to another community.\<close>

lemma double_sum_move:
  fixes B :: "hash \<Rightarrow> hash \<Rightarrow> rat"
  assumes "finite N" "i \<in> N" "\<And>x y. x \<in> N \<Longrightarrow> y \<in> N \<Longrightarrow> B x y = B y x"
  shows "(\<Sum>x \<in> N. \<Sum>y \<in> N. if (c(i := k)) x = (c(i := k)) y then B x y else 0) -
      (\<Sum>x \<in> N. \<Sum>y \<in> N. if c x = c y then B x y else 0) =
    2 * ((\<Sum>y \<in> N - {i}. if c y = k then B i y else 0) - (\<Sum>y \<in> N - {i}. if c y = c i then B i y else 0))"
proof -
  have a: "(\<Sum>y \<in> N - {i}. if (c(i := k)) y = (c(i := k)) i then B i y else 0) =
      (\<Sum>y \<in> N - {i}. if c y = k then B i y else 0)"
    by (intro sum.cong) auto
  have b: "(\<Sum>x \<in> N - {i}. \<Sum>y \<in> N - {i}. if (c(i := k)) x = (c(i := k)) y then B x y else 0) =
      (\<Sum>x \<in> N - {i}. \<Sum>y \<in> N - {i}. if c x = c y then B x y else 0)"
    by (intro sum.cong) auto
  show ?thesis
    using double_sum_split [OF assms, where c = "c(i := k)"] double_sum_split [OF assms, where c = c]
    unfolding a b by simp
qed

lemma edge_weight_nonneg: "graph_ok g \<Longrightarrow> 0 \<le> edge_weight g i j"
  unfolding edge_weight_def by (rule sum_list_nonneg) (auto dest: neighbors_ok)

lemma total_weight_nonneg: "graph_ok g \<Longrightarrow> 0 \<le> total_weight g"
  unfolding total_weight_degrees degree_def
  by (rule sum_nonneg, rule sum_list_nonneg) (auto dest: neighbors_ok)

text \<open>The gain of the code is the gain in modularity, up to the weight of self-loops.\<close>

lemma modularity_move:
  assumes g: "graph_ok g" and W: "total_weight g \<noteq> 0" and i: "i \<in> set (G_Nodes g)" and k: "k \<noteq> c i"
  shows "modularity r g (c(i := k)) - modularity r g c =
    louvain_gain r (total_weight g / 2) (degree g i)
      (\<Sum>j \<in> {j \<in> set (G_Nodes g). c j = c i}. edge_weight g i j)
      ((\<Sum>j \<in> {j \<in> set (G_Nodes g). c j = c i}. degree g j) - degree g i)
      (\<Sum>j \<in> {j \<in> set (G_Nodes g). c j = k}. edge_weight g i j)
      (\<Sum>j \<in> {j \<in> set (G_Nodes g). c j = k}. degree g j) +
    2 * edge_weight g i i / total_weight g"
proof -
  let ?N = "set (G_Nodes g)"
  let ?W = "total_weight g"
  define B where "B x y = edge_weight g x y / ?W - r * degree g x * degree g y / ?W\<^sup>2" for x y
  define w where "w a = (\<Sum>j \<in> {j \<in> ?N. c j = a}. edge_weight g i j)" for a
  define s where "s a = (\<Sum>j \<in> {j \<in> ?N. c j = a}. degree g j)" for a
  have sym: "B x y = B y x" if "x \<in> ?N" "y \<in> ?N" for x y
    using g that by (simp add: B_def graph_ok_def mult.commute mult.left_commute)
  have row: "(\<Sum>y \<in> ?N. if c y = a then B i y else 0) = w a / ?W - r * degree g i * s a / ?W\<^sup>2" for a
  proof -
    have "(\<Sum>y \<in> ?N. if c y = a then B i y else 0) = (\<Sum>y \<in> {y \<in> ?N. c y = a}. B i y)"
      by (rule sum.inter_filter [symmetric]) simp
    also have "\<dots> = w a / ?W - r * degree g i * s a / ?W\<^sup>2"
      by (simp add: B_def w_def s_def sum_subtractf sum_divide_distrib sum_distrib_left)
    finally show ?thesis .
  qed
  have other: "(\<Sum>y \<in> ?N - {i}. if c y = a then B i y else 0) =
      (\<Sum>y \<in> ?N. if c y = a then B i y else 0) - (if c i = a then B i i else 0)" for a
    using sum.remove [of ?N i "\<lambda>y. if c y = a then B i y else 0"] i by simp
  have "modularity r g (c(i := k)) - modularity r g c =
      2 * ((w k / ?W - r * degree g i * s k / ?W\<^sup>2) - (w (c i) / ?W - r * degree g i * s (c i) / ?W\<^sup>2 - B i i))"
    using double_sum_move [of ?N i B c k] sym i k unfolding modularity_def B_def [symmetric] other row by simp
  also have "\<dots> = louvain_gain r (?W / 2) (degree g i) (w (c i)) (s (c i) - degree g i) (w k) (s k) +
      2 * edge_weight g i i / ?W"
    using W by (simp add: louvain_gain_def B_def field_simps power2_eq_square)
  finally show ?thesis unfolding w_def s_def .
qed

lemma best_community_spec:
  "best_community gain cur kiIn = cur \<or>
    (\<exists>w. (best_community gain cur kiIn, w) \<in> set kiIn \<and> best_community gain cur kiIn \<noteq> cur \<and>
      0 < gain (best_community gain cur kiIn) w)"
proof -
  have "let (b, x) = fold (\<lambda>(c, w) (bestComm, bestGain).
            if c = cur then (bestComm, bestGain)
            else if gain c w > bestGain then (c, gain c w) else (bestComm, bestGain)) ps (b0, x0) in
      0 \<le> x \<and> (b = b0 \<or> (\<exists>w. (b, w) \<in> set ps \<and> b \<noteq> cur \<and> 0 < gain b w))"
    if "0 \<le> x0" for ps b0 x0
    using that
  proof (induction ps arbitrary: b0 x0)
    case (Cons p ps)
    obtain c w where p: "p = (c, w)" by (cases p)
    show ?case
    proof (cases "c \<noteq> cur \<and> gain c w > x0")
      case True
      with Cons.prems have "0 \<le> gain c w" "0 < gain c w" by auto
      with Cons.IH [OF this(1), of c] True p show ?thesis by (auto simp: Let_def split: prod.splits)
    next
      case False
      with Cons.IH [OF Cons.prems, of b0] p show ?thesis by (auto simp: Let_def split: prod.splits)
    qed
  qed simp
  from this [of 0 kiIn cur] show ?thesis
    unfolding best_community_def by (auto simp: Let_def split: prod.splits)
qed

text \<open>The totals the loop carries are the totals of the communities.\<close>

definition totals_ok :: "Graph \<Rightarrow> louvain_state \<Rightarrow> bool" where
  "totals_ok g st \<longleftrightarrow>
     (\<forall>a. index0 (LS_sigmaTot st) a = (\<Sum>j \<in> {j \<in> set (G_Nodes g). index0 (LS_comm st) j = a}. degree g j))"

abbreviation range_ok :: "range_order \<Rightarrow> bool" where
  "range_ok ro \<equiv> (\<forall>m. set (ro m) = set m)"

lemma totals_move:
  assumes "finite N" "i \<in> N" "k \<noteq> c i"
  shows "(\<Sum>j \<in> {j \<in> N. (c(i := k)) j = a}. d j) =
    (\<Sum>j \<in> {j \<in> N. c j = a}. d j) + (if a = k then d i else if a = c i then - d i else (0::rat))"
proof -
  have "(\<Sum>j \<in> {j \<in> N. e j = a}. d j) = (if e i = a then d i else 0) + (\<Sum>j \<in> {j \<in> N - {i}. e j = a}. d j)" for e
  proof (cases "e i = a")
    case True
    have "{j \<in> N. e j = a} - {i} = {j \<in> N - {i}. e j = a}" by auto
    with True sum.remove [of "{j \<in> N. e j = a}" i d] assms(1,2) show ?thesis by simp
  next
    case False
    then have "{j \<in> N. e j = a} = {j \<in> N - {i}. e j = a}" by auto
    with False show ?thesis by simp
  qed
  moreover have "{j \<in> N - {i}. (c(i := k)) j = a} = {j \<in> N - {i}. c j = a}" by auto
  ultimately show ?thesis using assms(3) by auto
qed

lemma louvain_node_improves:
  assumes g: "graph_ok g" and W: "total_weight g \<noteq> 0" and ro: "range_ok ro"
    and i: "i \<in> set (G_Nodes g)" and t: "totals_ok g st"
  shows "totals_ok g (louvain_node ro r (total_weight g / 2) (strengths g) g i st) \<and>
    modularity r g (index0 (LS_comm st)) \<le>
      modularity r g (index0 (LS_comm (louvain_node ro r (total_weight g / 2) (strengths g) g i st)))"
proof -
  define c where "c = index0 (LS_comm st)"
  define kiIn where "kiIn = neighbor_weights (LS_comm st) (neighbors g i)"
  have k: "index0 (strengths g) i = degree g i"
    using g i by (intro index0_strengths) (simp_all add: graph_ok_def)
  have s: "index0 (LS_sigmaTot st) a = (\<Sum>j \<in> {j \<in> set (G_Nodes g). c j = a}. degree g j)" for a
    using t by (simp add: totals_ok_def c_def)
  have w: "index0 kiIn a = (\<Sum>j \<in> {j \<in> set (G_Nodes g). c j = a}. edge_weight g i j)" for a
    unfolding kiIn_def index0_neighbor_weights c_def [symmetric] by (rule weight_to_community [OF g])
  let ?gain = "\<lambda>a w. louvain_gain r (total_weight g / 2) (degree g i) (index0 kiIn (c i))
      (index0 (LS_sigmaTot st) (c i) - degree g i) w (index0 (LS_sigmaTot st) a)"
  define b where "b = best_community ?gain (c i) (ro kiIn)"
  define st' where "st' =
    st\<lparr>LS_sigmaTot := gomap_add b (degree g i) (gomap_add (c i) (- degree g i) (LS_sigmaTot st)),
       LS_comm := gomap_set i b (LS_comm st), LS_improved := True\<rparr>"
  have step: "louvain_node ro r (total_weight g / 2) (strengths g) g i st = (if b \<noteq> c i then st' else st)"
    by (simp add: louvain_node_def Let_def k b_def c_def kiIn_def st'_def)
  show ?thesis
  proof (cases "b = c i")
    case True
    with t show ?thesis by (simp add: step)
  next
    case False
    with best_community_spec [of ?gain "c i" "ro kiIn"] obtain x where
      x: "(b, x) \<in> set (ro kiIn)" "0 < ?gain b x"
      unfolding b_def [symmetric] by blast
    have "x = index0 kiIn b"
      using x(1) ro index0_in [OF neighbor_weights_ok, of b x] by (simp add: kiIn_def)
    then have "0 < ?gain b (index0 kiIn b)" using x(2) by simp
    moreover have "0 \<le> 2 * edge_weight g i i / total_weight g"
      using edge_weight_nonneg [OF g] total_weight_nonneg [OF g] by simp
    ultimately have "0 < modularity r g (c(i := b)) - modularity r g c"
      unfolding modularity_move [where c = c and k = b, OF g W i False] s w by linarith
    moreover have "totals_ok g st'"
      unfolding totals_ok_def
    proof (intro allI)
      fix a
      have "index0 (LS_sigmaTot st') a =
          index0 (LS_sigmaTot st) a + (if a = b then degree g i else if a = c i then - degree g i else 0)"
        using False by (simp add: st'_def)
      moreover have "index0 (LS_comm st') = c(i := b)" by (simp add: st'_def c_def)
      moreover note totals_move [where c = c and a = a and d = "degree g", OF finite_set i False]
      ultimately show "index0 (LS_sigmaTot st') a =
          (\<Sum>j \<in> {j \<in> set (G_Nodes g). index0 (LS_comm st') j = a}. degree g j)"
        by (simp only: s)
    qed
    moreover have "index0 (LS_comm st') = c(i := b)" by (simp add: st'_def c_def)
    ultimately show ?thesis unfolding step if_P [OF False] c_def [symmetric] by simp
  qed
qed

lemma louvain_pass_improves:
  assumes g: "graph_ok g" and W: "total_weight g \<noteq> 0" and ro: "range_ok ro" and t: "totals_ok g st"
  shows "totals_ok g (louvain_pass ro r (total_weight g / 2) (strengths g) g movable st) \<and>
    modularity r g (index0 (LS_comm st)) \<le>
      modularity r g (index0 (LS_comm (louvain_pass ro r (total_weight g / 2) (strengths g) g movable st)))"
proof -
  let ?f = "\<lambda>node st. if movable node then louvain_node ro r (total_weight g / 2) (strengths g) g node st else st"
  have "totals_ok g (fold ?f ns st) \<and>
      modularity r g (index0 (LS_comm st)) \<le> modularity r g (index0 (LS_comm (fold ?f ns st)))"
    if "set ns \<subseteq> set (G_Nodes g)" for ns
    using that t
  proof (induction ns arbitrary: st)
    case (Cons n ns)
    have n: "totals_ok g (?f n st) \<and>
        modularity r g (index0 (LS_comm st)) \<le> modularity r g (index0 (LS_comm (?f n st)))"
      using louvain_node_improves [OF g W ro, of n st r] Cons.prems by simp
    from Cons.IH [OF _ conjunct1 [OF n]] Cons.prems(1) n show ?case by fastforce
  qed simp
  then show ?thesis unfolding louvain_pass_def by blast
qed

lemma louvain_passes_improve:
  assumes g: "graph_ok g" and W: "total_weight g \<noteq> 0" and ro: "range_ok ro"
  shows "totals_ok g st \<Longrightarrow>
    modularity r g (index0 (LS_comm st)) \<le>
      modularity r g (index0 (LS_comm (louvain_passes ro r (total_weight g / 2) (strengths g) g movable n st)))"
proof (induction n arbitrary: st)
  case (Suc n)
  have t: "totals_ok g (st\<lparr>LS_improved := False\<rparr>)" using Suc.prems by (simp add: totals_ok_def)
  note p = louvain_pass_improves [OF g W ro t, of r movable]
  from Suc.IH [OF conjunct1 [OF p]] conjunct2 [OF p] show ?case by (auto intro: order_trans)
qed simp

lemma louvain_optimise_improves:
  assumes g: "graph_ok g" and W: "total_weight g \<noteq> 0" and ro: "range_ok ro"
  shows "modularity (resolution_of l) g (index0 comm) \<le>
    modularity (resolution_of l) g (index0 (louvain_optimise ro l g movable comm))"
proof -
  let ?st = "\<lparr>LS_comm = comm, LS_sigmaTot = community_totals (G_Nodes g) comm (strengths g), LS_improved = True\<rparr>"
  have d: "distinct (G_Nodes g)" using g by (simp add: graph_ok_def)
  have "totals_ok g ?st"
    unfolding totals_ok_def
  proof (intro allI)
    fix a
    have "index0 (community_totals (G_Nodes g) comm (strengths g)) a =
        (\<Sum>j \<in> {j \<in> set (G_Nodes g). index0 comm j = a}. index0 (strengths g) j)"
      by (simp add: community_totals_def index0_fold_add sum_list_filter_eq [OF d])
    also have "\<dots> = (\<Sum>j \<in> {j \<in> set (G_Nodes g). index0 comm j = a}. degree g j)"
      by (rule sum.cong) (simp_all add: index0_strengths [OF d])
    finally show "index0 (LS_sigmaTot ?st) a =
        (\<Sum>j \<in> {j \<in> set (G_Nodes g). index0 (LS_comm ?st) j = a}. degree g j)" by simp
  qed
  from louvain_passes_improve [OF g W ro this] show ?thesis by (simp add: louvain_optimise_def)
qed

section \<open>Renumbering keeps the partition\<close>

lemma renumber_fold:
  assumes "distinct ns"
  shows "case fold renumber_step ns (comm, [], 0) of (comm', remap, k) \<Rightarrow>
    dom (map_of remap) = index0 comm ` set ns \<and> inj_on (index0 remap) (index0 comm ` set ns) \<and>
    index0 remap ` index0 comm ` set ns = {0..<k} \<and> 0 \<le> k \<and>
    index0 comm' = (\<lambda>x. if x \<in> set ns then index0 remap (index0 comm x) else index0 comm x) \<and>
    fst ` set comm' = fst ` set comm \<union> set ns"
  using assms
proof (induction ns rule: rev_induct)
  case (snoc n ns)
  obtain comm' remap k where f: "fold renumber_step ns (comm, [], 0) = (comm', remap, k)"
    by (cases "fold renumber_step ns (comm, [], 0)") auto
  from snoc f have IH: "dom (map_of remap) = index0 comm ` set ns" "inj_on (index0 remap) (index0 comm ` set ns)"
    "index0 remap ` index0 comm ` set ns = {0..<k}" "0 \<le> k"
    "index0 comm' = (\<lambda>x. if x \<in> set ns then index0 remap (index0 comm x) else index0 comm x)"
    "fst ` set comm' = fst ` set comm \<union> set ns" and n: "n \<notin> set ns" by auto
  have c: "index0 comm' n = index0 comm n" using IH(5) n by simp
  show ?case
  proof (cases "map_of remap (index0 comm n)")
    case None
    then have new: "index0 comm n \<notin> index0 comm ` set ns" using IH(1) by (metis domIff)
    have out: "fold renumber_step (ns @ [n]) (comm, [], 0) =
        (gomap_set n k comm', gomap_set (index0 comm n) k remap, k + 1)"
      by (simp add: f renumber_step_def c None)
    have eq: "((index0 remap)(index0 comm n := k)) a = index0 remap a" if "a \<in> index0 comm ` set ns" for a
      using that new by (metis fun_upd_other)
    have img: "((index0 remap)(index0 comm n := k)) ` index0 comm ` set ns = {0..<k}"
      using IH(3) eq by (simp add: image_image)
    have inj: "inj_on ((index0 remap)(index0 comm n := k)) (insert (index0 comm n) (index0 comm ` set ns))"
      using IH(2) eq img new by (auto simp: inj_on_def) 
    show ?thesis
      unfolding out prod.case
    proof (intro conjI)
      show "dom (map_of (gomap_set (index0 comm n) k remap)) = index0 comm ` set (ns @ [n])" using IH(1) by simp
      show "inj_on (index0 (gomap_set (index0 comm n) k remap)) (index0 comm ` set (ns @ [n]))" using inj by simp
      show "index0 (gomap_set (index0 comm n) k remap) ` index0 comm ` set (ns @ [n]) = {0..<k + 1}"
      proof -
        have "index0 (gomap_set (index0 comm n) k remap) ` index0 comm ` set (ns @ [n]) =
            insert k (((index0 remap)(index0 comm n := k)) ` index0 comm ` set ns)"
          by (simp del: fun_upd_apply fun_upd_image) simp
        then show ?thesis unfolding img using IH(4) by auto
      qed
      show "0 \<le> k + 1" using IH(4) by simp
      show "index0 (gomap_set n k comm') = (\<lambda>x. if x \<in> set (ns @ [n])
          then index0 (gomap_set (index0 comm n) k remap) (index0 comm x) else index0 comm x)"
        using IH(5) eq n by (auto simp: fun_eq_iff)
      show "fst ` set (gomap_set n k comm') = fst ` set comm \<union> set (ns @ [n])"
        using IH(6) by (auto simp: keys_gomap_set)
    qed
  next
    case (Some v)
    then have old: "index0 comm n \<in> index0 comm ` set ns" using IH(1) by (metis domI)
    have out: "fold renumber_step (ns @ [n]) (comm, [], 0) = (gomap_set n (index0 remap (index0 comm n)) comm', remap, k)"
      by (simp add: f renumber_step_def c Some)
    have same: "index0 comm ` set (ns @ [n]) = index0 comm ` set ns" using old by auto
    show ?thesis
      unfolding out prod.case same using IH n by (auto simp: fun_eq_iff keys_gomap_set)
  qed
qed simp

lemma renumber_spec:
  assumes "distinct nodes"
  shows "index0 (renumber nodes comm) ` set nodes = {0..<int (card (index0 comm ` set nodes))}"
    and "x \<in> set nodes \<Longrightarrow> y \<in> set nodes \<Longrightarrow>
      index0 (renumber nodes comm) x = index0 (renumber nodes comm) y \<longleftrightarrow> index0 comm x = index0 comm y"
    and "fst ` set (renumber nodes comm) = fst ` set comm \<union> set nodes"
proof -
  obtain comm' remap k where f: "fold renumber_step nodes (comm, [], 0) = (comm', remap, k)"
    by (cases "fold renumber_step nodes (comm, [], 0)") auto
  from renumber_fold [OF assms, of comm] f have
    inj: "inj_on (index0 remap) (index0 comm ` set nodes)" and
    img: "index0 remap ` index0 comm ` set nodes = {0..<k}" and k: "0 \<le> k" and
    c: "\<And>x. x \<in> set nodes \<Longrightarrow> index0 comm' x = index0 remap (index0 comm x)" and
    keys: "fst ` set comm' = fst ` set comm \<union> set nodes" by auto
  have r: "renumber nodes comm = comm'" by (simp add: renumber_def f)
  have "card (index0 comm ` set nodes) = card {0..<k}" using card_image [OF inj] img by simp
  then have "int (card (index0 comm ` set nodes)) = k" using k by simp
  moreover have "index0 comm' ` set nodes = index0 remap ` index0 comm ` set nodes"
    using c by (auto simp: image_image intro!: image_cong)
  ultimately show "index0 (renumber nodes comm) ` set nodes = {0..<int (card (index0 comm ` set nodes))}"
    using img r by simp
  show "index0 (renumber nodes comm) x = index0 (renumber nodes comm) y \<longleftrightarrow> index0 comm x = index0 comm y"
    if "x \<in> set nodes" "y \<in> set nodes"
    using that inj by (simp add: r c inj_on_eq_iff)
  show "fst ` set (renumber nodes comm) = fst ` set comm \<union> set nodes" using keys r by simp
qed

section \<open>Frozen nodes and initial assignments\<close>

lemma modularity_cong:
  assumes "\<And>x y. x \<in> set (G_Nodes g) \<Longrightarrow> y \<in> set (G_Nodes g) \<Longrightarrow> c x = c y \<longleftrightarrow> c' x = c' y"
  shows "modularity r g c = modularity r g c'"
  unfolding modularity_def by (intro sum.cong refl if_cong) (use assms in auto)

lemma own_communities_snoc:
  "own_communities (ns @ [n]) = gomap_set n (int (length ns)) (own_communities ns)"
  by (simp add: own_communities_def)

lemma own_communities_spec:
  assumes "distinct nodes"
  shows "inj_on (index0 (own_communities nodes)) (set nodes)"
    and "index0 (own_communities nodes) ` set nodes = {0..<int (length nodes)}"
    and "fst ` set (own_communities nodes) = set nodes"
proof -
  have "index0 (own_communities nodes) ` set nodes = {0..<int (length nodes)} \<and>
      fst ` set (own_communities nodes) = set nodes"
    using assms
  proof (induction nodes rule: rev_induct)
    case Nil
    show ?case by (simp add: own_communities_def)
  next
    case (snoc n ns)
    then have IH: "index0 (own_communities ns) ` set ns = {0..<int (length ns)}" and n: "n \<notin> set ns" by auto
    have "((index0 (own_communities ns))(n := int (length ns))) ` set ns = index0 (own_communities ns) ` set ns"
      by (rule image_cong) (use n in auto)
    then have "((index0 (own_communities ns))(n := int (length ns))) ` set ns = {0..<int (length ns)}"
      using IH by simp
    with snoc show ?case by (auto simp: own_communities_snoc keys_gomap_set)
  qed
  then show img: "index0 (own_communities nodes) ` set nodes = {0..<int (length nodes)}"
    and "fst ` set (own_communities nodes) = set nodes" by auto
  show "inj_on (index0 (own_communities nodes)) (set nodes)"
    by (rule eq_card_imp_inj_on) (simp_all add: img distinct_card [OF assms])
qed

lemma louvain_node_other: "x \<noteq> node \<Longrightarrow> index0 (LS_comm (louvain_node ro r m ki g node st)) x = index0 (LS_comm st) x"
  by (simp add: louvain_node_def Let_def)

lemma louvain_node_keys:
  "fst ` set (LS_comm (louvain_node ro r m ki g node st)) \<subseteq> insert node (fst ` set (LS_comm st))"
  by (auto simp: louvain_node_def Let_def keys_gomap_set)

lemma louvain_optimise_frozen:
  assumes "\<not> movable x"
  shows "index0 (louvain_optimise ro l g movable comm) x = index0 comm x"
proof -
  have pass: "index0 (LS_comm (louvain_pass ro r m ki g movable st)) x = index0 (LS_comm st) x" for r m ki st
  proof -
    have "index0 (LS_comm (fold (\<lambda>node st. if movable node then louvain_node ro r m ki g node st else st) ns st)) x =
        index0 (LS_comm st) x" for ns
    proof (induction ns arbitrary: st)
      case (Cons n ns)
      then show ?case using assms louvain_node_other [of x n] by (cases "x = n") auto
    qed simp
    then show ?thesis by (simp add: louvain_pass_def)
  qed
  have "index0 (LS_comm (louvain_passes ro r m ki g movable n st)) x = index0 (LS_comm st) x" for r m ki n st
    by (induction n arbitrary: st) (simp_all add: pass)
  then show ?thesis by (simp add: louvain_optimise_def)
qed

lemma louvain_optimise_keys:
  assumes "fst ` set comm = set (G_Nodes g)"
  shows "fst ` set (louvain_optimise ro l g movable comm) = set (G_Nodes g)"
proof -
  have node: "fst ` set (LS_comm (louvain_node ro r m ki g i st)) = set (G_Nodes g)"
    if "i \<in> set (G_Nodes g)" "fst ` set (LS_comm st) = set (G_Nodes g)" for r m ki i st
    using that by (auto simp: louvain_node_def Let_def keys_gomap_set)
  have "fst ` set (LS_comm (fold (\<lambda>node st. if movable node then louvain_node ro r m ki g node st else st) ns st)) =
      set (G_Nodes g)" if "set ns \<subseteq> set (G_Nodes g)" "fst ` set (LS_comm st) = set (G_Nodes g)" for r m ki ns st
    using that by (induction ns arbitrary: st) (simp_all add: node)
  then have pass: "fst ` set (LS_comm (louvain_pass ro r m ki g movable st)) = set (G_Nodes g)"
    if "fst ` set (LS_comm st) = set (G_Nodes g)" for r m ki st
    using that unfolding louvain_pass_def by blast
  have "fst ` set (LS_comm (louvain_passes ro r m ki g movable n st)) = set (G_Nodes g)"
    if "fst ` set (LS_comm st) = set (G_Nodes g)" for r m ki n st
    using that by (induction n arbitrary: st) (simp_all add: pass)
  with assms show ?thesis by (simp add: louvain_optimise_def)
qed

lemma seed_communities_spec:
  assumes "gomap_ok previous"
  shows "x \<in> set nodes \<Longrightarrow> x \<in> fst ` set previous \<Longrightarrow> index0 (seed_communities nodes previous) x = index0 previous x"
    and "fst ` set (seed_communities nodes previous) = set nodes"
proof -
  have "(\<forall>x \<in> set nodes \<inter> fst ` set previous.
        index0 (fst (fold (seed_step previous) nodes ([], k))) x = index0 previous x) \<and>
      fst ` set (fst (fold (seed_step previous) nodes ([], k))) = set nodes" for k
  proof (induction nodes rule: rev_induct)
    case (snoc n ns)
    obtain comm j where f: "fold (seed_step previous) ns ([], k) = (comm, j)"
      by (cases "fold (seed_step previous) ns ([], k)") auto
    show ?case
    proof (cases "map_of previous n")
      case None
      then have "n \<notin> fst ` set previous" by (simp add: map_of_eq_None_iff)
      moreover have "seed_step previous n (comm, j) = (gomap_set n j comm, j + 1)"
        by (simp add: seed_step_def None)
      ultimately show ?thesis using snoc f by (auto simp: keys_gomap_set)
    next
      case (Some v)
      then have "index0 previous n = v" by (simp add: index0_def)
      moreover have "seed_step previous n (comm, j) = (gomap_set n v comm, j)"
        by (simp add: seed_step_def Some)
      ultimately show ?thesis using snoc f by (auto simp: keys_gomap_set)
    qed
  qed simp
  then show "x \<in> set nodes \<Longrightarrow> x \<in> fst ` set previous \<Longrightarrow> index0 (seed_communities nodes previous) x = index0 previous x"
    "fst ` set (seed_communities nodes previous) = set nodes"
    unfolding seed_communities_def by blast+
qed

lemma gomap_ok_own: "gomap_ok (own_communities nodes)"
proof -
  have "gomap_ok (fold (\<lambda>(i, n). gomap_set n (int i)) ps m)" if "gomap_ok m" for ps and m :: "(hash, int) gomap"
    using that by (induction ps arbitrary: m) (auto simp del: distinct_map)
  then show ?thesis by (simp add: own_communities_def)
qed

lemma gomap_ok_seed: "gomap_ok (seed_communities nodes previous)"
proof -
  have "gomap_ok (fst (fold (seed_step previous) ns st))" if "gomap_ok (fst st)" for ns st
    using that
  proof (induction ns arbitrary: st)
    case (Cons n ns)
    have "gomap_ok (fst (seed_step previous n st))"
      using Cons.prems by (cases st) (simp add: seed_step_def split: option.split)
    from Cons.IH [OF this] show ?case by simp
  qed simp
  then show ?thesis by (simp add: seed_communities_def)
qed

lemma gomap_ok_optimise:
  assumes "gomap_ok comm"
  shows "gomap_ok (louvain_optimise ro l g movable comm)"
proof -
  have node: "gomap_ok (LS_comm (louvain_node ro r m ki g i st))" if "gomap_ok (LS_comm st)" for r m ki i st
    using that by (simp add: louvain_node_def Let_def)
  have pass: "gomap_ok (LS_comm (louvain_pass ro r m ki g movable st))" if "gomap_ok (LS_comm st)" for r m ki st
  proof -
    have "gomap_ok (LS_comm (fold (\<lambda>node st. if movable node then louvain_node ro r m ki g node st else st) ns st))" for ns
      using that by (induction ns arbitrary: st) (simp_all add: node)
    then show ?thesis by (simp add: louvain_pass_def)
  qed
  have "gomap_ok (LS_comm (louvain_passes ro r m ki g movable n st))" if "gomap_ok (LS_comm st)" for r m ki n st
    using that by (induction n arbitrary: st) (simp_all add: pass)
  with assms show ?thesis by (simp add: louvain_optimise_def)
qed

lemma gomap_ok_renumber:
  assumes "gomap_ok comm"
  shows "gomap_ok (renumber nodes comm)"
proof -
  have "gomap_ok (fst (fold renumber_step ns st))" if "gomap_ok (fst st)" for ns st
    using that
  proof (induction ns arbitrary: st)
    case (Cons n ns)
    have "gomap_ok (fst (renumber_step n st))"
      using Cons.prems by (cases st) (simp add: renumber_step_def Let_def split: prod.split)
    from Cons.IH [OF this] show ?case by simp
  qed simp
  with assms show ?thesis by (simp add: renumber_def)
qed

lemma gomap_ok_detect:
  "gomap_ok (Louvain_Detect ro l g)" "gomap_ok (Louvain_DetectIncremental ro l g previous changed)"
  by (simp_all add: Louvain_Detect_def Louvain_DetectIncremental_def Let_def gomap_ok_own gomap_ok_seed
      gomap_ok_optimise gomap_ok_renumber del: distinct_map)

lemma propagate_node_other:
  "x \<noteq> node \<Longrightarrow> index0 (fst (propagate_node ro g node st)) x = index0 (fst st) x"
  by (cases st) (simp add: propagate_node_def Let_def)

lemma propagate_rounds_frozen:
  assumes "\<And>i xs. set (shuffle i xs) = set xs" "\<forall>idx \<in> set order. G_Nodes g ! idx \<noteq> x"
  shows "index0 (propagate_rounds shuffle ro g i n order label) x = index0 label x"
  using assms(2)
proof (induction n arbitrary: i order label)
  case (Suc n)
  have fold: "index0 (fst (fold (\<lambda>idx. propagate_node ro g (G_Nodes g ! idx)) idxs st)) x = index0 (fst st) x"
    if "\<forall>idx \<in> set idxs. G_Nodes g ! idx \<noteq> x" for idxs st
    using that
  proof (induction idxs arbitrary: st)
    case (Cons j js)
    then have "x \<noteq> G_Nodes g ! j" by auto
    with Cons show ?case by (simp add: propagate_node_other)
  qed simp
  have order: "\<forall>idx \<in> set (shuffle i order). G_Nodes g ! idx \<noteq> x" using Suc.prems assms(1) by simp
  obtain label' ch where st: "fold (\<lambda>idx. propagate_node ro g (G_Nodes g ! idx)) (shuffle i order) (label, False) = (label', ch)"
    by (cases "fold (\<lambda>idx. propagate_node ro g (G_Nodes g ! idx)) (shuffle i order) (label, False)") auto
  with fold [OF order, of "(label, False)"] Suc.IH [OF order] show ?case
    by (simp add: Let_def)
qed simp

section \<open>Properties\<close>

text \<open>
  C20. On a symmetric graph with non-negative weights, whatever the order in which candidate
  communities are visited: full Louvain detection assigns every node, numbers the communities
  contiguously from zero, and its partition has at least the modularity of the partition into
  single nodes it starts from; incremental detection improves on the partition it was seeded with
  in the same sense.
\<close>

theorem Louvain_improves_modularity:
  assumes g: "graph_ok g" and ro: "range_ok ro" and prev: "gomap_ok previous" "previous \<noteq> []"
  shows "fst ` set (Louvain_Detect ro l g) = set (G_Nodes g) \<and>
    (\<exists>k. index0 (Louvain_Detect ro l g) ` set (G_Nodes g) = {0..<k}) \<and>
    modularity (resolution_of l) g (index0 (own_communities (G_Nodes g))) \<le>
      modularity (resolution_of l) g (index0 (Louvain_Detect ro l g)) \<and>
    modularity (resolution_of l) g (index0 (seed_communities (G_Nodes g) previous)) \<le>
      modularity (resolution_of l) g (index0 (Louvain_DetectIncremental ro l g previous changedNodes))"
proof -
  let ?N = "set (G_Nodes g)"
  let ?Q = "modularity (resolution_of l) g"
  have d: "distinct (G_Nodes g)" using g by (simp add: graph_ok_def)
  note own = own_communities_spec [OF d]
  have ren: "?Q (index0 (renumber (G_Nodes g) comm)) = ?Q (index0 comm)" for comm
    by (rule modularity_cong) (rule renumber_spec(2) [OF d])
  have seed: "?Q (index0 (seed_communities (G_Nodes g) previous)) \<le>
      ?Q (index0 (Louvain_DetectIncremental ro l g previous changedNodes))"
    using louvain_optimise_improves [OF g _ ro] prev(2)
    by (simp add: Louvain_DetectIncremental_def Let_def ren)
  show ?thesis
  proof (cases "total_weight g = 0")
    case True
    then have "Louvain_Detect ro l g = own_communities (G_Nodes g)" by (simp add: Louvain_Detect_def Let_def)
    with own seed show ?thesis by auto
  next
    case False
    then have D: "Louvain_Detect ro l g =
        renumber (G_Nodes g) (louvain_optimise ro l g (\<lambda>_. True) (own_communities (G_Nodes g)))"
      by (simp add: Louvain_Detect_def Let_def)
    have "fst ` set (Louvain_Detect ro l g) = ?N"
      unfolding D renumber_spec(3) [OF d] louvain_optimise_keys [OF own(3)] by simp
    moreover have "\<exists>k. index0 (Louvain_Detect ro l g) ` ?N = {0..<k}"
      unfolding D using renumber_spec(1) [OF d] by blast
    moreover have "?Q (index0 (own_communities (G_Nodes g))) \<le> ?Q (index0 (Louvain_Detect ro l g))"
      unfolding D ren by (rule louvain_optimise_improves [OF g False ro])
    ultimately show ?thesis using seed by blast
  qed
qed

text \<open>Two nodes with an edge, a third on its own.\<close>

definition sample_graph :: Graph where
  "sample_graph =
     \<lparr>G_Nodes = [1, 2, 3],
      G_Adj = [(1, [\<lparr>WE_Target = 2, WE_Weight = 1\<rparr>]), (2, [\<lparr>WE_Target = 1, WE_Weight = 1\<rparr>])],
      G_NodeSet = {1, 2, 3}, G_EdgeCount = 1\<rparr>"

lemma sample_graph_ok: "graph_ok sample_graph"
  by (simp add: graph_ok_def sample_graph_def edge_weight_def neighbors_def)

theorem Louvain_improves_modularity_witness:
  "fst ` set (Louvain_Detect id \<lparr>Resolution = 1, MaxPasses = 20\<rparr> sample_graph) = {1, 2, 3} \<and>
   0 \<le> modularity 1 sample_graph (index0 (Louvain_Detect id \<lparr>Resolution = 1, MaxPasses = 20\<rparr> sample_graph)) -
     modularity 1 sample_graph (index0 (own_communities [1, 2, 3]))"
  using Louvain_improves_modularity [OF sample_graph_ok, of id "[(1, 0)]" "\<lparr>Resolution = 1, MaxPasses = 20\<rparr>" "{}"]
  by (simp add: resolution_of_def) (simp add: sample_graph_def)

text \<open>
  Incremental detection freezes the unchanged nodes only as a partition: two nodes that have a
  previous assignment and are not marked as changed are in one community afterwards exactly when
  they were before, for Louvain and for label propagation. Their numbers, however, are assigned
  anew, contiguously from zero in node order.
\<close>

lemma incremental_freezes_partition:
  assumes "graph_ok g" "gomap_ok previous" "previous \<noteq> []"
    and "\<And>i xs. set (shuffle i xs) = set xs"
    and "{x, y} \<subseteq> set (G_Nodes g) \<inter> fst ` set previous - changedNodes"
  shows "(index0 (Louvain_DetectIncremental ro l g previous changedNodes) x =
      index0 (Louvain_DetectIncremental ro l g previous changedNodes) y) = (index0 previous x = index0 previous y) \<and>
    (index0 (LabelPropagation_DetectIncremental shuffle ro lp g previous changedNodes) x =
      index0 (LabelPropagation_DetectIncremental shuffle ro lp g previous changedNodes) y) =
      (index0 previous x = index0 previous y) \<and>
    (\<exists>k. index0 (Louvain_DetectIncremental ro l g previous changedNodes) ` set (G_Nodes g) = {0..<k})"
proof -
  have d: "distinct (G_Nodes g)" using assms(1) by (simp add: graph_ok_def)
  have xy: "x \<in> set (G_Nodes g)" "y \<in> set (G_Nodes g)" "x \<in> fst ` set previous" "y \<in> fst ` set previous"
    "x \<notin> changedNodes" "y \<notin> changedNodes" using assms(5) by auto
  note seed = seed_communities_spec(1) [OF assms(2)]
  define comm where "comm = (if total_weight g = 0 then seed_communities (G_Nodes g) previous
      else louvain_optimise ro l g (\<lambda>n. n \<in> changedNodes) (seed_communities (G_Nodes g) previous))"
  have D: "Louvain_DetectIncremental ro l g previous changedNodes = renumber (G_Nodes g) comm"
    using assms(3) by (simp add: Louvain_DetectIncremental_def Let_def comm_def)
  have "index0 comm x = index0 previous x" "index0 comm y = index0 previous y"
    using xy seed by (simp_all add: comm_def louvain_optimise_frozen)
  then have L: "(index0 (renumber (G_Nodes g) comm) x = index0 (renumber (G_Nodes g) comm) y) =
      (index0 previous x = index0 previous y)"
    using renumber_spec(2) [OF d xy(1,2)] by simp
  let ?order = "filter (\<lambda>i. G_Nodes g ! i \<in> changedNodes) [0..<length (G_Nodes g)]"
  let ?label = "propagate_rounds shuffle ro g 0 (rounds_of lp) ?order (seed_communities (G_Nodes g) previous)"
  have "index0 ?label x = index0 previous x"
    by (subst propagate_rounds_frozen [OF assms(4)]) (use xy seed in auto)
  moreover have "index0 ?label y = index0 previous y"
    by (subst propagate_rounds_frozen [OF assms(4)]) (use xy seed in auto)
  ultimately have P: "(index0 (renumber (G_Nodes g) ?label) x = index0 (renumber (G_Nodes g) ?label) y) =
      (index0 previous x = index0 previous y)"
    using renumber_spec(2) [OF d xy(1,2)] by simp
  have E: "LabelPropagation_DetectIncremental shuffle ro lp g previous changedNodes = renumber (G_Nodes g) ?label"
    using assms(3) by (simp add: LabelPropagation_DetectIncremental_def)
  show ?thesis unfolding D E using L P renumber_spec(1) [OF d, of comm] by blast
qed

lemma incremental_freezes_partition_witness:
  "index0 (Louvain_DetectIncremental id \<lparr>Resolution = 1, MaxPasses = 20\<rparr> sample_graph [(1, 5), (2, 6), (3, 5)] {}) 1 =
   index0 (Louvain_DetectIncremental id \<lparr>Resolution = 1, MaxPasses = 20\<rparr> sample_graph [(1, 5), (2, 6), (3, 5)] {}) 3 \<and>
   index0 (Louvain_DetectIncremental id \<lparr>Resolution = 1, MaxPasses = 20\<rparr> sample_graph [(1, 5), (2, 6), (3, 5)] {}) 1 \<noteq> 5"
proof
  let ?p = "[(1, 5), (2, 6), (3, 5)] :: (hash, int) gomap"
  let ?D = "Louvain_DetectIncremental id \<lparr>Resolution = 1, MaxPasses = 20\<rparr> sample_graph ?p {}"
  have nodes: "set (G_Nodes sample_graph) = {1, 2, 3}" by (simp add: sample_graph_def)
  note f = incremental_freezes_partition [OF sample_graph_ok, of ?p "\<lambda>i xs. xs" 1 3 "{}" id
      "\<lparr>Resolution = 1, MaxPasses = 20\<rparr>" "\<lparr>MaxIterations = 50\<rparr>"]
  show "index0 ?D 1 = index0 ?D 3"
    using f by (simp add: nodes index0_def)
  obtain k where k: "index0 ?D ` {1, 2, 3} = {0..<k}"
    using f by (auto simp: nodes)
  show "index0 ?D 1 \<noteq> 5"
  proof
    assume "index0 ?D 1 = 5"
    then have "5 \<in> {0..<k}" unfolding k [symmetric] by (metis imageI insertI1)
    then have "{0..<6} \<subseteq> index0 ?D ` {1, 2, 3}" unfolding k by auto
    then have "card {0..<6::int} \<le> card (index0 ?D ` {1, 2, 3})" by (intro card_mono) auto
    moreover have "card (index0 ?D ` {1, 2, 3}) \<le> card {1, 2, 3 :: hash}" by (intro card_image_le) simp
    moreover have "card {1, 2, 3 :: hash} \<le> 3" by (simp add: card_insert_if)
    ultimately show False by simp
  qed
qed

end
