(* ===== verification/CommunityStore.thy ===== *)
theory CommunityStore
  imports Community SnapshotManager
begin

text \<open>
  Persistence of community assignments as notes (internal/community/persistence.go) and the
  daemon's incremental detection after an index run (runIncrementalCommunities of
  internal/daemon/daemon.go), over the store model. A Go map of assignments is ranged over in the
  order of its entries; a nil map is the empty one.
\<close>

section \<open>Persistence\<close>

definition NoteKey :: string where
  "NoteKey = ''community_id''"

definition assignment_note :: "int \<Rightarrow> hash \<times> int \<Rightarrow> graph_note" where
  "assignment_note now a =
     \<lparr>ObjectHash = fst a, Note_Key = NoteKey, Note_Value = decimal_int (snd a), UpdatedAt = now\<rparr>"

definition SaveAssignments :: "int \<Rightarrow> (hash, int) gomap \<Rightarrow> unit op" where
  "SaveAssignments now assignments = BatchPutNotes (map (assignment_note now) assignments)"

primrec delete_removed :: "hash list \<Rightarrow> unit op" where
  "delete_removed [] = ret ()"
| "delete_removed (h # hs) = bind_op (ignore_op (DeleteNote h NoteKey)) (\<lambda>_. delete_removed hs)"

definition SaveChangedAssignments :: "int \<Rightarrow> (hash, int) gomap \<Rightarrow> (hash, int) gomap \<Rightarrow> unit op" where
  "SaveChangedAssignments now current previous =
     (let changed = map (assignment_note now) (filter (\<lambda>(h, cid). map_of previous h \<noteq> Some cid) current) in
      bind_op (delete_removed (filter (\<lambda>h. map_of current h = None) (gokeys previous))) (\<lambda>_.
      if length changed = 0 then ret () else BatchPutNotes changed))"

fun load_rows :: "graph_note list \<Rightarrow> (hash, int) gomap \<Rightarrow> (hash, int) gomap" where
  "load_rows [] assignments = assignments"
| "load_rows (n # ns) assignments =
     (case strconv_Atoi (Note_Value n) of
        None \<Rightarrow> load_rows ns assignments
      | Some cid \<Rightarrow> load_rows ns (gomap_set (ObjectHash n) cid assignments))"

text \<open>No notes give a nil map, notes that are all corrupt an empty one.\<close>

definition LoadAssignments :: "(hash, int) gomap option op" where
  "LoadAssignments =
     bind_op (wrap_op ''loading community assignments'' (GetNotesByKey NoteKey)) (\<lambda>notes.
     if length notes = 0 then ret None else ret (Some (load_rows notes [])))"

section \<open>The daemon\<close>

definition add_neighbor :: "hash \<Rightarrow> WeightedEdge \<Rightarrow> (hash, WeightedEdge list) gomap \<Rightarrow> (hash, WeightedEdge list) gomap" where
  "add_neighbor h e adj = gomap_set h ((case map_of adj h of None \<Rightarrow> [] | Some es \<Rightarrow> es) @ [e]) adj"

definition add_undirected :: "hash set \<Rightarrow> hash \<Rightarrow> edge \<Rightarrow> (hash, WeightedEdge list) gomap \<times> nat \<Rightarrow> (hash, WeightedEdge list) gomap \<times> nat" where
  "add_undirected nodeSet h e = (\<lambda>(adj, edgeCount).
     if TargetHash e \<notin> nodeSet then (adj, edgeCount)
     else (add_neighbor (TargetHash e) \<lparr>WE_Target = h, WE_Weight = Confidence e\<rparr>
             (add_neighbor h \<lparr>WE_Target = TargetHash e, WE_Weight = Confidence e\<rparr> adj),
           edgeCount + 1))"

text \<open>A failing query skips its node.\<close>

primrec adjacency_loop ::
  "hash set \<Rightarrow> node list \<Rightarrow> (hash, WeightedEdge list) gomap \<times> nat \<Rightarrow> ((hash, WeightedEdge list) gomap \<times> nat) op" where
  "adjacency_loop nodeSet [] acc = ret acc"
| "adjacency_loop nodeSet (n # ns) acc = (\<lambda>s.
     case EdgesFrom (NodeHash n) '''' s of
       (Inl _, s) \<Rightarrow> adjacency_loop nodeSet ns acc s
     | (Inr edges, s) \<Rightarrow> adjacency_loop nodeSet ns (fold (add_undirected nodeSet (NodeHash n)) edges acc) s)"

definition changed_nodes :: "(hash, int) gomap option \<Rightarrow> string list \<Rightarrow> node list \<Rightarrow> hash set" where
  "changed_nodes previous changedPkgs nodes =
     (case previous of
        Some prev \<Rightarrow>
          if length changedPkgs > 0 then
            NodeHash ` {n \<in> set nodes. map_of prev (NodeHash n) = None \<or>
              (\<exists>pkg \<in> set changedPkgs. strings_HasPrefix (QualifiedName n) pkg)}
          else NodeHash ` set nodes
      | None \<Rightarrow> NodeHash ` set nodes)"

definition default_louvain :: Louvain where
  "default_louvain = \<lparr>Resolution = 1, MaxPasses = 20\<rparr>"

definition membership_of ::
  "range_order \<Rightarrow> Graph \<Rightarrow> (hash, int) gomap option \<Rightarrow> hash set \<Rightarrow> (hash, int) gomap" where
  "membership_of ro g previous changed =
     (if changed \<noteq> {} then
        Louvain_DetectIncremental ro default_louvain g (case previous of None \<Rightarrow> [] | Some m \<Rightarrow> m) changed
      else (case previous of Some m \<Rightarrow> m | None \<Rightarrow> Louvain_Detect ro default_louvain g))"

text \<open>The errors of loading and saving are dropped.\<close>

definition runIncrementalCommunities :: "range_order \<Rightarrow> int \<Rightarrow> string \<Rightarrow> string list \<Rightarrow> store \<Rightarrow> store" where
  "runIncrementalCommunities ro now repoURL changedPkgs s =
     (case NodesByName repoURL s of
        (Inl _, s) \<Rightarrow> s
      | (Inr nodes, s) \<Rightarrow>
          if length nodes = 0 then s
          else
            (let nodeSet = NodeHash ` set nodes in
             case adjacency_loop nodeSet (take 5000 nodes) ([], 0) s of
               (Inl _, s) \<Rightarrow> s
             | (Inr (adj, edgeCount), s) \<Rightarrow>
                 (let g = \<lparr>G_Nodes = map NodeHash nodes, G_Adj = adj, G_NodeSet = nodeSet, G_EdgeCount = edgeCount\<rparr> in
                  case LoadAssignments s of (loaded, s) \<Rightarrow>
                    (let previous = (case loaded of Inl _ \<Rightarrow> None | Inr p \<Rightarrow> p);
                         membership = membership_of ro g previous (changed_nodes previous changedPkgs nodes)
                     in case previous of
                          Some prev \<Rightarrow> snd (SaveChangedAssignments now membership prev s)
                        | None \<Rightarrow> snd (SaveAssignments now membership s)))))"

section \<open>Numbers as text\<close>

lemma digits_value_snoc: "digits_value (s @ [c]) = digits_value s * 10 + (int (of_char c) - 48)"
  by (simp add: digits_value_def)

lemma decimal_spec:
  "digits_value (decimal n) = int n \<and> list_all is_digit (decimal n) \<and> decimal n \<noteq> []"
proof (induction n rule: decimal.induct)
  case (1 n)
  show ?case
  proof (cases "n < 10")
    case True
    then show ?thesis by (simp add: decimal.simps [of n] digits_value_def is_digit_def)
  next
    case False
    have c: "(of_char (char_of (48 + n mod 10) :: char) :: nat) = 48 + n mod 10" by simp
    have "is_digit (char_of (48 + n mod 10))"
      using mod_less_divisor [of 10 n] unfolding is_digit_def Let_def c by simp
    moreover have "int (n div 10) * 10 + int (n mod 10) = int n" by presburger
    moreover from 1 [OF False] have "digits_value (decimal (n div 10)) = int (n div 10)"
      "list_all is_digit (decimal (n div 10))" by auto
    ultimately show ?thesis
      using False c by (simp add: decimal.simps [of n] digits_value_snoc)
  qed
qed

lemma Atoi_decimal_int:
  assumes "- (2 ^ 63) \<le> i" "i < 2 ^ 63"
  shows "strconv_Atoi (decimal_int i) = Some i"
proof -
  have hd: "hd (decimal n) \<noteq> CHR ''-''" "hd (decimal n) \<noteq> CHR ''+''" for n
  proof -
    have "is_digit (hd (decimal n))"
      using decimal_spec [of n] by (metis list.set_sel(1) list_all_iff)
    then show "hd (decimal n) \<noteq> CHR ''-''" "hd (decimal n) \<noteq> CHR ''+''" by (auto simp: is_digit_def)
  qed
  show ?thesis
    using assms hd decimal_spec [of "nat i"] decimal_spec [of "nat (- i)"]
    by (simp add: strconv_Atoi_def decimal_int_def Let_def)
qed

section \<open>The stored assignments\<close>

definition stored :: "db \<Rightarrow> hash \<Rightarrow> int option" where
  "stored d h = Option.bind (find_row note_key (h, NoteKey) (T_notes d)) (\<lambda>n. strconv_Atoi (Note_Value n))"

lemma put_notes_run:
  assumes "Faults s = []"
  shows "put_notes ns s = (Inr (), s\<lparr>DB := (DB s)\<lparr>T_notes := fold (upsert note_key) ns (T_notes (DB s))\<rparr>\<rparr>)"
  using assms
  by (induction ns arbitrary: s) (simp_all add: ret_def bind_op_def wrap_op_def PutNote_def exec_ok)

lemma BatchPutNotes_run:
  assumes "Faults s = []"
  shows "BatchPutNotes ns s = (Inr (), s\<lparr>DB := (DB s)\<lparr>T_notes := fold (upsert note_key) ns (T_notes (DB s))\<rparr>\<rparr>)"
  using assms
  by (simp add: BatchPutNotes_def transaction_def bind_op_def wrap_op_def exec_ok put_notes_run db_simps)

lemma find_row_fold_upsert:
  "find_row key k (fold (upsert key) rs t) =
    (case find_row key k (rev rs) of Some r \<Rightarrow> Some r | None \<Rightarrow> find_row key k t)"
proof (induction rs arbitrary: t)
  case (Cons r rs)
  have "find_row key k [r] = (if key r = k then Some r else None)" by (simp add: find_row_def)
  with Cons show ?case by (simp add: find_row_upsert find_row_append split: option.split)
qed simp

lemma find_row_assignments:
  assumes "gomap_ok m"
  shows "find_row note_key (h, NoteKey) (map (assignment_note now) m) =
      map_option (\<lambda>c. assignment_note now (h, c)) (map_of m h)"
  using assms
  by (induction m) (auto simp: find_row_def assignment_note_def note_key_def)

lemma gomap_ok_rev: "gomap_ok m \<Longrightarrow> gomap_ok (rev m) \<and> map_of (rev m) = map_of m"
  by (metis distinct_rev map_of_inject_set rev_map set_rev)

lemma stored_upserts:
  assumes "gomap_ok m" "\<forall>c \<in> snd ` set m. - (2 ^ 63) \<le> c \<and> c < 2 ^ 63"
  shows "stored (d\<lparr>T_notes := fold (upsert note_key) (map (assignment_note now) m) (T_notes d)\<rparr>) h =
    (case map_of m h of Some c \<Rightarrow> Some c | None \<Rightarrow> stored d h)"
proof -
  have f: "find_row note_key (h, NoteKey) (rev (map (assignment_note now) m)) =
      map_option (\<lambda>c. assignment_note now (h, c)) (map_of m h)"
    using find_row_assignments [of "rev m" h now] gomap_ok_rev [OF assms(1)] by (simp add: rev_map)
  have "strconv_Atoi (decimal_int c) = Some c" if "map_of m h = Some c" for c
    using that assms(2) by (intro Atoi_decimal_int) (auto dest!: map_of_SomeD)
  then show ?thesis
    by (cases "map_of m h") (simp_all add: stored_def find_row_fold_upsert f assignment_note_def)
qed

lemma delete_removed_run:
  assumes "Faults s = []"
  shows "delete_removed hs s = (Inr (), s\<lparr>DB := (DB s)\<lparr>T_notes :=
    filter (\<lambda>n. note_key n \<notin> (\<lambda>h. (h, NoteKey)) ` set hs) (T_notes (DB s))\<rparr>\<rparr>)"
  using assms
proof (induction hs arbitrary: s)
  case Nil
  then show ?case by (simp add: ret_def)
next
  case (Cons h hs)
  let ?s = "s\<lparr>DB := (DB s)\<lparr>T_notes := delete_key note_key (h, NoteKey) (T_notes (DB s))\<rparr>\<rparr>"
  have "delete_removed (h # hs) s = delete_removed hs ?s"
    using Cons.prems by (simp add: bind_op_def ignore_op_def DeleteNote_def exec_ok)
  also have "\<dots> = (Inr (), ?s\<lparr>DB := (DB ?s)\<lparr>T_notes :=
      filter (\<lambda>n. note_key n \<notin> (\<lambda>h. (h, NoteKey)) ` set hs) (T_notes (DB ?s))\<rparr>\<rparr>)"
    by (rule Cons.IH) (simp add: Cons.prems)
  finally show ?case
    by (simp add: delete_key_def delete_where_def conj_commute)
qed

lemma stored_deleted:
  "stored (d\<lparr>T_notes := filter (\<lambda>n. note_key n \<notin> (\<lambda>h. (h, NoteKey)) ` S) (T_notes d)\<rparr>) h =
    (if h \<in> S then None else stored d h)"
proof (cases "h \<in> S")
  case True
  then have "find_row note_key (h, NoteKey) (filter (\<lambda>n. note_key n \<notin> (\<lambda>h. (h, NoteKey)) ` S) (T_notes d)) = None"
    by (auto simp: find_row_None_iff) (metis imageI)
  with True show ?thesis by (simp add: stored_def)
next
  case False
  then have "find_row note_key (h, NoteKey) (filter (\<lambda>n. note_key n \<notin> (\<lambda>h. (h, NoteKey)) ` S) (T_notes d)) =
      find_row note_key (h, NoteKey) (T_notes d)"
    by (intro find_row_filter_other) auto
  with False show ?thesis by (simp add: stored_def)
qed

lemma load_rows_spec:
  assumes "distinct (map ObjectHash ns)" "gomap_ok m"
  shows "gomap_ok (load_rows ns m) \<and> map_of (load_rows ns m) h =
    (case Option.bind (find_row ObjectHash h ns) (\<lambda>n. strconv_Atoi (Note_Value n)) of
       Some c \<Rightarrow> Some c | None \<Rightarrow> map_of m h)"
  using assms
proof (induction ns arbitrary: m)
  case (Cons n ns)
  have out: "find_row ObjectHash (ObjectHash n) ns = None"
    using Cons.prems(1) by (auto simp: find_row_None_iff)
  have cons: "find_row ObjectHash h (n # ns) = (if ObjectHash n = h then Some n else find_row ObjectHash h ns)"
    by (simp add: find_row_def)
  from Cons out show ?case by (cases "strconv_Atoi (Note_Value n)") (auto simp: cons split: option.split)
qed simp

lemma LoadAssignments_stored:
  assumes "db_ok (DB s)" "LoadAssignments s = (Inr r, s')"
  shows "DB s' = DB s" and "r = Some m \<Longrightarrow> gomap_ok m \<and> map_of m = stored (DB s)" and "r = None \<Longrightarrow> stored (DB s) h = None"
proof -
  let ?ns = "sort_key ObjectHash (filter (\<lambda>n. Note_Key n = NoteKey) (T_notes (DB s)))"
  have "acts LoadAssignments (\<lambda>d. case (sort_key ObjectHash (filter (\<lambda>n. Note_Key n = NoteKey) (T_notes d)), d) of
      (notes, d') \<Rightarrow> (if length notes = 0 then None else Some (load_rows notes []), d'))"
    unfolding LoadAssignments_def GetNotesByKey_def
    by (intro acts_bind acts_wrap acts_query) (auto simp: acts_def ret_def)
  note e = actsD [OF this assms(2), unfolded prod.case prod.inject]
  have r: "r = (if length ?ns = 0 then None else Some (load_rows ?ns []))"
    and db: "DB s' = DB s" by (rule conjunct1 [OF e, symmetric], rule conjunct2 [OF e, symmetric])
  show "DB s' = DB s" by (rule db)
  have d: "distinct (map note_key (T_notes (DB s)))"
    using assms(1) by (simp add: db_ok_def primary_key_def)
  have dist: "distinct (map ObjectHash ?ns)"
  proof -
    have "distinct (map note_key (filter (\<lambda>n. Note_Key n = NoteKey) (T_notes (DB s))))"
      using d by (simp add: distinct_map_filter)
    moreover have "map note_key (filter (\<lambda>n. Note_Key n = NoteKey) (T_notes (DB s))) =
        map (\<lambda>n. (ObjectHash n, NoteKey)) (filter (\<lambda>n. Note_Key n = NoteKey) (T_notes (DB s)))"
      by (rule map_cong) (auto simp: note_key_def)
    ultimately have "distinct (map ObjectHash (filter (\<lambda>n. Note_Key n = NoteKey) (T_notes (DB s))))"
      by (auto simp: distinct_map inj_on_def)
    then show ?thesis by (metis distinct_map distinct_sort set_sort)
  qed
  have find: "find_row ObjectHash h ?ns = find_row note_key (h, NoteKey) (T_notes (DB s))" for h
  proof -
    have "find_row ObjectHash h ?ns = Some n \<longleftrightarrow> find_row note_key (h, NoteKey) (T_notes (DB s)) = Some n" for n
      using find_row_in [of ObjectHash ?ns h n] find_row_in [of note_key "T_notes (DB s)" "(h, NoteKey)" n] d dist
      by (auto simp: primary_key_def note_key_def)
    then show ?thesis by (metis option.exhaust)
  qed
  from load_rows_spec [OF dist, of "[]"] find
  show "gomap_ok m \<and> map_of m = stored (DB s)" if "r = Some m"
    using that r by (auto simp: stored_def fun_eq_iff split: if_splits option.splits)
  show "stored (DB s) h = None" if "r = None"
  proof -
    from that r have "length ?ns = 0" by (metis option.distinct(1))
    then have "?ns = []" by (simp only: length_0_conv)
    then have "find_row ObjectHash h ?ns = None" by simp
    then show ?thesis using find [of h] by (simp add: stored_def)
  qed
qed

lemma SaveChangedAssignments_stored:
  assumes "Faults s = []" "gomap_ok current" "\<forall>c \<in> snd ` set current. - (2 ^ 63) \<le> c \<and> c < 2 ^ 63"
    and "map_of previous = stored (DB s)"
  shows "fst (SaveChangedAssignments now current previous s) = Inr ()"
    and "stored (DB (snd (SaveChangedAssignments now current previous s))) = map_of current"
proof -
  let ?gone = "filter (\<lambda>h. map_of current h = None) (gokeys previous)"
  let ?new = "filter (\<lambda>(h, cid). map_of previous h \<noteq> Some cid) current"
  let ?notes = "filter (\<lambda>n. note_key n \<notin> (\<lambda>h. (h, NoteKey)) ` set ?gone) (T_notes (DB s))"
  let ?s1 = "s\<lparr>DB := (DB s)\<lparr>T_notes := ?notes\<rparr>\<rparr>"
  have new: "gomap_ok ?new" "\<forall>c \<in> snd ` set ?new. - (2 ^ 63) \<le> c \<and> c < 2 ^ 63"
    using assms(2,3) by (auto simp: distinct_map_filter)
  have run: "SaveChangedAssignments now current previous s =
      (Inr (), ?s1\<lparr>DB := (DB ?s1)\<lparr>T_notes := fold (upsert note_key) (map (assignment_note now) ?new) (T_notes (DB ?s1))\<rparr>\<rparr>)"
    using BatchPutNotes_run [of ?s1] assms(1)
    by (simp add: SaveChangedAssignments_def bind_op_def delete_removed_run ret_def)
  then show "fst (SaveChangedAssignments now current previous s) = Inr ()" by simp
  have new_of: "map_of ?new h = (case map_of current h of Some c \<Rightarrow> if map_of previous h = Some c then None else Some c
      | None \<Rightarrow> None)" for h
    using assms(2) by (induction current) (auto split: option.splits simp: map_of_eq_None_iff)
  have s1: "stored (DB ?s1) h = (if h \<in> set ?gone then None else map_of previous h)" for h
    unfolding assms(4) using stored_deleted [where S = "set ?gone" and h = h and d = "DB s"] by simp
  have out: "stored (DB (snd (SaveChangedAssignments now current previous s))) h =
      (case map_of ?new h of Some c \<Rightarrow> Some c | None \<Rightarrow> stored (DB ?s1) h)" for h
    unfolding run using stored_upserts [OF new, where d = "DB ?s1" and now = now and h = h] by simp
  have "stored (DB (snd (SaveChangedAssignments now current previous s))) h = map_of current h" for h
  proof (cases "map_of current h")
    case None
    then have "map_of ?new h = None" by (simp add: new_of)
    moreover have "h \<in> set ?gone \<or> map_of previous h = None"
      using None map_of_eq_None_iff [of previous h] by auto
    ultimately show ?thesis unfolding out s1 None by auto
  next
    case (Some c)
    then have "h \<notin> set ?gone" by simp
    with Some show ?thesis unfolding out s1 new_of by simp
  qed
  then show "stored (DB (snd (SaveChangedAssignments now current previous s))) = map_of current" by blast
qed

section \<open>Properties\<close>


definition community_db :: db where
  "community_db = empty_db\<lparr>T_notes := [assignment_note 0 (9, 4)]\<rparr>"


lemma adjacency_loop_run:
  assumes "Faults s = []"
  shows "\<exists>acc'. adjacency_loop nodeSet ns acc s = (Inr acc', s)"
  using assms
  by (induction ns arbitrary: acc) (auto simp: ret_def EdgesFrom_def db_simps)

lemma incremental_keys:
  assumes "distinct (G_Nodes g)" "gomap_ok previous" "previous \<noteq> []"
  shows "fst ` set (Louvain_DetectIncremental ro l g previous changed) = set (G_Nodes g)"
  using assms seed_communities_spec(2) [OF assms(2), of "G_Nodes g"]
  by (simp add: Louvain_DetectIncremental_def Let_def renumber_spec(3) louvain_optimise_keys)

lemma incremental_range:
  assumes "distinct (G_Nodes g)" "gomap_ok previous" "previous \<noteq> []"
    and "c \<in> snd ` set (Louvain_DetectIncremental ro l g previous changed)"
  shows "0 \<le> c \<and> c < int (length (G_Nodes g))"
proof -
  let ?m = "Louvain_DetectIncremental ro l g previous changed"
  from assms(4) obtain k where k: "(k, c) \<in> set ?m" by force
  then have "k \<in> fst ` set ?m" by force
  then have "c \<in> index0 ?m ` set (G_Nodes g)"
    using index0_in [OF gomap_ok_detect(2) k] incremental_keys [OF assms(1-3)] by blast
  moreover obtain comm where "?m = renumber (G_Nodes g) comm"
    using assms(3) unfolding Louvain_DetectIncremental_def Let_def by (metis length_0_conv)
  ultimately have "c \<in> {0..<int (card (index0 comm ` set (G_Nodes g)))}"
    using renumber_spec(1) [OF assms(1)] by simp
  moreover have "card (index0 comm ` set (G_Nodes g)) \<le> length (G_Nodes g)"
    by (meson card_image_le card_length finite_set le_trans)
  ultimately show ?thesis by auto
qed

text \<open>
  The assignments of all repositories are notes under one key, and the daemon compares the map
  it loads, with every repository in it, against the nodes of the repository it has indexed. When
  some node counts as changed, the delta save therefore deletes the assignment of every node that
  does not belong to that repository.
\<close>

lemma communities_of_other_repositories_lost:
  assumes ok: "db_ok (DB s)" and f: "Faults s = []"
    and nodes: "NodesByName repoURL s = (Inr nodes, s)" "nodes \<noteq> []"
    and loaded: "LoadAssignments s = (Inr (Some previous), s)"
    and changed: "changed_nodes (Some previous) changedPkgs nodes \<noteq> {}"
    and other: "h \<notin> NodeHash ` set nodes" "map_of previous h = Some c"
    and small: "length nodes < 2 ^ 63"
  shows "stored (DB s) h = Some c \<and> stored (DB (runIncrementalCommunities ro now repoURL changedPkgs s)) h = None"
proof
  note prev = LoadAssignments_stored(2) [OF ok loaded refl]
  then show "stored (DB s) h = Some c" using other(2) by metis
  obtain adj n where a: "adjacency_loop (NodeHash ` set nodes) (take 5000 nodes) ([], 0) s = (Inr (adj, n), s)"
    using adjacency_loop_run [OF f] by (metis surj_pair)
  let ?g = "\<lparr>G_Nodes = map NodeHash nodes, G_Adj = adj, G_NodeSet = NodeHash ` set nodes, G_EdgeCount = n\<rparr>"
  let ?m = "membership_of ro ?g (Some previous) (changed_nodes (Some previous) changedPkgs nodes)"
  have run: "runIncrementalCommunities ro now repoURL changedPkgs s = snd (SaveChangedAssignments now ?m previous s)"
    using nodes a loaded by (simp add: runIncrementalCommunities_def Let_def)
  have dist: "distinct (map NodeHash nodes)"
  proof -
    have "nodes = sort_key QualifiedName (nodes_where (\<lambda>r. sql_like (repoURL @ ''%'') (QualifiedName r)) (DB s))"
      using nodes(1) f by (simp add: NodesByName_def db_simps)
    moreover have "distinct (map NodeHash (nodes_where P (DB s)))" for P
    proof -
      have "map NodeHash (nodes_where P (DB s)) = map NodeHash (filter P (T_nodes (DB s)))"
        by (simp add: nodes_where_def scanNode_def node.defs comp_def)
      then show ?thesis using ok by (simp add: db_ok_def primary_key_def distinct_map_filter)
    qed
    ultimately show ?thesis by (metis distinct_map distinct_sort set_sort)
  qed
  have m: "?m = Louvain_DetectIncremental ro default_louvain ?g previous (changed_nodes (Some previous) changedPkgs nodes)"
    using changed by (simp add: membership_of_def)
  have "previous \<noteq> []" using other(2) by auto
  with incremental_keys [of ?g previous] dist prev have keys: "fst ` set ?m = NodeHash ` set nodes"
    unfolding m by simp
  have mok: "gomap_ok ?m" unfolding m by (rule gomap_ok_detect)
  have range: "\<forall>c \<in> snd ` set ?m. - (2 ^ 63) \<le> c \<and> c < 2 ^ 63"
  proof
    fix c
    assume "c \<in> snd ` set ?m"
    then have "0 \<le> c \<and> c < int (length nodes)"
      using incremental_range [of ?g previous c ro default_louvain] dist prev \<open>previous \<noteq> []\<close> unfolding m by simp
    with small show "- (2 ^ 63) \<le> c \<and> c < 2 ^ 63" by simp
  qed
  from keys have "map_of ?m h = None" using other(1) by (simp add: map_of_eq_None_iff)
  moreover have "stored (DB (snd (SaveChangedAssignments now ?m previous s))) = map_of ?m"
    by (rule SaveChangedAssignments_stored(2) [OF f mok range]) (use prev in simp)
  ultimately show "stored (DB (runIncrementalCommunities ro now repoURL changedPkgs s)) h = None"
    unfolding run by simp
qed

definition one_repo_db :: db where
  "one_repo_db = community_db\<lparr>T_nodes :=
     [node.extend \<lparr>NodeHash = 1, Node_FileHash = 0, QualifiedName = ''r://a.F'', Kind = ''function'', Line = 1,
        Signature = '''', Doc = '''', LastAuthor = '''', LastCommitAt = 0, CoveragePct = 0\<rparr> (node_row.fields 0)]\<rparr>"

lemma communities_of_other_repositories_lost_witness:
  "stored one_repo_db 9 = Some 4 \<and>
   stored (DB (runIncrementalCommunities id 5 ''r://'' [] (open_store one_repo_db []))) 9 = None"
proof -
  let ?s = "open_store one_repo_db []"
  let ?nodes = "map scanNode (T_nodes one_repo_db)"
  have db: "DB ?s = one_repo_db" and f: "Faults ?s = []" by (simp_all add: open_store_def)
  have ok: "db_ok (DB ?s)"
    by (simp add: open_store_def one_repo_db_def community_db_def db_ok_def empty_db_def primary_key_def)
  have nodes: "NodesByName ''r://'' ?s = (Inr ?nodes, ?s)" "?nodes \<noteq> []"
    using f by (simp_all add: NodesByName_def db_simps db nodes_where_def one_repo_db_def node.defs
        scanNode_def node_row.defs sql_like.simps char_lower_def)
  have loaded: "LoadAssignments ?s = (Inr (Some [(9, 4)]), ?s)"
  proof -
    have "strconv_Atoi (decimal_int 4) = Some 4" by (rule Atoi_decimal_int) simp_all
    then show ?thesis
      using f by (simp add: LoadAssignments_def GetNotesByKey_def bind_op_def wrap_op_def db_simps db one_repo_db_def
          community_db_def assignment_note_def)
  qed
  have "changed_nodes (Some [(9, 4)]) [] ?nodes \<noteq> {}" using nodes(2) by (simp add: changed_nodes_def)
  moreover have "(9 :: hash) \<notin> NodeHash ` set ?nodes" "length ?nodes < 2 ^ 63"
    by (simp_all add: one_repo_db_def scanNode_def node.defs)
  ultimately show ?thesis
    using communities_of_other_repositories_lost [OF ok f nodes loaded, of "[]" 9 4 id 5] db by simp
qed

end
