(* ===== verification/GraphDiff.thy ===== *)
theory GraphDiff
  imports GraphTraversal
begin

text \<open>
  internal/diff: SemanticDiff (semantic.go), which names the edges of a snapshot diff and groups
  them by their source node, and PRImpact (impact.go), which adds the blast radius of every changed
  symbol. The orders in which Go visits the two maps (edge changes by source node, callers by
  repository) are the parameters \<open>range_src\<close> and \<open>range_repo\<close>.
\<close>

section \<open>Results\<close>

record NodeChange =
  NC_QualifiedName :: string
  NC_Kind :: string
  NC_File :: string
  NC_Line :: int
  NC_Signature :: string
  NC_NodeHash :: string

record EdgeChange =
  SourceName :: string
  TargetName :: string
  EC_EdgeType :: string
  EC_Confidence :: float64
  EC_Provenance :: string

record NodeModification =
  NM_QualifiedName :: string
  NM_Kind :: string
  NM_EdgesAdded :: "EdgeChange list"
  NM_EdgesRemoved :: "EdgeChange list"

record DiffSummary =
  DS_NodesAdded :: nat
  DS_NodesRemoved :: nat
  DS_NodesModified :: nat
  DS_EdgesAdded :: nat
  DS_EdgesRemoved :: nat

record SemanticDiffResult =
  SD_OldSnapshot :: string
  SD_NewSnapshot :: string
  SD_NodesAdded :: "NodeChange list"
  SD_NodesRemoved :: "NodeChange list"
  SD_NodesModified :: "NodeModification list"
  SD_EdgesAdded :: "EdgeChange list"
  SD_EdgesRemoved :: "EdgeChange list"
  SD_Summary :: DiffSummary

definition nodeToChange :: "node \<Rightarrow> NodeChange" where
  "nodeToChange n = \<lparr>NC_QualifiedName = QualifiedName n, NC_Kind = Kind n, NC_File = '''', NC_Line = Line n,
     NC_Signature = Signature n, NC_NodeHash = hex_EncodeToString (hash_bytes (NodeHash n))\<rparr>"

section \<open>Semantic diff\<close>

text \<open>The name stays empty when the lookup fails or finds nothing.\<close>

definition node_name :: "hash \<Rightarrow> string op" where
  "node_name h s = (case GetNode h s of
     (Inr (Some n), s) \<Rightarrow> (Inr (QualifiedName n), s) | (_, s) \<Rightarrow> (Inr '''', s))"

definition enrichEdge :: "edge \<Rightarrow> EdgeChange op" where
  "enrichEdge e =
     bind_op (node_name (SourceHash e)) (\<lambda>src.
     bind_op (node_name (TargetHash e)) (\<lambda>tgt.
     ret \<lparr>SourceName = src, TargetName = tgt, EC_EdgeType = EdgeType e,
          EC_Confidence = Confidence e, EC_Provenance = Provenance e\<rparr>))"

record edgeChanges =
  added :: "EdgeChange list"
  removed :: "EdgeChange list"

definition no_changes :: edgeChanges where
  "no_changes = \<lparr>added = [], removed = []\<rparr>"

definition note_added :: "EdgeChange \<Rightarrow> edgeChanges \<Rightarrow> edgeChanges" where
  "note_added ec c = c\<lparr>added := added c @ [ec]\<rparr>"

definition note_removed :: "EdgeChange \<Rightarrow> edgeChanges \<Rightarrow> edgeChanges" where
  "note_removed ec c = c\<lparr>removed := removed c @ [ec]\<rparr>"

definition group_change :: "(EdgeChange \<Rightarrow> edgeChanges \<Rightarrow> edgeChanges) \<Rightarrow> hash \<Rightarrow> EdgeChange \<Rightarrow>
    (hash, edgeChanges) gomap \<Rightarrow> (hash, edgeChanges) gomap" where
  "group_change add h ec m =
     gomap_set h (add ec (case map_of m h of Some c \<Rightarrow> c | None \<Rightarrow> no_changes)) m"

text \<open>The loops over EdgesAdded and EdgesRemoved; \<open>skip\<close> are the added and removed nodes.\<close>

fun change_loop :: "(EdgeChange \<Rightarrow> edgeChanges \<Rightarrow> edgeChanges) \<Rightarrow> hash set \<Rightarrow> edge list \<Rightarrow>
    EdgeChange list \<Rightarrow> (hash, edgeChanges) gomap \<Rightarrow> (EdgeChange list \<times> (hash, edgeChanges) gomap) op" where
  "change_loop add skip [] out m = ret (out, m)"
| "change_loop add skip (e # es) out m =
     bind_op (enrichEdge e) (\<lambda>ec. change_loop add skip es (out @ [ec])
       (if SourceHash e \<in> skip then m else group_change add (SourceHash e) ec m))"

definition modification :: "hash \<times> edgeChanges \<Rightarrow> NodeModification op" where
  "modification p =
     bind_op (GetNode (fst p)) (\<lambda>node.
     ret \<lparr>NM_QualifiedName = (case node of Some n \<Rightarrow> QualifiedName n | None \<Rightarrow> ''''),
          NM_Kind = (case node of Some n \<Rightarrow> Kind n | None \<Rightarrow> ''''),
          NM_EdgesAdded = added (snd p), NM_EdgesRemoved = removed (snd p)\<rparr>)"

type_synonym range_src = "(hash, edgeChanges) gomap \<Rightarrow> (hash \<times> edgeChanges) list"

definition SemanticDiff :: "range_src \<Rightarrow> hash \<Rightarrow> hash \<Rightarrow> SemanticDiffResult op" where
  "SemanticDiff range_src oldSnapshot newSnapshot =
     bind_op (SnapshotDiff oldSnapshot newSnapshot) (\<lambda>diff.
     let skip = NodeHash ` set (NodesAdded diff @ NodesRemoved diff) in
     bind_op (change_loop note_added skip (EdgesAdded diff) [] []) (\<lambda>(ins, m).
     bind_op (change_loop note_removed skip (EdgesRemoved diff) [] m) (\<lambda>(del, m).
     bind_op (map_op modification (range_src m)) (\<lambda>mods.
     ret \<lparr>SD_OldSnapshot = Hash_String oldSnapshot, SD_NewSnapshot = Hash_String newSnapshot,
          SD_NodesAdded = map nodeToChange (NodesAdded diff), SD_NodesRemoved = map nodeToChange (NodesRemoved diff),
          SD_NodesModified = mods, SD_EdgesAdded = ins, SD_EdgesRemoved = del,
          SD_Summary = \<lparr>DS_NodesAdded = length (NodesAdded diff), DS_NodesRemoved = length (NodesRemoved diff),
            DS_NodesModified = length mods, DS_EdgesAdded = length ins, DS_EdgesRemoved = length del\<rparr>\<rparr>))))"

section \<open>Impact of a change\<close>

record SymbolImpact =
  Symbol :: NodeChange
  ChangeType :: string
  Callers :: "NodeChange list"
  Callees :: "NodeChange list"
  CallerCount :: nat
  CalleeCount :: nat

record ImpactSummary =
  TotalSymbolsChanged :: nat
  TotalCallersAffected :: nat
  TotalCalleesAffected :: nat
  RiskLevel :: string

record PRImpactResult =
  PR_OldSnapshot :: string
  PR_NewSnapshot :: string
  ChangedSymbols :: "SymbolImpact list"
  AffectedEdges :: "EdgeChange list"
  PR_Summary :: ImpactSummary

definition parseHash :: "string \<Rightarrow> go_error + hash" where
  "parseHash s =
     (case hex_DecodeString s of
        Inl _ \<Rightarrow> Inl (Wrap ''decode hash'' (Errorf ''encoding/hex''))
      | Inr b \<Rightarrow> if length b \<noteq> 32 then Inl (Errorf ''hash has wrong length'') else Inr (copy_hash b))"

definition riskLevel :: "nat \<Rightarrow> string" where
  "riskLevel totalCallers =
     (if totalCallers > 20 then ''high'' else if totalCallers > 5 then ''medium'' else ''low'')"

text \<open>
  The loops append one impact per symbol and record the hashes of callers and callees in two sets,
  here lists without duplicates.
\<close>

record impact_acc =
  changed :: "SymbolImpact list"
  uniqueCallers :: "string list"
  uniqueCallees :: "string list"

definition new_impact :: "NodeChange \<Rightarrow> string \<Rightarrow> SymbolImpact" where
  "new_impact nc changeType = \<lparr>Symbol = nc, ChangeType = changeType, Callers = [], Callees = [],
     CallerCount = 0, CalleeCount = 0\<rparr>"

definition note_hashes :: "NodeChange list \<Rightarrow> string list \<Rightarrow> string list" where
  "note_hashes cs seen = fold (\<lambda>c. List.insert (NC_NodeHash c)) cs seen"

type_synonym range_repo = "(string, CallerWithProvenance list) gomap \<Rightarrow> (string \<times> CallerWithProvenance list) list"

definition caller_changes :: "range_repo \<Rightarrow> BlastRadiusResult \<Rightarrow> NodeChange list" where
  "caller_changes range_repo br =
     concat (map (\<lambda>(repo, callers). map (\<lambda>c. nodeToChange (Caller c)) callers) (range_repo (ByRepo br)))"

definition with_callees :: "string \<Rightarrow> hash \<Rightarrow> hash \<Rightarrow> SymbolImpact \<Rightarrow> impact_acc \<Rightarrow> impact_acc op" where
  "with_callees msg nodeHash snap impact acc =
     bind_op (wrap_op msg (TransitiveCallees nodeHash 3 snap)) (\<lambda>callees.
     let changes = map (\<lambda>c. nodeToChange (CE_Node c)) callees;
         impact = impact\<lparr>Callees := changes, CallerCount := length (Callers impact), CalleeCount := length changes\<rparr>
     in ret (acc\<lparr>changed := changed acc @ [impact], uniqueCallees := note_hashes changes (uniqueCallees acc)\<rparr>))"

definition with_callers :: "range_repo \<Rightarrow> string \<Rightarrow> string \<Rightarrow> hash \<Rightarrow> hash \<Rightarrow> SymbolImpact \<Rightarrow> impact_acc \<Rightarrow> impact_acc op" where
  "with_callers range_repo msg msg' nodeHash snap impact acc =
     bind_op (wrap_op msg (BlastRadius nodeHash snap)) (\<lambda>br.
     let changes = caller_changes range_repo br in
     with_callees msg' nodeHash snap (impact\<lparr>Callers := changes\<rparr>)
       (acc\<lparr>uniqueCallers := note_hashes changes (uniqueCallers acc)\<rparr>))"

definition removed_symbol :: "range_repo \<Rightarrow> hash \<Rightarrow> NodeChange \<Rightarrow> impact_acc \<Rightarrow> impact_acc op" where
  "removed_symbol range_repo oldSnapshot nc acc =
     (case parseHash (NC_NodeHash nc) of
        Inl e \<Rightarrow> fail_op (Wrap ''parse removed node hash'' e)
      | Inr h \<Rightarrow> with_callers range_repo (''blast radius for removed '' @ NC_QualifiedName nc)
                 (''callees for removed '' @ NC_QualifiedName nc) h oldSnapshot (new_impact nc ''removed'') acc)"

definition added_symbol :: "hash \<Rightarrow> NodeChange \<Rightarrow> impact_acc \<Rightarrow> impact_acc op" where
  "added_symbol newSnapshot nc acc =
     (case parseHash (NC_NodeHash nc) of
        Inl e \<Rightarrow> fail_op (Wrap ''parse added node hash'' e)
      | Inr h \<Rightarrow> with_callees (''callees for added '' @ NC_QualifiedName nc) h newSnapshot (new_impact nc ''added'') acc)"

definition modified_symbol :: "range_repo \<Rightarrow> hash \<Rightarrow> NodeModification \<Rightarrow> impact_acc \<Rightarrow> impact_acc op" where
  "modified_symbol range_repo newSnapshot md acc =
     bind_op (wrap_op (''lookup modified node '' @ NM_QualifiedName md) (NodesByQualifiedName (NM_QualifiedName md))) (\<lambda>nodes.
     case nodes of
       [] \<Rightarrow> ret acc
     | node # _ \<Rightarrow> with_callers range_repo (''blast radius for modified '' @ NM_QualifiedName md)
         (''callees for modified '' @ NM_QualifiedName md) (NodeHash node) newSnapshot
         (new_impact (nodeToChange node) ''modified'') acc)"

fun impact_loop :: "('x \<Rightarrow> impact_acc \<Rightarrow> impact_acc op) \<Rightarrow> 'x list \<Rightarrow> impact_acc \<Rightarrow> impact_acc op" where
  "impact_loop f [] acc = ret acc"
| "impact_loop f (x # xs) acc = bind_op (f x acc) (impact_loop f xs)"

definition PRImpact :: "range_src \<Rightarrow> range_repo \<Rightarrow> hash \<Rightarrow> hash \<Rightarrow> PRImpactResult op" where
  "PRImpact range_src range_repo oldSnapshot newSnapshot =
     bind_op (wrap_op ''semantic diff'' (SemanticDiff range_src oldSnapshot newSnapshot)) (\<lambda>sdiff.
     bind_op (impact_loop (removed_symbol range_repo oldSnapshot) (SD_NodesRemoved sdiff)
       \<lparr>changed = [], uniqueCallers = [], uniqueCallees = []\<rparr>) (\<lambda>acc.
     bind_op (impact_loop (added_symbol newSnapshot) (SD_NodesAdded sdiff) acc) (\<lambda>acc.
     bind_op (impact_loop (modified_symbol range_repo newSnapshot) (SD_NodesModified sdiff) acc) (\<lambda>acc.
     ret \<lparr>PR_OldSnapshot = Hash_String oldSnapshot, PR_NewSnapshot = Hash_String newSnapshot,
          ChangedSymbols = changed acc, AffectedEdges = SD_EdgesAdded sdiff @ SD_EdgesRemoved sdiff,
          PR_Summary = \<lparr>TotalSymbolsChanged = length (changed acc),
            TotalCallersAffected = length (uniqueCallers acc), TotalCalleesAffected = length (uniqueCallees acc),
            RiskLevel = riskLevel (length (uniqueCallers acc))\<rparr>\<rparr>))))"

section \<open>Reading operations\<close>

text \<open>
  On a store without faults whose node cache agrees with its database, an operation that only reads
  has one result, whatever the cache holds: \<open>reads d m x\<close>.
\<close>

definition node_at :: "db \<Rightarrow> hash \<Rightarrow> node option" where
  "node_at d h = map_option scanNode (find_row NodeHash h (T_nodes d))"

definition clean :: "db \<Rightarrow> store \<Rightarrow> bool" where
  "clean d s \<longleftrightarrow> Faults s = [] \<and> DB s = d \<and> (\<forall>h n. nodeCache s h = Some n \<longrightarrow> node_at d h = Some n)"

definition reads :: "db \<Rightarrow> 'a op \<Rightarrow> 'a \<Rightarrow> bool" where
  "reads d m x \<longleftrightarrow> (\<forall>s. clean d s \<longrightarrow> (\<exists>s'. m s = (Inr x, s') \<and> clean d s'))"

named_theorems reads_intro "results of reading operations"

lemma clean_open_store [simp]: "clean d (open_store d [])"
  by (simp add: clean_def open_store_def)

lemma readsD: "reads d m x \<Longrightarrow> clean d s \<Longrightarrow> \<exists>s'. m s = (Inr x, s') \<and> clean d s'"
  by (simp add: reads_def)

lemma reads_ret [reads_intro]: "reads d (ret x) x"
  by (simp add: reads_def ret_def)

lemma reads_ret_eq: "x = y \<Longrightarrow> reads d (ret x) y"
  by (simp add: reads_ret)

lemma reads_query [reads_intro]: "reads d (query_sql f) (f d)"
  by (simp add: reads_def clean_def db_simps)

lemma reads_bind [reads_intro]: "reads d m x \<Longrightarrow> reads d (f x) y \<Longrightarrow> reads d (bind_op m f) y"
  unfolding reads_def bind_op_def by (metis (no_types, lifting) old.prod.case old.sum.simps(6))

lemma reads_wrap [reads_intro]: "reads d m x \<Longrightarrow> reads d (wrap_op msg m) x"
  unfolding reads_def wrap_op_def by fastforce

lemma reads_map_op [reads_intro]: "(\<And>x. reads d (f x) (g x)) \<Longrightarrow> reads d (map_op f xs) (map g xs)"
proof (induction xs)
  case (Cons x xs)
  show ?case unfolding map_op.simps list.map
    by (rule reads_bind [OF Cons.prems], rule reads_bind [OF Cons.IH [OF Cons.prems]], rule reads_ret)
qed (simp add: reads_ret)

lemma reads_GetNode [reads_intro]: "reads d (GetNode h) (node_at d h)"
  unfolding reads_def
proof (intro allI impI)
  fix s assume s: "clean d s"
  show "\<exists>s'. GetNode h s = (Inr (node_at d h), s') \<and> clean d s'"
  proof (cases "nodeCache s h")
    case (Some n)
    with s show ?thesis by (auto simp: GetNode_def clean_def)
  next
    case None
    from s have "query_sql (\<lambda>d. map_option scanNode (find_row NodeHash h (T_nodes d))) s = (Inr (node_at d h), s)"
      by (simp add: clean_def db_simps node_at_def)
    with None s show ?thesis
      by (cases "node_at d h") (auto simp: GetNode_def clean_def cache_node_def Let_def split: if_splits)
  qed
qed

definition name_at :: "db \<Rightarrow> hash \<Rightarrow> string" where
  "name_at d h = (case node_at d h of Some n \<Rightarrow> QualifiedName n | None \<Rightarrow> '''')"

lemma reads_node_name [reads_intro]: "reads d (node_name h) (name_at d h)"
  using reads_GetNode [of d h] unfolding reads_def node_name_def name_at_def
  by (fastforce split: option.splits)

lemma reads_TransitiveCallers [reads_intro]:
  "reads d (TransitiveCallers t m snap) (map (\<lambda>(n, dep). \<lparr>CR_Node = n, Depth = dep\<rparr>)
     (order_rows (traversal_rows (calls_into d) d t m)))"
  unfolding TransitiveCallers_def by (rule reads_query)

lemma reads_TransitiveCallees [reads_intro]:
  "reads d (TransitiveCallees t m snap) (map (\<lambda>(n, dep). \<lparr>CE_Node = n, CE_Depth = dep\<rparr>)
     (order_rows (traversal_rows (calls_from d) d t m)))"
  unfolding TransitiveCallees_def by (rule reads_query)

section \<open>What the semantic diff reports\<close>

definition edge_change :: "db \<Rightarrow> edge \<Rightarrow> EdgeChange" where
  "edge_change d e = \<lparr>SourceName = name_at d (SourceHash e), TargetName = name_at d (TargetHash e),
     EC_EdgeType = EdgeType e, EC_Confidence = Confidence e, EC_Provenance = Provenance e\<rparr>"

lemma reads_enrichEdge [reads_intro]: "reads d (enrichEdge e) (edge_change d e)"
  unfolding enrichEdge_def edge_change_def by (rule reads_intro)+

abbreviation changes_of :: "(hash, edgeChanges) gomap \<Rightarrow> hash \<Rightarrow> edgeChanges" where
  "changes_of m h \<equiv> (case map_of m h of Some c \<Rightarrow> c | None \<Rightarrow> no_changes)"

definition group_all :: "db \<Rightarrow> (EdgeChange \<Rightarrow> edgeChanges \<Rightarrow> edgeChanges) \<Rightarrow> edge list \<Rightarrow>
    (hash, edgeChanges) gomap \<Rightarrow> (hash, edgeChanges) gomap" where
  "group_all d add es m = fold (\<lambda>e. group_change add (SourceHash e) (edge_change d e)) es m"

lemma reads_change_loop:
  "reads d (change_loop add {} es out m) (out @ map (edge_change d) es, group_all d add es m)"
proof (induction es arbitrary: out m)
  case (Cons e es)
  show ?case unfolding change_loop.simps
    by (rule reads_bind [OF reads_enrichEdge]) (use Cons.IH [of "out @ [edge_change d e]"] in \<open>simp add: group_all_def\<close>)
qed (simp add: reads_ret group_all_def)

lemma group_all_props:
  "changes_of (group_all d add es m) h = fold add (map (edge_change d) (filter (\<lambda>e. SourceHash e = h) es)) (changes_of m h)"
  "fst ` set (group_all d add es m) = SourceHash ` set es \<union> fst ` set m"
  "gomap_ok m \<Longrightarrow> gomap_ok (group_all d add es m)"
  unfolding group_all_def
  by (induction es arbitrary: m) (auto simp: group_change_def keys_gomap_set)

lemma fold_notes [simp]:
  "fold note_added xs c = c\<lparr>added := added c @ xs\<rparr>"
  "fold note_removed xs c = c\<lparr>removed := removed c @ xs\<rparr>"
  by (induction xs arbitrary: c) (simp_all add: note_added_def note_removed_def)

definition modification_at :: "db \<Rightarrow> edge list \<Rightarrow> edge list \<Rightarrow> hash \<Rightarrow> NodeModification" where
  "modification_at d ins del h =
     \<lparr>NM_QualifiedName = name_at d h,
      NM_Kind = (case node_at d h of Some n \<Rightarrow> Kind n | None \<Rightarrow> ''''),
      NM_EdgesAdded = map (edge_change d) (filter (\<lambda>e. SourceHash e = h) ins),
      NM_EdgesRemoved = map (edge_change d) (filter (\<lambda>e. SourceHash e = h) del)\<rparr>"

lemma mset_of_gomap:
  assumes "gomap_ok m" "\<And>h. h \<in> fst ` set m \<Longrightarrow> f (h, changes_of m h) = g h"
  shows "mset (map f m) = image_mset g (mset_set (fst ` set m))"
proof -
  have "map f m = map g (map fst m)"
    using assms by (auto simp: image_iff) (metis assms(1) assms(2) fst_conv image_eqI map_of_is_SomeI option.simps(5))
  moreover have "mset (map fst m) = mset_set (set (map fst m))"
    using assms(1) by (rule mset_set_set [symmetric])
  ultimately show ?thesis by (metis list.set_map mset_map)
qed

lemma reads_SemanticDiff:
  assumes "\<And>m. mset (range_src m) = mset m"
  shows "\<exists>r. reads d (SemanticDiff range_src old new) r \<and>
     SD_EdgesAdded r = map (edge_change d) (added_edges new d) \<and>
     SD_EdgesRemoved r = map (edge_change d) (removed_edges new d) \<and>
     SD_NodesAdded r = [] \<and> SD_NodesRemoved r = [] \<and>
     mset (SD_NodesModified r) = image_mset (modification_at d (added_edges new d) (removed_edges new d))
       (mset_set (SourceHash ` set (added_edges new d @ removed_edges new d))) \<and>
     SD_Summary r = \<lparr>DS_NodesAdded = 0, DS_NodesRemoved = 0,
       DS_NodesModified = card (SourceHash ` set (added_edges new d @ removed_edges new d)),
       DS_EdgesAdded = length (added_edges new d), DS_EdgesRemoved = length (removed_edges new d)\<rparr>"
proof -
  let ?ins = "added_edges new d" and ?del = "removed_edges new d"
  define m1 where "m1 = group_all d note_added ?ins []"
  define m where "m = group_all d note_removed ?del m1"
  define pure where "pure = (\<lambda>p :: hash \<times> edgeChanges. \<lparr>NM_QualifiedName = name_at d (fst p),
    NM_Kind = (case node_at d (fst p) of Some n \<Rightarrow> Kind n | None \<Rightarrow> ''''),
    NM_EdgesAdded = added (snd p), NM_EdgesRemoved = removed (snd p)\<rparr>)"
  have mod: "reads d (modification p) (pure p)" for p
    unfolding modification_def pure_def name_at_def by (rule reads_intro)+
  have snap: "reads d (SnapshotDiff old new) \<lparr>OldSnapshot = old, NewSnapshot = new,
      EdgesAdded = ?ins, EdgesRemoved = ?del, NodesAdded = [], NodesRemoved = []\<rparr>"
    unfolding SnapshotDiff_def by (rule reads_intro)+
  note l1 = reads_change_loop [of d note_added ?ins "[]" "[]", folded m1_def, simplified]
  note l2 = reads_change_loop [of d note_removed ?del "[]" m1, folded m_def, simplified]
  have keys: "fst ` set m = SourceHash ` set (?ins @ ?del)"
    by (auto simp: m_def m1_def group_all_props(2))
  have ok: "gomap_ok m" by (simp add: m_def m1_def group_all_props(3))
  have "pure (h, changes_of m h) = modification_at d ?ins ?del h" for h
    by (simp add: pure_def modification_at_def m_def m1_def group_all_props(1) no_changes_def)
  from mset_of_gomap [where f = pure and g = "modification_at d ?ins ?del", OF ok this] have "mset (map pure m) = image_mset (modification_at d ?ins ?del) (mset_set (fst ` set m))" .
  then have mods: "mset (map pure (range_src m)) = image_mset (modification_at d ?ins ?del) (mset_set (SourceHash ` set (?ins @ ?del)))"
    unfolding keys using assms [of m] by simp
  then have len: "length (range_src m) = card (SourceHash ` set (?ins @ ?del))"
    by (metis length_map size_image_mset size_mset size_mset_set)
  have "reads d (SemanticDiff range_src old new) \<lparr>SD_OldSnapshot = Hash_String old, SD_NewSnapshot = Hash_String new,
      SD_NodesAdded = [], SD_NodesRemoved = [], SD_NodesModified = map pure (range_src m),
      SD_EdgesAdded = map (edge_change d) ?ins, SD_EdgesRemoved = map (edge_change d) ?del,
      SD_Summary = \<lparr>DS_NodesAdded = 0, DS_NodesRemoved = 0, DS_NodesModified = length (range_src m),
        DS_EdgesAdded = length ?ins, DS_EdgesRemoved = length ?del\<rparr>\<rparr>"
    unfolding SemanticDiff_def
    apply (rule reads_bind [OF snap])
    apply (simp add: Let_def)
    apply (rule reads_bind [OF l1], simp)
    apply (rule reads_bind [OF l2], simp)
    apply (rule reads_bind [OF reads_map_op [OF mod]])
    apply (simp add: reads_ret)
    done
  then show ?thesis using mods len by - (rule exI, rule conjI, assumption, simp)
qed

text \<open>
  C21. The semantic diff reports every event edge with the names of its endpoints, in event order;
  each source node of a changed edge is modified exactly once, with exactly its own additions and
  removals, whatever the order in which Go visits the map, a deleted source node with an empty name;
  the summary counts these lists, and no node is ever reported as added or removed.
\<close>

theorem SemanticDiff_groups:
  assumes "clean d s" "\<And>m. mset (range_src m) = mset m"
  shows "\<exists>r s'. SemanticDiff range_src old new s = (Inr r, s') \<and> DB s' = d \<and>
     SD_EdgesAdded r = map (edge_change d) (added_edges new d) \<and>
     SD_EdgesRemoved r = map (edge_change d) (removed_edges new d) \<and>
     SD_NodesAdded r = [] \<and> SD_NodesRemoved r = [] \<and>
     mset (SD_NodesModified r) = image_mset (modification_at d (added_edges new d) (removed_edges new d))
       (mset_set (SourceHash ` set (added_edges new d @ removed_edges new d))) \<and>
     SD_Summary r = \<lparr>DS_NodesAdded = 0, DS_NodesRemoved = 0,
       DS_NodesModified = card (SourceHash ` set (added_edges new d @ removed_edges new d)),
       DS_EdgesAdded = length (added_edges new d), DS_EdgesRemoved = length (removed_edges new d)\<rparr>"
  using reads_SemanticDiff [of range_src d old new, OF assms(2)] assms(1)
  by (meson clean_def readsD)

definition changed_db :: db where
  "changed_db = loop_db\<lparr>T_events :=
     [edge_event.extend (sample_event\<lparr>Ev_EdgeHash := 7, EventType := ''added''\<rparr>) (event_row.fields True),
      edge_event.extend sample_event (event_row.fields True)]\<rparr>"

lemma changed_db_ok: "primary_key NodeHash (T_nodes changed_db)"
  using loop_db_ok by (simp add: changed_db_def db_ok_def)

theorem SemanticDiff_groups_witness:
  "\<exists>r s'. SemanticDiff rev 0 77 (open_store changed_db []) = (Inr r, s') \<and>
     DS_NodesModified (SD_Summary r) = card (SourceHash ` set (added_edges 77 changed_db @ removed_edges 77 changed_db)) \<and>
     length (SD_EdgesAdded r) = 1 \<and> length (SD_EdgesRemoved r) = 1"
proof -
  have "length (added_edges 77 changed_db) = 1" "length (removed_edges 77 changed_db) = 1"
    by (simp_all add: added_edges_def removed_edges_def changed_db_def loop_db_def sample_event_def
        edge_event.defs event_row.defs find_row_def insert_edge_def edge.defs List.map_filter_simps sample_edge_def)
  with SemanticDiff_groups [of changed_db "open_store changed_db []" rev 0 77] show ?thesis
    by (auto simp: clean_open_store)
qed

section \<open>What the impact analysis reports\<close>

lemma parseHash_hex: "parseHash (hex_EncodeToString (hash_bytes h)) = Inr h"
  by (simp add: parseHash_def)

definition first_named :: "db \<Rightarrow> string \<Rightarrow> node option" where
  "first_named d q = (case nodes_where (\<lambda>n. QualifiedName n = q) d of [] \<Rightarrow> None | n # _ \<Rightarrow> Some n)"

definition callers_at :: "db \<Rightarrow> hash \<Rightarrow> node list" where
  "callers_at d h = map fst (order_rows (traversal_rows (calls_into d) d h 5))"

definition callees_at :: "db \<Rightarrow> hash \<Rightarrow> node list" where
  "callees_at d h = map fst (order_rows (traversal_rows (calls_from d) d h 3))"

definition repo_key :: "db \<Rightarrow> CallerResult \<Rightarrow> string" where
  "repo_key d cr = (case repo_of_file (Node_FileHash (CR_Node cr)) d of Some u \<Rightarrow> u | None \<Rightarrow> ''unknown'')"

lemma reads_blast_loop: "reads d (blast_loop crs r) (fold (\<lambda>cr. add_caller (repo_key d cr) cr) crs r)"
proof (induction crs arbitrary: r)
  case (Cons cr crs)
  show ?case unfolding reads_def
  proof (intro allI impI)
    fix s assume s: "clean d s"
    then have "query_sql (repo_of_file (Node_FileHash (CR_Node cr))) s = (Inr (repo_of_file (Node_FileHash (CR_Node cr)) d), s)"
      by (simp add: clean_def db_simps)
    with Cons.IH s show "\<exists>s'. blast_loop (cr # crs) r s = (Inr (fold (\<lambda>cr. add_caller (repo_key d cr) cr) (cr # crs) r), s') \<and> clean d s'"
      by (auto simp: reads_def repo_key_def split: option.split)
  qed
qed (simp add: reads_def)

lemma fold_add_caller:
  "mset (all_entries (fold (\<lambda>cr. add_caller (u cr) cr) crs r)) = mset (all_entries r) + mset (map caller_entry crs)"
  by (induction crs arbitrary: r) (simp_all add: add_caller_entries)

lemma mset_concat_permuted: "mset m' = mset m \<Longrightarrow> mset (concat (map f m')) = mset (concat (map f m))"
  unfolding mset_concat mset_map map_map sum_mset_sum_list [symmetric] by simp

definition blast_at :: "db \<Rightarrow> hash \<Rightarrow> node \<Rightarrow> BlastRadiusResult" where
  "blast_at d t n = fold (\<lambda>cr. add_caller (repo_key d cr) cr)
     (map (\<lambda>(n, dep). \<lparr>CR_Node = n, Depth = dep\<rparr>) (order_rows (traversal_rows (calls_into d) d t 5)))
     \<lparr>Target = n, ByRepo = [], TotalCount = 0, BR_Truncated = False\<rparr>"

lemma reads_BlastRadius:
  assumes "node_at d t = Some n"
  shows "reads d (BlastRadius t snap) (blast_at d t n)"
  unfolding BlastRadius_def blast_at_def
  using reads_bind [OF reads_TransitiveCallers reads_blast_loop] reads_GetNode [of d t]
  unfolding assms by - (rule reads_bind, assumption, simp only: option.case)

lemma blast_at_entries:
  "mset (all_entries (blast_at d t n)) = mset (map (\<lambda>m. caller_entry \<lparr>CR_Node = fst m, Depth = snd m\<rparr>)
     (order_rows (traversal_rows (calls_into d) d t 5)))"
  unfolding blast_at_def fold_add_caller map_map comp_def
  by (simp add: all_entries_def case_prod_unfold)

lemma caller_changes_at:
  assumes "\<And>m. mset (range_repo m) = mset m"
  shows "mset (caller_changes range_repo (blast_at d t n)) = mset (map nodeToChange (callers_at d t))"
proof -
  have "mset (caller_changes range_repo (blast_at d t n)) =
      mset (map (\<lambda>c. nodeToChange (Caller c)) (all_entries (blast_at d t n)))"
    unfolding caller_changes_def all_entries_def map_concat map_map comp_def case_prod_unfold
    by (rule mset_concat_permuted [OF assms])
  also have "\<dots> = image_mset (\<lambda>c. nodeToChange (Caller c)) (mset (all_entries (blast_at d t n)))"
    by (rule mset_map)
  also have "\<dots> = mset (map nodeToChange (callers_at d t))"
    unfolding blast_at_entries mset_map [symmetric] callers_at_def map_map
    by (rule arg_cong [where f = mset], rule map_cong) (auto simp: caller_entry_def)
  finally show ?thesis .
qed

lemma first_named_node:
  assumes "primary_key NodeHash (T_nodes d)" "first_named d q = Some n"
  shows "node_at d (NodeHash n) = Some n"
proof -
  from assms(2) have "n \<in> set (nodes_where (\<lambda>n. QualifiedName n = q) d)"
    by (auto simp: first_named_def split: list.splits)
  then obtain r where r: "r \<in> set (T_nodes d)" "n = scanNode r"
    by (auto simp: nodes_where_def)
  then have "NodeHash n = NodeHash r" by (simp add: scanNode_def node.defs)
  moreover from assms(1) r have "find_row NodeHash (NodeHash r) (T_nodes d) = Some r" by (simp add: find_row_in)
  ultimately show ?thesis using r by (simp add: node_at_def)
qed

definition impact_ok :: "db \<Rightarrow> node \<Rightarrow> SymbolImpact \<Rightarrow> bool" where
  "impact_ok d n i \<longleftrightarrow> Symbol i = nodeToChange n \<and> ChangeType i = ''modified'' \<and>
     mset (Callers i) = mset (map nodeToChange (callers_at d (NodeHash n))) \<and>
     Callees i = map nodeToChange (callees_at d (NodeHash n)) \<and>
     CallerCount i = length (callers_at d (NodeHash n)) \<and> CalleeCount i = length (callees_at d (NodeHash n))"

lemma note_hashes_props [simp]:
  "set (note_hashes cs seen) = set seen \<union> NC_NodeHash ` set cs"
  "distinct (note_hashes cs seen) = distinct seen"
  unfolding note_hashes_def by (induction cs arbitrary: seen) auto

lemma reads_modified_symbol:
  assumes pk: "primary_key NodeHash (T_nodes d)" and perm: "\<And>m. mset (range_repo m) = mset m"
  shows "\<exists>acc'. reads d (modified_symbol range_repo new md acc) acc' \<and>
    (case first_named d (NM_QualifiedName md) of
       None \<Rightarrow> acc' = acc
     | Some n \<Rightarrow> (\<exists>i. impact_ok d n i \<and>
         changed acc' = changed acc @ [i] \<and>
         uniqueCallers acc' = note_hashes (Callers i) (uniqueCallers acc) \<and>
         uniqueCallees acc' = note_hashes (Callees i) (uniqueCallees acc)))"
proof -
  let ?q = "NM_QualifiedName md"
  have look: "reads d (wrap_op msg (NodesByQualifiedName ?q)) (nodes_where (\<lambda>n. QualifiedName n = ?q) d)" for msg
    unfolding NodesByQualifiedName_def by (rule reads_intro)+
  show ?thesis
  proof (cases "nodes_where (\<lambda>n. QualifiedName n = ?q) d")
    case Nil
    have "reads d (modified_symbol range_repo new md acc) acc"
      unfolding modified_symbol_def by (rule reads_bind [OF look]) (simp add: Nil reads_ret)
    with Nil show ?thesis by (auto simp: first_named_def)
  next
    case (Cons n ns)
    then have first: "first_named d ?q = Some n" by (simp add: first_named_def)
    note br = reads_wrap [OF reads_BlastRadius [OF first_named_node [OF pk first]]]
    let ?callers = "caller_changes range_repo (blast_at d (NodeHash n) n)"
    let ?callees = "map nodeToChange (callees_at d (NodeHash n))"
    let ?i = "(new_impact (nodeToChange n) ''modified'')\<lparr>Callers := ?callers, Callees := ?callees,
      CallerCount := length ?callers, CalleeCount := length ?callees\<rparr>"
    let ?acc = "acc\<lparr>changed := changed acc @ [?i], uniqueCallers := note_hashes ?callers (uniqueCallers acc),
      uniqueCallees := note_hashes ?callees (uniqueCallees acc)\<rparr>"
    have callees: "map (\<lambda>c. nodeToChange (CE_Node c)) (map (\<lambda>(n, dep). \<lparr>CE_Node = n, CE_Depth = dep\<rparr>) rows) =
        map nodeToChange (map fst rows)" for rows
      by auto
    have "reads d (modified_symbol range_repo new md acc) ?acc"
      unfolding modified_symbol_def
      apply (rule reads_bind [OF look])
      apply (simp add: Cons with_callers_def with_callees_def)
      apply (rule reads_bind [OF br])
      apply (simp add: Let_def)
      apply (rule reads_bind [OF reads_wrap [OF reads_TransitiveCallees]])
      apply (simp only: callees callees_at_def [symmetric])
      apply (rule reads_ret_eq, cases acc, simp add: new_impact_def callees_at_def)
      done
    moreover have len: "length ?callers = length (callers_at d (NodeHash n))"
      using caller_changes_at [OF perm] by (metis length_map size_mset)
    have "impact_ok d n ?i"
      using caller_changes_at [OF perm, of d "NodeHash n" n] len
      by (simp add: impact_ok_def new_impact_def)
    ultimately show ?thesis using first by (intro exI [of _ ?acc]) (auto intro!: exI [of _ ?i])
  qed
qed

definition named_nodes :: "db \<Rightarrow> NodeModification list \<Rightarrow> node list" where
  "named_nodes d mds = List.map_filter (\<lambda>md. first_named d (NM_QualifiedName md)) mds"

lemma reads_modified_loop:
  assumes "primary_key NodeHash (T_nodes d)" "\<And>m. mset (range_repo m) = mset m"
  shows "\<exists>acc' is. reads d (impact_loop (modified_symbol range_repo new) mds acc) acc' \<and>
    list_all2 (impact_ok d) (named_nodes d mds) is \<and> changed acc' = changed acc @ is \<and>
    uniqueCallers acc' = note_hashes (concat (map Callers is)) (uniqueCallers acc) \<and>
    uniqueCallees acc' = note_hashes (concat (map Callees is)) (uniqueCallees acc)"
proof (induction mds arbitrary: acc)
  case Nil
  show ?case by (auto simp: named_nodes_def List.map_filter_simps note_hashes_def reads_ret intro!: exI [of _ acc])
next
  case (Cons md mds)
  from reads_modified_symbol [OF assms, of new md acc] obtain acc1 where
    one: "reads d (modified_symbol range_repo new md acc) acc1"
    and acc1: "case first_named d (NM_QualifiedName md) of
       None \<Rightarrow> acc1 = acc
     | Some n \<Rightarrow> (\<exists>i. impact_ok d n i \<and> changed acc1 = changed acc @ [i] \<and>
         uniqueCallers acc1 = note_hashes (Callers i) (uniqueCallers acc) \<and>
         uniqueCallees acc1 = note_hashes (Callees i) (uniqueCallees acc))" by blast
  from Cons.IH [of acc1] obtain acc' "is" where
    rest: "reads d (impact_loop (modified_symbol range_repo new) mds acc1) acc'"
      "list_all2 (impact_ok d) (named_nodes d mds) is" "changed acc' = changed acc1 @ is"
      "uniqueCallers acc' = note_hashes (concat (map Callers is)) (uniqueCallers acc1)"
      "uniqueCallees acc' = note_hashes (concat (map Callees is)) (uniqueCallees acc1)" by blast
  have run: "reads d (impact_loop (modified_symbol range_repo new) (md # mds) acc) acc'"
    unfolding impact_loop.simps by (rule reads_bind [where x = acc1]) (rule one, rule rest(1))
  show ?case
  proof (cases "first_named d (NM_QualifiedName md)")
    case None
    with acc1 rest run show ?thesis by (auto simp: named_nodes_def List.map_filter_simps)
  next
    case (Some n)
    with acc1 obtain i where i: "impact_ok d n i" "changed acc1 = changed acc @ [i]"
      "uniqueCallers acc1 = note_hashes (Callers i) (uniqueCallers acc)"
      "uniqueCallees acc1 = note_hashes (Callees i) (uniqueCallees acc)" by auto
    have "list_all2 (impact_ok d) (named_nodes d (md # mds)) (i # is)"
      using Some i(1) rest(2) by (simp add: named_nodes_def List.map_filter_simps)
    with i rest run show ?thesis
      by (intro exI [of _ acc'] exI [of _ "i # is"]) (simp add: note_hashes_def)
  qed
qed

text \<open>
  The impact analysis never fails on a readable graph and reports, in the order of the
  modifications, the first node of each modified name: with its callers up to depth 5 (in the order
  of the repositories) and its callees up to depth 3, one entry per depth; modifications without a
  node of that name are skipped, nothing is ever reported as added or removed, the totals count
  different hashes and the risk is \<open>high\<close> exactly above 20 and \<open>low\<close> exactly up to 5 callers.
\<close>

lemma PRImpact_modified:
  assumes "clean d s" "primary_key NodeHash (T_nodes d)"
    and "\<And>m. mset (range_src m) = mset m" "\<And>m. mset (range_repo m) = mset m"
  shows "\<exists>sd s1 r s'. SemanticDiff range_src old new s = (Inr sd, s1) \<and>
     PRImpact range_src range_repo old new s = (Inr r, s') \<and> DB s' = d \<and>
     list_all2 (impact_ok d) (named_nodes d (SD_NodesModified sd)) (ChangedSymbols r) \<and>
     AffectedEdges r = SD_EdgesAdded sd @ SD_EdgesRemoved sd \<and>
     TotalSymbolsChanged (PR_Summary r) = length (ChangedSymbols r) \<and>
     TotalCallersAffected (PR_Summary r) = card (NC_NodeHash ` (\<Union>i\<in>set (ChangedSymbols r). set (Callers i))) \<and>
     TotalCalleesAffected (PR_Summary r) = card (NC_NodeHash ` (\<Union>i\<in>set (ChangedSymbols r). set (Callees i))) \<and>
     (RiskLevel (PR_Summary r) = ''high'' \<longleftrightarrow> TotalCallersAffected (PR_Summary r) > 20) \<and>
     (RiskLevel (PR_Summary r) = ''low'' \<longleftrightarrow> TotalCallersAffected (PR_Summary r) \<le> 5)"
proof -
  from reads_SemanticDiff [of range_src d old new, OF assms(3)] obtain sd where
    sd: "reads d (SemanticDiff range_src old new) sd" "SD_NodesAdded sd = []" "SD_NodesRemoved sd = []" by blast
  let ?acc0 = "\<lparr>changed = [], uniqueCallers = [], uniqueCallees = []\<rparr>"
  from reads_modified_loop [of d range_repo new "SD_NodesModified sd" ?acc0, OF assms(2,4)] obtain acc "is" where
    loop: "reads d (impact_loop (modified_symbol range_repo new) (SD_NodesModified sd) ?acc0) acc"
    and "is": "list_all2 (impact_ok d) (named_nodes d (SD_NodesModified sd)) is" "changed acc = is"
      "uniqueCallers acc = note_hashes (concat (map Callers is)) []"
      "uniqueCallees acc = note_hashes (concat (map Callees is)) []" by auto
  let ?r = "\<lparr>PR_OldSnapshot = Hash_String old, PR_NewSnapshot = Hash_String new,
          ChangedSymbols = is, AffectedEdges = SD_EdgesAdded sd @ SD_EdgesRemoved sd,
          PR_Summary = \<lparr>TotalSymbolsChanged = length is,
            TotalCallersAffected = length (uniqueCallers acc), TotalCalleesAffected = length (uniqueCallees acc),
            RiskLevel = riskLevel (length (uniqueCallers acc))\<rparr>\<rparr>"
  have run: "reads d (PRImpact range_src range_repo old new) ?r"
    unfolding PRImpact_def
    apply (rule reads_bind [OF reads_wrap [OF sd(1)]])
    apply (simp only: sd impact_loop.simps)
    apply (rule reads_bind [OF reads_ret])
    apply (rule reads_bind [OF reads_ret])
    apply (rule reads_bind [OF loop])
    apply (simp add: "is"(2) reads_ret)
    done
  have callers: "length (uniqueCallers acc) = card (NC_NodeHash ` (\<Union>i\<in>set is. set (Callers i)))"
    using distinct_card [of "uniqueCallers acc"] by (simp add: "is" image_UN)
  have callees: "length (uniqueCallees acc) = card (NC_NodeHash ` (\<Union>i\<in>set is. set (Callees i)))"
    using distinct_card [of "uniqueCallees acc"] by (simp add: "is" image_UN)
  from readsD [OF sd(1) assms(1)] obtain s1 where s1: "SemanticDiff range_src old new s = (Inr sd, s1)" by blast
  from readsD [OF run assms(1)] obtain s' where s': "PRImpact range_src range_repo old new s = (Inr ?r, s')" "DB s' = d"
    by (auto simp: clean_def)
  show ?thesis
    by (rule exI [of _ sd], rule exI [of _ s1], rule exI [of _ ?r], rule exI [of _ s'])
      (use s1 s' "is"(1) callers callees in \<open>auto simp: riskLevel_def\<close>)
qed

lemma PRImpact_modified_witness:
  "\<exists>r s'. PRImpact rev rev 0 77 (open_store changed_db []) = (Inr r, s') \<and>
     TotalSymbolsChanged (PR_Summary r) = length (ChangedSymbols r)"
  using PRImpact_modified [of changed_db "open_store changed_db []" rev rev 0 77, OF clean_open_store changed_db_ok]
  by auto

end
