(* ===== verification/Isolation.thy ===== *)
theory Isolation
  imports GraphDiff
begin

text \<open>
  internal/diff/isolation.go: the supply-chain score of changed files, from the edges that reach
  their nodes and the environment reads and process starts that leave them. Scores are exact
  rationals.
\<close>

section \<open>Path and process names\<close>

text \<open>\<open>filepath.Base\<close> on a path with \<open>/\<close> as separator.\<close>

definition filepath_Base :: "string \<Rightarrow> string" where
  "filepath_Base path =
     (if path = [] then ''.''
      else let p = rev (dropWhile (\<lambda>c. c = CHR ''/'') (rev path));
               b = rev (takeWhile (\<lambda>c. c \<noteq> CHR ''/'') (rev p))
           in if b = [] then ''/'' else b)"

definition benignProcessTargets :: "string list" where
  "benignProcessTargets = [''node'', ''node.exe'', ''npm'', ''npx'', ''yarn'', ''pnpm'', ''python'', ''python3'',
     ''pip'', ''pip3'', ''go'', ''cargo'', ''rustc'', ''javac'', ''tsc'', ''git'', ''sh'', ''bash'', ''zsh'',
     ''worker_threads'', ''cluster.fork'']"

definition test_markers :: "string list" where
  "test_markers = [''/test/'', ''/tests/'', ''/__tests__/'', ''/spec/'', ''_test.go'', ''.test.'', ''.spec.'',
     ''/test_'', ''tests/test_'', ''conftest.py'']"

definition example_markers :: "string list" where
  "example_markers = [''/benchmark/'', ''/benchmarks/'', ''/example/'', ''/examples/'', ''/fixtures/'', ''/testdata/'']"

definition isTestOrBenchmarkPath :: "string \<Rightarrow> bool" where
  "isTestOrBenchmarkPath qualifiedName =
     (let lower = strings_ToLower qualifiedName
      in list_ex (strings_Contains lower) test_markers \<or> list_ex (strings_Contains lower) example_markers)"

definition isBenignProcessTarget :: "string \<Rightarrow> bool" where
  "isBenignProcessTarget target = (strings_ToLower (filepath_Base target) \<in> set benignProcessTargets)"

section \<open>Counting the edges of a file\<close>

record IsolationResult =
  File :: string
  IR_Score :: float64
  InboundEdges :: nat
  OutboundEdges :: nat
  HookExecuted :: bool
  IR_ReadsEnv :: "string list"
  ExecutesProc :: "string list"

record isolation_acc =
  envVars :: "string list"
  procs :: "string list"
  suspiciousProcs :: "string list"
  inbound :: nat
  outboundDangerous :: nat
  hookExecuted :: bool

definition no_edges :: isolation_acc where
  "no_edges = \<lparr>envVars = [], procs = [], suspiciousProcs = [], inbound = 0, outboundDangerous = 0, hookExecuted = False\<rparr>"

definition ReadsEnv :: string where "ReadsEnv = ''reads_env''"
definition ExecutesProcess :: string where "ExecutesProcess = ''executes_process''"

definition count_inbound :: "hash set \<Rightarrow> edge list \<Rightarrow> isolation_acc \<Rightarrow> isolation_acc" where
  "count_inbound changedNodes es acc =
     acc\<lparr>inbound := inbound acc + length (filter (\<lambda>e. SourceHash e \<notin> changedNodes) es)\<rparr>"

text \<open>The lookup of the target: \<open>None\<close> when it fails or finds nothing.\<close>

definition target_name :: "hash \<Rightarrow> string option op" where
  "target_name h s = (case GetNode h s of
     (Inr (Some n), s) \<Rightarrow> (Inr (Some (QualifiedName n)), s) | (_, s) \<Rightarrow> (Inr None, s))"

definition note_env :: "string option \<Rightarrow> isolation_acc \<Rightarrow> isolation_acc" where
  "note_env target acc =
     (let acc = acc\<lparr>outboundDangerous := outboundDangerous acc + 1\<rparr>
      in case target of Some q \<Rightarrow> acc\<lparr>envVars := envVars acc @ [q]\<rparr> | None \<Rightarrow> acc)"

definition note_process :: "string option \<Rightarrow> isolation_acc \<Rightarrow> isolation_acc" where
  "note_process target acc =
     (case target of
        Some q \<Rightarrow>
          let acc = acc\<lparr>procs := procs acc @ [q]\<rparr> in
          if isBenignProcessTarget q then acc
          else acc\<lparr>suspiciousProcs := suspiciousProcs acc @ [q],
                   outboundDangerous := outboundDangerous acc + 1, hookExecuted := True\<rparr>
      | None \<Rightarrow> acc\<lparr>outboundDangerous := outboundDangerous acc + 1, hookExecuted := True\<rparr>)"

definition outbound_edge :: "edge \<Rightarrow> isolation_acc \<Rightarrow> isolation_acc op" where
  "outbound_edge e acc =
     (if EdgeType e = ReadsEnv then bind_op (target_name (TargetHash e)) (\<lambda>t. ret (note_env t acc))
      else if EdgeType e = ExecutesProcess then bind_op (target_name (TargetHash e)) (\<lambda>t. ret (note_process t acc))
      else ret acc)"

fun fold_op :: "('x \<Rightarrow> 'a \<Rightarrow> 'a op) \<Rightarrow> 'x list \<Rightarrow> 'a \<Rightarrow> 'a op" where
  "fold_op f [] acc = ret acc"
| "fold_op f (x # xs) acc = bind_op (f x acc) (fold_op f xs)"

definition isolation_node :: "hash set \<Rightarrow> node \<Rightarrow> isolation_acc \<Rightarrow> isolation_acc op" where
  "isolation_node changedNodes n acc =
     bind_op (EdgesTo (NodeHash n) '''') (\<lambda>edgesIn.
     bind_op (EdgesFrom (NodeHash n) '''') (\<lambda>edgesOut.
     fold_op outbound_edge edgesOut (count_inbound changedNodes edgesIn acc)))"

section \<open>The score\<close>

definition isolation_score :: "isolation_acc \<Rightarrow> float64" where
  "isolation_score acc =
     (let inboundCapped = min (of_nat (inbound acc)) 10;
          inboundFactor = 1 - inboundCapped / 10 * (7 / 10);
          hasSuspiciousProc = length (suspiciousProcs acc) > 0;
          envOnly = length (envVars acc) > 0 \<and> \<not> hasSuspiciousProc;
          outboundCapped = min (of_nat (outboundDangerous acc)) 5;
          outboundFactor = outboundCapped / 5;
          outboundFactor = (if envOnly then outboundFactor * (2 / 10) else outboundFactor);
          hookFactor = (if hookExecuted acc then 15 / 10 else 1)
      in max 0 (min 1 (inboundFactor * outboundFactor * hookFactor)))"

text \<open>\<open>filePath\<close> is the qualified name of the file's first node, empty when it has none.\<close>

definition file_path :: "node list \<Rightarrow> string" where
  "file_path nodes = (case nodes of [] \<Rightarrow> '''' | n # _ \<Rightarrow> QualifiedName n)"

definition isolation_result :: "string \<Rightarrow> isolation_acc \<Rightarrow> IsolationResult" where
  "isolation_result filePath acc = \<lparr>File = filePath, IR_Score = isolation_score acc, InboundEdges = inbound acc,
     OutboundEdges = outboundDangerous acc, HookExecuted = hookExecuted acc, IR_ReadsEnv = envVars acc,
     ExecutesProc = procs acc\<rparr>"

fun isolation_files :: "hash set \<Rightarrow> node list list \<Rightarrow> IsolationResult list op" where
  "isolation_files changedNodes [] = ret []"
| "isolation_files changedNodes (nodes # fs) =
     (if isTestOrBenchmarkPath (file_path nodes) then isolation_files changedNodes fs
      else bind_op (fold_op (isolation_node changedNodes) nodes no_edges) (\<lambda>acc.
           bind_op (isolation_files changedNodes fs) (\<lambda>rs.
           ret (isolation_result (file_path nodes) acc # rs))))"

definition ComputeIsolation :: "hash list \<Rightarrow> IsolationResult list op" where
  "ComputeIsolation changedFiles =
     (if length changedFiles = 0 then ret []
      else bind_op (map_op NodesByFileHash changedFiles) (\<lambda>fileToNodes.
           isolation_files (NodeHash ` set (concat fileToNodes)) fileToNodes))"

section \<open>What is counted\<close>

lemma reads_fold_op:
  assumes "\<And>x acc. reads d (f x acc) (g x acc)"
  shows "reads d (fold_op f xs acc) (fold g xs acc)"
proof (induction xs arbitrary: acc)
  case (Cons x xs)
  show ?case unfolding fold_op.simps
    by (rule reads_bind [where x = "g x acc"]) (simp_all add: assms Cons.IH)
qed (simp add: reads_ret)

definition resolved :: "db \<Rightarrow> edge \<Rightarrow> string option" where
  "resolved d e = map_option QualifiedName (node_at d (TargetHash e))"

lemma reads_target_name [reads_intro]: "reads d (target_name (TargetHash e)) (resolved d e)"
  using reads_GetNode [of d "TargetHash e"] unfolding reads_def target_name_def resolved_def
  by (fastforce split: option.splits)

definition note_edge :: "db \<Rightarrow> edge \<Rightarrow> isolation_acc \<Rightarrow> isolation_acc" where
  "note_edge d e acc =
     (if EdgeType e = ReadsEnv then note_env (resolved d e) acc
      else if EdgeType e = ExecutesProcess then note_process (resolved d e) acc else acc)"

lemma reads_outbound_edge: "reads d (outbound_edge e acc) (note_edge d e acc)"
  unfolding outbound_edge_def note_edge_def
  by (auto intro!: reads_intro reads_bind [OF reads_target_name])

definition edges_into :: "db \<Rightarrow> node \<Rightarrow> edge list" where
  "edges_into d n = edges_where (\<lambda>r. TargetHash r = NodeHash n) d"

definition edges_out :: "db \<Rightarrow> node \<Rightarrow> edge list" where
  "edges_out d n = edges_where (\<lambda>r. SourceHash r = NodeHash n) d"

lemma reads_edges_of:
  "reads d (EdgesTo (NodeHash n) '''') (edges_into d n)"
  "reads d (EdgesFrom (NodeHash n) '''') (edges_out d n)"
  using reads_query [of d "edges_where (\<lambda>r. TargetHash r = NodeHash n)"]
    reads_query [of d "edges_where (\<lambda>r. SourceHash r = NodeHash n)"]
  by (simp_all add: EdgesTo_def EdgesFrom_def edges_into_def edges_out_def)

definition note_node :: "db \<Rightarrow> hash set \<Rightarrow> node \<Rightarrow> isolation_acc \<Rightarrow> isolation_acc" where
  "note_node d ch n acc = fold (note_edge d) (edges_out d n) (count_inbound ch (edges_into d n) acc)"

lemma reads_isolation_node: "reads d (isolation_node ch n acc) (note_node d ch n acc)"
  unfolding isolation_node_def note_node_def
  by (rule reads_bind [OF reads_edges_of(1)], rule reads_bind [OF reads_edges_of(2)],
      rule reads_fold_op [OF reads_outbound_edge])

text \<open>
  An environment read is dangerous; so is the start of a process unless the process is a node of
  the graph with a benign name.
\<close>

definition starts_suspicious :: "db \<Rightarrow> edge \<Rightarrow> bool" where
  "starts_suspicious d e \<longleftrightarrow> EdgeType e = ''executes_process'' \<and>
     (case resolved d e of Some q \<Rightarrow> \<not> isBenignProcessTarget q | None \<Rightarrow> True)"

definition dangerous :: "db \<Rightarrow> edge \<Rightarrow> bool" where
  "dangerous d e \<longleftrightarrow> EdgeType e = ''reads_env'' \<or> starts_suspicious d e"

lemma note_edge_counts:
  "inbound (note_edge d e acc) = inbound acc"
  "outboundDangerous (note_edge d e acc) = outboundDangerous acc + (if dangerous d e then 1 else 0)"
  "hookExecuted (note_edge d e acc) = (hookExecuted acc \<or> starts_suspicious d e)"
  by (auto simp: note_edge_def note_env_def note_process_def dangerous_def starts_suspicious_def
      ReadsEnv_def ExecutesProcess_def Let_def split: option.splits)

lemma fold_note_edge_counts:
  "inbound (fold (note_edge d) es acc) = inbound acc"
  "outboundDangerous (fold (note_edge d) es acc) = outboundDangerous acc + length (filter (dangerous d) es)"
  "hookExecuted (fold (note_edge d) es acc) = (hookExecuted acc \<or> (\<exists>e\<in>set es. starts_suspicious d e))"
  by (induction es arbitrary: acc) (auto simp: note_edge_counts)

lemma note_node_counts:
  "inbound (note_node d ch n acc) = inbound acc + length (filter (\<lambda>e. SourceHash e \<notin> ch) (edges_into d n))"
  "outboundDangerous (note_node d ch n acc) = outboundDangerous acc + length (filter (dangerous d) (edges_out d n))"
  "hookExecuted (note_node d ch n acc) = (hookExecuted acc \<or> (\<exists>e\<in>set (edges_out d n). starts_suspicious d e))"
  by (simp_all add: note_node_def fold_note_edge_counts count_inbound_def)

lemma fold_note_node_counts:
  "inbound (fold (note_node d ch) ns acc) =
     inbound acc + length (filter (\<lambda>e. SourceHash e \<notin> ch) (concat (map (edges_into d) ns)))"
  "outboundDangerous (fold (note_node d ch) ns acc) =
     outboundDangerous acc + length (filter (dangerous d) (concat (map (edges_out d) ns)))"
  "hookExecuted (fold (note_node d ch) ns acc) =
     (hookExecuted acc \<or> (\<exists>e\<in>set (concat (map (edges_out d) ns)). starts_suspicious d e))"
  by (induction ns arbitrary: acc) (auto simp: note_node_counts)

section \<open>Properties of the score\<close>

definition inbound_factor :: "isolation_acc \<Rightarrow> float64" where
  "inbound_factor acc = 1 - min (of_nat (inbound acc)) 10 / 10 * (7 / 10)"

lemma inbound_factor_bounds: "3 / 10 \<le> inbound_factor acc" "inbound_factor acc \<le> 1"
  by (auto simp: inbound_factor_def)

definition weight_factor :: "isolation_acc \<Rightarrow> float64" where
  "weight_factor acc = (if envVars acc \<noteq> [] \<and> suspiciousProcs acc = [] then 2 / 10 else 1) *
     (if hookExecuted acc then 15 / 10 else 1)"

lemma isolation_score_product:
  "isolation_score acc =
     max 0 (min 1 (inbound_factor acc * (min (of_nat (outboundDangerous acc)) 5 / 5 * weight_factor acc)))"
  by (simp add: isolation_score_def inbound_factor_def weight_factor_def Let_def ac_simps)

lemma isolation_score_bounds: "0 \<le> isolation_score acc" "isolation_score acc \<le> 1"
  by (simp_all add: isolation_score_product)

lemma isolation_score_positive: "0 < isolation_score acc \<longleftrightarrow> 0 < outboundDangerous acc"
proof -
  have "0 < weight_factor acc" by (simp add: weight_factor_def)
  moreover have "0 < inbound_factor acc" using inbound_factor_bounds(1) [of acc] by simp
  ultimately show ?thesis
    by (auto simp: isolation_score_product zero_less_mult_iff less_max_iff_disj)
qed

definition file_report :: "db \<Rightarrow> hash set \<Rightarrow> node list \<Rightarrow> IsolationResult \<Rightarrow> bool" where
  "file_report d ch nodes r \<longleftrightarrow> File r = file_path nodes \<and>
     InboundEdges r = length (filter (\<lambda>e. SourceHash e \<notin> ch) (concat (map (edges_into d) nodes))) \<and>
     OutboundEdges r = length (filter (dangerous d) (concat (map (edges_out d) nodes))) \<and>
     (HookExecuted r \<longleftrightarrow> (\<exists>e\<in>set (concat (map (edges_out d) nodes)). starts_suspicious d e)) \<and>
     0 \<le> IR_Score r \<and> IR_Score r \<le> 1 \<and> (0 < IR_Score r \<longleftrightarrow> 0 < OutboundEdges r)"

lemma file_report_result: "file_report d ch ns (isolation_result (file_path ns) (fold (note_node d ch) ns no_edges))"
  unfolding file_report_def isolation_result_def
  by (simp add: fold_note_node_counts isolation_score_bounds isolation_score_positive)
    (simp add: no_edges_def)

lemma reads_isolation_files:
  "\<exists>rs. reads d (isolation_files ch fs) rs \<and>
     list_all2 (file_report d ch) (filter (\<lambda>ns. \<not> isTestOrBenchmarkPath (file_path ns)) fs) rs"
proof (induction fs)
  case Nil
  show ?case by (auto simp: reads_ret)
next
  case (Cons ns fs)
  then obtain rs where rs: "reads d (isolation_files ch fs) rs"
    "list_all2 (file_report d ch) (filter (\<lambda>ns. \<not> isTestOrBenchmarkPath (file_path ns)) fs) rs" by blast
  show ?case
  proof (cases "isTestOrBenchmarkPath (file_path ns)")
    case True
    with rs show ?thesis by auto
  next
    case False
    let ?r = "isolation_result (file_path ns) (fold (note_node d ch) ns no_edges)"
    have "reads d (isolation_files ch (ns # fs)) (?r # rs)"
      unfolding isolation_files.simps if_not_P [OF False]
      by (rule reads_bind [OF reads_fold_op [OF reads_isolation_node]], rule reads_bind [OF rs(1)], rule reads_ret)
    with False rs(2) file_report_result show ?thesis by (intro exI [of _ "?r # rs"]) simp
  qed
qed

text \<open>
  On a readable graph the analysis never fails and reports the changed files in order, without
  those whose first node's name looks like a test or an example: inbound edges are those from nodes
  of no changed file, outbound edges the environment reads and suspicious process starts, the score
  is between 0 and 1 and positive exactly if there is a dangerous edge, however well connected the
  file is.
\<close>

lemma ComputeIsolation_reports:
  assumes "clean d s"
  shows "\<exists>rs s'. ComputeIsolation files s = (Inr rs, s') \<and> DB s' = d \<and>
    (let nodes = map (\<lambda>f. nodes_where (\<lambda>n. Node_FileHash n = f) d) files in
     list_all2 (file_report d (NodeHash ` set (concat nodes)))
       (filter (\<lambda>ns. \<not> isTestOrBenchmarkPath (file_path ns)) nodes) rs)"
proof -
  let ?nodes = "map (\<lambda>f. nodes_where (\<lambda>n. Node_FileHash n = f) d) files"
  have read: "reads d (map_op NodesByFileHash files) ?nodes"
    unfolding NodesByFileHash_def by (rule reads_map_op) (rule reads_query)
  from reads_isolation_files obtain rs where
    rs: "reads d (isolation_files (NodeHash ` set (concat ?nodes)) ?nodes) rs"
      "list_all2 (file_report d (NodeHash ` set (concat ?nodes)))
        (filter (\<lambda>ns. \<not> isTestOrBenchmarkPath (file_path ns)) ?nodes) rs" by blast
  have "reads d (ComputeIsolation files) rs"
  proof (cases files)
    case Nil
    with rs(2) show ?thesis by (simp add: ComputeIsolation_def reads_ret)
  next
    case (Cons f fs)
    then have "ComputeIsolation files = bind_op (map_op NodesByFileHash files) (\<lambda>fileToNodes.
        isolation_files (NodeHash ` set (concat fileToNodes)) fileToNodes)"
      by (simp add: ComputeIsolation_def)
    then show ?thesis using reads_bind [where f = "\<lambda>x. isolation_files (NodeHash ` set (concat x)) x", OF read rs(1)]
      by simp
  qed
  from readsD [OF this assms] rs(2) show ?thesis by (auto simp: clean_def Let_def)
qed

definition isolation_db :: db where
  "isolation_db = loop_db\<lparr>T_edges := [insert_edge 0 (sample_edge\<lparr>EdgeType := ''executes_process'', TargetHash := 9\<rparr>)]\<rparr>"

lemma isolation_db_nodes:
  "nodes_where (\<lambda>n. Node_FileHash n = 0) isolation_db =
     [sample_node\<lparr>NodeHash := 1\<rparr>, sample_node\<lparr>NodeHash := 2\<rparr>]"
  by (simp add: nodes_where_def isolation_db_def loop_db_def scanNode_def node.defs sample_node_def)

lemma isolation_db_edges:
  "edges_into isolation_db (sample_node\<lparr>NodeHash := 1\<rparr>) = []" "edges_into isolation_db (sample_node\<lparr>NodeHash := 2\<rparr>) = []"
  "edges_out isolation_db (sample_node\<lparr>NodeHash := 1\<rparr>) = [sample_edge\<lparr>EdgeType := ''executes_process'', TargetHash := 9\<rparr>]"
  "edges_out isolation_db (sample_node\<lparr>NodeHash := 2\<rparr>) = []"
  by (simp_all add: edges_into_def edges_out_def edges_where_def isolation_db_def insert_edge_def edge.defs
      sample_edge_def sample_node_def scanEdge_def)

lemma ComputeIsolation_reports_witness:
  "\<exists>r s'. ComputeIsolation [0] (open_store isolation_db []) = (Inr [r], s') \<and> OutboundEdges r = 1 \<and>
     HookExecuted r \<and> 0 < IR_Score r"
proof -
  have "\<not> isTestOrBenchmarkPath (file_path [sample_node\<lparr>NodeHash := 1\<rparr>, sample_node\<lparr>NodeHash := 2\<rparr>])"
    by (simp add: file_path_def sample_node_def) code_simp
  moreover have "starts_suspicious isolation_db (sample_edge\<lparr>EdgeType := ''executes_process'', TargetHash := 9\<rparr>)"
    by (simp add: starts_suspicious_def resolved_def node_at_def isolation_db_def loop_db_def find_row_def node.defs sample_node_def)
  ultimately show ?thesis
    using ComputeIsolation_reports [of isolation_db "open_store isolation_db []" "[0]"]
    by (auto simp: Let_def isolation_db_nodes isolation_db_edges file_report_def dangerous_def list_all2_Cons1)
qed

text \<open>
  An environment read hides a process start: when the started process cannot be resolved, which
  the code treats as suspicious, a file that also reads a known environment variable gets a lower
  score than without the read, because only resolved processes count against the discount for
  files that merely read the environment.
\<close>

lemma env_read_lowers_score:
  assumes "envVars acc = []" "suspiciousProcs acc = []"
  shows "isolation_score (note_env (Some v) (note_process None acc)) < isolation_score (note_process None acc)"
proof -
  define f where "f = inbound_factor acc"
  define k :: float64 where "k = of_nat (outboundDangerous acc)"
  have f: "3 / 10 \<le> f" "f \<le> 1" using inbound_factor_bounds by (simp_all add: f_def)
  have k: "0 \<le> k" by (simp add: k_def)
  have "inbound (note_process None acc) = inbound acc" "inbound (note_env (Some v) (note_process None acc)) = inbound acc"
    by (simp_all add: note_process_def note_env_def)
  then have factors: "inbound_factor (note_process None acc) = f"
    "inbound_factor (note_env (Some v) (note_process None acc)) = f"
    by (simp_all add: f_def inbound_factor_def)
  have eq: "isolation_score (note_process None acc) = max 0 (min 1 (f * (min (k + 1) 5 / 5 * (15 / 10))))"
    "isolation_score (note_env (Some v) (note_process None acc)) = max 0 (min 1 (f * (min (k + 2) 5 / 5 * (3 / 10))))"
    unfolding isolation_score_product factors using assms
    by (simp_all add: weight_factor_def note_process_def note_env_def k_def add.commute)
  have "min (k + 2) 5 / 5 * (3 / 10) < min (k + 1) 5 / 5 * (15 / 10 :: float64)" using k by (auto simp: min_def)
  then have less: "f * (min (k + 2) 5 / 5 * (3 / 10)) < f * (min (k + 1) 5 / 5 * (15 / 10))"
    using f by (intro mult_strict_left_mono) auto
  have "f * (min (k + 2) 5 / 5 * (3 / 10)) \<le> 1 * (3 / 10)"
    using f k by (intro mult_mono) auto
  moreover have "0 < f * (min (k + 1) 5 / 5 * (15 / 10))" using f k by (intro mult_pos_pos) auto
  ultimately show ?thesis using less unfolding eq by (auto simp: max_def min_def)
qed

lemma env_read_lowers_score_witness:
  "isolation_score (note_env (Some ''TOKEN'') (note_process None no_edges)) < isolation_score (note_process None no_edges)"
  using env_read_lowers_score [of no_edges "''TOKEN''"] by (simp add: no_edges_def)

text \<open>
  The test and example markers are looked for in the whole qualified name, which begins with the
  repository's URL: no file of a repository under such a path is ever scored.
\<close>

lemma strings_Contains_append: "strings_Contains s p \<Longrightarrow> strings_Contains (s @ t) p"
proof -
  assume "strings_Contains s p"
  then obtain i where "strings_Index s p = Some i" by (auto simp: strings_Contains_def)
  then have i: "i \<le> length s" "prefix p (drop i s)" using strings_Index_Some by auto
  then have "prefix p (drop i (s @ t))" by (simp add: prefix_append)
  with strings_Index_le [OF this] i show ?thesis by (force simp: strings_Contains_def)
qed

lemma repository_excluded:
  "isTestOrBenchmarkPath repoURL \<Longrightarrow> isTestOrBenchmarkPath (repoURL @ rest)"
  unfolding isTestOrBenchmarkPath_def Let_def list_ex_iff strings_ToLower_def map_append
  by (meson strings_Contains_append)

end
