(* ===== verification/TraceIngest.thy ===== *)
theory TraceIngest
  imports JsonText StoreRuntime
begin

text \<open>
  internal/trace: the confidence of runtime edges (confidence.go, types.go), the resolution of spans
  to graph nodes (resolver.go), the ingestor with its pending batch (ingestor.go), and the
  conversion and export of OTLP spans (otlp.go, without the network server around it). \<open>clock i\<close> is
  the time at which span \<open>i\<close> of a batch is processed; \<open>fmt_g\<close> and \<open>fmt_v\<close> stand for the formatting
  of floating point numbers and of other values.
\<close>

section \<open>Confidence\<close>

definition ConfidenceFromCount :: "int \<Rightarrow> float64" where
  "ConfidenceFromCount n =
     (if n > 1000 then 95 / 100 else if n \<ge> 100 then 85 / 100 else if n \<ge> 10 then 7 / 10
      else if n \<ge> 1 then 5 / 10 else 2 / 10)"

definition ComputeConfidence :: "int \<Rightarrow> int \<Rightarrow> float64" where
  "ComputeConfidence observationCount daysSinceLastObserved =
     (if daysSinceLastObserved > 90 then 0
      else if daysSinceLastObserved > 30 then 2 / 10
      else ConfidenceFromCount observationCount)"

definition ShouldGarbageCollect :: "int \<Rightarrow> int \<Rightarrow> int \<Rightarrow> bool" where
  "ShouldGarbageCollect now lastObserved gcThresholdDays = (now - lastObserved > gcThresholdDays * 86400)"

definition DecayBracket :: "int \<Rightarrow> string" where
  "DecayBracket days =
     (if days \<le> 7 then ''active'' else if days \<le> 30 then ''recent''
      else if days \<le> 90 then ''stale'' else ''gc_eligible'')"

text \<open>\<open>json.Marshal\<close> of a one-entry map to a list of strings.\<close>

definition json_array :: "string list \<Rightarrow> string" where
  "json_array xs = ''['' @ strings_Join (map json_string xs) '','' @ '']''"

definition BuildProvenance :: "string list \<Rightarrow> string" where
  "BuildProvenance traceIDs =
     (if length traceIDs = 0 then ''otel_trace''
      else let ids = (if length traceIDs > 5 then take 5 traceIDs else traceIDs)
           in ''otel_trace:'' @ ''{'' @ json_string ''trace_ids'' @ '':'' @ json_array ids @ ''}'')"

section \<open>Spans\<close>

text \<open>Start times and durations are in nanoseconds; \<open>None\<close> is the zero time.\<close>

record TraceSpan =
  TraceID :: string
  SpanID :: string
  ParentSpanID :: string
  Span_ServiceName :: string
  OperationName :: string
  PeerService :: string
  Attributes :: "(string, string) gomap"
  StartTime :: "int option"
  Duration :: int

record HTTPLogEntry =
  HL_Timestamp :: "int option"
  HL_Method :: string
  HL_Path :: string
  HL_StatusCode :: int
  HL_ServiceName :: string
  HL_ClientIP :: string
  HL_Duration :: int

definition attr :: "TraceSpan \<Rightarrow> string \<Rightarrow> string" where
  "attr sp k = (case map_of (Attributes sp) k of Some v \<Rightarrow> v | None \<Rightarrow> '''')"

definition Resolve_symbol :: "sha \<Rightarrow> string \<Rightarrow> string \<Rightarrow> string \<Rightarrow> (hash \<times> float64) op" where
  "Resolve_symbol H serviceName routePattern mappingType =
     bind_op (GetRouteSymbol serviceName routePattern mappingType) (\<lambda>row.
     case row of
       Some r \<Rightarrow> ret (RS_NodeHash r, 1)
     | None \<Rightarrow> ret (ComputeNodeHash H serviceName ''UNRESOLVED'' EmptyHash routePattern ''runtime_endpoint'', 3 / 10))"

definition span_route :: "TraceSpan \<Rightarrow> string \<times> string" where
  "span_route sp =
     (if attr sp ''http.method'' \<noteq> '''' \<and> attr sp ''http.route'' \<noteq> '''' then
        (''http_route'', attr sp ''http.method'' @ '' '' @ attr sp ''http.route'')
      else if attr sp ''rpc.service'' \<noteq> '''' \<and> attr sp ''rpc.method'' \<noteq> '''' then
        (''grpc_method'', attr sp ''rpc.service'' @ ''.'' @ attr sp ''rpc.method'')
      else (''unknown'', OperationName sp))"

definition target_service :: "TraceSpan \<Rightarrow> string" where
  "target_service sp = (if PeerService sp \<noteq> '''' then PeerService sp else Span_ServiceName sp)"

definition service_hash :: "sha \<Rightarrow> TraceSpan \<Rightarrow> hash" where
  "service_hash H sp = ComputeNodeHash H (Span_ServiceName sp) '''' EmptyHash (Span_ServiceName sp) ''service''"

definition ResolveSpan :: "sha \<Rightarrow> TraceSpan \<Rightarrow> (hash \<times> hash \<times> float64) op" where
  "ResolveSpan H sp =
     (let (mappingType, routePattern) = span_route sp in
      bind_op (Resolve_symbol H (target_service sp) routePattern mappingType) (\<lambda>(targetHash, confidence).
      ret (service_hash H sp, targetHash, confidence)))"

definition edgeTypeFromAttributes :: "(string, string) gomap \<Rightarrow> string" where
  "edgeTypeFromAttributes attrs =
     (if map_of attrs ''http.method'' \<noteq> None then ''runtime_calls''
      else if map_of attrs ''rpc.service'' \<noteq> None then ''runtime_rpc''
      else if (case map_of attrs ''messaging.system'' of Some s \<Rightarrow> s \<noteq> '''' | None \<Rightarrow> False) then
        (if map_of attrs ''messaging.destination'' \<noteq> None then ''runtime_produces'' else ''runtime_consumes'')
      else ''runtime_calls'')"

section \<open>Ingestion\<close>

record IngestResult =
  Created :: nat
  Updated :: nat

definition observe_edge :: "hash \<Rightarrow> int \<Rightarrow> int \<Rightarrow> float64 \<Rightarrow> unit op" where
  "observe_edge edgeHash newCount now newConfidence =
     exec_sql (\<lambda>d. d\<lparr>T_edges := update_where (\<lambda>e. EdgeHash e = edgeHash)
       (\<lambda>e. e\<lparr>ObservationCount := newCount, LastObserved := now, Confidence := newConfidence\<rparr>) (T_edges d)\<rparr>)"

definition runtime_edge :: "hash \<Rightarrow> hash \<Rightarrow> hash \<Rightarrow> string \<Rightarrow> float64 \<Rightarrow> string \<Rightarrow> int \<Rightarrow> edge_row" where
  "runtime_edge edgeHash sourceHash targetHash edgeType confidence provenance now =
     edge.extend \<lparr>EdgeHash = edgeHash, SourceHash = sourceHash, TargetHash = targetHash, EdgeType = edgeType,
       Confidence = confidence, Provenance = provenance, CallSiteLine = 0, CallSiteCol = 0, CallSiteFile = '''',
       ObservationCount = 1, LastObserved = now\<rparr> (edge_row.fields 0)"

text \<open>The event is written without the five data columns.\<close>

definition runtime_event :: "hash \<Rightarrow> int \<Rightarrow> db \<Rightarrow> db" where
  "runtime_event edgeHash now d =
     d\<lparr>T_events := T_events d @ [edge_event.extend \<lparr>EventID = NextEventID d, Ev_EdgeHash = edgeHash, EventType = ''added'',
         Ev_SnapshotHash = EmptyHash, SourceCommit = '''', IndexerVer = ''otel_ingestor'', Ev_Timestamp = now,
         Ev_SourceHash = 0, Ev_TargetHash = 0, Ev_EdgeType = '''', Ev_Confidence = 0, Ev_Provenance = ''''\<rparr>
         (event_row.fields False)],
       NextEventID := NextEventID d + 1\<rparr>"

definition ingest_span :: "sha \<Rightarrow> int \<Rightarrow> TraceSpan \<Rightarrow> bool op" where
  "ingest_span H now sp =
     bind_op (wrap_op ''resolve span'' (ResolveSpan H sp)) (\<lambda>(sourceHash, targetHash, confidence).
     let edgeType = edgeTypeFromAttributes (Attributes sp);
         provenance = BuildProvenance [TraceID sp];
         edgeHash = ComputeEdgeHash H sourceHash targetHash edgeType ''otel_trace''
     in bind_op (wrap_op ''check edge existence''
          (query_sql (\<lambda>d. map_option ObservationCount (find_row EdgeHash edgeHash (T_edges d))))) (\<lambda>existing.
        case existing of
          Some existingCount \<Rightarrow>
            let newCount = existingCount + 1 in
            bind_op (wrap_op ''update edge'' (observe_edge edgeHash newCount now (ComputeConfidence newCount 0)))
              (\<lambda>_. ret False)
        | None \<Rightarrow>
            let newConfidence = ComputeConfidence 1 0;
                newConfidence = (if confidence < newConfidence then confidence else newConfidence) in
            bind_op (wrap_op ''insert edge'' (exec_sql (\<lambda>d. d\<lparr>T_edges := T_edges d @
              [runtime_edge edgeHash sourceHash targetHash edgeType newConfidence provenance now]\<rparr>))) (\<lambda>_.
            bind_op (wrap_op ''record edge event'' (exec_sql (runtime_event edgeHash now))) (\<lambda>_.
            ret True))))"

text \<open>The code returns the counts so far together with the error.\<close>

fun ingest_loop :: "sha \<Rightarrow> (nat \<Rightarrow> int) \<Rightarrow> nat \<Rightarrow> TraceSpan list \<Rightarrow> IngestResult \<Rightarrow> store \<Rightarrow>
    (IngestResult \<times> go_error option) \<times> store" where
  "ingest_loop H clock i [] result s = ((result, None), s)"
| "ingest_loop H clock i (sp # sps) result s =
     (case ingest_span H (clock i) sp s of
        (Inl e, s) \<Rightarrow> ((result, Some e), s)
      | (Inr True, s) \<Rightarrow> ingest_loop H clock (i + 1) sps (result\<lparr>Created := Created result + 1\<rparr>) s
      | (Inr False, s) \<Rightarrow> ingest_loop H clock (i + 1) sps (result\<lparr>Updated := Updated result + 1\<rparr>) s)"

definition IngestSpans :: "sha \<Rightarrow> (nat \<Rightarrow> int) \<Rightarrow> TraceSpan list \<Rightarrow> store \<Rightarrow> (IngestResult \<times> go_error option) \<times> store" where
  "IngestSpans H clock spans = ingest_loop H clock 0 spans \<lparr>Created = 0, Updated = 0\<rparr>"

definition log_span :: "HTTPLogEntry \<Rightarrow> TraceSpan" where
  "log_span entry = \<lparr>TraceID = '''', SpanID = '''', ParentSpanID = '''', Span_ServiceName = HL_ServiceName entry,
     OperationName = HL_Method entry @ '' '' @ HL_Path entry, PeerService = '''',
     Attributes = [(''http.method'', HL_Method entry), (''http.route'', HL_Path entry)],
     StartTime = HL_Timestamp entry, Duration = HL_Duration entry\<rparr>"

definition IngestHTTPLogs :: "sha \<Rightarrow> (nat \<Rightarrow> int) \<Rightarrow> HTTPLogEntry list \<Rightarrow> store \<Rightarrow>
    (IngestResult \<times> go_error option) \<times> store" where
  "IngestHTTPLogs H clock entries = IngestSpans H clock (map log_span entries)"

section \<open>Batches\<close>

record Ingestor =
  BatchSize :: int
  pending :: "TraceSpan list"

definition FlushBatch :: "sha \<Rightarrow> (nat \<Rightarrow> int) \<Rightarrow> Ingestor \<Rightarrow> store \<Rightarrow> go_error option \<times> Ingestor \<times> store" where
  "FlushBatch H clock ing s =
     (let batch = pending ing; ing = ing\<lparr>pending := []\<rparr> in
      if length batch = 0 then (None, ing, s)
      else (case IngestSpans H clock batch s of ((_, err), s) \<Rightarrow> (err, ing, s)))"

definition AddToBatch :: "sha \<Rightarrow> (nat \<Rightarrow> int) \<Rightarrow> TraceSpan \<Rightarrow> Ingestor \<Rightarrow> store \<Rightarrow> Ingestor \<times> store" where
  "AddToBatch H clock sp ing s =
     (let ing = ing\<lparr>pending := pending ing @ [sp]\<rparr>;
          shouldFlush = (BatchSize ing > 0 \<and> int (length (pending ing)) \<ge> BatchSize ing)
      in if shouldFlush then (case FlushBatch H clock ing s of (_, ing, s) \<Rightarrow> (ing, s)) else (ing, s))"

section \<open>Statistics and decay\<close>

record RuntimeStats =
  RT_TotalEdges :: int
  BySourceType :: "(string, int) gomap"
  ActiveCount :: int
  StaleCount :: int
  RT_GCEligible :: int

text \<open>Go's integer division truncates towards zero.\<close>

definition go_div :: "int \<Rightarrow> int \<Rightarrow> int" where
  "go_div a b = sgn a * sgn b * (\<bar>a\<bar> div \<bar>b\<bar>)"

definition count_stats :: "int \<Rightarrow> edge_row \<Rightarrow> RuntimeStats \<Rightarrow> RuntimeStats" where
  "count_stats now e st =
     (let st = st\<lparr>RT_TotalEdges := RT_TotalEdges st + 1,
            BySourceType := gomap_set (EdgeType e)
              ((case map_of (BySourceType st) (EdgeType e) of None \<Rightarrow> 0 | Some n \<Rightarrow> n) + 1) (BySourceType st)\<rparr>;
          daysSince = go_div (now - LastObserved e) 86400
      in if daysSince \<le> 7 then st\<lparr>ActiveCount := ActiveCount st + 1\<rparr>
         else if daysSince > 90 then st\<lparr>RT_GCEligible := RT_GCEligible st + 1\<rparr>
         else if daysSince > 30 then st\<lparr>StaleCount := StaleCount st + 1\<rparr> else st)"

definition RuntimeEdgeStats :: "int \<Rightarrow> hash \<Rightarrow> RuntimeStats op" where
  "RuntimeEdgeStats now snap =
     wrap_op ''query runtime edges'' (query_sql (\<lambda>d. fold (count_stats now) (filter otel_edge (T_edges d))
       \<lparr>RT_TotalEdges = 0, BySourceType = [], ActiveCount = 0, StaleCount = 0, RT_GCEligible = 0\<rparr>))"

definition DecayConfidence :: "int \<Rightarrow> nat op" where
  "DecayConfidence now =
     (let threshold = now - 30 * 86400; stale = (\<lambda>e. otel_edge e \<and> LastObserved e < threshold \<and>
            LastObserved e > 0 \<and> Confidence e > 2 / 10) in
      wrap_op ''decay confidence'' (sql (\<lambda>d. (length (filter stale (T_edges d)),
        d\<lparr>T_edges := update_where stale (\<lambda>e. e\<lparr>Confidence := 2 / 10\<rparr>) (T_edges d)\<rparr>))))"

section \<open>OTLP\<close>

datatype any_value = StringValue string | IntValue int | BoolValue bool | DoubleValue "64 word" | OtherValue bytes

text \<open>\<open>None\<close> is a nil value.\<close>

definition stringValue :: "(64 word \<Rightarrow> string) \<Rightarrow> (bytes \<Rightarrow> string) \<Rightarrow> any_value option \<Rightarrow> string" where
  "stringValue fmt_g fmt_v v =
     (case v of
        None \<Rightarrow> ''''
      | Some (StringValue x) \<Rightarrow> x
      | Some (IntValue i) \<Rightarrow> (if i < 0 then ''-'' @ decimal (nat (- i)) else decimal (nat i))
      | Some (BoolValue b) \<Rightarrow> (if b then ''true'' else ''false'')
      | Some (DoubleValue x) \<Rightarrow> fmt_g x
      | Some (OtherValue x) \<Rightarrow> fmt_v x)"

type_synonym key_values = "(string \<times> any_value option) list"

record otlp_span =
  TraceId :: bytes
  SpanId :: bytes
  ParentSpanId :: bytes
  SpanName :: string
  StartTimeUnixNano :: "64 word"
  EndTimeUnixNano :: "64 word"
  SpanAttributes :: key_values

record resource_spans =
  ResourceAttributes :: "key_values option"
  ScopeSpans :: "otlp_span list list"

definition extractServiceName :: "key_values option \<Rightarrow> string" where
  "extractServiceName res =
     (case res of
        None \<Rightarrow> ''''
      | Some attrs \<Rightarrow>
        (case map_of attrs ''service.name'' of Some (Some (StringValue x)) \<Rightarrow> x | _ \<Rightarrow> ''''))"

definition convert_attribute :: "(any_value option \<Rightarrow> string) \<Rightarrow> string \<times> any_value option \<Rightarrow>
    (string, string) gomap \<times> string \<Rightarrow> (string, string) gomap \<times> string" where
  "convert_attribute str kv acc =
     (let val = str (snd kv) in
      (gomap_set (fst kv) val (fst acc), if fst kv = ''peer.service'' then val else snd acc))"

definition convertOTLPSpan :: "(any_value option \<Rightarrow> string) \<Rightarrow> otlp_span \<Rightarrow> string \<Rightarrow> TraceSpan" where
  "convertOTLPSpan str sp serviceName =
     (let (attrs, peerService) = fold (convert_attribute str) (SpanAttributes sp) ([], '''');
          startNano = StartTimeUnixNano sp; endNano = EndTimeUnixNano sp in
      \<lparr>TraceID = hex_EncodeToString (TraceId sp), SpanID = hex_EncodeToString (SpanId sp),
       ParentSpanID = hex_EncodeToString (ParentSpanId sp), Span_ServiceName = serviceName,
       OperationName = SpanName sp, PeerService = peerService, Attributes = attrs,
       StartTime = (if startNano > 0 then Some (sint startNano) else None),
       Duration = (if endNano > startNano then sint (endNano - startNano) else 0)\<rparr>)"

datatype HealthState = HealthConnected | HealthReconnecting | HealthDisconnected | HealthDisabled

text \<open>\<open>listen_error\<close> is the outcome of binding the address.\<close>

definition Start :: "go_error option \<Rightarrow> HealthState \<Rightarrow> go_error option \<times> HealthState" where
  "Start listen_error health =
     (if health = HealthConnected then (Some (Errorf ''otlp receiver already started''), health)
      else (case listen_error of
              Some e \<Rightarrow> (Some (Wrap ''otlp receiver listen'' e), health)
            | None \<Rightarrow> (None, HealthConnected)))"

definition Stop :: "HealthState \<Rightarrow> HealthState" where
  "Stop health = HealthDisabled"

definition request_spans :: "(any_value option \<Rightarrow> string) \<Rightarrow> resource_spans list \<Rightarrow> TraceSpan list" where
  "request_spans str req = concat (map (\<lambda>rs. let serviceName = extractServiceName (ResourceAttributes rs) in
     concat (map (map (\<lambda>sp. convertOTLPSpan str sp serviceName)) (ScopeSpans rs))) req)"

fun add_all :: "sha \<Rightarrow> (nat \<Rightarrow> nat \<Rightarrow> int) \<Rightarrow> nat \<Rightarrow> TraceSpan list \<Rightarrow> Ingestor \<times> store \<Rightarrow> Ingestor \<times> store" where
  "add_all H clocks k [] st = st"
| "add_all H clocks k (sp # sps) (ing, s) = add_all H clocks (k + 1) sps (AddToBatch H (clocks k) sp ing s)"

definition ExportSpans :: "sha \<Rightarrow> (nat \<Rightarrow> nat \<Rightarrow> int) \<Rightarrow> HealthState \<Rightarrow> TraceSpan list \<Rightarrow> Ingestor \<Rightarrow> store \<Rightarrow>
    go_error option \<times> Ingestor \<times> store" where
  "ExportSpans H clocks health spans ing s =
     (if health \<noteq> HealthConnected then (Some (Errorf ''otlp receiver not connected''), ing, s)
      else (None, add_all H clocks 0 spans (ing, s)))"

definition Export :: "sha \<Rightarrow> (nat \<Rightarrow> nat \<Rightarrow> int) \<Rightarrow> (any_value option \<Rightarrow> string) \<Rightarrow> HealthState \<Rightarrow> resource_spans list \<Rightarrow>
    Ingestor \<Rightarrow> store \<Rightarrow> go_error option \<times> Ingestor \<times> store" where
  "Export H clocks str health req ing s =
     (if health \<noteq> HealthConnected then (Some (Errorf ''otlp receiver not connected''), ing, s)
      else (None, add_all H clocks 0 (request_spans str req) (ing, s)))"

section \<open>One span\<close>

definition span_target :: "sha \<Rightarrow> db \<Rightarrow> TraceSpan \<Rightarrow> hash \<times> float64" where
  "span_target H d sp =
     (case find_row route_key (target_service sp, snd (span_route sp), fst (span_route sp)) (T_routes d) of
        Some r \<Rightarrow> (RS_NodeHash r, 1)
      | None \<Rightarrow> (ComputeNodeHash H (target_service sp) ''UNRESOLVED'' EmptyHash (snd (span_route sp)) ''runtime_endpoint'', 3 / 10))"

definition span_edge :: "sha \<Rightarrow> db \<Rightarrow> TraceSpan \<Rightarrow> hash" where
  "span_edge H d sp = ComputeEdgeHash H (service_hash H sp) (fst (span_target H d sp))
     (edgeTypeFromAttributes (Attributes sp)) ''otel_trace''"

abbreviation edge_at :: "db \<Rightarrow> hash \<Rightarrow> edge_row option" where
  "edge_at d h \<equiv> find_row EdgeHash h (T_edges d)"

definition first_row :: "sha \<Rightarrow> int \<Rightarrow> TraceSpan \<Rightarrow> db \<Rightarrow> edge_row" where
  "first_row H now sp d = runtime_edge (span_edge H d sp) (service_hash H sp) (fst (span_target H d sp))
     (edgeTypeFromAttributes (Attributes sp)) (min (snd (span_target H d sp)) (5 / 10)) (BuildProvenance [TraceID sp]) now"

definition next_row :: "int \<Rightarrow> edge_row \<Rightarrow> edge_row" where
  "next_row now r = r\<lparr>ObservationCount := ObservationCount r + 1, LastObserved := now,
     Confidence := ConfidenceFromCount (ObservationCount r + 1)\<rparr>"

definition ingested :: "sha \<Rightarrow> int \<Rightarrow> TraceSpan \<Rightarrow> db \<Rightarrow> db" where
  "ingested H now sp d =
     (case edge_at d (span_edge H d sp) of
        Some r \<Rightarrow> d\<lparr>T_edges := update_where (\<lambda>e. EdgeHash e = span_edge H d sp)
          (\<lambda>e. e\<lparr>ObservationCount := ObservationCount r + 1, LastObserved := now,
                 Confidence := ConfidenceFromCount (ObservationCount r + 1)\<rparr>) (T_edges d)\<rparr>
      | None \<Rightarrow> runtime_event (span_edge H d sp) now (d\<lparr>T_edges := T_edges d @ [first_row H now sp d]\<rparr>))"

lemma ResolveSpan_run:
  "Faults s = [] \<Longrightarrow> ResolveSpan H sp s =
     (Inr (service_hash H sp, fst (span_target H (DB s) sp), snd (span_target H (DB s) sp)), s)"
  unfolding ResolveSpan_def Resolve_symbol_def GetRouteSymbol_def span_target_def Let_def case_prod_unfold bind_op_def
  by (simp add: db_simps ret_def split: option.split)

lemma ingest_span_run:
  assumes "Faults s = []"
  shows "ingest_span H now sp s = (Inr (edge_at (DB s) (span_edge H (DB s) sp) = None), s\<lparr>DB := ingested H now sp (DB s)\<rparr>)"
proof -
  have resolve: "wrap_op msg (ResolveSpan H sp) s =
      (Inr (service_hash H sp, fst (span_target H (DB s) sp), snd (span_target H (DB s) sp)), s)" for msg
    by (simp add: wrap_op_def ResolveSpan_run [OF assms])
  have conf: "(if c < ComputeConfidence 1 0 then c else ComputeConfidence 1 0) = min c (5 / 10)" for c
    by (simp add: ComputeConfidence_def ConfidenceFromCount_def min_def)
  have query: "wrap_op msg (query_sql f) s = (Inr (f (DB s)), s)" for msg and f :: "db \<Rightarrow> int option"
    using assms by (simp add: wrap_op_def db_simps)
  have exec: "wrap_op msg (exec_sql g) t = (Inr (), t\<lparr>DB := g (DB t)\<rparr>)" if "Faults t = []" for msg g t
    using that by (simp add: wrap_op_def db_simps)
  show ?thesis
  proof (cases "edge_at (DB s) (span_edge H (DB s) sp)")
    case None
    then show ?thesis
      unfolding ingest_span_def bind_op_def resolve prod.case sum.case Let_def query conf
      using assms by (simp add: span_edge_def [symmetric] exec ret_def ingested_def first_row_def)
  next
    case (Some r)
    then show ?thesis
      unfolding ingest_span_def bind_op_def resolve prod.case sum.case Let_def query conf
      using assms by (simp add: span_edge_def [symmetric] observe_edge_def exec ret_def ingested_def ComputeConfidence_def)
  qed
qed

lemma ingested_keeps [simp]:
  "T_routes (ingested H now sp d) = T_routes d" "T_nodes (ingested H now sp d) = T_nodes d"
  by (auto simp: ingested_def runtime_event_def split: option.split)

lemma span_target_ingested [simp]: "span_target H (ingested H now sp d) = span_target H d"
  by (simp add: span_target_def fun_eq_iff)

lemma span_edge_ingested [simp]: "span_edge H (ingested H now sp d) = span_edge H d"
  by (simp add: span_edge_def fun_eq_iff)

lemma find_row_update:
  assumes "\<And>r. key (f r) = key r"
  shows "find_row key k (update_where (\<lambda>r. key r = h) f t) =
    (if k = h then map_option f (find_row key k t) else find_row key k t)"
  unfolding find_row_def update_where_def by (induction t) (auto simp: assms)

lemma row_fields [simp]:
  "EdgeHash (first_row H now sp d) = span_edge H d sp"
  "TargetHash (first_row H now sp d) = fst (span_target H d sp)"
  "ObservationCount (first_row H now sp d) = 1"
  "Confidence (first_row H now sp d) = min (snd (span_target H d sp)) (5 / 10)"
  "TargetHash (next_row now r) = TargetHash r"
  "ObservationCount (next_row now r) = ObservationCount r + 1"
  "Confidence (next_row now r) = ConfidenceFromCount (ObservationCount r + 1)"
  by (simp_all add: first_row_def next_row_def runtime_edge_def edge.defs)

lemma edge_at_ingested:
  "edge_at (ingested H now sp d) h =
     (if h = span_edge H d sp then Some (case edge_at d h of None \<Rightarrow> first_row H now sp d | Some r \<Rightarrow> next_row now r)
      else edge_at d h)"
proof (cases "edge_at d (span_edge H d sp)")
  case None
  have "find_row EdgeHash h [first_row H now sp d] = (if h = span_edge H d sp then Some (first_row H now sp d) else None)"
    by (simp add: find_row_def)
  with None show ?thesis by (auto simp: ingested_def runtime_event_def find_row_append split: option.split)
next
  case (Some r)
  then show ?thesis by (auto simp: ingested_def next_row_def find_row_update)
qed

section \<open>A batch of spans\<close>

primrec ingest_db :: "sha \<Rightarrow> (nat \<Rightarrow> int) \<Rightarrow> nat \<Rightarrow> TraceSpan list \<Rightarrow> db \<Rightarrow> db" where
  "ingest_db H clock i [] d = d"
| "ingest_db H clock i (sp # sps) d = ingest_db H clock (i + 1) sps (ingested H (clock i) sp d)"

primrec new_edges :: "sha \<Rightarrow> (nat \<Rightarrow> int) \<Rightarrow> nat \<Rightarrow> TraceSpan list \<Rightarrow> db \<Rightarrow> nat" where
  "new_edges H clock i [] d = 0"
| "new_edges H clock i (sp # sps) d =
     (if edge_at d (span_edge H d sp) = None then 1 else 0) + new_edges H clock (i + 1) sps (ingested H (clock i) sp d)"

lemma ingest_loop_run:
  assumes "Faults s = []"
  shows "ingest_loop H clock i sps result s =
    ((\<lparr>Created = Created result + new_edges H clock i sps (DB s),
       Updated = Updated result + (length sps - new_edges H clock i sps (DB s))\<rparr>, None),
     s\<lparr>DB := ingest_db H clock i sps (DB s)\<rparr>) \<and> new_edges H clock i sps (DB s) \<le> length sps"
  using assms
proof (induction sps arbitrary: i result s)
  case (Cons sp sps)
  let ?s1 = "s\<lparr>DB := ingested H (clock i) sp (DB s)\<rparr>"
  let ?m = "new_edges H clock (i + 1) sps (ingested H (clock i) sp (DB s))"
  have f: "Faults ?s1 = []" using Cons.prems by simp
  have "?m \<le> length sps" using Cons.IH [OF f, of "i + 1" result] by simp
  then have diff: "Suc (u + length sps - ?m) = Suc (u + length sps) - ?m" for u by simp
  show ?case
    using Cons.IH [OF f, of "i + 1" "result\<lparr>Created := Created result + 1\<rparr>"]
      Cons.IH [OF f, of "i + 1" "result\<lparr>Updated := Updated result + 1\<rparr>"]
    by (cases "edge_at (DB s) (span_edge H (DB s) sp)") (simp_all add: ingest_span_run [OF Cons.prems] diff [simplified])
qed simp

definition hits :: "sha \<Rightarrow> db \<Rightarrow> hash \<Rightarrow> TraceSpan list \<Rightarrow> nat" where
  "hits H d h sps = length (filter (\<lambda>sp. span_edge H d sp = h) sps)"

lemma hits_Cons [simp]: "hits H d h (sp # sps) = (if span_edge H d sp = h then 1 else 0) + hits H d h sps"
  by (simp add: hits_def)

lemma hits_ingested [simp]: "hits H (ingested H now sp d) = hits H d"
  by (simp add: hits_def fun_eq_iff)

definition observations :: "edge_row option \<Rightarrow> int" where
  "observations row = (case row of None \<Rightarrow> 0 | Some r \<Rightarrow> ObservationCount r)"

text \<open>What \<open>k\<close> observations make of a row.\<close>

definition observed :: "nat \<Rightarrow> edge_row option \<Rightarrow> edge_row option \<Rightarrow> bool" where
  "observed k before after \<longleftrightarrow>
     (if k = 0 then after = before
      else (\<exists>r. after = Some r \<and> ObservationCount r = observations before + int k \<and>
        (before \<noteq> None \<or> 2 \<le> k \<longrightarrow> Confidence r = ConfidenceFromCount (ObservationCount r)) \<and>
        (before = None \<and> k = 1 \<longrightarrow> Confidence r \<le> 5 / 10)))"

lemma ingest_db_observed: "observed (hits H d h sps) (edge_at d h) (edge_at (ingest_db H clock i sps d) h)"
proof (induction sps arbitrary: i d)
  case Nil
  show ?case by (simp add: observed_def hits_def)
next
  case (Cons sp sps)
  let ?d = "ingested H (clock i) sp d"
  have IH: "observed (hits H d h sps) (edge_at ?d h) (edge_at (ingest_db H clock (i + 1) sps ?d) h)"
    using Cons.IH [of ?d "i + 1"] by simp
  show ?case
  proof (cases "span_edge H d sp = h")
    case False
    with IH show ?thesis by (simp add: edge_at_ingested)
  next
    case True
    then obtain r where r: "edge_at ?d h = Some r" "ObservationCount r = observations (edge_at d h) + 1"
      "edge_at d h \<noteq> None \<Longrightarrow> Confidence r = ConfidenceFromCount (ObservationCount r)"
      "edge_at d h = None \<Longrightarrow> Confidence r \<le> 5 / 10"
      by (cases "edge_at d h") (auto simp: edge_at_ingested observations_def)
    show ?thesis
      using IH True r by (cases "hits H d h sps") (auto simp: observed_def observations_def)
  qed
qed

lemma ingest_db_events:
  "length (T_events (ingest_db H clock i sps d)) = length (T_events d) + new_edges H clock i sps d"
  by (induction sps arbitrary: i d) (auto simp: ingested_def runtime_event_def split: option.splits)

lemma ingest_db_edges:
  "length (T_edges (ingest_db H clock i sps d)) = length (T_edges d) + new_edges H clock i sps d"
  by (induction sps arbitrary: i d) (auto simp: ingested_def runtime_event_def update_where_def split: option.splits)

text \<open>
  Ingestion counts: without faults a batch is ingested completely, every span is either a new
  edge or an observation of a known one, one event is written per new edge, and for every edge hash
  the count grows by the number of spans of the batch that resolve to it, with the confidence of
  that count; edges no span resolves to, and the routes, are unchanged.
\<close>

lemma IngestSpans_counts:
  assumes "Faults s = []"
  shows "\<exists>res s'. IngestSpans H clock spans s = ((res, None), s') \<and> Created res + Updated res = length spans \<and>
    length (T_edges (DB s')) = length (T_edges (DB s)) + Created res \<and>
    length (T_events (DB s')) = length (T_events (DB s)) + Created res \<and>
    (\<forall>h. observed (hits H (DB s) h spans) (edge_at (DB s) h) (edge_at (DB s') h))"
  using ingest_loop_run [OF assms, of H clock 0 spans "\<lparr>Created = 0, Updated = 0\<rparr>"]
    ingest_db_observed ingest_db_events ingest_db_edges
  by (auto simp: IngestSpans_def)

definition sample_span :: TraceSpan where
  "sample_span = \<lparr>TraceID = ''t1'', SpanID = ''s1'', ParentSpanID = '''', Span_ServiceName = ''web'',
     OperationName = ''op'', PeerService = ''api'', Attributes = [(''http.method'', ''GET''), (''http.route'', ''/x'')],
     StartTime = None, Duration = 0\<rparr>"

lemma IngestSpans_counts_witness:
  "\<exists>res s'. IngestSpans (\<lambda>bs. of_nat (length bs)) int [sample_span, sample_span] (open_store empty_db []) = ((res, None), s') \<and>
     (\<exists>r. edge_at (DB s') (span_edge (\<lambda>bs. of_nat (length bs)) empty_db sample_span) = Some r \<and> ObservationCount r = 2 \<and>
        Confidence r = 5 / 10)"
proof -
  let ?H = "\<lambda>bs :: bytes. of_nat (length bs) :: hash" and ?h = "span_edge (\<lambda>bs. of_nat (length bs)) empty_db sample_span"
  have f: "Faults (open_store empty_db []) = []" "DB (open_store empty_db []) = empty_db" by (simp_all add: open_store_def)
  have "hits ?H empty_db ?h [sample_span, sample_span] = 2" "edge_at empty_db ?h = None"
    by (simp_all add: hits_def empty_db_def)
  moreover from IngestSpans_counts [OF f(1), of ?H int "[sample_span, sample_span]"] obtain res s' where
    run: "IngestSpans ?H int [sample_span, sample_span] (open_store empty_db []) = ((res, None), s')"
    and "observed (hits ?H empty_db ?h [sample_span, sample_span]) (edge_at empty_db ?h) (edge_at (DB s') ?h)"
    unfolding f(2) by blast
  ultimately have "observed 2 None (edge_at (DB s') ?h)" by metis
  then have "\<exists>r. edge_at (DB s') ?h = Some r \<and> ObservationCount r = 2 \<and> Confidence r = 5 / 10"
    by (auto simp: observed_def observations_def ConfidenceFromCount_def)
  with run show ?thesis by blast
qed

text \<open>
  The low confidence of an unresolved endpoint does not last: a span without a route gets an
  edge of confidence 0.3, and the second observation of the same unresolved endpoint raises it to
  the 0.5 of a resolved one; further ones to up to 0.95.
\<close>

lemma unresolved_confidence_rises:
  assumes "Faults s = []" "edge_at (DB s) (span_edge H (DB s) sp) = None"
    and "snd (span_target H (DB s) sp) = 3 / 10" "0 < k"
  shows "\<exists>res s' r. IngestSpans H clock (replicate k sp) s = ((res, None), s') \<and>
    edge_at (DB s') (span_edge H (DB s) sp) = Some r \<and> TargetHash r = fst (span_target H (DB s) sp) \<and>
    Confidence r = (if k = 1 then 3 / 10 else ConfidenceFromCount (int k))"
proof -
  let ?h = "span_edge H (DB s) sp"
  have rows: "\<exists>r. edge_at (ingest_db H clock i (replicate n sp) d) ?h = Some r \<and>
      TargetHash r = fst (span_target H (DB s) sp) \<and>
      Confidence r = (if n = 0 then Confidence r0 else ConfidenceFromCount (ObservationCount r0 + int n))"
    if "span_target H d = span_target H (DB s)" "edge_at d ?h = Some r0" "TargetHash r0 = fst (span_target H (DB s) sp)"
    for n i d r0
    using that
  proof (induction n arbitrary: i d r0)
    case (Suc n)
    let ?d = "ingested H (clock i) sp d" and ?r = "next_row (clock i) r0"
    have h: "span_edge H d sp = ?h" using Suc.prems(1) by (simp add: span_edge_def)
    have "edge_at ?d ?h = Some ?r" by (simp add: edge_at_ingested h Suc.prems(2))
    from Suc.IH [OF _ this, of "i + 1"] Suc.prems show ?case
      by (auto simp: algebra_simps split: if_splits)
  qed simp
  from assms(4) obtain n where n: "k = Suc n" by (cases k) auto
  have "edge_at (ingested H (clock 0) sp (DB s)) ?h = Some (first_row H (clock 0) sp (DB s))"
    by (simp add: edge_at_ingested assms(2))
  from rows [OF span_target_ingested this row_fields(2), of 1 n] obtain r where
    r: "edge_at (ingest_db H clock 1 (replicate n sp) (ingested H (clock 0) sp (DB s))) ?h = Some r"
    "TargetHash r = fst (span_target H (DB s) sp)"
    "Confidence r = (if n = 0 then min (snd (span_target H (DB s) sp)) (5 / 10) else ConfidenceFromCount (1 + int n))"
    unfolding row_fields by blast
  have conf: "min (snd (span_target H (DB s) sp)) (5 / 10) = 3 / 10" unfolding assms(3) by (simp add: min_def)
  have "Confidence r = (if k = 1 then 3 / 10 else ConfidenceFromCount (int k))" using r(3) unfolding conf by (simp add: n)
  with r(1,2) have "edge_at (ingest_db H clock 0 (replicate k sp) (DB s)) ?h = Some r \<and>
    TargetHash r = fst (span_target H (DB s) sp) \<and> Confidence r = (if k = 1 then 3 / 10 else ConfidenceFromCount (int k))"
    by (simp add: n)
  then show ?thesis
    using ingest_loop_run [OF assms(1), of H clock 0 "replicate k sp" "\<lparr>Created = 0, Updated = 0\<rparr>"]
    by (simp add: IngestSpans_def)
qed

lemma unresolved_confidence_rises_witness:
  "\<exists>res s' r. IngestSpans (\<lambda>bs. of_nat (length bs)) int (replicate 1001 sample_span) (open_store empty_db []) = ((res, None), s') \<and>
     edge_at (DB s') (span_edge (\<lambda>bs. of_nat (length bs)) empty_db sample_span) = Some r \<and> Confidence r = 95 / 100"
proof -
  let ?H = "\<lambda>bs :: bytes. of_nat (length bs) :: hash"
  have "Faults (open_store empty_db []) = []" "DB (open_store empty_db []) = empty_db" by (simp_all add: open_store_def)
  moreover have "edge_at empty_db (span_edge ?H empty_db sample_span) = None"
    "snd (span_target ?H empty_db sample_span) = 3 / 10"
    by (simp_all add: empty_db_def span_target_def)
  ultimately show ?thesis
    using unresolved_confidence_rises [of "open_store empty_db []" ?H sample_span 1001 int]
    by (auto simp: ConfidenceFromCount_def)
qed

section \<open>Batching\<close>

text \<open>
  A failed flush loses the batch: when adding a span fills the batch and the first statement of
  the flush fails, the pending spans are gone, the database is unchanged and no error is reported.
\<close>

lemma AddToBatch_drops_batch:
  assumes "BatchSize ing > 0" "int (length (pending ing)) + 1 \<ge> BatchSize ing" "Faults s = True # fs"
  shows "AddToBatch H clock sp ing s = (ing\<lparr>pending := []\<rparr>, s\<lparr>Faults := fs\<rparr>)"
proof -
  have fail: "ingest_span H now x s = (Inl (Wrap ''resolve span'' DriverError), s\<lparr>Faults := fs\<rparr>)" for now x
  proof -
    have "query_sql f s = (Inl DriverError, s\<lparr>Faults := fs\<rparr>)" for f :: "db \<Rightarrow> route_row option"
      using assms(3) by (simp add: query_sql_def sql_def)
    then show ?thesis
      by (simp add: ingest_span_def ResolveSpan_def Resolve_symbol_def GetRouteSymbol_def bind_op_def wrap_op_def case_prod_unfold Let_def)
  qed
  obtain y ys where batch: "pending ing @ [sp] = y # ys" by (cases "pending ing") auto
  have "IngestSpans H clock (y # ys) s = ((\<lparr>Created = 0, Updated = 0\<rparr>, Some (Wrap ''resolve span'' DriverError)), s\<lparr>Faults := fs\<rparr>)"
    by (simp add: IngestSpans_def fail)
  moreover have "length ys = length (pending ing)" using arg_cong [OF batch, of length] by simp
  ultimately show ?thesis
    using assms(1,2) batch by (simp add: AddToBatch_def FlushBatch_def Let_def)
qed

lemma AddToBatch_drops_batch_witness:
  "AddToBatch (\<lambda>bs. of_nat (length bs)) int sample_span \<lparr>BatchSize = 2, pending = [sample_span]\<rparr> (open_store empty_db [True]) =
     (\<lparr>BatchSize = 2, pending = []\<rparr>, open_store empty_db [])"
  using AddToBatch_drops_batch [of "\<lparr>BatchSize = 2, pending = [sample_span]\<rparr>" "open_store empty_db [True]" "[]"
      "\<lambda>bs. of_nat (length bs)" int sample_span]
  by (simp add: open_store_def)

lemma ingest_db_append:
  "ingest_db H (\<lambda>_. now) i (xs @ ys) d = ingest_db H (\<lambda>_. now) j ys (ingest_db H (\<lambda>_. now) i xs d)"
proof (induction xs arbitrary: i d)
  case Nil
  have "ingest_db H (\<lambda>_. now) i ys d = ingest_db H (\<lambda>_. now) j ys d" for i j d
    by (induction ys arbitrary: i j d) auto
  then show ?case by simp
next
  case (Cons x xs)
  then show ?case by simp
qed

lemma FlushBatch_run:
  assumes "Faults s = []"
  shows "FlushBatch H (\<lambda>_. now) ing s =
    (None, ing\<lparr>pending := []\<rparr>, s\<lparr>DB := ingest_db H (\<lambda>_. now) 0 (pending ing) (DB s)\<rparr>)"
  using ingest_loop_run [OF assms, of H "\<lambda>_. now" 0 "pending ing" "\<lparr>Created = 0, Updated = 0\<rparr>"]
  by (auto simp: FlushBatch_def Let_def IngestSpans_def)

lemma AddToBatch_run:
  assumes "Faults s = []"
  shows "\<exists>ing' s'. AddToBatch H (\<lambda>_. now) sp ing s = (ing', s') \<and> Faults s' = [] \<and> BatchSize ing' = BatchSize ing \<and>
    ingest_db H (\<lambda>_. now) 0 (pending ing') (DB s') = ingest_db H (\<lambda>_. now) 0 (pending ing @ [sp]) (DB s) \<and>
    s'\<lparr>DB := d\<rparr> = s\<lparr>DB := d\<rparr> \<and> (0 < BatchSize ing \<longrightarrow> int (length (pending ing')) < BatchSize ing)"
proof (cases "BatchSize ing > 0 \<and> int (length (pending ing @ [sp])) \<ge> BatchSize ing")
  case True
  then show ?thesis
    using assms by (simp add: AddToBatch_def Let_def FlushBatch_run)
next
  case False
  then show ?thesis using assms by (auto simp: AddToBatch_def Let_def)
qed

lemma add_all_run:
  assumes "Faults s = []"
  shows "\<exists>ing' s'. add_all H (\<lambda>_ _. now) k sps (ing, s) = (ing', s') \<and> Faults s' = [] \<and>
    ingest_db H (\<lambda>_. now) 0 (pending ing') (DB s') = ingest_db H (\<lambda>_. now) 0 (pending ing @ sps) (DB s) \<and>
    (\<forall>d. s'\<lparr>DB := d\<rparr> = s\<lparr>DB := d\<rparr>)"
  using assms
proof (induction sps arbitrary: k ing s)
  case (Cons sp sps)
  from AddToBatch_run [OF Cons.prems, of H now sp ing] obtain ing1 s1 where
    one: "AddToBatch H (\<lambda>_. now) sp ing s = (ing1, s1)" "Faults s1 = []"
    "ingest_db H (\<lambda>_. now) 0 (pending ing1) (DB s1) = ingest_db H (\<lambda>_. now) 0 (pending ing @ [sp]) (DB s)"
    by blast
  have other: "s1\<lparr>DB := d\<rparr> = s\<lparr>DB := d\<rparr>" for d
    using AddToBatch_run [OF Cons.prems, of H now sp ing d] one(1) by simp
  from Cons.IH [OF one(2), of "k + 1" ing1] obtain ing' s' where
    rest: "add_all H (\<lambda>_ _. now) (k + 1) sps (ing1, s1) = (ing', s')" "Faults s' = []"
    "ingest_db H (\<lambda>_. now) 0 (pending ing') (DB s') = ingest_db H (\<lambda>_. now) 0 (pending ing1 @ sps) (DB s1)"
    "\<forall>d. s'\<lparr>DB := d\<rparr> = s1\<lparr>DB := d\<rparr>" by blast
  have "ingest_db H (\<lambda>_. now) 0 (pending ing1 @ sps) (DB s1) = ingest_db H (\<lambda>_. now) 0 ((pending ing @ [sp]) @ sps) (DB s)"
    unfolding ingest_db_append [where j = 0] one(3) [unfolded ingest_db_append [where j = 0]] ..
  with one(1) rest other show ?case by simp
qed simp

text \<open>
  C22. Batching is transparent: without faults, exporting spans in batches of any size and flushing
  what is pending at the end leaves the store exactly as ingesting all spans at once does, and
  nothing pending.
\<close>

theorem batching_transparent:
  assumes "Faults s = []"
  shows "case ExportSpans H (\<lambda>_ _. now) HealthConnected spans \<lparr>BatchSize = n, pending = []\<rparr> s of (err, ing, s1) \<Rightarrow>
    case FlushBatch H (\<lambda>_. now) ing s1 of (err', ing', s2) \<Rightarrow>
      err = None \<and> err' = None \<and> pending ing' = [] \<and> s2 = snd (IngestSpans H (\<lambda>_. now) spans s)"
proof -
  from add_all_run [OF assms, of H now 0 spans "\<lparr>BatchSize = n, pending = []\<rparr>"] obtain ing s1 where
    run: "add_all H (\<lambda>_ _. now) 0 spans (\<lparr>BatchSize = n, pending = []\<rparr>, s) = (ing, s1)" "Faults s1 = []"
    "ingest_db H (\<lambda>_. now) 0 (pending ing) (DB s1) = ingest_db H (\<lambda>_. now) 0 spans (DB s)"
    "\<forall>d. s1\<lparr>DB := d\<rparr> = s\<lparr>DB := d\<rparr>" by auto
  have "snd (IngestSpans H (\<lambda>_. now) spans s) = s\<lparr>DB := ingest_db H (\<lambda>_. now) 0 spans (DB s)\<rparr>"
    using ingest_loop_run [OF assms, of H "\<lambda>_. now" 0 spans "\<lparr>Created = 0, Updated = 0\<rparr>"] by (simp add: IngestSpans_def)
  with run show ?thesis by (simp add: ExportSpans_def FlushBatch_run)
qed

theorem batching_transparent_witness:
  "case ExportSpans (\<lambda>bs. of_nat (length bs)) (\<lambda>_ _. 5) HealthConnected [sample_span, sample_span, sample_span]
      \<lparr>BatchSize = 2, pending = []\<rparr> (open_store empty_db []) of (err, ing, s1) \<Rightarrow>
    case FlushBatch (\<lambda>bs. of_nat (length bs)) (\<lambda>_. 5) ing s1 of (err', ing', s2) \<Rightarrow>
      err = None \<and> err' = None \<and> pending ing' = [] \<and>
      s2 = snd (IngestSpans (\<lambda>bs. of_nat (length bs)) (\<lambda>_. 5) [sample_span, sample_span, sample_span] (open_store empty_db []))"
  by (rule batching_transparent) (simp add: open_store_def)

section \<open>Two statistics\<close>

lemma days_le: "go_div a 86400 \<le> n \<longleftrightarrow> a < (n + 1) * 86400" if "0 \<le> n" for a n :: int
proof (cases "0 \<le> a")
  case True
  then have "go_div a 86400 = a div 86400" by (cases "a = 0") (simp_all add: go_div_def)
  also have "\<dots> \<le> n \<longleftrightarrow> a < (n + 1) * 86400"
  proof -
    have "a = 86400 * (a div 86400) + a mod 86400" "0 \<le> a mod 86400" "a mod 86400 < 86400" by simp_all
    then show ?thesis by (smt (verit))
  qed
  finally show ?thesis .
next
  case False
  then have "go_div a 86400 = - (- a div 86400)" by (simp add: go_div_def)
  moreover have "0 \<le> - a div 86400" using False by (simp add: pos_imp_zdiv_nonneg_iff)
  ultimately show ?thesis using that False by (smt (verit) mult_nonneg_nonneg)
qed

lemma count_stats_one:
  "RT_TotalEdges (count_stats now e st) = RT_TotalEdges st + 1"
  "ActiveCount (count_stats now e st) = ActiveCount st + (if now - LastObserved e < 8 * 86400 then 1 else 0)"
  "StaleCount (count_stats now e st) = StaleCount st +
     (if 31 * 86400 \<le> now - LastObserved e \<and> now - LastObserved e < 91 * 86400 then 1 else 0)"
  "RT_GCEligible (count_stats now e st) = RT_GCEligible st + (if 91 * 86400 \<le> now - LastObserved e then 1 else 0)"
proof -
  have days: "go_div (now - LastObserved e) 86400 \<le> 7 \<longleftrightarrow> now - LastObserved e < 8 * 86400"
    "go_div (now - LastObserved e) 86400 > 30 \<longleftrightarrow> 31 * 86400 \<le> now - LastObserved e"
    "go_div (now - LastObserved e) 86400 > 90 \<longleftrightarrow> 91 * 86400 \<le> now - LastObserved e"
    using days_le [of 7 "now - LastObserved e"] days_le [of 30 "now - LastObserved e"] days_le [of 90 "now - LastObserved e"]
    by (simp_all flip: not_le)
  show "RT_TotalEdges (count_stats now e st) = RT_TotalEdges st + 1"
    "ActiveCount (count_stats now e st) = ActiveCount st + (if now - LastObserved e < 8 * 86400 then 1 else 0)"
    "StaleCount (count_stats now e st) = StaleCount st +
       (if 31 * 86400 \<le> now - LastObserved e \<and> now - LastObserved e < 91 * 86400 then 1 else 0)"
    "RT_GCEligible (count_stats now e st) = RT_GCEligible st + (if 91 * 86400 \<le> now - LastObserved e then 1 else 0)"
    unfolding count_stats_def Let_def days by auto
qed

lemma count_stats_fold:
  "RT_TotalEdges (fold (count_stats now) es st) = RT_TotalEdges st + int (length es)"
  "ActiveCount (fold (count_stats now) es st) = ActiveCount st + int (length (filter (\<lambda>e. now - LastObserved e < 8 * 86400) es))"
  "StaleCount (fold (count_stats now) es st) = StaleCount st +
     int (length (filter (\<lambda>e. 31 * 86400 \<le> now - LastObserved e \<and> now - LastObserved e < 91 * 86400) es))"
  "RT_GCEligible (fold (count_stats now) es st) = RT_GCEligible st + int (length (filter (\<lambda>e. 91 * 86400 \<le> now - LastObserved e) es))"
  by (induction es arbitrary: st) (simp_all add: count_stats_one)

lemma stats_row_fold:
  "TotalEdges (fold (stats_row now) es st) = TotalEdges st + int (length es)"
  "ActiveEdges (fold (stats_row now) es st) = ActiveEdges st + int (length (filter (\<lambda>e. now - LastObserved e \<le> 7 * 86400) es))"
  "RS_StaleEdges (fold (stats_row now) es st) = RS_StaleEdges st +
     int (length (filter (\<lambda>e. 0 < LastObserved e \<and> 30 * 86400 < now - LastObserved e) es))"
  "GCEligible (fold (stats_row now) es st) = GCEligible st +
     int (length (filter (\<lambda>e. 0 < LastObserved e \<and> 90 * 86400 < now - LastObserved e) es))"
  by (induction es arbitrary: st) (auto simp: stats_row_def Let_def)

lemma type_counts_agree:
  "BySourceType st = ByEdgeType st' \<Longrightarrow>
     BySourceType (fold (count_stats now) es st) = ByEdgeType (fold (stats_row now) es st')"
  by (induction es arbitrary: st st') (simp_all add: count_stats_def stats_row_def Let_def)

text \<open>
  Two statistics of the same edges: the ingestor and the store agree on the total and on the
  count of every edge type, but not on what is active, stale or collectable: the ingestor counts
  whole days, so its brackets start a day later, its stale edges exclude the collectable ones, and
  edges that were never observed are collectable for it and neither stale nor collectable for the
  store.
\<close>

lemma runtime_statistics_compared:
  assumes "Faults s = []"
  shows "\<exists>a b. RuntimeEdgeStats now snap s = (Inr a, s) \<and> RuntimeEdgeStatsAggregate now s = (Inr b, s) \<and>
    RT_TotalEdges a = TotalEdges b \<and> BySourceType a = ByEdgeType b \<and>
    (let seen = (\<lambda>P. int (length (filter (\<lambda>e. otel_edge e \<and> P (LastObserved e)) (T_edges (DB s))))) in
     ActiveCount a = seen (\<lambda>t. now - t < 8 * 86400) \<and>
     ActiveEdges b = seen (\<lambda>t. now - t \<le> 7 * 86400) \<and>
     StaleCount a = seen (\<lambda>t. 31 * 86400 \<le> now - t \<and> now - t < 91 * 86400) \<and>
     RS_StaleEdges b = seen (\<lambda>t. 0 < t \<and> 30 * 86400 < now - t) \<and>
     RT_GCEligible a = seen (\<lambda>t. 91 * 86400 \<le> now - t) \<and>
     GCEligible b = seen (\<lambda>t. 0 < t \<and> 90 * 86400 < now - t))"
proof -
  have comm: "filter (\<lambda>e. otel_edge e \<and> P e) es = filter P (filter otel_edge es)" for P :: "edge_row \<Rightarrow> bool" and es
    by (simp add: conj_commute)
  let ?es = "filter otel_edge (T_edges (DB s))"
  let ?a = "fold (count_stats now) ?es \<lparr>RT_TotalEdges = 0, BySourceType = [], ActiveCount = 0, StaleCount = 0, RT_GCEligible = 0\<rparr>"
  let ?b = "fold (stats_row now) ?es \<lparr>TotalEdges = 0, ActiveEdges = 0, RS_StaleEdges = 0, GCEligible = 0, ByEdgeType = []\<rparr>"
  have "RuntimeEdgeStats now snap s = (Inr ?a, s)" "RuntimeEdgeStatsAggregate now s = (Inr ?b, s)"
    using assms by (simp_all add: RuntimeEdgeStats_def RuntimeEdgeStatsAggregate_def wrap_op_def db_simps)
  moreover have "BySourceType ?a = ByEdgeType ?b" by (rule type_counts_agree) simp
  ultimately show ?thesis
    unfolding Let_def comm by (intro exI [of _ ?a] exI [of _ ?b]) (simp add: count_stats_fold stats_row_fold)
qed

lemma runtime_statistics_compared_witness:
  "\<exists>a b. RuntimeEdgeStats 100000000 0 (open_store empty_db []) = (Inr a, open_store empty_db []) \<and>
     RuntimeEdgeStatsAggregate 100000000 (open_store empty_db []) = (Inr b, open_store empty_db []) \<and>
     RT_TotalEdges a = TotalEdges b"
  using runtime_statistics_compared [of "open_store empty_db []" 100000000 0] by (auto simp: open_store_def)

text \<open>The ingestor's decay is the store's with the thresholds of the design.\<close>

lemma DecayConfidence_store:
  "DecayConfidence now = wrap_op ''decay confidence'' (DecayRuntimeConfidence now 30 (2 / 10))"
proof -
  have "(\<lambda>e. otel_edge e \<and> LastObserved e < t \<and> LastObserved e > 0 \<and> Confidence e > 2 / 10) = decays t (2 / 10)" for t
    by (simp add: decays_def fun_eq_iff)
  then show ?thesis unfolding DecayConfidence_def DecayRuntimeConfidence_def Let_def by simp
qed

text \<open>
  The hash of a runtime edge is computed with the bare provenance, the stored provenance names the
  trace: unless SHA-256 collides, no edge that came from a span with a trace ID verifies.
\<close>

lemma runtime_edge_never_verifies:
  assumes "inj_on H {p, p'}"
    and "p = edge_preimage (service_hash H sp) (fst (span_target H d sp)) (edgeTypeFromAttributes (Attributes sp)) ''otel_trace''"
    and "p' = edge_preimage (service_hash H sp) (fst (span_target H d sp)) (edgeTypeFromAttributes (Attributes sp))
      (BuildProvenance [TraceID sp])"
  shows "VerifyEdgeHash H (scanEdgeRuntime (first_row H now sp d)) \<noteq> None"
proof -
  have "p \<noteq> p'" by (simp add: assms edge_preimage_def BuildProvenance_def)
  with assms(1) have "H p \<noteq> H p'" by (auto simp: inj_on_def)
  then show ?thesis
    by (simp add: VerifyEdgeHash_def scanEdgeRuntime_def first_row_def runtime_edge_def edge.defs Let_def ComputeEdgeHash_def NewHash_def
        span_edge_def assms)
qed

end
