(* ===== verification/Base64.thy ===== *)
theory Base64
  imports Prelude
begin

text \<open>
  The parts of Go's encoding/base64 (StdEncoding) and encoding/binary (LittleEndian) that
  internal/context/walk.go uses for its caches, with their round trips. A decoding error has no content
  here: its callers only test for it.
\<close>

section \<open>Little-endian integers\<close>

definition PutUint :: "nat \<Rightarrow> nat \<Rightarrow> bytes" where
  "PutUint width n = map char_of (rev (be_digits width n))"

definition Uint :: "bytes \<Rightarrow> nat" where
  "Uint bs = from_be (rev (byte_vals bs))"

lemma length_PutUint [simp]: "length (PutUint w n) = w"
  by (simp add: PutUint_def)

lemma Uint_PutUint [simp]: "Uint (PutUint w n) = n mod 256 ^ w"
proof -
  have "map (of_char \<circ> char_of) (rev (be_digits w n)) = rev (be_digits w n)"
    by (rule map_idI) (use be_digits_less [of _ w n] in force)
  then show ?thesis by (simp add: Uint_def PutUint_def)
qed

section \<open>Base 64\<close>

definition b64_char :: "nat \<Rightarrow> char" where
  "b64_char n =
     char_of (if n < 26 then 65 + n else if n < 52 then 71 + n else if n < 62 then n - 4 else if n = 62 then 43 else 47)"

definition b64_value :: "char \<Rightarrow> nat option" where
  "b64_value c =
     (let n = of_char c in
      if 65 \<le> n \<and> n \<le> 90 then Some (n - 65) else if 97 \<le> n \<and> n \<le> 122 then Some (n - 71)
      else if 48 \<le> n \<and> n \<le> 57 then Some (n + 4)
      else if n = 43 then Some 62 else if n = 47 then Some 63 else None)"

text \<open>The sextets of three bytes.\<close>

definition sextets :: "nat \<Rightarrow> nat \<Rightarrow> nat \<Rightarrow> nat list" where
  "sextets x y z = [x div 4, x mod 4 * 16 + y div 16, y mod 16 * 4 + z div 64, z mod 64]"

fun base64_EncodeToString :: "bytes \<Rightarrow> string" where
  "base64_EncodeToString [] = []"
| "base64_EncodeToString [a] = map b64_char (take 2 (sextets (of_char a) 0 0)) @ ''==''"
| "base64_EncodeToString [a, b] = map b64_char (take 3 (sextets (of_char a) (of_char b) 0)) @ ''=''"
| "base64_EncodeToString (a # b # c # bs) =
     map b64_char (sextets (of_char a) (of_char b) (of_char c)) @ base64_EncodeToString bs"

text \<open>Quanta of four characters; padding ends the input, the unused bits of the last quantum are not checked.\<close>

fun b64_quanta :: "string \<Rightarrow> bytes option" where
  "b64_quanta [] = Some []"
| "b64_quanta (a # b # c # d # cs) =
     (case (b64_value a, b64_value b) of
        (Some x, Some y) \<Rightarrow>
          (case b64_value c of
             None \<Rightarrow>
               if c = CHR ''='' \<and> d = CHR ''='' \<and> cs = [] then Some [char_of (x * 4 + y div 16)] else None
           | Some z \<Rightarrow>
               (case b64_value d of
                  None \<Rightarrow>
                    if d = CHR ''='' \<and> cs = []
                    then Some [char_of (x * 4 + y div 16), char_of (y mod 16 * 16 + z div 4)] else None
                | Some w \<Rightarrow>
                    map_option (\<lambda>bs. char_of (x * 4 + y div 16) # char_of (y mod 16 * 16 + z div 4)
                                       # char_of (z mod 4 * 64 + w) # bs) (b64_quanta cs)))
      | _ \<Rightarrow> None)"
| "b64_quanta _ = None"

definition base64_DecodeString :: "string \<Rightarrow> bytes option" where
  "base64_DecodeString s = b64_quanta (filter (\<lambda>c. c \<noteq> CHR 0x0A \<and> c \<noteq> CHR 0x0D) s)"

lemma byte_less: "(of_char c :: nat) < 256"
  by (rule nat_of_char_less_256)

lemma of_char_b64: "n < 64 \<Longrightarrow> (of_char (b64_char n) :: nat) =
    (if n < 26 then 65 + n else if n < 52 then 71 + n else if n < 62 then n - 4 else if n = 62 then 43 else 47)"
  by (simp add: b64_char_def)

lemma b64_value_char [simp]: "n < 64 \<Longrightarrow> b64_value (b64_char n) = Some n"
  by (auto simp: b64_value_def of_char_b64 Let_def)

lemma b64_value_pad [simp]: "b64_value (CHR ''='') = None"
  by (simp add: b64_value_def)

lemma b64_char_plain: "n < 64 \<Longrightarrow> b64_char n \<noteq> CHR 0x0A \<and> b64_char n \<noteq> CHR 0x0D"
proof -
  assume "n < 64"
  then have "(of_char (b64_char n) :: nat) \<ge> 43" by (auto simp: of_char_b64)
  then show ?thesis by auto
qed

lemma digit_div_mod: "k < m \<Longrightarrow> (n * m + k) div m = (n::nat)" "k < m \<Longrightarrow> (n * m + k) mod m = (k::nat)"
  by simp_all

lemma sextet_bounds:
  fixes x y z :: nat
  assumes "x < 256" "y < 256" "z < 256"
  shows "x div 4 < 64" "x mod 4 * 16 + y div 16 < 64" "y mod 16 * 4 + z div 64 < 64" "x mod 4 * 16 < 64" "y mod 16 * 4 < 64"
proof -
  have "x mod 4 < 4" "y div 16 < 16" "y mod 16 < 16" "z div 64 < 4" "x div 4 < 64"
    using assms by (simp_all add: less_mult_imp_div_less)
  then show "x div 4 < 64" "x mod 4 * 16 + y div 16 < 64" "y mod 16 * 4 + z div 64 < 64" "x mod 4 * 16 < 64" "y mod 16 * 4 < 64"
    by linarith+
qed

lemma sextets_less: "x < 256 \<Longrightarrow> y < 256 \<Longrightarrow> z < 256 \<Longrightarrow> n \<in> set (sextets x y z) \<Longrightarrow> n < 64"
  using sextet_bounds [of x y z] unfolding sextets_def by auto

lemma sextet_bytes:
  fixes x y z :: nat
  assumes "x < 256" "y < 256" "z < 256"
  shows "x div 4 * 4 + (x mod 4 * 16 + y div 16) div 16 = x"
    "(x mod 4 * 16 + y div 16) mod 16 * 16 + (y mod 16 * 4 + z div 64) div 4 = y"
    "(y mod 16 * 4 + z div 64) mod 4 * 64 + z mod 64 = z"
proof -
  have "y div 16 < 16" "z div 64 < 4" using assms by (simp_all add: less_mult_imp_div_less)
  then show "x div 4 * 4 + (x mod 4 * 16 + y div 16) div 16 = x"
    "(x mod 4 * 16 + y div 16) mod 16 * 16 + (y mod 16 * 4 + z div 64) div 4 = y"
    "(y mod 16 * 4 + z div 64) mod 4 * 64 + z mod 64 = z"
    unfolding digit_div_mod [OF \<open>y div 16 < 16\<close>] digit_div_mod [OF \<open>z div 64 < 4\<close>] by simp_all
qed

lemma b64_quanta_encode: "b64_quanta (base64_EncodeToString bs) = Some bs"
proof (induction bs rule: base64_EncodeToString.induct)
  case (2 a)
  show ?case using sextet_bounds [OF byte_less [of a], of 0 0] sextet_bytes [OF byte_less [of a], of 0 0] by (simp add: sextets_def)
next
  case (3 a b)
  show ?case using sextet_bounds [OF byte_less [of a] byte_less [of b], of 0] sextet_bytes [OF byte_less [of a] byte_less [of b], of 0]
    by (simp add: sextets_def del: distrib_right_numeral)
next
  case (4 a b c bs)
  show ?case
    using sextet_bounds [OF byte_less [of a] byte_less [of b] byte_less [of c]]
      sextet_bytes [OF byte_less [of a] byte_less [of b] byte_less [of c]] "4.IH"
    by (simp add: sextets_def del: distrib_right_numeral)
qed simp

lemma base64_chars: "c \<in> set (base64_EncodeToString bs) \<Longrightarrow> c \<noteq> CHR 0x0A \<and> c \<noteq> CHR 0x0D"
proof (induction bs rule: base64_EncodeToString.induct)
  case (2 a)
  then have "c \<in> b64_char ` set (sextets (of_char a) 0 0) \<or> c = CHR ''=''" by (auto dest: in_set_takeD)
  then show ?case using sextets_less [OF byte_less, of 0 0] b64_char_plain by auto
next
  case (3 a b)
  then have "c \<in> b64_char ` set (sextets (of_char a) (of_char b) 0) \<or> c = CHR ''=''" by (auto dest: in_set_takeD)
  then show ?case using sextets_less [OF byte_less byte_less, of 0] b64_char_plain by auto
next
  case (4 a b c' bs)
  then show ?case using sextets_less [OF byte_less byte_less byte_less] b64_char_plain by auto
qed simp

lemma base64_Decode_Encode [simp]: "base64_DecodeString (base64_EncodeToString bs) = Some bs"
proof -
  have "filter (\<lambda>c. c \<noteq> CHR 0x0A \<and> c \<noteq> CHR 0x0D) (base64_EncodeToString bs) = base64_EncodeToString bs"
    by (rule filter_True) (use base64_chars in blast)
  then show ?thesis by (simp add: base64_DecodeString_def b64_quanta_encode)
qed

lemma length_base64_Encode: "length (base64_EncodeToString bs) = 4 * ((length bs + 2) div 3)"
proof (induction bs rule: base64_EncodeToString.induct)
  case (4 a b c bs)
  then show ?case by (simp add: sextets_def) presburger
qed (simp_all add: sextets_def)

end
