(* ===== verification/RandomWalk.thy ===== *)
theory RandomWalk
  imports GraphTypes "HOL-Library.Multiset"
begin

text \<open>
  internal/context/walk.go, the computation: edge weights, the power iteration of random walk with
  restart over adjacency maps in memory (rwrIterate, topKFromProb), breadth-first distances and the
  module of a node. Scores are exact rationals with one further value \<open>NaN\<close>, which the division of
  zero by zero produces. Go visits maps in any order: \<open>visit\<close> gives the order of each pass over the
  probabilities, two per iteration (walking, ranking).
\<close>

section \<open>Scores\<close>

datatype score = Fin rat | NaN

fun score_add :: "score \<Rightarrow> score \<Rightarrow> score" where
  "score_add (Fin x) (Fin y) = Fin (x + y)"
| "score_add _ _ = NaN"

fun score_times :: "rat \<Rightarrow> score \<Rightarrow> score" where
  "score_times c (Fin x) = Fin (c * x)"
| "score_times c NaN = NaN"

text \<open>\<open>p * (w / t)\<close>; the weights are not negative, so a total of zero has only zero summands.\<close>

definition share :: "score \<Rightarrow> rat \<Rightarrow> rat \<Rightarrow> score" where
  "share p w t = (if t = 0 then NaN else score_times (w / t) p)"

fun score_less :: "score \<Rightarrow> score \<Rightarrow> bool" where
  "score_less (Fin x) (Fin y) = (x < y)"
| "score_less _ _ = False"

section \<open>Weights\<close>

definition defaultEdgeWeight :: rat where "defaultEdgeWeight = 3 / 10"
definition crossModuleAttenuation :: rat where "crossModuleAttenuation = 3 / 10"

definition edgeWeights :: "(string, rat) gomap" where
  "edgeWeights = [(''calls'', 1), (''implements'', 8/10), (''implements_rpc'', 8/10), (''overrides'', 8/10),
     (''handles_route'', 7/10), (''extends'', 7/10), (''tests'', 6/10), (''consumes_rpc'', 6/10),
     (''imports'', 5/10), (''depends_on'', 5/10), (''consumes_endpoint'', 5/10), (''tested_by'', 5/10),
     (''co_tested_with'', 5/10), (''type_hint_of'', 5/10), (''accesses_field'', 6/10), (''reads_env'', 4/10),
     (''executes_process'', 5/10), (''references'', 4/10), (''throws'', 4/10), (''deployed_by'', 4/10),
     (''gated_by_flag'', 3/10), (''decorates'', 3/10), (''documents'', 2/10), (''similar_to'', 15/100),
     (''contains'', 0), (''member_of'', 0), (''owned_by'', 0), (''authored_by'', 0)]"

text \<open>\<open>lsp\<close> is the value of \<open>lspEdgeWeight\<close>, 0.3 unless the environment sets another one.\<close>

definition edgeWeight :: "rat \<Rightarrow> edge \<Rightarrow> rat" where
  "edgeWeight lsp e =
     (let w = (case map_of edgeWeights (EdgeType e) of Some w \<Rightarrow> w | None \<Rightarrow> defaultEdgeWeight)
      in if Provenance e = ''lsp_resolved'' then w * lsp else w)"

section \<open>Iteration\<close>

type_synonym adjacency = "(hash, edge list) gomap"
type_synonym scores = "(hash, score) gomap"

definition edges_at :: "adjacency \<Rightarrow> hash \<Rightarrow> edge list" where
  "edges_at adj h = (case map_of adj h of Some es \<Rightarrow> es | None \<Rightarrow> [])"

definition score_at :: "scores \<Rightarrow> hash \<Rightarrow> score" where
  "score_at m h = (case map_of m h of Some x \<Rightarrow> x | None \<Rightarrow> Fin 0)"

text \<open>\<open>next[h] += x\<close>\<close>

definition add_score :: "hash \<Rightarrow> score \<Rightarrow> scores \<Rightarrow> scores" where
  "add_score h x m = gomap_set h (score_add (score_at m h) x) m"

definition module_at :: "(hash, string) gomap \<Rightarrow> hash \<Rightarrow> string" where
  "module_at m h = (case map_of m h of Some d \<Rightarrow> d | None \<Rightarrow> '''')"

text \<open>The factor of a transition; \<open>None\<close> is a nil module map.\<close>

definition attenuation :: "(hash, string) gomap option \<Rightarrow> hash \<Rightarrow> hash \<Rightarrow> rat" where
  "attenuation modMap node target =
     (case modMap of
        None \<Rightarrow> 1
      | Some m \<Rightarrow>
          if module_at m node \<noteq> module_at m target \<and> module_at m node \<noteq> '''' \<and> module_at m target \<noteq> ''''
          then crossModuleAttenuation else 1)"

definition other_end :: "hash \<Rightarrow> edge \<Rightarrow> hash" where
  "other_end node e = (if TargetHash e = node then SourceHash e else TargetHash e)"

record walk =
  seedVec :: "(hash, rat) gomap"
  alpha :: rat
  adjFrom :: adjacency
  adjTo :: adjacency
  modMap :: "(hash, string) gomap option"
  lsp :: rat

definition total_edge_weight :: "walk \<Rightarrow> hash \<Rightarrow> rat" where
  "total_edge_weight W node =
     sum_list (map (edgeWeight (lsp W)) (edges_at (adjFrom W) node)) +
     sum_list (map (edgeWeight (lsp W)) (edges_at (adjTo W) node))"

definition spread :: "walk \<Rightarrow> hash \<Rightarrow> score \<Rightarrow> edge \<Rightarrow> scores \<Rightarrow> scores" where
  "spread W node p e m =
     (let target = other_end node e;
          w = edgeWeight (lsp W) e * attenuation (modMap W) node target
      in add_score target (share (score_times (1 - alpha W) p) w (total_edge_weight W node)) m)"

definition walk_node :: "walk \<Rightarrow> hash \<times> score \<Rightarrow> scores \<Rightarrow> scores" where
  "walk_node W np m =
     (let node = fst np; p = snd np in
      if score_less p (Fin (1 / 10000)) then m
      else if length (edges_at (adjFrom W) node) = 0 \<and> length (edges_at (adjTo W) node) = 0 then
        fold (\<lambda>(s, w). add_score s (score_times ((1 - alpha W) * w) p)) (seedVec W) m
      else fold (spread W node p) (edges_at (adjTo W) node) (fold (spread W node p) (edges_at (adjFrom W) node) m))"

definition restart :: "walk \<Rightarrow> scores" where
  "restart W = fold (\<lambda>(s, w). add_score s (Fin (alpha W * w))) (seedVec W) []"

definition walk_step :: "walk \<Rightarrow> (scores \<Rightarrow> scores) \<Rightarrow> scores \<Rightarrow> scores" where
  "walk_step W visit prob = fold (walk_node W) (visit prob) (restart W)"

text \<open>The absolute differences summed up, \<open>NaN\<close> if one of them is.\<close>

fun score_dist :: "score \<Rightarrow> score \<Rightarrow> score" where
  "score_dist (Fin x) (Fin y) = Fin \<bar>x - y\<bar>"
| "score_dist _ _ = NaN"

definition delta :: "scores \<Rightarrow> scores \<Rightarrow> score" where
  "delta new prob =
     fold (\<lambda>(k, v) acc. if k \<in> fst ` set new then acc else score_add acc v) prob
       (fold (\<lambda>(k, v) acc. score_add acc (score_dist v (score_at prob k))) new (Fin 0))"

text \<open>The first slot whose score is smaller takes the node, the others move down.\<close>

fun insert_top :: "hash \<times> score \<Rightarrow> (hash \<times> score) list \<Rightarrow> (hash \<times> score) list" where
  "insert_top x [] = []"
| "insert_top x (y # ys) = (if score_less (snd y) (snd x) then x # butlast (y # ys) else y # insert_top x ys)"

definition topKFromProb :: "scores \<Rightarrow> nat \<Rightarrow> hash list" where
  "topKFromProb prob k = map fst (fold insert_top prob (replicate k (0, Fin 0)))"

definition earlyTopK :: nat where "earlyTopK = 10"

fun rwr_loop :: "walk \<Rightarrow> (nat \<Rightarrow> scores \<Rightarrow> scores) \<Rightarrow> nat \<Rightarrow> nat \<Rightarrow> scores \<Rightarrow> hash list \<Rightarrow> nat \<Rightarrow> scores" where
  "rwr_loop W visit 0 iter prob prevTopK stableCount = prob"
| "rwr_loop W visit (Suc n) iter prob prevTopK stableCount =
     (let new = walk_step W (visit (2 * iter)) prob in
      if score_less (delta new prob) (Fin (1 / 1000)) then new
      else
        let curTopK = topKFromProb (visit (2 * iter + 1) new) earlyTopK in
        if curTopK = prevTopK then
          (if stableCount + 1 \<ge> 2 then new else rwr_loop W visit n (iter + 1) new curTopK (stableCount + 1))
        else rwr_loop W visit n (iter + 1) new curTopK 0)"

definition score_max :: "scores \<Rightarrow> rat" where
  "score_max prob = fold (\<lambda>(k, v) acc. case v of Fin x \<Rightarrow> if x > acc then x else acc | NaN \<Rightarrow> acc) prob 0"

definition normalize :: "scores \<Rightarrow> scores" where
  "normalize prob =
     (let maxScore = score_max prob in
      if maxScore > 0 then map (\<lambda>(k, v). (k, score_times (1 / maxScore) v)) prob else prob)"

definition rwrIterate :: "walk \<Rightarrow> (nat \<Rightarrow> scores \<Rightarrow> scores) \<Rightarrow> int \<Rightarrow> scores" where
  "rwrIterate W visit maxIter =
     normalize (rwr_loop W visit (nat maxIter) 0 (map (\<lambda>(k, v). (k, Fin v)) (seedVec W)) (replicate earlyTopK 0) 0)"

text \<open>The restart vector that RandomWalkWithRestartWeighted computes from the weights of the seeds.\<close>

definition weight_of :: "(hash, rat) gomap \<Rightarrow> hash \<Rightarrow> rat" where
  "weight_of m h = (case map_of m h of Some w \<Rightarrow> w | None \<Rightarrow> 0)"

definition seed_vector :: "hash list \<Rightarrow> (hash, rat) gomap \<Rightarrow> (hash, rat) gomap" where
  "seed_vector seeds seedWeights =
     (let totalWeight = sum_list (map (weight_of seedWeights) seeds);
          totalWeight = (if totalWeight \<le> 0 then of_nat (length seeds) else totalWeight)
      in fold (\<lambda>s. gomap_set s ((if weight_of seedWeights s \<le> 0 then 1 else weight_of seedWeights s) / totalWeight)) seeds [])"

section \<open>Distances and modules\<close>

definition bfs_visit :: "int \<Rightarrow> hash \<Rightarrow> (hash, int) gomap \<times> hash list \<Rightarrow> (hash, int) gomap \<times> hash list" where
  "bfs_visit depth h st =
     (if h \<in> fst ` set (fst st) then st else (gomap_set h depth (fst st), snd st @ [h]))"

definition bfs_node :: "adjacency \<Rightarrow> adjacency \<Rightarrow> int \<Rightarrow> hash \<Rightarrow> (hash, int) gomap \<times> hash list \<Rightarrow> (hash, int) gomap \<times> hash list" where
  "bfs_node from to depth node st =
     fold (bfs_visit depth) (map SourceHash (edges_at to node))
       (fold (bfs_visit depth) (map TargetHash (edges_at from node)) st)"

fun bfs_levels :: "adjacency \<Rightarrow> adjacency \<Rightarrow> nat \<Rightarrow> int \<Rightarrow> hash list \<Rightarrow> (hash, int) gomap \<Rightarrow> (hash, int) gomap" where
  "bfs_levels from to 0 depth frontier dists = dists"
| "bfs_levels from to (Suc k) depth frontier dists =
     (if length frontier = 0 then dists
      else case fold (bfs_node from to depth) frontier (dists, []) of
        (dists, next_frontier) \<Rightarrow> bfs_levels from to k (depth + 1) next_frontier dists)"

definition bfsDistancesFromAdj :: "hash list \<Rightarrow> adjacency \<Rightarrow> adjacency \<Rightarrow> (hash, int) gomap" where
  "bfsDistancesFromAdj seeds from to =
     bfs_levels from to 4 1 seeds (fold (\<lambda>s. gomap_set s 0) seeds [])"

definition topDirFromQN :: "string \<Rightarrow> string" where
  "topDirFromQN qn =
     (case strings_Index qn ''://'' of
        None \<Rightarrow> ''''
      | Some idx \<Rightarrow>
          (let path = drop (idx + 3) qn in
           case strings_Index path ''/'' of None \<Rightarrow> '''' | Some slashIdx \<Rightarrow> take slashIdx path))"

definition collectNodeHashes :: "adjacency \<Rightarrow> adjacency \<Rightarrow> hash list" where
  "collectNodeHashes from to = remdups (gokeys from @ gokeys to)"

section \<open>Finite scores\<close>

definition val :: "score \<Rightarrow> rat" where
  "val v = (case v of Fin x \<Rightarrow> x | NaN \<Rightarrow> 0)"

definition mass :: "scores \<Rightarrow> rat" where
  "mass m = sum_list (map (\<lambda>p. val (snd p)) m)"

definition finite_scores :: "scores \<Rightarrow> bool" where
  "finite_scores m \<longleftrightarrow> gomap_ok m \<and> (\<forall>v\<in>snd ` set m. \<exists>x\<ge>0. v = Fin x)"

lemma val_Fin [simp]: "val (Fin x) = x" by (simp add: val_def)

lemma score_at_finite: "finite_scores m \<Longrightarrow> \<exists>x\<ge>0. score_at m h = Fin x"
  by (force simp: finite_scores_def score_at_def split: option.split dest: map_of_SomeD)

lemma finite_scores_set:
  "finite_scores m \<Longrightarrow> 0 \<le> x \<Longrightarrow> finite_scores (gomap_set h (Fin x) m)"
proof (induction m)
  case (Cons p m)
  then show ?case using keys_gomap_set [of h "Fin x" m] by (auto simp: finite_scores_def)
qed (auto simp: finite_scores_def)

lemma mass_set: "gomap_ok m \<Longrightarrow> mass (gomap_set h v m) = mass m - val (score_at m h) + val v"
proof (induction m)
  case Nil
  show ?case by (simp add: mass_def score_at_def)
next
  case (Cons p m)
  have none: "map_of m h = None" if "fst p = h" using Cons.prems that by (auto simp: map_of_eq_None_iff)
  show ?case
    using Cons.IH Cons.prems none by (auto simp: mass_def score_at_def)
qed

lemma add_score_finite:
  assumes "finite_scores m" "0 \<le> x"
  shows "finite_scores (add_score h (Fin x) m)" "mass (add_score h (Fin x) m) = mass m + x"
proof -
  obtain y where y: "score_at m h = Fin y" "0 \<le> y" using score_at_finite [OF assms(1)] by blast
  have ok: "gomap_ok m" using assms(1) by (simp add: finite_scores_def)
  show "finite_scores (add_score h (Fin x) m)"
    using assms y by (simp add: add_score_def finite_scores_set)
  show "mass (add_score h (Fin x) m) = mass m + x"
    using y ok by (simp add: add_score_def mass_set)
qed

lemma fold_add_score_finite:
  assumes "finite_scores m" "\<And>p. p \<in> set ps \<Longrightarrow> 0 \<le> g p"
  shows "finite_scores (fold (\<lambda>p. add_score (k p) (Fin (g p))) ps m) \<and>
    mass (fold (\<lambda>p. add_score (k p) (Fin (g p))) ps m) = mass m + sum_list (map g ps)"
  using assms
proof (induction ps arbitrary: m)
  case (Cons p ps)
  from add_score_finite [OF Cons.prems(1), of "g p" "k p"] Cons.prems(2)
  show ?case using Cons.IH [of "add_score (k p) (Fin (g p)) m"] Cons.prems(2) by simp
qed simp

section \<open>Probability mass\<close>

text \<open>No node in reach of the walk has edges of weight zero only.\<close>

definition walk_ok :: "walk \<Rightarrow> bool" where
  "walk_ok W \<longleftrightarrow> 0 < alpha W \<and> alpha W < 1 \<and> 0 \<le> lsp W \<and>
     (\<forall>w\<in>snd ` set (seedVec W). 0 \<le> w) \<and>
     (\<forall>node. edges_at (adjFrom W) node @ edges_at (adjTo W) node \<noteq> [] \<longrightarrow> total_edge_weight W node > 0)"

lemma edgeWeights_nonneg: "w \<in> snd ` set edgeWeights \<Longrightarrow> 0 \<le> w"
  by (auto simp: edgeWeights_def)

lemma edgeWeight_nonneg: "0 \<le> l \<Longrightarrow> 0 \<le> edgeWeight l e"
proof -
  have "0 \<le> (case map_of edgeWeights (EdgeType e) of Some w \<Rightarrow> w | None \<Rightarrow> defaultEdgeWeight)"
    using edgeWeights_nonneg by (force simp: defaultEdgeWeight_def split: option.split dest: map_of_SomeD)
  moreover assume "0 \<le> l"
  ultimately show ?thesis by (simp add: edgeWeight_def Let_def)
qed

lemma attenuation_bounds: "0 \<le> attenuation m a b" "attenuation m a b \<le> 1"
  by (auto simp: attenuation_def crossModuleAttenuation_def split: option.split)

definition edge_share :: "walk \<Rightarrow> hash \<Rightarrow> rat \<Rightarrow> edge \<Rightarrow> rat" where
  "edge_share W node x e = edgeWeight (lsp W) e * attenuation (modMap W) node (other_end node e) / total_edge_weight W node *
     ((1 - alpha W) * x)"

lemma spread_Fin:
  assumes "total_edge_weight W node \<noteq> 0"
  shows "spread W node (Fin x) e m = add_score (other_end node e) (Fin (edge_share W node x e)) m"
  using assms by (simp add: spread_def share_def Let_def edge_share_def)

lemma spread_fold:
  assumes "total_edge_weight W node \<noteq> 0"
  shows "fold (spread W node (Fin x)) es m = fold (\<lambda>e. add_score (other_end node e) (Fin (edge_share W node x e))) es m"
  by (induction es arbitrary: m) (simp_all add: spread_Fin [OF assms])

lemma sum_edge_share:
  assumes "walk_ok W" "total_edge_weight W node > 0" "0 \<le> x"
  shows "sum_list (map (edge_share W node x) (edges_at (adjFrom W) node)) +
     sum_list (map (edge_share W node x) (edges_at (adjTo W) node)) \<le> (1 - alpha W) * x"
proof -
  let ?t = "total_edge_weight W node" and ?es = "edges_at (adjFrom W) node @ edges_at (adjTo W) node"
  let ?c = "(1 - alpha W) * x"
  have c: "0 \<le> ?c" using assms(1,3) by (simp add: walk_ok_def)
  have le: "edge_share W node x e \<le> edgeWeight (lsp W) e * (?c / ?t)" for e
  proof -
    have "edgeWeight (lsp W) e * attenuation (modMap W) node (other_end node e) \<le> edgeWeight (lsp W) e * 1"
      using assms(1) edgeWeight_nonneg [of "lsp W" e] attenuation_bounds(2) by (intro mult_left_mono) (auto simp: walk_ok_def)
    then have "edgeWeight (lsp W) e * attenuation (modMap W) node (other_end node e) * (?c / ?t) \<le> edgeWeight (lsp W) e * (?c / ?t)"
      using c assms(2) by (intro mult_right_mono) auto
    then show ?thesis by (simp add: edge_share_def)
  qed
  have "sum_list (map (edge_share W node x) ?es) \<le> sum_list (map (\<lambda>e. edgeWeight (lsp W) e * (?c / ?t)) ?es)"
    by (intro sum_list_mono) (rule le)
  also have "\<dots> = sum_list (map (edgeWeight (lsp W)) ?es) * (?c / ?t)" by (rule sum_list_mult_const)
  also have "\<dots> = ?c" using assms(2) by (simp add: total_edge_weight_def)
  finally show ?thesis by simp
qed

lemma walk_node_finite:
  assumes "walk_ok W" "sum_list (map snd (seedVec W)) \<le> 1" "finite_scores m" "0 \<le> x"
  shows "finite_scores (walk_node W (node, Fin x) m)" "mass (walk_node W (node, Fin x) m) \<le> mass m + (1 - alpha W) * x"
    "mass m \<le> mass (walk_node W (node, Fin x) m)"
proof -
  have a: "0 \<le> (1 - alpha W) * x" using assms(1,4) by (simp add: walk_ok_def)
  have "finite_scores (walk_node W (node, Fin x) m) \<and> mass (walk_node W (node, Fin x) m) \<le> mass m + (1 - alpha W) * x \<and>
    mass m \<le> mass (walk_node W (node, Fin x) m)"
  proof (cases "score_less (Fin x) (Fin (1 / 10000))")
    case True
    with a assms(3) show ?thesis by (simp add: walk_node_def)
  next
    case False
    show ?thesis
    proof (cases "edges_at (adjFrom W) node @ edges_at (adjTo W) node = []")
      case True
      let ?g = "\<lambda>p :: hash \<times> rat. (1 - alpha W) * snd p * x"
      have eq: "walk_node W (node, Fin x) m = fold (\<lambda>p. add_score (fst p) (Fin (?g p))) (seedVec W) m"
        using False True by (simp add: walk_node_def case_prod_unfold)
      have "0 \<le> ?g p" if "p \<in> set (seedVec W)" for p
        using that assms(1,4) by (auto simp: walk_ok_def)
      then have "finite_scores (fold (\<lambda>p. add_score (fst p) (Fin (?g p))) (seedVec W) m) \<and>
          mass (fold (\<lambda>p. add_score (fst p) (Fin (?g p))) (seedVec W) m) = mass m + sum_list (map ?g (seedVec W))"
        by (rule fold_add_score_finite [OF assms(3)])
      then have res: "finite_scores (walk_node W (node, Fin x) m)"
        "mass (walk_node W (node, Fin x) m) = mass m + sum_list (map ?g (seedVec W))" unfolding eq by blast+
      have "sum_list (map ?g (seedVec W)) = sum_list (map (\<lambda>p. snd p * ((1 - alpha W) * x)) (seedVec W))"
        by (simp add: mult_ac)
      also have "\<dots> = sum_list (map snd (seedVec W)) * ((1 - alpha W) * x)" by (rule sum_list_mult_const)
      also have "\<dots> \<le> 1 * ((1 - alpha W) * x)" using assms(2) a by (rule mult_right_mono)
      finally have "sum_list (map ?g (seedVec W)) \<le> (1 - alpha W) * x" by simp
      moreover have "0 \<le> sum_list (map ?g (seedVec W))"
        using assms(1,4) by (intro sum_list_nonneg) (auto simp: walk_ok_def)
      ultimately show ?thesis using res by simp
    next
      case nonempty: False
      then have t: "total_edge_weight W node > 0" using assms(1) by (simp add: walk_ok_def)
      let ?k = "other_end node" and ?g = "edge_share W node x"
      have eq: "walk_node W (node, Fin x) m = fold (\<lambda>e. add_score (?k e) (Fin (?g e))) (edges_at (adjTo W) node)
          (fold (\<lambda>e. add_score (?k e) (Fin (?g e))) (edges_at (adjFrom W) node) m)"
        using False nonempty t by (auto simp: walk_node_def Let_def spread_fold)
      have g: "0 \<le> ?g e" for e
        using assms(1,4) t edgeWeight_nonneg [of "lsp W" e] attenuation_bounds(1) [of "modMap W" node "other_end node e"]
        by (auto simp: edge_share_def walk_ok_def intro!: mult_nonneg_nonneg divide_nonneg_nonneg)
      note one = fold_add_score_finite [OF assms(3), of "edges_at (adjFrom W) node" ?g ?k, OF g]
      note two = fold_add_score_finite [OF one [THEN conjunct1], of "edges_at (adjTo W) node" ?g ?k, OF g]
      have "0 \<le> sum_list (map ?g es)" for es using g by (intro sum_list_nonneg) auto
      then show ?thesis
        unfolding eq using two one sum_edge_share [OF assms(1) t assms(4)] by (simp add: add_nonneg_nonneg)
    qed
  qed
  then show "finite_scores (walk_node W (node, Fin x) m)" "mass (walk_node W (node, Fin x) m) \<le> mass m + (1 - alpha W) * x"
    "mass m \<le> mass (walk_node W (node, Fin x) m)"
    by blast+
qed

lemma walk_nodes_finite:
  assumes "walk_ok W" "sum_list (map snd (seedVec W)) \<le> 1" "finite_scores m" "\<forall>v\<in>snd ` set ps. \<exists>x\<ge>0. v = Fin x"
  shows "finite_scores (fold (walk_node W) ps m) \<and> mass (fold (walk_node W) ps m) \<le> mass m + (1 - alpha W) * mass ps \<and>
    mass m \<le> mass (fold (walk_node W) ps m)"
  using assms(3,4)
proof (induction ps arbitrary: m)
  case (Cons p ps)
  then obtain x where x: "p = (fst p, Fin x)" "0 \<le> x" by (cases p) auto
  note step = walk_node_finite [OF assms(1,2) Cons.prems(1) x(2), of "fst p", folded x(1)]
  from Cons.IH [OF step(1)] Cons.prems(2) step(2,3) x show ?case
    by (cases p) (auto simp: mass_def algebra_simps)
qed (simp add: mass_def)

lemma restart_finite:
  assumes "walk_ok W"
  shows "finite_scores (restart W) \<and> mass (restart W) = alpha W * sum_list (map snd (seedVec W))"
proof -
  have eq: "restart W = fold (\<lambda>p. add_score (fst p) (Fin (alpha W * snd p))) (seedVec W) []"
    by (simp add: restart_def case_prod_unfold)
  have nonneg: "0 \<le> alpha W * snd p" if "p \<in> set (seedVec W)" for p
    using that assms by (auto simp: walk_ok_def)
  have "finite_scores [] " by (simp add: finite_scores_def)
  from fold_add_score_finite [where g = "\<lambda>p. alpha W * snd p" and k = fst and ps = "seedVec W", OF this nonneg]
  show ?thesis
    unfolding eq by (simp add: mass_def sum_list_const_mult)
qed

definition permutes_scores :: "(nat \<Rightarrow> scores \<Rightarrow> scores) \<Rightarrow> bool" where
  "permutes_scores visit \<longleftrightarrow> (\<forall>i m. mset (visit i m) = mset m)"

lemma permuted_scores:
  assumes "permutes_scores visit"
  shows "set (visit i m) = set m" "mass (visit i m) = mass m"
proof -
  have eq: "mset (visit i m) = mset m" using assms by (simp add: permutes_scores_def)
  then show "set (visit i m) = set m" by (rule mset_eq_setD)
  from eq have "mset (map (\<lambda>p. val (snd p)) (visit i m)) = mset (map (\<lambda>p. val (snd p)) m)" by simp
  then show "mass (visit i m) = mass m" unfolding mass_def by (metis sum_mset_sum_list)
qed

lemma walk_step_mass:
  assumes "walk_ok W" "sum_list (map snd (seedVec W)) \<le> 1" "permutes_scores visit" "finite_scores prob" "mass prob \<le> 1"
  shows "finite_scores (walk_step W (visit i) prob) \<and> mass (walk_step W (visit i) prob) \<le> 1 \<and>
    alpha W * sum_list (map snd (seedVec W)) \<le> mass (walk_step W (visit i) prob)"
proof -
  have "\<forall>v\<in>snd ` set (visit i prob). \<exists>x\<ge>0. v = Fin x"
    using assms(4) permuted_scores(1) [OF assms(3)] by (simp add: finite_scores_def)
  from walk_nodes_finite [OF assms(1,2) restart_finite [OF assms(1), THEN conjunct1] this]
    restart_finite [OF assms(1)] permuted_scores(2) [OF assms(3), of i prob]
  have step: "finite_scores (walk_step W (visit i) prob)"
    "mass (walk_step W (visit i) prob) \<le> alpha W * sum_list (map snd (seedVec W)) + (1 - alpha W) * mass prob"
    "alpha W * sum_list (map snd (seedVec W)) \<le> mass (walk_step W (visit i) prob)"
    by (auto simp: walk_step_def)
  have "alpha W * sum_list (map snd (seedVec W)) \<le> alpha W * 1" "(1 - alpha W) * mass prob \<le> (1 - alpha W) * 1"
    using assms(1,2,5) by (auto simp: walk_ok_def intro!: mult_left_mono)
  with step show ?thesis by auto
qed

lemma rwr_loop_mass:
  assumes "walk_ok W" "sum_list (map snd (seedVec W)) \<le> 1" "permutes_scores visit" "finite_scores prob" "mass prob \<le> 1"
    and "alpha W * sum_list (map snd (seedVec W)) \<le> mass prob"
  shows "finite_scores (rwr_loop W visit n i prob prev st) \<and> mass (rwr_loop W visit n i prob prev st) \<le> 1 \<and>
    alpha W * sum_list (map snd (seedVec W)) \<le> mass (rwr_loop W visit n i prob prev st)"
  using assms(4-6)
proof (induction n arbitrary: i prob prev st)
  case (Suc n)
  note step = walk_step_mass [OF assms(1-3) Suc.prems(1,2), of "2 * i"]
  show ?case using step Suc.IH [of "walk_step W (visit (2 * i)) prob"] by (simp add: Let_def)
qed simp

section \<open>Normalised scores\<close>

lemma score_max_fold:
  fixes acc :: rat
  defines "f \<equiv> \<lambda>(k :: hash, v) acc. case v of Fin x \<Rightarrow> if x > acc then x else acc | NaN \<Rightarrow> acc"
  shows "acc \<le> fold f prob acc \<and> (\<forall>k x. (k, Fin x) \<in> set prob \<longrightarrow> x \<le> fold f prob acc) \<and>
    (fold f prob acc = acc \<or> (\<exists>k. (k, Fin (fold f prob acc)) \<in> set prob))"
proof (induction prob arbitrary: acc)
  case (Cons p prob)
  have le: "acc \<le> f p acc" "snd p = Fin x \<Longrightarrow> x \<le> f p acc" for x
    by (auto simp: f_def case_prod_unfold split: score.splits)
  have new: "f p acc = acc \<or> snd p = Fin (f p acc)"
    by (auto simp: f_def case_prod_unfold split: score.splits)
  show ?case using Cons.IH [of "f p acc"] le new
    by (cases p) (auto intro: order_trans)
qed simp

lemma score_max_props:
  "0 \<le> score_max prob" "(k, Fin x) \<in> set prob \<Longrightarrow> x \<le> score_max prob"
  "score_max prob > 0 \<Longrightarrow> \<exists>k. (k, Fin (score_max prob)) \<in> set prob"
  using score_max_fold [of 0 prob] unfolding score_max_def by auto

lemma score_at_normalize:
  "score_at (normalize m) h = (if score_max m > 0 then score_times (1 / score_max m) (score_at m h) else score_at m h)"
proof -
  have "map_of (map (\<lambda>(k, v). (k, g v)) m) h = map_option g (map_of m h)" for g :: "score \<Rightarrow> score"
    by (rule map_of_map [THEN fun_cong, unfolded comp_def])
  then show ?thesis by (auto simp: normalize_def score_at_def Let_def split: option.split)
qed

section \<open>The walk as an iteration on all nodes\<close>

text \<open>
  The specification of the walk: the rank of a node in the next round is its share of the restart
  plus what flows to it from every node of the graph. A node passes on nothing below 1/10000, goes
  back to the seeds when it has no edge, and otherwise divides by the weights of its edges, of which
  those that leave its module lose 7/10.
\<close>

definition damping :: "walk \<Rightarrow> hash \<Rightarrow> hash \<Rightarrow> rat" where
  "damping W a b =
     (case modMap W of
        None \<Rightarrow> 1
      | Some m \<Rightarrow>
          (case (map_of m a, map_of m b) of
             (Some x, Some y) \<Rightarrow> if x \<noteq> '''' \<and> y \<noteq> '''' \<and> x \<noteq> y then 3 / 10 else 1
           | _ \<Rightarrow> 1))"

definition edge_flow :: "walk \<Rightarrow> hash \<Rightarrow> rat \<Rightarrow> hash \<Rightarrow> rat" where
  "edge_flow W node x h =
     (let es = edges_at (adjFrom W) node @ edges_at (adjTo W) node;
          total = (\<Sum>e\<leftarrow>es. edgeWeight (lsp W) e)
      in if x < 1 / 10000 then 0
         else if es = [] then (1 - alpha W) * x * weight_of (seedVec W) h
         else (\<Sum>e\<leftarrow>es. if other_end node e = h
                 then (1 - alpha W) * x * (edgeWeight (lsp W) e * damping W node h / total) else 0))"

primrec walk_rank :: "walk \<Rightarrow> nat \<Rightarrow> hash \<Rightarrow> rat" where
  "walk_rank W 0 h = weight_of (seedVec W) h"
| "walk_rank W (Suc n) h =
     alpha W * weight_of (seedVec W) h + (\<Sum>node\<in>UNIV. edge_flow W node (walk_rank W n node) h)"

lemma damping_attenuation: "damping W a b = attenuation (modMap W) a b"
  by (auto simp: damping_def attenuation_def crossModuleAttenuation_def module_at_def split: option.splits)

definition all_fin :: "scores \<Rightarrow> bool" where
  "all_fin m \<longleftrightarrow> (\<forall>h. score_at m h = Fin (val (score_at m h)))"

lemma finite_all_fin: "finite_scores m \<Longrightarrow> all_fin m"
  by (metis all_fin_def score_at_finite val_Fin)

lemma score_at_add: "score_at (add_score k x m) h = (if h = k then score_add (score_at m k) x else score_at m h)"
  by (simp add: add_score_def score_at_def)

lemma fold_add_score_at:
  assumes "all_fin m"
  shows "all_fin (fold (\<lambda>p. add_score (k p) (Fin (g p))) ps m) \<and>
    val (score_at (fold (\<lambda>p. add_score (k p) (Fin (g p))) ps m) h) =
      val (score_at m h) + (\<Sum>p\<leftarrow>ps. if k p = h then g p else 0)"
  using assms
proof (induction ps arbitrary: m)
  case (Cons p ps)
  obtain y where y: "score_at m (k p) = Fin y" using Cons.prems by (metis all_fin_def)
  have "all_fin (add_score (k p) (Fin (g p)) m)"
    using Cons.prems by (simp add: all_fin_def score_at_add y)
  from Cons.IH [OF this] show ?case by (auto simp: score_at_add y)
qed simp

lemma sum_over_keys:
  "gomap_ok m \<Longrightarrow> (\<Sum>p\<leftarrow>m. if fst p = h then c * snd p else 0) = c * weight_of m h"
proof (induction m)
  case (Cons p m)
  have "map_of m h = None" if "fst p = h" using Cons.prems that by (auto simp: map_of_eq_None_iff)
  then show ?case using Cons by (auto simp: weight_of_def)
qed (simp add: weight_of_def)

lemma sum_over_scores:
  assumes "gomap_ok m" "\<And>k. f k 0 = (0 :: rat)"
  shows "(\<Sum>p\<leftarrow>m. f (fst p) (val (snd p))) = (\<Sum>k\<in>UNIV. f k (val (score_at m k)))"
  using assms(1)
proof (induction m)
  case Nil
  show ?case by (simp add: score_at_def assms(2))
next
  case (Cons p m)
  have none: "map_of m (fst p) = None" using Cons.prems by (auto simp: map_of_eq_None_iff)
  have at: "f k (val (score_at (p # m) k)) = f k (val (score_at m k)) + (if k = fst p then f k (val (snd p)) else 0)" for k
    using none by (cases p) (auto simp: score_at_def assms(2))
  show ?case using Cons by (simp add: at sum.distrib)
qed

lemma mass_sum: "gomap_ok m \<Longrightarrow> mass m = (\<Sum>h\<in>UNIV. val (score_at m h))"
  using sum_over_scores [of m "\<lambda>k x. x"] by (simp add: mass_def)

lemma walk_node_at:
  assumes "walk_ok W" "gomap_ok (seedVec W)" "all_fin m"
  shows "all_fin (walk_node W (node, Fin x) m) \<and>
    val (score_at (walk_node W (node, Fin x) m) h) = val (score_at m h) + edge_flow W node x h"
proof -
  let ?from = "edges_at (adjFrom W) node" and ?to = "edges_at (adjTo W) node"
  have total: "(\<Sum>e\<leftarrow>?from @ ?to. edgeWeight (lsp W) e) = total_edge_weight W node" by (simp add: total_edge_weight_def)
  consider "x < 1 / 10000" | "\<not> x < 1 / 10000" "?from @ ?to = []" | "\<not> x < 1 / 10000" "?from @ ?to \<noteq> []" by blast
  then show ?thesis
  proof cases
    case 1
    then show ?thesis using assms(3) by (simp add: walk_node_def edge_flow_def)
  next
    case 2
    have "walk_node W (node, Fin x) m = fold (\<lambda>p. add_score (fst p) (Fin ((1 - alpha W) * x * snd p))) (seedVec W) m"
      using 2 by (simp add: walk_node_def case_prod_unfold mult_ac)
    then show ?thesis
      using 2 fold_add_score_at [OF assms(3), of fst "\<lambda>p. (1 - alpha W) * x * snd p" "seedVec W" h]
      by (simp add: edge_flow_def sum_over_keys [OF assms(2)])
  next
    case 3
    then have t: "total_edge_weight W node \<noteq> 0" using assms(1) by (simp add: walk_ok_def less_imp_neq [THEN not_sym])
    let ?g = "edge_share W node x"
    have "walk_node W (node, Fin x) m = fold (\<lambda>e. add_score (other_end node e) (Fin (?g e))) (?from @ ?to) m"
      using 3 t by (auto simp: walk_node_def Let_def spread_fold)
    moreover have "(\<Sum>e\<leftarrow>?from @ ?to. if other_end node e = h then ?g e else 0) = edge_flow W node x h"
      unfolding edge_flow_def Let_def total using 3
      by (simp only: if_False append_is_Nil_conv damping_attenuation edge_share_def)
        (rule arg_cong [of _ _ sum_list], rule map_cong, auto)
    ultimately show ?thesis
      using fold_add_score_at [OF assms(3), of "other_end node" ?g "?from @ ?to" h] by simp
  qed
qed

lemma walk_nodes_at:
  assumes "walk_ok W" "gomap_ok (seedVec W)" "all_fin m" "\<forall>v\<in>snd ` set ps. \<exists>x\<ge>0. v = Fin x"
  shows "all_fin (fold (walk_node W) ps m) \<and>
    val (score_at (fold (walk_node W) ps m) h) = val (score_at m h) + (\<Sum>p\<leftarrow>ps. edge_flow W (fst p) (val (snd p)) h)"
  using assms(3,4)
proof (induction ps arbitrary: m)
  case (Cons p ps)
  then obtain x where x: "p = (fst p, Fin x)" by (cases p) auto
  note step = walk_node_at [OF assms(1,2) Cons.prems(1), of "fst p" x, folded x]
  have v: "val (snd p) = x" by (subst x) simp
  show ?case using Cons.IH [of "walk_node W p m"] step [of h] step Cons.prems(2) by (simp add: v)
qed simp

lemma walk_step_at:
  assumes "walk_ok W" "gomap_ok (seedVec W)" "permutes_scores visit" "finite_scores prob"
  shows "score_at (walk_step W (visit i) prob) h =
    Fin (alpha W * weight_of (seedVec W) h + (\<Sum>node\<in>UNIV. edge_flow W node (val (score_at prob node)) h))"
proof -
  have init: "all_fin ([] :: scores)" by (simp add: all_fin_def score_at_def)
  have restart: "restart W = fold (\<lambda>p. add_score (fst p) (Fin (alpha W * snd p))) (seedVec W) []"
    by (simp add: restart_def case_prod_unfold)
  note r = fold_add_score_at [OF init, of fst "\<lambda>p. alpha W * snd p" "seedVec W", folded restart]
  have vals: "\<forall>v\<in>snd ` set (visit i prob). \<exists>x\<ge>0. v = Fin x"
    using assms(4) permuted_scores(1) [OF assms(3)] by (simp add: finite_scores_def)
  have perm: "mset (visit i prob) = mset prob" using assms(3) by (simp add: permutes_scores_def)
  have "(\<Sum>p\<leftarrow>visit i prob. edge_flow W (fst p) (val (snd p)) h) = (\<Sum>p\<leftarrow>prob. edge_flow W (fst p) (val (snd p)) h)"
    by (simp add: perm flip: sum_mset_sum_list)
  also have "\<dots> = (\<Sum>node\<in>UNIV. edge_flow W node (val (score_at prob node)) h)"
    using assms(4) by (intro sum_over_scores) (auto simp: finite_scores_def edge_flow_def)
  finally have flow: "(\<Sum>p\<leftarrow>visit i prob. edge_flow W (fst p) (val (snd p)) h) =
      (\<Sum>node\<in>UNIV. edge_flow W node (val (score_at prob node)) h)" .
  note s = walk_nodes_at [OF assms(1,2) r [THEN conjunct1] vals, of h, folded walk_step_def]
  have "val (score_at (restart W) h) = alpha W * weight_of (seedVec W) h"
    using r [of h] by (simp add: sum_over_keys [OF assms(2)] score_at_def)
  with s flow have "val (score_at (walk_step W (visit i) prob) h) = alpha W * weight_of (seedVec W) h +
      (\<Sum>node\<in>UNIV. edge_flow W node (val (score_at prob node)) h)" by simp
  with s [THEN conjunct1, unfolded all_fin_def] show ?thesis by metis
qed

text \<open>Every state of the loop is the iteration after the rounds that were walked.\<close>

lemma rwr_loop_rank:
  assumes "walk_ok W" "gomap_ok (seedVec W)" "sum_list (map snd (seedVec W)) \<le> 1" "permutes_scores visit"
    and "finite_scores prob" "mass prob \<le> 1" "\<forall>h. score_at prob h = Fin (walk_rank W j h)"
  shows "\<exists>k\<le>n. (0 < n \<longrightarrow> 0 < k) \<and> (\<forall>h. score_at (rwr_loop W visit n i prob prev st) h = Fin (walk_rank W (j + k) h))"
  using assms(5-7)
proof (induction n arbitrary: i j prob prev st)
  case (Suc n)
  let ?new = "walk_step W (visit (2 * i)) prob"
  note mass = walk_step_mass [OF assms(1,3,4) Suc.prems(1,2), of "2 * i"]
  have new: "\<forall>h. score_at ?new h = Fin (walk_rank W (Suc j) h)"
    using walk_step_at [OF assms(1,2,4) Suc.prems(1)] Suc.prems(3) by simp
  have stop: "\<exists>k\<le>Suc n. 0 < k \<and> (\<forall>h. score_at ?new h = Fin (walk_rank W (j + k) h))"
    using new by (intro exI [of _ 1]) simp
  have go: "\<exists>k\<le>Suc n. 0 < k \<and> (\<forall>h. score_at (rwr_loop W visit n i' ?new prev' st') h = Fin (walk_rank W (j + k) h))"
    for i' prev' st'
  proof -
    from Suc.IH [of ?new "Suc j"] mass new obtain k where "k \<le> n"
      "\<forall>h. score_at (rwr_loop W visit n i' ?new prev' st') h = Fin (walk_rank W (Suc j + k) h)" by metis
    then show ?thesis by (intro exI [of _ "Suc k"]) simp
  qed
  show ?case using stop go by (simp add: Let_def)
qed (intro exI [of _ 0], simp)

lemma Max_score_at:
  assumes "finite_scores m" "score_max m > 0"
  shows "Max (range (\<lambda>h. val (score_at m h))) = score_max m"
proof (rule Max_eqI)
  show "y \<le> score_max m" if y: "y \<in> range (\<lambda>h. val (score_at m h))" for y
  proof -
    from y obtain h where h: "y = val (score_at m h)" by blast
    show ?thesis
    proof (cases "map_of m h")
      case None
      then show ?thesis using h assms(2) by (simp add: score_at_def)
    next
      case (Some v)
      then have v: "(h, v) \<in> set m" by (rule map_of_SomeD)
      with assms(1) obtain x where x: "v = Fin x" by (force simp: finite_scores_def)
      show ?thesis using score_max_props(2) [of h x m] v Some h by (simp add: x score_at_def)
    qed
  qed
  from score_max_props(3) [OF assms(2)] obtain k where "(k, Fin (score_max m)) \<in> set m" by blast
  then have "score_at m k = Fin (score_max m)" using assms(1) by (simp add: finite_scores_def score_at_def)
  then show "score_max m \<in> range (\<lambda>h. val (score_at m h))" by (intro image_eqI [of _ _ k]) simp_all
qed simp

lemma positive_score:
  assumes "finite_scores m" "0 < mass m"
  shows "score_max m > 0"
proof -
  have "\<exists>v\<in>set (map (\<lambda>p. val (snd p)) m). 0 < v"
  proof (rule ccontr)
    assume "\<not> ?thesis"
    then have "mass m \<le> 0" unfolding mass_def by (intro sum_list_nonpos) auto
    with assms(2) show False by simp
  qed
  then obtain k x where "(k, Fin x) \<in> set m" "0 < x"
    using assms(1) by (force simp: finite_scores_def)
  then show ?thesis using score_max_props(2) by force
qed

text \<open>
  C23. Random walk scores: when no node in reach has edges of weight zero only, the scores returned
  are those of the iteration \<open>walk_rank\<close> after some number of rounds within the limit (at least one
  if the limit allows it), divided by the largest: every round gives a node its share \<open>alpha\<close> of the
  restart and what the other nodes send it along their edges, weighted and damped across modules,
  in whatever order Go visits its maps. The ranks are not negative, their sum lies between
  \<open>alpha\<close> times the restart mass and 1, and the largest score is exactly 1.
\<close>

theorem rwr_scores:
  assumes "walk_ok W" "gomap_ok (seedVec W)" "sum_list (map snd (seedVec W)) \<le> 1" "0 < sum_list (map snd (seedVec W))"
    and "permutes_scores visit"
  shows "\<exists>n\<le>nat maxIter. (0 < maxIter \<longrightarrow> 0 < n) \<and>
    (let top = Max (range (walk_rank W n)) in 0 < top \<and>
       (\<forall>h. 0 \<le> walk_rank W n h \<and> score_at (rwrIterate W visit maxIter) h = Fin (walk_rank W n h / top)) \<and>
       (\<exists>h. score_at (rwrIterate W visit maxIter) h = Fin 1)) \<and>
    alpha W * sum_list (map snd (seedVec W)) \<le> (\<Sum>h\<in>UNIV. walk_rank W n h) \<and> (\<Sum>h\<in>UNIV. walk_rank W n h) \<le> 1"
proof -
  let ?init = "map (\<lambda>(k, v). (k, Fin v)) (seedVec W)"
  define prob where "prob = rwr_loop W visit (nat maxIter) 0 ?init (replicate earlyTopK 0) 0"
  have keys: "map fst ?init = map fst (seedVec W)" by (simp add: comp_def case_prod_unfold)
  have m: "mass ?init = sum_list (map snd (seedVec W))"
    by (simp add: mass_def case_prod_unfold comp_def)
  have "alpha W * sum_list (map snd (seedVec W)) \<le> 1 * sum_list (map snd (seedVec W))"
    using assms(1,4) by (intro mult_right_mono) (auto simp: walk_ok_def)
  moreover have init: "finite_scores ?init"
    unfolding finite_scores_def keys using assms(1,2) by (auto simp: walk_ok_def)
  ultimately have prob: "finite_scores prob" "mass prob \<le> 1" "alpha W * sum_list (map snd (seedVec W)) \<le> mass prob"
    using rwr_loop_mass [OF assms(1,3,5), of ?init "nat maxIter" 0 "replicate earlyTopK 0" 0] assms(3) m
    by (auto simp: prob_def)
  have "0 < alpha W * sum_list (map snd (seedVec W))" using assms(1,4) by (simp add: walk_ok_def)
  with prob(3) have pos: "score_max prob > 0" by (intro positive_score prob(1)) linarith
  have "\<forall>h. score_at ?init h = Fin (walk_rank W 0 h)"
    by (simp add: score_at_def weight_of_def map_of_map [unfolded comp_def] split: option.split)
  from rwr_loop_rank [OF assms(1-3,5) init _ this, of "nat maxIter"] assms(3) m obtain n where
    n: "n \<le> nat maxIter" "0 < nat maxIter \<longrightarrow> 0 < n" "\<forall>h. score_at prob h = Fin (walk_rank W n h)"
    unfolding prob_def by (metis add_0)
  have rank: "walk_rank W n h = val (score_at prob h)" for h using n(3) by simp
  then have range: "Max (range (walk_rank W n)) = score_max prob"
    using Max_score_at [OF prob(1) pos] by simp
  have score: "score_at (rwrIterate W visit maxIter) h = Fin (walk_rank W n h / score_max prob)" for h
    using pos n(3) by (simp add: rwrIterate_def prob_def [symmetric] score_at_normalize)
  obtain k where "walk_rank W n k = score_max prob"
    using Max_in [of "range (walk_rank W n)"] range by (metis UNIV_not_empty finite finite_imageI image_is_empty rangeE)
  then have one: "\<exists>h. score_at (rwrIterate W visit maxIter) h = Fin 1" using pos by (intro exI [of _ k]) (simp add: score)
  have nonneg: "0 \<le> walk_rank W n h" for h using score_at_finite [OF prob(1), of h] n(3) by auto
  have "(\<Sum>h\<in>UNIV. walk_rank W n h) = mass prob"
    using prob(1) by (simp add: mass_sum rank finite_scores_def)
  with n(1,2) prob(2,3) pos one nonneg show ?thesis
    by (intro exI [of _ n]) (simp add: range score Let_def)
qed

definition sample_walk :: walk where
  "sample_walk = \<lparr>seedVec = [(1, 1)], alpha = 2 / 10, adjFrom = [(1, [sample_edge])], adjTo = [],
     modMap = Some [(1, ''a''), (2, ''b'')], lsp = 3 / 10\<rparr>"

theorem rwr_scores_witness:
  "(\<exists>h. score_at (rwrIterate sample_walk (\<lambda>i. rev) 1) h = Fin 1) \<and>
   (\<exists>n\<in>{1}. 2 / 10 \<le> (\<Sum>h\<in>UNIV. walk_rank sample_walk n h) \<and> (\<Sum>h\<in>UNIV. walk_rank sample_walk n h) \<le> 1 \<and>
     (\<forall>h. score_at (rwrIterate sample_walk (\<lambda>i. rev) 1) h =
       Fin (walk_rank sample_walk n h / Max (range (walk_rank sample_walk n)))))"
proof -
  have ok: "walk_ok sample_walk"
    by (auto simp: walk_ok_def sample_walk_def edges_at_def total_edge_weight_def sample_edge_def edgeWeight_def edgeWeights_def
        split: if_splits)
  have side: "gomap_ok (seedVec sample_walk)" "sum_list (map snd (seedVec sample_walk)) = 1" "permutes_scores (\<lambda>i. rev)"
    "alpha sample_walk = 2 / 10"
    by (simp_all add: sample_walk_def permutes_scores_def)
  from rwr_scores [of sample_walk "\<lambda>i. rev" 1, unfolded side(2) side(4)] ok side obtain n where
    "n \<le> 1" "0 < n" and
    "(\<exists>h. score_at (rwrIterate sample_walk (\<lambda>i. rev) 1) h = Fin 1) \<and>
     2 / 10 \<le> (\<Sum>h\<in>UNIV. walk_rank sample_walk n h) \<and> (\<Sum>h\<in>UNIV. walk_rank sample_walk n h) \<le> 1 \<and>
     (\<forall>h. score_at (rwrIterate sample_walk (\<lambda>i. rev) 1) h = Fin (walk_rank sample_walk n h / Max (range (walk_rank sample_walk n))))"
    by (auto simp: Let_def)
  then show ?thesis by (metis One_nat_def insertI1 le_antisym less_eq_Suc_le)
qed

section \<open>Which nodes are scored\<close>

primrec near :: "walk \<Rightarrow> nat \<Rightarrow> hash \<Rightarrow> bool" where
  "near W 0 h \<longleftrightarrow> h \<in> fst ` set (seedVec W)"
| "near W (Suc n) h \<longleftrightarrow> near W n h \<or>
     (\<exists>node. near W n node \<and> h \<in> other_end node ` set (edges_at (adjFrom W) node @ edges_at (adjTo W) node))"

lemma keys_add_score [simp]: "fst ` set (add_score h x m) = insert h (fst ` set m)"
  by (simp add: add_score_def keys_gomap_set)

lemma keys_fold_add_score: "fst ` set (fold (\<lambda>p. add_score (k p) (x p)) ps m) = fst ` set m \<union> k ` set ps"
  by (induction ps arbitrary: m) auto

lemma keys_spread: "fst ` set (fold (spread W node p) es m) = fst ` set m \<union> other_end node ` set es"
  by (induction es arbitrary: m) (auto simp: spread_def Let_def)

lemma keys_walk_node:
  "fst ` set (walk_node W np m) \<subseteq> fst ` set m \<union> fst ` set (seedVec W) \<union>
     other_end (fst np) ` set (edges_at (adjFrom W) (fst np) @ edges_at (adjTo W) (fst np))"
  using keys_fold_add_score [of fst "\<lambda>sw. score_times ((1 - alpha W) * snd sw) (snd np)" "seedVec W" m]
  by (auto simp: walk_node_def Let_def keys_spread case_prod_unfold)

lemma near_seed: "h \<in> fst ` set (seedVec W) \<Longrightarrow> near W n h"
  by (induction n) auto

lemma near_mono: "near W n h \<Longrightarrow> n \<le> m \<Longrightarrow> near W m h"
  by (induction m) (auto simp: le_Suc_eq)

lemma keys_walk_nodes:
  assumes "fst ` set ps \<subseteq> Collect (near W n)" "fst ` set m \<subseteq> Collect (near W (Suc n))"
  shows "fst ` set (fold (walk_node W) ps m) \<subseteq> Collect (near W (Suc n))"
  using assms
proof (induction ps arbitrary: m)
  case (Cons p ps)
  have p: "near W n (fst p)" using Cons.prems(1) by simp
  have "h \<in> Collect (near W (Suc n))" if "h \<in> fst ` set (walk_node W p m)" for h
  proof -
    from that keys_walk_node [of W p m] consider "h \<in> fst ` set m" | "h \<in> fst ` set (seedVec W)"
      | "h \<in> other_end (fst p) ` set (edges_at (adjFrom W) (fst p) @ edges_at (adjTo W) (fst p))" by blast
    then show ?thesis
    proof cases
      case 1 then show ?thesis using Cons.prems(2) by blast
    next
      case 2 then show ?thesis by (blast intro: near_seed)
    next
      case 3 with p show ?thesis unfolding near.simps mem_Collect_eq by blast
    qed
  qed
  then have "fst ` set (walk_node W p m) \<subseteq> Collect (near W (Suc n))" by blast
  from Cons.IH [OF _ this] Cons.prems(1) show ?case by simp
qed simp

lemma keys_walk_step:
  assumes "fst ` set prob \<subseteq> Collect (near W n)" "set (visit prob) = set prob"
  shows "fst ` set (walk_step W visit prob) \<subseteq> Collect (near W (Suc n))"
proof -
  have "fst ` set (restart W) = fst ` set (seedVec W)"
    using keys_fold_add_score [of fst "\<lambda>p. Fin (alpha W * snd p)" "seedVec W" "[]"]
    by (simp add: restart_def case_prod_unfold)
  then have "fst ` set (restart W) \<subseteq> Collect (near W (Suc n))" by (blast intro: near_seed)
  moreover have "fst ` set (visit prob) \<subseteq> Collect (near W n)" using assms by simp
  ultimately show ?thesis unfolding walk_step_def by (intro keys_walk_nodes)
qed

declare near.simps(2) [simp del]

lemma rwr_loop_cases:
  "rwr_loop W visit (Suc k) i prob prev st = walk_step W (visit (2 * i)) prob \<or>
   (\<exists>c s. rwr_loop W visit (Suc k) i prob prev st = rwr_loop W visit k (i + 1) (walk_step W (visit (2 * i)) prob) c s)"
  unfolding rwr_loop.simps Let_def by (simp only: split: if_split) blast

lemma keys_rwr_loop:
  assumes "permutes_scores visit"
  shows "fst ` set prob \<subseteq> Collect (near W n) \<Longrightarrow>
    fst ` set (rwr_loop W visit k i prob prev st) \<subseteq> Collect (near W (n + k))"
proof (induction k arbitrary: n i prob prev st)
  case (Suc k)
  let ?new = "walk_step W (visit (2 * i)) prob"
  have step: "fst ` set ?new \<subseteq> Collect (near W (Suc n))"
    by (rule keys_walk_step) (rule Suc.prems, rule permuted_scores(1) [OF assms])
  also have "\<dots> \<subseteq> Collect (near W (n + Suc k))" by (intro Collect_mono impI, rule near_mono) auto
  finally have new: "fst ` set ?new \<subseteq> Collect (near W (n + Suc k))" .
  have "fst ` set (rwr_loop W visit k (i + 1) ?new c s) \<subseteq> Collect (near W (n + Suc k))" for c s
    using Suc.IH [OF step] by simp
  moreover note rwr_loop_cases [of W visit k i prob prev st]
  ultimately show ?case using new by (elim disjE exE) (simp_all only:)
qed simp

text \<open>
  Locality: a node gets a score only if it is a seed or is reached from one by at most as many
  transitions, along or against edges of the loaded maps, as there are iterations.
\<close>

lemma rwr_local:
  assumes "permutes_scores visit" "h \<in> fst ` set (rwrIterate W visit maxIter)"
  shows "near W (nat maxIter) h"
proof -
  let ?init = "map (\<lambda>(k, v). (k, Fin v)) (seedVec W)"
  have keys: "fst ` set (normalize m) = fst ` set m" for m
    by (auto simp: normalize_def Let_def image_image case_prod_unfold)
  have "fst ` set ?init \<subseteq> Collect (near W 0)" by (force simp: image_image case_prod_unfold)
  from keys_rwr_loop [OF assms(1) this, of "nat maxIter" 0 "replicate earlyTopK 0" 0] assms(2)
  show ?thesis unfolding rwrIterate_def keys by auto
qed

lemma rwr_local_witness:
  "\<not> near sample_walk 1 9 \<and> 9 \<notin> fst ` set (rwrIterate sample_walk (\<lambda>i. rev) 1)"
proof -
  have "\<not> near sample_walk (nat 1) 9"
    by (simp add: near.simps sample_walk_def edges_at_def other_end_def sample_edge_def)
  then show ?thesis
    using rwr_local [of "\<lambda>i. rev" 9 sample_walk 1] by (auto simp: permutes_scores_def)
qed

section \<open>Nodes with structural edges only\<close>

definition at_least :: "rat \<Rightarrow> score \<Rightarrow> bool" where
  "at_least c v \<longleftrightarrow> v = NaN \<or> (\<exists>x\<ge>c. v = Fin x)"

declare score_at_add [simp]

lemma at_least_add: "at_least c u \<Longrightarrow> at_least 0 v \<Longrightarrow> at_least c (score_add u v)"
  by (auto simp: at_least_def)

lemma score_add_NaN [simp]: "score_add NaN v = NaN" "score_add v NaN = NaN"
  by (cases v; simp)+

text \<open>Adding non-negative scores keeps lower bounds and \<open>NaN\<close>.\<close>

definition grows :: "(scores \<Rightarrow> scores) \<Rightarrow> bool" where
  "grows f \<longleftrightarrow> (\<forall>m h c. (at_least c (score_at m h) \<longrightarrow> at_least c (score_at (f m) h)) \<and>
     (score_at m h = NaN \<longrightarrow> score_at (f m) h = NaN))"

lemma grows_add: "at_least 0 v \<Longrightarrow> grows (add_score h v)"
  by (auto simp: grows_def at_least_add)

lemma grows_id: "grows (\<lambda>m. m)"
  by (simp add: grows_def)

lemma grows_comp: "grows f \<Longrightarrow> grows g \<Longrightarrow> grows (\<lambda>m. f (g m))"
  by (simp add: grows_def)

lemma grows_fold: "(\<And>x. x \<in> set xs \<Longrightarrow> grows (f x)) \<Longrightarrow> grows (fold f xs)"
  by (induction xs) (simp_all add: grows_def)

definition weights_ok :: "walk \<Rightarrow> bool" where
  "weights_ok W \<longleftrightarrow> 0 < alpha W \<and> alpha W < 1 \<and> 0 \<le> lsp W \<and> (\<forall>w\<in>snd ` set (seedVec W). 0 \<le> w)"

lemma at_least_share: "0 \<le> w \<Longrightarrow> 0 \<le> t \<Longrightarrow> at_least 0 p \<Longrightarrow> at_least 0 (share p w t)"
  by (cases p) (auto simp: share_def at_least_def)

lemma total_nonneg: "weights_ok W \<Longrightarrow> 0 \<le> total_edge_weight W node"
  unfolding total_edge_weight_def
  by (intro add_nonneg_nonneg sum_list_nonneg) (auto simp: weights_ok_def edgeWeight_nonneg)

lemma grows_spread:
  assumes "weights_ok W" "at_least 0 p"
  shows "grows (spread W node p e)"
proof -
  have "at_least 0 (score_times (1 - alpha W) p)"
    using assms by (cases p) (auto simp: at_least_def weights_ok_def)
  then have "at_least 0 (share (score_times (1 - alpha W) p) (edgeWeight (lsp W) e * attenuation m node h) (total_edge_weight W node))" for m h
    using assms(1) total_nonneg [OF assms(1)] edgeWeight_nonneg [of "lsp W" e] attenuation_bounds(1)
    by (intro at_least_share) (auto simp: weights_ok_def)
  then show ?thesis unfolding spread_def Let_def by (rule grows_add)
qed

lemma grows_walk_node:
  assumes "weights_ok W" "at_least 0 (snd np)"
  shows "grows (walk_node W np)"
proof -
  have seeds: "grows (fold (\<lambda>(s, w). add_score s (score_times ((1 - alpha W) * w) (snd np))) (seedVec W))"
  proof (rule grows_fold)
    fix x assume x: "x \<in> set (seedVec W)"
    then have "at_least 0 (score_times ((1 - alpha W) * snd x) (snd np))"
      using assms by (cases "snd np") (auto simp: at_least_def weights_ok_def)
    then show "grows (case x of (s, w) \<Rightarrow> add_score s (score_times ((1 - alpha W) * w) (snd np)))"
      by (simp add: case_prod_unfold grows_add)
  qed
  have edges: "grows (fold (spread W (fst np) (snd np)) es)" for es
    by (rule grows_fold) (rule grows_spread [OF assms])
  show ?thesis
    unfolding walk_node_def Let_def using seeds edges grows_comp [OF edges edges] by (simp add: grows_def)
qed

text \<open>The scores of a walk in progress, and a seed whose score is not negligible.\<close>

definition alive :: "walk \<Rightarrow> hash \<Rightarrow> scores \<Rightarrow> bool" where
  "alive W s m \<longleftrightarrow> gomap_ok m \<and> (\<forall>v\<in>snd ` set m. at_least 0 v) \<and> at_least (1 / 10000) (score_at m s)"

definition neighbours :: "walk \<Rightarrow> hash \<Rightarrow> hash set" where
  "neighbours W s = other_end s ` set (edges_at (adjFrom W) s @ edges_at (adjTo W) s)"

lemma gomap_ok_add_score: "gomap_ok m \<Longrightarrow> gomap_ok (add_score h v m)"
  by (simp add: add_score_def)

lemma fold_invariant:
  assumes "P m" "\<And>x m. x \<in> set xs \<Longrightarrow> P m \<Longrightarrow> P (f x m)"
  shows "P (fold f xs m)"
  using assms by (induction xs arbitrary: m) simp_all

lemma gomap_ok_walk_node: "gomap_ok m \<Longrightarrow> gomap_ok (walk_node W np m)"
  unfolding walk_node_def Let_def
  by (auto intro!: fold_invariant [where P = gomap_ok] gomap_ok_add_score simp: spread_def Let_def)

lemma gomap_ok_walk_step: "gomap_ok (walk_step W visit prob)"
proof -
  have "gomap_ok (restart W)"
    unfolding restart_def by (rule fold_invariant) (auto intro: gomap_ok_add_score)
  then show ?thesis
    unfolding walk_step_def by (rule fold_invariant) (rule gomap_ok_walk_node)
qed

lemma snd_in_score_at:
  assumes "gomap_ok m" "v \<in> snd ` set m"
  shows "\<exists>h. v = score_at m h"
proof -
  from assms(2) obtain k where "(k, v) \<in> set m" by auto
  with assms(1) have "map_of m k = Some v" by simp
  then show ?thesis by (intro exI [of _ k]) (simp add: score_at_def)
qed

lemma score_at_add_NaN: "score_at m h = NaN \<Longrightarrow> score_at (add_score k v m) h = NaN"
  by (cases "h = k") auto

lemma spread_all_NaN:
  assumes "total_edge_weight W s = 0"
  shows "e \<in> set es \<Longrightarrow> score_at (fold (spread W s p) es m) (other_end s e) = NaN"
proof (induction es arbitrary: m)
  case (Cons x es)
  have one: "score_at (spread W s p e' m') (other_end s e') = NaN" for e' m'
    using assms by (simp add: spread_def share_def Let_def)
  have keep: "score_at m' h = NaN \<Longrightarrow> score_at (fold (spread W s p) es' m') h = NaN" for m' h es'
    by (induction es' arbitrary: m') (simp_all del: score_at_add add: spread_def Let_def score_at_add_NaN)
  show ?case
  proof (cases "x = e")
    case True
    then show ?thesis using one keep by simp
  next
    case False
    with Cons show ?thesis by simp
  qed
qed simp

lemma seed_walk_NaN:
  assumes "weights_ok W" "total_edge_weight W s = 0" "at_least (1 / 10000) p" "t \<in> neighbours W s"
  shows "score_at (walk_node W (s, p) m) t = NaN"
proof -
  have nonneg: "at_least 0 p" using assms(3) by (auto simp: at_least_def)
  have big: "\<not> score_less p (Fin (1 / 10000))" using assms(3) by (auto simp: at_least_def)
  let ?from = "edges_at (adjFrom W) s" and ?to = "edges_at (adjTo W) s"
  from assms(4) obtain e where e: "e \<in> set (?from @ ?to)" "t = other_end s e" by (auto simp: neighbours_def)
  then have "?from @ ?to \<noteq> []" by auto
  then have eq: "walk_node W (s, p) m = fold (spread W s p) ?to (fold (spread W s p) ?from m)"
    using big by (auto simp: walk_node_def Let_def)
  have "grows (fold (spread W s p) ?to)" by (rule grows_fold) (rule grows_spread [OF assms(1) nonneg])
  then show ?thesis
    unfolding eq e(2) using e(1) spread_all_NaN [OF assms(2)] by (auto simp: grows_def)
qed

lemma zero_start: "at_least 0 (score_at [] h)"
  by (simp add: at_least_def score_at_def)

lemma seed_adds_grow:
  assumes "weights_ok W" "set xs \<subseteq> set (seedVec W)"
  shows "grows (fold (\<lambda>(s, w). add_score s (Fin (alpha W * w))) xs)"
proof (rule grows_fold)
  fix x assume "x \<in> set xs"
  then have "0 \<le> alpha W * snd x" using assms by (auto simp: weights_ok_def)
  then have "at_least 0 (Fin (alpha W * snd x))" by (simp add: at_least_def)
  then show "grows (case x of (s, w) \<Rightarrow> add_score s (Fin (alpha W * w)))"
    by (simp only: case_prod_unfold grows_add)
qed

lemma restart_at_least:
  assumes "weights_ok W"
  shows "at_least 0 (score_at (restart W) h)"
    and "(s, w) \<in> set (seedVec W) \<Longrightarrow> c \<le> alpha W * w \<Longrightarrow> at_least c (score_at (restart W) s)"
proof -
  show "at_least 0 (score_at (restart W) h)"
    using seed_adds_grow [OF assms order_refl] zero_start [of h] unfolding restart_def grows_def by blast
  assume "(s, w) \<in> set (seedVec W)" and c: "c \<le> alpha W * w"
  then obtain xs ys where split: "seedVec W = xs @ (s, w) # ys" by (meson split_list)
  let ?add = "\<lambda>(s, w). add_score s (Fin (alpha W * w))"
  have "grows (fold ?add xs)" "grows (fold ?add ys)"
    by (rule seed_adds_grow [OF assms], auto simp: split)+
  moreover from this(1) have "at_least 0 (score_at (fold ?add xs []) s)"
    using zero_start [of s] unfolding grows_def by blast
  then have "at_least c (score_at (add_score s (Fin (alpha W * w)) (fold ?add xs [])) s)"
    using c unfolding at_least_def score_at_add by (elim disjE exE conjE) simp_all
  ultimately show "at_least c (score_at (restart W) s)"
    unfolding restart_def split fold_append fold_Cons comp_def grows_def prod.case by blast
qed

lemma walk_nodes_grow:
  assumes "weights_ok W" "\<forall>v\<in>snd ` set prob. at_least 0 v" "set ps \<subseteq> set prob"
  shows "grows (fold (walk_node W) ps)"
proof (rule grows_fold)
  fix x assume "x \<in> set ps"
  with assms(3) have "snd x \<in> snd ` set prob" by blast
  with assms(2) have "at_least 0 (snd x)" by blast
  then show "grows (walk_node W x)" by (rule grows_walk_node [OF assms(1)])
qed

lemma walk_step_NaN:
  assumes "weights_ok W" "total_edge_weight W s = 0" "set (visit prob) = set prob" "alive W s prob" "t \<in> neighbours W s"
  shows "score_at (walk_step W visit prob) t = NaN"
proof -
  from assms(4) have big: "at_least (1 / 10000) (score_at prob s)" and nonneg: "\<forall>v\<in>snd ` set prob. at_least 0 v"
    unfolding alive_def by blast+
  have "score_at prob s \<noteq> Fin 0" using big by (auto simp: at_least_def)
  then have "map_of prob s = Some (score_at prob s)" by (simp add: score_at_def split: option.splits)
  then have "(s, score_at prob s) \<in> set (visit prob)" unfolding assms(3) by (rule map_of_SomeD)
  then obtain xs ys where split: "visit prob = xs @ (s, score_at prob s) # ys" by (meson split_list)
  then have "set ys \<subseteq> set prob" using assms(3) by auto
  then have "grows (fold (walk_node W) ys)" by (rule walk_nodes_grow [OF assms(1) nonneg])
  moreover have "score_at (walk_node W (s, score_at prob s) m) t = NaN" for m
    by (rule seed_walk_NaN [OF assms(1,2) big assms(5)])
  ultimately show ?thesis unfolding walk_step_def split fold_append fold_Cons comp_def grows_def by blast
qed

lemma walk_step_alive:
  assumes W: "weights_ok W" and s: "(s, w) \<in> set (seedVec W)" "1 / 10000 \<le> alpha W * w"
    and visit: "set (visit prob) = set prob" and alive: "alive W s prob"
  shows "alive W s (walk_step W visit prob)"
proof -
  from alive have "\<forall>v\<in>snd ` set prob. at_least 0 v" unfolding alive_def by blast
  then have g: "grows (fold (walk_node W) (visit prob))" by (rule walk_nodes_grow [OF W]) (simp add: visit)
  have all: "at_least 0 (score_at (walk_step W visit prob) h)" for h
    using g restart_at_least(1) [OF W, of h] unfolding walk_step_def grows_def by blast
  have own: "at_least (1 / 10000) (score_at (walk_step W visit prob) s)"
    using g restart_at_least(2) [OF W s] unfolding walk_step_def grows_def by blast
  have "at_least 0 v" if "v \<in> snd ` set (walk_step W visit prob)" for v
    using snd_in_score_at [OF gomap_ok_walk_step that] all by metis
  with own gomap_ok_walk_step show ?thesis unfolding alive_def by blast
qed

text \<open>
  C24. A seed that has edges of weight zero only poisons the walk: the division by the total weight
  gives \<open>NaN\<close> for every node at the other end of its edges, and no later iteration nor the
  normalisation replaces it. Types whose only edges are \<open>contains\<close> are such seeds.
\<close>

theorem rwr_structural_seed_NaN:
  assumes "weights_ok W" "gomap_ok (seedVec W)" "permutes_scores visit" "maxIter \<ge> 1"
    and "(s, w) \<in> set (seedVec W)" "1 / 10000 \<le> w" "1 / 10000 \<le> alpha W * w"
    and "total_edge_weight W s = 0" "t \<in> neighbours W s"
  shows "score_at (rwrIterate W visit maxIter) t = NaN"
proof -
  let ?init = "map (\<lambda>(k, v). (k, Fin v)) (seedVec W)"
  have keys: "map fst ?init = map fst (seedVec W)" by (simp add: comp_def case_prod_unfold)
  have step: "alive W s (walk_step W (visit i) prob) \<and> (\<forall>t\<in>neighbours W s. score_at (walk_step W (visit i) prob) t = NaN)"
    if "alive W s prob" for i prob
    using permuted_scores(1) [OF assms(3), of i prob] that
    by (intro conjI ballI walk_step_alive [OF assms(1,5,7)] walk_step_NaN [OF assms(1,8)])
  have loop: "score_at (rwr_loop W visit n i prob prev st) t = NaN"
    if "alive W s prob" "score_at prob t = NaN" for n i prob prev st
    using that
  proof (induction n arbitrary: i prob prev st)
    case (Suc n)
    from step [OF Suc.prems(1)] assms(9) Suc.IH rwr_loop_cases [of W visit n i prob prev st] show ?case by metis
  qed simp
  have "score_at ?init s = Fin w"
    using assms(2,5) keys by (simp add: score_at_def map_of_map [THEN fun_cong])
  moreover have "\<forall>v\<in>snd ` set ?init. at_least 0 v"
    using assms(1) by (auto simp: weights_ok_def at_least_def)
  ultimately have init: "alive W s ?init"
    unfolding alive_def keys using assms(2,6) by (simp add: at_least_def)
  obtain n where n: "nat maxIter = Suc n" using assms(4) by (cases "nat maxIter") auto
  have "score_at (rwr_loop W visit (Suc n) 0 ?init (replicate earlyTopK 0) 0) t = NaN"
    using step [OF init] assms(9) loop rwr_loop_cases [of W visit n 0 ?init "replicate earlyTopK 0" 0] by metis
  then show ?thesis by (simp add: rwrIterate_def n score_at_normalize)
qed

definition structural_walk :: walk where
  "structural_walk = sample_walk\<lparr>adjFrom := [(1, [sample_edge\<lparr>EdgeType := ''contains''\<rparr>])]\<rparr>"

theorem rwr_structural_seed_NaN_witness:
  "score_at (rwrIterate structural_walk (\<lambda>i m. m) 20) 2 = NaN"
  by (rule rwr_structural_seed_NaN [where s = 1 and w = 1])
    (simp_all add: weights_ok_def structural_walk_def sample_walk_def permutes_scores_def total_edge_weight_def edges_at_def
      neighbours_def other_end_def sample_edge_def edgeWeight_def edgeWeights_def)

section \<open>Distances\<close>

definition linked :: "adjacency \<Rightarrow> adjacency \<Rightarrow> hash \<Rightarrow> hash list" where
  "linked from to a = map TargetHash (edges_at from a) @ map SourceHash (edges_at to a)"

primrec hop :: "adjacency \<Rightarrow> adjacency \<Rightarrow> hash list \<Rightarrow> nat \<Rightarrow> hash \<Rightarrow> bool" where
  "hop from to seeds 0 h \<longleftrightarrow> h \<in> set seeds"
| "hop from to seeds (Suc k) h \<longleftrightarrow> (\<exists>a. hop from to seeds k a \<and> h \<in> set (linked from to a))"

definition first_hop :: "adjacency \<Rightarrow> adjacency \<Rightarrow> hash list \<Rightarrow> nat \<Rightarrow> hash \<Rightarrow> bool" where
  "first_hop from to seeds k h \<longleftrightarrow> hop from to seeds k h \<and> (\<forall>j<k. \<not> hop from to seeds j h)"

lemma hop_first: "hop from to seeds k h \<Longrightarrow> \<exists>j\<le>k. first_hop from to seeds j h"
proof (induction k rule: less_induct)
  case (less k)
  show ?case
  proof (cases "\<forall>j<k. \<not> hop from to seeds j h")
    case True
    with less.prems show ?thesis by (auto simp: first_hop_def)
  next
    case False
    then obtain j where "j < k" "hop from to seeds j h" by blast
    with less.IH show ?thesis by (meson less_imp_le order_trans)
  qed
qed

lemma first_hop_pred:
  "first_hop from to seeds (Suc k) h \<Longrightarrow> \<exists>a. first_hop from to seeds k a \<and> h \<in> set (linked from to a)"
  by (auto simp: first_hop_def) (metis Suc_less_eq hop.simps(2))

lemma first_hop_below: "first_hop from to seeds k h \<Longrightarrow> j \<le> k \<Longrightarrow> \<exists>a. first_hop from to seeds j a"
proof (induction k arbitrary: h)
  case (Suc k)
  then show ?case using first_hop_pred by (metis le_Suc_eq)
qed auto

lemma bfs_visit_one:
  "map_of (fst (bfs_visit depth x st)) h = (if map_of (fst st) h = None \<and> h = x then Some depth else map_of (fst st) h)"
  "set (snd (bfs_visit depth x st)) = set (snd st) \<union> (if map_of (fst st) x = None then {x} else {})"
proof -
  have x: "x \<in> fst ` set (fst st) \<longleftrightarrow> map_of (fst st) x \<noteq> None" by (simp add: map_of_eq_None_iff)
  show "map_of (fst (bfs_visit depth x st)) h = (if map_of (fst st) h = None \<and> h = x then Some depth else map_of (fst st) h)"
    "set (snd (bfs_visit depth x st)) = set (snd st) \<union> (if map_of (fst st) x = None then {x} else {})"
    unfolding bfs_visit_def x by auto
qed

lemma bfs_visits:
  "map_of (fst (fold (bfs_visit depth) hs st)) h =
     (if map_of (fst st) h = None \<and> h \<in> set hs then Some depth else map_of (fst st) h)"
  "set (snd (fold (bfs_visit depth) hs st)) = set (snd st) \<union> {h \<in> set hs. map_of (fst st) h = None}"
  by (induction hs arbitrary: st) (auto simp: bfs_visit_one split: if_splits)

lemma fold_bfs_nodes:
  "fold (bfs_node from to depth) frontier st = fold (bfs_visit depth) (concat (map (linked from to) frontier)) st"
  by (induction frontier arbitrary: st) (simp_all add: bfs_node_def linked_def)

definition bfs_state :: "adjacency \<Rightarrow> adjacency \<Rightarrow> hash list \<Rightarrow> nat \<Rightarrow> hash list \<Rightarrow> (hash, int) gomap \<Rightarrow> bool" where
  "bfs_state from to seeds D frontier dists \<longleftrightarrow>
     (\<forall>h d. map_of dists h = Some d \<longleftrightarrow> (\<exists>k<Suc D. d = int k \<and> first_hop from to seeds k h)) \<and>
     (\<forall>h. h \<in> set frontier \<longleftrightarrow> first_hop from to seeds D h)"

lemma bfs_state_None:
  "bfs_state from to seeds D frontier dists \<Longrightarrow> map_of dists h = None \<longleftrightarrow> (\<forall>j<Suc D. \<not> hop from to seeds j h)"
proof -
  assume "bfs_state from to seeds D frontier dists"
  then have "map_of dists h = None \<longleftrightarrow> (\<forall>k<Suc D. \<not> first_hop from to seeds k h)"
    unfolding bfs_state_def by (metis not_None_eq)
  also have "\<dots> \<longleftrightarrow> (\<forall>j<Suc D. \<not> hop from to seeds j h)"
    by (meson first_hop_def hop_first le_less_trans)
  finally show ?thesis .
qed

lemma bfs_level:
  assumes "bfs_state from to seeds D frontier dists"
    and "fold (bfs_node from to (int (Suc D))) frontier (dists, []) = (dists', nxt)"
  shows "bfs_state from to seeds (Suc D) nxt dists'"
proof -
  let ?hs = "concat (map (linked from to) frontier)"
  have fold_eq: "fold (bfs_visit (int (Suc D))) ?hs (dists, []) = (dists', nxt)" using assms(2) by (simp only: fold_bfs_nodes)
  have nxt: "set nxt = {h \<in> set ?hs. map_of dists h = None}"
    using bfs_visits(2) [of "int (Suc D)" ?hs "(dists, [])"] unfolding fold_eq by simp
  have dists': "map_of dists' h = (if h \<in> set nxt then Some (int (Suc D)) else map_of dists h)" for h
    using bfs_visits(1) [of "int (Suc D)" ?hs "(dists, [])" h] unfolding fold_eq nxt by auto
  have front: "h \<in> set nxt \<longleftrightarrow> first_hop from to seeds (Suc D) h" for h
  proof
    assume "h \<in> set nxt"
    then have h: "h \<in> set ?hs" "map_of dists h = None" by (simp_all add: nxt)
    then obtain a where "first_hop from to seeds D a" "h \<in> set (linked from to a)"
      using assms(1) by (auto simp: bfs_state_def)
    moreover have "\<forall>j<Suc D. \<not> hop from to seeds j h" using bfs_state_None [OF assms(1)] h(2) by blast
    ultimately show "first_hop from to seeds (Suc D) h" by (auto simp: first_hop_def)
  next
    assume first: "first_hop from to seeds (Suc D) h"
    from first_hop_pred [OF this] obtain a where "a \<in> set frontier" "h \<in> set (linked from to a)"
      using assms(1) by (auto simp: bfs_state_def)
    moreover have "map_of dists h = None" using first bfs_state_None [OF assms(1)] by (simp add: first_hop_def)
    ultimately show "h \<in> set nxt" by (auto simp: nxt)
  qed
  have "map_of dists' h = Some d \<longleftrightarrow> (\<exists>k<Suc (Suc D). d = int k \<and> first_hop from to seeds k h)" for h d
  proof (cases "h \<in> set nxt")
    case True
    then have first: "first_hop from to seeds (Suc D) h" by (simp add: front)
    have "k = Suc D" if "k < Suc (Suc D)" "first_hop from to seeds k h" for k
      using that first by (metis first_hop_def less_Suc_eq)
    with True first show ?thesis unfolding dists' by (metis lessI option.inject)
  next
    case False
    then have "\<not> first_hop from to seeds (Suc D) h" by (simp add: front)
    moreover have "map_of dists' h = map_of dists h" using False by (simp add: dists')
    ultimately show ?thesis using assms(1) unfolding bfs_state_def by (metis less_Suc_eq)
  qed
  with front show ?thesis by (simp add: bfs_state_def)
qed

lemma bfs_levels_dists:
  "bfs_state from to seeds D frontier dists \<Longrightarrow>
     map_of (bfs_levels from to K (int (Suc D)) frontier dists) h = Some d \<longleftrightarrow>
       (\<exists>k\<le>D + K. d = int k \<and> first_hop from to seeds k h)"
proof (induction K arbitrary: D frontier dists)
  case 0
  then show ?case by (simp add: bfs_state_def less_Suc_eq_le)
next
  case (Suc K)
  show ?case
  proof (cases "frontier = []")
    case True
    then have "\<not> first_hop from to seeds D a" for a using Suc.prems by (auto simp: bfs_state_def)
    then have "k < Suc D" if "first_hop from to seeds k h" for k
      using first_hop_below [OF that, of D] by (meson not_less_eq_eq not_less less_imp_le)
    then have "(\<exists>k\<le>D + Suc K. d = int k \<and> first_hop from to seeds k h) \<longleftrightarrow> (\<exists>k<Suc D. d = int k \<and> first_hop from to seeds k h)"
      by (metis add.commute le_add2 le_trans less_Suc_eq_le)
    then show ?thesis
      using True Suc.prems by (simp add: bfs_state_def)
  next
    case False
    obtain dists' front' where level: "fold (bfs_node from to (int (Suc D))) frontier (dists, []) = (dists', front')"
      by force
    have step: "bfs_levels from to (Suc K) (int (Suc D)) frontier dists = bfs_levels from to K (int (Suc (Suc D))) front' dists'"
      using False level by (simp add: add.commute)
    show ?thesis unfolding step using Suc.IH [OF bfs_level [OF Suc.prems level]] by simp
  qed
qed

text \<open>
  C25. The distances of the walk are shortest paths: a node has distance \<open>d\<close> exactly if \<open>d \<le> 4\<close> and
  the shortest chain of links, in either direction, from a seed to it has length \<open>d\<close>.
\<close>

theorem bfs_distances_shortest:
  "map_of (bfsDistancesFromAdj seeds from to) h = Some d \<longleftrightarrow> (\<exists>k\<le>4. d = int k \<and> first_hop from to seeds k h)"
proof -
  have start: "map_of (fold (\<lambda>s. gomap_set s 0) xs m) h = (if h \<in> set xs then Some 0 else map_of m h)" for xs m h
    by (induction xs arbitrary: m) auto
  have "bfs_state from to seeds 0 seeds (fold (\<lambda>s. gomap_set s (0::int)) seeds [])"
    by (auto simp: bfs_state_def start first_hop_def)
  from bfs_levels_dists [OF this, of 4 h d] show ?thesis by (simp add: bfsDistancesFromAdj_def)
qed

section \<open>The restart vector\<close>

lemma keys_seed_fold: "fst ` set (fold (\<lambda>s. gomap_set s (f s)) xs m) = set xs \<union> fst ` set m"
  by (induction xs arbitrary: m) (auto simp: keys_gomap_set)

lemma gomap_set_new: "k \<notin> fst ` set m \<Longrightarrow> gomap_set k v m = m @ [(k, v)]"
  by (induction m) auto

lemma seed_fold_append:
  "distinct xs \<Longrightarrow> set xs \<inter> fst ` set m = {} \<Longrightarrow> fold (\<lambda>s. gomap_set s (f s)) xs m = m @ map (\<lambda>s. (s, f s)) xs"
  by (induction xs arbitrary: m) (auto simp: gomap_set_new)

lemma seed_vector_distinct:
  assumes "distinct seeds" "t = sum_list (map (weight_of ws) seeds)"
  shows "seed_vector seeds ws =
    map (\<lambda>s. (s, (if weight_of ws s \<le> 0 then 1 else weight_of ws s) / (if t \<le> 0 then of_nat (length seeds) else t))) seeds"
  unfolding seed_vector_def Let_def assms(2) by (simp only: seed_fold_append [OF assms(1), of "[]"] set_simps image_empty inf_bot_right append_Nil)

text \<open>
  The restart vector sums to 1 when every seed has a positive weight; a seed without one counts
  1 before the division by the sum of the given weights, so that the vector sums to more than 1 as
  soon as some, but not all, of the weights are missing.
\<close>

lemma seed_vector_sum:
  assumes "distinct seeds" "seeds \<noteq> []" "\<forall>s\<in>set seeds. 0 \<le> weight_of ws s"
  shows "((\<forall>s\<in>set seeds. 0 < weight_of ws s) \<longrightarrow> sum_list (map snd (seed_vector seeds ws)) = 1) \<and>
    ((\<exists>s\<in>set seeds. weight_of ws s = 0) \<and> (\<exists>s\<in>set seeds. 0 < weight_of ws s) \<longrightarrow>
      1 < sum_list (map snd (seed_vector seeds ws)))"
proof -
  define t where "t = sum_list (map (weight_of ws) seeds)"
  define n where "n = length (filter (\<lambda>s. weight_of ws s = 0) seeds)"
  have parts: "sum_list (map (\<lambda>s. if weight_of ws s \<le> 0 then 1 else weight_of ws s) xs) =
      sum_list (map (weight_of ws) xs) + of_nat (length (filter (\<lambda>s. weight_of ws s = 0) xs))"
    if "\<forall>s\<in>set xs. 0 \<le> weight_of ws s" for xs
    using that by (induction xs) (auto simp: order_antisym)
  have pos: "0 < t" if "\<exists>s\<in>set seeds. 0 < weight_of ws s"
  proof -
    have "\<exists>s\<in>set xs. 0 < weight_of ws s \<Longrightarrow> \<forall>s\<in>set xs. 0 \<le> weight_of ws s \<Longrightarrow> 0 < sum_list (map (weight_of ws) xs)" for xs
    proof (induction xs)
      case (Cons x xs)
      moreover have "0 \<le> sum_list (map (weight_of ws) xs)" using Cons.prems by (intro sum_list_nonneg) auto
      ultimately show ?case by (cases "0 < weight_of ws x") (auto intro: add_pos_nonneg add_nonneg_pos)
    qed simp
    with that assms(3) show ?thesis by (simp add: t_def)
  qed
  have sum: "sum_list (map snd (seed_vector seeds ws)) = (t + of_nat n) / t" if "0 < t"
  proof -
    have "map snd (seed_vector seeds ws) = map (\<lambda>s. (if weight_of ws s \<le> 0 then 1 else weight_of ws s) * (1 / t)) seeds"
      using that by (simp add: seed_vector_distinct [OF assms(1) t_def])
    then have "sum_list (map snd (seed_vector seeds ws)) = sum_list (map (\<lambda>s. if weight_of ws s \<le> 0 then 1 else weight_of ws s) seeds) * (1 / t)"
      by (simp only: sum_list_mult_const)
    then show ?thesis using parts [OF assms(3)] by (simp add: t_def n_def)
  qed
  have "sum_list (map snd (seed_vector seeds ws)) = 1" if all: "\<forall>s\<in>set seeds. 0 < weight_of ws s"
  proof -
    obtain s where "s \<in> set seeds" using assms(2) by (cases seeds) auto
    with all have "0 < t" by (intro pos) blast
    moreover have "n = 0" using all by (auto simp: n_def filter_empty_conv)
    ultimately show ?thesis using sum by simp
  qed
  moreover have "0 < n" if "\<exists>s\<in>set seeds. weight_of ws s = 0"
    using that by (auto simp: n_def filter_empty_conv)
  ultimately show ?thesis using sum pos by (auto simp: less_divide_eq)
qed

lemma seed_vector_sum_witness:
  "sum_list (map snd (seed_vector [1, 2] [(1, 1), (2, 3)])) = 1 \<and> 1 < sum_list (map snd (seed_vector [1, 2] [(1, 1 / 2)]))"
  using seed_vector_sum [of "[1, 2]" "[(1, 1), (2, 3)]"] seed_vector_sum [of "[1, 2]" "[(1, 1 / 2)]"]
  by (simp add: weight_of_def)

end
