(* ===== verification/AdjacencyCache.thy ===== *)
theory AdjacencyCache
  imports Base64 RandomWalk GraphDiff StoreRuntime
begin

text \<open>
  internal/context/walk.go, where the walk's adjacency maps come from: the compact cache of the whole edge
  table in a note (BuildAdjacencyCache, buildFromCache), the breadth-first load from the store
  (buildAdjacencyMap), its variant that stays within communities (buildAdjacencyMapFiltered) and the
  external nodes that no search expands (loadExternalHashes).
\<close>

section \<open>Level search\<close>

text \<open>
  A search by levels from the seeds: the nodes found so far and those of the current level. The lemmas
  of this locale hold for any neighbour function.
\<close>

primrec reach_by :: "('a \<Rightarrow> 'a set) \<Rightarrow> 'a set \<Rightarrow> nat \<Rightarrow> 'a set" where
  "reach_by nb S 0 = S"
| "reach_by nb S (Suc k) = reach_by nb S k \<union> \<Union> (nb ` reach_by nb S k)"

locale level_search =
  fixes nb :: "'a \<Rightarrow> 'a set" and seeds :: "'a set"
begin

definition frontier_ok :: "nat \<Rightarrow> 'a set \<Rightarrow> 'a set \<Rightarrow> bool" where
  "frontier_ok k found front \<longleftrightarrow>
     found = reach_by nb seeds k \<and> front \<subseteq> found \<and> (\<forall>a\<in>found - front. nb a \<subseteq> found)"

lemma frontier_start: "frontier_ok 0 seeds seeds"
  by (simp add: frontier_ok_def)

lemma frontier_next:
  assumes "frontier_ok k found front"
  shows "frontier_ok (Suc k) (found \<union> \<Union> (nb ` front)) (\<Union> (nb ` front) - found)"
  using assms unfolding frontier_ok_def reach_by.simps by blast

lemma frontier_empty: "frontier_ok k found {} \<Longrightarrow> reach_by nb seeds (k + n) = found"
proof (induction n)
  case (Suc n)
  then show ?case by (auto simp: frontier_ok_def)
qed (simp add: frontier_ok_def)

end

lemma reach_by_mono: "k \<le> n \<Longrightarrow> reach_by nb S k \<subseteq> reach_by nb S n"
  by (induction n) (auto simp: le_Suc_eq)

section \<open>The binary form of the edge table\<close>

definition adjacencyCacheKey :: string where "adjacencyCacheKey = ''adjacency_cache''"

definition adjEdgeTypeToID :: "(string, nat) gomap" where
  "adjEdgeTypeToID = [(''calls'', 1), (''imports'', 2), (''implements'', 3), (''references'', 4),
     (''handles_route'', 5), (''depends_on'', 6), (''extends'', 7), (''overrides'', 8), (''decorates'', 9),
     (''throws'', 10), (''owned_by'', 11), (''authored_by'', 12), (''tests'', 13), (''documents'', 14),
     (''consumes_endpoint'', 15), (''implements_rpc'', 16), (''consumes_rpc'', 17), (''gated_by_flag'', 18),
     (''deployed_by'', 19), (''tested_by'', 20), (''deploys'', 21), (''exposes'', 22), (''configures'', 23),
     (''publishes'', 24), (''subscribes'', 25), (''connects_to'', 26), (''runtime_calls'', 27),
     (''runtime_rpc'', 28), (''runtime_produces'', 29), (''runtime_consumes'', 30), (''similar_to'', 31),
     (''co_tested_with'', 32), (''type_hint_of'', 33), (''accesses_field'', 34), (''reads_env'', 35),
     (''executes_process'', 36)]"

definition adjIDToEdgeType :: "(nat, string) gomap" where
  "adjIDToEdgeType = fold (\<lambda>(k, v). gomap_set v k) adjEdgeTypeToID []"

definition edge_type_id :: "string \<Rightarrow> nat" where
  "edge_type_id et = (case map_of adjEdgeTypeToID et of Some i \<Rightarrow> i | None \<Rightarrow> 0)"

record compactEdge =
  ce_source :: hash
  ce_target :: hash
  ce_edgeType :: string

definition encode_compact :: "edge \<Rightarrow> bytes" where
  "encode_compact e = hash_bytes (SourceHash e) @ hash_bytes (TargetHash e) @ [char_of (edge_type_id (EdgeType e))]"

definition encode_adjacency :: "edge list \<Rightarrow> bytes" where
  "encode_adjacency es = PutUint 4 (length es) @ concat (map encode_compact es)"

definition adjacency_cache_hash :: "sha \<Rightarrow> hash" where
  "adjacency_cache_hash H = NewHash H ''adjacency_cache_v2''"

definition BuildAdjacencyCache :: "sha \<Rightarrow> int \<Rightarrow> unit op" where
  "BuildAdjacencyCache H now =
     bind_op (wrap_op ''AllEdges'' AllEdges) (\<lambda>allEdges.
       if length allEdges = 0 then fail_op (Errorf ''AllEdges returned 0 edges'')
       else PutNote \<lparr>ObjectHash = adjacency_cache_hash H, Note_Key = adjacencyCacheKey,
                     Note_Value = base64_EncodeToString (encode_adjacency allEdges), UpdatedAt = now\<rparr>)"

definition decode_compact :: "bytes \<Rightarrow> compactEdge" where
  "decode_compact b =
     (let tid = of_char (b ! 64);
          et = (case map_of adjIDToEdgeType tid of Some t \<Rightarrow> t | None \<Rightarrow> '''')
      in \<lparr>ce_source = copy_hash (take 32 b), ce_target = copy_hash (take 32 (drop 32 b)),
          ce_edgeType = (if et = '''' then ''references'' else et)\<rparr>)"

fun decode_records :: "nat \<Rightarrow> bytes \<Rightarrow> compactEdge list" where
  "decode_records 0 raw = []"
| "decode_records (Suc n) raw = decode_compact raw # decode_records n (drop 65 raw)"

datatype cache_error = CorruptInput | CacheTooShort nat | CacheTruncated nat nat

definition decode_cache :: "string \<Rightarrow> cache_error + compactEdge list" where
  "decode_cache data =
     (case base64_DecodeString data of
        None \<Rightarrow> Inl CorruptInput
      | Some raw \<Rightarrow>
          if length raw < 4 then Inl (CacheTooShort (length raw))
          else
            let numEdges = Uint (take 4 raw); expected = 4 + numEdges * 65 in
            if length raw < expected then Inl (CacheTruncated (length raw) expected)
            else Inr (decode_records numEdges (drop 4 raw)))"

section \<open>The walk's neighbourhood from the cache\<close>

text \<open>
  The package variables: \<open>ExcludeEdgeTypes\<close> as a predicate, false everywhere when the map is nil, and
  \<open>BFSMaxDepth\<close>, where zero stands for 4.
\<close>

record walk_config =
  ExcludeEdgeTypes :: "string \<Rightarrow> bool"
  BFSMaxDepth :: int

definition max_depth :: "walk_config \<Rightarrow> nat" where
  "max_depth cfg = nat (if BFSMaxDepth cfg = 0 then 4 else BFSMaxDepth cfg)"

definition compact_at :: "(hash, compactEdge list) gomap \<Rightarrow> hash \<Rightarrow> compactEdge list" where
  "compact_at m h = (case map_of m h of Some ces \<Rightarrow> ces | None \<Rightarrow> [])"

definition cache_visit :: "walk_config \<Rightarrow> hash set \<Rightarrow> (compactEdge \<Rightarrow> hash) \<Rightarrow> compactEdge \<Rightarrow> hash list \<times> hash list \<Rightarrow> hash list \<times> hash list" where
  "cache_visit cfg externals endp ce st =
     (if ExcludeEdgeTypes cfg (ce_edgeType ce) then st
      else if endp ce \<notin> set (fst st) \<and> endp ce \<notin> externals then (fst st @ [endp ce], snd st @ [endp ce]) else st)"

definition cache_node_visit ::
  "walk_config \<Rightarrow> hash set \<Rightarrow> (hash, compactEdge list) gomap \<Rightarrow> (hash, compactEdge list) gomap \<Rightarrow> hash
     \<Rightarrow> hash list \<times> hash list \<Rightarrow> hash list \<times> hash list" where
  "cache_node_visit cfg externals fromMap toMap node st =
     fold (cache_visit cfg externals ce_source) (compact_at toMap node)
       (fold (cache_visit cfg externals ce_target) (compact_at fromMap node) st)"

fun cache_levels ::
  "walk_config \<Rightarrow> hash set \<Rightarrow> (hash, compactEdge list) gomap \<Rightarrow> (hash, compactEdge list) gomap \<Rightarrow> nat
     \<Rightarrow> hash list \<Rightarrow> hash list \<Rightarrow> hash list" where
  "cache_levels cfg externals fromMap toMap 0 visited frontier = visited"
| "cache_levels cfg externals fromMap toMap (Suc n) visited frontier =
     (if length frontier = 0 then visited
      else case fold (cache_node_visit cfg externals fromMap toMap) frontier (visited, []) of
        (visited, nextFrontier) \<Rightarrow> cache_levels cfg externals fromMap toMap n visited nextFrontier)"

text \<open>\<open>types.Edge{SourceHash, TargetHash, EdgeType}\<close>, every other field zero.\<close>

definition to_edge :: "compactEdge \<Rightarrow> edge" where
  "to_edge ce = \<lparr>EdgeHash = 0, SourceHash = ce_source ce, TargetHash = ce_target ce, EdgeType = ce_edgeType ce,
     Confidence = 0, Provenance = '''', CallSiteLine = 0, CallSiteCol = 0, CallSiteFile = '''',
     ObservationCount = 0, LastObserved = 0\<rparr>"

definition kept_edges :: "walk_config \<Rightarrow> compactEdge list \<Rightarrow> edge list" where
  "kept_edges cfg ces = map to_edge (filter (\<lambda>ce. \<not> ExcludeEdgeTypes cfg (ce_edgeType ce)) ces)"

definition adjacency_of :: "walk_config \<Rightarrow> (hash, compactEdge list) gomap \<Rightarrow> hash list \<Rightarrow> adjacency" where
  "adjacency_of cfg m visited =
     fold (\<lambda>node adj. let es = kept_edges cfg (compact_at m node) in if es = [] then adj else gomap_set node es adj) visited []"

definition buildFromCache :: "walk_config \<Rightarrow> string \<Rightarrow> hash list \<Rightarrow> hash set \<Rightarrow> cache_error + (adjacency \<times> adjacency)" where
  "buildFromCache cfg data seeds externals =
     bind_res (decode_cache data) (\<lambda>ces.
       let fromMap = fold (\<lambda>ce. gomap_append (ce_source ce) ce) ces [];
           toMap = fold (\<lambda>ce. gomap_append (ce_target ce) ce) ces [];
           visited = cache_levels cfg externals fromMap toMap (max_depth cfg) (remdups seeds) seeds
       in Inr (adjacency_of cfg fromMap visited, adjacency_of cfg toMap visited))"

section \<open>The walk's neighbourhood from the store\<close>

definition try_op :: "'a op \<Rightarrow> (go_error + 'a) op" where
  "try_op m s = (case m s of (r, s') \<Rightarrow> (Inr r, s'))"

definition is_external :: "node \<Rightarrow> bool" where
  "is_external n \<longleftrightarrow> Kind n = ''external'' \<or> strings_HasPrefix (QualifiedName n) ''external://''"

definition loadExternalHashes :: "hash set op" where
  "loadExternalHashes =
     bind_op (try_op (NodesByName ''%external%'')) (\<lambda>r.
       case r of Inl _ \<Rightarrow> ret {} | Inr nodes \<Rightarrow> ret (NodeHash ` set (filter is_external nodes)))"

record neighbourhood =
  nb_from :: adjacency
  nb_to :: adjacency
  nb_visited :: "hash list"
  nb_next :: "hash list"

text \<open>The body of the loop over a node's edges: \<open>endp\<close> is the end the search goes to.\<close>

definition expand :: "walk_config \<Rightarrow> hash set \<Rightarrow> (edge \<Rightarrow> hash) \<Rightarrow> edge \<Rightarrow> neighbourhood \<Rightarrow> neighbourhood" where
  "expand cfg externals endp e nb =
     (if ExcludeEdgeTypes cfg (EdgeType e) then nb
      else if endp e \<notin> set (nb_visited nb) \<and> endp e \<notin> externals then
        (if map_of edgeWeights (EdgeType e) = Some 0 then nb
         else nb\<lparr>nb_visited := nb_visited nb @ [endp e], nb_next := nb_next nb @ [endp e]\<rparr>)
      else nb)"

definition load_from :: "walk_config \<Rightarrow> hash set \<Rightarrow> hash \<Rightarrow> neighbourhood \<Rightarrow> neighbourhood op" where
  "load_from cfg externals node nb =
     (if node \<in> fst ` set (nb_from nb) then ret nb
      else bind_op (EdgesFrom node '''') (\<lambda>es.
             ret (fold (expand cfg externals TargetHash) es (nb\<lparr>nb_from := gomap_set node es (nb_from nb)\<rparr>))))"

definition load_to :: "walk_config \<Rightarrow> hash set \<Rightarrow> hash \<Rightarrow> neighbourhood \<Rightarrow> neighbourhood op" where
  "load_to cfg externals node nb =
     (if node \<in> fst ` set (nb_to nb) then ret nb
      else bind_op (EdgesTo node '''') (\<lambda>es.
             ret (fold (expand cfg externals SourceHash) es (nb\<lparr>nb_to := gomap_set node es (nb_to nb)\<rparr>))))"

primrec load_nodes :: "walk_config \<Rightarrow> hash set \<Rightarrow> hash list \<Rightarrow> neighbourhood \<Rightarrow> neighbourhood op" where
  "load_nodes cfg externals [] nb = ret nb"
| "load_nodes cfg externals (node # frontier) nb =
     bind_op (load_from cfg externals node nb) (\<lambda>nb.
     bind_op (load_to cfg externals node nb) (\<lambda>nb.
     load_nodes cfg externals frontier nb))"

primrec load_levels :: "walk_config \<Rightarrow> hash set \<Rightarrow> nat \<Rightarrow> hash list \<Rightarrow> neighbourhood \<Rightarrow> neighbourhood op" where
  "load_levels cfg externals 0 frontier nb = ret nb"
| "load_levels cfg externals (Suc n) frontier nb =
     (if length frontier = 0 then ret nb
      else bind_op (load_nodes cfg externals frontier (nb\<lparr>nb_next := []\<rparr>)) (\<lambda>nb.
             load_levels cfg externals n (nb_next nb) nb))"

definition load_adjacency :: "walk_config \<Rightarrow> hash set \<Rightarrow> hash list \<Rightarrow> (adjacency \<times> adjacency) op" where
  "load_adjacency cfg externals seeds =
     bind_op (load_levels cfg externals (max_depth cfg) seeds
         \<lparr>nb_from = [], nb_to = [], nb_visited = remdups seeds, nb_next = []\<rparr>) (\<lambda>nb.
       ret (nb_from nb, nb_to nb))"

definition buildAdjacencyMap :: "sha \<Rightarrow> walk_config \<Rightarrow> hash list \<Rightarrow> (adjacency \<times> adjacency) op" where
  "buildAdjacencyMap H cfg seeds =
     bind_op loadExternalHashes (\<lambda>externals.
     bind_op (try_op (GetNote (adjacency_cache_hash H) adjacencyCacheKey)) (\<lambda>r.
       case r of
         Inr (Some n) \<Rightarrow>
           if length (Note_Value n) > 100 then
             (case buildFromCache cfg (Note_Value n) seeds externals of
                Inr (from, to) \<Rightarrow> ret (from, to)
              | Inl _ \<Rightarrow> load_adjacency cfg externals seeds)
           else load_adjacency cfg externals seeds
       | _ \<Rightarrow> load_adjacency cfg externals seeds))"

section \<open>Reading the cache back\<close>

definition compact_of :: "edge \<Rightarrow> compactEdge" where
  "compact_of e = \<lparr>ce_source = SourceHash e, ce_target = TargetHash e,
     ce_edgeType = (if EdgeType e \<in> fst ` set adjEdgeTypeToID then EdgeType e else ''references'')\<rparr>"

lemma edge_type_ids:
  "\<forall>p\<in>set adjEdgeTypeToID. map_of adjIDToEdgeType (snd p) = Some (fst p) \<and> 0 < snd p \<and> snd p < 256 \<and> fst p \<noteq> ''''"
  "map_of adjIDToEdgeType 0 = None"
  by code_simp+

lemma edge_type_id_back:
  "map_of adjIDToEdgeType (edge_type_id et) = (if et \<in> fst ` set adjEdgeTypeToID then Some et else None)"
proof (cases "map_of adjEdgeTypeToID et")
  case None
  then have "et \<notin> fst ` set adjEdgeTypeToID" by (simp add: map_of_eq_None_iff)
  moreover from None have "edge_type_id et = 0" by (simp add: edge_type_id_def)
  ultimately show ?thesis by (simp only: edge_type_ids(2) if_False)
next
  case (Some i)
  from edge_type_ids(1) map_of_SomeD [OF this] show ?thesis by (force simp: edge_type_id_def Some)
qed

lemma edge_type_id_less: "edge_type_id et < 256"
proof (cases "map_of adjEdgeTypeToID et")
  case (Some i)
  from edge_type_ids(1) map_of_SomeD [OF this] show ?thesis by (force simp: edge_type_id_def Some)
qed (simp add: edge_type_id_def)

lemma known_type_named: "et \<in> fst ` set adjEdgeTypeToID \<Longrightarrow> et \<noteq> ''''"
  using edge_type_ids(1) by force

lemma length_encode_compact [simp]: "length (encode_compact e) = 65"
  by (simp add: encode_compact_def)

lemma decode_encode_compact: "decode_compact (encode_compact e @ rest) = compact_of e"
proof -
  have "(encode_compact e @ rest) ! 64 = char_of (edge_type_id (EdgeType e))"
    by (simp add: encode_compact_def nth_append)
  moreover have "take 32 (encode_compact e @ rest) = hash_bytes (SourceHash e)"
    "take 32 (drop 32 (encode_compact e @ rest)) = hash_bytes (TargetHash e)"
    by (simp_all add: encode_compact_def)
  ultimately show ?thesis
    using edge_type_id_less [of "EdgeType e"] known_type_named [of "EdgeType e"]
    by (simp add: decode_compact_def compact_of_def edge_type_id_back Let_def)
qed

lemma decode_records_encode: "decode_records (length es) (concat (map encode_compact es) @ rest) = map compact_of es"
  by (induction es) (simp_all add: decode_encode_compact)

lemma length_encodes: "length (concat (map encode_compact es)) = 65 * length es"
  by (induction es) simp_all

lemma decode_cache_encode:
  "length es < 2 ^ 32 \<Longrightarrow> decode_cache (base64_EncodeToString (encode_adjacency es)) = Inr (map compact_of es)"
  using decode_records_encode [of es "[]"]
  by (simp add: decode_cache_def encode_adjacency_def length_encodes Let_def)

section \<open>The search over the cache\<close>

definition found_more :: "'a set \<Rightarrow> 'a list \<times> 'a list \<Rightarrow> 'a list \<times> 'a list \<Rightarrow> bool" where
  "found_more X st st' \<longleftrightarrow>
     set (fst st') = set (fst st) \<union> X \<and> set (snd st') = set (snd st) \<union> (X - set (fst st))"

lemma found_more_trans: "found_more X st st1 \<Longrightarrow> found_more Y st1 st2 \<Longrightarrow> found_more (X \<union> Y) st st2"
  unfolding found_more_def by blast

lemma found_more_fold:
  "(\<And>x st. found_more (X x) st (f x st)) \<Longrightarrow> found_more (\<Union>x\<in>set xs. X x) st (fold f xs st)"
proof (induction xs arbitrary: st)
  case (Cons x xs)
  have "found_more (X x \<union> (\<Union>x\<in>set xs. X x)) st (fold f xs (f x st))"
    by (rule found_more_trans [OF Cons.prems Cons.IH [OF Cons.prems]])
  then show ?case by simp
qed (simp add: found_more_def)

definition cache_nb :: "walk_config \<Rightarrow> hash set \<Rightarrow> compactEdge list \<Rightarrow> hash \<Rightarrow> hash set" where
  "cache_nb cfg externals ces a =
     (ce_target ` {ce\<in>set ces. ce_source ce = a \<and> \<not> ExcludeEdgeTypes cfg (ce_edgeType ce)} \<union>
      ce_source ` {ce\<in>set ces. ce_target ce = a \<and> \<not> ExcludeEdgeTypes cfg (ce_edgeType ce)}) - externals"

lemma cache_visit_found:
  "found_more (if ExcludeEdgeTypes cfg (ce_edgeType ce) then {} else {endp ce} - externals) st (cache_visit cfg externals endp ce st)"
  by (auto simp: cache_visit_def found_more_def)

lemma compact_at_append:
  "compact_at (fold (\<lambda>ce. gomap_append (k ce) ce) ces m) h = compact_at m h @ filter (\<lambda>ce. k ce = h) ces"
proof (induction ces arbitrary: m)
  case (Cons ce ces)
  then show ?case by (simp add: compact_at_def gomap_append_def)
qed simp

lemma compact_at_Nil [simp]: "compact_at [] h = []"
  by (simp add: compact_at_def)

abbreviation indexed :: "(compactEdge \<Rightarrow> hash) \<Rightarrow> compactEdge list \<Rightarrow> (hash, compactEdge list) gomap" where
  "indexed k ces \<equiv> fold (\<lambda>ce. gomap_append (k ce) ce) ces []"

lemma cache_node_found:
  "found_more (cache_nb cfg externals ces node) st
     (cache_node_visit cfg externals (indexed ce_source ces) (indexed ce_target ces) node st)"
proof -
  let ?X = "\<lambda>endp ce. if ExcludeEdgeTypes cfg (ce_edgeType ce) then {} else {endp ce} - externals"
  let ?src = "filter (\<lambda>ce. ce_source ce = node) ces" and ?tgt = "filter (\<lambda>ce. ce_target ce = node) ces"
  have "found_more ((\<Union>ce\<in>set ?src. ?X ce_target ce) \<union> (\<Union>ce\<in>set ?tgt. ?X ce_source ce)) st
     (fold (cache_visit cfg externals ce_source) ?tgt (fold (cache_visit cfg externals ce_target) ?src st))"
    by (rule found_more_trans; rule found_more_fold; rule cache_visit_found)
  moreover have "(\<Union>ce\<in>set ?src. ?X ce_target ce) \<union> (\<Union>ce\<in>set ?tgt. ?X ce_source ce) = cache_nb cfg externals ces node"
    by (auto simp: cache_nb_def split: if_splits)
  ultimately show ?thesis by (simp add: cache_node_visit_def compact_at_append)
qed

interpretation cached: level_search "cache_nb cfg externals ces" "set seeds" for cfg externals ces seeds .

lemma cache_levels_reach:
  assumes "cached.frontier_ok cfg externals ces seeds k (set visited) (set frontier)"
  shows "set (cache_levels cfg externals (indexed ce_source ces) (indexed ce_target ces) n visited frontier) =
           reach_by (cache_nb cfg externals ces) (set seeds) (k + n)"
  using assms
proof (induction n arbitrary: k visited frontier)
  case 0
  then show ?case by (simp add: cached.frontier_ok_def)
next
  case (Suc n)
  let ?step = "fold (cache_node_visit cfg externals (indexed ce_source ces) (indexed ce_target ces)) frontier (visited, [])"
  have "found_more (\<Union>a\<in>set frontier. cache_nb cfg externals ces a) (visited, []) ?step"
    by (rule found_more_fold, rule cache_node_found)
  then have sets: "set (fst ?step) = set visited \<union> \<Union> (cache_nb cfg externals ces ` set frontier)"
    "set (snd ?step) = \<Union> (cache_nb cfg externals ces ` set frontier) - set visited"
    by (simp_all add: found_more_def)
  show ?case
  proof (cases "frontier = []")
    case True
    with Suc.prems have "cached.frontier_ok cfg externals ces seeds k (set visited) {}" by simp
    from cached.frontier_empty [OF this, of "Suc n"] show ?thesis using True by simp
  next
    case False
    from cached.frontier_next [OF Suc.prems]
    have "cached.frontier_ok cfg externals ces seeds (Suc k) (set (fst ?step)) (set (snd ?step))" by (simp only: sets)
    from Suc.IH [OF this] False show ?thesis by (simp add: case_prod_unfold)
  qed
qed

lemma map_of_adjacency_of:
  "map_of (fold (\<lambda>node adj. let es = F node in if es = [] then adj else gomap_set node es adj) visited m) h =
     (if h \<in> set visited \<and> F h \<noteq> [] then Some (F h) else map_of m h)"
  by (induction visited arbitrary: m) (auto simp: Let_def)

lemma edges_at_adjacency_of:
  "edges_at (adjacency_of cfg m visited) h = (if h \<in> set visited then kept_edges cfg (compact_at m h) else [])"
  by (simp add: adjacency_of_def edges_at_def map_of_adjacency_of)

lemma buildFromCache_edges:
  assumes "decode_cache data = Inr ces"
    and "R = reach_by (cache_nb cfg externals ces) (set seeds) (max_depth cfg)"
  obtains fm tm where "buildFromCache cfg data seeds externals = Inr (fm, tm)"
    "\<And>h. edges_at fm h = (if h \<in> R then kept_edges cfg (filter (\<lambda>ce. ce_source ce = h) ces) else [])"
    "\<And>h. edges_at tm h = (if h \<in> R then kept_edges cfg (filter (\<lambda>ce. ce_target ce = h) ces) else [])"
proof -
  have "cached.frontier_ok cfg externals ces seeds 0 (set (remdups seeds)) (set seeds)"
    by (simp add: cached.frontier_start)
  from cache_levels_reach [OF this, of "max_depth cfg"] that show thesis
    by (auto simp: buildFromCache_def assms Let_def edges_at_adjacency_of compact_at_append)
qed

section \<open>The search over the store\<close>

lemma reads_try [reads_intro]: "reads d m x \<Longrightarrow> reads d (try_op m) (Inr x)"
  unfolding reads_def try_op_def by fastforce

definition external_nodes :: "db \<Rightarrow> hash set" where
  "external_nodes d =
     NodeHash ` {n \<in> set (T_nodes d). sql_like ''%external%%'' (QualifiedName n) \<and> is_external (scanNode n)}"

lemma scanNode_fields [simp]: "NodeHash (scanNode r) = NodeHash r" "QualifiedName (scanNode r) = QualifiedName r"
  by (simp_all add: scanNode_def node.truncate_def)

lemma reads_loadExternalHashes [reads_intro]: "reads d loadExternalHashes (external_nodes d)"
proof -
  let ?f = "\<lambda>d. sort_key QualifiedName (nodes_where (\<lambda>r. sql_like ''%external%%'' (QualifiedName r)) d)"
  have "reads d (NodesByName ''%external%'') (?f d)"
    unfolding NodesByName_def using reads_query [of d ?f] by simp
  from reads_try [OF this] show ?thesis
    unfolding loadExternalHashes_def
    by (rule reads_bind) (auto simp: external_nodes_def nodes_where_def image_image intro!: reads_ret_eq image_eqI)
qed

abbreviation edges_out :: "db \<Rightarrow> hash \<Rightarrow> edge list" where
  "edges_out d h \<equiv> edges_where (\<lambda>r. SourceHash r = h) d"

abbreviation edges_in :: "db \<Rightarrow> hash \<Rightarrow> edge list" where
  "edges_in d h \<equiv> edges_where (\<lambda>r. TargetHash r = h) d"

lemma reads_Edges [reads_intro]:
  "reads d (EdgesFrom h '''') (edges_out d h)" "reads d (EdgesTo h '''') (edges_in d h)"
  unfolding EdgesFrom_def EdgesTo_def by (simp_all add: reads_query)

text \<open>The edges a search goes along: not excluded, not of weight zero, not to an external node.\<close>

definition open_edge :: "walk_config \<Rightarrow> edge \<Rightarrow> bool" where
  "open_edge cfg e \<longleftrightarrow> \<not> ExcludeEdgeTypes cfg (EdgeType e) \<and> map_of edgeWeights (EdgeType e) \<noteq> Some 0"

definition onward :: "walk_config \<Rightarrow> hash set \<Rightarrow> (edge \<Rightarrow> hash) \<Rightarrow> edge list \<Rightarrow> hash set" where
  "onward cfg externals endp es = endp ` set (filter (open_edge cfg) es) - externals"

definition store_nb :: "walk_config \<Rightarrow> db \<Rightarrow> hash \<Rightarrow> hash set" where
  "store_nb cfg d a = onward cfg (external_nodes d) TargetHash (edges_out d a) \<union> onward cfg (external_nodes d) SourceHash (edges_in d a)"

definition nb_pair :: "neighbourhood \<Rightarrow> hash list \<times> hash list" where
  "nb_pair nb = (nb_visited nb, nb_next nb)"

lemma expand_maps [simp]: "nb_from (expand cfg ext endp e nb) = nb_from nb" "nb_to (expand cfg ext endp e nb) = nb_to nb"
  by (simp_all add: expand_def)

lemma fold_expand_maps [simp]:
  "nb_from (fold (expand cfg ext endp) es nb) = nb_from nb" "nb_to (fold (expand cfg ext endp) es nb) = nb_to nb"
  by (induction es arbitrary: nb) simp_all

lemma expand_found:
  "found_more (if open_edge cfg e then {endp e} - ext else {}) (nb_pair nb) (nb_pair (expand cfg ext endp e nb))"
  by (auto simp: expand_def found_more_def nb_pair_def open_edge_def)

lemma fold_expand_found: "found_more (onward cfg ext endp es) (nb_pair nb) (nb_pair (fold (expand cfg ext endp) es nb))"
proof (induction es arbitrary: nb)
  case (Cons e es)
  have eq: "onward cfg ext endp (e # es) = (if open_edge cfg e then {endp e} - ext else {}) \<union> onward cfg ext endp es"
    by (auto simp: onward_def)
  from found_more_trans [OF expand_found Cons.IH, of cfg e endp ext nb] show ?case by (simp only: eq fold_Cons o_def)
qed (auto simp: found_more_def onward_def)

text \<open>The maps hold the edges of exactly the loaded nodes, whose onward ends have been visited.\<close>

definition side_ok :: "walk_config \<Rightarrow> hash set \<Rightarrow> (edge \<Rightarrow> hash) \<Rightarrow> (hash \<Rightarrow> edge list) \<Rightarrow> adjacency \<Rightarrow> hash set \<Rightarrow> hash set \<Rightarrow> bool" where
  "side_ok cfg ext endp es_of adj loaded visited \<longleftrightarrow>
     (\<forall>h. map_of adj h = (if h \<in> loaded then Some (es_of h) else None)) \<and>
     (\<forall>h\<in>loaded. onward cfg ext endp (es_of h) \<subseteq> visited)"

definition nb_ok :: "walk_config \<Rightarrow> db \<Rightarrow> hash set \<Rightarrow> neighbourhood \<Rightarrow> bool" where
  "nb_ok cfg d loaded nb \<longleftrightarrow>
     side_ok cfg (external_nodes d) TargetHash (edges_out d) (nb_from nb) loaded (set (nb_visited nb)) \<and>
     side_ok cfg (external_nodes d) SourceHash (edges_in d) (nb_to nb) loaded (set (nb_visited nb))"

lemma side_ok_mono: "side_ok cfg ext endp es_of adj K V \<Longrightarrow> V \<subseteq> V' \<Longrightarrow> side_ok cfg ext endp es_of adj K V'"
  unfolding side_ok_def by blast

lemma side_ok_set:
  "side_ok cfg ext endp es_of adj K V \<Longrightarrow> onward cfg ext endp (es_of h) \<subseteq> V \<Longrightarrow> side_ok cfg ext endp es_of (gomap_set h (es_of h) adj) (insert h K) V"
  by (simp add: side_ok_def)

lemma side_ok_loaded: "side_ok cfg ext endp es_of adj K V \<Longrightarrow> h \<in> fst ` set adj \<longleftrightarrow> h \<in> K"
  unfolding side_ok_def by (metis map_of_eq_None_iff option.distinct(1))

lemma side_loaded:
  "side_ok cfg ext endp es_of adj K (set (nb_visited nb)) \<Longrightarrow> node \<in> K \<Longrightarrow>
     found_more (onward cfg ext endp (es_of node)) (nb_pair nb) (nb_pair nb)"
  by (auto simp: side_ok_def found_more_def nb_pair_def)

lemma side_step:
  fixes node
  assumes "side_ok cfg ext endp es_of adj K (set (nb_visited nb))" "nb_pair nb0 = nb_pair nb"
  defines "nb' \<equiv> fold (expand cfg ext endp) (es_of node) nb0"
  shows "found_more (onward cfg ext endp (es_of node)) (nb_pair nb) (nb_pair nb')"
    "side_ok cfg ext endp es_of (gomap_set node (es_of node) adj) (insert node K) (set (nb_visited nb'))"
proof -
  show found: "found_more (onward cfg ext endp (es_of node)) (nb_pair nb) (nb_pair nb')"
    unfolding nb'_def assms(2) [symmetric] by (rule fold_expand_found)
  then have "set (nb_visited nb) \<subseteq> set (nb_visited nb')" "onward cfg ext endp (es_of node) \<subseteq> set (nb_visited nb')"
    by (auto simp: found_more_def nb_pair_def)
  then show "side_ok cfg ext endp es_of (gomap_set node (es_of node) adj) (insert node K) (set (nb_visited nb'))"
    by (intro side_ok_set side_ok_mono [OF assms(1)])
qed

lemma load_from_reads:
  assumes "side_ok cfg ext TargetHash (edges_out d) (nb_from nb) K (set (nb_visited nb))"
  obtains nb' where "reads d (load_from cfg ext node nb) nb'" "nb_to nb' = nb_to nb"
    "side_ok cfg ext TargetHash (edges_out d) (nb_from nb') (insert node K) (set (nb_visited nb'))"
    "found_more (onward cfg ext TargetHash (edges_out d node)) (nb_pair nb) (nb_pair nb')"
proof (cases "node \<in> K")
  case True
  with assms that [of nb] side_ok_loaded [OF assms, of node] side_loaded [OF assms True] show thesis
    by (simp add: load_from_def reads_ret insert_absorb)
next
  case False
  let ?nb0 = "nb\<lparr>nb_from := gomap_set node (edges_out d node) (nb_from nb)\<rparr>"
  have "nb_pair ?nb0 = nb_pair nb" by (simp add: nb_pair_def)
  from side_step [OF assms this, of node] show thesis
    using False side_ok_loaded [OF assms, of node]
    by (intro that [of "fold (expand cfg ext TargetHash) (edges_out d node) ?nb0"])
       (simp_all add: load_from_def, rule reads_bind [OF reads_Edges(1) reads_ret])
qed

lemma load_to_reads:
  assumes "side_ok cfg ext SourceHash (edges_in d) (nb_to nb) K (set (nb_visited nb))"
  obtains nb' where "reads d (load_to cfg ext node nb) nb'" "nb_from nb' = nb_from nb"
    "side_ok cfg ext SourceHash (edges_in d) (nb_to nb') (insert node K) (set (nb_visited nb'))"
    "found_more (onward cfg ext SourceHash (edges_in d node)) (nb_pair nb) (nb_pair nb')"
proof (cases "node \<in> K")
  case True
  with assms that [of nb] side_ok_loaded [OF assms, of node] side_loaded [OF assms True] show thesis
    by (simp add: load_to_def reads_ret insert_absorb)
next
  case False
  let ?nb0 = "nb\<lparr>nb_to := gomap_set node (edges_in d node) (nb_to nb)\<rparr>"
  have "nb_pair ?nb0 = nb_pair nb" by (simp add: nb_pair_def)
  from side_step [OF assms this, of node] show thesis
    using False side_ok_loaded [OF assms, of node]
    by (intro that [of "fold (expand cfg ext SourceHash) (edges_in d node) ?nb0"])
       (simp_all add: load_to_def, rule reads_bind [OF reads_Edges(2) reads_ret])
qed

lemma load_nodes_reads:
  assumes "nb_ok cfg d K nb"
  obtains nb' where "reads d (load_nodes cfg (external_nodes d) nodes nb) nb'" "nb_ok cfg d (K \<union> set nodes) nb'"
    "found_more (\<Union> (store_nb cfg d ` set nodes)) (nb_pair nb) (nb_pair nb')"
  using assms
proof (induction nodes arbitrary: K nb thesis)
  case Nil
  from Nil.prems(2) show ?case by (intro Nil.prems(1) [of nb]) (simp_all add: reads_ret found_more_def)
next
  case (Cons node nodes)
  let ?ext = "external_nodes d"
  from Cons.prems(2) have from_ok: "side_ok cfg ?ext TargetHash (edges_out d) (nb_from nb) K (set (nb_visited nb))"
    and to_ok: "side_ok cfg ?ext SourceHash (edges_in d) (nb_to nb) K (set (nb_visited nb))"
    by (simp_all add: nb_ok_def)
  obtain nb1 where nb1: "reads d (load_from cfg ?ext node nb) nb1" "nb_to nb1 = nb_to nb"
    "side_ok cfg ?ext TargetHash (edges_out d) (nb_from nb1) (insert node K) (set (nb_visited nb1))"
    "found_more (onward cfg ?ext TargetHash (edges_out d node)) (nb_pair nb) (nb_pair nb1)"
    by (rule load_from_reads [OF from_ok])
  then have grown: "set (nb_visited nb) \<subseteq> set (nb_visited nb1)" by (auto simp: found_more_def nb_pair_def)
  have "side_ok cfg ?ext SourceHash (edges_in d) (nb_to nb1) K (set (nb_visited nb1))"
    using side_ok_mono [OF to_ok grown] nb1(2) by simp
  from load_to_reads [OF this, of node] obtain nb2 where nb2: "reads d (load_to cfg ?ext node nb1) nb2" "nb_from nb2 = nb_from nb1"
    "side_ok cfg ?ext SourceHash (edges_in d) (nb_to nb2) (insert node K) (set (nb_visited nb2))"
    "found_more (onward cfg ?ext SourceHash (edges_in d node)) (nb_pair nb1) (nb_pair nb2)"
    by blast
  then have "set (nb_visited nb1) \<subseteq> set (nb_visited nb2)" by (auto simp: found_more_def nb_pair_def)
  with nb1 nb2 have ok2: "nb_ok cfg d (insert node K) nb2"
    by (auto simp: nb_ok_def intro: side_ok_mono)
  have found2: "found_more (store_nb cfg d node) (nb_pair nb) (nb_pair nb2)"
    unfolding store_nb_def by (rule found_more_trans [OF nb1(4) nb2(4)])
  from Cons.IH [OF _ ok2] obtain nb3 where nb3: "reads d (load_nodes cfg ?ext nodes nb2) nb3" "nb_ok cfg d (insert node K \<union> set nodes) nb3"
    "found_more (\<Union> (store_nb cfg d ` set nodes)) (nb_pair nb2) (nb_pair nb3)" by blast
  show ?case
  proof (rule Cons.prems(1))
    show "reads d (load_nodes cfg ?ext (node # nodes) nb) nb3"
      unfolding load_nodes.simps by (rule reads_bind [OF nb1(1)], rule reads_bind [OF nb2(1)], rule nb3(1))
    show "nb_ok cfg d (K \<union> set (node # nodes)) nb3" using nb3(2) by simp
    show "found_more (\<Union> (store_nb cfg d ` set (node # nodes))) (nb_pair nb) (nb_pair nb3)"
      using found_more_trans [OF found2 nb3(3)] by simp
  qed
qed

interpretation loaded: level_search "store_nb cfg d" "set seeds" for cfg d seeds .

lemma load_levels_reads:
  assumes "nb_ok cfg d (set (nb_visited nb) - set frontier) nb"
    and "loaded.frontier_ok cfg d seeds k (set (nb_visited nb)) (set frontier)"
  obtains nb' where "reads d (load_levels cfg (external_nodes d) (Suc n) frontier nb) nb'"
    "nb_ok cfg d (reach_by (store_nb cfg d) (set seeds) (k + n)) nb'"
  using assms
proof (induction n arbitrary: k nb frontier thesis)
  case (0 k nb frontier thesis)
  show ?case
  proof (cases "frontier = []")
    case True
    with "0.prems"(2,3) show ?thesis by (intro "0.prems"(1) [of nb]) (simp_all add: reads_ret loaded.frontier_ok_def)
  next
    case False
    have "nb_ok cfg d (set (nb_visited nb) - set frontier) (nb\<lparr>nb_next := []\<rparr>)" using "0.prems"(2) by (simp add: nb_ok_def)
    from load_nodes_reads [OF this, of frontier] obtain nb' where nb': "reads d (load_nodes cfg (external_nodes d) frontier (nb\<lparr>nb_next := []\<rparr>)) nb'"
      "nb_ok cfg d (set (nb_visited nb) - set frontier \<union> set frontier) nb'" by blast
    have "set (nb_visited nb) - set frontier \<union> set frontier = reach_by (store_nb cfg d) (set seeds) k"
      using "0.prems"(3) by (auto simp: loaded.frontier_ok_def)
    with nb' False show ?thesis
      by (intro "0.prems"(1) [of nb']) (simp, rule reads_bind [OF nb'(1) reads_ret], simp)
  qed
next
  case (Suc n k nb frontier thesis)
  show ?case
  proof (cases "frontier = []")
    case True
    then have "loaded.frontier_ok cfg d seeds k (set (nb_visited nb)) {}" using Suc.prems(3) by simp
    from loaded.frontier_empty [OF this, of "Suc n"] Suc.prems(2) True show ?thesis
      by (intro Suc.prems(1) [of nb]) (simp_all add: reads_ret)
  next
    case False
    have "nb_ok cfg d (set (nb_visited nb) - set frontier) (nb\<lparr>nb_next := []\<rparr>)" using Suc.prems(2) by (simp add: nb_ok_def)
    from load_nodes_reads [OF this, of frontier] obtain nb1 where nb1: "reads d (load_nodes cfg (external_nodes d) frontier (nb\<lparr>nb_next := []\<rparr>)) nb1"
      "nb_ok cfg d (set (nb_visited nb) - set frontier \<union> set frontier) nb1"
      "found_more (\<Union> (store_nb cfg d ` set frontier)) (nb_pair (nb\<lparr>nb_next := []\<rparr>)) (nb_pair nb1)" by blast
    from nb1(3) have sets: "set (nb_visited nb1) = set (nb_visited nb) \<union> \<Union> (store_nb cfg d ` set frontier)"
      "set (nb_next nb1) = \<Union> (store_nb cfg d ` set frontier) - set (nb_visited nb)"
      by (simp_all add: found_more_def nb_pair_def)
    have next_ok: "loaded.frontier_ok cfg d seeds (Suc k) (set (nb_visited nb1)) (set (nb_next nb1))"
      unfolding sets by (rule loaded.frontier_next [OF Suc.prems(3)])
    have "set (nb_visited nb) - set frontier \<union> set frontier = set (nb_visited nb1) - set (nb_next nb1)"
      using Suc.prems(3) unfolding sets by (auto simp: loaded.frontier_ok_def)
    with nb1(2) have "nb_ok cfg d (set (nb_visited nb1) - set (nb_next nb1)) nb1" by simp
    from Suc.IH [OF _ this next_ok] obtain nb' where nb':
      "reads d (load_levels cfg (external_nodes d) (Suc n) (nb_next nb1) nb1) nb'"
      "nb_ok cfg d (reach_by (store_nb cfg d) (set seeds) (Suc k + n)) nb'" by blast
    show ?thesis
    proof (rule Suc.prems(1))
      show "reads d (load_levels cfg (external_nodes d) (Suc (Suc n)) frontier nb) nb'"
        using False by (simp only: load_levels.simps(2) [of _ _ "Suc n"] length_0_conv if_False) (rule reads_bind [OF nb1(1)], rule nb'(1))
      show "nb_ok cfg d (reach_by (store_nb cfg d) (set seeds) (k + Suc n)) nb'" using nb'(2) by simp
    qed
  qed
qed

lemma load_adjacency_reads:
  assumes "max_depth cfg = Suc n"
  obtains fm tm where "reads d (load_adjacency cfg (external_nodes d) seeds) (fm, tm)"
    "\<And>h. map_of fm h = (if h \<in> reach_by (store_nb cfg d) (set seeds) n then Some (edges_out d h) else None)"
    "\<And>h. map_of tm h = (if h \<in> reach_by (store_nb cfg d) (set seeds) n then Some (edges_in d h) else None)"
proof -
  let ?nb = "\<lparr>nb_from = [], nb_to = [], nb_visited = remdups seeds, nb_next = []\<rparr>"
  have "nb_ok cfg d (set (nb_visited ?nb) - set seeds) ?nb" by (simp add: nb_ok_def side_ok_def)
  moreover have "loaded.frontier_ok cfg d seeds 0 (set (nb_visited ?nb)) (set seeds)" by (simp add: loaded.frontier_start)
  ultimately obtain nb where nb: "reads d (load_levels cfg (external_nodes d) (Suc n) seeds ?nb) nb"
    "nb_ok cfg d (reach_by (store_nb cfg d) (set seeds) (0 + n)) nb"
    by (rule load_levels_reads)
  show thesis
  proof (rule that [of "nb_from nb" "nb_to nb"])
    show "reads d (load_adjacency cfg (external_nodes d) seeds) (nb_from nb, nb_to nb)"
      unfolding load_adjacency_def assms by (rule reads_bind [OF nb(1) reads_ret])
  qed (use nb(2) in \<open>simp_all add: nb_ok_def side_ok_def\<close>)
qed

section \<open>What the walk sees\<close>

lemma reads_adjacency_note [reads_intro]:
  "reads d (try_op (GetNote (adjacency_cache_hash H) adjacencyCacheKey))
     (Inr (find_row note_key (adjacency_cache_hash H, adjacencyCacheKey) (T_notes d)))"
  unfolding GetNote_def by (rule reads_try, rule reads_query)

text \<open>
  C26. Without a cached edge table, the walk's maps hold exactly the nodes that a chain of at most
  \<open>maxDepth - 1\<close> edges joins to a seed, each edge neither excluded, nor of weight zero, nor leading to an
  external node; and for such a node all its edges of the store, in either direction.
\<close>

theorem walk_graph_from_store:
  assumes "find_row note_key (adjacency_cache_hash H, adjacencyCacheKey) (T_notes d) = None" "max_depth cfg = Suc n"
  shows "\<exists>fm tm. reads d (buildAdjacencyMap H cfg seeds) (fm, tm) \<and>
    (\<forall>h. map_of fm h = (if h \<in> reach_by (store_nb cfg d) (set seeds) n then Some (edges_out d h) else None)) \<and>
    (\<forall>h. map_of tm h = (if h \<in> reach_by (store_nb cfg d) (set seeds) n then Some (edges_in d h) else None))"
proof -
  obtain fm tm where load: "reads d (load_adjacency cfg (external_nodes d) seeds) (fm, tm)"
    "\<And>h. map_of fm h = (if h \<in> reach_by (store_nb cfg d) (set seeds) n then Some (edges_out d h) else None)"
    "\<And>h. map_of tm h = (if h \<in> reach_by (store_nb cfg d) (set seeds) n then Some (edges_in d h) else None)"
    by (rule load_adjacency_reads [OF assms(2)]) blast
  have "reads d (buildAdjacencyMap H cfg seeds) (fm, tm)"
    unfolding buildAdjacencyMap_def
    by (rule reads_bind [OF reads_loadExternalHashes], rule reads_bind [OF reads_adjacency_note]) (simp add: assms(1) load(1))
  with load(2,3) show ?thesis by blast
qed

lemma clean_notes:
  "clean d s \<Longrightarrow> clean (d\<lparr>T_notes := t\<rparr>) (s\<lparr>DB := d\<lparr>T_notes := t\<rparr>\<rparr>)"
  by (simp add: clean_def node_at_def)

lemma PutNote_clean:
  assumes "clean d s"
  obtains s' where "PutNote n s = (Inr (), s')" "clean (d\<lparr>T_notes := upsert note_key n (T_notes d)\<rparr>) s'"
proof
  show "PutNote n s = (Inr (), s\<lparr>DB := d\<lparr>T_notes := upsert note_key n (T_notes d)\<rparr>\<rparr>)"
    using assms by (simp add: PutNote_def clean_def exec_ok)
qed (rule clean_notes [OF assms])

lemma BuildAdjacencyCache_clean:
  assumes "clean d s" "T_edges d \<noteq> []"
  obtains s' n where "BuildAdjacencyCache H now s = (Inr (), s')" "clean (d\<lparr>T_notes := upsert note_key n (T_notes d)\<rparr>) s'"
    "note_key n = (adjacency_cache_hash H, adjacencyCacheKey)"
    "Note_Value n = base64_EncodeToString (encode_adjacency (edges_where (\<lambda>_. True) d))"
proof -
  let ?n = "\<lparr>ObjectHash = adjacency_cache_hash H, Note_Key = adjacencyCacheKey,
    Note_Value = base64_EncodeToString (encode_adjacency (edges_where (\<lambda>_. True) d)), UpdatedAt = now\<rparr>"
  have "reads d (wrap_op ''AllEdges'' AllEdges) (edges_where (\<lambda>_. True) d)"
    unfolding AllEdges_def by (rule reads_wrap [OF reads_query])
  from readsD [OF this assms(1)] obtain s1 where s1: "wrap_op ''AllEdges'' AllEdges s = (Inr (edges_where (\<lambda>_. True) d), s1)" "clean d s1"
    by blast
  obtain s' where s': "PutNote ?n s1 = (Inr (), s')" "clean (d\<lparr>T_notes := upsert note_key ?n (T_notes d)\<rparr>) s'"
    by (rule PutNote_clean [OF s1(2)])
  have "BuildAdjacencyCache H now s = (Inr (), s')"
    using assms(2) s1(1) s'(1) by (simp add: BuildAdjacencyCache_def bind_op_def edges_where_def)
  then show thesis using s'(2) by (rule that [of s' ?n]) (simp_all add: note_key_def)
qed

lemma graph_of_notes [simp]: "external_nodes (d\<lparr>T_notes := t\<rparr>) = external_nodes d" "edges_where P (d\<lparr>T_notes := t\<rparr>) = edges_where P d"
  by (simp_all add: external_nodes_def edges_where_def)

definition cached_edges :: "db \<Rightarrow> compactEdge list" where
  "cached_edges d = map compact_of (edges_where (\<lambda>_. True) d)"

text \<open>
  Once the edge table is cached, with at least two edges, the walk's maps hold the nodes within
  \<open>maxDepth\<close> edges that are not excluded and lead to no external node, whatever their weight, and for
  each of them its edges without the excluded ones, reduced to their ends and their type; a type outside
  the table of the cache has become \<open>references\<close>.
\<close>

lemma walk_graph_from_cache:
  assumes "clean d s" "2 \<le> length (T_edges d)" "length (T_edges d) < 2 ^ 32"
  shows "\<exists>s1 s2 fm tm. BuildAdjacencyCache H now s = (Inr (), s1) \<and>
    buildAdjacencyMap H cfg seeds s1 = (Inr (fm, tm), s2) \<and>
    (\<forall>h. edges_at fm h = (if h \<in> reach_by (cache_nb cfg (external_nodes d) (cached_edges d)) (set seeds) (max_depth cfg)
                          then kept_edges cfg (filter (\<lambda>ce. ce_source ce = h) (cached_edges d)) else [])) \<and>
    (\<forall>h. edges_at tm h = (if h \<in> reach_by (cache_nb cfg (external_nodes d) (cached_edges d)) (set seeds) (max_depth cfg)
                          then kept_edges cfg (filter (\<lambda>ce. ce_target ce = h) (cached_edges d)) else []))"
proof -
  let ?es = "edges_where (\<lambda>_. True) d"
  have len: "length ?es = length (T_edges d)" by (simp add: edges_where_def)
  have "T_edges d \<noteq> []" using assms(2) by auto
  from BuildAdjacencyCache_clean [OF assms(1) this, of H now] obtain s1 n where s1: "BuildAdjacencyCache H now s = (Inr (), s1)"
    and clean1: "clean (d\<lparr>T_notes := upsert note_key n (T_notes d)\<rparr>) s1"
    and key: "note_key n = (adjacency_cache_hash H, adjacencyCacheKey)"
    and content: "Note_Value n = base64_EncodeToString (encode_adjacency ?es)" by blast
  let ?d = "d\<lparr>T_notes := upsert note_key n (T_notes d)\<rparr>"
  have decoded: "decode_cache (Note_Value n) = Inr (cached_edges d)"
    unfolding content cached_edges_def by (rule decode_cache_encode) (use assms(3) len in simp)
  obtain fm tm where built: "buildFromCache cfg (Note_Value n) seeds (external_nodes d) = Inr (fm, tm)"
    "\<And>h. edges_at fm h = (if h \<in> reach_by (cache_nb cfg (external_nodes d) (cached_edges d)) (set seeds) (max_depth cfg)
        then kept_edges cfg (filter (\<lambda>ce. ce_source ce = h) (cached_edges d)) else [])"
    "\<And>h. edges_at tm h = (if h \<in> reach_by (cache_nb cfg (external_nodes d) (cached_edges d)) (set seeds) (max_depth cfg)
        then kept_edges cfg (filter (\<lambda>ce. ce_target ce = h) (cached_edges d)) else [])"
    by (rule buildFromCache_edges [OF decoded refl, where cfg = cfg and externals = "external_nodes d" and seeds = seeds]) blast
  have long: "100 < length (Note_Value n)"
    using assms(2) len unfolding content length_base64_Encode by (simp add: encode_adjacency_def length_encodes)
  have "find_row note_key (adjacency_cache_hash H, adjacencyCacheKey) (T_notes ?d) = Some n"
    by (simp add: find_row_upsert key [symmetric])
  then have "reads ?d (buildAdjacencyMap H cfg seeds) (fm, tm)"
    unfolding buildAdjacencyMap_def
    by (intro reads_bind [OF reads_loadExternalHashes] reads_bind [OF reads_adjacency_note]) (simp add: long built(1) reads_ret)
  from readsD [OF this clean1] s1 built(2,3) show ?thesis by blast
qed

text \<open>
  The cache changes weights: a structural edge, of weight zero in the store, reaches the walk with
  weight 0.4, and an edge that the language server resolved is no longer attenuated.
\<close>

lemma cache_changes_weights:
  "edgeWeight l (e\<lparr>EdgeType := ''contains''\<rparr>) = 0 \<and>
   edgeWeight l (to_edge (compact_of (e\<lparr>EdgeType := ''contains''\<rparr>))) = 2 / 5 \<and>
   edgeWeight l (e\<lparr>EdgeType := ''calls'', Provenance := ''lsp_resolved''\<rparr>) = l \<and>
   edgeWeight l (to_edge (compact_of (e\<lparr>EdgeType := ''calls'', Provenance := ''lsp_resolved''\<rparr>))) = 1"
  by (simp add: edgeWeight_def compact_of_def to_edge_def edgeWeights_def adjEdgeTypeToID_def)

definition link_row :: "hash \<Rightarrow> hash \<Rightarrow> string \<Rightarrow> edge_row" where
  "link_row a b t = insert_edge 0 (to_edge \<lparr>ce_source = a, ce_target = b, ce_edgeType = t\<rparr>)"

lemma link_row_fields [simp]:
  "SourceHash (link_row a b t) = a" "TargetHash (link_row a b t) = b" "EdgeType (link_row a b t) = t"
  "scanEdge (link_row a b t) = to_edge \<lparr>ce_source = a, ce_target = b, ce_edgeType = t\<rparr>"
  by (simp_all add: link_row_def insert_edge_def to_edge_def scanEdge_def edge.truncate_def edge.extend_def)

text \<open>A caller chain, and a file that contains one of its nodes.\<close>

definition chain_db :: db where
  "chain_db = empty_db\<lparr>T_edges := [link_row 1 2 ''calls'', link_row 2 3 ''calls'', link_row 7 2 ''contains'']\<rparr>"

definition two_steps :: walk_config where
  "two_steps = \<lparr>ExcludeEdgeTypes = (\<lambda>_. False), BFSMaxDepth = 2\<rparr>"

lemma chain_externals [simp]: "external_nodes chain_db = {}"
  by (simp add: external_nodes_def chain_db_def empty_db_def)

lemma chain_edges [simp]:
  "edges_where P chain_db = map scanEdge (filter P [link_row 1 2 ''calls'', link_row 2 3 ''calls'', link_row 7 2 ''contains''])"
  by (simp add: edges_where_def chain_db_def)

lemma two_steps_depth: "max_depth two_steps = Suc (Suc 0)"
  by (simp add: two_steps_def max_depth_def)

theorem walk_graph_from_store_witness:
  "\<exists>fm tm. reads chain_db (buildAdjacencyMap (\<lambda>_. 0) two_steps [1]) (fm, tm) \<and>
     map_of tm 2 = Some [to_edge \<lparr>ce_source = 1, ce_target = 2, ce_edgeType = ''calls''\<rparr>,
                         to_edge \<lparr>ce_source = 7, ce_target = 2, ce_edgeType = ''contains''\<rparr>] \<and>
     map_of tm 7 = None"
proof -
  have "find_row note_key (adjacency_cache_hash (\<lambda>_. 0), adjacencyCacheKey) (T_notes chain_db) = None"
    by (simp add: chain_db_def empty_db_def)
  from walk_graph_from_store [OF this, of two_steps 1 "[1]"]
  obtain fm tm where "reads chain_db (buildAdjacencyMap (\<lambda>_. 0) two_steps [1]) (fm, tm)"
    and tm: "\<forall>h. map_of tm h = (if h \<in> reach_by (store_nb two_steps chain_db) (set [1]) 1 then Some (edges_in chain_db h) else None)"
    by (auto simp: two_steps_def max_depth_def)
  moreover have reach: "reach_by (store_nb two_steps chain_db) (set [1]) 1 = {1, 2}"
    by (auto simp: store_nb_def onward_def open_edge_def two_steps_def to_edge_def edgeWeights_def)
  moreover have "map_of tm 2 = Some [to_edge \<lparr>ce_source = 1, ce_target = 2, ce_edgeType = ''calls''\<rparr>,
      to_edge \<lparr>ce_source = 7, ce_target = 2, ce_edgeType = ''contains''\<rparr>]" "map_of tm 7 = None"
    using tm unfolding reach by simp_all
  ultimately show ?thesis by blast
qed

lemma cache_nb_code:
  "cache_nb cfg ext ces a =
     set (map ce_target (filter (\<lambda>ce. ce_source ce = a \<and> \<not> ExcludeEdgeTypes cfg (ce_edgeType ce)) ces) @
          map ce_source (filter (\<lambda>ce. ce_target ce = a \<and> \<not> ExcludeEdgeTypes cfg (ce_edgeType ce)) ces)) - ext"
  by (simp add: cache_nb_def)

lemma walk_graph_from_cache_witness:
  "\<exists>s1 s2 fm tm. BuildAdjacencyCache (\<lambda>_. 0) 5 (open_store chain_db []) = (Inr (), s1) \<and>
     buildAdjacencyMap (\<lambda>_. 0) two_steps [1] s1 = (Inr (fm, tm), s2) \<and>
     edges_at fm 7 = [to_edge \<lparr>ce_source = 7, ce_target = 2, ce_edgeType = ''references''\<rparr>]"
proof -
  have len: "2 \<le> length (T_edges chain_db)" "length (T_edges chain_db) < 2 ^ 32" by (simp_all add: chain_db_def)
  have ces: "cached_edges chain_db = [\<lparr>ce_source = 1, ce_target = 2, ce_edgeType = ''calls''\<rparr>,
    \<lparr>ce_source = 2, ce_target = 3, ce_edgeType = ''calls''\<rparr>, \<lparr>ce_source = 7, ce_target = 2, ce_edgeType = ''references''\<rparr>]"
    by (simp add: cached_edges_def compact_of_def to_edge_def adjEdgeTypeToID_def)
  have "7 \<in> reach_by (cache_nb two_steps (external_nodes chain_db) (cached_edges chain_db)) (set [1]) (max_depth two_steps)"
    unfolding ces two_steps_depth by (simp add: two_steps_def cache_nb_code)
  moreover obtain s1 s2 fm tm where "BuildAdjacencyCache (\<lambda>_. 0) 5 (open_store chain_db []) = (Inr (), s1)"
    "buildAdjacencyMap (\<lambda>_. 0) two_steps [1] s1 = (Inr (fm, tm), s2)"
    "\<forall>h. edges_at fm h = (if h \<in> reach_by (cache_nb two_steps (external_nodes chain_db) (cached_edges chain_db)) (set [1]) (max_depth two_steps)
                          then kept_edges two_steps (filter (\<lambda>ce. ce_source ce = h) (cached_edges chain_db)) else [])"
    using walk_graph_from_cache [OF clean_open_store len, of "\<lambda>_. 0" 5 two_steps "[1]"] by blast
  ultimately show ?thesis by (auto simp: ces kept_edges_def two_steps_def)
qed
end
