(* ===== verification/RwrCache.thy ===== *)
theory RwrCache
  imports AdjacencyCache SnapshotManager
begin

text \<open>
  internal/context/walk.go, the entry points of the random walk: RandomWalkWithRestart(Weighted) with its
  result cache in the notes table, CommunityFilteredRWR with the neighbourhood restricted to
  communities, and the breadth-first distances read from the store. \<open>math.Float64bits\<close> and its
  inverse are arguments, since scores are exact here; range orders over Go maps are arguments too.
\<close>

section \<open>Environment\<close>

record rwr_env =
  env_sha :: sha
  Float64bits :: "score \<Rightarrow> nat"
  Float64frombits :: "nat \<Rightarrow> score"
  RWRCacheEnabled :: bool
  env_config :: walk_config
  lspEdgeWeight :: rat
  range_nodes :: "hash list \<Rightarrow> hash list"
  range_scores :: "scores \<Rightarrow> scores"
  range_prob :: "nat \<Rightarrow> scores \<Rightarrow> scores"

record rwr_stats =
  rwrCacheHits :: nat
  rwrCacheMisses :: nat

section \<open>Modules\<close>

primrec module_loop :: "hash list \<Rightarrow> (hash, string) gomap \<Rightarrow> string \<Rightarrow> bool \<Rightarrow> ((hash, string) gomap \<times> bool) op" where
  "module_loop [] m first allSame = ret (m, allSame)"
| "module_loop (h # hs) m first allSame =
     bind_op (try_op (GetNode h)) (\<lambda>r.
       case r of
         Inr (Some node) \<Rightarrow>
           let dir = topDirFromQN (QualifiedName node) in
           if dir \<noteq> '''' then
             module_loop hs (gomap_set h dir m) (if first = '''' then dir else first) (if first = '''' then allSame else allSame \<and> dir = first)
           else module_loop hs m first allSame
       | _ \<Rightarrow> module_loop hs m first allSame)"

text \<open>The store has no \<open>NodeTopDirs\<close>, so the names of the first 2000 nodes decide.\<close>

definition buildNodeModuleMap :: "hash list \<Rightarrow> (hash, string) gomap option op" where
  "buildNodeModuleMap nodeHashes =
     bind_op (module_loop (take 2000 nodeHashes) [] '''' True) (\<lambda>(m, allSame).
       ret (if allSame \<or> length m = 0 then None else Some m))"

section \<open>The key of a cached result\<close>

definition rwrCacheKey :: string where "rwrCacheKey = ''rwr_cache''"

definition rwr_preimage :: "(score \<Rightarrow> nat) \<Rightarrow> hash list \<Rightarrow> (hash, rat) gomap \<Rightarrow> rat \<Rightarrow> hash list \<Rightarrow> bytes" where
  "rwr_preimage bits seeds seedWeights \<alpha> packageRoots =
     ''rwr'' @ [NUL] @
     concat (map (\<lambda>s. hash_bytes s @ PutUint 8 (bits (Fin (weight_of seedWeights s)))) (sort seeds)) @
     PutUint 8 (bits (Fin \<alpha>)) @ concat (map hash_bytes (sort packageRoots))"

definition computeRWRCacheHash :: "sha \<Rightarrow> (score \<Rightarrow> nat) \<Rightarrow> hash list \<Rightarrow> (hash, rat) gomap \<Rightarrow> rat \<Rightarrow> hash list \<Rightarrow> hash" where
  "computeRWRCacheHash H bits seeds seedWeights \<alpha> packageRoots = H (rwr_preimage bits seeds seedWeights \<alpha> packageRoots)"

definition getLatestSnapshotHash :: "hash op" where
  "getLatestSnapshotHash =
     bind_op (try_op AllRepos) (\<lambda>r.
       case r of
         Inr (rp # _) \<Rightarrow>
           bind_op (try_op (LatestSnapshot (RepoHash rp))) (\<lambda>r.
             case r of Inr (Some snap) \<Rightarrow> ret (SnapshotHash snap) | _ \<Rightarrow> ret EmptyHash)
       | _ \<Rightarrow> ret EmptyHash)"

definition snapshot_fallback :: "hash list op" where
  "snapshot_fallback =
     bind_op getLatestSnapshotHash (\<lambda>snapHash. ret (if snapHash = EmptyHash then [] else [snapHash]))"

primrec seed_roots :: "(string, hash) gomap option \<Rightarrow> hash list \<Rightarrow> hash list \<Rightarrow> hash list op" where
  "seed_roots pkgRoots [] roots = ret roots"
| "seed_roots pkgRoots (s # seeds) roots =
     bind_op (try_op (GetNode s)) (\<lambda>r.
       case r of
         Inr (Some node) \<Rightarrow>
           let rt = PackageRootForSymbol (QualifiedName node) pkgRoots in
           if rt \<noteq> EmptyHash \<and> rt \<notin> set roots then seed_roots pkgRoots seeds (roots @ [rt])
           else seed_roots pkgRoots seeds roots
       | _ \<Rightarrow> seed_roots pkgRoots seeds roots)"

definition load_package_roots :: "sha \<Rightarrow> (string, hash) gomap option op" where
  "load_package_roots H s = (case LoadPackageRoots H s of (r, s') \<Rightarrow> (Inr r, s'))"

definition collectSeedPackageRoots :: "sha \<Rightarrow> hash list \<Rightarrow> hash list op" where
  "collectSeedPackageRoots H seeds =
     bind_op (load_package_roots H) (\<lambda>pkgRoots.
       case pkgRoots of
         None \<Rightarrow> snapshot_fallback
       | Some m \<Rightarrow> bind_op (seed_roots (Some m) seeds []) (\<lambda>roots. if length roots = 0 then snapshot_fallback else ret roots))"

section \<open>The stored form of a result\<close>

definition distance_of :: "(hash, int) gomap \<Rightarrow> hash \<Rightarrow> int" where
  "distance_of dists h = (case map_of dists h of Some d \<Rightarrow> d | None \<Rightarrow> 0)"

definition serializeRWRResult :: "(score \<Rightarrow> nat) \<Rightarrow> (scores \<Rightarrow> scores) \<Rightarrow> scores \<Rightarrow> (hash, int) gomap \<Rightarrow> bytes" where
  "serializeRWRResult bits visit scores distances =
     PutUint 4 (length scores) @
     concat (map (\<lambda>(h, s). hash_bytes h @ PutUint 8 (bits s) @ PutUint 4 (nat (distance_of distances h mod 2 ^ 32))) (visit scores))"

fun read_entries :: "(nat \<Rightarrow> score) \<Rightarrow> nat \<Rightarrow> bytes \<Rightarrow> scores \<Rightarrow> (hash, int) gomap \<Rightarrow> scores \<times> (hash, int) gomap" where
  "read_entries unbits 0 data scores distances = (scores, distances)"
| "read_entries unbits (Suc n) data scores distances =
     (let h = copy_hash (take 32 data);
          s = unbits (Uint (take 8 (drop 32 data)));
          d = int (Uint (take 4 (drop 40 data)))
      in read_entries unbits n (drop 44 data) (gomap_set h s scores) (gomap_set h d distances))"

definition deserializeRWRResult :: "(nat \<Rightarrow> score) \<Rightarrow> bytes \<Rightarrow> cache_error + (scores \<times> (hash, int) gomap)" where
  "deserializeRWRResult unbits data =
     (if length data < 4 then Inl (CacheTooShort (length data))
      else
        let n = Uint (take 4 data); expected = 4 + n * 44 in
        if length data < expected then Inl (CacheTruncated (length data) expected)
        else Inr (read_entries unbits n (drop 4 data) [] []))"

definition getRWRCache :: "rwr_env \<Rightarrow> hash \<Rightarrow> (scores \<times> (hash, int) gomap) option op" where
  "getRWRCache E key =
     bind_op (try_op (GetNote key rwrCacheKey)) (\<lambda>r.
       ret (case r of
              Inr (Some n) \<Rightarrow>
                if length (Note_Value n) < 4 then None
                else (case base64_DecodeString (Note_Value n) of
                        None \<Rightarrow> None
                      | Some raw \<Rightarrow>
                          (case deserializeRWRResult (Float64frombits E) raw of Inl _ \<Rightarrow> None | Inr result \<Rightarrow> Some result))
            | _ \<Rightarrow> None))"

definition putRWRCache :: "rwr_env \<Rightarrow> hash \<Rightarrow> scores \<Rightarrow> (hash, int) gomap \<Rightarrow> unit op" where
  "putRWRCache E key scores distances =
     ignore_op (PutNote \<lparr>ObjectHash = key, Note_Key = rwrCacheKey,
       Note_Value = base64_EncodeToString (serializeRWRResult (Float64bits E) (range_scores E) scores distances), UpdatedAt = 0\<rparr>)"

section \<open>The walk\<close>

text \<open>What runs after a miss.\<close>

definition walk_over :: "rwr_env \<Rightarrow> (hash, rat) gomap \<Rightarrow> rat \<Rightarrow> int \<Rightarrow> adjacency \<times> adjacency \<Rightarrow> scores op" where
  "walk_over E vec \<alpha> maxIter adj =
     bind_op (buildNodeModuleMap (range_nodes E (collectNodeHashes (fst adj) (snd adj)))) (\<lambda>mods.
       ret (rwrIterate \<lparr>seedVec = vec, alpha = \<alpha>, adjFrom = fst adj, adjTo = snd adj, modMap = mods,
                         lsp = lspEdgeWeight E\<rparr> (range_prob E) maxIter))"

definition fresh_walk :: "rwr_env \<Rightarrow> hash list \<Rightarrow> (hash, rat) gomap \<Rightarrow> rat \<Rightarrow> int \<Rightarrow> (scores \<times> (hash, int) gomap) op" where
  "fresh_walk E seeds seedWeights \<alpha> maxIter =
     bind_op (buildAdjacencyMap (env_sha E) (env_config E) seeds) (\<lambda>adj.
     bind_op (walk_over E (seed_vector seeds seedWeights) \<alpha> maxIter adj) (\<lambda>scores.
     ret (scores, bfsDistancesFromAdj seeds (fst adj) (snd adj))))"

definition default_alpha :: "rat \<Rightarrow> rat" where
  "default_alpha \<alpha> = (if \<alpha> \<le> 0 \<or> \<alpha> \<ge> 1 then 1 / 5 else \<alpha>)"

definition default_iterations :: "int \<Rightarrow> int" where
  "default_iterations maxIter = (if maxIter \<le> 0 then 20 else maxIter)"

text \<open>The key and the cached result, if any; the key stays \<open>EmptyHash\<close> when the cache is off or no root is known.\<close>

definition rwr_lookup :: "rwr_env \<Rightarrow> hash list \<Rightarrow> (hash, rat) gomap \<Rightarrow> rat \<Rightarrow> rwr_stats
     \<Rightarrow> (hash \<times> (scores \<times> (hash, int) gomap) option \<times> rwr_stats) op" where
  "rwr_lookup E seeds seedWeights \<alpha> st =
     (if RWRCacheEnabled E then
        bind_op (collectSeedPackageRoots (env_sha E) seeds) (\<lambda>roots.
          if length roots > 0 then
            let key = computeRWRCacheHash (env_sha E) (Float64bits E) seeds seedWeights \<alpha> roots in
            bind_op (getRWRCache E key) (\<lambda>cached.
              case cached of
                Some result \<Rightarrow> ret (key, Some result, st\<lparr>rwrCacheHits := rwrCacheHits st + 1\<rparr>)
              | None \<Rightarrow> ret (key, None, st\<lparr>rwrCacheMisses := rwrCacheMisses st + 1\<rparr>))
          else ret (EmptyHash, None, st))
      else ret (EmptyHash, None, st))"

text \<open>The result, nil maps for no seeds, and the counters.\<close>

definition RandomWalkWithRestartWeighted ::
  "rwr_env \<Rightarrow> hash list \<Rightarrow> (hash, rat) gomap \<Rightarrow> rat \<Rightarrow> int \<Rightarrow> rwr_stats
     \<Rightarrow> ((scores \<times> (hash, int) gomap) option \<times> rwr_stats) op" where
  "RandomWalkWithRestartWeighted E seeds seedWeights \<alpha> maxIter st =
     (if length seeds = 0 then ret (None, st)
      else
        bind_op (rwr_lookup E seeds seedWeights (default_alpha \<alpha>) st) (\<lambda>(key, cached, st).
          case cached of
            Some result \<Rightarrow> ret (Some result, st)
          | None \<Rightarrow>
              bind_op (fresh_walk E seeds seedWeights (default_alpha \<alpha>) (default_iterations maxIter)) (\<lambda>(scores, distances).
              bind_op (if RWRCacheEnabled E \<and> key \<noteq> EmptyHash then putRWRCache E key scores distances else ret ()) (\<lambda>_.
              ret (Some (scores, distances), st)))))"

definition uniform_weights :: "hash list \<Rightarrow> (hash, rat) gomap" where
  "uniform_weights seeds = fold (\<lambda>s. gomap_set s (1 / of_nat (length seeds))) seeds []"

definition RandomWalkWithRestart ::
  "rwr_env \<Rightarrow> hash list \<Rightarrow> rat \<Rightarrow> int \<Rightarrow> rwr_stats \<Rightarrow> (scores option \<times> rwr_stats) op" where
  "RandomWalkWithRestart E seeds \<alpha> maxIter st =
     bind_op (RandomWalkWithRestartWeighted E seeds (uniform_weights seeds) \<alpha> maxIter st) (\<lambda>(r, st). ret (map_option fst r, st))"

section \<open>Within communities\<close>

definition candidate :: "hash set \<Rightarrow> (edge \<Rightarrow> hash) \<Rightarrow> edge \<Rightarrow> neighbourhood \<Rightarrow> neighbourhood" where
  "candidate externals endp e nb =
     (if endp e \<notin> set (nb_visited nb) \<and> endp e \<notin> externals then nb\<lparr>nb_next := nb_next nb @ [endp e]\<rparr> else nb)"

primrec community_nodes :: "hash set \<Rightarrow> hash list \<Rightarrow> neighbourhood \<Rightarrow> neighbourhood op" where
  "community_nodes externals [] nb = ret nb"
| "community_nodes externals (node # frontier) nb =
     bind_op (if node \<in> fst ` set (nb_from nb) then ret nb
              else bind_op (EdgesFrom node '''') (\<lambda>es.
                     ret (fold (candidate externals TargetHash) es (nb\<lparr>nb_from := gomap_set node es (nb_from nb)\<rparr>)))) (\<lambda>nb.
     bind_op (if node \<in> fst ` set (nb_to nb) then ret nb
              else bind_op (EdgesTo node '''') (\<lambda>es.
                     ret (fold (candidate externals SourceHash) es (nb\<lparr>nb_to := gomap_set node es (nb_to nb)\<rparr>)))) (\<lambda>nb.
     community_nodes externals frontier nb))"

definition admitted :: "int set \<Rightarrow> hash set \<Rightarrow> (hash, int) gomap option \<Rightarrow> hash \<Rightarrow> bool" where
  "admitted allowed seedSet communities h \<longleftrightarrow>
     h \<in> seedSet \<or>
     (case (case communities of None \<Rightarrow> None | Some m \<Rightarrow> map_of m h) of None \<Rightarrow> True | Some cid \<Rightarrow> cid \<in> allowed)"

text \<open>First occurrences, in order.\<close>

definition uniq :: "hash list \<Rightarrow> hash list" where
  "uniq hs = rev (remdups (rev hs))"

primrec community_levels :: "int set \<Rightarrow> hash set \<Rightarrow> hash set \<Rightarrow> nat \<Rightarrow> hash list \<Rightarrow> neighbourhood \<Rightarrow> neighbourhood op" where
  "community_levels allowed seedSet externals 0 frontier nb = ret nb"
| "community_levels allowed seedSet externals (Suc n) frontier nb =
     (if length frontier = 0 then ret nb
      else
        bind_op (community_nodes externals frontier (nb\<lparr>nb_next := []\<rparr>)) (\<lambda>nb.
          let uniqueCandidates = filter (\<lambda>h. h \<notin> set (nb_visited nb)) (uniq (nb_next nb)) in
          if length uniqueCandidates = 0 then ret nb
          else
            bind_op (CommunitiesForNodes uniqueCandidates) (\<lambda>communities.
              community_levels allowed seedSet externals n (filter (admitted allowed seedSet communities) uniqueCandidates)
                (nb\<lparr>nb_visited := nb_visited nb @ uniqueCandidates\<rparr>))))"

definition buildAdjacencyMapFiltered :: "sha \<Rightarrow> walk_config \<Rightarrow> hash list \<Rightarrow> int set option \<Rightarrow> (adjacency \<times> adjacency) op" where
  "buildAdjacencyMapFiltered H cfg seeds communityFilter =
     (case communityFilter of
        None \<Rightarrow> buildAdjacencyMap H cfg seeds
      | Some allowed \<Rightarrow>
          bind_op loadExternalHashes (\<lambda>externals.
          bind_op (community_levels allowed (set seeds) externals 4 seeds
              \<lparr>nb_from = [], nb_to = [], nb_visited = remdups seeds, nb_next = []\<rparr>) (\<lambda>nb.
          ret (nb_from nb, nb_to nb))))"

definition CommunityFilteredRWR :: "rwr_env \<Rightarrow> hash list \<Rightarrow> rat \<Rightarrow> int \<Rightarrow> int set option \<Rightarrow> scores option op" where
  "CommunityFilteredRWR E seeds \<alpha> maxIter communityIDs =
     (if length seeds = 0 then ret None
      else
        bind_op (buildAdjacencyMapFiltered (env_sha E) (env_config E) seeds communityIDs) (\<lambda>adj.
        bind_op (walk_over E (uniform_weights seeds) (default_alpha \<alpha>) (default_iterations maxIter) adj) (\<lambda>scores.
        ret (Some scores))))"

section \<open>Distances from the store\<close>

definition store_visit :: "hash set \<Rightarrow> int \<Rightarrow> hash \<Rightarrow> (hash, int) gomap \<times> hash list \<Rightarrow> (hash, int) gomap \<times> hash list" where
  "store_visit externals depth h st = (if h \<in> externals then st else bfs_visit depth h st)"

text \<open>An error of the first query skips the node, an error of the second keeps what the first one found.\<close>

primrec store_distances_level ::
  "hash set \<Rightarrow> int \<Rightarrow> hash list \<Rightarrow> (hash, int) gomap \<times> hash list \<Rightarrow> ((hash, int) gomap \<times> hash list) op" where
  "store_distances_level externals depth [] st = ret st"
| "store_distances_level externals depth (node # frontier) st =
     bind_op (try_op (EdgesFrom node '''')) (\<lambda>r.
       case r of
         Inl _ \<Rightarrow> store_distances_level externals depth frontier st
       | Inr es \<Rightarrow>
           let st = fold (store_visit externals depth) (map TargetHash es) st in
           bind_op (try_op (EdgesTo node '''')) (\<lambda>r.
             case r of
               Inl _ \<Rightarrow> store_distances_level externals depth frontier st
             | Inr es \<Rightarrow> store_distances_level externals depth frontier (fold (store_visit externals depth) (map SourceHash es) st)))"

primrec store_distances :: "hash set \<Rightarrow> nat \<Rightarrow> int \<Rightarrow> hash list \<Rightarrow> (hash, int) gomap \<Rightarrow> (hash, int) gomap op" where
  "store_distances externals 0 depth frontier dists = ret dists"
| "store_distances externals (Suc n) depth frontier dists =
     (if length frontier = 0 then ret dists
      else bind_op (store_distances_level externals depth frontier (dists, [])) (\<lambda>(dists, next_frontier).
             store_distances externals n (depth + 1) next_frontier dists))"

definition computeBFSDistances :: "hash list \<Rightarrow> (hash, int) gomap op" where
  "computeBFSDistances seeds =
     bind_op loadExternalHashes (\<lambda>externals. store_distances externals 4 1 seeds (fold (\<lambda>s. gomap_set s 0) seeds []))"

section \<open>Reading the roots\<close>

definition latest_hash_at :: "db \<Rightarrow> hash" where
  "latest_hash_at d =
     (case sort_key RepoURL (T_repos d) of
        [] \<Rightarrow> EmptyHash
      | rp # _ \<Rightarrow>
          (case latest_of (filter (\<lambda>s. Snap_RepoHash s = RepoHash rp) (T_snapshots d)) of
             Some snap \<Rightarrow> SnapshotHash snap | None \<Rightarrow> EmptyHash))"

definition fallback_at :: "db \<Rightarrow> hash list" where
  "fallback_at d = (if latest_hash_at d = EmptyHash then [] else [latest_hash_at d])"

definition package_roots_at :: "sha \<Rightarrow> db \<Rightarrow> (string, hash) gomap option" where
  "package_roots_at H d =
     (case find_row note_key (packageRootsObjectHash H, packageRootsNoteKey) (T_notes d) of
        None \<Rightarrow> None
      | Some n \<Rightarrow> if Note_Value n = '''' then None else map_option (\<lambda>m. fold decode_root m []) (json_Unmarshal (Note_Value n)))"

definition add_root :: "db \<Rightarrow> (string, hash) gomap option \<Rightarrow> hash \<Rightarrow> hash list \<Rightarrow> hash list" where
  "add_root d pkgRoots s roots =
     (case node_at d s of
        None \<Rightarrow> roots
      | Some node \<Rightarrow>
          let rt = PackageRootForSymbol (QualifiedName node) pkgRoots
          in if rt \<noteq> EmptyHash \<and> rt \<notin> set roots then roots @ [rt] else roots)"

definition seed_roots_at :: "sha \<Rightarrow> hash list \<Rightarrow> db \<Rightarrow> hash list" where
  "seed_roots_at H seeds d =
     (case package_roots_at H d of
        None \<Rightarrow> fallback_at d
      | Some m \<Rightarrow> let roots = fold (add_root d (Some m)) seeds [] in if roots = [] then fallback_at d else roots)"

lemma reads_AllRepos: "reads d AllRepos (sort_key RepoURL (T_repos d))"
  unfolding AllRepos_def using reads_query [of d "\<lambda>d. sort_key RepoURL (T_repos d)"] by simp

lemma reads_LatestSnapshot: "reads d (LatestSnapshot h) (latest_of (filter (\<lambda>s. Snap_RepoHash s = h) (T_snapshots d)))"
  unfolding LatestSnapshot_def using reads_query [of d "\<lambda>d. latest_of (filter (\<lambda>s. Snap_RepoHash s = h) (T_snapshots d))"] by simp

lemma reads_snapshot_fallback: "reads d snapshot_fallback (fallback_at d)"
proof -
  have "reads d getLatestSnapshotHash (latest_hash_at d)"
    unfolding getLatestSnapshotHash_def latest_hash_at_def
    by (rule reads_bind [OF reads_try [OF reads_AllRepos]])
       (auto split: list.split option.split intro!: reads_bind [OF reads_try [OF reads_LatestSnapshot]] reads_ret)
  then show ?thesis unfolding snapshot_fallback_def fallback_at_def by (rule reads_bind) (rule reads_ret)
qed

lemma reads_seed_roots: "reads d (seed_roots pkgRoots seeds roots) (fold (add_root d pkgRoots) seeds roots)"
proof (induction seeds arbitrary: roots)
  case (Cons s seeds)
  show ?case unfolding seed_roots.simps
    by (rule reads_bind [OF reads_try [OF reads_GetNode]])
       (use Cons.IH in \<open>auto simp: add_root_def Let_def split: option.split\<close>)
qed (simp add: reads_ret)

lemma reads_load_package_roots: "reads d (load_package_roots H) (package_roots_at H d)"
  unfolding reads_def
proof (intro allI impI)
  fix s assume clean: "clean d s"
  have "reads d (GetNote (packageRootsObjectHash H) packageRootsNoteKey)
      (find_row note_key (packageRootsObjectHash H, packageRootsNoteKey) (T_notes d))"
    unfolding GetNote_def by (rule reads_query)
  from readsD [OF this clean] show "\<exists>s'. load_package_roots H s = (Inr (package_roots_at H d), s') \<and> clean d s'"
    by (auto simp: load_package_roots_def LoadPackageRoots_def package_roots_at_def split: option.split)
qed

lemma reads_collectSeedPackageRoots: "reads d (collectSeedPackageRoots H seeds) (seed_roots_at H seeds d)"
  unfolding collectSeedPackageRoots_def seed_roots_at_def
  by (rule reads_bind [OF reads_load_package_roots])
     (auto simp: Let_def split: option.split intro!: reads_snapshot_fallback reads_bind [OF reads_seed_roots] reads_ret)

lemma seed_roots_at_cong:
  assumes "T_nodes d' = T_nodes d" "T_repos d' = T_repos d" "T_snapshots d' = T_snapshots d"
    and kept: "find_row note_key (packageRootsObjectHash H, packageRootsNoteKey) (T_notes d') =
      find_row note_key (packageRootsObjectHash H, packageRootsNoteKey) (T_notes d)"
  shows "seed_roots_at H seeds d' = seed_roots_at H seeds d"
proof -
  have "add_root d' = add_root d" by (simp add: add_root_def node_at_def fun_eq_iff assms(1))
  moreover have "fallback_at d' = fallback_at d" by (simp only: fallback_at_def latest_hash_at_def assms(2,3))
  moreover have "package_roots_at H d' = package_roots_at H d" by (simp add: package_roots_at_def kept)
  ultimately show ?thesis by (simp only: seed_roots_at_def)
qed

section \<open>A stored result read back\<close>

lemma length_entries: "length (concat (map (\<lambda>(h, s). hash_bytes h @ PutUint 8 (b s) @ PutUint 4 (f h)) xs)) = 44 * length xs"
  by (induction xs) auto

lemma read_one_entry:
  "read_entries unbits (Suc n) (hash_bytes h @ PutUint 8 b @ PutUint 4 c @ rest) sc ds =
     read_entries unbits n rest (gomap_set h (unbits (b mod 256 ^ 8)) sc) (gomap_set h (int (c mod 256 ^ 4)) ds)"
proof -
  let ?data = "hash_bytes h @ PutUint 8 b @ PutUint 4 c @ rest"
  have parts: "take 32 ?data = hash_bytes h" "take 8 (drop 32 ?data) = PutUint 8 b" "take 4 (drop 40 ?data) = PutUint 4 c"
    "drop 44 ?data = rest"
    by simp_all
  show ?thesis unfolding read_entries.simps parts Let_def Uint_PutUint copy_hash_bytes ..
qed

lemma in_snd_Cons: "v \<in> snd ` set xs \<Longrightarrow> v \<in> snd ` set (x # xs)"
  by auto

lemma read_entries_written:
  assumes "\<And>v. v \<in> snd ` set xs \<Longrightarrow> unbits (bits v mod 256 ^ 8) = v"
  shows "read_entries unbits (length xs)
           (concat (map (\<lambda>(h, s). hash_bytes h @ PutUint 8 (bits s) @ PutUint 4 (nat (f h mod 2 ^ 32))) xs)) sc ds =
         (fold (\<lambda>(h, s). gomap_set h s) xs sc, fold (\<lambda>(h, s). gomap_set h (f h mod 2 ^ 32)) xs ds)"
  using assms
proof (induction xs arbitrary: sc ds)
  case (Cons x xs)
  obtain h s where x: "x = (h, s)" by force
  have s: "unbits (bits s mod 256 ^ 8) = s" by (rule Cons.prems) (simp add: x)
  have f: "int (nat (f h mod 2 ^ 32) mod 256 ^ 4) = f h mod 2 ^ 32" by simp
  have "read_entries unbits (Suc (length xs))
      (hash_bytes h @ PutUint 8 (bits s) @ PutUint 4 (nat (f h mod 2 ^ 32)) @
        concat (map (\<lambda>(h, s). hash_bytes h @ PutUint 8 (bits s) @ PutUint 4 (nat (f h mod 2 ^ 32))) xs)) sc ds =
      (fold (\<lambda>(h, s). gomap_set h s) xs (gomap_set h s sc), fold (\<lambda>(h, s). gomap_set h (f h mod 2 ^ 32)) xs (gomap_set h (f h mod 2 ^ 32) ds))"
    unfolding read_one_entry s f by (rule Cons.IH, rule Cons.prems) (erule in_snd_Cons)
  then show ?case by (simp only: x list.size list.map concat.simps case_prod_conv append_assoc fold_Cons o_def add_Suc_right add_0_right)
qed simp

lemma deserialize_serialize:
  assumes "mset (visit sc) = mset sc" "length sc < 2 ^ 32" "\<And>v. v \<in> snd ` set sc \<Longrightarrow> unbits (bits v mod 256 ^ 8) = v"
  shows "deserializeRWRResult unbits (serializeRWRResult bits visit sc ds) =
     Inr (fold (\<lambda>(h, s). gomap_set h s) (visit sc) [], fold (\<lambda>(h, s). gomap_set h (distance_of ds h mod 2 ^ 32)) (visit sc) [])"
proof -
  have len: "length (visit sc) = length sc" and keep: "set (visit sc) = set sc"
    using assms(1) by (metis size_mset, metis set_mset_mset)
  have vals: "v \<in> snd ` set (visit sc) \<Longrightarrow> unbits (bits v mod 256 ^ 8) = v" for v using assms(3) keep by simp
  show ?thesis
    using read_entries_written [of "visit sc" unbits bits "distance_of ds" "[]" "[]", OF vals] assms(2) len
    by (simp add: deserializeRWRResult_def serializeRWRResult_def Let_def length_entries)
qed

lemma fold_gomap_sets:
  "distinct (map fst xs) \<Longrightarrow> map_of (fold (\<lambda>(h, s). gomap_set h (f h s)) xs m) h =
     (case map_of xs h of Some s \<Rightarrow> Some (f h s) | None \<Rightarrow> map_of m h)"
proof (induction xs arbitrary: m)
  case (Cons x xs)
  then have "map_of xs (fst x) = None" by (simp add: map_of_eq_None_iff)
  with Cons show ?case by (cases x) (simp split: option.split)
qed simp

lemma stored_maps:
  assumes "mset (visit sc) = mset sc" "gomap_ok sc"
  shows "map_of (fold (\<lambda>(h, s). gomap_set h (f h s)) (visit sc) []) h = (case map_of sc h of Some s \<Rightarrow> Some (f h s) | None \<Rightarrow> None)"
proof -
  have "distinct (map fst (visit sc))"
    using assms mset_eq_imp_distinct_iff [of "map fst (visit sc)" "map fst sc"] by simp
  moreover have "map_of (visit sc) = map_of sc"
    using assms calculation map_of_inject_set [of "visit sc" sc] mset_eq_setD by blast
  ultimately show ?thesis by (simp add: fold_gomap_sets split: option.split)
qed

section \<open>A walk always finds a result\<close>

definition readable :: "db \<Rightarrow> 'a op \<Rightarrow> bool" where
  "readable d m \<longleftrightarrow> (\<exists>x. reads d m x)"

lemma readable_reads: "reads d m x \<Longrightarrow> readable d m"
  by (auto simp: readable_def)

lemma readable_bind: "reads d m x \<Longrightarrow> readable d (f x) \<Longrightarrow> readable d (bind_op m f)"
  unfolding readable_def by (elim exE) (rule exI, rule reads_bind)

lemma readable_module_loop: "readable d (module_loop hs m first allSame)"
proof (induction hs arbitrary: m first allSame)
  case (Cons h hs)
  show ?case unfolding module_loop.simps
    by (rule readable_bind [OF reads_try [OF reads_GetNode]]) (simp add: Cons.IH Let_def split: option.split)
qed (simp add: readable_reads [OF reads_ret])

lemma readable_load_adjacency: "readable d (load_adjacency cfg (external_nodes d) seeds)"
proof (cases "max_depth cfg")
  case 0
  then show ?thesis unfolding load_adjacency_def by (simp add: readable_bind [OF reads_ret readable_reads [OF reads_ret]])
next
  case (Suc n)
  from load_adjacency_reads [OF this] show ?thesis by (metis readable_reads)
qed

lemma readable_buildAdjacencyMap: "readable d (buildAdjacencyMap H cfg seeds)"
  unfolding buildAdjacencyMap_def
  by (rule readable_bind [OF reads_loadExternalHashes], rule readable_bind [OF reads_adjacency_note])
     (auto split: option.split sum.split intro: readable_load_adjacency readable_reads [OF reads_ret])

lemma gomap_ok_rwr_loop: "gomap_ok prob \<Longrightarrow> gomap_ok (rwr_loop W visit n iter prob prev stab)"
  by (induction n arbitrary: iter prob prev stab) (auto simp: Let_def gomap_ok_walk_step)

lemma gomap_ok_rwrIterate: "gomap_ok (seedVec W) \<Longrightarrow> gomap_ok (rwrIterate W visit maxIter)"
proof -
  assume "gomap_ok (seedVec W)"
  then have "gomap_ok (map (\<lambda>(k, v). (k, Fin v)) (seedVec W))" by (simp add: case_prod_unfold comp_def)
  then have "gomap_ok (rwr_loop W visit (nat maxIter) 0 (map (\<lambda>(k, v). (k, Fin v)) (seedVec W)) (replicate earlyTopK 0) 0)"
    by (rule gomap_ok_rwr_loop)
  then show ?thesis by (simp add: rwrIterate_def normalize_def Let_def case_prod_unfold comp_def)
qed

lemma gomap_ok_seed_vector: "gomap_ok (seed_vector seeds w)"
proof -
  have "gomap_ok m \<Longrightarrow> gomap_ok (fold (\<lambda>s. gomap_set s (f s)) xs m)" for xs m and f :: "hash \<Rightarrow> rat"
    by (induction xs arbitrary: m) simp_all
  then show ?thesis by (simp add: seed_vector_def Let_def)
qed

lemma bfs_distance_bounds: "map_of (bfsDistancesFromAdj seeds fm tm) h = Some d \<Longrightarrow> 0 \<le> d \<and> d \<le> 4"
proof -
  have start: "map_of (fold (\<lambda>s. gomap_set s 0) xs m) h = (if h \<in> set xs then Some 0 else map_of m h)" for xs m h
    by (induction xs arbitrary: m) auto
  have "bfs_state fm tm seeds 0 seeds (fold (\<lambda>s. gomap_set s (0::int)) seeds [])"
    by (auto simp: bfs_state_def start first_hop_def)
  from bfs_levels_dists [OF this, of 4 h d]
  show "map_of (bfsDistancesFromAdj seeds fm tm) h = Some d \<Longrightarrow> 0 \<le> d \<and> d \<le> 4" by (auto simp: bfsDistancesFromAdj_def)
qed

lemma fresh_walk_reads:
  obtains sc ds where "reads d (fresh_walk E seeds w a m) (sc, ds)" "gomap_ok sc" "\<And>h. 0 \<le> distance_of ds h \<and> distance_of ds h \<le> 4"
proof -
  obtain adj where adj: "reads d (buildAdjacencyMap (env_sha E) (env_config E) seeds) adj"
    using readable_buildAdjacencyMap unfolding readable_def by blast
  let ?hs = "take 2000 (range_nodes E (collectNodeHashes (fst adj) (snd adj)))"
  obtain p where p: "reads d (module_loop ?hs [] '''' True) p"
    using readable_module_loop unfolding readable_def by blast
  then have mods: "reads d (buildNodeModuleMap (range_nodes E (collectNodeHashes (fst adj) (snd adj))))
      (if snd p \<or> length (fst p) = 0 then None else Some (fst p))"
    unfolding buildNodeModuleMap_def by (rule reads_bind) (simp add: case_prod_unfold reads_ret)
  let ?sc = "rwrIterate \<lparr>seedVec = seed_vector seeds w, alpha = a, adjFrom = fst adj, adjTo = snd adj,
      modMap = (if snd p \<or> length (fst p) = 0 then None else Some (fst p)), lsp = lspEdgeWeight E\<rparr> (range_prob E) m"
  have "reads d (walk_over E (seed_vector seeds w) a m adj) ?sc"
    unfolding walk_over_def by (rule reads_bind [OF mods reads_ret])
  then have "reads d (fresh_walk E seeds w a m) (?sc, bfsDistancesFromAdj seeds (fst adj) (snd adj))"
    unfolding fresh_walk_def by (intro reads_bind [OF adj]) (rule reads_bind [OF _ reads_ret])
  moreover have "gomap_ok ?sc" by (rule gomap_ok_rwrIterate) (simp add: gomap_ok_seed_vector)
  ultimately show thesis
    by (rule that) (auto simp: distance_of_def dest: bfs_distance_bounds split: option.split)
qed

section \<open>Cached walks\<close>

definition cached_at :: "rwr_env \<Rightarrow> hash \<Rightarrow> db \<Rightarrow> (scores \<times> (hash, int) gomap) option" where
  "cached_at E key d =
     (case find_row note_key (key, rwrCacheKey) (T_notes d) of
        None \<Rightarrow> None
      | Some n \<Rightarrow>
          if length (Note_Value n) < 4 then None
          else (case base64_DecodeString (Note_Value n) of
                  None \<Rightarrow> None
                | Some raw \<Rightarrow>
                    (case deserializeRWRResult (Float64frombits E) raw of Inl _ \<Rightarrow> None | Inr result \<Rightarrow> Some result)))"

lemma reads_getRWRCache: "reads d (getRWRCache E key) (cached_at E key d)"
proof -
  have "reads d (GetNote key rwrCacheKey) (find_row note_key (key, rwrCacheKey) (T_notes d))"
    unfolding GetNote_def by (rule reads_query)
  show ?thesis
    unfolding getRWRCache_def
    by (rule reads_bind [OF reads_try [OF \<open>reads d (GetNote key rwrCacheKey) _\<close>]], rule reads_ret_eq)
       (simp add: cached_at_def split: option.split)
qed

definition result_key :: "rwr_env \<Rightarrow> hash list \<Rightarrow> (hash, rat) gomap \<Rightarrow> rat \<Rightarrow> db \<Rightarrow> hash" where
  "result_key E seeds w a d =
     computeRWRCacheHash (env_sha E) (Float64bits E) seeds w (default_alpha a) (seed_roots_at (env_sha E) seeds d)"

lemma reads_rwr_lookup:
  assumes "RWRCacheEnabled E" "seed_roots_at (env_sha E) seeds d \<noteq> []"
  shows "reads d (rwr_lookup E seeds w (default_alpha a) st)
    (case cached_at E (result_key E seeds w a d) d of
       Some result \<Rightarrow> (result_key E seeds w a d, Some result, st\<lparr>rwrCacheHits := rwrCacheHits st + 1\<rparr>)
     | None \<Rightarrow> (result_key E seeds w a d, None, st\<lparr>rwrCacheMisses := rwrCacheMisses st + 1\<rparr>))"
proof -
  let ?key = "result_key E seeds w a d"
  have "reads d (bind_op (getRWRCache E ?key) (\<lambda>cached. case cached of
           Some result \<Rightarrow> ret (?key, Some result, st\<lparr>rwrCacheHits := rwrCacheHits st + 1\<rparr>)
         | None \<Rightarrow> ret (?key, None, st\<lparr>rwrCacheMisses := rwrCacheMisses st + 1\<rparr>)))
      (case cached_at E ?key d of
         Some result \<Rightarrow> (?key, Some result, st\<lparr>rwrCacheHits := rwrCacheHits st + 1\<rparr>)
       | None \<Rightarrow> (?key, None, st\<lparr>rwrCacheMisses := rwrCacheMisses st + 1\<rparr>))"
    by (rule reads_bind [OF reads_getRWRCache]) (simp add: reads_ret split: option.split)
  then show ?thesis
    unfolding rwr_lookup_def
    by (simp only: assms(1) if_True, intro reads_bind [OF reads_collectSeedPackageRoots])
       (simp only: assms(2) Let_def result_key_def [symmetric] length_greater_0_conv not_False_eq_True if_True)
qed

lemma put_clean:
  assumes "clean d s"
  obtains s' where "putRWRCache E key sc ds s = (Inr (), s')"
    "clean (d\<lparr>T_notes := upsert note_key \<lparr>ObjectHash = key, Note_Key = rwrCacheKey,
       Note_Value = base64_EncodeToString (serializeRWRResult (Float64bits E) (range_scores E) sc ds), UpdatedAt = 0\<rparr> (T_notes d)\<rparr>) s'"
  using PutNote_clean [OF assms, of "\<lparr>ObjectHash = key, Note_Key = rwrCacheKey,
    Note_Value = base64_EncodeToString (serializeRWRResult (Float64bits E) (range_scores E) sc ds), UpdatedAt = 0\<rparr>"]
  unfolding putRWRCache_def by (metis ignore_op_simps)

text \<open>A miss: the fresh result is stored under its key and returned.\<close>

abbreviation with_result :: "rwr_env \<Rightarrow> hash \<Rightarrow> scores \<Rightarrow> (hash, int) gomap \<Rightarrow> db \<Rightarrow> db" where
  "with_result E key sc ds d \<equiv> d\<lparr>T_notes := upsert note_key \<lparr>ObjectHash = key, Note_Key = rwrCacheKey,
     Note_Value = base64_EncodeToString (serializeRWRResult (Float64bits E) (range_scores E) sc ds), UpdatedAt = 0\<rparr> (T_notes d)\<rparr>"

lemma walk_miss_run:
  assumes "clean d s" "seeds \<noteq> []" "RWRCacheEnabled E" "seed_roots_at (env_sha E) seeds d \<noteq> []"
    and "result_key E seeds w a d \<noteq> EmptyHash" "cached_at E (result_key E seeds w a d) d = None"
    and fresh: "reads d (fresh_walk E seeds w (default_alpha a) (default_iterations m)) (sc, ds)"
  obtains s' where
    "RandomWalkWithRestartWeighted E seeds w a m st s = (Inr (Some (sc, ds), st\<lparr>rwrCacheMisses := rwrCacheMisses st + 1\<rparr>), s')"
    "clean (with_result E (result_key E seeds w a d) sc ds d) s'"
proof -
  let ?key = "result_key E seeds w a d" and ?st = "st\<lparr>rwrCacheMisses := rwrCacheMisses st + 1\<rparr>"
  from reads_rwr_lookup [OF assms(3,4), of w a st] assms(6)
  have "reads d (rwr_lookup E seeds w (default_alpha a) st) (?key, None, ?st)" by simp
  from readsD [OF this assms(1)] obtain s1 where s1: "rwr_lookup E seeds w (default_alpha a) st s = (Inr (?key, None, ?st), s1)" "clean d s1"
    by blast
  from readsD [OF fresh s1(2)] obtain s2 where s2: "fresh_walk E seeds w (default_alpha a) (default_iterations m) s1 = (Inr (sc, ds), s2)" "clean d s2"
    by blast
  obtain s3 where s3: "putRWRCache E ?key sc ds s2 = (Inr (), s3)" "clean (with_result E ?key sc ds d) s3"
    by (rule put_clean [OF s2(2)])
  have "RandomWalkWithRestartWeighted E seeds w a m st s = (Inr (Some (sc, ds), ?st), s3)"
    using assms(2,3,5) by (simp add: RandomWalkWithRestartWeighted_def bind_op_def s1(1) s2(1) s3(1) ret_def)
  then show thesis using s3(2) by (rule that)
qed

lemma walk_miss:
  assumes "clean d s" "seeds \<noteq> []" "RWRCacheEnabled E" "seed_roots_at (env_sha E) seeds d \<noteq> []"
    and "result_key E seeds w a d \<noteq> EmptyHash" "cached_at E (result_key E seeds w a d) d = None"
  obtains sc ds s' where
    "RandomWalkWithRestartWeighted E seeds w a m st s = (Inr (Some (sc, ds), st\<lparr>rwrCacheMisses := rwrCacheMisses st + 1\<rparr>), s')"
    "clean (with_result E (result_key E seeds w a d) sc ds d) s'"
    "gomap_ok sc" "\<And>h. 0 \<le> distance_of ds h \<and> distance_of ds h \<le> 4"
proof -
  obtain sc ds where fresh: "reads d (fresh_walk E seeds w (default_alpha a) (default_iterations m)) (sc, ds)" "gomap_ok sc"
    "\<And>h. 0 \<le> distance_of ds h \<and> distance_of ds h \<le> 4"
    using fresh_walk_reads [of d E seeds w "default_alpha a" "default_iterations m"] by blast
  obtain s' where "RandomWalkWithRestartWeighted E seeds w a m st s = (Inr (Some (sc, ds), st\<lparr>rwrCacheMisses := rwrCacheMisses st + 1\<rparr>), s')"
    "clean (with_result E (result_key E seeds w a d) sc ds d) s'"
    by (rule walk_miss_run [OF assms fresh(1)])
  then show thesis using fresh(2,3) by (rule that)
qed

lemma walk_hit:
  assumes "seeds \<noteq> []" "RWRCacheEnabled E" "seed_roots_at (env_sha E) seeds d \<noteq> []"
    and "cached_at E (result_key E seeds w a d) d = Some result"
  shows "reads d (RandomWalkWithRestartWeighted E seeds w a m st) (Some result, st\<lparr>rwrCacheHits := rwrCacheHits st + 1\<rparr>)"
proof -
  from reads_rwr_lookup [OF assms(2,3), of w a st] assms(4)
  have "reads d (rwr_lookup E seeds w (default_alpha a) st)
    (result_key E seeds w a d, Some result, st\<lparr>rwrCacheHits := rwrCacheHits st + 1\<rparr>)" by simp
  then show ?thesis
    unfolding RandomWalkWithRestartWeighted_def using assms(1)
    by (simp only: length_0_conv if_False) (erule reads_bind, simp add: reads_ret)
qed

text \<open>
  C27. A cached walk is replayed whatever has happened to the edges: after a miss, any later walk from the
  same seeds with the same weights and restart probability, on a store that differs in its edges only
  and with any number of iterations, is a hit and gives the scores of the first walk, and its distances
  for the scored nodes, where a node without one gets 0, the distance of a seed.
\<close>

theorem rwr_cache_replays:
  assumes "clean d s" "seeds \<noteq> []" "RWRCacheEnabled E" "seed_roots_at (env_sha E) seeds d \<noteq> []"
    and "result_key E seeds w a d \<noteq> EmptyHash" "cached_at E (result_key E seeds w a d) d = None"
    and "RandomWalkWithRestartWeighted E seeds w a m st s = (Inr (Some (sc, ds), st1), s1)"
    and "mset (range_scores E sc) = mset sc" "length sc < 2 ^ 32"
    and "\<And>v. v \<in> snd ` set sc \<Longrightarrow> Float64frombits E (Float64bits E v mod 256 ^ 8) = v"
  shows "\<exists>sc' ds'. reads ((DB s1)\<lparr>T_edges := es\<rparr>) (RandomWalkWithRestartWeighted E seeds w a m' st')
       (Some (sc', ds'), st'\<lparr>rwrCacheHits := rwrCacheHits st' + 1\<rparr>) \<and>
     map_of sc' = map_of sc \<and>
     (\<forall>h. map_of ds' h = (case map_of sc h of Some _ \<Rightarrow> Some (distance_of ds h) | None \<Rightarrow> None))"
proof -
  let ?key = "result_key E seeds w a d"
  let ?n = "\<lparr>ObjectHash = ?key, Note_Key = rwrCacheKey,
    Note_Value = base64_EncodeToString (serializeRWRResult (Float64bits E) (range_scores E) sc ds), UpdatedAt = 0\<rparr>"
  obtain sc0 ds0 s0 where miss: "RandomWalkWithRestartWeighted E seeds w a m st s = (Inr (Some (sc0, ds0), st\<lparr>rwrCacheMisses := rwrCacheMisses st + 1\<rparr>), s0)"
    "clean (with_result E ?key sc0 ds0 d) s0"
    "gomap_ok sc0" "\<And>h. 0 \<le> distance_of ds0 h \<and> distance_of ds0 h \<le> 4"
    using walk_miss [OF assms(1-6), of m st] by blast
  with assms(7) have same: "sc0 = sc" "ds0 = ds" "s0 = s1" by simp_all
  let ?d = "(DB s1)\<lparr>T_edges := es\<rparr>"
  have DB: "DB s1 = d\<lparr>T_notes := upsert note_key ?n (T_notes d)\<rparr>" using miss(2) by (simp add: same clean_def)
  have roots: "seed_roots_at (env_sha E) seeds ?d = seed_roots_at (env_sha E) seeds d"
    by (rule seed_roots_at_cong) (simp_all add: DB find_row_upsert note_key_def rwrCacheKey_def packageRootsNoteKey_def)
  then have key: "result_key E seeds w a ?d = ?key" by (simp add: result_key_def)
  let ?result = "(fold (\<lambda>(h, s). gomap_set h s) (range_scores E sc) [],
    fold (\<lambda>(h, s). gomap_set h (distance_of ds h mod 2 ^ 32)) (range_scores E sc) [])"
  have "find_row note_key (?key, rwrCacheKey) (T_notes ?d) = Some ?n" by (simp add: DB find_row_upsert note_key_def)
  moreover have "deserializeRWRResult (Float64frombits E) (serializeRWRResult (Float64bits E) (range_scores E) sc ds) = Inr ?result"
    by (rule deserialize_serialize [where visit = "range_scores E", OF assms(8,9)]) (rule assms(10))
  ultimately have "cached_at E ?key ?d = Some ?result"
    by (simp add: cached_at_def length_base64_Encode serializeRWRResult_def [of _ _ sc] split: if_splits)
  then have "reads ?d (RandomWalkWithRestartWeighted E seeds w a m' st') (Some ?result, st'\<lparr>rwrCacheHits := rwrCacheHits st' + 1\<rparr>)"
    by (intro walk_hit [OF assms(2,3)]) (simp_all add: roots assms(4) key)
  moreover have small: "distance_of ds h mod 2 ^ 32 = distance_of ds h" for h
    using miss(4) [of h] by (intro mod_pos_pos_trivial) (simp_all add: same)
  moreover have "map_of (fst ?result) = map_of sc"
    using stored_maps [where visit = "range_scores E", OF assms(8), of "\<lambda>h s. s"] miss(3) by (auto simp: same fun_eq_iff split: option.split)
  moreover have "map_of (snd ?result) h = (case map_of sc h of Some _ \<Rightarrow> Some (distance_of ds h) | None \<Rightarrow> None)" for h
    using stored_maps [where visit = "range_scores E", OF assms(8), of "\<lambda>h s. distance_of ds h mod 2 ^ 32" h] miss(3) small [of h] by (simp add: same split: option.split)
  ultimately show ?thesis by (intro exI conjI) (assumption, simp_all)
qed

definition snapped_db :: db where
  "snapped_db = empty_db\<lparr>T_repos := [\<lparr>RepoHash = 4, RepoURL = ''r'', LastCommit = '''', LastIndexed = 0\<rparr>],
     T_snapshots := [\<lparr>SnapshotHash = 5, ParentHash = 0, Snap_RepoHash = 4, CommitHash = '''', Timestamp = 1,
       NodeCount = 0, EdgeCount = 0, Generation = 0\<rparr>]\<rparr>"

definition unit_env :: rwr_env where
  "unit_env = \<lparr>env_sha = (\<lambda>_. 9), Float64bits = (\<lambda>_. 1), Float64frombits = (\<lambda>_. Fin 1), RWRCacheEnabled = True,
     env_config = two_steps, lspEdgeWeight = 3 / 10, range_nodes = (\<lambda>hs. hs), range_scores = (\<lambda>m. m), range_prob = (\<lambda>_ m. m)\<rparr>"

lemma snapped_parts [simp]: "T_edges snapped_db = []" "T_nodes snapped_db = []" "T_notes snapped_db = []"
  by (simp_all add: snapped_db_def empty_db_def)

lemma snapped_graph [simp]: "external_nodes snapped_db = {}" "edges_where P snapped_db = []" "node_at snapped_db h = None"
  by (simp_all add: external_nodes_def edges_where_def node_at_def)

lemma snapped_roots: "seed_roots_at H [1] snapped_db = [5]"
  by (simp add: seed_roots_at_def package_roots_at_def fallback_at_def latest_hash_at_def latest_of_def snapped_db_def empty_db_def EmptyHash_def)

lemma snapped_adjacency: "reads snapped_db (buildAdjacencyMap H two_steps [1]) ([(1, [])], [(1, [])])"
proof -
  have "reads snapped_db (load_adjacency two_steps (external_nodes snapped_db) [1]) ([(1, [])], [(1, [])])"
    unfolding reads_def clean_def
    by (simp add: load_adjacency_def two_steps_depth load_from_def load_to_def EdgesFrom_def EdgesTo_def db_simps)
  then show ?thesis
    unfolding buildAdjacencyMap_def
    by (intro reads_bind [OF reads_loadExternalHashes] reads_bind [OF reads_adjacency_note]) simp
qed

lemma snapped_walk: "reads snapped_db (fresh_walk unit_env [1] [(1, 1)] (1/5) 20) ([(1, Fin 1)], [(1, 0)])"
proof -
  have "reads snapped_db (module_loop [1] [] '''' True) ([], True)"
    unfolding module_loop.simps by (rule reads_bind [OF reads_try [OF reads_GetNode]]) (simp add: reads_ret)
  then have mods: "reads snapped_db (buildNodeModuleMap [1]) None"
    unfolding buildNodeModuleMap_def
    by (intro reads_bind [where x = "([], True)"]) (simp del: module_loop.simps, simp add: reads_ret_eq)
  have vec: "seed_vector [1] [(1, 1)] = [(1, 1)]" by (simp add: seed_vector_def weight_of_def)
  have iter: "rwrIterate \<lparr>seedVec = [(1, 1)], alpha = 1/5, adjFrom = [(1, [])], adjTo = [(1, [])], modMap = None, lsp = 3/10\<rparr>
      (\<lambda>_ m. m) 20 = [(1, Fin 1)]" by code_simp
  have dist: "bfsDistancesFromAdj [1] [(1, [])] [(1, [])] = [(1, 0)]" by code_simp
  have "reads snapped_db (walk_over unit_env [(1, 1)] (1/5) 20 ([(1, [])], [(1, [])])) [(1, Fin 1)]"
    unfolding walk_over_def by (rule reads_bind [where x = None]) (simp_all add: collectNodeHashes_def unit_env_def mods iter reads_ret)
  then show ?thesis
    unfolding fresh_walk_def vec
    by (intro reads_bind [where x = "([(1, [])], [(1, [])])"]) (simp_all add: unit_env_def snapped_adjacency, intro reads_bind, assumption, simp add: dist reads_ret)
qed

text \<open>The second walk comes after the call edge from 1 to 2 has appeared, and does not see it.\<close>

theorem rwr_cache_replays_witness:
  "\<exists>s1 sc ds. RandomWalkWithRestartWeighted unit_env [1] [(1, 1)] (1/5) 20 \<lparr>rwrCacheHits = 0, rwrCacheMisses = 0\<rparr>
       (open_store snapped_db []) = (Inr (Some ([(1, Fin 1)], [(1, 0)]), \<lparr>rwrCacheHits = 0, rwrCacheMisses = 1\<rparr>), s1) \<and>
     reads ((DB s1)\<lparr>T_edges := [link_row 1 2 ''calls'']\<rparr>)
       (RandomWalkWithRestartWeighted unit_env [1] [(1, 1)] (1/5) 50 \<lparr>rwrCacheHits = 0, rwrCacheMisses = 1\<rparr>)
       (Some (sc, ds), \<lparr>rwrCacheHits = 1, rwrCacheMisses = 1\<rparr>) \<and>
     map_of sc = [1 \<mapsto> Fin 1]"
proof -
  let ?st = "\<lparr>rwrCacheHits = 0, rwrCacheMisses = 0\<rparr>"
  have args: "([1] :: hash list) \<noteq> []" "RWRCacheEnabled unit_env" "seed_roots_at (env_sha unit_env) [1] snapped_db \<noteq> []"
    "result_key unit_env [1] [(1, 1)] (1/5) snapped_db \<noteq> EmptyHash"
    "cached_at unit_env (result_key unit_env [1] [(1, 1)] (1/5) snapped_db) snapped_db = None"
    by (simp_all add: snapped_roots unit_env_def result_key_def computeRWRCacheHash_def EmptyHash_def cached_at_def)
  have fresh: "reads snapped_db (fresh_walk unit_env [1] [(1, 1)] (default_alpha (1/5)) (default_iterations 20)) ([(1, Fin 1)], [(1, 0)])"
    using snapped_walk by (simp add: default_alpha_def default_iterations_def)
  obtain s1 where run: "RandomWalkWithRestartWeighted unit_env [1] [(1, 1)] (1/5) 20 ?st (open_store snapped_db []) =
      (Inr (Some ([(1, Fin 1)], [(1, 0)]), ?st\<lparr>rwrCacheMisses := rwrCacheMisses ?st + 1\<rparr>), s1)"
    by (rule walk_miss_run [OF clean_open_store args fresh])
  have "\<exists>sc' ds'. reads ((DB s1)\<lparr>T_edges := [link_row 1 2 ''calls'']\<rparr>)
       (RandomWalkWithRestartWeighted unit_env [1] [(1, 1)] (1/5) 50 \<lparr>rwrCacheHits = 0, rwrCacheMisses = 1\<rparr>)
       (Some (sc', ds'), \<lparr>rwrCacheHits = 0, rwrCacheMisses = 1\<rparr>\<lparr>rwrCacheHits := rwrCacheHits \<lparr>rwrCacheHits = 0, rwrCacheMisses = 1\<rparr> + 1\<rparr>) \<and>
     map_of sc' = map_of [(1, Fin 1)] \<and>
     (\<forall>h. map_of ds' h = (case map_of [(1, Fin 1)] h of Some _ \<Rightarrow> Some (distance_of [(1, 0)] h) | None \<Rightarrow> None))"
    by (rule rwr_cache_replays [OF clean_open_store args run]) (simp_all add: unit_env_def)
  then obtain sc ds where "reads ((DB s1)\<lparr>T_edges := [link_row 1 2 ''calls'']\<rparr>)
       (RandomWalkWithRestartWeighted unit_env [1] [(1, 1)] (1/5) 50 \<lparr>rwrCacheHits = 0, rwrCacheMisses = 1\<rparr>)
       (Some (sc, ds), \<lparr>rwrCacheHits = 1, rwrCacheMisses = 1\<rparr>)" "map_of sc = [1 \<mapsto> Fin 1]"
    by auto
  moreover have "RandomWalkWithRestartWeighted unit_env [1] [(1, 1)] (1/5) 20 ?st (open_store snapped_db []) =
      (Inr (Some ([(1, Fin 1)], [(1, 0)]), \<lparr>rwrCacheHits = 0, rwrCacheMisses = 1\<rparr>), s1)" by (simp add: run)
  ultimately show ?thesis by blast
qed

section \<open>Staying within communities\<close>

text \<open>The community of a node: its parsable assignment note.\<close>

definition community_of :: "db \<Rightarrow> hash \<Rightarrow> int option" where
  "community_of d h =
     map_of (community_rows (map (\<lambda>n. (ObjectHash n, Note_Value n))
       (filter (\<lambda>n. Note_Key n = ''community_id'' \<and> ObjectHash n = h) (T_notes d))) []) h"

lemma community_rows_acc:
  "map_of (community_rows rows acc) h =
     (case map_of (community_rows rows []) h of Some c \<Rightarrow> Some c | None \<Rightarrow> map_of acc h)"
proof (induction rows arbitrary: acc)
  case (Cons r rows)
  obtain k v where r: "r = (k, v)" by force
  show ?case
  proof (cases "strconv_Atoi v")
    case None
    then show ?thesis using Cons.IH [of acc] by (simp add: r)
  next
    case (Some c)
    then show ?thesis using Cons.IH [of "gomap_set k c acc"] Cons.IH [of "gomap_set k c []"] by (simp add: r split: option.split)
  qed
qed simp

lemma community_rows_filter: "map_of (community_rows (filter (\<lambda>r. fst r = h) rows) acc) h = map_of (community_rows rows acc) h"
proof (induction rows arbitrary: acc)
  case (Cons r rows)
  obtain k v where r: "r = (k, v)" by force
  have "h \<noteq> k \<Longrightarrow> map_of (community_rows rows (gomap_set k c acc)) h = map_of (community_rows rows acc) h" for c
    using community_rows_acc [of rows "gomap_set k c acc" h] community_rows_acc [of rows acc h] by (simp split: option.split)
  with Cons.IH show ?case by (auto simp: r split: option.split)
qed simp

lemma community_rows_at:
  "map_of (community_rows rows acc) h =
     (case map_of (community_rows (filter (\<lambda>r. fst r = h) rows) []) h of Some c \<Rightarrow> Some c | None \<Rightarrow> map_of acc h)"
  using community_rows_acc [of rows acc h] community_rows_filter [of h rows "[]"] by simp

lemma reads_communities_loop:
  "\<exists>m. reads d (communities_loop i hs acc) m \<and>
     (\<forall>h. map_of m h = (if h \<in> set hs then (case community_of d h of Some c \<Rightarrow> Some c | None \<Rightarrow> map_of acc h) else map_of acc h))"
proof (induction i hs acc rule: communities_loop.induct)
  case (1 i hashes result)
  show ?case
  proof (cases "hashes = []")
    case True
    then have "reads d (communities_loop i hashes result) result" by (subst communities_loop.simps) (simp add: reads_ret)
    with True show ?thesis by auto
  next
    case False
    let ?f = "\<lambda>d. map (\<lambda>n. (ObjectHash n, Note_Value n))
      (filter (\<lambda>n. Note_Key n = ''community_id'' \<and> ObjectHash n \<in> set (take 99 hashes)) (T_notes d))"
    have rows: "filter (\<lambda>r. fst r = h) (?f d) =
        (if h \<in> set (take 99 hashes)
         then map (\<lambda>n. (ObjectHash n, Note_Value n)) (filter (\<lambda>n. Note_Key n = ''community_id'' \<and> ObjectHash n = h) (T_notes d))
         else [])" for h
      by (auto simp: filter_map comp_def filter_empty_conv intro!: arg_cong [where f = "map _"] filter_cong)
    have after: "map_of (community_rows (?f d) result) h =
        (if h \<in> set (take 99 hashes) then (case community_of d h of Some c \<Rightarrow> Some c | None \<Rightarrow> map_of result h) else map_of result h)" for h
      using community_rows_at [of "?f d" result h] by (simp only: rows) (simp add: community_of_def)
    from 1 [OF False, of "?f d"] obtain m where m: "reads d (communities_loop (i + 1) (drop 99 hashes) (community_rows (?f d) result)) m"
      "\<forall>h. map_of m h = (if h \<in> set (drop 99 hashes) then (case community_of d h of Some c \<Rightarrow> Some c
         | None \<Rightarrow> map_of (community_rows (?f d) result) h) else map_of (community_rows (?f d) result) h)"
      by blast
    have "reads d (communities_loop i hashes result) m"
      unfolding communities_loop.simps [of i hashes] using False
      by (simp only: if_False) (rule reads_bind [OF reads_wrap [OF reads_query]], rule m(1))
    moreover have "set hashes = set (take 99 hashes) \<union> set (drop 99 hashes)" by (metis append_take_drop_id set_append)
    then have "map_of m h = (if h \<in> set hashes then (case community_of d h of Some c \<Rightarrow> Some c | None \<Rightarrow> map_of result h) else map_of result h)" for h
      using m(2) after [of h] by (auto split: option.split)
    ultimately show ?thesis by blast
  qed
qed

lemma reads_CommunitiesForNodes:
  assumes "hs \<noteq> []"
  obtains m where "reads d (CommunitiesForNodes hs) (Some m)" "\<And>h. h \<in> set hs \<Longrightarrow> map_of m h = community_of d h"
proof -
  obtain m where m: "reads d (communities_loop 0 hs []) m"
    "\<forall>h. map_of m h = (if h \<in> set hs then (case community_of d h of Some c \<Rightarrow> Some c | None \<Rightarrow> map_of [] h) else map_of [] h)"
    using reads_communities_loop [of d 0 hs "[]"] by blast
  have "reads d (CommunitiesForNodes hs) (Some m)"
    unfolding CommunitiesForNodes_def using assms by (simp, intro reads_bind [OF m(1)]) (rule reads_ret)
  then show thesis using m(2) by (intro that) (auto split: option.split)
qed

definition walkable :: "int set \<Rightarrow> hash list \<Rightarrow> db \<Rightarrow> hash set" where
  "walkable allowed seeds d = set seeds \<union> {h. community_of d h = None \<or> community_of d h \<in> Some ` allowed}"

lemma candidate_maps [simp]: "nb_from (fold (candidate ext endp) es nb) = nb_from nb" "nb_to (fold (candidate ext endp) es nb) = nb_to nb"
  by (induction es arbitrary: nb) (simp_all add: candidate_def)

lemma community_nodes_reads:
  "\<exists>nb'. reads d (community_nodes ext nodes nb) nb' \<and> fst ` set (nb_from nb') = fst ` set (nb_from nb) \<union> set nodes \<and>
     fst ` set (nb_to nb') = fst ` set (nb_to nb) \<union> set nodes"
proof (induction nodes arbitrary: nb)
  case Nil
  show ?case using reads_ret [of d nb] by auto
next
  case (Cons node nodes)
  obtain nb1 where nb1: "reads d (if node \<in> fst ` set (nb_from nb) then ret nb
      else bind_op (EdgesFrom node '''') (\<lambda>es. ret (fold (candidate ext TargetHash) es (nb\<lparr>nb_from := gomap_set node es (nb_from nb)\<rparr>)))) nb1"
    "fst ` set (nb_from nb1) = insert node (fst ` set (nb_from nb))" "nb_to nb1 = nb_to nb"
  proof (cases "node \<in> fst ` set (nb_from nb)")
    case True
    then show thesis by (intro that [of nb]) (auto simp: reads_ret)
  next
    case False
    show thesis
    proof (rule that [of "fold (candidate ext TargetHash) (edges_out d node) (nb\<lparr>nb_from := gomap_set node (edges_out d node) (nb_from nb)\<rparr>)"])
      show "reads d (if node \<in> fst ` set (nb_from nb) then ret nb
        else bind_op (EdgesFrom node '''') (\<lambda>es. ret (fold (candidate ext TargetHash) es (nb\<lparr>nb_from := gomap_set node es (nb_from nb)\<rparr>))))
        (fold (candidate ext TargetHash) (edges_out d node) (nb\<lparr>nb_from := gomap_set node (edges_out d node) (nb_from nb)\<rparr>))"
        by (simp only: False if_False) (rule reads_bind [OF reads_Edges(1) reads_ret])
    qed (simp_all add: keys_gomap_set)
  qed
  obtain nb2 where nb2: "reads d (if node \<in> fst ` set (nb_to nb1) then ret nb1
      else bind_op (EdgesTo node '''') (\<lambda>es. ret (fold (candidate ext SourceHash) es (nb1\<lparr>nb_to := gomap_set node es (nb_to nb1)\<rparr>)))) nb2"
    "fst ` set (nb_to nb2) = insert node (fst ` set (nb_to nb1))" "nb_from nb2 = nb_from nb1"
  proof (cases "node \<in> fst ` set (nb_to nb1)")
    case True
    then show thesis by (intro that [of nb1]) (auto simp: reads_ret)
  next
    case False
    show thesis
    proof (rule that [of "fold (candidate ext SourceHash) (edges_in d node) (nb1\<lparr>nb_to := gomap_set node (edges_in d node) (nb_to nb1)\<rparr>)"])
      show "reads d (if node \<in> fst ` set (nb_to nb1) then ret nb1
        else bind_op (EdgesTo node '''') (\<lambda>es. ret (fold (candidate ext SourceHash) es (nb1\<lparr>nb_to := gomap_set node es (nb_to nb1)\<rparr>))))
        (fold (candidate ext SourceHash) (edges_in d node) (nb1\<lparr>nb_to := gomap_set node (edges_in d node) (nb_to nb1)\<rparr>))"
        by (simp only: False if_False) (rule reads_bind [OF reads_Edges(2) reads_ret])
    qed (simp_all add: keys_gomap_set)
  qed
  obtain nb3 where nb3: "reads d (community_nodes ext nodes nb2) nb3" "fst ` set (nb_from nb3) = fst ` set (nb_from nb2) \<union> set nodes"
    "fst ` set (nb_to nb3) = fst ` set (nb_to nb2) \<union> set nodes"
    using Cons.IH [of nb2] by blast
  have "reads d (community_nodes ext (node # nodes) nb) nb3"
    unfolding community_nodes.simps by (rule reads_bind [OF nb1(1)], rule reads_bind [OF nb2(1)], rule nb3(1))
  moreover have "fst ` set (nb_from nb3) = fst ` set (nb_from nb) \<union> set (node # nodes)"
    "fst ` set (nb_to nb3) = fst ` set (nb_to nb) \<union> set (node # nodes)"
    using nb1(2,3) nb2(2,3) nb3(2,3) by auto
  ultimately show ?case by blast
qed

lemma admitted_walkable:
  assumes "\<And>h. h \<in> set hs \<Longrightarrow> map_of m h = community_of d h"
  shows "set (filter (admitted allowed (set seeds) (Some m)) hs) \<subseteq> walkable allowed seeds d"
proof
  fix h assume h: "h \<in> set (filter (admitted allowed (set seeds) (Some m)) hs)"
  then have "map_of m h = community_of d h" using assms by simp
  with h show "h \<in> walkable allowed seeds d" by (cases "community_of d h") (auto simp: admitted_def walkable_def)
qed

lemma community_levels_reads:
  "set frontier \<subseteq> walkable allowed seeds d \<Longrightarrow> fst ` set (nb_from nb) \<union> fst ` set (nb_to nb) \<subseteq> walkable allowed seeds d \<Longrightarrow>
     \<exists>nb'. reads d (community_levels allowed (set seeds) ext n frontier nb) nb' \<and>
       fst ` set (nb_from nb') \<union> fst ` set (nb_to nb') \<subseteq> walkable allowed seeds d"
proof (induction n arbitrary: frontier nb)
  case 0
  then show ?case using reads_ret [of d nb] by auto
next
  case (Suc n)
  show ?case
  proof (cases "frontier = []")
    case True
    with Suc.prems show ?thesis using reads_ret [of d nb] by auto
  next
    case False
    obtain nb1 where nb1: "reads d (community_nodes ext frontier (nb\<lparr>nb_next := []\<rparr>)) nb1"
      "fst ` set (nb_from nb1) = fst ` set (nb_from nb) \<union> set frontier" "fst ` set (nb_to nb1) = fst ` set (nb_to nb) \<union> set frontier"
      using community_nodes_reads [of d ext frontier "nb\<lparr>nb_next := []\<rparr>"] by auto
    then have keys: "fst ` set (nb_from nb1) \<union> fst ` set (nb_to nb1) \<subseteq> walkable allowed seeds d" using Suc.prems by blast
    let ?cs = "filter (\<lambda>h. h \<notin> set (nb_visited nb1)) (uniq (nb_next nb1))"
    show ?thesis
    proof (cases "?cs = []")
      case True
      have "reads d (community_levels allowed (set seeds) ext (Suc n) frontier nb) nb1"
        using False True by (simp only: community_levels.simps length_0_conv if_False) (rule reads_bind [OF nb1(1)], simp only: Let_def True list.size if_True, rule reads_ret_eq, rule refl)
      with keys show ?thesis by blast
    next
      case some: False
      obtain m where m: "reads d (CommunitiesForNodes ?cs) (Some m)" "\<And>h. h \<in> set ?cs \<Longrightarrow> map_of m h = community_of d h"
        using reads_CommunitiesForNodes [OF some, of d] by blast
      let ?nb = "nb1\<lparr>nb_visited := nb_visited nb1 @ ?cs\<rparr>"
      have "fst ` set (nb_from ?nb) \<union> fst ` set (nb_to ?nb) \<subseteq> walkable allowed seeds d" using keys by simp
      from Suc.IH [OF admitted_walkable [OF m(2)] this] obtain nb' where nb':
        "reads d (community_levels allowed (set seeds) ext n (filter (admitted allowed (set seeds) (Some m)) ?cs) ?nb) nb'"
        "fst ` set (nb_from nb') \<union> fst ` set (nb_to nb') \<subseteq> walkable allowed seeds d" by blast
      have "reads d (community_levels allowed (set seeds) ext (Suc n) frontier nb) nb'"
        using False some
        by (simp only: community_levels.simps length_0_conv if_False Let_def) (rule reads_bind [OF nb1(1)], simp only: if_False, rule reads_bind [OF m(1)], rule nb'(1))
      with nb'(2) show ?thesis by blast
    qed
  qed
qed

text \<open>
  The community filter holds: the filtered load always succeeds on a store without faults, and
  every node whose edges it loads is a seed, has no community or is in an allowed one.
\<close>

lemma community_filter_sound:
  "\<exists>fm tm. reads d (buildAdjacencyMapFiltered H cfg seeds (Some allowed)) (fm, tm) \<and>
     fst ` set fm \<union> fst ` set tm \<subseteq> set seeds \<union> {h. community_of d h = None \<or> community_of d h \<in> Some ` allowed}"
proof -
  have "set seeds \<subseteq> walkable allowed seeds d" by (simp add: walkable_def)
  from community_levels_reads [OF this, of "\<lparr>nb_from = [], nb_to = [], nb_visited = remdups seeds, nb_next = []\<rparr>" "external_nodes d" 4]
  obtain nb where nb: "reads d (community_levels allowed (set seeds) (external_nodes d) 4 seeds
      \<lparr>nb_from = [], nb_to = [], nb_visited = remdups seeds, nb_next = []\<rparr>) nb"
    "fst ` set (nb_from nb) \<union> fst ` set (nb_to nb) \<subseteq> walkable allowed seeds d"
    by auto
  have "reads d (buildAdjacencyMapFiltered H cfg seeds (Some allowed)) (nb_from nb, nb_to nb)"
    unfolding buildAdjacencyMapFiltered_def
    by (simp only: option.case) (rule reads_bind [OF reads_loadExternalHashes], rule reads_bind [OF nb(1) reads_ret])
  with nb(2) show ?thesis unfolding walkable_def by blast
qed

end
