(* ===== verification/ContextRanking.thy ===== *)
theory ContextRanking
  imports RandomWalk StoreRuntime GraphDiff
begin

text \<open>
  internal/context: the parameters of the retrieval pipeline (sweep.go), token estimates (tokens.go) and
  the ranking of symbols (ranking.go), with exact rationals for float64. \<open>sort.Slice\<close> is not
  stable: it is an argument of which only \<open>sorts\<close> is known. The environment and the
  parsing of numbers in it are arguments.
\<close>

section \<open>Sorting\<close>

definition sorts :: "('a \<Rightarrow> 'a \<Rightarrow> bool) \<Rightarrow> ('a list \<Rightarrow> 'a list) \<Rightarrow> bool" where
  "sorts lt srt \<longleftrightarrow> (\<forall>xs. mset (srt xs) = mset xs \<and> sorted_wrt (\<lambda>a b. \<not> lt b a) (srt xs))"

section \<open>Parameters of the pipeline\<close>

record SweepParams =
  SP_Alpha :: rat
  SP_MaxIter :: int
  SP_ScoreCutoff :: rat
  SP_MaxSeeds :: int
  SP_RRFk :: rat
  SP_BlastW :: rat
  SP_ConfW :: rat
  SP_RecencyW :: rat
  SP_DistanceW :: rat
  SP_TestPenalty :: rat

definition no_sweep :: SweepParams where
  "no_sweep = \<lparr>SP_Alpha = 0, SP_MaxIter = 0, SP_ScoreCutoff = 0, SP_MaxSeeds = 0, SP_RRFk = 0, SP_BlastW = 0,
     SP_ConfW = 0, SP_RecencyW = 0, SP_DistanceW = 0, SP_TestPenalty = 0\<rparr>"

definition sweepAlpha :: "SweepParams \<Rightarrow> rat" where
  "sweepAlpha p = (if SP_Alpha p > 0 then SP_Alpha p else 2/10)"

definition sweepMaxIter :: "SweepParams \<Rightarrow> int" where
  "sweepMaxIter p = (if SP_MaxIter p > 0 then SP_MaxIter p else 20)"

definition sweepScoreCutoff :: "SweepParams \<Rightarrow> rat" where
  "sweepScoreCutoff p = (if SP_ScoreCutoff p > 0 then SP_ScoreCutoff p else 2/100)"

definition sweepMaxSeeds :: "SweepParams \<Rightarrow> int" where
  "sweepMaxSeeds p = (if SP_MaxSeeds p > 0 then SP_MaxSeeds p else 15)"

definition sweepRRFk :: "SweepParams \<Rightarrow> rat" where
  "sweepRRFk p = (if SP_RRFk p > 0 then SP_RRFk p else 60)"

definition sweepBlastW :: "SweepParams \<Rightarrow> rat" where
  "sweepBlastW p = (if SP_BlastW p > 0 then SP_BlastW p else 35/100)"

definition sweepConfW :: "SweepParams \<Rightarrow> rat" where
  "sweepConfW p = (if SP_ConfW p > 0 then SP_ConfW p else 20/100)"

definition sweepRecencyW :: "SweepParams \<Rightarrow> rat" where
  "sweepRecencyW p = (if SP_RecencyW p > 0 then SP_RecencyW p else 15/100)"

definition sweepDistanceW :: "SweepParams \<Rightarrow> rat" where
  "sweepDistanceW p = (if SP_DistanceW p > 0 then SP_DistanceW p else 15/100)"

record env =
  Getenv :: "string \<Rightarrow> string"
  ParseFloat :: "string \<Rightarrow> rat option"

text \<open>The value of a variable when it is set, parses and passes the test; else the default.\<close>

definition env_float :: "env \<Rightarrow> string \<Rightarrow> (rat \<Rightarrow> bool) \<Rightarrow> rat \<Rightarrow> rat" where
  "env_float E name ok dflt =
     (if Getenv E name \<noteq> '''' then
        (case ParseFloat E (Getenv E name) of Some f \<Rightarrow> if ok f then f else dflt | None \<Rightarrow> dflt)
      else dflt)"

definition sweepTestPenalty :: "env \<Rightarrow> SweepParams \<Rightarrow> rat" where
  "sweepTestPenalty E p =
     (if SP_TestPenalty p < 0 then 15/100
      else if SP_TestPenalty p > 0 then SP_TestPenalty p
      else env_float E ''BENCH_TEST_PENALTY'' (\<lambda>f. f > 0) (15/100))"

definition proximityExponent :: "env \<Rightarrow> rat" where
  "proximityExponent E = env_float E ''BENCH_PROXIMITY_EXP'' (\<lambda>f. f > 0) (3/10)"

definition lspEdgeWeight_env :: "env \<Rightarrow> rat" where
  "lspEdgeWeight_env E = env_float E ''BENCH_LSP_EDGE_WEIGHT'' (\<lambda>f. f \<ge> 0) (3/10)"

definition adaptiveProximityExponent :: "env \<Rightarrow> rat \<Rightarrow> rat" where
  "adaptiveProximityExponent E phantomRatio =
     env_float E ''BENCH_PROXIMITY_EXP'' (\<lambda>f. f > 0)
       (let exp = 3/10 + 2/10 * phantomRatio in if exp > 7/10 then 7/10 else exp)"

definition packStrategy :: "env \<Rightarrow> string \<Rightarrow> string" where
  "packStrategy E PackStrategy =
     (if PackStrategy \<noteq> '''' then PackStrategy
      else if Getenv E ''BENCH_PACK_STRATEGY'' \<noteq> '''' then Getenv E ''BENCH_PACK_STRATEGY''
      else ''density'')"

section \<open>Tokens\<close>

definition EstimateTokens :: "string \<Rightarrow> int" where
  "EstimateTokens text = int (length text div 4)"

definition EstimateNodeTokens :: "node \<Rightarrow> int" where
  "EstimateNodeTokens n = EstimateTokens (QualifiedName n @ '' '' @ Kind n @ '' '' @ Signature n)"

definition EstimateNodeTokensForFormat :: "node \<Rightarrow> string \<Rightarrow> int" where
  "EstimateNodeTokensForFormat n format =
     (let base = EstimateNodeTokens n in
      if format = ''gcf'' then max 1 (base * 16 div 100)
      else if format = ''gcb'' then max 1 (base * 26 div 100)
      else base)"

section \<open>Recency\<close>

definition day :: int where "day = 86400"

definition recencyFromTimestamp :: "int \<Rightarrow> int \<Rightarrow> rat" where
  "recencyFromTimestamp now ts =
     (if ts = 0 then 3/10
      else let age = now - ts in
        if age \<le> day then 1 else if age \<le> 7 * day then 8/10 else if age \<le> 30 * day then 5/10 else 2/10)"

definition commitRecencyScore :: "int \<Rightarrow> int \<Rightarrow> rat" where
  "commitRecencyScore now ts =
     (if ts = 0 then 0
      else let age = now - ts in
        if age \<le> day then 5/100 else if age \<le> 7 * day then 3/100 else if age \<le> 30 * day then 1/100 else 0)"

section \<open>Ranking\<close>

record ScoreComponents =
  SC_BlastRadius :: rat
  SC_Confidence :: rat
  SC_Recency :: rat
  SC_Distance :: rat
  SC_Feedback :: rat
  SC_Session :: rat

record RankedSymbol =
  Sym_Node :: node
  Sym_Score :: rat
  Sym_Components :: ScoreComponents
  Sym_Provenance :: string
  Sym_Distance :: int
  Sym_BFSDistance :: int
  Sym_RWRScore :: rat

record ScoringInput =
  In_Node :: node
  CallerCount :: int
  In_Confidence :: rat
  In_LastObserved :: int
  DistanceFromTarget :: int
  In_BFSDistance :: int
  In_RWRScore :: rat
  FeedbackBoost :: rat
  SessionBoost :: rat
  IsTestFile :: bool

record HITSScores =
  Authority :: rat
  Hub :: rat

definition FeedbackPosWeight :: rat where "FeedbackPosWeight = 25/100"
definition FeedbackNegWeight :: rat where "FeedbackNegWeight = 5/100"

definition max_callers :: "ScoringInput list \<Rightarrow> int" where
  "max_callers symbols = fold (\<lambda>s m. if CallerCount s > m then CallerCount s else m) symbols 1"

definition feedback_part :: "ScoringInput \<Rightarrow> rat" where
  "feedback_part s =
     (if FeedbackBoost s > 0 then
        (if FeedbackBoost s > 1/2 then FeedbackPosWeight * (2 * (FeedbackBoost s - 1/2))
         else - FeedbackNegWeight * (2 * (1/2 - FeedbackBoost s)))
      else 0)"

definition session_part :: "ScoringInput \<Rightarrow> rat" where
  "session_part s = (if SessionBoost s > 0 then 20/100 * (SessionBoost s / 2) else 0)"

definition hits_at :: "(hash, HITSScores) gomap \<Rightarrow> hash \<Rightarrow> HITSScores" where
  "hits_at hits h = (case map_of hits h of Some x \<Rightarrow> x | None \<Rightarrow> \<lparr>Authority = 0, Hub = 0\<rparr>)"

definition authority_adj :: "HITSScores \<Rightarrow> bool \<Rightarrow> rat" where
  "authority_adj h isSeed =
     (if isSeed \<and> Authority h > 5/100 then Authority h * (25/100)
      else if \<not> isSeed \<and> Authority h > 2/10 then - Authority h * (15/100) else 0) +
     (if isSeed \<and> Hub h > 1/10 then Hub h * (10/100) else 0)"

text \<open>One round of the loop; \<open>None\<close> is a nil map of HITS scores.\<close>

definition rank_one ::
  "env \<Rightarrow> SweepParams \<Rightarrow> int \<Rightarrow> (hash, HITSScores) gomap option \<Rightarrow> int \<Rightarrow> ScoringInput \<Rightarrow> RankedSymbol" where
  "rank_one E p now hits maxCallers s =
     (let extra = (if hits = None then 5/100 else 0);
          blastRadius = of_int (CallerCount s) / of_int maxCallers * (sweepBlastW p + extra);
          confidence = In_Confidence s * (sweepConfW p + extra);
          recency = recencyFromTimestamp now (In_LastObserved s) * (sweepRecencyW p + extra);
          distance = 1 / (1 + of_int (DistanceFromTarget s)) * sweepDistanceW p;
          commitRecency = commitRecencyScore now (LastCommitAt (In_Node s));
          authorityAdj = (case hits of None \<Rightarrow> 0 | Some m \<Rightarrow> authority_adj (hits_at m (NodeHash (In_Node s))) (DistanceFromTarget s = 0));
          sum = blastRadius + confidence + recency + distance + authorityAdj + feedback_part s + session_part s + commitRecency
      in \<lparr>Sym_Node = In_Node s, Sym_Score = (if IsTestFile s then sum * sweepTestPenalty E p else sum),
          Sym_Components = \<lparr>SC_BlastRadius = blastRadius, SC_Confidence = confidence, SC_Recency = recency,
            SC_Distance = distance, SC_Feedback = feedback_part s, SC_Session = session_part s\<rparr>,
          Sym_Provenance = '''', Sym_Distance = DistanceFromTarget s, Sym_BFSDistance = 0, Sym_RWRScore = In_RWRScore s\<rparr>)"

definition higher :: "RankedSymbol \<Rightarrow> RankedSymbol \<Rightarrow> bool" where
  "higher a b \<longleftrightarrow> Sym_Score a > Sym_Score b"

definition RankSymbols ::
  "(RankedSymbol list \<Rightarrow> RankedSymbol list) \<Rightarrow> env \<Rightarrow> SweepParams \<Rightarrow> int \<Rightarrow> (hash, HITSScores) gomap option
     \<Rightarrow> ScoringInput list \<Rightarrow> RankedSymbol list" where
  "RankSymbols srt E p now hits symbols =
     (if length symbols = 0 then [] else srt (map (rank_one E p now hits (max_callers symbols)) symbols))"

section \<open>Properties\<close>

lemma sortsD: "sorts lt srt \<Longrightarrow> mset (srt xs) = mset xs" "sorts lt srt \<Longrightarrow> sorted_wrt (\<lambda>a b. \<not> lt b a) (srt xs)"
  by (simp_all add: sorts_def)

lemma sorts_set: "sorts lt srt \<Longrightarrow> set (srt xs) = set xs"
  by (metis set_mset_mset sortsD(1))

text \<open>Stable sorting by a key, one of the sorts that the hypothesis allows.\<close>

lemma sorts_key: "sorts (\<lambda>a b. f a > f b) (sort_key (\<lambda>x. - (f x :: rat)))"
proof -
  have "sorted_wrt (\<lambda>a b. \<not> f b > f a) (sort_key (\<lambda>x. - f x) xs)" for xs
    using sorted_sort_key [of "\<lambda>x. - f x" xs] by (simp add: sorted_map not_less)
  then show ?thesis by (simp add: sorts_def)
qed

lemma max_callers_fold: "m \<le> fold (\<lambda>s m. if CallerCount s > m then CallerCount s else m) xs m \<and>
    (\<forall>s\<in>set xs. CallerCount s \<le> fold (\<lambda>s m. if CallerCount s > m then CallerCount s else m) xs m)"
proof (induction xs arbitrary: m)
  case (Cons x xs)
  from Cons.IH [of "if CallerCount x > m then CallerCount x else m"] show ?case by (auto split: if_splits)
qed simp

lemma max_callers_bounds: "1 \<le> max_callers xs" "s \<in> set xs \<Longrightarrow> CallerCount s \<le> max_callers xs"
  using max_callers_fold [of 1 xs] by (simp_all add: max_callers_def)

definition input_ok :: "ScoringInput \<Rightarrow> bool" where
  "input_ok s \<longleftrightarrow> 0 \<le> CallerCount s \<and> 0 \<le> In_Confidence s \<and> In_Confidence s \<le> 1 \<and> 0 \<le> DistanceFromTarget s \<and>
     0 \<le> FeedbackBoost s \<and> FeedbackBoost s \<le> 1 \<and> 0 \<le> SessionBoost s \<and> SessionBoost s \<le> 2"

lemma recency_bounds: "2/10 \<le> recencyFromTimestamp now ts" "recencyFromTimestamp now ts \<le> 1"
  "0 \<le> commitRecencyScore now ts" "commitRecencyScore now ts \<le> 5/100"
  by (simp_all add: recencyFromTimestamp_def commitRecencyScore_def Let_def)

lemma feedback_bounds: "input_ok s \<Longrightarrow> - (5/100) < feedback_part s \<and> feedback_part s \<le> 25/100"
  by (auto simp: input_ok_def feedback_part_def FeedbackPosWeight_def FeedbackNegWeight_def)

lemma session_bounds: "input_ok s \<Longrightarrow> 0 \<le> session_part s \<and> session_part s \<le> 20/100"
  by (auto simp: input_ok_def session_part_def)

lemma unit_weight: "0 \<le> x \<Longrightarrow> x \<le> 1 \<Longrightarrow> 0 \<le> w \<Longrightarrow> 0 \<le> x * w \<and> x * w \<le> (w :: rat)"
  by (simp add: mult_left_le_one_le)

lemma default_weights [simp]: "sweepBlastW no_sweep = 35/100" "sweepConfW no_sweep = 20/100"
  "sweepRecencyW no_sweep = 15/100" "sweepDistanceW no_sweep = 15/100"
  by (simp_all add: no_sweep_def sweepBlastW_def sweepConfW_def sweepRecencyW_def sweepDistanceW_def)

lemma rank_one_bounds:
  assumes "input_ok s" "CallerCount s \<le> m" "1 \<le> m" "\<not> IsTestFile s"
  shows "- (1/100) < Sym_Score (rank_one E no_sweep now None m s) \<and> Sym_Score (rank_one E no_sweep now None m s) \<le> 3/2"
proof -
  let ?blast = "of_int (CallerCount s) / of_int m :: rat" and ?dist = "1 / (1 + of_int (DistanceFromTarget s)) :: rat"
  have "0 \<le> ?blast" "?blast \<le> 1" using assms by (simp_all add: input_ok_def divide_le_eq_1)
  from unit_weight [OF this, of "2/5"] have blast: "0 \<le> ?blast * (2/5) \<and> ?blast * (2/5) \<le> 2/5" by simp
  have "0 \<le> ?dist" "?dist \<le> 1" using assms by (simp_all add: input_ok_def divide_le_eq_1)
  from unit_weight [OF this, of "15/100"] have dist: "0 \<le> ?dist * (15/100) \<and> ?dist * (15/100) \<le> 15/100" by simp
  have "0 \<le> In_Confidence s" "In_Confidence s \<le> 1" using assms(1) by (simp_all add: input_ok_def)
  from unit_weight [OF this, of "1/4"] have conf: "0 \<le> In_Confidence s * (1/4) \<and> In_Confidence s * (1/4) \<le> 1/4" by simp
  have rec: "2/10 * (1/5) \<le> recencyFromTimestamp now (In_LastObserved s) * (1/5) \<and> recencyFromTimestamp now (In_LastObserved s) * (1/5) \<le> 1/5"
    using recency_bounds(1,2) [of now "In_LastObserved s"] by linarith
  note parts = blast dist conf rec feedback_bounds [OF assms(1)] session_bounds [OF assms(1)]
    recency_bounds(3,4) [of now "LastCommitAt (In_Node s)"]
  have "Sym_Score (rank_one E no_sweep now None m s) =
      ?blast * (2/5) + In_Confidence s * (1/4) + recencyFromTimestamp now (In_LastObserved s) * (1/5) + ?dist * (15/100) +
      feedback_part s + session_part s + commitRecencyScore now (LastCommitAt (In_Node s))"
    using assms(4) by (simp add: rank_one_def Let_def)
  with parts show ?thesis by linarith
qed

text \<open>
  Ranking with the default weights and without HITS scores: the result has the inputs' symbols,
  each as often as in the input, in descending order of score, and for inputs in their documented
  ranges every score lies above -0.01 and is at most 1.5.
\<close>

lemma RankSymbols_default:
  assumes "sorts higher srt" "\<forall>s\<in>set symbols. input_ok s \<and> \<not> IsTestFile s"
  shows "mset (map Sym_Node (RankSymbols srt E no_sweep now None symbols)) = mset (map In_Node symbols) \<and>
    sorted_wrt (\<lambda>a b. Sym_Score a \<ge> Sym_Score b) (RankSymbols srt E no_sweep now None symbols) \<and>
    Sym_Score ` set (RankSymbols srt E no_sweep now None symbols) \<subseteq> {-1/100<..3/2}"
proof (cases "symbols = []")
  case False
  let ?rs = "map (rank_one E no_sweep now None (max_callers symbols)) symbols"
  have eq: "RankSymbols srt E no_sweep now None symbols = srt ?rs" using False by (simp add: RankSymbols_def)
  have "map Sym_Node ?rs = map In_Node symbols" by (simp add: rank_one_def Let_def)
  then have "mset (map Sym_Node (srt ?rs)) = mset (map In_Node symbols)" using sortsD(1) [OF assms(1), of ?rs] by (metis mset_map)
  moreover have "sorted_wrt (\<lambda>a b. Sym_Score a \<ge> Sym_Score b) (srt ?rs)"
    using sortsD(2) [OF assms(1), of ?rs] by (simp add: higher_def not_less)
  moreover have "Sym_Score ` set (srt ?rs) \<subseteq> {-1/100<..3/2}"
    unfolding sorts_set [OF assms(1)] using rank_one_bounds [OF _ max_callers_bounds(2) max_callers_bounds(1)] assms(2) by fastforce
  ultimately show ?thesis by (simp only: eq)
qed (simp add: RankSymbols_def)

definition sample_input :: "rat \<Rightarrow> ScoringInput" where
  "sample_input fb = \<lparr>In_Node = sample_node, CallerCount = 3, In_Confidence = 1, In_LastObserved = 0,
     DistanceFromTarget = 1, In_BFSDistance = 1, In_RWRScore = 1, FeedbackBoost = fb, SessionBoost = 0, IsTestFile = False\<rparr>"

definition no_env :: env where
  "no_env = \<lparr>Getenv = (\<lambda>_. ''''), ParseFloat = (\<lambda>_. None)\<rparr>"

lemma RankSymbols_default_witness:
  "sorted_wrt (\<lambda>a b. Sym_Score a \<ge> Sym_Score b)
     (RankSymbols (sort_key (\<lambda>s. - Sym_Score s)) no_env no_sweep 1000 None [sample_input (1/4), sample_input 1])"
proof -
  have srt: "sorts higher (sort_key (\<lambda>s. - Sym_Score s))"
    using sorts_key [of Sym_Score] by (simp add: higher_def [abs_def])
  have "\<forall>s\<in>set [sample_input (1/4), sample_input 1]. input_ok s \<and> \<not> IsTestFile s"
    by (simp add: sample_input_def input_ok_def)
  from RankSymbols_default [OF srt this] show ?thesis by blast
qed

lemma low_boost: "0 < y \<Longrightarrow> y < 1/2 \<Longrightarrow> feedback_part (i\<lparr>FeedbackBoost := y\<rparr>) < feedback_part (i\<lparr>FeedbackBoost := 0\<rparr>)"
  by (simp add: feedback_part_def FeedbackNegWeight_def)

lemma boost_only:
  "feedback_part (i\<lparr>FeedbackBoost := y\<rparr>) < feedback_part (i\<lparr>FeedbackBoost := x\<rparr>) \<Longrightarrow> \<not> IsTestFile i \<Longrightarrow>
     Sym_Score (rank_one E p now hits m (i\<lparr>FeedbackBoost := y\<rparr>)) < Sym_Score (rank_one E p now hits m (i\<lparr>FeedbackBoost := x\<rparr>))"
  by (cases hits) (simp_all add: rank_one_def Let_def session_part_def)

lemma feedback_score_plain:
  "feedback_score sq '''' roots cluster d h =
     (let fs = filter (feedback_filter roots cluster h) (T_feedback d) in
      if fs = [] then None else Some (of_int (sum_list (map Useful fs)) / of_int (int (length fs))))"
  by (auto simp: feedback_score_def feedback_sums_def weightedFeedbackScore_def feedbackWeightMode_def Let_def)

text \<open>
  C28. A symbol that was never useful outranks one that sometimes was: a symbol \<open>h\<close> all of whose feedback
  was negative gets the boost 0, which the ranking takes for no feedback, so of two otherwise equal
  inputs it scores above a symbol \<open>g\<close> that was useful in less than half of its cases.
\<close>

theorem rejected_symbol_outranks:
  assumes "FeedbackBoosts sq '''' hashes roots cluster s = (Inr res, s')" "h \<in> set hashes" "g \<in> set hashes"
    and "filter (feedback_filter roots cluster h) (T_feedback (DB s)) \<noteq> []"
    and "\<forall>f\<in>set (T_feedback (DB s)). FB_SymbolHash f = h \<longrightarrow> Useful f = 0"
    and "0 < sum_list (map Useful (filter (feedback_filter roots cluster g) (T_feedback (DB s))))"
    and "2 * sum_list (map Useful (filter (feedback_filter roots cluster g) (T_feedback (DB s)))) <
      int (length (filter (feedback_filter roots cluster g) (T_feedback (DB s))))"
    and "\<not> IsTestFile i"
  shows "\<exists>x y. map_of res h = Some x \<and> map_of res g = Some y \<and> x < y \<and>
    Sym_Score (rank_one E p now hits m (i\<lparr>FeedbackBoost := y\<rparr>)) < Sym_Score (rank_one E p now hits m (i\<lparr>FeedbackBoost := x\<rparr>))"
proof -
  let ?fh = "filter (feedback_filter roots cluster h) (T_feedback (DB s))"
  let ?fg = "filter (feedback_filter roots cluster g) (T_feedback (DB s))"
  let ?y = "of_int (sum_list (map Useful ?fg)) / of_int (int (length ?fg)) :: rat"
  have "f \<in> set ?fh \<Longrightarrow> Useful f = 0" for f using assms(5) by (auto simp: feedback_filter_def)
  then have "map Useful ?fh = map (\<lambda>_. 0) ?fh" by (intro map_cong) simp_all
  then have "sum_list (map Useful ?fh) = sum_list (map (\<lambda>_. 0) ?fh)" by (rule arg_cong)
  also have "\<dots> = 0" by simp
  finally have "sum_list (map Useful ?fh) = 0" .
  then have x: "map_of res h = Some 0"
    using FeedbackBoosts_map(2) [OF assms(1), of h] assms(2,4) by (simp add: feedback_score_plain Let_def)
  have "?fg \<noteq> []" using assms(6) by auto
  then have y: "map_of res g = Some ?y"
    using FeedbackBoosts_map(2) [OF assms(1), of g] assms(3) by (simp add: feedback_score_plain Let_def)
  have len: "(0::rat) < of_int (int (length ?fg))" using \<open>?fg \<noteq> []\<close> by simp
  have "0 < ?y" using assms(6) len by (simp add: zero_less_divide_iff)
  moreover have "2 * of_int (sum_list (map Useful ?fg)) < (of_int (int (length ?fg)) :: rat)"
    using assms(7) by (metis of_int_less_iff of_int_mult of_int_numeral)
  then have "?y < 1/2" using len by (simp add: divide_less_eq)
  ultimately have "feedback_part (i\<lparr>FeedbackBoost := ?y\<rparr>) < feedback_part (i\<lparr>FeedbackBoost := 0\<rparr>)"
    by (rule low_boost)
  then have "Sym_Score (rank_one E p now hits m (i\<lparr>FeedbackBoost := ?y\<rparr>)) < Sym_Score (rank_one E p now hits m (i\<lparr>FeedbackBoost := 0\<rparr>))"
    by (rule boost_only) (rule assms(8))
  with x y \<open>0 < ?y\<close> show ?thesis by blast
qed

lemma FeedbackBoosts_reads: "\<exists>res. reads d (FeedbackBoosts sq env hashes roots cluster) res"
proof -
  have "\<exists>res. reads d (feedback_loop sq env roots cluster hs r) res" for hs r
  proof (induction hs arbitrary: r)
    case (Cons h hs)
    show ?case
    proof (cases "feedback_sums (feedback_filter roots cluster h) d")
      case (Pair u n)
      from Cons.IH [of "if n > 0 then gomap_set h (weightedFeedbackScore sq env u n) r else r"] show ?thesis
        unfolding feedback_loop.simps by (elim exE, intro exI) (rule reads_bind [OF reads_query], simp only: Pair case_prod_conv)
    qed
  qed (auto intro: reads_ret)
  from this [of hashes "[]"] show ?thesis
    unfolding FeedbackBoosts_def by (cases "length hashes = 0") (auto intro: reads_ret reads_bind [OF reads_query])
qed

lemma open_store_DB [simp]: "DB (open_store d faults) = d"
  by (simp add: open_store_def)

definition feedback_rows :: "hash \<Rightarrow> int list \<Rightarrow> feedback_row list" where
  "feedback_rows h us = map (\<lambda>u. \<lparr>FB_SymbolHash = h, SessionID = '''', Useful = u, FB_Timestamp = 0, NeighborhoodRoot = None,
     KeywordCluster = None\<rparr>) us"

theorem rejected_symbol_outranks_witness:
  "\<exists>res s'. FeedbackBoosts (\<lambda>x. x) '''' [7, 8] [] [] (open_store (empty_db\<lparr>T_feedback := feedback_rows 7 [0, 0] @ feedback_rows 8 [1, 0, 0]\<rparr>) []) =
     (Inr res, s') \<and>
   (\<exists>x y. map_of res 7 = Some x \<and> map_of res 8 = Some y \<and>
     Sym_Score (rank_one no_env no_sweep 9 None 3 ((sample_input 0)\<lparr>FeedbackBoost := y\<rparr>)) <
     Sym_Score (rank_one no_env no_sweep 9 None 3 ((sample_input 0)\<lparr>FeedbackBoost := x\<rparr>)))"
proof -
  let ?s = "open_store (empty_db\<lparr>T_feedback := feedback_rows 7 [0, 0] @ feedback_rows 8 [1, 0, 0]\<rparr>) []"
  have rows: "T_feedback (DB ?s) = feedback_rows 7 [0, 0] @ feedback_rows 8 [1, 0, 0]" by (simp add: open_store_def)
  have filters: "filter (feedback_filter [] [] h) (feedback_rows h' us) = (if h = h' then feedback_rows h' us else [])" for h h' us
    by (auto simp: feedback_rows_def feedback_filter_def filter_empty_conv)
  obtain res s' where run: "FeedbackBoosts (\<lambda>x. x) '''' [7, 8] [] [] ?s = (Inr res, s')"
    using FeedbackBoosts_reads [of "DB ?s" "\<lambda>x. x" "''''" "[7, 8]" "[]" "[]"] readsD [OF _ clean_open_store]
    by (metis open_store_DB)
  have "\<exists>x y. map_of res 7 = Some x \<and> map_of res 8 = Some y \<and> x < y \<and>
     Sym_Score (rank_one no_env no_sweep 9 None 3 ((sample_input 0)\<lparr>FeedbackBoost := y\<rparr>)) <
     Sym_Score (rank_one no_env no_sweep 9 None 3 ((sample_input 0)\<lparr>FeedbackBoost := x\<rparr>))"
    by (rule rejected_symbol_outranks [OF run])
       (simp_all add: rows filters, simp_all add: feedback_rows_def sample_input_def)
  with run show ?thesis by blast
qed

end
