(* ===== verification/ContextPack.thy ===== *)
theory ContextPack
  imports ContextRanking
begin

text \<open>
  internal/context: packing ranked symbols into a token budget (the three strategies of packIntoBudget),
  the fusion of ranked channels (rrfFuseMulti), the identity of a pack (computePackRoot), the
  difference of two packs (delta.go, pack_compare.go) and the reordering of candidates. \<open>math.Pow\<close>, the
  sorts and the range orders are arguments.
\<close>

section \<open>Packs\<close>

record ContextEdge =
  CE_Source :: string
  CE_Target :: string
  CE_EdgeType :: string

record ContextBlock =
  Symbols :: "RankedSymbol list"
  Edges :: "ContextEdge list"
  Format :: string
  TokensUsed :: int
  TokenBudget :: int
  PackRoot :: hash

definition new_block :: "int \<Rightarrow> string \<Rightarrow> ContextBlock" where
  "new_block budget format = \<lparr>Symbols = [], Edges = [], Format = format, TokensUsed = 0, TokenBudget = budget, PackRoot = EmptyHash\<rparr>"

record densityItem =
  di_index :: nat
  di_density :: rat
  di_cost :: int

record pack_env =
  pk_env :: env
  PackStrategy :: string
  CoherenceBonus :: rat
  math_Pow :: "rat \<Rightarrow> rat \<Rightarrow> rat"
  sort_items :: "(densityItem \<Rightarrow> densityItem \<Rightarrow> bool) \<Rightarrow> densityItem list \<Rightarrow> densityItem list"
  sort_files :: "(hash \<Rightarrow> hash \<Rightarrow> bool) \<Rightarrow> hash list \<Rightarrow> hash list"
  sort_symbols :: "RankedSymbol list \<Rightarrow> RankedSymbol list"

definition sym_cost :: "string \<Rightarrow> RankedSymbol \<Rightarrow> int" where
  "sym_cost format rsym =
     (let cost = EstimateNodeTokensForFormat (Sym_Node rsym) format in if cost < 1 then 1 else cost)"

definition is_phantom :: "node \<Rightarrow> bool" where
  "is_phantom n \<longleftrightarrow> Kind n = ''external'' \<or> strings_HasPrefix (QualifiedName n) ''external://'' \<or>
     strings_HasPrefix (QualifiedName n) ''stdlib://''"

definition phantom_ratio :: "RankedSymbol list \<Rightarrow> rat" where
  "phantom_ratio ranked =
     (let phantomCount = length (filter (\<lambda>s. is_phantom (Sym_Node s)) ranked); realCount = length ranked - phantomCount
      in if realCount > 0 then of_nat phantomCount / of_nat realCount else 0)"

definition density_item :: "pack_env \<Rightarrow> string \<Rightarrow> rat \<Rightarrow> nat \<times> RankedSymbol \<Rightarrow> densityItem" where
  "density_item E format ratio p =
     (let i = fst p; rsym = snd p; cost = sym_cost format rsym;
          proximityFactor = (if Sym_RWRScore rsym > 0
            then math_Pow E (Sym_RWRScore rsym) (adaptiveProximityExponent (pk_env E) ratio) else 1)
      in \<lparr>di_index = i, di_density = Sym_Score rsym / of_int cost * proximityFactor, di_cost = cost\<rparr>)"

definition denser :: "RankedSymbol list \<Rightarrow> densityItem \<Rightarrow> densityItem \<Rightarrow> bool" where
  "denser ranked a b =
     (if di_density a \<noteq> di_density b then di_density a > di_density b
      else Sym_Score (ranked ! di_index a) > Sym_Score (ranked ! di_index b))"

text \<open>The loop of all strategies: take what still fits.\<close>

fun greedy :: "('a \<Rightarrow> int) \<Rightarrow> int \<Rightarrow> int \<Rightarrow> 'a list \<Rightarrow> 'a list \<times> int" where
  "greedy cost budget used [] = ([], used)"
| "greedy cost budget used (x # xs) =
     (if used + cost x > budget then greedy cost budget used xs
      else case greedy cost budget (used + cost x) xs of (ys, u) \<Rightarrow> (x # ys, u))"

text \<open>
  The loop with a coherence bonus. The search for the best item that is not packed and fits starts
  with the density -1 and keeps the first of equal ones.
\<close>

record coherent =
  co_packed :: "nat list"
  co_files :: "hash set"
  co_used :: int

definition file_of :: "RankedSymbol list \<Rightarrow> densityItem \<Rightarrow> hash" where
  "file_of ranked item = Node_FileHash (Sym_Node (ranked ! di_index item))"

definition boosted :: "pack_env \<Rightarrow> RankedSymbol list \<Rightarrow> hash set \<Rightarrow> densityItem \<Rightarrow> rat" where
  "boosted E ranked files item =
     (if file_of ranked item \<in> files then di_density item * (1 + CoherenceBonus E) else di_density item)"

definition better_item ::
  "pack_env \<Rightarrow> RankedSymbol list \<Rightarrow> int \<Rightarrow> coherent \<Rightarrow> nat \<times> densityItem \<Rightarrow> (nat \<times> rat) option \<Rightarrow> (nat \<times> rat) option" where
  "better_item E ranked budget st p best =
     (if fst p \<in> set (co_packed st) \<or> co_used st + di_cost (snd p) > budget then best
      else
        let d = boosted E ranked (co_files st) (snd p);
            bestDensity = (case best of None \<Rightarrow> -1 | Some (i, d) \<Rightarrow> d)
        in if d > bestDensity then Some (fst p, d) else best)"

primrec coherent_loop :: "pack_env \<Rightarrow> RankedSymbol list \<Rightarrow> int \<Rightarrow> densityItem list \<Rightarrow> nat \<Rightarrow> coherent \<Rightarrow> coherent" where
  "coherent_loop E ranked budget items 0 st = st"
| "coherent_loop E ranked budget items (Suc n) st =
     (case fold (better_item E ranked budget st) (enumerate 0 items) None of
        None \<Rightarrow> st
      | Some (i, d) \<Rightarrow>
          coherent_loop E ranked budget items n
            \<lparr>co_packed = co_packed st @ [i], co_files = insert (file_of ranked (items ! i)) (co_files st),
             co_used = co_used st + di_cost (items ! i)\<rparr>)"

definition pack_density :: "pack_env \<Rightarrow> RankedSymbol list \<Rightarrow> int \<Rightarrow> string \<Rightarrow> RankedSymbol list \<times> int" where
  "pack_density E ranked budget format =
     (let items = sort_items E (denser ranked) (map (density_item E format (phantom_ratio ranked)) (enumerate 0 ranked))
      in if CoherenceBonus E > 0 then
           (let st = coherent_loop E ranked budget items (length items) \<lparr>co_packed = [], co_files = {}, co_used = 0\<rparr>
            in (map (\<lambda>i. ranked ! di_index (items ! i)) (co_packed st), co_used st))
         else (case greedy di_cost budget 0 items of (picked, used) \<Rightarrow> (map (\<lambda>it. ranked ! di_index it) picked, used)))"

record fileGroup =
  fg_symbols :: "RankedSymbol list"
  fg_totalScore :: rat
  fg_totalCost :: int

definition group_at :: "(hash, fileGroup) gomap \<Rightarrow> hash \<Rightarrow> fileGroup" where
  "group_at groups h = (case map_of groups h of Some g \<Rightarrow> g | None \<Rightarrow> \<lparr>fg_symbols = [], fg_totalScore = 0, fg_totalCost = 0\<rparr>)"

definition group_symbol :: "string \<Rightarrow> RankedSymbol \<Rightarrow> (hash, fileGroup) gomap \<times> hash list \<Rightarrow> (hash, fileGroup) gomap \<times> hash list" where
  "group_symbol format rsym st =
     (let fh = Node_FileHash (Sym_Node rsym); g = group_at (fst st) fh
      in (gomap_set fh \<lparr>fg_symbols = fg_symbols g @ [rsym], fg_totalScore = fg_totalScore g + Sym_Score rsym,
                        fg_totalCost = fg_totalCost g + sym_cost format rsym\<rparr> (fst st),
          if fh \<in> fst ` set (fst st) then snd st else snd st @ [fh]))"

definition denser_file :: "(hash, fileGroup) gomap \<Rightarrow> hash \<Rightarrow> hash \<Rightarrow> bool" where
  "denser_file groups a b \<longleftrightarrow>
     fg_totalScore (group_at groups a) / of_int (fg_totalCost (group_at groups a)) >
     fg_totalScore (group_at groups b) / of_int (fg_totalCost (group_at groups b))"

definition pack_group :: "string \<Rightarrow> int \<Rightarrow> fileGroup \<Rightarrow> RankedSymbol list \<times> int \<Rightarrow> RankedSymbol list \<times> int" where
  "pack_group format budget g st =
     (if snd st + fg_totalCost g \<le> budget then (fst st @ fg_symbols g, snd st + fg_totalCost g)
      else case greedy (sym_cost format) budget (snd st) (fg_symbols g) of (ys, u) \<Rightarrow> (fst st @ ys, u))"

definition packFileGrouped :: "pack_env \<Rightarrow> RankedSymbol list \<Rightarrow> int \<Rightarrow> string \<Rightarrow> ContextBlock" where
  "packFileGrouped E ranked budget format =
     (case fold (group_symbol format) ranked ([], []) of (groups, order) \<Rightarrow>
      case fold (\<lambda>fh. pack_group format budget (group_at groups fh)) (sort_files E (denser_file groups) order) ([], 0) of
        (syms, used) \<Rightarrow> (new_block budget format)\<lparr>Symbols := sort_symbols E syms, TokensUsed := used\<rparr>)"

definition packTopK :: "RankedSymbol list \<Rightarrow> int \<Rightarrow> string \<Rightarrow> ContextBlock" where
  "packTopK ranked budget format =
     (case greedy (sym_cost format) budget 0 ranked of
        (syms, used) \<Rightarrow> (new_block budget format)\<lparr>Symbols := syms, TokensUsed := used\<rparr>)"

definition packIntoBudget :: "pack_env \<Rightarrow> RankedSymbol list \<Rightarrow> int \<Rightarrow> string \<Rightarrow> ContextBlock" where
  "packIntoBudget E ranked budget format =
     (if length ranked = 0 then new_block budget format
      else
        let strategy = packStrategy (pk_env E) (PackStrategy E) in
        if strategy = ''file-grouped'' then packFileGrouped E ranked budget format
        else if strategy = ''top-k'' then packTopK ranked budget format
        else
          (case pack_density E ranked budget format of
             (syms, used) \<Rightarrow> (new_block budget format)\<lparr>Symbols := sort_symbols E syms, TokensUsed := used\<rparr>))"

section \<open>Fusion of channels\<close>

record rankedChannel =
  ch_nodes :: "node list"
  ch_weight :: rat

definition add_rank :: "rat \<Rightarrow> int \<Rightarrow> nat \<times> node \<Rightarrow> (hash, node \<times> rat) gomap \<Rightarrow> (hash, node \<times> rat) gomap" where
  "add_rank weight k p scores =
     (let (n, s) = (case map_of scores (NodeHash (snd p)) of Some x \<Rightarrow> x | None \<Rightarrow> (snd p, 0))
      in gomap_set (NodeHash (snd p)) (n, s + weight / of_int (k + int (fst p) + 1)) scores)"

definition fuse_channel :: "int \<Rightarrow> rankedChannel \<Rightarrow> (hash, node \<times> rat) gomap \<Rightarrow> (hash, node \<times> rat) gomap" where
  "fuse_channel k ch scores =
     (if ch_weight ch = 0 \<or> length (ch_nodes ch) = 0 then scores
      else fold (add_rank (ch_weight ch) k) (enumerate 0 (ch_nodes ch)) scores)"

text \<open>\<open>srt\<close> takes the entries in any order; a negative limit would panic and has no value here.\<close>

definition rrfFuseMulti :: "((node \<times> rat) list \<Rightarrow> (node \<times> rat) list) \<Rightarrow> rankedChannel list \<Rightarrow> int \<Rightarrow> nat \<Rightarrow> node list" where
  "rrfFuseMulti srt channels k limit =
     (let results = srt (map snd (fold (fuse_channel k) channels [])) in
      map fst (if length results > limit then take limit results else results))"

section \<open>Identity of a pack\<close>

definition computePackRoot :: "sha \<Rightarrow> string \<Rightarrow> RankedSymbol list \<Rightarrow> hash" where
  "computePackRoot H task symbols =
     H (strings_ToLower (strings_TrimSpace task) @
        concat (map hash_bytes (sort (map (\<lambda>s. NodeHash (Sym_Node s)) symbols))))"

section \<open>Differences of packs\<close>

record DeltaPack =
  BaseRoot :: hash
  NewRoot :: hash
  Removed :: "RankedSymbol list"
  Added :: "RankedSymbol list"
  Unchanged :: "RankedSymbol list"
  RemovedEdges :: "ContextEdge list"
  AddedEdges :: "ContextEdge list"
  DeltaTokens :: int
  FullTokens :: int

definition estimatePackTokens :: "RankedSymbol list \<Rightarrow> ContextEdge list \<Rightarrow> string \<Rightarrow> int" where
  "estimatePackTokens symbols edges format =
     10 + sum_list (map (\<lambda>s. EstimateNodeTokensForFormat (Sym_Node s) format) symbols) + int (length edges) * 5"

definition estimateDeltaTokens :: "DeltaPack \<Rightarrow> string \<Rightarrow> int" where
  "estimateDeltaTokens d format =
     15 + sum_list (map (\<lambda>s. EstimateNodeTokensForFormat (Sym_Node s) format) (Added d)) + int (length (Removed d)) * 8 +
     int (length (AddedEdges d)) * 5 + int (length (RemovedEdges d)) * 5"

definition symbol_map :: "RankedSymbol list \<Rightarrow> (hash, RankedSymbol) gomap" where
  "symbol_map symbols = fold (\<lambda>s. gomap_set (NodeHash (Sym_Node s)) s) symbols []"

definition edge_map :: "ContextEdge list \<Rightarrow> (string \<times> string \<times> string, ContextEdge) gomap" where
  "edge_map edges = fold (\<lambda>e. gomap_set (CE_Source e, CE_Target e, CE_EdgeType e) e) edges []"

record delta_ranges =
  range_symbols :: "(hash, RankedSymbol) gomap \<Rightarrow> (hash, RankedSymbol) gomap"
  range_edges :: "(string \<times> string \<times> string, ContextEdge) gomap \<Rightarrow> (string \<times> string \<times> string, ContextEdge) gomap"

definition entries_without :: "('k \<times> 'v) list \<Rightarrow> ('k, 'w) gomap \<Rightarrow> 'v list" where
  "entries_without entries m = map snd (filter (\<lambda>p. fst p \<notin> fst ` set m) entries)"

definition DiffPacks :: "delta_ranges \<Rightarrow> ContextBlock \<Rightarrow> ContextBlock \<Rightarrow> string \<Rightarrow> DeltaPack" where
  "DiffPacks R prior current format =
     (let priorSet = symbol_map (Symbols prior); currentSet = symbol_map (Symbols current);
          priorEdges = edge_map (Edges prior); currentEdges = edge_map (Edges current);
          delta = \<lparr>BaseRoot = PackRoot prior, NewRoot = PackRoot current,
            Removed = entries_without (range_symbols R priorSet) currentSet,
            Added = entries_without (range_symbols R currentSet) priorSet,
            Unchanged = map snd (filter (\<lambda>p. fst p \<in> fst ` set priorSet) (range_symbols R currentSet)),
            RemovedEdges = entries_without (range_edges R priorEdges) currentEdges,
            AddedEdges = entries_without (range_edges R currentEdges) priorEdges,
            DeltaTokens = 0, FullTokens = estimatePackTokens (Symbols current) (Edges current) format\<rparr>
      in delta\<lparr>DeltaTokens := estimateDeltaTokens delta format\<rparr>)"

definition IsWorthIt :: "DeltaPack \<Rightarrow> bool" where
  "IsWorthIt d = (if FullTokens d = 0 then False else of_int (DeltaTokens d) < (6/10 :: rat) * of_int (FullTokens d))"

definition SavingsPercent :: "DeltaPack \<Rightarrow> rat" where
  "SavingsPercent d = (if FullTokens d = 0 then 0 else 100 * (1 - of_int (DeltaTokens d) / of_int (FullTokens d)))"

definition SymbolOverlapPercent :: "DeltaPack \<Rightarrow> rat" where
  "SymbolOverlapPercent d =
     (let total = length (Unchanged d) + length (Added d) in
      if total = 0 then 0 else 100 * of_nat (length (Unchanged d)) / of_nat total)"

record PackDiff =
  OldPackRoot :: hash
  NewPackRoot :: hash
  AddedSymbols :: "string list"
  RemovedSymbols :: "string list"
  CommonSymbols :: "string list"
  Identical :: bool

definition symbol_names :: "ContextBlock \<Rightarrow> string list" where
  "symbol_names b = remdups (map (\<lambda>s. QualifiedName (Sym_Node s)) (Symbols b))"

definition CompareContextPacks :: "(string list \<Rightarrow> string list) \<Rightarrow> ContextBlock \<Rightarrow> ContextBlock \<Rightarrow> PackDiff" where
  "CompareContextPacks range_names old new =
     (let oldSet = symbol_names old; newSet = symbol_names new;
          added = filter (\<lambda>n. n \<notin> set oldSet) (range_names newSet);
          removed = filter (\<lambda>n. n \<notin> set newSet) (range_names oldSet)
      in \<lparr>OldPackRoot = PackRoot old, NewPackRoot = PackRoot new, AddedSymbols = added, RemovedSymbols = removed,
          CommonSymbols = filter (\<lambda>n. n \<in> set oldSet) (range_names newSet),
          Identical = (length added = 0 \<and> length removed = 0)\<rparr>)"

section \<open>Reordering candidates\<close>

definition filterByRepoPrefix :: "node list \<Rightarrow> string \<Rightarrow> node list" where
  "filterByRepoPrefix nodes pre = filter (\<lambda>n. strings_HasPrefix (QualifiedName n) pre) nodes"

definition path_score :: "string list \<Rightarrow> node \<Rightarrow> nat" where
  "path_score pathTerms c =
     length (filter (\<lambda>term. strings_Contains (strings_ToLower (QualifiedName c)) (strings_ToLower term)) pathTerms)"

definition boostByPathMatch :: "node list \<Rightarrow> string list \<Rightarrow> node list" where
  "boostByPathMatch candidates pathTerms =
     (if length pathTerms = 0 then candidates else sort_key (\<lambda>c. - int (path_score pathTerms c)) candidates)"

definition qualifiedNamePkg :: "string \<Rightarrow> string" where
  "qualifiedNamePkg qn =
     (case strings_Index qn ''://'' of
        None \<Rightarrow> ''''
      | Some idx \<Rightarrow>
          let path = drop (idx + 3) qn;
              pkgParts = takeWhile (\<lambda>p. \<not> is_upper (hd p)) (filter (\<lambda>p. length p \<noteq> 0) (split_on CHR ''.'' path))
          in if length pkgParts = 0 then path else strings_Join pkgParts ''.'')"

text \<open>The candidate whose package's count first exceeds the best one so far.\<close>

definition count_pkg :: "node \<Rightarrow> (string, nat) gomap \<times> string \<times> nat \<Rightarrow> (string, nat) gomap \<times> string \<times> nat" where
  "count_pkg c st =
     (case st of (counts, best, bestN) \<Rightarrow>
        let pkg = qualifiedNamePkg (QualifiedName c); n = (case map_of counts pkg of Some n \<Rightarrow> n | None \<Rightarrow> 0) + 1
        in (gomap_set pkg n counts, if n > bestN then (pkg, n) else (best, bestN)))"

definition dominantPkg :: "node list \<Rightarrow> string" where
  "dominantPkg candidates =
     (case fold count_pkg candidates ([], '''', 0) of (_, best, bestN) \<Rightarrow> if bestN < 2 then '''' else best)"

definition pkg_of :: "node \<Rightarrow> string" where
  "pkg_of c = qualifiedNamePkg (QualifiedName c)"

text \<open>The largest cluster, the first of equal ones in order of appearance, goes to the front.\<close>

definition larger_cluster :: "node list \<Rightarrow> string \<Rightarrow> string \<times> nat \<Rightarrow> string \<times> nat" where
  "larger_cluster candidates pkg best =
     (let size = length (filter (\<lambda>c. pkg_of c = pkg) candidates) in if size > snd best then (pkg, size) else best)"

definition focusedSeedSelect :: "node list \<Rightarrow> node list" where
  "focusedSeedSelect candidates =
     (case fold (larger_cluster candidates) (rev (remdups (rev (map pkg_of candidates)))) ('''', 0) of
        (bestPkg, bestSize) \<Rightarrow>
          if bestSize < 2 then candidates
          else filter (\<lambda>c. pkg_of c = bestPkg) candidates @ filter (\<lambda>c. pkg_of c \<noteq> bestPkg) candidates)"

section \<open>Packing within a budget\<close>

text \<open>
  What a packing owes: it takes symbols of the input, accounts their costs, keeps the budget, and leaves
  out only what does not fit any more.
\<close>

definition packed_within :: "('a \<Rightarrow> int) \<Rightarrow> int \<Rightarrow> 'a list \<Rightarrow> 'a list \<Rightarrow> int \<Rightarrow> bool" where
  "packed_within cost budget xs ys used \<longleftrightarrow>
     mset ys \<subseteq># mset xs \<and> used = sum_list (map cost ys) \<and> used \<le> budget \<and>
     (\<forall>x\<in>#mset xs - mset ys. budget < used + cost x)"

locale budget_packing =
  fixes cost :: "'a \<Rightarrow> int"
  assumes cost_nonneg: "0 \<le> cost x"
begin

lemma greedy_used: "greedy cost budget used xs = (ys, u) \<Longrightarrow> used \<le> u \<and> u = used + sum_list (map cost ys)"
proof (induction xs arbitrary: used ys)
  case (Cons x xs)
  with cost_nonneg [of x] show ?case by (fastforce split: if_splits prod.splits)
qed simp

lemma greedy_subset: "greedy cost budget used xs = (ys, u) \<Longrightarrow> mset ys \<subseteq># mset xs"
  by (induction xs arbitrary: used ys) (fastforce split: if_splits prod.splits intro: subset_mset.order_trans)+

lemma greedy_budget: "greedy cost budget used xs = (ys, u) \<Longrightarrow> used \<le> budget \<Longrightarrow> u \<le> budget"
  by (induction xs arbitrary: used ys) (fastforce split: if_splits prod.splits)+

lemma greedy_maximal: "greedy cost budget used xs = (ys, u) \<Longrightarrow> x \<in># mset xs - mset ys \<Longrightarrow> budget < u + cost x"
proof (induction xs arbitrary: used ys)
  case (Cons a xs)
  show ?case
  proof (cases "used + cost a > budget")
    case True
    with Cons.prems have run: "greedy cost budget used xs = (ys, u)" by simp
    have "mset (a # xs) - mset ys = add_mset a (mset xs - mset ys)"
      using multiset_diff_union_assoc [OF greedy_subset [OF run], of "{#a#}"] by simp
    then consider "x = a" | "x \<in># mset xs - mset ys" using Cons.prems(2) by auto
    then show ?thesis using Cons.IH [OF run] greedy_used [OF run] True by cases simp_all
  next
    case False
    then obtain zs where "greedy cost budget (used + cost a) xs = (zs, u)" "ys = a # zs"
      using Cons.prems(1) by (auto split: prod.splits)
    then show ?thesis using Cons.IH [of "used + cost a" zs] Cons.prems(2) by simp
  qed
qed simp

theorem greedy_packed:
  "greedy cost budget 0 xs = (ys, u) \<Longrightarrow> 0 \<le> budget \<Longrightarrow> packed_within cost budget xs ys u"
  using greedy_subset greedy_used greedy_budget greedy_maximal unfolding packed_within_def by fastforce

lemma greedy_append:
  "greedy cost budget used (xs @ ys) =
     (case greedy cost budget used xs of (as, u) \<Rightarrow> case greedy cost budget u ys of (bs, v) \<Rightarrow> (as @ bs, v))"
  by (induction xs arbitrary: used) (auto split: prod.splits)

lemma greedy_all: "used + sum_list (map cost xs) \<le> budget \<Longrightarrow> greedy cost budget used xs = (xs, used + sum_list (map cost xs))"
proof (induction xs arbitrary: used)
  case (Cons x xs)
  have "0 \<le> sum_list (map cost xs)" by (intro sum_list_nonneg) (auto simp: cost_nonneg)
  with Cons show ?case by (simp add: add.assoc)
qed simp

end

lemma greedy_map:
  "(\<And>x. x \<in> set xs \<Longrightarrow> cost' (f x) = cost x) \<Longrightarrow>
     greedy cost' budget used (map f xs) = (case greedy cost budget used xs of (ys, u) \<Rightarrow> (map f ys, u))"
  by (induction xs arbitrary: used) (auto split: prod.splits)

interpretation sym: budget_packing "sym_cost format" for format
  by unfold_locales (simp add: sym_cost_def Let_def)

lemma packed_within_perm: "mset xs = mset xs' \<Longrightarrow> packed_within cost budget xs ys u \<Longrightarrow> packed_within cost budget xs' ys u"
  unfolding packed_within_def by metis

lemma packed_within_sorted: "mset ys = mset ys' \<Longrightarrow> packed_within cost budget xs ys u \<Longrightarrow> packed_within cost budget xs ys' u"
  unfolding packed_within_def by (metis mset_map sum_mset_sum_list)

section \<open>Packing by density\<close>

definition density_items :: "pack_env \<Rightarrow> RankedSymbol list \<Rightarrow> string \<Rightarrow> densityItem list" where
  "density_items E ranked format =
     sort_items E (denser ranked) (map (density_item E format (phantom_ratio ranked)) (enumerate 0 ranked))"

abbreviation item_symbol :: "RankedSymbol list \<Rightarrow> densityItem \<Rightarrow> RankedSymbol" where
  "item_symbol ranked it \<equiv> ranked ! di_index it"

lemma density_items:
  assumes "sorts (denser ranked) (sort_items E (denser ranked))"
  shows "mset (map (item_symbol ranked) (density_items E ranked format)) = mset ranked"
    and "it \<in> set (density_items E ranked format) \<Longrightarrow> di_cost it = sym_cost format (item_symbol ranked it)"
    and "it \<in> set (density_items E ranked format) \<Longrightarrow> \<exists>s\<in>set ranked. it = density_item E format (phantom_ratio ranked) (di_index it, s)"
proof -
  let ?raw = "map (density_item E format (phantom_ratio ranked)) (enumerate 0 ranked)"
  have raw: "map (item_symbol ranked) ?raw = ranked"
    by (rule nth_equalityI) (simp_all add: density_item_def Let_def nth_enumerate_eq)
  have perm: "mset (density_items E ranked format) = mset ?raw"
    unfolding density_items_def by (rule sortsD(1) [OF assms])
  then show "mset (map (item_symbol ranked) (density_items E ranked format)) = mset ranked"
    by (metis mset_map raw)
  assume "it \<in> set (density_items E ranked format)"
  then have "it \<in> set ?raw" using perm by (metis set_mset_mset)
  then obtain i where i: "i < length ranked" "it = density_item E format (phantom_ratio ranked) (i, ranked ! i)"
    by (auto simp: set_conv_nth nth_enumerate_eq)
  then show "di_cost it = sym_cost format (item_symbol ranked it)" by (simp add: density_item_def Let_def)
  from i show "\<exists>s\<in>set ranked. it = density_item E format (phantom_ratio ranked) (di_index it, s)"
    by (intro bexI [of _ "ranked ! i"]) (simp_all add: density_item_def Let_def)
qed

text \<open>The loop with the coherence bonus.\<close>

definition coherent_ok :: "int \<Rightarrow> densityItem list \<Rightarrow> coherent \<Rightarrow> bool" where
  "coherent_ok budget items st \<longleftrightarrow>
     distinct (co_packed st) \<and> set (co_packed st) \<subseteq> {..<length items} \<and>
     co_used st = sum_list (map (\<lambda>i. di_cost (items ! i)) (co_packed st)) \<and> co_used st \<le> budget"

definition skipped :: "int \<Rightarrow> coherent \<Rightarrow> nat \<times> densityItem \<Rightarrow> bool" where
  "skipped budget st p \<longleftrightarrow> fst p \<in> set (co_packed st) \<or> co_used st + di_cost (snd p) > budget"

lemma fold_better_None:
  "fold (better_item E ranked budget st) ps best = None \<Longrightarrow>
     best = None \<and> (\<forall>p\<in>set ps. skipped budget st p \<or> boosted E ranked (co_files st) (snd p) \<le> -1)"
proof (induction ps arbitrary: best)
  case (Cons p ps)
  from Cons.prems have "better_item E ranked budget st p best = None \<and> (\<forall>p\<in>set ps. skipped budget st p \<or> boosted E ranked (co_files st) (snd p) \<le> -1)"
    using Cons.IH by simp
  then show ?case by (auto simp: better_item_def skipped_def Let_def split: if_splits)
qed simp

lemma fold_better_Some:
  "fold (better_item E ranked budget st) ps best = Some (i, d) \<Longrightarrow>
     best = Some (i, d) \<or> (\<exists>it. (i, it) \<in> set ps \<and> \<not> skipped budget st (i, it))"
proof (induction ps arbitrary: best)
  case (Cons p ps)
  from Cons.prems have "better_item E ranked budget st p best = Some (i, d) \<or> (\<exists>it. (i, it) \<in> set ps \<and> \<not> skipped budget st (i, it))"
    using Cons.IH by simp
  then show ?case by (cases p) (auto simp: better_item_def skipped_def Let_def split: if_splits)
qed simp

lemma coherent_loop_ok:
  assumes "coherent_ok budget items st" "length items \<le> length (co_packed st) + n"
    and pos: "\<And>files it. it \<in> set items \<Longrightarrow> -1 < boosted E ranked files it"
  shows "coherent_ok budget items (coherent_loop E ranked budget items n st) \<and>
    (\<forall>i<length items. i \<in> set (co_packed (coherent_loop E ranked budget items n st)) \<or>
       budget < co_used (coherent_loop E ranked budget items n st) + di_cost (items ! i))"
  using assms(1,2)
proof (induction n arbitrary: st)
  case 0
  then have "card (set (co_packed st)) \<ge> card {..<length items}" by (simp add: coherent_ok_def distinct_card)
  then have "set (co_packed st) = {..<length items}" using 0 by (intro card_seteq) (simp_all add: coherent_ok_def)
  with 0 show ?case by auto
next
  case (Suc n)
  show ?case
  proof (cases "fold (better_item E ranked budget st) (enumerate 0 items) None")
    case None
    have "i \<in> set (co_packed st) \<or> budget < co_used st + di_cost (items ! i)" if "i < length items" for i
    proof -
      have "(i, items ! i) \<in> set (enumerate 0 items)" using that by (simp add: in_set_enumerate_eq)
      with fold_better_None [OF None] pos [of "items ! i" "co_files st"] that show ?thesis
        by (force simp: skipped_def)
    qed
    with None Suc.prems show ?thesis by simp
  next
    case (Some p)
    obtain i d where p: "p = (i, d)" by force
    from fold_better_Some [OF Some [unfolded p]] have i: "i < length items" "i \<notin> set (co_packed st)" "co_used st + di_cost (items ! i) \<le> budget"
      by (auto simp: in_set_enumerate_eq skipped_def)
    let ?st = "\<lparr>co_packed = co_packed st @ [i], co_files = insert (file_of ranked (items ! i)) (co_files st),
             co_used = co_used st + di_cost (items ! i)\<rparr>"
    have "coherent_ok budget items ?st" using Suc.prems(1) i by (auto simp: coherent_ok_def)
    from Suc.IH [OF this] Suc.prems(2) Some show ?thesis by (simp add: p)
  qed
qed

lemma positions_packed:
  assumes "distinct is" "set is \<subseteq> {..<length xs}" "used = sum_list (map (\<lambda>i. cost (xs ! i)) is)" "used \<le> budget"
    and "\<And>i. i < length xs \<Longrightarrow> i \<in> set is \<or> budget < used + cost (xs ! i)"
  shows "packed_within cost budget xs (map (\<lambda>i. xs ! i) is) used"
proof -
  let ?rest = "filter (\<lambda>i. i \<notin> set is) [0..<length xs]"
  have "mset [0..<length xs] = mset (filter (\<lambda>i. i \<in> set is) [0..<length xs]) + mset ?rest"
    unfolding mset_filter by (rule multiset_partition)
  moreover have "mset (filter (\<lambda>i. i \<in> set is) [0..<length xs]) = mset is"
    using assms(1,2) by (intro set_eq_iff_mset_eq_distinct [THEN iffD1]) auto
  ultimately have "mset [0..<length xs] = mset is + mset ?rest" by simp
  then have "mset (map (\<lambda>i. xs ! i) [0..<length xs]) = mset (map (\<lambda>i. xs ! i) is) + mset (map (\<lambda>i. xs ! i) ?rest)"
    by (metis image_mset_union mset_map)
  then have split: "mset xs = mset (map (\<lambda>i. xs ! i) is) + mset (map (\<lambda>i. xs ! i) ?rest)" by (simp add: map_nth)
  then have rest: "mset xs - mset (map (\<lambda>i. xs ! i) is) = mset (map (\<lambda>i. xs ! i) ?rest)" by simp
  show ?thesis
    unfolding packed_within_def rest
    using split assms(3-5) by (auto simp: comp_def)
qed

lemma map_packed:
  assumes "packed_within c budget xs ys used" "\<And>x. x \<in> set xs \<Longrightarrow> cost (f x) = c x"
  shows "packed_within cost budget (map f xs) (map f ys) used"
proof -
  from assms(1) have sub: "mset ys \<subseteq># mset xs" by (simp add: packed_within_def)
  then have mem: "x \<in> set ys \<Longrightarrow> x \<in> set xs" "x \<in># mset xs - mset ys \<Longrightarrow> x \<in> set xs" for x
    by (auto dest: mset_subset_eqD in_diffD)
  then have "sum_list (map cost (map f ys)) = sum_list (map c ys)"
    by (auto simp: assms(2) comp_def intro!: arg_cong [where f = sum_list] map_cong)
  moreover have "mset (map f xs) - mset (map f ys) = image_mset f (mset xs - mset ys)"
    using sub by (simp add: image_mset_Diff)
  ultimately show ?thesis
    using assms mem(2) sub unfolding packed_within_def by (auto simp: image_mset_subseteq_mono)
qed

text \<open>
  What the coherence bonus needs: the scores are not negative and neither is a power of a positive
  base (the only one the code takes), so no density is below the start of the search.
\<close>

definition nonneg_scores :: "RankedSymbol list \<Rightarrow> bool" where
  "nonneg_scores ranked \<longleftrightarrow> (\<forall>s\<in>set ranked. 0 \<le> Sym_Score s)"

definition pow_nonneg :: "(rat \<Rightarrow> rat \<Rightarrow> rat) \<Rightarrow> bool" where
  "pow_nonneg pow \<longleftrightarrow> (\<forall>x y. 0 < x \<longrightarrow> 0 \<le> pow x y)"

lemma boosted_nonneg:
  assumes "sorts (denser ranked) (sort_items E (denser ranked))" "nonneg_scores ranked" "pow_nonneg (math_Pow E)" "CoherenceBonus E > 0"
    and "it \<in> set (density_items E ranked format)"
  shows "0 \<le> boosted E ranked files it"
proof -
  from density_items(3) [OF assms(1,5)] obtain s where s: "s \<in> set ranked" "it = density_item E format (phantom_ratio ranked) (di_index it, s)"
    by blast
  have "1 \<le> sym_cost format s" by (simp add: sym_cost_def Let_def)
  with s(1) assms(2,3) have "0 \<le> di_density (density_item E format (phantom_ratio ranked) (di_index it, s))"
    by (simp add: density_item_def Let_def nonneg_scores_def pow_nonneg_def)
  then have "0 \<le> di_density it" using s(2) by simp
  with assms(4) show ?thesis by (simp add: boosted_def)
qed

lemma pack_density_within:
  assumes srt: "sorts (denser ranked) (sort_items E (denser ranked))" and "0 \<le> budget"
    and "CoherenceBonus E > 0 \<Longrightarrow> nonneg_scores ranked" "pow_nonneg (math_Pow E)"
    and run: "pack_density E ranked budget format = (syms, used)"
  shows "packed_within (sym_cost format) budget ranked syms used"
proof -
  let ?items = "density_items E ranked format"
  have perm: "mset (map (item_symbol ranked) ?items) = mset ranked" by (rule density_items(1) [OF srt])
  have cost: "it \<in> set ?items \<Longrightarrow> sym_cost format (item_symbol ranked it) = di_cost it" for it
    using density_items(2) [OF srt] by simp
  have "packed_within (sym_cost format) budget (map (item_symbol ranked) ?items) syms used"
  proof (cases "CoherenceBonus E > 0")
    case True
    let ?st = "coherent_loop E ranked budget ?items (length ?items) \<lparr>co_packed = [], co_files = {}, co_used = 0\<rparr>"
    have start: "coherent_ok budget ?items \<lparr>co_packed = [], co_files = {}, co_used = 0\<rparr>" using assms(2) by (simp add: coherent_ok_def)
    have "-1 < boosted E ranked files it" if "it \<in> set ?items" for files it
      using boosted_nonneg [OF srt assms(3) [OF True] assms(4) True that, of files] by linarith
    from coherent_loop_ok [OF start _ this, of "length ?items"]
    have loop: "coherent_ok budget ?items ?st" "\<forall>i<length ?items. i \<in> set (co_packed ?st) \<or> budget < co_used ?st + di_cost (?items ! i)"
      by simp_all
    from run True have res: "syms = map (item_symbol ranked) (map (\<lambda>i. ?items ! i) (co_packed ?st))" "used = co_used ?st"
      by (simp_all add: pack_density_def density_items_def Let_def comp_def)
    have "packed_within di_cost budget ?items (map (\<lambda>i. ?items ! i) (co_packed ?st)) (co_used ?st)"
      using loop by (intro positions_packed) (auto simp: coherent_ok_def)
    then show ?thesis unfolding res by (rule map_packed) (rule cost)
  next
    case False
    with run have "greedy (sym_cost format) budget 0 (map (item_symbol ranked) ?items) = (syms, used)"
      using greedy_map [of ?items "sym_cost format" "item_symbol ranked" di_cost budget 0, OF cost]
      by (simp add: pack_density_def density_items_def Let_def split: prod.splits)
    then show ?thesis by (rule sym.greedy_packed) (rule assms(2))
  qed
  then show ?thesis by (rule packed_within_perm [OF perm])
qed

section \<open>Packing by file\<close>

abbreviation sym_file :: "RankedSymbol \<Rightarrow> hash" where
  "sym_file s \<equiv> Node_FileHash (Sym_Node s)"

definition grouped :: "string \<Rightarrow> RankedSymbol list \<Rightarrow> (hash, fileGroup) gomap \<times> hash list \<Rightarrow> bool" where
  "grouped format xs st \<longleftrightarrow>
     distinct (snd st) \<and> set (snd st) = fst ` set (fst st) \<and> set (snd st) = sym_file ` set xs \<and>
     (\<forall>h. fg_symbols (group_at (fst st) h) = filter (\<lambda>s. sym_file s = h) xs \<and>
          fg_totalCost (group_at (fst st) h) = sum_list (map (sym_cost format) (filter (\<lambda>s. sym_file s = h) xs)))"

lemma grouped_step: "grouped format xs st \<Longrightarrow> grouped format (xs @ [s]) (group_symbol format s st)"
  unfolding grouped_def group_symbol_def Let_def
  by (auto simp: keys_gomap_set group_at_def split: option.splits)

lemma grouped_all: "grouped format ranked (fold (group_symbol format) ranked ([], []))"
proof -
  have "grouped format xs st \<Longrightarrow> grouped format (xs @ ys) (fold (group_symbol format) ys st)" for xs ys st
  proof (induction ys arbitrary: xs st)
    case (Cons y ys)
    from Cons.IH [OF grouped_step [OF Cons.prems]] show ?case by simp
  qed simp
  moreover have "grouped format [] ([], [])" by (simp add: grouped_def group_at_def)
  ultimately show ?thesis by (metis append_Nil)
qed

lemma mset_by_file:
  "distinct order \<Longrightarrow> f ` set xs \<subseteq> set order \<Longrightarrow> mset (concat (map (\<lambda>h. filter (\<lambda>x. f x = h) xs) order)) = mset xs"
proof (induction xs)
  case (Cons x xs)
  have one: "mset (concat (map (\<lambda>h. if f x = h then x # g h else g h) hs)) =
      (if f x \<in> set hs then add_mset x (mset (concat (map g hs))) else mset (concat (map g hs)))" if "distinct hs" for hs g
    using that by (induction hs) auto
  from Cons show ?case by (simp add: one)
qed simp

lemma pack_group_greedy:
  "fg_totalCost g = sum_list (map (sym_cost format) (fg_symbols g)) \<Longrightarrow>
     pack_group format budget g (as, used) = (case greedy (sym_cost format) budget used (fg_symbols g) of (ys, u) \<Rightarrow> (as @ ys, u))"
  by (simp add: pack_group_def sym.greedy_all)

lemma pack_groups_greedy:
  assumes "\<And>h. fg_totalCost (group_at groups h) = sum_list (map (sym_cost format) (fg_symbols (group_at groups h)))"
  shows "fold (\<lambda>fh. pack_group format budget (group_at groups fh)) order (as, used) =
    (case greedy (sym_cost format) budget used (concat (map (\<lambda>h. fg_symbols (group_at groups h)) order)) of (ys, u) \<Rightarrow> (as @ ys, u))"
proof (induction order arbitrary: as used)
  case (Cons h order)
  obtain ys u where g: "greedy (sym_cost format) budget used (fg_symbols (group_at groups h)) = (ys, u)" by force
  then have "pack_group format budget (group_at groups h) (as, used) = (as @ ys, u)"
    by (simp add: pack_group_greedy [OF assms])
  with Cons.IH [of "as @ ys" u] g show ?case by (simp add: sym.greedy_append split: prod.splits)
qed simp

text \<open>
  C29. Every packing strategy (by density, with or without the coherence bonus, by file, by rank) takes
  symbols of the ranking, reports the sum of their costs as the tokens used, stays within the budget,
  and is maximal: each symbol it leaves out would exceed what is left of the budget. The budget is not
  negative; with the coherence bonus the scores are not negative either, and \<open>math.Pow\<close> of a positive
  base is not negative.
\<close>

theorem packIntoBudget_maximal:
  assumes "sorts (denser ranked) (sort_items E (denser ranked))" "\<And>groups. sorts (denser_file groups) (sort_files E (denser_file groups))"
    and "sorts higher (sort_symbols E)" "0 \<le> budget" "CoherenceBonus E > 0 \<Longrightarrow> nonneg_scores ranked"
    and "pow_nonneg (math_Pow E)"
  shows "packed_within (sym_cost format) budget ranked
    (Symbols (packIntoBudget E ranked budget format)) (TokensUsed (packIntoBudget E ranked budget format))"
proof (cases "ranked = []")
  case True
  with assms(4) show ?thesis by (simp add: packIntoBudget_def new_block_def packed_within_def)
next
  case False
  let ?strategy = "packStrategy (pk_env E) (PackStrategy E)"
  consider "?strategy = ''file-grouped''" | "?strategy = ''top-k''" | "?strategy \<noteq> ''file-grouped''" "?strategy \<noteq> ''top-k''" by blast
  then show ?thesis
  proof cases
    case 1
    obtain groups order where grp: "fold (group_symbol format) ranked ([], []) = (groups, order)" by force
    from grouped_all [of format ranked] have ok: "grouped format ranked (groups, order)" by (simp add: grp)
    let ?order = "sort_files E (denser_file groups) order"
    let ?syms = "concat (map (\<lambda>h. fg_symbols (group_at groups h)) ?order)"
    obtain ys u where g: "greedy (sym_cost format) budget 0 ?syms = (ys, u)" by force
    have costs: "fg_totalCost (group_at groups h) = sum_list (map (sym_cost format) (fg_symbols (group_at groups h)))" for h
      using ok by (simp add: grouped_def)
    have packed: "fold (\<lambda>fh. pack_group format budget (group_at groups fh)) ?order ([], 0) = (ys, u)"
      using pack_groups_greedy [where groups = groups and order = ?order, OF costs, of budget "[]" 0] g by simp
    have order: "distinct ?order" "set ?order = set order"
      using sortsD(1) [OF assms(2), of groups order] sorts_set [OF assms(2), of groups order] ok
      by (auto simp: grouped_def dest: mset_eq_imp_distinct_iff)
    have syms: "fg_symbols (group_at groups h) = filter (\<lambda>s. sym_file s = h) ranked" for h using ok by (simp add: grouped_def)
    have "sym_file ` set ranked \<subseteq> set ?order" using ok unfolding order(2) grouped_def snd_conv by blast
    from mset_by_file [OF order(1) this] have "mset ?syms = mset ranked" by (simp only: syms)
    with sym.greedy_packed [OF g assms(4)] have "packed_within (sym_cost format) budget ranked ys u"
      by (metis packed_within_perm)
    then have "packed_within (sym_cost format) budget ranked (sort_symbols E ys) u"
      by (rule packed_within_sorted [rotated]) (simp add: sortsD(1) [OF assms(3)])
    with False 1 packed grp show ?thesis by (simp add: packIntoBudget_def packFileGrouped_def new_block_def)
  next
    case 2
    obtain ys u where g: "greedy (sym_cost format) budget 0 ranked = (ys, u)" by force
    from sym.greedy_packed [OF this assms(4)] False 2 g show ?thesis
      by (simp add: packIntoBudget_def packTopK_def new_block_def)
  next
    case 3
    obtain ys u where g: "pack_density E ranked budget format = (ys, u)" by force
    have "packed_within (sym_cost format) budget ranked (sort_symbols E ys) u"
      by (rule packed_within_sorted [OF _ pack_density_within [OF assms(1,4,5,6) g]]) (simp_all add: sortsD(1) [OF assms(3)])
    with False 3 g show ?thesis by (simp add: packIntoBudget_def new_block_def)
  qed
qed

definition ranked_sample :: "hash \<Rightarrow> rat \<Rightarrow> string \<Rightarrow> RankedSymbol" where
  "ranked_sample file score sig = \<lparr>Sym_Node = sample_node\<lparr>NodeHash := file, Node_FileHash := file, Signature := sig\<rparr>, Sym_Score = score,
     Sym_Components = \<lparr>SC_BlastRadius = 0, SC_Confidence = 0, SC_Recency = 0, SC_Distance = 0, SC_Feedback = 0, SC_Session = 0\<rparr>,
     Sym_Provenance = '''', Sym_Distance = 0, Sym_BFSDistance = 0, Sym_RWRScore = score\<rparr>"

text \<open>Insertion sort by a relation, used where a sort is needed.\<close>

primrec insert_by :: "('a \<Rightarrow> 'a \<Rightarrow> bool) \<Rightarrow> 'a \<Rightarrow> 'a list \<Rightarrow> 'a list" where
  "insert_by lt x [] = [x]"
| "insert_by lt x (y # ys) = (if lt y x then y # insert_by lt x ys else x # y # ys)"

definition sort_by :: "('a \<Rightarrow> 'a \<Rightarrow> bool) \<Rightarrow> 'a list \<Rightarrow> 'a list" where
  "sort_by lt xs = foldr (insert_by lt) xs []"

lemma mset_insert_by: "mset (insert_by lt x xs) = add_mset x (mset xs)"
  by (induction xs) auto

lemma sorts_sort_by:
  assumes "\<And>a b. lt a b \<Longrightarrow> \<not> lt b a" "\<And>a b c. \<not> lt b a \<Longrightarrow> \<not> lt c b \<Longrightarrow> \<not> lt c a"
  shows "sorts lt (sort_by lt)"
proof -
  have ins: "sorted_wrt (\<lambda>a b. \<not> lt b a) xs \<Longrightarrow> sorted_wrt (\<lambda>a b. \<not> lt b a) (insert_by lt x xs)" for x xs
  proof (induction xs)
    case (Cons y ys)
    have mem: "set (insert_by lt x ys) = insert x (set ys)" by (metis mset_insert_by set_mset_add_mset_insert set_mset_mset)
    from Cons have ys: "\<forall>z\<in>set ys. \<not> lt z y" "sorted_wrt (\<lambda>a b. \<not> lt b a) ys" by simp_all
    show ?case
    proof (cases "lt y x")
      case True
      with ys Cons.IH assms(1) show ?thesis by (simp add: mem)
    next
      case False
      with ys assms(2) [of y x] show ?thesis by auto
    qed
  qed simp
  have "mset (foldr (insert_by lt) xs []) = mset xs \<and> sorted_wrt (\<lambda>a b. \<not> lt b a) (foldr (insert_by lt) xs [])" for xs
    by (induction xs) (simp_all add: mset_insert_by ins)
  then show ?thesis by (simp add: sorts_def sort_by_def)
qed

text \<open>The sample takes \<open>math.Pow\<close> at the whole part of the exponent.\<close>

definition sample_pack_env :: pack_env where
  "sample_pack_env = \<lparr>pk_env = no_env, PackStrategy = '''', CoherenceBonus = 3/10, math_Pow = (\<lambda>x y. x powi \<lfloor>y\<rfloor>),
     sort_items = sort_by,
     sort_files = sort_by, sort_symbols = sort_by higher\<rparr>"

lemma sample_sorts:
  "sorts (denser rs) (sort_items sample_pack_env (denser rs))"
  "sorts (denser_file groups) (sort_files sample_pack_env (denser_file groups))"
  "sorts higher (sort_symbols sample_pack_env)"
proof -
  show "sorts (denser rs) (sort_items sample_pack_env (denser rs))"
    unfolding sample_pack_env_def pack_env.simps by (rule sorts_sort_by) (auto simp: denser_def split: if_splits)
  show "sorts (denser_file groups) (sort_files sample_pack_env (denser_file groups))"
    unfolding sample_pack_env_def pack_env.simps by (rule sorts_sort_by) (unfold denser_file_def not_less, linarith, erule (1) order_trans [rotated])
  show "sorts higher (sort_symbols sample_pack_env)"
    unfolding sample_pack_env_def pack_env.simps by (rule sorts_sort_by) (auto simp: higher_def)
qed

text \<open>The budget of 14 leaves room for two of the three symbols (7 tokens each), and none for the long one.\<close>

theorem packIntoBudget_maximal_witness:
  "packed_within (sym_cost ''json'') 14
     [ranked_sample 1 1 '''', ranked_sample 2 (1/2) ''a long signature of the symbol'', ranked_sample 3 (1/4) '''']
     (Symbols (packIntoBudget sample_pack_env
       [ranked_sample 1 1 '''', ranked_sample 2 (1/2) ''a long signature of the symbol'', ranked_sample 3 (1/4) ''''] 14 ''json''))
     (TokensUsed (packIntoBudget sample_pack_env
       [ranked_sample 1 1 '''', ranked_sample 2 (1/2) ''a long signature of the symbol'', ranked_sample 3 (1/4) ''''] 14 ''json''))"
proof (rule packIntoBudget_maximal)
  fix rs groups
  show "sorts (denser rs) (sort_items sample_pack_env (denser rs))" by (rule sample_sorts(1))
  show "sorts (denser_file groups) (sort_files sample_pack_env (denser_file groups))" by (rule sample_sorts(2))
  show "sorts higher (sort_symbols sample_pack_env)" by (rule sample_sorts(3))
  show "(0::int) \<le> 14" by simp
  show "nonneg_scores
    [ranked_sample 1 1 '''', ranked_sample 2 (1/2) ''a long signature of the symbol'', ranked_sample 3 (1/4) '''']"
    unfolding nonneg_scores_def ranked_sample_def by simp
  show "pow_nonneg (math_Pow sample_pack_env)"
    unfolding pow_nonneg_def sample_pack_env_def by simp
qed

section \<open>Fused ranks\<close>

definition fused_score :: "int \<Rightarrow> rankedChannel list \<Rightarrow> hash \<Rightarrow> rat" where
  "fused_score k channels h =
     sum_list (map (\<lambda>ch. sum_list (map (\<lambda>p. if NodeHash (snd p) = h then ch_weight ch / of_int (k + int (fst p) + 1) else 0)
       (enumerate 0 (ch_nodes ch)))) channels)"

definition fused :: "(hash, node \<times> rat) gomap \<Rightarrow> (hash \<Rightarrow> rat) \<Rightarrow> hash set \<Rightarrow> bool" where
  "fused m score hs \<longleftrightarrow>
     gomap_ok m \<and> fst ` set m = hs \<and> (\<forall>h n s. map_of m h = Some (n, s) \<longrightarrow> NodeHash n = h \<and> s = score h) \<and> (\<forall>h. h \<notin> hs \<longrightarrow> score h = 0)"

lemma add_rank_fused:
  assumes "fused m score hs"
  shows "fused (add_rank w k p m) (\<lambda>h. score h + (if NodeHash (snd p) = h then w / of_int (k + int (fst p) + 1) else 0))
    (insert (NodeHash (snd p)) hs)"
proof (cases "map_of m (NodeHash (snd p))")
  case None
  then have "NodeHash (snd p) \<notin> hs" using assms by (auto simp: fused_def map_of_eq_None_iff)
  with None assms show ?thesis by (auto simp: fused_def add_rank_def keys_gomap_set)
next
  case (Some x)
  with assms show ?thesis by (cases x) (auto simp: fused_def add_rank_def keys_gomap_set)
qed

lemma fold_add_rank_fused:
  "fused m score hs \<Longrightarrow>
     fused (fold (add_rank w k) ps m)
       (\<lambda>h. score h + sum_list (map (\<lambda>p. if NodeHash (snd p) = h then w / of_int (k + int (fst p) + 1) else 0) ps))
       (hs \<union> (\<lambda>p. NodeHash (snd p)) ` set ps)"
proof (induction ps arbitrary: m score hs)
  case (Cons p ps)
  from Cons.IH [OF add_rank_fused [OF Cons.prems, of w k p]] show ?case by (simp add: add.assoc)
qed simp

definition fused_hashes :: "rankedChannel list \<Rightarrow> hash set" where
  "fused_hashes channels = (\<Union>ch\<in>{ch\<in>set channels. ch_weight ch \<noteq> 0}. NodeHash ` set (ch_nodes ch))"

lemma sum_list_eq_0: "(\<And>x. x \<in> set xs \<Longrightarrow> f x = (0::rat)) \<Longrightarrow> sum_list (map f xs) = 0"
  by (induction xs) simp_all

lemma fuse_channel_fused:
  assumes "fused m score hs"
  shows "fused (fuse_channel k ch m) (\<lambda>h. score h + fused_score k [ch] h) (hs \<union> fused_hashes [ch])"
proof (cases "ch_weight ch = 0 \<or> length (ch_nodes ch) = 0")
  case True
  then have zero: "fused_score k [ch] h = 0" for h
    by (auto simp: fused_score_def intro!: sum_list_eq_0 split: if_splits)
  from True have "fused_hashes [ch] = {}" by (auto simp: fused_hashes_def)
  with True assms show ?thesis by (simp add: zero fuse_channel_def)
next
  case False
  have "(\<lambda>p. NodeHash (snd p)) ` set (enumerate 0 (ch_nodes ch)) = NodeHash ` set (ch_nodes ch)"
    by (metis image_image list.set_map map_snd_enumerate)
  then have hs: "(\<lambda>p. NodeHash (snd p)) ` set (enumerate 0 (ch_nodes ch)) = fused_hashes [ch]" using False by (auto simp: fused_hashes_def)
  from fold_add_rank_fused [OF assms, of "ch_weight ch" k "enumerate 0 (ch_nodes ch)"] False show ?thesis
    unfolding hs by (simp add: fuse_channel_def fused_score_def)
qed

lemma fold_fuse_fused:
  "fused m score hs \<Longrightarrow> fused (fold (fuse_channel k) channels m) (\<lambda>h. score h + fused_score k channels h) (hs \<union> fused_hashes channels)"
proof (induction channels arbitrary: m score hs)
  case (Cons ch channels)
  have "fused_hashes (ch # channels) = fused_hashes [ch] \<union> fused_hashes channels" by (auto simp: fused_hashes_def)
  with Cons.IH [OF fuse_channel_fused [OF Cons.prems, of k ch]] show ?case
    by (simp add: fused_score_def add.assoc Un_assoc)
qed (simp add: fused_score_def fused_hashes_def)

definition better_result :: "node \<times> rat \<Rightarrow> node \<times> rat \<Rightarrow> bool" where
  "better_result a b \<longleftrightarrow> snd a > snd b"

text \<open>The order in which the results are cut: complete, duplicate-free and by falling score.\<close>

lemma fused_results:
  assumes "sorts better_result srt" and res_def: "res = srt (map snd (fold (fuse_channel k) channels []))"
  shows "distinct (map (\<lambda>r. NodeHash (fst r)) res)" "(\<lambda>r. NodeHash (fst r)) ` set res = fused_hashes channels"
    "\<forall>r\<in>set res. snd r = fused_score k channels (NodeHash (fst r))" "sorted_wrt (\<lambda>a b. snd a \<ge> snd b) res"
proof -
  let ?m = "fold (fuse_channel k) channels []"
  have start: "fused [] (\<lambda>h. 0) {}" by (simp add: fused_def)
  from fold_fuse_fused [OF start, of k channels] have m: "fused ?m (fused_score k channels) (fused_hashes channels)" by simp
  then have dm: "distinct (map fst ?m)" by (simp add: fused_def)
  have entry: "NodeHash (fst (snd e)) = fst e \<and> snd (snd e) = fused_score k channels (fst e)" if "e \<in> set ?m" for e
  proof -
    obtain h n s where e: "e = (h, n, s)" by (cases e) auto
    with that dm have "map_of ?m h = Some (n, s)" by simp
    with m e show ?thesis by (simp add: fused_def)
  qed
  have perm: "mset res = mset (map snd ?m)" unfolding res_def by (rule sortsD(1) [OF assms(1)])
  then have "mset (map (\<lambda>r. NodeHash (fst r)) res) = mset (map (\<lambda>r. NodeHash (fst r)) (map snd ?m))" by (metis mset_map)
  moreover have keys: "map (\<lambda>r. NodeHash (fst r)) (map snd ?m) = map fst ?m" using entry by simp
  ultimately have pk: "mset (map (\<lambda>r. NodeHash (fst r)) res) = mset (map fst ?m)" by (simp only:)
  with dm show "distinct (map (\<lambda>r. NodeHash (fst r)) res)" using mset_eq_imp_distinct_iff by blast
  from pk have "set (map (\<lambda>r. NodeHash (fst r)) res) = set (map fst ?m)" by (rule mset_eq_setD)
  with m show "(\<lambda>r. NodeHash (fst r)) ` set res = fused_hashes channels" by (simp add: fused_def)
  from perm have "set res = snd ` set ?m" by (metis list.set_map mset_eq_setD)
  with entry show "\<forall>r\<in>set res. snd r = fused_score k channels (NodeHash (fst r))" by auto
  show "sorted_wrt (\<lambda>a b. snd a \<ge> snd b) res"
    using sortsD(2) [OF assms(1), of "map snd ?m"] by (simp add: res_def better_result_def not_less)
qed

text \<open>
  The fusion of ranked channels returns each hash once, in falling order of the sum over the channels
  of weight / (k + rank + 1); it returns as many as the limit and the channels of nonzero weight allow, and no node
  left out has a better fused score than one returned.
\<close>

lemma rrfFuseMulti_best:
  assumes "sorts better_result srt"
  shows "distinct (map NodeHash (rrfFuseMulti srt channels k limit)) \<and>
    NodeHash ` set (rrfFuseMulti srt channels k limit) \<subseteq> fused_hashes channels \<and>
    length (rrfFuseMulti srt channels k limit) = min limit (card (fused_hashes channels)) \<and>
    sorted_wrt (\<lambda>a b. fused_score k channels (NodeHash a) \<ge> fused_score k channels (NodeHash b)) (rrfFuseMulti srt channels k limit) \<and>
    (\<forall>h\<in>fused_hashes channels - NodeHash ` set (rrfFuseMulti srt channels k limit).
       \<forall>n\<in>set (rrfFuseMulti srt channels k limit). fused_score k channels h \<le> fused_score k channels (NodeHash n))"
proof -
  define res where "res = srt (map snd (fold (fuse_channel k) channels []))"
  note r = fused_results [OF assms res_def]
  have out: "rrfFuseMulti srt channels k limit = map fst (take limit res)"
    by (simp add: rrfFuseMulti_def res_def Let_def)
  have "card (fused_hashes channels) = length res"
    using distinct_card [OF r(1)] r(2) by simp
  moreover have "distinct (map (\<lambda>r. NodeHash (fst r)) (take limit res))"
    using r(1) by (metis distinct_take take_map)
  moreover have "sorted_wrt (\<lambda>a b. fused_score k channels (NodeHash a) \<ge> fused_score k channels (NodeHash b)) (map fst (take limit res))"
    unfolding sorted_wrt_map
    by (rule sorted_wrt_mono_rel [OF _ sorted_wrt_take [OF r(4)]]) (use r(3) in \<open>metis in_set_takeD\<close>)
  moreover have "fused_score k channels h \<le> fused_score k channels (NodeHash n)"
    if h: "h \<in> fused_hashes channels" "h \<notin> NodeHash ` set (map fst (take limit res))" and n: "n \<in> set (map fst (take limit res))" for h n
  proof -
    from n obtain a where a: "a \<in> set (take limit res)" "n = fst a" by auto
    from h(1) obtain b where b: "b \<in> set res" "h = NodeHash (fst b)" unfolding r(2) [symmetric] by blast
    with h(2) have "b \<in> set (drop limit res)" by (metis append_take_drop_id image_eqI list.set_map Un_iff set_append)
    moreover have "sorted_wrt (\<lambda>a b. snd a \<ge> snd b) (take limit res @ drop limit res)" using r(4) by simp
    ultimately have "snd b \<le> snd a" using a(1) unfolding sorted_wrt_append by blast
    with r(3) a b show ?thesis by (auto dest!: in_set_takeD)
  qed
  moreover have "NodeHash ` set (map fst (take limit res)) \<subseteq> fused_hashes channels"
    unfolding r(2) [symmetric] by (auto dest!: in_set_takeD)
  ultimately show ?thesis unfolding out by (auto simp: comp_def)
qed

definition sample_channels :: "rankedChannel list" where
  "sample_channels = [\<lparr>ch_nodes = [sample_node\<lparr>NodeHash := 1\<rparr>, sample_node\<lparr>NodeHash := 2\<rparr>], ch_weight = 1\<rparr>,
     \<lparr>ch_nodes = [sample_node\<lparr>NodeHash := 2\<rparr>], ch_weight = 2\<rparr>]"

lemma rrfFuseMulti_best_witness:
  "sorted_wrt (\<lambda>a b. fused_score 60 sample_channels (NodeHash a) \<ge> fused_score 60 sample_channels (NodeHash b))
     (rrfFuseMulti (sort_by better_result) sample_channels 60 5)"
  using rrfFuseMulti_best [of "sort_by better_result" sample_channels 60 5, OF sorts_sort_by]
  by (auto simp: better_result_def)

section \<open>Differences are exact\<close>

abbreviation sym_hash :: "RankedSymbol \<Rightarrow> hash" where
  "sym_hash s \<equiv> NodeHash (Sym_Node s)"

lemma symbol_map_keyed:
  "gomap_ok (symbol_map xs) \<and> fst ` set (symbol_map xs) = sym_hash ` set xs \<and>
     (\<forall>h s. map_of (symbol_map xs) h = Some s \<longrightarrow> s \<in> set xs \<and> sym_hash s = h)"
proof (induction xs rule: rev_induct)
  case (snoc x xs)
  have step: "symbol_map (xs @ [x]) = gomap_set (sym_hash x) x (symbol_map xs)" by (simp add: symbol_map_def)
  from snoc show ?case unfolding step by (simp add: keys_gomap_set)
qed (simp add: symbol_map_def)

definition ranges_ok :: "delta_ranges \<Rightarrow> bool" where
  "ranges_ok R \<longleftrightarrow> (\<forall>m. mset (range_symbols R m) = mset m) \<and> (\<forall>m. mset (range_edges R m) = mset m)"

lemma symbol_entries:
  assumes "ranges_ok R"
  shows "sym_hash ` set (map snd (filter (\<lambda>p. P (fst p)) (range_symbols R (symbol_map xs)))) = {h \<in> sym_hash ` set xs. P h}"
    and "distinct (map sym_hash (map snd (filter (\<lambda>p. P (fst p)) (range_symbols R (symbol_map xs)))))"
proof -
  let ?m = "symbol_map xs"
  from assms have perm: "mset (range_symbols R ?m) = mset ?m" by (simp add: ranges_ok_def)
  then have mem: "set (range_symbols R ?m) = set ?m" by (rule mset_eq_setD)
  have keyed: "sym_hash (snd p) = fst p" if "p \<in> set ?m" for p
    using symbol_map_keyed [of xs] that by (cases p) simp
  then have "sym_hash ` snd ` {p \<in> set ?m. P (fst p)} = {h \<in> fst ` set ?m. P h}" by force
  with symbol_map_keyed [of xs] show "sym_hash ` set (map snd (filter (\<lambda>p. P (fst p)) (range_symbols R ?m))) = {h \<in> sym_hash ` set xs. P h}"
    by (simp add: mem)
  have "map sym_hash (map snd (filter (\<lambda>p. P (fst p)) (range_symbols R ?m))) = map fst (filter (\<lambda>p. P (fst p)) (range_symbols R ?m))"
    using keyed mem by auto
  moreover have "distinct (map fst (range_symbols R ?m))"
    using symbol_map_keyed [of xs] perm by (metis mset_eq_imp_distinct_iff mset_map)
  ultimately show "distinct (map sym_hash (map snd (filter (\<lambda>p. P (fst p)) (range_symbols R ?m))))"
    by (simp only:) (rule distinct_map_filter)
qed

text \<open>
  The difference of two packs is exact on symbols: it removes what only the prior pack has, adds
  what only the current one has, each hash once, and applying it to the prior pack's symbols gives those of the
  current pack. It names the roots of the two packs.
\<close>

lemma DiffPacks_exact:
  assumes "ranges_ok R"
  shows "sym_hash ` set (Removed (DiffPacks R p c format)) = sym_hash ` set (Symbols p) - sym_hash ` set (Symbols c) \<and>
    sym_hash ` set (Added (DiffPacks R p c format)) = sym_hash ` set (Symbols c) - sym_hash ` set (Symbols p) \<and>
    sym_hash ` set (Unchanged (DiffPacks R p c format)) = sym_hash ` set (Symbols c) \<inter> sym_hash ` set (Symbols p) \<and>
    distinct (map sym_hash (Removed (DiffPacks R p c format) @ Added (DiffPacks R p c format) @ Unchanged (DiffPacks R p c format))) \<and>
    (sym_hash ` set (Symbols p) - sym_hash ` set (Removed (DiffPacks R p c format))) \<union> sym_hash ` set (Added (DiffPacks R p c format)) =
      sym_hash ` set (Symbols c) \<and>
    BaseRoot (DiffPacks R p c format) = PackRoot p \<and> NewRoot (DiffPacks R p c format) = PackRoot c"
proof -
  let ?d = "DiffPacks R p c format"
  have keys: "fst ` set (symbol_map xs) = sym_hash ` set xs" for xs using symbol_map_keyed by blast
  have parts: "Removed ?d = map snd (filter (\<lambda>e. fst e \<notin> sym_hash ` set (Symbols c)) (range_symbols R (symbol_map (Symbols p))))"
    "Added ?d = map snd (filter (\<lambda>e. fst e \<notin> sym_hash ` set (Symbols p)) (range_symbols R (symbol_map (Symbols c))))"
    "Unchanged ?d = map snd (filter (\<lambda>e. fst e \<in> sym_hash ` set (Symbols p)) (range_symbols R (symbol_map (Symbols c))))"
    by (simp_all add: DiffPacks_def Let_def entries_without_def keys)
  note s = symbol_entries(1) [OF assms] note d = symbol_entries(2) [OF assms]
  have r: "sym_hash ` set (Removed ?d) = {h \<in> sym_hash ` set (Symbols p). h \<notin> sym_hash ` set (Symbols c)}" unfolding parts by (rule s)
  have a: "sym_hash ` set (Added ?d) = {h \<in> sym_hash ` set (Symbols c). h \<notin> sym_hash ` set (Symbols p)}" unfolding parts by (rule s)
  have u: "sym_hash ` set (Unchanged ?d) = {h \<in> sym_hash ` set (Symbols c). h \<in> sym_hash ` set (Symbols p)}" unfolding parts by (rule s)
  have "distinct (map sym_hash (Removed ?d))" "distinct (map sym_hash (Added ?d))" "distinct (map sym_hash (Unchanged ?d))"
    unfolding parts by (rule d)+
  then have "distinct (map sym_hash (Removed ?d @ Added ?d @ Unchanged ?d))"
    unfolding map_append distinct_append set_append set_map r a u by blast
  moreover have "BaseRoot ?d = PackRoot p \<and> NewRoot ?d = PackRoot c" by (simp add: DiffPacks_def Let_def)
  ultimately show ?thesis unfolding r a u by blast
qed

definition sample_block :: "hash list \<Rightarrow> ContextBlock" where
  "sample_block hs = (new_block 100 ''json'')\<lparr>Symbols := map (\<lambda>h. ranked_sample h 1 '''') hs\<rparr>"

lemma DiffPacks_exact_witness:
  "sym_hash ` set (Added (DiffPacks \<lparr>range_symbols = rev, range_edges = rev\<rparr> (sample_block [1, 2]) (sample_block [2, 3]) ''json'')) = {3}"
  using DiffPacks_exact [of "\<lparr>range_symbols = rev, range_edges = rev\<rparr>" "sample_block [1, 2]" "sample_block [2, 3]" "''json''"]
  by (simp add: ranges_ok_def sample_block_def new_block_def ranked_sample_def)

section \<open>The root of a pack\<close>

text \<open>
  The root of a pack depends on the task up to case and outer space and on which symbols it holds,
  not on their order, their scores or the state of the graph.
\<close>

lemma computePackRoot_order:
  assumes "strings_ToLower (strings_TrimSpace t) = strings_ToLower (strings_TrimSpace t')" "mset (map sym_hash xs) = mset (map sym_hash ys)"
  shows "computePackRoot H t xs = computePackRoot H t' ys"
proof -
  have "sort (map sym_hash xs) = sort (map sym_hash ys)"
    using assms(2) by (metis sorted_list_of_multiset_mset)
  with assms(1) show ?thesis by (simp add: computePackRoot_def)
qed

lemma computePackRoot_order_witness:
  "computePackRoot H '' Fix the Parser'' [ranked_sample 1 1 '''', ranked_sample 2 0 ''''] =
     computePackRoot H ''fix the parser '' [ranked_sample 2 1 '''', ranked_sample 1 (1/2) '''']"
  by (rule computePackRoot_order)
    (simp_all add: strings_TrimSpace_def is_space_def strings_ToLower_def ranked_sample_def, code_simp)

end
