(* ===== verification/SessionMemory.thy ===== *)
theory SessionMemory
  imports ContextRanking AdjacencyCache
begin

text \<open>
  internal/context: what the retrieval remembers. The session tracker (session.go) as a state machine
  driven by a clock, the task memory (task_memory.go) over its table, and HITS (hits.go) over the edges
  of the store. \<open>math.Exp\<close>, \<open>math.Sqrt\<close> and the clock are arguments.
\<close>

section \<open>The session tracker\<close>

record SessionTracker =
  accesses :: "(hash, int list) gomap"
  started :: int
  halfLifeSeconds :: rat

definition NewSessionTracker :: "int \<Rightarrow> SessionTracker" where
  "NewSessionTracker now = \<lparr>accesses = [], started = now, halfLifeSeconds = 180\<rparr>"

definition times_at :: "SessionTracker \<Rightarrow> hash \<Rightarrow> int list" where
  "times_at st h = (case map_of (accesses st) h of Some ts \<Rightarrow> ts | None \<Rightarrow> [])"

definition last_20 :: "int list \<Rightarrow> int list" where
  "last_20 ts = (if length ts > 20 then drop (length ts - 20) ts else ts)"

definition Record :: "int \<Rightarrow> hash \<Rightarrow> SessionTracker \<Rightarrow> SessionTracker" where
  "Record now h st = st\<lparr>accesses := gomap_set h (last_20 (times_at st h @ [now])) (accesses st)\<rparr>"

definition RecordBatch :: "int \<Rightarrow> hash list \<Rightarrow> SessionTracker \<Rightarrow> SessionTracker" where
  "RecordBatch now hashes st = fold (Record now) hashes st"

definition Ln2 :: rat where
  "Ln2 = 693147180559945309417232121458176568 / 10 ^ 36"

definition maxBoost :: rat where "maxBoost = 2"

definition session_score :: "(rat \<Rightarrow> rat) \<Rightarrow> rat \<Rightarrow> int \<Rightarrow> int list \<Rightarrow> rat" where
  "session_score math_Exp k now ts = sum_list (map (\<lambda>t. math_Exp (- k * of_int (now - t))) ts)"

definition add_boost ::
  "(rat \<Rightarrow> rat) \<Rightarrow> int \<Rightarrow> SessionTracker \<Rightarrow> hash \<Rightarrow> (hash, rat) gomap \<Rightarrow> (hash, rat) gomap" where
  "add_boost math_Exp now st h result =
     (if times_at st h = [] then result
      else
        let s = session_score math_Exp (Ln2 / halfLifeSeconds st) now (times_at st h);
            score = (if s > maxBoost then maxBoost else s)
        in if score > 1/100 then gomap_set h score result else result)"

definition SessionBoosts :: "(rat \<Rightarrow> rat) \<Rightarrow> int \<Rightarrow> SessionTracker \<Rightarrow> hash list \<Rightarrow> (hash, rat) gomap" where
  "SessionBoosts math_Exp now st hashes = fold (add_boost math_Exp now st) hashes []"

definition SessionCount :: "SessionTracker \<Rightarrow> nat" where
  "SessionCount st = length (accesses st)"

definition Reset :: "int \<Rightarrow> SessionTracker \<Rightarrow> SessionTracker" where
  "Reset now st = st\<lparr>accesses := [], started := now\<rparr>"

text \<open>
  The calls of concurrent tools: each holds the lock, so a run is a sequence of them. The state
  pairs the tracker with the clock, which does not run backwards.
\<close>

inductive session_step :: "SessionTracker \<times> int \<Rightarrow> SessionTracker \<times> int \<Rightarrow> bool" where
  tick: "now \<le> now' \<Longrightarrow> session_step (st, now) (st, now')"
| record_one: "session_step (st, now) (Record now h st, now)"
| record_many: "session_step (st, now) (RecordBatch now hs st, now)"
| reset: "session_step (st, now) (Reset now st, now)"

inductive_cases session_stepE: "session_step (st, now) s'"

inductive session_run :: "SessionTracker \<times> int \<Rightarrow> bool" where
  start: "session_run (NewSessionTracker now, now)"
| step: "session_run s \<Longrightarrow> session_step s s' \<Longrightarrow> session_run s'"

section \<open>Task memory\<close>

definition memory_row :: "int \<Rightarrow> string \<Rightarrow> float64 \<Rightarrow> hash \<Rightarrow> task_memory_row" where
  "memory_row now keywords score h = \<lparr>TM_Keywords = keywords, TM_SymbolHash = h, TM_Score = score, TM_Timestamp = now\<rparr>"

definition insert_memory :: "int \<Rightarrow> string \<Rightarrow> float64 \<Rightarrow> hash \<Rightarrow> unit op" where
  "insert_memory now keywords score h =
     exec_sql (\<lambda>d. d\<lparr>T_task_memory := T_task_memory d @ [memory_row now keywords score h]\<rparr>)"

definition TaskMemory_Record :: "int \<Rightarrow> string \<Rightarrow> hash \<Rightarrow> float64 \<Rightarrow> unit op" where
  "TaskMemory_Record now keywords symbolHash score = insert_memory now keywords score symbolHash"

primrec insert_memories :: "int \<Rightarrow> string \<Rightarrow> float64 \<Rightarrow> hash list \<Rightarrow> unit op" where
  "insert_memories now keywords score [] = ret ()"
| "insert_memories now keywords score (h # hs) =
     bind_op (insert_memory now keywords score h) (\<lambda>_. insert_memories now keywords score hs)"

text \<open>Preparing the statement may fail as well; errors are returned as they are.\<close>

definition TaskMemory_RecordBatch :: "int \<Rightarrow> string \<Rightarrow> hash list \<Rightarrow> float64 \<Rightarrow> unit op" where
  "TaskMemory_RecordBatch now keywords symbolHashes score =
     transaction id id (bind_op (query_sql (\<lambda>_. ())) (\<lambda>_. insert_memories now keywords score symbolHashes))"

text \<open>The newest 50 rows whose keywords match.\<close>

definition memory_rows :: "string \<Rightarrow> db \<Rightarrow> task_memory_row list" where
  "memory_rows kw d =
     take 50 (sort_key (\<lambda>r. - TM_Timestamp r) (filter (\<lambda>r. sql_like (''%'' @ kw @ ''%'') (TM_Keywords r)) (T_task_memory d)))"

definition memory_decay :: "int \<Rightarrow> int \<Rightarrow> rat" where
  "memory_decay now ts = (let age = of_int (now - ts) / 86400 in if age > 7 then 7 / age else 1)"

definition add_memory :: "int \<Rightarrow> task_memory_row \<Rightarrow> (hash, rat) gomap \<Rightarrow> (hash, rat) gomap" where
  "add_memory now r scores =
     gomap_set (TM_SymbolHash r)
       ((case map_of scores (TM_SymbolHash r) of Some s \<Rightarrow> s | None \<Rightarrow> 0) + TM_Score r * memory_decay now (TM_Timestamp r)) scores"

primrec recall_loop :: "int \<Rightarrow> string list \<Rightarrow> (hash, rat) gomap \<Rightarrow> (hash, rat) gomap op" where
  "recall_loop now [] scores = ret scores"
| "recall_loop now (kw # kws) scores =
     (if length kw < 3 then recall_loop now kws scores
      else (\<lambda>s. case query_sql (memory_rows kw) s of
              (Inl e, s1) \<Rightarrow> recall_loop now kws scores s1
            | (Inr rows, s1) \<Rightarrow> recall_loop now kws (fold (add_memory now) rows scores) s1))"

text \<open>One reading of the clock stands for those of the loop.\<close>

definition Recall :: "int \<Rightarrow> string list \<Rightarrow> (hash, rat) gomap op" where
  "Recall now queryKeywords = (if length queryKeywords = 0 then ret [] else recall_loop now queryKeywords [])"

definition TaskMemory_Count :: "nat op" where
  "TaskMemory_Count s =
     (case query_sql (\<lambda>d. length (T_task_memory d)) s of
        (Inl e, s1) \<Rightarrow> (Inr 0, s1)
      | (Inr n, s1) \<Rightarrow> (Inr n, s1))"

section \<open>HITS\<close>

type_synonym links = "(hash, hash list) gomap"

definition links_at :: "links \<Rightarrow> hash \<Rightarrow> hash list" where
  "links_at l h = (case map_of l h of Some hs \<Rightarrow> hs | None \<Rightarrow> [])"

definition hits_value :: "(hash, rat) gomap \<Rightarrow> hash \<Rightarrow> rat" where
  "hits_value m h = (case map_of m h of Some x \<Rightarrow> x | None \<Rightarrow> 0)"

definition link_edge :: "hash set \<Rightarrow> hash \<Rightarrow> edge \<Rightarrow> links \<times> links \<Rightarrow> links \<times> links" where
  "link_edge nodeSet node e l =
     (if TargetHash e \<in> nodeSet
      then (gomap_append node (TargetHash e) (fst l), gomap_append (TargetHash e) node (snd l))
      else l)"

primrec load_links :: "hash set \<Rightarrow> hash list \<Rightarrow> links \<times> links \<Rightarrow> (links \<times> links) op" where
  "load_links nodeSet [] l = ret l"
| "load_links nodeSet (n # ns) l =
     (\<lambda>s. case EdgesFrom n '''' s of
        (Inl e, s1) \<Rightarrow> load_links nodeSet ns l s1
      | (Inr edges, s1) \<Rightarrow> load_links nodeSet ns (fold (link_edge nodeSet n) edges l) s1)"

definition link_sums :: "hash list \<Rightarrow> links \<Rightarrow> (hash, rat) gomap \<Rightarrow> (hash, rat) gomap" where
  "link_sums nodes l scores =
     fold (\<lambda>n. gomap_set n (sum_list (map (hits_value scores) (links_at l n)))) nodes []"

definition hits_norm :: "(rat \<Rightarrow> rat) \<Rightarrow> (hash, rat) gomap \<Rightarrow> (hash, rat) gomap" where
  "hits_norm math_Sqrt m =
     (let norm = sum_list (map (\<lambda>p. snd p * snd p) m)
      in if norm > 0 then map (\<lambda>p. (fst p, snd p / math_Sqrt norm)) m else m)"

definition hits_round ::
  "(rat \<Rightarrow> rat) \<Rightarrow> hash list \<Rightarrow> links \<times> links \<Rightarrow> (hash, rat) gomap \<times> (hash, rat) gomap \<Rightarrow> (hash, rat) gomap \<times> (hash, rat) gomap" where
  "hits_round math_Sqrt nodes l st =
     (let newAuth = link_sums nodes (snd l) (snd st); newHub = link_sums nodes (fst l) newAuth
      in (hits_norm math_Sqrt newAuth, hits_norm math_Sqrt newHub))"

definition ones :: "hash list \<Rightarrow> (hash, rat) gomap" where
  "ones nodes = fold (\<lambda>n. gomap_set n 1) nodes []"

text \<open>\<open>None\<close> is the nil map of an empty list of nodes.\<close>

definition ComputeHITS :: "(rat \<Rightarrow> rat) \<Rightarrow> hash list \<Rightarrow> int \<Rightarrow> (hash, HITSScores) gomap option op" where
  "ComputeHITS math_Sqrt nodes maxIter =
     (if length nodes = 0 then ret None
      else
        let rounds = nat (if maxIter \<le> 0 then 10 else maxIter) in
        bind_op (load_links (set nodes) nodes ([], [])) (\<lambda>l.
          let (auth, hub) = (hits_round math_Sqrt nodes l ^^ rounds) (ones nodes, ones nodes)
          in ret (Some (fold (\<lambda>n. gomap_set n \<lparr>Authority = hits_value auth n, Hub = hits_value hub n\<rparr>) nodes []))))"

section \<open>Session histories\<close>

definition session_ok :: "SessionTracker \<times> int \<Rightarrow> bool" where
  "session_ok s \<longleftrightarrow>
     gomap_ok (accesses (fst s)) \<and> halfLifeSeconds (fst s) = 180 \<and>
     (\<forall>h ts. map_of (accesses (fst s)) h = Some ts \<longrightarrow> ts \<noteq> [] \<and> length ts \<le> 20 \<and> sorted ts \<and> (\<forall>t\<in>set ts. t \<le> snd s))"

lemma last_20_suffix: "\<exists>zs. ts = zs @ last_20 ts"
  unfolding last_20_def by (metis append_Nil append_take_drop_id)

lemma last_20: "length (last_20 ts) \<le> 20" "ts \<noteq> [] \<Longrightarrow> last_20 ts \<noteq> []" "set (last_20 ts) \<subseteq> set ts"
  "sorted ts \<Longrightarrow> sorted (last_20 ts)"
proof -
  show "length (last_20 ts) \<le> 20" "ts \<noteq> [] \<Longrightarrow> last_20 ts \<noteq> []" by (auto simp: last_20_def)
  obtain zs where ts: "ts = zs @ last_20 ts" using last_20_suffix by blast
  show "set (last_20 ts) \<subseteq> set ts" by (subst (2) ts) simp
  show "sorted ts \<Longrightarrow> sorted (last_20 ts)" by (subst (asm) ts) (simp add: sorted_append)
qed

lemma Record_ok:
  assumes "session_ok (st, now)"
  shows "session_ok (Record now h st, now)"
proof -
  let ?ts = "times_at st h @ [now]"
  have "sorted ?ts \<and> (\<forall>t\<in>set ?ts. t \<le> now)"
    using assms by (auto simp: session_ok_def times_at_def sorted_append split: option.splits)
  then have "sorted (last_20 ?ts) \<and> (\<forall>t\<in>set (last_20 ?ts). t \<le> now)"
    using last_20(3) [of ?ts] last_20(4) [of ?ts] by blast
  with assms last_20(1) [of ?ts] last_20(2) [of ?ts] show ?thesis
    by (simp add: session_ok_def Record_def)
qed

lemma RecordBatch_ok: "session_ok (st, now) \<Longrightarrow> session_ok (RecordBatch now hs st, now)"
  unfolding RecordBatch_def by (induction hs arbitrary: st) (simp_all add: Record_ok)

lemma session_run_ok: "session_run s \<Longrightarrow> session_ok s"
proof (induction rule: session_run.induct)
  case (start now)
  then show ?case by (simp add: session_ok_def NewSessionTracker_def)
next
  case (step s s')
  from step(2,3) show ?case
  proof cases
    case (tick now now' st)
    with step(3) show ?thesis unfolding session_ok_def by fastforce
  next
    case (reset st now)
    with step(3) show ?thesis by (simp add: session_ok_def Reset_def)
  qed (use step(3) in \<open>simp_all add: Record_ok RecordBatch_ok\<close>)
qed

text \<open>
  What is documented of \<open>math.Exp\<close>: it is not negative, grows, is 1 at 0, and \<open>exp (- 8)\<close> is about
  0.00034.
\<close>

definition exp_laws :: "(rat \<Rightarrow> rat) \<Rightarrow> bool" where
  "exp_laws f \<longleftrightarrow> (\<forall>x. 0 \<le> f x) \<and> (\<forall>x y. x \<le> y \<longrightarrow> f x \<le> f y) \<and> f 0 = 1 \<and> f (- 8) < 1 / 2000"

lemma map_of_boosts:
  "map_of (fold (add_boost f now st) hs result) h =
     (if h \<in> set hs \<and> map_of (add_boost f now st h []) h \<noteq> None then map_of (add_boost f now st h []) h else map_of result h)"
  by (induction hs arbitrary: result) (auto simp: add_boost_def Let_def split: if_splits)

lemma SessionBoosts_at:
  "map_of (SessionBoosts f now st hs) h = (if h \<in> set hs then map_of (add_boost f now st h []) h else None)"
  by (auto simp: SessionBoosts_def map_of_boosts)

text \<open>
  C30. In every run of the session tracker each symbol has between one and 20 access times, in order and
  none in the future, and every boost reported lies above 0.01 and at most at the cap of 2.
\<close>

theorem session_bounded:
  assumes "session_run (st, now)"
  shows "(\<forall>h ts. map_of (accesses st) h = Some ts \<longrightarrow> 1 \<le> length ts \<and> length ts \<le> 20 \<and> sorted ts \<and> (\<forall>t\<in>set ts. t \<le> now)) \<and>
    (\<forall>h b. map_of (SessionBoosts f t st hs) h = Some b \<longrightarrow> h \<in> set hs \<and> 1/100 < b \<and> b \<le> 2)"
proof -
  from session_run_ok [OF assms]
  have "\<forall>h ts. map_of (accesses st) h = Some ts \<longrightarrow> 1 \<le> length ts \<and> length ts \<le> 20 \<and> sorted ts \<and> (\<forall>t\<in>set ts. t \<le> now)"
    by (simp add: session_ok_def Suc_le_eq)
  moreover have "h \<in> set hs \<and> 1/100 < b \<and> b \<le> 2" if "map_of (SessionBoosts f t st hs) h = Some b" for h b
    using that by (auto simp: SessionBoosts_at add_boost_def maxBoost_def Let_def split: if_splits)
  ultimately show ?thesis by blast
qed

text \<open>
  C31. A boost fades: whatever happened in the session, a symbol that has not been accessed for 35
  minutes gets no boost at any later time.
\<close>

theorem session_boost_fades:
  assumes "exp_laws f" "session_run (st, now)" "\<forall>t\<in>set (times_at st h). t + 2100 \<le> later"
  shows "map_of (SessionBoosts f later st hs) h = None"
proof (cases "times_at st h = []")
  case True
  then show ?thesis by (simp add: SessionBoosts_at add_boost_def)
next
  case False
  from session_run_ok [OF assms(2)] have ok: "halfLifeSeconds st = 180" "length (times_at st h) \<le> 20"
    by (auto simp: session_ok_def times_at_def split: option.splits)
  have "f (- (Ln2 / 180) * of_int (later - t)) \<le> 1/2000" if "t \<in> set (times_at st h)" for t
  proof -
    from assms(3) that have "2100 \<le> later - t" by fastforce
    then have "(of_int 2100 :: rat) \<le> of_int (later - t)" by (rule of_int_le_iff [THEN iffD2])
    then have "2100 \<le> (of_int (later - t) :: rat)" by simp
    then have "(Ln2 / 180) * 2100 \<le> Ln2 / 180 * of_int (later - t)" by (intro mult_left_mono) (simp_all add: Ln2_def)
    then have "- (Ln2 / 180) * of_int (later - t) \<le> - 8" by (simp add: Ln2_def)
    with assms(1) have "f (- (Ln2 / 180) * of_int (later - t)) \<le> f (- 8)" unfolding exp_laws_def by blast
    with assms(1) show ?thesis by (simp add: exp_laws_def)
  qed
  then have "session_score f (Ln2 / 180) later (times_at st h) \<le> sum_list (map (\<lambda>t. 1/2000) (times_at st h))"
    unfolding session_score_def by (rule sum_list_mono)
  also have "\<dots> \<le> 1/100" using ok(2) by (simp add: sum_list_triv)
  finally show ?thesis using False ok(1) by (simp add: SessionBoosts_at add_boost_def Let_def maxBoost_def)
qed

definition sample_exp :: "rat \<Rightarrow> rat" where
  "sample_exp x = (if x \<le> - 8 then 0 else if x \<le> 0 then 1 else 3)"

lemma sample_exp_laws: "exp_laws sample_exp"
  by (auto simp: exp_laws_def sample_exp_def)

lemma sample_session: "session_run (Record 100 5 (NewSessionTracker 100), 100)"
  by (rule session_run.step [OF session_run.start session_step.record_one])

lemma sample_boost: "map_of (SessionBoosts sample_exp 100 (Record 100 5 (NewSessionTracker 100)) [5, 6]) 5 = Some 1"
proof -
  have "times_at (Record 100 5 (NewSessionTracker 100)) 5 = [100]"
    by (simp add: times_at_def Record_def NewSessionTracker_def last_20_def)
  then show ?thesis
    by (simp add: SessionBoosts_at add_boost_def session_score_def sample_exp_def maxBoost_def)
qed

theorem session_bounded_witness:
  "\<exists>b. map_of (SessionBoosts sample_exp 100 (Record 100 5 (NewSessionTracker 100)) [5, 6]) 5 = Some b \<and> 1/100 < b \<and> b \<le> 2"
  using session_bounded [OF sample_session, of sample_exp 100 "[5, 6]"] sample_boost by blast

theorem session_boost_fades_witness:
  "map_of (SessionBoosts sample_exp 2200 (Record 100 5 (NewSessionTracker 100)) [5, 6]) 5 = None"
  by (rule session_boost_fades [OF sample_exp_laws sample_session])
    (simp add: times_at_def Record_def NewSessionTracker_def last_20_def)

section \<open>Recall\<close>

definition recalled :: "int \<Rightarrow> task_memory_row list \<Rightarrow> hash \<Rightarrow> rat" where
  "recalled now rows h =
     sum_list (map (\<lambda>r. TM_Score r * memory_decay now (TM_Timestamp r)) (filter (\<lambda>r. TM_SymbolHash r = h) rows))"

lemma recalled_none: "h \<notin> TM_SymbolHash ` set rows \<Longrightarrow> recalled now rows h = 0"
  unfolding recalled_def by (subst filter_False) auto

lemma recalled_Cons:
  "recalled now (r # rows) h =
     (if TM_SymbolHash r = h then TM_Score r * memory_decay now (TM_Timestamp r) else 0) + recalled now rows h"
  by (simp add: recalled_def)

lemma map_of_memories:
  "map_of (fold (add_memory now) rows m) h =
     (if h \<in> TM_SymbolHash ` set rows then Some ((case map_of m h of Some s \<Rightarrow> s | None \<Rightarrow> 0) + recalled now rows h) else map_of m h)"
proof (induction rows arbitrary: m)
  case (Cons r rows)
  show ?case unfolding fold_Cons comp_apply Cons
    by (auto simp: add_memory_def recalled_Cons recalled_none add.assoc split: option.split)
qed simp

lemma memory_decay_bounds: "0 < memory_decay now ts" "memory_decay now ts \<le> 1"
  by (simp_all add: memory_decay_def Let_def)

lemma recalled_mono:
  assumes "\<forall>r\<in>set rows. 0 \<le> TM_Score r" "r \<in> set rows" "TM_SymbolHash r = h"
  shows "TM_Score r * memory_decay now (TM_Timestamp r) \<le> recalled now rows h"
proof -
  let ?f = "\<lambda>r. TM_Score r * memory_decay now (TM_Timestamp r)"
  have "?f r \<in> set (map ?f (filter (\<lambda>r. TM_SymbolHash r = h) rows))" using assms(2,3) by auto
  moreover have "\<forall>x\<in>set (map ?f (filter (\<lambda>r. TM_SymbolHash r = h) rows)). 0 \<le> x"
    using assms(1) less_imp_le [OF memory_decay_bounds(1)] by (auto intro!: mult_nonneg_nonneg)
  ultimately show ?thesis unfolding recalled_def by (meson member_le_sum_list)
qed

lemma recall_loop_run:
  assumes "Faults s = []"
  shows "recall_loop now kws m s = (Inr (fold (add_memory now) (concat (map (\<lambda>kw. memory_rows kw (DB s)) (filter (\<lambda>kw. 3 \<le> length kw) kws))) m), s)"
  using assms by (induction kws arbitrary: m) (simp_all add: ret_def db_simps not_less)

lemma insert_memories_run:
  "Faults s = [] \<Longrightarrow> insert_memories now ks score hs s =
     (Inr (), s\<lparr>DB := (DB s)\<lparr>T_task_memory := T_task_memory (DB s) @ map (memory_row now ks score) hs\<rparr>\<rparr>)"
  by (induction hs arbitrary: s) (simp_all add: ret_def bind_op_def insert_memory_def db_simps)

lemma RecordBatch_run:
  "Faults s = [] \<Longrightarrow> TaskMemory_RecordBatch now ks hs score s =
     (Inr (), s\<lparr>DB := (DB s)\<lparr>T_task_memory := T_task_memory (DB s) @ map (memory_row now ks score) hs\<rparr>\<rparr>)"
  by (simp add: TaskMemory_RecordBatch_def transaction_def bind_op_def insert_memories_run db_simps)

lemma sql_like_self: "sql_like (kw @ ''%'') (kw @ b)"
proof (induction kw)
  case (Cons c kw)
  have like: "sql_like (''%'' @ kw @ ''%'') x" if "sql_like (kw @ ''%'') x" for x
    using that by (subst append_Cons, subst sql_like.simps) simp
  show ?case
  proof (cases "c = CHR ''%''")
    case True
    with Cons like [of "kw @ b"] show ?thesis by (subst append_Cons, subst sql_like.simps) simp
  next
    case False
    then show ?thesis using Cons
      by (subst append_Cons, subst sql_like.simps) (simp add: skip_utf8_def)
  qed
qed (simp add: sql_like_any)

lemma sql_like_contains: "sql_like (''%'' @ kw @ ''%'') (a @ kw @ b)"
proof (induction a)
  case Nil
  show ?case using sql_like_self [of kw b] by (subst append_Cons, subst sql_like.simps) simp
next
  case (Cons c a)
  then show ?case by (subst append_Cons, subst sql_like.simps) simp
qed

text \<open>
  C32. What a batch records is recalled: after symbols are recorded for a task, a keyword of at least
  three characters that occurs in the task's text gives each of them a boost of at least its score, decayed
  by its age, as long as no more than 50 memories match and no stored score is negative; and recalling does not change
  the store.
\<close>

theorem memory_recalled:
  assumes "Faults s = []" "3 \<le> length kw" "h \<in> set hs"
    and "\<forall>r\<in>set (T_task_memory (DB s)). 0 \<le> TM_Score r" "0 \<le> score"
    and "length (filter (\<lambda>r. sql_like (''%'' @ kw @ ''%'') (TM_Keywords r)) (T_task_memory (DB s))) + length hs \<le> 50"
  shows "\<exists>s1 m b. TaskMemory_RecordBatch now (a @ kw @ z) hs score s = (Inr (), s1) \<and>
    Recall later [kw] s1 = (Inr m, s1) \<and> map_of m h = Some b \<and> score * memory_decay later now \<le> b"
proof -
  let ?s1 = "s\<lparr>DB := (DB s)\<lparr>T_task_memory := T_task_memory (DB s) @ map (memory_row now (a @ kw @ z) score) hs\<rparr>\<rparr>"
  let ?like = "\<lambda>r. sql_like (''%'' @ kw @ ''%'') (TM_Keywords r)"
  let ?rows = "memory_rows kw (DB ?s1)"
  have new: "filter ?like (map (memory_row now (a @ kw @ z) score) hs) = map (memory_row now (a @ kw @ z) score) hs"
    using sql_like_contains [of kw a z] by (auto simp: memory_row_def intro!: filter_True)
  then have short: "length (filter ?like (T_task_memory (DB ?s1))) \<le> 50" using assms(6) by simp
  have tab: "T_task_memory (DB ?s1) = T_task_memory (DB s) @ map (memory_row now (a @ kw @ z) score) hs" by simp
  from short have "set ?rows = set (filter ?like (T_task_memory (DB ?s1)))" by (simp add: memory_rows_def)
  then have rows: "set ?rows = set (filter ?like (T_task_memory (DB s))) \<union> memory_row now (a @ kw @ z) score ` set hs"
    by (simp only: tab filter_append new set_append set_map)
  then have mem: "memory_row now (a @ kw @ z) score h \<in> set ?rows" using assms(3) by simp
  have pos: "\<forall>r\<in>set ?rows. 0 \<le> TM_Score r" unfolding rows using assms(4,5) by (auto simp: memory_row_def)
  have "score * memory_decay later now \<le> recalled later ?rows h"
    using recalled_mono [OF pos mem, of h later] by (simp add: memory_row_def)
  moreover have "map_of (fold (add_memory later) ?rows []) h = Some (recalled later ?rows h)"
    using mem by (force simp: map_of_memories memory_row_def)
  moreover have "Recall later [kw] ?s1 = (Inr (fold (add_memory later) ?rows []), ?s1)"
    using recall_loop_run [of ?s1 later "[kw]" "[]"] assms(1,2) by (simp add: Recall_def)
  ultimately show ?thesis using RecordBatch_run [OF assms(1)] by blast
qed

theorem memory_recalled_witness:
  "\<exists>s1 m b. TaskMemory_RecordBatch 0 ''add json parser'' [7, 8] 1 (open_store empty_db []) = (Inr (), s1) \<and>
    Recall 86400 [''json''] s1 = (Inr m, s1) \<and> map_of m 8 = Some b \<and> 1 * memory_decay 86400 0 \<le> b"
  using memory_recalled [of "open_store empty_db []" "''json''" 8 "[7, 8]" 1 0 "''add ''" "'' parser''" 86400]
  by (simp add: open_store_def empty_db_def)

section \<open>HITS scores\<close>

lemma map_of_set_all: "map_of (fold (\<lambda>n. gomap_set n (g n)) ns m) h = (if h \<in> set ns then Some (g h) else map_of m h)"
  by (induction ns arbitrary: m) auto

lemma keys_set_all: "gomap_ok m \<Longrightarrow> gomap_ok (fold (\<lambda>n. gomap_set n (g n)) ns m)"
  by (induction ns arbitrary: m) auto

lemma link_sums_at:
  "hits_value (link_sums nodes l sc) h = (if h \<in> set nodes then sum_list (map (hits_value sc) (links_at l h)) else 0)"
  by (simp add: hits_value_def link_sums_def map_of_set_all)

definition scaled :: "(rat \<Rightarrow> rat) \<Rightarrow> (hash, rat) gomap \<Rightarrow> rat" where
  "scaled math_Sqrt m = (let norm = sum_list (map (\<lambda>p. snd p * snd p) m) in if norm > 0 then math_Sqrt norm else 1)"

lemma hits_norm_at: "hits_value (hits_norm f m) h = hits_value m h / scaled f m"
proof -
  have "map_of (map (\<lambda>p. (fst p, snd p / c)) m) h = map_option (\<lambda>v. v / c) (map_of m h)" for c
    by (induction m) auto
  then show ?thesis by (simp add: hits_norm_def scaled_def hits_value_def Let_def split: option.split)
qed

definition sqrt_laws :: "(rat \<Rightarrow> rat) \<Rightarrow> bool" where
  "sqrt_laws f \<longleftrightarrow> (\<forall>x>0. 0 < f x \<and> x \<le> f x * f x)"

lemma scaled_pos: "sqrt_laws f \<Longrightarrow> 0 < scaled f m"
  by (simp add: scaled_def Let_def sqrt_laws_def)

lemma squares_nonneg: "0 \<le> sum_list (map (\<lambda>p. snd p * snd p) (m :: (hash, rat) gomap))"
  by (induction m) simp_all

lemma entry_square: "(h, v) \<in> set m \<Longrightarrow> v * v \<le> sum_list (map (\<lambda>p. snd p * snd p) (m :: (hash, rat) gomap))"
proof (induction m)
  case (Cons p m)
  have "0 \<le> snd p * snd p" by simp
  with Cons squares_nonneg [of m] show ?case by (cases "(h, v) = p") (auto intro: add_increasing)
qed simp

lemma square_le: "(v::rat) * v \<le> s * s \<Longrightarrow> 0 < s \<Longrightarrow> v \<le> s"
  using mult_strict_mono [of s v s v] by (meson less_imp_le linorder_not_le order_less_trans)

lemma scaled_bound:
  assumes "sqrt_laws f"
  shows "hits_value m h \<le> scaled f m"
proof (cases "map_of m h")
  case None
  with scaled_pos [OF assms, of m] show ?thesis by (simp add: hits_value_def)
next
  case (Some v)
  define norm where "norm = sum_list (map (\<lambda>p. snd p * snd p) m)"
  have v: "v * v \<le> norm" unfolding norm_def by (rule entry_square [OF map_of_SomeD [OF Some]])
  have "v \<le> scaled f m"
  proof (cases "norm > 0")
    case True
    with assms have f: "0 < f norm" "norm \<le> f norm * f norm" unfolding sqrt_laws_def by blast+
    have "v \<le> f norm" using order_trans [OF v f(2)] f(1) by (rule square_le)
    with True show ?thesis by (simp add: scaled_def norm_def)
  next
    case False
    with v have "v * v \<le> 0" by linarith
    then have "v = 0" by (auto simp: mult_le_0_iff)
    then show ?thesis using scaled_pos [OF assms, of m] by linarith
  qed
  with Some show ?thesis by (simp add: hits_value_def)
qed

text \<open>No score is negative, and after one round none exceeds 1.\<close>

definition nonneg :: "(hash, rat) gomap \<Rightarrow> bool" where
  "nonneg m \<longleftrightarrow> (\<forall>h. 0 \<le> hits_value m h)"

lemma nonneg_sums: "nonneg sc \<Longrightarrow> nonneg (link_sums nodes l sc)"
  by (auto simp: nonneg_def link_sums_at intro!: sum_list_nonneg)

lemma nonneg_norm: "sqrt_laws f \<Longrightarrow> nonneg m \<Longrightarrow> nonneg (hits_norm f m)"
  using scaled_pos [of f m] by (auto simp: nonneg_def hits_norm_at intro!: divide_nonneg_pos)

lemma nonneg_round:
  "sqrt_laws f \<Longrightarrow> nonneg (snd st) \<Longrightarrow> nonneg (fst (hits_round f nodes l st)) \<and> nonneg (snd (hits_round f nodes l st))"
  by (simp add: hits_round_def Let_def nonneg_norm nonneg_sums)

lemma nonneg_rounds: "sqrt_laws f \<Longrightarrow> nonneg (snd ((hits_round f nodes l ^^ k) (ones nodes, ones nodes)))"
proof (induction k)
  case 0
  show ?case by (simp add: nonneg_def hits_value_def ones_def map_of_set_all)
qed (simp add: nonneg_round)

lemma norm_le_1: "sqrt_laws f \<Longrightarrow> hits_value (hits_norm f m) h \<le> 1"
  using scaled_bound [of f m h] scaled_pos [of f m] by (simp add: hits_norm_at)

lemma round_le_1:
  "sqrt_laws f \<Longrightarrow> hits_value (fst (hits_round f nodes l st)) h \<le> 1 \<and> hits_value (snd (hits_round f nodes l st)) h \<le> 1"
  by (simp add: hits_round_def Let_def norm_le_1)

lemma round_unlinked:
  "links_at (snd l) h = [] \<Longrightarrow> hits_value (fst (hits_round f nodes l st)) h = 0"
  "links_at (fst l) h = [] \<Longrightarrow> hits_value (snd (hits_round f nodes l st)) h = 0"
  by (simp_all add: hits_round_def Let_def hits_norm_at link_sums_at)

text \<open>The links found in the store.\<close>

definition out_edges :: "db \<Rightarrow> hash \<Rightarrow> edge list" where
  "out_edges d n = edges_where (\<lambda>r. SourceHash r = n) d"

lemma reads_load_links: "reads d (load_links S ns l) (fold (\<lambda>n. fold (link_edge S n) (out_edges d n)) ns l)"
proof (induction ns arbitrary: l)
  case (Cons n ns)
  have edges: "reads d (EdgesFrom n '''') (out_edges d n)" 
    unfolding EdgesFrom_def out_edges_def using reads_query [of d "edges_where (\<lambda>r. SourceHash r = n)"] by simp
  show ?case unfolding reads_def
  proof (intro allI impI)
    fix s assume s: "clean d s"
    from readsD [OF edges s] obtain s1 where s1: "EdgesFrom n '''' s = (Inr (out_edges d n), s1)" "clean d s1" by blast
    from readsD [OF Cons.IH s1(2), of "fold (link_edge S n) (out_edges d n) l"] s1(1)
    show "\<exists>s'. load_links S (n # ns) l s = (Inr (fold (\<lambda>n. fold (link_edge S n) (out_edges d n)) (n # ns) l), s') \<and> clean d s'"
      by simp
  qed
qed (simp add: reads_ret)

lemma links_at_append: "links_at (gomap_append k v m) h = (if h = k then links_at m k @ [v] else links_at m h)"
  by (simp add: links_at_def gomap_append_def)

lemma link_edges_sound:
  "n \<notin> TargetHash ` set es \<Longrightarrow> links_at (snd (fold (link_edge S m) es l)) n = links_at (snd l) n"
  "m \<noteq> n \<or> S \<inter> TargetHash ` set es = {} \<Longrightarrow> links_at (fst (fold (link_edge S m) es l)) n = links_at (fst l) n"
  by (induction es arbitrary: l) (auto simp: link_edge_def links_at_append)

lemma all_links_sound:
  "\<forall>m\<in>set ns. n \<notin> TargetHash ` set (out_edges d m) \<Longrightarrow>
     links_at (snd (fold (\<lambda>m. fold (link_edge S m) (out_edges d m)) ns l)) n = links_at (snd l) n"
  "S \<inter> TargetHash ` set (out_edges d n) = {} \<Longrightarrow>
     links_at (fst (fold (\<lambda>m. fold (link_edge S m) (out_edges d m)) ns l)) n = links_at (fst l) n"
proof (induction ns arbitrary: l)
  case (Cons m ns)
  { case 1 then show ?case using Cons.IH(1) link_edges_sound(1) by simp next
    case 2 then show ?case using Cons.IH(2) link_edges_sound(2) [of m n S "out_edges d m" l] by (cases "m = n") simp_all }
qed simp_all

lemma links_at_empty: "links_at [] h = []"
  by (simp add: links_at_def)

definition links_of :: "db \<Rightarrow> hash list \<Rightarrow> links \<times> links" where
  "links_of d nodes = fold (\<lambda>n. fold (link_edge (set nodes) n) (out_edges d n)) nodes ([], [])"

definition hits_map :: "hash list \<Rightarrow> (hash, rat) gomap \<times> (hash, rat) gomap \<Rightarrow> (hash, HITSScores) gomap" where
  "hits_map nodes r = fold (\<lambda>n. gomap_set n \<lparr>Authority = hits_value (fst r) n, Hub = hits_value (snd r) n\<rparr>) nodes []"

lemma hits_map: "gomap_ok (hits_map nodes r)" "fst ` set (hits_map nodes r) = set nodes"
  "map_of (hits_map nodes r) h = Some x \<Longrightarrow> Authority x = hits_value (fst r) h \<and> Hub x = hits_value (snd r) h"
proof -
  show "gomap_ok (hits_map nodes r)" unfolding hits_map_def by (rule keys_set_all) simp
  have "dom (map_of (hits_map nodes r)) = set nodes" by (auto simp: hits_map_def map_of_set_all dom_def)
  then show "fst ` set (hits_map nodes r) = set nodes" by (simp add: dom_map_of_conv_image_fst)
  assume "map_of (hits_map nodes r) h = Some x"
  then show "Authority x = hits_value (fst r) h \<and> Hub x = hits_value (snd r) h"
    by (auto simp: hits_map_def map_of_set_all split: if_splits)
qed

lemma reads_ComputeHITS:
  assumes "nodes \<noteq> []"
  shows "\<exists>k. reads d (ComputeHITS f nodes maxIter)
    (Some (hits_map nodes (hits_round f nodes (links_of d nodes) ((hits_round f nodes (links_of d nodes) ^^ k) (ones nodes, ones nodes)))))"
proof -
  have "0 < nat (if maxIter \<le> 0 then 10 else maxIter)" by simp
  then obtain k where k: "nat (if maxIter \<le> 0 then 10 else maxIter) = Suc k" by (metis gr0_implies_Suc)
  have "reads d (ComputeHITS f nodes maxIter) (Some (hits_map nodes ((hits_round f nodes (links_of d nodes) ^^ Suc k) (ones nodes, ones nodes))))"
    unfolding ComputeHITS_def k Let_def case_prod_unfold using assms
    by (simp only: length_0_conv if_False, intro reads_bind [OF reads_load_links] reads_ret_eq)
      (simp only: links_of_def hits_map_def)
  then show ?thesis by (intro exI [of _ k]) (simp only: funpow.simps comp_apply)
qed

text \<open>
  HITS over the edges of the store gives each node of the list an authority and a hub score
  between 0 and 1; a node that no node of the list points to has no authority, and one that points to none of the list is no
  hub, whatever the number of rounds.
\<close>

lemma ComputeHITS_scores:
  assumes "sqrt_laws f" "clean d s" "nodes \<noteq> []"
  shows "\<exists>m s'. ComputeHITS f nodes maxIter s = (Inr (Some m), s') \<and> gomap_ok m \<and> fst ` set m = set nodes \<and>
    (\<forall>h x. map_of m h = Some x \<longrightarrow>
       0 \<le> Authority x \<and> Authority x \<le> 1 \<and> 0 \<le> Hub x \<and> Hub x \<le> 1 \<and>
       ((\<forall>n\<in>set nodes. h \<notin> TargetHash ` set (out_edges d n)) \<longrightarrow> Authority x = 0) \<and>
       (set nodes \<inter> TargetHash ` set (out_edges d h) = {} \<longrightarrow> Hub x = 0))"
proof -
  from reads_ComputeHITS [OF assms(3), of d f maxIter] obtain k where k:
    "reads d (ComputeHITS f nodes maxIter)
      (Some (hits_map nodes (hits_round f nodes (links_of d nodes) ((hits_round f nodes (links_of d nodes) ^^ k) (ones nodes, ones nodes)))))"
    by (elim exE)
  define st where "st = (hits_round f nodes (links_of d nodes) ^^ k) (ones nodes, ones nodes)"
  define r where "r = hits_round f nodes (links_of d nodes) st"
  from readsD [OF k assms(2)] obtain s' where run: "ComputeHITS f nodes maxIter s = (Inr (Some (hits_map nodes r)), s')"
    unfolding r_def st_def by (elim exE conjE)
  have pos: "0 \<le> hits_value (fst r) h" "0 \<le> hits_value (snd r) h" for h
    using nonneg_round [OF assms(1) nonneg_rounds [OF assms(1)]] by (simp_all add: r_def st_def nonneg_def)
  have one: "hits_value (fst r) h \<le> 1" "hits_value (snd r) h \<le> 1" for h using round_le_1 [OF assms(1)] by (simp_all add: r_def)
  have in0: "hits_value (fst r) h = 0" if "\<forall>n\<in>set nodes. h \<notin> TargetHash ` set (out_edges d n)" for h
    unfolding r_def by (rule round_unlinked) (simp only: links_of_def all_links_sound(1) [OF that] links_at_empty fst_conv snd_conv)
  have out0: "hits_value (snd r) h = 0" if "set nodes \<inter> TargetHash ` set (out_edges d h) = {}" for h
    unfolding r_def by (rule round_unlinked) (simp only: links_of_def all_links_sound(2) [OF that] links_at_empty fst_conv snd_conv)
  have "0 \<le> Authority x \<and> Authority x \<le> 1 \<and> 0 \<le> Hub x \<and> Hub x \<le> 1 \<and>
       ((\<forall>n\<in>set nodes. h \<notin> TargetHash ` set (out_edges d n)) \<longrightarrow> Authority x = 0) \<and>
       (set nodes \<inter> TargetHash ` set (out_edges d h) = {} \<longrightarrow> Hub x = 0)" if "map_of (hits_map nodes r) h = Some x" for h x
    using hits_map(3) [OF that] pos [of h] one [of h] in0 [of h] out0 [of h] by presburger
  then show ?thesis
    using run hits_map(1,2) [of nodes r] by (intro exI [of _ "hits_map nodes r"] exI [of _ s'] conjI allI impI) simp_all
qed

definition hits_db :: db where
  "hits_db = empty_db\<lparr>T_edges := [link_row 1 2 ''calls'', link_row 3 2 ''calls'']\<rparr>"

lemma sample_sqrt_laws: "sqrt_laws (\<lambda>x. if x < 1 then 1 else x)"
  by (simp add: sqrt_laws_def)

lemma ComputeHITS_scores_witness:
  "\<exists>m s'. ComputeHITS (\<lambda>x. if x < 1 then 1 else x) [1, 2, 3] 5 (open_store hits_db []) = (Inr (Some m), s') \<and> fst ` set m = {1, 2, 3}"
  using ComputeHITS_scores [of "\<lambda>x. if x < 1 then 1 else x" hits_db "open_store hits_db []" "[1, 2, 3]" 5]
  using sample_sqrt_laws by simp blast

end
