(* ===== verification/ImplicitFeedback.thy ===== *)
theory ImplicitFeedback
  imports ContextRanking
begin

text \<open>
  internal/context/implicit.go: the tracker that infers from the agent's tool calls which of the
  returned symbols it used. Its operations, the step relation of a run with the log of what was
  reported since the last flush, and the invariants by rule induction. Times are nanoseconds; the clock
  and the order of a range over the pending symbols are arguments.
\<close>

section \<open>Identifiers\<close>

definition isIdentChar :: "char \<Rightarrow> bool" where
  "isIdentChar c \<longleftrightarrow> is_lower c \<or> is_upper c \<or> c \<in> set ''0123456789'' \<or> c = CHR ''_''"

fun ident_loop :: "string \<Rightarrow> string \<Rightarrow> string list \<Rightarrow> string list" where
  "ident_loop [] current tokens = (if length current > 0 then tokens @ [current] else tokens)"
| "ident_loop (c # s) current tokens =
     (if isIdentChar c then ident_loop s (current @ [c]) tokens
      else if length current > 0 then ident_loop s [] (tokens @ [current]) else ident_loop s [] tokens)"

definition splitOnNonIdent :: "string \<Rightarrow> string list" where
  "splitOnNonIdent s = ident_loop s [] []"

definition add_ident :: "string \<Rightarrow> string list \<times> string set \<Rightarrow> string list \<times> string set" where
  "add_ident w st =
     (if length w \<le> 2 \<or> strings_ToLower w \<in> snd st then st
      else (fst st @ [w], insert (strings_ToLower w) (snd st)))"

definition extractIdentifiers :: "string \<Rightarrow> string list" where
  "extractIdentifiers content = fst (fold add_ident (splitOnNonIdent content) ([], {}))"

definition extractShortName :: "string \<Rightarrow> string" where
  "extractShortName qn =
     (case strings_LastIndex qn ''.'' of
        Some lastDot \<Rightarrow> drop (lastDot + 1) qn
      | None \<Rightarrow> (case strings_LastIndex qn ''/'' of Some lastSlash \<Rightarrow> drop (lastSlash + 1) qn | None \<Rightarrow> qn))"

section \<open>The tracker\<close>

record PendingAttribution =
  PA_Hash :: hash
  PA_Name :: string
  QualName :: string
  ReturnedAt :: int
  PA_Score :: rat

record ImplicitFeedback =
  pending :: "(hash, PendingAttribution) gomap"
  nameIndex :: "(string, hash list) gomap"
  attributed :: "hash list"
  attributionWindow :: int

definition NewImplicitFeedback :: ImplicitFeedback where
  "NewImplicitFeedback = \<lparr>pending = [], nameIndex = [], attributed = [], attributionWindow = 600 * 10 ^ 9\<rparr>"

definition index_at :: "ImplicitFeedback \<Rightarrow> string \<Rightarrow> hash list" where
  "index_at f key = (case map_of (nameIndex f) key of Some hs \<Rightarrow> hs | None \<Rightarrow> [])"

definition register_one :: "int \<Rightarrow> RankedSymbol \<Rightarrow> ImplicitFeedback \<Rightarrow> ImplicitFeedback" where
  "register_one now s f =
     (let h = NodeHash (Sym_Node s); shortName = extractShortName (QualifiedName (Sym_Node s));
          f1 = f\<lparr>pending := gomap_set h \<lparr>PA_Hash = h, PA_Name = shortName, QualName = QualifiedName (Sym_Node s),
                                     ReturnedAt = now, PA_Score = Sym_Score s\<rparr> (pending f)\<rparr>;
          key = strings_ToLower shortName
      in if key \<noteq> [] \<and> length key > 2 then f1\<lparr>nameIndex := gomap_set key (index_at f key @ [h]) (nameIndex f)\<rparr> else f1)"

definition RegisterReturned :: "int \<Rightarrow> RankedSymbol list \<Rightarrow> ImplicitFeedback \<Rightarrow> ImplicitFeedback" where
  "RegisterReturned now symbols f = fold (register_one now) symbols f"

text \<open>A key of \<open>attributed\<close> is only ever set to true: the list of its keys stands for the map.\<close>

definition attribute_hash :: "int \<Rightarrow> hash \<Rightarrow> ImplicitFeedback \<times> hash list \<Rightarrow> ImplicitFeedback \<times> hash list" where
  "attribute_hash now h st =
     (if h \<in> set (attributed (fst st)) then st
      else (case map_of (pending (fst st)) h of
              None \<Rightarrow> st
            | Some attr \<Rightarrow>
                if now - ReturnedAt attr > attributionWindow (fst st) then st
                else ((fst st)\<lparr>attributed := h # attributed (fst st)\<rparr>, snd st @ [h])))"

definition attribute_ident :: "int \<Rightarrow> string \<Rightarrow> ImplicitFeedback \<times> hash list \<Rightarrow> ImplicitFeedback \<times> hash list" where
  "attribute_ident now ident st = fold (attribute_hash now) (index_at (fst st) (strings_ToLower ident)) st"

definition DetectUsed :: "int \<Rightarrow> string \<Rightarrow> ImplicitFeedback \<Rightarrow> ImplicitFeedback \<times> hash list" where
  "DetectUsed now content f =
     (if content = '''' then (f, []) else fold (attribute_ident now) (extractIdentifiers content) (f, []))"

definition PendingCount :: "ImplicitFeedback \<Rightarrow> nat" where
  "PendingCount f = length (pending f)"

definition AttributedCount :: "ImplicitFeedback \<Rightarrow> nat" where
  "AttributedCount f = length (attributed f)"

definition unindex :: "string \<Rightarrow> hash \<Rightarrow> (string, hash list) gomap \<Rightarrow> (string, hash list) gomap" where
  "unindex key h m =
     (case map_of m key of
        None \<Rightarrow> m
      | Some hashes \<Rightarrow>
          let filtered = filter (\<lambda>existing. existing \<noteq> h) hashes
          in if length filtered = 0 then gomap_del key m else gomap_set key filtered m)"

definition expire_one :: "int \<Rightarrow> hash \<times> PendingAttribution \<Rightarrow> ImplicitFeedback \<times> hash list \<Rightarrow> ImplicitFeedback \<times> hash list" where
  "expire_one now p st =
     (if now - ReturnedAt (snd p) > attributionWindow (fst st)
      then ((fst st)\<lparr>pending := gomap_del (fst p) (pending (fst st)),
                     nameIndex := unindex (strings_ToLower (PA_Name (snd p))) (fst p) (nameIndex (fst st))\<rparr>,
            if fst p \<in> set (attributed (fst st)) then snd st else snd st @ [fst p])
      else st)"

type_synonym visit = "(hash, PendingAttribution) gomap \<Rightarrow> (hash, PendingAttribution) gomap"

definition Expire :: "visit \<Rightarrow> int \<Rightarrow> ImplicitFeedback \<Rightarrow> ImplicitFeedback \<times> hash list" where
  "Expire visit now f = fold (expire_one now) (visit (pending f)) (f, [])"

text \<open>\<open>onUnused\<close> as a function on the state of its owner.\<close>

definition ExpireAndReport :: "visit \<Rightarrow> int \<Rightarrow> (hash \<Rightarrow> 's \<Rightarrow> 's) \<Rightarrow> ImplicitFeedback \<times> 's \<Rightarrow> ImplicitFeedback \<times> 's" where
  "ExpireAndReport visit now onUnused st =
     (case Expire visit now (fst st) of (f, unused) \<Rightarrow> (f, fold onUnused unused (snd st)))"

definition cleared :: "ImplicitFeedback \<Rightarrow> ImplicitFeedback" where
  "cleared f = f\<lparr>pending := [], nameIndex := [], attributed := []\<rparr>"

definition FlushUnused :: "visit \<Rightarrow> ImplicitFeedback \<Rightarrow> ImplicitFeedback \<times> hash list" where
  "FlushUnused visit f = (cleared f, filter (\<lambda>h. h \<notin> set (attributed f)) (map fst (visit (pending f))))"

record UsedSymbol =
  US_Hash :: hash
  US_Name :: string

definition used_symbol :: "hash \<times> PendingAttribution \<Rightarrow> UsedSymbol" where
  "used_symbol p = \<lparr>US_Hash = fst p, US_Name = PA_Name (snd p)\<rparr>"

definition FlushAll :: "visit \<Rightarrow> ImplicitFeedback \<Rightarrow> ImplicitFeedback \<times> hash list \<times> UsedSymbol list" where
  "FlushAll visit f =
     (cleared f,
      map fst (filter (\<lambda>p. fst p \<notin> set (attributed f)) (visit (pending f))),
      map used_symbol (filter (\<lambda>p. fst p \<in> set (attributed f)) (visit (pending f))))"

definition UsedSymbolNames :: "ImplicitFeedback \<Rightarrow> hash list \<Rightarrow> UsedSymbol list" where
  "UsedSymbolNames f hashes =
     concat (map (\<lambda>h. case map_of (pending f) h of Some attr \<Rightarrow> [used_symbol (h, attr)] | None \<Rightarrow> []) hashes)"

definition ResetFeedback :: "ImplicitFeedback \<Rightarrow> ImplicitFeedback" where
  "ResetFeedback f = cleared f"

section \<open>Runs\<close>

text \<open>What the owner has been told since the last flush or reset, oldest first.\<close>

datatype report = Positive hash | Negative hash

definition reordering :: "visit \<Rightarrow> bool" where
  "reordering visit \<longleftrightarrow> (\<forall>m. mset (visit m) = mset m)"

inductive feedback_step :: "ImplicitFeedback \<times> int \<times> report list \<Rightarrow> ImplicitFeedback \<times> int \<times> report list \<Rightarrow> bool" where
  tick: "now \<le> now' \<Longrightarrow> feedback_step (f, now, told) (f, now', told)"
| register: "feedback_step (f, now, told) (RegisterReturned now symbols f, now, told)"
| detect: "DetectUsed now content f = (f', used) \<Longrightarrow> feedback_step (f, now, told) (f', now, told @ map Positive used)"
| expire: "reordering visit \<Longrightarrow> Expire visit now f = (f', unused) \<Longrightarrow>
    feedback_step (f, now, told) (f', now, told @ map Negative unused)"
| flush: "feedback_step (f, now, told) (fst (FlushUnused visit f), now, [])"
| flush_all: "feedback_step (f, now, told) (fst (FlushAll visit f), now, [])"
| reset: "feedback_step (f, now, told) (ResetFeedback f, now, [])"

inductive feedback_run :: "ImplicitFeedback \<times> int \<times> report list \<Rightarrow> bool" where
  start: "feedback_run (NewImplicitFeedback, now, [])"
| step: "feedback_run s \<Longrightarrow> feedback_step s s' \<Longrightarrow> feedback_run s'"

section \<open>Detection\<close>

definition attributable :: "int \<Rightarrow> ImplicitFeedback \<Rightarrow> hash \<Rightarrow> bool" where
  "attributable now f h \<longleftrightarrow>
     h \<notin> set (attributed f) \<and> (\<exists>attr. map_of (pending f) h = Some attr \<and> now - ReturnedAt attr \<le> attributionWindow f)"

text \<open>What a detection keeps and adds, over any list of candidate hashes.\<close>

definition detected :: "int \<Rightarrow> hash set \<Rightarrow> ImplicitFeedback \<Rightarrow> ImplicitFeedback \<times> hash list \<Rightarrow> bool" where
  "detected now hs f st \<longleftrightarrow>
     distinct (snd st) \<and> set (snd st) = {h\<in>hs. attributable now f h} \<and>
     fst st = f\<lparr>attributed := rev (snd st) @ attributed f\<rparr>"

lemma detected_start: "detected now {} f (f, [])"
  by (simp add: detected_def)

lemma detected_hash: "detected now hs f st \<Longrightarrow> detected now (insert h hs) f (attribute_hash now h st)"
  unfolding detected_def attribute_hash_def attributable_def
  by (cases st) (auto split: option.splits)

lemma detected_hashes: "detected now hs f st \<Longrightarrow> detected now (hs \<union> set ks) f (fold (attribute_hash now) ks st)"
proof (induction ks arbitrary: hs st)
  case (Cons k ks)
  from Cons.IH [OF detected_hash [OF Cons.prems, of k]] show ?case by simp
qed simp

lemma detected_idents:
  "detected now hs f st \<Longrightarrow>
     detected now (hs \<union> (\<Union>w\<in>set ws. set (index_at f (strings_ToLower w)))) f (fold (attribute_ident now) ws st)"
proof (induction ws arbitrary: hs st)
  case (Cons w ws)
  have "index_at (fst st) = index_at f" using Cons.prems by (simp add: detected_def index_at_def fun_eq_iff)
  then have "detected now (hs \<union> set (index_at f (strings_ToLower w))) f (attribute_ident now w st)"
    unfolding attribute_ident_def using detected_hashes [OF Cons.prems] by simp
  from Cons.IH [OF this] show ?case by (simp add: Un_assoc)
qed simp

lemma no_identifiers: "extractIdentifiers '''' = []"
  by (simp add: extractIdentifiers_def splitOnNonIdent_def)

lemma DetectUsed_detected:
  "detected now (\<Union>w\<in>set (extractIdentifiers content). set (index_at f (strings_ToLower w))) f (DetectUsed now content f)"
  using detected_idents [OF detected_start, of now f "extractIdentifiers content"] detected_start [of now f]
  by (cases "content = ''''") (simp_all add: DetectUsed_def no_identifiers)

section \<open>Invariants\<close>

text \<open>Every pending symbol can be found under its name.\<close>

definition indexed :: "ImplicitFeedback \<Rightarrow> bool" where
  "indexed f \<longleftrightarrow>
     gomap_ok (pending f) \<and> gomap_ok (nameIndex f) \<and>
     (\<forall>h attr. map_of (pending f) h = Some attr \<and> length (PA_Name attr) > 2 \<longrightarrow> h \<in> set (index_at f (strings_ToLower (PA_Name attr))))"

lemma index_at_simps [simp]:
  "index_at (f\<lparr>pending := m\<rparr>) = index_at f" "index_at (f\<lparr>attributed := hs\<rparr>) = index_at f"
  "index_at (f\<lparr>nameIndex := gomap_set k v (nameIndex f)\<rparr>) key = (if key = k then v else index_at f key)"
  "index_at (f\<lparr>pending := m, nameIndex := gomap_set k v (nameIndex f)\<rparr>) key = (if key = k then v else index_at f key)"
  by (simp_all add: index_at_def fun_eq_iff)

lemma indexed_register: "indexed f \<Longrightarrow> indexed (register_one now s f)"
  unfolding indexed_def register_one_def Let_def
  by (simp add: strings_ToLower_def del: map_of_eq_Some_iff) (auto, metis)

lemma indexed_RegisterReturned: "indexed f \<Longrightarrow> indexed (RegisterReturned now ss f)"
  unfolding RegisterReturned_def by (induction ss arbitrary: f) (simp_all add: indexed_register)

lemma indexed_attributed: "indexed f \<Longrightarrow> indexed (f\<lparr>attributed := hs\<rparr>)"
  by (simp add: indexed_def del: map_of_eq_Some_iff)

lemma index_at_unindex:
  "index_at (f\<lparr>pending := m, nameIndex := unindex key h (nameIndex f)\<rparr>) k = (if k = key then filter (\<lambda>x. x \<noteq> h) (index_at f k) else index_at f k)"
  by (auto simp: index_at_def unindex_def Let_def split: option.splits simp del: map_of_eq_Some_iff)

lemma gomap_ok_unindex: "gomap_ok m \<Longrightarrow> gomap_ok (unindex key h m)"
  by (auto simp: unindex_def Let_def split: option.splits)

lemma indexed_expire: "indexed (fst st) \<Longrightarrow> indexed (fst (expire_one now p st))"
  unfolding indexed_def expire_one_def
  by (simp add: index_at_unindex gomap_ok_unindex del: map_of_eq_Some_iff) metis

lemma indexed_expire_all: "indexed (fst st) \<Longrightarrow> indexed (fst (fold (expire_one now) ps st))"
  by (induction ps arbitrary: st) (simp_all add: indexed_expire)

lemma indexed_cleared: "indexed (cleared f)"
  by (simp add: indexed_def cleared_def)

lemma expire_all_keeps:
  "attributed (fst (fold (expire_one now) ps st)) = attributed (fst st) \<and>
   attributionWindow (fst (fold (expire_one now) ps st)) = attributionWindow (fst st) \<and>
   (\<exists>us. snd (fold (expire_one now) ps st) = snd st @ us \<and>
     us = map fst (filter (\<lambda>p. now - ReturnedAt (snd p) > attributionWindow (fst st) \<and> fst p \<notin> set (attributed (fst st))) ps)) \<and>
   pending (fst (fold (expire_one now) ps st)) =
     filter (\<lambda>e. \<forall>p\<in>set ps. now - ReturnedAt (snd p) > attributionWindow (fst st) \<longrightarrow> fst e \<noteq> fst p) (pending (fst st))"
proof (induction ps arbitrary: st)
  case (Cons p ps)
  show ?case
    using Cons [of "expire_one now p st"]
    by (auto simp: expire_one_def gomap_del_def filter_filter intro!: filter_cong split: if_splits)
qed simp

text \<open>No symbol is reported used twice in a cycle, and none is reported unused after it was reported used.\<close>

definition consistent :: "report list \<Rightarrow> bool" where
  "consistent told \<longleftrightarrow> sorted_wrt (\<lambda>a b. \<forall>h. a = Positive h \<longrightarrow> b \<noteq> Positive h \<and> b \<noteq> Negative h) told"

definition feedback_ok :: "ImplicitFeedback \<times> int \<times> report list \<Rightarrow> bool" where
  "feedback_ok s \<longleftrightarrow>
     (case s of (f, now, told) \<Rightarrow>
        indexed f \<and> attributionWindow f = 600 * 10 ^ 9 \<and> distinct (attributed f) \<and>
        set (attributed f) = {h. Positive h \<in> set told} \<and> consistent told)"

lemma consistent_positives:
  "consistent told \<Longrightarrow> distinct used \<Longrightarrow> \<forall>h\<in>set used. Positive h \<notin> set told \<Longrightarrow> consistent (told @ map Positive used)"
  unfolding consistent_def sorted_wrt_append by (auto simp: sorted_wrt_map distinct_conv_nth sorted_wrt_iff_nth_less)

lemma consistent_negatives:
  "consistent told \<Longrightarrow> \<forall>h\<in>set unused. Positive h \<notin> set told \<Longrightarrow> consistent (told @ map Negative unused)"
  unfolding consistent_def sorted_wrt_append by (auto simp: sorted_wrt_map sorted_wrt_iff_nth_less)

lemma RegisterReturned_keeps:
  "attributed (RegisterReturned now ss f) = attributed f \<and> attributionWindow (RegisterReturned now ss f) = attributionWindow f"
  unfolding RegisterReturned_def by (induction ss arbitrary: f) (simp_all add: register_one_def Let_def)

lemma detect_ok:
  assumes "feedback_ok (f, now, told)" "DetectUsed now content f = (f', used)"
  shows "feedback_ok (f', now, told @ map Positive used)"
proof -
  from DetectUsed_detected [where now = now and content = content and f = f] assms(2)
  have d: "distinct used" "\<forall>h\<in>set used. h \<notin> set (attributed f)" "f' = f\<lparr>attributed := rev used @ attributed f\<rparr>"
    by (auto simp: detected_def attributable_def)
  with assms(1) have "\<forall>h\<in>set used. Positive h \<notin> set told" by (auto simp: feedback_ok_def)
  with assms(1) d show ?thesis
    by (auto simp: feedback_ok_def indexed_attributed intro!: consistent_positives)
qed

lemma expire_ok:
  assumes "feedback_ok (f, now, told)" "Expire visit now f = (f', unused)"
  shows "feedback_ok (f', now, told @ map Negative unused)"
proof -
  from expire_all_keeps [of now "visit (pending f)" "(f, [])"] assms(2)
  have e: "attributed f' = attributed f" "attributionWindow f' = attributionWindow f" "\<forall>h\<in>set unused. h \<notin> set (attributed f)"
    by (auto simp: Expire_def)
  have "indexed f'" using indexed_expire_all [of "(f, [])" now "visit (pending f)"] assms by (simp add: Expire_def feedback_ok_def)
  moreover from assms(1) e(3) have "\<forall>h\<in>set unused. Positive h \<notin> set told" by (auto simp: feedback_ok_def)
  ultimately show ?thesis using assms(1) e(1,2) by (auto simp: feedback_ok_def intro!: consistent_negatives)
qed

lemma cleared_ok: "feedback_ok (f, now, told) \<Longrightarrow> feedback_ok (cleared f, now, [])"
  by (simp add: feedback_ok_def indexed_cleared consistent_def) (simp add: cleared_def)

lemma feedback_run_ok: "feedback_run s \<Longrightarrow> feedback_ok s"
proof (induction rule: feedback_run.induct)
  case (start now)
  then show ?case by (simp add: feedback_ok_def indexed_def NewImplicitFeedback_def consistent_def)
next
  case (step s s')
  from step(2,3) show ?case
  proof cases
    case (register f now told symbols)
    with step(3) show ?thesis
      by (simp add: feedback_ok_def indexed_RegisterReturned RegisterReturned_keeps)
  next
    case (tick now now' f told)
    with step(3) show ?thesis by (simp add: feedback_ok_def)
  next
    case (detect now content f f' used told)
    with step(3) show ?thesis by (simp add: detect_ok)
  next
    case (expire visit now f f' unused told)
    with step(3) show ?thesis by (simp add: expire_ok)
  next
    case (flush f now told visit)
    with step(3) show ?thesis by (simp add: FlushUnused_def cleared_ok)
  next
    case (flush_all f now told visit)
    with step(3) show ?thesis by (simp add: FlushAll_def cleared_ok)
  next
    case (reset f now told)
    with step(3) show ?thesis by (simp add: ResetFeedback_def cleared_ok)
  qed
qed

text \<open>
  C33. Implicit feedback never contradicts itself: in every run, between two flushes or resets, no symbol is
  reported used twice, none is reported unused after it was reported used, and the reports of a final flush keep
  this.
\<close>

theorem feedback_consistent:
  assumes "feedback_run (f, now, told)" "reordering visit"
  shows "consistent told \<and> consistent (told @ map Negative (snd (FlushUnused visit f)))"
proof -
  from feedback_run_ok [OF assms(1)] have ok: "consistent told" "set (attributed f) = {h. Positive h \<in> set told}"
    by (simp_all add: feedback_ok_def)
  have "\<forall>h\<in>set (snd (FlushUnused visit f)). Positive h \<notin> set told" using ok(2) by (auto simp: FlushUnused_def)
  with ok(1) show ?thesis by (simp add: consistent_negatives)
qed

definition returned_symbol :: "hash \<Rightarrow> string \<Rightarrow> RankedSymbol" where
  "returned_symbol h qn = \<lparr>Sym_Node = sample_node\<lparr>NodeHash := h, QualifiedName := qn\<rparr>, Sym_Score = 1,
     Sym_Components = \<lparr>SC_BlastRadius = 0, SC_Confidence = 0, SC_Recency = 0, SC_Distance = 0, SC_Feedback = 0, SC_Session = 0\<rparr>,
     Sym_Provenance = [], Sym_Distance = 0, Sym_BFSDistance = 0, Sym_RWRScore = 0\<rparr>"

definition two_returned :: ImplicitFeedback where
  "two_returned = RegisterReturned 0 [returned_symbol 1 ''repo://a.go.ParseFile'', returned_symbol 2 ''repo://a.go.Emit''] NewImplicitFeedback"

lemma two_returned_run: "feedback_run (two_returned, 0, [])"
  unfolding two_returned_def by (rule feedback_run.step [OF feedback_run.start feedback_step.register])

lemma two_returned_detects: "snd (DetectUsed 5 ''calls parsefile()'' two_returned) = [1]"
  by code_simp

theorem feedback_consistent_witness:
  "consistent ([Positive 1] @ map Negative (snd (FlushUnused rev (fst (DetectUsed 5 ''calls parsefile()'' two_returned)))))"
proof -
  have "feedback_run (two_returned, 5, [])"
    by (rule feedback_run.step [OF two_returned_run feedback_step.tick]) simp
  moreover have "feedback_step (two_returned, 5, [])
      (fst (DetectUsed 5 ''calls parsefile()'' two_returned), 5, [] @ map Positive (snd (DetectUsed 5 ''calls parsefile()'' two_returned)))"
    by (rule feedback_step.detect) simp
  ultimately have "feedback_run (fst (DetectUsed 5 ''calls parsefile()'' two_returned), 5, [Positive 1])"
    unfolding two_returned_detects by (simp only: append_Nil list.map) (rule feedback_run.step)
  from feedback_consistent [OF this, of rev] show ?thesis by (simp add: reordering_def)
qed

text \<open>
  C34. In every run a detection reports each symbol at most once and only symbols that are pending, within the
  window and not yet attributed, all of which it attributes; and it misses none: each such symbol whose
  short name has more than two characters and occurs, up to case, among the identifiers of the text is reported.
\<close>

theorem DetectUsed_exact:
  assumes "feedback_run (f, now, told)"
  shows "distinct (snd (DetectUsed t content f)) \<and>
    (\<forall>h\<in>set (snd (DetectUsed t content f)). attributable t f h) \<and>
    set (attributed (fst (DetectUsed t content f))) = set (attributed f) \<union> set (snd (DetectUsed t content f)) \<and>
    (\<forall>h attr. map_of (pending f) h = Some attr \<longrightarrow> attributable t f h \<longrightarrow> length (PA_Name attr) > 2 \<longrightarrow>
       strings_ToLower (PA_Name attr) \<in> strings_ToLower ` set (extractIdentifiers content) \<longrightarrow>
       h \<in> set (snd (DetectUsed t content f)))"
proof -
  from feedback_run_ok [OF assms] have ix: "indexed f" by (simp add: feedback_ok_def)
  have d: "detected t (\<Union>w\<in>set (extractIdentifiers content). set (index_at f (strings_ToLower w))) f (DetectUsed t content f)"
    by (rule DetectUsed_detected)
  have "h \<in> set (snd (DetectUsed t content f))"
    if h: "map_of (pending f) h = Some attr" "attributable t f h" "length (PA_Name attr) > 2"
      and w: "strings_ToLower (PA_Name attr) \<in> strings_ToLower ` set (extractIdentifiers content)" for h attr
  proof -
    from ix h(1,3) have "h \<in> set (index_at f (strings_ToLower (PA_Name attr)))" unfolding indexed_def by blast
    with w have "h \<in> (\<Union>w\<in>set (extractIdentifiers content). set (index_at f (strings_ToLower w)))" by auto
    with d h(2) show ?thesis unfolding detected_def by blast
  qed
  moreover have "distinct (snd (DetectUsed t content f))" "\<forall>h\<in>set (snd (DetectUsed t content f)). attributable t f h"
    using d unfolding detected_def by blast+
  moreover have "set (attributed (fst (DetectUsed t content f))) = set (attributed f) \<union> set (snd (DetectUsed t content f))"
    using d by (auto simp: detected_def)
  ultimately show ?thesis by blast
qed

theorem DetectUsed_exact_witness:
  "distinct (snd (DetectUsed 5 ''calls parsefile()'' two_returned)) \<and> snd (DetectUsed 5 ''calls parsefile()'' two_returned) = [1]"
  using DetectUsed_exact [OF two_returned_run, of 5 "''calls parsefile()''"] two_returned_detects by blast

text \<open>
  Expiry removes exactly the pending symbols past the window, reports exactly those of them that were
  not attributed, each once, and leaves what is attributed; every symbol left is still attributable or attributed.
\<close>

lemma Expire_exact:
  assumes "feedback_run (f, now, told)" "reordering visit"
  shows "distinct (snd (Expire visit t f)) \<and>
    set (snd (Expire visit t f)) =
      {h. \<exists>attr. (h, attr) \<in> set (pending f) \<and> t - ReturnedAt attr > attributionWindow f \<and> h \<notin> set (attributed f)} \<and>
    pending (fst (Expire visit t f)) = filter (\<lambda>e. t - ReturnedAt (snd e) \<le> attributionWindow f) (pending f) \<and>
    attributed (fst (Expire visit t f)) = attributed f \<and>
    (\<forall>h\<in>fst ` set (pending (fst (Expire visit t f))). attributable t (fst (Expire visit t f)) h \<or> h \<in> set (attributed f))"
proof -
  from feedback_run_ok [OF assms(1)] have keys: "gomap_ok (pending f)" by (simp add: feedback_ok_def indexed_def)
  from assms(2) have perm: "mset (visit (pending f)) = mset (pending f)" by (simp add: reordering_def)
  then have mem: "set (visit (pending f)) = set (pending f)" by (rule mset_eq_setD)
  from keys perm have "gomap_ok (visit (pending f))" by (metis mset_eq_imp_distinct_iff mset_map)
  note e = expire_all_keeps [of t "visit (pending f)" "(f, [])"]
  have out: "snd (Expire visit t f) = map fst (filter (\<lambda>p. t - ReturnedAt (snd p) > attributionWindow f \<and> fst p \<notin> set (attributed f)) (visit (pending f)))"
    using e by (simp add: Expire_def)
  have att: "attributed (fst (Expire visit t f)) = attributed f" "attributionWindow (fst (Expire visit t f)) = attributionWindow f"
    using e by (simp_all add: Expire_def)
  have "distinct (snd (Expire visit t f))" unfolding out by (rule distinct_map_filter) fact
  moreover have "set (snd (Expire visit t f)) =
      {h. \<exists>attr. (h, attr) \<in> set (pending f) \<and> t - ReturnedAt attr > attributionWindow f \<and> h \<notin> set (attributed f)}"
    unfolding out by (auto simp: mem image_iff)
  moreover have rest: "pending (fst (Expire visit t f)) = filter (\<lambda>e. t - ReturnedAt (snd e) \<le> attributionWindow f) (pending f)"
  proof -
    have "(\<forall>p\<in>set (pending f). t - ReturnedAt (snd p) > attributionWindow f \<longrightarrow> fst e \<noteq> fst p) \<longleftrightarrow> t - ReturnedAt (snd e) \<le> attributionWindow f"
      if "e \<in> set (pending f)" for e
      using that keys by (metis eq_key_imp_eq_value linorder_not_le prod.collapse)
    then show ?thesis using e by (simp add: Expire_def mem cong: filter_cong)
  qed
  moreover have "attributable t (fst (Expire visit t f)) h \<or> h \<in> set (attributed f)"
    if "h \<in> fst ` set (pending (fst (Expire visit t f)))" for h
  proof -
    from that obtain attr where a: "(h, attr) \<in> set (pending f)" "t - ReturnedAt attr \<le> attributionWindow f"
      unfolding rest by auto
    have "gomap_ok (filter (\<lambda>e. t - ReturnedAt (snd e) \<le> attributionWindow f) (pending f))" using keys by (rule distinct_map_filter)
    with a have "map_of (pending (fst (Expire visit t f))) h = Some attr" unfolding rest by (intro map_of_is_SomeI) auto
    with a(2) show ?thesis unfolding attributable_def att by blast
  qed
  ultimately show ?thesis using att(1) by blast
qed

lemma Expire_exact_witness:
  "snd (Expire rev (600 * 10 ^ 9 + 1) (fst (DetectUsed 5 ''calls parsefile()'' two_returned))) = [2] \<and>
   pending (fst (Expire rev (600 * 10 ^ 9 + 1) two_returned)) = [] \<and>
   distinct (snd (Expire rev (600 * 10 ^ 9 + 1) two_returned))"
proof -
  have "snd (Expire rev (600 * 10 ^ 9 + 1) (fst (DetectUsed 5 ''calls parsefile()'' two_returned))) = [2]" by code_simp
  moreover have "pending (fst (Expire rev (600 * 10 ^ 9 + 1) two_returned)) = []" by code_simp
  ultimately show ?thesis
    using Expire_exact [OF two_returned_run, of rev "600 * 10 ^ 9 + 1"] by (simp add: reordering_def)
qed

end
