(* ===== verification/Keywords.thy ===== *)
theory Keywords
  imports ContextPack
begin

text \<open>
  internal/context: the text side of retrieval. Word tables, extraction of keywords and path terms from a
  task description, queries for the full-text index, the hash of a keyword cluster, and the filters on qualified
  names (all in context.go). Texts are ASCII. \<open>srt\<close> is the sort by length, longest first, unstable as in the
  code.
\<close>

section \<open>Word tables\<close>

definition stopWords :: "string list" where
  "stopWords =
    [''the'', ''a'', ''an'', ''in'', ''to'', ''for'', ''is'', ''of'', ''and'', ''or'', ''on'', ''at'', ''by'',
     ''it'', ''be'', ''as'', ''do'', ''no'', ''if'', ''so'', ''up'', ''my'', ''we'', ''all'', ''this'',
     ''that'', ''with'', ''from'', ''what'', ''how'', ''can'', ''will'', ''should'', ''would'', ''about'',
     ''into'', ''when'', ''where'', ''which'', ''new'', ''get'', ''set'', ''add'', ''make'', ''init'', ''has'',
     ''err'', ''func'', ''type'', ''var'', ''const'', ''return'', ''import'', ''package'', ''struct'',
     ''interface'', ''string'', ''int'', ''bool'', ''error'', ''nil'', ''refactor'', ''fix'', ''update'',
     ''change'', ''modify'', ''implement'', ''create'', ''delete'', ''remove'', ''move'', ''improve'',
     ''optimize'', ''review'']"

definition vocabNoiseWords :: "string list" where
  "vocabNoiseWords =
    [''use'', ''uses'', ''used'', ''using'', ''find'', ''finds'', ''found'', ''finding'', ''write'',
     ''writes'', ''written'', ''writing'', ''read'', ''reads'', ''reading'', ''run'', ''runs'', ''running'',
     ''call'', ''calls'', ''called'', ''calling'', ''send'', ''sends'', ''sent'', ''sending'', ''take'',
     ''takes'', ''taken'', ''taking'', ''make'', ''makes'', ''made'', ''making'', ''show'', ''shows'',
     ''shown'', ''showing'', ''check'', ''checks'', ''checked'', ''checking'', ''allow'', ''allows'',
     ''allowed'', ''allowing'', ''add'', ''adds'', ''added'', ''adding'', ''handle'', ''handles'', ''handled'',
     ''handling'', ''raise'', ''raises'', ''raised'', ''raising'', ''return'', ''returns'', ''returned'',
     ''returning'', ''not'', ''also'', ''only'', ''just'', ''whether'', ''instead'', ''already'', ''still'',
     ''properly'', ''correctly'', ''currently'', ''multiple'', ''various'', ''different'', ''specific'',
     ''certain'', ''given'', ''related'', ''similar'', ''understand'', ''ensure'', ''determine'', ''support'',
     ''supports'', ''needs'', ''works'', ''working'', ''value'', ''values'', ''data'', ''result'', ''results'',
     ''output'', ''input'', ''inputs'', ''argument'', ''arguments'', ''case'', ''cases'', ''issue'',
     ''issues'', ''problem'', ''way'', ''part'', ''thing'', ''method'', ''methods'', ''function'',
     ''functions'', ''class'', ''classes'', ''object'', ''objects'', ''file'', ''files'', ''code'', ''test'',
     ''tests'', ''when'', ''where'', ''after'', ''before'', ''between'', ''during'', ''without'', ''within'',
     ''through'', ''against'', ''around'']"

definition abbreviations :: "(string, string) gomap" where
  "abbreviations =
    [(''ctx'', ''context''), (''fmt'', ''format''), (''req'', ''request''), (''resp'', ''response''),
     (''res'', ''response''), (''cfg'', ''config''), (''conf'', ''config''), (''msg'', ''message''),
     (''db'', ''database''), (''srv'', ''server''), (''svc'', ''service''), (''mgr'', ''manager''),
     (''pkg'', ''package''), (''idx'', ''index''), (''iter'', ''iterator''), (''buf'', ''buffer''),
     (''conn'', ''connection''), (''addr'', ''address''), (''auth'', ''auth''), (''mux'', ''multiplexer''),
     (''cmd'', ''command''), (''args'', ''arguments''), (''opts'', ''options''), (''params'', ''parameters''),
     (''desc'', ''description''), (''info'', ''information''), (''stat'', ''statistics''),
     (''stats'', ''statistics'')]"

definition extract_actionVerbs :: "string list" where
  "extract_actionVerbs =
    [''add'', ''implement'', ''create'', ''build'', ''fix'', ''refactor'', ''update'', ''change'', ''remove'',
     ''delete'', ''move'', ''find'', ''detect'', ''compute'', ''generate'', ''resolve'', ''wire'', ''connect'',
     ''extend'', ''introduce'', ''integrate'']"

definition fillerWords :: "string list" where
  "fillerWords =
    [''a'', ''an'', ''the'', ''new'', ''existing'', ''all'', ''some'', ''each'', ''that'', ''which'']"

definition pathStopWords :: "string list" where
  "pathStopWords =
    [''about'', ''above'', ''after'', ''again'', ''also'', ''always'', ''based'', ''because'', ''been'',
     ''before'', ''being'', ''between'', ''both'', ''called'', ''change'', ''check'', ''code'', ''could'',
     ''create'', ''custom'', ''data'', ''debug'', ''default'', ''does'', ''doing'', ''done'', ''during'',
     ''each'', ''ensure'', ''every'', ''existing'', ''extend'', ''field'', ''file'', ''find'', ''first'',
     ''following'', ''from'', ''function'', ''given'', ''have'', ''here'', ''high'', ''implement'', ''into'',
     ''just'', ''keep'', ''know'', ''large'', ''like'', ''list'', ''look'', ''make'', ''many'', ''method'',
     ''more'', ''most'', ''much'', ''must'', ''name'', ''need'', ''never'', ''node'', ''only'', ''open'',
     ''other'', ''over'', ''part'', ''pass'', ''path'', ''place'', ''point'', ''read'', ''request'',
     ''result'', ''return'', ''right'', ''same'', ''should'', ''show'', ''since'', ''single'', ''some'',
     ''specific'', ''start'', ''state'', ''step'', ''still'', ''support'', ''system'', ''take'', ''test'',
     ''text'', ''that'', ''then'', ''there'', ''these'', ''they'', ''thing'', ''this'', ''through'', ''time'',
     ''trace'', ''tracing'', ''type'', ''under'', ''update'', ''used'', ''using'', ''value'', ''very'',
     ''want'', ''well'', ''what'', ''when'', ''where'', ''which'', ''while'', ''will'', ''with'', ''within'',
     ''without'', ''work'', ''would'', ''write'', ''zero'', ''adding'', ''added'', ''calls'', ''handle'',
     ''handling'', ''level'', ''logic'', ''main'', ''module'', ''object'', ''operation'', ''option'',
     ''order'', ''perform'', ''process'', ''provide'', ''running'', ''service'', ''setting'', ''source'',
     ''string'', ''class'', ''model'', ''view'', ''base'', ''error'', ''response'', ''down'']"

section \<open>Package strings and unicode\<close>

definition strings_Fields :: "string \<Rightarrow> string list" where
  "strings_Fields s = strings_FieldsFunc s is_space"

definition strings_ContainsAny :: "string \<Rightarrow> char set \<Rightarrow> bool" where
  "strings_ContainsAny s chars \<longleftrightarrow> (\<exists>c\<in>set s. c \<in> chars)"

definition char_upper :: "char \<Rightarrow> char" where
  "char_upper c = (let n = (of_char c :: nat) in if 97 \<le> n \<and> n \<le> 122 then char_of (n - 32) else c)"

definition strings_ToUpper :: "string \<Rightarrow> string" where
  "strings_ToUpper s = map char_upper s"

definition digits :: "char set" where "digits = set ''0123456789''"

text \<open>The quotation mark, the apostrophe and the backquote.\<close>

definition quotes :: "char list" where "quotes = [CHR 0x22, CHR 0x27, CHR 0x60]"

definition word_cutset :: "char set" where
  "word_cutset = set (''.,;:!?()[]{}#'' @ quotes)"

section \<open>Identifiers\<close>

definition hasMixedCase :: "string \<Rightarrow> bool" where
  "hasMixedCase s \<longleftrightarrow> (\<exists>c\<in>set s. is_upper c) \<and> (\<exists>c\<in>set s. is_lower c)"

fun upper_loop :: "string \<Rightarrow> string \<Rightarrow> string list" where
  "upper_loop [] current = (if length current > 0 then [current] else [])"
| "upper_loop (c # cs) current =
     (if is_upper c \<and> length current > 0 then current # upper_loop cs [c] else upper_loop cs (current @ [c]))"

definition splitIdentifier :: "string \<Rightarrow> string list" where
  "splitIdentifier s =
     (if strings_Contains s ''_'' then filter (\<lambda>p. p \<noteq> []) (split_on CHR ''_'' s) else upper_loop s [])"

definition isVersionOrAbbrev :: "string \<Rightarrow> bool" where
  "isVersionOrAbbrev s \<longleftrightarrow>
     strings_ToLower s \<in> {''e.g'', ''i.e'', ''etc'', ''vs'', ''eg'', ''ie''} \<or> (\<forall>c\<in>set s. c = CHR ''.'' \<or> c \<in> digits)"

definition isCompound :: "string \<Rightarrow> bool" where
  "isCompound kw \<longleftrightarrow> strings_Contains kw ''_'' \<or> strings_Contains kw ''.'' \<or> hasMixedCase kw"

section \<open>Code patterns\<close>

text \<open>A list of words with the set of those already seen; \<open>seen[w] = true\<close> and \<open>append\<close>.\<close>

type_synonym seen_list = "string list \<times> string set"

definition add_new :: "string \<Rightarrow> seen_list \<Rightarrow> seen_list" where
  "add_new w st = (if w \<in> snd st then st else (fst st @ [w], insert w (snd st)))"

definition add_pattern :: "string \<Rightarrow> seen_list \<Rightarrow> seen_list" where
  "add_pattern s st = (if s \<noteq> [] \<and> length s \<ge> 3 \<and> length s \<le> 100 then add_new s st else st)"

definition code_pattern :: "string \<Rightarrow> seen_list \<Rightarrow> seen_list" where
  "code_pattern word st =
     (let w1 = strings_TrimLeft (strings_TrimRight word (set ('',;:!?]}'' @ quotes))) (set (''([{'' @ quotes));
          hasParens = strings_HasSuffix w1 ''()'';
          w2 = (if hasParens then take (length w1 - 2) w1 else w1);
          w = strings_TrimLeft w2 {CHR ''.''};
          parts = split_on CHR ''.'' w
      in if w = [] \<or> length w < 3 then st
         else if isVersionOrAbbrev w then st
         else if hasParens then
           (if strings_Contains w ''.'' then add_pattern (last parts) (add_pattern w st) else add_pattern w st)
         else if strings_Contains w ''.'' then
           (if length parts \<ge> 2 \<and> length (hd parts) > 0 \<and> is_upper (hd (hd parts)) then add_pattern (last parts) (add_pattern w st)
            else if strings_Contains w ''_'' then add_pattern (last parts) (add_pattern w st)
            else st)
         else st)"

definition extractCodePatterns :: "string \<Rightarrow> string list" where
  "extractCodePatterns desc = fst (fold code_pattern (strings_Fields desc) ([], {}))"

section \<open>Keyword sets\<close>

record KeywordSet =
  Exact :: "string list"
  Compounds :: "string list"
  Components :: "string list"

definition KeywordSet_All :: "KeywordSet \<Rightarrow> string list" where
  "KeywordSet_All ks = Exact ks @ Compounds ks @ Components ks"

definition KeywordSet_Primary :: "KeywordSet \<Rightarrow> string list" where
  "KeywordSet_Primary ks = Exact ks @ Compounds ks"

definition KeywordSet_IsEmpty :: "KeywordSet \<Rightarrow> bool" where
  "KeywordSet_IsEmpty ks \<longleftrightarrow> length (Exact ks) = 0 \<and> length (Compounds ks) = 0 \<and> length (Components ks) = 0"

text \<open>The texts between pairs of backquotes.\<close>

function quoted_texts :: "string \<Rightarrow> string list" where
  "quoted_texts remaining =
     (case strings_Index remaining [CHR 0x60] of
        None \<Rightarrow> []
      | Some start \<Rightarrow>
          let rest = drop (start + 1) remaining in
          (case strings_Index rest [CHR 0x60] of
             None \<Rightarrow> []
           | Some stop \<Rightarrow> take stop rest # quoted_texts (drop (stop + 1) rest)))"
  by pat_completeness auto
termination
proof (relation "measure length")
  fix remaining start rest stop
  assume "strings_Index remaining [CHR 0x60] = Some start" "rest = drop (start + 1) remaining"
  then show "(drop (stop + 1) rest, remaining) \<in> measure length"
    by (cases remaining) (auto split: if_splits)
qed simp

declare quoted_texts.simps [simp del]

text \<open>The variables of the extraction.\<close>

record extraction =
  x_seen :: "string set"
  x_exact :: "string list"
  x_compounds :: "string list"
  x_priority :: "string list"
  x_components :: "string list"
  x_bigrams :: "string list"

definition x_add :: "((string list \<Rightarrow> string list) \<Rightarrow> extraction \<Rightarrow> extraction) \<Rightarrow> string \<Rightarrow> extraction \<Rightarrow> extraction" where
  "x_add update w x = (if w \<in> x_seen x then x else update (\<lambda>ws. ws @ [w]) (x\<lparr>x_seen := insert w (x_seen x)\<rparr>))"

definition x_quoted :: "string \<Rightarrow> extraction \<Rightarrow> extraction" where
  "x_quoted q x =
     (let quoted = strings_TrimSpace q; lower = strings_ToLower quoted in
      if quoted \<noteq> [] \<and> length quoted \<le> 100 \<and> \<not> strings_Contains quoted '' ''
      then (let x1 = x_add x_exact_update quoted x in if lower \<noteq> quoted then x_add x_exact_update lower x1 else x1)
      else x)"

definition x_pattern :: "string \<Rightarrow> extraction \<Rightarrow> extraction" where
  "x_pattern cp x =
     (let lower = strings_ToLower cp; x1 = x_add x_compounds_update cp x
      in if lower \<noteq> cp then x_add x_compounds_update lower x1 else x1)"

definition clean_word :: "string \<Rightarrow> string" where
  "clean_word w = strings_Trim w word_cutset"

definition capitalize :: "string \<Rightarrow> string" where
  "capitalize s = strings_ToUpper (take 1 s) @ drop 1 s"

text \<open>The target of an action verb: the first word after it that is no filler.\<close>

definition x_target :: "string \<Rightarrow> extraction \<Rightarrow> extraction" where
  "x_target w x =
     (let cleanLower = strings_ToLower w in
      if strings_Contains cleanLower ''_'' \<or> strings_Contains cleanLower ''.'' \<or> hasMixedCase w then
        (let x1 = x_add x_compounds_update cleanLower x
         in if hasMixedCase w then x_add x_compounds_update w x1 else x1)
      else
        (let x1 = x_add x_priority_update cleanLower x
         in if length cleanLower > 2 then x_add x_priority_update (capitalize cleanLower) x1 else x1))"

definition verb_target :: "string list \<Rightarrow> string option" where
  "verb_target words =
     (case words of
        [] \<Rightarrow> None
      | first # rest \<Rightarrow>
          if strings_ToLower (clean_word first) \<in> set extract_actionVerbs
          then List.find (\<lambda>clean. strings_ToLower clean \<noteq> [] \<and> strings_ToLower clean \<notin> set fillerWords) (map clean_word rest)
          else None)"

definition x_component :: "string \<Rightarrow> extraction \<Rightarrow> extraction" where
  "x_component p x =
     (let pl = strings_ToLower p in
      if length pl < 2 \<or> pl \<in> set stopWords \<or> pl \<in> x_seen x then x
      else
        let x1 = x_add x_components_update pl x
        in case map_of abbreviations pl of
             Some expanded \<Rightarrow> x_add x_components_update expanded x1
           | None \<Rightarrow> x1)"

definition x_word :: "string \<Rightarrow> extraction \<Rightarrow> extraction" where
  "x_word word x =
     (let w = clean_word word; parts = splitIdentifier w; lower = strings_ToLower w in
      if w = [] then x
      else
        let x1 =
          (if strings_Contains lower ''_'' \<or> strings_Contains lower ''.'' \<or> length parts > 1 then
             (let x1 = (if lower \<notin> set stopWords then x_add x_compounds_update lower x else x)
              in if hasMixedCase w then x_add x_compounds_update w x1 else x1)
           else x)
        in fold x_component parts x1)"

definition bigram_word :: "string \<Rightarrow> bool" where
  "bigram_word w \<longleftrightarrow>
     w \<noteq> [] \<and> w \<notin> set stopWords \<and> w \<notin> set fillerWords \<and> length w \<ge> 3 \<and>
     \<not> strings_ContainsAny w (set ''-/0123456789'')"

definition x_bigram :: "string \<times> string \<Rightarrow> extraction \<Rightarrow> extraction" where
  "x_bigram p x =
     (case p of (a, b) \<Rightarrow>
        if a \<in> set extract_actionVerbs \<or> b \<in> set extract_actionVerbs then x
        else if length a < 4 \<and> length b < 4 then x
        else x_add x_bigrams_update (a @ ''_'' @ b) (x_add x_bigrams_update (capitalize a @ capitalize b) x))"

definition extraction_start :: extraction where
  "extraction_start = \<lparr>x_seen = {}, x_exact = [], x_compounds = [], x_priority = [], x_components = [], x_bigrams = []\<rparr>"

definition extraction_of :: "string \<Rightarrow> extraction" where
  "extraction_of desc =
     (let words = strings_Fields desc;
          x1 = fold x_quoted (quoted_texts desc) extraction_start;
          x2 = fold x_pattern (extractCodePatterns desc) x1;
          x3 = (case verb_target words of Some w \<Rightarrow> x_target w x2 | None \<Rightarrow> x2);
          x4 = fold x_word words x3;
          cleanWords = filter bigram_word (map (\<lambda>w. strings_ToLower (clean_word w)) words)
      in fold x_bigram (zip cleanWords (tl cleanWords)) x4)"

definition extractKeywordSet :: "(string list \<Rightarrow> string list) \<Rightarrow> string \<Rightarrow> KeywordSet" where
  "extractKeywordSet srt desc =
     (let x = extraction_of desc
      in \<lparr>Exact = x_exact x, Compounds = x_compounds x, Components = x_priority x @ srt (x_components x) @ x_bigrams x\<rparr>)"

definition extractKeywords :: "(string list \<Rightarrow> string list) \<Rightarrow> string \<Rightarrow> string list" where
  "extractKeywords srt desc = KeywordSet_All (extractKeywordSet srt desc)"

definition NormalizeKeywords :: "(string list \<Rightarrow> string list) \<Rightarrow> string \<Rightarrow> string" where
  "NormalizeKeywords srt taskDescription =
     (let kws = srt (extractKeywords srt taskDescription)
      in strings_Join (if length kws > 10 then take 10 kws else kws) '' '')"

section \<open>Queries\<close>

definition fts_part :: "string \<Rightarrow> string" where
  "fts_part kw =
     (if isCompound kw then ''symbol_name:'' @ [CHR 0x22] @ filter (\<lambda>c. c \<noteq> CHR 0x22) kw @ [CHR 0x22] else kw)"

definition buildFTSQuery :: "string list \<Rightarrow> string" where
  "buildFTSQuery keywords = (if length keywords = 0 then '''' else strings_Join (map fts_part keywords) '' OR '')"

definition keywordClusterHash :: "sha \<Rightarrow> string list \<Rightarrow> hash" where
  "keywordClusterHash H keywords =
     (if length keywords = 0 then EmptyHash
      else H (''cluster'' @ [CHR 0x00] @ strings_Join (sort_Strings keywords) [CHR 0x00]))"

definition decompose_part :: "string \<Rightarrow> seen_list \<Rightarrow> seen_list" where
  "decompose_part part st =
     (let lower = strings_ToLower part; st1 = (if length lower \<ge> 3 then add_new lower st else st)
      in if part \<noteq> lower then add_new part st1 else st1)"

definition decompose_kw :: "string \<Rightarrow> seen_list \<Rightarrow> seen_list" where
  "decompose_kw kw st =
     (if \<not> isCompound kw then add_new kw st
      else fold (\<lambda>seg. fold decompose_part (splitIdentifier seg)) (split_on CHR ''.'' kw) st)"

definition decomposeCompounds :: "string list \<Rightarrow> string" where
  "decomposeCompounds keywords = strings_Join (fst (fold decompose_kw keywords ([], {}))) '' OR ''"

text \<open>Here the parts are prefixed, so the words seen are kept beside them.\<close>

definition targeted_part :: "string \<Rightarrow> seen_list \<Rightarrow> seen_list" where
  "targeted_part s st =
     (let lower = strings_ToLower s in
      if length lower < 3 \<or> lower \<in> snd st then st
      else
        let st1 = (fst st @ [''symbol_name:'' @ lower], insert lower (snd st))
        in if s \<noteq> lower \<and> s \<notin> snd st1 then (fst st1 @ [''symbol_name:'' @ s], insert s (snd st1)) else st1)"

definition targeted_kw :: "string \<Rightarrow> seen_list \<Rightarrow> seen_list" where
  "targeted_kw kw st =
     (if \<not> isCompound kw then (if length kw \<ge> 3 then add_new kw st else st)
      else if strings_Contains kw ''.'' then
        (let dotParts = split_on CHR ''.'' kw
         in fold (\<lambda>seg. if strings_HasPrefix seg ''__'' \<and> strings_HasSuffix seg ''__'' then id else fold targeted_part (splitIdentifier seg))
              (drop (length dotParts - 2) dotParts) st)
      else fold targeted_part (splitIdentifier kw) st)"

definition decomposeCompoundsTargeted :: "string list \<Rightarrow> string" where
  "decomposeCompoundsTargeted keywords = strings_Join (fst (fold targeted_kw keywords ([], {}))) '' OR ''"

section \<open>Weights\<close>

definition isVocabWorthy :: "string \<Rightarrow> bool" where
  "isVocabWorthy kw \<longleftrightarrow>
     (if length kw < 4 then False else if kw \<in> set vocabNoiseWords then False else if kw \<in> set stopWords then False else True)"

definition vocabCountWeight :: "int \<Rightarrow> rat" where
  "vocabCountWeight n =
     (if n \<le> 2 then 3/10
      else (let ratio = of_int (n - 2) / 8 in 3/10 + 1/2 * (if ratio > 1 then 1 else ratio)))"

text \<open>A tenth score of zero makes the quotient infinite.\<close>

definition resultConfidence :: "RankedSymbol list \<Rightarrow> rat" where
  "resultConfidence ranked =
     (if length ranked < 10 then 1
      else
        let top = Sym_Score (ranked ! 0); tenth = Sym_Score (ranked ! 9) in
        if top \<le> 0 then 0
        else if tenth = 0 then 1
        else let ratio = top / tenth in if ratio > 3 then 1 else if ratio < 12/10 then 0 else (ratio - 12/10) / (18/10))"

section \<open>Filters on qualified names\<close>

definition isCommonShortName :: "string \<Rightarrow> bool" where
  "isCommonShortName name \<longleftrightarrow> name \<in> set [''ID'', ''OK'', ''Go'', ''Do'', ''DB'', ''IP'', ''IO'']"

definition mock_type :: "string \<Rightarrow> nat \<Rightarrow> bool" where
  "mock_type qn lastDot =
     (case strings_LastIndex (take lastDot qn) ''.'' of
        None \<Rightarrow> False
      | Some typeStart \<Rightarrow>
          let typeName = strings_ToLower (drop (typeStart + 1) (take lastDot qn))
          in strings_Contains typeName ''mock'' \<or> strings_Contains typeName ''fake'' \<or> strings_Contains typeName ''stub'')"

definition minified_name :: "string \<Rightarrow> nat \<Rightarrow> bool" where
  "minified_name qn lastDot =
     (let symName = drop (lastDot + 1) qn in length symName \<le> 2 \<and> \<not> isCommonShortName symName)"

definition noisy_path :: "string \<Rightarrow> bool" where
  "noisy_path qn \<longleftrightarrow>
     (\<exists>part\<in>set [''/dist/'', ''/build/'', ''/vendor/'', ''/node_modules/'', ''.min.'', ''.bundle.'',
        ''conftest.py.'', ''fixtures.py.'', ''/testutil'', ''/testhelper'', ''test_helper'']. strings_Contains qn part)"

definition noisy :: "node \<Rightarrow> bool" where
  "noisy n \<longleftrightarrow>
     Kind n = ''external'' \<or> strings_HasPrefix (QualifiedName n) ''external://'' \<or> strings_HasPrefix (QualifiedName n) ''stdlib://'' \<or>
     noisy_path (strings_ToLower (QualifiedName n)) \<or>
     (case strings_LastIndex (QualifiedName n) ''.'' of
        None \<Rightarrow> False
      | Some lastDot \<Rightarrow> mock_type (QualifiedName n) lastDot \<or> minified_name (QualifiedName n) lastDot)"

definition filterNoisySymbols :: "node list \<Rightarrow> node list" where
  "filterNoisySymbols nodes = filter (\<lambda>n. \<not> noisy n) nodes"

definition isTestRelatedTask :: "string \<Rightarrow> bool" where
  "isTestRelatedTask desc \<longleftrightarrow>
     (\<exists>kw\<in>set [''test'', ''testing'', ''spec'', ''unit test'', ''integration test'', ''mock'', ''fixture'', ''assert''].
        strings_Contains (strings_ToLower desc) kw)"

definition isTestFilePath :: "string \<Rightarrow> bool" where
  "isTestFilePath qualifiedName =
     (let lower = strings_ToLower qualifiedName; has = strings_Contains lower in
      if has ''_test.go'' then True
      else if has ''/tests/'' \<or> has ''/test_'' \<and> has ''.py'' then True
      else if has ''.test.'' \<or> has ''.spec.'' \<or> has ''/__tests__/'' \<or> has ''/test/'' then True
      else if has ''/tests/'' then True
      else if has ''/test/'' \<and> \<not> has ''/lib/'' then True
      else if has ''/src/test/'' then True
      else if has ''tests/'' \<and> (has ''unittests/'' \<or> has ''acceptancetests/'' \<or> has ''integrationtests/'' \<or> has ''.tests/'') then True
      else False)"

section \<open>Path terms\<close>

text \<open>\<open>splitCamelWords\<close> of auto\_concepts.go: the character before, the rest and the current word.\<close>

fun camel_words :: "char \<Rightarrow> string \<Rightarrow> string \<Rightarrow> string list" where
  "camel_words prev [] current = (if length current > 0 then [current] else [])"
| "camel_words prev (c # cs) current =
     (if is_upper c \<and> (is_lower prev \<or> is_upper prev \<and> cs \<noteq> [] \<and> is_lower (hd cs)) \<and> length current > 0
      then current # camel_words c cs [c] else camel_words c cs (current @ [c]))"

definition splitCamelWords :: "string \<Rightarrow> string list" where
  "splitCamelWords s = (case s of [] \<Rightarrow> [] | c # cs \<Rightarrow> camel_words c cs [c])"

definition path_part :: "string \<Rightarrow> seen_list \<Rightarrow> seen_list" where
  "path_part p st =
     (let pl = strings_ToLower p in if length pl \<ge> 4 \<and> pl \<notin> set pathStopWords then add_new pl st else st)"

definition path_word :: "string \<Rightarrow> seen_list \<Rightarrow> seen_list" where
  "path_word w st =
     (let clean = strings_Trim w (word_cutset \<union> {CHR ''<'', CHR ''>''}); lower = strings_ToLower clean in
      if clean = [] then st
      else if length lower < 4 \<or> lower \<in> set pathStopWords then st
      else if strings_ContainsAny lower (set ''=/<>{}[]()@#$%^&*+'') then st
      else if \<forall>c\<in>set lower. c \<in> digits then st
      else
        let st1 = add_new lower st in
        if strings_Contains clean ''_'' then fold path_part (split_on CHR ''_'' clean) st1
        else if hasMixedCase clean then fold path_part (splitCamelWords clean) st1
        else st1)"

definition extractPathTerms :: "(string list \<Rightarrow> string list) \<Rightarrow> string \<Rightarrow> string list" where
  "extractPathTerms srt desc =
     (let terms = srt (fst (fold path_word (strings_Fields desc) ([], {})))
      in if length terms > 5 then take 5 terms else terms)"

definition path_exts :: "string list" where
  "path_exts = [''.py.'', ''.go.'', ''.rs.'', ''.ts.'', ''.java.'', ''.cs.'', ''.rb.'', ''.js.'']"

fun ext_portion :: "string \<Rightarrow> string list \<Rightarrow> string" where
  "ext_portion lower [] = lower"
| "ext_portion lower (ext # exts) =
     (case strings_LastIndex lower ext of Some idx \<Rightarrow> take (idx + length ext) lower | None \<Rightarrow> ext_portion lower exts)"

definition path_portion :: "string \<Rightarrow> string" where
  "path_portion lower =
     (let p = ext_portion lower path_exts in
      if p = lower then
        (case strings_LastIndex lower ''/'' of
           None \<Rightarrow> p
         | Some lastSlash \<Rightarrow>
             (case strings_Index (drop lastSlash lower) ''.'' of
                Some dotIdx \<Rightarrow> take (lastSlash + dotIdx) lower
              | None \<Rightarrow> p))
      else p)"

definition isPathMatch :: "string \<Rightarrow> string \<Rightarrow> bool" where
  "isPathMatch qualifiedName term =
     (let pathPortion = path_portion (strings_ToLower qualifiedName) in
      case strings_Index pathPortion (strings_ToLower term) of
        None \<Rightarrow> False
      | Some idx \<Rightarrow> idx > 0 \<longrightarrow> pathPortion ! (idx - 1) \<in> set ''/._-:'')"

section \<open>Splitting identifiers\<close>

lemma upper_loop_parts: "concat (upper_loop s cur) = cur @ s" "[] \<notin> set (upper_loop s cur)"
  by (induction s cur rule: upper_loop.induct) auto

lemma concat_split_on: "concat (split_on c s) = filter (\<lambda>x. x \<noteq> c) s"
  by (induction s) (auto split: list.split)

lemma concat_nonempty: "concat (filter (\<lambda>p. p \<noteq> []) ps) = concat ps"
  by (induction ps) auto

lemma strings_Contains_char: "strings_Contains s [c] \<longleftrightarrow> c \<in> set s"
  using strings_Index_None_iff [of s c] by (simp add: strings_Contains_def)

lemma splitIdentifier_exact:
  "concat (splitIdentifier s) = filter (\<lambda>c. c \<noteq> CHR ''_'') s" "[] \<notin> set (splitIdentifier s)"
proof -
  show "concat (splitIdentifier s) = filter (\<lambda>c. c \<noteq> CHR ''_'') s"
  proof (cases "CHR ''_'' \<in> set s")
    case True
    then show ?thesis by (simp add: splitIdentifier_def strings_Contains_char concat_nonempty concat_split_on)
  next
    case False
    then have "filter (\<lambda>c. c \<noteq> CHR ''_'') s = s" by (intro filter_True) auto
    with False show ?thesis by (simp add: splitIdentifier_def strings_Contains_char upper_loop_parts)
  qed
  show "[] \<notin> set (splitIdentifier s)" by (simp add: splitIdentifier_def upper_loop_parts)
qed

text \<open>The words of auto\_concepts.go are the camel-case parts of the full-text index.\<close>

lemma camel_words_concat: "concat (camel_words p s cur) = cur @ s" "[] \<notin> set (camel_words p s cur)"
  by (induction p s cur rule: camel_words.induct) auto

section \<open>Keywords are distinct\<close>

definition x_all :: "extraction \<Rightarrow> string list" where
  "x_all x = x_exact x @ x_compounds x @ x_priority x @ x_components x @ x_bigrams x"

definition x_ok :: "extraction \<Rightarrow> bool" where
  "x_ok x \<longleftrightarrow> distinct (x_all x) \<and> set (x_all x) = x_seen x \<and> [] \<notin> x_seen x"

lemma lower_empty [simp]: "strings_ToLower s = [] \<longleftrightarrow> s = []"
  by (simp add: strings_ToLower_def)

lemma capitalize_empty [simp]: "capitalize s = [] \<longleftrightarrow> s = []"
  by (cases s) (simp_all add: capitalize_def strings_ToUpper_def)

lemma abbreviations_nonempty: "map_of abbreviations w = Some e \<Longrightarrow> e \<noteq> []"
  by (drule map_of_SomeD) (auto simp: abbreviations_def)

lemma code_patterns_nonempty: "[] \<notin> set (extractCodePatterns desc)"
proof -
  have add: "[] \<notin> set (fst (add_pattern w st))" if "[] \<notin> set (fst st)" for w st
    using that by (auto simp: add_pattern_def add_new_def)
  have word: "[] \<notin> set (fst (code_pattern w st))" if "[] \<notin> set (fst st)" for w st
    using that by (simp add: code_pattern_def Let_def add)
  have "[] \<notin> set (fst (fold code_pattern ws st))" if "[] \<notin> set (fst st)" for ws st
    using that by (induction ws arbitrary: st) (simp_all add: word)
  then show ?thesis by (simp add: extractCodePatterns_def)
qed

lemma verb_target_nonempty: "verb_target ws = Some w \<Longrightarrow> w \<noteq> []"
  by (auto simp: verb_target_def find_Some_iff split: list.splits if_splits)

text \<open>What the addition of nonempty words keeps, the extraction keeps.\<close>

locale extraction_invariant =
  fixes P :: "extraction \<Rightarrow> bool"
  assumes add_exact: "P x \<Longrightarrow> w \<noteq> [] \<Longrightarrow> P (x_add x_exact_update w x)"
    and add_compound: "P x \<Longrightarrow> w \<noteq> [] \<Longrightarrow> P (x_add x_compounds_update w x)"
    and add_priority: "P x \<Longrightarrow> w \<noteq> [] \<Longrightarrow> P (x_add x_priority_update w x)"
    and add_component: "P x \<Longrightarrow> w \<noteq> [] \<Longrightarrow> P (x_add x_components_update w x)"
    and add_bigram: "P x \<Longrightarrow> w \<noteq> [] \<Longrightarrow> P (x_add x_bigrams_update w x)"
begin

lemma keeps_quoted: "P x \<Longrightarrow> P (x_quoted q x)"
  by (simp add: x_quoted_def Let_def add_exact)

lemma keeps_pattern: "P x \<Longrightarrow> cp \<noteq> [] \<Longrightarrow> P (x_pattern cp x)"
  by (simp add: x_pattern_def Let_def add_compound)

lemma keeps_target: "P x \<Longrightarrow> w \<noteq> [] \<Longrightarrow> P (x_target w x)"
  by (simp add: x_target_def Let_def add_compound add_priority)

lemma keeps_component:
  assumes "P x"
  shows "P (x_component p x)"
proof (cases "strings_ToLower p = []")
  case True
  then have "length (strings_ToLower p) < 2" by (simp only: list.size)
  with assms show ?thesis by (simp only: x_component_def Let_def simp_thms if_True)
next
  case False
  with assms show ?thesis
    by (auto simp: x_component_def Let_def add_component split: option.split dest!: abbreviations_nonempty)
qed

lemma keeps_components: "P x \<Longrightarrow> P (fold x_component ps x)"
  by (induction ps arbitrary: x) (simp_all add: keeps_component)

lemma keeps_word: "P x \<Longrightarrow> P (x_word w x)"
  by (simp add: x_word_def Let_def keeps_components add_compound)

lemma keeps_bigram: "P x \<Longrightarrow> P (x_bigram p x)"
  by (cases p) (auto simp: x_bigram_def intro!: add_bigram)

lemma keeps_fold: "(\<And>w x. w \<in> set ws \<Longrightarrow> P x \<Longrightarrow> P (f w x)) \<Longrightarrow> P x \<Longrightarrow> P (fold f ws x)"
  by (induction ws arbitrary: x) auto

lemma extraction_keeps: "P (fold x_quoted (quoted_texts desc) x0) \<Longrightarrow> x0 = extraction_start \<Longrightarrow> P (extraction_of desc)"
proof -
  assume start: "P (fold x_quoted (quoted_texts desc) x0)" "x0 = extraction_start"
  have x2: "P (fold x_pattern (extractCodePatterns desc) x)" if "P x" for x
    using that code_patterns_nonempty [of desc] by (intro keeps_fold keeps_pattern) auto
  have x3: "P (case verb_target ws of Some w \<Rightarrow> x_target w x | None \<Rightarrow> x)" if "P x" for ws x
    using that by (auto simp: keeps_target split: option.split dest!: verb_target_nonempty)
  have x4: "P (fold x_word ws x)" if "P x" for ws x using that by (intro keeps_fold keeps_word)
  have x5: "P (fold x_bigram ps x)" if "P x" for ps x using that by (intro keeps_fold keeps_bigram)
  show ?thesis unfolding extraction_of_def Let_def by (intro x5 x4 x3 x2 start(1) [unfolded start(2)])
qed

end

interpretation ok: extraction_invariant x_ok
  by unfold_locales (auto simp: x_ok_def x_add_def x_all_def split: if_splits)

interpretation exact: extraction_invariant "\<lambda>x. w \<in> set (x_exact x)" for w
  by unfold_locales (auto simp: x_add_def)

lemma extraction_ok: "x_ok (extraction_of desc)"
proof (rule ok.extraction_keeps [OF _ refl])
  show "x_ok (fold x_quoted (quoted_texts desc) extraction_start)"
  proof (rule ok.keeps_fold)
    show "x_ok extraction_start" by (simp add: extraction_start_def x_ok_def x_all_def)
  qed (rule ok.keeps_quoted)
qed

text \<open>The texts between backquotes that count as identifiers.\<close>

definition quoted_identifier :: "string \<Rightarrow> string \<Rightarrow> bool" where
  "quoted_identifier desc w \<longleftrightarrow>
     w \<in> strings_TrimSpace ` set (quoted_texts desc) \<and> w \<noteq> [] \<and> length w \<le> 100 \<and> \<not> strings_Contains w '' ''"

lemma quoted_step: "x_seen x = set (x_exact x) \<Longrightarrow> x_seen (x_quoted q x) = set (x_exact (x_quoted q x))"
  by (auto simp: x_quoted_def Let_def x_add_def)

lemma quoted_all:
  "x_seen x = set (x_exact x) \<Longrightarrow> q \<in> set qs \<Longrightarrow> strings_TrimSpace q \<noteq> [] \<Longrightarrow> length (strings_TrimSpace q) \<le> 100 \<Longrightarrow>
     \<not> strings_Contains (strings_TrimSpace q) '' '' \<Longrightarrow> strings_TrimSpace q \<in> set (x_exact (fold x_quoted qs x))"
proof (induction qs arbitrary: x)
  case (Cons p qs)
  show ?case
  proof (cases "q = p")
    case True
    have "strings_TrimSpace q \<in> set (x_exact (x_quoted p x))"
      using Cons.prems True by (auto simp: x_quoted_def Let_def x_add_def)
    then show ?thesis by (simp add: exact.keeps_fold exact.keeps_quoted)
  next
    case False
    with Cons.prems show ?thesis by (simp add: Cons.IH quoted_step)
  qed
qed simp

lemma quoted_exact: "quoted_identifier desc w \<Longrightarrow> w \<in> set (x_exact (extraction_of desc))"
  by (rule exact.extraction_keeps [OF _ refl]) (auto simp: quoted_identifier_def extraction_start_def intro!: quoted_all)

definition longer :: "string \<Rightarrow> string \<Rightarrow> bool" where
  "longer a b \<longleftrightarrow> length a > length b"

text \<open>
  C35. The keywords of a task are distinct over all three groups and none is empty, whatever order the unstable
  sort gives words of the same length; an identifier quoted in the task is among the exact ones.
\<close>

theorem extractKeywords_distinct:
  assumes "sorts longer srt"
  shows "distinct (extractKeywords srt desc) \<and> [] \<notin> set (extractKeywords srt desc) \<and>
    {w. quoted_identifier desc w} \<subseteq> set (Exact (extractKeywordSet srt desc))"
proof -
  let ?x = "extraction_of desc"
  from extraction_ok [of desc] have ok: "distinct (x_all ?x)" "[] \<notin> set (x_all ?x)" by (auto simp: x_ok_def)
  have "mset (extractKeywords srt desc) = mset (x_all ?x)"
    using sortsD(1) [OF assms, of "x_components ?x"]
    by (simp add: extractKeywords_def KeywordSet_All_def extractKeywordSet_def x_all_def Let_def)
  with ok have "distinct (extractKeywords srt desc)" "[] \<notin> set (extractKeywords srt desc)"
    by (metis mset_eq_imp_distinct_iff, metis mset_eq_setD)
  moreover have "{w. quoted_identifier desc w} \<subseteq> set (Exact (extractKeywordSet srt desc))"
    by (auto simp: extractKeywordSet_def Let_def quoted_exact)
  ultimately show ?thesis by blast
qed

lemma sorts_longer: "sorts longer (sort_by longer)"
  by (rule sorts_sort_by) (auto simp: longer_def)

text \<open>A task with an identifier between backquotes.\<close>

definition sample_task :: string where
  "sample_task = ''fix '' @ [CHR 0x60] @ ''before_request'' @ [CHR 0x60] @ '' in pkg QuerySet''"

lemma sample_quoted: "quoted_identifier sample_task ''before_request''"
  unfolding quoted_identifier_def sample_task_def by code_simp

theorem extractKeywords_distinct_witness:
  "distinct (extractKeywords (sort_by longer) sample_task) \<and> ''before_request'' \<in> set (Exact (extractKeywordSet (sort_by longer) sample_task))"
  using extractKeywords_distinct [OF sorts_longer, of sample_task] sample_quoted by blast

text \<open>The expansion of \<open>pkg\<close> is a stop word, and a version number counts as a compound.\<close>

lemma stop_word_expanded:
  "''package'' \<in> set stopWords \<and> ''package'' \<in> set (x_components (extraction_of ''split the pkg''))"
  by code_simp

lemma version_is_compound: "x_compounds (extraction_of ''python 3.9'') = [''3.9'']"
  by code_simp

section \<open>Weights, paths\<close>

lemma weights_bounded: "3/10 \<le> vocabCountWeight n" "vocabCountWeight n \<le> 8/10" "0 \<le> resultConfidence ranked" "resultConfidence ranked \<le> 1"
proof -
  have ratio: "3/10 \<le> 3/10 + 1/2 * (if r > 1 then 1 else r) \<and> 3/10 + 1/2 * (if r > 1 then 1 else r) \<le> 8/10" if "0 \<le> r" for r :: rat
    using that by simp
  have "3/10 \<le> vocabCountWeight n \<and> vocabCountWeight n \<le> 8/10"
  proof (cases "n \<le> 2")
    case False
    then have "0 \<le> of_int (n - 2) / (8::rat)" by simp
    from ratio [OF this] show ?thesis unfolding vocabCountWeight_def Let_def if_not_P [OF False] .
  qed (simp add: vocabCountWeight_def)
  then show "3/10 \<le> vocabCountWeight n" "vocabCountWeight n \<le> 8/10" by blast+
  define f :: "rat \<Rightarrow> rat" where "f r = (if r > 3 then 1 else if r < 12/10 then 0 else (r - 12/10) / (18/10))" for r
  have "0 \<le> f r \<and> f r \<le> 1" for r by (simp add: f_def)
  then have "0 \<le> resultConfidence ranked \<and> resultConfidence ranked \<le> 1"
    unfolding resultConfidence_def Let_def f_def [symmetric] by simp
  then show "0 \<le> resultConfidence ranked" "resultConfidence ranked \<le> 1" by blast+
qed

text \<open>A match is an occurrence of the term in the path portion, at its start or after a separator.\<close>

lemma isPathMatch_sound:
  assumes "isPathMatch qn term"
  shows "\<exists>i. prefix (strings_ToLower term) (drop i (path_portion (strings_ToLower qn))) \<and>
    (i = 0 \<or> path_portion (strings_ToLower qn) ! (i - 1) \<in> set ''/._-:'')"
  using assms by (auto simp: isPathMatch_def Let_def dest!: strings_Index_Some split: option.splits)

text \<open>Only the first occurrence is looked at: a later one at a boundary is missed.\<close>

lemma isPathMatch_first_only:
  "\<not> isPathMatch ''repo://submigration/migrations/base.py.Operation'' ''migration'' \<and>
   isPathMatch ''repo://migrations/base.py.Operation'' ''migration''"
  by code_simp

text \<open>The exception for lib directories never applies: the rule for JavaScript has taken every test directory before it.\<close>

lemma lib_exception_dead: "strings_Contains (strings_ToLower qn) ''/test/'' \<Longrightarrow> isTestFilePath qn"
  by (simp add: isTestFilePath_def Let_def)

lemma fastest_is_test_task: "isTestRelatedTask ''find the fastest parser''"
  by code_simp

section \<open>The hash of a keyword cluster\<close>

lemma split_on_Join:
  "ws \<noteq> [] \<Longrightarrow> \<forall>w\<in>set ws. c \<notin> set w \<Longrightarrow> split_on c (strings_Join ws [c]) = ws"
proof (induction ws "[c]" rule: strings_Join.induct)
  case (2 w)
  have "c \<notin> set w \<Longrightarrow> split_on c w = [w]" for w by (induction w) auto
  with 2 show ?case by simp
next
  case (3 w v ws)
  have "c \<notin> set w \<Longrightarrow> split_on c (w @ c # s) = w # split_on c s" for w s by (induction w) auto
  with 3 show ?case by simp
qed simp

lemma sort_Strings_empty [simp]: "sort_Strings xs = [] \<longleftrightarrow> xs = []"
  by (metis length_0_conv sort_Strings_simps(3))

lemma mset_sort_Strings: "mset (sort_Strings xs) = mset xs"
  by (simp add: sort_Strings_def)

lemma sort_Strings_mset: "mset xs = mset ys \<Longrightarrow> sort_Strings xs = sort_Strings ys"
  unfolding sort_Strings_def by (metis sorted_list_of_multiset_mset)

definition cluster_text :: "string list \<Rightarrow> string" where
  "cluster_text ks = ''cluster'' @ [CHR 0x00] @ strings_Join (sort_Strings ks) [CHR 0x00]"

text \<open>
  The cluster hash of keywords does not depend on their order, and without a collision of the hash function it
  identifies them: two nonempty lists without NUL bytes have the same hash exactly when they hold the
  same keywords, as often.
\<close>

lemma keywordClusterHash_identifies:
  assumes "ks \<noteq> []" "ks' \<noteq> []" "\<forall>k\<in>set ks \<union> set ks'. CHR 0x00 \<notin> set k"
    and "H (cluster_text ks) = H (cluster_text ks') \<Longrightarrow> cluster_text ks = cluster_text ks'"
  shows "keywordClusterHash H ks = keywordClusterHash H ks' \<longleftrightarrow> mset ks = mset ks'"
proof
  assume "keywordClusterHash H ks = keywordClusterHash H ks'"
  with assms(1,2,4) have "cluster_text ks = cluster_text ks'" by (simp add: keywordClusterHash_def cluster_text_def)
  then have "strings_Join (sort_Strings ks) [CHR 0x00] = strings_Join (sort_Strings ks') [CHR 0x00]" by (simp add: cluster_text_def)
  moreover have "split_on (CHR 0x00) (strings_Join (sort_Strings xs) [CHR 0x00]) = sort_Strings xs" if "xs \<noteq> []" "\<forall>k\<in>set xs. CHR 0x00 \<notin> set k" for xs
    using that by (intro split_on_Join) simp_all
  ultimately have "sort_Strings ks = sort_Strings ks'" using assms(1-3) by (metis UnCI)
  then show "mset ks = mset ks'" by (metis mset_sort_Strings)
next
  assume "mset ks = mset ks'"
  then have "sort_Strings ks = sort_Strings ks'" by (rule sort_Strings_mset)
  with assms(1,2) show "keywordClusterHash H ks = keywordClusterHash H ks'" by (simp add: keywordClusterHash_def)
qed

lemma keywordClusterHash_identifies_witness:
  "keywordClusterHash (\<lambda>bs. of_nat (length bs)) [''parser'', ''json''] = keywordClusterHash (\<lambda>bs. of_nat (length bs)) [''json'', ''parser'']"
  using keywordClusterHash_identifies [of "[''parser'', ''json'']" "[''json'', ''parser'']" "\<lambda>bs. of_nat (length bs)"]
  by (simp add: cluster_text_def sort_Strings_def)

end
