(* ===== verification/TypeModel.thy ===== *)
theory TypeModel
  imports Prelude
begin

text \<open>
  internal/typresolve, the language-neutral part: types (types.go), scopes (scope.go) and the registry of functions
  and types with its fallback (registry.go). A type is a finite tree and a nil pointer is \<open>None\<close>; the shortcut of the code for equal pointers
  agrees with structural equality on trees.
\<close>

section \<open>Types\<close>

datatype TypeKind = KindUnknown | KindNamed | KindPointer | KindSlice | KindMap | KindChannel | KindFunc | KindInterface
  | KindStruct | KindBuiltin | KindTuple | KindTypeParam | KindArray | KindOptional | KindReference | KindAlias

definition kindNames :: "(TypeKind, string) gomap" where
  "kindNames = [(KindUnknown, ''Unknown''), (KindNamed, ''Named''), (KindPointer, ''Pointer''), (KindSlice, ''Slice''),
     (KindMap, ''Map''), (KindChannel, ''Channel''), (KindFunc, ''Func''), (KindInterface, ''Interface''),
     (KindStruct, ''Struct''), (KindBuiltin, ''Builtin''), (KindTuple, ''Tuple''), (KindTypeParam, ''TypeParam''),
     (KindArray, ''Array''), (KindOptional, ''Optional''), (KindReference, ''Reference''), (KindAlias, ''Alias'')]"

datatype ChanDir = ChanBidi | ChanSend | ChanRecv

text \<open>
  Parameters, fields, methods and type parameters are pairs of a name and a type; a list of types and
  a list of such pairs are of one shape, with empty names for the former.
\<close>

datatype gtype = Ty
  (Ty_Kind: TypeKind)
  (Ty_Name: string)
  (Ty_Elem: "gtype option")
  (Ty_Key: "gtype option")
  (Ty_Value: "gtype option")
  (Ty_Params: "(string \<times> gtype option) list")
  (Ty_Returns: "gtype option list")
  (Ty_Fields: "(string \<times> gtype option) list")
  (Ty_Methods: "(string \<times> gtype option) list")
  (Ty_Elements: "gtype option list")
  (Ty_TypeParams: "(string \<times> gtype option) list")
  (Ty_Underlying: "gtype option")
  (Ty_ChanDir: ChanDir)

definition zero_type :: "TypeKind \<Rightarrow> gtype" where
  "zero_type k = Ty k '''' None None None [] [] [] [] [] [] None ChanBidi"

definition elem_type :: "TypeKind \<Rightarrow> gtype option \<Rightarrow> gtype" where
  "elem_type k e = Ty k '''' e None None [] [] [] [] [] [] None ChanBidi"

definition name_type :: "TypeKind \<Rightarrow> string \<Rightarrow> gtype" where
  "name_type k n = Ty k n None None None [] [] [] [] [] [] None ChanBidi"

definition Unknown :: gtype where "Unknown = zero_type KindUnknown"
definition Named :: "string \<Rightarrow> gtype" where "Named qualifiedName = name_type KindNamed qualifiedName"
definition Pointer :: "gtype option \<Rightarrow> gtype" where "Pointer e = elem_type KindPointer e"
definition Slice :: "gtype option \<Rightarrow> gtype" where "Slice e = elem_type KindSlice e"
definition Map_type :: "gtype option \<Rightarrow> gtype option \<Rightarrow> gtype" where
  "Map_type k v = Ty KindMap '''' None k v [] [] [] [] [] [] None ChanBidi"
definition Channel :: "gtype option \<Rightarrow> ChanDir \<Rightarrow> gtype" where
  "Channel e dir = Ty KindChannel '''' e None None [] [] [] [] [] [] None dir"
definition Func :: "(string \<times> gtype option) list \<Rightarrow> gtype option list \<Rightarrow> gtype" where
  "Func params returns = Ty KindFunc '''' None None None params returns [] [] [] [] None ChanBidi"
definition Builtin :: "string \<Rightarrow> gtype" where "Builtin name = name_type KindBuiltin name"
definition Tuple :: "gtype option list \<Rightarrow> gtype" where
  "Tuple elems = Ty KindTuple '''' None None None [] [] [] [] elems [] None ChanBidi"
definition TypeParamType :: "string \<Rightarrow> gtype" where "TypeParamType name = name_type KindTypeParam name"
definition Array :: "gtype option \<Rightarrow> gtype" where "Array e = elem_type KindArray e"
definition Optional :: "gtype option \<Rightarrow> gtype" where "Optional e = elem_type KindOptional e"
definition Ref_type :: "gtype option \<Rightarrow> gtype" where "Ref_type e = elem_type KindReference e"
definition Alias :: "string \<Rightarrow> gtype option \<Rightarrow> gtype" where
  "Alias name underlying = Ty KindAlias name None None None [] [] [] [] [] [] underlying ChanBidi"
definition Interface :: "(string \<times> gtype option) list \<Rightarrow> gtype" where
  "Interface methods = Ty KindInterface '''' None None None [] [] [] methods [] [] None ChanBidi"
definition Struct :: "(string \<times> gtype option) list \<Rightarrow> gtype" where
  "Struct fs = Ty KindStruct '''' None None None [] [] fs [] [] [] None ChanBidi"

lemmas type_defs = zero_type_def elem_type_def name_type_def Unknown_def Named_def Pointer_def Slice_def Map_type_def
  Channel_def Func_def Builtin_def Tuple_def TypeParamType_def Array_def Optional_def Ref_type_def Alias_def
  Interface_def Struct_def

definition IsUnknown :: "gtype option \<Rightarrow> bool" where
  "IsUnknown t \<longleftrightarrow> (case t of Some x \<Rightarrow> Ty_Kind x = KindUnknown | None \<Rightarrow> False)"

definition IsInterface :: "gtype option \<Rightarrow> bool" where
  "IsInterface t \<longleftrightarrow> (case t of Some x \<Rightarrow> Ty_Kind x = KindInterface | None \<Rightarrow> False)"

definition IsPointer :: "gtype option \<Rightarrow> bool" where
  "IsPointer t \<longleftrightarrow> (case t of Some x \<Rightarrow> Ty_Kind x = KindPointer | None \<Rightarrow> False)"

definition GetElem :: "gtype option \<Rightarrow> gtype option" where
  "GetElem t =
     (case t of
        None \<Rightarrow> None
      | Some x \<Rightarrow>
          if Ty_Kind x \<in> {KindPointer, KindSlice, KindArray, KindChannel, KindOptional, KindReference} then Ty_Elem x else None)"

definition Deref :: "gtype option \<Rightarrow> gtype option" where
  "Deref t = (case t of Some x \<Rightarrow> if Ty_Kind x = KindPointer \<and> Ty_Elem x \<noteq> None then Ty_Elem x else t | None \<Rightarrow> t)"

text \<open>Structural equality.\<close>

function TypesEqual :: "gtype option \<Rightarrow> gtype option \<Rightarrow> bool"
  and all_equal :: "gtype option list \<Rightarrow> gtype option list \<Rightarrow> bool"
  and named_equal :: "(string \<times> gtype option) list \<Rightarrow> (string \<times> gtype option) list \<Rightarrow> bool" where
  "TypesEqual None None = True"
| "TypesEqual None (Some b) = False"
| "TypesEqual (Some a) None = False"
| "TypesEqual (Some a) (Some b) =
     (if Ty_Kind a \<noteq> Ty_Kind b then False
      else if Ty_Name a \<noteq> Ty_Name b then False
      else if Ty_ChanDir a \<noteq> Ty_ChanDir b then False
      else if \<not> TypesEqual (Ty_Elem a) (Ty_Elem b) then False
      else if \<not> TypesEqual (Ty_Key a) (Ty_Key b) then False
      else if \<not> TypesEqual (Ty_Value a) (Ty_Value b) then False
      else if \<not> TypesEqual (Ty_Underlying a) (Ty_Underlying b) then False
      else if length (Ty_Params a) \<noteq> length (Ty_Params b) then False
      else if \<not> named_equal (Ty_Params a) (Ty_Params b) then False
      else if length (Ty_Returns a) \<noteq> length (Ty_Returns b) then False
      else if \<not> all_equal (Ty_Returns a) (Ty_Returns b) then False
      else if length (Ty_Fields a) \<noteq> length (Ty_Fields b) then False
      else if \<not> named_equal (Ty_Fields a) (Ty_Fields b) then False
      else if length (Ty_Methods a) \<noteq> length (Ty_Methods b) then False
      else if \<not> named_equal (Ty_Methods a) (Ty_Methods b) then False
      else if length (Ty_Elements a) \<noteq> length (Ty_Elements b) then False
      else if \<not> all_equal (Ty_Elements a) (Ty_Elements b) then False
      else if length (Ty_TypeParams a) \<noteq> length (Ty_TypeParams b) then False
      else named_equal (Ty_TypeParams a) (Ty_TypeParams b))"
| "all_equal (x # xs) (y # ys) = (if \<not> TypesEqual x y then False else all_equal xs ys)"
| "all_equal [] ys = True"
| "all_equal (x # xs) [] = True"
| "named_equal (p # ps) (q # qs) =
     (if fst p \<noteq> fst q then False else if \<not> TypesEqual (snd p) (snd q) then False else named_equal ps qs)"
| "named_equal [] qs = True"
| "named_equal (p # ps) [] = True"
  by pat_completeness auto

definition opt_size :: "gtype option \<Rightarrow> nat" where "opt_size = size_option size"
definition list_size :: "gtype option list \<Rightarrow> nat" where "list_size = size_list opt_size"
definition named_size :: "(string \<times> gtype option) list \<Rightarrow> nat" where "named_size = size_list (\<lambda>p. opt_size (snd p))"

lemma opt_size_simps [simp]: "opt_size None = Suc 0" "opt_size (Some t) = Suc (size t)"
  by (simp_all add: opt_size_def)

lemma list_size_simps [simp]:
  "list_size [] = 0" "list_size (x # xs) = Suc (opt_size x + list_size xs)"
  "named_size [] = 0" "named_size (p # ps) = Suc (opt_size (snd p) + named_size ps)"
  by (simp_all add: list_size_def named_size_def)

lemma named_size_le: "named_size ps \<le> size_list (size_prod (\<lambda>_. 0) (size_option size)) ps"
  by (induction ps) (auto simp: opt_size_def)

lemma part_sizes:
  "opt_size (Ty_Elem t) < Suc (size t)" "opt_size (Ty_Key t) < Suc (size t)" "opt_size (Ty_Value t) < Suc (size t)"
  "opt_size (Ty_Underlying t) < Suc (size t)"
  "list_size (Ty_Returns t) < Suc (size t)" "list_size (Ty_Elements t) < Suc (size t)"
  "named_size (Ty_Params t) < Suc (size t)" "named_size (Ty_Fields t) < Suc (size t)" "named_size (Ty_Methods t) < Suc (size t)"
  "named_size (Ty_TypeParams t) < Suc (size t)"
  using named_size_le [of "Ty_Params t"] named_size_le [of "Ty_Fields t"] named_size_le [of "Ty_Methods t"] named_size_le [of "Ty_TypeParams t"]
  by (cases t; simp add: opt_size_def list_size_def)+

termination TypesEqual
  by (relation "measure (\<lambda>x. case x of Inl (a, b) \<Rightarrow> opt_size a | Inr (Inl (xs, ys)) \<Rightarrow> list_size xs | Inr (Inr (ps, qs)) \<Rightarrow> named_size ps)")
    (auto simp: part_sizes)

lemma TypesEqual_iff:
  "TypesEqual a b \<longleftrightarrow> a = b"
  "length xs = length ys \<Longrightarrow> all_equal xs ys \<longleftrightarrow> xs = ys"
  "length ps = length qs \<Longrightarrow> named_equal ps qs \<longleftrightarrow> ps = qs"
proof (induction a b and xs ys and ps qs rule: TypesEqual_all_equal_named_equal.induct)
  case (4 a b)
  show ?case
    unfolding TypesEqual.simps
    using 4 by (cases a; cases b) auto
qed (auto simp: prod_eq_iff)

section \<open>Scopes\<close>

text \<open>
  A scope is the list of its levels up to the root, the current level first. A name can be bound to nil, which hides the
  outer bindings and reads like an unbound name.
\<close>

type_synonym Scope = "(string, gtype option) gomap list"

definition NewScope :: "Scope \<Rightarrow> Scope" where "NewScope parent = [] # parent"

definition Bind :: "string \<Rightarrow> gtype option \<Rightarrow> Scope \<Rightarrow> Scope" where
  "Bind name typ s = (case s of [] \<Rightarrow> [] | bindings # parent \<Rightarrow> gomap_set name typ bindings # parent)"

fun Scope_Lookup :: "Scope \<Rightarrow> string \<Rightarrow> gtype option" where
  "Scope_Lookup [] name = None"
| "Scope_Lookup (bindings # parent) name =
     (case map_of bindings name of Some t \<Rightarrow> t | None \<Rightarrow> Scope_Lookup parent name)"

definition Parent :: "Scope \<Rightarrow> Scope" where "Parent s = tl s"

section \<open>The registry\<close>

record RegisteredFunc =
  Func_QualifiedName :: string
  Func_ReceiverType :: string
  Func_ShortName :: string
  Func_Signature :: "gtype option"
  Func_TypeParams :: "string list"
  Func_MinParams :: int

record RegisteredType =
  Type_QualifiedName :: string
  Type_ShortName :: string
  Type_Fields :: "(string \<times> gtype option) list"
  Type_MethodNames :: "string list"
  Type_MethodQNs :: "string list"
  Type_EmbeddedTypes :: "string list"
  Type_AliasOf :: string
  Type_TypeParams :: "string list"
  Type_IsInterface :: bool

definition new_func :: RegisteredFunc where
  "new_func = \<lparr>Func_QualifiedName = '''', Func_ReceiverType = '''', Func_ShortName = '''', Func_Signature = None,
     Func_TypeParams = [], Func_MinParams = 0\<rparr>"

definition new_type :: RegisteredType where
  "new_type = \<lparr>Type_QualifiedName = '''', Type_ShortName = '''', Type_Fields = [], Type_MethodNames = [],
     Type_MethodQNs = [], Type_EmbeddedTypes = [], Type_AliasOf = '''', Type_TypeParams = [], Type_IsInterface = False\<rparr>"

text \<open>The maps hold pointers; the registered functions are never changed after they were added.\<close>

datatype Type_Registry = Type_Registry
  (reg_funcs: "(string, RegisteredFunc) gomap")
  (reg_types: "(string, RegisteredType) gomap")
  (reg_methods: "(string, RegisteredFunc) gomap")
  (reg_fallback: "Type_Registry option")

definition NewRegistry :: Type_Registry where "NewRegistry = Type_Registry [] [] [] None"

fun SetFallback :: "Type_Registry \<Rightarrow> Type_Registry option \<Rightarrow> Type_Registry" where
  "SetFallback (Type_Registry fs ts ms fb) parent = Type_Registry fs ts ms parent"

fun AddFunc :: "RegisteredFunc \<Rightarrow> Type_Registry \<Rightarrow> Type_Registry" where
  "AddFunc f (Type_Registry fs ts ms fb) =
     Type_Registry (gomap_set (Func_QualifiedName f) f fs) ts
       (if Func_ReceiverType f \<noteq> '''' then gomap_set (Func_ReceiverType f @ ''.'' @ Func_ShortName f) f ms else ms) fb"

fun AddType :: "RegisteredType \<Rightarrow> Type_Registry \<Rightarrow> Type_Registry" where
  "AddType t (Type_Registry fs ts ms fb) = Type_Registry fs (gomap_set (Type_QualifiedName t) t ts) ms fb"

fun LookupFunc :: "Type_Registry \<Rightarrow> string \<Rightarrow> RegisteredFunc option" where
  "LookupFunc (Type_Registry fs ts ms fb) qualifiedName =
     (case map_of fs qualifiedName of
        Some f \<Rightarrow> Some f
      | None \<Rightarrow> (case fb of Some r \<Rightarrow> LookupFunc r qualifiedName | None \<Rightarrow> None))"

fun LookupType :: "Type_Registry \<Rightarrow> string \<Rightarrow> RegisteredType option" where
  "LookupType (Type_Registry fs ts ms fb) qualifiedName =
     (case map_of ts qualifiedName of
        Some t \<Rightarrow> Some t
      | None \<Rightarrow> (case fb of Some r \<Rightarrow> LookupType r qualifiedName | None \<Rightarrow> None))"

fun LookupMethod :: "Type_Registry \<Rightarrow> string \<Rightarrow> string \<Rightarrow> RegisteredFunc option" where
  "LookupMethod (Type_Registry fs ts ms fb) receiverQN methodName =
     (case map_of ms (receiverQN @ ''.'' @ methodName) of
        Some f \<Rightarrow> Some f
      | None \<Rightarrow> (case fb of Some r \<Rightarrow> LookupMethod r receiverQN methodName | None \<Rightarrow> None))"

fun LookupSymbol :: "Type_Registry \<Rightarrow> string \<Rightarrow> string \<Rightarrow> RegisteredFunc option" where
  "LookupSymbol (Type_Registry fs ts ms fb) packageQN name =
     (case map_of fs (packageQN @ ''.'' @ name) of
        Some f \<Rightarrow> Some f
      | None \<Rightarrow> (case fb of Some r \<Rightarrow> LookupSymbol r packageQN name | None \<Rightarrow> None))"

primrec alias_loop :: "nat \<Rightarrow> Type_Registry \<Rightarrow> string \<Rightarrow> RegisteredType option" where
  "alias_loop 0 r typeQN = None"
| "alias_loop (Suc n) r typeQN =
     (case LookupType r typeQN of
        None \<Rightarrow> None
      | Some t \<Rightarrow> if Type_AliasOf t = '''' then Some t else alias_loop n r (Type_AliasOf t))"

definition ResolveAlias :: "Type_Registry \<Rightarrow> string \<Rightarrow> RegisteredType option" where
  "ResolveAlias r typeQN = alias_loop 16 r typeQN"

text \<open>
  The callback of \<open>IterFuncsByShortName\<close> is a state transformer that also says whether to go on. When it says no, the
  rest of this level and the fallbacks are skipped.
\<close>

fun iter_level :: "string \<Rightarrow> (RegisteredFunc \<Rightarrow> 's \<Rightarrow> bool \<times> 's) \<Rightarrow> RegisteredFunc list \<Rightarrow> 's \<Rightarrow> bool \<times> 's" where
  "iter_level shortName fn [] s = (True, s)"
| "iter_level shortName fn (f # fs) s =
     (if Func_ShortName f = shortName
      then (case fn f s of (goes_on, s') \<Rightarrow> if \<not> goes_on then (False, s') else iter_level shortName fn fs s')
      else iter_level shortName fn fs s)"

fun IterFuncsByShortName :: "Type_Registry \<Rightarrow> string \<Rightarrow> (RegisteredFunc \<Rightarrow> 's \<Rightarrow> bool \<times> 's) \<Rightarrow> 's \<Rightarrow> 's" where
  "IterFuncsByShortName (Type_Registry fs ts ms fb) shortName fn s =
     (case iter_level shortName fn (map snd fs) s of
        (goes_on, s') \<Rightarrow>
          if \<not> goes_on then s'
          else (case fb of Some r \<Rightarrow> IterFuncsByShortName r shortName fn s' | None \<Rightarrow> s'))"

definition FuncCount :: "Type_Registry \<Rightarrow> nat" where "FuncCount r = length (reg_funcs r)"
definition TypeCount :: "Type_Registry \<Rightarrow> nat" where "TypeCount r = length (reg_types r)"

section \<open>Lookups\<close>

lemma LookupFunc_AddFunc:
  "LookupFunc (AddFunc f r) q = (if q = Func_QualifiedName f then Some f else LookupFunc r q)"
  by (cases r) simp

lemma LookupType_AddType:
  "LookupType (AddType t r) q = (if q = Type_QualifiedName t then Some t else LookupType r q)"
  by (cases r) simp

lemma LookupType_AddFunc [simp]: "LookupType (AddFunc f r) q = LookupType r q"
  by (cases r) simp

lemma LookupMethod_AddType [simp]: "LookupMethod (AddType t r) q m = LookupMethod r q m"
  by (cases r) simp

lemma LookupMethod_AddFunc:
  "LookupMethod (AddFunc f r) q m =
     (if Func_ReceiverType f \<noteq> '''' \<and> q @ ''.'' @ m = Func_ReceiverType f @ ''.'' @ Func_ShortName f then Some f
      else LookupMethod r q m)"
  by (cases r) simp

text \<open>Looking up a symbol of a package is looking up its qualified name.\<close>

lemma LookupSymbol_eq: "LookupSymbol r p n = LookupFunc r (p @ ''.'' @ n)"
  by (induction r p n rule: LookupSymbol.induct) (simp split: option.splits)

lemma SetFallback_lookups:
  "LookupFunc (SetFallback r p) q = (case map_of (reg_funcs r) q of Some f \<Rightarrow> Some f | None \<Rightarrow> Option.bind p (\<lambda>r'. LookupFunc r' q))"
  "LookupType (SetFallback r p) q = (case map_of (reg_types r) q of Some t \<Rightarrow> Some t | None \<Rightarrow> Option.bind p (\<lambda>r'. LookupType r' q))"
  "LookupMethod (SetFallback r p) q m =
     (case map_of (reg_methods r) (q @ ''.'' @ m) of Some f \<Rightarrow> Some f | None \<Rightarrow> Option.bind p (\<lambda>r'. LookupMethod r' q m))"
  by (cases r; cases p; simp split: option.splits)+

text \<open>The relation from an alias to its target, and the alias chains \<open>ResolveAlias\<close> follows.\<close>

definition alias_edge :: "Type_Registry \<Rightarrow> (string \<times> string) set" where
  "alias_edge r = {(q, q'). \<exists>t. LookupType r q = Some t \<and> Type_AliasOf t = q' \<and> q' \<noteq> ''''}"

definition no_alias :: "Type_Registry \<Rightarrow> string \<Rightarrow> RegisteredType \<Rightarrow> bool" where
  "no_alias r q t \<longleftrightarrow> LookupType r q = Some t \<and> Type_AliasOf t = ''''"

lemma alias_loop_iff:
  "alias_loop k r q = Some t \<longleftrightarrow> (\<exists>n < k. \<exists>q'. (q, q') \<in> alias_edge r ^^ n \<and> no_alias r q' t)"
proof (induction k arbitrary: q)
  case (Suc k)
  have split: "(\<exists>n < Suc k. \<exists>q'. (q, q') \<in> alias_edge r ^^ n \<and> no_alias r q' t) \<longleftrightarrow>
      no_alias r q t \<or> (\<exists>p. (q, p) \<in> alias_edge r \<and> (\<exists>n < k. \<exists>q'. (p, q') \<in> alias_edge r ^^ n \<and> no_alias r q' t))"
    (is "?l \<longleftrightarrow> ?r")
  proof
    assume ?l
    then obtain n q' where n: "n < Suc k" "(q, q') \<in> alias_edge r ^^ n" "no_alias r q' t" by blast
    show ?r
    proof (cases n)
      case (Suc m)
      then show ?thesis using n relpow_Suc_D2 [of q q' m "alias_edge r"] by auto
    qed (use n in auto)
  next
    assume ?r
    then show ?l
    proof
      assume "no_alias r q t"
      then show ?l by (intro exI [of _ 0]) auto
    next
      assume "\<exists>p. (q, p) \<in> alias_edge r \<and> (\<exists>n < k. \<exists>q'. (p, q') \<in> alias_edge r ^^ n \<and> no_alias r q' t)"
      then obtain p n q' where "(q, p) \<in> alias_edge r" "n < k" "(p, q') \<in> alias_edge r ^^ n" "no_alias r q' t" by blast
      then show ?l by (intro exI [of _ "Suc n"]) (use relpow_Suc_I2 [of q p "alias_edge r" q' n] in auto)
    qed
  qed
  show ?case unfolding split Suc.IH [symmetric]
    by (auto simp: no_alias_def alias_edge_def split: option.splits)
qed simp

lemma ResolveAlias_iff:
  "ResolveAlias r q = Some t \<longleftrightarrow> (\<exists>n < 16. \<exists>q'. (q, q') \<in> alias_edge r ^^ n \<and> no_alias r q' t)"
  unfolding ResolveAlias_def by (rule alias_loop_iff)

end
