(* ===== verification/GoSignatures.thy ===== *)
theory GoSignatures
  imports TypeModel
begin

text \<open>
  internal/typresolve/go, the part that works on names and texts: builtin names (builtins.go, types.go), the reading of
  type and signature texts and the registry built from extracted definitions (registry\_builder.go), the lookup of
  members through aliases and embedded types (methods.go), the inference of type parameters (eval.go) and the splitting
  of qualified names and interface satisfaction (resolve.go).
\<close>

section \<open>Builtin names\<close>

definition goBuiltinTypes :: "string list" where
  "goBuiltinTypes = [''int'', ''int8'', ''int16'', ''int32'', ''int64'', ''uint'', ''uint8'', ''uint16'', ''uint32'', ''uint64'',
     ''float32'', ''float64'', ''complex64'', ''complex128'', ''string'', ''bool'', ''byte'', ''rune'', ''error'', ''any'', ''uintptr'']"

definition isBuiltinType :: "string \<Rightarrow> bool" where
  "isBuiltinType name \<longleftrightarrow> name \<in> set goBuiltinTypes"

definition builtinFuncs :: "string list" where
  "builtinFuncs = [''make'', ''new'', ''append'', ''len'', ''cap'', ''delete'', ''close'', ''copy'', ''panic'', ''recover'', ''print'',
     ''println'', ''complex'', ''real'', ''imag'', ''min'', ''max'', ''clear'']"

definition IsBuiltinFunc :: "string \<Rightarrow> bool" where
  "IsBuiltinFunc name \<longleftrightarrow> name \<in> set builtinFuncs"

definition builtinTypes :: "string list" where
  "builtinTypes = [''int'', ''int8'', ''int16'', ''int32'', ''int64'', ''uint'', ''uint8'', ''uint16'', ''uint32'', ''uint64'',
     ''float32'', ''float64'', ''complex64'', ''complex128'', ''string'', ''bool'', ''byte'', ''rune'', ''error'', ''uintptr'', ''any'']"

definition ResolveBuiltinType :: "string \<Rightarrow> gtype option" where
  "ResolveBuiltinType name = (if name \<in> set builtinTypes then Some (Builtin name) else None)"

section \<open>Bracketed texts\<close>

text \<open>The index of the closing bracket that brings the depth back to zero.\<close>

fun close_loop :: "char \<Rightarrow> char \<Rightarrow> string \<Rightarrow> nat \<Rightarrow> int \<Rightarrow> nat option" where
  "close_loop a b [] i depth = None"
| "close_loop a b (c # cs) i depth =
     (if c = a then close_loop a b cs (Suc i) (depth + 1)
      else if c = b then (if depth - 1 = 0 then Some i else close_loop a b cs (Suc i) (depth - 1))
      else close_loop a b cs (Suc i) depth)"

definition splitParenthesized :: "string \<Rightarrow> string \<times> string" where
  "splitParenthesized s =
     (if s = [] \<or> s ! 0 \<noteq> CHR ''('' then ([], s)
      else (case close_loop CHR ''('' CHR '')'' s 0 0 of
              Some i \<Rightarrow> (slice s 1 i, drop (i + 1) s)
            | None \<Rightarrow> (drop 1 s, [])))"

fun comma_loop :: "string \<Rightarrow> string \<Rightarrow> nat \<Rightarrow> nat \<Rightarrow> int \<Rightarrow> string list \<Rightarrow> string list" where
  "comma_loop s [] i start depth parts = parts @ [drop start s]"
| "comma_loop s (c # cs) i start depth parts =
     (if c \<in> {CHR ''('', CHR ''['', CHR ''{''} then comma_loop s cs (Suc i) start (depth + 1) parts
      else if c \<in> {CHR '')'', CHR '']'', CHR ''}''} then comma_loop s cs (Suc i) start (depth - 1) parts
      else if c = CHR '','' \<and> depth = 0 then comma_loop s cs (Suc i) (Suc i) depth (parts @ [slice s start i])
      else comma_loop s cs (Suc i) start depth parts)"

definition splitTopLevelComma :: "string \<Rightarrow> string list" where
  "splitTopLevelComma s = comma_loop s s 0 0 0 []"

section \<open>Type and signature texts\<close>

text \<open>The texts of the return types of a signature, as \<open>parseGoSignatureText\<close> isolates them.\<close>

definition signature_rest :: "string \<Rightarrow> string" where
  "signature_rest sig =
     (let sig = strings_TrimSpace sig;
          sig = (if strings_HasPrefix sig ''func'' then drop 4 sig else sig);
          (params, rest) = splitParenthesized sig in
      strings_TrimSpace rest)"

definition return_texts :: "string \<Rightarrow> string list" where
  "return_texts sig =
     (let rest = signature_rest sig in
      if rest = '''' then []
      else if strings_HasPrefix rest ''(''
      then filter (\<lambda>part. part \<noteq> '''') (map strings_TrimSpace (splitTopLevelComma (fst (splitParenthesized rest))))
      else [rest])"

text \<open>The end of the key of a map type, from the bracket at index 3; Go's \<open>-1\<close> is \<open>None\<close>.\<close>

definition map_key_end :: "string \<Rightarrow> nat option" where
  "map_key_end text = close_loop CHR ''['' CHR '']'' (drop 3 text) 3 0"

function parseTypeText :: "string \<Rightarrow> string \<Rightarrow> gtype" where
  "parseTypeText txt pkgQN =
     (let text = strings_TrimSpace txt in
      if text = '''' then Unknown
      else if strings_HasPrefix text ''*'' then Pointer (Some (parseTypeText (drop 1 text) pkgQN))
      else if strings_HasPrefix text ''[]'' then Slice (Some (parseTypeText (drop 2 text) pkgQN))
      else if strings_HasPrefix text ''map['' then
        (case map_key_end text of
           Some keyEnd \<Rightarrow>
             if keyEnd > 4
             then Map_type (Some (parseTypeText (slice text 4 keyEnd) pkgQN)) (Some (parseTypeText (drop (keyEnd + 1) text) pkgQN))
             else Unknown
         | None \<Rightarrow> Unknown)
      else if strings_HasPrefix text ''<-chan '' then Channel (Some (parseTypeText (drop 7 text) pkgQN)) ChanRecv
      else if strings_HasPrefix text ''chan<- '' then Channel (Some (parseTypeText (drop 6 text) pkgQN)) ChanSend
      else if strings_HasPrefix text ''chan '' then Channel (Some (parseTypeText (drop 5 text) pkgQN)) ChanBidi
      else if strings_HasPrefix text ''func'' then Func [] (map (\<lambda>part. Some (parseTypeText part pkgQN)) (return_texts text))
      else if text = ''interface{}'' \<or> strings_HasPrefix text ''interface{'' then zero_type KindInterface
      else if text = ''struct{}'' \<or> strings_HasPrefix text ''struct{'' then zero_type KindStruct
      else if isBuiltinType text then Builtin text
      else if strings_Contains text ''.'' then Named text
      else if pkgQN \<noteq> '''' then Named (pkgQN @ ''.'' @ text)
      else Named text)"
  by pat_completeness auto

lemma length_TrimSpace: "length (strings_TrimSpace s) \<le> length s"
  unfolding strings_TrimSpace_def by (metis length_rev length_dropWhile_le le_trans)

lemma dropWhile_id: "s = [] \<or> \<not> P (hd s) \<Longrightarrow> dropWhile P s = s"
  by (cases s) auto

lemma last_dropWhile: "dropWhile P s \<noteq> [] \<Longrightarrow> last (dropWhile P s) = last s"
  by (induction s) (auto split: if_splits)

lemma TrimSpace_cases:
  "strings_TrimSpace s = [] \<or> \<not> is_space (hd (strings_TrimSpace s)) \<and> \<not> is_space (last (strings_TrimSpace s))"
proof -
  let ?l = "dropWhile is_space s"
  let ?t = "dropWhile is_space (rev ?l)"
  have "\<not> is_space (hd (rev ?t)) \<and> \<not> is_space (last (rev ?t))" if ne: "?t \<noteq> []"
  proof
    have l: "?l \<noteq> []" using ne by (metis dropWhile.simps(1) rev.simps(1))
    have "last ?t = hd ?l" using last_dropWhile [OF ne] l by (simp add: last_rev)
    moreover have "\<not> is_space (hd ?l)" using l by (metis dropWhile_eq_Nil_conv hd_dropWhile)
    ultimately show "\<not> is_space (hd (rev ?t))" by (metis hd_rev)
    have "\<not> is_space (hd ?t)" using ne by (metis dropWhile_eq_Nil_conv hd_dropWhile)
    then show "\<not> is_space (last (rev ?t))" by (metis last_rev)
  qed
  then show ?thesis unfolding strings_TrimSpace_def by (metis rev_is_Nil_conv)
qed

lemma TrimSpace_id: "s = [] \<or> \<not> is_space (hd s) \<and> \<not> is_space (last s) \<Longrightarrow> strings_TrimSpace s = s"
  by (auto simp: strings_TrimSpace_def dropWhile_id hd_rev)

lemma TrimSpace_idem [simp]: "strings_TrimSpace (strings_TrimSpace s) = strings_TrimSpace s"
  by (rule TrimSpace_id) (rule TrimSpace_cases)

lemma length_slice: "length (slice s i j) \<le> length s - i"
  by (simp add: slice_def)

lemma length_splitParenthesized:
  "length (fst (splitParenthesized s)) \<le> length s" "length (snd (splitParenthesized s)) \<le> length s"
  by (auto simp: splitParenthesized_def slice_def split: option.splits)

lemma comma_loop_lengths:
  "p \<in> set (comma_loop s cs i start depth parts) \<Longrightarrow> p \<in> set parts \<or> length p \<le> length s"
proof (induction s cs i start depth parts rule: comma_loop.induct)
  case (2 s c cs i start depth parts)
  then show ?case using length_slice [of s start i] by (auto split: if_splits)
qed auto

lemma return_texts_shorter:
  assumes "p \<in> set (return_texts text)" "strings_HasPrefix text ''func''" "strings_TrimSpace text = text"
  shows "length p < length text"
proof -
  have func: "4 \<le> length text" using assms(2) by (auto simp: strings_HasPrefix_def prefix_def)
  have "length (signature_rest text) \<le> length text - 4"
    using assms(2,3) length_TrimSpace length_splitParenthesized(2) [of "drop 4 text"]
    by (auto simp: signature_rest_def split_def Let_def intro: le_trans)
  moreover have "length p \<le> length (signature_rest text)"
  proof -
    have "length q \<le> length r" if "q \<in> set (splitTopLevelComma (fst (splitParenthesized r)))" for q r
      using that comma_loop_lengths [of q] length_splitParenthesized(1) [of r] unfolding splitTopLevelComma_def by fastforce
    then show ?thesis
      using assms(1) length_TrimSpace by (fastforce simp: return_texts_def Let_def split: if_splits intro: le_trans)
  qed
  ultimately show ?thesis using func by linarith
qed

lemma shorter_parts:
  assumes "strings_TrimSpace txt \<noteq> ''''"
  shows "0 < k \<Longrightarrow> length (strings_TrimSpace txt) - k < length txt"
    and "length (slice (strings_TrimSpace txt) 4 j) < length txt"
    and "strings_HasPrefix (strings_TrimSpace txt) ''func'' \<Longrightarrow> part \<in> set (return_texts (strings_TrimSpace txt)) \<Longrightarrow>
      length part < length txt"
proof -
  have T: "0 < length (strings_TrimSpace txt)" "length (strings_TrimSpace txt) \<le> length txt"
    using assms length_TrimSpace by auto
  show "0 < k \<Longrightarrow> length (strings_TrimSpace txt) - k < length txt" using T by linarith
  show "length (slice (strings_TrimSpace txt) 4 j) < length txt"
    using T length_slice [of "strings_TrimSpace txt" 4 j] by linarith
  show "strings_HasPrefix (strings_TrimSpace txt) ''func'' \<Longrightarrow> part \<in> set (return_texts (strings_TrimSpace txt)) \<Longrightarrow>
      length part < length txt"
    using T return_texts_shorter [of part "strings_TrimSpace txt"] by simp
qed

termination parseTypeText
  by (relation "measure (\<lambda>(txt, _). length txt)") (simp_all add: shorter_parts)

declare parseTypeText.simps [simp del]

definition parseGoSignatureText :: "string \<Rightarrow> string \<Rightarrow> gtype" where
  "parseGoSignatureText sig pkgQN = Func [] (map (\<lambda>part. Some (parseTypeText part pkgQN)) (return_texts sig))"

section \<open>Names\<close>

definition shortName :: "string \<Rightarrow> string" where
  "shortName qn = (case strings_LastIndex qn ''.'' of Some idx \<Rightarrow> drop (idx + 1) qn | None \<Rightarrow> qn)"

definition extractReceiverType :: "string \<Rightarrow> string" where
  "extractReceiverType methodQN = (case strings_LastIndex methodQN ''.'' of Some idx \<Rightarrow> take idx methodQN | None \<Rightarrow> '''')"

text \<open>The positions of the dots of a name, the last one first; the code looks at two of them.\<close>

definition dots_from_end :: "string \<Rightarrow> nat list" where
  "dots_from_end qn = filter (\<lambda>i. qn ! i = CHR ''.'') (rev [0..<length qn])"

definition packageFromQN :: "string \<Rightarrow> string" where
  "packageFromQN qn =
     (case dots_from_end qn of
        lastDot # secondLastDot # _ \<Rightarrow> take secondLastDot qn
      | [lastDot] \<Rightarrow> take lastDot qn
      | [] \<Rightarrow> qn)"

definition KindFunction :: string where "KindFunction = ''function''"
definition KindMethod :: string where "KindMethod = ''method''"

definition splitQualifiedName :: "string \<Rightarrow> string \<times> string \<times> string" where
  "splitQualifiedName qn =
     (case dots_from_end qn of
        [] \<Rightarrow> ('''', qn, KindFunction)
      | lastDot # secondLastDot # _ \<Rightarrow> (take secondLastDot qn, drop (secondLastDot + 1) qn, KindMethod)
      | [lastDot] \<Rightarrow> (take lastDot qn, drop (lastDot + 1) qn, KindFunction))"

definition splitEnclosingFunc :: "string \<Rightarrow> string \<Rightarrow> string \<times> string \<times> string" where
  "splitEnclosingFunc funcQN pkgQN =
     (if length funcQN > length pkgQN + 1
      then (let rest = drop (length pkgQN + 1) funcQN in
            if CHR ''.'' \<in> set rest then (pkgQN, rest, KindMethod) else (pkgQN, rest, KindFunction))
      else (pkgQN, funcQN, KindFunction))"

definition inferPkgQNFromPath :: "string \<Rightarrow> string" where
  "inferPkgQNFromPath filePath = (case strings_LastIndex filePath ''/'' of Some idx \<Rightarrow> take idx filePath | None \<Rightarrow> filePath)"

section \<open>The registry of a workspace\<close>

definition method_name :: "string \<Rightarrow> string" where
  "method_name p =
     (let p = strings_TrimSpace p;
          p = (case strings_Index p ''('' of Some idx \<Rightarrow> if idx > 0 then take idx p else p | None \<Rightarrow> p) in
      strings_TrimSpace p)"

definition parseInterfaceMethodNames :: "string \<Rightarrow> string list" where
  "parseInterfaceMethodNames sig =
     (let sig = strings_TrimSpace sig;
          sig = (if strings_HasPrefix sig ''interface{''
                 then (let s = drop 10 sig in if strings_HasSuffix s ''}'' then take (length s - 1) s else s)
                 else sig) in
      if sig = '''' then []
      else if strings_Contains sig ''|'' then filter (\<lambda>p. p \<noteq> '''') (map method_name (split_on CHR ''|'' sig))
      else filter (\<lambda>p. p \<noteq> '''') (map method_name (split_on CHR '';'' sig)))"

record ResolverDef =
  Def_QualifiedName :: string
  Def_Kind :: string
  Def_Signature :: string
  Def_FilePath :: string
  Def_PackagePath :: string

definition def_signature :: "ResolverDef \<Rightarrow> gtype option" where
  "def_signature def =
     (if Def_Signature def \<noteq> ''''
      then Some (parseGoSignatureText (Def_Signature def) (packageFromQN (Def_QualifiedName def))) else None)"

text \<open>The alias target of a type with signature \<open>= Target\<close>, empty when there is none.\<close>

definition qualify_target :: "string \<Rightarrow> string \<Rightarrow> string" where
  "qualify_target pkg target =
     (if \<not> isBuiltinType target \<and> \<not> strings_Contains target ''.'' then pkg @ ''.'' @ target else target)"

definition def_alias :: "ResolverDef \<Rightarrow> string" where
  "def_alias def =
     (if strings_HasPrefix (Def_Signature def) ''= ''
      then (let target = strings_TrimSpace (drop 2 (Def_Signature def)) in
            if target \<noteq> '''' then qualify_target (packageFromQN (Def_QualifiedName def)) target else '''')
      else '''')"

text \<open>
  The state of the construction is the registry and \<open>registeredTypeQNs\<close>, a variable of the package that every
  construction starts afresh.
\<close>

definition register_def :: "ResolverDef \<Rightarrow> Type_Registry \<times> string list \<Rightarrow> Type_Registry \<times> string list" where
  "register_def def st =
     (case st of (reg, registeredTypeQNs) \<Rightarrow>
        if Def_Kind def = ''function'' then
          (AddFunc (new_func\<lparr>Func_QualifiedName := Def_QualifiedName def, Func_ShortName := shortName (Def_QualifiedName def),
             Func_MinParams := -1, Func_Signature := def_signature def\<rparr>) reg, registeredTypeQNs)
        else if Def_Kind def = ''method'' then
          (AddFunc (new_func\<lparr>Func_QualifiedName := Def_QualifiedName def, Func_ShortName := shortName (Def_QualifiedName def),
             Func_ReceiverType := extractReceiverType (Def_QualifiedName def),
             Func_MinParams := -1, Func_Signature := def_signature def\<rparr>) reg, registeredTypeQNs)
        else if Def_Kind def = ''type'' then
          (AddType (new_type\<lparr>Type_QualifiedName := Def_QualifiedName def, Type_ShortName := shortName (Def_QualifiedName def),
             Type_IsInterface := False, Type_AliasOf := def_alias def\<rparr>) reg, registeredTypeQNs @ [Def_QualifiedName def])
        else if Def_Kind def = ''interface'' then
          (AddType (new_type\<lparr>Type_QualifiedName := Def_QualifiedName def, Type_ShortName := shortName (Def_QualifiedName def),
             Type_IsInterface := True,
             Type_MethodNames := (if Def_Signature def \<noteq> '''' then parseInterfaceMethodNames (Def_Signature def) else [])\<rparr>) reg,
           registeredTypeQNs @ [Def_QualifiedName def])
        else st)"

definition BuildRegistry_defs :: "ResolverDef list \<Rightarrow> Type_Registry \<times> string list" where
  "BuildRegistry_defs defs = fold register_def defs (NewRegistry, [])"

section \<open>Members\<close>

fun first_some :: "('a \<Rightarrow> 'b option) \<Rightarrow> 'a list \<Rightarrow> 'b option" where
  "first_some f [] = None"
| "first_some f (x # xs) = (case f x of Some y \<Rightarrow> Some y | None \<Rightarrow> first_some f xs)"

lemma first_some_cong [fundef_cong]:
  "xs = ys \<Longrightarrow> (\<And>x. x \<in> set ys \<Longrightarrow> f x = g x) \<Longrightarrow> first_some f xs = first_some g ys"
  by (induction xs arbitrary: ys) (auto split: option.splits)

lemma first_some_SomeD: "first_some f xs = Some y \<Longrightarrow> \<exists>x \<in> set xs. f x = Some y"
  by (induction xs) (auto split: option.splits)

lemma first_some_None: "first_some f xs = None \<longleftrightarrow> (\<forall>x \<in> set xs. f x = None)"
  by (induction xs) (auto split: option.splits)

definition maxEmbedDepth :: nat where "maxEmbedDepth = 5"

function lookupFieldOrMethodDepth :: "Type_Registry \<Rightarrow> string \<Rightarrow> string \<Rightarrow> nat \<Rightarrow> RegisteredFunc option" where
  "lookupFieldOrMethodDepth reg typeQN memberName depth =
     (if depth \<ge> maxEmbedDepth then None
      else (case LookupMethod reg typeQN memberName of
              Some f \<Rightarrow> Some f
            | None \<Rightarrow>
                (case LookupType reg typeQN of
                   None \<Rightarrow> None
                 | Some t \<Rightarrow>
                     if Type_AliasOf t \<noteq> '''' then lookupFieldOrMethodDepth reg (Type_AliasOf t) memberName (depth + 1)
                     else first_some (\<lambda>embedded. lookupFieldOrMethodDepth reg embedded memberName (depth + 1)) (Type_EmbeddedTypes t))))"
  by pat_completeness auto
termination by (relation "measure (\<lambda>(reg, typeQN, memberName, depth). maxEmbedDepth - depth)") auto

definition LookupFieldOrMethod :: "Type_Registry \<Rightarrow> string \<Rightarrow> string \<Rightarrow> RegisteredFunc option" where
  "LookupFieldOrMethod reg typeQN memberName = lookupFieldOrMethodDepth reg typeQN memberName 0"

fun field_named :: "string \<Rightarrow> (string \<times> gtype option) list \<Rightarrow> gtype option option" where
  "field_named fieldName [] = None"
| "field_named fieldName (f # fs) = (if fst f = fieldName then Some (snd f) else field_named fieldName fs)"

text \<open>A field found with a nil type ends the search at its level; the caller continues with its next embedded type.\<close>

function lookupFieldDepth :: "Type_Registry \<Rightarrow> string \<Rightarrow> string \<Rightarrow> nat \<Rightarrow> gtype option" where
  "lookupFieldDepth reg typeQN fieldName depth =
     (if depth \<ge> maxEmbedDepth then None
      else (case LookupType reg typeQN of
              None \<Rightarrow> None
            | Some t \<Rightarrow>
                if Type_AliasOf t \<noteq> '''' then lookupFieldDepth reg (Type_AliasOf t) fieldName (depth + 1)
                else (case field_named fieldName (Type_Fields t) of
                        Some ft \<Rightarrow> ft
                      | None \<Rightarrow> first_some (\<lambda>embedded. lookupFieldDepth reg embedded fieldName (depth + 1)) (Type_EmbeddedTypes t))))"
  by pat_completeness auto
termination by (relation "measure (\<lambda>(reg, typeQN, memberName, depth). maxEmbedDepth - depth)") auto

declare lookupFieldOrMethodDepth.simps [simp del] lookupFieldDepth.simps [simp del]

definition LookupField :: "Type_Registry \<Rightarrow> string \<Rightarrow> string \<Rightarrow> gtype option" where
  "LookupField reg typeQN fieldName = lookupFieldDepth reg typeQN fieldName 0"

text \<open>The loop over the candidates keeps the implementer found so far and stops at the second one.\<close>

definition implements :: "Type_Registry \<Rightarrow> RegisteredType \<Rightarrow> string \<Rightarrow> bool" where
  "implements reg iface candidateQN \<longleftrightarrow>
     (case LookupType reg candidateQN of
        None \<Rightarrow> False
      | Some cand \<Rightarrow>
          \<not> (Type_IsInterface cand \<or> Type_AliasOf cand \<noteq> '''') \<and>
          list_all (\<lambda>methodName. LookupMethod reg candidateQN methodName \<noteq> None) (Type_MethodNames iface))"

fun implementer_loop :: "Type_Registry \<Rightarrow> RegisteredType \<Rightarrow> string list \<Rightarrow> string \<Rightarrow> nat \<Rightarrow> string" where
  "implementer_loop reg iface [] soleImpl implCount = (if implCount = 1 then soleImpl else '''')"
| "implementer_loop reg iface (candidateQN # cs) soleImpl implCount =
     (if implements reg iface candidateQN
      then if implCount + 1 > 1 then '''' else implementer_loop reg iface cs candidateQN (implCount + 1)
      else implementer_loop reg iface cs soleImpl implCount)"

definition findSoleImplementer :: "string list \<Rightarrow> Type_Registry \<Rightarrow> RegisteredType \<Rightarrow> string" where
  "findSoleImplementer registeredTypeQNs reg iface =
     (if Type_MethodNames iface = [] then '''' else implementer_loop reg iface registeredTypeQNs '''' 0)"

section \<open>Type parameters\<close>

function containsTypeParam :: "gtype option \<Rightarrow> bool" where
  "containsTypeParam None = False"
| "containsTypeParam (Some t) =
     (if Ty_Kind t = KindTypeParam then True
      else if containsTypeParam (Ty_Elem t) then True
      else if containsTypeParam (Ty_Key t) then True
      else if containsTypeParam (Ty_Value t) then True
      else list_ex containsTypeParam (Ty_Returns t))"
  by pat_completeness auto

lemma return_size: "r \<in> set (Ty_Returns t) \<Longrightarrow> opt_size r < Suc (size t)"
proof -
  have "r \<in> set xs \<Longrightarrow> opt_size r < list_size xs" for xs by (induction xs) auto
  then show "r \<in> set (Ty_Returns t) \<Longrightarrow> opt_size r < Suc (size t)" using part_sizes(5) [of t] by fastforce
qed

termination containsTypeParam
  by (relation "measure opt_size") (auto simp: part_sizes return_size)

definition hasTypeParam :: "gtype option list \<Rightarrow> bool" where
  "hasTypeParam types = list_ex containsTypeParam types"

function unifyType :: "gtype option \<Rightarrow> gtype option \<Rightarrow> (string, gtype) gomap \<Rightarrow> (string, gtype) gomap" where
  "unifyType None argType inferred = inferred"
| "unifyType (Some p) None inferred = inferred"
| "unifyType (Some p) (Some a) inferred =
     (if Ty_Kind a = KindUnknown then inferred
      else if Ty_Kind p = KindTypeParam
      then (if map_of inferred (Ty_Name p) = None then gomap_set (Ty_Name p) a inferred else inferred)
      else
        (let inferred = (if Ty_Kind p = KindSlice \<and> Ty_Kind a = KindSlice then unifyType (Ty_Elem p) (Ty_Elem a) inferred else inferred);
             inferred = (if Ty_Kind p = KindPointer \<and> Ty_Kind a = KindPointer then unifyType (Ty_Elem p) (Ty_Elem a) inferred else inferred);
             inferred = (if Ty_Kind p = KindMap \<and> Ty_Kind a = KindMap
                         then unifyType (Ty_Value p) (Ty_Value a) (unifyType (Ty_Key p) (Ty_Key a) inferred) else inferred) in
         if Ty_Kind p = KindChannel \<and> Ty_Kind a = KindChannel then unifyType (Ty_Elem p) (Ty_Elem a) inferred else inferred))"
  by pat_completeness auto
termination by (relation "measure (\<lambda>(p, a, inferred). opt_size p)") (auto simp: part_sizes)

text \<open>
  The code returns \<open>t\<close> itself when nothing was substituted below it, comparing pointers; the comparison of trees gives
  the same type.
\<close>

function substituteTypeParams :: "gtype option \<Rightarrow> (string, gtype) gomap \<Rightarrow> gtype option" where
  "substituteTypeParams None inferred = None"
| "substituteTypeParams (Some t) inferred =
     (if Ty_Kind t = KindTypeParam
      then (case map_of inferred (Ty_Name t) of Some concrete \<Rightarrow> Some concrete | None \<Rightarrow> Some t)
      else if Ty_Kind t = KindPointer then
        (let inner = substituteTypeParams (Ty_Elem t) inferred in if inner = Ty_Elem t then Some t else Some (Pointer inner))
      else if Ty_Kind t = KindSlice then
        (let inner = substituteTypeParams (Ty_Elem t) inferred in if inner = Ty_Elem t then Some t else Some (Slice inner))
      else if Ty_Kind t = KindMap then
        (let key = substituteTypeParams (Ty_Key t) inferred; val = substituteTypeParams (Ty_Value t) inferred in
         if key = Ty_Key t \<and> val = Ty_Value t then Some t else Some (Map_type key val))
      else if Ty_Kind t = KindChannel then
        (let inner = substituteTypeParams (Ty_Elem t) inferred in
         if inner = Ty_Elem t then Some t else Some (Channel inner (Ty_ChanDir t)))
      else Some t)"
  by pat_completeness auto
termination by (relation "measure (\<lambda>(t, inferred). opt_size t)") (auto simp: part_sizes)

declare containsTypeParam.simps(2) [simp del] unifyType.simps(3) [simp del] substituteTypeParams.simps(2) [simp del]

section \<open>Promotion\<close>

text \<open>One step of promotion leads from an alias to its target and from a type to a type it embeds.\<close>

definition promotes :: "Type_Registry \<Rightarrow> (string \<times> string) set" where
  "promotes reg = {(q, q'). \<exists>t. LookupType reg q = Some t \<and>
     (if Type_AliasOf t \<noteq> '''' then q' = Type_AliasOf t else q' \<in> set (Type_EmbeddedTypes t))}"

lemma promotes_alias: "LookupType reg q = Some t \<Longrightarrow> Type_AliasOf t \<noteq> '''' \<Longrightarrow> (q, q') \<in> promotes reg \<longleftrightarrow> q' = Type_AliasOf t"
  by (auto simp: promotes_def)

lemma promotes_embedded:
  "LookupType reg q = Some t \<Longrightarrow> Type_AliasOf t = '''' \<Longrightarrow> (q, q') \<in> promotes reg \<longleftrightarrow> q' \<in> set (Type_EmbeddedTypes t)"
  by (auto simp: promotes_def)

lemma promotes_none: "LookupType reg q = None \<Longrightarrow> (q, q') \<notin> promotes reg"
  by (auto simp: promotes_def)

lemma member_direct:
  "d < maxEmbedDepth \<Longrightarrow> LookupMethod reg q m = Some f \<Longrightarrow> lookupFieldOrMethodDepth reg q m d = Some f"
  by (subst lookupFieldOrMethodDepth.simps) simp

lemma member_end:
  "d < maxEmbedDepth \<Longrightarrow> LookupMethod reg q m = None \<Longrightarrow> LookupType reg q = None \<Longrightarrow> lookupFieldOrMethodDepth reg q m d = None"
  by (subst lookupFieldOrMethodDepth.simps) simp

lemma member_alias:
  "d < maxEmbedDepth \<Longrightarrow> LookupMethod reg q m = None \<Longrightarrow> LookupType reg q = Some t \<Longrightarrow> Type_AliasOf t \<noteq> '''' \<Longrightarrow>
     lookupFieldOrMethodDepth reg q m d = lookupFieldOrMethodDepth reg (Type_AliasOf t) m (d + 1)"
  by (subst lookupFieldOrMethodDepth.simps) simp

lemma member_embedded:
  "d < maxEmbedDepth \<Longrightarrow> LookupMethod reg q m = None \<Longrightarrow> LookupType reg q = Some t \<Longrightarrow> Type_AliasOf t = '''' \<Longrightarrow>
     lookupFieldOrMethodDepth reg q m d = first_some (\<lambda>e. lookupFieldOrMethodDepth reg e m (d + 1)) (Type_EmbeddedTypes t)"
  by (subst lookupFieldOrMethodDepth.simps) simp

lemma member_deep: "d \<ge> maxEmbedDepth \<Longrightarrow> lookupFieldOrMethodDepth reg q m d = None"
  by (subst lookupFieldOrMethodDepth.simps) simp

lemma member_found:
  "lookupFieldOrMethodDepth reg q m d = Some f \<Longrightarrow>
     \<exists>n q'. n + d < maxEmbedDepth \<and> (q, q') \<in> promotes reg ^^ n \<and> LookupMethod reg q' m = Some f"
proof (induction "maxEmbedDepth - d" arbitrary: q d)
  case 0
  then show ?case using member_deep [of d reg q m] by simp
next
  case (Suc k)
  have d: "d < maxEmbedDepth" using Suc.hyps(2) by simp
  have step: "\<exists>n q'. n + d < maxEmbedDepth \<and> (q, q') \<in> promotes reg ^^ n \<and> LookupMethod reg q' m = Some f"
    if p: "(q, p) \<in> promotes reg" and f: "lookupFieldOrMethodDepth reg p m (d + 1) = Some f" for p
  proof -
    have k: "k = maxEmbedDepth - (d + 1)" using Suc.hyps(2) by simp
    obtain n q' where "n + (d + 1) < maxEmbedDepth" "(p, q') \<in> promotes reg ^^ n" "LookupMethod reg q' m = Some f"
      using Suc.hyps(1) [OF k f] by blast
    then show ?thesis using relpow_Suc_I2 [OF p] by (intro exI [of _ "Suc n"] exI [of _ q']) auto
  qed
  show ?case
  proof (cases "LookupMethod reg q m")
    case (Some g)
    then show ?thesis using Suc.prems d member_direct [OF d Some] by (intro exI [of _ 0] exI [of _ q]) simp
  next
    case None
    show ?thesis
    proof (cases "LookupType reg q")
      case (Some t)
      show ?thesis
      proof (cases "Type_AliasOf t = ''''")
        case True
        have "first_some (\<lambda>e. lookupFieldOrMethodDepth reg e m (d + 1)) (Type_EmbeddedTypes t) = Some f"
          using Suc.prems member_embedded [OF d None Some True] by metis
        then obtain e where "e \<in> set (Type_EmbeddedTypes t)" "lookupFieldOrMethodDepth reg e m (d + 1) = Some f"
          using first_some_SomeD by fast
        then show ?thesis using step [of e] promotes_embedded [OF Some True] by blast
      next
        case False
        have "lookupFieldOrMethodDepth reg (Type_AliasOf t) m (d + 1) = Some f"
          using Suc.prems member_alias [OF d None Some False] by metis
        then show ?thesis using step [of "Type_AliasOf t"] promotes_alias [OF Some False] by blast
      qed
    next
      case none: None
      then show ?thesis using Suc.prems member_end [OF d None none] by simp
    qed
  qed
qed

lemma member_missing:
  "lookupFieldOrMethodDepth reg q m d = None \<Longrightarrow> n + d < maxEmbedDepth \<Longrightarrow> (q, q') \<in> promotes reg ^^ n \<Longrightarrow>
     LookupMethod reg q' m = None"
proof (induction n arbitrary: q d)
  case 0
  then show ?case using member_direct [of d reg q m] by (cases "LookupMethod reg q m") auto
next
  case (Suc n)
  have d: "d < maxEmbedDepth" using Suc.prems(2) by simp
  have none: "LookupMethod reg q m = None" using member_direct [OF d] Suc.prems(1) by (cases "LookupMethod reg q m") auto
  obtain p where p: "(q, p) \<in> promotes reg" "(p, q') \<in> promotes reg ^^ n" using Suc.prems(3) relpow_Suc_D2 by fast
  then obtain t where t: "LookupType reg q = Some t" by (auto simp: promotes_def)
  have "lookupFieldOrMethodDepth reg p m (d + 1) = None"
  proof (cases "Type_AliasOf t = ''''")
    case True
    have "first_some (\<lambda>e. lookupFieldOrMethodDepth reg e m (d + 1)) (Type_EmbeddedTypes t) = None"
      using Suc.prems(1) member_embedded [OF d none t True] by metis
    then show ?thesis using p(1) promotes_embedded [OF t True] first_some_None by fast
  next
    case False
    then show ?thesis using Suc.prems(1) member_alias [OF d none t False] p(1) promotes_alias [OF t False] by metis
  qed
  then show ?case using Suc.IH [of p "d + 1"] Suc.prems(2) p(2) by simp
qed

text \<open>
  The promotion lookup is exact up to its depth limit. A method comes from the receiver's type or from a type
  reached from it by at most four steps from an alias to its target or from a type to an embedded type, and the lookup
  comes back empty exactly when no such type has a method of that name.
\<close>

lemma LookupFieldOrMethod_exact:
  "set_option (LookupFieldOrMethod reg q m) \<subseteq>
     {f. \<exists>n q'. n < maxEmbedDepth \<and> (q, q') \<in> promotes reg ^^ n \<and> LookupMethod reg q' m = Some f} \<and>
   (LookupFieldOrMethod reg q m = None \<longleftrightarrow>
     (\<nexists>n q'. n < maxEmbedDepth \<and> (q, q') \<in> promotes reg ^^ n \<and> LookupMethod reg q' m \<noteq> None))"
proof -
  have found: "\<exists>n q'. n < maxEmbedDepth \<and> (q, q') \<in> promotes reg ^^ n \<and> LookupMethod reg q' m = Some f"
    if "LookupFieldOrMethod reg q m = Some f" for f
    using member_found [of reg q m 0 f] that by (simp add: LookupFieldOrMethod_def)
  have missing: "LookupMethod reg q' m = None"
    if "LookupFieldOrMethod reg q m = None" "n < maxEmbedDepth" "(q, q') \<in> promotes reg ^^ n" for n q'
    using member_missing [of reg q m 0 n q'] that by (simp add: LookupFieldOrMethod_def)
  have "set_option (LookupFieldOrMethod reg q m) \<subseteq>
      {f. \<exists>n q'. n < maxEmbedDepth \<and> (q, q') \<in> promotes reg ^^ n \<and> LookupMethod reg q' m = Some f}"
    using found by auto
  moreover have "LookupFieldOrMethod reg q m = None \<longleftrightarrow>
      (\<nexists>n q'. n < maxEmbedDepth \<and> (q, q') \<in> promotes reg ^^ n \<and> LookupMethod reg q' m \<noteq> None)"
    using found missing by (cases "LookupFieldOrMethod reg q m") fastforce+
  ultimately show ?thesis by blast
qed

end
