(* ===== verification/SyntaxTree.thy ===== *)
theory SyntaxTree
  imports Prelude
begin

text \<open>
  Syntax trees as the tree-sitter binding hands them out, with the accessors the code calls: the type of a node, its text
  as a slice of the source, its start point, its children in order (each with the name of its field, empty when it has
  none), the named ones among them, and the child of a field. An accessor that finds nothing returns a nil node, \<open>None\<close>.
\<close>

datatype tree = Tree
  (Node_Type: string)
  (IsNamed: bool)
  (StartByte: nat)
  (EndByte: nat)
  (Row: nat)
  (Column: nat)
  (fields_of: "(string \<times> tree) list")

definition children :: "tree \<Rightarrow> tree list" where "children n = map snd (fields_of n)"

definition ChildCount :: "tree \<Rightarrow> nat" where "ChildCount n = length (children n)"

definition Child :: "nat \<Rightarrow> tree \<Rightarrow> tree option" where
  "Child i n = (if i < length (children n) then Some (children n ! i) else None)"

definition named_children :: "tree \<Rightarrow> tree list" where "named_children n = filter IsNamed (children n)"

definition NamedChildCount :: "tree \<Rightarrow> nat" where "NamedChildCount n = length (named_children n)"

definition NamedChild :: "nat \<Rightarrow> tree \<Rightarrow> tree option" where
  "NamedChild i n = (if i < length (named_children n) then Some (named_children n ! i) else None)"

definition ChildByFieldName :: "string \<Rightarrow> tree \<Rightarrow> tree option" where
  "ChildByFieldName f n = map_option snd (find (\<lambda>p. fst p = f) (fields_of n))"

definition Content :: "tree \<Rightarrow> bytes \<Rightarrow> string" where
  "Content n content = slice content (StartByte n) (EndByte n)"

lemma child_smaller: "c \<in> set (children n) \<Longrightarrow> size c < size n"
proof (cases n)
  case (Tree t m a b r c' fs)
  have "x \<in> set fs \<Longrightarrow> size (snd x) < Suc (size_list (size_prod (\<lambda>_. 0) size) fs)" for x :: "string \<times> tree" and fs
    by (induction fs) (auto split: prod.splits)
  then show "c \<in> set (children n) \<Longrightarrow> size c < size n" using Tree by (fastforce simp: children_def)
qed

lemma named_child_in: "c \<in> set (named_children n) \<Longrightarrow> c \<in> set (children n)"
  by (simp add: named_children_def)

lemma Child_in: "Child i n = Some c \<Longrightarrow> c \<in> set (children n)"
  by (auto simp: Child_def split: if_splits)

lemma NamedChild_in: "NamedChild i n = Some c \<Longrightarrow> c \<in> set (named_children n)"
  by (auto simp: NamedChild_def split: if_splits)

lemma ChildByFieldName_in: "ChildByFieldName f n = Some c \<Longrightarrow> c \<in> set (children n)"
  by (auto simp: ChildByFieldName_def children_def find_Some_iff) (metis image_eqI nth_mem snd_conv)

lemma smaller:
  "Child i n = Some c \<Longrightarrow> size c < size n"
  "NamedChild i n = Some c \<Longrightarrow> size c < size n"
  "ChildByFieldName f n = Some c \<Longrightarrow> size c < size n"
  "c \<in> set (named_children n) \<Longrightarrow> size c < size n"
  "c \<in> set (children n) \<Longrightarrow> size c < size n"
  by (meson child_smaller named_child_in Child_in NamedChild_in ChildByFieldName_in)+

end
