(* ===== verification/GoTypeEval.thy ===== *)
theory GoTypeEval
  imports GoSignatures SyntaxTree
begin

text \<open>
  internal/typresolve/go, the evaluation of syntax: type expressions (types.go), imports (imports.go), builtin calls
  (builtins.go), the types of expressions (eval.go) and the bindings statements make in the current scope
  (scope\_bind.go). The recursive evaluator is passed to the cases that need it, as the code passes it to
  \<open>EvalBuiltinCall\<close>; the congruence rules say that they only use it on smaller trees.
\<close>

type_synonym import_map = "(string, string) gomap"

definition tree_size :: "tree option \<Rightarrow> nat" where
  "tree_size n = (case n of None \<Rightarrow> 0 | Some t \<Rightarrow> Suc (size t))"

lemma tree_size_simps [simp]: "tree_size None = 0" "tree_size (Some t) = Suc (size t)"
  by (simp_all add: tree_size_def)

lemma accessor_sizes [simp]:
  "tree_size (Child i n) < Suc (size n)" "tree_size (NamedChild i n) < Suc (size n)" "tree_size (ChildByFieldName f n) < Suc (size n)"
  using smaller [of _ n] by (cases "Child i n"; cases "NamedChild i n"; cases "ChildByFieldName f n"; fastforce)+

section \<open>Type expressions\<close>

definition last_named :: "tree \<Rightarrow> tree option" where
  "last_named n = (if NamedChildCount n > 0 then NamedChild (NamedChildCount n - 1) n else None)"

lemma last_named_size [simp]: "tree_size (last_named n) < Suc (size n)"
  by (simp add: last_named_def)

definition or_unknown :: "gtype option \<Rightarrow> gtype option" where
  "or_unknown t = (case t of None \<Rightarrow> Some Unknown | Some x \<Rightarrow> Some x)"

definition elem_node :: "tree \<Rightarrow> tree option \<Rightarrow> tree option" where
  "elem_node node alt = (case ChildByFieldName ''element'' node of Some e \<Rightarrow> Some e | None \<Rightarrow> alt)"

lemma elem_node_size [simp]: "tree_size alt < Suc (size n) \<Longrightarrow> tree_size (elem_node n alt) < Suc (size n)"
  by (auto simp: elem_node_def smaller split: option.splits)

definition channel_dir :: "string \<Rightarrow> ChanDir" where
  "channel_dir text =
     (if strings_HasPrefix text ''<-chan'' then ChanRecv
      else if strings_HasPrefix text ''chan<-'' then ChanSend
      else ChanBidi)"

definition generic_node :: "tree \<Rightarrow> tree option" where
  "generic_node node = (case ChildByFieldName ''type'' node of Some t \<Rightarrow> Some t | None \<Rightarrow> NamedChild 0 node)"

lemma generic_node_size [simp]: "tree_size (generic_node n) < Suc (size n)"
  by (auto simp: generic_node_def smaller split: option.splits)

function ParseTypeNode :: "bytes \<Rightarrow> string \<Rightarrow> import_map \<Rightarrow> tree option \<Rightarrow> gtype option" where
  "ParseTypeNode content pkgQN imps None = None"
| "ParseTypeNode content pkgQN imps (Some node) =
     (let ty = Node_Type node in
      if ty = ''type_identifier'' then
        (let name = Content node content in
         if isBuiltinType name then Some (Builtin name) else Some (Named (pkgQN @ ''.'' @ name)))
      else if ty = ''qualified_type'' then
        (case (ChildByFieldName ''package'' node, ChildByFieldName ''name'' node) of
           (Some pkgNode, Some nameNode) \<Rightarrow>
             (let alias = Content pkgNode content; typeName = Content nameNode content in
              case map_of imps alias of
                Some resolved \<Rightarrow> Some (Named (resolved @ ''.'' @ typeName))
              | None \<Rightarrow> Some (Named (alias @ ''.'' @ typeName)))
         | _ \<Rightarrow> None)
      else if ty = ''pointer_type'' then
        (case ParseTypeNode content pkgQN imps (NamedChild 0 node) of None \<Rightarrow> None | Some inner \<Rightarrow> Some (Pointer (Some inner)))
      else if ty = ''slice_type'' then
        (case ParseTypeNode content pkgQN imps (elem_node node (NamedChild 0 node)) of None \<Rightarrow> None | Some inner \<Rightarrow> Some (Slice (Some inner)))
      else if ty = ''array_type'' then
        (case ParseTypeNode content pkgQN imps (elem_node node (last_named node)) of None \<Rightarrow> None | Some inner \<Rightarrow> Some (Slice (Some inner)))
      else if ty = ''map_type'' then
        Some (Map_type (or_unknown (ParseTypeNode content pkgQN imps (ChildByFieldName ''key'' node)))
                       (or_unknown (ParseTypeNode content pkgQN imps (ChildByFieldName ''value'' node))))
      else if ty = ''channel_type'' then
        Some (Channel (or_unknown (ParseTypeNode content pkgQN imps (last_named node))) (channel_dir (Content node content)))
      else if ty = ''function_type'' then Some (Func [] [])
      else if ty = ''interface_type'' then Some (zero_type KindInterface)
      else if ty = ''struct_type'' then Some (zero_type KindStruct)
      else if ty = ''parenthesized_type'' \<or> ty = ''type_elem'' then ParseTypeNode content pkgQN imps (NamedChild 0 node)
      else if ty = ''generic_type'' then ParseTypeNode content pkgQN imps (generic_node node)
      else if ty = ''parameter_list'' then
        (let elems = concat (map (\<lambda>param.
               if Node_Type param \<noteq> ''parameter_declaration'' then []
               else (case ChildByFieldName ''type'' param of
                       None \<Rightarrow> []
                     | Some typeNode \<Rightarrow>
                         (case ParseTypeNode content pkgQN imps (Some typeNode) of None \<Rightarrow> [] | Some t \<Rightarrow> [t])))
               (named_children node)) in
         if length elems = 1 then Some (hd elems)
         else if length elems > 1 then Some (Tuple (map Some elems))
         else None)
      else None)"
  by pat_completeness auto

lemma param_type_smaller: "p \<in> set (named_children n) \<Longrightarrow> ChildByFieldName f p = Some c \<Longrightarrow> size c < size n"
  by (meson smaller less_trans)

termination ParseTypeNode
  by (relation "measure (\<lambda>(content, pkgQN, imps, n). tree_size n)") (auto simp: param_type_smaller)

declare ParseTypeNode.simps(2) [simp del]

section \<open>Imports\<close>

definition addImportSpec :: "bytes \<Rightarrow> tree \<Rightarrow> import_map \<Rightarrow> import_map" where
  "addImportSpec content spec imps =
     (case ChildByFieldName ''path'' spec of
        None \<Rightarrow> imps
      | Some pathNode \<Rightarrow>
          (let importPath = strings_Trim (Content pathNode content) {CHR 0x22} in
           case ChildByFieldName ''name'' spec of
             Some nameNode \<Rightarrow>
               (let alias = Content nameNode content in
                if alias \<noteq> ''.'' \<and> alias \<noteq> ''_'' then gomap_set alias importPath imps else imps)
           | None \<Rightarrow> gomap_set (last (split_on CHR ''/'' importPath)) importPath imps))"

definition import_specs :: "tree \<Rightarrow> tree list" where
  "import_specs child =
     concat (map (\<lambda>spec.
       if Node_Type spec = ''import_spec'' then [spec]
       else if Node_Type spec = ''import_spec_list'' then filter (\<lambda>item. Node_Type item = ''import_spec'') (children spec)
       else []) (children child))"

definition BuildImportMap :: "tree \<Rightarrow> bytes \<Rightarrow> import_map" where
  "BuildImportMap root' content =
     fold (addImportSpec content)
       (concat (map (\<lambda>child. if Node_Type child \<noteq> ''import_declaration'' then [] else import_specs child) (children root'))) []"

definition ResolveImport :: "import_map \<Rightarrow> string \<Rightarrow> string option" where
  "ResolveImport imps alias = map_of imps alias"

section \<open>Expressions\<close>

record ResolveContext =
  Ctx_Registry :: Type_Registry
  Ctx_Scope :: Scope
  Ctx_Imports :: import_map
  Ctx_PkgQN :: string
  Ctx_Content :: bytes
  EnclosingFuncQN :: string

definition nodeContent :: "tree \<Rightarrow> bytes \<Rightarrow> string" where
  "nodeContent node content = Content node content"

abbreviation ctx_parse :: "ResolveContext \<Rightarrow> tree option \<Rightarrow> gtype option" where
  "ctx_parse ctx \<equiv> ParseTypeNode (Ctx_Content ctx) (Ctx_PkgQN ctx) (Ctx_Imports ctx)"

type_synonym evaluator = "tree option \<Rightarrow> gtype option"

definition first_arg :: "tree option \<Rightarrow> tree option" where
  "first_arg args = (case args of None \<Rightarrow> None | Some a \<Rightarrow> NamedChild 0 a)"

definition EvalBuiltinCall :: "string \<Rightarrow> tree option \<Rightarrow> bytes \<Rightarrow> string \<Rightarrow> import_map \<Rightarrow> evaluator \<Rightarrow> gtype option" where
  "EvalBuiltinCall name args content pkgQN imps evalExpr =
     (if name = ''make'' then
        (case first_arg args of Some a \<Rightarrow> ParseTypeNode content pkgQN imps (Some a) | None \<Rightarrow> Some Unknown)
      else if name = ''new'' then
        (case first_arg args of
           Some a \<Rightarrow>
             (case ParseTypeNode content pkgQN imps (Some a) of
                Some inner \<Rightarrow> Some (Pointer (Some inner))
              | None \<Rightarrow> Some (Pointer (Some Unknown)))
         | None \<Rightarrow> Some (Pointer (Some Unknown)))
      else if name = ''append'' then
        (case first_arg args of Some a \<Rightarrow> evalExpr (Some a) | None \<Rightarrow> Some Unknown)
      else if name \<in> {''len'', ''cap''} then Some (Builtin ''int'')
      else if name \<in> {''delete'', ''close'', ''copy''} then Some Unknown
      else if name = ''complex'' then Some (Builtin ''complex128'')
      else if name \<in> {''real'', ''imag''} then Some (Builtin ''float64'')
      else if name \<in> {''min'', ''max''} then
        (case first_arg args of Some a \<Rightarrow> evalExpr (Some a) | None \<Rightarrow> Some Unknown)
      else Some Unknown)"

definition evalIdentifier :: "ResolveContext \<Rightarrow> tree \<Rightarrow> gtype option" where
  "evalIdentifier ctx node =
     (let name = nodeContent node (Ctx_Content ctx) in
      case Scope_Lookup (Ctx_Scope ctx) name of
        Some t \<Rightarrow> Some t
      | None \<Rightarrow>
          (case Option.bind (LookupSymbol (Ctx_Registry ctx) (Ctx_PkgQN ctx) name) Func_Signature of
             Some t \<Rightarrow> Some t
           | None \<Rightarrow>
               (case ResolveBuiltinType name of
                  Some t \<Rightarrow> Some t
                | None \<Rightarrow>
                    if LookupType (Ctx_Registry ctx) (Ctx_PkgQN ctx @ ''.'' @ name) \<noteq> None
                    then Some (Named (Ctx_PkgQN ctx @ ''.'' @ name))
                    else Some Unknown)))"

definition import_alias :: "ResolveContext \<Rightarrow> tree \<Rightarrow> string option" where
  "import_alias ctx operand =
     (if Node_Type operand = ''identifier'' then ResolveImport (Ctx_Imports ctx) (nodeContent operand (Ctx_Content ctx)) else None)"

definition imported_symbol :: "ResolveContext \<Rightarrow> string \<Rightarrow> string \<Rightarrow> gtype option" where
  "imported_symbol ctx pkgQN fieldName =
     (case Option.bind (LookupSymbol (Ctx_Registry ctx) pkgQN fieldName) Func_Signature of
        Some t \<Rightarrow> Some t
      | None \<Rightarrow>
          if LookupType (Ctx_Registry ctx) (pkgQN @ ''.'' @ fieldName) \<noteq> None then Some (Named (pkgQN @ ''.'' @ fieldName))
          else Some Unknown)"

definition member_type :: "ResolveContext \<Rightarrow> gtype option \<Rightarrow> string \<Rightarrow> gtype option" where
  "member_type ctx base fieldName =
     (case base of
        None \<Rightarrow> Some Unknown
      | Some b \<Rightarrow>
          (case (if Ty_Kind b = KindPointer then Deref (Some b) else Some b) of
             None \<Rightarrow> Some Unknown
           | Some t \<Rightarrow>
               if Ty_Kind t = KindNamed then
                 (case Option.bind (LookupFieldOrMethod (Ctx_Registry ctx) (Ty_Name t) fieldName) Func_Signature of
                    Some sig \<Rightarrow> Some sig
                  | None \<Rightarrow>
                      (case LookupField (Ctx_Registry ctx) (Ty_Name t) fieldName of
                         Some ft \<Rightarrow> Some ft
                       | None \<Rightarrow> Some Unknown))
               else Some Unknown))"

definition evalSelector :: "evaluator \<Rightarrow> ResolveContext \<Rightarrow> tree \<Rightarrow> gtype option" where
  "evalSelector ev ctx node =
     (case (ChildByFieldName ''operand'' node, ChildByFieldName ''field'' node) of
        (Some operand, Some field) \<Rightarrow>
          (let fieldName = nodeContent field (Ctx_Content ctx) in
           case import_alias ctx operand of
             Some pkgQN \<Rightarrow> imported_symbol ctx pkgQN fieldName
           | None \<Rightarrow> member_type ctx (ev (Some operand)) fieldName)
      | _ \<Rightarrow> Some Unknown)"

definition call_symbol :: "ResolveContext \<Rightarrow> tree \<Rightarrow> RegisteredFunc option" where
  "call_symbol ctx fnNode =
     (if Node_Type fnNode = ''identifier''
      then LookupSymbol (Ctx_Registry ctx) (Ctx_PkgQN ctx) (nodeContent fnNode (Ctx_Content ctx))
      else if Node_Type fnNode = ''selector_expression'' then
        (case (ChildByFieldName ''operand'' fnNode, ChildByFieldName ''field'' fnNode) of
           (Some operand, Some field) \<Rightarrow>
             (case import_alias ctx operand of
                Some pkgQN \<Rightarrow> LookupSymbol (Ctx_Registry ctx) pkgQN (nodeContent field (Ctx_Content ctx))
              | None \<Rightarrow> None)
         | _ \<Rightarrow> None)
      else None)"

text \<open>The type of a call from the list of its results.\<close>

definition result_type :: "gtype option list \<Rightarrow> gtype option" where
  "result_type returns =
     (if length returns = 0 then Some Unknown
      else if length returns = 1 then hd returns
      else Some (Tuple returns))"

definition infer_params :: "evaluator \<Rightarrow> gtype \<Rightarrow> tree option \<Rightarrow> (string, gtype) gomap" where
  "infer_params ev fnType argsNode =
     (case argsNode of
        None \<Rightarrow> []
      | Some args \<Rightarrow>
          fold (\<lambda>(param, arg) inferred. unifyType (snd param) (ev (Some arg)) inferred)
            (zip (Ty_Params fnType) (named_children args)) [])"

definition tryUnifyGenerics :: "evaluator \<Rightarrow> ResolveContext \<Rightarrow> tree \<Rightarrow> gtype \<Rightarrow> tree option \<Rightarrow> gtype option" where
  "tryUnifyGenerics ev ctx fnNode fnType argsNode =
     (case call_symbol ctx fnNode of
        None \<Rightarrow> None
      | Some rf \<Rightarrow>
          if Func_TypeParams rf = [] then None
          else (let inferred = infer_params ev fnType argsNode in
                if \<not> list_all (\<lambda>tpName. map_of inferred tpName \<noteq> None) (Func_TypeParams rf) then None
                else result_type (map (\<lambda>ret. substituteTypeParams ret inferred) (Ty_Returns fnType))))"

definition conversion_types :: "string list" where
  "conversion_types = [''slice_type'', ''map_type'', ''array_type'', ''channel_type'', ''pointer_type'', ''function_type'',
     ''struct_type'', ''interface_type'', ''parenthesized_type'']"

definition evalCall :: "evaluator \<Rightarrow> ResolveContext \<Rightarrow> tree \<Rightarrow> gtype option" where
  "evalCall ev ctx node =
     (case ChildByFieldName ''function'' node of
        None \<Rightarrow> Some Unknown
      | Some fnNode \<Rightarrow>
          (let argsNode = ChildByFieldName ''arguments'' node in
           if Node_Type fnNode = ''identifier'' \<and> IsBuiltinFunc (nodeContent fnNode (Ctx_Content ctx))
           then EvalBuiltinCall (nodeContent fnNode (Ctx_Content ctx)) argsNode (Ctx_Content ctx) (Ctx_PkgQN ctx) (Ctx_Imports ctx) ev
           else if Node_Type fnNode \<in> set conversion_types then ctx_parse ctx (Some fnNode)
           else (case ev (Some fnNode) of
                   None \<Rightarrow> Some Unknown
                 | Some fnType \<Rightarrow>
                     if Ty_Kind fnType = KindFunc then
                       (case (if hasTypeParam (Ty_Returns fnType) then tryUnifyGenerics ev ctx fnNode fnType argsNode else None) of
                          Some resolved \<Rightarrow> Some resolved
                        | None \<Rightarrow> result_type (Ty_Returns fnType))
                     else if Ty_Kind fnType = KindNamed then Some fnType
                     else Some Unknown)))"

definition evalCompositeLiteral :: "ResolveContext \<Rightarrow> tree \<Rightarrow> gtype option" where
  "evalCompositeLiteral ctx node =
     (case ChildByFieldName ''type'' node of None \<Rightarrow> Some Unknown | Some typeNode \<Rightarrow> ctx_parse ctx (Some typeNode))"

definition evalUnary :: "evaluator \<Rightarrow> ResolveContext \<Rightarrow> tree \<Rightarrow> gtype option" where
  "evalUnary ev ctx node =
     (case (ChildByFieldName ''operand'' node, Child 0 node) of
        (Some operand, Some opNode) \<Rightarrow>
          (let op = nodeContent opNode (Ctx_Content ctx) in
           if op = ''&'' then Some (Pointer (ev (Some operand)))
           else if op = ''*'' then Deref (ev (Some operand))
           else if op = ''<-'' then
             (case ev (Some operand) of
                Some inner \<Rightarrow> if Ty_Kind inner = KindChannel \<and> Ty_Elem inner \<noteq> None then Ty_Elem inner else Some Unknown
              | None \<Rightarrow> Some Unknown)
           else if op = ''!'' then Some (Builtin ''bool'')
           else ev (Some operand))
      | _ \<Rightarrow> Some Unknown)"

definition evalIndex :: "evaluator \<Rightarrow> ResolveContext \<Rightarrow> tree \<Rightarrow> gtype option" where
  "evalIndex ev ctx node =
     (case ChildByFieldName ''operand'' node of
        None \<Rightarrow> Some Unknown
      | Some operand \<Rightarrow>
          (case ev (Some operand) of
             None \<Rightarrow> Some Unknown
           | Some base \<Rightarrow>
               if Ty_Kind base = KindMap then or_unknown (Ty_Value base)
               else if Ty_Kind base \<in> {KindSlice, KindArray} then or_unknown (Ty_Elem base)
               else Some Unknown))"

definition evalTypeAssertion :: "ResolveContext \<Rightarrow> tree \<Rightarrow> gtype option" where
  "evalTypeAssertion ctx node =
     (case ChildByFieldName ''type'' node of None \<Rightarrow> Some Unknown | Some typeNode \<Rightarrow> ctx_parse ctx (Some typeNode))"

definition bool_ops :: "string list" where
  "bool_ops = [''=='', ''!='', ''<'', ''>'', ''<='', ''>='', ''&&'', ''||'']"

definition evalBinary :: "evaluator \<Rightarrow> ResolveContext \<Rightarrow> tree \<Rightarrow> gtype option" where
  "evalBinary ev ctx node =
     (if (case ChildByFieldName ''operator'' node of Some opNode \<Rightarrow> nodeContent opNode (Ctx_Content ctx) \<in> set bool_ops | None \<Rightarrow> False)
      then Some (Builtin ''bool'')
      else (case ChildByFieldName ''left'' node of Some left \<Rightarrow> ev (Some left) | None \<Rightarrow> Some Unknown))"

definition decl_params :: "ResolveContext \<Rightarrow> tree \<Rightarrow> (string \<times> gtype option) list" where
  "decl_params ctx paramDecl =
     (let paramType = (case ChildByFieldName ''type'' paramDecl of Some typeNode \<Rightarrow> ctx_parse ctx (Some typeNode) | None \<Rightarrow> Some Unknown);
          names = filter (\<lambda>child. Node_Type child = ''identifier'') (children paramDecl) in
      if names = [] then [('''', paramType)]
      else map (\<lambda>child. (nodeContent child (Ctx_Content ctx), paramType)) names)"

definition parseParamList :: "ResolveContext \<Rightarrow> tree \<Rightarrow> (string \<times> gtype option) list" where
  "parseParamList ctx node =
     concat (map (decl_params ctx) (filter (\<lambda>d. Node_Type d = ''parameter_declaration'') (named_children node)))"

definition literal_returns :: "ResolveContext \<Rightarrow> tree \<Rightarrow> gtype option list" where
  "literal_returns ctx resultNode =
     (if Node_Type resultNode = ''parameter_list''
      then concat (map (\<lambda>paramDecl. case ChildByFieldName ''type'' paramDecl of Some typeNode \<Rightarrow> [ctx_parse ctx (Some typeNode)] | None \<Rightarrow> [])
             (named_children resultNode))
      else [ctx_parse ctx (Some resultNode)])"

text \<open>
  The type of a closure. The code also walks the body, with the parameters bound in a scope of its own that is dropped
  before it returns: \<open>closure_scope\<close> and \<open>walkBlock\<close> below are that walk, which leaves no trace.
\<close>

definition evalFuncLiteral :: "ResolveContext \<Rightarrow> tree \<Rightarrow> gtype option" where
  "evalFuncLiteral ctx node =
     Some (Func
       (case ChildByFieldName ''parameters'' node of Some paramsNode \<Rightarrow> parseParamList ctx paramsNode | None \<Rightarrow> [])
       (case ChildByFieldName ''result'' node of Some resultNode \<Rightarrow> literal_returns ctx resultNode | None \<Rightarrow> []))"

subsection \<open>The evaluator only recurs on smaller trees\<close>

lemma evalSelector_cong [fundef_cong]:
  assumes "ctx = ctx'" "n = n'" "\<And>m. tree_size m < Suc (size n') \<Longrightarrow> ev m = ev' m"
  shows "evalSelector ev ctx n = evalSelector ev' ctx' n'"
  using assms by (auto simp: evalSelector_def Let_def smaller split: option.splits)

lemma evalUnary_cong [fundef_cong]:
  assumes "ctx = ctx'" "n = n'" "\<And>m. tree_size m < Suc (size n') \<Longrightarrow> ev m = ev' m"
  shows "evalUnary ev ctx n = evalUnary ev' ctx' n'"
proof -
  have "ChildByFieldName f n' = Some c \<Longrightarrow> ev (Some c) = ev' (Some c)" for f c using assms(3) smaller by simp
  then show ?thesis using assms(1,2) by (auto simp: evalUnary_def Let_def split: option.splits)
qed

lemma evalIndex_cong [fundef_cong]:
  assumes "ctx = ctx'" "n = n'" "\<And>m. tree_size m < Suc (size n') \<Longrightarrow> ev m = ev' m"
  shows "evalIndex ev ctx n = evalIndex ev' ctx' n'"
proof -
  have "ChildByFieldName f n' = Some c \<Longrightarrow> ev (Some c) = ev' (Some c)" for f c using assms(3) smaller by simp
  then show ?thesis using assms(1,2) by (auto simp: evalIndex_def split: option.splits)
qed

lemma evalBinary_cong [fundef_cong]:
  assumes "ctx = ctx'" "n = n'" "\<And>m. tree_size m < Suc (size n') \<Longrightarrow> ev m = ev' m"
  shows "evalBinary ev ctx n = evalBinary ev' ctx' n'"
  using assms by (auto simp: evalBinary_def smaller split: option.splits)

lemma evalCall_cong [fundef_cong]:
  assumes "ctx = ctx'" "n = n'" "\<And>m. tree_size m < Suc (size n') \<Longrightarrow> ev m = ev' m"
  shows "evalCall ev ctx n = evalCall ev' ctx' n'"
proof -
  have fn: "ChildByFieldName f n' = Some c \<Longrightarrow> ev (Some c) = ev' (Some c)" for f c using assms(3) smaller by simp
  have arg: "ev (Some x) = ev' (Some x)" if "ChildByFieldName f n' = Some a" "x \<in> set (named_children a)" for f a x
    using that assms(3) smaller(3,4) by (metis less_trans less_Suc_eq tree_size_simps(2) Suc_less_eq)
  have "infer_params ev t (ChildByFieldName f n') = infer_params ev' t (ChildByFieldName f n')" for t f
    using arg by (auto simp: infer_params_def split: option.splits intro!: fold_cong dest: set_zip_rightD)
  then have generics: "tryUnifyGenerics ev ctx m t (ChildByFieldName f n') = tryUnifyGenerics ev' ctx m t (ChildByFieldName f n')" for m t f
    by (simp add: tryUnifyGenerics_def split: option.splits)
  have "first_arg (ChildByFieldName f n') = Some x \<Longrightarrow> ev (Some x) = ev' (Some x)" for f x
    using arg by (auto simp: first_arg_def dest: NamedChild_in split: option.splits)
  then have "EvalBuiltinCall nm (ChildByFieldName f n') c p i ev = EvalBuiltinCall nm (ChildByFieldName f n') c p i ev'" for nm f c p i
    by (simp add: EvalBuiltinCall_def split: option.splits)
  then show ?thesis using assms(1,2) generics fn unfolding evalCall_def by (simp add: Let_def split: option.splits)
qed

function EvalExprType :: "ResolveContext \<Rightarrow> tree option \<Rightarrow> gtype option" where
  "EvalExprType ctx None = Some Unknown"
| "EvalExprType ctx (Some node) =
     (let ty = Node_Type node in
      if ty = ''identifier'' then evalIdentifier ctx node
      else if ty = ''selector_expression'' then evalSelector (\<lambda>m. EvalExprType ctx m) ctx node
      else if ty = ''call_expression'' then evalCall (\<lambda>m. EvalExprType ctx m) ctx node
      else if ty = ''composite_literal'' then evalCompositeLiteral ctx node
      else if ty = ''unary_expression'' then evalUnary (\<lambda>m. EvalExprType ctx m) ctx node
      else if ty = ''index_expression'' then evalIndex (\<lambda>m. EvalExprType ctx m) ctx node
      else if ty = ''type_assertion_expression'' then evalTypeAssertion ctx node
      else if ty = ''parenthesized_expression'' then
        (case NamedChild 0 node of Some child \<Rightarrow> EvalExprType ctx (Some child) | None \<Rightarrow> Some Unknown)
      else if ty = ''binary_expression'' then evalBinary (\<lambda>m. EvalExprType ctx m) ctx node
      else if ty = ''slice_expression'' then EvalExprType ctx (ChildByFieldName ''operand'' node)
      else if ty \<in> {''interpreted_string_literal'', ''raw_string_literal''} then Some (Builtin ''string'')
      else if ty = ''int_literal'' then Some (Builtin ''int'')
      else if ty = ''float_literal'' then Some (Builtin ''float64'')
      else if ty \<in> {''true'', ''false''} then Some (Builtin ''bool'')
      else if ty = ''nil'' then Some Unknown
      else if ty = ''rune_literal'' then Some (Builtin ''rune'')
      else if ty = ''func_literal'' then evalFuncLiteral ctx node
      else Some Unknown)"
  by pat_completeness auto
termination
  by (relation "measure (\<lambda>(ctx, n). tree_size n)") (auto dest: smaller)

declare EvalExprType.simps(2) [simp del]

section \<open>Statements\<close>

text \<open>Binding a name in the current scope; the blank identifier binds nothing.\<close>

definition ctx_bind :: "string \<Rightarrow> gtype option \<Rightarrow> ResolveContext \<Rightarrow> ResolveContext" where
  "ctx_bind name typ ctx = (if name \<noteq> ''_'' then ctx\<lparr>Ctx_Scope := Bind name typ (Ctx_Scope ctx)\<rparr> else ctx)"

definition bind_ident :: "gtype option \<Rightarrow> tree \<Rightarrow> ResolveContext \<Rightarrow> ResolveContext" where
  "bind_ident typ n ctx =
     (if Node_Type n = ''identifier'' then ctx_bind (nodeContent n (Ctx_Content ctx)) typ ctx else ctx)"

definition tuple_part :: "gtype option \<Rightarrow> nat \<Rightarrow> gtype option" where
  "tuple_part rhsType i =
     (case rhsType of
        Some t \<Rightarrow> if Ty_Kind t = KindTuple \<and> i < length (Ty_Elements t) then Ty_Elements t ! i
                  else if i = 0 then rhsType else Some Unknown
      | None \<Rightarrow> if i = 0 then rhsType else Some Unknown)"

definition bindLeftIdentifiers :: "tree \<Rightarrow> gtype option \<Rightarrow> ResolveContext \<Rightarrow> ResolveContext" where
  "bindLeftIdentifiers left rhsType ctx =
     (if Node_Type left = ''expression_list''
      then fold (\<lambda>(i, child). bind_ident (tuple_part rhsType i) child) (enumerate 0 (named_children left)) ctx
      else bind_ident rhsType left ctx)"

definition processShortVarDecl :: "tree \<Rightarrow> ResolveContext \<Rightarrow> ResolveContext" where
  "processShortVarDecl node ctx =
     (case (ChildByFieldName ''left'' node, ChildByFieldName ''right'' node) of
        (Some left, Some right) \<Rightarrow>
          (let rhsType = (if Node_Type right = ''expression_list'' then EvalExprType ctx (NamedChild 0 right) else EvalExprType ctx (Some right)) in
           bindLeftIdentifiers left (or_unknown rhsType) ctx)
      | _ \<Rightarrow> ctx)"

definition spec_type :: "ResolveContext \<Rightarrow> tree \<Rightarrow> gtype option" where
  "spec_type ctx node =
     or_unknown
       (case ChildByFieldName ''type'' node of
          Some typeNode \<Rightarrow> ctx_parse ctx (Some typeNode)
        | None \<Rightarrow>
            (case ChildByFieldName ''value'' node of
               Some valueNode \<Rightarrow>
                 if Node_Type valueNode = ''expression_list'' \<and> NamedChildCount valueNode > 0
                 then EvalExprType ctx (NamedChild 0 valueNode) else EvalExprType ctx (Some valueNode)
             | None \<Rightarrow> None))"

definition bind_name_field :: "gtype option \<Rightarrow> tree \<Rightarrow> ResolveContext \<Rightarrow> ResolveContext" where
  "bind_name_field typ node ctx =
     (case ChildByFieldName ''name'' node of Some nameNode \<Rightarrow> bind_ident typ nameNode ctx | None \<Rightarrow> ctx)"

definition processVarSpec :: "tree \<Rightarrow> ResolveContext \<Rightarrow> ResolveContext" where
  "processVarSpec node ctx =
     (let varType = spec_type ctx node in
      fold (bind_ident varType) (named_children node) (bind_name_field varType node ctx))"

definition processConstSpec :: "tree \<Rightarrow> ResolveContext \<Rightarrow> ResolveContext" where
  "processConstSpec node ctx = bind_name_field (spec_type ctx node) node ctx"

text \<open>The types of key and value of a range over a container; \<open>None\<close> when the variable is not bound.\<close>

definition range_types :: "gtype \<Rightarrow> gtype option \<times> gtype option" where
  "range_types containerType =
     (if Ty_Kind containerType \<in> {KindSlice, KindArray} then (Some (Builtin ''int''), or_unknown (Ty_Elem containerType))
      else if Ty_Kind containerType = KindMap then (or_unknown (Ty_Key containerType), or_unknown (Ty_Value containerType))
      else if Ty_Kind containerType = KindChannel then (or_unknown (Ty_Elem containerType), or_unknown (Ty_Elem containerType))
      else if Ty_Kind containerType = KindBuiltin then
        (if Ty_Name containerType = ''string'' then (Some (Builtin ''int''), Some (Builtin ''rune'')) else (None, None))
      else (Some Unknown, Some Unknown))"

definition bind_some :: "gtype option \<Rightarrow> tree option \<Rightarrow> ResolveContext \<Rightarrow> ResolveContext" where
  "bind_some typ n ctx =
     (case n of None \<Rightarrow> ctx | Some m \<Rightarrow> if typ \<noteq> None then bind_ident typ m ctx else ctx)"

definition processRangeClause :: "tree \<Rightarrow> ResolveContext \<Rightarrow> ResolveContext" where
  "processRangeClause node ctx =
     (case ChildByFieldName ''right'' node of
        None \<Rightarrow> ctx
      | Some right \<Rightarrow>
          (case EvalExprType ctx (Some right) of
             None \<Rightarrow> ctx
           | Some containerType \<Rightarrow>
               (let (keyType, valueType) = range_types containerType in
                case ChildByFieldName ''left'' node of
                  None \<Rightarrow> ctx
                | Some left \<Rightarrow>
                    if Node_Type left = ''expression_list''
                    then bind_some valueType (NamedChild 1 left) (bind_some keyType (NamedChild 0 left) ctx)
                    else bind_some keyType (Some left) ctx)))"

definition nodes_of :: "string \<Rightarrow> tree \<Rightarrow> tree list" where
  "nodes_of ty node = filter (\<lambda>child. Node_Type child = ty) (named_children node)"

definition ProcessStatement :: "tree \<Rightarrow> ResolveContext \<Rightarrow> ResolveContext" where
  "ProcessStatement node ctx =
     (let ty = Node_Type node in
      if ty = ''short_var_declaration'' then processShortVarDecl node ctx
      else if ty = ''var_spec'' then processVarSpec node ctx
      else if ty = ''const_spec'' then processConstSpec node ctx
      else if ty = ''range_clause'' then processRangeClause node ctx
      else if ty = ''var_declaration'' then fold processVarSpec (nodes_of ''var_spec'' node) ctx
      else if ty = ''const_declaration'' then fold processConstSpec (nodes_of ''const_spec'' node) ctx
      else if ty = ''for_statement'' then fold processRangeClause (nodes_of ''range_clause'' node) ctx
      else ctx)"

subsection \<open>The walk of a closure\<close>

function walkBlock :: "tree \<Rightarrow> ResolveContext \<Rightarrow> ResolveContext"
  and walkBlockChildren :: "tree \<Rightarrow> ResolveContext \<Rightarrow> ResolveContext" where
  "walkBlock block ctx =
     fold (\<lambda>child c. walkBlockChildren child (ProcessStatement child c)) (named_children block) ctx"
| "walkBlockChildren node ctx =
     fold (\<lambda>child c.
       if Node_Type child = ''block'' then walkBlock child c
       else if Node_Type child \<in> {''if_statement'', ''for_statement'', ''switch_statement'', ''select_statement'',
                                  ''case_clause'', ''default_clause''} then walkBlockChildren child c
       else c) (named_children node) ctx"
  by pat_completeness auto
termination
  by (relation "measure (\<lambda>x. case x of Inl (n, c) \<Rightarrow> size n | Inr (n, c) \<Rightarrow> size n)") (auto dest: smaller)

declare walkBlock.simps [simp del] walkBlockChildren.simps [simp del]

definition closure_scope :: "ResolveContext \<Rightarrow> tree \<Rightarrow> ResolveContext" where
  "closure_scope ctx node =
     (let ctx' = ctx\<lparr>Ctx_Scope := NewScope (Ctx_Scope ctx)\<rparr>;
          params = (case ChildByFieldName ''parameters'' node of Some paramsNode \<Rightarrow> parseParamList ctx' paramsNode | None \<Rightarrow> []) in
      fold (\<lambda>p c. if fst p \<noteq> '''' \<and> fst p \<noteq> ''_'' then c\<lparr>Ctx_Scope := Bind (fst p) (snd p) (Ctx_Scope c)\<rparr> else c) params ctx')"

definition walk_closure :: "ResolveContext \<Rightarrow> tree \<Rightarrow> ResolveContext" where
  "walk_closure ctx node =
     (let c = (case ChildByFieldName ''body'' node of Some body \<Rightarrow> walkBlock body (closure_scope ctx node) | None \<Rightarrow> closure_scope ctx node) in
      c\<lparr>Ctx_Scope := Parent (Ctx_Scope c)\<rparr>)"

subsection \<open>Statements only bind in the current scope\<close>

text \<open>Every step of the walk keeps everything of the context but its current level.\<close>

definition binds_here :: "ResolveContext \<Rightarrow> ResolveContext \<Rightarrow> bool" where
  "binds_here ctx ctx' \<longleftrightarrow>
     ctx' = ctx\<lparr>Ctx_Scope := Ctx_Scope ctx'\<rparr> \<and> tl (Ctx_Scope ctx') = tl (Ctx_Scope ctx) \<and>
     (Ctx_Scope ctx' = [] \<longleftrightarrow> Ctx_Scope ctx = [])"

named_theorems here "steps that only bind in the current scope"

lemma here_refl [here]: "binds_here ctx ctx"
  by (simp add: binds_here_def)

lemma here_trans: "binds_here a b \<Longrightarrow> binds_here b c \<Longrightarrow> binds_here a c"
  unfolding binds_here_def by (metis ResolveContext.surjective ResolveContext.update_convs(2))

lemma here_fold:
  assumes "\<And>x c. x \<in> set xs \<Longrightarrow> binds_here c (f x c)"
  shows "binds_here ctx (fold f xs ctx)"
  using assms
proof (induction xs arbitrary: ctx)
  case (Cons x xs)
  have "binds_here ctx (f x ctx)" by (rule Cons.prems) simp
  moreover have "binds_here (f x ctx) (fold f xs (f x ctx))" by (rule Cons.IH) (simp add: Cons.prems)
  ultimately show ?case by (simp add: here_trans)
qed (simp add: here_refl)

lemma here_Bind [here]: "binds_here ctx (ctx\<lparr>Ctx_Scope := Bind name typ (Ctx_Scope ctx)\<rparr>)"
  by (auto simp: binds_here_def Bind_def split: list.splits)

lemma here_binds [here]:
  "binds_here ctx (ctx_bind name typ ctx)" "binds_here ctx (bind_ident typ n ctx)" "binds_here ctx (bind_name_field typ n ctx)"
  "binds_here ctx (bind_some typ m ctx)"
  by (simp_all add: ctx_bind_def bind_ident_def bind_name_field_def bind_some_def here_Bind here_refl split: option.splits)

lemma here_specs [here]:
  "binds_here ctx (processVarSpec n ctx)" "binds_here ctx (processConstSpec n ctx)"
  "binds_here ctx (processShortVarDecl n ctx)" "binds_here ctx (processRangeClause n ctx)"
proof -
  show "binds_here ctx (processVarSpec n ctx)"
    unfolding processVarSpec_def Let_def by (rule here_trans [OF _ here_fold]) (rule here)+
  show "binds_here ctx (processConstSpec n ctx)" unfolding processConstSpec_def by (rule here)
  show "binds_here ctx (processShortVarDecl n ctx)"
    unfolding processShortVarDecl_def bindLeftIdentifiers_def Let_def
    by (auto intro!: here here_fold split: option.splits)
  have "binds_here ctx (bind_some v m (bind_some k l ctx))" for v m k l by (rule here_trans) (rule here)+
  then show "binds_here ctx (processRangeClause n ctx)"
    unfolding processRangeClause_def Let_def by (auto intro!: here split: option.splits prod.splits)
qed

lemma here_ProcessStatement [here]: "binds_here ctx (ProcessStatement n ctx)"
  unfolding ProcessStatement_def Let_def by (auto intro!: here here_fold)

lemma here_walks: "binds_here ctx (walkBlock n ctx)" "binds_here ctx (walkBlockChildren n ctx)"
proof (induction n ctx and n ctx rule: walkBlock_walkBlockChildren.induct)
  case (1 block ctx)
  have "binds_here c (walkBlockChildren child (ProcessStatement child c))" if "child \<in> set (named_children block)" for child c
    by (rule here_trans [OF here_ProcessStatement]) (rule 1 [OF that])
  then show ?case by (subst walkBlock.simps) (rule here_fold)
next
  case (2 node ctx)
  then show ?case by (subst walkBlockChildren.simps) (auto intro!: here_fold here_refl)
qed

text \<open>The walk of a closure leaves the context as it was, so that leaving it out of the evaluation changes nothing.\<close>

lemma closure_scope_here: "binds_here (ctx\<lparr>Ctx_Scope := NewScope (Ctx_Scope ctx)\<rparr>) (closure_scope ctx n)"
  unfolding closure_scope_def Let_def by (auto intro!: here_fold here)

lemma walk_closure_neutral: "walk_closure ctx n = ctx"
proof -
  let ?new = "ctx\<lparr>Ctx_Scope := NewScope (Ctx_Scope ctx)\<rparr>"
  have "c\<lparr>Ctx_Scope := Parent (Ctx_Scope c)\<rparr> = ctx" if "binds_here ?new c" for c
  proof -
    have c: "c = ?new\<lparr>Ctx_Scope := Ctx_Scope c\<rparr>" "tl (Ctx_Scope c) = Ctx_Scope ctx"
      using that by (auto simp: binds_here_def NewScope_def)
    show ?thesis by (subst c(1)) (simp add: Parent_def c(2))
  qed
  moreover have "binds_here ?new (walkBlock b (closure_scope ctx n))" for b
    by (rule here_trans [OF closure_scope_here here_walks(1)])
  ultimately show ?thesis
    unfolding walk_closure_def Let_def using closure_scope_here [of ctx n] by (auto split: option.splits)
qed

end
