(* ===== verification/GoStdlib.thy ===== *)
theory GoStdlib
  imports TypeModel
begin

text \<open>
  internal/typresolve/go/stdlib.go: the registered part of Go's standard library, one definition per section of
  \<open>registerGoStdlib\<close>, in the order of the code.
\<close>

definition std_func :: "string \<Rightarrow> string \<Rightarrow> string \<Rightarrow> gtype list \<Rightarrow> Type_Registry \<Rightarrow> Type_Registry" where
  "std_func qn short receiver returns =
     AddFunc (new_func\<lparr>Func_QualifiedName := qn, Func_ShortName := short, Func_ReceiverType := receiver,
       Func_Signature := Some (Func [] (map Some returns))\<rparr>)"

definition std_type :: "string \<Rightarrow> string \<Rightarrow> bool \<Rightarrow> Type_Registry \<Rightarrow> Type_Registry" where
  "std_type qn short interface = AddType (new_type\<lparr>Type_QualifiedName := qn, Type_ShortName := short, Type_IsInterface := interface\<rparr>)"

definition add_entries :: "(Type_Registry \<Rightarrow> Type_Registry) list \<Rightarrow> Type_Registry \<Rightarrow> Type_Registry" where
  "add_entries adds reg = fold (\<lambda>add r. add r) adds reg"

definition stdlib_fmt :: "Type_Registry \<Rightarrow> Type_Registry" where
  "stdlib_fmt = add_entries
    [std_func ''fmt.Sprintf'' ''Sprintf'' '''' [Builtin ''string''],
     std_func ''fmt.Errorf'' ''Errorf'' '''' [Builtin ''error''],
     std_func ''fmt.Println'' ''Println'' '''' [Builtin ''int'', Builtin ''error''],
     std_func ''fmt.Printf'' ''Printf'' '''' [Builtin ''int'', Builtin ''error''],
     std_func ''fmt.Fprintf'' ''Fprintf'' '''' [Builtin ''int'', Builtin ''error''],
     std_func ''fmt.Sprint'' ''Sprint'' '''' [Builtin ''string''],
     std_func ''fmt.Sprintln'' ''Sprintln'' '''' [Builtin ''string''],
     std_func ''fmt.Sscanf'' ''Sscanf'' '''' [Builtin ''int'', Builtin ''error''],
     std_func ''fmt.Fscanf'' ''Fscanf'' '''' [Builtin ''int'', Builtin ''error'']]"

definition stdlib_strings :: "Type_Registry \<Rightarrow> Type_Registry" where
  "stdlib_strings = add_entries
    [std_type ''strings.Builder'' ''Builder'' False,
     std_type ''strings.Reader'' ''Reader'' False,
     std_func ''strings.Contains'' ''Contains'' '''' [Builtin ''bool''],
     std_func ''strings.HasPrefix'' ''HasPrefix'' '''' [Builtin ''bool''],
     std_func ''strings.HasSuffix'' ''HasSuffix'' '''' [Builtin ''bool''],
     std_func ''strings.Split'' ''Split'' '''' [Slice (Some (Builtin ''string''))],
     std_func ''strings.SplitN'' ''SplitN'' '''' [Slice (Some (Builtin ''string''))],
     std_func ''strings.Join'' ''Join'' '''' [Builtin ''string''],
     std_func ''strings.Replace'' ''Replace'' '''' [Builtin ''string''],
     std_func ''strings.ReplaceAll'' ''ReplaceAll'' '''' [Builtin ''string''],
     std_func ''strings.TrimSpace'' ''TrimSpace'' '''' [Builtin ''string''],
     std_func ''strings.Trim'' ''Trim'' '''' [Builtin ''string''],
     std_func ''strings.TrimPrefix'' ''TrimPrefix'' '''' [Builtin ''string''],
     std_func ''strings.TrimSuffix'' ''TrimSuffix'' '''' [Builtin ''string''],
     std_func ''strings.ToLower'' ''ToLower'' '''' [Builtin ''string''],
     std_func ''strings.ToUpper'' ''ToUpper'' '''' [Builtin ''string''],
     std_func ''strings.Index'' ''Index'' '''' [Builtin ''int''],
     std_func ''strings.LastIndex'' ''LastIndex'' '''' [Builtin ''int''],
     std_func ''strings.Count'' ''Count'' '''' [Builtin ''int''],
     std_func ''strings.Repeat'' ''Repeat'' '''' [Builtin ''string''],
     std_func ''strings.NewReader'' ''NewReader'' '''' [Pointer (Some (Named ''strings.Reader''))],
     std_func ''strings.NewReplacer'' ''NewReplacer'' '''' [Pointer (Some (Named ''strings.Replacer''))],
     std_func ''strings.Builder.WriteString'' ''WriteString'' ''strings.Builder'' [Builtin ''int'', Builtin ''error''],
     std_func ''strings.Builder.String'' ''String'' ''strings.Builder'' [Builtin ''string''],
     std_func ''strings.Builder.Len'' ''Len'' ''strings.Builder'' [Builtin ''int''],
     std_func ''strings.Builder.Reset'' ''Reset'' ''strings.Builder'' []]"

definition stdlib_context :: "Type_Registry \<Rightarrow> Type_Registry" where
  "stdlib_context = add_entries
    [std_type ''context.Context'' ''Context'' True,
     std_type ''context.CancelFunc'' ''CancelFunc'' False,
     std_func ''context.Background'' ''Background'' '''' [Named ''context.Context''],
     std_func ''context.TODO'' ''TODO'' '''' [Named ''context.Context''],
     std_func ''context.WithCancel'' ''WithCancel'' '''' [Named ''context.Context'', Named ''context.CancelFunc''],
     std_func ''context.WithTimeout'' ''WithTimeout'' '''' [Named ''context.Context'', Named ''context.CancelFunc''],
     std_func ''context.WithDeadline'' ''WithDeadline'' '''' [Named ''context.Context'', Named ''context.CancelFunc''],
     std_func ''context.WithValue'' ''WithValue'' '''' [Named ''context.Context'']]"

definition stdlib_io :: "Type_Registry \<Rightarrow> Type_Registry" where
  "stdlib_io = add_entries
    [std_type ''io.Reader'' ''Reader'' True,
     std_type ''io.Writer'' ''Writer'' True,
     std_type ''io.ReadCloser'' ''ReadCloser'' True,
     std_type ''io.WriteCloser'' ''WriteCloser'' True,
     std_func ''io.ReadAll'' ''ReadAll'' '''' [Slice (Some (Builtin ''byte'')), Builtin ''error''],
     std_func ''io.Copy'' ''Copy'' '''' [Builtin ''int64'', Builtin ''error''],
     std_func ''io.NopCloser'' ''NopCloser'' '''' [Named ''io.ReadCloser''],
     std_func ''io.WriteString'' ''WriteString'' '''' [Builtin ''int'', Builtin ''error'']]"

definition stdlib_os :: "Type_Registry \<Rightarrow> Type_Registry" where
  "stdlib_os = add_entries
    [std_type ''os.File'' ''File'' False,
     std_func ''os.Open'' ''Open'' '''' [Pointer (Some (Named ''os.File'')), Builtin ''error''],
     std_func ''os.Create'' ''Create'' '''' [Pointer (Some (Named ''os.File'')), Builtin ''error''],
     std_func ''os.OpenFile'' ''OpenFile'' '''' [Pointer (Some (Named ''os.File'')), Builtin ''error''],
     std_func ''os.Getenv'' ''Getenv'' '''' [Builtin ''string''],
     std_func ''os.LookupEnv'' ''LookupEnv'' '''' [Builtin ''string'', Builtin ''bool''],
     std_func ''os.Stat'' ''Stat'' '''' [Named ''os.FileInfo'', Builtin ''error''],
     std_func ''os.ReadFile'' ''ReadFile'' '''' [Slice (Some (Builtin ''byte'')), Builtin ''error''],
     std_func ''os.WriteFile'' ''WriteFile'' '''' [Builtin ''error''],
     std_func ''os.MkdirAll'' ''MkdirAll'' '''' [Builtin ''error''],
     std_func ''os.Remove'' ''Remove'' '''' [Builtin ''error''],
     std_func ''os.RemoveAll'' ''RemoveAll'' '''' [Builtin ''error''],
     std_func ''os.Getwd'' ''Getwd'' '''' [Builtin ''string'', Builtin ''error''],
     std_func ''os.Exit'' ''Exit'' '''' [],
     std_func ''os.File.Read'' ''Read'' ''os.File'' [Builtin ''int'', Builtin ''error''],
     std_func ''os.File.Write'' ''Write'' ''os.File'' [Builtin ''int'', Builtin ''error''],
     std_func ''os.File.Close'' ''Close'' ''os.File'' [Builtin ''error''],
     std_func ''os.File.Name'' ''Name'' ''os.File'' [Builtin ''string''],
     std_func ''os.File.Stat'' ''Stat'' ''os.File'' [Named ''os.FileInfo'', Builtin ''error'']]"

definition stdlib_net_http :: "Type_Registry \<Rightarrow> Type_Registry" where
  "stdlib_net_http = add_entries
    [std_type ''net/http.Request'' ''Request'' False,
     std_type ''net/http.Response'' ''Response'' False,
     std_type ''net/http.Client'' ''Client'' False,
     std_type ''net/http.Server'' ''Server'' False,
     std_type ''net/http.Handler'' ''Handler'' True,
     std_type ''net/http.HandlerFunc'' ''HandlerFunc'' False,
     std_type ''net/http.ServeMux'' ''ServeMux'' False,
     std_func ''net/http.NewRequest'' ''NewRequest'' '''' [Pointer (Some (Named ''net/http.Request'')), Builtin ''error''],
     std_func ''net/http.Get'' ''Get'' '''' [Pointer (Some (Named ''net/http.Response'')), Builtin ''error''],
     std_func ''net/http.Post'' ''Post'' '''' [Pointer (Some (Named ''net/http.Response'')), Builtin ''error''],
     std_func ''net/http.ListenAndServe'' ''ListenAndServe'' '''' [Builtin ''error''],
     std_func ''net/http.Handle'' ''Handle'' '''' [],
     std_func ''net/http.HandleFunc'' ''HandleFunc'' '''' [],
     std_func ''net/http.NewServeMux'' ''NewServeMux'' '''' [Pointer (Some (Named ''net/http.ServeMux''))],
     std_func ''net/http.Client.Do'' ''Do'' ''net/http.Client'' [Pointer (Some (Named ''net/http.Response'')), Builtin ''error''],
     std_func ''net/http.Client.Get'' ''Get'' ''net/http.Client'' [Pointer (Some (Named ''net/http.Response'')), Builtin ''error''],
     std_func ''net/http.Response.Body.Close'' ''Close'' ''net/http.Response'' [Builtin ''error'']]"

definition stdlib_sync :: "Type_Registry \<Rightarrow> Type_Registry" where
  "stdlib_sync = add_entries
    [std_type ''sync.WaitGroup'' ''WaitGroup'' False,
     std_type ''sync.Mutex'' ''Mutex'' False,
     std_type ''sync.RWMutex'' ''RWMutex'' False,
     std_type ''sync.Once'' ''Once'' False,
     std_type ''sync.Map'' ''Map'' False,
     std_func ''sync.WaitGroup.Add'' ''Add'' ''sync.WaitGroup'' [],
     std_func ''sync.WaitGroup.Done'' ''Done'' ''sync.WaitGroup'' [],
     std_func ''sync.WaitGroup.Wait'' ''Wait'' ''sync.WaitGroup'' [],
     std_func ''sync.Mutex.Lock'' ''Lock'' ''sync.Mutex'' [],
     std_func ''sync.Mutex.Unlock'' ''Unlock'' ''sync.Mutex'' [],
     std_func ''sync.RWMutex.RLock'' ''RLock'' ''sync.RWMutex'' [],
     std_func ''sync.RWMutex.RUnlock'' ''RUnlock'' ''sync.RWMutex'' [],
     std_func ''sync.RWMutex.Lock'' ''Lock'' ''sync.RWMutex'' [],
     std_func ''sync.RWMutex.Unlock'' ''Unlock'' ''sync.RWMutex'' [],
     std_func ''sync.Once.Do'' ''Do'' ''sync.Once'' []]"

definition stdlib_errors :: "Type_Registry \<Rightarrow> Type_Registry" where
  "stdlib_errors = add_entries
    [std_func ''errors.New'' ''New'' '''' [Builtin ''error''],
     std_func ''errors.Is'' ''Is'' '''' [Builtin ''bool''],
     std_func ''errors.As'' ''As'' '''' [Builtin ''bool''],
     std_func ''errors.Unwrap'' ''Unwrap'' '''' [Builtin ''error''],
     std_func ''errors.Join'' ''Join'' '''' [Builtin ''error'']]"

definition stdlib_encoding_json :: "Type_Registry \<Rightarrow> Type_Registry" where
  "stdlib_encoding_json = add_entries
    [std_type ''encoding/json.Decoder'' ''Decoder'' False,
     std_type ''encoding/json.Encoder'' ''Encoder'' False,
     std_func ''encoding/json.Marshal'' ''Marshal'' '''' [Slice (Some (Builtin ''byte'')), Builtin ''error''],
     std_func ''encoding/json.MarshalIndent'' ''MarshalIndent'' '''' [Slice (Some (Builtin ''byte'')), Builtin ''error''],
     std_func ''encoding/json.Unmarshal'' ''Unmarshal'' '''' [Builtin ''error''],
     std_func ''encoding/json.NewDecoder'' ''NewDecoder'' '''' [Pointer (Some (Named ''encoding/json.Decoder''))],
     std_func ''encoding/json.NewEncoder'' ''NewEncoder'' '''' [Pointer (Some (Named ''encoding/json.Encoder''))],
     std_func ''encoding/json.Decoder.Decode'' ''Decode'' ''encoding/json.Decoder'' [Builtin ''error''],
     std_func ''encoding/json.Encoder.Encode'' ''Encode'' ''encoding/json.Encoder'' [Builtin ''error'']]"

definition stdlib_path_filepath :: "Type_Registry \<Rightarrow> Type_Registry" where
  "stdlib_path_filepath = add_entries
    [std_func ''path/filepath.Join'' ''Join'' '''' [Builtin ''string''],
     std_func ''path/filepath.Dir'' ''Dir'' '''' [Builtin ''string''],
     std_func ''path/filepath.Base'' ''Base'' '''' [Builtin ''string''],
     std_func ''path/filepath.Ext'' ''Ext'' '''' [Builtin ''string''],
     std_func ''path/filepath.Abs'' ''Abs'' '''' [Builtin ''string'', Builtin ''error''],
     std_func ''path/filepath.Rel'' ''Rel'' '''' [Builtin ''string'', Builtin ''error''],
     std_func ''path/filepath.Walk'' ''Walk'' '''' [Builtin ''error''],
     std_func ''path/filepath.WalkDir'' ''WalkDir'' '''' [Builtin ''error''],
     std_func ''path/filepath.Glob'' ''Glob'' '''' [Slice (Some (Builtin ''string'')), Builtin ''error''],
     std_func ''path/filepath.Match'' ''Match'' '''' [Builtin ''bool'', Builtin ''error'']]"

definition stdlib_time :: "Type_Registry \<Rightarrow> Type_Registry" where
  "stdlib_time = add_entries
    [std_type ''time.Time'' ''Time'' False,
     std_type ''time.Duration'' ''Duration'' False,
     std_type ''time.Timer'' ''Timer'' False,
     std_type ''time.Ticker'' ''Ticker'' False,
     std_func ''time.Now'' ''Now'' '''' [Named ''time.Time''],
     std_func ''time.Since'' ''Since'' '''' [Named ''time.Duration''],
     std_func ''time.NewTimer'' ''NewTimer'' '''' [Pointer (Some (Named ''time.Timer''))],
     std_func ''time.NewTicker'' ''NewTicker'' '''' [Pointer (Some (Named ''time.Ticker''))],
     std_func ''time.After'' ''After'' '''' [Channel (Some (Named ''time.Time'')) ChanRecv],
     std_func ''time.Sleep'' ''Sleep'' '''' [],
     std_func ''time.Parse'' ''Parse'' '''' [Named ''time.Time'', Builtin ''error''],
     std_func ''time.ParseDuration'' ''ParseDuration'' '''' [Named ''time.Duration'', Builtin ''error'']]"

definition stdlib_regexp :: "Type_Registry \<Rightarrow> Type_Registry" where
  "stdlib_regexp = add_entries
    [std_type ''regexp.Regexp'' ''Regexp'' False,
     std_func ''regexp.Compile'' ''Compile'' '''' [Pointer (Some (Named ''regexp.Regexp'')), Builtin ''error''],
     std_func ''regexp.MustCompile'' ''MustCompile'' '''' [Pointer (Some (Named ''regexp.Regexp''))],
     std_func ''regexp.MatchString'' ''MatchString'' '''' [Builtin ''bool'', Builtin ''error''],
     std_func ''regexp.Regexp.FindString'' ''FindString'' ''regexp.Regexp'' [Builtin ''string''],
     std_func ''regexp.Regexp.FindStringSubmatch'' ''FindStringSubmatch'' ''regexp.Regexp'' [Slice (Some (Builtin ''string''))],
     std_func ''regexp.Regexp.MatchString'' ''MatchString'' ''regexp.Regexp'' [Builtin ''bool''],
     std_func ''regexp.Regexp.ReplaceAllString'' ''ReplaceAllString'' ''regexp.Regexp'' [Builtin ''string'']]"

definition stdlib_sort :: "Type_Registry \<Rightarrow> Type_Registry" where
  "stdlib_sort = add_entries
    [std_func ''sort.Slice'' ''Slice'' '''' [],
     std_func ''sort.Sort'' ''Sort'' '''' [],
     std_func ''sort.Search'' ''Search'' '''' [Builtin ''int''],
     std_func ''sort.Strings'' ''Strings'' '''' [],
     std_func ''sort.Ints'' ''Ints'' '''' []]"

definition stdlib_bytes :: "Type_Registry \<Rightarrow> Type_Registry" where
  "stdlib_bytes = add_entries
    [std_type ''bytes.Buffer'' ''Buffer'' False,
     std_type ''bytes.Reader'' ''Reader'' False,
     std_func ''bytes.NewReader'' ''NewReader'' '''' [Pointer (Some (Named ''bytes.Reader''))],
     std_func ''bytes.NewBuffer'' ''NewBuffer'' '''' [Pointer (Some (Named ''bytes.Buffer''))],
     std_func ''bytes.Contains'' ''Contains'' '''' [Builtin ''bool''],
     std_func ''bytes.Equal'' ''Equal'' '''' [Builtin ''bool''],
     std_func ''bytes.Buffer.Write'' ''Write'' ''bytes.Buffer'' [Builtin ''int'', Builtin ''error''],
     std_func ''bytes.Buffer.WriteString'' ''WriteString'' ''bytes.Buffer'' [Builtin ''int'', Builtin ''error''],
     std_func ''bytes.Buffer.String'' ''String'' ''bytes.Buffer'' [Builtin ''string''],
     std_func ''bytes.Buffer.Bytes'' ''Bytes'' ''bytes.Buffer'' [Slice (Some (Builtin ''byte''))],
     std_func ''bytes.Buffer.Len'' ''Len'' ''bytes.Buffer'' [Builtin ''int''],
     std_func ''bytes.Buffer.Reset'' ''Reset'' ''bytes.Buffer'' []]"

definition stdlib_log :: "Type_Registry \<Rightarrow> Type_Registry" where
  "stdlib_log = add_entries
    [std_type ''log.Logger'' ''Logger'' False,
     std_func ''log.Printf'' ''Printf'' '''' [],
     std_func ''log.Println'' ''Println'' '''' [],
     std_func ''log.Fatal'' ''Fatal'' '''' [],
     std_func ''log.Fatalf'' ''Fatalf'' '''' [],
     std_func ''log.New'' ''New'' '''' [Pointer (Some (Named ''log.Logger''))]]"

definition stdlib_strconv :: "Type_Registry \<Rightarrow> Type_Registry" where
  "stdlib_strconv = add_entries
    [std_func ''strconv.Itoa'' ''Itoa'' '''' [Builtin ''string''],
     std_func ''strconv.Atoi'' ''Atoi'' '''' [Builtin ''int'', Builtin ''error''],
     std_func ''strconv.FormatInt'' ''FormatInt'' '''' [Builtin ''string''],
     std_func ''strconv.ParseInt'' ''ParseInt'' '''' [Builtin ''int64'', Builtin ''error''],
     std_func ''strconv.ParseFloat'' ''ParseFloat'' '''' [Builtin ''float64'', Builtin ''error''],
     std_func ''strconv.FormatBool'' ''FormatBool'' '''' [Builtin ''string''],
     std_func ''strconv.ParseBool'' ''ParseBool'' '''' [Builtin ''bool'', Builtin ''error'']]"

definition stdlib_bufio :: "Type_Registry \<Rightarrow> Type_Registry" where
  "stdlib_bufio = add_entries
    [std_type ''bufio.Scanner'' ''Scanner'' False,
     std_type ''bufio.Reader'' ''Reader'' False,
     std_type ''bufio.Writer'' ''Writer'' False,
     std_func ''bufio.NewScanner'' ''NewScanner'' '''' [Pointer (Some (Named ''bufio.Scanner''))],
     std_func ''bufio.NewReader'' ''NewReader'' '''' [Pointer (Some (Named ''bufio.Reader''))],
     std_func ''bufio.NewWriter'' ''NewWriter'' '''' [Pointer (Some (Named ''bufio.Writer''))],
     std_func ''bufio.Scanner.Scan'' ''Scan'' ''bufio.Scanner'' [Builtin ''bool''],
     std_func ''bufio.Scanner.Text'' ''Text'' ''bufio.Scanner'' [Builtin ''string''],
     std_func ''bufio.Scanner.Err'' ''Err'' ''bufio.Scanner'' [Builtin ''error'']]"

definition stdlib_path :: "Type_Registry \<Rightarrow> Type_Registry" where
  "stdlib_path = add_entries
    [std_func ''path.Join'' ''Join'' '''' [Builtin ''string''],
     std_func ''path.Base'' ''Base'' '''' [Builtin ''string''],
     std_func ''path.Dir'' ''Dir'' '''' [Builtin ''string''],
     std_func ''path.Ext'' ''Ext'' '''' [Builtin ''string'']]"

definition stdlib_database_sql :: "Type_Registry \<Rightarrow> Type_Registry" where
  "stdlib_database_sql = add_entries
    [std_type ''database/sql.DB'' ''DB'' False,
     std_type ''database/sql.Tx'' ''Tx'' False,
     std_type ''database/sql.Row'' ''Row'' False,
     std_type ''database/sql.Rows'' ''Rows'' False,
     std_func ''database/sql.Open'' ''Open'' '''' [Pointer (Some (Named ''database/sql.DB'')), Builtin ''error''],
     std_func ''database/sql.DB.Query'' ''Query'' ''database/sql.DB'' [Pointer (Some (Named ''database/sql.Rows'')), Builtin ''error''],
     std_func ''database/sql.DB.QueryRow'' ''QueryRow'' ''database/sql.DB'' [Pointer (Some (Named ''database/sql.Row''))],
     std_func ''database/sql.DB.Exec'' ''Exec'' ''database/sql.DB'' [Named ''database/sql.Result'', Builtin ''error''],
     std_func ''database/sql.DB.Begin'' ''Begin'' ''database/sql.DB'' [Pointer (Some (Named ''database/sql.Tx'')), Builtin ''error''],
     std_func ''database/sql.DB.Close'' ''Close'' ''database/sql.DB'' [Builtin ''error''],
     std_func ''database/sql.Rows.Next'' ''Next'' ''database/sql.Rows'' [Builtin ''bool''],
     std_func ''database/sql.Rows.Scan'' ''Scan'' ''database/sql.Rows'' [Builtin ''error''],
     std_func ''database/sql.Rows.Close'' ''Close'' ''database/sql.Rows'' [Builtin ''error''],
     std_func ''database/sql.Row.Scan'' ''Scan'' ''database/sql.Row'' [Builtin ''error'']]"

definition stdlib_ioutil :: "Type_Registry \<Rightarrow> Type_Registry" where
  "stdlib_ioutil = add_entries
    [std_func ''io/ioutil.ReadAll'' ''ReadAll'' '''' [Slice (Some (Builtin ''byte'')), Builtin ''error''],
     std_func ''io/ioutil.ReadFile'' ''ReadFile'' '''' [Slice (Some (Builtin ''byte'')), Builtin ''error''],
     std_func ''io/ioutil.WriteFile'' ''WriteFile'' '''' [Builtin ''error''],
     std_func ''io/ioutil.TempDir'' ''TempDir'' '''' [Builtin ''string'', Builtin ''error'']]"

definition registerGoStdlib :: "Type_Registry \<Rightarrow> Type_Registry" where
  "registerGoStdlib = add_entries
    [stdlib_fmt, stdlib_strings, stdlib_context, stdlib_io, stdlib_os, stdlib_net_http, stdlib_sync, stdlib_errors, stdlib_encoding_json, stdlib_path_filepath, stdlib_time, stdlib_regexp, stdlib_sort, stdlib_bytes, stdlib_log, stdlib_strconv, stdlib_bufio, stdlib_path, stdlib_database_sql, stdlib_ioutil]"

lemmas stdlib_defs = stdlib_fmt_def stdlib_strings_def stdlib_context_def stdlib_io_def stdlib_os_def stdlib_net_http_def stdlib_sync_def stdlib_errors_def stdlib_encoding_json_def stdlib_path_filepath_def stdlib_time_def stdlib_regexp_def stdlib_sort_def stdlib_bytes_def stdlib_log_def stdlib_strconv_def stdlib_bufio_def stdlib_path_def stdlib_database_sql_def stdlib_ioutil_def

end
