(* ===== verification/GoResolve.thy ===== *)
theory GoResolve
  imports GoTypeEval GoStdlib GraphTypes
begin

text \<open>
  internal/typresolve/go, the resolution of calls: the walk over a file that resolves its call expressions and
  emits edges (resolve.go), the enrichment of the registry from syntax trees (registry\_builder.go) and the resolver
  with its workspace (resolver.go). \<open>H\<close> is SHA-256; \<open>tqs\<close> stands for the package variable \<open>registeredTypeQNs\<close>.
\<close>

section \<open>The target of a call\<close>

record resolvedCall =
  calleeQN :: string
  strategy :: string

definition dispatch_named :: "string list \<Rightarrow> ResolveContext \<Rightarrow> string \<Rightarrow> string \<Rightarrow> resolvedCall" where
  "dispatch_named tqs ctx typeQN fieldName =
     (case LookupFieldOrMethod (Ctx_Registry ctx) typeQN fieldName of
        Some m \<Rightarrow> \<lparr>calleeQN = Func_QualifiedName m, strategy = ''resolver_type_dispatch''\<rparr>
      | None \<Rightarrow>
          (case LookupType (Ctx_Registry ctx) typeQN of
             Some rt \<Rightarrow>
               if Type_IsInterface rt \<and> Type_MethodNames rt \<noteq> [] then
                 (let concreteQN = findSoleImplementer tqs (Ctx_Registry ctx) rt in
                  case (if concreteQN \<noteq> '''' then LookupMethod (Ctx_Registry ctx) concreteQN fieldName else None) of
                    Some concreteMethod \<Rightarrow> \<lparr>calleeQN = Func_QualifiedName concreteMethod, strategy = ''resolver_interface_resolve''\<rparr>
                  | None \<Rightarrow> \<lparr>calleeQN = typeQN @ ''.'' @ fieldName, strategy = ''resolver_interface_dispatch''\<rparr>)
               else \<lparr>calleeQN = typeQN @ ''.'' @ fieldName, strategy = ''resolver_type_dispatch''\<rparr>
           | None \<Rightarrow> \<lparr>calleeQN = typeQN @ ''.'' @ fieldName, strategy = ''resolver_type_dispatch''\<rparr>))"

definition resolveSelectorCall :: "string list \<Rightarrow> ResolveContext \<Rightarrow> tree \<Rightarrow> resolvedCall option" where
  "resolveSelectorCall tqs ctx fnNode =
     (case (ChildByFieldName ''operand'' fnNode, ChildByFieldName ''field'' fnNode) of
        (Some operand, Some field) \<Rightarrow>
          (let fieldName = nodeContent field (Ctx_Content ctx) in
           case import_alias ctx operand of
             Some pkgQN \<Rightarrow> Some \<lparr>calleeQN = pkgQN @ ''.'' @ fieldName, strategy = ''resolver_import''\<rparr>
           | None \<Rightarrow>
               (let base = EvalExprType ctx (Some operand) in
                if base = None \<or> IsUnknown base then
                  (let operandText = nodeContent operand (Ctx_Content ctx) in
                   if operandText \<noteq> '''' \<and> operandText \<noteq> ''_''
                   then Some \<lparr>calleeQN = operandText @ ''.'' @ fieldName, strategy = ''resolver_heuristic''\<rparr>
                   else None)
                else
                  (case (if IsPointer base then Deref base else base) of
                     Some t \<Rightarrow> if Ty_Kind t = KindNamed then Some (dispatch_named tqs ctx (Ty_Name t) fieldName) else None
                   | None \<Rightarrow> None)))
      | _ \<Rightarrow> None)"

definition resolveIdentifierCall :: "ResolveContext \<Rightarrow> tree \<Rightarrow> resolvedCall option" where
  "resolveIdentifierCall ctx fnNode =
     (let name = nodeContent fnNode (Ctx_Content ctx) in
      if IsBuiltinFunc name then None
      else Some \<lparr>calleeQN = Ctx_PkgQN ctx @ ''.'' @ name, strategy = ''resolver_direct''\<rparr>)"

definition resolveCallExpr :: "string list \<Rightarrow> ResolveContext \<Rightarrow> tree \<Rightarrow> resolvedCall option" where
  "resolveCallExpr tqs ctx node =
     (case ChildByFieldName ''function'' node of
        None \<Rightarrow> None
      | Some fnNode \<Rightarrow>
          if Node_Type fnNode = ''selector_expression'' then resolveSelectorCall tqs ctx fnNode
          else if Node_Type fnNode = ''identifier'' then resolveIdentifierCall ctx fnNode
          else None)"

definition ProvenanceResolverResolved :: string where "ProvenanceResolverResolved = ''resolver_resolved''"
definition ResolverConfidence :: rat where "ResolverConfidence = 9/10"

definition buildCallEdge :: "sha \<Rightarrow> ResolveContext \<Rightarrow> tree \<Rightarrow> resolvedCall \<Rightarrow> string \<Rightarrow> string \<Rightarrow> edge" where
  "buildCallEdge H ctx callNode rc repoURL filePath =
     (let (srcPkgPath, srcFuncName, srcKind) = splitEnclosingFunc (EnclosingFuncQN ctx) (Ctx_PkgQN ctx);
          sourceHash = ComputeNodeHash H repoURL srcPkgPath EmptyHash srcFuncName srcKind;
          (tgtPkgPath, tgtFuncName, tgtKind) = splitQualifiedName (calleeQN rc);
          targetHash = ComputeNodeHash H repoURL tgtPkgPath EmptyHash tgtFuncName tgtKind in
      \<lparr>EdgeHash = ComputeEdgeHash H sourceHash targetHash ''calls'' ProvenanceResolverResolved,
       SourceHash = sourceHash, TargetHash = targetHash, EdgeType = ''calls'',
       Confidence = (if strategy rc = ''resolver_heuristic'' then 6/10 else ResolverConfidence),
       Provenance = ProvenanceResolverResolved,
       CallSiteLine = int (Row callNode) + 1, CallSiteCol = int (Column callNode), CallSiteFile = filePath,
       ObservationCount = 0, LastObserved = 0\<rparr>)"

section \<open>The scopes of a function\<close>

definition variadic_type :: "ResolveContext \<Rightarrow> tree \<Rightarrow> gtype option" where
  "variadic_type ctx paramDecl =
     or_unknown (map_option (\<lambda>inner. Slice (Some inner))
       (first_some (\<lambda>child. if Node_Type child \<noteq> ''identifier'' \<and> Node_Type child \<noteq> ''...'' then ctx_parse ctx (Some child) else None)
          (children paramDecl)))"

definition param_type :: "ResolveContext \<Rightarrow> tree \<Rightarrow> gtype option" where
  "param_type ctx paramDecl =
     (case ChildByFieldName ''type'' paramDecl of
        None \<Rightarrow> Some Unknown
      | Some typeNode \<Rightarrow>
          if Node_Type typeNode = ''variadic_parameter_declaration'' \<or> nodeContent typeNode (Ctx_Content ctx) = ''...''
          then variadic_type ctx paramDecl
          else or_unknown (ctx_parse ctx (Some typeNode)))"

definition decl_type :: "ResolveContext \<Rightarrow> tree \<Rightarrow> gtype option" where
  "decl_type ctx paramDecl =
     or_unknown (case ChildByFieldName ''type'' paramDecl of None \<Rightarrow> None | Some typeNode \<Rightarrow> ctx_parse ctx (Some typeNode))"

definition bind_decl :: "gtype option \<Rightarrow> tree \<Rightarrow> ResolveContext \<Rightarrow> ResolveContext" where
  "bind_decl typ paramDecl ctx = fold (bind_ident typ) (children paramDecl) ctx"

definition bindParams :: "tree \<Rightarrow> ResolveContext \<Rightarrow> ResolveContext" where
  "bindParams paramsNode ctx =
     fold (\<lambda>paramDecl c. bind_decl (param_type c paramDecl) paramDecl c) (nodes_of ''parameter_declaration'' paramsNode) ctx"

definition bindReturnValues :: "tree \<Rightarrow> ResolveContext \<Rightarrow> ResolveContext" where
  "bindReturnValues resultNode ctx =
     (if Node_Type resultNode \<noteq> ''parameter_list'' then ctx
      else fold (\<lambda>paramDecl c. bind_decl (decl_type c paramDecl) paramDecl c) (nodes_of ''parameter_declaration'' resultNode) ctx)"

definition receiver_binding :: "ResolveContext \<Rightarrow> tree \<Rightarrow> (string \<times> gtype option) option" where
  "receiver_binding ctx paramDecl =
     first_some (\<lambda>child. if Node_Type child = ''identifier'' \<and> nodeContent child (Ctx_Content ctx) \<noteq> ''_''
                         then Some (nodeContent child (Ctx_Content ctx), decl_type ctx paramDecl) else None) (children paramDecl)"

definition bindReceiver :: "tree \<Rightarrow> ResolveContext \<Rightarrow> ResolveContext" where
  "bindReceiver receiverNode ctx =
     (case first_some (receiver_binding ctx) (nodes_of ''parameter_declaration'' receiverNode) of
        Some (name, recvType) \<Rightarrow> ctx\<lparr>Ctx_Scope := Bind name recvType (Ctx_Scope ctx)\<rparr>
      | None \<Rightarrow> ctx)"

function extractTypeName :: "bytes \<Rightarrow> tree option \<Rightarrow> string" where
  "extractTypeName content None = ''''"
| "extractTypeName content (Some node) =
     (if Node_Type node = ''type_identifier'' then Content node content
      else if Node_Type node \<in> {''pointer_type'', ''parenthesized_type''} then
        (case NamedChild 0 node of Some c \<Rightarrow> extractTypeName content (Some c) | None \<Rightarrow> '''')
      else if Node_Type node = ''generic_type'' then
        (case ChildByFieldName ''type'' node of Some c \<Rightarrow> extractTypeName content (Some c) | None \<Rightarrow> '''')
      else '''')"
  by pat_completeness auto
termination by (relation "measure (\<lambda>(content, n). tree_size n)") (auto dest: smaller)

declare extractTypeName.simps(2) [simp del]

definition extractReceiverTypeName :: "bytes \<Rightarrow> tree \<Rightarrow> string" where
  "extractReceiverTypeName content receiverNode =
     (case first_some (\<lambda>paramDecl. ChildByFieldName ''type'' paramDecl) (nodes_of ''parameter_declaration'' receiverNode) of
        Some typeNode \<Rightarrow> extractTypeName content (Some typeNode)
      | None \<Rightarrow> '''')"

section \<open>The walk over the calls\<close>

text \<open>The state of the walk is the context and the edges emitted so far.\<close>

type_synonym walk_state = "ResolveContext \<times> edge list"

definition push_scope :: "ResolveContext \<Rightarrow> ResolveContext" where
  "push_scope ctx = ctx\<lparr>Ctx_Scope := NewScope (Ctx_Scope ctx)\<rparr>"

definition pop_scope :: "ResolveContext \<Rightarrow> ResolveContext" where
  "pop_scope ctx = ctx\<lparr>Ctx_Scope := Parent (Ctx_Scope ctx)\<rparr>"

definition received_type :: "ResolveContext \<Rightarrow> tree \<Rightarrow> gtype option" where
  "received_type ctx right =
     (let rightType = EvalExprType ctx (Some right) in
      or_unknown (case rightType of
        Some t \<Rightarrow> if Ty_Kind t = KindChannel \<and> Ty_Elem t \<noteq> None then Ty_Elem t else rightType
      | None \<Rightarrow> None))"

definition bind_received :: "tree \<Rightarrow> ResolveContext \<Rightarrow> ResolveContext" where
  "bind_received caseChild ctx =
     (case ChildByFieldName ''right'' caseChild of
        None \<Rightarrow> ctx
      | Some right \<Rightarrow>
          (let recvType = received_type ctx right in
           case ChildByFieldName ''left'' caseChild of
             None \<Rightarrow> ctx
           | Some left \<Rightarrow>
               if Node_Type left = ''expression_list''
               then fold (\<lambda>(k, varNode). bind_ident (if k = 0 then recvType else Some (Builtin ''bool'')) varNode)
                      (enumerate 0 (named_children left)) ctx
               else bind_ident recvType left ctx))"

type_synonym walker = "tree \<Rightarrow> walk_state \<Rightarrow> walk_state"

text \<open>One case of a select or type switch: its steps run in a scope of their own, dropped at its end.\<close>

definition in_case_scope :: "(walk_state \<Rightarrow> walk_state) \<Rightarrow> walk_state \<Rightarrow> walk_state" where
  "in_case_scope body w =
     (let (ctx, edges) = w; (ctx', edges') = body (push_scope ctx, edges) in
      (ctx'\<lparr>Ctx_Scope := Ctx_Scope ctx\<rparr>, edges'))"

definition select_child :: "walker \<Rightarrow> tree \<Rightarrow> walk_state \<Rightarrow> walk_state" where
  "select_child rec caseChild w =
     (if Node_Type caseChild = ''receive_statement'' then (bind_received caseChild (fst w), snd w) else rec caseChild w)"

definition resolveSelectStatement :: "walker \<Rightarrow> tree \<Rightarrow> walk_state \<Rightarrow> walk_state" where
  "resolveSelectStatement rec node w =
     fold (\<lambda>child w.
       if Node_Type child \<notin> {''communication_case'', ''default_case''} then w
       else in_case_scope (\<lambda>w. fold (select_child rec) (named_children child) w) w) (named_children node) w"

definition switch_var :: "ResolveContext \<Rightarrow> tree \<Rightarrow> string" where
  "switch_var ctx node =
     fold (\<lambda>child v.
       if Node_Type child \<in> {''type_switch_statement'', ''short_var_declaration''} then
         (case ChildByFieldName ''left'' child of
            Some left \<Rightarrow>
              if Node_Type left = ''expression_list'' then
                (case NamedChild 0 left of
                   Some first \<Rightarrow> if Node_Type first = ''identifier'' then nodeContent first (Ctx_Content ctx) else v
                 | None \<Rightarrow> v)
              else v
          | None \<Rightarrow> v)
       else v) (named_children node) ''''"

definition narrow :: "string \<Rightarrow> tree \<Rightarrow> ResolveContext \<Rightarrow> ResolveContext" where
  "narrow switchVarName child ctx =
     (if switchVarName \<noteq> '''' then
        (case ChildByFieldName ''type'' child of
           Some typeListNode \<Rightarrow>
             (case ctx_parse ctx (Some typeListNode) of
                Some caseType \<Rightarrow> ctx\<lparr>Ctx_Scope := Bind switchVarName (Some caseType) (Ctx_Scope ctx)\<rparr>
              | None \<Rightarrow> ctx)
         | None \<Rightarrow> ctx)
      else ctx)"

definition resolveTypeSwitchStatement :: "walker \<Rightarrow> tree \<Rightarrow> walk_state \<Rightarrow> walk_state" where
  "resolveTypeSwitchStatement rec node w =
     (let switchVarName = switch_var (fst w) node in
      fold (\<lambda>child w.
        if Node_Type child = ''type_case_clause''
        then in_case_scope (\<lambda>(ctx, edges). fold rec (named_children child) (narrow switchVarName child ctx, edges)) w
        else if Node_Type child = ''default_case'' then fold rec (named_children child) w
        else w) (named_children node) w)"

lemma grandchild_cong:
  assumes "\<And>m v. size m < size n \<Longrightarrow> rec m v = (rec' m v :: walk_state)" "c \<in> set (named_children n)"
  shows "fold rec (named_children c) = fold rec' (named_children c)"
    "fold (select_child rec) (named_children c) = fold (select_child rec') (named_children c)"
proof -
  have "rec m = rec' m" if "m \<in> set (named_children c)" for m
    using assms(1) smaller(4) [OF that] smaller(4) [OF assms(2)] by (intro ext) simp
  then show "fold rec (named_children c) = fold rec' (named_children c)"
    "fold (select_child rec) (named_children c) = fold (select_child rec') (named_children c)"
    by (auto intro!: fold_cong simp: select_child_def fun_eq_iff)
qed

lemma select_cong [fundef_cong]:
  assumes "n = n'" "w = w'" "\<And>m v. size m < size n' \<Longrightarrow> rec m v = rec' m v"
  shows "resolveSelectStatement rec n w = resolveSelectStatement rec' n' w'"
proof -
  have "fold (select_child rec) (named_children c) = fold (select_child rec') (named_children c)" if "c \<in> set (named_children n')" for c
    using assms(3) that by (rule grandchild_cong(2))
  then show ?thesis unfolding resolveSelectStatement_def assms(1,2) by (intro fold_cong) (simp_all cong: if_cong)
qed

lemma type_switch_cong [fundef_cong]:
  assumes "n = n'" "w = w'" "\<And>m v. size m < size n' \<Longrightarrow> rec m v = rec' m v"
  shows "resolveTypeSwitchStatement rec n w = resolveTypeSwitchStatement rec' n' w'"
proof -
  have "fold rec (named_children c) = fold rec' (named_children c)" if "c \<in> set (named_children n')" for c
    using assms(3) that by (rule grandchild_cong(1))
  then show ?thesis unfolding resolveTypeSwitchStatement_def Let_def assms(1,2) by (intro fold_cong) (simp_all cong: if_cong)
qed

text \<open>The bindings a node makes on entry: in the current scope, and after a push those of its clauses.\<close>

definition needs_scope :: "tree \<Rightarrow> bool" where
  "needs_scope node \<longleftrightarrow> Node_Type node \<in> {''block'', ''if_statement'', ''for_statement'', ''switch_statement''}"

definition initializer_of :: "tree \<Rightarrow> tree list" where
  "initializer_of node =
     (if Node_Type node \<in> {''if_statement'', ''switch_statement''}
      then (case ChildByFieldName ''initializer'' node of Some i \<Rightarrow> [i] | None \<Rightarrow> []) else [])"

definition range_clauses :: "tree \<Rightarrow> tree list" where
  "range_clauses node = (if Node_Type node = ''for_statement'' then nodes_of ''range_clause'' node else [])"

definition enter_scope :: "tree \<Rightarrow> ResolveContext \<Rightarrow> ResolveContext" where
  "enter_scope node ctx =
     fold ProcessStatement (initializer_of node)
       (fold ProcessStatement (range_clauses node) (if needs_scope node then push_scope ctx else ctx))"

definition emit_call :: "sha \<Rightarrow> string list \<Rightarrow> string \<Rightarrow> string \<Rightarrow> tree \<Rightarrow> walk_state \<Rightarrow> walk_state" where
  "emit_call H tqs repoURL filePath node w =
     (let (ctx, edges) = w in
      if Node_Type node = ''call_expression'' then
        (case resolveCallExpr tqs ctx node of
           Some rc \<Rightarrow> (ctx, edges @ [buildCallEdge H ctx node rc repoURL filePath])
         | None \<Rightarrow> (ctx, edges))
      else (ctx, edges))"

function resolveCallsInNode :: "sha \<Rightarrow> string list \<Rightarrow> string \<Rightarrow> string \<Rightarrow> tree \<Rightarrow> walk_state \<Rightarrow> walk_state" where
  "resolveCallsInNode H tqs repoURL filePath node w =
     (let w1 = emit_call H tqs repoURL filePath node (ProcessStatement node (fst w), snd w) in
      if Node_Type node = ''select_statement''
      then resolveSelectStatement (\<lambda>m v. resolveCallsInNode H tqs repoURL filePath m v) node w1
      else if Node_Type node = ''type_switch_statement''
      then resolveTypeSwitchStatement (\<lambda>m v. resolveCallsInNode H tqs repoURL filePath m v) node (enter_scope node (fst w1), snd w1)
      else
        (let (ctx, edges) = fold (\<lambda>child v. resolveCallsInNode H tqs repoURL filePath child v) (named_children node)
               (enter_scope node (fst w1), snd w1) in
         (if needs_scope node then pop_scope ctx else ctx, edges)))"
  by pat_completeness auto
termination
  by (relation "measure (\<lambda>(H, tqs, repoURL, filePath, node, w). size node)") (auto dest: smaller)

declare resolveCallsInNode.simps [simp del]

section \<open>Declarations and files\<close>

text \<open>Running a declaration in a scope of its own, with the qualified name of the function while it lasts.\<close>

definition bind_child :: "string \<Rightarrow> (tree \<Rightarrow> ResolveContext \<Rightarrow> ResolveContext) \<Rightarrow> tree \<Rightarrow> ResolveContext \<Rightarrow> ResolveContext" where
  "bind_child f b node ctx = (case ChildByFieldName f node of Some n \<Rightarrow> b n ctx | None \<Rightarrow> ctx)"

definition in_function :: "walker \<Rightarrow> string \<Rightarrow> (ResolveContext \<Rightarrow> ResolveContext) \<Rightarrow> tree \<Rightarrow> walk_state \<Rightarrow> walk_state" where
  "in_function rec qn binds node w =
     (let (ctx, edges) = w;
          w1 = (binds (push_scope (ctx\<lparr>EnclosingFuncQN := qn\<rparr>)), edges);
          (ctx2, edges2) = (case ChildByFieldName ''body'' node of Some body \<Rightarrow> rec body w1 | None \<Rightarrow> w1) in
      (ctx2\<lparr>Ctx_Scope := Ctx_Scope ctx, EnclosingFuncQN := ''''\<rparr>, edges2))"

definition processFuncDecl :: "walker \<Rightarrow> tree \<Rightarrow> walk_state \<Rightarrow> walk_state" where
  "processFuncDecl rec node w =
     (case ChildByFieldName ''name'' node of
        None \<Rightarrow> w
      | Some nameNode \<Rightarrow>
          in_function rec (Ctx_PkgQN (fst w) @ ''.'' @ nodeContent nameNode (Ctx_Content (fst w)))
            (\<lambda>ctx. bind_child ''result'' bindReturnValues node (bind_child ''parameters'' bindParams node ctx)) node w)"

definition method_qn :: "ResolveContext \<Rightarrow> tree \<Rightarrow> string \<Rightarrow> string" where
  "method_qn ctx node methodName =
     (let receiverTypeName = (case ChildByFieldName ''receiver'' node of
            Some receiverNode \<Rightarrow> extractReceiverTypeName (Ctx_Content ctx) receiverNode | None \<Rightarrow> '''') in
      if receiverTypeName \<noteq> '''' then Ctx_PkgQN ctx @ ''.'' @ receiverTypeName @ ''.'' @ methodName
      else Ctx_PkgQN ctx @ ''.'' @ methodName)"

definition processMethodDecl :: "walker \<Rightarrow> tree \<Rightarrow> walk_state \<Rightarrow> walk_state" where
  "processMethodDecl rec node w =
     (case ChildByFieldName ''name'' node of
        None \<Rightarrow> w
      | Some nameNode \<Rightarrow>
          in_function rec (method_qn (fst w) node (nodeContent nameNode (Ctx_Content (fst w))))
            (\<lambda>ctx. bind_child ''result'' bindReturnValues node
                     (bind_child ''parameters'' bindParams node (bind_child ''receiver'' bindReceiver node ctx))) node w)"

definition ResolveCallsInFile :: "sha \<Rightarrow> string list \<Rightarrow> ResolveContext \<Rightarrow> tree \<Rightarrow> string \<Rightarrow> string \<Rightarrow> edge list" where
  "ResolveCallsInFile H tqs ctx root' repoURL filePath =
     (let rec = resolveCallsInNode H tqs repoURL filePath;
          ctx1 = fold (\<lambda>child c. if Node_Type child \<in> {''var_declaration'', ''const_declaration''} then ProcessStatement child c else c)
                   (named_children root') ctx in
      snd (fold (\<lambda>child w.
             if Node_Type child = ''function_declaration'' then processFuncDecl rec child w
             else if Node_Type child = ''method_declaration'' then processMethodDecl rec child w
             else w) (named_children root') (ctx1, [])))"

section \<open>The registry from syntax trees\<close>

text \<open>
  The code changes the registered type through its pointer: for a type of this registry that is an update in place
  (a fallback is only set afterwards).
\<close>

fun update_type :: "string \<Rightarrow> (RegisteredType \<Rightarrow> RegisteredType) \<Rightarrow> Type_Registry \<Rightarrow> Type_Registry" where
  "update_type qn f (Type_Registry fs ts ms fb) = Type_Registry fs (map (\<lambda>p. if fst p = qn then (qn, f (snd p)) else p) ts) ms fb"

definition struct_fields :: "bytes \<Rightarrow> string \<Rightarrow> import_map \<Rightarrow> tree \<Rightarrow> (string \<times> gtype option) list" where
  "struct_fields content pkgQN imps fieldList =
     concat (map (\<lambda>fieldDecl.
       case (ChildByFieldName ''name'' fieldDecl, ChildByFieldName ''type'' fieldDecl) of
         (Some nameN, Some typeN) \<Rightarrow>
           (case ParseTypeNode content pkgQN imps (Some typeN) of
              Some t \<Rightarrow> if Content nameN content \<noteq> '''' then [(Content nameN content, Some t)] else []
            | None \<Rightarrow> [])
       | _ \<Rightarrow> []) (nodes_of ''field_declaration'' fieldList))"

definition struct_embeds :: "bytes \<Rightarrow> string \<Rightarrow> tree \<Rightarrow> string list" where
  "struct_embeds content pkgQN fieldList =
     concat (map (\<lambda>fieldDecl.
       case (ChildByFieldName ''name'' fieldDecl, ChildByFieldName ''type'' fieldDecl) of
         (None, Some typeN) \<Rightarrow>
           (let embedText = extractTypeName content (Some typeN) in
            if embedText \<noteq> '''' then [qualify_target pkgQN embedText] else [])
       | _ \<Rightarrow> []) (nodes_of ''field_declaration'' fieldList))"

definition enrichStructType :: "bytes \<Rightarrow> string \<Rightarrow> import_map \<Rightarrow> string \<Rightarrow> tree \<Rightarrow> Type_Registry \<Rightarrow> Type_Registry" where
  "enrichStructType content pkgQN imps typeQN typeNode reg =
     (case nodes_of ''field_declaration_list'' typeNode of
        [] \<Rightarrow> reg
      | fieldList # _ \<Rightarrow>
          (let fs = struct_fields content pkgQN imps fieldList; es = struct_embeds content pkgQN fieldList in
           update_type typeQN (\<lambda>rt. rt\<lparr>Type_Fields := (if fs \<noteq> [] then fs else Type_Fields rt),
                                       Type_EmbeddedTypes := (if es \<noteq> [] then es else Type_EmbeddedTypes rt)\<rparr>) reg))"

definition interface_methods :: "bytes \<Rightarrow> tree \<Rightarrow> string list" where
  "interface_methods content typeNode =
     concat (map (\<lambda>child.
       if Node_Type child \<in> {''method_spec'', ''method_elem''} then
         (case ChildByFieldName ''name'' child of
            Some mNameNode \<Rightarrow> if Content mNameNode content \<noteq> '''' then [Content mNameNode content] else []
          | None \<Rightarrow> [])
       else []) (named_children typeNode))"

definition enrichInterfaceType :: "bytes \<Rightarrow> string \<Rightarrow> tree \<Rightarrow> Type_Registry \<Rightarrow> Type_Registry" where
  "enrichInterfaceType content typeQN typeNode reg =
     (let methodNames = interface_methods content typeNode in
      if methodNames \<noteq> []
      then update_type typeQN (\<lambda>rt. rt\<lparr>Type_MethodNames := methodNames, Type_IsInterface := True\<rparr>) reg else reg)"

definition enrichTypeSpec :: "bytes \<Rightarrow> string \<Rightarrow> import_map \<Rightarrow> tree \<Rightarrow> Type_Registry \<Rightarrow> Type_Registry" where
  "enrichTypeSpec content pkgQN imps spec reg =
     (case (ChildByFieldName ''name'' spec, ChildByFieldName ''type'' spec) of
        (Some nameNode, Some typeNode) \<Rightarrow>
          (let typeQN = pkgQN @ ''.'' @ Content nameNode content in
           if Node_Type typeNode = ''struct_type'' then enrichStructType content pkgQN imps typeQN typeNode reg
           else if Node_Type typeNode = ''interface_type'' then enrichInterfaceType content typeQN typeNode reg
           else reg)
      | _ \<Rightarrow> reg)"

definition enrichTypeAlias :: "bytes \<Rightarrow> string \<Rightarrow> tree \<Rightarrow> Type_Registry \<Rightarrow> Type_Registry" where
  "enrichTypeAlias content pkgQN spec reg =
     (case (ChildByFieldName ''name'' spec, ChildByFieldName ''type'' spec) of
        (Some nameNode, Some typeNode) \<Rightarrow>
          (let aliasName = Content nameNode content;
               aliasQN = pkgQN @ ''.'' @ aliasName;
               reg = (if LookupType reg aliasQN = None
                      then AddType (new_type\<lparr>Type_QualifiedName := aliasQN, Type_ShortName := aliasName\<rparr>) reg else reg);
               targetName = extractTypeName content (Some typeNode) in
           if targetName \<noteq> ''''
           then update_type aliasQN (\<lambda>rt. rt\<lparr>Type_AliasOf := qualify_target pkgQN targetName\<rparr>) reg else reg)
      | _ \<Rightarrow> reg)"

definition enrich_spec :: "bytes \<Rightarrow> string \<Rightarrow> import_map \<Rightarrow> tree \<Rightarrow> Type_Registry \<Rightarrow> Type_Registry" where
  "enrich_spec content pkgQN imps spec reg =
     (if Node_Type spec = ''type_spec'' then enrichTypeSpec content pkgQN imps spec reg
      else if Node_Type spec = ''type_alias'' then enrichTypeAlias content pkgQN spec reg
      else reg)"

text \<open>\<open>fileTrees\<close> is ranged over in the order of its entries; a file without content or tree is skipped.\<close>

definition enrichRegistryFromAST :: "(string, bytes) gomap \<Rightarrow> (string, tree option) gomap \<Rightarrow> Type_Registry \<Rightarrow> Type_Registry" where
  "enrichRegistryFromAST fileContents fileTrees reg =
     fold (\<lambda>(filePath, root') reg.
       case (map_of fileContents filePath, root') of
         (Some content, Some r) \<Rightarrow>
           fold (enrich_spec content (inferPkgQNFromPath filePath) (BuildImportMap r content))
             (concat (map named_children (nodes_of ''type_declaration'' r))) reg
       | _ \<Rightarrow> reg) fileTrees reg"

definition BuildRegistry ::
  "ResolverDef list \<Rightarrow> (string, bytes) gomap option \<Rightarrow> (string, tree option) gomap option \<Rightarrow> Type_Registry \<times> string list" where
  "BuildRegistry defs fileContents fileTrees =
     (let (reg, registeredTypeQNs) = BuildRegistry_defs defs in
      (case (fileContents, fileTrees) of
         (Some contents, Some trees) \<Rightarrow> enrichRegistryFromAST contents trees reg
       | _ \<Rightarrow> reg, registeredTypeQNs))"

section \<open>The resolver\<close>

text \<open>
  The state is the resolver's registry, nil before the workspace is initialised, and the package variable that all
  resolvers share. \<open>parse\<close> is the tree-sitter parser, for files without a tree.
\<close>

record GoResolver =
  registry :: "Type_Registry option"
  registered_types :: "string list"

definition NewGoResolver :: "GoResolver" where
  "NewGoResolver = \<lparr>registry = None, registered_types = []\<rparr>"

definition InitWorkspace :: "ResolverDef list \<Rightarrow> GoResolver \<Rightarrow> GoResolver" where
  "InitWorkspace defs r =
     (let (reg, tqs) = BuildRegistry defs None None in
      \<lparr>registry = Some (SetFallback reg (Some (registerGoStdlib NewRegistry))), registered_types = tqs\<rparr>)"

record ResolveFileOpts =
  Opts_FilePath :: string
  Opts_FileHash :: hash
  Opts_Content :: bytes
  Opts_ParsedTree :: "tree option"
  Opts_Edges :: "edge list"

datatype resolver_error = NotInitialized | NothingToParse string | ParseError string string

definition extractRoot :: "(bytes \<Rightarrow> string + tree) \<Rightarrow> ResolveFileOpts \<Rightarrow> resolver_error + tree" where
  "extractRoot parse opts =
     (case Opts_ParsedTree opts of
        Some r \<Rightarrow> Inr r
      | None \<Rightarrow>
          if length (Opts_Content opts) = 0 then Inl (NothingToParse (Opts_FilePath opts))
          else map_err (ParseError (Opts_FilePath opts)) (parse (Opts_Content opts)))"

text \<open>The existing edges are looked at but contribute nothing.\<close>

definition inferPackageInfo :: "string \<Rightarrow> edge list \<Rightarrow> string \<times> string" where
  "inferPackageInfo filePath edges = (inferPkgQNFromPath filePath, '''')"

definition postResolvePass :: "edge list \<Rightarrow> edge list" where
  "postResolvePass edges = map (\<lambda>e. e) edges"

definition ResolveFile :: "sha \<Rightarrow> (bytes \<Rightarrow> string + tree) \<Rightarrow> GoResolver \<Rightarrow> ResolveFileOpts \<Rightarrow> resolver_error + edge list" where
  "ResolveFile H parse r opts =
     (case registry r of
        None \<Rightarrow> Inl NotInitialized
      | Some reg \<Rightarrow>
          bind_res (extractRoot parse opts) (\<lambda>root'.
            let imps = BuildImportMap root' (Opts_Content opts);
                (pkgQN, repoURL) = inferPackageInfo (Opts_FilePath opts) (Opts_Edges opts);
                rctx = \<lparr>Ctx_Registry = reg, Ctx_Scope = NewScope [], Ctx_Imports = imps, Ctx_PkgQN = pkgQN,
                        Ctx_Content = Opts_Content opts, EnclosingFuncQN = ''''\<rparr>;
                edges = ResolveCallsInFile H (registered_types r) rctx root' repoURL (Opts_FilePath opts) in
            Inr (postResolvePass edges)))"

end
