(* ===== verification/GoTypeSafety.thy ===== *)
theory GoTypeSafety
  imports GoResolve
begin

text \<open>
  Type safety of the Go resolver: every type it reads from a text or a syntax tree, registers, evaluates or binds
  carries exactly the components of its kind.
\<close>

section \<open>Well-kinded types\<close>

definition ty_parts :: "gtype \<Rightarrow> gtype option list" where
  "ty_parts t = [Ty_Elem t, Ty_Key t, Ty_Value t, Ty_Underlying t] @ map snd (Ty_Params t) @ Ty_Returns t @
     map snd (Ty_Fields t) @ map snd (Ty_Methods t) @ Ty_Elements t @ map snd (Ty_TypeParams t)"

definition elem_kinds :: "TypeKind set" where
  "elem_kinds = {KindPointer, KindSlice, KindChannel, KindArray, KindOptional, KindReference}"

definition name_kinds :: "TypeKind set" where
  "name_kinds = {KindNamed, KindBuiltin, KindTypeParam, KindAlias}"

definition kind_ok :: "gtype \<Rightarrow> bool" where
  "kind_ok t \<longleftrightarrow>
     (Ty_Name t \<noteq> '''' \<longleftrightarrow> Ty_Kind t \<in> name_kinds) \<and>
     (Ty_Kind t = KindBuiltin \<longrightarrow> isBuiltinType (Ty_Name t)) \<and>
     (Ty_Elem t \<noteq> None \<longrightarrow> Ty_Kind t \<in> elem_kinds) \<and>
     (Ty_Kind t \<in> {KindSlice, KindChannel} \<longrightarrow> Ty_Elem t \<noteq> None) \<and>
     (Ty_Key t \<noteq> None \<longleftrightarrow> Ty_Kind t = KindMap) \<and> (Ty_Value t \<noteq> None \<longleftrightarrow> Ty_Kind t = KindMap) \<and>
     (Ty_Params t \<noteq> [] \<or> Ty_Returns t \<noteq> [] \<longrightarrow> Ty_Kind t = KindFunc) \<and>
     (if Ty_Kind t = KindTuple then 2 \<le> length (Ty_Elements t) else Ty_Elements t = []) \<and>
     Ty_Fields t = [] \<and> Ty_Methods t = [] \<and> Ty_TypeParams t = [] \<and> Ty_Underlying t = None \<and>
     (Ty_ChanDir t \<noteq> ChanBidi \<longrightarrow> Ty_Kind t = KindChannel)"

lemma named_member_size: "p \<in> set ps \<Longrightarrow> opt_size (snd p) < named_size ps"
  by (induction ps) auto

lemma list_member_size: "x \<in> set xs \<Longrightarrow> opt_size x < list_size xs"
  by (induction xs) auto

lemma ty_parts_opt_size: "q \<in> set (ty_parts t) \<Longrightarrow> opt_size q < Suc (size t)"
  using part_sizes [of t] unfolding ty_parts_def
  by (auto dest!: list_member_size) (auto dest!: named_member_size)

lemma ty_parts_size: "Some x \<in> set (ty_parts t) \<Longrightarrow> size x < size t"
  using ty_parts_opt_size [of "Some x" t] by simp

function well_kinded :: "gtype \<Rightarrow> bool" where
  "well_kinded t \<longleftrightarrow> kind_ok t \<and> (\<forall>x. Some x \<in> set (ty_parts t) \<longrightarrow> well_kinded x)"
  by pat_completeness auto
termination by (relation "measure size") (auto simp: ty_parts_size)

declare well_kinded.simps [simp del]

definition wk :: "gtype option \<Rightarrow> bool" where
  "wk t \<longleftrightarrow> (\<forall>x. t = Some x \<longrightarrow> well_kinded x)"

lemma wk_simps [simp]: "wk None" "wk (Some t) \<longleftrightarrow> well_kinded t"
  by (simp_all add: wk_def)

lemma wk_parts:
  assumes "well_kinded t"
  shows "wk (Ty_Elem t)" "wk (Ty_Key t)" "wk (Ty_Value t)" "r \<in> set (Ty_Returns t) \<Longrightarrow> wk r" "r \<in> set (Ty_Elements t) \<Longrightarrow> wk r"
    "p \<in> set (Ty_Params t) \<Longrightarrow> wk (snd p)" "kind_ok t"
proof -
  have parts: "q \<in> set (ty_parts t) \<Longrightarrow> wk q" for q using assms well_kinded.simps [of t] unfolding wk_def by blast
  show "wk (Ty_Elem t)" "wk (Ty_Key t)" "wk (Ty_Value t)" "r \<in> set (Ty_Returns t) \<Longrightarrow> wk r" "r \<in> set (Ty_Elements t) \<Longrightarrow> wk r"
    "p \<in> set (Ty_Params t) \<Longrightarrow> wk (snd p)"
    by (rule parts; simp add: ty_parts_def)+
  show "kind_ok t" using assms well_kinded.simps [of t] by blast
qed

named_theorems wk_intros "constructors of well-kinded types"

lemma wk_make [wk_intros]:
  "well_kinded Unknown" "n \<noteq> '''' \<Longrightarrow> well_kinded (Named n)" "wk e \<Longrightarrow> well_kinded (Pointer e)"
  "well_kinded x \<Longrightarrow> well_kinded (Slice (Some x))" "well_kinded k \<Longrightarrow> well_kinded v \<Longrightarrow> well_kinded (Map_type (Some k) (Some v))"
  "well_kinded x \<Longrightarrow> well_kinded (Channel (Some x) d)" "isBuiltinType n \<Longrightarrow> well_kinded (Builtin n)"
  "\<forall>p \<in> set ps. wk (snd p) \<Longrightarrow> \<forall>r \<in> set rs. wk r \<Longrightarrow> well_kinded (Func ps rs)"
  "2 \<le> length es \<Longrightarrow> \<forall>e \<in> set es. wk e \<Longrightarrow> well_kinded (Tuple es)"
  "well_kinded (zero_type KindInterface)" "well_kinded (zero_type KindStruct)"
  by (subst well_kinded.simps; auto simp: type_defs kind_ok_def ty_parts_def elem_kinds_def name_kinds_def
      isBuiltinType_def goBuiltinTypes_def image_iff wk_def)+

lemma builtins_wk: "set builtinTypes = set goBuiltinTypes"
  by (auto simp: builtinTypes_def goBuiltinTypes_def)

section \<open>Texts\<close>

lemma wk_if [wk_intros]: "(c \<Longrightarrow> well_kinded a) \<Longrightarrow> (\<not> c \<Longrightarrow> well_kinded b) \<Longrightarrow> well_kinded (if c then a else b)"
  by simp

lemma parseTypeText_wk: "well_kinded (parseTypeText s pkgQN)"
proof (induction s rule: measure_induct_rule [of length])
  case (less s)
  let ?t = "strings_TrimSpace s"
  have map_case: "well_kinded (case k of Some e \<Rightarrow> if e > 4 then Map_type (Some (parseTypeText (slice ?t 4 e) pkgQN))
      (Some (parseTypeText (drop (e + 1) ?t) pkgQN)) else Unknown | None \<Rightarrow> Unknown)" if "?t \<noteq> ''''" for k
    using that by (cases k) (simp_all add: wk_make less shorter_parts)
  have func_case: "well_kinded (Func [] (map (\<lambda>part. Some (parseTypeText part pkgQN)) (return_texts ?t)))"
    if "?t \<noteq> ''''" "strings_HasPrefix ?t ''func''"
    using that by (intro wk_make) (auto simp: less shorter_parts)
  show ?case
    unfolding parseTypeText.simps [of s] Let_def
    by (intro wk_if map_case func_case wk_make; (assumption | simp add: less shorter_parts))
qed

lemma parseGoSignatureText_wk: "well_kinded (parseGoSignatureText sig pkgQN)"
  unfolding parseGoSignatureText_def by (auto intro!: wk_intros parseTypeText_wk)

section \<open>Registries\<close>

fun registry_ok :: "Type_Registry \<Rightarrow> bool" where
  "registry_ok (Type_Registry fs ts ms fb) \<longleftrightarrow>
     (\<forall>f \<in> snd ` set fs \<union> snd ` set ms. wk (Func_Signature f)) \<and>
     (\<forall>t \<in> snd ` set ts. \<forall>p \<in> set (Type_Fields t). wk (snd p)) \<and>
     (case fb of Some r \<Rightarrow> registry_ok r | None \<Rightarrow> True)"

lemma gomap_set_all: "P v \<Longrightarrow> \<forall>x \<in> snd ` set m. P x \<Longrightarrow> \<forall>x \<in> snd ` set (gomap_set k v m). P x"
  by (induction m) auto

lemma map_of_snd: "map_of m k = Some v \<Longrightarrow> v \<in> snd ` set m"
  by (force dest: map_of_SomeD)

lemma lookups_wk:
  "registry_ok r \<Longrightarrow> LookupSymbol r p n = Some f \<Longrightarrow> wk (Func_Signature f)"
  "registry_ok r \<Longrightarrow> LookupMethod r q m = Some f \<Longrightarrow> wk (Func_Signature f)"
  "registry_ok r \<Longrightarrow> LookupType r q = Some t \<Longrightarrow> x \<in> set (Type_Fields t) \<Longrightarrow> wk (snd x)"
proof -
  show "registry_ok r \<Longrightarrow> LookupSymbol r p n = Some f \<Longrightarrow> wk (Func_Signature f)"
    by (induction r p n rule: LookupSymbol.induct) (auto dest!: map_of_snd split: option.splits)
  show "registry_ok r \<Longrightarrow> LookupMethod r q m = Some f \<Longrightarrow> wk (Func_Signature f)"
    by (induction r q m rule: LookupMethod.induct) (auto dest!: map_of_snd split: option.splits)
  show "registry_ok r \<Longrightarrow> LookupType r q = Some t \<Longrightarrow> x \<in> set (Type_Fields t) \<Longrightarrow> wk (snd x)"
    by (induction r q rule: LookupType.induct) (auto dest!: map_of_snd split: option.splits)
qed

lemma registry_ok_iff:
  "registry_ok (Type_Registry fs ts ms fb) \<longleftrightarrow>
     (\<forall>f \<in> snd ` set fs. wk (Func_Signature f)) \<and> (\<forall>f \<in> snd ` set ms. wk (Func_Signature f)) \<and>
     (\<forall>t \<in> snd ` set ts. \<forall>p \<in> set (Type_Fields t). wk (snd p)) \<and> (\<forall>r. fb = Some r \<longrightarrow> registry_ok r)"
  by (subst registry_ok.simps) (auto split: option.splits)

lemma registry_ok_AddFunc:
  assumes "registry_ok r" "wk (Func_Signature f)"
  shows "registry_ok (AddFunc f r)"
proof (cases r)
  case (Type_Registry fs ts ms fb)
  have parts: "\<forall>g \<in> snd ` set fs. wk (Func_Signature g)" "\<forall>g \<in> snd ` set ms. wk (Func_Signature g)"
    "\<forall>t \<in> snd ` set ts. \<forall>p \<in> set (Type_Fields t). wk (snd p)" "\<forall>r. fb = Some r \<longrightarrow> registry_ok r"
    using assms(1) unfolding Type_Registry registry_ok_iff by blast+
  note add = gomap_set_all [of "\<lambda>g. wk (Func_Signature g)", OF assms(2)]
  have "registry_ok (Type_Registry (gomap_set k f fs) ts (if c then gomap_set k' f ms else ms) fb)" for k k' c
    unfolding registry_ok_iff by (cases c; simp only: if_True if_False; intro conjI add parts)
  then show ?thesis by (simp add: Type_Registry)
qed

lemma registry_ok_AddType:
  assumes "registry_ok r" "\<forall>p \<in> set (Type_Fields t). wk (snd p)"
  shows "registry_ok (AddType t r)"
proof (cases r)
  case (Type_Registry fs ts ms fb)
  then show ?thesis
    using assms gomap_set_all [of "\<lambda>t. \<forall>p \<in> set (Type_Fields t). wk (snd p)" t ts]
    unfolding Type_Registry AddType.simps registry_ok_iff by blast
qed

lemma registry_ok_SetFallback: "registry_ok r \<Longrightarrow> registry_ok s \<Longrightarrow> registry_ok (SetFallback r (Some s))"
  by (cases r) auto

lemma registry_ok_new: "registry_ok NewRegistry"
  by (simp add: NewRegistry_def)

lemma registry_ok_def: "registry_ok (fst st) \<Longrightarrow> registry_ok (fst (register_def def st))"
  by (cases st) (auto simp: register_def_def new_func_def new_type_def def_signature_def parseGoSignatureText_wk
      intro!: registry_ok_AddFunc registry_ok_AddType)

lemma registry_ok_defs: "registry_ok (fst (BuildRegistry_defs defs))"
proof -
  have "registry_ok (fst st) \<Longrightarrow> registry_ok (fst (fold register_def defs st))" for st
    by (induction defs arbitrary: st) (simp_all add: registry_ok_def)
  then show ?thesis by (simp add: BuildRegistry_defs_def registry_ok_new)
qed

definition keeps_ok :: "(Type_Registry \<Rightarrow> Type_Registry) \<Rightarrow> bool" where
  "keeps_ok add \<longleftrightarrow> (\<forall>r. registry_ok r \<longrightarrow> registry_ok (add r))"

lemma keeps_ok_std:
  "list_all well_kinded rs \<Longrightarrow> keeps_ok (std_func q s v rs)" "keeps_ok (std_type q s i)"
  unfolding std_func_def std_type_def keeps_ok_def
  by (auto simp: new_func_def new_type_def list_all_iff intro!: wk_intros registry_ok_AddFunc registry_ok_AddType)

lemma keeps_ok_add_all: "list_all keeps_ok adds \<Longrightarrow> keeps_ok (add_entries adds)"
proof -
  have "list_all keeps_ok adds \<Longrightarrow> registry_ok r \<Longrightarrow> registry_ok (add_entries adds r)" for r
    unfolding add_entries_def by (induction adds arbitrary: r) (auto simp: keeps_ok_def)
  then show "list_all keeps_ok adds \<Longrightarrow> keeps_ok (add_entries adds)" by (simp add: keeps_ok_def)
qed

lemma builtin_names:
  "isBuiltinType ''string''" "isBuiltinType ''int''" "isBuiltinType ''int64''" "isBuiltinType ''uint64''" "isBuiltinType ''bool''"
  "isBuiltinType ''error''" "isBuiltinType ''any''" "isBuiltinType ''byte''" "isBuiltinType ''float64''" "isBuiltinType ''rune''"
  "isBuiltinType ''complex128''"
  by (simp_all add: isBuiltinType_def goBuiltinTypes_def)

lemmas std_ok = keeps_ok_std keeps_ok_add_all builtin_names wk_make

lemma stdlib_keeps_ok:
  "keeps_ok stdlib_fmt" "keeps_ok stdlib_strings" "keeps_ok stdlib_context" "keeps_ok stdlib_io" "keeps_ok stdlib_os"
  "keeps_ok stdlib_net_http" "keeps_ok stdlib_sync" "keeps_ok stdlib_errors" "keeps_ok stdlib_encoding_json"
  "keeps_ok stdlib_path_filepath" "keeps_ok stdlib_time" "keeps_ok stdlib_regexp" "keeps_ok stdlib_sort"
  "keeps_ok stdlib_bytes" "keeps_ok stdlib_log" "keeps_ok stdlib_strconv" "keeps_ok stdlib_bufio" "keeps_ok stdlib_path"
  "keeps_ok stdlib_database_sql" "keeps_ok stdlib_ioutil"
  unfolding stdlib_defs by (rule keeps_ok_add_all, simp add: std_ok)+

lemma registry_ok_stdlib: "registry_ok r \<Longrightarrow> registry_ok (registerGoStdlib r)"
proof -
  have "keeps_ok registerGoStdlib"
    unfolding registerGoStdlib_def by (rule keeps_ok_add_all) (simp add: stdlib_keeps_ok)
  then show "registry_ok r \<Longrightarrow> registry_ok (registerGoStdlib r)" by (simp add: keeps_ok_def)
qed

section \<open>Type expressions and members\<close>

lemma or_unknown_wk: "wk t \<Longrightarrow> wk (or_unknown t)"
  by (auto simp: or_unknown_def wk_make split: option.splits)

lemma or_unknown_Some: "\<exists>x. or_unknown t = Some x"
  by (auto simp: or_unknown_def split: option.splits)

lemma wk_option_if: "(c \<Longrightarrow> wk a) \<Longrightarrow> (\<not> c \<Longrightarrow> wk b) \<Longrightarrow> wk (if c then a else b)"
  by simp

lemma wk_case_option: "(\<And>x. a = Some x \<Longrightarrow> wk (f x)) \<Longrightarrow> wk b \<Longrightarrow> wk (case a of None \<Rightarrow> b | Some x \<Rightarrow> f x)"
  by (cases a) auto

lemma wk_Some: "well_kinded t \<Longrightarrow> wk (Some t)"
  by simp

lemma wk_None: "wk None"
  by simp

lemma list_all_concat_map: "(\<And>x. x \<in> set xs \<Longrightarrow> list_all P (f x)) \<Longrightarrow> list_all P (concat (map f xs))"
  by (induction xs) auto

lemma ParseTypeNode_wk: "wk (ParseTypeNode content pkgQN imps n)"
proof (induction n rule: measure_induct_rule [of tree_size])
  case (less n)
  show ?case
  proof (cases n)
    case (Some node)
    have IH: "tree_size m < Suc (size node) \<Longrightarrow> wk (ParseTypeNode content pkgQN imps m)" for m
      using less Some by simp
    have quali: "wk (case (ChildByFieldName ''package'' node, ChildByFieldName ''name'' node) of
           (Some pkgNode, Some nameNode) \<Rightarrow>
             (case map_of imps (Content pkgNode content) of
                Some resolved \<Rightarrow> Some (Named (resolved @ ''.'' @ Content nameNode content))
              | None \<Rightarrow> Some (Named (Content pkgNode content @ ''.'' @ Content nameNode content)))
         | _ \<Rightarrow> None)"
      by (cases "ChildByFieldName ''package'' node"; cases "ChildByFieldName ''name'' node")
        (simp_all add: wk_make split: option.splits)
    have wrap: "wk (case ParseTypeNode content pkgQN imps m of None \<Rightarrow> None | Some x \<Rightarrow> Some (f x))"
      if "tree_size m < Suc (size node)" "\<And>x. well_kinded x \<Longrightarrow> well_kinded (f x)" for m f
      using IH [OF that(1)] that(2) by (cases "ParseTypeNode content pkgQN imps m") simp_all
    have wrapped: "wk (case ParseTypeNode content pkgQN imps (NamedChild 0 node) of None \<Rightarrow> None | Some x \<Rightarrow> Some (Pointer (Some x)))"
      "wk (case ParseTypeNode content pkgQN imps (elem_node node (NamedChild 0 node)) of None \<Rightarrow> None | Some x \<Rightarrow> Some (Slice (Some x)))"
      "wk (case ParseTypeNode content pkgQN imps (elem_node node (last_named node)) of None \<Rightarrow> None | Some x \<Rightarrow> Some (Slice (Some x)))"
      by (rule wrap; simp add: wk_make)+
    have named: "wk (Some (Named (pkgQN @ ''.'' @ n)))" "isBuiltinType n \<Longrightarrow> wk (Some (Builtin n))" for n
      by (simp_all add: wk_make)
    have leaves: "wk (Some (Func [] []))" "wk (Some (zero_type KindInterface))" "wk (Some (zero_type KindStruct))"
      by (simp_all add: wk_make)
    have subs: "wk (ParseTypeNode content pkgQN imps (NamedChild 0 node))" "wk (ParseTypeNode content pkgQN imps (generic_node node))"
      "wk (ParseTypeNode content pkgQN imps (ChildByFieldName f node))" "wk (ParseTypeNode content pkgQN imps (last_named node))" for f
      by (rule IH; simp)+
    have mapty: "wk (Some (Map_type (or_unknown a) (or_unknown b)))" if "wk a" "wk b" for a b
      using or_unknown_wk [OF that(1)] or_unknown_wk [OF that(2)] or_unknown_Some [of a] or_unknown_Some [of b]
      by (auto intro!: wk_make)
    have chanty: "wk (Some (Channel (or_unknown a) d))" if "wk a" for a d
      using or_unknown_wk [OF that] or_unknown_Some [of a] by (auto intro!: wk_make)
    have elems: "list_all well_kinded (concat (map (\<lambda>param.
               if Node_Type param \<noteq> ''parameter_declaration'' then []
               else (case ChildByFieldName ''type'' param of
                       None \<Rightarrow> []
                     | Some typeNode \<Rightarrow>
                         (case ParseTypeNode content pkgQN imps (Some typeNode) of None \<Rightarrow> [] | Some t \<Rightarrow> [t])))
               (named_children node)))"
    proof -
      have grand: "wk (ParseTypeNode content pkgQN imps (ChildByFieldName f y))" if "y \<in> set (named_children node)" for f y
        by (rule IH, rule less_trans [OF accessor_sizes(3)]) (simp add: smaller(4) [OF that])
      show ?thesis
      proof (rule list_all_concat_map)
        fix y
        assume "y \<in> set (named_children node)"
        from grand [OF this, of "''type''"]
        show "list_all well_kinded (if Node_Type y \<noteq> ''parameter_declaration'' then []
            else (case ChildByFieldName ''type'' y of None \<Rightarrow> []
                  | Some c \<Rightarrow> (case ParseTypeNode content pkgQN imps (Some c) of None \<Rightarrow> [] | Some t \<Rightarrow> [t])))"
          by (cases "ChildByFieldName ''type'' y") (simp_all add: wk_def split: option.splits)
      qed
    qed
    have tuple: "wk (if length es = 1 then Some (hd es) else if length es > 1 then Some (Tuple (map Some es)) else None)"
      if "list_all well_kinded es" for es
      using that by (cases es) (auto simp: list_all_iff Suc_le_eq intro!: wk_make)
    show ?thesis
      unfolding Some ParseTypeNode.simps(2) [of content pkgQN imps node] Let_def
      by (rule wk_option_if, rule wk_option_if, rule named(2), assumption, rule named(1),
          rule wk_option_if, rule quali, rule wk_option_if, rule wrapped(1), rule wk_option_if, rule wrapped(2),
          rule wk_option_if, rule wrapped(3), rule wk_option_if, rule mapty, rule subs(3), rule subs(3),
          rule wk_option_if, rule chanty, rule subs(4), rule wk_option_if, rule leaves(1), rule wk_option_if, rule leaves(2),
          rule wk_option_if, rule leaves(3), rule wk_option_if, rule subs(1), rule wk_option_if, rule subs(2),
          rule wk_option_if, rule tuple, rule elems, rule wk_simps(1))
  qed simp
qed

text \<open>Members, and the inference and substitution of type parameters.\<close>

lemma LookupFieldOrMethod_wk:
  "registry_ok reg \<Longrightarrow> LookupFieldOrMethod reg q m = Some f \<Longrightarrow> wk (Func_Signature f)"
  unfolding LookupFieldOrMethod_def using member_found [of reg q m 0 f] lookups_wk(2) by blast

lemma field_named_in: "field_named x fs = Some t \<Longrightarrow> \<exists>p \<in> set fs. snd p = t"
  by (induction fs) (auto split: if_splits)

lemma wk_first_some: "(\<And>x. wk (g x)) \<Longrightarrow> wk (first_some g xs)"
  by (induction xs) (auto split: option.splits simp: wk_def)

lemma lookupFieldDepth_wk:
  assumes "registry_ok reg"
  shows "wk (lookupFieldDepth reg q f d)"
proof (induction "maxEmbedDepth - d" arbitrary: q d)
  case 0
  then show ?case by (simp add: lookupFieldDepth.simps)
next
  case (Suc k)
  have IH: "wk (lookupFieldDepth reg p f (d + 1))" for p by (rule Suc.hyps(1)) (use Suc.hyps(2) in simp)
  show ?case
  proof (cases "LookupType reg q")
    case (Some t)
    have "wk ft" if "field_named f (Type_Fields t) = Some ft" for ft
      using field_named_in [OF that] lookups_wk(3) [OF assms Some] by blast
    then have fields: "wk (case field_named f (Type_Fields t) of Some ft \<Rightarrow> ft | None \<Rightarrow> first_some g es)" if "\<And>e. wk (g e)" for g es
      using wk_first_some [of g es, OF that] by (simp split: option.splits)
    show ?thesis
      unfolding lookupFieldDepth.simps [of reg q f d] Some option.case
      by (intro wk_option_if wk_simps(1) IH fields)
  next
    case None
    then show ?thesis by (subst lookupFieldDepth.simps) simp
  qed
qed

definition inferred_ok :: "(string, gtype) gomap \<Rightarrow> bool" where
  "inferred_ok m \<longleftrightarrow> (\<forall>x \<in> snd ` set m. well_kinded x)"

lemma inferred_ok_if: "(c \<Longrightarrow> inferred_ok a) \<Longrightarrow> (\<not> c \<Longrightarrow> inferred_ok b) \<Longrightarrow> inferred_ok (if c then a else b)"
  by simp

lemma inferred_ok_set: "well_kinded t \<Longrightarrow> inferred_ok m \<Longrightarrow> inferred_ok (gomap_set k t m)"
  unfolding inferred_ok_def by (rule gomap_set_all)

lemma unifyType_wk: "wk p \<Longrightarrow> wk a \<Longrightarrow> inferred_ok m \<Longrightarrow> inferred_ok (unifyType p a m)"
proof (induction p arbitrary: a m rule: measure_induct_rule [of opt_size])
  case (less p)
  show ?case
  proof (cases "p = None \<or> a = None")
    case False
    then obtain t u where tu: "p = Some t" "a = Some u" by auto
    have t: "well_kinded t" "well_kinded u" using less.prems tu by auto
    note parts = wk_parts(1-3) [OF t(1)] wk_parts(1-3) [OF t(2)]
    have IH: "inferred_ok (unifyType q b m')" if "opt_size q < Suc (size t)" "wk q" "wk b" "inferred_ok m'" for q b m'
      using less.IH [of q b m'] that tu by simp
    show ?thesis
      unfolding tu unifyType.simps Let_def
      by (intro inferred_ok_if IH inferred_ok_set part_sizes parts t less.prems(3))
  qed (use less.prems in \<open>cases p; cases a; auto\<close>)
qed

lemma substituteTypeParams_None: "substituteTypeParams t m = None \<longleftrightarrow> t = None"
proof (cases t)
  case (Some x)
  have not_None: "(c \<Longrightarrow> a \<noteq> None) \<Longrightarrow> (\<not> c \<Longrightarrow> b \<noteq> None) \<Longrightarrow> (if c then a else b) \<noteq> None" for c and a b :: "gtype option"
    by simp
  have param: "(case map_of m n of Some y \<Rightarrow> Some y | None \<Rightarrow> Some x) \<noteq> None" for n
    by (simp split: option.splits)
  have "substituteTypeParams (Some x) m \<noteq> None"
    unfolding substituteTypeParams.simps Let_def by (intro not_None param option.distinct(2))
  then show ?thesis using Some by simp
qed simp

lemma wk_parts_kind:
  assumes "well_kinded t"
  shows "Ty_Kind t = KindSlice \<or> Ty_Kind t = KindChannel \<Longrightarrow> Ty_Elem t \<noteq> None"
    "Ty_Kind t = KindMap \<Longrightarrow> Ty_Key t \<noteq> None \<and> Ty_Value t \<noteq> None"
  using wk_parts(7) [OF assms] unfolding kind_ok_def by simp_all

lemma map_of_inferred: "inferred_ok m \<Longrightarrow> map_of m n = Some x \<Longrightarrow> well_kinded x"
  unfolding inferred_ok_def using map_of_snd by fast

lemma substituteTypeParams_wk: "wk t \<Longrightarrow> inferred_ok m \<Longrightarrow> wk (substituteTypeParams t m)"
proof (induction t m rule: substituteTypeParams.induct)
  case (2 t m)
  have t: "well_kinded t" using 2 by simp
  have made: "Ty_Elem t \<noteq> None \<Longrightarrow> wk (substituteTypeParams (Ty_Elem t) m) \<Longrightarrow>
      wk (Some (Slice (substituteTypeParams (Ty_Elem t) m))) \<and> wk (Some (Channel (substituteTypeParams (Ty_Elem t) m) d))" for d
    using substituteTypeParams_None [of "Ty_Elem t" m] by (auto intro!: wk_make)
  have maps: "Ty_Key t \<noteq> None \<Longrightarrow> Ty_Value t \<noteq> None \<Longrightarrow> wk (substituteTypeParams (Ty_Key t) m) \<Longrightarrow> wk (substituteTypeParams (Ty_Value t) m) \<Longrightarrow>
      wk (Some (Map_type (substituteTypeParams (Ty_Key t) m) (substituteTypeParams (Ty_Value t) m)))"
    using substituteTypeParams_None [of "Ty_Key t" m] substituteTypeParams_None [of "Ty_Value t" m] by (auto intro!: wk_make)
  have param: "wk (case map_of m n of Some y \<Rightarrow> Some y | None \<Rightarrow> Some t)" for n
    using t map_of_inferred [OF "2.prems"(2)] by (simp split: option.splits)
  have ptr: "wk u \<Longrightarrow> wk (Some (Pointer u))" for u by (simp add: wk_make)
  have self: "wk (Some t)" and same: "well_kinded t" using t by simp_all
  note parts = wk_parts(1-3) [OF t] and kinds = wk_parts_kind [OF t]
  show ?case
    unfolding substituteTypeParams.simps Let_def
    by (intro wk_option_if param self ptr "2.IH" parts "2.prems"(2) conjunct1 [OF made] conjunct2 [OF made] maps)
      (use kinds in simp_all)
qed simp

section \<open>Expressions\<close>

definition scope_ok :: "Scope \<Rightarrow> bool" where
  "scope_ok s \<longleftrightarrow> (\<forall>level \<in> set s. \<forall>t \<in> snd ` set level. wk t)"

definition ctx_ok :: "ResolveContext \<Rightarrow> bool" where
  "ctx_ok ctx \<longleftrightarrow> registry_ok (Ctx_Registry ctx) \<and> scope_ok (Ctx_Scope ctx)"

lemma Scope_Lookup_wk: "scope_ok s \<Longrightarrow> wk (Scope_Lookup s name)"
proof (induction s name rule: Scope_Lookup.induct)
  case (2 bindings parent name)
  have parent: "scope_ok parent" using 2 by (simp add: scope_ok_def)
  show ?case
  proof (cases "map_of bindings name")
    case (Some t)
    have "t \<in> snd ` set bindings" using Some by (rule map_of_snd)
    then have "wk t" using "2.prems" unfolding scope_ok_def by (metis list.set_intros(1))
    then show ?thesis using Some by simp
  qed (use 2 parent in simp)
qed simp

lemma signature_wk:
  "registry_ok r \<Longrightarrow> wk (Option.bind (LookupSymbol r p n) Func_Signature)"
  "registry_ok r \<Longrightarrow> wk (Option.bind (LookupFieldOrMethod r q m) Func_Signature)"
  using lookups_wk(1) [of r p n] LookupFieldOrMethod_wk [of r q m]
  by (cases "LookupSymbol r p n"; cases "LookupFieldOrMethod r q m"; simp)+

lemma wk_elem: "well_kinded t \<Longrightarrow> Ty_Elem t = Some y \<Longrightarrow> well_kinded y"
  using wk_parts(1) [of t] by simp

lemma wk_or_else: "wk a \<Longrightarrow> wk b \<Longrightarrow> wk (case a of Some t \<Rightarrow> Some t | None \<Rightarrow> b)"
  by (cases a) auto

lemma wk_leaf [simp]: "wk (Some Unknown)" "n \<noteq> '''' \<Longrightarrow> wk (Some (Named n))" "isBuiltinType n \<Longrightarrow> wk (Some (Builtin n))"
  by (simp_all add: wk_make)

lemma wk_of_builtin: "wk (ResolveBuiltinType n)"
  using builtins_wk by (auto simp: ResolveBuiltinType_def isBuiltinType_def wk_make)

lemma evalIdentifier_wk: "ctx_ok ctx \<Longrightarrow> wk (evalIdentifier ctx node)"
  unfolding evalIdentifier_def Let_def ctx_ok_def
  by (intro wk_or_else Scope_Lookup_wk signature_wk wk_of_builtin wk_option_if wk_leaf) auto

lemma Deref_wk: "wk t \<Longrightarrow> wk (Deref t)"
  by (auto simp: Deref_def wk_elem split: option.splits)

lemma imported_symbol_wk: "ctx_ok ctx \<Longrightarrow> wk (imported_symbol ctx p f)"
  unfolding imported_symbol_def ctx_ok_def
  by (intro wk_or_else signature_wk wk_option_if wk_leaf) auto

lemma member_type_wk: "ctx_ok ctx \<Longrightarrow> wk (member_type ctx base f)"
proof -
  assume ok: "ctx_ok ctx"
  have "wk (case Option.bind (LookupFieldOrMethod (Ctx_Registry ctx) q f) Func_Signature of Some sig \<Rightarrow> Some sig
      | None \<Rightarrow> (case LookupField (Ctx_Registry ctx) q f of Some ft \<Rightarrow> Some ft | None \<Rightarrow> Some Unknown))" for q
    using ok unfolding ctx_ok_def LookupField_def
    by (intro wk_or_else signature_wk lookupFieldDepth_wk wk_leaf) auto
  note found = this
  show "wk (member_type ctx base f)"
    unfolding member_type_def by (rule wk_case_option, rule wk_case_option, rule wk_option_if, rule found) (rule wk_leaf(1))+
qed

lemma infer_params_wk:
  assumes "well_kinded fnType" "\<And>m. wk (ev m)"
  shows "inferred_ok (infer_params ev fnType args)"
proof -
  have "inferred_ok m \<Longrightarrow> inferred_ok (fold (\<lambda>(param, arg) m. unifyType (snd param) (ev (Some arg)) m) pas m)"
    if "\<forall>p \<in> set pas. wk (snd (fst p))" for pas m
    using that by (induction pas arbitrary: m) (auto simp: unifyType_wk assms(2))
  moreover have "\<forall>p \<in> set (zip (Ty_Params fnType) cs). wk (snd (fst p))" for cs :: "tree list"
    using wk_parts(6) [OF assms(1)] by (force dest: set_zip_leftD)
  moreover have "inferred_ok []" by (simp add: inferred_ok_def)
  ultimately have "inferred_ok (fold (\<lambda>(param, arg) m. unifyType (snd param) (ev (Some arg)) m) (zip (Ty_Params fnType) cs) [])" for cs
    by blast
  moreover have "inferred_ok []" by (simp add: inferred_ok_def)
  ultimately show ?thesis unfolding infer_params_def by (cases args) simp_all
qed

lemma result_type_wk: "\<forall>r \<in> set rs. wk r \<Longrightarrow> wk (result_type rs)"
  unfolding result_type_def by (cases rs; cases "tl rs") (auto intro!: wk_make)

lemma tryUnifyGenerics_wk:
  assumes "well_kinded fnType" "\<And>m. wk (ev m)"
  shows "wk (tryUnifyGenerics ev ctx fnNode fnType args)"
proof -
  have "wk (result_type (map (\<lambda>ret. substituteTypeParams ret (infer_params ev fnType args)) (Ty_Returns fnType)))"
    using substituteTypeParams_wk infer_params_wk [OF assms] wk_parts(4) [OF assms(1)] by (intro result_type_wk) simp
  then show ?thesis unfolding tryUnifyGenerics_def Let_def by (auto split: option.splits)
qed

lemma EvalBuiltinCall_wk: "(\<And>m. wk (ev m)) \<Longrightarrow> wk (EvalBuiltinCall name args c p i ev)"
proof -
  assume ev: "\<And>m. wk (ev m)"
  have new: "wk (case ParseTypeNode c p i (Some a) of Some inner \<Rightarrow> Some (Pointer (Some inner)) | None \<Rightarrow> Some (Pointer (Some Unknown)))" for a
    using ParseTypeNode_wk [of c p i "Some a"] by (auto simp: wk_make split: option.splits)
  show "wk (EvalBuiltinCall name args c p i ev)"
    unfolding EvalBuiltinCall_def
    by (intro wk_option_if wk_case_option wk_leaf builtin_names ev ParseTypeNode_wk new) (simp add: wk_make)
qed

lemma evalCall_wk:
  assumes "\<And>m. wk (ev m)"
  shows "wk (evalCall ev ctx node)"
proof -
  have call: "wk (if Ty_Kind t = KindFunc
      then (case (if hasTypeParam (Ty_Returns t) then tryUnifyGenerics ev ctx n t args else None) of
              Some resolved \<Rightarrow> Some resolved | None \<Rightarrow> result_type (Ty_Returns t))
      else if Ty_Kind t = KindNamed then Some t else Some Unknown)" if "well_kinded t" for t n args
    using that wk_parts(4) [OF that]
    by (intro wk_option_if wk_or_else result_type_wk tryUnifyGenerics_wk assms wk_leaf) auto
  have called: "wk (case ev m of None \<Rightarrow> Some Unknown | Some t \<Rightarrow>
      if Ty_Kind t = KindFunc
      then (case (if hasTypeParam (Ty_Returns t) then tryUnifyGenerics ev ctx n t args else None) of
              Some resolved \<Rightarrow> Some resolved | None \<Rightarrow> result_type (Ty_Returns t))
      else if Ty_Kind t = KindNamed then Some t else Some Unknown)" for m n args
    using assms [of m] call by (cases "ev m") (simp_all add: wk_make)
  show ?thesis
    unfolding evalCall_def Let_def
    by (rule wk_case_option, rule wk_option_if, rule EvalBuiltinCall_wk, rule assms, rule wk_option_if, rule ParseTypeNode_wk,
        rule called, rule wk_leaf(1))
qed

lemma evalUnary_wk: "(\<And>m. wk (ev m)) \<Longrightarrow> wk (evalUnary ev ctx node)"
proof -
  assume ev: "\<And>m. wk (ev m)"
  have recv: "wk (case ev m of Some inner \<Rightarrow> if Ty_Kind inner = KindChannel \<and> Ty_Elem inner \<noteq> None then Ty_Elem inner else Some Unknown
      | None \<Rightarrow> Some Unknown)" for m
    using ev [of m] by (auto simp: wk_elem wk_make split: option.splits)
  show "wk (evalUnary ev ctx node)"
    unfolding evalUnary_def Let_def using ev recv Deref_wk [OF ev] builtin_names(5)
    by (auto simp: wk_make split: option.splits)
qed

lemma evalIndex_wk: "(\<And>m. wk (ev m)) \<Longrightarrow> wk (evalIndex ev ctx node)"
proof -
  assume ev: "\<And>m. wk (ev m)"
  have "wk (if Ty_Kind t = KindMap then or_unknown (Ty_Value t)
      else if Ty_Kind t \<in> {KindSlice, KindArray} then or_unknown (Ty_Elem t) else Some Unknown)" if "well_kinded t" for t
    by (intro wk_option_if or_unknown_wk wk_leaf wk_parts(1,3) that)
  then show "wk (evalIndex ev ctx node)"
    unfolding evalIndex_def using ev by (intro wk_case_option wk_leaf) (metis wk_def)
qed

lemma evalBinary_wk: "(\<And>m. wk (ev m)) \<Longrightarrow> wk (evalBinary ev ctx node)"
  unfolding evalBinary_def by (intro wk_option_if wk_case_option wk_leaf builtin_names) simp

lemma ctx_parse_case_wk: "wk (case x of None \<Rightarrow> Some Unknown | Some typeNode \<Rightarrow> ctx_parse ctx (Some typeNode))"
  by (intro wk_case_option ParseTypeNode_wk wk_leaf)

lemma evalCompositeLiteral_wk: "wk (evalCompositeLiteral ctx node)" "wk (evalTypeAssertion ctx node)"
  unfolding evalCompositeLiteral_def evalTypeAssertion_def by (rule ctx_parse_case_wk)+

lemma evalSelector_wk: "ctx_ok ctx \<Longrightarrow> wk (evalSelector ev ctx node)"
  unfolding evalSelector_def Let_def using imported_symbol_wk member_type_wk
  by (auto simp: wk_make split: option.splits)

lemma parseParamList_wk: "\<forall>p \<in> set (parseParamList ctx n). wk (snd p)"
proof -
  have "wk (case x of Some typeNode \<Rightarrow> ctx_parse ctx (Some typeNode) | None \<Rightarrow> Some Unknown)" for x
    by (rule ctx_parse_case_wk)
  then have "\<forall>p \<in> set (decl_params ctx d). wk (snd p)" for d by (auto simp: decl_params_def Let_def)
  then show ?thesis by (simp add: parseParamList_def)
qed

lemma literal_returns_wk: "\<forall>r \<in> set (literal_returns ctx n). wk r"
  using ParseTypeNode_wk by (auto simp: literal_returns_def split: option.splits)

lemma evalFuncLiteral_wk: "wk (evalFuncLiteral ctx node)"
  using parseParamList_wk literal_returns_wk unfolding evalFuncLiteral_def
  by (auto intro!: wk_make split: option.splits)

lemma EvalExprType_wk: "ctx_ok ctx \<Longrightarrow> wk (EvalExprType ctx n)"
proof (induction n rule: measure_induct_rule [of tree_size])
  case (less n)
  show ?case
  proof (cases n)
    case (Some node)
    let ?ev = "\<lambda>m. if tree_size m < Suc (size node) then EvalExprType ctx m else None"
    have ev: "wk (?ev m)" for m using less Some by simp
    have sel: "evalSelector (\<lambda>m. EvalExprType ctx m) ctx node = evalSelector ?ev ctx node"
      "evalCall (\<lambda>m. EvalExprType ctx m) ctx node = evalCall ?ev ctx node"
      "evalUnary (\<lambda>m. EvalExprType ctx m) ctx node = evalUnary ?ev ctx node"
      "evalIndex (\<lambda>m. EvalExprType ctx m) ctx node = evalIndex ?ev ctx node"
      "evalBinary (\<lambda>m. EvalExprType ctx m) ctx node = evalBinary ?ev ctx node"
      by (rule evalSelector_cong evalCall_cong evalUnary_cong evalIndex_cong evalBinary_cong; simp)+
    have sub: "wk (EvalExprType ctx (ChildByFieldName f node))" for f using ev [of "ChildByFieldName f node"] by simp
    have paren: "wk (case NamedChild 0 node of Some child \<Rightarrow> EvalExprType ctx (Some child) | None \<Rightarrow> Some Unknown)"
      using ev [of "NamedChild 0 node"] accessor_sizes(2) [of 0 node] by (cases "NamedChild 0 node") simp_all
    show ?thesis
      unfolding Some EvalExprType.simps(2) [of ctx node] Let_def sel
      by (intro wk_option_if evalIdentifier_wk evalSelector_wk evalCall_wk evalUnary_wk evalIndex_wk evalBinary_wk
          evalFuncLiteral_wk evalCompositeLiteral_wk less.prems ev sub paren wk_leaf builtin_names)
  qed (simp add: wk_make)
qed

section \<open>Statements and walks\<close>

lemma scope_ok_Bind: "scope_ok s \<Longrightarrow> wk t \<Longrightarrow> scope_ok (Bind n t s)"
proof (cases s)
  case (Cons level parent)
  assume ok: "scope_ok s" "wk t"
  have "\<forall>x \<in> snd ` set (gomap_set n t level). wk x"
    by (rule gomap_set_all) (use ok Cons in \<open>simp_all add: scope_ok_def\<close>)
  then show ?thesis using ok Cons by (simp add: Bind_def scope_ok_def)
qed (simp add: Bind_def)

lemma ctx_ok_Bind: "ctx_ok ctx \<Longrightarrow> wk t \<Longrightarrow> ctx_ok (ctx\<lparr>Ctx_Scope := Bind n t (Ctx_Scope ctx)\<rparr>)"
  by (simp add: ctx_ok_def scope_ok_Bind)

lemma ctx_ok_binds:
  assumes "ctx_ok ctx" "wk t"
  shows "ctx_ok (ctx_bind n t ctx)" "ctx_ok (bind_ident t m ctx)" "ctx_ok (bind_name_field t m ctx)" "ctx_ok (bind_some t k ctx)"
  using assms ctx_ok_Bind [OF assms]
  by (auto simp: ctx_bind_def bind_ident_def bind_name_field_def bind_some_def split: option.splits)

lemma fold_inv: "P c \<Longrightarrow> (\<And>x c. x \<in> set xs \<Longrightarrow> P c \<Longrightarrow> P (f x c)) \<Longrightarrow> P (fold f xs c)"
  by (induction xs arbitrary: c) simp_all

lemma tuple_part_wk: "wk t \<Longrightarrow> wk (tuple_part t i)"
proof (cases t)
  case (Some u)
  assume "wk t"
  then have "\<forall>e \<in> set (Ty_Elements u). wk e" using Some wk_parts(5) by auto
  then show ?thesis using \<open>wk t\<close> Some by (simp add: tuple_part_def wk_make)
qed (simp add: tuple_part_def wk_make)

lemma range_types_wk: "well_kinded t \<Longrightarrow> wk (fst (range_types t)) \<and> wk (snd (range_types t))"
  using wk_parts(1-3) [of t] by (simp add: range_types_def or_unknown_wk wk_make builtin_names)

lemma bindLeft_ok: "ctx_ok ctx \<Longrightarrow> wk t \<Longrightarrow> ctx_ok (bindLeftIdentifiers left t ctx)"
  unfolding bindLeftIdentifiers_def
  by (auto intro!: fold_inv [where P = ctx_ok] ctx_ok_binds tuple_part_wk split: prod.splits)

lemma spec_type_wk: "ctx_ok ctx \<Longrightarrow> wk (spec_type ctx n)"
  unfolding spec_type_def
  by (intro or_unknown_wk wk_case_option wk_option_if ParseTypeNode_wk EvalExprType_wk wk_simps(1))

lemma ProcessStatement_parts_ok:
  assumes "ctx_ok ctx"
  shows "ctx_ok (processVarSpec n ctx)" "ctx_ok (processConstSpec n ctx)" "ctx_ok (processShortVarDecl n ctx)"
    "ctx_ok (processRangeClause n ctx)"
proof -
  show "ctx_ok (processVarSpec n ctx)"
    unfolding processVarSpec_def Let_def
    by (intro fold_inv [where P = ctx_ok] ctx_ok_binds spec_type_wk assms)
  show "ctx_ok (processConstSpec n ctx)"
    unfolding processConstSpec_def by (intro ctx_ok_binds spec_type_wk assms)
  show "ctx_ok (processShortVarDecl n ctx)"
    using assms EvalExprType_wk [OF assms] unfolding processShortVarDecl_def Let_def
    by (auto intro!: bindLeft_ok or_unknown_wk split: option.splits)
  have "ctx_ok (bind_some v m (bind_some k l ctx))" if "wk v" "wk k" for v m k l
    by (intro ctx_ok_binds assms that)
  moreover have "wk (fst (range_types t)) \<and> wk (snd (range_types t))" if "EvalExprType ctx r = Some t" for r t
    using EvalExprType_wk [OF assms, of r] that range_types_wk by simp
  ultimately show "ctx_ok (processRangeClause n ctx)"
    using assms ctx_ok_binds(4) [OF assms] unfolding processRangeClause_def Let_def
    by (auto simp: case_prod_beta split: option.splits)
qed

lemma ProcessStatement_ok: "ctx_ok ctx \<Longrightarrow> ctx_ok (ProcessStatement n ctx)"
  unfolding ProcessStatement_def Let_def
  by (simp add: ProcessStatement_parts_ok fold_inv [where P = ctx_ok])

lemma ctx_ok_scopes:
  "ctx_ok ctx \<Longrightarrow> ctx_ok (push_scope ctx)" "ctx_ok ctx \<Longrightarrow> ctx_ok (pop_scope ctx)"
  "ctx_ok ctx \<Longrightarrow> ctx_ok ctx' \<Longrightarrow> ctx_ok (ctx'\<lparr>Ctx_Scope := Ctx_Scope ctx\<rparr>)"
  "ctx_ok (ctx\<lparr>EnclosingFuncQN := q\<rparr>) \<longleftrightarrow> ctx_ok ctx"
  by (cases "Ctx_Scope ctx"; auto simp: ctx_ok_def push_scope_def pop_scope_def NewScope_def Parent_def scope_ok_def)+

end
