(* ===== verification/GoCallEdges.thy ===== *)
theory GoCallEdges
  imports GoTypeSafety
begin

text \<open>
  The walk over a Go file: what it keeps of the context, which edges it emits, and which types it binds; then the
  properties of the resolver as a whole.
\<close>

section \<open>The invariant of the walk\<close>

definition caller_hash :: "sha \<Rightarrow> string \<Rightarrow> ResolveContext \<Rightarrow> hash" where
  "caller_hash H repoURL ctx =
     (case splitEnclosingFunc (EnclosingFuncQN ctx) (Ctx_PkgQN ctx) of
        (pkgPath, funcName, kind) \<Rightarrow> ComputeNodeHash H repoURL pkgPath EmptyHash funcName kind)"

definition call_edge_ok :: "sha \<Rightarrow> string \<Rightarrow> string \<Rightarrow> edge \<Rightarrow> bool" where
  "call_edge_ok H repoURL filePath e \<longleftrightarrow>
     VerifyEdgeHash H e = None \<and> EdgeType e = ''calls'' \<and> Provenance e = ProvenanceResolverResolved \<and>
     Confidence e \<in> {ResolverConfidence, 6/10} \<and> CallSiteFile e = filePath \<and> CallSiteLine e > 0 \<and> CallSiteCol e \<ge> 0 \<and>
     (\<exists>p n k. TargetHash e = ComputeNodeHash H repoURL p EmptyHash n k)"

text \<open>
  From the start of a walk to its end: only the current level of the scope changes, well-kinded contexts stay so, and
  the edges are extended by edges that leave the enclosing function.
\<close>

definition walk_ok :: "sha \<Rightarrow> string \<Rightarrow> string \<Rightarrow> walk_state \<Rightarrow> walk_state \<Rightarrow> bool" where
  "walk_ok H repoURL filePath w w' \<longleftrightarrow>
     binds_here (fst w) (fst w') \<and> (ctx_ok (fst w) \<longrightarrow> ctx_ok (fst w')) \<and>
     (\<exists>new. snd w' = snd w @ new \<and> (\<forall>e \<in> set new. call_edge_ok H repoURL filePath e \<and> SourceHash e = caller_hash H repoURL (fst w)))"

lemma here_fixed:
  assumes "binds_here ctx ctx'"
  shows "Ctx_Registry ctx' = Ctx_Registry ctx" "Ctx_Imports ctx' = Ctx_Imports ctx" "Ctx_PkgQN ctx' = Ctx_PkgQN ctx"
    "Ctx_Content ctx' = Ctx_Content ctx" "EnclosingFuncQN ctx' = EnclosingFuncQN ctx"
  using assms unfolding binds_here_def by (metis ResolveContext.select_convs ResolveContext.surjective ResolveContext.update_convs(2))+

lemma walk_refl: "walk_ok H u f w w"
  by (simp add: walk_ok_def here_refl)

lemma walk_trans:
  assumes "walk_ok H u f a b" "walk_ok H u f b c"
  shows "walk_ok H u f a c"
proof -
  have "caller_hash H u (fst b) = caller_hash H u (fst a)"
    using assms(1) here_fixed [of "fst a" "fst b"] by (simp add: walk_ok_def caller_hash_def)
  then show ?thesis using assms here_trans unfolding walk_ok_def by (auto 4 4)
qed

lemma walk_fold:
  assumes "\<And>x v. x \<in> set xs \<Longrightarrow> walk_ok H u f v (g x v)"
  shows "walk_ok H u f w (fold g xs w)"
  using assms
proof (induction xs arbitrary: w)
  case (Cons x xs)
  have "walk_ok H u f w (g x w)" by (rule Cons.prems) simp
  moreover have "walk_ok H u f (g x w) (fold g xs (g x w))" by (rule Cons.IH) (simp add: Cons.prems)
  ultimately show ?case by (simp add: walk_trans)
qed (simp add: walk_refl)

lemma walk_binds: "binds_here ctx ctx' \<Longrightarrow> (ctx_ok ctx \<Longrightarrow> ctx_ok ctx') \<Longrightarrow> walk_ok H u f (ctx, es) (ctx', es)"
  by (simp add: walk_ok_def)

text \<open>A walk in a pushed scope, once the scope is dropped again, leaves the context as it was.\<close>

lemma scoped_walk:
  assumes "walk_ok H u f (push_scope ctx, es) (ctx', es')"
  shows "walk_ok H u f (ctx, es) (pop_scope ctx', es')" "walk_ok H u f (ctx, es) (ctx'\<lparr>Ctx_Scope := Ctx_Scope ctx\<rparr>, es')"
    "pop_scope ctx' = ctx" "ctx'\<lparr>Ctx_Scope := Ctx_Scope ctx\<rparr> = ctx"
proof -
  have here: "binds_here (push_scope ctx) ctx'" using assms by (simp add: walk_ok_def)
  then have ctx': "ctx' = ctx\<lparr>Ctx_Scope := Ctx_Scope ctx'\<rparr>" "tl (Ctx_Scope ctx') = Ctx_Scope ctx"
    by (auto simp: binds_here_def push_scope_def NewScope_def)
  show restored: "ctx'\<lparr>Ctx_Scope := Ctx_Scope ctx\<rparr> = ctx" by (subst ctx'(1)) simp
  show pop: "pop_scope ctx' = ctx" unfolding pop_scope_def Parent_def ctx'(2) by (rule restored)
  have "caller_hash H u (push_scope ctx) = caller_hash H u ctx" by (simp add: caller_hash_def push_scope_def)
  then have "walk_ok H u f (ctx, es) (ctx, es')" using assms by (simp add: walk_ok_def here_refl)
  then show "walk_ok H u f (ctx, es) (pop_scope ctx', es')" "walk_ok H u f (ctx, es) (ctx'\<lparr>Ctx_Scope := Ctx_Scope ctx\<rparr>, es')"
    using pop restored by simp_all
qed

lemma walk_statement: "walk_ok H u f (ctx, es) (ProcessStatement n ctx, es)"
  by (rule walk_binds) (rule here_ProcessStatement, rule ProcessStatement_ok)

lemma call_edge: "call_edge_ok H repoURL filePath (buildCallEdge H ctx n rc repoURL filePath)"
  "SourceHash (buildCallEdge H ctx n rc repoURL filePath) = caller_hash H repoURL ctx"
  by (auto simp: call_edge_ok_def buildCallEdge_def VerifyEdgeHash_def caller_hash_def Let_def split: prod.splits)

lemma walk_emit: "walk_ok H u f w (emit_call H tqs u f n w)"
  unfolding emit_call_def by (auto simp: walk_ok_def here_refl call_edge split: option.splits prod.splits)

lemma bind_received_here: "binds_here ctx (bind_received n ctx)"
  unfolding bind_received_def Let_def by (auto intro!: here here_fold split: option.splits prod.splits)

lemma received_type_wk: "ctx_ok ctx \<Longrightarrow> wk (received_type ctx r)"
  using EvalExprType_wk [of ctx "Some r"] unfolding received_type_def Let_def
  by (intro or_unknown_wk) (auto simp: wk_elem split: option.splits)

lemma bind_received_ok: "ctx_ok ctx \<Longrightarrow> ctx_ok (bind_received n ctx)"
  unfolding bind_received_def Let_def
  by (auto intro!: fold_inv [where P = ctx_ok] ctx_ok_binds received_type_wk builtin_names wk_make split: option.splits prod.splits)

lemma walk_in_case:
  assumes "\<And>v. walk_ok H u f v (body v)"
  shows "walk_ok H u f w (in_case_scope body w)"
proof (cases w)
  case (Pair ctx es)
  obtain ctx' es' where b: "body (push_scope ctx, es) = (ctx', es')" by force
  then have "walk_ok H u f (push_scope ctx, es) (ctx', es')" using assms [of "(push_scope ctx, es)"] by simp
  from scoped_walk(2) [OF this] show ?thesis using Pair b by (simp add: in_case_scope_def)
qed

lemma walk_select:
  assumes "\<And>m v. size m < size n \<Longrightarrow> walk_ok H u f v (rec m v)"
  shows "walk_ok H u f w (resolveSelectStatement rec n w)"
proof -
  have child: "walk_ok H u f v (select_child rec m v)" if "c \<in> set (named_children n)" "m \<in> set (named_children c)" for c m v
  proof -
    have "size m < size n" using that smaller(4) less_trans by blast
    then have "walk_ok H u f v (rec m v)" by (rule assms)
    moreover have "walk_ok H u f v (bind_received m (fst v), snd v)"
      using walk_binds [OF bind_received_here bind_received_ok] by (cases v) simp
    ultimately show ?thesis by (simp add: select_child_def)
  qed
  show ?thesis
    unfolding resolveSelectStatement_def by (rule walk_fold) (auto intro!: walk_refl walk_in_case walk_fold child)
qed

lemma narrow_here: "binds_here ctx (narrow x n ctx)"
  unfolding narrow_def by (auto intro!: here split: option.splits)

lemma narrow_ok: "ctx_ok ctx \<Longrightarrow> ctx_ok (narrow x n ctx)"
  using ParseTypeNode_wk unfolding narrow_def
  by (auto intro!: ctx_ok_Bind simp: wk_def split: option.splits)

lemma walk_type_switch:
  assumes "\<And>m v. size m < size n \<Longrightarrow> walk_ok H u f v (rec m v)"
  shows "walk_ok H u f w (resolveTypeSwitchStatement rec n w)"
proof -
  have fold: "walk_ok H u f v (fold rec (named_children c) v)" if "c \<in> set (named_children n)" for c v
    by (rule walk_fold, rule assms) (use that smaller(4) less_trans in blast)
  have narrowed: "walk_ok H u f (ctx, es) (fold rec (named_children c) (narrow x c ctx, es))" if "c \<in> set (named_children n)" for c x ctx es
    by (rule walk_trans [OF walk_binds [OF narrow_here narrow_ok] fold [OF that]])
  show ?thesis
    unfolding resolveTypeSwitchStatement_def Let_def
    by (rule walk_fold) (auto intro!: walk_refl walk_in_case fold narrowed split: prod.splits)
qed

lemma enter_here: "binds_here (if needs_scope n then push_scope ctx else ctx) (enter_scope n ctx)"
  unfolding enter_scope_def by (rule here_trans; rule here_fold, rule here_ProcessStatement)

lemma enter_ok: "ctx_ok ctx \<Longrightarrow> ctx_ok (enter_scope n ctx)"
  unfolding enter_scope_def
  by (intro fold_inv [where P = ctx_ok] ProcessStatement_ok) (simp add: ctx_ok_scopes)

lemma ctx_ok_push: "ctx_ok (push_scope ctx) \<longleftrightarrow> ctx_ok ctx"
  by (simp add: ctx_ok_def push_scope_def NewScope_def scope_ok_def)

lemma walk_enter: "walk_ok H u f (if needs_scope n then push_scope ctx else ctx, es) (enter_scope n ctx, es)"
  by (rule walk_binds [OF enter_here], rule enter_ok) (simp add: ctx_ok_push split: if_splits)

lemma walk_scoped:
  assumes "\<And>v. walk_ok H u f v (g v)" "g (enter_scope n ctx, es) = (c, e)"
  shows "walk_ok H u f (ctx, es) (if needs_scope n then pop_scope c else c, e)"
proof -
  have "walk_ok H u f (if needs_scope n then push_scope ctx else ctx, es) (c, e)"
    using walk_trans [OF walk_enter assms(1)] assms(2) by metis
  then show ?thesis using scoped_walk(1) by (cases "needs_scope n") simp_all
qed

lemma resolve_unfold:
  assumes "emit_call H tqs u f n (ProcessStatement n ctx, es) = (c1, e1)"
  shows "resolveCallsInNode H tqs u f n (ctx, es) =
      (if Node_Type n = ''select_statement'' then resolveSelectStatement (resolveCallsInNode H tqs u f) n (c1, e1)
       else if Node_Type n = ''type_switch_statement'' then resolveTypeSwitchStatement (resolveCallsInNode H tqs u f) n (enter_scope n c1, e1)
       else (let (c, e) = fold (resolveCallsInNode H tqs u f) (named_children n) (enter_scope n c1, e1) in
             (if needs_scope n then pop_scope c else c, e)))"
  unfolding resolveCallsInNode.simps [of H tqs u f n "(ctx, es)"] fst_conv snd_conv assms Let_def by (rule refl)

lemma walk_resolve: "walk_ok H u f w (resolveCallsInNode H tqs u f n w)"
proof (induction n arbitrary: w rule: measure_induct_rule [of size])
  case (less n)
  let ?rec = "resolveCallsInNode H tqs u f"
  obtain ctx es where w: "w = (ctx, es)" by force
  obtain c1 e1 where e: "emit_call H tqs u f n (ProcessStatement n ctx, es) = (c1, e1)" by force
  have start: "walk_ok H u f w (c1, e1)" using walk_trans [OF walk_statement walk_emit] e w by metis
  have children: "walk_ok H u f v (fold ?rec (named_children n) v)" for v
    by (rule walk_fold) (rule less, rule smaller(4))
  have "walk_ok H u f (c1, e1) (?rec n w)"
  proof (cases "Node_Type n = ''select_statement''")
    case True
    then have "?rec n w = resolveSelectStatement ?rec n (c1, e1)" unfolding w resolve_unfold [OF e] by (rule if_P)
    then show ?thesis by (simp only: walk_select [OF less])
  next
    case select: False
    show ?thesis
    proof (cases "Node_Type n = ''type_switch_statement''")
      case True
      have "\<not> needs_scope n" using True by (simp add: needs_scope_def)
      then have step: "walk_ok H u f (c1, e1) (enter_scope n c1, e1)" using walk_enter [of H u f n c1 e1] by simp
      have eq: "?rec n w = resolveTypeSwitchStatement ?rec n (enter_scope n c1, e1)"
        unfolding w resolve_unfold [OF e] if_not_P [OF select] if_P [OF True] ..
      show ?thesis unfolding eq by (rule walk_trans [OF step walk_type_switch]) (rule less)
    next
      case False
      obtain c e2 where ce: "fold ?rec (named_children n) (enter_scope n c1, e1) = (c, e2)" by force
      have "?rec n w = (if needs_scope n then pop_scope c else c, e2)"
        unfolding w resolve_unfold [OF e] if_not_P [OF select] if_not_P [OF False] ce Let_def by simp
      then show ?thesis using walk_scoped [OF children ce] by simp
    qed
  qed
  then show ?case using start walk_trans by blast
qed

section \<open>Functions and files\<close>

lemma bind_decl_here: "binds_here ctx (bind_decl t d ctx)"
  unfolding bind_decl_def by (rule here_fold) (rule here)

lemma bind_decl_ok: "ctx_ok ctx \<Longrightarrow> wk t \<Longrightarrow> ctx_ok (bind_decl t d ctx)"
  unfolding bind_decl_def by (rule fold_inv [where P = ctx_ok]) (auto intro: ctx_ok_binds)

lemma decl_types_wk: "wk (param_type ctx d)" "wk (decl_type ctx d)"
proof -
  have "wk (map_option (\<lambda>inner. Slice (Some inner)) (first_some g xs))" if "\<And>x. wk (g x)" for g and xs :: "tree list"
    using wk_first_some [of g xs, OF that] by (cases "first_some g xs") (simp_all add: wk_make)
  then have "wk (variadic_type ctx d)"
    unfolding variadic_type_def by (rule or_unknown_wk) (simp add: ParseTypeNode_wk)
  then show "wk (param_type ctx d)"
    unfolding param_type_def by (intro wk_case_option wk_option_if or_unknown_wk ParseTypeNode_wk wk_leaf)
  show "wk (decl_type ctx d)"
    unfolding decl_type_def by (intro or_unknown_wk wk_case_option ParseTypeNode_wk wk_simps(1))
qed

definition keeps_walk :: "(ResolveContext \<Rightarrow> ResolveContext) \<Rightarrow> bool" where
  "keeps_walk f \<longleftrightarrow> (\<forall>ctx. binds_here ctx (f ctx) \<and> (ctx_ok ctx \<longrightarrow> ctx_ok (f ctx)))"

lemma keeps_walk_comp: "keeps_walk f \<Longrightarrow> keeps_walk g \<Longrightarrow> keeps_walk (\<lambda>ctx. f (g ctx))"
  unfolding keeps_walk_def using here_trans by blast

lemma keeps_walk_fold: "(\<And>x. x \<in> set xs \<Longrightarrow> keeps_walk (f x)) \<Longrightarrow> keeps_walk (fold f xs)"
  unfolding keeps_walk_def using here_fold fold_inv [where P = ctx_ok] by metis

lemma keeps_walk_child: "(\<And>n. keeps_walk (b n)) \<Longrightarrow> keeps_walk (bind_child f b node)"
  unfolding keeps_walk_def bind_child_def by (auto simp: here_refl split: option.splits)

lemma keeps_walk_binders: "keeps_walk (bindParams n)" "keeps_walk (bindReturnValues n)" "keeps_walk (bindReceiver n)"
proof -
  have decl: "keeps_walk (\<lambda>c. bind_decl (t c d) d c)" if "\<And>c. wk (t c d)" for t d
    unfolding keeps_walk_def using that by (simp add: bind_decl_here bind_decl_ok)
  show "keeps_walk (bindParams n)"
    using keeps_walk_fold [of "nodes_of ''parameter_declaration'' n" "\<lambda>d c. bind_decl (param_type c d) d c"] decl decl_types_wk(1)
    unfolding bindParams_def keeps_walk_def by blast
  show "keeps_walk (bindReturnValues n)"
    using keeps_walk_fold [of "nodes_of ''parameter_declaration'' n" "\<lambda>d c. bind_decl (decl_type c d) d c"] decl decl_types_wk(2)
    unfolding bindReturnValues_def keeps_walk_def by (simp add: here_refl)
  have recv: "wk t" if "first_some (receiver_binding ctx) ds = Some (x, t)" for ctx ds x t
    using that decl_types_wk(2) unfolding receiver_binding_def by (auto dest!: first_some_SomeD split: if_splits)
  show "keeps_walk (bindReceiver n)"
    unfolding keeps_walk_def bindReceiver_def
    by (auto intro!: here ctx_ok_Bind split: option.splits prod.splits dest: recv)
qed

text \<open>The qualified names a declaration of the file runs under.\<close>

lemma in_function_walk:
  assumes "keeps_walk binds"
  shows "\<exists>new. in_function (resolveCallsInNode H tqs u f) qn binds node (ctx, es) = (ctx\<lparr>EnclosingFuncQN := ''''\<rparr>, es @ new) \<and>
    (\<forall>e \<in> set new. call_edge_ok H u f e \<and> SourceHash e = caller_hash H u (ctx\<lparr>EnclosingFuncQN := qn\<rparr>))"
proof -
  let ?ctx = "ctx\<lparr>EnclosingFuncQN := qn\<rparr>"
  let ?start = "(binds (push_scope ?ctx), es)"
  obtain c e where body: "(case ChildByFieldName ''body'' node of Some body \<Rightarrow> resolveCallsInNode H tqs u f body ?start | None \<Rightarrow> ?start) = (c, e)"
    by force
  have "walk_ok H u f ?start (c, e)"
    unfolding body [symmetric] using walk_resolve walk_refl by (simp split: option.splits)
  moreover have "walk_ok H u f (push_scope ?ctx, es) ?start"
    using assms unfolding keeps_walk_def by (intro walk_binds) auto
  ultimately have w: "walk_ok H u f (push_scope ?ctx, es) (c, e)" using walk_trans by blast
  have c: "c\<lparr>Ctx_Scope := Ctx_Scope ctx\<rparr> = ?ctx" using scoped_walk(4) [OF w] by simp
  have hash: "caller_hash H u (push_scope ?ctx) = caller_hash H u ?ctx" by (simp add: caller_hash_def push_scope_def)
  obtain new where new: "e = es @ new" "\<forall>x \<in> set new. call_edge_ok H u f x \<and> SourceHash x = caller_hash H u ?ctx"
    using w hash by (auto simp: walk_ok_def)
  have "in_function (resolveCallsInNode H tqs u f) qn binds node (ctx, es) =
      (c\<lparr>Ctx_Scope := Ctx_Scope ctx\<rparr>\<lparr>EnclosingFuncQN := ''''\<rparr>, e)"
    unfolding in_function_def Let_def prod.case body by simp
  then show ?thesis unfolding c using new by auto
qed

lemma caller_hash_form: "\<exists>n k. caller_hash H u (ctx\<lparr>EnclosingFuncQN := qn\<rparr>) = ComputeNodeHash H u (Ctx_PkgQN ctx) EmptyHash n k"
  by (simp add: caller_hash_def splitEnclosingFunc_def Let_def) blast

definition from_package :: "sha \<Rightarrow> string \<Rightarrow> string \<Rightarrow> string \<Rightarrow> edge \<Rightarrow> bool" where
  "from_package H u f pkgQN e \<longleftrightarrow> call_edge_ok H u f e \<and> (\<exists>n k. SourceHash e = ComputeNodeHash H u pkgQN EmptyHash n k)"

text \<open>One declaration extends the edges by edges of the package and keeps everything but the current level of the scope.\<close>

definition decl_step :: "sha \<Rightarrow> string \<Rightarrow> string \<Rightarrow> walk_state \<Rightarrow> walk_state \<Rightarrow> bool" where
  "decl_step H u f w w' \<longleftrightarrow> Ctx_PkgQN (fst w') = Ctx_PkgQN (fst w) \<and>
     (\<exists>new. snd w' = snd w @ new \<and> (\<forall>e \<in> set new. from_package H u f (Ctx_PkgQN (fst w)) e))"

lemma in_function_step:
  "keeps_walk binds \<Longrightarrow> decl_step H u f w (in_function (resolveCallsInNode H tqs u f) qn binds node w)"
proof (cases w)
  case (Pair ctx es)
  assume "keeps_walk binds"
  from in_function_walk [OF this, where H = H and tqs = tqs and u = u and f = f and qn = qn and node = node and ctx = ctx and es = es]
  obtain new where
    new: "in_function (resolveCallsInNode H tqs u f) qn binds node (ctx, es) = (ctx\<lparr>EnclosingFuncQN := ''''\<rparr>, es @ new)"
    "\<forall>e \<in> set new. call_edge_ok H u f e \<and> SourceHash e = caller_hash H u (ctx\<lparr>EnclosingFuncQN := qn\<rparr>)" by blast
  have "\<forall>e \<in> set new. from_package H u f (Ctx_PkgQN ctx) e"
    using new(2) caller_hash_form [where H = H and u = u and ctx = ctx and qn = qn] unfolding from_package_def by metis
  then show ?thesis unfolding Pair new(1) decl_step_def by auto
qed

lemma decl_steps:
  "decl_step H u f w (processFuncDecl (resolveCallsInNode H tqs u f) n w)"
  "decl_step H u f w (processMethodDecl (resolveCallsInNode H tqs u f) n w)"
proof -
  have refl: "decl_step H u f w w" by (simp add: decl_step_def)
  note res = keeps_walk_child [OF keeps_walk_binders(2)] and par = keeps_walk_child [OF keeps_walk_binders(1)]
    and rcv = keeps_walk_child [OF keeps_walk_binders(3)]
  note func = in_function_step [OF keeps_walk_comp [OF res par]]
    and meth = in_function_step [OF keeps_walk_comp [OF res keeps_walk_comp [OF par rcv]]]
  show "decl_step H u f w (processFuncDecl (resolveCallsInNode H tqs u f) n w)"
    unfolding processFuncDecl_def
    by (cases "ChildByFieldName ''name'' n") (simp_all add: refl func)
  show "decl_step H u f w (processMethodDecl (resolveCallsInNode H tqs u f) n w)"
    unfolding processMethodDecl_def
    by (cases "ChildByFieldName ''name'' n") (simp_all add: refl meth)
qed

lemma decl_fold:
  assumes "\<And>x v. decl_step H u f v (g x v)"
  shows "decl_step H u f w (fold g xs w)"
proof (induction xs arbitrary: w)
  case (Cons x xs)
  show ?case using assms [of w x] Cons [of "g x w"] unfolding decl_step_def by auto
qed (simp add: decl_step_def)

lemma ResolveCallsInFile_edges:
  assumes "e \<in> set (ResolveCallsInFile H tqs ctx r u f)"
  shows "from_package H u f (Ctx_PkgQN ctx) e"
proof -
  let ?top = "\<lambda>child c. if Node_Type child \<in> {''var_declaration'', ''const_declaration''} then ProcessStatement child c else c"
  have "binds_here ctx (fold ?top (named_children r) ctx)"
    by (rule here_fold) (simp add: here)
  then have pkg: "Ctx_PkgQN (fold ?top (named_children r) ctx) = Ctx_PkgQN ctx" by (rule here_fixed)
  have step: "decl_step H u f w (if Node_Type child = ''function_declaration'' then processFuncDecl (resolveCallsInNode H tqs u f) child w
             else if Node_Type child = ''method_declaration'' then processMethodDecl (resolveCallsInNode H tqs u f) child w
             else w)" for child w
    using decl_steps by (simp add: decl_step_def)
  show ?thesis
    using assms decl_fold [OF step, where w = "(fold ?top (named_children r) ctx, [])" and xs = "named_children r"] pkg
    unfolding ResolveCallsInFile_def decl_step_def Let_def by auto
qed

end
