(* ===== verification/ResolveCommand.thy ===== *)
theory ResolveCommand
  imports GoCallEdges StoreProps
begin

text \<open>
  cmd/knowing/resolve.go: running the in-process resolvers over a stored repository. A resolver is used through
  its interface, two operations; the locale states what is relied on, and the Go resolver is shown to provide it. \<open>read\<close>
  is \<open>os.ReadFile\<close> of a path joined to the repository's directory.
\<close>

section \<open>The command\<close>

record resolverSpec =
  spec_name :: string
  extensions :: "string list"

definition allResolvers :: "resolverSpec list" where
  "allResolvers =
     [\<lparr>spec_name = ''Go'', extensions = [''.go'']\<rparr>, \<lparr>spec_name = ''Ruby'', extensions = [''.rb'']\<rparr>,
      \<lparr>spec_name = ''Python'', extensions = [''.py'']\<rparr>, \<lparr>spec_name = ''TypeScript'', extensions = [''.ts'', ''.tsx'']\<rparr>,
      \<lparr>spec_name = ''Java'', extensions = [''.java'']\<rparr>, \<lparr>spec_name = ''C#'', extensions = [''.cs'']\<rparr>,
      \<lparr>spec_name = ''Rust'', extensions = [''.rs'']\<rparr>]"

record FileResult =
  FR_Path :: string
  FR_FileHash :: hash
  FR_Content :: bytes
  FR_Language :: string

definition hasExtension :: "string \<Rightarrow> string list \<Rightarrow> bool" where
  "hasExtension path exts = list_ex (\<lambda>ext. strings_HasSuffix path ext) exts"

text \<open>A call whose error is answered by going on with a default.\<close>

definition or_default :: "'a \<Rightarrow> 'a op \<Rightarrow> 'a op" where
  "or_default x m s = (case m s of (Inl _, s') \<Rightarrow> (Inr x, s') | (Inr y, s') \<Rightarrow> (Inr y, s'))"

definition lang_files :: "(string \<Rightarrow> bytes option) \<Rightarrow> resolverSpec \<Rightarrow> source_file list \<Rightarrow> FileResult list" where
  "lang_files read spec files =
     concat (map (\<lambda>f.
       if \<not> hasExtension (Path f) (extensions spec) then []
       else if strings_HasSuffix (Path f) ''_test.go'' then []
       else (case read (Path f) of
               Some content \<Rightarrow> [\<lparr>FR_Path = Path f, FR_FileHash = FileHash f, FR_Content = content,
                                  FR_Language = strings_ToLower (spec_name spec)\<rparr>]
             | None \<Rightarrow> [])) files)"

definition queryNodesByExtensions :: "hash \<Rightarrow> string list \<Rightarrow> node list op" where
  "queryNodesByExtensions repoHash exts =
     bind_op (FilesByRepo repoHash) (\<lambda>files.
     bind_op (map_op (\<lambda>f. if \<not> hasExtension (Path f) exts then ret [] else or_default [] (NodesByFileHash (FileHash f))) files) (\<lambda>nss.
     ret (concat nss)))"

definition node_to_def :: "node \<Rightarrow> ResolverDef" where
  "node_to_def n =
     \<lparr>Def_QualifiedName = QualifiedName n,
      Def_Kind = (if Kind n \<in> {''type'', ''struct'', ''interface'', ''class''} then ''type''
                  else if Kind n = ''method'' then ''method'' else ''function''),
      Def_Signature = Signature n, Def_FilePath = '''', Def_PackagePath = ''''\<rparr>"

definition nodesToDefs :: "node list \<Rightarrow> ResolverDef list" where
  "nodesToDefs nodes = map node_to_def nodes"

primrec put_edges :: "int \<Rightarrow> edge list \<Rightarrow> nat \<Rightarrow> nat op" where
  "put_edges now [] edgeCount = ret edgeCount"
| "put_edges now (e # es) edgeCount =
     bind_op (or_default False (bind_op (PutEdge now e) (\<lambda>_. ret True))) (\<lambda>ok.
     put_edges now es (if ok then edgeCount + 1 else edgeCount))"

primrec resolve_files ::
  "('r \<Rightarrow> ResolveFileOpts \<Rightarrow> resolver_error + edge list) \<Rightarrow> int \<Rightarrow> 'r \<Rightarrow> FileResult list \<Rightarrow> nat \<Rightarrow> nat op" where
  "resolve_files resolve now r [] edgeCount = ret edgeCount"
| "resolve_files resolve now r (fr # frs) edgeCount =
     (case resolve r \<lparr>Opts_FilePath = FR_Path fr, Opts_FileHash = FR_FileHash fr, Opts_Content = FR_Content fr,
        Opts_ParsedTree = None, Opts_Edges = []\<rparr> of
        Inl _ \<Rightarrow> resolve_files resolve now r frs edgeCount
      | Inr edges \<Rightarrow> bind_op (put_edges now edges edgeCount) (\<lambda>n. resolve_files resolve now r frs n))"

definition runLanguageResolver ::
  "(ResolverDef list \<Rightarrow> go_error + 'r) \<Rightarrow> ('r \<Rightarrow> ResolveFileOpts \<Rightarrow> resolver_error + edge list) \<Rightarrow>
   (string \<Rightarrow> bytes option) \<Rightarrow> int \<Rightarrow> hash \<Rightarrow> resolverSpec \<Rightarrow> nat op" where
  "runLanguageResolver init resolve read now repoHash spec =
     bind_op (wrap_op ''query files'' (FilesByRepo repoHash)) (\<lambda>files.
     let langFiles = lang_files read spec files in
     if langFiles = [] then ret 0
     else
       bind_op (wrap_op (''query '' @ spec_name spec @ '' nodes'') (queryNodesByExtensions repoHash (extensions spec))) (\<lambda>allNodes.
       case init (nodesToDefs allNodes) of
         Inl e \<Rightarrow> fail_op (Wrap ''init workspace'' e)
       | Inr r \<Rightarrow> resolve_files resolve now r langFiles 0))"

text \<open>The resolvers run one after another; an error of one is printed and the next one runs.\<close>

definition runInProcessResolver ::
  "(resolverSpec \<Rightarrow> ResolverDef list \<Rightarrow> go_error + 'r) \<Rightarrow> (resolverSpec \<Rightarrow> 'r \<Rightarrow> ResolveFileOpts \<Rightarrow> resolver_error + edge list) \<Rightarrow>
   (string \<Rightarrow> bytes option) \<Rightarrow> int \<Rightarrow> hash \<Rightarrow> unit op" where
  "runInProcessResolver init resolve read now repoHash =
     bind_op (map_op (\<lambda>spec. ignore_op (runLanguageResolver (init spec) (resolve spec) read now repoHash spec)) allResolvers)
       (\<lambda>_. ret ())"

section \<open>What is relied on of a resolver\<close>

text \<open>
  A property of edges that every edge a resolver returns has, and that does not depend on the observation columns
  the store resets, holds of every row the command adds.
\<close>

definition edge_rows :: "db \<Rightarrow> edge set" where
  "edge_rows d = edge.truncate ` set (T_edges d)"

lemma preserves_or_default [preserve]: "preserves P m \<Longrightarrow> preserves P (or_default x m)"
  by (auto simp: preserves_def or_default_def split: prod.splits sum.splits)

lemma preserves_map_op [preserve]: "(\<And>x. preserves P (f x)) \<Longrightarrow> preserves P (map_op f xs)"
  by (induction xs) (auto intro!: preserve)

locale edge_resolver =
  fixes resolve :: "'r \<Rightarrow> ResolveFileOpts \<Rightarrow> resolver_error + edge list"
    and Q :: "edge \<Rightarrow> bool"
  assumes resolve_edges: "resolve r opts = Inr edges \<Longrightarrow> e \<in> set edges \<Longrightarrow> Q e"
    and observation_free: "Q e \<Longrightarrow> Q (e\<lparr>ObservationCount := 0, LastObserved := 0\<rparr>)"
begin

definition grown :: "db \<Rightarrow> db \<Rightarrow> bool" where
  "grown d d' \<longleftrightarrow> d' = d\<lparr>T_edges := T_edges d'\<rparr> \<and> (\<forall>e \<in> edge_rows d'. e \<in> edge_rows d \<or> Q e)"

lemma grown_put:
  assumes "Q e"
  shows "preserves (grown d) (PutEdge now e)"
  unfolding PutEdge_def
proof (rule preserves_exec)
  fix d1
  assume g: "grown d d1"
  have "edge.truncate (insert_edge now e) = e\<lparr>ObservationCount := 0, LastObserved := 0\<rparr>"
    by (simp add: insert_edge_def edge.defs edge_row.defs)
  then have "Q (edge.truncate (insert_edge now e))" using observation_free [OF assms] by simp
  then show "grown d (d1\<lparr>T_edges := upsert EdgeHash (insert_edge now e) (T_edges d1)\<rparr>)"
    using g unfolding grown_def edge_rows_def by (auto simp: set_upsert) (metis db.surjective db.update_convs(4))
qed

lemma grown_puts: "\<forall>e \<in> set es. Q e \<Longrightarrow> preserves (grown d) (put_edges now es n)"
  by (induction es arbitrary: n) (auto intro!: preserve grown_put)

lemma grown_files: "preserves (grown d) (resolve_files resolve now r frs n)"
  by (induction frs arbitrary: n) (auto intro!: preserve grown_puts dest: resolve_edges split: sum.splits)

lemma run_language_grows: "grown (DB s) (DB (snd (runLanguageResolver init resolve read now repoHash spec s)))"
proof -
  have "preserves (grown (DB s)) (runLanguageResolver init resolve read now repoHash spec)"
    unfolding runLanguageResolver_def queryNodesByExtensions_def FilesByRepo_def NodesByFileHash_def Let_def
    by (auto intro!: preserve grown_files split: sum.splits)
  moreover have "grown (DB s) (DB s)" by (simp add: grown_def)
  ultimately show ?thesis by (simp add: preserves_def)
qed

end

section \<open>The Go resolver provides the interface\<close>

definition unrooted_call :: "sha \<Rightarrow> edge \<Rightarrow> bool" where
  "unrooted_call H e \<longleftrightarrow> (\<exists>f pkgQN. from_package H '''' f pkgQN e)"

lemma ResolveFile_edges:
  assumes "ResolveFile H parse r opts = Inr edges" "e \<in> set edges"
  shows "unrooted_call H e"
proof -
  obtain tqs ctx root' where "e \<in> set (ResolveCallsInFile H tqs ctx root' '''' (Opts_FilePath opts))"
    using assms by (auto simp: ResolveFile_def inferPackageInfo_def postResolvePass_def Let_def bind_res_eq_Inr split: option.splits)
  then show ?thesis unfolding unrooted_call_def using ResolveCallsInFile_edges by blast
qed

lemma unrooted_observation_free: "unrooted_call H e \<Longrightarrow> unrooted_call H (e\<lparr>ObservationCount := 0, LastObserved := 0\<rparr>)"
proof -
  have "VerifyEdgeHash H (e\<lparr>ObservationCount := 0, LastObserved := 0\<rparr>) = VerifyEdgeHash H e"
    by (simp add: VerifyEdgeHash_def Let_def)
  then show "unrooted_call H e \<Longrightarrow> unrooted_call H (e\<lparr>ObservationCount := 0, LastObserved := 0\<rparr>)"
    by (simp add: unrooted_call_def from_package_def call_edge_ok_def)
qed

interpretation go: edge_resolver "ResolveFile H parse" "unrooted_call H" for H parse
  by unfold_locales (auto intro: ResolveFile_edges unrooted_observation_free)

definition go_init :: "ResolverDef list \<Rightarrow> go_error + GoResolver" where
  "go_init defs = Inr (InitWorkspace defs NewGoResolver)"

abbreviation go_spec :: resolverSpec where
  "go_spec \<equiv> hd allResolvers"

lemma unrooted_preimage:
  "u \<noteq> '''' \<Longrightarrow> NUL \<notin> set u \<Longrightarrow> node_preimage '''' p n k \<noteq> node_preimage u p' n' k'"
  by (cases u) (auto simp: node_preimage_def)

section \<open>Properties\<close>

subsection \<open>A file\<close>

definition one_call_tree :: tree where
  "one_call_tree = Tree ''source_file'' True 0 2 0 0
     [('''', Tree ''function_declaration'' True 0 2 0 0
        [(''name'', Tree ''identifier'' True 1 2 0 0 []),
         (''body'', Tree ''block'' True 0 1 0 0
            [('''', Tree ''call_expression'' True 0 1 0 0 [(''function'', Tree ''identifier'' True 0 1 0 0 [])])])])]"

definition sample_ctx :: ResolveContext where
  "sample_ctx = \<lparr>Ctx_Registry = the (registry (InitWorkspace [] NewGoResolver)), Ctx_Scope = NewScope [], Ctx_Imports = [],
     Ctx_PkgQN = ''p'', Ctx_Content = ''fm'', EnclosingFuncQN = ''''\<rparr>"

lemma workspace_ok: "registry_ok (the (registry (InitWorkspace defs r)))"
  using registry_ok_defs [of defs] registry_ok_stdlib [OF registry_ok_new]
  by (cases "BuildRegistry_defs defs") (simp add: InitWorkspace_def BuildRegistry_def registry_ok_SetFallback)

text \<open>
  C36. The evaluator is type safe. In a context whose registry and scope hold well-kinded types (each type carries exactly the
  components of its kind: a name if and only if the kind is a named one, an element for slices and channels, key and value
  for maps, at least two elements for tuples), every expression evaluates to a well-kinded type if it evaluates at all, every
  walk over a syntax tree binds only well-kinded types and leaves all outer levels of the scope alone, and the registry
  of every initialised workspace is such a registry, whatever signature texts it was built from.
\<close>

theorem types_well_kinded:
  assumes "registry_ok (Ctx_Registry ctx)" "scope_ok (Ctx_Scope ctx)"
    "Ctx_Scope (fst (resolveCallsInNode H tqs u f m (ctx, es))) = s"
  shows "wk (EvalExprType ctx n) \<and> scope_ok s \<and> tl s = tl (Ctx_Scope ctx) \<and>
    registry_ok (the (registry (InitWorkspace defs r)))"
proof -
  have ctx: "ctx_ok ctx" using assms by (simp add: ctx_ok_def)
  have "walk_ok H u f (ctx, es) (resolveCallsInNode H tqs u f m (ctx, es))" by (rule walk_resolve)
  then have "scope_ok s" "tl s = tl (Ctx_Scope ctx)"
    using ctx assms(3) by (auto simp: walk_ok_def ctx_ok_def binds_here_def)
  then show ?thesis using EvalExprType_wk [OF ctx] workspace_ok by blast
qed

theorem types_well_kinded_witness:
  "\<exists>s. wk (EvalExprType sample_ctx (Some (Tree ''identifier'' True 0 1 0 0 []))) \<and> scope_ok s \<and> tl s = []"
  using types_well_kinded [of sample_ctx "\<lambda>_. 0" "[]" "''''" "''x.go''" one_call_tree "[]" _ "Some (Tree ''identifier'' True 0 1 0 0 [])"
      "[]" NewGoResolver, OF _ _ refl]
    workspace_ok [of "[]" NewGoResolver]
  by (simp add: sample_ctx_def NewScope_def scope_ok_def) blast

subsection \<open>A repository\<close>

definition sample_file :: source_file where
  "sample_file = \<lparr>FileHash = 5, File_RepoHash = 1, Path = ''p/x.go'', ContentHash = 0\<rparr>"

lemma resolve_eval:
  "resolveCallsInNode H tqs u f n (ctx, es) =
     (case emit_call H tqs u f n (ProcessStatement n ctx, es) of (c1, e1) \<Rightarrow>
       if Node_Type n = ''select_statement'' then resolveSelectStatement (resolveCallsInNode H tqs u f) n (c1, e1)
       else if Node_Type n = ''type_switch_statement'' then resolveTypeSwitchStatement (resolveCallsInNode H tqs u f) n (enter_scope n c1, e1)
       else (case fold (resolveCallsInNode H tqs u f) (named_children n) (enter_scope n c1, e1) of (c, e) \<Rightarrow>
             (if needs_scope n then pop_scope c else c, e)))"
  using resolve_unfold [of H tqs u f n ctx es] by (cases "emit_call H tqs u f n (ProcessStatement n ctx, es)") simp

lemma one_call_edges:
  "Ctx_Content ctx = ''fm'' \<Longrightarrow> \<exists>e. ResolveCallsInFile H tqs ctx one_call_tree u f = [e]"
  by (simp add: ResolveCallsInFile_def one_call_tree_def named_children_def children_def processFuncDecl_def in_function_def
      bind_child_def ChildByFieldName_def push_scope_def resolve_eval emit_call_def ProcessStatement_def enter_scope_def
      initializer_of_def range_clauses_def needs_scope_def pop_scope_def resolveCallExpr_def resolveIdentifierCall_def
      nodeContent_def Content_def slice_def IsBuiltinFunc_def builtinFuncs_def)

definition sample_store :: store where
  "sample_store = open_store (empty_db\<lparr>T_files := [sample_file]\<rparr>) []"

lemma sample_lang_files: "lang_files (\<lambda>_. Some ''fm'') go_spec [sample_file] =
    [\<lparr>FR_Path = ''p/x.go'', FR_FileHash = 5, FR_Content = ''fm'', FR_Language = strings_ToLower ''Go''\<rparr>]"
  by (simp add: lang_files_def allResolvers_def hasExtension_def sample_file_def strings_HasSuffix_def)

lemma sample_run:
  "\<exists>e. ResolveFile H (\<lambda>_. Inr one_call_tree) (InitWorkspace [] NewGoResolver)
       \<lparr>Opts_FilePath = ''p/x.go'', Opts_FileHash = 5, Opts_Content = ''fm'', Opts_ParsedTree = None, Opts_Edges = []\<rparr> = Inr [e]"
proof -
  obtain reg where reg: "registry (InitWorkspace [] NewGoResolver) = Some reg"
    by (cases "BuildRegistry [] None None") (simp add: InitWorkspace_def)
  show ?thesis
    unfolding ResolveFile_def reg
    using one_call_edges by (simp add: extractRoot_def inferPackageInfo_def postResolvePass_def Let_def)
qed

lemma sample_rows:
  "\<exists>e. edge_rows (DB (snd (runLanguageResolver go_init (ResolveFile H (\<lambda>_. Inr one_call_tree)) (\<lambda>_. Some ''fm'') 0 1 go_spec sample_store))) = {e}"
proof -
  obtain e where e: "ResolveFile H (\<lambda>_. Inr one_call_tree) (InitWorkspace [] NewGoResolver)
       \<lparr>Opts_FilePath = ''p/x.go'', Opts_FileHash = 5, Opts_Content = ''fm'', Opts_ParsedTree = None, Opts_Edges = []\<rparr> = Inr [e]"
    using sample_run by blast
  have files: "FilesByRepo 1 sample_store = (Inr [sample_file], sample_store)"
    by (simp add: FilesByRepo_def query_sql_def sql_def sample_store_def open_store_def sample_file_def empty_db_def Let_def)
  have nodes: "queryNodesByExtensions 1 (extensions go_spec) sample_store = (Inr [], sample_store)"
    by (simp add: queryNodesByExtensions_def bind_op_def files or_default_def NodesByFileHash_def query_sql_def sql_def
        nodes_where_def ret_def hasExtension_def allResolvers_def sample_file_def strings_HasSuffix_def)
      (simp add: sample_store_def open_store_def empty_db_def)
  show ?thesis
    by (simp add: runLanguageResolver_def bind_op_def wrap_op_def files nodes sample_lang_files go_init_def nodesToDefs_def
        e or_default_def PutEdge_def exec_sql_def sql_def ret_def)
      (simp add: sample_store_def open_store_def empty_db_def edge_rows_def upsert_def)
qed

text \<open>
  C37. Every row that running the Go resolver over a stored repository adds to the edge table, whatever statements fail
  on the way, is a call edge whose hash verifies, from and to symbols of the repository with the empty URL. Hence if the
  hash of one of its ends is also that of a symbol of a repository with a URL, two different preimages collide.
\<close>

theorem resolver_edges_of_no_repository:
  assumes "runLanguageResolver go_init (ResolveFile H parse) read now repoHash go_spec s = (r, s')"
    "e \<in> edge_rows (DB s')" "e \<notin> edge_rows (DB s)"
  shows "VerifyEdgeHash H e = None \<and> EdgeType e = ''calls'' \<and>
    (\<forall>h \<in> {SourceHash e, TargetHash e}. (\<exists>p n k. h = ComputeNodeHash H '''' p EmptyHash n k) \<and>
      (\<forall>u p' c n' k'. h = ComputeNodeHash H u p' c n' k' \<longrightarrow> u \<noteq> '''' \<longrightarrow> NUL \<notin> set u \<longrightarrow>
        (\<exists>p n k. node_preimage '''' p n k \<noteq> node_preimage u p' n' k' \<and>
           NewHash H (node_preimage '''' p n k) = NewHash H (node_preimage u p' n' k'))))"
proof -
  have "go.grown H (DB s) (DB s')"
    using go.run_language_grows [where s = s and init = go_init and H = H and parse = parse and read = read and now = now
        and repoHash = repoHash and spec = go_spec] assms(1) by simp
  then have "unrooted_call H e" using assms(2,3) unfolding go.grown_def by blast
  then have call: "VerifyEdgeHash H e = None" "EdgeType e = ''calls''"
    and ends: "\<forall>h \<in> {SourceHash e, TargetHash e}. \<exists>p n k. h = ComputeNodeHash H '''' p EmptyHash n k"
    by (auto simp: unrooted_call_def from_package_def call_edge_ok_def)
  have "\<exists>p n k. node_preimage '''' p n k \<noteq> node_preimage u p' n' k' \<and>
      NewHash H (node_preimage '''' p n k) = NewHash H (node_preimage u p' n' k')"
    if "h \<in> {SourceHash e, TargetHash e}" "h = ComputeNodeHash H u p' c n' k'" "u \<noteq> ''''" "NUL \<notin> set u" for h u p' c n' k'
    using that(2) bspec [OF ends that(1)] unrooted_preimage [OF that(3,4)] unfolding ComputeNodeHash_def by metis
  with call ends show ?thesis by blast
qed

theorem resolver_edges_of_no_repository_witness:
  "\<exists>e s'. snd (runLanguageResolver go_init (ResolveFile (\<lambda>_. 0) (\<lambda>_. Inr one_call_tree)) (\<lambda>_. Some ''fm'') 0 1 go_spec
         sample_store) = s' \<and> e \<in> edge_rows (DB s') \<and> e \<notin> edge_rows (DB sample_store) \<and>
     VerifyEdgeHash (\<lambda>_. 0) e = None \<and> EdgeType e = ''calls'' \<and>
     (\<exists>p n k. TargetHash e = ComputeNodeHash (\<lambda>_. 0) '''' p EmptyHash n k)"
proof -
  let ?run = "runLanguageResolver go_init (ResolveFile (\<lambda>_. 0) (\<lambda>_. Inr one_call_tree)) (\<lambda>_. Some ''fm'') 0 1 go_spec sample_store"
  obtain e where e: "edge_rows (DB (snd ?run)) = {e}" using sample_rows by blast
  have none: "edge_rows (DB sample_store) = {}" by (simp add: sample_store_def open_store_def empty_db_def edge_rows_def)
  have run: "?run = (fst ?run, snd ?run)" by simp
  have new: "e \<in> edge_rows (DB (snd ?run))" "e \<notin> edge_rows (DB sample_store)" by (simp_all add: e none)
  from resolver_edges_of_no_repository [OF run new] new show ?thesis by blast
qed

end
