(* ===== verification/GoTypeText.thy ===== *)
theory GoTypeText
  imports GoSignatures
begin

text \<open>
  A printer for Go types and the round trip through \<open>parseTypeText\<close> of registry\_builder.go, with the
  one nesting of type constructors that the reader gets wrong.
\<close>

datatype texpr = TName string | TPtr texpr | TSlice texpr | TMap texpr texpr | TChan ChanDir texpr
  | TFunc "texpr list" | TInterface | TStruct

fun comma_join :: "string list \<Rightarrow> string" where
  "comma_join [] = ''''"
| "comma_join [w] = w"
| "comma_join (w # v # ws) = w @ CHR '','' # comma_join (v # ws)"

definition result_text :: "string list \<Rightarrow> string" where
  "result_text ws =
     (case ws of [] \<Rightarrow> '''' | [w] \<Rightarrow> CHR '' '' # w | w # v # vs \<Rightarrow> '' ('' @ comma_join (w # map (Cons CHR '' '') (v # vs)) @ '')'')"

text \<open>
  The spelling of the Go specification: the element of a channel without direction is parenthesised when it is a
  receive channel, since \<open>chan <-chan T\<close> would be a send channel of channels.
\<close>

fun receive_chan :: "texpr \<Rightarrow> bool" where
  "receive_chan (TChan ChanRecv e) = True"
| "receive_chan _ = False"

fun type_text :: "texpr \<Rightarrow> string" where
  "type_text (TName n) = n"
| "type_text (TPtr e) = ''*'' @ type_text e"
| "type_text (TSlice e) = ''[]'' @ type_text e"
| "type_text (TMap k v) = ''map['' @ type_text k @ '']'' @ type_text v"
| "type_text (TChan d e) = (case d of ChanBidi \<Rightarrow> ''chan '' | ChanSend \<Rightarrow> ''chan<- '' | ChanRecv \<Rightarrow> ''<-chan '') @
     (if d = ChanBidi \<and> receive_chan e then ''('' @ type_text e @ '')'' else type_text e)"
| "type_text (TFunc rs) = ''func()'' @ result_text (map type_text rs)"
| "type_text TInterface = ''interface{}''"
| "type_text TStruct = ''struct{}''"

fun type_of :: "string \<Rightarrow> texpr \<Rightarrow> gtype" where
  "type_of pkg (TName n) =
     (if isBuiltinType n then Builtin n else if CHR ''.'' \<in> set n then Named n else Named (pkg @ ''.'' @ n))"
| "type_of pkg (TPtr e) = Pointer (Some (type_of pkg e))"
| "type_of pkg (TSlice e) = Slice (Some (type_of pkg e))"
| "type_of pkg (TMap k v) = Map_type (Some (type_of pkg k)) (Some (type_of pkg v))"
| "type_of pkg (TChan d e) = Channel (Some (type_of pkg e)) d"
| "type_of pkg (TFunc rs) = Func [] (map (\<lambda>r. Some (type_of pkg r)) rs)"
| "type_of pkg TInterface = zero_type KindInterface"
| "type_of pkg TStruct = zero_type KindStruct"

text \<open>
  Names without brackets, separators and spaces, that do not begin like a function type; and no channel without
  direction has receive channels for elements.
\<close>

definition plain_char :: "char \<Rightarrow> bool" where
  "plain_char c \<longleftrightarrow> \<not> is_space c \<and> c \<notin> set ''*<[](){},''"

definition name_ok :: "string \<Rightarrow> bool" where
  "name_ok n \<longleftrightarrow> n \<noteq> '''' \<and> list_all plain_char n \<and> \<not> strings_HasPrefix n ''func''"

fun names_ok :: "texpr \<Rightarrow> bool" where
  "names_ok (TName n) = name_ok n"
| "names_ok (TPtr e) = names_ok e"
| "names_ok (TSlice e) = names_ok e"
| "names_ok (TMap k v) = (names_ok k \<and> names_ok v)"
| "names_ok (TChan d e) = (names_ok e \<and> \<not> (d = ChanBidi \<and> receive_chan e))"
| "names_ok (TFunc rs) = list_all names_ok rs"
| "names_ok TInterface = True"
| "names_ok TStruct = True"

section \<open>Brackets in a text are balanced\<close>

definition closes :: "char \<Rightarrow> char \<Rightarrow> bool" where
  "closes a b \<longleftrightarrow> (a, b) \<in> {(CHR ''('', CHR '')''), (CHR ''['', CHR '']'')}"

definition neutral :: "string \<Rightarrow> bool" where
  "neutral w \<longleftrightarrow> (\<forall>a b s i d. closes a b \<and> d \<ge> 1 \<longrightarrow> close_loop a b (w @ s) i d = close_loop a b s (i + length w) d)"

lemma neutral_Nil: "neutral ''''"
  by (simp add: neutral_def)

lemma neutral_append: "neutral w \<Longrightarrow> neutral v \<Longrightarrow> neutral (w @ v)"
  unfolding neutral_def by (simp add: add.assoc)

lemma neutral_char: "c \<notin> set ''()[]'' \<Longrightarrow> neutral [c]"
  by (auto simp: neutral_def closes_def)

lemma neutral_Cons: "c \<notin> set ''()[]'' \<Longrightarrow> neutral w \<Longrightarrow> neutral (c # w)"
  using neutral_append [OF neutral_char, of c w] by simp

lemma neutral_bracket: "closes a b \<Longrightarrow> neutral w \<Longrightarrow> neutral (a # w @ [b])"
  unfolding neutral_def by (auto simp: closes_def)

text \<open>The same for the loop over top-level commas, from a depth \<open>k\<close> on.\<close>

definition uncut :: "int \<Rightarrow> string \<Rightarrow> bool" where
  "uncut k w \<longleftrightarrow> (\<forall>s r i start d parts. d \<ge> k \<longrightarrow> comma_loop s (w @ r) i start d parts = comma_loop s r (i + length w) start d parts)"

lemma uncut_Nil: "uncut k ''''"
  by (simp add: uncut_def)

lemma uncut_append: "uncut k w \<Longrightarrow> uncut k v \<Longrightarrow> uncut k (w @ v)"
  unfolding uncut_def by (simp add: add.assoc)

lemma uncut_char: "c \<notin> set ''()[]{},'' \<Longrightarrow> uncut k [c]"
  by (simp add: uncut_def)

lemma uncut_comma: "uncut 1 '',''"
  by (simp add: uncut_def)

lemma uncut_Cons: "c \<notin> set ''()[]{},'' \<Longrightarrow> uncut k w \<Longrightarrow> uncut k (c # w)"
  using uncut_append [OF uncut_char, of c k w] by simp

lemma uncut_weaken: "uncut 0 w \<Longrightarrow> uncut 1 w"
  by (simp add: uncut_def)

lemma uncut_bracket:
  "a \<in> set ''([{'' \<Longrightarrow> b \<in> set '')]}'' \<Longrightarrow> uncut 1 w \<Longrightarrow> uncut 0 (a # w @ [b])"
  unfolding uncut_def by (auto simp: add.assoc)

lemma plain_chars: "list_all plain_char n \<Longrightarrow> neutral n \<and> uncut k n"
proof (induction n)
  case (Cons c n)
  then have "c \<notin> set ''()[]''" "c \<notin> set ''()[]{},''" by (auto simp: plain_char_def)
  then show ?case using Cons by (auto intro: neutral_Cons uncut_Cons)
qed (simp add: neutral_Nil uncut_Nil)

lemma neutral_join: "list_all neutral ws \<Longrightarrow> neutral (comma_join ws)"
  by (induction ws rule: comma_join.induct) (auto intro!: neutral_append neutral_Cons neutral_Nil)

lemma uncut_join: "list_all (uncut 0) ws \<Longrightarrow> uncut 1 (comma_join ws)"
proof (induction ws rule: comma_join.induct)
  case (3 w v ws)
  have "uncut 1 (w @ '','' @ comma_join (v # ws))"
    using 3 by (intro uncut_append uncut_comma) (auto intro: uncut_weaken)
  then show ?case by simp
qed (auto intro: uncut_Nil uncut_weaken)

lemma result_text_balanced:
  assumes "list_all neutral ws" "list_all (uncut 0) ws"
  shows "neutral (result_text ws)" "uncut 0 (result_text ws)"
proof -
  have spaced: "list_all neutral (map (Cons CHR '' '') vs)" "list_all (uncut 0) (map (Cons CHR '' '') vs)"
    if "set vs \<subseteq> set ws" for vs
    using that assms by (auto simp: list_all_iff intro!: neutral_Cons uncut_Cons)
  consider (nil) "ws = []" | (one) w where "ws = [w]" | (many) w v vs where "ws = w # v # vs"
    by (metis neq_Nil_conv)
  then have "neutral (result_text ws) \<and> uncut 0 (result_text ws)"
  proof cases
    case many
    let ?j = "comma_join (w # map (Cons CHR '' '') (v # vs))"
    have j: "neutral ?j" "uncut 1 ?j"
      using spaced [of "v # vs"] assms many by (intro neutral_join uncut_join; auto)+
    have "neutral (CHR ''('' # ?j @ [CHR '')''])" by (rule neutral_bracket [OF _ j(1)]) (simp add: closes_def)
    moreover have "uncut 0 (CHR ''('' # ?j @ [CHR '')''])" by (rule uncut_bracket [OF _ _ j(2)]) simp_all
    ultimately have "neutral (CHR '' '' # CHR ''('' # ?j @ [CHR '')''])" "uncut 0 (CHR '' '' # CHR ''('' # ?j @ [CHR '')''])"
      by (auto intro!: neutral_Cons uncut_Cons)
    then show ?thesis using many by (simp add: result_text_def)
  qed (use assms in \<open>auto simp: result_text_def neutral_Nil uncut_Nil intro!: neutral_Cons uncut_Cons\<close>)
  then show "neutral (result_text ws)" "uncut 0 (result_text ws)" by auto
qed

lemma text_balanced: "names_ok t \<Longrightarrow> neutral (type_text t) \<and> uncut 0 (type_text t)"
proof (induction t)
  case (TName n)
  then show ?case by (simp add: name_ok_def plain_chars)
next
  case (TPtr e)
  then show ?case by (auto intro!: neutral_Cons uncut_Cons)
next
  case (TSlice e)
  have "neutral ''[]''" "uncut 0 ''[]''"
    using neutral_bracket [of "CHR ''[''" "CHR '']''" "''''"] uncut_bracket [of "CHR ''[''" "CHR '']''" "''''"]
    by (simp_all add: closes_def neutral_Nil uncut_Nil)
  then have "neutral (''[]'' @ type_text e) \<and> uncut 0 (''[]'' @ type_text e)"
    using TSlice by (auto intro: neutral_append uncut_append simp del: append_Cons append_Nil)
  then show ?case by simp
next
  case (TMap k v)
  have "neutral (CHR ''['' # type_text k @ '']'')" "uncut 0 (CHR ''['' # type_text k @ '']'')"
    using TMap by (auto intro!: neutral_bracket uncut_bracket uncut_weaken simp: closes_def)
  then have "neutral ((CHR ''['' # type_text k @ '']'') @ type_text v)" "uncut 0 ((CHR ''['' # type_text k @ '']'') @ type_text v)"
    using TMap by (auto intro: neutral_append uncut_append simp del: append_Cons append_assoc)
  then show ?case by (auto intro!: neutral_Cons uncut_Cons)
next
  case (TChan d e)
  then show ?case by (cases d) (auto intro!: neutral_Cons uncut_Cons)
next
  case (TFunc rs)
  have "neutral ''()''" "uncut 0 ''()''"
    using neutral_bracket [of "CHR ''(''" "CHR '')''" "''''"] uncut_bracket [of "CHR ''(''" "CHR '')''" "''''"]
    by (simp_all add: closes_def neutral_Nil uncut_Nil)
  moreover have "neutral (result_text (map type_text rs))" "uncut 0 (result_text (map type_text rs))"
    using TFunc by (auto intro!: result_text_balanced simp: list_all_iff)
  ultimately have "neutral (''()'' @ result_text (map type_text rs))" "uncut 0 (''()'' @ result_text (map type_text rs))"
    by (auto intro: neutral_append uncut_append simp del: append_Cons append_Nil)
  then show ?case by (auto intro!: neutral_Cons uncut_Cons)
next
  case TInterface
  have "uncut 0 ''{}''" using uncut_bracket [of "CHR ''{''" "CHR ''}''" "''''"] by (simp add: uncut_Nil)
  then show ?case by (auto intro!: neutral_Cons uncut_Cons neutral_Nil)
next
  case TStruct
  have "uncut 0 ''{}''" using uncut_bracket [of "CHR ''{''" "CHR ''}''" "''''"] by (simp add: uncut_Nil)
  then show ?case by (auto intro!: neutral_Cons uncut_Cons neutral_Nil)
qed

section \<open>The round trip\<close>

lemma result_text_space: "ws \<noteq> [] \<Longrightarrow> \<exists>r. result_text ws = CHR '' '' # r"
  by (cases ws rule: comma_join.cases) (auto simp: result_text_def)

definition edges_ok :: "string \<Rightarrow> bool" where
  "edges_ok w \<longleftrightarrow> w \<noteq> '''' \<and> \<not> is_space (hd w) \<and> \<not> is_space (last w)"

lemma edges_ok_Cons: "\<not> is_space c \<Longrightarrow> edges_ok w \<Longrightarrow> edges_ok (c # v @ w)"
  by (simp add: edges_ok_def)

lemma edges_ok_ends: "\<not> is_space c \<Longrightarrow> \<not> is_space b \<Longrightarrow> edges_ok (c # v @ [b])"
  by (simp add: edges_ok_def)

lemma result_text_edge:
  assumes "ws \<noteq> []" "\<forall>w \<in> set ws. edges_ok w"
  shows "\<exists>v b. result_text ws = v @ [b] \<and> \<not> is_space b"
proof (cases ws rule: comma_join.cases)
  case (2 w)
  have "result_text ws = (CHR '' '' # butlast w) @ [last w]" using 2 assms by (simp add: result_text_def edges_ok_def)
  then show ?thesis using 2 assms unfolding edges_ok_def by (metis list.set_intros(1))
next
  case (3 w v vs)
  have "result_text ws = ('' ('' @ comma_join (w # map (Cons CHR '' '') (v # vs))) @ [CHR '')'']"
    using 3 by (simp add: result_text_def)
  moreover have "\<not> is_space CHR '')''" by (simp add: is_space_def)
  ultimately show ?thesis by blast
qed (use assms in simp)

lemma edges_not_space: "names_ok t \<Longrightarrow> edges_ok (type_text t)"
proof (induction t)
  case (TName n)
  then have "n \<noteq> ''''" "\<forall>c \<in> set n. \<not> is_space c" by (simp_all add: name_ok_def list_all_iff plain_char_def)
  then show ?case by (simp add: edges_ok_def)
next
  case (TPtr e)
  then show ?case using edges_ok_Cons [of "CHR ''*''" "type_text e" "''''"] by (simp add: is_space_def)
next
  case (TSlice e)
  then show ?case using edges_ok_Cons [of "CHR ''[''" "type_text e" "'']''"] by (simp add: is_space_def)
next
  case (TMap k v)
  then show ?case
    using edges_ok_Cons [of "CHR ''m''" "type_text v" "''ap['' @ type_text k @ '']''"] by (simp add: is_space_def)
next
  case (TChan d e)
  then have e: "edges_ok (type_text e)" by simp
  show ?case
    using edges_ok_Cons [OF _ e, of "CHR ''c''" "''han ''"] edges_ok_Cons [OF _ e, of "CHR ''c''" "''han<- ''"]
      edges_ok_Cons [OF _ e, of "CHR ''<''" "''-chan ''"] TChan.prems
    by (cases d) (simp_all add: is_space_def)
next
  case (TFunc rs)
  show ?case
  proof (cases "rs = []")
    case True
    then show ?thesis by (simp add: edges_ok_def is_space_def result_text_def)
  next
    case False
    have "\<forall>w \<in> set (map type_text rs). edges_ok w" using TFunc by (simp add: list_all_iff)
    then obtain v b where "result_text (map type_text rs) = v @ [b]" "\<not> is_space b"
      using result_text_edge [of "map type_text rs"] False by auto
    then show ?thesis using edges_ok_ends [of "CHR ''f''" b "''unc()'' @ v"] by (simp add: is_space_def)
  qed
qed (simp_all add: edges_ok_def is_space_def)

lemma trim_text: "names_ok t \<Longrightarrow> strings_TrimSpace (type_text t) = type_text t"
  using edges_not_space unfolding edges_ok_def by (intro TrimSpace_id) blast

lemma trim_space_text: "names_ok t \<Longrightarrow> strings_TrimSpace (CHR '' '' # type_text t) = type_text t"
  using trim_text [of t] by (simp add: strings_TrimSpace_def is_space_def)

lemma text_no_paren: "names_ok t \<Longrightarrow> hd (type_text t) \<noteq> CHR ''(''"
proof (cases t)
  case (TName n)
  assume "names_ok t"
  then have "n \<noteq> ''''" "\<forall>c \<in> set n. c \<noteq> CHR ''(''" using TName by (simp_all add: name_ok_def list_all_iff plain_char_def)
  then show ?thesis using TName by simp
next
  case (TChan d e)
  then show ?thesis by (cases d) simp_all
qed simp_all

lemma not_paren_prefix: "w \<noteq> '''' \<Longrightarrow> hd w \<noteq> CHR ''('' \<Longrightarrow> \<not> strings_HasPrefix w ''(''"
  by (cases w) (auto simp: strings_HasPrefix_def)

lemma comma_texts:
  "list_all (uncut 0) ws \<Longrightarrow> ws \<noteq> [] \<Longrightarrow>
     comma_loop (pre @ comma_join ws) (comma_join ws) (length pre) (length pre) 0 parts = parts @ ws"
proof (induction ws arbitrary: pre parts rule: comma_join.induct)
  case (2 w)
  then have "comma_loop (pre @ w) (w @ '''') (length pre) (length pre) 0 parts = parts @ [w]"
    unfolding uncut_def by (simp del: append_Nil2)
  then show ?case by simp
next
  case (3 w v ws)
  let ?r = "comma_join (v # ws)" and ?s = "pre @ w @ CHR '','' # comma_join (v # ws)"
  have "comma_loop ?s (w @ CHR '','' # ?r) (length pre) (length pre) 0 parts =
      comma_loop ?s (CHR '','' # ?r) (length pre + length w) (length pre) 0 parts"
    using 3 unfolding uncut_def by simp
  also have "\<dots> = comma_loop ?s ?r (Suc (length pre + length w)) (Suc (length pre + length w)) 0 (parts @ [w])"
    by (simp add: slice_def)
  also have "\<dots> = parts @ w # v # ws"
    using "3.IH" [of "pre @ w @ '',''" "parts @ [w]"] "3.prems" by simp
  finally show ?case by simp
qed simp

lemma split_parens: "neutral w \<Longrightarrow> splitParenthesized (CHR ''('' # w @ CHR '')'' # r) = (w, r)"
proof -
  assume "neutral w"
  then have "close_loop CHR ''('' CHR '')'' (w @ CHR '')'' # r) (Suc 0) 1 = Some (Suc (length w))"
    unfolding neutral_def closes_def by simp
  then show ?thesis by (simp add: splitParenthesized_def slice_def)
qed

lemma signature_rest_func:
  assumes "strings_TrimSpace (''func()'' @ r) = ''func()'' @ r"
  shows "signature_rest (''func()'' @ r) = strings_TrimSpace r"
  unfolding signature_rest_def assms using split_parens [of "''''" r]
  by (simp add: neutral_Nil strings_HasPrefix_def Let_def)

lemma return_texts_func:
  assumes "list_all names_ok rs"
  shows "return_texts (type_text (TFunc rs)) = map type_text rs"
proof -
  have rest: "signature_rest (type_text (TFunc rs)) = strings_TrimSpace (result_text (map type_text rs))"
    using signature_rest_func [of "result_text (map type_text rs)"] trim_text [of "TFunc rs"] assms by simp
  consider (nil) "rs = []" | (one) r where "rs = [r]" | (many) r q qs where "rs = r # q # qs"
    by (metis neq_Nil_conv)
  then show ?thesis
  proof cases
    case nil
    then show ?thesis using rest by (simp add: return_texts_def result_text_def strings_TrimSpace_def)
  next
    case one
    then show ?thesis
      using rest assms edges_not_space [of r] not_paren_prefix [OF _ text_no_paren [of r]]
      by (simp add: return_texts_def result_text_def trim_space_text edges_ok_def Let_def)
  next
    case many
    let ?ws = "type_text r # map (Cons CHR '' '') (map type_text (q # qs))"
    have un: "list_all (uncut 0) ?ws" "list_all neutral ?ws"
      using assms many text_balanced by (auto simp: list_all_iff intro!: uncut_Cons neutral_Cons)
    have body: "strings_TrimSpace (result_text (map type_text rs)) = CHR ''('' # comma_join ?ws @ '')''"
      using many by (simp add: result_text_def strings_TrimSpace_def is_space_def)
    have "splitTopLevelComma (comma_join ?ws) = ?ws"
      using comma_texts [OF un(1), of "''''" "[]"] by (simp add: splitTopLevelComma_def)
    moreover have "filter (\<lambda>p. p \<noteq> '''') (map strings_TrimSpace ?ws) = map type_text rs"
    proof -
      have "map strings_TrimSpace ?ws = map type_text rs"
        using assms many by (auto simp: trim_text trim_space_text list_all_iff)
      moreover have "\<forall>w \<in> set (map type_text rs). w \<noteq> ''''"
        using assms edges_not_space unfolding edges_ok_def by (auto simp: list_all_iff)
      ultimately show ?thesis by (simp add: filter_id_conv)
    qed
    ultimately show ?thesis
      unfolding return_texts_def rest body using split_parens [OF neutral_join [OF un(2)], of "''''"]
      by (simp only: Let_def) (simp add: strings_HasPrefix_def)
  qed
qed

lemma map_key:
  assumes "neutral k" "k \<noteq> ''''"
  shows "map_key_end (''map['' @ k @ CHR '']'' # v) = Some (4 + length k)"
  using assms unfolding map_key_end_def neutral_def closes_def by simp

lemma Contains_char: "strings_Contains n [c] \<longleftrightarrow> c \<in> set n"
  by (induction n) (auto simp: strings_Contains_def)

lemma parse_pointer:
  "names_ok e \<Longrightarrow> parseTypeText (''*'' @ type_text e) pkg = Pointer (Some (parseTypeText (type_text e) pkg))"
  using trim_text [of "TPtr e"] parseTypeText.simps [of "''*'' @ type_text e" pkg]
  by (simp add: Let_def strings_HasPrefix_def)

lemma parse_slice:
  "names_ok e \<Longrightarrow> parseTypeText (''[]'' @ type_text e) pkg = Slice (Some (parseTypeText (type_text e) pkg))"
  using trim_text [of "TSlice e"] parseTypeText.simps [of "''[]'' @ type_text e" pkg]
  by (simp add: Let_def strings_HasPrefix_def)

lemma parse_space: "names_ok e \<Longrightarrow> parseTypeText (CHR '' '' # type_text e) pkg = parseTypeText (type_text e) pkg"
  using parseTypeText.simps [of "CHR '' '' # type_text e" pkg] parseTypeText.simps [of "type_text e" pkg]
    trim_text [of e] trim_space_text [of e] by simp

lemma parse_chan:
  assumes "names_ok (TChan d e)"
  shows "parseTypeText (type_text (TChan d e)) pkg = Channel (Some (parseTypeText (type_text e) pkg)) d"
proof -
  have trims: "strings_TrimSpace (type_text (TChan d e)) = type_text (TChan d e)"
    using assms by (rule trim_text)
  show ?thesis
    using trims parseTypeText.simps [of "type_text (TChan d e)" pkg] parse_space [of e pkg] assms
    by (cases d) (simp_all add: Let_def strings_HasPrefix_def)
qed

lemma plain_prefix: "list_all plain_char n \<Longrightarrow> strings_HasPrefix n p \<Longrightarrow> list_all plain_char p"
  by (auto simp: strings_HasPrefix_def prefix_def)

lemma parse_name:
  assumes "name_ok n" "pkg \<noteq> ''''"
  shows "parseTypeText n pkg = type_of pkg (TName n)"
proof -
  have plain: "list_all plain_char n" "n \<noteq> ''''" "\<not> strings_HasPrefix n ''func''" using assms by (simp_all add: name_ok_def)
  have no: "\<not> strings_HasPrefix n p" if "\<not> list_all plain_char p" for p
    using plain_prefix [OF plain(1)] that by blast
  have eqs: "n \<noteq> ''interface{}''" "n \<noteq> ''struct{}''" using plain(1) by (auto simp: plain_char_def)
  have dot: "strings_Contains n ''.'' \<longleftrightarrow> CHR ''.'' \<in> set n" by (rule Contains_char)
  show ?thesis
    using trim_text [of "TName n"] assms
    by (subst parseTypeText.simps) (simp add: Let_def plain no eqs dot plain_char_def is_space_def)
qed

lemma parse_func:
  assumes "list_all names_ok rs" "\<And>r. r \<in> set rs \<Longrightarrow> parseTypeText (type_text r) pkg = type_of pkg r"
  shows "parseTypeText (type_text (TFunc rs)) pkg = type_of pkg (TFunc rs)"
proof -
  have "parseTypeText (type_text (TFunc rs)) pkg =
      Func [] (map (\<lambda>part. Some (parseTypeText part pkg)) (return_texts (type_text (TFunc rs))))"
    using trim_text [of "TFunc rs"] assms(1)
    by (subst parseTypeText.simps) (simp add: Let_def strings_HasPrefix_def)
  also have "\<dots> = type_of pkg (TFunc rs)"
    using assms(2) unfolding return_texts_func [OF assms(1)] by (simp add: comp_def cong: map_cong)
  finally show ?thesis .
qed

lemma parse_map:
  assumes "names_ok (TMap k v)" "parseTypeText (type_text k) pkg = type_of pkg k" "parseTypeText (type_text v) pkg = type_of pkg v"
  shows "parseTypeText (type_text (TMap k v)) pkg = type_of pkg (TMap k v)"
proof -
  have k: "neutral (type_text k)" "type_text k \<noteq> ''''"
    using assms text_balanced [of k] edges_not_space [of k] by (simp_all add: edges_ok_def)
  have "map_key_end (type_text (TMap k v)) = Some (4 + length (type_text k))"
    using map_key [OF k, of "type_text v"] by simp
  moreover have "slice (type_text (TMap k v)) 4 (4 + length (type_text k)) = type_text k"
    "drop (4 + length (type_text k) + 1) (type_text (TMap k v)) = type_text v"
    by (simp_all add: slice_def drop_Cons')
  moreover have "\<not> strings_HasPrefix (type_text (TMap k v)) ''*''" "\<not> strings_HasPrefix (type_text (TMap k v)) ''[]''"
    "strings_HasPrefix (type_text (TMap k v)) ''map[''" "type_text (TMap k v) \<noteq> ''''"
    by (simp_all add: strings_HasPrefix_def)
  ultimately show ?thesis
    using k(2) assms(2,3) unfolding parseTypeText.simps [of "type_text (TMap k v)"] trim_text [OF assms(1)]
    by (simp only: Let_def) (simp del: type_text.simps)
qed

lemma parse_chan_of_receive:
  assumes "pkg \<noteq> ''''"
  shows "\<exists>n. parseTypeText (type_text (TChan ChanBidi (TChan ChanRecv e))) pkg = Channel (Some (Named n)) ChanBidi"
proof -
  let ?elem = "''(<-chan '' @ type_text e @ '')''"
  have chan: "strings_TrimSpace (''chan '' @ ?elem) = ''chan '' @ ?elem"
    and elem: "strings_TrimSpace ?elem = ?elem"
    by (intro TrimSpace_id, simp add: is_space_def)+
  have "\<exists>n. parseTypeText ?elem pkg = Named n"
    unfolding parseTypeText.simps [of ?elem pkg] elem using assms
    by (simp add: Let_def strings_HasPrefix_def isBuiltinType_def goBuiltinTypes_def) blast
  then obtain n where "parseTypeText ?elem pkg = Named n" by blast
  then show ?thesis
    using parseTypeText.simps [of "''chan '' @ ?elem" pkg] chan
    by (intro exI [of _ n]) (simp add: Let_def strings_HasPrefix_def)
qed

text \<open>Array types have no case of their own: they are read as named types.\<close>

lemma parse_array: "parseTypeText ''[4]byte'' ''p'' = Named ''p.[4]byte''"
  by (subst parseTypeText.simps)
    (simp add: Let_def strings_TrimSpace_def is_space_def strings_HasPrefix_def isBuiltinType_def goBuiltinTypes_def
      Contains_char)

text \<open>
  C38. The type reader of the registry inverts the printer of Go types: for every type built from names, pointers,
  slices, maps, channels in any direction, functions with any number of results, \<open>interface{}\<close> and
  \<open>struct{}\<close>, nested to any depth, \<open>parseTypeText\<close> of its Go spelling is its type, the names qualified
  by the package they are read in. The names have no brackets, separators or spaces. Left out are names that begin
  with \<open>func\<close> and channels without direction of receive channels; of the latter, \<open>chan (<-chan T)\<close> in
  Go, the theorem also shows that they are always read wrongly, as channels of some named type (both are findings, and
  so are arrays, which the reader does not know).
\<close>

theorem parseTypeText_roundtrip:
  assumes "names_ok t" "pkg \<noteq> ''''"
  shows "parseTypeText (type_text t) pkg = type_of pkg t \<and>
    (\<forall>e. \<exists>n. parseTypeText (type_text (TChan ChanBidi (TChan ChanRecv e))) pkg = Channel (Some (Named n)) ChanBidi)"
proof (intro conjI allI)
  show "\<exists>n. parseTypeText (type_text (TChan ChanBidi (TChan ChanRecv e))) pkg = Channel (Some (Named n)) ChanBidi" for e
    by (rule parse_chan_of_receive) (rule assms(2))
  show "parseTypeText (type_text t) pkg = type_of pkg t"
    using assms(1)
  proof (induction t)
    case (TName n)
    then show ?case using parse_name assms(2) by simp
  next
    case (TPtr e)
    then show ?case using parse_pointer [of e pkg] by simp
  next
    case (TSlice e)
    then show ?case using parse_slice [of e pkg] by simp
  next
    case (TMap k v)
    then show ?case by (intro parse_map) simp_all
  next
    case (TChan d e)
    then show ?case using parse_chan [of d e pkg] by simp
  next
    case (TFunc rs)
    then show ?case by (intro parse_func) (simp_all add: list_all_iff)
  next
    case TInterface
    show ?case using trim_text [of TInterface] parseTypeText.simps [of "''interface{}''" pkg]
      by (simp add: Let_def strings_HasPrefix_def)
  next
    case TStruct
    show ?case using trim_text [of TStruct] parseTypeText.simps [of "''struct{}''" pkg]
      by (simp add: Let_def strings_HasPrefix_def)
  qed
qed

text \<open>The spellings of the Go specification for nested channels.\<close>

lemma channel_spellings:
  "type_text (TChan ChanSend (TChan ChanBidi (TName ''int''))) = ''chan<- chan int''"
  "type_text (TChan ChanSend (TChan ChanRecv (TName ''int''))) = ''chan<- <-chan int''"
  "type_text (TChan ChanRecv (TChan ChanRecv (TName ''int''))) = ''<-chan <-chan int''"
  "type_text (TChan ChanBidi (TChan ChanRecv (TName ''int''))) = ''chan (<-chan int)''"
  by simp_all

theorem parseTypeText_roundtrip_witness:
  "parseTypeText ''map[string]func() ([]*Hash, chan<- <-chan error)'' ''types'' =
     Map_type (Some (Builtin ''string''))
       (Some (Func [] [Some (Slice (Some (Pointer (Some (Named ''types.Hash''))))),
          Some (Channel (Some (Channel (Some (Builtin ''error'')) ChanRecv)) ChanSend)])) \<and>
   (\<exists>n. parseTypeText ''chan (<-chan int)'' ''types'' = Channel (Some (Named n)) ChanBidi)"
proof -
  note all = parseTypeText_roundtrip
    [of "TMap (TName ''string'') (TFunc [TSlice (TPtr (TName ''Hash'')), TChan ChanSend (TChan ChanRecv (TName ''error''))])" "''types''"]
  show ?thesis
    using all all [THEN conjunct2, THEN spec [of _ "TName ''int''"]]
    by (simp add: name_ok_def plain_char_def is_space_def strings_HasPrefix_def result_text_def isBuiltinType_def
        goBuiltinTypes_def)
qed

end
