(* ===== verification/LineScanner.thy ===== *)
theory LineScanner
  imports FtsText
begin

text \<open>
  What the program uses of \<open>bufio.Scanner\<close> with its default split into lines and its limit of 64 KiB for a token: the
  lines before the first one that is too long, without a carriage return at the end, and whether the scan ended in
  \<open>ErrTooLong\<close>.
\<close>

definition MaxScanTokenSize :: nat where "MaxScanTokenSize = 64 * 1024"

definition drop_cr :: "string \<Rightarrow> string" where
  "drop_cr s = (if s \<noteq> '''' \<and> last s = CHR 0x0D then butlast s else s)"

fun scan_tokens :: "string list \<Rightarrow> string list \<times> bool" where
  "scan_tokens [] = ([], False)"
| "scan_tokens (l # ls) =
     (if length l \<ge> MaxScanTokenSize then ([], True)
      else (let (ts, too_long) = scan_tokens ls in (drop_cr l # ts, too_long)))"

definition scan_lines :: "string \<Rightarrow> string list \<times> bool" where
  "scan_lines s =
     (let ls = split_on CHR 0x0A s in scan_tokens (if last ls = '''' then butlast ls else ls))"

definition strings_TrimPrefix :: "string \<Rightarrow> string \<Rightarrow> string" where
  "strings_TrimPrefix s p = (if strings_HasPrefix s p then drop (length p) s else s)"

definition strings_TrimSuffix :: "string \<Rightarrow> string \<Rightarrow> string" where
  "strings_TrimSuffix s p = (if strings_HasSuffix s p then take (length s - length p) s else s)"

lemma scan_tokens_short:
  "list_all (\<lambda>l. length l < MaxScanTokenSize) ls \<Longrightarrow> scan_tokens ls = (map drop_cr ls, False)"
  by (induction ls) auto

lemma scan_tokens_length: "l \<in> set (fst (scan_tokens ls)) \<Longrightarrow> length l < MaxScanTokenSize"
  by (induction ls) (auto simp: drop_cr_def split: prod.splits if_splits)

end
