(* ===== verification/Ownership.thy ===== *)
theory Ownership
  imports LineScanner GraphTypes Isolation
begin

text \<open>
  internal/indexer/ownership/ownership.go: CODEOWNERS files, their glob patterns and the \<open>owned_by\<close> edges.
  \<open>filepath.Match\<close> of the standard library is modelled on patterns of single-byte characters.
\<close>

section \<open>filepath.Match\<close>

datatype glob_item = Star | AnyChar | OneOf bool "(char \<times> char) list" | Literal char

definition char_le :: "char \<Rightarrow> char \<Rightarrow> bool" where
  "char_le a b \<longleftrightarrow> (of_char a :: nat) \<le> of_char b"

definition in_class :: "bool \<Rightarrow> (char \<times> char) list \<Rightarrow> char \<Rightarrow> bool" where
  "in_class negated ranges c = (list_ex (\<lambda>(lo, hi). char_le lo c \<and> char_le c hi) ranges \<noteq> negated)"

text \<open>\<open>getEsc\<close>: a possibly escaped character of a class; \<open>None\<close> is \<open>ErrBadPattern\<close>.\<close>

fun getEsc :: "string \<Rightarrow> (char \<times> string) option" where
  "getEsc [] = None"
| "getEsc (c # cs) =
     (if c = CHR ''-'' \<or> c = CHR '']'' then None
      else if c = CHR 0x5C then
        (case cs of d # ds \<Rightarrow> if ds = [] then None else Some (d, ds) | [] \<Rightarrow> None)
      else if cs = [] then None
      else Some (c, cs))"

lemma getEsc_shorter: "getEsc s = Some (c, r) \<Longrightarrow> length r < length s"
  by (cases s) (auto split: if_splits list.splits)

function class_ranges :: "string \<Rightarrow> (char \<times> char) list \<Rightarrow> ((char \<times> char) list \<times> string) option" where
  "class_ranges s ranges =
     (if s \<noteq> [] \<and> hd s = CHR '']'' \<and> ranges \<noteq> [] then Some (ranges, tl s)
      else
        (case getEsc s of
           None \<Rightarrow> None
         | Some (lo, r) \<Rightarrow>
             if hd r = CHR ''-'' then
               (case getEsc (tl r) of None \<Rightarrow> None | Some (hi, r') \<Rightarrow> class_ranges r' (ranges @ [(lo, hi)]))
             else class_ranges r (ranges @ [(lo, lo)])))"
  by pat_completeness auto

lemma getEsc_tl_shorter: "getEsc (tl r) = Some (c, r') \<Longrightarrow> length r' < length r"
  by (cases r) (auto dest: getEsc_shorter)

termination class_ranges
  by (relation "measure (\<lambda>(s, ranges). length s)") (auto dest!: getEsc_shorter getEsc_tl_shorter)

declare class_ranges.simps [simp del]

lemma class_ranges_shorter: "class_ranges s ranges = Some (rs, r) \<Longrightarrow> length r < length s"
proof (induction s ranges rule: class_ranges.induct)
  case (1 s ranges)
  show ?case
  proof (cases "s \<noteq> [] \<and> hd s = CHR '']'' \<and> ranges \<noteq> []")
    case True
    then show ?thesis using "1.prems" by (subst (asm) class_ranges.simps) auto
  next
    case False
    then obtain lo r1 where lo: "getEsc s = Some (lo, r1)"
      using "1.prems" by (subst (asm) class_ranges.simps) (auto split: option.splits)
    show ?thesis
    proof (cases "hd r1 = CHR ''-''")
      case True
      then obtain hi r2 where hi: "getEsc (tl r1) = Some (hi, r2)" "class_ranges r2 (ranges @ [(lo, hi)]) = Some (rs, r)"
        using "1.prems" False lo by (subst (asm) class_ranges.simps) (auto split: option.splits)
      then show ?thesis
        using "1.IH"(1) [OF False lo refl True hi(1) refl hi(2)] getEsc_shorter [OF lo] getEsc_tl_shorter [OF hi(1)] by simp
    next
      case dash: False
      then have "class_ranges r1 (ranges @ [(lo, lo)]) = Some (rs, r)"
        using "1.prems" False lo by (subst (asm) class_ranges.simps) (auto split: option.splits)
      then show ?thesis using "1.IH"(2) [OF False lo refl dash] getEsc_shorter [OF lo] by simp
    qed
  qed
qed

function parse_glob :: "string \<Rightarrow> glob_item list option" where
  "parse_glob [] = Some []"
| "parse_glob (c # cs) =
     (if c = CHR ''*'' then map_option (Cons Star) (parse_glob cs)
      else if c = CHR ''?'' then map_option (Cons AnyChar) (parse_glob cs)
      else if c = CHR ''['' then
        (let negated = (cs \<noteq> [] \<and> hd cs = CHR ''^''); body = (if negated then tl cs else cs) in
         case class_ranges body [] of
           None \<Rightarrow> None
         | Some (ranges, r) \<Rightarrow> map_option (Cons (OneOf negated ranges)) (parse_glob r))
      else if c = CHR 0x5C then
        (case cs of [] \<Rightarrow> None | d # ds \<Rightarrow> map_option (Cons (Literal d)) (parse_glob ds))
      else map_option (Cons (Literal c)) (parse_glob cs))"
  by pat_completeness auto
termination parse_glob
  by (relation "measure length") (auto dest!: class_ranges_shorter split: if_splits)

text \<open>A star does not cross a separator; a class may match one.\<close>

fun glob_matches :: "glob_item list \<Rightarrow> string \<Rightarrow> bool" where
  "glob_matches [] s = (s = [])"
| "glob_matches (Star # ps) [] = glob_matches ps []"
| "glob_matches (Star # ps) (c # s) = (glob_matches ps (c # s) \<or> c \<noteq> CHR ''/'' \<and> glob_matches (Star # ps) s)"
| "glob_matches (AnyChar # ps) (c # s) = (c \<noteq> CHR ''/'' \<and> glob_matches ps s)"
| "glob_matches (OneOf n rs # ps) (c # s) = (in_class n rs c \<and> glob_matches ps s)"
| "glob_matches (Literal d # ps) (c # s) = (c = d \<and> glob_matches ps s)"
| "glob_matches (p # ps) [] = False"

text \<open>The program drops the error of a malformed pattern, which never comes with a match.\<close>

definition filepath_Match :: "string \<Rightarrow> string \<Rightarrow> bool" where
  "filepath_Match pattern name = (case parse_glob pattern of None \<Rightarrow> False | Some items \<Rightarrow> glob_matches items name)"

section \<open>Rules\<close>

record Rule =
  Pattern :: string
  Owners :: "string list"

definition parse_rule :: "string \<Rightarrow> Rule list" where
  "parse_rule text =
     (let line = strings_TrimSpace text in
      if line = '''' \<or> strings_HasPrefix line ''#'' then []
      else (case strings_FieldsFunc line is_space of
              pat # owner # owners \<Rightarrow> [\<lparr>Pattern = pat, Owners = owner # owners\<rparr>]
            | _ \<Rightarrow> []))"

text \<open>The file is given by its content, \<open>None\<close> when it cannot be opened.\<close>

definition ParseCodeowners :: "bytes option \<Rightarrow> Rule list option" where
  "ParseCodeowners content =
     (case content of
        None \<Rightarrow> None
      | Some c \<Rightarrow> (case scan_lines c of (ls, too_long) \<Rightarrow> if too_long then None else Some (concat (map parse_rule ls))))"

definition FindCodeowners :: "(string \<Rightarrow> bool) \<Rightarrow> string" where
  "FindCodeowners found =
     (case List.find found [''CODEOWNERS'', ''.github/CODEOWNERS'', ''docs/CODEOWNERS''] of Some p \<Rightarrow> p | None \<Rightarrow> '''')"

definition sub_paths :: "string \<Rightarrow> string list" where
  "sub_paths filePath =
     (let segments = split_on CHR ''/'' filePath in map (\<lambda>i. strings_Join (drop i segments) ''/'') [0..<length segments])"

definition match_path :: "string \<Rightarrow> string \<Rightarrow> bool" where
  "match_path pattern filePath =
     (if strings_HasPrefix pattern ''/'' then filepath_Match (strings_TrimPrefix pattern ''/'') filePath
      else if \<not> strings_Contains pattern ''/'' then filepath_Match pattern (filepath_Base filePath)
      else if filepath_Match pattern filePath then True
      else list_ex (filepath_Match pattern) (sub_paths filePath))"

definition matchPattern :: "string \<Rightarrow> string \<Rightarrow> bool" where
  "matchPattern pattern filePath =
     (if strings_HasSuffix pattern ''/'' then
        (let dir = strings_TrimPrefix (strings_TrimSuffix pattern ''/'') ''/'' in
         strings_HasPrefix filePath (dir @ ''/'') \<or> filePath = dir)
      else if strings_Contains pattern ''**'' then
        (let p = strings_TrimPrefix pattern ''/'' in
         case strings_Index p ''**/'' of
           Some i \<Rightarrow>
             (let pre = take i p; suf = drop (i + 3) p in
              if pre \<noteq> '''' \<and> \<not> strings_HasPrefix filePath pre then False
              else list_ex (filepath_Match suf) (sub_paths filePath))
         | None \<Rightarrow> match_path pattern filePath)
      else match_path pattern filePath)"

section \<open>Edges\<close>

text \<open>The last matching rule wins.\<close>

definition matched_rule :: "Rule list \<Rightarrow> string \<Rightarrow> Rule option" where
  "matched_rule rules path = fold (\<lambda>r m. if matchPattern (Pattern r) path then Some r else m) rules None"

type_synonym owner_state = "(string, hash) gomap \<times> node list \<times> edge list"

definition owner_kind :: "string \<Rightarrow> string" where
  "owner_kind owner = (if strings_Contains owner ''/'' then ''team'' else ''user'')"

definition owner_node :: "string \<Rightarrow> hash \<Rightarrow> string \<Rightarrow> string \<Rightarrow> node" where
  "owner_node repoURL h ownerName kind =
     \<lparr>NodeHash = h, Node_FileHash = EmptyHash, QualifiedName = repoURL @ ''://owners/'' @ ownerName, Kind = kind,
      Line = 0, Signature = '''', Doc = '''', LastAuthor = '''', LastCommitAt = 0, CoveragePct = 0\<rparr>"

definition static_edge :: "sha \<Rightarrow> hash \<Rightarrow> hash \<Rightarrow> string \<Rightarrow> float64 \<Rightarrow> string \<Rightarrow> edge" where
  "static_edge H source target edgeType confidence provenance =
     \<lparr>EdgeHash = ComputeEdgeHash H source target edgeType provenance, SourceHash = source, TargetHash = target,
      EdgeType = edgeType, Confidence = confidence, Provenance = provenance,
      CallSiteLine = 0, CallSiteCol = 0, CallSiteFile = '''', ObservationCount = 0, LastObserved = 0\<rparr>"

definition add_owner :: "sha \<Rightarrow> string \<Rightarrow> source_file \<Rightarrow> string \<Rightarrow> owner_state \<Rightarrow> owner_state" where
  "add_owner H repoURL f owner st =
     (let (seenOwners, nodes, edges) = st;
          kind = owner_kind owner;
          ownerName = strings_TrimPrefix owner ''@'';
          computed = ComputeNodeHash H repoURL ''owners'' EmptyHash ownerName kind;
          ownerHash = (case map_of seenOwners ownerName of Some h \<Rightarrow> h | None \<Rightarrow> computed);
          fresh = (map_of seenOwners ownerName = None) in
      (if fresh then gomap_set ownerName ownerHash seenOwners else seenOwners,
       if fresh then nodes @ [owner_node repoURL ownerHash ownerName kind] else nodes,
       edges @ [static_edge H (FileHash f) ownerHash ''owned_by'' 1 ''codeowners'']))"

definition add_file_owners :: "sha \<Rightarrow> string \<Rightarrow> Rule list \<Rightarrow> source_file \<Rightarrow> owner_state \<Rightarrow> owner_state" where
  "add_file_owners H repoURL rules f st =
     (case matched_rule rules (Path f) of None \<Rightarrow> st | Some r \<Rightarrow> fold (add_owner H repoURL f) (Owners r) st)"

definition ExtractOwnership :: "sha \<Rightarrow> string \<Rightarrow> source_file list \<Rightarrow> Rule list \<Rightarrow> node list \<times> edge list" where
  "ExtractOwnership H repoURL files rules =
     (if rules = [] \<or> files = [] then ([], [])
      else snd (fold (add_file_owners H repoURL rules) files ([], [], [])))"

section \<open>What is extracted\<close>

lemma matched_rule_last:
  "matched_rule rules path =
     (case filter (\<lambda>r. matchPattern (Pattern r) path) rules of [] \<Rightarrow> None | r # rs \<Rightarrow> Some (last (r # rs)))"
proof (induction rules rule: rev_induct)
  case (snoc r rules)
  then show ?case by (auto simp: matched_rule_def split: list.splits)
qed (simp add: matched_rule_def)

definition owner_name :: "string \<Rightarrow> string" where
  "owner_name owner = strings_TrimPrefix owner ''@''"

definition owner_hash :: "sha \<Rightarrow> string \<Rightarrow> string \<Rightarrow> hash" where
  "owner_hash H repoURL name = ComputeNodeHash H repoURL ''owners'' EmptyHash name (owner_kind name)"

lemma Index_Cons_other: "c \<noteq> d \<Longrightarrow> strings_Contains (c # s) [d] = strings_Contains s [d]"
  by (auto simp: strings_Contains_def)

lemma owner_kind_name: "owner_kind owner = owner_kind (owner_name owner)"
  by (cases owner) (auto simp: owner_kind_def owner_name_def strings_TrimPrefix_def strings_HasPrefix_def Index_Cons_other)

text \<open>The owners seen so far, their nodes and the edges agree.\<close>

definition owners_ok :: "sha \<Rightarrow> string \<Rightarrow> owner_state \<Rightarrow> bool" where
  "owners_ok H u st \<longleftrightarrow>
     (case st of (seen, nodes, edges) \<Rightarrow>
       gomap_ok seen \<and> (\<forall>(n, h) \<in> set seen. h = owner_hash H u n) \<and>
       nodes = map (\<lambda>(n, h). owner_node u h n (owner_kind n)) seen)"

definition owned_by :: "sha \<Rightarrow> string \<Rightarrow> source_file \<Rightarrow> string \<Rightarrow> edge" where
  "owned_by H u f owner = static_edge H (FileHash f) (owner_hash H u (owner_name owner)) ''owned_by'' 1 ''codeowners''"

lemma gomap_set_fresh: "map_of m k = None \<Longrightarrow> gomap_set k v m = m @ [(k, v)]"
  by (induction k v m rule: gomap_set.induct) (auto split: if_splits)

lemma add_owner_step:
  assumes "owners_ok H u st"
  shows "owners_ok H u (add_owner H u f owner st) \<and>
    snd (snd (add_owner H u f owner st)) = snd (snd st) @ [owned_by H u f owner] \<and>
    owner_name owner \<in> fst ` set (fst (add_owner H u f owner st)) \<and> set (fst st) \<subseteq> set (fst (add_owner H u f owner st))"
proof -
  obtain seen nodes edges where st: "st = (seen, nodes, edges)" by (metis prod_cases3)
  let ?n = "owner_name owner"
  have hash: "ComputeNodeHash H u ''owners'' EmptyHash (strings_TrimPrefix owner ''@'') (owner_kind owner) = owner_hash H u ?n"
    using owner_kind_name [of owner] by (simp add: owner_hash_def owner_name_def)
  show ?thesis
  proof (cases "map_of seen ?n")
    case None
    then have "?n \<notin> fst ` set seen" by (simp add: map_of_eq_None_iff)
    then show ?thesis
      using assms None unfolding st owners_ok_def
      by (auto simp: add_owner_def Let_def hash owned_by_def gomap_set_fresh owner_kind_name [of owner] owner_hash_def simp flip: owner_name_def)
  next
    case (Some h)
    then have "h = owner_hash H u ?n" using assms map_of_SomeD unfolding st owners_ok_def by fastforce
    then show ?thesis
      using assms Some map_of_SomeD [OF Some] unfolding st owners_ok_def
      by (force simp: add_owner_def Let_def owned_by_def simp flip: owner_name_def)
  qed
qed

lemma add_owners:
  assumes "owners_ok H u st"
  shows "owners_ok H u (fold (add_owner H u f) os st) \<and>
    snd (snd (fold (add_owner H u f) os st)) = snd (snd st) @ map (owned_by H u f) os"
  using assms
proof (induction os arbitrary: st)
  case (Cons x os)
  then show ?case using add_owner_step [OF Cons.prems, of f x] by simp
qed simp

definition file_owners :: "Rule list \<Rightarrow> source_file \<Rightarrow> string list" where
  "file_owners rules f =
     (case filter (\<lambda>r. matchPattern (Pattern r) (Path f)) rules of [] \<Rightarrow> [] | r # rs \<Rightarrow> Owners (last (r # rs)))"

lemma add_files:
  assumes "owners_ok H u st"
  shows "owners_ok H u (fold (add_file_owners H u rules) fs st) \<and>
    snd (snd (fold (add_file_owners H u rules) fs st)) =
      snd (snd st) @ concat (map (\<lambda>f. map (owned_by H u f) (file_owners rules f)) fs)"
  using assms
proof (induction fs arbitrary: st)
  case (Cons f fs)
  have "owners_ok H u (add_file_owners H u rules f st) \<and>
      snd (snd (add_file_owners H u rules f st)) = snd (snd st) @ map (owned_by H u f) (file_owners rules f)"
    using Cons.prems add_owners [OF Cons.prems, of f]
    by (auto simp: add_file_owners_def matched_rule_last file_owners_def split: list.splits)
  then show ?case using Cons.IH by simp
qed simp

text \<open>
  The edges are exactly those from each file to the owners of the last rule that matches its path, in order, and
  the nodes are one for each owner's name.
\<close>

lemma ExtractOwnership_exact:
  "snd (ExtractOwnership H u files rules) = concat (map (\<lambda>f. map (owned_by H u f) (file_owners rules f)) files) \<and>
   (\<exists>names. distinct names \<and> fst (ExtractOwnership H u files rules) = map (\<lambda>n. owner_node u (owner_hash H u n) n (owner_kind n)) names)"
proof -
  let ?st = "fold (add_file_owners H u rules) files ([], [], [])"
  have run: "owners_ok H u ?st \<and> snd (snd ?st) = concat (map (\<lambda>f. map (owned_by H u f) (file_owners rules f)) files)"
    using add_files [of H u "([], [], [])" rules files] by (simp add: owners_ok_def)
  have nodes: "\<exists>names. distinct names \<and> fst (snd ?st) = map (\<lambda>n. owner_node u (owner_hash H u n) n (owner_kind n)) names"
    using run unfolding owners_ok_def
    by (intro exI [of _ "map fst (fst ?st)"]) (auto split: prod.splits)
  show ?thesis
  proof (cases "rules = [] \<or> files = []")
    case True
    then have "concat (map (\<lambda>f. map (owned_by H u f) (file_owners rules f)) files) = []"
      by (auto simp: file_owners_def)
    then show ?thesis using True by (auto simp: ExtractOwnership_def)
  next
    case False
    then show ?thesis using run nodes by (simp add: ExtractOwnership_def)
  qed
qed

text \<open>A double star that is not followed by a slash does not cross directories, although it is documented to.\<close>

lemma double_star_one_level: "matchPattern ''docs/**'' ''docs/a'' \<and> \<not> matchPattern ''docs/**'' ''docs/a/b''"
  by code_simp

end
