(* ===== verification/Authorship.thy ===== *)
theory Authorship
  imports LineScanner Ownership "HOL-Library.Multiset"
begin

text \<open>
  internal/indexer/authorship/authorship.go: reading \<open>git blame --porcelain\<close> and the \<open>authored_by\<close> edges. The
  output of the git process is an argument, \<open>None\<close> when it fails; sort.Slice is an argument that sorts by line.
\<close>

section \<open>Blame\<close>

definition hex_digit :: "char \<Rightarrow> bool" where
  "hex_digit c \<longleftrightarrow> c \<in> set ''0123456789abcdef''"

definition isCommitLine :: "string \<Rightarrow> bool" where
  "isCommitLine line = (if length line < 41 \<or> line ! 40 \<noteq> CHR '' '' then False else list_all hex_digit (take 40 line))"

record blame_state =
  blame_lines :: "string list"
  commitAuthors :: "(string, string) gomap"
  currentCommit :: string
  currentAuthor :: string

definition blame_line :: "string \<Rightarrow> blame_state \<Rightarrow> blame_state" where
  "blame_line line b =
     (if isCommitLine line then
        (let commit = take 40 line in
         b\<lparr>currentCommit := commit,
           currentAuthor := (case map_of (commitAuthors b) commit of Some author \<Rightarrow> author | None \<Rightarrow> currentAuthor b)\<rparr>)
      else if strings_HasPrefix line ''author '' then
        (let author = strings_TrimPrefix line ''author '' in
         b\<lparr>currentAuthor := author,
           commitAuthors := (if currentCommit b \<noteq> '''' then gomap_set (currentCommit b) author (commitAuthors b) else commitAuthors b)\<rparr>)
      else if strings_HasPrefix line [CHR 0x09] then b\<lparr>blame_lines := blame_lines b @ [currentAuthor b]\<rparr>
      else b)"

definition parseBlamePorcelain :: "string \<Rightarrow> string list \<times> bool" where
  "parseBlamePorcelain output =
     (let (ls, too_long) = scan_lines output in
      (blame_lines (fold blame_line ls \<lparr>blame_lines = [], commitAuthors = [], currentCommit = '''', currentAuthor = ''''\<rparr>), too_long))"

definition runGitBlame :: "string option \<Rightarrow> string list option" where
  "runGitBlame out =
     (case out of None \<Rightarrow> None | Some o1 \<Rightarrow> (let (ls, too_long) = parseBlamePorcelain o1 in if too_long then None else Some ls))"

section \<open>The primary author\<close>

definition better_author :: "string \<times> nat \<Rightarrow> string \<times> nat \<Rightarrow> string \<times> nat" where
  "better_author p best = (if snd p > snd best \<or> snd p = snd best \<and> fst p < fst best then p else best)"

definition findPrimaryAuthor :: "(string, nat) gomap \<Rightarrow> string" where
  "findPrimaryAuthor counts = fst (fold better_author counts ('''', 0))"

definition count_author :: "string \<Rightarrow> (string, nat) gomap \<Rightarrow> (string, nat) gomap" where
  "count_author author counts =
     (if author \<noteq> '''' then gomap_set author ((case map_of counts author of Some n \<Rightarrow> n | None \<Rightarrow> 0) + 1) counts else counts)"

definition author_counts :: "string list \<Rightarrow> int \<Rightarrow> int \<Rightarrow> (string, nat) gomap" where
  "author_counts blameData startLine endLine =
     fold count_author (take (nat (endLine - (startLine - 1))) (drop (nat (startLine - 1)) blameData)) []"

text \<open>The last line of a symbol: the line before the next symbol when that begins below, otherwise the last of the file.\<close>

definition end_line :: "string list \<Rightarrow> node \<Rightarrow> node list \<Rightarrow> int" where
  "end_line blameData n ns =
     (case ns of
        m # _ \<Rightarrow> if Line m > Line n then Line m - 1 else int (length blameData)
      | [] \<Rightarrow> int (length blameData))"

section \<open>Edges\<close>

type_synonym author_state = "(string, hash) gomap \<times> node list \<times> edge list"

definition author_node :: "string \<Rightarrow> hash \<Rightarrow> string \<Rightarrow> node" where
  "author_node repoURL h author =
     \<lparr>NodeHash = h, Node_FileHash = EmptyHash, QualifiedName = repoURL @ ''://authors/'' @ author, Kind = ''author'',
      Line = 0, Signature = '''', Doc = '''', LastAuthor = '''', LastCommitAt = 0, CoveragePct = 0\<rparr>"

definition add_author :: "sha \<Rightarrow> string \<Rightarrow> node \<Rightarrow> string \<Rightarrow> author_state \<Rightarrow> author_state" where
  "add_author H repoURL n author st =
     (let (seenAuthors, nodes, edges) = st;
          fresh = (map_of seenAuthors author = None);
          authorHash = (case map_of seenAuthors author of
            Some h \<Rightarrow> h | None \<Rightarrow> ComputeNodeHash H repoURL ''authors'' EmptyHash author ''author'') in
      (if fresh then gomap_set author authorHash seenAuthors else seenAuthors,
       if fresh then nodes @ [author_node repoURL authorHash author] else nodes,
       edges @ [static_edge H (NodeHash n) authorHash ''authored_by'' 1 ''git_blame'']))"

fun authorship_loop :: "sha \<Rightarrow> ((string, nat) gomap \<Rightarrow> (string, nat) gomap) \<Rightarrow> string \<Rightarrow> string list \<Rightarrow> node list \<Rightarrow> author_state \<Rightarrow> author_state" where
  "authorship_loop H visit repoURL blameData [] st = st"
| "authorship_loop H visit repoURL blameData (n # ns) st =
     (let counts = author_counts blameData (Line n) (end_line blameData n ns) in
      authorship_loop H visit repoURL blameData ns
        (if Line n \<le> 0 \<or> Line n > int (length blameData) then st
         else if counts = [] then st
         else add_author H repoURL n (findPrimaryAuthor (visit counts)) st))"

definition ExtractAuthorship ::
  "sha \<Rightarrow> (node list \<Rightarrow> node list) \<Rightarrow> ((string, nat) gomap \<Rightarrow> (string, nat) gomap) \<Rightarrow> string \<Rightarrow> string option \<Rightarrow> node list \<Rightarrow>
   (node list \<times> edge list) option" where
  "ExtractAuthorship H sort_lines visit repoURL blame_output nodes =
     (if nodes = [] then Some ([], [])
      else (case runGitBlame blame_output of
              None \<Rightarrow> None
            | Some blameData \<Rightarrow> Some (snd (authorship_loop H visit repoURL blameData (sort_lines nodes) ([], [], [])))))"

section \<open>The primary author does not depend on the order of the map\<close>

definition ranks_above :: "string \<times> nat \<Rightarrow> string \<times> nat \<Rightarrow> bool" where
  "ranks_above p q \<longleftrightarrow> snd p > snd q \<or> snd p = snd q \<and> fst p < fst q"

lemma better_author_fold:
  "fold better_author ps b \<in> insert b (set ps) \<and>
   (\<forall>p \<in> insert b (set ps). p = fold better_author ps b \<or> ranks_above (fold better_author ps b) p)"
proof (induction ps arbitrary: b)
  case (Cons p ps)
  have total: "x = y \<or> ranks_above x y \<or> ranks_above y x" for x y :: "string \<times> nat"
    by (cases x; cases y) (auto simp: ranks_above_def)
  have trans: "ranks_above x y \<Longrightarrow> ranks_above y z \<Longrightarrow> ranks_above x z" for x y z :: "string \<times> nat"
    by (auto simp: ranks_above_def)
  have step: "better_author p b = (if ranks_above p b then p else b)" by (simp add: better_author_def ranks_above_def)
  let ?r = "fold better_author ps (better_author p b)"
  have IH: "?r \<in> insert (better_author p b) (set ps)"
    "\<And>q. q \<in> insert (better_author p b) (set ps) \<Longrightarrow> q = ?r \<or> ranks_above ?r q"
    using Cons.IH [of "better_author p b"] by blast+
  have above: "better_author p b = x \<or> ranks_above (better_author p b) x" if "x \<in> {p, b}" for x
    using that total [of p b] unfolding step by auto
  have "q = ?r \<or> ranks_above ?r q" if q: "q \<in> insert b (set (p # ps))" for q
  proof (cases "q \<in> set ps")
    case False
    then have "q \<in> {p, b}" using q by auto
    then show ?thesis using above [of q] IH(2) [of "better_author p b"] trans by (metis insertI1)
  qed (use IH(2) in blast)
  then show ?case using IH(1) step by auto
qed simp

lemma findPrimaryAuthor_order:
  assumes "mset ps = mset qs"
  shows "findPrimaryAuthor ps = findPrimaryAuthor qs"
proof -
  let ?p = "fold better_author ps ('''', 0)" and ?q = "fold better_author qs ('''', 0)"
  have eq: "set ps = set qs" using assms by (metis set_mset_mset)
  have irrefl: "\<not> (ranks_above x y \<and> ranks_above y x)" for x y by (auto simp: ranks_above_def)
  have "?p \<in> insert ('''', 0) (set qs)" "?q \<in> insert ('''', 0) (set ps)"
    using better_author_fold [of ps] better_author_fold [of qs] eq by blast+
  then have "?p = ?q"
    using better_author_fold [of ps "('''', 0)"] better_author_fold [of qs "('''', 0)"] irrefl [of ?p ?q] eq by metis
  then show ?thesis by (simp add: findPrimaryAuthor_def)
qed

end
