(* ===== verification/DerivedEdges.thy ===== *)
theory DerivedEdges
  imports Ownership GraphStore
begin

text \<open>
  The edges the indexer derives after extraction (internal/indexer/indexer.go from \<open>propagateInheritance\<close> on, and
  similarity.go): inheritance, overriding, type hints, containment, similarity and co-testing. Each is computed from the
  nodes and edges in memory. Where the code ranges over a map, \<open>visit\<close> is the order of its entries.
\<close>

section \<open>Names\<close>

definition terminalName :: "string \<Rightarrow> string" where
  "terminalName qn = (case strings_LastIndex qn ''.'' of Some idx \<Rightarrow> drop (idx + 1) qn | None \<Rightarrow> qn)"

text \<open>The last but one component of a qualified name with at least two dots.\<close>

definition owner_component :: "string \<Rightarrow> string option" where
  "owner_component qn =
     (case strings_LastIndex qn ''.'' of
        None \<Rightarrow> None
      | Some lastDot \<Rightarrow>
          (let pre = take lastDot qn in
           case strings_LastIndex pre ''.'' of None \<Rightarrow> None | Some secondLastDot \<Rightarrow> Some (drop (secondLastDot + 1) pre)))"

text \<open>Candidate edges are appended unless their hash was seen.\<close>

type_synonym edge_acc = "hash set \<times> edge list"

definition add_unseen :: "edge \<Rightarrow> edge_acc \<Rightarrow> edge_acc" where
  "add_unseen e acc = (if EdgeHash e \<in> fst acc then acc else (insert (EdgeHash e) (fst acc), snd acc @ [e]))"

section \<open>Inheritance\<close>

text \<open>A class: the hash of its node and those of its methods.\<close>

type_synonym class_table = "(string, hash \<times> hash list) gomap"

definition add_class :: "node \<Rightarrow> class_table \<Rightarrow> class_table" where
  "add_class n classes =
     (if Kind n \<noteq> ''type'' then classes
      else (let name = terminalName (QualifiedName n) in
            if name = '''' then classes else gomap_set name (NodeHash n, []) classes))"

definition add_method :: "node \<Rightarrow> class_table \<Rightarrow> class_table" where
  "add_method n classes =
     (if Kind n \<noteq> ''method'' then classes
      else (case owner_component (QualifiedName n) of
              None \<Rightarrow> classes
            | Some className \<Rightarrow>
                (case map_of classes className of
                   Some (h, methods) \<Rightarrow> gomap_set className (h, methods @ [NodeHash n]) classes
                 | None \<Rightarrow> classes)))"

definition class_table_of :: "node list \<Rightarrow> class_table" where
  "class_table_of nodes = fold add_method nodes (fold add_class nodes [])"

definition parent_name :: "(class_table \<Rightarrow> class_table) \<Rightarrow> class_table \<Rightarrow> hash \<Rightarrow> string" where
  "parent_name visit classes target = fold (\<lambda>(name, h, methods) found. if h = target then name else found) (visit classes) ''''"

definition inherit_from :: "sha \<Rightarrow> hash \<Rightarrow> hash list \<Rightarrow> edge_acc \<Rightarrow> edge_acc" where
  "inherit_from H child methods acc =
     fold (\<lambda>methodHash. add_unseen (static_edge H child methodHash ''inherits'' (9/10) ''ast_resolved'')) methods acc"

definition propagateInheritance :: "sha \<Rightarrow> (class_table \<Rightarrow> class_table) \<Rightarrow> node list \<Rightarrow> edge list \<Rightarrow> edge list" where
  "propagateInheritance H visit allNodes allEdges =
     (let classByName = class_table_of allNodes in
      snd (fold (\<lambda>e acc.
        if EdgeType e \<noteq> ''extends'' then acc
        else (let parentName = parent_name visit classByName (TargetHash e) in
              if parentName = '''' then acc
              else (case map_of classByName parentName of
                      Some (_, methods) \<Rightarrow> inherit_from H (SourceHash e) methods acc
                    | None \<Rightarrow> acc))) allEdges ({}, [])))"

section \<open>Containment\<close>

definition container_kinds :: "string set" where
  "container_kinds = {''type'', ''class'', ''struct'', ''interface'', ''trait'', ''module'', ''object''}"

definition type_names :: "node list \<Rightarrow> (string, hash) gomap" where
  "type_names nodes = fold (\<lambda>n m. if Kind n \<in> container_kinds then gomap_set (QualifiedName n) (NodeHash n) m else m) nodes []"

definition contains_step :: "sha \<Rightarrow> (string, hash) gomap \<Rightarrow> node \<Rightarrow> edge_acc \<Rightarrow> edge_acc" where
  "contains_step H typeQNs n acc =
     (if Kind n \<in> container_kinds then acc
      else (case strings_LastIndex (QualifiedName n) ''.'' of
              None \<Rightarrow> acc
            | Some lastDot \<Rightarrow>
                (case map_of typeQNs (take lastDot (QualifiedName n)) of
                   None \<Rightarrow> acc
                 | Some parentHash \<Rightarrow>
                     (let forward = static_edge H parentHash (NodeHash n) ''contains'' 1 ''structural'' in
                      if EdgeHash forward \<in> fst acc then acc
                      else add_unseen (static_edge H (NodeHash n) parentHash ''member_of'' 1 ''structural'') (add_unseen forward acc)))))"

definition generateContainsEdges :: "sha \<Rightarrow> node list \<Rightarrow> edge list" where
  "generateContainsEdges H allNodes =
     (let typeQNs = type_names allNodes in
      if typeQNs = [] then [] else snd (fold (contains_step H typeQNs) allNodes ({}, [])))"

section \<open>Overriding\<close>

text \<open>
  The entries of the two maps point to shared records. A record is a position in the list of method tables, so that a
  method added through the name is seen through the hash.
\<close>

record type_table =
  by_hash :: "(hash, nat) gomap"
  by_name :: "(string, nat) gomap"
  method_tables :: "(string, hash) gomap list"

definition add_type_info :: "node \<Rightarrow> type_table \<Rightarrow> type_table" where
  "add_type_info n t =
     (if Kind n \<notin> {''type'', ''interface'', ''class'', ''struct'', ''trait''} then t
      else (let name = terminalName (QualifiedName n); k = length (method_tables t) in
            if name = '''' then t
            else \<lparr>by_hash = gomap_set (NodeHash n) k (by_hash t), by_name = gomap_set name k (by_name t),
                  method_tables = method_tables t @ [[]]\<rparr>))"

definition add_method_info :: "node \<Rightarrow> type_table \<Rightarrow> type_table" where
  "add_method_info n t =
     (if Kind n \<noteq> ''method'' \<and> Kind n \<noteq> ''function'' then t
      else (case owner_component (QualifiedName n) of
              None \<Rightarrow> t
            | Some parentName \<Rightarrow>
                (case map_of (by_name t) parentName of
                   None \<Rightarrow> t
                 | Some k \<Rightarrow> t\<lparr>method_tables :=
                     (method_tables t)[k := gomap_set (terminalName (QualifiedName n)) (NodeHash n) (method_tables t ! k)]\<rparr>)))"

definition type_table_of :: "node list \<Rightarrow> type_table" where
  "type_table_of nodes = fold add_method_info nodes (fold add_type_info nodes \<lparr>by_hash = [], by_name = [], method_tables = []\<rparr>)"

definition override_step ::
  "sha \<Rightarrow> ((string, hash) gomap \<Rightarrow> (string, hash) gomap) \<Rightarrow> type_table \<Rightarrow> edge \<Rightarrow> edge_acc \<Rightarrow> edge_acc" where
  "override_step H visit t e acc =
     (if EdgeType e \<noteq> ''implements'' then acc
      else (case (map_of (by_hash t) (SourceHash e), map_of (by_hash t) (TargetHash e)) of
              (Some impl, Some iface) \<Rightarrow>
                fold (\<lambda>(methodName, ifaceMethodHash) acc.
                  case map_of (method_tables t ! impl) methodName of
                    None \<Rightarrow> acc
                  | Some implMethodHash \<Rightarrow>
                      add_unseen (static_edge H implMethodHash ifaceMethodHash ''overrides'' (9/10) ''interface_propagation'') acc)
                  (visit (method_tables t ! iface)) acc
            | _ \<Rightarrow> acc))"

definition propagateInterfaceMethods ::
  "sha \<Rightarrow> ((string, hash) gomap \<Rightarrow> (string, hash) gomap) \<Rightarrow> node list \<Rightarrow> edge list \<Rightarrow> edge list" where
  "propagateInterfaceMethods H visit allNodes allEdges =
     snd (fold (override_step H visit (type_table_of allNodes)) allEdges ({}, []))"

section \<open>Type hints\<close>

type_synonym node_key = "string \<times> string \<times> string"

definition node_key_of :: "node \<Rightarrow> node_key option" where
  "node_key_of n =
     (if Kind n \<notin> {''type'', ''interface'', ''trait'', ''class'', ''struct''} then None
      else (let qn = QualifiedName n; name = terminalName qn in
            if name = '''' then None
            else (case strings_Index qn ''://'' of
                    None \<Rightarrow> None
                  | Some pkgStart \<Rightarrow>
                      (let pkgAndName = drop (pkgStart + 3) qn in
                       case strings_LastIndex pkgAndName ''.'' of
                         None \<Rightarrow> None
                       | Some lastDot \<Rightarrow> Some (take pkgStart qn, take lastDot pkgAndName, name)))))"

definition key_table :: "node list \<Rightarrow> (node_key, hash) gomap" where
  "key_table nodes = fold (\<lambda>n m. case node_key_of n of Some k \<Rightarrow> gomap_set k (NodeHash n) m | None \<Rightarrow> m) nodes []"

definition add_real_hash :: "sha \<Rightarrow> node_key \<times> hash \<Rightarrow> (hash, hash) gomap \<Rightarrow> (hash, hash) gomap" where
  "add_real_hash H entry m =
     (let ((repo, pkg, name), realHash) = entry; typeHash = ComputeNodeHash H repo pkg EmptyHash name ''type'' in
      if typeHash \<noteq> realHash then gomap_set typeHash realHash m else m)"

definition dangling_hint :: "node list \<Rightarrow> edge \<Rightarrow> bool" where
  "dangling_hint nodes e \<longleftrightarrow> EdgeType e = ''type_hint_of'' \<and> TargetHash e \<notin> NodeHash ` set nodes"

definition rewrite_hint :: "sha \<Rightarrow> edge \<Rightarrow> hash \<Rightarrow> edge" where
  "rewrite_hint H e realHash =
     e\<lparr>TargetHash := realHash, EdgeHash := ComputeEdgeHash H (SourceHash e) realHash ''type_hint_of'' ''type_hint_resolved'',
       Provenance := ''type_hint_resolved'', Confidence := 8/10\<rparr>"

text \<open>The counts of resolved and dangling edges, the hashes to delete, and the edges as they are afterwards.\<close>

definition resolve_hint ::
  "sha \<Rightarrow> node list \<Rightarrow> (hash, hash) gomap \<Rightarrow> edge \<Rightarrow> nat \<times> nat \<times> hash list \<times> edge list \<Rightarrow> nat \<times> nat \<times> hash list \<times> edge list" where
  "resolve_hint H nodes typeHashToReal e st =
     (let (resolved, dangling, oldHashes, edges) = st in
      if \<not> dangling_hint nodes e then (resolved, dangling, oldHashes, edges @ [e])
      else (case map_of typeHashToReal (TargetHash e) of
              Some realHash \<Rightarrow> (resolved + 1, dangling, oldHashes @ [EdgeHash e], edges @ [rewrite_hint H e realHash])
            | None \<Rightarrow> (resolved, dangling + 1, oldHashes, edges @ [e])))"

definition resolveTypeHintEdges ::
  "sha \<Rightarrow> ((node_key, hash) gomap \<Rightarrow> (node_key, hash) gomap) \<Rightarrow> node list \<Rightarrow> edge list \<Rightarrow> nat \<times> nat \<times> hash list \<times> edge list" where
  "resolveTypeHintEdges H visit allNodes allEdges =
     (if \<not> list_ex (dangling_hint allNodes) allEdges then (0, 0, [], allEdges)
      else fold (resolve_hint H allNodes (fold (add_real_hash H) (visit (key_table allNodes)) [])) allEdges (0, 0, [], []))"

definition implementors :: "edge list \<Rightarrow> (hash, hash list) gomap" where
  "implementors allEdges =
     fold (\<lambda>e m. if EdgeType e = ''implements''
                 then gomap_set (TargetHash e) ((case map_of m (TargetHash e) of Some hs \<Rightarrow> hs | None \<Rightarrow> []) @ [SourceHash e]) m
                 else m) allEdges []"

definition propagateInterfaceTypeHints :: "sha \<Rightarrow> edge list \<Rightarrow> edge list" where
  "propagateInterfaceTypeHints H allEdges =
     (let impls = implementors allEdges in
      if impls = [] then []
      else snd (fold (\<lambda>e acc.
        if EdgeType e \<noteq> ''type_hint_of'' then acc
        else (case map_of impls (TargetHash e) of
                None \<Rightarrow> acc
              | Some hs \<Rightarrow>
                  fold (\<lambda>implHash. add_unseen (static_edge H (SourceHash e) implHash ''type_hint_of'' (8/10) ''interface_type_hint_propagation''))
                    hs acc)) allEdges ({}, [])))"

section \<open>Co-testing\<close>

definition IsTestFile :: "string \<Rightarrow> bool" where
  "IsTestFile path =
     (let lower = strings_ToLower path in
      list_ex (strings_Contains lower)
        [''_test.go'', ''/tests/'', ''/test/'', ''_test.py'', ''_test.ts'', ''_test.rs'', ''.test.ts'', ''.test.js'',
         ''.spec.ts'', ''.spec.js'', ''test_''] \<or>
      list_ex (strings_HasSuffix lower) [''tests.py'', ''test.java'', ''tests.java''])"

definition nodes_by_hash :: "node list \<Rightarrow> (hash, node) gomap" where
  "nodes_by_hash nodes = fold (\<lambda>n m. gomap_set (NodeHash n) n m) nodes []"

definition in_test_path :: "node \<Rightarrow> bool" where
  "in_test_path n =
     (case strings_Index (QualifiedName n) ''://'' of Some idx \<Rightarrow> IsTestFile (drop (idx + 3) (QualifiedName n)) | None \<Rightarrow> False)"

definition test_files :: "node list \<Rightarrow> hash set" where
  "test_files nodes = Node_FileHash ` set (filter in_test_path nodes)"

text \<open>The test file and the tested symbol of an edge, if it leads from a test file to a symbol of the program.\<close>

definition tested_target :: "(hash, node) gomap \<Rightarrow> hash set \<Rightarrow> edge \<Rightarrow> (hash \<times> hash) option" where
  "tested_target nodeByHash testFileHashes e =
     (if EdgeType e \<notin> {''calls'', ''imports'', ''references''} then None
      else (case (map_of nodeByHash (SourceHash e), map_of nodeByHash (TargetHash e)) of
              (Some src, Some tgt) \<Rightarrow>
                if Node_FileHash src \<notin> testFileHashes then None
                else if Node_FileHash tgt \<in> testFileHashes then None
                else if strings_HasPrefix (QualifiedName tgt) ''stdlib://'' \<or> strings_HasPrefix (QualifiedName tgt) ''external://'' then None
                else Some (Node_FileHash src, TargetHash e)
            | _ \<Rightarrow> None))"

definition test_targets :: "node list \<Rightarrow> edge list \<Rightarrow> (hash, hash list) gomap" where
  "test_targets allNodes allEdges =
     (let nodeByHash = nodes_by_hash allNodes; testFileHashes = test_files allNodes in
      fold (\<lambda>e m. case tested_target nodeByHash testFileHashes e of
                    None \<Rightarrow> m
                  | Some (file, target) \<Rightarrow> gomap_set file ((case map_of m file of Some hs \<Rightarrow> hs | None \<Rightarrow> []) @ [target]) m) allEdges [])"

definition first_occurrences :: "'a list \<Rightarrow> 'a list" where
  "first_occurrences xs = rev (remdups (rev xs))"

fun ordered_pairs :: "'a list \<Rightarrow> ('a \<times> 'a) list" where
  "ordered_pairs [] = []"
| "ordered_pairs (x # xs) = map (Pair x) xs @ ordered_pairs xs"

definition maxPairsPerFile :: nat where "maxPairsPerFile = 20"

definition pair_key :: "hash \<Rightarrow> hash \<Rightarrow> hash \<times> hash" where
  "pair_key a b = (if bytes_Compare (hash_bytes a) (hash_bytes b) > 0 then (b, a) else (a, b))"

definition co_tested_edge :: "sha \<Rightarrow> int \<Rightarrow> hash \<Rightarrow> hash \<Rightarrow> edge" where
  "co_tested_edge H now a b = (static_edge H a b ''co_tested_with'' (6/10) ''co_test_inference'')\<lparr>LastObserved := now\<rparr>"

text \<open>Both loops stop once enough pairs of the file were added; the state counts them.\<close>

definition add_pair ::
  "sha \<Rightarrow> int \<Rightarrow> hash \<times> hash \<Rightarrow> nat \<times> (hash \<times> hash) set \<times> edge list \<Rightarrow> nat \<times> (hash \<times> hash) set \<times> edge list" where
  "add_pair H now ab st =
     (let (pairs, seen, result) = st; (a, b) = ab in
      if pairs \<ge> maxPairsPerFile then st
      else if pair_key a b \<in> seen then st
      else (pairs + 1, insert (pair_key a b) seen, result @ [co_tested_edge H now a b]))"

definition add_test_file ::
  "sha \<Rightarrow> int \<Rightarrow> hash list \<Rightarrow> (hash \<times> hash) set \<times> edge list \<Rightarrow> (hash \<times> hash) set \<times> edge list" where
  "add_test_file H now targets st =
     (let deduped = first_occurrences targets in
      if length deduped < 2 then st
      else snd (fold (add_pair H now) (ordered_pairs (take 20 deduped)) (0, st)))"

definition GenerateCoTestedEdges ::
  "sha \<Rightarrow> int \<Rightarrow> ((hash, hash list) gomap \<Rightarrow> (hash, hash list) gomap) \<Rightarrow> node list \<Rightarrow> edge list \<Rightarrow> edge list" where
  "GenerateCoTestedEdges H now visit allNodes allEdges =
     snd (fold (\<lambda>(file, targets). add_test_file H now targets) (visit (test_targets allNodes allEdges)) ({}, []))"

section \<open>Similarity\<close>

definition extractPackage :: "string \<Rightarrow> string" where
  "extractPackage qn =
     (case strings_LastIndex qn ''://'' of
        None \<Rightarrow> qn
      | Some idx \<Rightarrow>
          (let rest = drop (idx + 3) qn in
           case strings_LastIndex rest ''/'' of
             Some lastSlash \<Rightarrow>
               (case strings_Index (drop (lastSlash + 1) rest) ''.'' of
                  Some dotIdx \<Rightarrow> take (lastSlash + 1 + dotIdx) rest
                | None \<Rightarrow> rest)
           | None \<Rightarrow> (case strings_Index rest ''.'' of Some dotIdx \<Rightarrow> take dotIdx rest | None \<Rightarrow> rest)))"

definition token_separators :: "char set" where
  "token_separators = set ''_./: ()[]{},*&''"

definition flush :: "string \<Rightarrow> string list \<Rightarrow> string list" where
  "flush current result = (if current \<noteq> '''' then result @ [current] else result)"

text \<open>Characters are ASCII; \<open>current\<close> is the token being read.\<close>

fun split_loop :: "string \<Rightarrow> string \<Rightarrow> string list \<Rightarrow> string list" where
  "split_loop [] current result = flush current result"
| "split_loop (r # rs) current result =
     (if r \<in> token_separators then split_loop rs '''' (flush current result)
      else
        (let boundary = (is_upper r \<and> current \<noteq> '''' \<and> is_lower (last current) \<or>
               is_upper r \<and> rs \<noteq> '''' \<and> is_lower (hd rs) \<and> length current > 1 \<and> is_upper (last current));
             result' = (if boundary then flush current result else result);
             current' = (if boundary then '''' else current) in
         if is_upper r \<or> is_lower r \<or> is_digit r then split_loop rs (current' @ [r]) result'
         else split_loop rs '''' (flush current' result')))"

definition splitTokens :: "string \<Rightarrow> string list" where
  "splitTokens s = split_loop s '''' []"

definition tokenize :: "string \<Rightarrow> string \<Rightarrow> string list" where
  "tokenize qualifiedName signature =
     first_occurrences (filter (\<lambda>w. length w \<ge> 3) (map strings_ToLower (splitTokens (qualifiedName @ '' '' @ signature))))"

definition jaccard :: "string list \<Rightarrow> string list \<Rightarrow> float64" where
  "jaccard a b =
     (if length a = 0 \<or> length b = 0 then 0
      else (let (a, b) = (if length a > length b then (b, a) else (a, b));
                intersection = length (filter (\<lambda>token. token \<in> set b) a);
                union = length a + length b - intersection in
            if union = 0 then 0 else of_nat intersection / of_nat union))"

definition maxEdgesPerNode :: nat where "maxEdgesPerNode = 5"

type_synonym package_table = "(string, (hash \<times> string list) list) gomap"

definition group_node :: "node \<Rightarrow> package_table \<Rightarrow> package_table" where
  "group_node n packages =
     (if Kind n \<noteq> ''function'' \<and> Kind n \<noteq> ''method'' then packages
      else (let pkg = extractPackage (QualifiedName n); tokens = tokenize (QualifiedName n) (Signature n) in
            if length tokens < 3 then packages
            else gomap_set pkg ((case map_of packages pkg of Some g \<Rightarrow> g | None \<Rightarrow> []) @ [(NodeHash n, tokens)]) packages))"

definition group_candidates :: "float64 \<Rightarrow> (hash \<times> string list) list \<Rightarrow> (hash \<times> hash \<times> float64) list" where
  "group_candidates threshold grp =
     (if length grp < 2 then []
      else if length grp > 500 then []
      else concat (map (\<lambda>((a, s), (b, t)). if jaccard s t > threshold then [(a, b, jaccard s t)] else []) (ordered_pairs grp)))"

definition cap_candidate ::
  "sha \<Rightarrow> hash \<times> hash \<times> float64 \<Rightarrow> (hash \<Rightarrow> nat) \<times> edge list \<Rightarrow> (hash \<Rightarrow> nat) \<times> edge list" where
  "cap_candidate H c st =
     (let (edgeCount, edges) = st; (source, target, j) = c in
      if edgeCount source \<ge> maxEdgesPerNode \<or> edgeCount target \<ge> maxEdgesPerNode then st
      else (let once = edgeCount(source := edgeCount source + 1) in
            (once(target := once target + 1), edges @ [static_edge H source target ''similar_to'' j ''similarity''])))"

definition ComputeSimilarityEdges ::
  "sha \<Rightarrow> (package_table \<Rightarrow> package_table) \<Rightarrow> ((hash \<times> hash \<times> float64) list \<Rightarrow> (hash \<times> hash \<times> float64) list) \<Rightarrow>
   node list \<Rightarrow> float64 \<Rightarrow> edge list" where
  "ComputeSimilarityEdges H visit sort_desc nodes threshold0 =
     (let threshold = (if threshold0 \<le> 0 then 1/2 else threshold0);
          packages = fold group_node nodes [];
          candidates = concat (map (\<lambda>(pkg, grp). group_candidates threshold grp) (visit packages)) in
      snd (fold (cap_candidate H) (sort_desc candidates) (\<lambda>_. 0, [])))"

section \<open>Type hints find their nodes\<close>

lemma gomap_set_subset: "set (gomap_set k v m) \<subseteq> insert (k, v) (set m)"
  by (induction k v m rule: gomap_set.induct) auto

lemma key_table_entries:
  "(k, h) \<in> set (key_table nodes) \<Longrightarrow> \<exists>n \<in> set nodes. node_key_of n = Some k \<and> NodeHash n = h"
proof (induction nodes rule: rev_induct)
  case (snoc n nodes)
  then show ?case
    using gomap_set_subset unfolding key_table_def by (fastforce split: option.splits)
qed (simp add: key_table_def)

lemma real_hash_entries:
  "(t, h) \<in> set (fold (add_real_hash H) entries m) \<Longrightarrow>
     (t, h) \<in> set m \<or> (\<exists>repo pkg name. ((repo, pkg, name), h) \<in> set entries \<and> t = ComputeNodeHash H repo pkg EmptyHash name ''type'')"
proof (induction entries arbitrary: m)
  case (Cons x entries)
  obtain repo pkg name h' where x: "x = ((repo, pkg, name), h')" by (cases x) auto
  have "set (add_real_hash H x m) \<subseteq> insert (ComputeNodeHash H repo pkg EmptyHash name ''type'', h') (set m)"
    using gomap_set_subset [of "ComputeNodeHash H repo pkg EmptyHash name ''type''" h' m]
    by (simp add: add_real_hash_def x Let_def subset_insertI)
  then show ?case using Cons.IH [of "add_real_hash H x m"] Cons.prems x by fastforce
qed simp

definition hint_result :: "sha \<Rightarrow> node list \<Rightarrow> (hash, hash) gomap \<Rightarrow> edge \<Rightarrow> edge" where
  "hint_result H nodes table e =
     (if dangling_hint nodes e then (case map_of table (TargetHash e) of Some h \<Rightarrow> rewrite_hint H e h | None \<Rightarrow> e) else e)"

definition resolvable :: "node list \<Rightarrow> (hash, hash) gomap \<Rightarrow> edge \<Rightarrow> bool" where
  "resolvable nodes table e \<longleftrightarrow> dangling_hint nodes e \<and> map_of table (TargetHash e) \<noteq> None"

lemma resolve_hints:
  "fold (resolve_hint H nodes table) es (r, d, old, outp) =
     (r + length (filter (resolvable nodes table) es),
      d + length (filter (\<lambda>e. dangling_hint nodes e \<and> \<not> resolvable nodes table e) es),
      old @ map EdgeHash (filter (resolvable nodes table) es), outp @ map (hint_result H nodes table) es)"
proof (induction es arbitrary: r d old outp)
  case (Cons e es)
  then show ?case
    by (simp add: resolve_hint_def hint_result_def resolvable_def split: option.splits)
qed simp

lemma key_table_keys:
  "fst ` set (key_table nodes) = {k. \<exists>n \<in> set nodes. node_key_of n = Some k}"
proof (induction nodes rule: rev_induct)
  case (snoc n nodes)
  then show ?case unfolding key_table_def by (cases "node_key_of n") (auto simp: keys_gomap_set)
qed (simp add: key_table_def)

lemma real_hash_keys:
  "fst ` set (fold (add_real_hash H) entries m) = fst ` set m \<union>
     {t. \<exists>repo pkg name h. ((repo, pkg, name), h) \<in> set entries \<and> t = ComputeNodeHash H repo pkg EmptyHash name ''type'' \<and> t \<noteq> h}"
proof (induction entries arbitrary: m)
  case (Cons x entries)
  obtain repo pkg name h where x: "x = ((repo, pkg, name), h)" by (cases x) auto
  show ?case using Cons.IH by (auto simp: x add_real_hash_def Let_def keys_gomap_set)
qed simp

text \<open>A hint names a node when the node's name, hashed as a \<open>type\<close>, is the target of the hint.\<close>

definition names_node :: "sha \<Rightarrow> edge \<Rightarrow> node \<Rightarrow> bool" where
  "names_node H e n \<longleftrightarrow>
     (\<exists>repo pkg name. node_key_of n = Some (repo, pkg, name) \<and>
        TargetHash e = ComputeNodeHash H repo pkg EmptyHash name ''type'')"

definition resolves_to :: "sha \<Rightarrow> node list \<Rightarrow> edge \<Rightarrow> edge \<Rightarrow> bool" where
  "resolves_to H nodes e e' \<longleftrightarrow> (\<exists>n \<in> set nodes. names_node H e n \<and> e' = rewrite_hint H e (NodeHash n) \<and> TargetHash e' = NodeHash n)"

lemma resolves_to_node: "resolves_to H nodes e e' \<Longrightarrow> \<not> dangling_hint nodes e'"
  by (auto simp: resolves_to_def dangling_hint_def)

lemma resolvable_iff:
  assumes "set entries = set (key_table nodes)"
  shows "resolvable nodes (fold (add_real_hash H) entries []) e \<longleftrightarrow>
    dangling_hint nodes e \<and> (\<exists>n \<in> set nodes. names_node H e n)"
proof (cases "dangling_hint nodes e")
  case True
  let ?t = "TargetHash e"
  have fresh: "h \<noteq> ?t" if "(k, h) \<in> set entries" for k h
    using key_table_entries [of k h nodes] that assms True unfolding dangling_hint_def by (metis imageI)
  have "map_of (fold (add_real_hash H) entries []) ?t \<noteq> None \<longleftrightarrow> ?t \<in> fst ` set (fold (add_real_hash H) entries [])"
    by (simp add: map_of_eq_None_iff)
  also have "\<dots> \<longleftrightarrow> (\<exists>repo pkg name h. ((repo, pkg, name), h) \<in> set entries \<and> ?t = ComputeNodeHash H repo pkg EmptyHash name ''type'')"
    using fresh by (simp add: real_hash_keys) metis
  also have "\<dots> \<longleftrightarrow> (\<exists>k \<in> fst ` set (key_table nodes). ?t = (case k of (repo, pkg, name) \<Rightarrow> ComputeNodeHash H repo pkg EmptyHash name ''type''))"
    by (force simp: assms)
  also have "\<dots> \<longleftrightarrow> (\<exists>n \<in> set nodes. names_node H e n)"
    unfolding key_table_keys names_node_def by auto
  finally show ?thesis using True by (simp add: resolvable_def)
qed (simp add: resolvable_def)

lemma hint_result_resolves:
  assumes "set entries = set (key_table nodes)" "resolvable nodes (fold (add_real_hash H) entries []) e"
  shows "resolves_to H nodes e (hint_result H nodes (fold (add_real_hash H) entries []) e)"
proof -
  obtain h where h: "map_of (fold (add_real_hash H) entries []) (TargetHash e) = Some h" "dangling_hint nodes e"
    using assms(2) by (auto simp: resolvable_def)
  obtain repo pkg name where k: "((repo, pkg, name), h) \<in> set entries"
    "TargetHash e = ComputeNodeHash H repo pkg EmptyHash name ''type''"
    using real_hash_entries [OF map_of_SomeD [OF h(1)]] by auto
  obtain n where "n \<in> set nodes" "node_key_of n = Some (repo, pkg, name)" "NodeHash n = h"
    using key_table_entries [of "(repo, pkg, name)" h nodes] k(1) assms(1) by auto
  then show ?thesis
    unfolding resolves_to_def names_node_def using h k(2) by (intro bexI [of _ n]) (auto simp: hint_result_def rewrite_hint_def)
qed

text \<open>
  C39. Resolving type hints. Edge by edge, in place, a hint whose target is no node is turned if it names a node
  (some node's name, hashed as a \<open>type\<close>, gives the target), and then towards such a node; every other edge is
  kept as it is. The hashes to delete are the old hashes of the hints turned, and the counts are those of the hints
  turned and of the hints that still dangle afterwards.
\<close>

theorem type_hints_resolved:
  assumes "set (visit (key_table nodes)) = set (key_table nodes)"
    "resolveTypeHintEdges H visit nodes edges = (turned_count, still_dangling, oldHashes, edges')"
  shows "list_all2 (\<lambda>e e'. if dangling_hint nodes e \<and> (\<exists>n \<in> set nodes. names_node H e n)
                          then resolves_to H nodes e e' else e' = e) edges edges' \<and>
    oldHashes = map EdgeHash (filter (\<lambda>e. dangling_hint nodes e \<and> (\<exists>n \<in> set nodes. names_node H e n)) edges) \<and>
    turned_count = length oldHashes \<and>
    still_dangling = length (filter (dangling_hint nodes) edges') \<and>
    turned_count + still_dangling = length (filter (dangling_hint nodes) edges)"
proof (cases "list_ex (dangling_hint nodes) edges")
  case False
  then have none: "e \<in> set edges \<Longrightarrow> \<not> dangling_hint nodes e" for e by (auto simp: list_ex_iff)
  have res: "turned_count = 0" "still_dangling = 0" "oldHashes = []" "edges' = edges"
    using assms(2) False by (auto simp: resolveTypeHintEdges_def)
  show ?thesis unfolding res using none by (auto simp: list_all2_same filter_empty_conv)
next
  case True
  let ?t = "fold (add_real_hash H) (visit (key_table nodes)) []"
  have res: "turned_count = length (filter (resolvable nodes ?t) edges)"
    "still_dangling = length (filter (\<lambda>e. dangling_hint nodes e \<and> \<not> resolvable nodes ?t e) edges)"
    "oldHashes = map EdgeHash (filter (resolvable nodes ?t) edges)" "edges' = map (hint_result H nodes ?t) edges"
    using assms(2) True by (auto simp: resolveTypeHintEdges_def resolve_hints)
  have iff: "resolvable nodes ?t = (\<lambda>e. dangling_hint nodes e \<and> (\<exists>n \<in> set nodes. names_node H e n))"
    by (rule ext) (rule resolvable_iff [OF assms(1)])
  have kept: "\<not> resolvable nodes ?t e \<Longrightarrow> hint_result H nodes ?t e = e" for e
    by (auto simp: hint_result_def resolvable_def)
  note turned = hint_result_resolves [OF assms(1), of H]
  have still: "dangling_hint nodes (hint_result H nodes ?t e) \<longleftrightarrow> dangling_hint nodes e \<and> \<not> resolvable nodes ?t e" for e
    using kept [of e] resolves_to_node [OF turned, of e]
    by (cases "resolvable nodes ?t e") (auto simp: resolvable_def)
  have "length (filter (resolvable nodes ?t) es) + length (filter (\<lambda>e. dangling_hint nodes e \<and> \<not> resolvable nodes ?t e) es) =
      length (filter (dangling_hint nodes) es)" for es
    by (induction es) (auto simp: resolvable_def)
  moreover have "length (filter (dangling_hint nodes) (map (hint_result H nodes ?t) es)) =
      length (filter (\<lambda>e. dangling_hint nodes e \<and> \<not> resolvable nodes ?t e) es)" for es
    by (induction es) (auto simp: still)
  moreover have "list_all2 (\<lambda>e e'. if resolvable nodes ?t e then resolves_to H nodes e e' else e' = e) edges edges'"
    unfolding res(4) list_all2_map2 using kept turned by (simp add: list_all2_same)
  ultimately have "list_all2 (\<lambda>e e'. if resolvable nodes ?t e then resolves_to H nodes e e' else e' = e) edges edges' \<and>
    oldHashes = map EdgeHash (filter (resolvable nodes ?t) edges) \<and> turned_count = length oldHashes \<and>
    still_dangling = length (filter (dangling_hint nodes) edges') \<and>
    turned_count + still_dangling = length (filter (dangling_hint nodes) edges)"
    using res by simp
  then show ?thesis unfolding iff .
qed

section \<open>Similarity stays sparse\<close>

definition touching :: "hash \<Rightarrow> edge list \<Rightarrow> nat" where
  "touching h edges = length (filter (\<lambda>e. SourceHash e = h \<or> TargetHash e = h) edges)"

lemma static_edge_verifies: "VerifyEdgeHash H (static_edge H a b t c p) = None"
  by (simp add: static_edge_def VerifyEdgeHash_def)

lemma cap_fold:
  assumes "\<forall>h. touching h edges \<le> cnt h \<and> touching h edges \<le> maxEdgesPerNode"
    "\<forall>e \<in> set edges. P (SourceHash e, TargetHash e, Confidence e) \<and> VerifyEdgeHash H e = None \<and> EdgeType e = ''similar_to''"
    "\<forall>c \<in> set cs. P c"
  shows "(\<forall>h. touching h (snd (fold (cap_candidate H) cs (cnt, edges))) \<le> maxEdgesPerNode) \<and>
    (\<forall>e \<in> set (snd (fold (cap_candidate H) cs (cnt, edges))).
       P (SourceHash e, TargetHash e, Confidence e) \<and> VerifyEdgeHash H e = None \<and> EdgeType e = ''similar_to'')"
  using assms
proof (induction cs arbitrary: cnt edges)
  case (Cons c cs)
  obtain a b j where c: "c = (a, b, j)" by (cases c) auto
  show ?case
  proof (cases "cnt a \<ge> maxEdgesPerNode \<or> cnt b \<ge> maxEdgesPerNode")
    case True
    then have step: "cap_candidate H c (cnt, edges) = (cnt, edges)" by (simp add: cap_candidate_def c)
    have three: "\<forall>c \<in> set cs. P c" using Cons.prems(3) by simp
    show ?thesis unfolding fold.simps comp_apply step by (rule Cons.IH [OF Cons.prems(1,2) three])
  next
    case False
    let ?once = "cnt(a := cnt a + 1)"
    let ?cnt = "?once(b := ?once b + 1)" and ?edges = "edges @ [static_edge H a b ''similar_to'' j ''similarity'']"
    have step: "cap_candidate H c (cnt, edges) = (?cnt, ?edges)" using False by (simp add: cap_candidate_def c)
    have more: "touching h ?edges = touching h edges + (if a = h \<or> b = h then 1 else 0)" for h
      by (simp add: touching_def static_edge_def)
    have "touching h ?edges \<le> ?cnt h \<and> touching h ?edges \<le> maxEdgesPerNode" for h
      unfolding more using Cons.prems(1) [rule_format, of h] False by (cases "a = h"; cases "b = h") simp_all
    then have one: "\<forall>h. touching h ?edges \<le> ?cnt h \<and> touching h ?edges \<le> maxEdgesPerNode" by blast
    have two: "\<forall>e \<in> set ?edges. P (SourceHash e, TargetHash e, Confidence e) \<and> VerifyEdgeHash H e = None \<and> EdgeType e = ''similar_to''"
      using Cons.prems(2,3) static_edge_verifies [of H a b "''similar_to''" j "''similarity''"]
      by (simp add: c) (simp add: static_edge_def)
    have three: "\<forall>c \<in> set cs. P c" using Cons.prems(3) by simp
    show ?thesis unfolding fold.simps comp_apply step by (rule Cons.IH [OF one two three])
  qed
qed simp

lemma if_le_1: "r \<le> (1 :: rat) \<Longrightarrow> (if P then 0 else r) \<le> 1"
  by simp

lemma ratio_le_1: "length x \<le> length y \<Longrightarrow>
    (if length x + length y - length (filter P x) = 0 then 0
     else of_nat (length (filter P x)) / of_nat (length x + length y - length (filter P x))) \<le> (1 :: rat)"
proof -
  assume le: "length x \<le> length y"
  have i: "length (filter P x) \<le> length x + length y - length (filter P x)"
    using length_filter_le [of P x] le by linarith
  have "of_nat i / of_nat u \<le> (1 :: rat)" if "i \<le> u" for i u :: nat
    using that by (cases "u = 0") (simp_all add: divide_le_eq_1)
  from this [OF i] show ?thesis by (rule if_le_1)
qed

lemma jaccard_le_1: "jaccard a b \<le> 1"
proof (cases "length a > length b")
  case True
  have "jaccard a b = (if length a = 0 \<or> length b = 0 then 0
      else (if length b + length a - length (filter (\<lambda>t. t \<in> set a) b) = 0 then 0
            else of_nat (length (filter (\<lambda>t. t \<in> set a) b)) / of_nat (length b + length a - length (filter (\<lambda>t. t \<in> set a) b))))"
    by (simp only: jaccard_def Let_def True if_True prod.case)
  then show ?thesis using if_le_1 [OF ratio_le_1 [OF less_imp_le [OF True]]] by (simp only:)
next
  case False
  have "jaccard a b = (if length a = 0 \<or> length b = 0 then 0
      else (if length a + length b - length (filter (\<lambda>t. t \<in> set b) a) = 0 then 0
            else of_nat (length (filter (\<lambda>t. t \<in> set b) a)) / of_nat (length a + length b - length (filter (\<lambda>t. t \<in> set b) a))))"
    by (simp only: jaccard_def Let_def False if_False prod.case)
  then show ?thesis using if_le_1 [OF ratio_le_1 [OF leI [OF False]]] by (simp only:)
qed

lemma ordered_pairs_set: "(x, y) \<in> set (ordered_pairs xs) \<Longrightarrow> x \<in> set xs \<and> y \<in> set xs"
  by (induction xs) auto

text \<open>The groups hold the functions and methods of one package each, with the tokens of their names.\<close>

definition grouped :: "node list \<Rightarrow> package_table \<Rightarrow> bool" where
  "grouped nodes t \<longleftrightarrow> (\<forall>(pkg, grp) \<in> set t. \<forall>(h, tokens) \<in> set grp.
     \<exists>n \<in> set nodes. NodeHash n = h \<and> Kind n \<in> {''function'', ''method''} \<and> extractPackage (QualifiedName n) = pkg)"

lemma grouped_nodes: "set ns \<subseteq> set nodes \<Longrightarrow> grouped nodes t \<Longrightarrow> grouped nodes (fold group_node ns t)"
proof (induction ns arbitrary: t)
  case (Cons n ns)
  have "grouped nodes (group_node n t)"
  proof (cases "group_node n t = t")
    case False
    let ?pkg = "extractPackage (QualifiedName n)"
    let ?old = "case map_of t ?pkg of Some g \<Rightarrow> g | None \<Rightarrow> []"
    have kind: "Kind n \<in> {''function'', ''method''}" and
      new: "group_node n t = gomap_set ?pkg (?old @ [(NodeHash n, tokenize (QualifiedName n) (Signature n))]) t"
      using False by (auto simp: group_node_def Let_def split: if_splits)
    have old: "\<exists>m \<in> set nodes. NodeHash m = h \<and> Kind m \<in> {''function'', ''method''} \<and> extractPackage (QualifiedName m) = ?pkg"
      if "(h, tokens) \<in> set ?old" for h tokens
    proof (cases "map_of t ?pkg")
      case (Some g)
      then show ?thesis using that map_of_SomeD [OF Some] Cons.prems(2) unfolding grouped_def by fastforce
    qed (use that in simp)
    have sub: "set (group_node n t) \<subseteq> insert (?pkg, ?old @ [(NodeHash n, tokenize (QualifiedName n) (Signature n))]) (set t)"
      unfolding new by (rule gomap_set_subset)
    show ?thesis unfolding grouped_def
    proof (clarify)
      fix pkg grp h tokens
      assume g: "(pkg, grp) \<in> set (group_node n t)" "(h, tokens) \<in> set grp"
      consider (same) "(pkg, grp) \<in> set t" | (added) "pkg = ?pkg" "(h, tokens) \<in> set ?old \<or> h = NodeHash n"
        using subsetD [OF sub g(1)] g(2) by (cases "(pkg, grp) \<in> set t") auto
      then show "\<exists>m \<in> set nodes. NodeHash m = h \<and> Kind m \<in> {''function'', ''method''} \<and> extractPackage (QualifiedName m) = pkg"
      proof cases
        case same
        then show ?thesis using g(2) Cons.prems(2) unfolding grouped_def by fastforce
      next
        case added
        then show ?thesis using old kind Cons.prems(1) by auto
      qed
    qed
  qed (use Cons.prems in simp)
  then show ?case using Cons by simp
qed simp

text \<open>
  C40. Similarity edges are sparse and local. Whatever order the packages are visited in and however equal candidates are
  sorted, every symbol touches at most five edges, and every edge has a hash that verifies, a confidence above the
  threshold and at most 1, and leads from a function or method to one of the same package.
\<close>

theorem similarity_sparse:
  assumes "set (visit (fold group_node nodes [])) = set (fold group_node nodes [])" "\<And>cs. set (sort_desc cs) = set cs"
    "es = ComputeSimilarityEdges H visit sort_desc nodes threshold" "threshold > 0"
  shows "(\<forall>h. touching h es \<le> 5) \<and>
    (\<forall>e \<in> set es. VerifyEdgeHash H e = None \<and> threshold < Confidence e \<and> Confidence e \<le> 1 \<and>
      (\<exists>n \<in> set nodes. \<exists>m \<in> set nodes. NodeHash n = SourceHash e \<and> NodeHash m = TargetHash e \<and>
        Kind n \<in> {''function'', ''method''} \<and> extractPackage (QualifiedName n) = extractPackage (QualifiedName m)))"
proof -
  let ?P = "\<lambda>(a, b, j). threshold < j \<and> j \<le> 1 \<and>
      (\<exists>n \<in> set nodes. \<exists>m \<in> set nodes. NodeHash n = a \<and> NodeHash m = b \<and>
        Kind n \<in> {''function'', ''method''} \<and> extractPackage (QualifiedName n) = extractPackage (QualifiedName m))"
  let ?t = "fold group_node nodes []"
  let ?cs = "concat (map (\<lambda>(pkg, grp). group_candidates threshold grp) (visit ?t))"
  have g: "grouped nodes ?t" by (rule grouped_nodes) (simp_all add: grouped_def)
  have "?P c" if c: "c \<in> set ?cs" for c
  proof -
    obtain pkg grp where grp: "(pkg, grp) \<in> set ?t" "c \<in> set (group_candidates threshold grp)"
      using c assms(1) by auto
    then obtain a s b t where p: "((a, s), (b, t)) \<in> set (ordered_pairs grp)" "jaccard s t > threshold" "c = (a, b, jaccard s t)"
      by (auto simp: group_candidates_def split: if_splits)
    have "(a, s) \<in> set grp" "(b, t) \<in> set grp" using ordered_pairs_set [OF p(1)] by auto
    then have "\<exists>n \<in> set nodes. NodeHash n = a \<and> Kind n \<in> {''function'', ''method''} \<and> extractPackage (QualifiedName n) = pkg"
      "\<exists>n \<in> set nodes. NodeHash n = b \<and> Kind n \<in> {''function'', ''method''} \<and> extractPackage (QualifiedName n) = pkg"
      using g grp(1) unfolding grouped_def by fastforce+
    then show ?thesis using p(2,3) jaccard_le_1 [of s t] by (simp del: insert_iff) metis
  qed
  then have "\<forall>c \<in> set (sort_desc ?cs). ?P c" using assms(2) by blast
  then have run: "(\<forall>h. touching h (snd (fold (cap_candidate H) (sort_desc ?cs) (\<lambda>_. 0, []))) \<le> maxEdgesPerNode) \<and>
    (\<forall>e \<in> set (snd (fold (cap_candidate H) (sort_desc ?cs) (\<lambda>_. 0, []))).
       ?P (SourceHash e, TargetHash e, Confidence e) \<and> VerifyEdgeHash H e = None \<and> EdgeType e = ''similar_to'')"
    by (intro cap_fold) (simp_all add: touching_def)
  have "es = snd (fold (cap_candidate H) (sort_desc ?cs) (\<lambda>_. 0, []))"
    using assms(3,4) by (simp add: ComputeSimilarityEdges_def)
  then show ?thesis using run by (auto simp: maxEdgesPerNode_def)
qed

section \<open>Witnesses and the other generators\<close>

definition hint_node :: "hash \<Rightarrow> string \<Rightarrow> string \<Rightarrow> node" where
  "hint_node h qn kind =
     \<lparr>NodeHash = h, Node_FileHash = 1, QualifiedName = qn, Kind = kind, Line = 1, Signature = '''', Doc = '''',
      LastAuthor = '''', LastCommitAt = 0, CoveragePct = 0\<rparr>"

theorem type_hints_resolved_witness:
  "\<exists>e'. resolveTypeHintEdges (\<lambda>_. 3) id [hint_node 7 ''r://p.T'' ''interface''] [static_edge (\<lambda>_. 9) 5 3 ''type_hint_of'' 1 ''ast''] =
      (1, 0, [9], [e']) \<and> TargetHash e' = 7"
proof -
  let ?n = "[hint_node 7 ''r://p.T'' ''interface'']" and ?e = "static_edge (\<lambda>_. 9) 5 3 ''type_hint_of'' 1 ''ast''"
  obtain r d old es where run: "resolveTypeHintEdges (\<lambda>_. 3) id ?n [?e] = (r, d, old, es)" by (metis prod_cases4)
  have key: "node_key_of (hint_node 7 ''r://p.T'' ''interface'') = Some (''r'', ''p'', ''T'')" by code_simp
  have "names_node (\<lambda>_. 3) ?e (hint_node 7 ''r://p.T'' ''interface'')"
    unfolding names_node_def key by (simp add: ComputeNodeHash_def NewHash_def static_edge_def)
  moreover have "dangling_hint ?n ?e" "EdgeHash ?e = 9"
    by (simp_all add: dangling_hint_def static_edge_def hint_node_def ComputeEdgeHash_def NewHash_def)
  ultimately have facts: "list_all2 (resolves_to (\<lambda>_. 3) ?n) [?e] es" "old = [9]" "r = 1" "r + d = 1"
    using type_hints_resolved [of id ?n "\<lambda>_. 3" "[?e]" r d old es, OF _ run] by (auto simp: list_all2_Cons1)
  then obtain e' where "es = [e']" "TargetHash e' = 7"
    by (auto simp: list_all2_Cons1 resolves_to_def hint_node_def)
  with run facts(2-4) show ?thesis by auto
qed

theorem similarity_sparse_witness:
  "\<forall>h. touching h (ComputeSimilarityEdges (\<lambda>_. 3) id id
      [hint_node 7 ''r://pkg/x.ReadConfigFile'' ''function'', hint_node 8 ''r://pkg/x.WriteConfigFile'' ''function''] (1/2)) \<le> 5"
  using similarity_sparse [of id "[hint_node 7 ''r://pkg/x.ReadConfigFile'' ''function'', hint_node 8 ''r://pkg/x.WriteConfigFile'' ''function'']"
      id _ "\<lambda>_. 3" "1/2", OF _ _ refl] by simp

text \<open>Edges accumulated by hash are distinct by hash and keep what every candidate has.\<close>

definition acc_ok :: "(edge \<Rightarrow> bool) \<Rightarrow> edge_acc \<Rightarrow> bool" where
  "acc_ok P acc \<longleftrightarrow>
     fst acc = EdgeHash ` set (snd acc) \<and> distinct (map EdgeHash (snd acc)) \<and> (\<forall>e \<in> set (snd acc). P e)"

lemma acc_ok_add: "acc_ok P acc \<Longrightarrow> P e \<Longrightarrow> acc_ok P (add_unseen e acc)"
  by (auto simp: acc_ok_def add_unseen_def)

lemma acc_ok_fold:
  "(\<And>x acc. x \<in> set xs \<Longrightarrow> acc_ok P acc \<Longrightarrow> acc_ok P (f x acc)) \<Longrightarrow> acc_ok P acc \<Longrightarrow> acc_ok P (fold f xs acc)"
  by (induction xs arbitrary: acc) auto

lemma acc_ok_empty: "acc_ok P ({}, [])"
  by (simp add: acc_ok_def)

abbreviation verified :: "sha \<Rightarrow> edge \<Rightarrow> bool" where
  "verified H e \<equiv> VerifyEdgeHash H e = None"

definition all_verified :: "sha \<Rightarrow> edge list \<Rightarrow> bool" where
  "all_verified H es \<longleftrightarrow> (\<forall>e \<in> set es. verified H e) \<and> distinct (map EdgeHash es)"

lemma all_verified_acc: "acc_ok (verified H) acc \<Longrightarrow> all_verified H (snd acc)"
  by (simp add: acc_ok_def all_verified_def)

lemma inheritance_verified: "all_verified H (propagateInheritance H visit nodes edges)"
  unfolding propagateInheritance_def Let_def inherit_from_def
  by (intro all_verified_acc acc_ok_fold acc_ok_empty)
    (auto intro!: acc_ok_fold acc_ok_add static_edge_verifies split: option.splits)

lemma overrides_verified: "all_verified H (propagateInterfaceMethods H visit nodes edges)"
  unfolding propagateInterfaceMethods_def
  by (intro all_verified_acc acc_ok_fold acc_ok_empty)
    (auto simp: override_step_def intro!: acc_ok_fold acc_ok_add static_edge_verifies split: option.splits)

lemma hints_verified: "all_verified H (propagateInterfaceTypeHints H edges)"
proof (cases "implementors edges = []")
  case False
  show ?thesis unfolding propagateInterfaceTypeHints_def Let_def if_not_P [OF False]
    by (intro all_verified_acc acc_ok_fold acc_ok_empty)
      (auto intro!: acc_ok_fold acc_ok_add static_edge_verifies split: option.splits)
qed (simp add: propagateInterfaceTypeHints_def all_verified_def)

lemma contains_verified: "all_verified H (generateContainsEdges H nodes)"
proof (cases "type_names nodes = []")
  case False
  show ?thesis unfolding generateContainsEdges_def Let_def if_not_P [OF False]
    by (intro all_verified_acc acc_ok_fold acc_ok_empty)
      (auto simp: contains_step_def Let_def intro!: acc_ok_add static_edge_verifies split: option.splits)
qed (simp add: generateContainsEdges_def all_verified_def)

end
