(* ===== verification/Spec2Isabelle.thy ===== *)
theory Spec2Isabelle
  imports MerkleProof SnapshotVerify Resolver ExternalRepo WireBinary StoreRuntime SubgraphCache CommunityStore
    GraphDiff Isolation TraceIngest RwrCache ContextPack SessionMemory ImplicitFeedback Keywords
    ResolveCommand GoTypeText Authorship DerivedEdges
begin

text \<open>
  A verification development for knowing, a code knowledge graph engine written in Go
  (module github.com/blackwell-systems/knowing; paths below are relative to src/internal/, those that begin with cmd/ to src/).

  The program. An indexer extracts symbols (nodes) and relations (edges) from source files into an
  SQLite database. Everything is content addressed: nodes, edges and snapshots are named by SHA-256
  hashes of their contents. Taking a snapshot builds a three-level Merkle tree over the edges of a
  repository (package, edge type, edge) whose root names the state of the graph and from which inclusion
  and absence proofs are generated; snapshots form a chain that is walked, compared, verified and
  garbage collected. Resolvers retarget dangling edges to nodes of other repositories and evaluate the types
  of Go expressions; runtime traces add observed edges with a confidence. On top of the graph sit community
  detection, semantic diffs with their blast radius, an isolation score, and the retrieval of context for
  coding agents: keywords are extracted from a task, a random walk with restart spreads scores from the
  seeds, symbols are ranked with session and feedback memory and packed into a token budget, and the pack
  travels in one of several wire formats.

  Correspondence (theory: code, and what its lemmas show).

  \<^item> Prelude: no component of its own. Errors as sums, Go maps as association lists (\<open>gomap\<close>, in the order of
    insertion; \<open>gomap_ok\<close> says keys are distinct), the functions of strings, bytes, encoding/hex and sort the
    program calls, big-endian numerals.
  \<^item> GraphTypes: types/types.go, types/verify.go. Entities and hashes; hash texts parse back, the hash
    preimages identify the fields they are built from and never collide between domains.
  \<^item> MerkleTree, MerkleProof: snapshot/merkle.go, the construction half of snapshot/hierarchical.go,
    snapshot/proof.go. Proofs of every edge of a tree exist and verify; a verified proof of an absent edge
    exhibits a collision of \<open>H\<close>; absence proofs are generated exactly for absent edges, with inclusion
    proofs of the leaves next to them, and the verifier accepts one for an edge that is present.
  \<^item> HierarchicalDiff: the comparison half of snapshot/hierarchical.go and snapshot/classify.go. The diff of two trees
    is exact without a cap and a prefix of it under one.
  \<^item> SqlTable, FtsText, GraphStore, StoreProps, StoreRuntime: store/*.go. The locale \<open>keyed_table\<close> is the contract of a
    table with a primary key, interpreted on the tables the operations look up by key. The keys of the graph's tables survive every run of the operations
    of store/sqlite.go under any faults, batches and evictions are atomic, caches stay as visible as documented or are shown not to.
  \<^item> GraphTraversal: the recursive queries of store/sqlite.go. Callers and callees up to a depth are exactly
    those reachable by a path, in the documented order; the diff of snapshots is exact on events.
  \<^item> JsonText, SnapshotManager, SnapshotVerify: snapshot/manager.go, gc.go, verify.go. A snapshot extends the chain, a
    walk of the chain returns exactly when the chain is finite, garbage collection keeps the newest snapshots,
    verification of a graph written by the store reports nothing, and its error on collected chains.
  \<^item> Resolver, ExternalRepo: resolver/resolver.go, resolve/external.go. Every retargeted edge points to a node of another
    repository with the wanted name; the locale \<open>edge_store\<close> is the store the resolver relies on, interpreted on the SQLite model.
  \<^item> WireBinary: wire/binary.go, json.go, registry.go. Encoding and decoding are inverse on encodable payloads.
  \<^item> SubgraphCache: cache/subgraph.go as a step relation over critical sections with its invariant.
  \<^item> Community, CommunityStore: community/*.go and the incremental step of daemon/daemon.go. Every accepted Louvain
    move improves modularity; assignments read back as they were saved, and saving the changes equals saving all.
  \<^item> GraphDiff, Isolation: diff/semantic.go, impact.go, isolation.go.
  \<^item> TraceIngest: trace/*.go. Counts of an ingestion, and batching as a refinement of ingesting one by one.
  \<^item> RandomWalk, Base64, AdjacencyCache, RwrCache: context/walk.go. The scores are those of a restart iteration over all
    nodes, weighted by the edges and damped across modules, whose mass stays within bounds, or NaN; breadth-first
    distances are shortest paths (equal to a reference definition), the graph walked is the store's within the level bound
    (locale \<open>level_search\<close>), caches round trip and replay.
  \<^item> ContextRanking, ContextPack: context/ranking.go, sweep.go, tokens.go, delta.go, pack_compare.go and the packing of
    context/context.go. Score bounds, and the refinement of an abstract maximal packing by all strategies (given that powers of positive bases are not negative; locale
    \<open>budget_packing\<close>).
  \<^item> SessionMemory, ImplicitFeedback: context/session.go, task_memory.go, hits.go, implicit.go as state machines with
    invariants by rule induction.
  \<^item> Keywords: the text side of context/context.go (locale \<open>extraction_invariant\<close> carries any property of the keywords that
    every addition keeps through the extraction).
  \<^item> TypeModel, SyntaxTree, GoSignatures, GoTypeText, GoTypeEval, GoStdlib, GoResolve: typresolve/{types,scope,registry}.go and
    typresolve/go/*.go. Types are finite trees, scopes lists of levels, a registry chains to the standard library's. The
    reader of signature texts inverts a printer of Go types, except for channels of receive channels and names that begin with
    \<open>func\<close>, which it misreads; promotion lookup is exact up to its depth; the syntax trees of tree-sitter
    are a datatype with the accessors the code calls, and evaluation, binding and the walk recurse on them.
  \<^item> GoTypeSafety, GoCallEdges, ResolveCommand: the invariants of that walk and cmd/knowing/resolve.go. Evaluation is type
    safe, closures leave the scopes of their function alone, every emitted edge verifies and starts in the file's package; the
    locale \<open>edge_resolver\<close> is what the command relies on of a resolver, interpreted on the Go resolver. All edges
    it adds verify and belong to the repository with the empty URL, which is a defect of the code.
  \<^item> LineScanner, Ownership, Authorship, DerivedEdges: indexer/ownership, indexer/authorship, the second half of
    indexer/indexer.go and indexer/similarity.go. CODEOWNERS and git blame give exactly the edges of the last matching rule
    and of the primary author; derived edges verify and are distinct by hash, type hints are turned exactly when they name a node, similarity stays sparse.

  Parameters. Code outside the repository, and what HOL cannot compute, is an argument of the definitions that use it:
  SHA-256 (\<open>H\<close>, from byte strings to 256-bit words; nothing is assumed of it, soundness theorems exhibit a collision instead), the
  tree builder of the module merkle-strata (\<open>B\<close>, with its documented specification as a hypothesis), the clock, the environment,
  math.Sqrt, Exp and Pow (with the laws a proof needs as named hypotheses), sort.Slice (any sorting permutation, since it
  is not stable), the order in which a range loop visits a map, shuffles, formatted floats, and the bit patterns of floats.

  Conventions. A string is its list of bytes as characters; ToLower, TrimSpace and Fields are modelled on ASCII. A Go int
  that cannot overflow in the code's use is \<open>int\<close> or \<open>nat\<close>, and a word where wrap-around is visible (wire codecs). A
  float64 score is an exact rational, with an extra value for NaN where a division by zero produces one; rounding is not
  modelled. An error is the left of a sum. An operation of the store consumes one entry of a script of faults for each
  statement it sends, so every theorem over an arbitrary script covers every error path. Concurrency is modelled where state is
  shared between goroutines: the critical sections under a mutex are the steps of a relation. Where one recursion of the program
  reads the clock repeatedly, one reading stands for them.

  Bounds and fuel. The walk of the parent chain may not return on a cyclic chain: it is a \<open>partial_function\<close> with value
  \<open>None\<close>, and it is proved to return exactly on finite chains. Recursive queries are indexed by depth, which the program bounds itself.
  Louvain's loops carry the program's own iteration limits. All other loops recurse on the data.

  Not modelled, and why.

  \<^item> IndexRepo and IndexFilesIncremental (indexer/indexer.go): the walk over the file system and the pipeline of goroutines
    that feed the store and the derived edges.
  \<^item> The extractors of indexer/* and the resolvers for the six languages other than Go (typresolve/*): they
    walk syntax trees of tree-sitter grammars and assemble what they find; one per language, of one shape.
  \<^item> mcp/*, cmd/knowing (except resolve.go), bench, hooks: protocol and command-line glue, printing and measurement around the operations modelled here.
  \<^item> enrichment/*, embedding/*: drive external language servers and embedding models over processes and the network.
  \<^item> The remaining files of daemon (file watching, git subprocesses, signals, lock files) are operating system calls.
  \<^item> In context: the orchestration of ForTask, ForFiles and ForPR, the rendering of text in format.go and explain.go,
    and the equivalence tables.
  \<^item> In store: opening, migrations, pragmas and the ranking of FTS5 (code of SQLite). In trace: the gRPC server. In wire:
    the text of GCF (module gcf-go).
\<close>

end
